(* ===== verification/Prelude.thy ===== *)
theory Prelude
  imports Main "HOL-Library.Word"
begin

text \<open>
  Shared ground of the development: the names of the machine types, the collections of facts
  the component proofs share, and generic lemmas on lists, options and words that no component
  owns.  Nothing in this theory models code of the repository.
\<close>

unbundle bit_operations_syntax

type_synonym u8 = "8 word"
type_synonym u16 = "16 word"
type_synonym u32 = "32 word"
type_synonym u64 = "64 word"

text \<open>Facts that describe what an operation does to an abstract view of its state.\<close>
named_theorems view_simps

text \<open>Facts that say which parts of the state an operation leaves alone.\<close>
named_theorems frame_simps


subsection \<open>Options and lists\<close>

text \<open>First and last element as a nullable pointer.\<close>

fun first_of :: "'a list \<Rightarrow> 'a option" where
  "first_of [] = None"
| "first_of (x # xs) = Some x"

fun last_of :: "'a list \<Rightarrow> 'a option" where
  "last_of [] = None"
| "last_of (x # xs) = (if xs = [] then Some x else last_of xs)"

lemma first_of_None [simp]: "first_of xs = None \<longleftrightarrow> xs = []" "None = first_of xs \<longleftrightarrow> xs = []"
  by (cases xs; simp)+

lemma last_of_None [simp]: "last_of xs = None \<longleftrightarrow> xs = []" "None = last_of xs \<longleftrightarrow> xs = []"
  by (induction xs) (auto split: if_splits)

lemma first_of_append [simp]: "first_of (xs @ ys) = (if xs = [] then first_of ys else first_of xs)"
  by (cases xs) auto

lemma last_of_append [simp]: "last_of (xs @ ys) = (if ys = [] then last_of xs else last_of ys)"
  by (induction xs) auto

lemma last_of_SomeD: "last_of xs = Some x \<Longrightarrow> \<exists>ys. xs = ys @ [x]"
  by (induction xs) (auto split: if_splits)

lemma first_of_SomeD: "first_of xs = Some x \<Longrightarrow> \<exists>ys. xs = x # ys"
  by (cases xs) auto

lemma first_of_in_set: "first_of xs = Some x \<Longrightarrow> x \<in> set xs"
  by (cases xs) auto

lemma last_of_in_set: "last_of xs = Some x \<Longrightarrow> x \<in> set xs"
  by (auto dest: last_of_SomeD)

lemma distinct_split_unique:
  "distinct (xs @ a # ys) \<Longrightarrow> xs @ a # ys = xs' @ a # ys' \<Longrightarrow> xs = xs' \<and> ys = ys'"
  by (auto simp: append_eq_append_conv2 append_eq_Cons_conv Cons_eq_append_conv)


subsection \<open>Words\<close>

lemma sum_list_word_append: "sum_list (map f (xs @ ys)) = sum_list (map f xs) + sum_list (map f ys)"
  for f :: "'a \<Rightarrow> 'b::len word"
  by simp

lemma sum_list_fun_upd_distinct:
  fixes f :: "'a \<Rightarrow> 'b::len word"
  assumes "distinct (xs @ a # ys)" and "\<And>b. b \<noteq> a \<Longrightarrow> g b = f b"
  shows "(\<Sum>b\<leftarrow>xs @ a # ys. g b) = (\<Sum>b\<leftarrow>xs @ a # ys. f b) - f a + g a"
proof -
  have "map g xs = map f xs" "map g ys = map f ys"
    using assms by (intro map_cong; force)+
  then show ?thesis by (simp del: map_eq_conv)
qed

text \<open>Widening a quantity: subtraction of no more than what is there commutes with it.\<close>

lemma unat_ucast_u32_u64 [simp]: "unat (ucast (x :: u32) :: u64) = unat x"
proof -
  have "unat x < 2 ^ 64"
    using unsigned_less [of x, where ?'a = nat] by simp
  then show ?thesis by (simp add: unsigned_ucast_eq take_bit_nat_eq_self)
qed

lemma ucast_u32_diff: "d \<le> x \<Longrightarrow> (ucast (x - d) :: u64) = ucast x - ucast d"
  for x d :: u32
  by (simp add: word_unat_eq_iff unat_sub_if' word_le_nat_alt)

lemma unat_diff_u32: "d \<le> x \<Longrightarrow> unat (x - d) = unat x - unat d"
  for x d :: u32
  by (simp add: unat_sub_if' word_le_nat_alt)

lemma unat_of_nat_u32: "n < 2 ^ 32 \<Longrightarrow> unat (of_nat n :: u32) = n"
  by (simp add: unsigned_of_nat take_bit_nat_eq_self)

lemma unat_of_nat_u64: "n < 2 ^ 64 \<Longrightarrow> unat (of_nat n :: u64) = n"
  by (simp add: unsigned_of_nat take_bit_nat_eq_self)

lemma of_nat_u32_eq_0: "n < 2 ^ 32 \<Longrightarrow> (of_nat n :: u32) = 0 \<longleftrightarrow> n = 0"
  by (auto simp: word_of_nat_eq_0_iff dest: dvd_imp_le)

lemma unat_min_u32: "unat (if a < b then a else b) = min (unat a) (unat b)" for a b :: u32
  by (simp add: word_less_nat_alt)

lemma unat_pow2: "k < 64 \<Longrightarrow> unat (2 ^ k :: u64) = 2 ^ k"
  using unsigned_of_nat [of "2 ^ k :: nat", where ?'a = nat and ?'b = 64] by (simp add: take_bit_nat_eq_self)

end
