(* ===== verification/Types.thy ===== *)
theory Types
  imports Prelude
begin

text \<open>
  The vocabulary of the library, from \<^verbatim>\<open>include/pricetime/types.hpp\<close>.

  A price is an \<^verbatim>\<open>int64_t\<close> tick count; the code only compares prices and casts them, so it
  is an \<^typ>\<open>int\<close> here and every cast is written out where it happens.  Quantities and ids are
  words of the code's width.  An order node is named by the address of its cell in the arena
  (\<^verbatim>\<open>Order*\<close>), a null pointer is \<^term>\<open>None\<close>, and a level is named by the side and the
  price it is stored under in the ladder (\<^verbatim>\<open>Level*\<close>): levels never move while they are
  alive, so this names exactly one object.
\<close>

type_synonym Price = int
type_synonym Qty = u32
type_synonym OrderId = u64
type_synonym ParticipantId = u16

datatype Side = Bid | Ask

datatype TimeInForce = GoodTillCancel | ImmediateOrCancel | FillOrKill

definition opposite :: "Side \<Rightarrow> Side" where
  "opposite s = (if s = Bid then Ask else Bid)"

type_synonym addr = nat
type_synonym level_ref = "Side \<times> Price"

record Order =
  ord_id :: OrderId
  ord_price :: Price
  ord_qty :: Qty
  ord_side :: Side
  ord_participant :: ParticipantId
  ord_prev :: "addr option"
  ord_next :: "addr option"
  ord_level :: "level_ref option"

text \<open>The value-initialised node \<^verbatim>\<open>Order{}\<close>.\<close>

definition order_default :: Order where
  "order_default = \<lparr>ord_id = 0, ord_price = 0, ord_qty = 0, ord_side = Bid, ord_participant = 0,
     ord_prev = None, ord_next = None, ord_level = None\<rparr>"

type_synonym heap = "addr \<Rightarrow> Order"

record Execution =
  ex_resting_id :: OrderId
  ex_aggressor_id :: OrderId
  ex_price :: Price
  ex_qty :: Qty

lemma opposite_simps [simp]: "opposite Bid = Ask" "opposite Ask = Bid"
  by (simp_all add: opposite_def)

lemma opposite_opposite [simp]: "opposite (opposite s) = s"
  by (cases s) auto

lemma opposite_neq [simp]: "opposite s \<noteq> s" "s \<noteq> opposite s"
  by (cases s; simp)+

lemma side_neq_opposite: "s \<noteq> t \<longleftrightarrow> t = opposite s"
  by (cases s; cases t) auto

instantiation Side :: linorder
begin

definition less_eq_Side :: "Side \<Rightarrow> Side \<Rightarrow> bool" where
  "less_eq_Side a b \<longleftrightarrow> a = Bid \<or> b = Ask"

definition less_Side :: "Side \<Rightarrow> Side \<Rightarrow> bool" where
  "less_Side a b \<longleftrightarrow> a = Bid \<and> b = Ask"

instance
  by standard (auto simp: less_eq_Side_def less_Side_def intro: Side.exhaust; metis Side.exhaust)+

end

text \<open>\<^verbatim>\<open>static_cast<std::uint64_t>(side)\<close> and back.\<close>

definition side_num :: "Side \<Rightarrow> u64" where
  "side_num s = (if s = Bid then 0 else 1)"

lemma side_num_inj: "side_num s = side_num t \<longleftrightarrow> s = t"
  by (cases s; cases t) (simp_all add: side_num_def)

end
