(* ===== verification/Level.thy ===== *)
theory Level
  imports Types
begin

text \<open>
  A price level (\<^verbatim>\<open>include/pricetime/level.hpp\<close>): an intrusive doubly linked FIFO of order
  nodes with two aggregates.  The operations are the code's, on an explicit heap of order nodes;
  \<open>this\<close> is passed as the level's name.  The lemmas relate the linked representation to the list
  of node addresses from head to tail.
\<close>

record Level =
  lvl_price :: Price
  lvl_total_qty :: u64
  lvl_order_count :: u32
  lvl_head :: "addr option"
  lvl_tail :: "addr option"

definition level_default :: Level where
  "level_default = \<lparr>lvl_price = 0, lvl_total_qty = 0, lvl_order_count = 0,
     lvl_head = None, lvl_tail = None\<rparr>"

definition level_empty :: "Level \<Rightarrow> bool" where
  "level_empty lv \<longleftrightarrow> lvl_order_count lv = 0"

definition level_push_back :: "level_ref \<Rightarrow> addr \<Rightarrow> heap \<Rightarrow> Level \<Rightarrow> heap \<times> Level" where
  "level_push_back this a h lv =
     (let h = h(a := (h a)\<lparr>ord_prev := lvl_tail lv, ord_next := None, ord_level := Some this\<rparr>);
          (h, lv) = (case lvl_tail lv of
             Some t \<Rightarrow> (h(t := (h t)\<lparr>ord_next := Some a\<rparr>), lv)
           | None \<Rightarrow> (h, lv\<lparr>lvl_head := Some a\<rparr>));
          lv = lv\<lparr>lvl_tail := Some a\<rparr>;
          lv = lv\<lparr>lvl_order_count := lvl_order_count lv + 1\<rparr>;
          lv = lv\<lparr>lvl_total_qty := lvl_total_qty lv + ucast (ord_qty (h a))\<rparr>
      in (h, lv))"

definition level_reduce :: "addr \<Rightarrow> Qty \<Rightarrow> heap \<Rightarrow> Level \<Rightarrow> heap \<times> Level" where
  "level_reduce a delta h lv =
     (h(a := (h a)\<lparr>ord_qty := ord_qty (h a) - delta\<rparr>),
      lv\<lparr>lvl_total_qty := lvl_total_qty lv - ucast delta\<rparr>)"

definition level_remove :: "addr \<Rightarrow> heap \<Rightarrow> Level \<Rightarrow> heap \<times> Level" where
  "level_remove a h lv =
     (let (h, lv) = (case ord_prev (h a) of
             Some p \<Rightarrow> (h(p := (h p)\<lparr>ord_next := ord_next (h a)\<rparr>), lv)
           | None \<Rightarrow> (h, lv\<lparr>lvl_head := ord_next (h a)\<rparr>));
          (h, lv) = (case ord_next (h a) of
             Some n \<Rightarrow> (h(n := (h n)\<lparr>ord_prev := ord_prev (h a)\<rparr>), lv)
           | None \<Rightarrow> (h, lv\<lparr>lvl_tail := ord_prev (h a)\<rparr>));
          lv = lv\<lparr>lvl_order_count := lvl_order_count lv - 1\<rparr>;
          lv = lv\<lparr>lvl_total_qty := lvl_total_qty lv - ucast (ord_qty (h a))\<rparr>;
          h = h(a := (h a)\<lparr>ord_prev := None, ord_next := None, ord_level := None\<rparr>)
      in (h, lv))"


subsection \<open>The linked list as a list of addresses\<close>

text \<open>\<open>dll h p as n\<close>: the nodes \<open>as\<close> are linked in this order, the node before them being \<open>p\<close>
  and the one after them \<open>n\<close>.\<close>

fun dll :: "heap \<Rightarrow> addr option \<Rightarrow> addr list \<Rightarrow> addr option \<Rightarrow> bool" where
  "dll h p [] n \<longleftrightarrow> True"
| "dll h p (a # as) n \<longleftrightarrow> ord_prev (h a) = p
     \<and> ord_next (h a) = (if as = [] then n else first_of as) \<and> dll h (Some a) as n"

lemma dll_append:
  "dll h p (as @ bs) n \<longleftrightarrow>
     dll h p as (if bs = [] then n else first_of bs)
     \<and> dll h (if as = [] then p else last_of as) bs n"
  by (induction as arbitrary: p) (cases bs; auto)+

lemma dll_cong:
  assumes "\<And>a. a \<in> set as \<Longrightarrow> ord_prev (h' a) = ord_prev (h a) \<and> ord_next (h' a) = ord_next (h a)"
  shows "dll h' p as n = dll h p as n"
  using assms by (induction as arbitrary: p) auto

text \<open>What a level keeps true: the links, the back pointers and both aggregates agree with the
  list of its nodes.\<close>

definition level_ok :: "heap \<Rightarrow> level_ref \<Rightarrow> Level \<Rightarrow> addr list \<Rightarrow> bool" where
  "level_ok h r lv as \<longleftrightarrow>
     lvl_price lv = snd r \<and> lvl_head lv = first_of as \<and> lvl_tail lv = last_of as
     \<and> distinct as \<and> dll h None as None
     \<and> (\<forall>a \<in> set as. ord_level (h a) = Some r)
     \<and> lvl_order_count lv = of_nat (length as)
     \<and> lvl_total_qty lv = (\<Sum>a\<leftarrow>as. ucast (ord_qty (h a)))"

text \<open>The nodes of a level, read off the links the way the code walks them:
  \<^verbatim>\<open>for (o = lvl.head; o != nullptr; o = o->next)\<close>.  The number of orders is the fuel; a walk that
  does not end within it is \<^term>\<open>None\<close>.\<close>

fun walk_nodes :: "heap \<Rightarrow> addr option \<Rightarrow> nat \<Rightarrow> addr list option" where
  "walk_nodes h None n = Some []"
| "walk_nodes h (Some a) 0 = None"
| "walk_nodes h (Some a) (Suc n) = map_option (Cons a) (walk_nodes h (ord_next (h a)) n)"

definition level_nodes :: "heap \<Rightarrow> Level \<Rightarrow> addr list option" where
  "level_nodes h lv = walk_nodes h (lvl_head lv) (unat (lvl_order_count lv))"

lemma walk_nodes_dll: "dll h p as None \<Longrightarrow> walk_nodes h (first_of as) (length as) = Some as"
proof (induction as arbitrary: p)
  case Nil
  then show ?case by simp
next
  case (Cons a as)
  then have "walk_nodes h (first_of as) (length as) = Some as" by auto
  with Cons.prems show ?case by (cases as) auto
qed

lemma level_nodes_eq:
  assumes "level_ok h r lv as" and "length as < 2 ^ 32"
  shows "level_nodes h lv = Some as"
  using assms walk_nodes_dll [of h None as]
  by (simp add: level_nodes_def level_ok_def unat_of_nat_u32)

lemma level_ok_cong:
  assumes "\<And>a. a \<in> set as \<Longrightarrow> h' a = h a"
  shows "level_ok h' r lv as = level_ok h r lv as"
proof -
  have "dll h' None as None = dll h None as None"
    using assms by (intro dll_cong) simp
  moreover have "(\<Sum>a\<leftarrow>as. ucast (ord_qty (h' a)) :: u64) = (\<Sum>a\<leftarrow>as. ucast (ord_qty (h a)))"
    using assms by (intro arg_cong [where f = sum_list] map_cong) auto
  ultimately show ?thesis
    using assms by (simp add: level_ok_def)
qed

text \<open>An order as the matching rules see it: who it is, how much is left, whose it is.\<close>

record entry =
  en_id :: OrderId
  en_qty :: Qty
  en_owner :: ParticipantId

definition entry_at :: "heap \<Rightarrow> addr \<Rightarrow> entry" where
  "entry_at h a = \<lparr>en_id = ord_id (h a), en_qty = ord_qty (h a), en_owner = ord_participant (h a)\<rparr>"

text \<open>The fields of an order the linking operations never touch.\<close>

definition payload :: "Order \<Rightarrow> OrderId \<times> Price \<times> Qty \<times> Side \<times> ParticipantId" where
  "payload o1 = (ord_id o1, ord_price o1, ord_qty o1, ord_side o1, ord_participant o1)"

lemma payload_update [simp]:
  "payload (ord1\<lparr>ord_prev := p\<rparr>) = payload ord1"
  "payload (ord1\<lparr>ord_next := p\<rparr>) = payload ord1"
  "payload (ord1\<lparr>ord_level := l\<rparr>) = payload ord1"
  by (simp_all add: payload_def)

lemma payload_entry: "payload (h' a) = payload (h a) \<Longrightarrow> entry_at h' a = entry_at h a"
  by (simp add: payload_def entry_at_def)

subsection \<open>What the queue operations do to the list\<close>

lemma level_push_back_ok:
  assumes ok: "level_ok h r lv as" and a: "a \<notin> set as"
    and pb: "level_push_back r a h lv = (h', lv')"
  shows "level_ok h' r lv' (as @ [a])"
    and "\<And>b. b \<notin> set (as @ [a]) \<Longrightarrow> h' b = h b"
    and "\<And>b. payload (h' b) = payload (h b)"
proof -
  let ?t = "lvl_tail lv"
  have t: "?t = last_of as" and hd1: "lvl_head lv = first_of as" using ok by (auto simp: level_ok_def)
  have q: "ord_qty (h' b) = ord_qty (h b)" for b
    using pb by (auto simp: level_push_back_def Let_def split: option.splits if_splits)
  show frame: "\<And>b. b \<notin> set (as @ [a]) \<Longrightarrow> h' b = h b"
    using pb t by (auto simp: level_push_back_def Let_def split: option.splits dest: last_of_SomeD)
  show "\<And>b. payload (h' b) = payload (h b)"
    using pb by (auto simp: level_push_back_def Let_def split: option.splits)
  have links: "dll h' None (as @ [a]) None"
  proof (cases as rule: rev_exhaust)
    case Nil
    then show ?thesis using pb t by (auto simp: level_push_back_def Let_def)
  next
    case (snoc xs x)
    then have x: "?t = Some x" "x \<noteq> a" "x \<notin> set xs" using t a ok by (auto simp: level_ok_def)
    have h': "h' = (h(a := (h a)\<lparr>ord_prev := Some x, ord_next := None, ord_level := Some r\<rparr>))
                   (x := (h x)\<lparr>ord_next := Some a\<rparr>)"
      using pb x by (auto simp: level_push_back_def Let_def)
    have "dll h None xs (Some x)" "ord_prev (h x) = last_of xs"
      using ok snoc by (auto simp: level_ok_def dll_append split: if_splits)
    moreover have "dll h' None xs (Some x) = dll h None xs (Some x)"
      using a snoc x by (intro dll_cong) (auto simp: h')
    ultimately show ?thesis using snoc x by (auto simp: dll_append h')
  qed
  have lvl: "\<forall>b\<in>set (as @ [a]). ord_level (h' b) = Some r"
    using ok pb a t by (auto simp: level_push_back_def level_ok_def Let_def split: option.splits dest: last_of_SomeD)
  have lv': "lvl_price lv' = lvl_price lv" "lvl_head lv' = first_of (as @ [a])" "lvl_tail lv' = Some a"
    "lvl_order_count lv' = lvl_order_count lv + 1"
    "lvl_total_qty lv' = lvl_total_qty lv + ucast (ord_qty (h a))"
    using pb hd1 t by (auto simp: level_push_back_def Let_def split: option.splits)
  show "level_ok h' r lv' (as @ [a])"
    using ok a links lvl lv' q by (simp add: level_ok_def)
qed

lemma level_reduce_ok:
  assumes ok: "level_ok h r lv as" and a: "a \<in> set as" and d: "d \<le> ord_qty (h a)"
    and red: "level_reduce a d h lv = (h', lv')"
  shows "level_ok h' r lv' as"
    and "h' = h(a := (h a)\<lparr>ord_qty := ord_qty (h a) - d\<rparr>)"
proof -
  show h': "h' = h(a := (h a)\<lparr>ord_qty := ord_qty (h a) - d\<rparr>)"
    using red by (simp add: level_reduce_def)
  obtain xs ys where as: "as = xs @ a # ys" using a by (auto dest: split_list)
  have "dll h' None as None = dll h None as None"
    by (intro dll_cong) (auto simp: h')
  moreover have "(\<Sum>b\<leftarrow>as. ucast (ord_qty (h' b)) :: u64)
      = (\<Sum>b\<leftarrow>as. ucast (ord_qty (h b))) - ucast (ord_qty (h a)) + ucast (ord_qty (h' a))"
    using ok unfolding as by (intro sum_list_fun_upd_distinct) (auto simp: level_ok_def h')
  moreover have "(ucast (ord_qty (h' a)) :: u64) = ucast (ord_qty (h a)) - ucast d"
    using d by (simp add: h' ucast_u32_diff)
  ultimately show "level_ok h' r lv' as"
    using ok red by (auto simp: level_ok_def level_reduce_def)
qed

lemma level_remove_ok:
  assumes ok: "level_ok h r lv (xs @ a # ys)"
    and rem: "level_remove a h lv = (h', lv')"
  shows "level_ok h' r lv' (xs @ ys)"
    and "\<And>b. b \<notin> set (xs @ a # ys) \<Longrightarrow> h' b = h b"
    and "\<And>b. payload (h' b) = payload (h b)"
    and "ord_level (h' a) = None"
proof -
  have d: "distinct (xs @ a # ys)" and pn: "ord_prev (h a) = last_of xs" "ord_next (h a) = first_of ys"
    and dx: "dll h None xs (Some a)" and dy: "dll h (Some a) ys None"
    using ok by (auto simp: level_ok_def dll_append split: if_splits)
  have q: "ord_qty (h' b) = ord_qty (h b)" for b
    using rem by (auto simp: level_remove_def Let_def split: option.splits if_splits)
  show frame: "\<And>b. b \<notin> set (xs @ a # ys) \<Longrightarrow> h' b = h b"
    using rem pn by (auto simp: level_remove_def Let_def split: option.splits dest!: last_of_in_set first_of_in_set)
  show "\<And>b. payload (h' b) = payload (h b)"
    using rem by (auto simp: level_remove_def Let_def split: option.splits if_splits)
  show "ord_level (h' a) = None"
    using rem by (auto simp: level_remove_def Let_def split: option.splits if_splits)
  have lv': "lvl_price lv' = lvl_price lv"
    "lvl_head lv' = (if xs = [] then first_of ys else lvl_head lv)"
    "lvl_tail lv' = (if ys = [] then last_of xs else lvl_tail lv)"
    "lvl_order_count lv' = lvl_order_count lv - 1"
    "lvl_total_qty lv' = lvl_total_qty lv - ucast (ord_qty (h a))"
    using rem pn d by (auto simp: level_remove_def Let_def split: option.splits if_splits)
  have lvl: "\<forall>b\<in>set (xs @ ys). ord_level (h' b) = Some r"
    using ok rem d pn by (auto simp: level_remove_def level_ok_def Let_def split: option.splits if_splits)
  have prevs: "ord_prev (h' b) = (if first_of ys = Some b then last_of xs else ord_prev (h b))"
    if "b \<in> set (xs @ ys)" for b
    using that rem pn d by (auto simp: level_remove_def Let_def split: option.splits if_splits)
  have nexts: "ord_next (h' b) = (if last_of xs = Some b then first_of ys else ord_next (h b))"
    if "b \<in> set (xs @ ys)" for b
    using that rem pn d by (auto simp: level_remove_def Let_def split: option.splits if_splits)
  have "dll h' None xs (first_of ys)"
  proof (cases xs rule: rev_exhaust)
    case (snoc zs z)
    then have "dll h' None zs (Some z) = dll h None zs (Some z)"
      using d prevs nexts by (intro dll_cong) (auto dest: first_of_SomeD)
    with snoc dx d prevs [of z] nexts [of z] show ?thesis
      by (auto simp: dll_append dest: first_of_SomeD split: if_splits)
  qed simp
  moreover have "dll h' (last_of xs) ys None"
  proof (cases ys)
    case (Cons z zs)
    then have "dll h' (Some z) zs None = dll h (Some z) zs None"
      using d prevs nexts by (intro dll_cong) (auto dest: last_of_SomeD)
    with Cons dy d prevs [of z] nexts [of z] show ?thesis
      by (auto dest: last_of_SomeD split: if_splits)
  qed simp
  ultimately have links: "dll h' None (xs @ ys) None"
    by (auto simp: dll_append)
  have heads: "lvl_head lv = first_of (xs @ a # ys)" "lvl_tail lv = last_of (xs @ a # ys)"
    "lvl_order_count lv = of_nat (length (xs @ a # ys))"
    "lvl_total_qty lv = (\<Sum>b\<leftarrow>xs @ a # ys. ucast (ord_qty (h b)))"
    using ok by (auto simp: level_ok_def)
  show "level_ok h' r lv' (xs @ ys)"
    unfolding level_ok_def using ok d links lvl lv' heads q
    by (auto simp: level_ok_def)
qed

end
