(* ===== verification/Ladder.thy ===== *)
theory Ladder
  imports Level "HOL-Library.Monad_Syntax"
begin

text \<open>
  What \<^verbatim>\<open>OrderBook\<close> relies on of its \<^verbatim>\<open>Ladder\<close> policy, as a locale, and the sorted association
  lists the contract is stated over.  A ladder maps a price to a \<^verbatim>\<open>Level\<close> on each side and visits
  the levels from best to worst.  The theories \<open>LadderMap\<close>, \<open>LadderPooled\<close> and \<open>LadderDense\<close> model
  the three ladders of the code and discharge the laws.
\<close>

subsection \<open>Sorted association lists, best price first\<close>

text \<open>\<open>before s a b\<close>: on side \<open>s\<close> the price \<open>a\<close> comes strictly before \<open>b\<close>, the order of
  \<^verbatim>\<open>std::map<Price, Level, std::greater<Price>>\<close> for bids and of \<^verbatim>\<open>std::map<Price, Level>\<close> for
  asks.\<close>

definition before :: "Side \<Rightarrow> Price \<Rightarrow> Price \<Rightarrow> bool" where
  "before s a b \<longleftrightarrow> (if s = Bid then a > b else a < b)"

lemma before_irrefl [simp]: "\<not> before s a a"
  by (simp add: before_def)

lemma before_trans: "before s a b \<Longrightarrow> before s b c \<Longrightarrow> before s a c"
  by (auto simp: before_def split: if_splits)

lemma before_total: "a \<noteq> b \<Longrightarrow> before s a b \<or> before s b a"
  by (auto simp: before_def)

lemma before_asym: "before s a b \<Longrightarrow> \<not> before s b a"
  by (auto simp: before_def split: if_splits)

lemma before_opposite: "before (opposite s) a b \<longleftrightarrow> before s b a"
  by (cases s) (auto simp: before_def)

definition ladder_sorted :: "Side \<Rightarrow> (Price \<times> 'a) list \<Rightarrow> bool" where
  "ladder_sorted s xs \<longleftrightarrow> sorted_wrt (before s) (map fst xs)"

text \<open>Insertion at the sorted place, replacing a value that is there.\<close>

fun put :: "Side \<Rightarrow> Price \<Rightarrow> 'a \<Rightarrow> (Price \<times> 'a) list \<Rightarrow> (Price \<times> 'a) list" where
  "put s p v [] = [(p, v)]"
| "put s p v ((q, w) # xs) =
     (if p = q then (p, v) # xs
      else if before s p q then (p, v) # (q, w) # xs
      else (q, w) # put s p v xs)"

definition del :: "Price \<Rightarrow> (Price \<times> 'a) list \<Rightarrow> (Price \<times> 'a) list" where
  "del p xs = filter (\<lambda>(q, _). q \<noteq> p) xs"

lemma ladder_sorted_simps [simp]:
  "ladder_sorted s []"
  "ladder_sorted s ((p, v) # xs) \<longleftrightarrow> (\<forall>q \<in> fst ` set xs. before s p q) \<and> ladder_sorted s xs"
  by (auto simp: ladder_sorted_def)

lemma before_all: "\<forall>x \<in> set xs. before s p (fst x) \<Longrightarrow> (q, w) \<in> set xs \<Longrightarrow> before s p q"
  by force

lemma del_simps [simp]:
  "del p [] = []"
  "del p ((q, v) # xs) = (if p = q then del p xs else (q, v) # del p xs)"
  by (auto simp: del_def)

lemma keys_put [simp]: "fst ` set (put s p v xs) = insert p (fst ` set xs)"
  by (induction xs rule: put.induct) auto

lemma keys_del [simp]: "fst ` set (del p xs) = fst ` set xs - {p}"
  by (auto simp: del_def image_iff)

lemma del_absent [simp]: "p \<notin> fst ` set xs \<Longrightarrow> del p xs = xs"
  by (induction xs) auto

lemma sorted_put [simp]: "ladder_sorted s xs \<Longrightarrow> ladder_sorted s (put s p v xs)"
  by (induction s p v xs rule: put.induct) (auto dest: before_trans before_total)

lemma sorted_del [simp]: "ladder_sorted s xs \<Longrightarrow> ladder_sorted s (del p xs)"
  by (induction xs) auto

lemma put_put [simp]: "put s p v (put s p w xs) = put s p v xs"
  by (induction s p w xs rule: put.induct) auto

lemma del_put [simp]: "ladder_sorted s xs \<Longrightarrow> del p (put s p v xs) = del p xs"
  by (induction s p v xs rule: put.induct) auto

lemma map_of_put [simp]: "ladder_sorted s xs \<Longrightarrow> map_of (put s p v xs) = (map_of xs)(p \<mapsto> v)"
  by (induction s p v xs rule: put.induct) (auto simp: fun_eq_iff)

lemma map_of_del [simp]: "map_of (del p xs) = (map_of xs)(p := None)"
  by (induction xs) (auto simp: fun_eq_iff)

lemma put_member: "ladder_sorted s xs \<Longrightarrow> (p, v) \<in> set xs \<Longrightarrow> put s p v xs = xs"
proof (induction s p v xs rule: put.induct)
  case (2 s p v q w xs)
  then show ?case
    by (cases "p = q") (auto dest: before_asym before_all)
qed simp

lemma set_put: "ladder_sorted s xs \<Longrightarrow> set (put s p v xs) = insert (p, v) {x \<in> set xs. fst x \<noteq> p}"
  by (induction s p v xs rule: put.induct) (auto dest: before_asym before_all)

lemma set_del: "set (del p xs) = {x \<in> set xs. fst x \<noteq> p}"
  by (auto simp: del_def)

lemma sorted_distinct: "ladder_sorted s xs \<Longrightarrow> distinct (map fst xs)"
proof (induction xs)
  case (Cons x xs)
  then show ?case using before_all [of xs s "fst x" "fst x"] by (cases x) (auto simp: image_iff)
qed simp

lemma map_of_member: "ladder_sorted s xs \<Longrightarrow> (p, v) \<in> set xs \<Longrightarrow> map_of xs p = Some v"
  using sorted_distinct by (auto intro: map_of_is_SomeI)

lemma map_put: "map (\<lambda>(q, w). (q, f q w)) (put s p v xs) = put s p (f p v) (map (\<lambda>(q, w). (q, f q w)) xs)"
  by (induction s p v xs rule: put.induct) auto

lemma map_del: "map (\<lambda>(q, w). (q, f q w)) (del p xs) = del p (map (\<lambda>(q, w). (q, f q w)) xs)"
  by (induction xs) auto

text \<open>Two sorted lists with the same entries are the same list.\<close>

lemma ladder_sorted_unique:
  assumes "ladder_sorted s xs" and "ladder_sorted s ys" and "set xs = set ys"
  shows "xs = ys"
  using assms
proof (induction xs arbitrary: ys)
  case Nil
  then show ?case by simp
next
  case (Cons x xs)
  obtain p v where x: "x = (p, v)" by force
  from Cons.prems(3) obtain y ys' where ys: "ys = y # ys'" by (cases ys) auto
  obtain q w where y: "y = (q, w)" by force
  have nx: "(p, v) \<notin> set xs" "(q, w) \<notin> set ys'"
    using Cons.prems(1,2) unfolding ys x y by (auto dest: before_all)
  have "(p, v) \<in> set ys" "(q, w) \<in> set (x # xs)" using Cons.prems(3) ys x y by auto
  then have "(p, v) = (q, w)"
    using Cons.prems(1,2) unfolding ys x y by (auto dest: before_asym before_all)
  then have "set xs = set ys'"
    using Cons.prems(3) nx unfolding ys x y by auto
  then show ?case
    using Cons.IH [of ys'] Cons.prems(1,2) \<open>(p, v) = (q, w)\<close> unfolding ys x y by simp
qed

text \<open>The first entry is the one no other entry comes before.\<close>

lemma ladder_sorted_first:
  assumes "ladder_sorted s xs" and "(p, v) \<in> set xs" and "\<And>q w. (q, w) \<in> set xs \<Longrightarrow> \<not> before s q p"
  shows "first_of xs = Some (p, v)"
proof (cases xs)
  case (Cons x ys)
  obtain q w where x: "x = (q, w)" by force
  then show ?thesis
    using assms Cons before_all [of ys s q p v] by auto
qed (use assms in simp)

lemma put_del: "ladder_sorted s xs \<Longrightarrow> put s p v (del p xs) = put s p v xs"
  by (intro ladder_sorted_unique [of s]) (auto simp: set_put set_del)

subsection \<open>Walking the levels\<close>

text \<open>\<^verbatim>\<open>for_each_level(s, f)\<close>: the callback sees the levels in visiting order and its accumulated
  state; the walk stops as soon as it returns false.\<close>

fun walk_levels :: "(Level \<Rightarrow> 'a \<Rightarrow> bool \<times> 'a) \<Rightarrow> Level list \<Rightarrow> 'a \<Rightarrow> 'a" where
  "walk_levels f [] acc = acc"
| "walk_levels f (lv # lvs) acc = (let (go, acc) = f lv acc in if go then walk_levels f lvs acc else acc)"

subsection \<open>The contract of a ladder\<close>

text \<open>A freshly activated level.\<close>

definition fresh_level :: "Price \<Rightarrow> Level" where
  "fresh_level p = level_default\<lparr>lvl_price := p\<rparr>"

text \<open>
  \<open>levels l s\<close> is the list of active levels of a side, best first.  Between the moment a level is
  fetched or created and the moment the book is done with it, the level may be empty and the
  ladder's own bookkeeping is then behind or ahead of the level: \<open>window s p lv K l\<close> says that \<open>l\<close>
  is in such a state, with \<open>lv\<close> the present content of the level \<open>(s, p)\<close> and \<open>K\<close> the levels
  before.  A nonempty content closes the window by itself, an empty one by \<open>on_level_empty\<close>.
\<close>

locale ladder =
  fixes valid_price :: "'l \<Rightarrow> Price \<Rightarrow> bool"
    and get_or_create :: "Side \<Rightarrow> Price \<Rightarrow> 'l \<Rightarrow> (level_ref \<times> 'l) option"
    and on_level_empty :: "Side \<Rightarrow> level_ref \<Rightarrow> 'l \<Rightarrow> 'l option"
    and best :: "Side \<Rightarrow> 'l \<Rightarrow> level_ref option"
    and visit :: "Side \<Rightarrow> 'l \<Rightarrow> Level list option"
    and deref :: "level_ref \<Rightarrow> 'l \<Rightarrow> Level option"
    and store :: "level_ref \<Rightarrow> Level \<Rightarrow> 'l \<Rightarrow> 'l"
    and inv :: "'l \<Rightarrow> bool"
    and levels :: "'l \<Rightarrow> Side \<Rightarrow> (Price \<times> Level) list"
    and window :: "Side \<Rightarrow> Price \<Rightarrow> Level \<Rightarrow> (Side \<Rightarrow> (Price \<times> Level) list) \<Rightarrow> 'l \<Rightarrow> bool"
  assumes sorted_law: "inv l \<Longrightarrow> ladder_sorted s (levels l s)"
    and entry_law: "inv l \<Longrightarrow> (p, lv) \<in> set (levels l s) \<Longrightarrow>
      lvl_price lv = p \<and> lvl_order_count lv \<noteq> 0 \<and> valid_price l p"
    and best_law: "inv l \<Longrightarrow> best s l = map_option (\<lambda>(p, _). (s, p)) (first_of (levels l s))"
    and visit_law: "inv l \<Longrightarrow> visit s l = Some (map snd (levels l s))"
    and open_law: "inv l \<Longrightarrow> (p, lv) \<in> set (levels l s) \<Longrightarrow> window s p lv (levels l) l"
    and create_law: "inv l \<Longrightarrow> valid_price l p \<Longrightarrow>
      \<exists>l'. get_or_create s p l = Some ((s, p), l')
        \<and> window s p (case map_of (levels l s) p of Some lv \<Rightarrow> lv | None \<Rightarrow> fresh_level p) (levels l) l'
        \<and> valid_price l' = valid_price l"
    and deref_law: "window s p lv K l \<Longrightarrow> deref (s, p) l = Some lv"
    and store_law: "window s p lv K l \<Longrightarrow> lvl_price lv' = p \<Longrightarrow> window s p lv' K (store (s, p) lv' l)"
    and store_valid: "valid_price (store r lv l) = valid_price l"
    and close_law: "window s p lv K l \<Longrightarrow> lvl_order_count lv \<noteq> 0 \<Longrightarrow>
      inv l \<and> levels l = K(s := put s p lv (K s))"
    and empty_law: "window s p (fresh_level p) K l \<Longrightarrow>
      \<exists>l'. on_level_empty s (s, p) l = Some l' \<and> inv l' \<and> levels l' = K(s := del p (K s))
        \<and> valid_price l' = valid_price l"
begin

lemma best_empty: "inv l \<Longrightarrow> levels l s = [] \<Longrightarrow> best s l = None"
  by (simp add: best_law)

lemma best_first: "inv l \<Longrightarrow> levels l s = (p, lv) # xs \<Longrightarrow> best s l = Some (s, p)"
  by (simp add: best_law)

text \<open>Writing a nonempty content to an active level.\<close>

lemma store_active:
  assumes "inv l" and "(p, lv) \<in> set (levels l s)" and "lvl_price lv' = p" and "lvl_order_count lv' \<noteq> 0"
  shows "inv (store (s, p) lv' l)"
    and "levels (store (s, p) lv' l) = (levels l)(s := put s p lv' (levels l s))"
  using close_law [OF store_law [OF open_law [OF assms(1,2)] assms(3)] assms(4)] by auto

lemma deref_active:
  "inv l \<Longrightarrow> (p, lv) \<in> set (levels l s) \<Longrightarrow> deref (s, p) l = Some lv"
  using open_law deref_law by blast

end

end
