(* ===== verification/OrderPool.thy ===== *)
theory OrderPool
  imports Level
begin

text \<open>
  The arena of order nodes (\<^verbatim>\<open>include/pricetime/order_pool.hpp\<close>).  Chunk number \<open>c\<close> holds the
  addresses from \<open>c * kChunkSize\<close> on; released nodes are chained through their own \<^verbatim>\<open>next\<close>
  pointer.  The lemmas say that a node handed out is never one that is still in use.
\<close>

definition kChunkSize :: nat where
  "kChunkSize = 4096"

record Pool =
  pl_chunks :: nat
  pl_used_in_last :: nat
  pl_total :: nat
  pl_free_head :: "addr option"

definition pool_new :: Pool where
  "pool_new = \<lparr>pl_chunks = 0, pl_used_in_last = kChunkSize, pl_total = 0, pl_free_head = None\<rparr>"

definition pool_grow :: "heap \<Rightarrow> Pool \<Rightarrow> heap \<times> Pool" where
  "pool_grow h p =
     ((\<lambda>a. if a div kChunkSize = pl_chunks p then order_default else h a),
      p\<lparr>pl_chunks := pl_chunks p + 1, pl_used_in_last := 0\<rparr>)"

definition pool_alloc :: "heap \<Rightarrow> Pool \<Rightarrow> addr \<times> heap \<times> Pool" where
  "pool_alloc h p =
     (case pl_free_head p of
        Some a \<Rightarrow> (a, h(a := order_default), p\<lparr>pl_free_head := ord_next (h a)\<rparr>)
      | None \<Rightarrow>
          let (h, p) = (if pl_used_in_last p = kChunkSize then pool_grow h p else (h, p));
              p = p\<lparr>pl_total := pl_total p + 1\<rparr>
          in ((pl_chunks p - 1) * kChunkSize + pl_used_in_last p, h,
              p\<lparr>pl_used_in_last := pl_used_in_last p + 1\<rparr>))"

definition pool_release :: "addr \<Rightarrow> heap \<Rightarrow> Pool \<Rightarrow> heap \<times> Pool" where
  "pool_release a h p =
     (h(a := (h a)\<lparr>ord_next := pl_free_head p\<rparr>), p\<lparr>pl_free_head := Some a\<rparr>)"


subsection \<open>The free list and the pool's invariant\<close>

fun chain :: "heap \<Rightarrow> addr option \<Rightarrow> addr list \<Rightarrow> bool" where
  "chain h p [] \<longleftrightarrow> p = None"
| "chain h p (a # as) \<longleftrightarrow> p = Some a \<and> chain h (ord_next (h a)) as"

definition pool_ok :: "heap \<Rightarrow> Pool \<Rightarrow> addr list \<Rightarrow> bool" where
  "pool_ok h p fs \<longleftrightarrow>
     chain h (pl_free_head p) fs \<and> distinct fs \<and> (\<forall>a \<in> set fs. a < pl_total p)
     \<and> pl_used_in_last p \<le> kChunkSize
     \<and> pl_total p + kChunkSize = pl_chunks p * kChunkSize + pl_used_in_last p
     \<and> (\<forall>a. pl_total p \<le> a \<and> a div kChunkSize < pl_chunks p \<longrightarrow> h a = order_default)"

lemma chain_cong: "(\<And>a. a \<in> set as \<Longrightarrow> ord_next (h' a) = ord_next (h a)) \<Longrightarrow> chain h' p as = chain h p as"
  by (induction as arbitrary: p) auto

lemma pool_ok_new: "pool_ok h pool_new []"
  by (simp add: pool_ok_def pool_new_def)

text \<open>Writing to nodes that are in use (allocated and not free) does not disturb the pool.\<close>

lemma pool_ok_cong:
  assumes "pool_ok h p fs"
    and "\<And>a. a \<in> set fs \<or> pl_total p \<le> a \<Longrightarrow> h' a = h a"
  shows "pool_ok h' p fs"
  using assms chain_cong [of fs h' h "pl_free_head p"] unfolding pool_ok_def by auto

lemma pool_alloc_ok:
  assumes ok: "pool_ok h p fs" and al: "pool_alloc h p = (a, h', p')"
  shows "pool_ok h' p' (tl fs)" and "a \<notin> set (tl fs)" and "a < pl_total p'"
    and "h' a = order_default"
    and "\<And>b. b < pl_total p \<Longrightarrow> b \<noteq> a \<Longrightarrow> h' b = h b"
    and "a \<in> set fs \<or> a = pl_total p" and "pl_total p \<le> pl_total p'"
proof -
  have "pool_ok h' p' (tl fs) \<and> a \<notin> set (tl fs) \<and> a < pl_total p' \<and> h' a = order_default
    \<and> (\<forall>b. b < pl_total p \<longrightarrow> b \<noteq> a \<longrightarrow> h' b = h b) \<and> (a \<in> set fs \<or> a = pl_total p)
    \<and> pl_total p \<le> pl_total p'"
  proof (cases fs)
    case (Cons f fs')
    then have p: "pl_free_head p = Some f" using ok by (simp add: pool_ok_def)
    then have *: "a = f" "h' = h(f := order_default)" "p' = p\<lparr>pl_free_head := ord_next (h f)\<rparr>"
      using al by (auto simp: pool_alloc_def)
    have "chain h' (ord_next (h f)) fs' = chain h (ord_next (h f)) fs'"
      using ok Cons * by (intro chain_cong) (auto simp: pool_ok_def)
    then show ?thesis using ok Cons * by (auto simp: pool_ok_def)
  next
    case Nil
    then have p: "pl_free_head p = None" using ok by (simp add: pool_ok_def)
    show ?thesis
    proof (cases "pl_used_in_last p = kChunkSize")
      case True
      then have tot: "pl_total p = pl_chunks p * kChunkSize" using ok by (simp add: pool_ok_def)
      have "a = pl_total p" "h' = fst (pool_grow h p)" "pl_total p' = pl_total p + 1"
        "pl_chunks p' = pl_chunks p + 1" "pl_used_in_last p' = 1" "pl_free_head p' = None"
        using al p True tot by (auto simp: pool_alloc_def pool_grow_def Let_def)
      moreover have "b div kChunkSize < pl_chunks p" if "b < pl_total p" for b
        using that tot by (simp add: kChunkSize_def less_mult_imp_div_less)
      moreover have "pl_total p div kChunkSize = pl_chunks p" using tot by (simp add: kChunkSize_def)
      moreover have "\<not> b div kChunkSize < pl_chunks p" if "pl_total p \<le> b" for b
        using that tot by (simp add: kChunkSize_def div_less_iff_less_mult)
      ultimately show ?thesis using ok Nil p tot
        by (auto simp: pool_ok_def pool_grow_def less_Suc_eq kChunkSize_def)
    next
      case False
      then have lt: "pl_used_in_last p < kChunkSize" using ok by (simp add: pool_ok_def)
      have pos: "0 < pl_chunks p"
        using ok lt by (cases "pl_chunks p") (auto simp: pool_ok_def)
      then have tot: "pl_total p = (pl_chunks p - 1) * kChunkSize + pl_used_in_last p"
        using ok by (cases "pl_chunks p") (auto simp: pool_ok_def)
      then have *: "a = pl_total p" "h' = h" "pl_total p' = pl_total p + 1"
        "pl_chunks p' = pl_chunks p" "pl_used_in_last p' = pl_used_in_last p + 1" "pl_free_head p' = None"
        using al p False by (auto simp: pool_alloc_def Let_def)
      have "pl_total p div kChunkSize < pl_chunks p"
        using tot lt pos by (simp add: kChunkSize_def)
      then show ?thesis using ok Nil * lt by (auto simp: pool_ok_def)
    qed
  qed
  then show "pool_ok h' p' (tl fs)" and "a \<notin> set (tl fs)" and "a < pl_total p'"
    and "h' a = order_default"
    and "\<And>b. b < pl_total p \<Longrightarrow> b \<noteq> a \<Longrightarrow> h' b = h b"
    and "a \<in> set fs \<or> a = pl_total p" and "pl_total p \<le> pl_total p'"
    by auto
qed

lemma pool_release_ok:
  assumes ok: "pool_ok h p fs" and a: "a \<notin> set fs" "a < pl_total p"
    and rel: "pool_release a h p = (h', p')"
  shows "pool_ok h' p' (a # fs)" and "\<And>b. b \<noteq> a \<Longrightarrow> h' b = h b" and "pl_total p' = pl_total p"
    and "\<And>b. payload (h' b) = payload (h b)"
proof -
  have "chain h' (pl_free_head p) fs = chain h (pl_free_head p) fs"
    using a rel by (intro chain_cong) (auto simp: pool_release_def)
  then show "pool_ok h' p' (a # fs)" using ok a rel by (auto simp: pool_ok_def pool_release_def)
  show "\<And>b. b \<noteq> a \<Longrightarrow> h' b = h b" "pl_total p' = pl_total p"
    "\<And>b. payload (h' b) = payload (h b)"
    using rel by (auto simp: pool_release_def)
qed

end
