(* ===== verification/Hash.thy ===== *)
theory Hash
  imports Prelude
begin

text \<open>
  The two hash functions of the library: FNV-1a over little-endian bytes
  (\<^verbatim>\<open>include/pricetime/hash.hpp\<close>), which fingerprints a book, and the finalizer of splitmix64
  that \<^verbatim>\<open>include/pricetime/id_map.hpp\<close> and \<^verbatim>\<open>include/pricetime/symbol.hpp\<close> use to spread keys.
\<close>

definition kOffset :: u64 where
  "kOffset = 14695981039346656037"

definition kPrime :: u64 where
  "kPrime = 1099511628211"

definition mix_byte :: "u64 \<Rightarrow> u8 \<Rightarrow> u64" where
  "mix_byte v b = (v XOR ucast b) * kPrime"

text \<open>\<^verbatim>\<open>for (int i = 0; i < 8; ++i) mix_byte(v >> (8 * i))\<close>.\<close>

definition mix :: "u64 \<Rightarrow> u64 \<Rightarrow> u64" where
  "mix h v = fold (\<lambda>i h. mix_byte h (ucast (drop_bit (8 * i) v))) [0..<8] h"

definition mix_all :: "u64 \<Rightarrow> u64 list \<Rightarrow> u64" where
  "mix_all h vs = fold (\<lambda>v h. mix h v) vs h"

lemma mix_all_simps [simp]:
  "mix_all h [] = h"
  "mix_all h (v # vs) = mix_all (mix h v) vs"
  "mix_all h (vs @ ws) = mix_all (mix_all h vs) ws"
  by (simp_all add: mix_all_def)

definition splitmix_finalize :: "u64 \<Rightarrow> u64" where
  "splitmix_finalize x =
     (let z = x + 0x9E3779B97F4A7C15;
          z = (z XOR drop_bit 30 z) * 0xBF58476D1CE4E5B9;
          z = (z XOR drop_bit 27 z) * 0x94D049BB133111EB
      in z XOR drop_bit 31 z)"

text \<open>The published FNV-1a vector for the empty input and for a single byte.\<close>

lemma fnv_empty: "mix_all kOffset [] = kOffset"
  by simp

lemma fnv_a: "mix_byte kOffset 0x61 = 0xaf63dc4c8601ec8c"
  by (simp add: mix_byte_def kOffset_def kPrime_def)

end
