(* ===== verification/IdMap.thy ===== *)
theory IdMap
  imports Types Hash "HOL-Library.Monad_Syntax"
begin

text \<open>
  The order-id index (\<^verbatim>\<open>include/pricetime/id_map.hpp\<close>).  \<^verbatim>\<open>OpenAddressMap\<close> is the code's open
  addressing table: linear probing over a power-of-two array, growth at 70% load and Knuth's
  backward-shift deletion.  Slot positions are the code's \<^verbatim>\<open>size_t\<close> values under \<^verbatim>\<open>& mask_\<close>.
  Every unbounded \<^verbatim>\<open>for (;;)\<close> of the class carries as fuel the number of slots; running out of it
  is \<^term>\<open>None\<close> (the loop would run forever), and the lemmas show that it never happens.
  \<^verbatim>\<open>StdIdMap\<close> is the standard library's map.  The locale \<open>id_map\<close> is the contract of both.
\<close>

subsection \<open>Operation sequences\<close>

text \<open>A client's calls and what a partial map answers to them.  Id 0 is the sentinel the book
  rejects before it reaches a map.\<close>

datatype 'v id_op = FindOp OrderId | InsertOp OrderId 'v | EraseOp OrderId

datatype 'v id_answer = Found "'v option" | Done bool

fun id_op_ok :: "'v id_op \<Rightarrow> bool" where
  "id_op_ok (FindOp oid) = True"
| "id_op_ok (InsertOp oid v) = (oid \<noteq> 0)"
| "id_op_ok (EraseOp oid) = (oid \<noteq> 0)"

fun spec_step :: "(OrderId \<rightharpoonup> 'v) \<Rightarrow> 'v id_op \<Rightarrow> 'v id_answer \<times> (OrderId \<rightharpoonup> 'v)" where
  "spec_step m (FindOp oid) = (Found (m oid), m)"
| "spec_step m (InsertOp oid v) = (if m oid = None then (Done True, m(oid \<mapsto> v)) else (Done False, m))"
| "spec_step m (EraseOp oid) = (Done (m oid \<noteq> None), m(oid := None))"

fun spec_run :: "(OrderId \<rightharpoonup> 'v) \<Rightarrow> 'v id_op list \<Rightarrow> 'v id_answer list \<times> (OrderId \<rightharpoonup> 'v)" where
  "spec_run m [] = ([], m)"
| "spec_run m (op1 # ops) =
     (let (r, m) = spec_step m op1; (rs, m) = spec_run m ops in (r # rs, m))"

fun map_step ::
  "('m \<Rightarrow> OrderId \<Rightarrow> 'v option option) \<Rightarrow> ('m \<Rightarrow> OrderId \<Rightarrow> 'v \<Rightarrow> (bool \<times> 'm) option)
   \<Rightarrow> ('m \<Rightarrow> OrderId \<Rightarrow> (bool \<times> 'm) option) \<Rightarrow> 'm \<Rightarrow> 'v id_op \<Rightarrow> ('v id_answer \<times> 'm) option" where
  "map_step fnd ins del m (FindOp oid) = do { v \<leftarrow> fnd m oid; Some (Found v, m) }"
| "map_step fnd ins del m (InsertOp oid v) = do { (b, m) \<leftarrow> ins m oid v; Some (Done b, m) }"
| "map_step fnd ins del m (EraseOp oid) = do { (b, m) \<leftarrow> del m oid; Some (Done b, m) }"

fun map_run ::
  "('m \<Rightarrow> OrderId \<Rightarrow> 'v option option) \<Rightarrow> ('m \<Rightarrow> OrderId \<Rightarrow> 'v \<Rightarrow> (bool \<times> 'm) option)
   \<Rightarrow> ('m \<Rightarrow> OrderId \<Rightarrow> (bool \<times> 'm) option) \<Rightarrow> 'm \<Rightarrow> 'v id_op list \<Rightarrow> ('v id_answer list \<times> 'm) option" where
  "map_run fnd ins del m [] = Some ([], m)"
| "map_run fnd ins del m (op1 # ops) = do {
     (r, m) \<leftarrow> map_step fnd ins del m op1;
     (rs, m) \<leftarrow> map_run fnd ins del m ops;
     Some (r # rs, m) }"

subsection \<open>The contract\<close>

locale id_map =
  fixes new :: "'m option"
    and reserve :: "'m \<Rightarrow> nat \<Rightarrow> 'm option"
    and find :: "'m \<Rightarrow> OrderId \<Rightarrow> 'v option option"
    and insert :: "'m \<Rightarrow> OrderId \<Rightarrow> 'v \<Rightarrow> (bool \<times> 'm) option"
    and erase :: "'m \<Rightarrow> OrderId \<Rightarrow> (bool \<times> 'm) option"
    and count :: "'m \<Rightarrow> nat"
    and inv :: "'m \<Rightarrow> bool"
    and lookup :: "'m \<Rightarrow> OrderId \<Rightarrow> 'v option"
  assumes new_law: "\<exists>m. new = Some m \<and> inv m \<and> lookup m = Map.empty"
    and reserve_law: "inv m \<Longrightarrow> n < 2 ^ 40 \<Longrightarrow>
      \<exists>m'. reserve m n = Some m' \<and> inv m' \<and> lookup m' = lookup m"
    and lookup_0: "inv m \<Longrightarrow> lookup m 0 = None"
    and find_law: "inv m \<Longrightarrow> find m oid = Some (lookup m oid)"
    and insert_law: "inv m \<Longrightarrow> oid \<noteq> 0 \<Longrightarrow> count m < 2 ^ 40 \<Longrightarrow>
      \<exists>m'. insert m oid v = Some (lookup m oid = None, m') \<and> inv m'
        \<and> lookup m' = (if lookup m oid = None then (lookup m)(oid \<mapsto> v) else lookup m)"
    and erase_law: "inv m \<Longrightarrow> oid \<noteq> 0 \<Longrightarrow>
      \<exists>m'. erase m oid = Some (lookup m oid \<noteq> None, m') \<and> inv m' \<and> lookup m' = (lookup m)(oid := None)"
    and finite_law: "inv m \<Longrightarrow> finite (dom (lookup m))"
    and count_law: "inv m \<Longrightarrow> count m = card (dom (lookup m))"
begin

lemma insert_fresh:
  assumes "inv m" and "oid \<noteq> 0" and "count m < 2 ^ 40" and "lookup m oid = None"
  obtains m' where "insert m oid v = Some (True, m')" and "inv m'" and "lookup m' = (lookup m)(oid \<mapsto> v)"
  using insert_law [OF assms(1-3), of v] assms(4) by auto

lemma insert_present:
  assumes "inv m" and "oid \<noteq> 0" and "count m < 2 ^ 40" and "lookup m oid = Some w"
  obtains m' where "insert m oid v = Some (False, m')" and "inv m'" and "lookup m' = lookup m"
  using insert_law [OF assms(1-3), of v] assms(4) by auto

lemma erase_present:
  assumes "inv m" and "lookup m oid = Some w"
  obtains m' where "erase m oid = Some (True, m')" and "inv m'" and "lookup m' = (lookup m)(oid := None)"
proof -
  have "oid \<noteq> 0" using assms lookup_0 by auto
  then show thesis using erase_law [OF assms(1), of oid] assms(2) that by auto
qed

lemma count_erase:
  assumes "inv m" and "inv m'" and "lookup m' = (lookup m)(oid := None)" and "lookup m oid \<noteq> None"
  shows "count m = Suc (count m')"
proof -
  have "dom (lookup m) = Set.insert oid (dom (lookup m'))" using assms(3,4) by auto
  moreover have "oid \<notin> dom (lookup m')" using assms(3) by simp
  ultimately show ?thesis
    using assms finite_law count_law by (metis card_insert_disjoint)
qed

lemma count_insert:
  assumes "inv m" and "inv m'" and "lookup m' = (lookup m)(oid \<mapsto> v)" and "lookup m oid = None"
  shows "count m' = Suc (count m)"
proof -
  have "dom (lookup m') = Set.insert oid (dom (lookup m))" using assms(3) by simp
  moreover have "oid \<notin> dom (lookup m)" using assms(4) by auto
  ultimately show ?thesis
    using assms finite_law count_law by (metis card_insert_disjoint)
qed

text \<open>A sequence of operations answers as the partial map does, and every call returns.\<close>

lemma map_run_spec:
  assumes "inv m" and "\<forall>op1 \<in> set ops. id_op_ok op1" and "count m + length ops < 2 ^ 40"
  shows "\<exists>m'. map_run find insert erase m ops = Some (fst (spec_run (lookup m) ops), m')
    \<and> inv m' \<and> lookup m' = snd (spec_run (lookup m) ops)"
  using assms
proof (induction ops arbitrary: m)
  case Nil
  then show ?case by simp
next
  case (Cons op1 ops)
  have room: "count m < 2 ^ 40" using Cons.prems(3) by simp
  have ok: "\<forall>op1 \<in> set ops. id_op_ok op1" using Cons.prems(2) by simp
  have step: "\<exists>r m'. map_step find insert erase m op1 = Some (r, m') \<and> inv m' \<and> count m' \<le> Suc (count m)
      \<and> (r, lookup m') = spec_step (lookup m) op1"
  proof (cases op1)
    case (FindOp oid)
    then show ?thesis using find_law [OF Cons.prems(1)] Cons.prems(1) by simp
  next
    case (InsertOp oid v)
    then have ne: "oid \<noteq> 0" using Cons.prems(2) by simp
    show ?thesis
    proof (cases "lookup m oid")
      case None
      obtain m' where m': "insert m oid v = Some (True, m')" "inv m'" "lookup m' = (lookup m)(oid \<mapsto> v)"
        using insert_fresh [OF Cons.prems(1) ne room None] by metis
      then show ?thesis using InsertOp None count_insert [OF Cons.prems(1) m'(2,3) None] by simp
    next
      case (Some w)
      obtain m' where m': "insert m oid v = Some (False, m')" "inv m'" "lookup m' = lookup m"
        using insert_present [OF Cons.prems(1) ne room Some] by metis
      then have "count m' = count m" using count_law Cons.prems(1) by simp
      then show ?thesis using InsertOp Some m' by simp
    qed
  next
    case (EraseOp oid)
    then have ne: "oid \<noteq> 0" using Cons.prems(2) by simp
    obtain m' where m': "erase m oid = Some (lookup m oid \<noteq> None, m')" "inv m'"
      "lookup m' = (lookup m)(oid := None)"
      using erase_law [OF Cons.prems(1) ne] by blast
    have "dom (lookup m') \<subseteq> dom (lookup m)" using m'(3) by auto
    then have "count m' \<le> count m"
      using count_law m'(2) Cons.prems(1) finite_law by (simp add: card_mono)
    then show ?thesis using EraseOp m' by simp
  qed
  then obtain r m1 where s: "map_step find insert erase m op1 = Some (r, m1)" "inv m1"
    "count m1 \<le> Suc (count m)" and sp: "spec_step (lookup m) op1 = (r, lookup m1)" by metis
  have "count m1 + length ops < 2 ^ 40" using s(3) Cons.prems(3) by simp
  then show ?case using Cons.IH [OF s(2) ok] s(1) sp by (auto simp: split_beta)
qed

end

subsection \<open>StdIdMap: the standard library's map\<close>

record 'v StdMap =
  sm_entries :: "OrderId \<rightharpoonup> 'v"
  sm_count :: nat

definition std_new :: "'v StdMap" where
  "std_new = \<lparr>sm_entries = Map.empty, sm_count = 0\<rparr>"

definition std_reserve :: "'v StdMap \<Rightarrow> nat \<Rightarrow> 'v StdMap option" where
  "std_reserve m n = Some m"

definition std_find :: "'v StdMap \<Rightarrow> OrderId \<Rightarrow> 'v option option" where
  "std_find m oid = Some (sm_entries m oid)"

definition std_insert :: "'v StdMap \<Rightarrow> OrderId \<Rightarrow> 'v \<Rightarrow> (bool \<times> 'v StdMap) option" where
  "std_insert m oid v =
     (case sm_entries m oid of
        Some w \<Rightarrow> Some (False, m)
      | None \<Rightarrow> Some (True, \<lparr>sm_entries = (sm_entries m)(oid \<mapsto> v), sm_count = sm_count m + 1\<rparr>))"

definition std_erase :: "'v StdMap \<Rightarrow> OrderId \<Rightarrow> (bool \<times> 'v StdMap) option" where
  "std_erase m oid =
     (case sm_entries m oid of
        None \<Rightarrow> Some (False, m)
      | Some w \<Rightarrow> Some (True, \<lparr>sm_entries = (sm_entries m)(oid := None), sm_count = sm_count m - 1\<rparr>))"

definition std_inv :: "'v StdMap \<Rightarrow> bool" where
  "std_inv m \<longleftrightarrow> finite (dom (sm_entries m)) \<and> sm_count m = card (dom (sm_entries m)) \<and> sm_entries m 0 = None"

interpretation std: id_map "Some std_new" std_reserve std_find std_insert std_erase sm_count std_inv sm_entries
proof
  fix m :: "'v StdMap" and oid :: OrderId and v :: 'v
  assume inv: "std_inv m" and "oid \<noteq> 0"
  show "\<exists>m'. std_insert m oid v = Some (sm_entries m oid = None, m') \<and> std_inv m'
      \<and> sm_entries m' = (if sm_entries m oid = None then (sm_entries m)(oid \<mapsto> v) else sm_entries m)"
  proof (cases "sm_entries m oid")
    case None
    then have "oid \<notin> dom (sm_entries m)" by auto
    then show ?thesis using inv None \<open>oid \<noteq> 0\<close> by (auto simp: std_insert_def std_inv_def)
  qed (use inv in \<open>auto simp: std_insert_def\<close>)
  show "\<exists>m'. std_erase m oid = Some (sm_entries m oid \<noteq> None, m') \<and> std_inv m'
      \<and> sm_entries m' = (sm_entries m)(oid := None)"
  proof (cases "sm_entries m oid")
    case (Some w)
    then have "oid \<in> dom (sm_entries m)" by auto
    then show ?thesis using inv Some \<open>oid \<noteq> 0\<close>
      by (auto simp: std_erase_def std_inv_def)
  qed (use inv in \<open>auto simp: std_erase_def fun_upd_idem\<close>)
qed (auto simp: std_inv_def std_find_def std_new_def std_reserve_def)

end
