(* ===== verification/Book.thy ===== *)
theory Book
  imports Ladder OrderPool IdMap
begin

text \<open>
  The order book (\<^verbatim>\<open>include/pricetime/book.hpp\<close>).  The template parameters of \<^verbatim>\<open>OrderBook\<close> are a
  record of operations; every method is a function from book to book in the option monad, where
  \<^term>\<open>None\<close> stands for a loop that does not end or an access through a dangling pointer.  The
  callback \<^verbatim>\<open>on_exec\<close> is the list of the executions it is called with, in order.
\<close>

datatype Result = Ok | RejectedBadId | RejectedBadQty | RejectedBadPrice | RejectedDuplicateId
  | RejectedUnknownId | RejectedNoLiquidity

text \<open>\<^verbatim>\<open>SelfTradePolicy::None\<close> is \<open>NoPrevention\<close>.\<close>

datatype SelfTradePolicy = NoPrevention | CancelResting | CancelAggressor | CancelBoth

record Counters =
  added_qty :: u64
  traded_qty :: u64
  canceled_qty :: u64
  executed_qty :: u64
  self_trades_prevented :: u64

definition counters_zero :: Counters where
  "counters_zero = \<lparr>added_qty = 0, traded_qty = 0, canceled_qty = 0, executed_qty = 0,
     self_trades_prevented = 0\<rparr>"

text \<open>The two compile-time policies: the ladder with access through a level pointer, and the id map.\<close>

record ('l, 'm) policy =
  pol_valid_price :: "'l \<Rightarrow> Price \<Rightarrow> bool"
  pol_get_or_create :: "Side \<Rightarrow> Price \<Rightarrow> 'l \<Rightarrow> (level_ref \<times> 'l) option"
  pol_on_level_empty :: "Side \<Rightarrow> level_ref \<Rightarrow> 'l \<Rightarrow> 'l option"
  pol_best :: "Side \<Rightarrow> 'l \<Rightarrow> level_ref option"
  pol_visit :: "Side \<Rightarrow> 'l \<Rightarrow> Level list option"
  pol_deref :: "level_ref \<Rightarrow> 'l \<Rightarrow> Level option"
  pol_store :: "level_ref \<Rightarrow> Level \<Rightarrow> 'l \<Rightarrow> 'l"
  pol_new_map :: "'m option"
  pol_reserve :: "'m \<Rightarrow> nat \<Rightarrow> 'm option"
  pol_find :: "'m \<Rightarrow> OrderId \<Rightarrow> addr option option"
  pol_insert :: "'m \<Rightarrow> OrderId \<Rightarrow> addr \<Rightarrow> (bool \<times> 'm) option"
  pol_erase :: "'m \<Rightarrow> OrderId \<Rightarrow> (bool \<times> 'm) option"
  pol_size :: "'m \<Rightarrow> nat"

record ('l, 'm) OrderBook =
  bk_stp :: SelfTradePolicy
  bk_ladder :: 'l
  bk_pool :: Pool
  bk_orders :: 'm
  bk_counters :: Counters
  bk_heap :: heap

definition book_new :: "('l, 'm) policy \<Rightarrow> 'l \<Rightarrow> ('l, 'm) OrderBook option" where
  "book_new P l = do {
     m \<leftarrow> pol_new_map P;
     m \<leftarrow> pol_reserve P m (2 ^ 16);
     Some \<lparr>bk_stp = NoPrevention, bk_ladder = l, bk_pool = pool_new, bk_orders = m,
       bk_counters = counters_zero, bk_heap = (\<lambda>_. order_default)\<rparr> }"

definition set_self_trade_policy :: "SelfTradePolicy \<Rightarrow> ('l, 'm) OrderBook \<Rightarrow> ('l, 'm) OrderBook" where
  "set_self_trade_policy p b = b\<lparr>bk_stp := p\<rparr>"

definition reserve_orders :: "('l, 'm) policy \<Rightarrow> nat \<Rightarrow> ('l, 'm) OrderBook \<Rightarrow> ('l, 'm) OrderBook option" where
  "reserve_orders P n b = do { m \<leftarrow> pol_reserve P (bk_orders b) n; Some (b\<lparr>bk_orders := m\<rparr>) }"

subsection \<open>Steps the methods share\<close>

definition count_added :: "Qty \<Rightarrow> ('l, 'm) OrderBook \<Rightarrow> ('l, 'm) OrderBook" where
  "count_added q b = b\<lparr>bk_counters := (bk_counters b)\<lparr>added_qty := added_qty (bk_counters b) + ucast q\<rparr>\<rparr>"

definition count_traded :: "Qty \<Rightarrow> ('l, 'm) OrderBook \<Rightarrow> ('l, 'm) OrderBook" where
  "count_traded q b = b\<lparr>bk_counters := (bk_counters b)\<lparr>traded_qty := traded_qty (bk_counters b) + ucast q\<rparr>\<rparr>"

definition count_canceled :: "Qty \<Rightarrow> ('l, 'm) OrderBook \<Rightarrow> ('l, 'm) OrderBook" where
  "count_canceled q b =
     b\<lparr>bk_counters := (bk_counters b)\<lparr>canceled_qty := canceled_qty (bk_counters b) + ucast q\<rparr>\<rparr>"

definition count_executed :: "Qty \<Rightarrow> ('l, 'm) OrderBook \<Rightarrow> ('l, 'm) OrderBook" where
  "count_executed q b =
     b\<lparr>bk_counters := (bk_counters b)\<lparr>executed_qty := executed_qty (bk_counters b) + ucast q\<rparr>\<rparr>"

definition count_prevented :: "('l, 'm) OrderBook \<Rightarrow> ('l, 'm) OrderBook" where
  "count_prevented b =
     b\<lparr>bk_counters := (bk_counters b)\<lparr>self_trades_prevented := self_trades_prevented (bk_counters b) + 1\<rparr>\<rparr>"

text \<open>A queue operation on the level behind a pointer.\<close>

definition level_do ::
  "('l, 'm) policy \<Rightarrow> level_ref \<Rightarrow> (heap \<Rightarrow> Level \<Rightarrow> heap \<times> Level) \<Rightarrow> ('l, 'm) OrderBook
   \<Rightarrow> ('l, 'm) OrderBook option" where
  "level_do P r f b = do {
     lv \<leftarrow> pol_deref P r (bk_ladder b);
     let (h, lv) = f (bk_heap b) lv;
     Some (b\<lparr>bk_heap := h, bk_ladder := pol_store P r lv (bk_ladder b)\<rparr>) }"

text \<open>\<^verbatim>\<open>lvl->remove(o); orders_.erase(o->id); pool_.release(o);\<close>\<close>

definition unlink_order ::
  "('l, 'm) policy \<Rightarrow> level_ref \<Rightarrow> addr \<Rightarrow> ('l, 'm) OrderBook \<Rightarrow> ('l, 'm) OrderBook option" where
  "unlink_order P r a b = do {
     b \<leftarrow> level_do P r (level_remove a) b;
     (_, m) \<leftarrow> pol_erase P (bk_orders b) (ord_id (bk_heap b a));
     let b = b\<lparr>bk_orders := m\<rparr>;
     let (h, p) = pool_release a (bk_heap b) (bk_pool b);
     Some (b\<lparr>bk_heap := h, bk_pool := p\<rparr>) }"

text \<open>\<^verbatim>\<open>if (lvl->order_count == 0) ladder_.on_level_empty(side, lvl);\<close>\<close>

definition retire_if_empty ::
  "('l, 'm) policy \<Rightarrow> Side \<Rightarrow> level_ref \<Rightarrow> ('l, 'm) OrderBook \<Rightarrow> ('l, 'm) OrderBook option" where
  "retire_if_empty P s r b = do {
     lv \<leftarrow> pol_deref P r (bk_ladder b);
     if lvl_order_count lv = 0
     then do { l \<leftarrow> pol_on_level_empty P s r (bk_ladder b); Some (b\<lparr>bk_ladder := l\<rparr>) }
     else Some b }"

subsection \<open>Matching\<close>

definition validate :: "('l, 'm) policy \<Rightarrow> OrderId \<Rightarrow> Price \<Rightarrow> Qty \<Rightarrow> ('l, 'm) OrderBook \<Rightarrow> Result option" where
  "validate P oid price qty b =
     (if oid = 0 then Some RejectedBadId
      else if qty = 0 then Some RejectedBadQty
      else if \<not> pol_valid_price P (bk_ladder b) price then Some RejectedBadPrice
      else do {
        o1 \<leftarrow> pol_find P (bk_orders b) oid;
        if o1 \<noteq> None then Some RejectedDuplicateId else Some Ok })"

definition crosses :: "Side \<Rightarrow> Price \<Rightarrow> Price \<Rightarrow> bool" where
  "crosses side price level_price = (if side = Bid then price \<ge> level_price else price \<le> level_price)"

definition stp_active :: "SelfTradePolicy \<Rightarrow> ParticipantId \<Rightarrow> bool" where
  "stp_active stp actor \<longleftrightarrow> actor \<noteq> 0 \<and> stp \<noteq> NoPrevention"

text \<open>
  The inner loop of \<^verbatim>\<open>match\<close> over the orders of one level \<open>r\<close> of the side \<open>opp\<close>.  The result is the
  quantity left, whether the aggressor was killed (the code returns 0 from within the loop), the
  executions so far and the book.
\<close>

partial_function (option) match_level ::
  "('l, 'm) policy \<Rightarrow> OrderId \<Rightarrow> ParticipantId \<Rightarrow> Side \<Rightarrow> level_ref \<Rightarrow> Qty \<Rightarrow> Execution list
   \<Rightarrow> ('l, 'm) OrderBook \<Rightarrow> (Qty \<times> bool \<times> Execution list \<times> ('l, 'm) OrderBook) option" where
  "match_level P aggressor actor opp r qty xs b = do {
     lv \<leftarrow> pol_deref P r (bk_ladder b);
     if \<not> qty > 0 then Some (qty, False, xs, b)
     else case lvl_head lv of
       None \<Rightarrow> Some (qty, False, xs, b)
     | Some resting \<Rightarrow>
         if stp_active (bk_stp b) actor \<and> ord_participant (bk_heap b resting) = actor then do {
           let b = count_prevented b;
           b \<leftarrow> (if bk_stp b \<noteq> CancelAggressor
                 then unlink_order P r resting (count_canceled (ord_qty (bk_heap b resting)) b)
                 else Some b);
           if bk_stp b \<noteq> CancelResting then do {
             b \<leftarrow> retire_if_empty P opp r (count_canceled qty b);
             Some (0, True, xs, b) }
           else match_level P aggressor actor opp r qty xs b }
         else do {
           let fill = (if qty < ord_qty (bk_heap b resting) then qty else ord_qty (bk_heap b resting));
           b \<leftarrow> level_do P r (level_reduce resting fill) b;
           let b = count_traded fill b;
           let ex = \<lparr>ex_resting_id = ord_id (bk_heap b resting), ex_aggressor_id = aggressor,
                     ex_price = lvl_price lv, ex_qty = fill\<rparr>;
           b \<leftarrow> (if ord_qty (bk_heap b resting) = 0 then unlink_order P r resting b else Some b);
           match_level P aggressor actor opp r (qty - fill) (xs @ [ex]) b } }"

text \<open>The outer loop: the best opposite level while the limit crosses (\<open>has_limit\<close> is the template
  switch \<^verbatim>\<open>HasLimit\<close>).\<close>

partial_function (option) match_loop ::
  "('l, 'm) policy \<Rightarrow> bool \<Rightarrow> OrderId \<Rightarrow> ParticipantId \<Rightarrow> Side \<Rightarrow> Price \<Rightarrow> Qty \<Rightarrow> Execution list
   \<Rightarrow> ('l, 'm) OrderBook \<Rightarrow> (Qty \<times> Execution list \<times> ('l, 'm) OrderBook) option" where
  "match_loop P has_limit aggressor actor side price qty xs b =
     (if \<not> qty > 0 then Some (qty, xs, b)
      else case pol_best P (opposite side) (bk_ladder b) of
        None \<Rightarrow> Some (qty, xs, b)
      | Some r \<Rightarrow> do {
          lv \<leftarrow> pol_deref P r (bk_ladder b);
          if has_limit \<and> \<not> crosses side price (lvl_price lv) then Some (qty, xs, b)
          else do {
            (qty, killed, xs, b) \<leftarrow> match_level P aggressor actor (opposite side) r qty xs b;
            if killed then Some (qty, xs, b)
            else do {
              b \<leftarrow> retire_if_empty P (opposite side) r b;
              match_loop P has_limit aggressor actor side price qty xs b } } })"

definition match_book ::
  "('l, 'm) policy \<Rightarrow> bool \<Rightarrow> OrderId \<Rightarrow> ParticipantId \<Rightarrow> Side \<Rightarrow> Price \<Rightarrow> Qty
   \<Rightarrow> ('l, 'm) OrderBook \<Rightarrow> (Qty \<times> Execution list \<times> ('l, 'm) OrderBook) option" where
  "match_book P has_limit aggressor actor side price qty b =
     match_loop P has_limit aggressor actor side price qty [] b"

text \<open>\<^verbatim>\<open>available\<close>: the callback of the pre-scan and its loop over the orders of one level, which says
  whether the walk goes on and the total so far.\<close>

fun available_orders :: "heap \<Rightarrow> ParticipantId \<Rightarrow> bool \<Rightarrow> Qty \<Rightarrow> addr list \<Rightarrow> u64 \<Rightarrow> bool \<times> u64" where
  "available_orders h actor stops_at_own need [] tot = (True, tot)"
| "available_orders h actor stops_at_own need (a # as) tot =
     (if ord_participant (h a) = actor then
        (if stops_at_own then (False, tot) else available_orders h actor stops_at_own need as tot)
      else
        (let tot = tot + ucast (ord_qty (h a))
         in if tot \<ge> ucast need then (False, tot)
            else available_orders h actor stops_at_own need as tot))"

definition available_level ::
  "('l, 'm) OrderBook \<Rightarrow> bool \<Rightarrow> Side \<Rightarrow> Price \<Rightarrow> Qty \<Rightarrow> ParticipantId \<Rightarrow> Level \<Rightarrow> u64 option
   \<Rightarrow> bool \<times> u64 option" where
  "available_level b has_limit side price need actor lv acc =
     (case acc of None \<Rightarrow> (False, None)
      | Some tot \<Rightarrow>
          if has_limit \<and> \<not> crosses side price (lvl_price lv) then (False, Some tot)
          else if \<not> stp_active (bk_stp b) actor then
            (let tot = tot + lvl_total_qty lv in (tot < ucast need, Some tot))
          else case level_nodes (bk_heap b) lv of
            None \<Rightarrow> (False, None)
          | Some as \<Rightarrow>
              (let (go, tot) = available_orders (bk_heap b) actor
                     (bk_stp b = CancelAggressor \<or> bk_stp b = CancelBoth) need as tot
               in (go, Some tot)))"

definition available ::
  "('l, 'm) policy \<Rightarrow> bool \<Rightarrow> Side \<Rightarrow> Price \<Rightarrow> Qty \<Rightarrow> ParticipantId \<Rightarrow> ('l, 'm) OrderBook \<Rightarrow> u64 option" where
  "available P has_limit side price need actor b = do {
     lvls \<leftarrow> pol_visit P (opposite side) (bk_ladder b);
     walk_levels (available_level b has_limit side price need actor) lvls (Some 0) }"

definition rest ::
  "('l, 'm) policy \<Rightarrow> OrderId \<Rightarrow> Side \<Rightarrow> Price \<Rightarrow> Qty \<Rightarrow> ParticipantId \<Rightarrow> ('l, 'm) OrderBook
   \<Rightarrow> ('l, 'm) OrderBook option" where
  "rest P oid side price qty actor b = do {
     (r, l) \<leftarrow> pol_get_or_create P side price (bk_ladder b);
     let b = b\<lparr>bk_ladder := l\<rparr>;
     let (a, h, p) = pool_alloc (bk_heap b) (bk_pool b);
     let h = h(a := (h a)\<lparr>ord_id := oid, ord_price := price, ord_qty := qty, ord_side := side,
                           ord_participant := actor\<rparr>);
     b \<leftarrow> level_do P r (level_push_back r a) (b\<lparr>bk_heap := h, bk_pool := p\<rparr>);
     (_, m) \<leftarrow> pol_insert P (bk_orders b) oid a;
     Some (b\<lparr>bk_orders := m\<rparr>) }"

subsection \<open>Order entry\<close>

type_synonym ('l, 'm) outcome = "(Result \<times> Execution list \<times> ('l, 'm) OrderBook) option"

definition add_limit_as ::
  "('l, 'm) policy \<Rightarrow> ParticipantId \<Rightarrow> OrderId \<Rightarrow> Side \<Rightarrow> Price \<Rightarrow> Qty \<Rightarrow> ('l, 'm) OrderBook \<Rightarrow> ('l, 'm) outcome" where
  "add_limit_as P actor oid side price qty b = do {
     r \<leftarrow> validate P oid price qty b;
     if r \<noteq> Ok then Some (r, [], b)
     else do {
       (left, xs, b) \<leftarrow> match_book P True oid actor side price qty (count_added qty b);
       b \<leftarrow> (if left > 0 then rest P oid side price left actor b else Some b);
       Some (Ok, xs, b) } }"

definition add_ioc_as ::
  "('l, 'm) policy \<Rightarrow> ParticipantId \<Rightarrow> OrderId \<Rightarrow> Side \<Rightarrow> Price \<Rightarrow> Qty \<Rightarrow> ('l, 'm) OrderBook \<Rightarrow> ('l, 'm) outcome" where
  "add_ioc_as P actor oid side price qty b = do {
     r \<leftarrow> validate P oid price qty b;
     if r \<noteq> Ok then Some (r, [], b)
     else do {
       (left, xs, b) \<leftarrow> match_book P True oid actor side price qty (count_added qty b);
       Some (Ok, xs, count_canceled left b) } }"

definition add_fok_as ::
  "('l, 'm) policy \<Rightarrow> ParticipantId \<Rightarrow> OrderId \<Rightarrow> Side \<Rightarrow> Price \<Rightarrow> Qty \<Rightarrow> ('l, 'm) OrderBook \<Rightarrow> ('l, 'm) outcome" where
  "add_fok_as P actor oid side price qty b = do {
     r \<leftarrow> validate P oid price qty b;
     if r \<noteq> Ok then Some (r, [], b)
     else do {
       av \<leftarrow> available P True side price qty actor b;
       if av < ucast qty then Some (RejectedNoLiquidity, [], b)
       else do {
         (left, xs, b) \<leftarrow> match_book P True oid actor side price qty (count_added qty b);
         Some (Ok, xs, count_canceled left b) } } }"

definition add_market_as ::
  "('l, 'm) policy \<Rightarrow> ParticipantId \<Rightarrow> OrderId \<Rightarrow> Side \<Rightarrow> Qty \<Rightarrow> ('l, 'm) OrderBook \<Rightarrow> ('l, 'm) outcome" where
  "add_market_as P actor oid side qty b =
     (if oid = 0 then Some (RejectedBadId, [], b)
      else if qty = 0 then Some (RejectedBadQty, [], b)
      else do {
        o1 \<leftarrow> pol_find P (bk_orders b) oid;
        if o1 \<noteq> None then Some (RejectedDuplicateId, [], b)
        else do {
          (left, xs, b) \<leftarrow> match_book P False oid actor side 0 qty (count_added qty b);
          Some (Ok, xs, count_canceled left b) } })"

text \<open>The entry points without a participant.\<close>

definition add_limit ::
  "('l, 'm) policy \<Rightarrow> OrderId \<Rightarrow> Side \<Rightarrow> Price \<Rightarrow> Qty \<Rightarrow> ('l, 'm) OrderBook \<Rightarrow> ('l, 'm) outcome" where
  "add_limit P oid side price qty b = add_limit_as P 0 oid side price qty b"

definition add_ioc ::
  "('l, 'm) policy \<Rightarrow> OrderId \<Rightarrow> Side \<Rightarrow> Price \<Rightarrow> Qty \<Rightarrow> ('l, 'm) OrderBook \<Rightarrow> ('l, 'm) outcome" where
  "add_ioc P oid side price qty b = add_ioc_as P 0 oid side price qty b"

definition add_fok ::
  "('l, 'm) policy \<Rightarrow> OrderId \<Rightarrow> Side \<Rightarrow> Price \<Rightarrow> Qty \<Rightarrow> ('l, 'm) OrderBook \<Rightarrow> ('l, 'm) outcome" where
  "add_fok P oid side price qty b = add_fok_as P 0 oid side price qty b"

definition add_market ::
  "('l, 'm) policy \<Rightarrow> OrderId \<Rightarrow> Side \<Rightarrow> Qty \<Rightarrow> ('l, 'm) OrderBook \<Rightarrow> ('l, 'm) outcome" where
  "add_market P oid side qty b = add_market_as P 0 oid side qty b"

definition cancel_open ::
  "('l, 'm) policy \<Rightarrow> addr \<Rightarrow> ('l, 'm) OrderBook \<Rightarrow> ('l, 'm) OrderBook option" where
  "cancel_open P a b = do {
     r \<leftarrow> ord_level (bk_heap b a);
     let side = ord_side (bk_heap b a);
     b \<leftarrow> unlink_order P r a (count_canceled (ord_qty (bk_heap b a)) b);
     retire_if_empty P side r b }"

definition cancel ::
  "('l, 'm) policy \<Rightarrow> OrderId \<Rightarrow> ('l, 'm) OrderBook \<Rightarrow> (Result \<times> ('l, 'm) OrderBook) option" where
  "cancel P oid b = do {
     o1 \<leftarrow> pol_find P (bk_orders b) oid;
     case o1 of
       None \<Rightarrow> Some (RejectedUnknownId, b)
     | Some a \<Rightarrow> do { b \<leftarrow> cancel_open P a b; Some (Ok, b) } }"

definition replace ::
  "('l, 'm) policy \<Rightarrow> OrderId \<Rightarrow> OrderId \<Rightarrow> Price \<Rightarrow> Qty \<Rightarrow> ('l, 'm) OrderBook \<Rightarrow> ('l, 'm) outcome" where
  "replace P old_id new_id new_price new_qty b = do {
     old \<leftarrow> pol_find P (bk_orders b) old_id;
     case old of
       None \<Rightarrow> Some (RejectedUnknownId, [], b)
     | Some a \<Rightarrow>
         if new_id = 0 then Some (RejectedBadId, [], b)
         else if new_qty = 0 then Some (RejectedBadQty, [], b)
         else if \<not> pol_valid_price P (bk_ladder b) new_price then Some (RejectedBadPrice, [], b)
         else do {
           dup \<leftarrow> (if new_id \<noteq> old_id then pol_find P (bk_orders b) new_id else Some None);
           if dup \<noteq> None then Some (RejectedDuplicateId, [], b)
           else do {
             let side = ord_side (bk_heap b a);
             let actor = ord_participant (bk_heap b a);
             b \<leftarrow> cancel_open P a b;
             add_limit_as P actor new_id side new_price new_qty b } } }"

subsection \<open>Feed reconstruction\<close>

definition insert_passive ::
  "('l, 'm) policy \<Rightarrow> OrderId \<Rightarrow> Side \<Rightarrow> Price \<Rightarrow> Qty \<Rightarrow> ('l, 'm) OrderBook
   \<Rightarrow> (Result \<times> ('l, 'm) OrderBook) option" where
  "insert_passive P oid side price qty b = do {
     r \<leftarrow> validate P oid price qty b;
     if r \<noteq> Ok then Some (r, b)
     else do { b \<leftarrow> rest P oid side price qty 0 (count_added qty b); Some (Ok, b) } }"

text \<open>\<^verbatim>\<open>consume\<close>; the out parameter is the second component of the result.\<close>

definition consume ::
  "('l, 'm) policy \<Rightarrow> OrderId \<Rightarrow> Qty \<Rightarrow> bool \<Rightarrow> ('l, 'm) OrderBook
   \<Rightarrow> (Result \<times> Qty \<times> ('l, 'm) OrderBook) option" where
  "consume P oid qty is_execution b = do {
     o1 \<leftarrow> pol_find P (bk_orders b) oid;
     case o1 of
       None \<Rightarrow> Some (RejectedUnknownId, 0, b)
     | Some a \<Rightarrow>
         if qty = 0 then Some (RejectedBadQty, 0, b)
         else do {
           let take = (if qty < ord_qty (bk_heap b a) then qty else ord_qty (bk_heap b a));
           let b = (if is_execution then count_executed take b else count_canceled take b);
           r \<leftarrow> ord_level (bk_heap b a);
           if take = ord_qty (bk_heap b a) then do {
             let side = ord_side (bk_heap b a);
             b \<leftarrow> unlink_order P r a b;
             b \<leftarrow> retire_if_empty P side r b;
             Some (Ok, take, b) }
           else do {
             b \<leftarrow> level_do P r (level_reduce a take) b;
             Some (Ok, take, b) } } }"

definition execute_resting ::
  "('l, 'm) policy \<Rightarrow> OrderId \<Rightarrow> Qty \<Rightarrow> ('l, 'm) OrderBook \<Rightarrow> (Result \<times> Qty \<times> ('l, 'm) OrderBook) option" where
  "execute_resting P oid qty b = consume P oid qty True b"

definition reduce_resting ::
  "('l, 'm) policy \<Rightarrow> OrderId \<Rightarrow> Qty \<Rightarrow> ('l, 'm) OrderBook \<Rightarrow> (Result \<times> Qty \<times> ('l, 'm) OrderBook) option" where
  "reduce_resting P oid qty b = consume P oid qty False b"

definition find_order :: "('l, 'm) policy \<Rightarrow> OrderId \<Rightarrow> ('l, 'm) OrderBook \<Rightarrow> Order option option" where
  "find_order P oid b = do {
     o1 \<leftarrow> pol_find P (bk_orders b) oid;
     Some (map_option (bk_heap b) o1) }"

subsection \<open>Inspection\<close>

definition best_level :: "('l, 'm) policy \<Rightarrow> Side \<Rightarrow> ('l, 'm) OrderBook \<Rightarrow> Level option option" where
  "best_level P s b =
     (case pol_best P s (bk_ladder b) of
        None \<Rightarrow> Some None
      | Some r \<Rightarrow> do { lv \<leftarrow> pol_deref P r (bk_ladder b); Some (Some lv) })"

definition open_orders :: "('l, 'm) policy \<Rightarrow> ('l, 'm) OrderBook \<Rightarrow> nat" where
  "open_orders P b = pol_size P (bk_orders b)"

record DepthLevel =
  dp_price :: Price
  dp_qty :: u64
  dp_orders :: u32

record Depth =
  dp_bids :: "DepthLevel list"
  dp_asks :: "DepthLevel list"

definition collect ::
  "('l, 'm) policy \<Rightarrow> Side \<Rightarrow> nat \<Rightarrow> ('l, 'm) OrderBook \<Rightarrow> DepthLevel list option" where
  "collect P s max_levels b =
     (if max_levels = 0 then Some []
      else do {
        lvls \<leftarrow> pol_visit P s (bk_ladder b);
        Some (walk_levels (\<lambda>lv out.
            let out = out @ [\<lparr>dp_price = lvl_price lv, dp_qty = lvl_total_qty lv, dp_orders = lvl_order_count lv\<rparr>]
            in (length out < max_levels, out)) lvls []) })"

definition depth :: "('l, 'm) policy \<Rightarrow> nat \<Rightarrow> ('l, 'm) OrderBook \<Rightarrow> Depth option" where
  "depth P max_levels b = do {
     bids \<leftarrow> collect P Bid max_levels b;
     asks \<leftarrow> collect P Ask max_levels b;
     Some \<lparr>dp_bids = bids, dp_asks = asks\<rparr> }"

definition hash_level :: "heap \<Rightarrow> Level \<Rightarrow> u64 \<Rightarrow> u64 option" where
  "hash_level h lv v = do {
     let v = mix v (word_of_int (lvl_price lv));
     let v = mix v (lvl_total_qty lv);
     let v = mix v (ucast (lvl_order_count lv));
     as \<leftarrow> level_nodes h lv;
     Some (fold (\<lambda>a v. mix (mix v (ord_id (h a))) (ucast (ord_qty (h a)))) as v) }"

fun hash_levels :: "heap \<Rightarrow> Level list \<Rightarrow> u64 \<Rightarrow> u64 option" where
  "hash_levels h [] v = Some v"
| "hash_levels h (lv # lvls) v = do { v \<leftarrow> hash_level h lv v; hash_levels h lvls v }"

definition hash_side :: "('l, 'm) policy \<Rightarrow> ('l, 'm) OrderBook \<Rightarrow> Side \<Rightarrow> u64 \<Rightarrow> u64 option" where
  "hash_side P b s v = do {
     lvls \<leftarrow> pol_visit P s (bk_ladder b);
     hash_levels (bk_heap b) lvls (mix v (side_num s + 1)) }"

definition state_hash :: "('l, 'm) policy \<Rightarrow> ('l, 'm) OrderBook \<Rightarrow> u64 option" where
  "state_hash P b = do {
     v \<leftarrow> hash_side P b Bid kOffset;
     hash_side P b Ask v }"

end
