(* ===== verification/AbsBook.thy ===== *)
theory AbsBook
  imports Book
begin

text \<open>
  The specification of the book: per side the sorted list of price levels, each the queue of its
  orders, oldest first.  There are no pointers, no index and no bookkeeping; matching is recursion
  over the queues.  \<open>BookRefinement\<close> shows that \<open>OrderBook\<close> implements it under every lawful ladder
  and id map, \<open>BookProperties\<close> derives the market rules from it.
\<close>

type_synonym queue = "entry list"

record ABook =
  ab_stp :: SelfTradePolicy
  ab_levels :: "Side \<Rightarrow> (Price \<times> queue) list"
  ab_counters :: Counters

definition abook_new :: ABook where
  "abook_new = \<lparr>ab_stp = NoPrevention, ab_levels = (\<lambda>_. []), ab_counters = counters_zero\<rparr>"

text \<open>Counter updates.\<close>

definition c_added :: "Qty \<Rightarrow> Counters \<Rightarrow> Counters" where
  "c_added q c = c\<lparr>added_qty := added_qty c + ucast q\<rparr>"

definition c_traded :: "Qty \<Rightarrow> Counters \<Rightarrow> Counters" where
  "c_traded q c = c\<lparr>traded_qty := traded_qty c + ucast q\<rparr>"

definition c_canceled :: "Qty \<Rightarrow> Counters \<Rightarrow> Counters" where
  "c_canceled q c = c\<lparr>canceled_qty := canceled_qty c + ucast q\<rparr>"

definition c_executed :: "Qty \<Rightarrow> Counters \<Rightarrow> Counters" where
  "c_executed q c = c\<lparr>executed_qty := executed_qty c + ucast q\<rparr>"

definition c_prevented :: "Counters \<Rightarrow> Counters" where
  "c_prevented c = c\<lparr>self_trades_prevented := self_trades_prevented c + 1\<rparr>"

text \<open>A level is stored when it has orders and dropped when it has none.\<close>

definition place :: "Side \<Rightarrow> Price \<Rightarrow> queue \<Rightarrow> (Price \<times> queue) list \<Rightarrow> (Price \<times> queue) list" where
  "place s p es ls = (if es = [] then del p ls else put s p es ls)"

definition queue_at :: "Price \<Rightarrow> (Price \<times> queue) list \<Rightarrow> queue" where
  "queue_at p ls = (case map_of ls p of Some es \<Rightarrow> es | None \<Rightarrow> [])"

subsection \<open>Matching\<close>

text \<open>One queue: what is left of it, the quantity left, whether the aggressor was killed, the
  executions and the counters.\<close>

fun fill_queue ::
  "SelfTradePolicy \<Rightarrow> OrderId \<Rightarrow> ParticipantId \<Rightarrow> Price \<Rightarrow> queue \<Rightarrow> Qty \<Rightarrow> Counters
   \<Rightarrow> queue \<times> Qty \<times> bool \<times> Execution list \<times> Counters" where
  "fill_queue stp aggressor actor p [] qty c = ([], qty, False, [], c)"
| "fill_queue stp aggressor actor p (e # es) qty c =
     (if \<not> qty > 0 then (e # es, qty, False, [], c)
      else if stp_active stp actor \<and> en_owner e = actor then
        (case stp of
           CancelAggressor \<Rightarrow> (e # es, 0, True, [], c_canceled qty (c_prevented c))
         | CancelBoth \<Rightarrow> (es, 0, True, [], c_canceled qty (c_canceled (en_qty e) (c_prevented c)))
         | _ \<Rightarrow> fill_queue stp aggressor actor p es qty (c_canceled (en_qty e) (c_prevented c)))
      else
        (let fill = (if qty < en_qty e then qty else en_qty e);
             ex = \<lparr>ex_resting_id = en_id e, ex_aggressor_id = aggressor, ex_price = p, ex_qty = fill\<rparr>
         in if en_qty e - fill = 0 then
              (let (es', q, k, xs, c) = fill_queue stp aggressor actor p es (qty - fill) (c_traded fill c)
               in (es', q, k, ex # xs, c))
            else (e\<lparr>en_qty := en_qty e - fill\<rparr> # es, qty - fill, False, [ex], c_traded fill c)))"

fun fill_levels ::
  "SelfTradePolicy \<Rightarrow> bool \<Rightarrow> OrderId \<Rightarrow> ParticipantId \<Rightarrow> Side \<Rightarrow> Price \<Rightarrow> (Price \<times> queue) list \<Rightarrow> Qty
   \<Rightarrow> Counters \<Rightarrow> (Price \<times> queue) list \<times> Qty \<times> Execution list \<times> Counters" where
  "fill_levels stp has_limit aggressor actor side price [] qty c = ([], qty, [], c)"
| "fill_levels stp has_limit aggressor actor side price ((p, es) # ls) qty c =
     (if \<not> qty > 0 \<or> has_limit \<and> \<not> crosses side price p then ((p, es) # ls, qty, [], c)
      else
        (let (es', q, k, xs, c) = fill_queue stp aggressor actor p es qty c;
             rest = (if es' = [] then ls else (p, es') # ls)
         in if k \<or> es' \<noteq> [] then (rest, q, xs, c)
            else (let (ls', q, ys, c) = fill_levels stp has_limit aggressor actor side price ls q c
                  in (ls', q, xs @ ys, c))))"

definition abs_match ::
  "bool \<Rightarrow> OrderId \<Rightarrow> ParticipantId \<Rightarrow> Side \<Rightarrow> Price \<Rightarrow> Qty \<Rightarrow> ABook \<Rightarrow> Qty \<times> Execution list \<times> ABook" where
  "abs_match has_limit aggressor actor side price qty A =
     (let (ls, q, xs, c) = fill_levels (ab_stp A) has_limit aggressor actor side price
            (ab_levels A (opposite side)) qty (ab_counters A)
      in (q, xs, A\<lparr>ab_levels := (ab_levels A)(opposite side := ls), ab_counters := c\<rparr>))"

text \<open>The quantity an aggressor can reach in a queue, and whether it can get past it.\<close>

fun reach_queue :: "SelfTradePolicy \<Rightarrow> ParticipantId \<Rightarrow> queue \<Rightarrow> nat \<times> bool" where
  "reach_queue stp actor [] = (0, True)"
| "reach_queue stp actor (e # es) =
     (if stp_active stp actor \<and> en_owner e = actor then
        (if stp = CancelAggressor \<or> stp = CancelBoth then (0, False) else reach_queue stp actor es)
      else (let (n, past) = reach_queue stp actor es in (unat (en_qty e) + n, past)))"

fun reach_levels ::
  "SelfTradePolicy \<Rightarrow> bool \<Rightarrow> ParticipantId \<Rightarrow> Side \<Rightarrow> Price \<Rightarrow> (Price \<times> queue) list \<Rightarrow> nat" where
  "reach_levels stp has_limit actor side price [] = 0"
| "reach_levels stp has_limit actor side price ((p, es) # ls) =
     (if has_limit \<and> \<not> crosses side price p then 0
      else (let (n, past) = reach_queue stp actor es
            in if past then n + reach_levels stp has_limit actor side price ls else n))"

subsection \<open>Finding and removing an order\<close>

definition side_entries :: "Side \<Rightarrow> (Price \<times> queue) list \<Rightarrow> (Side \<times> Price \<times> entry) list" where
  "side_entries s ls = concat (map (\<lambda>(p, es). map (\<lambda>e. (s, p, e)) es) ls)"

definition all_entries :: "ABook \<Rightarrow> (Side \<times> Price \<times> entry) list" where
  "all_entries A = side_entries Bid (ab_levels A Bid) @ side_entries Ask (ab_levels A Ask)"

definition abs_find :: "OrderId \<Rightarrow> ABook \<Rightarrow> (Side \<times> Price \<times> entry) option" where
  "abs_find oid A = List.find (\<lambda>(s, p, e). en_id e = oid) (all_entries A)"

definition abs_set_queue :: "Side \<Rightarrow> Price \<Rightarrow> queue \<Rightarrow> ABook \<Rightarrow> ABook" where
  "abs_set_queue s p es A = A\<lparr>ab_levels := (ab_levels A)(s := place s p es (ab_levels A s))\<rparr>"

definition abs_remove :: "Side \<Rightarrow> Price \<Rightarrow> OrderId \<Rightarrow> ABook \<Rightarrow> ABook" where
  "abs_remove s p oid A = abs_set_queue s p (filter (\<lambda>e. en_id e \<noteq> oid) (queue_at p (ab_levels A s))) A"

definition abs_rest :: "OrderId \<Rightarrow> Side \<Rightarrow> Price \<Rightarrow> Qty \<Rightarrow> ParticipantId \<Rightarrow> ABook \<Rightarrow> ABook" where
  "abs_rest oid s p q actor A =
     abs_set_queue s p (queue_at p (ab_levels A s) @ [\<lparr>en_id = oid, en_qty = q, en_owner = actor\<rparr>]) A"

definition abs_count :: "(Counters \<Rightarrow> Counters) \<Rightarrow> ABook \<Rightarrow> ABook" where
  "abs_count f A = A\<lparr>ab_counters := f (ab_counters A)\<rparr>"

subsection \<open>The entry points\<close>

definition abs_validate :: "(Price \<Rightarrow> bool) \<Rightarrow> OrderId \<Rightarrow> Price \<Rightarrow> Qty \<Rightarrow> ABook \<Rightarrow> Result" where
  "abs_validate V oid price qty A =
     (if oid = 0 then RejectedBadId
      else if qty = 0 then RejectedBadQty
      else if \<not> V price then RejectedBadPrice
      else if abs_find oid A \<noteq> None then RejectedDuplicateId
      else Ok)"

definition abs_limit ::
  "(Price \<Rightarrow> bool) \<Rightarrow> ParticipantId \<Rightarrow> OrderId \<Rightarrow> Side \<Rightarrow> Price \<Rightarrow> Qty \<Rightarrow> ABook
   \<Rightarrow> Result \<times> Execution list \<times> ABook" where
  "abs_limit V actor oid side price qty A =
     (let r = abs_validate V oid price qty A in
      if r \<noteq> Ok then (r, [], A)
      else (let (left, xs, A) = abs_match True oid actor side price qty (abs_count (c_added qty) A)
            in (Ok, xs, if left > 0 then abs_rest oid side price left actor A else A)))"

definition abs_ioc ::
  "(Price \<Rightarrow> bool) \<Rightarrow> ParticipantId \<Rightarrow> OrderId \<Rightarrow> Side \<Rightarrow> Price \<Rightarrow> Qty \<Rightarrow> ABook
   \<Rightarrow> Result \<times> Execution list \<times> ABook" where
  "abs_ioc V actor oid side price qty A =
     (let r = abs_validate V oid price qty A in
      if r \<noteq> Ok then (r, [], A)
      else (let (left, xs, A) = abs_match True oid actor side price qty (abs_count (c_added qty) A)
            in (Ok, xs, abs_count (c_canceled left) A)))"

definition abs_fok ::
  "(Price \<Rightarrow> bool) \<Rightarrow> ParticipantId \<Rightarrow> OrderId \<Rightarrow> Side \<Rightarrow> Price \<Rightarrow> Qty \<Rightarrow> ABook
   \<Rightarrow> Result \<times> Execution list \<times> ABook" where
  "abs_fok V actor oid side price qty A =
     (let r = abs_validate V oid price qty A in
      if r \<noteq> Ok then (r, [], A)
      else if reach_levels (ab_stp A) True actor side price (ab_levels A (opposite side)) < unat qty
           then (RejectedNoLiquidity, [], A)
      else (let (left, xs, A) = abs_match True oid actor side price qty (abs_count (c_added qty) A)
            in (Ok, xs, abs_count (c_canceled left) A)))"

definition abs_market ::
  "ParticipantId \<Rightarrow> OrderId \<Rightarrow> Side \<Rightarrow> Qty \<Rightarrow> ABook \<Rightarrow> Result \<times> Execution list \<times> ABook" where
  "abs_market actor oid side qty A =
     (let r = abs_validate (\<lambda>_. True) oid 0 qty A in
      if r \<noteq> Ok then (r, [], A)
      else (let (left, xs, A) = abs_match False oid actor side 0 qty (abs_count (c_added qty) A)
            in (Ok, xs, abs_count (c_canceled left) A)))"

definition abs_cancel :: "OrderId \<Rightarrow> ABook \<Rightarrow> Result \<times> ABook" where
  "abs_cancel oid A =
     (case abs_find oid A of
        None \<Rightarrow> (RejectedUnknownId, A)
      | Some (s, p, e) \<Rightarrow> (Ok, abs_remove s p oid (abs_count (c_canceled (en_qty e)) A)))"

definition abs_replace ::
  "(Price \<Rightarrow> bool) \<Rightarrow> OrderId \<Rightarrow> OrderId \<Rightarrow> Price \<Rightarrow> Qty \<Rightarrow> ABook \<Rightarrow> Result \<times> Execution list \<times> ABook" where
  "abs_replace V old_id new_id new_price new_qty A =
     (case abs_find old_id A of
        None \<Rightarrow> (RejectedUnknownId, [], A)
      | Some (s, p, e) \<Rightarrow>
          if new_id = 0 then (RejectedBadId, [], A)
          else if new_qty = 0 then (RejectedBadQty, [], A)
          else if \<not> V new_price then (RejectedBadPrice, [], A)
          else if new_id \<noteq> old_id \<and> abs_find new_id A \<noteq> None then (RejectedDuplicateId, [], A)
          else abs_limit V (en_owner e) new_id s new_price new_qty (snd (abs_cancel old_id A)))"

definition abs_insert_passive ::
  "(Price \<Rightarrow> bool) \<Rightarrow> OrderId \<Rightarrow> Side \<Rightarrow> Price \<Rightarrow> Qty \<Rightarrow> ABook \<Rightarrow> Result \<times> ABook" where
  "abs_insert_passive V oid side price qty A =
     (let r = abs_validate V oid price qty A in
      if r \<noteq> Ok then (r, A) else (Ok, abs_rest oid side price qty 0 (abs_count (c_added qty) A)))"

definition abs_consume :: "OrderId \<Rightarrow> Qty \<Rightarrow> bool \<Rightarrow> ABook \<Rightarrow> Result \<times> Qty \<times> ABook" where
  "abs_consume oid qty is_execution A =
     (case abs_find oid A of
        None \<Rightarrow> (RejectedUnknownId, 0, A)
      | Some (s, p, e) \<Rightarrow>
          if qty = 0 then (RejectedBadQty, 0, A)
          else
            (let take = min qty (en_qty e);
                 A = abs_count (if is_execution then c_executed take else c_canceled take) A
             in if take = en_qty e then (Ok, take, abs_remove s p oid A)
                else (Ok, take, abs_set_queue s p
                       (map (\<lambda>e. if en_id e = oid then e\<lparr>en_qty := en_qty e - take\<rparr> else e)
                         (queue_at p (ab_levels A s))) A)))"

subsection \<open>Inspection\<close>

definition queue_qty :: "queue \<Rightarrow> u64" where
  "queue_qty es = (\<Sum>e\<leftarrow>es. ucast (en_qty e))"

definition abs_depth :: "Side \<Rightarrow> nat \<Rightarrow> ABook \<Rightarrow> DepthLevel list" where
  "abs_depth s n A =
     map (\<lambda>(p, es). \<lparr>dp_price = p, dp_qty = queue_qty es, dp_orders = of_nat (length es)\<rparr>)
       (take n (ab_levels A s))"

definition abs_hash_queue :: "Price \<times> queue \<Rightarrow> u64 \<Rightarrow> u64" where
  "abs_hash_queue = (\<lambda>(p, es) v.
     fold (\<lambda>e v. mix (mix v (en_id e)) (ucast (en_qty e))) es
       (mix (mix (mix v (word_of_int p)) (queue_qty es)) (of_nat (length es))))"

definition abs_hash_side :: "ABook \<Rightarrow> Side \<Rightarrow> u64 \<Rightarrow> u64" where
  "abs_hash_side A s v = fold abs_hash_queue (ab_levels A s) (mix v (side_num s + 1))"

definition abs_hash :: "ABook \<Rightarrow> u64" where
  "abs_hash A = abs_hash_side A Ask (abs_hash_side A Bid kOffset)"

end
