(* ===== verification/AbsMatching.thy ===== *)
theory AbsMatching
  imports AbsBook
begin

text \<open>
  Facts about the specification of matching: how much an aggressor executes (\<open>executed_total\<close> against
  \<open>reach_levels\<close>), that quantity is conserved, in which order resting orders are taken (\<open>in_order\<close>),
  and what stays on the side it matched against.
\<close>

subsection \<open>One queue, branch by branch\<close>

lemma fill_queue_trade:
  assumes "qty > 0" and "\<not> (stp_active stp actor \<and> en_owner e = actor)"
    and "fill = (if qty < en_qty e then qty else en_qty e)"
    and "ex = \<lparr>ex_resting_id = en_id e, ex_aggressor_id = aggressor, ex_price = p, ex_qty = fill\<rparr>"
  shows "en_qty e - fill = 0 \<Longrightarrow> fill_queue stp aggressor actor p es (qty - fill) (c_traded fill c) = (es', q, k, xs, c')
      \<Longrightarrow> fill_queue stp aggressor actor p (e # es) qty c = (es', q, k, ex # xs, c')"
    and "en_qty e - fill \<noteq> 0 \<Longrightarrow> fill_queue stp aggressor actor p (e # es) qty c
      = (e\<lparr>en_qty := en_qty e - fill\<rparr> # es, qty - fill, False, [ex], c_traded fill c)"
  using assms(1) unfolding assms(3,4) by (simp_all only: fill_queue.simps if_not_P [OF assms(2)] Let_def not_not if_False if_True simp_thms prod.case)

lemma fill_queue_left:
  "fill_queue stp aggressor actor p es qty c = (es', q, False, xs, c') \<Longrightarrow> es' \<noteq> [] \<Longrightarrow> \<not> q > 0"
proof (induction es arbitrary: qty c es' q xs c')
  case (Cons e es)
  then show ?case
    by (cases stp) (auto simp: Let_def split: if_splits prod.splits)
qed simp

subsection \<open>How much is executed\<close>

definition executed_total :: "Execution list \<Rightarrow> nat" where
  "executed_total xs = (\<Sum>x\<leftarrow>xs. unat (ex_qty x))"

lemma executed_total_simps [simp]:
  "executed_total [] = 0" "executed_total (x # xs) = unat (ex_qty x) + executed_total xs"
  "executed_total (xs @ ys) = executed_total xs + executed_total ys"
  by (simp_all add: executed_total_def)

lemma fill_queue_own:
  assumes "qty > 0" and "stp_active stp actor" and "en_owner e = actor"
  shows "fill_queue stp aggressor actor p (e # es) qty c = (case stp of
           CancelAggressor \<Rightarrow> (e # es, 0, True, [], c_canceled qty (c_prevented c))
         | CancelBoth \<Rightarrow> (es, 0, True, [], c_canceled qty (c_canceled (en_qty e) (c_prevented c)))
         | _ \<Rightarrow> fill_queue stp aggressor actor p es qty (c_canceled (en_qty e) (c_prevented c)))"
  using assms by simp

lemma fill_queue_zero: "\<not> qty > 0 \<Longrightarrow> fill_queue stp aggressor actor p es qty c = (es, qty, False, [], c)"
  by (cases es) auto

text \<open>The recursion of \<^const>\<open>fill_queue\<close> as an induction rule with one case per branch.\<close>

lemma fill_queue_cases:
  obtains (stop) "es = [] \<or> qty = 0"
      "fill_queue stp aggressor actor p es qty c = (es, qty, False, [], c)"
  | (kill) e es1 where "es = e # es1" "qty \<noteq> 0" "stp_active stp actor" "en_owner e = actor"
      "stp = CancelAggressor \<or> stp = CancelBoth"
      "fill_queue stp aggressor actor p es qty c = (if stp = CancelAggressor
         then (es, 0, True, [], c_canceled qty (c_prevented c))
         else (es1, 0, True, [], c_canceled qty (c_canceled (en_qty e) (c_prevented c))))"
  | (skip) e es1 where "es = e # es1" "qty \<noteq> 0" "stp_active stp actor" "en_owner e = actor" "stp = CancelResting"
      "fill_queue stp aggressor actor p es qty c
         = fill_queue stp aggressor actor p es1 qty (c_canceled (en_qty e) (c_prevented c))"
  | (partial) e es1 where "es = e # es1" "qty \<noteq> 0" "\<not> (stp_active stp actor \<and> en_owner e = actor)" "qty < en_qty e"
      "fill_queue stp aggressor actor p es qty c = (e\<lparr>en_qty := en_qty e - qty\<rparr> # es1, 0, False,
         [\<lparr>ex_resting_id = en_id e, ex_aggressor_id = aggressor, ex_price = p, ex_qty = qty\<rparr>], c_traded qty c)"
  | (full) e es1 es' q k xs c' where "es = e # es1" "qty \<noteq> 0" "\<not> (stp_active stp actor \<and> en_owner e = actor)"
      "en_qty e \<le> qty"
      "fill_queue stp aggressor actor p es1 (qty - en_qty e) (c_traded (en_qty e) c) = (es', q, k, xs, c')"
      "fill_queue stp aggressor actor p es qty c = (es', q, k,
         \<lparr>ex_resting_id = en_id e, ex_aggressor_id = aggressor, ex_price = p, ex_qty = en_qty e\<rparr> # xs, c')"
proof (cases "es = [] \<or> qty = 0")
  case True
  then show thesis using stop fill_queue_zero [of qty] by (cases es) auto
next
  case False
  then obtain e es1 where es: "es = e # es1" and q: "qty \<noteq> 0" by (cases es) auto
  have qp: "qty > 0" using q by (simp add: word_gt_0)
  show thesis
  proof (cases "stp_active stp actor \<and> en_owner e = actor")
    case True
    then show thesis
      using kill [OF es q] skip [OF es q] fill_queue_own [OF qp, of stp actor e aggressor p es1 c] es
      by (cases stp) (auto simp: stp_active_def)
  next
    case notown: False
    define fill where "fill = (if qty < en_qty e then qty else en_qty e)"
    let ?ex = "\<lparr>ex_resting_id = en_id e, ex_aggressor_id = aggressor, ex_price = p, ex_qty = fill\<rparr>"
    note t = fill_queue_trade [OF qp notown fill_def refl, of aggressor p es1]
    show thesis
    proof (cases "qty < en_qty e")
      case True
      then have f: "fill = qty" "en_qty e - qty \<noteq> 0" by (auto simp: fill_def)
      then show thesis using partial [OF es q notown True] t(2) [of c] es by simp
    next
      case False
      then have f: "fill = en_qty e" by (simp add: fill_def)
      obtain es' q' k xs c' where r: "fill_queue stp aggressor actor p es1 (qty - en_qty e) (c_traded (en_qty e) c) = (es', q', k, xs, c')"
        by (metis prod_cases5)
      show thesis using full [OF es q notown _ r] t(1) [of c] r False es f by simp
    qed
  qed
qed


text \<open>Quantities: what the orders and the aggressor lose is what is traded, twice, or canceled.\<close>

lemma queue_qty_simps [simp]:
  "queue_qty [] = 0" "queue_qty (e # es) = ucast (en_qty e) + queue_qty es" "queue_qty (es @ es') = queue_qty es + queue_qty es'"
  by (simp_all add: queue_qty_def)

lemma fill_queue_balance:
  "fill_queue stp aggressor actor p es qty c = (es', q, k, xs, c') \<Longrightarrow>
     2 * traded_qty c' + canceled_qty c' + queue_qty es' + ucast q
       = 2 * traded_qty c + canceled_qty c + queue_qty es + ucast qty
     \<and> added_qty c' = added_qty c \<and> executed_qty c' = executed_qty c"
proof (induction es arbitrary: qty c es' q k xs c' rule: measure_induct_rule [of length])
  case (less es)
  show ?case
  proof (cases rule: fill_queue_cases [of es qty stp aggressor actor p c])
    case stop
    then show ?thesis using less.prems by simp
  next
    case (kill e es1)
    then show ?thesis using less.prems
      by (auto simp: c_canceled_def c_prevented_def algebra_simps split: if_splits)
  next
    case (skip e es1)
    then show ?thesis using less.IH [of es1] less.prems by (fastforce simp: c_canceled_def c_prevented_def algebra_simps)
  next
    case (partial e es1)
    then have "(ucast (en_qty e - qty) :: u64) = ucast (en_qty e) - ucast qty" by (intro ucast_u32_diff) simp
    then show ?thesis using partial less.prems by (auto simp: c_traded_def algebra_simps)
  next
    case (full e es1 es2 q2 k2 xs2 c2)
    then have "(ucast (qty - en_qty e) :: u64) = ucast qty - ucast (en_qty e)" by (intro ucast_u32_diff) simp
    then show ?thesis using less.IH [of es1, OF _ full(5)] full less.prems by (auto simp: c_traded_def algebra_simps)
  qed
qed

text \<open>The aggressor executes what it can reach, and no more than it asks for.\<close>

lemma fill_queue_reach:
  "fill_queue stp aggressor actor p es qty c = (es', q, k, xs, c') \<Longrightarrow> reach_queue stp actor es = (n, past) \<Longrightarrow>
     executed_total xs = min (unat qty) n \<and> (k \<longleftrightarrow> n < unat qty \<and> \<not> past)
     \<and> unat q = (if k then 0 else unat qty - n) \<and> (\<not> k \<longrightarrow> n < unat qty \<longrightarrow> es' = [])"
proof (induction es arbitrary: qty c es' q k xs c' n rule: measure_induct_rule [of length])
  case (less es)
  show ?case
  proof (cases rule: fill_queue_cases [of es qty stp aggressor actor p c])
    case stop
    then show ?thesis using less.prems by auto
  next
    case (kill e es1)
    then have "n = 0" "\<not> past" using less.prems(2) by auto
    moreover have "unat qty > 0" using kill(2) by (simp add: unat_gt_0)
    ultimately show ?thesis using kill less.prems(1) by (auto split: if_splits)
  next
    case (skip e es1)
    then show ?thesis using less.IH [of es1] less.prems by auto
  next
    case (partial e es1)
    have "unat qty < unat (en_qty e)" "unat qty > 0" using partial(2,4) by (simp_all add: word_less_nat_alt unat_gt_0)
    moreover have "n \<ge> unat (en_qty e)" using partial(1,3) less.prems(2) by (auto split: prod.splits)
    ultimately show ?thesis using partial(5) less.prems(1) by auto
  next
    case (full e es1 es2 q2 k2 xs2 c2)
    obtain n1 where n1: "reach_queue stp actor es1 = (n1, past)" "n = unat (en_qty e) + n1"
      using full(1,3) less.prems(2) by (auto split: prod.splits)
    have "unat (qty - en_qty e) = unat qty - unat (en_qty e)" "unat (en_qty e) \<le> unat qty"
      using full(4) by (simp_all add: unat_diff_u32 word_le_nat_alt)
    then show ?thesis using less.IH [of es1, OF _ full(5) n1(1)] full(1,6) n1(2) less.prems(1) by auto
  qed
qed

lemma fill_levels_reach:
  "fill_levels stp has_limit aggressor actor side price ls qty c = (ls', q, xs, c') \<Longrightarrow>
     executed_total xs = min (unat qty) (reach_levels stp has_limit actor side price ls)
     \<and> (unat qty \<le> reach_levels stp has_limit actor side price ls \<longrightarrow> q = 0)"
proof (induction ls arbitrary: qty c ls' q xs c')
  case (Cons l ls)
  obtain p es where l: "l = (p, es)" by force
  obtain es1 q1 k ys1 c1 where fq: "fill_queue stp aggressor actor p es qty c = (es1, q1, k, ys1, c1)"
    by (metis prod_cases5)
  obtain ls2 q2 ys2 c2 where fl: "fill_levels stp has_limit aggressor actor side price ls q1 c1 = (ls2, q2, ys2, c2)"
    by (metis prod_cases4)
  obtain n past where r: "reach_queue stp actor es = (n, past)" by force
  note R = fill_queue_reach [OF fq r]
  show ?case
  proof (cases "\<not> qty > 0 \<or> has_limit \<and> \<not> crosses side price p")
    case True
    then show ?thesis using Cons.prems l by (auto simp: word_gt_0 unat_eq_zero)
  next
    case go: False
    show ?thesis
    proof (cases "k \<or> es1 \<noteq> []")
      case True
      then have res: "xs = ys1" "q = q1" using Cons.prems l go fq by (auto simp: Let_def)
      have "k \<Longrightarrow> \<not> past" "\<not> k \<Longrightarrow> unat qty \<le> n" using R True by auto
      then show ?thesis using l go r R res
        by (cases k) (auto simp: unat_eq_zero [symmetric] min_def split: if_splits)
    next
      case False
      then have res: "xs = ys1 @ ys2" "q = q2" using Cons.prems l go fq fl by (auto simp: Let_def)
      have past: "n < unat qty \<Longrightarrow> past" using R False by auto
      have "unat q1 = unat qty - n" using R False by auto
      then show ?thesis
        using Cons.IH [OF fl] R res l go r past False
        by (cases "n < unat qty") (auto simp: min_def)
    qed
  qed
qed (simp add: unat_eq_zero)

text \<open>The balance over all levels of a side.\<close>

definition levels_qty :: "(Price \<times> queue) list \<Rightarrow> u64" where
  "levels_qty ls = (\<Sum>(p, es)\<leftarrow>ls. queue_qty es)"

lemma levels_qty_simps [simp]:
  "levels_qty [] = 0" "levels_qty ((p, es) # ls) = queue_qty es + levels_qty ls"
  by (simp_all add: levels_qty_def)

lemma fill_levels_balance:
  "fill_levels stp has_limit aggressor actor side price ls qty c = (ls', q, xs, c') \<Longrightarrow>
     2 * traded_qty c' + canceled_qty c' + levels_qty ls' + ucast q
       = 2 * traded_qty c + canceled_qty c + levels_qty ls + ucast qty
     \<and> added_qty c' = added_qty c \<and> executed_qty c' = executed_qty c"
proof (induction ls arbitrary: qty c ls' q xs c')
  case (Cons l ls)
  obtain p es where l: "l = (p, es)" by force
  obtain es1 q1 k ys1 c1 where fq: "fill_queue stp aggressor actor p es qty c = (es1, q1, k, ys1, c1)"
    by (metis prod_cases5)
  obtain ls2 q2 ys2 c2 where fl: "fill_levels stp has_limit aggressor actor side price ls q1 c1 = (ls2, q2, ys2, c2)"
    by (metis prod_cases4)
  note B = fill_queue_balance [OF fq] and IH = Cons.IH [OF fl]
  show ?case
    using Cons.prems B IH l fq fl by (auto simp: Let_def algebra_simps split: if_splits)
qed simp

lemma queue_at_simps [simp]:
  "queue_at p [] = []" "queue_at p ((r, es) # ls) = (if p = r then es else queue_at p ls)"
  by (simp_all add: queue_at_def)

lemma queue_at_absent: "p \<notin> fst ` set ls \<Longrightarrow> queue_at p ls = []"
  by (induction ls) auto

lemma levels_qty_place:
  assumes "ladder_sorted s ls"
  shows "levels_qty (place s p es ls) = levels_qty ls - queue_qty (queue_at p ls) + queue_qty es"
proof -
  have d: "levels_qty (del p ls) = levels_qty ls - queue_qty (queue_at p ls)"
    using assms
  proof (induction ls)
    case (Cons l ls)
    obtain r fs where l: "l = (r, fs)" by force
    show ?case
    proof (cases "p = r")
      case True
      then have "p \<notin> fst ` set ls" using Cons.prems l by (auto dest: before_all)
      then show ?thesis using l True by simp
    qed (use Cons l in auto)
  qed simp
  have "levels_qty (put s p es ls) = levels_qty ls - queue_qty (queue_at p ls) + queue_qty es"
    using assms
  proof (induction ls)
    case (Cons l ls)
    obtain r fs where l: "l = (r, fs)" by force
    have "before s p r \<Longrightarrow> p \<notin> fst ` set ls" using Cons.prems l by (auto dest: before_all before_trans)
    then show ?case using Cons l queue_at_absent [of p ls] by auto
  qed simp
  then show ?thesis using d by (simp add: place_def)
qed

subsection \<open>Price-time priority\<close>

text \<open>The orders of a side in priority order: best price first, oldest first within a price.\<close>

definition flat :: "(Price \<times> queue) list \<Rightarrow> (Price \<times> entry) list" where
  "flat ls = concat (map (\<lambda>(p, es). map (Pair p) es) ls)"

lemma flat_simps [simp]: "flat [] = []" "flat ((p, es) # ls) = map (Pair p) es @ flat ls"
  by (simp_all add: flat_def)

definition fill_of :: "OrderId \<Rightarrow> Qty \<Rightarrow> Price \<times> entry \<Rightarrow> Execution" where
  "fill_of aggressor d = (\<lambda>(p, e). \<lparr>ex_resting_id = en_id e, ex_aggressor_id = aggressor, ex_price = p, ex_qty = d\<rparr>)"

text \<open>\<open>in_order aggressor fs xs fs'\<close>: the executions \<open>xs\<close> consume the orders \<open>fs\<close> from the left, each
  completely and at its own price but for the last, which may keep a part, and \<open>fs'\<close> is left.\<close>

definition in_order :: "OrderId \<Rightarrow> (Price \<times> entry) list \<Rightarrow> Execution list \<Rightarrow> (Price \<times> entry) list \<Rightarrow> bool" where
  "in_order aggressor fs xs fs' \<longleftrightarrow> (\<exists>taken rest. fs = taken @ rest \<and>
     (xs = map (\<lambda>f. fill_of aggressor (en_qty (snd f)) f) taken \<and> fs' = rest
      \<or> (\<exists>p e rest' d. rest = (p, e) # rest' \<and> 0 < d \<and> d < en_qty e
           \<and> xs = map (\<lambda>f. fill_of aggressor (en_qty (snd f)) f) taken @ [fill_of aggressor d (p, e)]
           \<and> fs' = (p, e\<lparr>en_qty := en_qty e - d\<rparr>) # rest')))"

lemma in_order_refl: "in_order aggressor fs [] fs"
  unfolding in_order_def by (rule exI [of _ "[]"], rule exI [of _ fs]) simp

lemma in_order_append:
  assumes "in_order aggressor fs xs fs'"
  shows "in_order aggressor (fs @ gs) xs (fs' @ gs)"
proof -
  obtain taken rest where fs: "fs = taken @ rest" and r: "xs = map (\<lambda>f. fill_of aggressor (en_qty (snd f)) f) taken \<and> fs' = rest
      \<or> (\<exists>p e rest' d. rest = (p, e) # rest' \<and> 0 < d \<and> d < en_qty e
           \<and> xs = map (\<lambda>f. fill_of aggressor (en_qty (snd f)) f) taken @ [fill_of aggressor d (p, e)]
           \<and> fs' = (p, e\<lparr>en_qty := en_qty e - d\<rparr>) # rest')"
    using assms unfolding in_order_def by blast
  show ?thesis
    unfolding in_order_def using r fs
    by (intro exI [of _ taken] exI [of _ "rest @ gs"]) auto
qed

lemma in_order_trans:
  assumes "in_order aggressor fs xs []" and "in_order aggressor gs ys gs'"
  shows "in_order aggressor (fs @ gs) (xs @ ys) gs'"
proof -
  have xs: "xs = map (\<lambda>f. fill_of aggressor (en_qty (snd f)) f) fs"
    using assms(1) unfolding in_order_def by fastforce
  obtain taken rest where gs: "gs = taken @ rest" and r: "ys = map (\<lambda>f. fill_of aggressor (en_qty (snd f)) f) taken \<and> gs' = rest
      \<or> (\<exists>p e rest' d. rest = (p, e) # rest' \<and> 0 < d \<and> d < en_qty e
           \<and> ys = map (\<lambda>f. fill_of aggressor (en_qty (snd f)) f) taken @ [fill_of aggressor d (p, e)]
           \<and> gs' = (p, e\<lparr>en_qty := en_qty e - d\<rparr>) # rest')"
    using assms(2) unfolding in_order_def by blast
  show ?thesis
    unfolding in_order_def xs using r gs
    by (intro exI [of _ "fs @ taken"] exI [of _ rest]) auto
qed

lemma fill_queue_in_order:
  "fill_queue stp aggressor actor p es qty c = (es', q, k, xs, c') \<Longrightarrow> \<not> stp_active stp actor \<Longrightarrow>
     in_order aggressor (map (Pair p) es) xs (map (Pair p) es')"
proof (induction es arbitrary: qty c es' q k xs c' rule: measure_induct_rule [of length])
  case (less es)
  show ?case
  proof (cases rule: fill_queue_cases [of es qty stp aggressor actor p c])
    case stop
    then show ?thesis using less.prems in_order_refl by auto
  next
    case (partial e es1)
    have r: "es' = e\<lparr>en_qty := en_qty e - qty\<rparr> # es1" "xs = [fill_of aggressor qty (p, e)]"
      using partial(5) less.prems(1) by (auto simp: fill_of_def simp del: fill_queue.simps)
    have "0 < qty" using partial(2) by (simp add: word_gt_0)
    then show ?thesis
      unfolding in_order_def r partial(1) using partial(4)
      by (intro exI [of _ "[]"] exI [of _ "(p, e) # map (Pair p) es1"]) auto
  next
    case (full e es1 es2 q2 k2 xs2 c2)
    have "in_order aggressor (map (Pair p) es1) xs2 (map (Pair p) es2)"
      using less.IH [of es1, OF _ full(5)] full(1) less.prems(2) by simp
    moreover have "in_order aggressor [(p, e)] [fill_of aggressor (en_qty e) (p, e)] []"
      unfolding in_order_def by (intro exI [of _ "[(p, e)]"] exI [of _ "[]"]) simp
    ultimately show ?thesis
      using in_order_trans [of aggressor "[(p, e)]" "[fill_of aggressor (en_qty e) (p, e)]"] full(1,6) less.prems(1)
      by (fastforce simp: fill_of_def)
  qed (use less.prems in auto)
qed

lemma fill_levels_in_order:
  "fill_levels stp has_limit aggressor actor side price ls qty c = (ls', q, xs, c') \<Longrightarrow> \<not> stp_active stp actor \<Longrightarrow>
     in_order aggressor (flat ls) xs (flat ls')"
proof (induction ls arbitrary: qty c ls' q xs c')
  case (Cons l ls)
  obtain p es where l: "l = (p, es)" by force
  obtain es1 q1 k ys1 c1 where fq: "fill_queue stp aggressor actor p es qty c = (es1, q1, k, ys1, c1)"
    by (metis prod_cases5)
  obtain ls2 q2 ys2 c2 where fl: "fill_levels stp has_limit aggressor actor side price ls q1 c1 = (ls2, q2, ys2, c2)"
    by (metis prod_cases4)
  note Q = fill_queue_in_order [OF fq Cons.prems(2)] and L = Cons.IH [OF fl Cons.prems(2)]
  show ?case
  proof (cases "\<not> qty > 0 \<or> has_limit \<and> \<not> crosses side price p")
    case True
    then show ?thesis using Cons.prems l in_order_refl by auto
  next
    case go: False
    show ?thesis
    proof (cases "k \<or> es1 \<noteq> []")
      case True
      then have "xs = ys1" "flat ls' = map (Pair p) es1 @ flat ls" using Cons.prems l go fq by (auto simp: Let_def)
      then show ?thesis using l in_order_append [OF Q] by simp
    next
      case False
      then have "xs = ys1 @ ys2" "ls' = ls2" using Cons.prems l go fq fl by (auto simp: Let_def)
      then show ?thesis using l in_order_trans [OF _ L] Q False by simp
    qed
  qed
qed (simp add: in_order_refl)

text \<open>What stays on a side: a part of it, and nothing that still crosses when quantity is left.\<close>

lemma fill_levels_keys:
  "fill_levels stp has_limit aggressor actor side price ls qty c = (ls', q, xs, c') \<Longrightarrow>
     fst ` set ls' \<subseteq> fst ` set ls \<and> (ladder_sorted s ls \<longrightarrow> ladder_sorted s ls')"
proof (induction ls arbitrary: qty c ls' q xs c')
  case (Cons l ls)
  obtain p es where l: "l = (p, es)" by force
  obtain es1 q1 k ys1 c1 where fq: "fill_queue stp aggressor actor p es qty c = (es1, q1, k, ys1, c1)"
    by (metis prod_cases5)
  obtain ls2 q2 ys2 c2 where fl: "fill_levels stp has_limit aggressor actor side price ls q1 c1 = (ls2, q2, ys2, c2)"
    by (metis prod_cases4)
  show ?case
    using Cons.prems Cons.IH [OF fl] l fq fl by (auto simp: Let_def split: if_splits)
qed simp

lemma crosses_before:
  assumes "\<not> crosses side price p" and "before (opposite side) p r"
  shows "\<not> crosses side price r"
  using assms by (cases side) (auto simp: crosses_def before_def)

lemma fill_levels_left:
  "fill_levels stp has_limit aggressor actor side price ls qty c = (ls', q, xs, c') \<Longrightarrow> q > 0 \<Longrightarrow>
     ladder_sorted (opposite side) ls \<Longrightarrow> \<forall>p \<in> fst ` set ls'. has_limit \<and> \<not> crosses side price p"
proof (induction ls arbitrary: qty c ls' q xs c')
  case (Cons l ls)
  obtain p es where l: "l = (p, es)" by force
  obtain es1 q1 k ys1 c1 where fq: "fill_queue stp aggressor actor p es qty c = (es1, q1, k, ys1, c1)"
    by (metis prod_cases5)
  obtain ls2 q2 ys2 c2 where fl: "fill_levels stp has_limit aggressor actor side price ls q1 c1 = (ls2, q2, ys2, c2)"
    by (metis prod_cases4)
  obtain n past where r: "reach_queue stp actor es = (n, past)" by force
  show ?case
  proof (cases "\<not> qty > 0 \<or> has_limit \<and> \<not> crosses side price p")
    case True
    then have "ls' = (p, es) # ls" "has_limit" "\<not> crosses side price p"
      using Cons.prems l by auto
    then show ?thesis using Cons.prems(3) l crosses_before by (auto dest: before_all)
  next
    case go: False
    show ?thesis
    proof (cases "k \<or> es1 \<noteq> []")
      case True
      then have "q = q1" using Cons.prems l go fq by (auto simp: Let_def)
      moreover have "\<not> q1 > 0"
        using True fill_queue_reach [OF fq r] fill_queue_left [of stp aggressor actor p es qty c es1 q1 ys1 c1] fq
        by (cases k) (auto simp: word_gt_0 unat_eq_zero)
      ultimately show ?thesis using Cons.prems(2) by simp
    next
      case False
      then have "ls' = ls2" "q = q2" using Cons.prems l go fq fl by (auto simp: Let_def)
      then show ?thesis using Cons.IH [OF fl] Cons.prems(2,3) l by simp
    qed
  qed
qed simp

end
