(* ===== verification/BookMatching.thy ===== *)
theory BookMatching
  imports AbsMatching
begin

text \<open>
  The relation between \<open>OrderBook\<close> and the specification of \<open>AbsBook\<close>, for every ladder and id map
  that keep their contracts, and the proof that the inner matching loop refines
  \<^const>\<open>fill_queue\<close>.  The relation carries as a ghost the list of node addresses of every level.
\<close>

type_synonym ghost = "Side \<Rightarrow> Price \<Rightarrow> addr list"

definition live :: "ghost \<Rightarrow> addr \<Rightarrow> bool" where
  "live G a \<longleftrightarrow> (\<exists>s p. a \<in> set (G s p))"

definition gset :: "ghost \<Rightarrow> Side \<Rightarrow> Price \<Rightarrow> addr list \<Rightarrow> ghost" where
  "gset G s p as = G(s := (G s)(p := as))"

definition view :: "(Side \<Rightarrow> (Price \<times> Level) list) \<Rightarrow> heap \<Rightarrow> ghost \<Rightarrow> Side \<Rightarrow> (Price \<times> queue) list" where
  "view K h G s = map (\<lambda>(p, _). (p, map (entry_at h) (G s p))) (K s)"

text \<open>The levels besides \<open>(s, p)\<close>, and putting a queue back at its place.\<close>

definition rest_view ::
  "(Side \<Rightarrow> (Price \<times> Level) list) \<Rightarrow> heap \<Rightarrow> ghost \<Rightarrow> Side \<Rightarrow> Price \<Rightarrow> Side \<Rightarrow> (Price \<times> queue) list" where
  "rest_view K h G s p = (view K h G)(s := del p (view K h G s))"

definition fill_in ::
  "(Side \<Rightarrow> (Price \<times> queue) list) \<Rightarrow> Side \<Rightarrow> Price \<Rightarrow> queue \<Rightarrow> Side \<Rightarrow> (Price \<times> queue) list" where
  "fill_in V s p es = V(s := place s p es (V s))"

text \<open>Every level outside the set \<open>X\<close> is a nonempty queue linked as the ghost says.\<close>

definition queues_ok :: "heap \<Rightarrow> (Side \<Rightarrow> (Price \<times> Level) list) \<Rightarrow> ghost \<Rightarrow> level_ref set \<Rightarrow> bool" where
  "queues_ok h K G X \<longleftrightarrow> (\<forall>t. ladder_sorted t (K t))
     \<and> (\<forall>t q lv. (q, lv) \<in> set (K t) \<longrightarrow> (t, q) \<notin> X \<longrightarrow> level_ok h (t, q) lv (G t q) \<and> G t q \<noteq> [])
     \<and> (\<forall>t q. q \<notin> fst ` set (K t) \<longrightarrow> (t, q) \<notin> X \<longrightarrow> G t q = [])"

definition nodes_ok :: "heap \<Rightarrow> Pool \<Rightarrow> ghost \<Rightarrow> bool" where
  "nodes_ok h pl G \<longleftrightarrow> (\<exists>fs. pool_ok h pl fs \<and> (\<forall>a. live G a \<longrightarrow> a < pl_total pl \<and> a \<notin> set fs))
     \<and> (\<forall>s p. \<forall>a \<in> set (G s p). ord_side (h a) = s \<and> ord_price (h a) = p)"

definition index_ok :: "(OrderId \<rightharpoonup> addr) \<Rightarrow> heap \<Rightarrow> ghost \<Rightarrow> bool" where
  "index_ok f h G \<longleftrightarrow> (\<forall>oid a. f oid = Some a \<longleftrightarrow> live G a \<and> ord_id (h a) = oid)"

definition open_qty :: "heap \<Rightarrow> ghost \<Rightarrow> bool" where
  "open_qty h G \<longleftrightarrow> (\<forall>a. live G a \<longrightarrow> ord_qty (h a) \<noteq> 0)"

lemma gset_simps [simp]:
  "gset G s p as s p = as"
  "(t, q) \<noteq> (s, p) \<Longrightarrow> gset G s p as t q = G t q"
  "gset (gset G s p as) s p bs = gset G s p bs"
  "gset G s p (G s p) = G"
  by (auto simp: gset_def fun_eq_iff)

lemma live_gset: "live (gset G s p as) a \<longleftrightarrow> a \<in> set as \<or> (\<exists>t q. (t, q) \<noteq> (s, p) \<and> a \<in> set (G t q))"
  unfolding live_def by (metis gset_simps(1,2) prod.inject)

lemma queues_okD:
  assumes "queues_ok h K G X"
  shows "ladder_sorted t (K t)"
    and "(q, lv) \<in> set (K t) \<Longrightarrow> (t, q) \<notin> X \<Longrightarrow> level_ok h (t, q) lv (G t q)"
    and "(q, lv) \<in> set (K t) \<Longrightarrow> (t, q) \<notin> X \<Longrightarrow> G t q \<noteq> []"
    and "q \<notin> fst ` set (K t) \<Longrightarrow> (t, q) \<notin> X \<Longrightarrow> G t q = []"
  using assms unfolding queues_ok_def by blast+

lemma queues_ok_member:
  assumes "queues_ok h K G X" and "a \<in> set (G t q)" and "(t, q) \<notin> X"
  shows "ord_level (h a) = Some (t, q)"
proof -
  have "q \<in> fst ` set (K t)" using queues_okD(4) [OF assms(1)] assms(2,3) by fastforce
  then obtain lv where "(q, lv) \<in> set (K t)" by auto
  then show ?thesis using queues_okD(2) [OF assms(1)] assms(2,3) by (auto simp: level_ok_def)
qed

lemma queues_ok_cong:
  assumes "queues_ok h K G X"
    and "\<And>t q a. (t, q) \<notin> X \<Longrightarrow> a \<in> set (G t q) \<Longrightarrow> h' a = h a"
    and "\<And>t q. (t, q) \<notin> X \<Longrightarrow> G' t q = G t q"
  shows "queues_ok h' K G' X"
  using assms level_ok_cong [of "G _ _" h' h] unfolding queues_ok_def by simp

lemma queues_ok_put:
  assumes q: "queues_ok h K G {(s, p)}" and ok: "level_ok h (s, p) lv (G s p)" and ne: "G s p \<noteq> []"
  shows "queues_ok h (K(s := put s p lv (K s))) G {}"
  unfolding queues_ok_def
proof (intro conjI allI impI)
  fix t r lw
  show "ladder_sorted t ((K(s := put s p lv (K s))) t)" using queues_okD(1) [OF q] by simp
  assume m: "(r, lw) \<in> set ((K(s := put s p lv (K s))) t)"
  show "level_ok h (t, r) lw (G t r)" "G t r \<noteq> []"
    using m queues_okD(1-3) [OF q] ok ne by (auto simp: set_put split: if_splits)
next
  fix t r assume "r \<notin> fst ` set ((K(s := put s p lv (K s))) t)"
  then show "G t r = []" using queues_okD(4) [OF q, of r t] by (auto split: if_splits)
qed

lemma queues_ok_del:
  assumes q: "queues_ok h K G {(s, p)}" and e: "G s p = []"
  shows "queues_ok h (K(s := del p (K s))) G {}"
  unfolding queues_ok_def
proof (intro conjI allI impI)
  fix t r lw
  show "ladder_sorted t ((K(s := del p (K s))) t)" using queues_okD(1) [OF q] by simp
  assume m: "(r, lw) \<in> set ((K(s := del p (K s))) t)"
  show "level_ok h (t, r) lw (G t r)" "G t r \<noteq> []"
    using m queues_okD(2,3) [OF q] by (auto simp: set_del split: if_splits)
next
  fix t r assume "r \<notin> fst ` set ((K(s := del p (K s))) t)"
  then show "G t r = []" using queues_okD(4) [OF q, of r t] e by (auto split: if_splits)
qed

lemma fst_view: "map fst (view K h G s) = map fst (K s)"
  by (simp add: view_def split_beta)

lemma sorted_view: "ladder_sorted s (K s) \<Longrightarrow> ladder_sorted s (view K h G s)"
  by (simp add: ladder_sorted_def fst_view)

lemma place_del: "ladder_sorted s xs \<Longrightarrow> place s p es (del p xs) = place s p es xs"
  by (simp add: place_def put_del)

lemma fill_rest_view:
  "ladder_sorted s (K s) \<Longrightarrow>
     fill_in (rest_view K h G s p) s p es = (view K h G)(s := place s p es (view K h G s))"
  by (simp add: fill_in_def rest_view_def place_del sorted_view)

lemma view_place:
  assumes "queues_ok h K G {(s, p)}"
  shows "G s p \<noteq> [] \<Longrightarrow> view (K(s := put s p lv (K s))) h G = fill_in (rest_view K h G s p) s p (map (entry_at h) (G s p))"
    and "G s p = [] \<Longrightarrow> view (K(s := del p (K s))) h G = fill_in (rest_view K h G s p) s p (map (entry_at h) (G s p))"
  unfolding fill_rest_view [of s K, OF queues_okD(1) [OF assms]]
  by (auto simp: view_def fun_eq_iff place_def map_put map_del)

text \<open>Taking a node out of a queue, and the node that goes is the only live one of its id.\<close>

lemma index_ok_remove:
  assumes i: "index_ok f h G" and a: "live G a" and G': "\<And>b. live G' b \<longleftrightarrow> live G b \<and> b \<noteq> a"
    and h': "\<And>b. live G b \<Longrightarrow> ord_id (h' b) = ord_id (h b)"
  shows "index_ok (f(ord_id (h a) := None)) h' G'"
  unfolding index_ok_def
proof (intro allI)
  fix oid c
  have "live G c \<Longrightarrow> ord_id (h c) = ord_id (h a) \<Longrightarrow> c = a"
    using i a unfolding index_ok_def by (metis option.inject)
  then show "(f(ord_id (h a) := None)) oid = Some c \<longleftrightarrow> live G' c \<and> ord_id (h' c) = oid"
    using i G' h' unfolding index_ok_def by auto
qed

lemma index_ok_insert:
  assumes i: "index_ok f h G" and a: "\<not> live G a" and G': "\<And>b. live G' b \<longleftrightarrow> live G b \<or> b = a"
    and h': "\<And>b. live G b \<Longrightarrow> ord_id (h' b) = ord_id (h b)" and new: "f (ord_id (h' a)) = None"
  shows "index_ok (f(ord_id (h' a) \<mapsto> a)) h' G'"
  unfolding index_ok_def
proof (intro allI)
  fix oid c
  show "(f(ord_id (h' a) \<mapsto> a)) oid = Some c \<longleftrightarrow> live G' c \<and> ord_id (h' c) = oid"
  proof (cases "c = a")
    case True
    then show ?thesis using i a G' unfolding index_ok_def by auto
  next
    case False
    have "live G c \<Longrightarrow> ord_id (h' c) \<noteq> ord_id (h' a)"
      using i h' new unfolding index_ok_def by (metis option.distinct(1))
    then show ?thesis using False i G' h' unfolding index_ok_def by auto
  qed
qed

lemma index_ok_cong:
  assumes "index_ok f h G" and "\<And>b. live G b \<Longrightarrow> ord_id (h' b) = ord_id (h b)" and "live G' = live G"
  shows "index_ok f h' G'"
  using assms unfolding index_ok_def by metis

text \<open>A queue has no more nodes than the index has entries.\<close>

lemma index_ok_queue_length:
  assumes i: "index_ok f h G" and fin: "finite (dom f)" and d: "distinct (G s p)"
  shows "length (G s p) \<le> card (dom f)"
proof -
  have sub: "set (G s p) \<subseteq> (the \<circ> f) ` dom f"
  proof
    fix a assume "a \<in> set (G s p)"
    then have "f (ord_id (h a)) = Some a" using i by (auto simp: index_ok_def live_def)
    then show "a \<in> (the \<circ> f) ` dom f" by force
  qed
  have "length (G s p) = card (set (G s p))" using d by (simp add: distinct_card)
  also have "\<dots> \<le> card ((the \<circ> f) ` dom f)" using sub fin by (intro card_mono) auto
  also have "\<dots> \<le> card (dom f)" using fin by (rule card_image_le)
  finally show ?thesis .
qed

lemma nodes_ok_alloc_frame:
  assumes "nodes_ok h pl G"
  obtains fs where "pool_ok h pl fs" and "\<And>a. live G a \<Longrightarrow> a < pl_total pl \<and> a \<notin> set fs"
    and "\<And>s p a. a \<in> set (G s p) \<Longrightarrow> ord_side (h a) = s \<and> ord_price (h a) = p"
  using assms unfolding nodes_ok_def by blast

subsection \<open>The two policies together\<close>

locale book_policies =
  lad: ladder "pol_valid_price P" "pol_get_or_create P" "pol_on_level_empty P" "pol_best P"
    "pol_visit P" "pol_deref P" "pol_store P" linv levels window +
  ids: id_map "pol_new_map P" "pol_reserve P" "pol_find P" "pol_insert P" "pol_erase P" "pol_size P" minv lookup
  for P :: "('l, 'm) policy" and linv levels window minv lookup
begin

text \<open>The parts of the book no queue operation is in the middle of.\<close>

definition base :: "('l, 'm) OrderBook \<Rightarrow> ghost \<Rightarrow> bool" where
  "base b G \<longleftrightarrow> minv (bk_orders b) \<and> index_ok (lookup (bk_orders b)) (bk_heap b) G
     \<and> nodes_ok (bk_heap b) (bk_pool b) G"

text \<open>The book between two calls, and the book while level \<open>(s, p)\<close> is being worked on.\<close>

definition settled :: "('l, 'm) OrderBook \<Rightarrow> ghost \<Rightarrow> bool" where
  "settled b G \<longleftrightarrow> base b G \<and> open_qty (bk_heap b) G
     \<and> linv (bk_ladder b) \<and> queues_ok (bk_heap b) (levels (bk_ladder b)) G {}"

definition working ::
  "('l, 'm) OrderBook \<Rightarrow> ghost \<Rightarrow> Side \<Rightarrow> Price \<Rightarrow> Level \<Rightarrow> (Side \<Rightarrow> (Price \<times> Level) list) \<Rightarrow> bool" where
  "working b G s p lv K \<longleftrightarrow> base b G
     \<and> window s p lv K (bk_ladder b) \<and> level_ok (bk_heap b) (s, p) lv (G s p)
     \<and> queues_ok (bk_heap b) K G {(s, p)}"

definition levels_of :: "('l, 'm) OrderBook \<Rightarrow> ghost \<Rightarrow> Side \<Rightarrow> (Price \<times> queue) list" where
  "levels_of b G = view (levels (bk_ladder b)) (bk_heap b) G"

definition same_rest :: "('l, 'm) OrderBook \<Rightarrow> ('l, 'm) OrderBook \<Rightarrow> bool" where
  "same_rest b b' \<longleftrightarrow> bk_stp b' = bk_stp b \<and> bk_counters b' = bk_counters b
     \<and> pol_valid_price P (bk_ladder b') = pol_valid_price P (bk_ladder b)"

lemma settled_open:
  assumes "settled b G" and "(p, lv) \<in> set (levels (bk_ladder b) s)"
  shows "working b G s p lv (levels (bk_ladder b))"
  using assms lad.open_law [of "bk_ladder b" p lv s]
  unfolding settled_def working_def queues_ok_def by auto

lemma working_disjoint:
  assumes "working b G s p lv K" and "a \<in> set (G s p)" and "(t, q) \<noteq> (s, p)"
  shows "a \<notin> set (G t q)"
proof
  assume "a \<in> set (G t q)"
  then have "ord_level (bk_heap b a) = Some (t, q)"
    using assms(1,3) queues_ok_member [of "bk_heap b" K G "{(s, p)}" a t q] by (simp add: working_def)
  moreover have "ord_level (bk_heap b a) = Some (s, p)"
    using assms(1,2) by (simp add: working_def level_ok_def)
  ultimately show False using assms(3) by simp
qed

lemma unlink_working:
  assumes w: "working b G s p lv K" and G: "G s p = xs @ a # ys"
  shows "\<exists>b' lv'. unlink_order P (s, p) a b = Some b' \<and> working b' (gset G s p (xs @ ys)) s p lv' K
    \<and> same_rest b b' \<and> (\<forall>c. payload (bk_heap b' c) = payload (bk_heap b c))
    \<and> pol_size P (bk_orders b) = Suc (pol_size P (bk_orders b'))"
proof -
  let ?h = "bk_heap b" and ?G = "gset G s p (xs @ ys)"
  have ok: "level_ok ?h (s, p) lv (xs @ a # ys)" and win: "window s p lv K (bk_ladder b)"
    and q: "queues_ok ?h K G {(s, p)}" and inv: "minv (bk_orders b)"
    and ix: "index_ok (lookup (bk_orders b)) ?h G" and nd: "nodes_ok ?h (bk_pool b) G"
    using w G by (simp_all add: working_def base_def)
  have a: "a \<in> set (G s p)" using G by simp
  then have la: "live G a" unfolding live_def by blast
  obtain h1 lv1 where rm: "level_remove a ?h lv = (h1, lv1)" by force
  note r = level_remove_ok [OF ok rm]
  have d: "distinct (xs @ a # ys)" using ok by (simp add: level_ok_def)
  have G': "live ?G c \<longleftrightarrow> live G c \<and> c \<noteq> a" for c
  proof -
    have "live G c \<longleftrightarrow> c \<in> set (xs @ a # ys) \<or> (\<exists>t q. (t, q) \<noteq> (s, p) \<and> c \<in> set (G t q))"
      using live_gset [of G s p "xs @ a # ys" c] G by (metis gset_simps(4))
    then show ?thesis
      using working_disjoint [OF w a] d by (auto simp: live_gset)
  qed
  obtain fs where pl: "pool_ok ?h (bk_pool b) fs" "\<And>c. live G c \<Longrightarrow> c < pl_total (bk_pool b) \<and> c \<notin> set fs"
    and sp: "\<And>t q c. c \<in> set (G t q) \<Longrightarrow> ord_side (?h c) = t \<and> ord_price (?h c) = q"
    using nodes_ok_alloc_frame [OF nd] by metis
  have lk: "lookup (bk_orders b) (ord_id (?h a)) = Some a"
    using ix la by (simp add: index_ok_def)
  have id1: "ord_id (h1 a) = ord_id (?h a)" using r(3) [of a] by (simp add: payload_def)
  obtain m where m: "pol_erase P (bk_orders b) (ord_id (?h a)) = Some (True, m)" "minv m"
    "lookup m = (lookup (bk_orders b))(ord_id (?h a) := None)"
    using ids.erase_present [OF inv lk] by metis
  have pl1: "pool_ok h1 (bk_pool b) fs"
    using pl G r(2) by (intro pool_ok_cong [OF pl(1)]) (metis live_def linorder_not_le)
  obtain h2 p2 where rl: "pool_release a h1 (bk_pool b) = (h2, p2)" by force
  note r2 = pool_release_ok [OF pl1 _ _ rl]
  have fa: "a \<notin> set fs" "a < pl_total (bk_pool b)" using pl(2) [OF la] by auto
  have pay: "payload (h2 c) = payload (?h c)" for c using r2(4) [OF fa] r(3) by simp
  let ?b = "b\<lparr>bk_heap := h2, bk_ladder := pol_store P (s, p) lv1 (bk_ladder b), bk_orders := m, bk_pool := p2\<rparr>"
  have "unlink_order P (s, p) a b = Some ?b"
    using lad.deref_law [OF win] rm m(1) rl id1 by (simp add: unlink_order_def level_do_def)
  moreover have "working ?b ?G s p lv1 K"
    unfolding working_def base_def
  proof (intro conjI; simp)
    show "minv m" by (rule m(2))
    show "index_ok (lookup m) h2 ?G"
      unfolding m(3) using pay by (intro index_ok_remove [OF ix la G']) (simp add: payload_def)
    show "nodes_ok h2 p2 ?G"
      unfolding nodes_ok_def
    proof (intro conjI exI allI impI ballI)
      show "pool_ok h2 p2 (a # fs)" by (rule r2(1) [OF fa])
      show "live ?G c \<Longrightarrow> c < pl_total p2" "live ?G c \<Longrightarrow> c \<notin> set (a # fs)" for c
        using pl(2) r2(3) [OF fa] by (auto simp: G')
      fix t q c assume "c \<in> set (?G t q)"
      then have "c \<in> set (G t q)" using G by (cases "(t, q) = (s, p)") auto
      then show "ord_side (h2 c) = t" "ord_price (h2 c) = q"
        using sp [of c t q] pay [of c] by (simp_all add: payload_def)
    qed
    show "window s p lv1 K (pol_store P (s, p) lv1 (bk_ladder b))"
      using r(1) by (intro lad.store_law [OF win]) (simp add: level_ok_def)
    have "level_ok h2 (s, p) lv1 (xs @ ys) = level_ok h1 (s, p) lv1 (xs @ ys)"
      using d by (intro level_ok_cong r2(2) [OF fa]) auto
    then show "level_ok h2 (s, p) lv1 (xs @ ys)" using r(1) by simp
    show "queues_ok h2 K ?G {(s, p)}"
    proof (rule queues_ok_cong [OF q])
      fix t q c assume "(t, q) \<notin> {(s, p)}" "c \<in> set (G t q)"
      then have "c \<notin> set (G s p)" using working_disjoint [OF w] by blast
      then show "h2 c = ?h c" using r2(2) [OF fa] r(2) G by auto
    qed simp
  qed
  moreover have "pol_size P (bk_orders b) = Suc (pol_size P (bk_orders ?b))"
    using ids.count_erase [OF inv m(2,3)] lk by simp
  moreover have "same_rest b ?b" by (simp add: same_rest_def lad.store_valid)
  ultimately show ?thesis using pay by (intro exI [of _ ?b]) auto
qed


lemma reduce_working:
  assumes w: "working b G s p lv K" and a: "a \<in> set (G s p)" and d: "d \<le> ord_qty (bk_heap b a)"
  shows "\<exists>b' lv'. level_do P (s, p) (level_reduce a d) b = Some b' \<and> working b' G s p lv' K
    \<and> same_rest b b' \<and> bk_orders b' = bk_orders b
    \<and> bk_heap b' = (bk_heap b)(a := (bk_heap b a)\<lparr>ord_qty := ord_qty (bk_heap b a) - d\<rparr>)"
proof -
  let ?h = "bk_heap b" and ?h' = "(bk_heap b)(a := (bk_heap b a)\<lparr>ord_qty := ord_qty (bk_heap b a) - d\<rparr>)"
  have ok: "level_ok ?h (s, p) lv (G s p)" and win: "window s p lv K (bk_ladder b)"
    and q: "queues_ok ?h K G {(s, p)}" and inv: "minv (bk_orders b)"
    and ix: "index_ok (lookup (bk_orders b)) ?h G" and nd: "nodes_ok ?h (bk_pool b) G"
    using w by (simp_all add: working_def base_def)
  obtain h1 lv1 where rd: "level_reduce a d ?h lv = (h1, lv1)" by force
  have h1: "h1 = ?h'" and ok1: "level_ok h1 (s, p) lv1 (G s p)"
    using level_reduce_ok [OF ok a d rd] by auto
  obtain fs where pl: "pool_ok ?h (bk_pool b) fs" "\<And>c. live G c \<Longrightarrow> c < pl_total (bk_pool b) \<and> c \<notin> set fs"
    and sp: "\<And>t q c. c \<in> set (G t q) \<Longrightarrow> ord_side (?h c) = t \<and> ord_price (?h c) = q"
    using nodes_ok_alloc_frame [OF nd] by metis
  have la: "live G a" using a unfolding live_def by blast
  let ?b = "b\<lparr>bk_heap := ?h', bk_ladder := pol_store P (s, p) lv1 (bk_ladder b)\<rparr>"
  have "level_do P (s, p) (level_reduce a d) b = Some ?b"
    using lad.deref_law [OF win] rd h1 by (simp add: level_do_def)
  moreover have "working ?b G s p lv1 K"
    unfolding working_def base_def
  proof (intro conjI; simp)
    show "minv (bk_orders b)" by (rule inv)
    show "index_ok (lookup (bk_orders b)) ?h' G" by (rule index_ok_cong [OF ix]) auto
    have "pool_ok ?h' (bk_pool b) fs"
      using pl(2) [OF la] by (intro pool_ok_cong [OF pl(1)]) auto
    then show "nodes_ok ?h' (bk_pool b) G"
      unfolding nodes_ok_def using pl(2) sp by auto
    show "window s p lv1 K (pol_store P (s, p) lv1 (bk_ladder b))"
      using ok1 by (intro lad.store_law [OF win]) (simp add: level_ok_def)
    show "level_ok ?h' (s, p) lv1 (G s p)" using ok1 h1 by simp
    show "queues_ok ?h' K G {(s, p)}"
      using working_disjoint [OF w a] by (intro queues_ok_cong [OF q]) auto
  qed
  moreover have "same_rest b ?b" by (simp add: same_rest_def lad.store_valid)
  ultimately show ?thesis by (intro exI [of _ ?b]) auto
qed

lemma queue_length:
  assumes "base b G" and "distinct (G s p)" and "pol_size P (bk_orders b) < 2 ^ 32"
  shows "length (G s p) < 2 ^ 32"
proof -
  have "minv (bk_orders b)" and ix: "index_ok (lookup (bk_orders b)) (bk_heap b) G"
    using assms(1) by (simp_all add: base_def)
  then have "pol_size P (bk_orders b) = card (dom (lookup (bk_orders b)))" "finite (dom (lookup (bk_orders b)))"
    using ids.count_law ids.finite_law by auto
  then show ?thesis using index_ok_queue_length [OF ix _ assms(2)] assms(3) by simp
qed

lemma working_length:
  assumes "working b G s p lv K" and "pol_size P (bk_orders b) < 2 ^ 32"
  shows "length (G s p) < 2 ^ 32"
  using assms queue_length [of b G s p] by (simp add: working_def level_ok_def)

lemma working_count:
  assumes "working b G s p lv K" and "pol_size P (bk_orders b) < 2 ^ 32"
  shows "lvl_order_count lv = 0 \<longleftrightarrow> G s p = []"
  using assms working_length [OF assms] of_nat_u32_eq_0 [of "length (G s p)"]
  by (simp add: working_def level_ok_def)

text \<open>Closing the level that is being worked on.\<close>

lemma close_working:
  assumes w: "working b G s p lv K" and ne: "G s p \<noteq> []" and oq: "open_qty (bk_heap b) G"
    and small: "pol_size P (bk_orders b) < 2 ^ 32"
  shows "settled b G"
    and "levels_of b G = fill_in (rest_view K (bk_heap b) G s p) s p (map (entry_at (bk_heap b)) (G s p))"
proof -
  have win: "window s p lv K (bk_ladder b)" and q: "queues_ok (bk_heap b) K G {(s, p)}"
    and ok: "level_ok (bk_heap b) (s, p) lv (G s p)" and bs: "base b G"
    using w by (simp_all add: working_def)
  have c: "linv (bk_ladder b)" "levels (bk_ladder b) = K(s := put s p lv (K s))"
    using lad.close_law [OF win] working_count [OF w small] ne by auto
  have "queues_ok (bk_heap b) (K(s := put s p lv (K s))) G {}"
    by (rule queues_ok_put [OF q ok ne])
  then show "settled b G" using bs oq c by (simp add: settled_def)
  show "levels_of b G = fill_in (rest_view K (bk_heap b) G s p) s p (map (entry_at (bk_heap b)) (G s p))"
    using view_place(1) [OF q ne] c(2) by (simp add: levels_of_def)
qed

lemma retire_working:
  assumes w: "working b G s p lv K" and oq: "open_qty (bk_heap b) G"
    and small: "pol_size P (bk_orders b) < 2 ^ 32"
  shows "\<exists>b'. retire_if_empty P s (s, p) b = Some b' \<and> settled b' G \<and> same_rest b b'
    \<and> bk_heap b' = bk_heap b \<and> bk_orders b' = bk_orders b
    \<and> levels_of b' G = fill_in (rest_view K (bk_heap b) G s p) s p (map (entry_at (bk_heap b)) (G s p))"
proof -
  have win: "window s p lv K (bk_ladder b)" and q: "queues_ok (bk_heap b) K G {(s, p)}"
    and ok: "level_ok (bk_heap b) (s, p) lv (G s p)" and bs: "base b G"
    using w by (simp_all add: working_def)
  note dr = lad.deref_law [OF win]
  show ?thesis
  proof (cases "G s p = []")
    case False
    then have "lvl_order_count lv \<noteq> 0" using working_count [OF w small] by simp
    then have "retire_if_empty P s (s, p) b = Some b" using dr by (simp add: retire_if_empty_def)
    then show ?thesis using close_working [OF w False oq small] by (simp add: same_rest_def)
  next
    case True
    then have z: "lvl_order_count lv = 0" and fresh: "lv = fresh_level p"
      using ok by (auto simp: level_ok_def fresh_level_def level_default_def)
    obtain l where l: "pol_on_level_empty P s (s, p) (bk_ladder b) = Some l" "linv l"
      "levels l = K(s := del p (K s))" "pol_valid_price P l = pol_valid_price P (bk_ladder b)"
      using lad.empty_law win fresh by metis
    let ?b = "b\<lparr>bk_ladder := l\<rparr>"
    have "retire_if_empty P s (s, p) b = Some ?b" using dr z l(1) by (simp add: retire_if_empty_def)
    moreover have "queues_ok (bk_heap b) (K(s := del p (K s))) G {}"
      by (rule queues_ok_del [OF q True])
    then have "settled ?b G" using bs oq l(2,3) by (simp add: settled_def base_def)
    moreover have "levels_of ?b G = fill_in (rest_view K (bk_heap b) G s p) s p (map (entry_at (bk_heap b)) (G s p))"
      using view_place(2) [OF q True] l(3) by (simp add: levels_of_def)
    ultimately show ?thesis using l(4) by (intro exI [of _ ?b]) (simp add: same_rest_def)
  qed
qed


lemma counters_frame [simp]:
  "base (b\<lparr>bk_counters := c\<rparr>) G = base b G"
  "settled (b\<lparr>bk_counters := c\<rparr>) G = settled b G"
  "working (b\<lparr>bk_counters := c\<rparr>) G s p lv K = working b G s p lv K"
  "levels_of (b\<lparr>bk_counters := c\<rparr>) G = levels_of b G"
  by (simp_all add: base_def settled_def working_def levels_of_def)

text \<open>What a step on the level \<open>(s, p)\<close> leaves alone.\<close>

definition others :: "Side \<Rightarrow> Price \<Rightarrow> ('l, 'm) OrderBook \<Rightarrow> ghost \<Rightarrow> ('l, 'm) OrderBook \<Rightarrow> ghost \<Rightarrow> bool" where
  "others s p b G b' G' \<longleftrightarrow>
     (\<forall>t q. (t, q) \<noteq> (s, p) \<longrightarrow> G' t q = G t q
        \<and> map (entry_at (bk_heap b')) (G t q) = map (entry_at (bk_heap b)) (G t q))
     \<and> bk_stp b' = bk_stp b
     \<and> pol_valid_price P (bk_ladder b') = pol_valid_price P (bk_ladder b)
     \<and> pol_size P (bk_orders b') \<le> pol_size P (bk_orders b)"

lemma othersD:
  assumes "others s p b G b' G'" and "(t, q) \<noteq> (s, p)"
  shows "G' t q = G t q" and "map (entry_at (bk_heap b')) (G t q) = map (entry_at (bk_heap b)) (G t q)"
  using assms unfolding others_def by blast+

lemma others_refl: "others s p b G b G"
  by (simp add: others_def)

lemma others_trans: "others s p b G b1 G1 \<Longrightarrow> others s p b1 G1 b2 G2 \<Longrightarrow> others s p b G b2 G2"
  unfolding others_def by auto

lemma others_counters [simp]:
  "others s p b G (b'\<lparr>bk_counters := c\<rparr>) G' = others s p b G b' G'"
  "others s p (b\<lparr>bk_counters := c\<rparr>) G b' G' = others s p b G b' G'"
  by (simp_all add: others_def)

lemma others_rest_view:
  assumes "others s p b G b' G'"
  shows "rest_view K (bk_heap b') G' s p = rest_view K (bk_heap b) G s p"
proof -
  have "map (\<lambda>(q, w). (q, map (entry_at (bk_heap b')) (G' t q))) (K t)
      = map (\<lambda>(q, w). (q, map (entry_at (bk_heap b)) (G t q))) (K t)" if "t \<noteq> s" for t
    using that by (intro map_cong refl) (auto simp del: map_eq_conv simp: othersD [OF assms])
  moreover have "map (\<lambda>(q, w). (q, map (entry_at (bk_heap b')) (G' s q))) (del p (K s))
      = map (\<lambda>(q, w). (q, map (entry_at (bk_heap b)) (G s q))) (del p (K s))"
    by (intro map_cong refl) (auto simp del: map_eq_conv simp: othersD [OF assms] set_del)
  ultimately show ?thesis
    by (simp add: rest_view_def view_def fun_eq_iff map_del [of "\<lambda>q w. map (entry_at _) (_ s q)", symmetric])
qed

lemma open_qty_unlink:
  assumes "open_qty h G" and "\<And>c. live G' c \<Longrightarrow> live G c" and "\<And>c. payload (h' c) = payload (h c)"
  shows "open_qty h' G'"
  using assms unfolding open_qty_def payload_def by simp


lemma unlink_step:
  assumes w: "working b G s p lv K" and G: "G s p = xs @ a # ys"
  obtains b' lv' where "unlink_order P (s, p) a b = Some b'" and "working b' (gset G s p (xs @ ys)) s p lv' K"
    and "others s p b G b' (gset G s p (xs @ ys))" and "bk_counters b' = bk_counters b"
    and "\<And>c. payload (bk_heap b' c) = payload (bk_heap b c)" and "\<And>c. entry_at (bk_heap b') c = entry_at (bk_heap b) c"
    and "pol_size P (bk_orders b) = Suc (pol_size P (bk_orders b'))" and "bk_stp b' = bk_stp b"
    and "pol_valid_price P (bk_ladder b') = pol_valid_price P (bk_ladder b)"
proof -
  obtain b' lv' where u: "unlink_order P (s, p) a b = Some b'" "working b' (gset G s p (xs @ ys)) s p lv' K"
    "same_rest b b'" "\<And>c. payload (bk_heap b' c) = payload (bk_heap b c)"
    "pol_size P (bk_orders b) = Suc (pol_size P (bk_orders b'))"
    using unlink_working [OF w G] by blast
  have e: "entry_at (bk_heap b') c = entry_at (bk_heap b) c" for c
    using u(4) by (rule payload_entry)
  have "others s p b G b' (gset G s p (xs @ ys))"
    using u(3,5) e by (simp add: others_def same_rest_def)
  then show thesis using that u e by (auto simp: same_rest_def)
qed

lemma reduce_step:
  assumes w: "working b G s p lv K" and a: "a \<in> set (G s p)" and d: "d \<le> ord_qty (bk_heap b a)"
  obtains b' lv' where "level_do P (s, p) (level_reduce a d) b = Some b'" and "working b' G s p lv' K"
    and "others s p b G b' G" and "bk_counters b' = bk_counters b" and "bk_orders b' = bk_orders b"
    and "bk_heap b' = (bk_heap b)(a := (bk_heap b a)\<lparr>ord_qty := ord_qty (bk_heap b a) - d\<rparr>)"
    and "bk_stp b' = bk_stp b" and "pol_valid_price P (bk_ladder b') = pol_valid_price P (bk_ladder b)"
proof -
  obtain b' lv' where u: "level_do P (s, p) (level_reduce a d) b = Some b'" "working b' G s p lv' K"
    "same_rest b b'" "bk_orders b' = bk_orders b"
    "bk_heap b' = (bk_heap b)(a := (bk_heap b a)\<lparr>ord_qty := ord_qty (bk_heap b a) - d\<rparr>)"
    using reduce_working [OF w a d] by blast
  have "others s p b G b' G"
    using u(3,4) working_disjoint [OF w a] by (auto simp: others_def same_rest_def u(5) entry_at_def)
  then show thesis using that u by (auto simp: same_rest_def)
qed

text \<open>The inner loop of \<^const>\<open>match_level\<close> ends and does what \<^const>\<open>fill_queue\<close> says.\<close>

definition level_result ::
  "bool \<Rightarrow> ('l, 'm) OrderBook \<Rightarrow> ghost \<Rightarrow> Side \<Rightarrow> Price \<Rightarrow> (Side \<Rightarrow> (Price \<times> Level) list)
   \<Rightarrow> (Side \<Rightarrow> (Price \<times> queue) list) \<Rightarrow> queue \<Rightarrow> bool" where
  "level_result killed b G s p K V es \<longleftrightarrow>
     (if killed then settled b G \<and> levels_of b G = fill_in V s p es
      else open_qty (bk_heap b) G \<and> map (entry_at (bk_heap b)) (G s p) = es \<and> (\<exists>lv. working b G s p lv K)
        \<and> rest_view K (bk_heap b) G s p = V)"

lemma working_head:
  assumes "working b G s p lv K"
  shows "lvl_head lv = first_of (G s p)" and "lvl_price lv = p" and "distinct (G s p)"
    and "pol_deref P (s, p) (bk_ladder b) = Some lv"
  using assms lad.deref_law [of s p lv K "bk_ladder b"] by (simp_all add: working_def level_ok_def)

lemma match_level_stop:
  assumes "working b G s p lv K" and "\<not> qty > 0 \<or> G s p = []"
  shows "match_level P aggressor actor s (s, p) qty xs b = Some (qty, False, xs, b)"
  using assms working_head [OF assms(1)] by (subst match_level.simps) auto

lemma entries_qty:
  assumes "open_qty h G" and "a \<in> set (G s p)"
  shows "en_qty (entry_at h a) \<noteq> 0"
  using assms unfolding open_qty_def live_def entry_at_def by auto

lemma live_gset_sub: "set as \<subseteq> set (G s p) \<Longrightarrow> live (gset G s p as) c \<Longrightarrow> live G c"
  by (auto simp: live_gset) (auto simp: live_def)

lemma count_simps [simp]:
  "bk_counters (count_prevented b) = c_prevented (bk_counters b)"
  "bk_counters (count_canceled q b) = c_canceled q (bk_counters b)"
  "bk_counters (count_traded q b) = c_traded q (bk_counters b)"
  "bk_counters (count_added q b) = c_added q (bk_counters b)"
  "bk_counters (count_executed q b) = c_executed q (bk_counters b)"
  by (simp_all add: count_prevented_def count_canceled_def count_traded_def count_added_def count_executed_def
      c_prevented_def c_canceled_def c_traded_def c_added_def c_executed_def)

text \<open>The counting steps change nothing else.\<close>

lemma count_frame:
  "\<exists>c. count_prevented b = b\<lparr>bk_counters := c\<rparr>"
  "\<exists>c. count_canceled q b = b\<lparr>bk_counters := c\<rparr>"
  "\<exists>c. count_traded q b = b\<lparr>bk_counters := c\<rparr>"
  "\<exists>c. count_added q b = b\<lparr>bk_counters := c\<rparr>"
  "\<exists>c. count_executed q b = b\<lparr>bk_counters := c\<rparr>"
  by (auto simp: count_prevented_def count_canceled_def count_traded_def count_added_def count_executed_def)

lemmas count_defs = count_prevented_def count_canceled_def count_traded_def count_added_def count_executed_def

text \<open>Killing the aggressor: the level is retired when empty and the book is settled.\<close>

lemma kill_step:
  assumes w: "working b G s p lv K" and oq: "open_qty (bk_heap b) G" and small: "pol_size P (bk_orders b) < 2 ^ 32"
  shows "\<exists>b'. retire_if_empty P s (s, p) b = Some b'
    \<and> level_result True b' G s p K (rest_view K (bk_heap b) G s p) (map (entry_at (bk_heap b)) (G s p))
    \<and> bk_counters b' = bk_counters b \<and> bk_stp b' = bk_stp b
    \<and> pol_valid_price P (bk_ladder b') = pol_valid_price P (bk_ladder b)
    \<and> pol_size P (bk_orders b') \<le> pol_size P (bk_orders b)"
  using retire_working [OF w oq small] by (auto simp: level_result_def same_rest_def)

text \<open>Dropping the head of the queue.\<close>

lemma drop_head:
  assumes w: "working b G s p lv K" and oq: "\<And>c. live G c \<Longrightarrow> c \<noteq> a \<Longrightarrow> ord_qty (bk_heap b c) \<noteq> 0"
    and G: "G s p = a # as"
  obtains b' lv' where "unlink_order P (s, p) a b = Some b'" and "working b' (gset G s p as) s p lv' K"
    and "open_qty (bk_heap b') (gset G s p as)"
    and "map (entry_at (bk_heap b')) (gset G s p as s p) = map (entry_at (bk_heap b)) as"
    and "rest_view K (bk_heap b') (gset G s p as) s p = rest_view K (bk_heap b) G s p"
    and "bk_counters b' = bk_counters b" and "bk_stp b' = bk_stp b"
    and "pol_valid_price P (bk_ladder b') = pol_valid_price P (bk_ladder b)"
    and "pol_size P (bk_orders b') \<le> pol_size P (bk_orders b)"
proof -
  obtain b' lv' where u: "unlink_order P (s, p) a b = Some b'" "working b' (gset G s p as) s p lv' K"
    "others s p b G b' (gset G s p as)" "bk_counters b' = bk_counters b"
    "\<And>c. payload (bk_heap b' c) = payload (bk_heap b c)" "\<And>c. entry_at (bk_heap b') c = entry_at (bk_heap b) c"
    "pol_size P (bk_orders b) = Suc (pol_size P (bk_orders b'))" "bk_stp b' = bk_stp b"
    "pol_valid_price P (bk_ladder b') = pol_valid_price P (bk_ladder b)"
    using unlink_step [OF w, of "[]" a as] G by auto
  have d: "a \<notin> set as" using working_head(3) [OF w] G by simp
  have "open_qty (bk_heap b') (gset G s p as)"
    unfolding open_qty_def
  proof (intro allI impI)
    fix c assume l: "live (gset G s p as) c"
    then have "live G c" by (rule live_gset_sub [rotated]) (use G in auto)
    moreover have "c \<noteq> a"
      using l d working_disjoint [OF w, of a] G by (auto simp: live_gset)
    ultimately have "ord_qty (bk_heap b c) \<noteq> 0" by (rule oq)
    then show "ord_qty (bk_heap b' c) \<noteq> 0" using u(5) [of c] by (simp add: payload_def)
  qed
  then show thesis
    using that [OF u(1,2)] u(4,6-9) others_rest_view [OF u(3)] by simp
qed

text \<open>An own order at the head of the queue: self-trade prevention.\<close>

lemma match_level_own:
  assumes w: "working b G s p lv K" and oq: "open_qty (bk_heap b) G" and small: "pol_size P (bk_orders b) < 2 ^ 32"
    and G: "G s p = a # as" and qpos: "qty > 0"
    and own: "stp_active (bk_stp b) actor" "ord_participant (bk_heap b a) = actor"
  shows "\<exists>b1 lv1. working b1 (gset G s p as) s p lv1 K \<and> open_qty (bk_heap b1) (gset G s p as)
        \<and> map (entry_at (bk_heap b1)) (gset G s p as s p) = map (entry_at (bk_heap b)) as
        \<and> rest_view K (bk_heap b1) (gset G s p as) s p = rest_view K (bk_heap b) G s p
        \<and> bk_counters b1 = c_canceled (ord_qty (bk_heap b a)) (c_prevented (bk_counters b)) \<and> bk_stp b1 = bk_stp b
        \<and> pol_valid_price P (bk_ladder b1) = pol_valid_price P (bk_ladder b)
        \<and> pol_size P (bk_orders b1) \<le> pol_size P (bk_orders b)
        \<and> match_level P aggressor actor s (s, p) qty xs b
          = (case bk_stp b of
               CancelAggressor \<Rightarrow> map_option (\<lambda>b. (0, True, xs, b)) (retire_if_empty P s (s, p) (count_canceled qty (count_prevented b)))
             | CancelBoth \<Rightarrow> map_option (\<lambda>b. (0, True, xs, b)) (retire_if_empty P s (s, p) (count_canceled qty b1))
             | _ \<Rightarrow> match_level P aggressor actor s (s, p) qty xs b1)"
proof -
  let ?b = "count_canceled (ord_qty (bk_heap b a)) (count_prevented b)"
  have step: "match_level P aggressor actor s (s, p) qty xs b = do {
          let b = count_prevented b;
          b \<leftarrow> (if bk_stp b \<noteq> CancelAggressor
                then unlink_order P (s, p) a (count_canceled (ord_qty (bk_heap b a)) b)
                else Some b);
          if bk_stp b \<noteq> CancelResting then do {
            b \<leftarrow> retire_if_empty P s (s, p) (count_canceled qty b);
            Some (0, True, xs, b) }
          else match_level P aggressor actor s (s, p) qty xs b }"
    using own qpos working_head [OF w] G by (subst match_level.simps) (simp add: Let_def)
  have w1: "working ?b G s p lv K" using w by (simp add: count_defs)
  have oq1: "\<And>c. live G c \<Longrightarrow> c \<noteq> a \<Longrightarrow> ord_qty (bk_heap ?b c) \<noteq> 0"
    using oq by (simp add: count_defs open_qty_def)
  obtain b1 lv1 where u: "unlink_order P (s, p) a ?b = Some b1" "working b1 (gset G s p as) s p lv1 K"
    "open_qty (bk_heap b1) (gset G s p as)"
    "map (entry_at (bk_heap b1)) (gset G s p as s p) = map (entry_at (bk_heap ?b)) as"
    "rest_view K (bk_heap b1) (gset G s p as) s p = rest_view K (bk_heap ?b) G s p"
    "bk_counters b1 = bk_counters ?b" "bk_stp b1 = bk_stp ?b"
    "pol_valid_price P (bk_ladder b1) = pol_valid_price P (bk_ladder ?b)"
    "pol_size P (bk_orders b1) \<le> pol_size P (bk_orders ?b)"
    using drop_head [OF w1 oq1 G] by metis
  have same: "bk_heap ?b = bk_heap b" "bk_stp ?b = bk_stp b" "bk_ladder ?b = bk_ladder b" "bk_orders ?b = bk_orders b"
    "bk_heap (count_prevented b) = bk_heap b" "bk_stp (count_prevented b) = bk_stp b"
    "bk_stp (count_canceled qty b1) = bk_stp b1"
    by (simp_all add: count_defs)
  have "match_level P aggressor actor s (s, p) qty xs b
          = (case bk_stp b of
               CancelAggressor \<Rightarrow> map_option (\<lambda>b. (0, True, xs, b)) (retire_if_empty P s (s, p) (count_canceled qty (count_prevented b)))
             | CancelBoth \<Rightarrow> map_option (\<lambda>b. (0, True, xs, b)) (retire_if_empty P s (s, p) (count_canceled qty b1))
             | _ \<Rightarrow> match_level P aggressor actor s (s, p) qty xs b1)"
    unfolding step using own(1) u(1,7)
    by (cases "bk_stp b") (simp_all add: Let_def same stp_active_def map_conv_bind_option comp_def)
  then show ?thesis using u same by (intro exI [of _ b1] exI [of _ lv1]) simp
qed

text \<open>A fill against the head of the queue.\<close>

lemma match_level_fill:
  assumes w: "working b G s p lv K" and oq: "open_qty (bk_heap b) G"
    and G: "G s p = a # as" and qpos: "qty > 0"
    and notown: "\<not> (stp_active (bk_stp b) actor \<and> ord_participant (bk_heap b a) = actor)"
    and fill: "fill = (if qty < ord_qty (bk_heap b a) then qty else ord_qty (bk_heap b a))"
    and ex: "ex = \<lparr>ex_resting_id = ord_id (bk_heap b a), ex_aggressor_id = aggressor, ex_price = p, ex_qty = fill\<rparr>"
  shows "\<exists>b1 lv1 as1. working b1 (gset G s p as1) s p lv1 K \<and> open_qty (bk_heap b1) (gset G s p as1)
        \<and> as1 = (if ord_qty (bk_heap b a) - fill = 0 then as else a # as)
        \<and> map (entry_at (bk_heap b1)) (gset G s p as1 s p)
          = (if ord_qty (bk_heap b a) - fill = 0 then map (entry_at (bk_heap b)) as
             else (entry_at (bk_heap b) a)\<lparr>en_qty := ord_qty (bk_heap b a) - fill\<rparr> # map (entry_at (bk_heap b)) as)
        \<and> rest_view K (bk_heap b1) (gset G s p as1) s p = rest_view K (bk_heap b) G s p
        \<and> bk_counters b1 = c_traded fill (bk_counters b) \<and> bk_stp b1 = bk_stp b
        \<and> pol_valid_price P (bk_ladder b1) = pol_valid_price P (bk_ladder b)
        \<and> pol_size P (bk_orders b1) \<le> pol_size P (bk_orders b)
        \<and> match_level P aggressor actor s (s, p) qty xs b
          = match_level P aggressor actor s (s, p) (qty - fill) (xs @ [ex]) b1"
proof -
  have fle: "fill \<le> ord_qty (bk_heap b a)" using fill by (auto simp: not_less)
  have a: "a \<in> set (G s p)" using G by simp
  have d: "a \<notin> set as" using working_head(3) [OF w] G by simp
  obtain b0 lv0 where r: "level_do P (s, p) (level_reduce a fill) b = Some b0" "working b0 G s p lv0 K"
    "others s p b G b0 G" "bk_counters b0 = bk_counters b" "bk_orders b0 = bk_orders b"
    "bk_heap b0 = (bk_heap b)(a := (bk_heap b a)\<lparr>ord_qty := ord_qty (bk_heap b a) - fill\<rparr>)"
    "bk_stp b0 = bk_stp b" "pol_valid_price P (bk_ladder b0) = pol_valid_price P (bk_ladder b)"
    using reduce_step [OF w a fle] by metis
  let ?b = "count_traded fill b0"
  have rid: "ord_id (bk_heap ?b a) = ord_id (bk_heap b a)" by (simp add: count_defs r(6))
  have step: "match_level P aggressor actor s (s, p) qty xs b = do {
      b \<leftarrow> (if ord_qty (bk_heap ?b a) = 0 then unlink_order P (s, p) a ?b else Some ?b);
      match_level P aggressor actor s (s, p) (qty - fill) (xs @ [ex]) b }"
    using qpos working_head [OF w] G r(1)
    by (subst match_level.simps) (simp add: Let_def ex rid if_not_P [OF notown] fill [symmetric])
  have wb: "working ?b G s p lv0 K" using r(2) by (simp add: count_defs)
  have same: "bk_heap ?b = bk_heap b0" "bk_stp ?b = bk_stp b" "bk_ladder ?b = bk_ladder b0" "bk_orders ?b = bk_orders b"
    using r(5,7) by (simp_all add: count_defs)
  have ents: "map (entry_at (bk_heap b0)) as = map (entry_at (bk_heap b)) as"
    using d by (auto simp: r(6) entry_at_def)
  have rv: "rest_view K (bk_heap b0) G s p = rest_view K (bk_heap b) G s p"
    by (rule others_rest_view [OF r(3)])
  show ?thesis
  proof (cases "ord_qty (bk_heap b a) - fill = 0")
    case True
    have z: "ord_qty (bk_heap ?b a) = 0" using True r(6) same by simp
    have oq1: "\<And>c. live G c \<Longrightarrow> c \<noteq> a \<Longrightarrow> ord_qty (bk_heap ?b c) \<noteq> 0"
      using oq r(6) same by (simp add: open_qty_def)
    obtain b1 lv1 where u: "unlink_order P (s, p) a ?b = Some b1" "working b1 (gset G s p as) s p lv1 K"
      "open_qty (bk_heap b1) (gset G s p as)"
      "map (entry_at (bk_heap b1)) (gset G s p as s p) = map (entry_at (bk_heap ?b)) as"
      "rest_view K (bk_heap b1) (gset G s p as) s p = rest_view K (bk_heap ?b) G s p"
      "bk_counters b1 = bk_counters ?b" "bk_stp b1 = bk_stp ?b"
      "pol_valid_price P (bk_ladder b1) = pol_valid_price P (bk_ladder ?b)"
      "pol_size P (bk_orders b1) \<le> pol_size P (bk_orders ?b)"
      using drop_head [OF wb oq1 G] by metis
    show ?thesis
      using u True z step same rv ents r(4,8)
      by (intro exI [of _ b1] exI [of _ lv1] exI [of _ as]) simp
  next
    case False
    have nz: "ord_qty (bk_heap ?b a) \<noteq> 0" using False r(6) same by simp
    have "open_qty (bk_heap ?b) G" using oq False r(6) same by (simp add: open_qty_def)
    moreover have "gset G s p (a # as) = G" using G gset_simps(4) by metis
    moreover have "entry_at (bk_heap b0) a = (entry_at (bk_heap b) a)\<lparr>en_qty := ord_qty (bk_heap b a) - fill\<rparr>"
      by (simp add: entry_at_def r(6))
    ultimately show ?thesis
      using False nz step same rv ents r(4,8) wb G
      by (intro exI [of _ ?b] exI [of _ lv0] exI [of _ "a # as"]) simp
  qed
qed


lemma match_level_sim:
  assumes "working b G s p lv K" and "open_qty (bk_heap b) G" and "pol_size P (bk_orders b) < 2 ^ 32"
    and "fill_queue (bk_stp b) aggressor actor p (map (entry_at (bk_heap b)) (G s p)) qty (bk_counters b)
       = (es', q', k, ys, c')"
  shows "\<exists>b' G'. match_level P aggressor actor s (s, p) qty xs b = Some (q', k, xs @ ys, b')
    \<and> level_result k b' G' s p K (rest_view K (bk_heap b) G s p) es' \<and> bk_counters b' = c' \<and> bk_stp b' = bk_stp b
    \<and> pol_valid_price P (bk_ladder b') = pol_valid_price P (bk_ladder b)
    \<and> pol_size P (bk_orders b') \<le> pol_size P (bk_orders b)"
  using assms
proof (induction "G s p" arbitrary: b G lv qty xs es' q' k ys c')
  case Nil
  have e: "G s p = []" using Nil.hyps by simp
  then have r: "es' = []" "q' = qty" "k = False" "ys = []" "c' = bk_counters b"
    using Nil.prems(4) by auto
  have "match_level P aggressor actor s (s, p) qty xs b = Some (qty, False, xs, b)"
    using match_level_stop [OF Nil.prems(1)] e by blast
  then show ?case
    using r e Nil.prems(1,2) by (intro exI [of _ b] exI [of _ G]) (auto simp: level_result_def)
next
  case (Cons a as)
  note w = Cons.prems(1) and oq = Cons.prems(2) and small = Cons.prems(3) and G = Cons.hyps(2) [symmetric]
  let ?h = "bk_heap b" and ?V = "rest_view K (bk_heap b) G s p" and ?G = "\<lambda>as. gset G s p as"
  let ?e = "entry_at ?h a" and ?es = "map (entry_at (bk_heap b)) as"
  have fq: "fill_queue (bk_stp b) aggressor actor p (?e # ?es) qty (bk_counters b) = (es', q', k, ys, c')"
    using Cons.prems(4) G by simp
  show ?case
  proof (cases "qty > 0")
    case False
    then have r: "es' = map (entry_at ?h) (G s p)" "q' = qty" "k = False" "ys = []" "c' = bk_counters b"
      using fq G by auto
    then show ?thesis
      using match_level_stop [OF w] False w oq
      by (intro exI [of _ b] exI [of _ G]) (auto simp: level_result_def)
  next
    case qpos: True
    show ?thesis
    proof (cases "stp_active (bk_stp b) actor \<and> ord_participant (?h a) = actor")
      case own: True
      then have e: "stp_active (bk_stp b) actor" "en_owner ?e = actor" by (auto simp: entry_at_def)
      obtain b1 lv1 where b1: "working b1 (?G as) s p lv1 K" "open_qty (bk_heap b1) (?G as)"
        "map (entry_at (bk_heap b1)) (?G as s p) = ?es" "rest_view K (bk_heap b1) (?G as) s p = ?V"
        "bk_counters b1 = c_canceled (ord_qty (?h a)) (c_prevented (bk_counters b))" "bk_stp b1 = bk_stp b"
        "pol_valid_price P (bk_ladder b1) = pol_valid_price P (bk_ladder b)"
        "pol_size P (bk_orders b1) \<le> pol_size P (bk_orders b)"
        and step: "match_level P aggressor actor s (s, p) qty xs b = (case bk_stp b of
               CancelAggressor \<Rightarrow> map_option (\<lambda>b. (0, True, xs, b)) (retire_if_empty P s (s, p) (count_canceled qty (count_prevented b)))
             | CancelBoth \<Rightarrow> map_option (\<lambda>b. (0, True, xs, b)) (retire_if_empty P s (s, p) (count_canceled qty b1))
             | _ \<Rightarrow> match_level P aggressor actor s (s, p) qty xs b1)"
        using match_level_own [OF w oq small G qpos] own by metis
      have small1: "pol_size P (bk_orders b1) < 2 ^ 32" using b1(8) small by simp
      have eq: "en_qty ?e = ord_qty (?h a)" by (simp add: entry_at_def)
      show ?thesis
      proof (cases "bk_stp b = CancelAggressor \<or> bk_stp b = CancelBoth")
        case kill: True
        let ?bk = "if bk_stp b = CancelAggressor then count_canceled qty (count_prevented b) else count_canceled qty b1"
        let ?Gk = "if bk_stp b = CancelAggressor then G else ?G as"
        have "\<exists>lv. working ?bk ?Gk s p lv K" "open_qty (bk_heap ?bk) ?Gk" "pol_size P (bk_orders ?bk) < 2 ^ 32"
          using w b1(1,2) oq small small1 by (auto simp: count_defs)
        then obtain b' where b': "retire_if_empty P s (s, p) ?bk = Some b'"
          "level_result True b' ?Gk s p K (rest_view K (bk_heap ?bk) ?Gk s p) (map (entry_at (bk_heap ?bk)) (?Gk s p))"
          "bk_counters b' = bk_counters ?bk" "bk_stp b' = bk_stp ?bk"
          "pol_valid_price P (bk_ladder b') = pol_valid_price P (bk_ladder ?bk)"
          "pol_size P (bk_orders b') \<le> pol_size P (bk_orders ?bk)"
          using kill_step by metis
        have "rest_view K (bk_heap ?bk) ?Gk s p = ?V" "pol_size P (bk_orders ?bk) \<le> pol_size P (bk_orders b)"
          "pol_valid_price P (bk_ladder ?bk) = pol_valid_price P (bk_ladder b)" "bk_stp ?bk = bk_stp b"
          "map (entry_at (bk_heap ?bk)) (?Gk s p) = (if bk_stp b = CancelAggressor then ?e # ?es else ?es)"
          using b1(3-8) G by (simp_all add: count_defs)
        then show ?thesis
          using kill fq e qpos step b' b1(5) eq
          by (intro exI [of _ b'] exI [of _ ?Gk]) auto
      next
        case False
        then have stp: "bk_stp b = CancelResting" using e(1) by (cases "bk_stp b") (auto simp: stp_active_def)
        then have "fill_queue (bk_stp b1) aggressor actor p (map (entry_at (bk_heap b1)) (?G as s p)) qty (bk_counters b1)
            = (es', q', k, ys, c')"
          using fq e qpos b1(3,5,6) eq by (simp del: map_eq_conv)
        from Cons.hyps(1) [OF _ b1(1,2) small1 this, of xs] show ?thesis
          using step stp b1(4,6-8) by (auto intro: le_trans)
      qed
    next
      case notown: False
      then have e: "\<not> (stp_active (bk_stp b) actor \<and> en_owner ?e = actor)" by (simp add: entry_at_def)
      define fill where "fill = (if qty < ord_qty (?h a) then qty else ord_qty (?h a))"
      define ex where "ex = \<lparr>ex_resting_id = ord_id (?h a), ex_aggressor_id = aggressor, ex_price = p, ex_qty = fill\<rparr>"
      obtain b1 lv1 as1 where b1: "working b1 (?G as1) s p lv1 K" "open_qty (bk_heap b1) (?G as1)"
        "as1 = (if ord_qty (?h a) - fill = 0 then as else a # as)"
        "map (entry_at (bk_heap b1)) (?G as1 s p)
          = (if ord_qty (?h a) - fill = 0 then ?es else ?e\<lparr>en_qty := ord_qty (?h a) - fill\<rparr> # ?es)"
        "rest_view K (bk_heap b1) (?G as1) s p = ?V"
        "bk_counters b1 = c_traded fill (bk_counters b)" "bk_stp b1 = bk_stp b"
        "pol_valid_price P (bk_ladder b1) = pol_valid_price P (bk_ladder b)"
        "pol_size P (bk_orders b1) \<le> pol_size P (bk_orders b)"
        and step: "match_level P aggressor actor s (s, p) qty xs b
          = match_level P aggressor actor s (s, p) (qty - fill) (xs @ [ex]) b1"
        using match_level_fill [OF w oq G qpos notown fill_def ex_def] by metis
      have small1: "pol_size P (bk_orders b1) < 2 ^ 32" using b1(9) small by simp
      have eq: "en_qty ?e = ord_qty (?h a)" "en_id ?e = ord_id (?h a)" by (simp_all add: entry_at_def)
      show ?thesis
      proof (cases "ord_qty (?h a) - fill = 0")
        case True
        obtain es1 q1 k1 ys1 c1 where fq1: "fill_queue (bk_stp b) aggressor actor p ?es (qty - fill) (c_traded fill (bk_counters b))
            = (es1, q1, k1, ys1, c1)" by (metis prod_cases5)
        then have r: "es' = es1" "q' = q1" "k = k1" "ys = ex # ys1" "c' = c1"
          using fill_queue_trade(1) [OF qpos e, of fill ex, unfolded eq, OF fill_def ex_def True fq1] fq by simp_all
        have "fill_queue (bk_stp b1) aggressor actor p (map (entry_at (bk_heap b1)) (?G as1 s p)) (qty - fill) (bk_counters b1)
            = (es', q', k, ys1, c')"
          using fq1 r b1(4,6,7) True by (simp del: map_eq_conv)
        from Cons.hyps(1) [OF _ b1(1,2) small1 this, of "xs @ [ex]"] show ?thesis
          using step b1(3,5,7-9) True r(4) by (auto intro: le_trans)
      next
        case False
        have z: "\<not> qty - fill > 0" using False by (auto simp: fill_def split: if_splits)
        have "es' = ?e\<lparr>en_qty := ord_qty (?h a) - fill\<rparr> # ?es" "q' = qty - fill" "k = False" "ys = [ex]"
          "c' = c_traded fill (bk_counters b)"
          using fill_queue_trade(2) [OF qpos e, of fill ex, unfolded eq, OF fill_def ex_def False] fq by simp_all
        then show ?thesis
          using step match_level_stop [OF b1(1), of "qty - fill"] z b1 False
          by (intro exI [of _ b1] exI [of _ "?G as1"]) (auto simp: level_result_def)
      qed
    qed
  qed
qed

end

end
