(* ===== verification/BookRefinement.thy ===== *)
theory BookRefinement
  imports BookMatching
begin

text \<open>
  Every method of \<open>OrderBook\<close> refines its specification in \<open>AbsBook\<close>: the outer matching loop, resting,
  cancelling and reducing an order, then the entry points, each in the same form: from a book that
  refines \<open>A\<close> the method returns, answers what the specification answers on \<open>A\<close>, and the book it
  leaves refines what the specification leaves.
\<close>


lemma put_front: "ladder_sorted s ((p, v) # ls) \<Longrightarrow> put s p w ls = (p, w) # ls"
  by (cases ls) (auto split: prod.splits)

context book_policies begin

lemma levels_of_Cons:
  assumes st: "settled b G" and l: "levels_of b G s = (p, es) # ls"
  obtains lv lvs where "levels (bk_ladder b) s = (p, lv) # lvs" and "es = map (entry_at (bk_heap b)) (G s p)"
    and "(p, lv) \<in> set (levels (bk_ladder b) s)"
    and "pol_best P s (bk_ladder b) = Some (s, p)" and "pol_deref P (s, p) (bk_ladder b) = Some lv" and "lvl_price lv = p"
    and "rest_view (levels (bk_ladder b)) (bk_heap b) G s p = (levels_of b G)(s := ls)"
    and "\<And>es'. fill_in ((levels_of b G)(s := ls)) s p es' = (levels_of b G)(s := if es' = [] then ls else (p, es') # ls)"
proof -
  have li: "linv (bk_ladder b)" using st by (simp add: settled_def)
  obtain lv lvs where c: "levels (bk_ladder b) s = (p, lv) # lvs" "es = map (entry_at (bk_heap b)) (G s p)"
    "ls = map (\<lambda>(p, _). (p, map (entry_at (bk_heap b)) (G s p))) lvs"
    using l by (cases "levels (bk_ladder b) s") (auto simp: levels_of_def view_def)
  have m: "(p, lv) \<in> set (levels (bk_ladder b) s)" using c(1) by simp
  have srt: "ladder_sorted s ((p, es) # ls)"
    using sorted_view [of s "levels (bk_ladder b)"] lad.sorted_law [OF li] l by (metis levels_of_def)
  have np: "p \<notin> fst ` set ls" using srt by (auto dest: before_all)
  have "rest_view (levels (bk_ladder b)) (bk_heap b) G s p = (levels_of b G)(s := ls)"
    using l np unfolding rest_view_def levels_of_def by simp
  moreover have "fill_in ((levels_of b G)(s := ls)) s p es' = (levels_of b G)(s := if es' = [] then ls else (p, es') # ls)" for es'
    using np put_front [OF srt] by (simp add: fill_in_def place_def)
  ultimately show thesis
    using that c(1,2) m lad.best_first [OF li c(1)] lad.deref_active [OF li m] lad.entry_law [OF li m] by metis
qed

text \<open>The outer loop ends and does what \<^const>\<open>fill_levels\<close> says.\<close>

lemma match_loop_sim:
  assumes "settled b G" and "pol_size P (bk_orders b) < 2 ^ 32"
    and "fill_levels (bk_stp b) has_limit aggressor actor side price (levels_of b G (opposite side)) qty (bk_counters b)
       = (ls', q', ys, c')"
  shows "\<exists>b' G'. match_loop P has_limit aggressor actor side price qty xs b = Some (q', xs @ ys, b')
    \<and> settled b' G' \<and> levels_of b' G' = (levels_of b G)(opposite side := ls')
    \<and> bk_counters b' = c' \<and> bk_stp b' = bk_stp b
    \<and> pol_valid_price P (bk_ladder b') = pol_valid_price P (bk_ladder b)
    \<and> pol_size P (bk_orders b') \<le> pol_size P (bk_orders b)"
  using assms
proof (induction "levels_of b G (opposite side)" arbitrary: b G qty xs ls' q' ys c')
  case Nil
  let ?s = "opposite side"
  have li: "linv (bk_ladder b)" using Nil.prems(1) by (simp add: settled_def)
  have e: "levels_of b G ?s = []" using Nil.hyps by simp
  then have "levels (bk_ladder b) ?s = []" by (simp add: levels_of_def view_def)
  then have "match_loop P has_limit aggressor actor side price qty xs b = Some (qty, xs, b)"
    using lad.best_empty [OF li] by (subst match_loop.simps) simp
  then show ?case
    using Nil.prems e by (intro exI [of _ b] exI [of _ G]) (auto simp: fun_upd_idem)
next
  case (Cons l ls)
  let ?s = "opposite side"
  obtain p es where l: "l = (p, es)" by force
  note st = Cons.prems(1) and small = Cons.prems(2)
  have lo: "levels_of b G ?s = (p, es) # ls" using Cons.hyps(2) l by simp
  obtain lv lvs where c: "es = map (entry_at (bk_heap b)) (G ?s p)" "(p, lv) \<in> set (levels (bk_ladder b) ?s)"
    "pol_best P ?s (bk_ladder b) = Some (?s, p)" "pol_deref P (?s, p) (bk_ladder b) = Some lv" "lvl_price lv = p"
    and rv: "rest_view (levels (bk_ladder b)) (bk_heap b) G ?s p = (levels_of b G)(?s := ls)"
    and fi: "\<And>es'. fill_in ((levels_of b G)(?s := ls)) ?s p es' = (levels_of b G)(?s := if es' = [] then ls else (p, es') # ls)"
    using levels_of_Cons [OF st lo] by metis
  have fl: "fill_levels (bk_stp b) has_limit aggressor actor side price ((p, es) # ls) qty (bk_counters b) = (ls', q', ys, c')"
    using Cons.prems(3) lo by simp
  show ?case
  proof (cases "\<not> qty > 0 \<or> has_limit \<and> \<not> crosses side price p")
    case True
    then have "match_loop P has_limit aggressor actor side price qty xs b = Some (qty, xs, b)"
      using c by (subst match_loop.simps) auto
    moreover have "ls' = (p, es) # ls" "q' = qty" "ys = []" "c' = bk_counters b"
      using fl True by auto
    ultimately show ?thesis
      using st lo by (intro exI [of _ b] exI [of _ G]) (auto simp: fun_upd_idem)
  next
    case False
    obtain es1 q1 k ys1 c1 where fq: "fill_queue (bk_stp b) aggressor actor p es qty (bk_counters b) = (es1, q1, k, ys1, c1)"
      by (metis prod_cases5)
    have w: "working b G ?s p lv (levels (bk_ladder b))" by (rule settled_open [OF st c(2)])
    have oq: "open_qty (bk_heap b) G" using st by (simp add: settled_def)
    obtain b1 G1 where m: "match_level P aggressor actor ?s (?s, p) qty xs b = Some (q1, k, xs @ ys1, b1)"
      "level_result k b1 G1 ?s p (levels (bk_ladder b)) ((levels_of b G)(?s := ls)) es1" "bk_counters b1 = c1" "bk_stp b1 = bk_stp b"
      "pol_valid_price P (bk_ladder b1) = pol_valid_price P (bk_ladder b)" "pol_size P (bk_orders b1) \<le> pol_size P (bk_orders b)"
      using match_level_sim [OF w oq small fq [unfolded c(1)], of xs, unfolded rv] by blast
    have step: "match_loop P has_limit aggressor actor side price qty xs b =
        (if k then Some (q1, xs @ ys1, b1)
         else do { b \<leftarrow> retire_if_empty P ?s (?s, p) b1; match_loop P has_limit aggressor actor side price q1 (xs @ ys1) b })"
      using c(3-5) m(1) False by (subst match_loop.simps) auto
    show ?thesis
    proof (cases k)
      case True
      then have "ls' = (if es1 = [] then ls else (p, es1) # ls)" "q' = q1" "ys = ys1" "c' = c1"
        using fl False fq by (auto simp: Let_def)
      then show ?thesis
        using step True m fi by (intro exI [of _ b1] exI [of _ G1]) (simp add: level_result_def)
    next
      case nk: False
      obtain lv1 where r: "open_qty (bk_heap b1) G1" "map (entry_at (bk_heap b1)) (G1 ?s p) = es1"
        "working b1 G1 ?s p lv1 (levels (bk_ladder b))"
        "rest_view (levels (bk_ladder b)) (bk_heap b1) G1 ?s p = (levels_of b G)(?s := ls)"
        using m(2) nk by (auto simp: level_result_def)
      have small1: "pol_size P (bk_orders b1) < 2 ^ 32" using m(6) small by simp
      obtain b2 where b2: "retire_if_empty P ?s (?s, p) b1 = Some b2" "settled b2 G1" "same_rest b1 b2"
        "bk_orders b2 = bk_orders b1"
        "levels_of b2 G1 = (levels_of b G)(?s := if es1 = [] then ls else (p, es1) # ls)"
        using retire_working [OF r(3,1) small1] unfolding r(2,4) fi by blast
      have sr: "bk_counters b2 = c1" "bk_stp b2 = bk_stp b"
        "pol_valid_price P (bk_ladder b2) = pol_valid_price P (bk_ladder b)" "pol_size P (bk_orders b2) \<le> pol_size P (bk_orders b)"
        using b2(3,4) m(3-6) by (simp_all add: same_rest_def)
      show ?thesis
      proof (cases "es1 = []")
        case False
        then have z: "\<not> q1 > 0" using fill_queue_left fq nk by (metis (full_types))
        then have "match_loop P has_limit aggressor actor side price q1 (xs @ ys1) b2 = Some (q1, xs @ ys1, b2)"
          by (subst match_loop.simps) simp
        moreover have "ls' = (p, es1) # ls" "q' = q1" "ys = ys1" "c' = c1"
          using fl \<open>\<not> (\<not> qty > 0 \<or> has_limit \<and> \<not> crosses side price p)\<close> fq False by (auto simp: Let_def)
        ultimately show ?thesis
          using step nk b2 sr False by (intro exI [of _ b2] exI [of _ G1]) simp
      next
        case True
        obtain ls2 q2 ys2 c2 where rec: "fill_levels (bk_stp b) has_limit aggressor actor side price ls q1 c1 = (ls2, q2, ys2, c2)"
          by (metis prod_cases4)
        then have res: "ls' = ls2" "q' = q2" "ys = ys1 @ ys2" "c' = c2"
          using fl \<open>\<not> (\<not> qty > 0 \<or> has_limit \<and> \<not> crosses side price p)\<close> fq True nk by (auto simp: Let_def)
        have l2: "levels_of b2 G1 ?s = ls" "levels_of b2 G1 = (levels_of b G)(?s := ls)" using b2(5) True by simp_all
        have small2: "pol_size P (bk_orders b2) < 2 ^ 32" using sr(4) small by simp
        have "fill_levels (bk_stp b2) has_limit aggressor actor side price (levels_of b2 G1 ?s) q1 (bk_counters b2) = (ls2, q2, ys2, c2)"
          using rec sr l2 by simp
        from Cons.hyps(1) [OF l2(1) [symmetric] b2(2) small2 this, of "xs @ ys1"] show ?thesis
          using step nk b2(1) res sr l2 by (auto intro: le_trans)
      qed
    qed
  qed
qed


subsection \<open>Reading the book\<close>

lemma settledD:
  assumes "settled b G"
  shows "linv (bk_ladder b)" and "minv (bk_orders b)" and "index_ok (lookup (bk_orders b)) (bk_heap b) G"
    and "nodes_ok (bk_heap b) (bk_pool b) G" and "open_qty (bk_heap b) G"
    and "queues_ok (bk_heap b) (levels (bk_ladder b)) G {}"
    and "ladder_sorted s (levels (bk_ladder b) s)" and "ladder_sorted s (levels_of b G s)"
    and "a \<in> set (G s p) \<Longrightarrow> ord_side (bk_heap b a) = s \<and> ord_price (bk_heap b a) = p
      \<and> ord_level (bk_heap b a) = Some (s, p)"
proof -
  show li: "linv (bk_ladder b)" and "minv (bk_orders b)" and "index_ok (lookup (bk_orders b)) (bk_heap b) G"
    and nd: "nodes_ok (bk_heap b) (bk_pool b) G" and "open_qty (bk_heap b) G"
    and q: "queues_ok (bk_heap b) (levels (bk_ladder b)) G {}"
    using assms by (simp_all add: settled_def base_def)
  show "ladder_sorted s (levels (bk_ladder b) s)" by (rule lad.sorted_law [OF li])
  then show "ladder_sorted s (levels_of b G s)" unfolding levels_of_def by (rule sorted_view)
  show "a \<in> set (G s p) \<Longrightarrow> ord_side (bk_heap b a) = s \<and> ord_price (bk_heap b a) = p
      \<and> ord_level (bk_heap b a) = Some (s, p)"
    using nd queues_ok_member [OF q] by (auto simp: nodes_ok_def)
qed

lemma settled_key:
  assumes "settled b G"
  shows "p \<in> fst ` set (levels (bk_ladder b) s) \<longleftrightarrow> G s p \<noteq> []"
  using queues_okD(3,4) [OF settledD(6) [OF assms]] by fastforce

lemma map_of_view: "map_of (view K h G s) p = (if p \<in> fst ` set (K s) then Some (map (entry_at h) (G s p)) else None)"
proof -
  have "map_of (map (\<lambda>(q, _). (q, f q)) xs) p = (if p \<in> fst ` set xs then Some (f p) else None)"
    for f :: "Price \<Rightarrow> queue" and xs :: "(Price \<times> Level) list"
    by (induction xs) auto
  then show ?thesis unfolding view_def .
qed

lemma queue_at_levels:
  assumes "settled b G"
  shows "queue_at p (levels_of b G s) = map (entry_at (bk_heap b)) (G s p)"
  using settled_key [OF assms] by (simp add: queue_at_def levels_of_def map_of_view)

lemma set_side_entries:
  assumes "settled b G"
  shows "t \<in> set (side_entries s (levels_of b G s))
    \<longleftrightarrow> (\<exists>p. \<exists>a \<in> set (G s p). t = (s, p, entry_at (bk_heap b) a))"
proof -
  have "t \<in> set (concat (map (\<lambda>(p, es). map (\<lambda>e. (s, p, e)) es) (map (\<lambda>(p, _). (p, map f (g p))) xs)))
      \<longleftrightarrow> (\<exists>p \<in> fst ` set xs. \<exists>a \<in> set (g p). t = (s, p, f a))"
    for f :: "addr \<Rightarrow> entry" and g :: "Price \<Rightarrow> addr list" and xs :: "(Price \<times> Level) list"
    by (induction xs) auto
  then have "t \<in> set (side_entries s (levels_of b G s))
      \<longleftrightarrow> (\<exists>p \<in> fst ` set (levels (bk_ladder b) s). \<exists>a \<in> set (G s p). t = (s, p, entry_at (bk_heap b) a))"
    unfolding side_entries_def levels_of_def view_def .
  then show ?thesis using settled_key [OF assms, of _ s] by fastforce
qed

end

lemma find_unique:
  assumes "x \<in> set xs" and "P x" and "\<And>y. y \<in> set xs \<Longrightarrow> P y \<Longrightarrow> y = x"
  shows "List.find P xs = Some x"
proof (cases "List.find P xs")
  case None
  then show ?thesis using assms(1,2) by (auto simp: find_None_iff)
next
  case (Some y)
  then have "y \<in> set xs" "P y" by (auto simp: find_Some_iff)
  then show ?thesis using Some assms(3) by blast
qed

context book_policies begin

text \<open>The index finds what the specification finds.\<close>

definition located :: "('l, 'm) OrderBook \<Rightarrow> addr \<Rightarrow> Side \<times> Price \<times> entry" where
  "located b a = (ord_side (bk_heap b a), ord_price (bk_heap b a), entry_at (bk_heap b) a)"

lemma abs_find_lookup:
  assumes st: "settled b G" and A: "ab_levels A = levels_of b G"
  shows "abs_find oid A = map_option (located b) (lookup (bk_orders b) oid)"
proof -
  have ix: "\<And>a. lookup (bk_orders b) oid = Some a \<longleftrightarrow> live G a \<and> ord_id (bk_heap b a) = oid"
    using settledD(3) [OF st] by (simp add: index_ok_def)
  have ex_side: "(\<exists>s. Q s) \<longleftrightarrow> Q Bid \<or> Q Ask" for Q by (metis Side.exhaust)
  have mem: "t \<in> set (all_entries A) \<longleftrightarrow> (\<exists>a. live G a \<and> t = located b a)" for t
  proof -
    have "t \<in> set (all_entries A) \<longleftrightarrow> (\<exists>s p. \<exists>a \<in> set (G s p). t = (s, p, entry_at (bk_heap b) a))"
      unfolding all_entries_def set_append A Un_iff set_side_entries [OF st] ex_side by (rule refl)
    also have "\<dots> \<longleftrightarrow> (\<exists>s p. \<exists>a \<in> set (G s p). t = located b a)"
      using settledD(9) [OF st] by (auto simp: located_def)
    finally show ?thesis unfolding live_def by blast
  qed
  show ?thesis
  proof (cases "lookup (bk_orders b) oid")
    case None
    then have "live G a \<Longrightarrow> ord_id (bk_heap b a) \<noteq> oid" for a
      using ix by (metis option.distinct(1))
    then have "\<not> (case t of (s, p, e) \<Rightarrow> en_id e = oid)" if "t \<in> set (all_entries A)" for t
      using that mem [of t] by (auto simp: located_def entry_at_def) blast
    then show ?thesis using None by (fastforce simp: abs_find_def find_None_iff)
  next
    case (Some a)
    then have "live G a" "ord_id (bk_heap b a) = oid" using ix by auto
    then have "abs_find oid A = Some (located b a)"
      unfolding abs_find_def
    proof (intro find_unique)
      show "located b a \<in> set (all_entries A)" using mem \<open>live G a\<close> by blast
    next
      fix t assume "t \<in> set (all_entries A)" "case t of (s, p, e) \<Rightarrow> en_id e = oid"
      then obtain c where "live G c" "t = located b c" "ord_id (bk_heap b c) = oid"
        using mem by (auto simp: located_def entry_at_def)
      then show "t = located b a" using ix Some by (metis option.inject)
    qed (simp add: located_def entry_at_def)
    then show ?thesis using Some by simp
  qed
qed

text \<open>A found order and its place in its queue.\<close>

lemma lookup_place:
  assumes st: "settled b G" and l: "lookup (bk_orders b) oid = Some a"
  obtains s p xs ys lv where "G s p = xs @ a # ys" and "located b a = (s, p, entry_at (bk_heap b) a)"
    and "ord_side (bk_heap b a) = s" and "ord_level (bk_heap b a) = Some (s, p)" and "ord_id (bk_heap b a) = oid"
    and "working b G s p lv (levels (bk_ladder b))" and "ord_qty (bk_heap b a) \<noteq> 0"
    and "filter (\<lambda>e. en_id e \<noteq> oid) (map (entry_at (bk_heap b)) (G s p)) = map (entry_at (bk_heap b)) (xs @ ys)"
    and "\<forall>c \<in> set (xs @ ys). c \<noteq> a \<and> ord_id (bk_heap b c) \<noteq> oid"
proof -
  have ix: "\<And>c. lookup (bk_orders b) oid = Some c \<longleftrightarrow> live G c \<and> ord_id (bk_heap b c) = oid"
    using settledD(3) [OF st] by (simp add: index_ok_def)
  have la: "live G a" "ord_id (bk_heap b a) = oid" using ix l by auto
  then obtain s p where sp: "a \<in> set (G s p)" unfolding live_def by blast
  then obtain xs ys where G: "G s p = xs @ a # ys" by (auto dest: split_list)
  have "G s p \<noteq> []" using sp by auto
  then obtain lv where lv: "(p, lv) \<in> set (levels (bk_ladder b) s)" using settled_key [OF st, of p s] by auto
  have w: "working b G s p lv (levels (bk_ladder b))" by (rule settled_open [OF st lv])
  have "distinct (G s p)" by (rule working_head(3) [OF w])
  then have ne1: "c \<noteq> a \<and> ord_id (bk_heap b c) \<noteq> oid" if "c \<in> set (xs @ ys)" for c
  proof -
    have "c \<noteq> a" using that \<open>distinct (G s p)\<close> G by auto
    moreover have "live G c" using that G unfolding live_def by (intro exI [of _ s] exI [of _ p]) auto
    ultimately show ?thesis using ix l by (metis option.inject)
  qed
  then have ne: "\<forall>c \<in> set (xs @ ys). c \<noteq> a \<and> ord_id (bk_heap b c) \<noteq> oid" by blast
  then have "filter (\<lambda>e. en_id e \<noteq> oid) (map (entry_at (bk_heap b)) (G s p)) = map (entry_at (bk_heap b)) (xs @ ys)"
    using la(2) unfolding G by (simp add: filter_map comp_def entry_at_def)
  then show thesis
    using that [OF G _ _ _ la(2) w] settledD(5) [OF st] settledD(9) [OF st sp] la(1) ne
    by (auto simp: located_def open_qty_def)
qed


subsection \<open>Removing, reducing and resting an order\<close>

lemma fill_levels_of:
  assumes "settled b G"
  shows "fill_in (rest_view (levels (bk_ladder b)) (bk_heap b) G s p) s p es
    = (levels_of b G)(s := place s p es (levels_of b G s))"
  unfolding levels_of_def by (rule fill_rest_view [OF settledD(7) [OF assms]])

lemma lookup_at:
  assumes st: "settled b G" and l: "lookup (bk_orders b) oid = Some a" and loc: "located b a = (s, p, e)"
  obtains xs ys lv where "G s p = xs @ a # ys" and "e = entry_at (bk_heap b) a"
    and "ord_side (bk_heap b a) = s" and "ord_level (bk_heap b a) = Some (s, p)" and "ord_id (bk_heap b a) = oid"
    and "working b G s p lv (levels (bk_ladder b))"
    and "filter (\<lambda>e. en_id e \<noteq> oid) (map (entry_at (bk_heap b)) (G s p)) = map (entry_at (bk_heap b)) (xs @ ys)"
    and "\<forall>c \<in> set (xs @ ys). c \<noteq> a \<and> ord_id (bk_heap b c) \<noteq> oid"
proof -
  obtain t q xs ys lv where 1: "G t q = xs @ a # ys" "located b a = (t, q, entry_at (bk_heap b) a)"
    "ord_side (bk_heap b a) = t" "ord_level (bk_heap b a) = Some (t, q)" "ord_id (bk_heap b a) = oid"
    "working b G t q lv (levels (bk_ladder b))" "ord_qty (bk_heap b a) \<noteq> 0"
    "filter (\<lambda>e. en_id e \<noteq> oid) (map (entry_at (bk_heap b)) (G t q)) = map (entry_at (bk_heap b)) (xs @ ys)"
    "\<forall>c \<in> set (xs @ ys). c \<noteq> a \<and> ord_id (bk_heap b c) \<noteq> oid"
    by (rule lookup_place [OF st l]) blast
  then have "t = s" "q = p" "e = entry_at (bk_heap b) a" using loc by simp_all
  then show thesis using that 1 by metis
qed

lemma remove_sim:
  assumes st: "settled b G" and l: "lookup (bk_orders b) oid = Some a" and small: "pol_size P (bk_orders b) < 2 ^ 32"
    and loc: "located b a = (s, p, e)"
  shows "\<exists>b1 b' G'. ord_level (bk_heap b a) = Some (s, p) \<and> ord_side (bk_heap b a) = s \<and> e = entry_at (bk_heap b) a
    \<and> unlink_order P (s, p) a b = Some b1 \<and> retire_if_empty P s (s, p) b1 = Some b' \<and> settled b' G'
    \<and> levels_of b' G' = (levels_of b G)(s := place s p (filter (\<lambda>e. en_id e \<noteq> oid) (queue_at p (levels_of b G s))) (levels_of b G s))
    \<and> bk_counters b' = bk_counters b \<and> bk_stp b' = bk_stp b
    \<and> pol_valid_price P (bk_ladder b') = pol_valid_price P (bk_ladder b)
    \<and> pol_size P (bk_orders b) = Suc (pol_size P (bk_orders b'))"
proof -
  obtain xs ys lv where G: "G s p = xs @ a # ys" and e: "e = entry_at (bk_heap b) a"
    and sd: "ord_side (bk_heap b a) = s" and lvl: "ord_level (bk_heap b a) = Some (s, p)" and oid: "ord_id (bk_heap b a) = oid"
    and w: "working b G s p lv (levels (bk_ladder b))"
    and flt: "filter (\<lambda>e. en_id e \<noteq> oid) (map (entry_at (bk_heap b)) (G s p)) = map (entry_at (bk_heap b)) (xs @ ys)"
    and ne: "\<forall>c \<in> set (xs @ ys). c \<noteq> a \<and> ord_id (bk_heap b c) \<noteq> oid"
    by (rule lookup_at [OF st l loc]) blast
  let ?G = "gset G s p (xs @ ys)"
  obtain b1 lv1 where u: "unlink_order P (s, p) a b = Some b1" "working b1 ?G s p lv1 (levels (bk_ladder b))"
    "others s p b G b1 ?G" "bk_counters b1 = bk_counters b" "\<And>c. payload (bk_heap b1 c) = payload (bk_heap b c)"
    "\<And>c. entry_at (bk_heap b1) c = entry_at (bk_heap b) c"
    "pol_size P (bk_orders b) = Suc (pol_size P (bk_orders b1))" "bk_stp b1 = bk_stp b"
    "pol_valid_price P (bk_ladder b1) = pol_valid_price P (bk_ladder b)"
    by (rule unlink_step [OF w G]) blast
  have oq: "open_qty (bk_heap b1) ?G"
  proof (rule open_qty_unlink [OF settledD(5) [OF st]])
    show "live ?G c \<Longrightarrow> live G c" for c
      by (rule live_gset_sub [of "xs @ ys" G s p]) (use G in auto)
  qed (rule u(5))
  have small1: "pol_size P (bk_orders b1) < 2 ^ 32" using u(7) small by simp
  have ents: "entry_at (bk_heap b1) = entry_at (bk_heap b)" using u(6) by auto
  obtain b' where r: "retire_if_empty P s (s, p) b1 = Some b'" "settled b' ?G" "same_rest b1 b'"
    "bk_orders b' = bk_orders b1"
    "levels_of b' ?G = fill_in (rest_view (levels (bk_ladder b)) (bk_heap b1) ?G s p) s p (map (entry_at (bk_heap b1)) (?G s p))"
    using retire_working [OF u(2) oq small1] by metis
  have "levels_of b' ?G = (levels_of b G)(s := place s p (map (entry_at (bk_heap b)) (xs @ ys)) (levels_of b G s))"
    unfolding r(5) others_rest_view [OF u(3)] fill_levels_of [OF st] gset_simps(1) ents by (rule refl)
  then show ?thesis
    using lvl sd e u r flt queue_at_levels [OF st, of p s]
    by (intro exI [of _ b1] exI [of _ b'] exI [of _ ?G]) (simp add: same_rest_def)
qed

lemma reduce_sim:
  assumes st: "settled b G" and l: "lookup (bk_orders b) oid = Some a" and small: "pol_size P (bk_orders b) < 2 ^ 32"
    and loc: "located b a = (s, p, e)" and d: "d < en_qty e"
  shows "\<exists>b' G'. ord_level (bk_heap b a) = Some (s, p) \<and> level_do P (s, p) (level_reduce a d) b = Some b' \<and> settled b' G'
    \<and> levels_of b' G' = (levels_of b G)(s := place s p
         (map (\<lambda>e. if en_id e = oid then e\<lparr>en_qty := en_qty e - d\<rparr> else e) (queue_at p (levels_of b G s))) (levels_of b G s))
    \<and> bk_counters b' = bk_counters b \<and> bk_stp b' = bk_stp b
    \<and> pol_valid_price P (bk_ladder b') = pol_valid_price P (bk_ladder b)
    \<and> pol_size P (bk_orders b') = pol_size P (bk_orders b)"
proof -
  obtain xs ys lv where G: "G s p = xs @ a # ys" and e: "e = entry_at (bk_heap b) a"
    and sd: "ord_side (bk_heap b a) = s" and lvl: "ord_level (bk_heap b a) = Some (s, p)" and oid: "ord_id (bk_heap b a) = oid"
    and w: "working b G s p lv (levels (bk_ladder b))"
    and flt: "filter (\<lambda>e. en_id e \<noteq> oid) (map (entry_at (bk_heap b)) (G s p)) = map (entry_at (bk_heap b)) (xs @ ys)"
    and ne: "\<forall>c \<in> set (xs @ ys). c \<noteq> a \<and> ord_id (bk_heap b c) \<noteq> oid"
    by (rule lookup_at [OF st l loc]) blast
  have d': "d < ord_qty (bk_heap b a)" using d e by (simp add: entry_at_def)
  obtain b' lv' where r: "level_do P (s, p) (level_reduce a d) b = Some b'" "working b' G s p lv' (levels (bk_ladder b))"
    "others s p b G b' G" "bk_counters b' = bk_counters b" "bk_orders b' = bk_orders b"
    "bk_heap b' = (bk_heap b)(a := (bk_heap b a)\<lparr>ord_qty := ord_qty (bk_heap b a) - d\<rparr>)"
    "bk_stp b' = bk_stp b" "pol_valid_price P (bk_ladder b') = pol_valid_price P (bk_ladder b)"
    using reduce_step [OF w, of a d] G d' by (metis in_set_conv_decomp order_less_imp_le)
  have "ord_qty (bk_heap b a) - d \<noteq> 0" using d' by auto
  then have oq: "open_qty (bk_heap b') G"
    using settledD(5) [OF st] by (simp add: open_qty_def r(6))
  have small1: "pol_size P (bk_orders b') < 2 ^ 32" using r(5) small by simp
  have Gne: "G s p \<noteq> []" using G by simp
  have q: "map (entry_at (bk_heap b')) (G s p)
      = map (\<lambda>e. if en_id e = oid then e\<lparr>en_qty := en_qty e - d\<rparr> else e) (map (entry_at (bk_heap b)) (G s p))"
    using ne oid unfolding G by (auto simp: r(6) entry_at_def)
  have "levels_of b' G = (levels_of b G)(s := place s p
      (map (\<lambda>e. if en_id e = oid then e\<lparr>en_qty := en_qty e - d\<rparr> else e) (queue_at p (levels_of b G s))) (levels_of b G s))"
    unfolding close_working(2) [OF r(2) Gne oq small1] others_rest_view [OF r(3)] fill_levels_of [OF st] q
      queue_at_levels [OF st, of p s] by (rule refl)
  then show ?thesis
    using lvl r(1,4,5,7,8) close_working(1) [OF r(2) Gne oq small1]
    by (intro exI [of _ b'] exI [of _ G]) simp
qed

lemma rest_sim:
  assumes st: "settled b G" and V: "pol_valid_price P (bk_ladder b) p" and q: "q \<noteq> 0" and oid: "oid \<noteq> 0"
    and new: "lookup (bk_orders b) oid = None" and small: "Suc (pol_size P (bk_orders b)) < 2 ^ 32"
  shows "\<exists>b' G'. rest P oid s p q actor b = Some b' \<and> settled b' G'
    \<and> levels_of b' G' = (levels_of b G)(s := place s p
         (queue_at p (levels_of b G s) @ [\<lparr>en_id = oid, en_qty = q, en_owner = actor\<rparr>]) (levels_of b G s))
    \<and> bk_counters b' = bk_counters b \<and> bk_stp b' = bk_stp b
    \<and> pol_valid_price P (bk_ladder b') = pol_valid_price P (bk_ladder b)
    \<and> pol_size P (bk_orders b') = Suc (pol_size P (bk_orders b))"
proof -
  let ?K = "levels (bk_ladder b)" and ?h = "bk_heap b" and ?pl = "bk_pool b"
  note d = settledD [OF st]
  let ?lv = "case map_of (?K s) p of Some lv \<Rightarrow> lv | None \<Rightarrow> fresh_level p"
  obtain l1 where l1: "pol_get_or_create P s p (bk_ladder b) = Some ((s, p), l1)" "window s p ?lv ?K l1"
    "pol_valid_price P l1 = pol_valid_price P (bk_ladder b)"
    using lad.create_law [OF d(1) V] by blast
  have lvok: "level_ok ?h (s, p) ?lv (G s p)"
  proof (cases "map_of (?K s) p")
    case None
    then have "G s p = []" using settled_key [OF st, of p s] by (simp add: map_of_eq_None_iff)
    then show ?thesis using None by (simp add: level_ok_def fresh_level_def level_default_def)
  next
    case (Some lv)
    then have "(p, lv) \<in> set (?K s)" by (rule map_of_SomeD)
    then show ?thesis using Some queues_okD(2) [OF d(6)] by simp
  qed
  obtain fs where pl: "pool_ok ?h ?pl fs" "\<And>c. live G c \<Longrightarrow> c < pl_total ?pl \<and> c \<notin> set fs"
    and sp: "\<And>t q c. c \<in> set (G t q) \<Longrightarrow> ord_side (?h c) = t \<and> ord_price (?h c) = q"
    using nodes_ok_alloc_frame [OF d(4)] by metis
  obtain a h1 p1 where al: "pool_alloc ?h ?pl = (a, h1, p1)" by (metis prod_cases3)
  note A = pool_alloc_ok [OF pl(1) al]
  have na: "\<not> live G a" using A(6) pl(2) by fastforce
  let ?o = "(h1 a)\<lparr>ord_id := oid, ord_price := p, ord_qty := q, ord_side := s, ord_participant := actor\<rparr>"
  let ?h2 = "h1(a := ?o)"
  have h2: "?h2 c = ?h c" if "live G c" for c
    using that pl(2) A(5) na by auto
  have live_in: "c \<in> set (G t r) \<Longrightarrow> live G c" for c t r unfolding live_def by blast
  have lvok2: "level_ok ?h2 (s, p) ?lv (G s p)"
    using lvok level_ok_cong [of "G s p" ?h2 ?h] h2 live_in by blast
  have aG: "a \<notin> set (G s p)" using na live_in by blast
  obtain h3 lv3 where pb: "level_push_back (s, p) a ?h2 ?lv = (h3, lv3)" by force
  note B = level_push_back_ok [OF lvok2 aG pb]
  let ?G = "gset G s p (G s p @ [a])"
  have G': "live ?G c \<longleftrightarrow> live G c \<or> c = a" for c
    unfolding live_gset by (auto simp: live_def)
  have pay: "payload (h3 c) = payload (?h c)" if "live G c" for c using B(3) h2 [OF that] by simp
  have idc: "ord_id (h3 c) = ord_id (?h c)" if "live G c" for c using pay [OF that] by (simp add: payload_def)
  have pa: "payload (h3 a) = (oid, p, q, s, actor)" using B(3) [of a] by (simp add: payload_def)
  have "pol_size P (bk_orders b) < 2 ^ 40" using small by simp
  then obtain m where m: "pol_insert P (bk_orders b) oid a = Some (True, m)" "minv m"
    "lookup m = (lookup (bk_orders b))(oid \<mapsto> a)"
    using ids.insert_fresh [OF d(2) oid _ new] by metis
  let ?b = "b\<lparr>bk_ladder := pol_store P (s, p) lv3 l1, bk_heap := h3, bk_pool := p1, bk_orders := m\<rparr>"
  have rest: "rest P oid s p q actor b = Some ?b"
    using l1(1) al pb m(1) lad.deref_law [OF l1(2)] by (simp add: rest_def level_do_def Let_def)
  have sz: "pol_size P m = Suc (pol_size P (bk_orders b))"
    using ids.count_insert [OF d(2) m(2,3) new] .
  have w: "working ?b ?G s p lv3 ?K"
    unfolding working_def base_def
  proof (intro conjI; simp)
    show "minv m" by (rule m(2))
    have "ord_id (h3 a) = oid" using pa by (simp add: payload_def)
    then show "index_ok (lookup m) h3 ?G"
      using index_ok_insert [OF d(3) na G' idc] new m(3) by simp
    show "nodes_ok h3 p1 ?G"
      unfolding nodes_ok_def
    proof (intro conjI exI allI impI ballI)
      show "pool_ok h3 p1 (tl fs)"
      proof (rule pool_ok_cong [OF A(1)])
        fix c assume c: "c \<in> set (tl fs) \<or> pl_total p1 \<le> c"
        then have "c \<noteq> a" using A(2,3) by auto
        have "set (tl fs) \<subseteq> set fs" by (cases fs) auto
        then have "\<not> live G c" using c pl(2) A(7) by fastforce
        then have "c \<notin> set (G s p @ [a])" using live_in \<open>c \<noteq> a\<close> by auto
        then show "h3 c = h1 c" using B(2) \<open>c \<noteq> a\<close> by simp
      qed
      fix c assume "live ?G c"
      then show "c < pl_total p1" using G' A(3,7) pl(2) by fastforce
      show "c \<notin> set (tl fs)"
        using \<open>live ?G c\<close> G' A(2) pl(2) by (cases fs) auto
    next
      fix t r c assume "c \<in> set (?G t r)"
      then have "c \<in> set (G t r) \<or> c = a \<and> t = s \<and> r = p" by (cases "(t, r) = (s, p)") auto
      then show "ord_side (h3 c) = t" "ord_price (h3 c) = r"
        using sp pay live_in pa by (auto simp: payload_def)
    qed
    show "window s p lv3 ?K (pol_store P (s, p) lv3 l1)"
      using B(1) by (intro lad.store_law [OF l1(2)]) (simp add: level_ok_def)
    show "level_ok h3 (s, p) lv3 (G s p @ [a])" by (rule B(1))
    have "queues_ok ?h ?K G {(s, p)}" using d(6) by (simp add: queues_ok_def)
    then show "queues_ok h3 ?K ?G {(s, p)}"
    proof (rule queues_ok_cong)
      fix t r c assume tr: "(t, r) \<notin> {(s, p)}" and c: "c \<in> set (G t r)"
      then have "c \<notin> set (G s p)" using d(9) [of c t r] d(9) [of c s p] by auto
      moreover have "c \<noteq> a" using c na live_in by blast
      ultimately show "h3 c = ?h c" using B(2) [of c] h2 [OF live_in [OF c]] by simp
    qed simp
  qed
  have oq: "open_qty (bk_heap ?b) ?G"
    using d(5) pay pa q by (auto simp: open_qty_def G' payload_def)
  have small': "pol_size P (bk_orders ?b) < 2 ^ 32" using sz small by simp
  have ne: "?G s p \<noteq> []" by simp
  have ent: "entry_at h3 c = entry_at ?h c" if "live G c" for c
    using pay [OF that] by (rule payload_entry)
  have rv: "rest_view ?K h3 ?G s p = rest_view ?K ?h G s p"
  proof -
    have "others s p b G (b\<lparr>bk_heap := h3\<rparr>) ?G"
      using ent live_in by (auto simp: others_def)
    from others_rest_view [OF this] show ?thesis by simp
  qed
  have qa: "map (entry_at h3) (?G s p) = queue_at p (levels_of b G s) @ [\<lparr>en_id = oid, en_qty = q, en_owner = actor\<rparr>]"
    unfolding queue_at_levels [OF st] using ent live_in pa by (auto simp: entry_at_def payload_def)
  have "levels_of ?b ?G = (levels_of b G)(s := place s p
         (queue_at p (levels_of b G s) @ [\<lparr>en_id = oid, en_qty = q, en_owner = actor\<rparr>]) (levels_of b G s))"
    using close_working(2) [OF w ne oq small'] rv qa fill_levels_of [OF st] by simp
  then show ?thesis
    using rest close_working(1) [OF w ne oq small'] sz l1(3)
    by (intro exI [of _ ?b] exI [of _ ?G]) (simp add: lad.store_valid)
qed


end

subsection \<open>The ids in the specification\<close>

definition level_ids :: "(Price \<times> queue) list \<Rightarrow> OrderId set" where
  "level_ids ls = (\<Union>(p, es) \<in> set ls. en_id ` set es)"

definition book_ids :: "ABook \<Rightarrow> OrderId set" where
  "book_ids A = (\<Union>s. level_ids (ab_levels A s))"

lemma level_ids_Cons [simp]: "level_ids [] = {}" "level_ids ((p, es) # ls) = en_id ` set es \<union> level_ids ls"
  by (simp_all add: level_ids_def)

lemma side_entries_simps [simp]:
  "side_entries s [] = []"
  "side_entries s ((p, es) # ls) = map (\<lambda>e. (s, p, e)) es @ side_entries s ls"
  by (simp_all add: side_entries_def)

lemma ex_side: "(\<exists>s. Q s) \<longleftrightarrow> Q Bid \<or> Q Ask"
  by (metis Side.exhaust)

lemma abs_find_None: "abs_find oid A = None \<longleftrightarrow> oid \<notin> book_ids A"
proof -
  have l: "(\<exists>t \<in> set (side_entries s ls). en_id (snd (snd t)) = oid) \<longleftrightarrow> oid \<in> level_ids ls" for s ls
  proof (induction ls)
    case (Cons l ls)
    then show ?case by (cases l) (auto simp: bex_Un image_iff)
  qed simp
  have "abs_find oid A = None \<longleftrightarrow> \<not> (\<exists>t \<in> set (all_entries A). en_id (snd (snd t)) = oid)"
    unfolding abs_find_def find_None_iff by force
  also have "\<dots> \<longleftrightarrow> oid \<notin> book_ids A"
    unfolding all_entries_def set_append bex_Un l book_ids_def UN_iff by (simp add: ex_side Bex_def)
  finally show ?thesis .
qed

lemma fill_queue_ids:
  "fill_queue stp aggressor actor p es qty c = (es', q, k, xs, c') \<Longrightarrow> en_id ` set es' \<subseteq> en_id ` set es"
proof (induction es arbitrary: qty c es' q k xs c')
  case (Cons e es)
  show ?case
  proof (cases "\<not> qty > 0")
    case False
    show ?thesis
    proof (cases "stp_active stp actor \<and> en_owner e = actor")
      case True
      then show ?thesis using Cons.prems False Cons.IH by (cases stp) (auto, blast+)
    next
      case notown: False
      then show ?thesis
        using Cons.prems False Cons.IH [of "qty - en_qty e"]
        by (auto simp: Let_def split: if_splits prod.splits) blast+
    qed
  qed (use Cons.prems in auto)
qed simp

lemma fill_levels_ids:
  "fill_levels stp has_limit aggressor actor side price ls qty c = (ls', q, xs, c') \<Longrightarrow> level_ids ls' \<subseteq> level_ids ls"
proof (induction ls arbitrary: qty c ls' q xs c')
  case (Cons l ls)
  obtain p es where l: "l = (p, es)" by force
  obtain es1 q1 k ys1 c1 where fq: "fill_queue stp aggressor actor p es qty c = (es1, q1, k, ys1, c1)"
    by (metis prod_cases5)
  obtain ls2 q2 ys2 c2 where fl: "fill_levels stp has_limit aggressor actor side price ls q1 c1 = (ls2, q2, ys2, c2)"
    by (metis prod_cases4)
  note i1 = fill_queue_ids [OF fq] and i2 = Cons.IH [OF fl]
  show ?case
    using Cons.prems i1 i2 l fq fl by (auto simp: Let_def split: if_splits)
qed simp

lemma abs_match_ids:
  assumes "abs_match has_limit aggressor actor side price qty A = (q, xs, A')"
  shows "book_ids A' \<subseteq> book_ids A"
proof -
  obtain ls c where "fill_levels (ab_stp A) has_limit aggressor actor side price (ab_levels A (opposite side)) qty (ab_counters A)
      = (ls, q, xs, c)" and A': "A' = A\<lparr>ab_levels := (ab_levels A)(opposite side := ls), ab_counters := c\<rparr>"
    using assms by (auto simp: abs_match_def split: prod.splits)
  then have "level_ids ls \<subseteq> level_ids (ab_levels A (opposite side))" by (intro fill_levels_ids)
  then show ?thesis unfolding book_ids_def A' by (auto split: if_splits; blast)
qed

context book_policies begin

subsection \<open>Every method refines its specification\<close>

definition refines :: "(Price \<Rightarrow> bool) \<Rightarrow> ('l, 'm) OrderBook \<Rightarrow> ABook \<Rightarrow> bool" where
  "refines V b A \<longleftrightarrow> (\<exists>G. settled b G \<and> ab_levels A = levels_of b G \<and> ab_stp A = bk_stp b
     \<and> ab_counters A = bk_counters b \<and> pol_valid_price P (bk_ladder b) = V)"

abbreviation size_of :: "('l, 'm) OrderBook \<Rightarrow> nat" where
  "size_of b \<equiv> pol_size P (bk_orders b)"

lemma find_sim:
  assumes "refines V b A"
  obtains o1 where "pol_find P (bk_orders b) oid = Some o1" and "abs_find oid A = map_option (located b) o1"
    and "lookup (bk_orders b) oid = o1"
  using assms abs_find_lookup ids.find_law settledD(2) unfolding refines_def by metis

lemma validate_sim: "refines V b A \<Longrightarrow> validate P oid price qty b = Some (abs_validate V oid price qty A)"
  by (rule find_sim [of V b A oid]) (auto simp: validate_def abs_validate_def refines_def)

lemma count_sim:
  assumes "refines V b A"
  shows "refines V (count_added q b) (abs_count (c_added q) A)"
    and "refines V (count_canceled q b) (abs_count (c_canceled q) A)"
    and "refines V (count_executed q b) (abs_count (c_executed q) A)"
    and "size_of (count_added q b) = size_of b" and "size_of (count_canceled q b) = size_of b"
    and "size_of (count_executed q b) = size_of b"
  using assms unfolding refines_def
  by (auto simp: abs_count_def count_defs c_added_def c_canceled_def c_executed_def)

lemma match_sim:
  assumes "refines V b A" and "size_of b < 2 ^ 32"
    and "abs_match has_limit aggressor actor side price qty A = (q, xs, A')"
  obtains b' where "match_book P has_limit aggressor actor side price qty b = Some (q, xs, b')"
    and "refines V b' A'" and "size_of b' \<le> size_of b"
proof -
  obtain G where G: "settled b G" "ab_levels A = levels_of b G" "ab_stp A = bk_stp b" "ab_counters A = bk_counters b"
    "pol_valid_price P (bk_ladder b) = V" using assms(1) by (auto simp: refines_def)
  obtain ls c where fl: "fill_levels (bk_stp b) has_limit aggressor actor side price (levels_of b G (opposite side)) qty (bk_counters b)
      = (ls, q, xs, c)" and A': "A' = A\<lparr>ab_levels := (ab_levels A)(opposite side := ls), ab_counters := c\<rparr>"
    using assms(3) G(2-4) by (auto simp: abs_match_def split: prod.splits)
  obtain b' G' where "match_loop P has_limit aggressor actor side price qty [] b = Some (q, [] @ xs, b')"
    "settled b' G'" "levels_of b' G' = (levels_of b G)(opposite side := ls)" "bk_counters b' = c" "bk_stp b' = bk_stp b"
    "pol_valid_price P (bk_ladder b') = pol_valid_price P (bk_ladder b)" "size_of b' \<le> size_of b"
    using match_loop_sim [OF G(1) assms(2) fl, of "[]"] by blast
  then have "match_book P has_limit aggressor actor side price qty b = Some (q, xs, b')"
    "refines V b' A'" "size_of b' \<le> size_of b"
    unfolding refines_def using G A' by (auto simp: match_book_def intro!: exI [of _ G'])
  then show thesis by (rule that)
qed

lemma rest_refines:
  assumes r: "refines V b A" and "V p" and "q \<noteq> 0" and "oid \<noteq> 0" and "oid \<notin> book_ids A" and "Suc (size_of b) < 2 ^ 32"
  obtains b' where "rest P oid s p q actor b = Some b'" and "refines V b' (abs_rest oid s p q actor A)"
    and "size_of b' = Suc (size_of b)"
proof -
  obtain G where G: "settled b G" "ab_levels A = levels_of b G" "ab_stp A = bk_stp b" "ab_counters A = bk_counters b"
    "pol_valid_price P (bk_ladder b) = V" using r by (auto simp: refines_def)
  have new: "lookup (bk_orders b) oid = None"
    using assms(5) find_sim [OF r, of oid] abs_find_None [of oid A] by (metis map_option_is_None)
  obtain b' G' where b': "rest P oid s p q actor b = Some b'" "settled b' G'"
    "levels_of b' G' = (levels_of b G)(s := place s p
         (queue_at p (levels_of b G s) @ [\<lparr>en_id = oid, en_qty = q, en_owner = actor\<rparr>]) (levels_of b G s))"
    "bk_counters b' = bk_counters b" "bk_stp b' = bk_stp b"
    "pol_valid_price P (bk_ladder b') = pol_valid_price P (bk_ladder b)" "size_of b' = Suc (size_of b)"
    using rest_sim [OF G(1) _ assms(3,4) new assms(6), of p s actor] assms(2) G(5) by auto
  then have "refines V b' (abs_rest oid s p q actor A)"
    using G unfolding refines_def abs_rest_def abs_set_queue_def by auto
  then show thesis using that b' by blast
qed

lemma limit_sim:
  assumes r: "refines V b A" and small: "Suc (size_of b) < 2 ^ 32"
  shows "\<exists>b'. add_limit_as P actor oid side price qty b
      = Some (fst (abs_limit V actor oid side price qty A), fst (snd (abs_limit V actor oid side price qty A)), b')
    \<and> refines V b' (snd (snd (abs_limit V actor oid side price qty A))) \<and> size_of b' \<le> Suc (size_of b)"
proof (cases "abs_validate V oid price qty A = Ok")
  case False
  then show ?thesis using r validate_sim [OF r] by (auto simp: add_limit_as_def abs_limit_def Let_def)
next
  case True
  then have ok: "oid \<noteq> 0" "V price" "oid \<notin> book_ids A"
    using abs_find_None [of oid A] by (auto simp: abs_validate_def split: if_splits)
  obtain left xs A1 where m: "abs_match True oid actor side price qty (abs_count (c_added qty) A) = (left, xs, A1)"
    by (metis prod_cases3)
  note ca = count_sim(1,4) [OF r, of qty]
  have "size_of (count_added qty b) < 2 ^ 32" using ca(2) small by simp
  then obtain b1 where b1: "match_book P True oid actor side price qty (count_added qty b) = Some (left, xs, b1)"
    "refines V b1 A1" "size_of b1 \<le> size_of b"
    using match_sim [OF ca(1) _ m] ca(2) by metis
  have "book_ids (abs_count (c_added qty) A) = book_ids A" by (simp add: book_ids_def abs_count_def)
  then have new: "oid \<notin> book_ids A1" using abs_match_ids [OF m] ok(3) by auto
  have lim: "abs_limit V actor oid side price qty A = (Ok, xs, if left > 0 then abs_rest oid side price left actor A1 else A1)"
    using True m by (simp add: abs_limit_def)
  show ?thesis
  proof (cases "left > 0")
    case False
    then show ?thesis using b1 True lim validate_sim [OF r] by (auto simp: add_limit_as_def)
  next
    case left: True
    then have "left \<noteq> 0" by auto
    then obtain b2 where "rest P oid side price left actor b1 = Some b2"
      "refines V b2 (abs_rest oid side price left actor A1)" "size_of b2 = Suc (size_of b1)"
      using rest_refines [OF b1(2) ok(2) _ ok(1) new, of left side actor] b1(3) small by auto
    then show ?thesis using b1 True lim left validate_sim [OF r] by (auto simp: add_limit_as_def)
  qed
qed

lemma ioc_sim:
  assumes r: "refines V b A" and small: "size_of b < 2 ^ 32"
  shows "\<exists>b'. add_ioc_as P actor oid side price qty b
      = Some (fst (abs_ioc V actor oid side price qty A), fst (snd (abs_ioc V actor oid side price qty A)), b')
    \<and> refines V b' (snd (snd (abs_ioc V actor oid side price qty A))) \<and> size_of b' \<le> size_of b"
proof (cases "abs_validate V oid price qty A = Ok")
  case False
  then show ?thesis using r validate_sim [OF r] by (auto simp: add_ioc_as_def abs_ioc_def Let_def)
next
  case True
  obtain left xs A1 where m: "abs_match True oid actor side price qty (abs_count (c_added qty) A) = (left, xs, A1)"
    by (metis prod_cases3)
  note ca = count_sim(1,4) [OF r, of qty]
  have "size_of (count_added qty b) < 2 ^ 32" using ca(2) small by simp
  then obtain b1 where b1: "match_book P True oid actor side price qty (count_added qty b) = Some (left, xs, b1)"
    "refines V b1 A1" "size_of b1 \<le> size_of b"
    using match_sim [OF ca(1) _ m] ca(2) by metis
  then show ?thesis
    using True m validate_sim [OF r] count_sim(2,5) [OF b1(2), of left] by (auto simp: add_ioc_as_def abs_ioc_def)
qed

lemma market_sim:
  assumes r: "refines V b A" and small: "size_of b < 2 ^ 32"
  shows "\<exists>b'. add_market_as P actor oid side qty b
      = Some (fst (abs_market actor oid side qty A), fst (snd (abs_market actor oid side qty A)), b')
    \<and> refines V b' (snd (snd (abs_market actor oid side qty A))) \<and> size_of b' \<le> size_of b"
proof -
  obtain o1 where o1: "pol_find P (bk_orders b) oid = Some o1" "abs_find oid A = map_option (located b) o1"
    using find_sim [OF r] by metis
  obtain left xs A1 where m: "abs_match False oid actor side 0 qty (abs_count (c_added qty) A) = (left, xs, A1)"
    by (metis prod_cases3)
  note ca = count_sim(1,4) [OF r, of qty]
  have "size_of (count_added qty b) < 2 ^ 32" using ca(2) small by simp
  then obtain b1 where b1: "match_book P False oid actor side 0 qty (count_added qty b) = Some (left, xs, b1)"
    "refines V b1 A1" "size_of b1 \<le> size_of b"
    using match_sim [OF ca(1) _ m] ca(2) by metis
  then show ?thesis
    using r o1 m count_sim(2,5) [OF b1(2), of left]
    by (auto simp: add_market_as_def abs_market_def abs_validate_def)
qed

lemma cancel_open_sim:
  assumes r: "refines V b A" and small: "size_of b < 2 ^ 32"
    and l: "lookup (bk_orders b) oid = Some a" and loc: "located b a = (s, p, e)"
  shows "\<exists>b'. cancel_open P a b = Some b' \<and> refines V b' (abs_remove s p oid (abs_count (c_canceled (en_qty e)) A))
    \<and> size_of b = Suc (size_of b')"
proof -
  let ?b = "count_canceled (ord_qty (bk_heap b a)) b"
  have e: "en_qty e = ord_qty (bk_heap b a)" using loc by (auto simp: located_def entry_at_def)
  note cc = count_sim(2,5) [OF r, of "ord_qty (bk_heap b a)"]
  obtain G where G: "settled ?b G" "ab_levels A = levels_of ?b G" "ab_stp A = bk_stp ?b"
    "ab_counters (abs_count (c_canceled (en_qty e)) A) = bk_counters ?b" "pol_valid_price P (bk_ladder ?b) = V"
    using cc(1) e by (auto simp: refines_def abs_count_def)
  have same: "bk_orders ?b = bk_orders b" "located ?b a = located b a" "bk_heap ?b = bk_heap b"
    by (simp_all add: count_defs located_def)
  obtain b1 b' G' where u: "ord_level (bk_heap b a) = Some (s, p)" "ord_side (bk_heap b a) = s"
    "unlink_order P (s, p) a ?b = Some b1" "retire_if_empty P s (s, p) b1 = Some b'" "settled b' G'"
    "levels_of b' G' = (levels_of ?b G)(s := place s p (filter (\<lambda>e. en_id e \<noteq> oid) (queue_at p (levels_of ?b G s))) (levels_of ?b G s))"
    "bk_counters b' = bk_counters ?b" "bk_stp b' = bk_stp ?b"
    "pol_valid_price P (bk_ladder b') = pol_valid_price P (bk_ladder ?b)" "size_of ?b = Suc (size_of b')"
    using remove_sim [OF G(1), of oid a s p e] l loc same small by auto
  have "cancel_open P a b = Some b'" using u(1-4) by (simp add: cancel_open_def)
  moreover have "refines V b' (abs_remove s p oid (abs_count (c_canceled (en_qty e)) A))"
    using u(5-9) G unfolding refines_def abs_remove_def abs_set_queue_def by (auto simp: abs_count_def)
  ultimately show ?thesis using u(10) cc(2) by simp
qed

lemma cancel_sim:
  assumes r: "refines V b A" and small: "size_of b < 2 ^ 32"
  shows "\<exists>b'. cancel P oid b = Some (fst (abs_cancel oid A), b') \<and> refines V b' (snd (abs_cancel oid A))
    \<and> size_of b' \<le> size_of b"
proof -
  obtain o1 where o1: "pol_find P (bk_orders b) oid = Some o1" "abs_find oid A = map_option (located b) o1"
    "lookup (bk_orders b) oid = o1" using find_sim [OF r] by metis
  show ?thesis
  proof (cases o1)
    case None
    then show ?thesis using o1 r by (simp add: cancel_def abs_cancel_def)
  next
    case (Some a)
    obtain s p e where loc: "located b a = (s, p, e)" by (metis prod_cases3)
    show ?thesis
      using cancel_open_sim [OF r small _ loc, of oid] o1 Some loc by (auto simp: cancel_def abs_cancel_def)
  qed
qed

lemma insert_passive_sim:
  assumes r: "refines V b A" and small: "Suc (size_of b) < 2 ^ 32"
  shows "\<exists>b'. insert_passive P oid side price qty b = Some (fst (abs_insert_passive V oid side price qty A), b')
    \<and> refines V b' (snd (abs_insert_passive V oid side price qty A)) \<and> size_of b' \<le> Suc (size_of b)"
proof (cases "abs_validate V oid price qty A = Ok")
  case False
  then show ?thesis using r validate_sim [OF r] by (auto simp: insert_passive_def abs_insert_passive_def Let_def)
next
  case True
  then have ok: "oid \<noteq> 0" "qty \<noteq> 0" "V price" "oid \<notin> book_ids (abs_count (c_added qty) A)"
    using abs_find_None [of oid A] by (auto simp: abs_validate_def book_ids_def abs_count_def split: if_splits)
  note ca = count_sim(1,4) [OF r, of qty]
  obtain b2 where "rest P oid side price qty 0 (count_added qty b) = Some b2"
    "refines V b2 (abs_rest oid side price qty 0 (abs_count (c_added qty) A))" "size_of b2 = Suc (size_of (count_added qty b))"
    using rest_refines [OF ca(1) ok(3,2,1,4), of side 0] ca(2) small by auto
  then show ?thesis using True validate_sim [OF r] ca(2) by (auto simp: insert_passive_def abs_insert_passive_def)
qed

lemma consume_sim:
  assumes r: "refines V b A" and small: "size_of b < 2 ^ 32"
  shows "\<exists>b'. consume P oid qty ex b
      = Some (fst (abs_consume oid qty ex A), fst (snd (abs_consume oid qty ex A)), b')
    \<and> refines V b' (snd (snd (abs_consume oid qty ex A))) \<and> size_of b' \<le> size_of b"
proof -
  obtain o1 where o1: "pol_find P (bk_orders b) oid = Some o1" "abs_find oid A = map_option (located b) o1"
    "lookup (bk_orders b) oid = o1" using find_sim [OF r] by metis
  show ?thesis
  proof (cases "o1 = None \<or> qty = 0")
    case True
    then show ?thesis using o1 r by (cases o1) (auto simp: consume_def abs_consume_def located_def)
  next
    case False
    then obtain a where a: "o1 = Some a" and q: "\<not> qty = 0" by auto
    obtain s p e where loc: "located b a = (s, p, e)" by (metis prod_cases3)
    have e: "en_qty e = ord_qty (bk_heap b a)" using loc by (auto simp: located_def entry_at_def)
    define take where "take = (if qty < ord_qty (bk_heap b a) then qty else ord_qty (bk_heap b a))"
    have tk: "min qty (en_qty e) = take" unfolding e take_def by (auto simp: min_def)
    let ?b = "if ex then count_executed take b else count_canceled take b"
    let ?A = "abs_count (if ex then c_executed take else c_canceled take) A"
    have rb: "refines V ?b ?A" using count_sim(2,3) [OF r] by simp
    have same: "bk_orders ?b = bk_orders b" "located ?b = located b" "bk_heap ?b = bk_heap b"
      by (simp_all add: count_defs located_def fun_eq_iff)
    obtain G where G: "settled ?b G" "ab_levels ?A = levels_of ?b G" "ab_stp ?A = bk_stp ?b"
      "ab_counters ?A = bk_counters ?b" "pol_valid_price P (bk_ladder ?b) = V"
      using rb by (auto simp: refines_def)
    have lk: "lookup (bk_orders ?b) oid = Some a" "located ?b a = (s, p, e)" "size_of ?b < 2 ^ 32"
      using o1(3) a loc same small by simp_all
    have con: "consume P oid qty ex b = do {
        r \<leftarrow> ord_level (bk_heap b a);
        if take = ord_qty (bk_heap b a) then do {
          b1 \<leftarrow> unlink_order P r a ?b;
          b1 \<leftarrow> retire_if_empty P (ord_side (bk_heap b a)) r b1;
          Some (Ok, take, b1) }
        else do { b1 \<leftarrow> level_do P r (level_reduce a take) ?b; Some (Ok, take, b1) } }"
      unfolding consume_def o1(1) a Option.bind_lunit option.case if_not_P [OF q] Let_def
        take_def [symmetric] same by (rule refl)
    have absc: "abs_consume oid qty ex A = (if take = en_qty e then (Ok, take, abs_remove s p oid ?A)
        else (Ok, take, abs_set_queue s p
          (map (\<lambda>e. if en_id e = oid then e\<lparr>en_qty := en_qty e - take\<rparr> else e) (queue_at p (ab_levels ?A s))) ?A))"
      unfolding abs_consume_def o1(2) a option.map loc option.case prod.case if_not_P [OF q] Let_def tk by (rule refl)
    show ?thesis
    proof (cases "take = en_qty e")
      case True
      obtain b1 b' G' where u: "ord_level (bk_heap b a) = Some (s, p)" "ord_side (bk_heap b a) = s"
        "unlink_order P (s, p) a ?b = Some b1" "retire_if_empty P s (s, p) b1 = Some b'" "settled b' G'"
        "levels_of b' G' = (levels_of ?b G)(s := place s p (filter (\<lambda>e. en_id e \<noteq> oid) (queue_at p (levels_of ?b G s))) (levels_of ?b G s))"
        "bk_counters b' = bk_counters ?b" "bk_stp b' = bk_stp ?b"
        "pol_valid_price P (bk_ladder b') = pol_valid_price P (bk_ladder ?b)" "size_of ?b = Suc (size_of b')"
        using remove_sim [OF G(1) lk(1,3,2)] unfolding same(3) by blast
      have "refines V b' (abs_remove s p oid ?A)"
        using u(5-9) G unfolding refines_def abs_remove_def abs_set_queue_def
        by (intro exI [of _ G']) (simp add: abs_count_def)
      then show ?thesis using True con absc u(1-4,10) e same(1) by auto
    next
      case False
      then have "take < en_qty e" using e take_def by (auto simp: not_less split: if_splits)
      then obtain b' G' where u: "ord_level (bk_heap b a) = Some (s, p)"
        "level_do P (s, p) (level_reduce a take) ?b = Some b'" "settled b' G'"
        "levels_of b' G' = (levels_of ?b G)(s := place s p
         (map (\<lambda>e. if en_id e = oid then e\<lparr>en_qty := en_qty e - take\<rparr> else e) (queue_at p (levels_of ?b G s))) (levels_of ?b G s))"
        "bk_counters b' = bk_counters ?b" "bk_stp b' = bk_stp ?b"
        "pol_valid_price P (bk_ladder b') = pol_valid_price P (bk_ladder ?b)" "size_of b' = size_of ?b"
        using reduce_sim [OF G(1) lk(1,3,2)] unfolding same(3) by blast
      have "refines V b' (abs_set_queue s p
          (map (\<lambda>e. if en_id e = oid then e\<lparr>en_qty := en_qty e - take\<rparr> else e) (queue_at p (ab_levels ?A s))) ?A)"
        using u(3-7) G unfolding refines_def abs_set_queue_def by (intro exI [of _ G']) (simp add: abs_count_def)
      then show ?thesis using False con absc u(1,2,8) e same(1) by auto
    qed
  qed
qed

lemma replace_sim:
  assumes r: "refines V b A" and small: "Suc (size_of b) < 2 ^ 32"
  shows "\<exists>b'. replace P old_id new_id price qty b
      = Some (fst (abs_replace V old_id new_id price qty A), fst (snd (abs_replace V old_id new_id price qty A)), b')
    \<and> refines V b' (snd (snd (abs_replace V old_id new_id price qty A))) \<and> size_of b' \<le> Suc (size_of b)"
proof -
  obtain o1 where o1: "pol_find P (bk_orders b) old_id = Some o1" "abs_find old_id A = map_option (located b) o1"
    "lookup (bk_orders b) old_id = o1" using find_sim [OF r] by metis
  obtain o2 where o2: "pol_find P (bk_orders b) new_id = Some o2" "abs_find new_id A = map_option (located b) o2"
    using find_sim [OF r] by metis
  have V: "pol_valid_price P (bk_ladder b) = V" using r by (auto simp: refines_def)
  show ?thesis
  proof (cases "o1 = None \<or> new_id = 0 \<or> qty = 0 \<or> \<not> V price \<or> (new_id \<noteq> old_id \<and> o2 \<noteq> None)")
    case True
    then show ?thesis
      using o1 o2 V r by (cases o1) (auto simp: replace_def abs_replace_def located_def)
  next
    case False
    then obtain a where a: "o1 = Some a" by auto
    obtain s p e where loc: "located b a = (s, p, e)" by (metis prod_cases3)
    have e: "en_owner e = ord_participant (bk_heap b a)" "ord_side (bk_heap b a) = s"
      using loc by (auto simp: located_def entry_at_def)
    let ?A = "abs_remove s p old_id (abs_count (c_canceled (en_qty e)) A)"
    have sm: "size_of b < 2 ^ 32" using small by simp
    obtain b1 where b1: "cancel_open P a b = Some b1" "refines V b1 ?A" "size_of b = Suc (size_of b1)"
      using cancel_open_sim [OF r sm _ loc] o1(3) a by blast
    have "Suc (size_of b1) < 2 ^ 32" using b1(3) sm by simp
    then obtain b' where "add_limit_as P (en_owner e) new_id s price qty b1
      = Some (fst (abs_limit V (en_owner e) new_id s price qty ?A), fst (snd (abs_limit V (en_owner e) new_id s price qty ?A)), b')"
      "refines V b' (snd (snd (abs_limit V (en_owner e) new_id s price qty ?A)))" "size_of b' \<le> Suc (size_of b1)"
      using limit_sim [OF b1(2)] by blast
    then show ?thesis
      using False a o1(1,2) o2 V loc e b1(1,3)
      by (auto simp: replace_def abs_replace_def abs_cancel_def Let_def)
  qed
qed


end

subsection \<open>The fill-or-kill pre-scan\<close>

text \<open>Sums of quantities do not overflow 64 bits.\<close>

definition nat_qty :: "queue \<Rightarrow> nat" where
  "nat_qty es = (\<Sum>e\<leftarrow>es. unat (en_qty e))"

lemma nat_qty_simps [simp]:
  "nat_qty [] = 0" "nat_qty (e # es) = unat (en_qty e) + nat_qty es" "nat_qty (es @ es') = nat_qty es + nat_qty es'"
  by (simp_all add: nat_qty_def)

lemma nat_qty_bound: "nat_qty es \<le> length es * (2 ^ 32 - 1)"
proof (induction es)
  case (Cons e es)
  have "unat (en_qty e) < 2 ^ 32" using unsigned_less [of "en_qty e", where ?'a = nat] by simp
  with Cons show ?case by simp
qed simp

lemma unat_queue_qty: "nat_qty es < 2 ^ 64 \<Longrightarrow> unat (queue_qty es) = nat_qty es"
proof (induction es)
  case (Cons e es)
  then have "unat (queue_qty es) = nat_qty es" by simp
  then show ?case using Cons.prems by (simp add: queue_qty_def unat_word_ariths)
qed (simp add: queue_qty_def)

lemma nat_qty_small: "length es < 2 ^ 32 \<Longrightarrow> nat_qty es + 2 ^ 32 \<le> 2 ^ 64"
  using nat_qty_bound [of es] mult_le_mono1 [of "length es" "2 ^ 32 - 1" "2 ^ 32 - 1"] by simp

lemma unat_add_small: "unat x + n < 2 ^ 64 \<Longrightarrow> unat y = n \<Longrightarrow> unat (x + y) = unat x + n" for x y :: u64
  by (simp add: unat_word_ariths)

lemma unat_u32_less: "unat x < 2 ^ 32" for x :: u32
  using unsigned_less [of x, where ?'a = nat] by simp

lemma reach_queue_other: "\<not> stp_active stp actor \<Longrightarrow> reach_queue stp actor es = (nat_qty es, True)"
  by (induction es) auto

lemma entry_at_simps [simp]:
  "en_id (entry_at h a) = ord_id (h a)" "en_qty (entry_at h a) = ord_qty (h a)"
  "en_owner (entry_at h a) = ord_participant (h a)"
  by (simp_all add: entry_at_def)

lemma available_orders_spec:
  assumes "stp_active stp actor" and "unat tot < unat need"
    and "reach_queue stp actor (map (entry_at h) as) = (n, past)"
    and "available_orders h actor (stp = CancelAggressor \<or> stp = CancelBoth) need as tot = (go, tot')"
  shows "if go then past \<and> unat tot' = unat tot + n \<and> unat tot' < unat need
     else (unat tot' < unat need \<longleftrightarrow> unat tot + n < unat need) \<and> (unat tot + n < unat need \<longrightarrow> \<not> past)"
  using assms
proof (induction as arbitrary: tot n)
  case Nil
  then show ?case by simp
next
  case (Cons a as)
  obtain n1 past1 where r: "reach_queue stp actor (map (entry_at h) as) = (n1, past1)" by force
  show ?case
  proof (cases "ord_participant (h a) = actor")
    case True
    show ?thesis
    proof (cases "stp = CancelAggressor \<or> stp = CancelBoth")
      case stops: True
      then have "n = 0" "\<not> past" "\<not> go" "tot' = tot"
        using Cons.prems True by (auto split: if_splits)
      then show ?thesis using Cons.prems(2) by simp
    next
      case False
      then have "reach_queue stp actor (map (entry_at h) as) = (n, past)"
        "available_orders h actor (stp = CancelAggressor \<or> stp = CancelBoth) need as tot = (go, tot')"
        using Cons.prems True by (auto split: if_splits)
      then show ?thesis using Cons.IH Cons.prems(1,2) by blast
    qed
  next
    case False
    let ?q = "unat (ord_qty (h a))" and ?t = "tot + ucast (ord_qty (h a))"
    have n: "n = ?q + n1" "past = past1"
      using Cons.prems(3) False r by auto
    have ut: "unat ?t = unat tot + ?q"
      using Cons.prems(2) unat_u32_less [of need] unat_u32_less [of "ord_qty (h a)"]
      by (intro unat_add_small) simp_all
    have le: "(ucast need :: u64) \<le> ?t \<longleftrightarrow> unat need \<le> unat tot + ?q"
      using ut by (simp add: word_le_nat_alt)
    show ?thesis
    proof (cases "unat need \<le> unat tot + ?q")
      case True
      then have "\<not> go" "tot' = ?t" using Cons.prems(4) False le by (auto simp: Let_def)
      then show ?thesis using True ut n by simp
    next
      case nle: False
      then have "available_orders h actor (stp = CancelAggressor \<or> stp = CancelBoth) need as ?t = (go, tot')"
        using Cons.prems(4) False le by (auto simp: Let_def)
      then have "if go then past \<and> unat tot' = unat ?t + n1 \<and> unat tot' < unat need
         else (unat tot' < unat need \<longleftrightarrow> unat ?t + n1 < unat need) \<and> (unat ?t + n1 < unat need \<longrightarrow> \<not> past)"
        using Cons.IH [OF Cons.prems(1) _ r [folded n(2)], of ?t] nle ut by fastforce
      then show ?thesis using n ut by (cases go) (simp_all add: add.assoc)
    qed
  qed
qed

context book_policies begin

lemma settled_level:
  assumes st: "settled b G" and small: "size_of b < 2 ^ 32" and m: "(p, lv) \<in> set (levels (bk_ladder b) s)"
  shows "lvl_price lv = p" and "level_nodes (bk_heap b) lv = Some (G s p)"
    and "lvl_total_qty lv = queue_qty (map (entry_at (bk_heap b)) (G s p))"
    and "lvl_order_count lv = of_nat (length (G s p))" and "length (G s p) < 2 ^ 32"
proof -
  have ok: "level_ok (bk_heap b) (s, p) lv (G s p)"
    using queues_okD(2) [OF settledD(6) [OF st] m] by simp
  show "length (G s p) < 2 ^ 32" using working_length [OF settled_open [OF st m] small] .
  then show "level_nodes (bk_heap b) lv = Some (G s p)" using level_nodes_eq [OF ok] by simp
  show "lvl_price lv = p" "lvl_order_count lv = of_nat (length (G s p))" using ok by (simp_all add: level_ok_def)
  show "lvl_total_qty lv = queue_qty (map (entry_at (bk_heap b)) (G s p))"
    using ok by (simp add: level_ok_def queue_qty_def comp_def entry_at_def)
qed

lemma walk_available:
  assumes st: "settled b G" and small: "size_of b < 2 ^ 32"
    and sub: "set lvs \<subseteq> set (levels (bk_ladder b) s)" and tot: "unat tot < unat need"
  shows "\<exists>av. walk_levels (available_level b has_limit side price need actor) (map snd lvs) (Some tot) = Some av
    \<and> (unat av < unat need \<longleftrightarrow> unat tot + reach_levels (bk_stp b) has_limit actor side price
          (map (\<lambda>(p, _). (p, map (entry_at (bk_heap b)) (G s p))) lvs) < unat need)"
  using sub tot
proof (induction lvs arbitrary: tot)
  case Nil
  then show ?case by simp
next
  case (Cons l lvs)
  obtain p lv where l: "l = (p, lv)" by force
  have m: "(p, lv) \<in> set (levels (bk_ladder b) s)" using Cons.prems(1) l by simp
  note L = settled_level [OF st small m]
  let ?es = "map (entry_at (bk_heap b)) (G s p)"
  let ?ls = "map (\<lambda>(p, _). (p, map (entry_at (bk_heap b)) (G s p))) lvs"
  obtain n past where r: "reach_queue (bk_stp b) actor ?es = (n, past)" by force
  have sub: "set lvs \<subseteq> set (levels (bk_ladder b) s)" using Cons.prems(1) by simp
  show ?case
  proof (cases "has_limit \<and> \<not> crosses side price p")
    case True
    then show ?thesis using l L(1) Cons.prems(2) by (simp add: available_level_def)
  next
    case cr: False
    show ?thesis
    proof (cases "stp_active (bk_stp b) actor")
      case False
      have n: "n = nat_qty ?es" "past" using reach_queue_other [OF False] r by auto
      have nq: "nat_qty ?es + 2 ^ 32 \<le> 2 ^ 64" using L(5) by (intro nat_qty_small) simp
      have "unat (queue_qty ?es) = nat_qty ?es" using nq by (intro unat_queue_qty) simp
      then have ut: "unat (tot + lvl_total_qty lv) = unat tot + n"
        using Cons.prems(2) unat_u32_less [of need] nq n L(3) by (intro unat_add_small) simp_all
      have go: "tot + lvl_total_qty lv < ucast need \<longleftrightarrow> unat tot + n < unat need"
        using ut by (simp add: word_less_nat_alt)
      show ?thesis
      proof (cases "unat tot + n < unat need")
        case True
        obtain av where "walk_levels (available_level b has_limit side price need actor) (map snd lvs) (Some (tot + lvl_total_qty lv)) = Some av"
          "unat av < unat need \<longleftrightarrow> unat (tot + lvl_total_qty lv) + reach_levels (bk_stp b) has_limit actor side price ?ls < unat need"
          using Cons.IH [OF sub, of "tot + lvl_total_qty lv"] True ut by auto
        moreover have "available_level b has_limit side price need actor lv (Some tot) = (True, Some (tot + lvl_total_qty lv))"
          unfolding available_level_def using L(1) False go True by (simp add: Let_def if_not_P [OF cr])
        ultimately show ?thesis using l ut r n by (simp add: add.assoc if_not_P [OF cr])
      next
        case nt: False
        then have "available_level b has_limit side price need actor lv (Some tot) = (False, Some (tot + lvl_total_qty lv))"
          unfolding available_level_def using L(1) False go by (simp add: Let_def if_not_P [OF cr])
        then show ?thesis using l ut r n nt by (simp add: if_not_P [OF cr])
      qed
    next
      case True
      obtain go tot' where a: "available_orders (bk_heap b) actor (bk_stp b = CancelAggressor \<or> bk_stp b = CancelBoth) need (G s p) tot = (go, tot')"
        by force
      note A = available_orders_spec [OF True Cons.prems(2) r a]
      show ?thesis
      proof (cases go)
        case go: True
        then have g: "past" "unat tot' = unat tot + n" "unat tot' < unat need" using A by auto
        obtain av where "walk_levels (available_level b has_limit side price need actor) (map snd lvs) (Some tot') = Some av"
          "unat av < unat need \<longleftrightarrow> unat tot' + reach_levels (bk_stp b) has_limit actor side price ?ls < unat need"
          using Cons.IH [OF sub g(3)] by auto
        moreover have "available_level b has_limit side price need actor lv (Some tot) = (True, Some tot')"
          unfolding available_level_def using L(1,2) True a go by (simp add: Let_def if_not_P [OF cr])
        ultimately show ?thesis using l r g by (simp add: add.assoc if_not_P [OF cr])
      next
        case False
        then have "unat tot' < unat need \<longleftrightarrow> unat tot + n < unat need" "unat tot + n < unat need \<longrightarrow> \<not> past"
          using A by auto
        moreover have "available_level b has_limit side price need actor lv (Some tot) = (False, Some tot')"
          unfolding available_level_def using L(1,2) True a False by (simp add: Let_def if_not_P [OF cr])
        ultimately show ?thesis using l r by (cases past) (auto simp: if_not_P [OF cr])
      qed
    qed
  qed
qed

lemma available_sim:
  assumes r: "refines V b A" and small: "size_of b < 2 ^ 32" and q: "qty \<noteq> 0"
  shows "\<exists>av. available P True side price qty actor b = Some av
    \<and> (av < ucast qty \<longleftrightarrow> reach_levels (ab_stp A) True actor side price (ab_levels A (opposite side)) < unat qty)"
proof -
  obtain G where G: "settled b G" "ab_levels A = levels_of b G" "ab_stp A = bk_stp b"
    using r by (auto simp: refines_def)
  have "unat (0 :: u64) < unat qty" using q by (simp add: unat_gt_0)
  from walk_available [OF G(1) small order_refl this, of True side price actor "opposite side"]
  show ?thesis
    using lad.visit_law [OF settledD(1) [OF G(1)]] G(2,3)
    by (auto simp: available_def levels_of_def view_def word_less_nat_alt)
qed

lemma fok_sim:
  assumes r: "refines V b A" and small: "size_of b < 2 ^ 32"
  shows "\<exists>b'. add_fok_as P actor oid side price qty b
      = Some (fst (abs_fok V actor oid side price qty A), fst (snd (abs_fok V actor oid side price qty A)), b')
    \<and> refines V b' (snd (snd (abs_fok V actor oid side price qty A))) \<and> size_of b' \<le> size_of b"
proof (cases "abs_validate V oid price qty A = Ok")
  case False
  then show ?thesis using r validate_sim [OF r] by (auto simp: add_fok_as_def abs_fok_def Let_def)
next
  case True
  then have q: "qty \<noteq> 0" by (auto simp: abs_validate_def split: if_splits)
  obtain av where av: "available P True side price qty actor b = Some av"
    "av < ucast qty \<longleftrightarrow> reach_levels (ab_stp A) True actor side price (ab_levels A (opposite side)) < unat qty"
    using available_sim [OF r small q] by blast
  obtain left xs A1 where m: "abs_match True oid actor side price qty (abs_count (c_added qty) A) = (left, xs, A1)"
    by (metis prod_cases3)
  note ca = count_sim(1,4) [OF r, of qty]
  have "size_of (count_added qty b) < 2 ^ 32" using ca(2) small by simp
  then obtain b1 where b1: "match_book P True oid actor side price qty (count_added qty b) = Some (left, xs, b1)"
    "refines V b1 A1" "size_of b1 \<le> size_of b"
    using match_sim [OF ca(1) _ m] ca(2) by metis
  show ?thesis
    using True m validate_sim [OF r] count_sim(2,5) [OF b1(2), of left] av b1 r
    by (cases "av < ucast qty") (auto simp: add_fok_as_def abs_fok_def)
qed

subsection \<open>Inspection\<close>

lemma open_orders_sim:
  assumes r: "refines V b A"
  shows "open_orders P b = card (book_ids A)"
proof -
  obtain G where "settled b G" using r by (auto simp: refines_def)
  then have inv: "minv (bk_orders b)" by (rule settledD(2))
  have "dom (lookup (bk_orders b)) = book_ids A"
  proof (intro set_eqI)
    fix oid
    show "oid \<in> dom (lookup (bk_orders b)) \<longleftrightarrow> oid \<in> book_ids A"
      using find_sim [OF r, of oid] abs_find_None [of oid A] by (metis domIff map_option_is_None)
  qed
  then show ?thesis using ids.count_law [OF inv] by (simp add: open_orders_def)
qed

lemma ucast_count: "n < 2 ^ 32 \<Longrightarrow> (ucast (of_nat n :: u32) :: u64) = of_nat n"
  by (intro word_unat_eq_iff [THEN iffD2]) (simp add: unat_of_nat_u32 unat_of_nat_u64)

lemma hash_level_sim:
  assumes "settled b G" and "size_of b < 2 ^ 32" and "(p, lv) \<in> set (levels (bk_ladder b) s)"
  shows "hash_level (bk_heap b) lv v = Some (abs_hash_queue (p, map (entry_at (bk_heap b)) (G s p)) v)"
  using settled_level [OF assms] ucast_count [of "length (G s p)"]
  by (simp add: hash_level_def abs_hash_queue_def Let_def fold_map comp_def)

lemma hash_side_sim:
  assumes r: "refines V b A" and small: "size_of b < 2 ^ 32"
  shows "hash_side P b s v = Some (abs_hash_side A s v)"
proof -
  obtain G where G: "settled b G" "ab_levels A = levels_of b G" using r by (auto simp: refines_def)
  have "hash_levels (bk_heap b) (map snd lvs) u
      = Some (fold abs_hash_queue (map (\<lambda>(p, _). (p, map (entry_at (bk_heap b)) (G s p))) lvs) u)"
    if "set lvs \<subseteq> set (levels (bk_ladder b) s)" for lvs u
    using that
  proof (induction lvs arbitrary: u)
    case (Cons l lvs)
    then show ?case using hash_level_sim [OF G(1) small, of "fst l" "snd l" s] by (cases l) auto
  qed simp
  from this [OF order_refl] show ?thesis
    using lad.visit_law [OF settledD(1) [OF G(1)]] G(2)
    by (simp add: hash_side_def abs_hash_side_def levels_of_def view_def)
qed

lemma state_hash_sim:
  assumes "refines V b A" and "size_of b < 2 ^ 32"
  shows "state_hash P b = Some (abs_hash A)"
  using hash_side_sim [OF assms] by (simp add: state_hash_def abs_hash_def)

lemma collect_sim:
  assumes r: "refines V b A" and small: "size_of b < 2 ^ 32"
  shows "collect P s n b = Some (abs_depth s n A)"
proof (cases "n = 0")
  case True
  then show ?thesis by (simp add: collect_def abs_depth_def)
next
  case False
  obtain G where G: "settled b G" "ab_levels A = levels_of b G" using r by (auto simp: refines_def)
  let ?f = "\<lambda>lv. \<lparr>dp_price = lvl_price lv, dp_qty = lvl_total_qty lv, dp_orders = lvl_order_count lv\<rparr>"
  have walk: "walk_levels (\<lambda>lv out. let out = out @ [?f lv] in (length out < n, out)) lvs out
      = out @ map ?f (take (n - length out) lvs)" if "length out < n" for lvs out
    using that
  proof (induction lvs arbitrary: out)
    case (Cons lv lvs)
    obtain m where m: "n - length out = Suc m" using Cons.prems by (cases "n - length out") auto
    show ?case
    proof (cases "length out + 1 < n")
      case True
      then have "n - length (out @ [?f lv]) = m" using m by simp
      then show ?thesis using Cons.IH [of "out @ [?f lv]"] True m by (simp add: Let_def)
    next
      case False
      then have "m = 0" using m by simp
      then show ?thesis using m False by (simp add: Let_def)
    qed
  qed simp
  have "map ?f (map snd lvs) = map (\<lambda>(p, es). \<lparr>dp_price = p, dp_qty = queue_qty es, dp_orders = of_nat (length es)\<rparr>)
      (map (\<lambda>(p, _). (p, map (entry_at (bk_heap b)) (G s p))) lvs)"
    if "set lvs \<subseteq> set (levels (bk_ladder b) s)" for lvs
    using that settled_level [OF G(1) small] by (induction lvs) auto
  from this [OF set_take_subset [of n]] show ?thesis
    using walk [of "[]" "map snd (levels (bk_ladder b) s)"] False lad.visit_law [OF settledD(1) [OF G(1)]] G(2)
    by (simp add: collect_def abs_depth_def levels_of_def view_def take_map Let_def)
qed

lemma best_level_sim:
  assumes r: "refines V b A" and small: "size_of b < 2 ^ 32"
  shows "\<exists>o1. best_level P s b = Some o1 \<and> (case ab_levels A s of [] \<Rightarrow> o1 = None
      | (p, es) # _ \<Rightarrow> \<exists>lv. o1 = Some lv \<and> lvl_price lv = p \<and> lvl_total_qty lv = queue_qty es
          \<and> lvl_order_count lv = of_nat (length es))"
proof -
  obtain G where G: "settled b G" "ab_levels A = levels_of b G" using r by (auto simp: refines_def)
  have li: "linv (bk_ladder b)" by (rule settledD(1) [OF G(1)])
  show ?thesis
  proof (cases "levels (bk_ladder b) s")
    case Nil
    then show ?thesis using lad.best_empty [OF li] G(2) by (simp add: best_level_def levels_of_def view_def)
  next
    case (Cons l lvs)
    obtain p lv where l: "l = (p, lv)" by force
    have m: "(p, lv) \<in> set (levels (bk_ladder b) s)" using Cons l by simp
    show ?thesis
      using Cons l lad.best_first [OF li, of s p lv lvs] lad.deref_active [OF li m] settled_level [OF G(1) small m] G(2)
      by (simp add: best_level_def levels_of_def view_def)
  qed
qed

lemma new_sim:
  assumes "linv l" and "levels l = (\<lambda>_. [])"
  shows "\<exists>b. book_new P l = Some b \<and> refines (pol_valid_price P l) b abook_new \<and> size_of b = 0"
proof -
  obtain m0 where m0: "pol_new_map P = Some m0" "minv m0" "lookup m0 = Map.empty"
    using ids.new_law by blast
  obtain m where m: "pol_reserve P m0 (2 ^ 16) = Some m" "minv m" "lookup m = Map.empty"
    using ids.reserve_law [OF m0(2), of "2 ^ 16"] m0(3) by auto
  let ?b = "\<lparr>bk_stp = NoPrevention, bk_ladder = l, bk_pool = pool_new, bk_orders = m,
       bk_counters = counters_zero, bk_heap = (\<lambda>_. order_default)\<rparr>"
  have "settled ?b (\<lambda>_ _. [])"
    using assms m pool_ok_new [of "\<lambda>_. order_default"]
    by (auto simp: settled_def base_def index_ok_def nodes_ok_def open_qty_def queues_ok_def live_def)
  moreover have "levels_of ?b (\<lambda>_ _. []) = (\<lambda>_. [])" using assms(2) by (simp add: levels_of_def view_def fun_eq_iff)
  moreover have "size_of ?b = 0" using ids.count_law [OF m(2)] m(3) by simp
  ultimately show ?thesis
    using m0(1) m(1) by (auto simp: book_new_def refines_def abook_new_def intro!: exI [of _ "\<lambda>_ _. []"])
qed

lemma set_policy_sim:
  "refines V b A \<Longrightarrow> refines V (set_self_trade_policy sp b) (A\<lparr>ab_stp := sp\<rparr>)
     \<and> size_of (set_self_trade_policy sp b) = size_of b"
  unfolding refines_def set_self_trade_policy_def
  by (auto simp: settled_def base_def levels_of_def)

lemma reserve_orders_sim:
  assumes r: "refines V b A" and "n < 2 ^ 40"
  shows "\<exists>b'. reserve_orders P n b = Some b' \<and> refines V b' A \<and> size_of b' = size_of b"
proof -
  obtain G where G: "settled b G" "ab_levels A = levels_of b G" "ab_stp A = bk_stp b" "ab_counters A = bk_counters b"
    "pol_valid_price P (bk_ladder b) = V" using r by (auto simp: refines_def)
  obtain m where m: "pol_reserve P (bk_orders b) n = Some m" "minv m" "lookup m = lookup (bk_orders b)"
    using ids.reserve_law [OF settledD(2) [OF G(1)] assms(2)] by blast
  have "pol_size P m = size_of b"
    using ids.count_law m(2,3) settledD(2) [OF G(1)] by simp
  moreover have "refines V (b\<lparr>bk_orders := m\<rparr>) A"
    unfolding refines_def using G m by (intro exI [of _ G]) (simp add: settled_def base_def levels_of_def)
  ultimately show ?thesis using m(1) by (simp add: reserve_orders_def)
qed

end

end
