(* ===== verification/LadderMap.thy ===== *)
theory LadderMap
  imports Ladder
begin

text \<open>
  \<^verbatim>\<open>MapLadder\<close> (\<^verbatim>\<open>include/pricetime/ladder_map.hpp\<close>): one \<^verbatim>\<open>std::map\<close> per side.  An ordered map is
  its list of key-value pairs in iteration order; \<^verbatim>\<open>begin()\<close> is its first pair, a lookup
  \<^const>\<open>map_of\<close>, an insertion of a new key \<^const>\<open>put\<close> and \<^verbatim>\<open>erase\<close> \<^const>\<open>del\<close>.  A level pointer
  stays valid until its pair is erased, so it is named by side and price.
\<close>

record MapLadder =
  ml_bids :: "(Price \<times> Level) list"
  ml_asks :: "(Price \<times> Level) list"

definition ml_new :: MapLadder where
  "ml_new = \<lparr>ml_bids = [], ml_asks = []\<rparr>"

definition ml_valid_price :: "MapLadder \<Rightarrow> Price \<Rightarrow> bool" where
  "ml_valid_price l p = True"

text \<open>\<^verbatim>\<open>try_emplace\<close>, then the price of a newly inserted level.\<close>

definition ml_get_or_create_in :: "Side \<Rightarrow> (Price \<times> Level) list \<Rightarrow> Price \<Rightarrow> (Price \<times> Level) list" where
  "ml_get_or_create_in cmp m p =
     (case map_of m p of
        Some lv \<Rightarrow> m
      | None \<Rightarrow> put cmp p (level_default\<lparr>lvl_price := p\<rparr>) m)"

definition ml_get_or_create :: "Side \<Rightarrow> Price \<Rightarrow> MapLadder \<Rightarrow> (level_ref \<times> MapLadder) option" where
  "ml_get_or_create s p l =
     Some ((s, p),
       if s = Bid then l\<lparr>ml_bids := ml_get_or_create_in Bid (ml_bids l) p\<rparr>
       else l\<lparr>ml_asks := ml_get_or_create_in Ask (ml_asks l) p\<rparr>)"

definition ml_side :: "MapLadder \<Rightarrow> Side \<Rightarrow> (Price \<times> Level) list" where
  "ml_side l s = (if s = Bid then ml_bids l else ml_asks l)"

text \<open>Reading and writing through a level pointer.\<close>

definition ml_deref :: "level_ref \<Rightarrow> MapLadder \<Rightarrow> Level option" where
  "ml_deref r l = map_of (ml_side l (fst r)) (snd r)"

definition ml_store :: "level_ref \<Rightarrow> Level \<Rightarrow> MapLadder \<Rightarrow> MapLadder" where
  "ml_store r lv l =
     (if fst r = Bid then l\<lparr>ml_bids := put Bid (snd r) lv (ml_bids l)\<rparr>
      else l\<lparr>ml_asks := put Ask (snd r) lv (ml_asks l)\<rparr>)"

definition ml_on_level_empty :: "Side \<Rightarrow> level_ref \<Rightarrow> MapLadder \<Rightarrow> MapLadder option" where
  "ml_on_level_empty s r l = do {
     lv \<leftarrow> ml_deref r l;
     Some (if s = Bid then l\<lparr>ml_bids := del (lvl_price lv) (ml_bids l)\<rparr>
           else l\<lparr>ml_asks := del (lvl_price lv) (ml_asks l)\<rparr>) }"

definition ml_best :: "Side \<Rightarrow> MapLadder \<Rightarrow> level_ref option" where
  "ml_best s l =
     (if s = Bid then case ml_bids l of [] \<Rightarrow> None | (p, _) # _ \<Rightarrow> Some (Bid, p)
      else case ml_asks l of [] \<Rightarrow> None | (p, _) # _ \<Rightarrow> Some (Ask, p))"

text \<open>The levels \<^verbatim>\<open>for_each_level\<close> shows its callback, in the order of the walk.\<close>

definition ml_visit :: "Side \<Rightarrow> MapLadder \<Rightarrow> Level list option" where
  "ml_visit s l = Some (if s = Bid then map snd (ml_bids l) else map snd (ml_asks l))"


subsection \<open>The contract holds\<close>

text \<open>One side of an ordered-map ladder: sorted, every level nonempty and stored at its price.\<close>

definition side_ok :: "Side \<Rightarrow> (Price \<times> Level) list \<Rightarrow> bool" where
  "side_ok s xs \<longleftrightarrow> ladder_sorted s xs
     \<and> (\<forall>(p, lv) \<in> set xs. lvl_price lv = p \<and> lvl_order_count lv \<noteq> 0)"

definition ml_inv :: "MapLadder \<Rightarrow> bool" where
  "ml_inv l \<longleftrightarrow> (\<forall>s. side_ok s (ml_side l s))"

definition ml_window :: "Side \<Rightarrow> Price \<Rightarrow> Level \<Rightarrow> (Side \<Rightarrow> (Price \<times> Level) list) \<Rightarrow> MapLadder \<Rightarrow> bool" where
  "ml_window s p lv K l \<longleftrightarrow> (\<forall>t. side_ok t (K t)) \<and> lvl_price lv = p
     \<and> ml_side l = K(s := put s p lv (K s))"

lemma side_ok_sorted: "side_ok s xs \<Longrightarrow> ladder_sorted s xs"
  by (simp add: side_ok_def)

lemma side_ok_put:
  "side_ok s xs \<Longrightarrow> lvl_price lv = p \<Longrightarrow> lvl_order_count lv \<noteq> 0 \<Longrightarrow> side_ok s (put s p lv xs)"
  by (auto simp: side_ok_def set_put)

lemma side_ok_del: "side_ok s xs \<Longrightarrow> side_ok s (del p xs)"
  by (auto simp: side_ok_def set_del)

lemma side_ok_entry: "side_ok s xs \<Longrightarrow> (p, lv) \<in> set xs \<Longrightarrow> lvl_price lv = p \<and> lvl_order_count lv \<noteq> 0"
  by (auto simp: side_ok_def)

lemma ml_side_store: "ml_side (ml_store (s, p) lv l) = (ml_side l)(s := put s p lv (ml_side l s))"
  by (rule ext, rename_tac t, case_tac t; cases s; simp add: ml_side_def ml_store_def)

lemma ml_side_eqI:
  "ml_bids l = K Bid \<Longrightarrow> ml_asks l = K Ask \<Longrightarrow> ml_side l = K"
  by (rule ext, rename_tac t, case_tac t; simp add: ml_side_def)

lemma ml_create_law:
  assumes inv: "ml_inv l"
  shows "\<exists>l'. ml_get_or_create s p l = Some ((s, p), l')
    \<and> ml_window s p (case map_of (ml_side l s) p of Some lv \<Rightarrow> lv | None \<Rightarrow> fresh_level p) (ml_side l) l'
    \<and> ml_valid_price l' = ml_valid_price l"
proof -
  have ok: "side_ok t (ml_side l t)" for t using inv by (simp add: ml_inv_def)
  obtain l' where l': "ml_get_or_create s p l = Some ((s, p), l')" by (simp add: ml_get_or_create_def)
  have s': "ml_side l' = (ml_side l)(s := ml_get_or_create_in s (ml_side l s) p)"
    using l' by (cases s; intro ml_side_eqI) (auto simp: ml_get_or_create_def ml_side_def)
  show ?thesis
  proof (cases "map_of (ml_side l s) p")
    case None
    then show ?thesis
      using l' s' ok
      by (auto simp: ml_window_def fresh_level_def ml_get_or_create_in_def ml_valid_price_def)
  next
    case (Some lv)
    then have "(p, lv) \<in> set (ml_side l s)" by (rule map_of_SomeD)
    then have "lvl_price lv = p" "put s p lv (ml_side l s) = ml_side l s"
      using side_ok_entry [OF ok] put_member [OF side_ok_sorted [OF ok]] by auto
    then show ?thesis
      using l' s' ok Some by (auto simp: ml_window_def ml_get_or_create_in_def ml_valid_price_def)
  qed
qed

lemma ml_empty_law:
  assumes w: "ml_window s p lv K l"
  shows "\<exists>l'. ml_on_level_empty s (s, p) l = Some l' \<and> ml_inv l' \<and> ml_side l' = K(s := del p (K s))
    \<and> ml_valid_price l' = ml_valid_price l"
proof -
  have so: "ladder_sorted s (K s)" using w by (simp add: ml_window_def side_ok_sorted)
  have d: "ml_deref (s, p) l = Some lv" using w so by (simp add: ml_window_def ml_deref_def)
  have p: "lvl_price lv = p" and side: "ml_side l = K(s := put s p lv (K s))"
    using w by (simp_all add: ml_window_def)
  obtain l' where l': "ml_on_level_empty s (s, p) l = Some l'" using d by (simp add: ml_on_level_empty_def)
  have "ml_side l' = (ml_side l)(s := del p (ml_side l s))"
    using l' d p by (cases s; intro ml_side_eqI) (auto simp: ml_on_level_empty_def ml_side_def)
  then have s': "ml_side l' = K(s := del p (K s))" using side so by simp
  have "ml_inv l'" using w unfolding ml_inv_def s' by (auto simp: ml_window_def side_ok_del)
  then show ?thesis using l' s' by (auto simp: ml_valid_price_def)
qed

interpretation ml: ladder ml_valid_price ml_get_or_create ml_on_level_empty ml_best ml_visit ml_deref
  ml_store ml_inv ml_side ml_window
proof
  fix l s p lv lv' K
  show "ml_inv l \<Longrightarrow> ladder_sorted s (ml_side l s)"
    by (simp add: ml_inv_def side_ok_def)
  show "ml_inv l \<Longrightarrow> (p, lv) \<in> set (ml_side l s) \<Longrightarrow>
      lvl_price lv = p \<and> lvl_order_count lv \<noteq> 0 \<and> ml_valid_price l p"
    using side_ok_entry [of s "ml_side l s" p lv] by (simp add: ml_inv_def ml_valid_price_def)
  show "ml_best s l = map_option (\<lambda>(p, _). (s, p)) (first_of (ml_side l s))"
    by (cases s) (auto simp: ml_best_def ml_side_def split: list.split)
  show "ml_visit s l = Some (map snd (ml_side l s))"
    by (simp add: ml_visit_def ml_side_def)
  show "ml_inv l \<Longrightarrow> (p, lv) \<in> set (ml_side l s) \<Longrightarrow> ml_window s p lv (ml_side l) l"
    using side_ok_entry put_member side_ok_sorted by (fastforce simp: ml_inv_def ml_window_def)
  show "ml_inv l \<Longrightarrow> \<exists>l'. ml_get_or_create s p l = Some ((s, p), l')
    \<and> ml_window s p (case map_of (ml_side l s) p of Some lv \<Rightarrow> lv | None \<Rightarrow> fresh_level p) (ml_side l) l'
    \<and> ml_valid_price l' = ml_valid_price l"
    by (rule ml_create_law)
  show "ml_window s p lv K l \<Longrightarrow> ml_deref (s, p) l = Some lv"
    by (simp add: ml_window_def ml_deref_def side_ok_sorted)
  show "ml_window s p lv K l \<Longrightarrow> lvl_price lv' = p \<Longrightarrow> ml_window s p lv' K (ml_store (s, p) lv' l)"
    by (simp add: ml_window_def ml_side_store)
  show "ml_valid_price (ml_store r lv l) = ml_valid_price l" for r
    by (simp add: ml_valid_price_def fun_eq_iff)
  show "ml_window s p lv K l \<Longrightarrow> lvl_order_count lv \<noteq> 0 \<Longrightarrow>
      ml_inv l \<and> ml_side l = K(s := put s p lv (K s))"
    by (auto simp: ml_window_def ml_inv_def side_ok_put)
  show "ml_window s p (fresh_level p) K l \<Longrightarrow> \<exists>l'. ml_on_level_empty s (s, p) l = Some l' \<and> ml_inv l'
      \<and> ml_side l' = K(s := del p (K s)) \<and> ml_valid_price l' = ml_valid_price l"
    by (rule ml_empty_law)
qed

lemma ml_new_ok: "ml_inv ml_new" "ml_side ml_new = (\<lambda>_. [])"
  by (auto simp: ml_inv_def ml_new_def ml_side_def side_ok_def)

end
