(* ===== verification/LadderPooled.thy ===== *)
theory LadderPooled
  imports LadderMap
begin

text \<open>
  \<^verbatim>\<open>PooledMapLadder\<close> (\<^verbatim>\<open>include/pricetime/ladder_pooled.hpp\<close>): the ordered maps of \<open>LadderMap\<close>
  plus a bounded cache of extracted map nodes per side.  A node handle is the key and the level it
  owns; the cache is a vector with its back at the end of the list.  Forgetting the caches gives a
  \<open>MapLadder\<close>, and every operation commutes with forgetting them.
\<close>

type_synonym node_cache = "(Price \<times> Level) list"

record PooledMapLadder =
  pm_bids :: "(Price \<times> Level) list"
  pm_asks :: "(Price \<times> Level) list"
  pm_bid_cache :: node_cache
  pm_ask_cache :: node_cache

definition kMaxCached :: nat where
  "kMaxCached = 4096"

definition pm_new :: PooledMapLadder where
  "pm_new = \<lparr>pm_bids = [], pm_asks = [], pm_bid_cache = [], pm_ask_cache = []\<rparr>"

definition pm_valid_price :: "PooledMapLadder \<Rightarrow> Price \<Rightarrow> bool" where
  "pm_valid_price l p = True"

definition pm_get_in ::
  "Side \<Rightarrow> (Price \<times> Level) list \<Rightarrow> node_cache \<Rightarrow> Price \<Rightarrow> (Price \<times> Level) list \<times> node_cache" where
  "pm_get_in cmp m cache p =
     (case map_of m p of
        Some lv \<Rightarrow> (m, cache)
      | None \<Rightarrow>
          if cache \<noteq> [] then
            let nh = last cache;
                cache = butlast cache;
                nh = (p, snd nh);
                nh = (fst nh, level_default);
                nh = (fst nh, (snd nh)\<lparr>lvl_price := p\<rparr>)
            in (put cmp (fst nh) (snd nh) m, cache)
          else (put cmp p (level_default\<lparr>lvl_price := p\<rparr>) m, cache))"

definition pm_get_or_create :: "Side \<Rightarrow> Price \<Rightarrow> PooledMapLadder \<Rightarrow> (level_ref \<times> PooledMapLadder) option" where
  "pm_get_or_create s p l =
     Some ((s, p),
       if s = Bid then
         (let (m, cache) = pm_get_in Bid (pm_bids l) (pm_bid_cache l) p in l\<lparr>pm_bids := m, pm_bid_cache := cache\<rparr>)
       else
         (let (m, cache) = pm_get_in Ask (pm_asks l) (pm_ask_cache l) p in l\<lparr>pm_asks := m, pm_ask_cache := cache\<rparr>))"

definition pm_side :: "PooledMapLadder \<Rightarrow> Side \<Rightarrow> (Price \<times> Level) list" where
  "pm_side l s = (if s = Bid then pm_bids l else pm_asks l)"

definition pm_deref :: "level_ref \<Rightarrow> PooledMapLadder \<Rightarrow> Level option" where
  "pm_deref r l = map_of (pm_side l (fst r)) (snd r)"

definition pm_store :: "level_ref \<Rightarrow> Level \<Rightarrow> PooledMapLadder \<Rightarrow> PooledMapLadder" where
  "pm_store r lv l =
     (if fst r = Bid then l\<lparr>pm_bids := put Bid (snd r) lv (pm_bids l)\<rparr>
      else l\<lparr>pm_asks := put Ask (snd r) lv (pm_asks l)\<rparr>)"

text \<open>\<^verbatim>\<open>park\<close>: the node of price \<open>p\<close> leaves the map; it is kept when there is one and there is room.\<close>

definition pm_park ::
  "(Price \<times> Level) list \<Rightarrow> node_cache \<Rightarrow> Price \<Rightarrow> (Price \<times> Level) list \<times> node_cache" where
  "pm_park m cache p =
     (case map_of m p of
        None \<Rightarrow> (m, cache)
      | Some lv \<Rightarrow> (del p m, if length cache < kMaxCached then cache @ [(p, lv)] else cache))"

definition pm_on_level_empty :: "Side \<Rightarrow> level_ref \<Rightarrow> PooledMapLadder \<Rightarrow> PooledMapLadder option" where
  "pm_on_level_empty s r l = do {
     lv \<leftarrow> pm_deref r l;
     Some (if s = Bid then
             (let (m, cache) = pm_park (pm_bids l) (pm_bid_cache l) (lvl_price lv)
              in l\<lparr>pm_bids := m, pm_bid_cache := cache\<rparr>)
           else
             (let (m, cache) = pm_park (pm_asks l) (pm_ask_cache l) (lvl_price lv)
              in l\<lparr>pm_asks := m, pm_ask_cache := cache\<rparr>)) }"

definition pm_best :: "Side \<Rightarrow> PooledMapLadder \<Rightarrow> level_ref option" where
  "pm_best s l =
     (if s = Bid then case pm_bids l of [] \<Rightarrow> None | (p, _) # _ \<Rightarrow> Some (Bid, p)
      else case pm_asks l of [] \<Rightarrow> None | (p, _) # _ \<Rightarrow> Some (Ask, p))"

definition pm_visit :: "Side \<Rightarrow> PooledMapLadder \<Rightarrow> Level list option" where
  "pm_visit s l = Some (if s = Bid then map snd (pm_bids l) else map snd (pm_asks l))"

definition pm_cached_nodes :: "PooledMapLadder \<Rightarrow> nat" where
  "pm_cached_nodes l = length (pm_bid_cache l) + length (pm_ask_cache l)"

subsection \<open>Forgetting the caches\<close>

definition pm_map :: "PooledMapLadder \<Rightarrow> MapLadder" where
  "pm_map l = \<lparr>ml_bids = pm_bids l, ml_asks = pm_asks l\<rparr>"

lemma pm_get_in_fst: "fst (pm_get_in cmp m cache p) = ml_get_or_create_in cmp m p"
  by (simp add: pm_get_in_def ml_get_or_create_in_def Let_def split: option.split)

lemma pm_park_fst: "fst (pm_park m cache p) = del p m"
  by (auto simp: pm_park_def map_of_eq_None_iff split: option.split)

lemma pm_map_get:
  "ml_get_or_create s p (pm_map l) = map_option (\<lambda>(r, l). (r, pm_map l)) (pm_get_or_create s p l)"
  by (simp add: ml_get_or_create_def pm_get_or_create_def pm_map_def pm_get_in_fst [symmetric] split_beta)

lemma pm_map_deref: "ml_deref r (pm_map l) = pm_deref r l"
  by (simp add: ml_deref_def pm_deref_def pm_map_def ml_side_def pm_side_def)

lemma pm_map_store: "ml_store r lv (pm_map l) = pm_map (pm_store r lv l)"
  by (simp add: ml_store_def pm_store_def pm_map_def)

lemma pm_map_empty:
  "ml_on_level_empty s r (pm_map l) = map_option pm_map (pm_on_level_empty s r l)"
  by (cases "pm_deref r l")
    (simp_all add: ml_on_level_empty_def pm_on_level_empty_def pm_map_deref,
      simp add: pm_map_def pm_park_fst [symmetric] split_beta)

lemma pm_map_best: "ml_best s (pm_map l) = pm_best s l"
  by (simp add: ml_best_def pm_best_def pm_map_def)

lemma pm_map_visit: "ml_visit s (pm_map l) = pm_visit s l"
  by (simp add: ml_visit_def pm_visit_def pm_map_def)

lemma pm_map_side: "ml_side (pm_map l) = pm_side l"
  by (simp add: fun_eq_iff ml_side_def pm_side_def pm_map_def)

lemmas pm_map_simps = pm_map_get pm_map_deref pm_map_store pm_map_empty pm_map_best pm_map_visit pm_map_side

definition pm_inv :: "PooledMapLadder \<Rightarrow> bool" where
  "pm_inv l \<longleftrightarrow> ml_inv (pm_map l)"

definition pm_window :: "Side \<Rightarrow> Price \<Rightarrow> Level \<Rightarrow> (Side \<Rightarrow> (Price \<times> Level) list) \<Rightarrow> PooledMapLadder \<Rightarrow> bool" where
  "pm_window s p lv K l \<longleftrightarrow> ml_window s p lv K (pm_map l)"

interpretation pm: ladder pm_valid_price pm_get_or_create pm_on_level_empty pm_best pm_visit pm_deref
  pm_store pm_inv pm_side pm_window
proof
  fix l s p lv lv' K
  show "pm_inv l \<Longrightarrow> ladder_sorted s (pm_side l s)"
    using ml.sorted_law [of "pm_map l" s] by (simp add: pm_inv_def pm_map_simps)
  show "pm_inv l \<Longrightarrow> (p, lv) \<in> set (pm_side l s) \<Longrightarrow>
      lvl_price lv = p \<and> lvl_order_count lv \<noteq> 0 \<and> pm_valid_price l p"
    using ml.entry_law [of "pm_map l" p lv s] by (simp add: pm_inv_def pm_map_simps pm_valid_price_def)
  show "pm_inv l \<Longrightarrow> pm_best s l = map_option (\<lambda>(p, _). (s, p)) (first_of (pm_side l s))"
    using ml.best_law [of "pm_map l" s] by (simp add: pm_inv_def pm_map_simps)
  show "pm_inv l \<Longrightarrow> pm_visit s l = Some (map snd (pm_side l s))"
    using ml.visit_law [of "pm_map l" s] by (simp add: pm_inv_def pm_map_simps)
  show "pm_inv l \<Longrightarrow> (p, lv) \<in> set (pm_side l s) \<Longrightarrow> pm_window s p lv (pm_side l) l"
    using ml.open_law [of "pm_map l" p lv s] by (simp add: pm_inv_def pm_window_def pm_map_simps)
  show "pm_inv l \<Longrightarrow> \<exists>l'. pm_get_or_create s p l = Some ((s, p), l')
    \<and> pm_window s p (case map_of (pm_side l s) p of Some lv \<Rightarrow> lv | None \<Rightarrow> fresh_level p) (pm_side l) l'
    \<and> pm_valid_price l' = pm_valid_price l"
    using ml.create_law [of "pm_map l" p s]
    by (auto simp: pm_inv_def pm_window_def pm_map_simps pm_valid_price_def ml_valid_price_def fun_eq_iff)
  show "pm_window s p lv K l \<Longrightarrow> pm_deref (s, p) l = Some lv"
    using ml.deref_law [of s p lv K "pm_map l"] by (simp add: pm_window_def pm_map_simps)
  show "pm_window s p lv K l \<Longrightarrow> lvl_price lv' = p \<Longrightarrow> pm_window s p lv' K (pm_store (s, p) lv' l)"
    using ml.store_law [of s p lv K "pm_map l" lv'] by (simp add: pm_window_def pm_map_simps)
  show "pm_valid_price (pm_store r lv l) = pm_valid_price l" for r
    by (simp add: pm_valid_price_def fun_eq_iff)
  show "pm_window s p lv K l \<Longrightarrow> lvl_order_count lv \<noteq> 0 \<Longrightarrow>
      pm_inv l \<and> pm_side l = K(s := put s p lv (K s))"
    using ml.close_law [of s p lv K "pm_map l"] by (simp add: pm_window_def pm_inv_def pm_map_simps)
  show "pm_window s p (fresh_level p) K l \<Longrightarrow> \<exists>l'. pm_on_level_empty s (s, p) l = Some l' \<and> pm_inv l'
      \<and> pm_side l' = K(s := del p (K s)) \<and> pm_valid_price l' = pm_valid_price l"
    using ml.empty_law [of s p K "pm_map l"]
    by (auto simp: pm_window_def pm_inv_def pm_map_simps pm_valid_price_def fun_eq_iff)
qed

lemma pm_new_ok: "pm_inv pm_new" "pm_side pm_new = (\<lambda>_. [])"
  using ml_new_ok by (simp_all add: pm_inv_def pm_new_def pm_map_def ml_new_def fun_eq_iff pm_side_def)

subsection \<open>The caches stay bounded\<close>

definition pm_bounded :: "PooledMapLadder \<Rightarrow> bool" where
  "pm_bounded l \<longleftrightarrow> length (pm_bid_cache l) \<le> kMaxCached \<and> length (pm_ask_cache l) \<le> kMaxCached"

lemma pm_get_in_cache: "length (snd (pm_get_in cmp m cache p)) \<le> length cache"
  by (auto simp: pm_get_in_def split: option.split)

lemma pm_park_cache: "length cache \<le> kMaxCached \<Longrightarrow> length (snd (pm_park m cache p)) \<le> kMaxCached"
  by (auto simp: pm_park_def split: option.split)

lemma pm_bounded_steps:
  assumes "pm_bounded l"
  shows "pm_get_or_create s p l = Some (r, l') \<Longrightarrow> pm_bounded l'"
    and "pm_on_level_empty s r l = Some l' \<Longrightarrow> pm_bounded l'"
    and "pm_bounded (pm_store r lv l)"
proof -
  show "pm_get_or_create s p l = Some (r, l') \<Longrightarrow> pm_bounded l'"
    using assms pm_get_in_cache [of s _ _ p] le_trans
    by (auto simp: pm_get_or_create_def pm_bounded_def split_beta split: if_splits)
      (metis pm_get_in_cache le_trans)+
  show "pm_on_level_empty s r l = Some l' \<Longrightarrow> pm_bounded l'"
    using assms pm_park_cache
    by (auto simp: pm_on_level_empty_def pm_bounded_def split_beta split: bind_splits if_splits)
  show "pm_bounded (pm_store r lv l)" using assms by (simp add: pm_bounded_def pm_store_def)
qed

end
