(* ===== verification/LadderDense.thy ===== *)
theory LadderDense
  imports Ladder
begin

text \<open>
  \<^verbatim>\<open>DenseLadder\<close> (\<^verbatim>\<open>include/pricetime/ladder_dense.hpp\<close>): per side an array of levels indexed by
  \<open>price - min\<close>, a cached best index and the number of active levels.  An access outside the array is
  undefined behaviour in the code and \<^term>\<open>None\<close> here; the two scanning loops carry the array size
  as fuel.
\<close>

record SideLadder =
  sd_levels :: "Level list"
  sd_best :: int
  sd_active :: u32

record DenseLadder =
  dl_min :: Price
  dl_max :: Price
  dl_sides :: "Side \<Rightarrow> SideLadder"

definition kNone :: int where
  "kNone = -1"

text \<open>The constructor; its assertion \<open>max_price >= min_price\<close> is a hypothesis of the lemmas.\<close>

definition dl_new :: "Price \<Rightarrow> Price \<Rightarrow> DenseLadder" where
  "dl_new min_price max_price =
     (let span = nat (max_price - min_price + 1);
          side = \<lparr>sd_levels = replicate span level_default, sd_best = kNone, sd_active = 0\<rparr>
      in \<lparr>dl_min = min_price, dl_max = max_price, dl_sides = (\<lambda>_. side)\<rparr>)"

definition dl_valid_price :: "DenseLadder \<Rightarrow> Price \<Rightarrow> bool" where
  "dl_valid_price l p \<longleftrightarrow> dl_min l \<le> p \<and> p \<le> dl_max l"

definition level_at :: "SideLadder \<Rightarrow> int \<Rightarrow> Level option" where
  "level_at sd i = (if 0 \<le> i \<and> nat i < length (sd_levels sd) then Some (sd_levels sd ! nat i) else None)"

definition better :: "Side \<Rightarrow> int \<Rightarrow> int \<Rightarrow> bool" where
  "better s a b = (if s = Bid then a > b else a < b)"

definition dl_get_or_create :: "Side \<Rightarrow> Price \<Rightarrow> DenseLadder \<Rightarrow> (level_ref \<times> DenseLadder) option" where
  "dl_get_or_create s p l = do {
     let sd = dl_sides l s;
     let idx = p - dl_min l;
     lvl \<leftarrow> level_at sd idx;
     let sd = (if lvl_order_count lvl = 0 then
                 (let sd = sd\<lparr>sd_levels := (sd_levels sd)[nat idx := lvl\<lparr>lvl_price := p\<rparr>]\<rparr>;
                      sd = sd\<lparr>sd_active := sd_active sd + 1\<rparr>
                  in if sd_best sd = kNone \<or> better s idx (sd_best sd) then sd\<lparr>sd_best := idx\<rparr> else sd)
               else sd);
     Some ((s, p), l\<lparr>dl_sides := (dl_sides l)(s := sd)\<rparr>) }"

definition dl_deref :: "level_ref \<Rightarrow> DenseLadder \<Rightarrow> Level option" where
  "dl_deref r l = level_at (dl_sides l (fst r)) (snd r - dl_min l)"

definition dl_store :: "level_ref \<Rightarrow> Level \<Rightarrow> DenseLadder \<Rightarrow> DenseLadder" where
  "dl_store r lv l =
     (let sd = dl_sides l (fst r)
      in l\<lparr>dl_sides := (dl_sides l)(fst r :=
             sd\<lparr>sd_levels := (sd_levels sd)[nat (snd r - dl_min l) := lv]\<rparr>)\<rparr>)"

text \<open>The \<^verbatim>\<open>do ... while\<close> scans of \<^verbatim>\<open>on_level_empty\<close>: downwards for bids, upwards for asks.\<close>

fun dl_scan :: "nat \<Rightarrow> Side \<Rightarrow> SideLadder \<Rightarrow> int \<Rightarrow> int option" where
  "dl_scan 0 s sd i = None"
| "dl_scan (Suc n) s sd i = do {
     let i = (if s = Bid then i - 1 else i + 1);
     lvl \<leftarrow> level_at sd i;
     if lvl_order_count lvl = 0 then dl_scan n s sd i else Some i }"

definition dl_on_level_empty :: "Side \<Rightarrow> level_ref \<Rightarrow> DenseLadder \<Rightarrow> DenseLadder option" where
  "dl_on_level_empty s r l = do {
     let sd = dl_sides l s;
     lvl \<leftarrow> dl_deref r l;
     let idx = lvl_price lvl - dl_min l;
     let sd = sd\<lparr>sd_active := sd_active sd - 1\<rparr>;
     sd \<leftarrow> (if sd_active sd = 0 then Some (sd\<lparr>sd_best := kNone\<rparr>)
           else if idx \<noteq> sd_best sd then Some sd
           else do {
             i \<leftarrow> dl_scan (length (sd_levels sd)) s sd (sd_best sd);
             Some (sd\<lparr>sd_best := i\<rparr>) });
     Some (l\<lparr>dl_sides := (dl_sides l)(s := sd)\<rparr>) }"

definition dl_best :: "Side \<Rightarrow> DenseLadder \<Rightarrow> level_ref option" where
  "dl_best s l =
     (let sd = dl_sides l s
      in if sd_best sd = kNone then None else Some (s, dl_min l + sd_best sd))"

text \<open>The loop of \<^verbatim>\<open>for_each_level\<close>: the active levels it reaches, until all have been seen.\<close>

fun dl_walk :: "nat \<Rightarrow> int \<Rightarrow> SideLadder \<Rightarrow> int \<Rightarrow> u32 \<Rightarrow> Level list option" where
  "dl_walk n step sd i seen =
     (if \<not> seen < sd_active sd then Some []
      else case n of 0 \<Rightarrow> None
      | Suc n \<Rightarrow> do {
          lvl \<leftarrow> level_at sd i;
          if lvl_order_count lvl \<noteq> 0
          then do { lvls \<leftarrow> dl_walk n step sd (i + step) (seen + 1); Some (lvl # lvls) }
          else dl_walk n step sd (i + step) seen })"

declare dl_walk.simps [simp del]

definition dl_visit :: "Side \<Rightarrow> DenseLadder \<Rightarrow> Level list option" where
  "dl_visit s l =
     (let sd = dl_sides l s
      in if sd_best sd = kNone then Some []
         else dl_walk (length (sd_levels sd)) (if s = Bid then -1 else 1) sd (sd_best sd) 0)"


subsection \<open>The invariant\<close>

text \<open>\<open>A\<close> is the set of slots the side counts as active: \<open>sd_active\<close> is its size and \<open>sd_best\<close> its best
  member.\<close>

definition counts :: "Side \<Rightarrow> nat set \<Rightarrow> SideLadder \<Rightarrow> bool" where
  "counts s A sd \<longleftrightarrow> sd_active sd = of_nat (card A)
     \<and> (if A = {} then sd_best sd = kNone
        else \<exists>b \<in> A. sd_best sd = int b \<and> (\<forall>a \<in> A. \<not> before s (int a) (int b)))"

definition busy :: "Level list \<Rightarrow> nat set" where
  "busy lvls = {j. j < length lvls \<and> lvl_order_count (lvls ! j) \<noteq> 0}"

text \<open>An inactive slot is empty up to a stale price, an active one knows its price.\<close>

definition slot_ok :: "Price \<Rightarrow> Level \<Rightarrow> bool" where
  "slot_ok p lv \<longleftrightarrow> (if lvl_order_count lv = 0 then lv\<lparr>lvl_price := p\<rparr> = fresh_level p else lvl_price lv = p)"

definition dense_view :: "Side \<Rightarrow> Price \<Rightarrow> Level list \<Rightarrow> (Price \<times> Level) list" where
  "dense_view s m lvls =
     (let xs = map (\<lambda>j. (m + int j, lvls ! j)) (filter (\<lambda>j. lvl_order_count (lvls ! j) \<noteq> 0) [0..<length lvls])
      in if s = Bid then rev xs else xs)"

definition dl_levels :: "DenseLadder \<Rightarrow> Side \<Rightarrow> (Price \<times> Level) list" where
  "dl_levels l s = dense_view s (dl_min l) (sd_levels (dl_sides l s))"

definition dl_range :: "DenseLadder \<Rightarrow> bool" where
  "dl_range l \<longleftrightarrow> dl_min l \<le> dl_max l \<and> nat (dl_max l - dl_min l + 1) < 2 ^ 32
     \<and> (\<forall>s. length (sd_levels (dl_sides l s)) = nat (dl_max l - dl_min l + 1))"

definition dside_ok :: "Side \<Rightarrow> Price \<Rightarrow> SideLadder \<Rightarrow> bool" where
  "dside_ok s m sd \<longleftrightarrow> counts s (busy (sd_levels sd)) sd
     \<and> (\<forall>j < length (sd_levels sd). slot_ok (m + int j) (sd_levels sd ! j))"

definition dl_inv :: "DenseLadder \<Rightarrow> bool" where
  "dl_inv l \<longleftrightarrow> dl_range l \<and> (\<forall>s. dside_ok s (dl_min l) (dl_sides l s))"

definition dl_window :: "Side \<Rightarrow> Price \<Rightarrow> Level \<Rightarrow> (Side \<Rightarrow> (Price \<times> Level) list) \<Rightarrow> DenseLadder \<Rightarrow> bool" where
  "dl_window s p lv K l \<longleftrightarrow> dl_range l \<and> dl_valid_price l p \<and> lvl_price lv = p
     \<and> dside_ok (opposite s) (dl_min l) (dl_sides l (opposite s)) \<and> K (opposite s) = dl_levels l (opposite s)
     \<and> ladder_sorted s (K s) \<and> del p (K s) = del p (dl_levels l s)
     \<and> (let sd = dl_sides l s; i = nat (p - dl_min l) in
          sd_levels sd ! i = lv \<and> counts s (insert i (busy (sd_levels sd))) sd
          \<and> (\<forall>j < length (sd_levels sd). j \<noteq> i \<longrightarrow> slot_ok (dl_min l + int j) (sd_levels sd ! j)))"

lemma better_before: "better s a b = before s a b"
  by (simp add: better_def before_def)

lemma before_shift [simp]: "before s (m + a) (m + b) = before s a b"
  by (simp add: before_def)

lemma busy_finite [simp]: "finite (busy lvls)"
  by (simp add: busy_def)

lemma busy_update:
  "i < length lvls \<Longrightarrow> busy (lvls[i := lv]) = (if lvl_order_count lv \<noteq> 0 then insert i (busy lvls) else busy lvls - {i})"
  by (auto simp: busy_def nth_list_update)

lemma dense_view_sorted: "ladder_sorted s (dense_view s m lvls)"
proof -
  have "sorted_wrt (<) (map (\<lambda>j. m + int j) (filter (\<lambda>j. lvl_order_count (lvls ! j) \<noteq> 0) [0..<length lvls]))"
    by (simp add: sorted_wrt_map sorted_wrt_filter)
  moreover have "before Ask = (<)" "before Bid = (>)" by (auto simp: fun_eq_iff before_def)
  ultimately show ?thesis
    by (cases s) (simp_all add: ladder_sorted_def dense_view_def Let_def comp_def rev_map [symmetric]
        sorted_wrt_rev)
qed

lemma dense_view_set: "set (dense_view s m lvls) = (\<lambda>j. (m + int j, lvls ! j)) ` busy lvls"
  by (auto simp: dense_view_def Let_def busy_def)

lemma dense_view_update:
  assumes "i < length lvls" and "p = m + int i"
  shows "lvl_order_count lv \<noteq> 0 \<Longrightarrow> dense_view s m (lvls[i := lv]) = put s p lv (dense_view s m lvls)"
    and "del p (dense_view s m (lvls[i := lv])) = del p (dense_view s m lvls)"
  using assms
  by (intro ladder_sorted_unique [of s];
      auto simp: dense_view_sorted dense_view_set set_put set_del busy_update nth_list_update image_iff;
      metis)+


lemma dense_view_first:
  assumes "b \<in> busy lvls" and "\<forall>a \<in> busy lvls. \<not> before s (int a) (int b)"
  shows "first_of (dense_view s m lvls) = Some (m + int b, lvls ! b)"
  using assms by (intro ladder_sorted_first [OF dense_view_sorted]) (auto simp: dense_view_set)

lemma dense_view_empty: "busy lvls = {} \<Longrightarrow> dense_view s m lvls = []"
  using dense_view_set [of s m lvls] by auto

subsection \<open>The two loops\<close>

lemma dl_scan_spec:
  assumes "b \<in> busy (sd_levels sd)" and "0 \<le> i" and "nat i < length (sd_levels sd)"
    and "before s i (int b)"
    and "\<forall>a \<in> busy (sd_levels sd). before s i (int a) \<longrightarrow> \<not> before s (int a) (int b)"
    and "nat \<bar>int b - i\<bar> \<le> n"
  shows "dl_scan n s sd i = Some (int b)"
  using assms
proof (induction n arbitrary: i)
  case 0
  then show ?case by (auto simp: before_def)
next
  case (Suc n)
  let ?i = "if s = Bid then i - 1 else i + 1"
  have b: "b < length (sd_levels sd)" "lvl_order_count (sd_levels sd ! b) \<noteq> 0"
    using Suc.prems(1) by (auto simp: busy_def)
  have ir: "0 \<le> ?i" "nat ?i < length (sd_levels sd)" "before s i ?i"
    using Suc.prems(2-4) b(1) by (auto simp: before_def split: if_splits)
  show ?case
  proof (cases "?i = int b")
    case True
    then show ?thesis using b by (simp add: level_at_def Let_def)
  next
    case False
    then have ib: "before s ?i (int b)"
      using Suc.prems(4) by (auto simp: before_def split: if_splits)
    then have "nat ?i \<notin> busy (sd_levels sd)"
      using Suc.prems(5) ir by (metis nat_0_le)
    then have z: "lvl_order_count (sd_levels sd ! nat ?i) = 0"
      using ir by (simp add: busy_def)
    have "dl_scan n s sd ?i = Some (int b)"
    proof (rule Suc.IH [OF Suc.prems(1) ir(1,2) ib])
      show "\<forall>a\<in>busy (sd_levels sd). before s ?i (int a) \<longrightarrow> \<not> before s (int a) (int b)"
        using Suc.prems(5) ir(3) before_trans by metis
      show "nat \<bar>int b - ?i\<bar> \<le> n"
        using Suc.prems(4,6) False by (auto simp: before_def split: if_splits)
    qed
    moreover have "level_at sd ?i = Some (sd_levels sd ! nat ?i)" using ir by (simp add: level_at_def)
    ultimately show ?thesis using z by (simp add: Let_def)
  qed
qed

text \<open>The slots still ahead of the walk: upwards from \<open>i\<close>, or downwards from \<open>i - 1\<close>.\<close>

abbreviation act :: "SideLadder \<Rightarrow> nat \<Rightarrow> bool" where
  "act sd j \<equiv> lvl_order_count (sd_levels sd ! j) \<noteq> 0"

lemma walk_seen:
  assumes "sd_active sd = of_nat m" and "m < 2 ^ 32" and "k \<le> m"
  shows "(of_nat k :: u32) < sd_active sd \<longleftrightarrow> k < m"
  using assms by (simp add: word_less_nat_alt unat_of_nat_u32)

lemma dl_walk_up:
  assumes "sd_active sd = of_nat m" and "m < 2 ^ 32" and "i \<le> length (sd_levels sd)"
    and "k + length (filter (act sd) [i..<length (sd_levels sd)]) = m"
    and "length (sd_levels sd) - i \<le> n"
  shows "dl_walk n 1 sd (int i) (of_nat k)
    = Some (map (\<lambda>j. sd_levels sd ! j) (filter (act sd) [i..<length (sd_levels sd)]))"
  using assms
proof (induction n arbitrary: i k)
  case 0
  then have "k = m" by simp
  then show ?case using 0 by (subst dl_walk.simps) (simp add: walk_seen)
next
  case (Suc n)
  let ?N = "length (sd_levels sd)"
  show ?case
  proof (cases "k < m")
    case False
    then have "filter (act sd) [i..<?N] = []" "k = m" using Suc.prems(4) by auto
    then show ?thesis using Suc.prems by (subst dl_walk.simps) (simp add: walk_seen)
  next
    case True
    then have iN: "i < ?N" using Suc.prems(3,4) by (cases "i = ?N") auto
    then have up: "[i..<?N] = i # [Suc i..<?N]" by (simp add: upt_rec)
    have lt: "(of_nat k :: u32) < sd_active sd" using True walk_seen [OF Suc.prems(1,2), of k] by simp
    have at: "level_at sd (int i) = Some (sd_levels sd ! i)" using iN by (simp add: level_at_def)
    have nx: "int i + 1 = int (Suc i)" "(of_nat k + 1 :: u32) = of_nat (Suc k)" by simp_all
    show ?thesis
    proof (cases "act sd i")
      case a: True
      have "dl_walk n 1 sd (int (Suc i)) (of_nat (Suc k))
          = Some (map (\<lambda>j. sd_levels sd ! j) (filter (act sd) [Suc i..<?N]))"
        using Suc.prems iN a up by (intro Suc.IH) auto
      then show ?thesis
        using lt at a up by (subst dl_walk.simps) (simp del: of_nat_Suc add: nx)
    next
      case a: False
      have "dl_walk n 1 sd (int (Suc i)) (of_nat k)
          = Some (map (\<lambda>j. sd_levels sd ! j) (filter (act sd) [Suc i..<?N]))"
        using Suc.prems iN a up by (intro Suc.IH) auto
      then show ?thesis
        using lt at a up by (subst dl_walk.simps) (simp del: of_nat_Suc add: nx)
    qed
  qed
qed

lemma dl_walk_down:
  assumes "sd_active sd = of_nat m" and "m < 2 ^ 32" and "i \<le> length (sd_levels sd)"
    and "k + length (filter (act sd) (rev [0..<i])) = m"
    and "i \<le> n"
  shows "dl_walk n (-1) sd (int i - 1) (of_nat k)
    = Some (map (\<lambda>j. sd_levels sd ! j) (filter (act sd) (rev [0..<i])))"
  using assms
proof (induction n arbitrary: i k)
  case 0
  then have "k = m" by simp
  then show ?case using 0 by (subst dl_walk.simps) (simp add: walk_seen)
next
  case (Suc n)
  show ?case
  proof (cases "k < m")
    case False
    then have "filter (act sd) (rev [0..<i]) = []" "k = m" using Suc.prems(4) by auto
    then show ?thesis using Suc.prems by (subst dl_walk.simps) (simp add: walk_seen)
  next
    case True
    then obtain j where i: "i = Suc j" using Suc.prems(4) by (cases i) auto
    have lt: "(of_nat k :: u32) < sd_active sd" using True walk_seen [OF Suc.prems(1,2), of k] by simp
    have at: "level_at sd (int j) = Some (sd_levels sd ! j)"
      using Suc.prems(3) i by (simp add: level_at_def)
    have nx: "int (Suc j) - 1 = int j" "int j + - 1 = int j - 1" "(of_nat k + 1 :: u32) = of_nat (Suc k)"
      by simp_all
    show ?thesis
    proof (cases "act sd j")
      case a: True
      have "dl_walk n (-1) sd (int j - 1) (of_nat (Suc k))
          = Some (map (\<lambda>j. sd_levels sd ! j) (filter (act sd) (rev [0..<j])))"
        using Suc.prems i a by (intro Suc.IH) auto
      then show ?thesis
        using lt at a by (subst dl_walk.simps) (simp del: of_nat_Suc add: i nx)
    next
      case a: False
      have "dl_walk n (-1) sd (int j - 1) (of_nat k)
          = Some (map (\<lambda>j. sd_levels sd ! j) (filter (act sd) (rev [0..<j])))"
        using Suc.prems i a by (intro Suc.IH) auto
      then show ?thesis
        using lt at a by (subst dl_walk.simps) (simp del: of_nat_Suc add: i nx)
    qed
  qed
qed

lemma busy_card: "card (busy (sd_levels sd)) = length (filter (act sd) [0..<length (sd_levels sd)])"
proof -
  have "busy (sd_levels sd) = set (filter (act sd) [0..<length (sd_levels sd)])"
    by (auto simp: busy_def)
  moreover have "distinct (filter (act sd) [0..<length (sd_levels sd)])" by simp
  ultimately show ?thesis by (metis distinct_card)
qed

lemma dl_visit_law:
  assumes inv: "dl_inv l"
  shows "dl_visit s l = Some (map snd (dl_levels l s))"
proof -
  let ?sd = "dl_sides l s" let ?lvls = "sd_levels (dl_sides l s)" let ?A = "busy (sd_levels (dl_sides l s))"
  have c: "counts s ?A ?sd" and rng: "length ?lvls < 2 ^ 32"
    using inv by (simp_all add: dl_inv_def dside_ok_def dl_range_def)
  have len: "length (filter (act ?sd) [0..<length ?lvls]) \<le> length ?lvls"
    using length_filter_le [of "act ?sd" "[0..<length ?lvls]"] by simp
  have act: "sd_active ?sd = of_nat (length (filter (act ?sd) [0..<length ?lvls]))"
    using c by (simp add: counts_def busy_card)
  show ?thesis
  proof (cases "?A = {}")
    case True
    then show ?thesis
      using c by (simp add: dl_visit_def counts_def dl_levels_def dense_view_empty)
  next
    case False
    then obtain b where b: "b \<in> ?A" "sd_best ?sd = int b" "\<forall>a\<in>?A. \<not> before s (int a) (int b)"
      using c by (auto simp: counts_def)
    have bl: "b < length ?lvls" using b(1) by (simp add: busy_def)
    have dv: "map snd (dl_levels l s) = map (\<lambda>j. ?lvls ! j) (filter (act ?sd)
        (if s = Bid then rev [0..<length ?lvls] else [0..<length ?lvls]))"
      by (simp add: dl_levels_def dense_view_def Let_def rev_map [symmetric] rev_filter [symmetric] comp_def)
    have split: "[0..<length ?lvls] = [0..<b] @ [b..<length ?lvls]"
      "[0..<length ?lvls] = [0..<Suc b] @ [Suc b..<length ?lvls]"
      using bl upt_add_eq_append [of 0 b "length ?lvls - b"] by (simp_all add: upt_conv_Cons)
    show ?thesis
    proof (cases s)
      case Bid
      have none: "filter (act ?sd) [Suc b..<length ?lvls] = []"
        using b(3) Bid by (auto simp: filter_empty_conv busy_def before_def)
      have "dl_walk (length ?lvls) (-1) ?sd (int (Suc b) - 1) (of_nat 0)
          = Some (map (\<lambda>j. ?lvls ! j) (filter (act ?sd) (rev [0..<Suc b])))"
      proof (rule dl_walk_down)
        show "sd_active ?sd = of_nat (length (filter (act ?sd) [0..<length ?lvls]))" by (rule act)
        show "length (filter (act ?sd) [0..<length ?lvls]) < 2 ^ 32" using len rng by linarith
        show "0 + length (filter (act ?sd) (rev [0..<Suc b])) = length (filter (act ?sd) [0..<length ?lvls])"
          unfolding split(2) filter_append none rev_filter [symmetric] by simp
      qed (use bl in auto)
      moreover have "filter (act ?sd) (rev [0..<length ?lvls]) = filter (act ?sd) (rev [0..<Suc b])"
        unfolding split(2) rev_append filter_append using none by (simp add: rev_filter [symmetric])
      ultimately show ?thesis
        using Bid b(2) unfolding dv by (simp add: dl_visit_def Let_def kNone_def)
    next
      case Ask
      have none: "filter (act ?sd) [0..<b] = []"
        using b(3) Ask bl by (auto simp: filter_empty_conv busy_def before_def) (metis less_trans)
      have "dl_walk (length ?lvls) 1 ?sd (int b) (of_nat 0)
          = Some (map (\<lambda>j. ?lvls ! j) (filter (act ?sd) [b..<length ?lvls]))"
      proof (rule dl_walk_up)
        show "sd_active ?sd = of_nat (length (filter (act ?sd) [0..<length ?lvls]))" by (rule act)
        show "length (filter (act ?sd) [0..<length ?lvls]) < 2 ^ 32" using len rng by linarith
        show "0 + length (filter (act ?sd) [b..<length ?lvls]) = length (filter (act ?sd) [0..<length ?lvls])"
          unfolding split(1) filter_append none by simp
      qed (use bl in auto)
      moreover have "filter (act ?sd) [0..<length ?lvls] = filter (act ?sd) [b..<length ?lvls]"
        unfolding split(1) filter_append using none by simp
      ultimately show ?thesis
        using Ask b(2) unfolding dv by (simp add: dl_visit_def Let_def kNone_def)
    qed
  qed
qed


subsection \<open>Opening and closing a level\<close>

lemma counts_insert:
  assumes c: "counts s A sd" and fin: "finite A"
    and a: "i \<notin> A" and sd': "sd_active sd' = sd_active sd + 1"
    and best: "sd_best sd' = (if sd_best sd = kNone \<or> better s (int i) (sd_best sd) then int i else sd_best sd)"
  shows "counts s (insert i A) sd'"
proof (cases "A = {}")
  case True
  then show ?thesis using c sd' best by (simp add: counts_def kNone_def)
next
  case False
  then obtain b where b: "b \<in> A" "sd_best sd = int b" "\<forall>a \<in> A. \<not> before s (int a) (int b)"
    using c by (auto simp: counts_def)
  have nb: "sd_best sd \<noteq> kNone" using b by (simp add: kNone_def)
  have "sd_active sd' = of_nat (card (insert i A))" using c a sd' fin by (simp add: counts_def)
  moreover have "\<exists>b' \<in> insert i A. sd_best sd' = int b' \<and> (\<forall>a \<in> insert i A. \<not> before s (int a) (int b'))"
  proof (cases "before s (int i) (int b)")
    case True
    then have "\<forall>a \<in> insert i A. \<not> before s (int a) (int i)"
      using b(3) before_trans by (metis before_irrefl insertE)
    then show ?thesis using True best nb b by (auto simp: better_before)
  next
    case False
    then show ?thesis using best nb b by (auto simp: better_before intro!: bexI [of _ b])
  qed
  ultimately show ?thesis by (simp add: counts_def)
qed

lemma dl_slot:
  assumes "dl_range l" and "dl_valid_price l p"
  shows "nat (p - dl_min l) < length (sd_levels (dl_sides l s))"
    and "level_at (dl_sides l s) (p - dl_min l) = Some (sd_levels (dl_sides l s) ! nat (p - dl_min l))"
  using assms by (auto simp: dl_range_def dl_valid_price_def level_at_def)

lemma dl_slot_price: "dl_valid_price l p \<Longrightarrow> dl_min l + int (nat (p - dl_min l)) = p"
  by (simp add: dl_valid_price_def)

lemma dl_slot_unique:
  assumes "dl_range l" and "dl_valid_price l p"
  shows "dl_min l + int j = p \<longleftrightarrow> j = nat (p - dl_min l)"
  using assms by (auto simp: dl_range_def dl_valid_price_def)

lemma dl_inv_sides:
  assumes "dl_inv l"
  shows "dl_range l" and "dside_ok s (dl_min l) (dl_sides l s)"
  using assms by (simp_all add: dl_inv_def)

lemma dl_view_entry:
  assumes inv: "dl_inv l" and e: "(p, lv) \<in> set (dl_levels l s)"
  shows "dl_valid_price l p" and "lvl_price lv = p" and "lvl_order_count lv \<noteq> 0"
    and "sd_levels (dl_sides l s) ! nat (p - dl_min l) = lv"
    and "nat (p - dl_min l) \<in> busy (sd_levels (dl_sides l s))"
proof -
  obtain j where j: "j \<in> busy (sd_levels (dl_sides l s))" "p = dl_min l + int j"
    "lv = sd_levels (dl_sides l s) ! j"
    using e by (auto simp: dl_levels_def dense_view_set)
  have "j < length (sd_levels (dl_sides l s))" "lvl_order_count lv \<noteq> 0"
    using j by (simp_all add: busy_def)
  moreover have "slot_ok p lv"
    using dl_inv_sides(2) [OF inv, of s] j(2,3) calculation(1) by (simp add: dside_ok_def)
  ultimately show "dl_valid_price l p" "lvl_price lv = p" "lvl_order_count lv \<noteq> 0"
    using dl_inv_sides(1) [OF inv] j(2) by (auto simp: dl_range_def dl_valid_price_def slot_ok_def)
  show "sd_levels (dl_sides l s) ! nat (p - dl_min l) = lv"
    "nat (p - dl_min l) \<in> busy (sd_levels (dl_sides l s))"
    using j by simp_all
qed

lemma dl_open_law:
  assumes inv: "dl_inv l" and e: "(p, lv) \<in> set (dl_levels l s)"
  shows "dl_window s p lv (dl_levels l) l"
proof -
  note v = dl_view_entry [OF inv e]
  have "counts s (busy (sd_levels (dl_sides l s))) (dl_sides l s)"
    using dl_inv_sides(2) [OF inv] by (simp add: dside_ok_def)
  moreover have "\<forall>j < length (sd_levels (dl_sides l s)). slot_ok (dl_min l + int j) (sd_levels (dl_sides l s) ! j)"
    using dl_inv_sides(2) [OF inv, of s] by (simp add: dside_ok_def)
  ultimately show ?thesis
    using dl_inv_sides [OF inv] v
    by (simp add: dl_window_def Let_def insert_absorb dense_view_sorted dl_levels_def [of l s])
qed

lemma dl_create_law:
  assumes inv: "dl_inv l" and p: "dl_valid_price l p"
  shows "\<exists>l'. dl_get_or_create s p l = Some ((s, p), l')
    \<and> dl_window s p (case map_of (dl_levels l s) p of Some lv \<Rightarrow> lv | None \<Rightarrow> fresh_level p) (dl_levels l) l'
    \<and> dl_valid_price l' = dl_valid_price l"
proof -
  let ?sd = "dl_sides l s" and ?i = "nat (p - dl_min l)"
  note rng = dl_inv_sides(1) [OF inv]
  note slot = dl_slot [OF rng p, of s] and sp = dl_slot_price [OF p]
  let ?lv = "sd_levels ?sd ! ?i"
  have ok: "dside_ok s (dl_min l) ?sd" by (rule dl_inv_sides(2) [OF inv])
  show ?thesis
  proof (cases "lvl_order_count ?lv = 0")
    case True
    let ?sd' = "let sd = ?sd\<lparr>sd_levels := (sd_levels ?sd)[?i := ?lv\<lparr>lvl_price := p\<rparr>]\<rparr>;
                   sd = sd\<lparr>sd_active := sd_active sd + 1\<rparr>
               in if sd_best sd = kNone \<or> better s (p - dl_min l) (sd_best sd)
                  then sd\<lparr>sd_best := p - dl_min l\<rparr> else sd"
    let ?l = "l\<lparr>dl_sides := (dl_sides l)(s := ?sd')\<rparr>"
    have get: "dl_get_or_create s p l = Some ((s, p), ?l)"
      using slot(2) True by (simp add: dl_get_or_create_def Let_def)
    have lvls: "sd_levels ?sd' = (sd_levels ?sd)[?i := ?lv\<lparr>lvl_price := p\<rparr>]"
      by (simp add: Let_def)
    have fresh: "?lv\<lparr>lvl_price := p\<rparr> = fresh_level p"
      using ok True slot(1) sp by (auto simp: dside_ok_def slot_ok_def)
    then have fz: "lvl_order_count (?lv\<lparr>lvl_price := p\<rparr>) = 0"
      by (simp add: fresh_level_def level_default_def)
    have ib: "?i \<notin> busy (sd_levels ?sd)" using True by (simp add: busy_def)
    have b: "busy (sd_levels ?sd') = busy (sd_levels ?sd)"
      unfolding lvls using slot(1) fz ib by (simp add: busy_update)
    have none: "map_of (dl_levels l s) p = None"
      using ib dl_slot_unique [OF rng p] by (auto simp: map_of_eq_None_iff dl_levels_def dense_view_set)
    have "counts s (insert ?i (busy (sd_levels ?sd'))) ?sd'"
      unfolding b
    proof (rule counts_insert [of s _ ?sd])
      show "counts s (busy (sd_levels ?sd)) ?sd" using ok by (simp add: dside_ok_def)
      show "sd_best ?sd' = (if sd_best ?sd = kNone \<or> better s (int ?i) (sd_best ?sd) then int ?i else sd_best ?sd)"
        using p by (simp add: Let_def dl_valid_price_def)
    qed (use ib in \<open>simp_all add: Let_def\<close>)
    moreover have "del p (dl_levels l s) = del p (dl_levels ?l s)"
      unfolding dl_levels_def using dense_view_update(2) [OF slot(1) sp [symmetric]] lvls by simp
    moreover have "dl_range ?l" using rng lvls by (simp add: dl_range_def)
    moreover have "\<forall>j < length (sd_levels ?sd'). j \<noteq> ?i \<longrightarrow> slot_ok (dl_min l + int j) (sd_levels ?sd' ! j)"
      using ok lvls by (simp add: dside_ok_def)
    moreover have "dside_ok (opposite s) (dl_min l) (dl_sides l (opposite s))"
      by (rule dl_inv_sides(2) [OF inv])
    moreover have "dl_levels ?l (opposite s) = dl_levels l (opposite s)" by (simp add: dl_levels_def)
    moreover have "ladder_sorted s (dl_levels l s)" by (simp add: dl_levels_def dense_view_sorted)
    moreover have "sd_levels ?sd' ! ?i = fresh_level p" using lvls slot(1) fresh by simp
    moreover have "dl_valid_price ?l = dl_valid_price l" by (simp add: dl_valid_price_def fun_eq_iff)
    ultimately have "dl_window s p (fresh_level p) (dl_levels l) ?l" and "dl_valid_price ?l = dl_valid_price l"
      using p by (simp_all only: dl_window_def, simp_all add: Let_def fresh_level_def)
    then show ?thesis using get none by simp
  next
    case False
    let ?l = "l\<lparr>dl_sides := (dl_sides l)(s := ?sd)\<rparr>"
    have get: "dl_get_or_create s p l = Some ((s, p), ?l)"
      using slot(2) False by (simp add: dl_get_or_create_def Let_def)
    have e: "(p, ?lv) \<in> set (dl_levels l s)"
      using False slot(1) sp by (auto simp: dl_levels_def dense_view_set busy_def intro!: image_eqI [of _ _ ?i])
    then have "map_of (dl_levels l s) p = Some ?lv"
      by (intro map_of_member [of s]) (simp_all add: dl_levels_def dense_view_sorted)
    then show ?thesis using dl_open_law [OF inv e] get by simp
  qed
qed


lemma dl_windowD:
  assumes "dl_window s p lv K l"
  shows "dl_range l" and "dl_valid_price l p" and "lvl_price lv = p"
    and "dside_ok (opposite s) (dl_min l) (dl_sides l (opposite s))" and "K (opposite s) = dl_levels l (opposite s)"
    and "ladder_sorted s (K s)" and "del p (K s) = del p (dl_levels l s)"
    and "sd_levels (dl_sides l s) ! nat (p - dl_min l) = lv"
    and "counts s (insert (nat (p - dl_min l)) (busy (sd_levels (dl_sides l s)))) (dl_sides l s)"
    and "\<And>j. j < length (sd_levels (dl_sides l s)) \<Longrightarrow> j \<noteq> nat (p - dl_min l) \<Longrightarrow>
      slot_ok (dl_min l + int j) (sd_levels (dl_sides l s) ! j)"
  using assms by (simp_all add: dl_window_def Let_def)

lemma dl_deref_law: "dl_window s p lv K l \<Longrightarrow> dl_deref (s, p) l = Some lv"
  using dl_windowD [of s p lv K l] dl_slot(2) [of l p s] by (simp add: dl_deref_def)

lemma counts_levels [simp]: "counts s A (sd\<lparr>sd_levels := lvls\<rparr>) = counts s A sd"
  by (simp add: counts_def)

lemma dl_store_law:
  assumes w: "dl_window s p lv K l" and lv': "lvl_price lv' = p"
  shows "dl_window s p lv' K (dl_store (s, p) lv' l)"
proof -
  let ?i = "nat (p - dl_min l)" and ?sd = "dl_sides l s"
  note d = dl_windowD [OF w]
  have il: "?i < length (sd_levels ?sd)" by (rule dl_slot(1) [OF d(1,2)])
  have "insert ?i (busy ((sd_levels ?sd)[?i := lv'])) = insert ?i (busy (sd_levels ?sd))"
    using il by (auto simp: busy_update)
  moreover have "del p (dense_view s (dl_min l) ((sd_levels ?sd)[?i := lv'])) = del p (dl_levels l s)"
    unfolding dl_levels_def by (rule dense_view_update(2) [OF il dl_slot_price [OF d(2), symmetric]])
  ultimately show ?thesis
    using d il lv' by (simp add: dl_window_def dl_store_def Let_def dl_levels_def dl_range_def
        dl_valid_price_def)
qed

lemma dl_close_law:
  assumes w: "dl_window s p lv K l" and ne: "lvl_order_count lv \<noteq> 0"
  shows "dl_inv l \<and> dl_levels l = K(s := put s p lv (K s))"
proof -
  let ?i = "nat (p - dl_min l)" and ?sd = "dl_sides l s"
  note d = dl_windowD [OF w]
  have ib: "?i \<in> busy (sd_levels ?sd)" using dl_slot(1) [OF d(1,2), of s] d(8) ne by (simp add: busy_def)
  have sp: "dl_min l + int ?i = p" by (rule dl_slot_price [OF d(2)])
  have "slot_ok (dl_min l + int j) (sd_levels ?sd ! j)" if "j < length (sd_levels ?sd)" for j
    using d(10) [OF that] d(3,8) ne sp by (cases "j = ?i") (auto simp: slot_ok_def)
  then have "dside_ok s (dl_min l) ?sd"
    using d(9) ib by (simp add: dside_ok_def insert_absorb)
  then have inv: "dl_inv l"
    using d(1,4) side_neq_opposite by (metis dl_inv_def)
  have view: "ladder_sorted s (dl_levels l s)" by (simp add: dl_levels_def dense_view_sorted)
  have "(p, lv) \<in> set (dl_levels l s)"
    using ib sp d(8) by (auto simp: dl_levels_def dense_view_set intro!: image_eqI [of _ _ ?i])
  then have "dl_levels l s = put s p lv (del p (dl_levels l s))"
    using put_member [OF view] put_del [OF view] by simp
  also have "\<dots> = put s p lv (K s)" using d(6,7) put_del by metis
  finally have "dl_levels l t = (K(s := put s p lv (K s))) t" for t
    using d(5) by (cases "t = s") (auto simp: side_neq_opposite)
  then show ?thesis using inv by auto
qed

lemma dl_scan_cong: "sd_levels sd' = sd_levels sd \<Longrightarrow> dl_scan n s sd' i = dl_scan n s sd i"
  by (induction n arbitrary: i) (simp_all add: level_at_def Let_def)

lemma dl_scan_next:
  assumes A: "counts s (insert i (busy (sd_levels sd))) sd" and i: "i < length (sd_levels sd)"
    and z: "i \<notin> busy (sd_levels sd)" and ne: "busy (sd_levels sd) \<noteq> {}" and best: "sd_best sd = int i"
  shows "\<exists>b \<in> busy (sd_levels sd). dl_scan (length (sd_levels sd)) s sd (sd_best sd) = Some (int b)
    \<and> (\<forall>a \<in> busy (sd_levels sd). \<not> before s (int a) (int b))"
proof -
  let ?B = "busy (sd_levels sd)"
  have worse: "before s (int i) (int a)" if "a \<in> ?B" for a
    using A best that z before_total [of "int a" "int i" s] by (auto simp: counts_def)
  obtain b where b: "b \<in> ?B" "\<forall>a \<in> ?B. \<not> before s (int a) (int b)"
  proof (cases s)
    case Bid
    then have "\<forall>a \<in> ?B. \<not> before s (int a) (int (Max ?B))"
      using Max_ge [OF busy_finite] by (auto simp: before_def not_less)
    then show thesis using that Max_in [OF busy_finite ne] by blast
  next
    case Ask
    then have "\<forall>a \<in> ?B. \<not> before s (int a) (int (Min ?B))"
      using Min_le [OF busy_finite] by (auto simp: before_def not_less)
    then show thesis using that Min_in [OF busy_finite ne] by blast
  qed
  have "dl_scan (length (sd_levels sd)) s sd (int i) = Some (int b)"
    using b worse [OF b(1)] i by (intro dl_scan_spec) (auto simp: busy_def)
  then show ?thesis using b best by auto
qed

lemma dl_empty_law:
  assumes w: "dl_window s p (fresh_level p) K l"
  shows "\<exists>l'. dl_on_level_empty s (s, p) l = Some l' \<and> dl_inv l' \<and> dl_levels l' = K(s := del p (K s))
    \<and> dl_valid_price l' = dl_valid_price l"
proof -
  let ?i = "nat (p - dl_min l)" and ?sd = "dl_sides l s"
  let ?B = "busy (sd_levels ?sd)" and ?sd1 = "dl_sides l s\<lparr>sd_active := sd_active (dl_sides l s) - 1\<rparr>"
  note d = dl_windowD [OF w]
  have il: "?i < length (sd_levels ?sd)" by (rule dl_slot(1) [OF d(1,2)])
  have sp: "dl_min l + int ?i = p" by (rule dl_slot_price [OF d(2)])
  have idx: "p - dl_min l = int ?i" using sp by simp
  have z: "?i \<notin> ?B" using d(8) by (simp add: busy_def fresh_level_def level_default_def)
  have cB: "card ?B \<le> length (sd_levels ?sd)"
    by (rule order_trans [OF card_mono [of "{..<length (sd_levels ?sd)}"]]) (auto simp: busy_def)
  have small: "card ?B < 2 ^ 32" using cB d(1) by (simp add: dl_range_def)
  have act: "sd_active ?sd1 = of_nat (card ?B)" using d(9) z by (simp add: counts_def)
  then have act0: "sd_active ?sd1 = 0 \<longleftrightarrow> ?B = {}" using of_nat_u32_eq_0 [OF small] by simp
  have "\<exists>sd'. (if sd_active ?sd1 = 0 then Some (?sd1\<lparr>sd_best := kNone\<rparr>)
       else if p - dl_min l \<noteq> sd_best ?sd1 then Some ?sd1
       else do { i \<leftarrow> dl_scan (length (sd_levels ?sd1)) s ?sd1 (sd_best ?sd1); Some (?sd1\<lparr>sd_best := i\<rparr>) })
       = Some sd' \<and> counts s ?B sd' \<and> sd_levels sd' = sd_levels ?sd"
  proof (cases "?B = {}")
    case True
    then show ?thesis using act0 by (auto simp: counts_def)
  next
    case ne: False
    show ?thesis
    proof (cases "p - dl_min l = sd_best ?sd1")
      case False
      then obtain b where "b \<in> ?B" "sd_best ?sd = int b" "\<forall>a \<in> ?B. \<not> before s (int a) (int b)"
        using d(9) idx by (auto simp: counts_def)
      then have "counts s ?B ?sd1" using act ne by (auto simp: counts_def)
      then show ?thesis using False act0 ne by simp
    next
      case True
      have "dl_scan n s ?sd1 j = dl_scan n s ?sd j" for n j
        by (rule dl_scan_cong) simp
      moreover obtain b where "b \<in> ?B" "dl_scan (length (sd_levels ?sd)) s ?sd (sd_best ?sd) = Some (int b)"
        "\<forall>a \<in> ?B. \<not> before s (int a) (int b)"
        using dl_scan_next [OF d(9) il z ne] True idx by auto
      moreover have "counts s ?B (?sd1\<lparr>sd_best := int b\<rparr>)" using calculation act ne by (auto simp: counts_def)
      ultimately show ?thesis using True act0 ne by auto
    qed
  qed
  then obtain sd' where sd': "(if sd_active ?sd1 = 0 then Some (?sd1\<lparr>sd_best := kNone\<rparr>)
       else if p - dl_min l \<noteq> sd_best ?sd1 then Some ?sd1
       else do { i \<leftarrow> dl_scan (length (sd_levels ?sd1)) s ?sd1 (sd_best ?sd1); Some (?sd1\<lparr>sd_best := i\<rparr>) })
       = Some sd'" "counts s ?B sd'" "sd_levels sd' = sd_levels ?sd" by blast
  let ?l = "l\<lparr>dl_sides := (dl_sides l)(s := sd')\<rparr>"
  have "dl_on_level_empty s (s, p) l = Some ?l"
    by (simp only: dl_on_level_empty_def dl_deref_law [OF w] Let_def Option.bind_lunit d(3) sd'(1))
  moreover have "slot_ok (dl_min l + int j) (sd_levels ?sd ! j)" if "j < length (sd_levels ?sd)" for j
    using d(10) [OF that] d(8) sp
    by (cases "j = ?i") (auto simp: slot_ok_def fresh_level_def level_default_def)
  then have "dl_inv ?l"
    using d(1,4) sd'(2,3) side_neq_opposite by (auto simp: dl_inv_def dl_range_def dside_ok_def)
  moreover have "p \<notin> fst ` set (dl_levels l s)"
    using z dl_slot_unique [OF d(1,2)] by (auto simp: dl_levels_def dense_view_set)
  then have "dl_levels ?l t = (K(s := del p (K s))) t" for t
    using d(5,7) sd'(3) by (cases "t = s") (auto simp: side_neq_opposite dl_levels_def)
  then have "dl_levels ?l = K(s := del p (K s))" by blast
  moreover have "dl_valid_price ?l = dl_valid_price l" by (simp add: dl_valid_price_def fun_eq_iff)
  ultimately show ?thesis by blast
qed

lemma dl_best_law:
  assumes inv: "dl_inv l"
  shows "dl_best s l = map_option (\<lambda>(p, _). (s, p)) (first_of (dl_levels l s))"
proof (cases "busy (sd_levels (dl_sides l s)) = {}")
  case True
  then show ?thesis
    using dl_inv_sides(2) [OF inv, of s]
    by (simp add: dl_best_def dside_ok_def counts_def dl_levels_def dense_view_empty)
next
  case False
  then obtain b where "b \<in> busy (sd_levels (dl_sides l s))" "sd_best (dl_sides l s) = int b"
    "\<forall>a \<in> busy (sd_levels (dl_sides l s)). \<not> before s (int a) (int b)"
    using dl_inv_sides(2) [OF inv, of s] by (auto simp: dside_ok_def counts_def)
  then show ?thesis by (simp add: dl_best_def Let_def kNone_def dl_levels_def dense_view_first)
qed

interpretation dl: ladder dl_valid_price dl_get_or_create dl_on_level_empty dl_best dl_visit dl_deref
  dl_store dl_inv dl_levels dl_window
proof
  fix l s p lv
  show "dl_inv l \<Longrightarrow> (p, lv) \<in> set (dl_levels l s) \<Longrightarrow>
      lvl_price lv = p \<and> lvl_order_count lv \<noteq> 0 \<and> dl_valid_price l p"
    using dl_view_entry by blast
  show "dl_valid_price (dl_store r lv l) = dl_valid_price l" for r
    by (simp add: dl_valid_price_def dl_store_def Let_def fun_eq_iff)
  show "ladder_sorted s (dl_levels l s)"
    by (simp add: dl_levels_def dense_view_sorted)
qed (fact dl_best_law dl_visit_law dl_open_law dl_create_law dl_deref_law dl_store_law dl_close_law dl_empty_law)+

lemma dl_new_ok:
  assumes "min_price \<le> max_price" and "max_price - min_price + 1 < 2 ^ 32"
  shows "dl_inv (dl_new min_price max_price)" and "dl_levels (dl_new min_price max_price) = (\<lambda>_. [])"
proof -
  have b: "busy (replicate n level_default) = {}" for n by (auto simp: busy_def level_default_def)
  show "dl_inv (dl_new min_price max_price)"
    using assms b by (auto simp: dl_inv_def dl_range_def dl_new_def Let_def dside_ok_def counts_def
        slot_ok_def fresh_level_def level_default_def)
  show "dl_levels (dl_new min_price max_price) = (\<lambda>_. [])"
    using b by (auto simp: dl_levels_def dl_new_def Let_def dense_view_empty fun_eq_iff)
qed

end
