(* ===== verification/OpenAddressMap.thy ===== *)
theory OpenAddressMap
  imports IdMap
begin

text \<open>
  \<^verbatim>\<open>OpenAddressMap\<close> of \<^verbatim>\<open>include/pricetime/id_map.hpp\<close>: the table, its probing loops, rehashing
  and backward-shift deletion, then the proof that it implements the map contract: every probe
  ends, a stored key is found, and deletion leaves no key unreachable.
\<close>

definition kEmpty :: OrderId where
  "kEmpty = 0"

definition kInitialCapacity :: nat where
  "kInitialCapacity = 1024"

record 'v Slot =
  sl_key :: OrderId
  sl_value :: "'v option"

definition slot_default :: "'v Slot" where
  "slot_default = \<lparr>sl_key = kEmpty, sl_value = None\<rparr>"

record 'v OpenMap =
  om_slots :: "'v Slot list"
  om_mask :: u64
  om_size :: nat

text \<open>The probing loop of \<^verbatim>\<open>find\<close>, \<^verbatim>\<open>insert\<close>, \<^verbatim>\<open>erase\<close> and \<^verbatim>\<open>rehash\<close>: from slot \<open>i\<close> on, the first
  one that holds \<open>oid\<close> or is empty.\<close>

fun om_probe :: "nat \<Rightarrow> 'v Slot list \<Rightarrow> u64 \<Rightarrow> OrderId \<Rightarrow> u64 \<Rightarrow> u64 option" where
  "om_probe 0 sl msk oid i = None"
| "om_probe (Suc n) sl msk oid i =
     (if sl_key (sl ! unat i) = oid \<or> sl_key (sl ! unat i) = kEmpty then Some i
      else om_probe n sl msk oid ((i + 1) AND msk))"

definition om_find :: "'v OpenMap \<Rightarrow> OrderId \<Rightarrow> 'v option option" where
  "om_find m oid = do {
     i \<leftarrow> om_probe (length (om_slots m)) (om_slots m) (om_mask m) oid (splitmix_finalize oid AND om_mask m);
     let s = om_slots m ! unat i;
     if sl_key s = oid then Some (sl_value s) else Some None }"

text \<open>The loop of \<^verbatim>\<open>rehash\<close> over the old slots.\<close>

fun om_reinsert :: "'v Slot list \<Rightarrow> u64 \<Rightarrow> 'v Slot list \<Rightarrow> 'v Slot list option" where
  "om_reinsert [] msk sl = Some sl"
| "om_reinsert (s # old) msk sl =
     (if sl_key s = kEmpty then om_reinsert old msk sl
      else do {
        i \<leftarrow> om_probe (length sl) sl msk kEmpty (splitmix_finalize (sl_key s) AND msk);
        om_reinsert old msk (sl[unat i := s]) })"

definition om_rehash :: "'v OpenMap \<Rightarrow> nat \<Rightarrow> 'v OpenMap option" where
  "om_rehash m new_cap = do {
     let msk = of_nat (new_cap - 1);
     sl \<leftarrow> om_reinsert (om_slots m) msk (replicate new_cap slot_default);
     Some (m\<lparr>om_slots := sl, om_mask := msk\<rparr>) }"

definition om_new :: "'v OpenMap option" where
  "om_new = om_rehash \<lparr>om_slots = [], om_mask = 0, om_size = 0\<rparr> kInitialCapacity"

definition om_insert :: "'v OpenMap \<Rightarrow> OrderId \<Rightarrow> 'v \<Rightarrow> (bool \<times> 'v OpenMap) option" where
  "om_insert m oid v = do {
     m \<leftarrow> (if (om_size m + 1) * 10 \<ge> length (om_slots m) * 7
           then om_rehash m (length (om_slots m) * 2) else Some m);
     i \<leftarrow> om_probe (length (om_slots m)) (om_slots m) (om_mask m) oid (splitmix_finalize oid AND om_mask m);
     if sl_key (om_slots m ! unat i) \<noteq> kEmpty then Some (False, m)
     else Some (True, m\<lparr>om_slots := (om_slots m)[unat i := \<lparr>sl_key = oid, sl_value = Some v\<rparr>],
                        om_size := om_size m + 1\<rparr>) }"

text \<open>The scan of \<^verbatim>\<open>erase_at\<close>: \<open>i\<close> is the hole (its slot already cleared), \<open>j\<close> the last slot looked
  at.  A key that may move is pulled into the hole and its own slot becomes the hole.\<close>

fun om_shift :: "nat \<Rightarrow> 'v Slot list \<Rightarrow> u64 \<Rightarrow> u64 \<Rightarrow> u64 \<Rightarrow> 'v Slot list option" where
  "om_shift 0 sl msk i j = None"
| "om_shift (Suc n) sl msk i j =
     (let j = (j + 1) AND msk; s = sl ! unat j in
      if sl_key s = kEmpty then Some sl
      else
        let k = splitmix_finalize (sl_key s) AND msk;
            hole_off = (i - k) AND msk;
            cur_off = (j - k) AND msk
        in if hole_off \<le> cur_off
           then om_shift n ((sl[unat i := s])[unat j := slot_default]) msk j j
           else om_shift n sl msk i j)"

definition om_erase_at :: "'v OpenMap \<Rightarrow> u64 \<Rightarrow> 'v OpenMap option" where
  "om_erase_at m i = do {
     sl \<leftarrow> om_shift (length (om_slots m)) ((om_slots m)[unat i := slot_default]) (om_mask m) i i;
     Some (m\<lparr>om_slots := sl, om_size := om_size m - 1\<rparr>) }"

definition om_erase :: "'v OpenMap \<Rightarrow> OrderId \<Rightarrow> (bool \<times> 'v OpenMap) option" where
  "om_erase m oid = do {
     i \<leftarrow> om_probe (length (om_slots m)) (om_slots m) (om_mask m) oid (splitmix_finalize oid AND om_mask m);
     if sl_key (om_slots m ! unat i) = oid
     then do { m \<leftarrow> om_erase_at m i; Some (True, m) }
     else Some (False, m) }"

text \<open>\<^verbatim>\<open>while (want * 7 < n * 10) want *= 2\<close>.\<close>

function om_want :: "nat \<Rightarrow> nat \<Rightarrow> nat" where
  "om_want want n = (if 0 < want \<and> want * 7 < n * 10 then om_want (want * 2) n else want)"
  by pat_completeness auto
termination
  by (relation "measure (\<lambda>(want, n). n * 10 - want * 7)") auto

declare om_want.simps [simp del]

definition om_reserve :: "'v OpenMap \<Rightarrow> nat \<Rightarrow> 'v OpenMap option" where
  "om_reserve m n =
     (let want = om_want kInitialCapacity n
      in if want > length (om_slots m) then om_rehash m want else Some m)"

text \<open>The map a table stands for.\<close>

definition om_lookup :: "'v OpenMap \<Rightarrow> OrderId \<Rightarrow> 'v option" where
  "om_lookup m oid =
     (if oid = kEmpty then None
      else Option.bind (List.find (\<lambda>s. sl_key s = oid) (om_slots m)) sl_value)"


subsection \<open>Positions on the ring\<close>

text \<open>Distance from \<open>a\<close> forward to \<open>b\<close> on a ring of \<open>c\<close> slots.\<close>

definition cdist :: "nat \<Rightarrow> nat \<Rightarrow> nat \<Rightarrow> nat" where
  "cdist c a b = (if a \<le> b then b - a else c - a + b)"

lemma cdist_less: "a < c \<Longrightarrow> b < c \<Longrightarrow> cdist c a b < c"
  by (auto simp: cdist_def)

lemma cdist_0: "a < c \<Longrightarrow> b < c \<Longrightarrow> cdist c a b = 0 \<longleftrightarrow> a = b"
  by (auto simp: cdist_def)

lemma cdist_self [simp]: "cdist c a a = 0"
  by (simp add: cdist_def)

lemma Suc_mod_cases: "a < c \<Longrightarrow> (a + 1) mod c = (if a + 1 = c then 0 else a + 1)" for a c :: nat
  by auto

lemma cdist_step: "a < c \<Longrightarrow> b < c \<Longrightarrow> a \<noteq> b \<Longrightarrow> cdist c a b = Suc (cdist c ((a + 1) mod c) b)"
  by (subst Suc_mod_cases) (auto simp: cdist_def)

lemma cdist_next: "a < c \<Longrightarrow> b < c \<Longrightarrow> (b + 1) mod c \<noteq> a \<Longrightarrow> cdist c a ((b + 1) mod c) = Suc (cdist c a b)"
  by (subst (asm) Suc_mod_cases, assumption, subst Suc_mod_cases) (auto simp: cdist_def split: if_splits)

lemma unat_and_mask:
  fixes x :: u64
  assumes "k \<le> 64"
  shows "unat (x AND of_nat (2 ^ k - 1)) = unat x mod 2 ^ k"
proof -
  have "(of_nat (2 ^ k - 1) :: u64) = Bit_Operations.mask k"
    by (simp add: mask_eq_exp_minus_1 of_nat_diff)
  then have "x AND of_nat (2 ^ k - 1) = take_bit k x"
    by (simp only: take_bit_eq_mask)
  moreover have "unat (take_bit k x) = take_bit k (unat x)"
    by (rule unsigned_take_bit_eq)
  ultimately show ?thesis by (simp only: take_bit_nat_def)
qed

lemma unat_next_slot:
  fixes i :: u64
  assumes "k \<le> 64"
  shows "unat ((i + 1) AND of_nat (2 ^ k - 1)) = (unat i + 1) mod 2 ^ k"
proof -
  have "(2 :: nat) ^ k dvd 2 ^ 64" using assms by (rule le_imp_power_dvd)
  moreover have "unat (i + 1) = (unat i + 1) mod 2 ^ 64"
    by (simp add: unat_word_ariths)
  ultimately show ?thesis
    unfolding unat_and_mask [OF assms] by (simp only: mod_mod_cancel)
qed

lemma unat_slot_diff:
  fixes a b :: u64
  assumes k: "k \<le> 64" and a: "unat a < 2 ^ k" and b: "unat b < 2 ^ k"
  shows "unat ((b - a) AND of_nat (2 ^ k - 1)) = cdist (2 ^ k) (unat a) (unat b)"
proof (cases "a \<le> b")
  case True
  then have "unat (b - a) = unat b - unat a" by (simp add: unat_sub_if' word_le_nat_alt)
  with True b show ?thesis
    unfolding unat_and_mask [OF k] by (simp add: cdist_def word_le_nat_alt)
next
  case False
  then have lt: "unat b < unat a" by (simp add: word_le_nat_alt)
  have "(2 :: nat) ^ k dvd 2 ^ 64" using k by (rule le_imp_power_dvd)
  then obtain q where q: "(2 :: nat) ^ 64 = 2 ^ k * q" by (rule dvdE)
  have "q \<noteq> 0" using q by (cases q) auto
  then obtain q' where q': "q = Suc q'" by (cases q) auto
  have "unat (b - a) = 2 ^ 64 - unat a + unat b"
    using False unsigned_less [of a, where ?'a = nat] by (simp add: unat_sub_if' word_le_nat_alt)
  also have "\<dots> = (2 ^ k - unat a + unat b) + 2 ^ k * q'"
    using a lt unfolding q q' by simp
  finally have "unat (b - a) mod 2 ^ k = (2 ^ k - unat a + unat b) mod 2 ^ k" by simp
  moreover have "2 ^ k - unat a + unat b < 2 ^ k" using a lt by simp
  ultimately show ?thesis
    unfolding unat_and_mask [OF k] using lt by (simp add: cdist_def)
qed

subsection \<open>Well-formed tables\<close>

definition home :: "nat \<Rightarrow> OrderId \<Rightarrow> nat" where
  "home c oid = unat (splitmix_finalize oid) mod c"

text \<open>Every stored key can be reached from its ideal slot: no slot in between is empty, the
  \<open>hole\<close> (if any) excepted.\<close>

definition reachable :: "'v Slot list \<Rightarrow> nat option \<Rightarrow> bool" where
  "reachable sl hole \<longleftrightarrow>
     (\<forall>p < length sl. sl_key (sl ! p) \<noteq> kEmpty \<longrightarrow>
        (\<forall>x < length sl. Some x \<noteq> hole
           \<longrightarrow> cdist (length sl) (home (length sl) (sl_key (sl ! p))) x
             < cdist (length sl) (home (length sl) (sl_key (sl ! p))) p
           \<longrightarrow> sl_key (sl ! x) \<noteq> kEmpty))"

definition keys_distinct :: "'v Slot list \<Rightarrow> bool" where
  "keys_distinct sl \<longleftrightarrow>
     (\<forall>p < length sl. \<forall>q < length sl.
        sl_key (sl ! p) = sl_key (sl ! q) \<longrightarrow> sl_key (sl ! p) \<noteq> kEmpty \<longrightarrow> p = q)"

definition values_ok :: "'v Slot list \<Rightarrow> bool" where
  "values_ok sl \<longleftrightarrow> (\<forall>s \<in> set sl. sl_value s = None \<longleftrightarrow> sl_key s = kEmpty)"

definition used :: "'v Slot list \<Rightarrow> nat" where
  "used sl = length (filter (\<lambda>s. sl_key s \<noteq> kEmpty) sl)"

text \<open>The stored pairs.\<close>

definition contents :: "'v Slot list \<Rightarrow> (OrderId \<times> 'v) set" where
  "contents sl = {(sl_key s, v) | s v. s \<in> set sl \<and> sl_key s \<noteq> kEmpty \<and> sl_value s = Some v}"

lemma contents_nth:
  "contents sl = {(sl_key (sl ! p), v) | p v. p < length sl \<and> sl_key (sl ! p) \<noteq> kEmpty
     \<and> sl_value (sl ! p) = Some v}"
  by (auto simp: contents_def in_set_conv_nth)

lemma reachableD:
  assumes "reachable sl hole" and "p < length sl" and "sl_key (sl ! p) \<noteq> kEmpty"
    and "x < length sl" and "Some x \<noteq> hole"
    and "cdist (length sl) (home (length sl) (sl_key (sl ! p))) x
       < cdist (length sl) (home (length sl) (sl_key (sl ! p))) p"
  shows "sl_key (sl ! x) \<noteq> kEmpty"
  using assms unfolding reachable_def by blast

lemma home_less: "0 < c \<Longrightarrow> home c oid < c"
  by (simp add: home_def)

lemma used_update:
  "i < length sl \<Longrightarrow> used (sl[i := s]) + (if sl_key (sl ! i) \<noteq> kEmpty then 1 else 0)
     = used sl + (if sl_key s \<noteq> kEmpty then 1 else 0)"
  unfolding used_def
  by (subst (3) id_take_nth_drop [of i sl], assumption, subst upd_conv_take_nth_drop, assumption) simp

lemma used_le: "used sl \<le> length sl"
  by (simp add: used_def)

lemma used_less_empty:
  assumes "used sl < length sl"
  obtains e where "e < length sl" and "sl_key (sl ! e) = kEmpty"
proof -
  have "\<not> (\<forall>s \<in> set sl. sl_key s \<noteq> kEmpty)"
  proof
    assume "\<forall>s \<in> set sl. sl_key s \<noteq> kEmpty"
    then have "filter (\<lambda>s. sl_key s \<noteq> kEmpty) sl = sl" by (simp add: filter_id_conv)
    with assms show False by (simp add: used_def)
  qed
  then show thesis using that by (auto simp: in_set_conv_nth)
qed

text \<open>The probing loop ends at the first slot it may stop at.\<close>

lemma om_probe_spec:
  assumes k: "length sl = 2 ^ k" "k \<le> 64" and i: "unat i < length sl"
    and e: "e < length sl" "sl_key (sl ! e) = oid \<or> sl_key (sl ! e) = kEmpty"
    and n: "cdist (length sl) (unat i) e < n"
  shows "\<exists>r. om_probe n sl (of_nat (length sl - 1)) oid i = Some r \<and> unat r < length sl
    \<and> (sl_key (sl ! unat r) = oid \<or> sl_key (sl ! unat r) = kEmpty)
    \<and> (\<forall>x < length sl. cdist (length sl) (unat i) x < cdist (length sl) (unat i) (unat r)
         \<longrightarrow> sl_key (sl ! x) \<noteq> oid \<and> sl_key (sl ! x) \<noteq> kEmpty)"
  using i n
proof (induction n arbitrary: i)
  case 0
  then show ?case by simp
next
  case (Suc n)
  let ?c = "length sl"
  let ?j = "(i + 1) AND of_nat (?c - 1)"
  show ?case
  proof (cases "sl_key (sl ! unat i) = oid \<or> sl_key (sl ! unat i) = kEmpty")
    case True
    then show ?thesis using Suc.prems by auto
  next
    case False
    then have ne: "unat i \<noteq> e" using e by auto
    have j: "unat ?j = (unat i + 1) mod ?c"
      using k unat_next_slot [OF k(2), of i] by simp
    have "0 < ?c" using Suc.prems by linarith
    then have jl: "unat ?j < ?c" unfolding j by (rule mod_less_divisor)
    have step: "cdist ?c (unat i) x = Suc (cdist ?c (unat ?j) x)" if "x < ?c" "x \<noteq> unat i" for x
      using cdist_step [OF Suc.prems(1) that(1)] that(2) j by simp
    have "cdist ?c (unat ?j) e < n" using step [OF e(1)] ne Suc.prems by simp
    from Suc.IH [OF jl this] obtain r where r: "om_probe n sl (of_nat (?c - 1)) oid ?j = Some r"
      "unat r < ?c" "sl_key (sl ! unat r) = oid \<or> sl_key (sl ! unat r) = kEmpty"
      "\<forall>x < ?c. cdist ?c (unat ?j) x < cdist ?c (unat ?j) (unat r)
         \<longrightarrow> sl_key (sl ! x) \<noteq> oid \<and> sl_key (sl ! x) \<noteq> kEmpty" by blast
    have "unat r \<noteq> unat i" using r False by auto
    then have "\<forall>x < ?c. cdist ?c (unat i) x < cdist ?c (unat i) (unat r)
         \<longrightarrow> sl_key (sl ! x) \<noteq> oid \<and> sl_key (sl ! x) \<noteq> kEmpty"
      using r step False by (metis Suc_less_eq)
    with r False show ?thesis by auto
  qed
qed


text \<open>Probing from a key's ideal slot finds the key, or the empty slot where it belongs.\<close>

definition table_ok :: "'v Slot list \<Rightarrow> bool" where
  "table_ok sl \<longleftrightarrow> reachable sl None \<and> keys_distinct sl \<and> values_ok sl"

lemma om_probe_home:
  assumes k: "length sl = 2 ^ k" "k \<le> 64" and ok: "reachable sl None"
    and e: "e < length sl" "sl_key (sl ! e) = kEmpty"
  obtains r where
    "om_probe (length sl) sl (of_nat (length sl - 1)) oid (splitmix_finalize oid AND of_nat (length sl - 1)) = Some r"
    and "unat r < length sl"
    and "sl_key (sl ! unat r) = oid \<or>
         sl_key (sl ! unat r) = kEmpty \<and> (oid \<noteq> kEmpty \<longrightarrow> oid \<notin> sl_key ` set sl)"
    and "\<forall>x < length sl. cdist (length sl) (home (length sl) oid) x
           < cdist (length sl) (home (length sl) oid) (unat r) \<longrightarrow> sl_key (sl ! x) \<noteq> kEmpty"
proof -
  let ?c = "length sl" let ?h = "splitmix_finalize oid AND of_nat (length sl - 1)"
  have h: "unat ?h = home ?c oid" using unat_and_mask [OF k(2)] k by (simp add: home_def)
  have pos: "0 < ?c" using e(1) by linarith
  have hl: "unat ?h < ?c" unfolding h by (rule home_less [OF pos])
  obtain r where r: "om_probe ?c sl (of_nat (?c - 1)) oid ?h = Some r" "unat r < ?c"
    "sl_key (sl ! unat r) = oid \<or> sl_key (sl ! unat r) = kEmpty"
    "\<forall>x < ?c. cdist ?c (unat ?h) x < cdist ?c (unat ?h) (unat r)
       \<longrightarrow> sl_key (sl ! x) \<noteq> oid \<and> sl_key (sl ! x) \<noteq> kEmpty"
    using om_probe_spec [OF k hl e(1), of oid ?c] e(2) cdist_less [OF hl e(1)] by blast
  have "oid \<notin> sl_key ` set sl"
    if "sl_key (sl ! unat r) \<noteq> oid" "oid \<noteq> kEmpty"
  proof
    assume "oid \<in> sl_key ` set sl"
    then obtain p where p: "p < ?c" "sl_key (sl ! p) = oid" by (auto simp: in_set_conv_nth)
    have rk: "sl_key (sl ! unat r) = kEmpty" using that r(3) by simp
    have "\<not> cdist ?c (home ?c oid) (unat r) < cdist ?c (home ?c oid) p"
      using ok [unfolded reachable_def, rule_format, OF p(1) _ r(2)] p rk that(2) by auto
    moreover have "p \<noteq> unat r" using p that by auto
    then have "cdist ?c (home ?c oid) p \<noteq> cdist ?c (home ?c oid) (unat r)"
      using p(1) r(2) hl[unfolded h] unfolding cdist_def by (simp split: if_splits) linarith
    moreover have "\<not> cdist ?c (home ?c oid) p < cdist ?c (home ?c oid) (unat r)"
      using r(4) p h by auto
    ultimately show False by linarith
  qed
  with r(3) have 3: "sl_key (sl ! unat r) = oid \<or>
      sl_key (sl ! unat r) = kEmpty \<and> (oid \<noteq> kEmpty \<longrightarrow> oid \<notin> sl_key ` set sl)" by blast
  have 4: "\<forall>x < ?c. cdist ?c (home ?c oid) x < cdist ?c (home ?c oid) (unat r) \<longrightarrow> sl_key (sl ! x) \<noteq> kEmpty"
    using r(4) unfolding h by blast
  show thesis by (rule that [OF r(1,2) 3 4])
qed

lemma contents_update:
  assumes "i < length sl" and "sl_key (sl ! i) = kEmpty" and "sl_key s \<noteq> kEmpty" and "sl_value s = Some v"
  shows "contents (sl[i := s]) = insert (sl_key s, v) (contents sl)"
proof -
  have "contents (sl[i := s]) = {(sl_key t, w) | t w. (\<exists>p < length sl. t = (sl[i := s]) ! p)
      \<and> sl_key t \<noteq> kEmpty \<and> sl_value t = Some w}"
    by (auto simp: contents_def in_set_conv_nth)
  also have "\<dots> = insert (sl_key s, v) {(sl_key t, w) | t w. (\<exists>p < length sl. t = sl ! p)
      \<and> sl_key t \<noteq> kEmpty \<and> sl_value t = Some w}"
    using assms by (auto simp: nth_list_update) (metis nth_list_update_neq)+
  also have "\<dots> = insert (sl_key s, v) (contents sl)"
    by (auto simp: contents_def in_set_conv_nth)
  finally show ?thesis .
qed

lemma table_insert:
  assumes ok: "table_ok sl" and i: "i < length sl" and e: "sl_key (sl ! i) = kEmpty"
    and s: "sl_key s \<noteq> kEmpty" "sl_value s \<noteq> None" and new: "sl_key s \<notin> sl_key ` set sl"
    and path: "\<forall>x < length sl. cdist (length sl) (home (length sl) (sl_key s)) x
           < cdist (length sl) (home (length sl) (sl_key s)) i \<longrightarrow> sl_key (sl ! x) \<noteq> kEmpty"
  shows "table_ok (sl[i := s])" and "used (sl[i := s]) = Suc (used sl)"
proof -
  have "reachable (sl[i := s]) None"
    unfolding reachable_def
  proof (intro allI impI)
    fix p x
    assume p: "p < length (sl[i := s])" "sl_key (sl[i := s] ! p) \<noteq> kEmpty" and x: "x < length (sl[i := s])"
      and d: "cdist (length (sl[i := s])) (home (length (sl[i := s])) (sl_key (sl[i := s] ! p))) x
        < cdist (length (sl[i := s])) (home (length (sl[i := s])) (sl_key (sl[i := s] ! p))) p"
    show "sl_key (sl[i := s] ! x) \<noteq> kEmpty"
    proof (cases "x = i \<or> p = i")
      case True
      show ?thesis
      proof (cases "x = i")
        case False
        with True have "p = i" by simp
        with False i path [rule_format, of x] x d show ?thesis by simp
      qed (use i s in simp)
    next
      case False
      then have "p < length sl" "sl_key (sl ! p) \<noteq> kEmpty" "x < length sl"
        "cdist (length sl) (home (length sl) (sl_key (sl ! p))) x
          < cdist (length sl) (home (length sl) (sl_key (sl ! p))) p"
        using p x d by simp_all
      moreover have "reachable sl None" using ok by (simp add: table_ok_def)
      ultimately have "sl_key (sl ! x) \<noteq> kEmpty"
        by (intro reachableD [of sl None p x]) simp_all
      with False show ?thesis by simp
    qed
  qed
  moreover have "keys_distinct (sl[i := s])"
    unfolding keys_distinct_def
  proof (intro allI impI)
    fix p q
    assume p: "p < length (sl[i := s])" and q: "q < length (sl[i := s])"
      and eq: "sl_key (sl[i := s] ! p) = sl_key (sl[i := s] ! q)" and ne: "sl_key (sl[i := s] ! p) \<noteq> kEmpty"
    have fresh: "sl_key (sl ! x) \<noteq> sl_key s" if "x < length sl" for x
      using new that by (metis imageI nth_mem)
    have kd: "sl_key (sl ! p) = sl_key (sl ! q) \<Longrightarrow> sl_key (sl ! p) \<noteq> kEmpty \<Longrightarrow> p = q"
      using ok p q unfolding table_ok_def keys_distinct_def by simp
    show "p = q"
      using p q eq ne fresh [of p] fresh [of q] kd by (cases "p = i"; cases "q = i") auto
  qed
  moreover have "values_ok (sl[i := s])"
    using ok s unfolding table_ok_def values_ok_def by (auto dest!: set_update_subset_insert [THEN subsetD])
  ultimately show "table_ok (sl[i := s])" by (simp add: table_ok_def)
  show "used (sl[i := s]) = Suc (used sl)" using used_update [OF i, of s] e s by simp
qed


subsection \<open>Deletion\<close>

text \<open>What holds while \<^verbatim>\<open>erase_at\<close> scans: \<open>i\<close> is the hole, everything from it up to \<open>j\<close> is stored
  where it can be reached without crossing the hole.\<close>

definition shift_inv :: "'v Slot list \<Rightarrow> nat \<Rightarrow> nat \<Rightarrow> bool" where
  "shift_inv sl i j \<longleftrightarrow>
     i < length sl \<and> j < length sl \<and> sl_key (sl ! i) = kEmpty \<and> reachable sl (Some i)
     \<and> keys_distinct sl \<and> values_ok sl
     \<and> (\<forall>p < length sl. p \<noteq> i \<longrightarrow> cdist (length sl) i p \<le> cdist (length sl) i j \<longrightarrow>
          sl_key (sl ! p) \<noteq> kEmpty
          \<and> \<not> cdist (length sl) (home (length sl) (sl_key (sl ! p))) i
              < cdist (length sl) (home (length sl) (sl_key (sl ! p))) p)"

lemma cdist_between:
  assumes "i < c" "j < c" "p < c" "h < c"
    and "cdist c i j \<le> cdist c i p" and "cdist c h i < cdist c h p"
  shows "cdist c h j \<le> cdist c h p"
  using assms unfolding cdist_def by (simp split: if_splits; arith)

lemma cdist_inj: "a < c \<Longrightarrow> b < c \<Longrightarrow> h < c \<Longrightarrow> cdist c h a = cdist c h b \<longleftrightarrow> a = b"
  unfolding cdist_def by (auto split: if_splits)

text \<open>The scan stops at an empty slot: then the hole breaks no probe path.\<close>

lemma shift_stop:
  assumes inv: "shift_inv sl i j" and e: "sl_key (sl ! ((j + 1) mod length sl)) = kEmpty"
  shows "table_ok sl"
proof -
  let ?c = "length sl" let ?j = "(j + 1) mod ?c"
  have i: "i < ?c" and j: "j < ?c" and jl: "?j < ?c" and ki: "sl_key (sl ! i) = kEmpty"
    using inv unfolding shift_inv_def by (auto intro: mod_less_divisor)
  have "reachable sl None"
    unfolding reachable_def
  proof (intro allI impI)
    fix p x
    assume p: "p < ?c" "sl_key (sl ! p) \<noteq> kEmpty" and x: "x < ?c"
      and d: "cdist ?c (home ?c (sl_key (sl ! p))) x < cdist ?c (home ?c (sl_key (sl ! p))) p"
    let ?h = "home ?c (sl_key (sl ! p))"
    have h: "?h < ?c" using i by (intro home_less) linarith
    have R: "reachable sl (Some i)" using inv by (simp add: shift_inv_def)
    show "sl_key (sl ! x) \<noteq> kEmpty"
    proof (cases "x = i")
      case False
      then show ?thesis using reachableD [OF R p x] d by simp
    next
      case True
      have pi: "p \<noteq> i" using p ki by auto
      have far: "\<not> cdist ?c i p \<le> cdist ?c i j"
        using inv p(1) pi d True unfolding shift_inv_def by blast
      have ji: "?j \<noteq> i"
      proof
        assume "?j = i"
        then have "cdist ?c i j = ?c - 1"
          using i j by (cases "j + 1 = ?c") (auto simp: cdist_def)
        then show False using far cdist_less [OF i p(1)] by linarith
      qed
      then have "cdist ?c i ?j = Suc (cdist ?c i j)" using cdist_next [OF i j] by simp
      then have "cdist ?c i ?j \<le> cdist ?c i p" using far by linarith
      then have "cdist ?c ?h ?j \<le> cdist ?c ?h p"
        using cdist_between [OF i jl p(1) h] d True by blast
      moreover have "?j \<noteq> p" using p e by auto
      ultimately have "cdist ?c ?h ?j < cdist ?c ?h p"
        using cdist_inj [OF jl p(1) h] by linarith
      with reachableD [OF R p jl] ji e show ?thesis by simp
    qed
  qed
  then show ?thesis using inv by (simp add: table_ok_def shift_inv_def)
qed


text \<open>A key whose probe path crosses the hole is pulled into it.\<close>

lemma shift_move:
  assumes inv: "shift_inv sl i j" and j': "j' = (j + 1) mod length sl"
    and ne: "sl_key (sl ! j') \<noteq> kEmpty"
    and le: "cdist (length sl) (home (length sl) (sl_key (sl ! j'))) i
      \<le> cdist (length sl) (home (length sl) (sl_key (sl ! j'))) j'"
  shows "shift_inv ((sl[i := sl ! j'])[j' := slot_default]) j' j'"
    and "contents ((sl[i := sl ! j'])[j' := slot_default]) = contents sl"
    and "used ((sl[i := sl ! j'])[j' := slot_default]) = used sl"
proof -
  let ?c = "length sl" and ?s = "sl ! j'" and ?sl = "(sl[i := sl ! j'])[j' := slot_default]"
  have i: "i < ?c" and ki: "sl_key (sl ! i) = kEmpty" and kd: "keys_distinct sl" and vo: "values_ok sl"
    and R: "reachable sl (Some i)"
    using inv unfolding shift_inv_def by auto
  have jl: "j' < ?c" using i j' by (metis mod_less_divisor not_less_zero gr_zeroI)
  have ij: "i \<noteq> j'" using ki ne by auto
  let ?h = "home ?c (sl_key ?s)"
  have h: "?h < ?c" using i by (intro home_less) linarith
  have lt: "cdist ?c ?h i < cdist ?c ?h j'"
    using le ij cdist_inj [OF i jl h] by linarith
  have nth: "?sl ! p = (if p = j' then slot_default else if p = i then ?s else sl ! p)" if "p < ?c" for p
    using that i jl ij by (simp add: nth_list_update)
  have def_key: "sl_key slot_default = kEmpty" "sl_value slot_default = None"
    by (simp_all add: slot_default_def)
  have "reachable ?sl (Some j')"
    unfolding reachable_def
  proof (intro allI impI)
    fix p x
    assume p: "p < length ?sl" "sl_key (?sl ! p) \<noteq> kEmpty" and x: "x < length ?sl" "Some x \<noteq> Some j'"
      and d: "cdist (length ?sl) (home (length ?sl) (sl_key (?sl ! p))) x
        < cdist (length ?sl) (home (length ?sl) (sl_key (?sl ! p))) p"
    have pj: "p \<noteq> j'" using p nth def_key by auto
    show "sl_key (?sl ! x) \<noteq> kEmpty"
    proof (cases "x = i")
      case True
      then show ?thesis using nth [of x] i ij ne by simp
    next
      case False
      have "sl_key (sl ! x) \<noteq> kEmpty"
      proof (cases "p = i")
        case True
        then have "cdist ?c ?h x < cdist ?c ?h j'" using d lt nth [of p] i ij by simp
        then show ?thesis using reachableD [OF R jl ne] x False by simp
      next
        case pi: False
        then show ?thesis using reachableD [OF R, of p x] p x d nth [of p] pj False by simp
      qed
      then show ?thesis using nth [of x] x False by simp
    qed
  qed
  moreover have "keys_distinct ?sl"
    unfolding keys_distinct_def
  proof (intro allI impI)
    fix p q
    assume p: "p < length ?sl" and q: "q < length ?sl"
      and eq: "sl_key (?sl ! p) = sl_key (?sl ! q)" and pne: "sl_key (?sl ! p) \<noteq> kEmpty"
    have kdD: "sl_key (sl ! x) = sl_key (sl ! y) \<Longrightarrow> sl_key (sl ! x) \<noteq> kEmpty \<Longrightarrow> x = y"
      if "x < ?c" "y < ?c" for x y
      using kd that unfolding keys_distinct_def by blast
    have "sl_key (?sl ! q) \<noteq> kEmpty" using pne eq by metis
    then have "p \<noteq> j'" "q \<noteq> j'" using pne p q nth [of p] nth [of q] def_key by auto
    then show "p = q"
      using p q eq pne nth [of p] nth [of q] kdD [of p q] kdD [of p j'] kdD [of q j'] kdD [of j' q] jl
      by (cases "p = i"; cases "q = i") auto
  qed
  moreover have "values_ok ?sl"
    unfolding values_ok_def
  proof
    fix s assume "s \<in> set ?sl"
    then obtain p where "p < ?c" "s = ?sl ! p" by (auto simp: in_set_conv_nth)
    then show "sl_value s = None \<longleftrightarrow> sl_key s = kEmpty"
      using nth [of p] vo jl def_key unfolding values_ok_def by (auto split: if_splits)
  qed
  moreover have "sl_key (?sl ! j') = kEmpty" using nth jl def_key by simp
  moreover have "\<forall>p < ?c. p \<noteq> j' \<longrightarrow> \<not> cdist ?c j' p \<le> cdist ?c j' j'"
    using cdist_0 [of j' ?c] jl by auto
  ultimately show "shift_inv ?sl j' j'" using jl by (auto simp: shift_inv_def)
  have "contents ?sl = {(sl_key (?sl ! p), v) | p v. p < ?c \<and> sl_key (?sl ! p) \<noteq> kEmpty \<and> sl_value (?sl ! p) = Some v}"
    by (simp only: contents_nth [of ?sl] length_list_update)
  also have "\<dots> = {(sl_key (sl ! p), v) | p v. p < ?c \<and> sl_key (sl ! p) \<noteq> kEmpty \<and> sl_value (sl ! p) = Some v}"
    (is "?A = ?B")
  proof
    show "?A \<subseteq> ?B"
    proof clarify
      fix p v assume p: "p < ?c" "sl_key (?sl ! p) \<noteq> kEmpty" "sl_value (?sl ! p) = Some v"
      let ?p = "if p = i then j' else p"
      have "p \<noteq> j'" using p nth [of p] def_key by auto
      then have "?p < ?c" "?sl ! p = sl ! ?p" using p jl nth [of p] by auto
      with p show "\<exists>pa va. (sl_key (?sl ! p), v) = (sl_key (sl ! pa), va) \<and> pa < ?c
          \<and> sl_key (sl ! pa) \<noteq> kEmpty \<and> sl_value (sl ! pa) = Some va"
        by (intro exI [of _ ?p] exI [of _ v]) simp
    qed
    show "?B \<subseteq> ?A"
    proof clarify
      fix p v assume p: "p < ?c" "sl_key (sl ! p) \<noteq> kEmpty" "sl_value (sl ! p) = Some v"
      let ?p = "if p = j' then i else p"
      have "p \<noteq> i" using p ki by auto
      then have "?p < ?c" "?sl ! ?p = sl ! p" using p i ij nth by auto
      with p show "\<exists>pa va. (sl_key (sl ! p), v) = (sl_key (?sl ! pa), va) \<and> pa < ?c
          \<and> sl_key (?sl ! pa) \<noteq> kEmpty \<and> sl_value (?sl ! pa) = Some va"
        by (intro exI [of _ ?p] exI [of _ v]) simp
    qed
  qed
  also have "\<dots> = contents sl"
    by (simp only: contents_nth [of sl])
  finally show "contents ?sl = contents sl" .
  show "used ?sl = used sl"
    using used_update [of i sl ?s] used_update [of j' "sl[i := ?s]" slot_default] i jl ij ki ne def_key
    by simp
qed

text \<open>A key that stays reachable without the hole is left alone.\<close>

lemma shift_skip:
  assumes inv: "shift_inv sl i j" and j': "j' = (j + 1) mod length sl"
    and ne: "sl_key (sl ! j') \<noteq> kEmpty"
    and gt: "\<not> cdist (length sl) (home (length sl) (sl_key (sl ! j'))) i
      \<le> cdist (length sl) (home (length sl) (sl_key (sl ! j'))) j'"
  shows "shift_inv sl i j'"
proof -
  let ?c = "length sl"
  have i: "i < ?c" and j: "j < ?c" and ki: "sl_key (sl ! i) = kEmpty"
    using inv unfolding shift_inv_def by auto
  have jl: "j' < ?c" using i j' by (metis mod_less_divisor not_less_zero gr_zeroI)
  have ij: "i \<noteq> j'" using ki ne by auto
  have "cdist ?c i j' = Suc (cdist ?c i j)" using cdist_next [OF i j] ij j' by simp
  then have split: "cdist ?c i p \<le> cdist ?c i j' \<longleftrightarrow> cdist ?c i p \<le> cdist ?c i j \<or> p = j'" if "p < ?c" for p
    using cdist_inj [OF that jl i] by auto
  show ?thesis
    using inv jl ne gt split unfolding shift_inv_def by auto
qed


text \<open>The whole scan: fuel for one round of the ring is enough, because a second empty slot \<open>e\<close>
  lies ahead and nothing moves past it.\<close>

lemma om_shift_spec:
  assumes k: "length sl = 2 ^ k" "k \<le> 64" and inv: "shift_inv sl (unat i) (unat j)"
    and e: "e < length sl" "e \<noteq> unat i" "sl_key (sl ! e) = kEmpty"
    and n: "cdist (length sl) (unat j) e \<le> n" and ej: "unat j \<noteq> e"
  shows "\<exists>sl'. om_shift n sl (of_nat (length sl - 1)) i j = Some sl' \<and> length sl' = length sl
    \<and> table_ok sl' \<and> contents sl' = contents sl \<and> used sl' = used sl"
  using k(1) inv e n ej
proof (induction n arbitrary: sl i j)
  case 0
  then have "unat j < length sl" by (simp add: shift_inv_def)
  with 0 show ?case by (simp add: cdist_0)
next
  case (Suc n)
  let ?c = "length sl" and ?m = "of_nat (length sl - 1) :: u64"
  let ?j = "(j + 1) AND ?m"
  let ?s = "sl ! unat ?j"
  let ?k = "splitmix_finalize (sl_key ?s) AND ?m"
  have i: "unat i < ?c" and j: "unat j < ?c" using Suc.prems by (auto simp: shift_inv_def)
  have j': "unat ?j = (unat j + 1) mod ?c"
    using Suc.prems(1) unat_next_slot [OF k(2), of j] by simp
  have jl: "unat ?j < ?c" unfolding j' using j by (intro mod_less_divisor) linarith
  have kk: "unat ?k = home ?c (sl_key ?s)"
    using unat_and_mask [OF k(2)] Suc.prems(1) by (simp add: home_def)
  have kl: "unat ?k < ?c" unfolding kk using j by (intro home_less) linarith
  have offs: "unat ((i - ?k) AND ?m) = cdist ?c (unat ?k) (unat i)"
    "unat ((?j - ?k) AND ?m) = cdist ?c (unat ?k) (unat ?j)"
    using unat_slot_diff [OF k(2)] kl i jl Suc.prems(1) by simp_all
  have step: "cdist ?c (unat j) e = Suc (cdist ?c (unat ?j) e)"
    using cdist_step [OF j Suc.prems(3)] Suc.prems(7) j' by simp
  then have n': "cdist ?c (unat ?j) e \<le> n" using Suc.prems(6) by simp
  show ?case
  proof (cases "sl_key ?s = kEmpty")
    case True
    then show ?thesis using shift_stop [OF Suc.prems(2)] j' by simp
  next
    case ne: False
    then have ne': "unat ?j \<noteq> e" using Suc.prems(5) by auto
    show ?thesis
    proof (cases "(i - ?k) AND ?m \<le> (?j - ?k) AND ?m")
      case True
      then have le: "cdist ?c (home ?c (sl_key ?s)) (unat i) \<le> cdist ?c (home ?c (sl_key ?s)) (unat ?j)"
        using offs kk by (simp add: word_le_nat_alt)
      let ?sl = "(sl[unat i := ?s])[unat ?j := slot_default]"
      note mv = shift_move [OF Suc.prems(2) j' ne le]
      have "sl_key (?sl ! e) = kEmpty" using Suc.prems(4,5) ne' by simp
      then have "\<exists>sl'. om_shift n ?sl (of_nat (length ?sl - 1)) ?j ?j = Some sl' \<and> length sl' = length ?sl
          \<and> table_ok sl' \<and> contents sl' = contents ?sl \<and> used sl' = used ?sl"
        using mv(1) Suc.prems(1,3) n' ne' by (intro Suc.IH) simp_all
      then show ?thesis using ne True mv(2,3) by (simp add: Let_def)
    next
      case False
      then have gt: "\<not> cdist ?c (home ?c (sl_key ?s)) (unat i) \<le> cdist ?c (home ?c (sl_key ?s)) (unat ?j)"
        using offs kk by (simp add: word_le_nat_alt)
      have "shift_inv sl (unat i) (unat ?j)" by (rule shift_skip [OF Suc.prems(2) j' ne gt])
      then have "\<exists>sl'. om_shift n sl ?m i ?j = Some sl' \<and> length sl' = length sl
          \<and> table_ok sl' \<and> contents sl' = contents sl \<and> used sl' = used sl"
        using Suc.prems n' ne' by (intro Suc.IH) simp_all
      then show ?thesis using ne False by (simp add: Let_def)
    qed
  qed
qed

text \<open>Clearing the slot of a stored key starts the scan.\<close>

lemma shift_start:
  assumes ok: "table_ok sl" and i: "i < length sl" and ne: "sl_key (sl ! i) \<noteq> kEmpty"
  shows "shift_inv (sl[i := slot_default]) i i"
    and "contents (sl[i := slot_default]) = {(x, v) \<in> contents sl. x \<noteq> sl_key (sl ! i)}"
    and "Suc (used (sl[i := slot_default])) = used sl"
proof -
  let ?sl = "sl[i := slot_default]"
  have def_key: "sl_key slot_default = kEmpty" "sl_value slot_default = None"
    by (simp_all add: slot_default_def)
  have R: "reachable sl None" and kd: "keys_distinct sl" and vo: "values_ok sl"
    using ok by (auto simp: table_ok_def)
  have "reachable ?sl (Some i)"
    unfolding reachable_def
  proof (intro allI impI)
    fix p x
    assume p: "p < length ?sl" "sl_key (?sl ! p) \<noteq> kEmpty" and x: "x < length ?sl" "Some x \<noteq> Some i"
      and d: "cdist (length ?sl) (home (length ?sl) (sl_key (?sl ! p))) x
        < cdist (length ?sl) (home (length ?sl) (sl_key (?sl ! p))) p"
    have "p \<noteq> i" using p i def_key by auto
    then show "sl_key (?sl ! x) \<noteq> kEmpty"
      using reachableD [OF R, of p x] p x d by simp
  qed
  moreover have "keys_distinct ?sl"
    unfolding keys_distinct_def
  proof (intro allI impI)
    fix p q
    assume p: "p < length ?sl" and q: "q < length ?sl"
      and eq: "sl_key (?sl ! p) = sl_key (?sl ! q)" and pne: "sl_key (?sl ! p) \<noteq> kEmpty"
    have "p \<noteq> i" using pne i def_key by auto
    moreover have "q \<noteq> i" using pne eq i def_key by auto
    ultimately show "p = q"
      using kd p q eq pne unfolding keys_distinct_def by simp
  qed
  moreover have "values_ok ?sl"
    using vo def_key unfolding values_ok_def by (auto dest!: set_update_subset_insert [THEN subsetD])
  moreover have "\<forall>p < length sl. p \<noteq> i \<longrightarrow> \<not> cdist (length sl) i p \<le> cdist (length sl) i i"
    using cdist_0 [of i "length sl"] i by auto
  ultimately show "shift_inv ?sl i i" using i def_key by (auto simp: shift_inv_def)
  have kdD: "x = i" if "x < length sl" "sl_key (sl ! x) = sl_key (sl ! i)" for x
    using kd i ne that unfolding keys_distinct_def by metis
  have "contents ?sl = {(sl_key (?sl ! p), v) | p v. p < length sl \<and> sl_key (?sl ! p) \<noteq> kEmpty \<and> sl_value (?sl ! p) = Some v}"
    by (simp only: contents_nth [of ?sl] length_list_update)
  also have "\<dots> = {(sl_key (sl ! p), v) | p v. p < length sl \<and> p \<noteq> i \<and> sl_key (sl ! p) \<noteq> kEmpty \<and> sl_value (sl ! p) = Some v}"
  proof (intro Collect_cong ex_cong1)
    fix x p v
    show "(x = (sl_key (?sl ! p), v) \<and> p < length sl \<and> sl_key (?sl ! p) \<noteq> kEmpty \<and> sl_value (?sl ! p) = Some v)
      = (x = (sl_key (sl ! p), v) \<and> p < length sl \<and> p \<noteq> i \<and> sl_key (sl ! p) \<noteq> kEmpty \<and> sl_value (sl ! p) = Some v)"
      using i by (cases "p = i") (auto simp: def_key)
  qed
  also have "\<dots> = {(x, v) \<in> contents sl. x \<noteq> sl_key (sl ! i)}"
    using kdD by (auto simp: contents_def in_set_conv_nth)
  finally show "contents ?sl = {(x, v) \<in> contents sl. x \<noteq> sl_key (sl ! i)}" .
  show "Suc (used ?sl) = used sl" using used_update [OF i, of slot_default] ne def_key by simp
qed


subsection \<open>The table implements the map contract\<close>

definition om_inv :: "'v OpenMap \<Rightarrow> bool" where
  "om_inv m \<longleftrightarrow>
     (\<exists>k \<le> 62. length (om_slots m) = 2 ^ k) \<and> om_mask m = of_nat (length (om_slots m) - 1)
     \<and> table_ok (om_slots m) \<and> om_size m = used (om_slots m)
     \<and> om_size m * 10 < length (om_slots m) * 7"

lemma keys_distinctD:
  assumes "keys_distinct sl" and "p < length sl" and "q < length sl"
    and "sl_key (sl ! p) = sl_key (sl ! q)" and "sl_key (sl ! p) \<noteq> kEmpty"
  shows "p = q"
  using assms unfolding keys_distinct_def by blast

lemma key_in_contents:
  assumes "values_ok sl" and "t \<in> set sl" and "sl_key t \<noteq> kEmpty"
  obtains w where "(sl_key t, w) \<in> contents sl"
  using assms unfolding values_ok_def contents_def by fastforce

lemma contents_key: "(x, w) \<in> contents sl \<Longrightarrow> x \<in> sl_key ` set sl \<and> x \<noteq> kEmpty"
  by (auto simp: contents_def)

lemma keys_distinct_fresh:
  assumes kd: "keys_distinct (pre @ s # old)" and ne: "sl_key s \<noteq> kEmpty"
  shows "sl_key s \<notin> sl_key ` set pre"
proof
  assume "sl_key s \<in> sl_key ` set pre"
  then obtain p where "p < length pre" "sl_key (pre ! p) = sl_key s"
    by (auto simp: in_set_conv_nth)
  then show False
    using keys_distinctD [OF kd, of p "length pre"] ne by (simp add: nth_append)
qed

lemma om_lookup_contents:
  assumes kd: "keys_distinct (om_slots m)" and vo: "values_ok (om_slots m)"
  shows "om_lookup m oid = Some v \<longleftrightarrow> (oid, v) \<in> contents (om_slots m)"
proof
  assume l: "om_lookup m oid = Some v"
  then have ne: "oid \<noteq> kEmpty" by (auto simp: om_lookup_def split: if_splits)
  with l obtain s where "List.find (\<lambda>s. sl_key s = oid) (om_slots m) = Some s" "sl_value s = Some v"
    by (auto simp: om_lookup_def split: bind_splits)
  then show "(oid, v) \<in> contents (om_slots m)"
    using ne by (auto simp: contents_def find_Some_iff)
next
  assume "(oid, v) \<in> contents (om_slots m)"
  then obtain p where p: "p < length (om_slots m)" "sl_key (om_slots m ! p) = oid" "oid \<noteq> kEmpty"
    "sl_value (om_slots m ! p) = Some v" by (auto simp: contents_def in_set_conv_nth)
  have "List.find (\<lambda>s. sl_key s = oid) (om_slots m) = Some (om_slots m ! p)"
    unfolding find_Some_iff
  proof (intro exI [of _ p] conjI allI impI)
    fix j assume "j < p"
    then show "sl_key (om_slots m ! j) \<noteq> oid"
      using keys_distinctD [OF kd, of j p] p by auto
  qed (use p in simp_all)
  then show "om_lookup m oid = Some v" using p by (simp add: om_lookup_def)
qed

lemma om_lookup_eqI:
  assumes "keys_distinct (om_slots m)" "values_ok (om_slots m)"
    and "\<And>x v. (x, v) \<in> contents (om_slots m) \<longleftrightarrow> f x = Some v"
  shows "om_lookup m = f"
proof
  fix x
  show "om_lookup m x = f x"
    using om_lookup_contents [OF assms(1,2)] assms(3) by (cases "f x") (metis not_None_eq)+
qed

lemma om_invD:
  assumes "om_inv m"
  obtains k e where "k \<le> 64" and "length (om_slots m) = 2 ^ k"
    and "om_mask m = of_nat (length (om_slots m) - 1)" and "table_ok (om_slots m)"
    and "e < length (om_slots m)" and "sl_key (om_slots m ! e) = kEmpty"
    and "om_size m = used (om_slots m)" and "k \<le> 62"
proof -
  have "used (om_slots m) < length (om_slots m)" using assms unfolding om_inv_def by linarith
  then obtain e where "e < length (om_slots m)" "sl_key (om_slots m ! e) = kEmpty"
    by (rule used_less_empty)
  moreover obtain k where "k \<le> 62" "length (om_slots m) = 2 ^ k" using assms unfolding om_inv_def by blast
  ultimately show thesis using assms that [of k e] unfolding om_inv_def by auto
qed

lemma om_lookup_0: "om_lookup m 0 = None"
  by (simp add: om_lookup_def kEmpty_def)

lemma om_find_law:
  assumes inv: "om_inv m"
  shows "om_find m oid = Some (om_lookup m oid)"
proof -
  obtain k e where k: "k \<le> 64" "length (om_slots m) = 2 ^ k"
    and m: "om_mask m = of_nat (length (om_slots m) - 1)" and ok: "table_ok (om_slots m)"
    and e: "e < length (om_slots m)" "sl_key (om_slots m ! e) = kEmpty"
    using om_invD [OF inv] by metis
  let ?sl = "om_slots m"
  have R: "reachable ?sl None" and kd: "keys_distinct ?sl" and vo: "values_ok ?sl"
    using ok by (auto simp: table_ok_def)
  obtain r where r: "om_probe (length ?sl) ?sl (of_nat (length ?sl - 1)) oid
      (splitmix_finalize oid AND of_nat (length ?sl - 1)) = Some r"
    "unat r < length ?sl" "sl_key (?sl ! unat r) = oid \<or>
         sl_key (?sl ! unat r) = kEmpty \<and> (oid \<noteq> kEmpty \<longrightarrow> oid \<notin> sl_key ` set ?sl)"
    using om_probe_home [OF k(2,1) R e] by metis
  have vr: "sl_value (?sl ! unat r) = None \<longleftrightarrow> sl_key (?sl ! unat r) = kEmpty"
    using vo r(2) unfolding values_ok_def by simp
  have "om_lookup m oid = (if sl_key (?sl ! unat r) = oid then sl_value (?sl ! unat r) else None)"
  proof (cases "sl_key (?sl ! unat r) = oid")
    case True
    show ?thesis
    proof (cases "sl_value (?sl ! unat r)")
      case None
      then show ?thesis using vr True by (simp add: om_lookup_def)
    next
      case (Some v)
      then have "(oid, v) \<in> contents ?sl"
        using vr True r(2) unfolding contents_def by (auto intro!: exI [of _ "?sl ! unat r"])
      then show ?thesis using om_lookup_contents [OF kd vo] True Some by auto
    qed
  next
    case False
    then have "oid = kEmpty \<or> oid \<notin> sl_key ` set ?sl" using r(3) by blast
    then have "oid = kEmpty \<or> List.find (\<lambda>s. sl_key s = oid) ?sl = None"
      by (auto simp: find_None_iff)
    then have "om_lookup m oid = None" by (auto simp: om_lookup_def)
    then show ?thesis using False by simp
  qed
  then show ?thesis using r(1) m by (simp add: om_find_def Let_def)
qed

text \<open>Rehashing stores every key of the old slots in the new array.\<close>

lemma om_reinsert_spec:
  assumes k: "k \<le> 64" and old: "keys_distinct (pre @ old)" "values_ok old"
    and new: "length sl = 2 ^ k" "table_ok sl" "contents sl = contents pre" "used sl = used pre"
    and room: "used (pre @ old) < 2 ^ k" and vp: "values_ok pre"
  shows "\<exists>sl'. om_reinsert old (of_nat (2 ^ k - 1)) sl = Some sl' \<and> length sl' = 2 ^ k
    \<and> table_ok sl' \<and> contents sl' = contents (pre @ old) \<and> used sl' = used (pre @ old)"
  using old new room vp
proof (induction old arbitrary: pre sl)
  case Nil
  then show ?case by simp
next
  case (Cons s old)
  have app: "pre @ s # old = (pre @ [s]) @ old" by simp
  show ?case
  proof (cases "sl_key s = kEmpty")
    case True
    have "contents (pre @ [s]) = contents pre" "used (pre @ [s]) = used pre"
      using True by (auto simp: contents_def used_def)
    then show ?thesis
      using Cons.IH [of "pre @ [s]" sl] Cons.prems True by (simp add: values_ok_def)
  next
    case False
    have us: "used (pre @ [s]) = Suc (used pre)" using False by (simp add: used_def)
    have "used sl < length sl"
      using Cons.prems(6,7,3) us by (simp add: used_def)
    then obtain e where e: "e < length sl" "sl_key (sl ! e) = kEmpty" by (rule used_less_empty)
    have R: "reachable sl None" using Cons.prems(4) by (simp add: table_ok_def)
    obtain r where r: "om_probe (length sl) sl (of_nat (length sl - 1)) kEmpty
        (splitmix_finalize (sl_key s) AND of_nat (length sl - 1)) = Some r"
      "unat r < length sl" "sl_key (sl ! unat r) = kEmpty"
      "\<forall>x < length sl. cdist (length sl) (home (length sl) (sl_key s)) x
           < cdist (length sl) (home (length sl) (sl_key s)) (unat r) \<longrightarrow> sl_key (sl ! x) \<noteq> kEmpty"
    proof -
      let ?h = "splitmix_finalize (sl_key s) AND of_nat (length sl - 1)"
      have h: "unat ?h = home (length sl) (sl_key s)"
        using unat_and_mask [OF k] Cons.prems(3) by (simp add: home_def)
      have hl: "unat ?h < length sl" unfolding h using e(1) by (intro home_less) linarith
      show thesis
        using om_probe_spec [OF Cons.prems(3) k hl e(1), of kEmpty "length sl"] e(2) cdist_less [OF hl e(1)] that
        unfolding h by auto
    qed
    obtain v where v: "sl_value s = Some v"
      using Cons.prems(2) False unfolding values_ok_def by auto
    have fresh: "sl_key s \<notin> sl_key ` set sl"
    proof
      assume "sl_key s \<in> sl_key ` set sl"
      then obtain t where t: "t \<in> set sl" "sl_key t = sl_key s" by auto
      moreover have "values_ok sl" using Cons.prems(4) by (simp add: table_ok_def)
      ultimately obtain w where "(sl_key s, w) \<in> contents sl"
        using False by (metis key_in_contents)
      then have "sl_key s \<in> sl_key ` set pre"
        using Cons.prems(5) contents_key by metis
      then show False using keys_distinct_fresh [OF Cons.prems(1) False] by blast
    qed
    let ?sl = "sl[unat r := s]"
    have t: "table_ok ?sl" "used ?sl = Suc (used sl)"
      using table_insert [OF Cons.prems(4) r(2,3) False _ fresh r(4)] v by simp_all
    have "contents ?sl = contents (pre @ [s])"
      using contents_update [OF r(2,3) False v] Cons.prems(5) False v by (auto simp: contents_def)
    moreover have "values_ok (pre @ [s])"
      using Cons.prems(2,8) by (simp add: values_ok_def)
    ultimately have "\<exists>sl'. om_reinsert old (of_nat (2 ^ k - 1)) ?sl = Some sl' \<and> length sl' = 2 ^ k
        \<and> table_ok sl' \<and> contents sl' = contents ((pre @ [s]) @ old) \<and> used sl' = used ((pre @ [s]) @ old)"
      using Cons.prems t us by (intro Cons.IH) (simp_all add: values_ok_def)
    then show ?thesis using r(1) False Cons.prems(3) by simp
  qed
qed


lemma table_ok_replicate: "table_ok (replicate n slot_default)"
  by (auto simp: table_ok_def reachable_def keys_distinct_def values_ok_def slot_default_def)

lemma replicate_contents: "contents (replicate n slot_default) = {}" "used (replicate n slot_default) = 0"
  by (auto simp: contents_def used_def slot_default_def)

lemma om_rehash_spec:
  assumes kd: "keys_distinct (om_slots m)" "values_ok (om_slots m)" and k: "k \<le> 64"
    and room: "used (om_slots m) < 2 ^ k"
  shows "\<exists>m'. om_rehash m (2 ^ k) = Some m' \<and> length (om_slots m') = 2 ^ k
    \<and> om_mask m' = of_nat (2 ^ k - 1) \<and> table_ok (om_slots m')
    \<and> contents (om_slots m') = contents (om_slots m) \<and> used (om_slots m') = used (om_slots m)
    \<and> om_size m' = om_size m"
proof -
  have "\<exists>sl'. om_reinsert (om_slots m) (of_nat (2 ^ k - 1)) (replicate (2 ^ k) slot_default) = Some sl'
      \<and> length sl' = 2 ^ k \<and> table_ok sl' \<and> contents sl' = contents ([] @ om_slots m)
      \<and> used sl' = used ([] @ om_slots m)"
    using assms table_ok_replicate [of "2 ^ k"] replicate_contents [of "2 ^ k"]
    by (intro om_reinsert_spec) (simp_all add: contents_def used_def values_ok_def)
  then show ?thesis by (auto simp: om_rehash_def Let_def)
qed

lemma om_inv_slots:
  "om_inv m \<Longrightarrow> keys_distinct (om_slots m)" "om_inv m \<Longrightarrow> values_ok (om_slots m)"
  by (simp_all add: om_inv_def table_ok_def)

lemma om_new_law: "\<exists>m :: 'v OpenMap. om_new = Some m \<and> om_inv m \<and> om_lookup m = Map.empty"
proof -
  let ?m = "\<lparr>om_slots = [], om_mask = 0, om_size = 0\<rparr> :: 'v OpenMap"
  have e: "keys_distinct (om_slots ?m)" "values_ok (om_slots ?m)" "used (om_slots ?m) < 2 ^ 10"
    by (simp_all add: keys_distinct_def values_ok_def used_def)
  have "\<exists>m'. om_rehash ?m (2 ^ 10) = Some m' \<and> length (om_slots m') = 2 ^ 10
    \<and> om_mask m' = of_nat (2 ^ 10 - 1) \<and> table_ok (om_slots m')
    \<and> contents (om_slots m') = contents (om_slots ?m) \<and> used (om_slots m') = used (om_slots ?m)
    \<and> om_size m' = om_size ?m"
    by (rule om_rehash_spec [OF e(1,2) _ e(3)]) simp
  then obtain m where m: "om_rehash ?m (2 ^ 10) = Some m"
    "length (om_slots m) = 2 ^ 10" "om_mask m = of_nat (2 ^ 10 - 1)" "table_ok (om_slots m)"
    "contents (om_slots m) = contents (om_slots ?m)" "used (om_slots m) = used (om_slots ?m)"
    "om_size m = om_size ?m"
    by blast
  have em: "contents (om_slots ?m) = {}" "used (om_slots ?m) = 0" by (simp_all add: contents_def used_def)
  have "om_inv m"
    using m em by (auto simp: om_inv_def intro!: exI [of _ 10])
  moreover have "om_lookup m = Map.empty"
    using m(4,5) em by (intro om_lookup_eqI) (auto simp: table_ok_def)
  ultimately show ?thesis using m(1) by (auto simp: om_new_def kInitialCapacity_def)
qed

text \<open>The growth step of \<^verbatim>\<open>insert\<close> leaves room below the load limit.\<close>

lemma om_grow_law:
  assumes inv: "om_inv m" and small: "om_size m < 2 ^ 40"
  shows "\<exists>m'. (if (om_size m + 1) * 10 \<ge> length (om_slots m) * 7
           then om_rehash m (length (om_slots m) * 2) else Some m) = Some m'
     \<and> om_inv m' \<and> om_lookup m' = om_lookup m \<and> (om_size m' + 1) * 10 < length (om_slots m') * 7
     \<and> om_size m' = om_size m"
proof (cases "(om_size m + 1) * 10 \<ge> length (om_slots m) * 7")
  case True
  obtain k where k: "k \<le> 62" "length (om_slots m) = 2 ^ k" and sz: "om_size m = used (om_slots m)"
    and ld: "om_size m * 10 < 2 ^ k * 7"
    using inv unfolding om_inv_def by auto
  have "(2 :: nat) ^ k < 2 ^ 42" using True k(2) small by simp
  then have k42: "k < 42" by (simp only: power_strict_increasing_iff one_less_numeral_iff semiring_norm)
  have "used (om_slots m) < 2 ^ Suc k" using sz ld by simp
  then obtain m' where m': "om_rehash m (2 ^ Suc k) = Some m'" "length (om_slots m') = 2 ^ Suc k"
    "om_mask m' = of_nat (2 ^ Suc k - 1)" "table_ok (om_slots m')"
    "contents (om_slots m') = contents (om_slots m)" "used (om_slots m') = used (om_slots m)"
    "om_size m' = om_size m"
    using om_rehash_spec [OF om_inv_slots [OF inv], of "Suc k"] k42 by auto
  have ld': "(om_size m + 1) * 10 < 2 ^ Suc k * 7"
  proof (cases k)
    case (Suc n)
    have "om_size m * 10 < 14 * 2 ^ n" using ld Suc by simp
    moreover have "(1 :: nat) \<le> 2 ^ n" by simp
    ultimately have "om_size m * 10 + 10 < 28 * 2 ^ n" by linarith
    then show ?thesis using Suc by simp
  next
    case 0
    then have "om_size m * 10 < 7" using ld by simp
    then have "om_size m = 0" by presburger
    then show ?thesis using 0 by simp
  qed
  have "om_inv m'"
    unfolding om_inv_def using m' k42 sz ld by (auto intro!: exI [of _ "Suc k"])
  moreover have "om_lookup m' = om_lookup m"
    using m'(4,5) om_lookup_contents [OF om_inv_slots [OF inv]]
    by (intro om_lookup_eqI) (auto simp: table_ok_def)
  ultimately show ?thesis
    using True m' ld' k(2) by (auto simp: mult.commute)
next
  case False
  then show ?thesis using inv by auto
qed

lemma om_insert_law:
  assumes inv: "om_inv m" and ne: "oid \<noteq> 0" and small: "om_size m < 2 ^ 40"
  shows "\<exists>m'. om_insert m oid v = Some (om_lookup m oid = None, m') \<and> om_inv m'
    \<and> om_lookup m' = (if om_lookup m oid = None then (om_lookup m)(oid \<mapsto> v) else om_lookup m)"
proof -
  obtain m1 where g: "(if (om_size m + 1) * 10 \<ge> length (om_slots m) * 7
       then om_rehash m (length (om_slots m) * 2) else Some m) = Some m1"
    and inv1: "om_inv m1" and look: "om_lookup m1 = om_lookup m"
    and ld: "(om_size m1 + 1) * 10 < length (om_slots m1) * 7"
    using om_grow_law [OF inv small] by blast
  let ?sl = "om_slots m1" and ?s = "\<lparr>sl_key = oid, sl_value = Some v\<rparr>"
  obtain k e where k: "k \<le> 64" "length ?sl = 2 ^ k" "k \<le> 62"
    and m: "om_mask m1 = of_nat (length ?sl - 1)" and ok: "table_ok ?sl"
    and e: "e < length ?sl" "sl_key (?sl ! e) = kEmpty" and sz: "om_size m1 = used ?sl"
    using om_invD [OF inv1] by metis
  have R: "reachable ?sl None" using ok by (simp add: table_ok_def)
  obtain r where r: "om_probe (length ?sl) ?sl (of_nat (length ?sl - 1)) oid
      (splitmix_finalize oid AND of_nat (length ?sl - 1)) = Some r"
    "unat r < length ?sl" "sl_key (?sl ! unat r) = oid \<or>
         sl_key (?sl ! unat r) = kEmpty \<and> (oid \<noteq> kEmpty \<longrightarrow> oid \<notin> sl_key ` set ?sl)"
    "\<forall>x < length ?sl. cdist (length ?sl) (home (length ?sl) oid) x
           < cdist (length ?sl) (home (length ?sl) oid) (unat r) \<longrightarrow> sl_key (?sl ! x) \<noteq> kEmpty"
    using om_probe_home [OF k(2,1) R e] by metis
  have ne': "oid \<noteq> kEmpty" using ne by (simp add: kEmpty_def)
  note lc = om_lookup_contents [OF om_inv_slots [OF inv1]]
  show ?thesis
  proof (cases "sl_key (?sl ! unat r) = kEmpty")
    case False
    then have key: "sl_key (?sl ! unat r) = oid" using r(3) by blast
    then obtain w where "(oid, w) \<in> contents ?sl"
      using key_in_contents [OF om_inv_slots(2) [OF inv1], of "?sl ! unat r"] r(2) ne' by auto
    then have "om_lookup m oid \<noteq> None" using lc look by auto
    moreover have "om_insert m oid v = Some (False, m1)"
      unfolding om_insert_def g using r(1) False m by simp
    ultimately show ?thesis using inv1 look by auto
  next
    case True
    then have new: "oid \<notin> sl_key ` set ?sl" using r(3) ne' by auto
    then have none: "om_lookup m1 oid = None"
      using lc contents_key by (metis not_None_eq)
    have nc: "(oid, w) \<notin> contents ?sl" for w
      using new contents_key [of oid w ?sl] by blast
    let ?m = "m1\<lparr>om_slots := ?sl[unat r := ?s], om_size := om_size m1 + 1\<rparr>"
    have t: "table_ok (?sl[unat r := ?s])" "used (?sl[unat r := ?s]) = Suc (used ?sl)"
      using table_insert [OF ok r(2) True, of ?s] ne' new r(4) by simp_all
    have "om_inv ?m"
      unfolding om_inv_def using t sz ld m k by auto
    moreover have "contents (?sl[unat r := ?s]) = insert (oid, v) (contents ?sl)"
      using contents_update [OF r(2) True, of ?s v] ne' by simp
    then have "om_lookup ?m = (om_lookup m)(oid \<mapsto> v)"
      using t(1) lc look nc
      by (intro om_lookup_eqI) (auto simp: table_ok_def split: if_splits)
    moreover have "om_insert m oid v = Some (True, ?m)"
      unfolding om_insert_def g using r(1) True m by simp
    ultimately show ?thesis using none look by auto
  qed
qed

lemma om_erase_law:
  assumes inv: "om_inv m" and ne: "oid \<noteq> 0"
  shows "\<exists>m'. om_erase m oid = Some (om_lookup m oid \<noteq> None, m') \<and> om_inv m'
    \<and> om_lookup m' = (om_lookup m)(oid := None)"
proof -
  let ?sl = "om_slots m"
  obtain k e where k: "k \<le> 64" "length ?sl = 2 ^ k" "k \<le> 62"
    and m: "om_mask m = of_nat (length ?sl - 1)" and ok: "table_ok ?sl"
    and e: "e < length ?sl" "sl_key (?sl ! e) = kEmpty" and sz: "om_size m = used ?sl"
    using om_invD [OF inv] by metis
  have R: "reachable ?sl None" using ok by (simp add: table_ok_def)
  obtain r where r: "om_probe (length ?sl) ?sl (of_nat (length ?sl - 1)) oid
      (splitmix_finalize oid AND of_nat (length ?sl - 1)) = Some r"
    "unat r < length ?sl" "sl_key (?sl ! unat r) = oid \<or>
         sl_key (?sl ! unat r) = kEmpty \<and> (oid \<noteq> kEmpty \<longrightarrow> oid \<notin> sl_key ` set ?sl)"
    using om_probe_home [OF k(2,1) R e] by metis
  have ne': "oid \<noteq> kEmpty" using ne by (simp add: kEmpty_def)
  note lc = om_lookup_contents [OF om_inv_slots [OF inv]]
  show ?thesis
  proof (cases "sl_key (?sl ! unat r) = oid")
    case False
    then have "oid \<notin> sl_key ` set ?sl" using r(3) ne' by blast
    then have "om_lookup m oid = None"
      using lc contents_key by (metis not_None_eq)
    moreover have "om_erase m oid = Some (False, m)"
      unfolding om_erase_def using r(1) False m by simp
    ultimately show ?thesis using inv by (auto simp: fun_upd_idem)
  next
    case True
    let ?tl = "?sl[unat r := slot_default]"
    have nr: "sl_key (?sl ! unat r) \<noteq> kEmpty" using True ne' by simp
    note st = shift_start [OF ok r(2) nr]
    have er: "e \<noteq> unat r" using e nr by metis
    have "\<exists>sl'. om_shift (length ?tl) ?tl (of_nat (length ?tl - 1)) r r = Some sl'
        \<and> length sl' = length ?tl \<and> table_ok sl' \<and> contents sl' = contents ?tl \<and> used sl' = used ?tl"
      using k st(1) e er cdist_less [OF r(2) e(1)]
      by (intro om_shift_spec [where e = e]) auto
    then obtain sl' where sl': "om_shift (length ?sl) ?tl (om_mask m) r r = Some sl'"
      "length sl' = length ?sl" "table_ok sl'" "contents sl' = contents ?tl" "used sl' = used ?tl"
      using m by auto
    let ?m = "m\<lparr>om_slots := sl', om_size := om_size m - 1\<rparr>"
    have us: "om_size m - 1 = used sl'" using sz st(3) sl'(5) by simp
    have "om_inv ?m"
      using inv sl'(2,3) us unfolding om_inv_def by auto
    moreover have "om_lookup ?m = (om_lookup m)(oid := None)"
      using sl'(3,4) st(2) lc True by (intro om_lookup_eqI) (auto simp: table_ok_def)
    moreover obtain w where "(oid, w) \<in> contents ?sl"
      using key_in_contents [OF om_inv_slots(2) [OF inv] nth_mem [OF r(2)] nr] True by metis
    then have "om_lookup m oid \<noteq> None" using lc by auto
    moreover have "om_erase m oid = Some (True, ?m)"
      unfolding om_erase_def om_erase_at_def using r(1) True m sl'(1) by simp
    ultimately show ?thesis by auto
  qed
qed

lemma om_dom:
  assumes inv: "om_inv m"
  shows "finite (dom (om_lookup m))" and "om_size m = card (dom (om_lookup m))"
proof -
  let ?sl = "om_slots m" let ?P = "{p. p < length (om_slots m) \<and> sl_key (om_slots m ! p) \<noteq> kEmpty}"
  note lc = om_lookup_contents [OF om_inv_slots [OF inv]]
  have dom: "dom (om_lookup m) = (\<lambda>p. sl_key (?sl ! p)) ` ?P"
  proof
    show "dom (om_lookup m) \<subseteq> (\<lambda>p. sl_key (?sl ! p)) ` ?P"
      using lc by (auto simp: contents_nth)
    show "(\<lambda>p. sl_key (?sl ! p)) ` ?P \<subseteq> dom (om_lookup m)"
    proof clarify
      fix p assume "p < length ?sl" "sl_key (?sl ! p) \<noteq> kEmpty"
      then obtain w where "(sl_key (?sl ! p), w) \<in> contents ?sl"
        using key_in_contents [OF om_inv_slots(2) [OF inv], of "?sl ! p"] by auto
      then show "\<exists>y. om_lookup m (sl_key (?sl ! p)) = Some y" using lc by blast
    qed
  qed
  show "finite (dom (om_lookup m))" unfolding dom by simp
  have "inj_on (\<lambda>p. sl_key (?sl ! p)) ?P"
    using keys_distinctD [OF om_inv_slots(1) [OF inv]] by (auto simp: inj_on_def)
  then have "card (dom (om_lookup m)) = card ?P" unfolding dom by (rule card_image)
  also have "\<dots> = used ?sl" by (simp add: used_def length_filter_conv_card)
  finally show "om_size m = card (dom (om_lookup m))" using inv by (simp add: om_inv_def)
qed

text \<open>\<^verbatim>\<open>reserve\<close>: the capacity asked for is a power of two no smaller than needed, and the table
  keeps its contents.\<close>

lemma om_want_power:
  assumes "n < 2 ^ 40" and "k \<le> 42"
  shows "\<exists>j \<le> 42. om_want (2 ^ k) n = 2 ^ j \<and> k \<le> j \<and> n * 10 \<le> 2 ^ j * 7"
  using assms(2)
proof (induction "42 - k" arbitrary: k)
  case 0
  then have "k = 42" by simp
  then show ?case using assms(1) by (subst om_want.simps) auto
next
  case (Suc d)
  show ?case
  proof (cases "2 ^ k * 7 < n * 10")
    case True
    have "\<exists>j \<le> 42. om_want (2 ^ Suc k) n = 2 ^ j \<and> Suc k \<le> j \<and> n * 10 \<le> 2 ^ j * 7"
      using Suc.hyps(2) by (intro Suc.hyps(1)) simp_all
    moreover have "om_want (2 ^ k) n = om_want (2 ^ Suc k) n"
      using True by (subst om_want.simps) (simp add: mult.commute)
    ultimately show ?thesis by (metis Suc_leD)
  next
    case False
    then have "om_want (2 ^ k) n = 2 ^ k" by (subst om_want.simps) simp
    then show ?thesis using Suc.prems False by (intro exI [of _ k]) simp
  qed
qed

lemma om_reserve_law:
  assumes inv: "om_inv m" and n: "n < 2 ^ 40"
  shows "\<exists>m'. om_reserve m n = Some m' \<and> om_inv m' \<and> om_lookup m' = om_lookup m
    \<and> n * 10 \<le> length (om_slots m') * 7"
proof -
  obtain j where j: "j \<le> 42" "om_want kInitialCapacity n = 2 ^ j" "n * 10 \<le> 2 ^ j * 7"
    using om_want_power [OF n, of 10] by (auto simp: kInitialCapacity_def)
  show ?thesis
  proof (cases "2 ^ j > length (om_slots m)")
    case True
    have "used (om_slots m) < 2 ^ j"
      using True used_le [of "om_slots m"] by simp
    then obtain m' where m': "om_rehash m (2 ^ j) = Some m'" "length (om_slots m') = 2 ^ j"
      "om_mask m' = of_nat (2 ^ j - 1)" "table_ok (om_slots m')"
      "contents (om_slots m') = contents (om_slots m)" "used (om_slots m') = used (om_slots m)"
      "om_size m' = om_size m"
      using om_rehash_spec [OF om_inv_slots [OF inv], of j] j by auto
    have "om_size m = used (om_slots m)" "om_size m * 10 < length (om_slots m) * 7"
      using inv by (auto simp: om_inv_def)
    then have "om_inv m'"
      unfolding om_inv_def using m' j True by (auto intro!: exI [of _ j])
    moreover have "om_lookup m' = om_lookup m"
      using m'(4,5) om_lookup_contents [OF om_inv_slots [OF inv]]
      by (intro om_lookup_eqI) (auto simp: table_ok_def)
    ultimately show ?thesis using True m' j by (auto simp: om_reserve_def)
  next
    case False
    then have "n * 10 \<le> length (om_slots m) * 7" using j(3) by simp
    then show ?thesis using False j(2) inv by (auto simp: om_reserve_def)
  qed
qed

interpretation open_map: id_map om_new om_reserve om_find om_insert om_erase om_size om_inv om_lookup
proof unfold_locales
  show "\<exists>m'. om_reserve m n = Some m' \<and> om_inv m' \<and> om_lookup m' = om_lookup m"
    if "om_inv m" "n < 2 ^ 40" for m :: "'v OpenMap" and n
    using om_reserve_law [OF that] by blast
qed (rule om_lookup_0 om_new_law | erule om_find_law om_dom | erule (2) om_insert_law | erule (1) om_erase_law)+

text \<open>C17: The open-addressing table of \<^verbatim>\<open>id_map.hpp\<close> is a map.  Started empty and given any
  sequence of find, insert and erase calls on non-zero ids (fewer than \<open>2 ^ 40\<close> of them, so that
  the capacity stays representable), every probe, rehash and backward-shift loop ends and each
  call answers what a partial map answers; \<^verbatim>\<open>StdIdMap\<close> answers the same.\<close>

theorem id_maps_agree:
  fixes ops :: "'v id_op list"
  assumes "\<forall>op1 \<in> set ops. id_op_ok op1" and "length ops < 2 ^ 40"
  shows "do { m \<leftarrow> om_new; (rs, m) \<leftarrow> map_run om_find om_insert om_erase m ops; Some rs }
           = Some (fst (spec_run Map.empty ops))
       \<and> do { (rs, m) \<leftarrow> map_run std_find std_insert std_erase std_new ops; Some rs }
           = Some (fst (spec_run Map.empty ops))"
proof
  obtain m :: "'v OpenMap" where m: "om_new = Some m" "om_inv m" "om_lookup m = Map.empty"
    using om_new_law by blast
  then have "om_size m = 0" using om_dom(2) [OF m(2)] by simp
  then show "do { m \<leftarrow> om_new; (rs, m) \<leftarrow> map_run om_find om_insert om_erase m ops; Some rs }
           = Some (fst (spec_run Map.empty ops))"
    using open_map.map_run_spec [OF m(2) assms(1)] m(3) assms(2) by (auto simp: m(1))
  have "std_inv (std_new :: 'v StdMap)" "sm_entries (std_new :: 'v StdMap) = Map.empty"
    "sm_count (std_new :: 'v StdMap) = 0"
    by (simp_all add: std_inv_def std_new_def)
  then show "do { (rs, m) \<leftarrow> map_run std_find std_insert std_erase std_new ops; Some rs }
           = Some (fst (spec_run Map.empty ops))"
    using std.map_run_spec [of "std_new :: 'v StdMap" ops] assms by auto
qed

theorem id_maps_agree_witness:
  "do { m \<leftarrow> om_new; (rs, m) \<leftarrow> map_run om_find om_insert om_erase m
         [InsertOp 7 (1::nat), InsertOp 7 2, FindOp 7, EraseOp 7, EraseOp 7, FindOp 7]; Some rs }
     = Some [Done True, Done False, Found (Some 1), Done True, Done False, Found None]"
  using id_maps_agree [of "[InsertOp 7 (1::nat), InsertOp 7 2, FindOp 7, EraseOp 7, EraseOp 7, FindOp 7]"]
  by (simp add: Let_def)

end
