(* ===== verification/BookRun.thy ===== *)
theory BookRun
  imports BookRefinement LadderMap LadderPooled LadderDense OpenAddressMap
begin

text \<open>
  Sequences of calls on a book, the six books the repository builds from its three ladders and two
  id maps, and the refinement of whole runs.
\<close>

subsection \<open>Calls\<close>

text \<open>The public entry points of \<^verbatim>\<open>OrderBook\<close> that change it, as data.\<close>

datatype book_op =
    LimitOp ParticipantId OrderId Side Price Qty
  | IocOp ParticipantId OrderId Side Price Qty
  | FokOp ParticipantId OrderId Side Price Qty
  | MarketOp ParticipantId OrderId Side Qty
  | CancelOp OrderId
  | ReplaceOp OrderId OrderId Price Qty
  | PassiveOp OrderId Side Price Qty
  | ExecuteOp OrderId Qty
  | ReduceOp OrderId Qty
  | PolicyOp SelfTradePolicy

text \<open>What a call reports: its result, the executions and the quantity \<^verbatim>\<open>consume\<close> hands back.\<close>

type_synonym answer = "Result \<times> Execution list \<times> Qty"

fun book_step :: "('l, 'm) policy \<Rightarrow> book_op \<Rightarrow> ('l, 'm) OrderBook \<Rightarrow> (answer \<times> ('l, 'm) OrderBook) option" where
  "book_step P (LimitOp actor oid s p q) b = do { (r, xs, b) \<leftarrow> add_limit_as P actor oid s p q b; Some ((r, xs, 0), b) }"
| "book_step P (IocOp actor oid s p q) b = do { (r, xs, b) \<leftarrow> add_ioc_as P actor oid s p q b; Some ((r, xs, 0), b) }"
| "book_step P (FokOp actor oid s p q) b = do { (r, xs, b) \<leftarrow> add_fok_as P actor oid s p q b; Some ((r, xs, 0), b) }"
| "book_step P (MarketOp actor oid s q) b = do { (r, xs, b) \<leftarrow> add_market_as P actor oid s q b; Some ((r, xs, 0), b) }"
| "book_step P (CancelOp oid) b = do { (r, b) \<leftarrow> cancel P oid b; Some ((r, [], 0), b) }"
| "book_step P (ReplaceOp old_id new_id p q) b = do { (r, xs, b) \<leftarrow> replace P old_id new_id p q b; Some ((r, xs, 0), b) }"
| "book_step P (PassiveOp oid s p q) b = do { (r, b) \<leftarrow> insert_passive P oid s p q b; Some ((r, [], 0), b) }"
| "book_step P (ExecuteOp oid q) b = do { (r, t, b) \<leftarrow> execute_resting P oid q b; Some ((r, [], t), b) }"
| "book_step P (ReduceOp oid q) b = do { (r, t, b) \<leftarrow> reduce_resting P oid q b; Some ((r, [], t), b) }"
| "book_step P (PolicyOp sp) b = Some ((Ok, [], 0), set_self_trade_policy sp b)"

fun book_run :: "('l, 'm) policy \<Rightarrow> book_op list \<Rightarrow> ('l, 'm) OrderBook \<Rightarrow> (answer list \<times> ('l, 'm) OrderBook) option" where
  "book_run P [] b = Some ([], b)"
| "book_run P (op1 # ops) b = do {
     (r, b) \<leftarrow> book_step P op1 b;
     (rs, b) \<leftarrow> book_run P ops b;
     Some (r # rs, b) }"

fun abs_step :: "(Price \<Rightarrow> bool) \<Rightarrow> book_op \<Rightarrow> ABook \<Rightarrow> answer \<times> ABook" where
  "abs_step V (LimitOp actor oid s p q) A = (let (r, xs, A) = abs_limit V actor oid s p q A in ((r, xs, 0), A))"
| "abs_step V (IocOp actor oid s p q) A = (let (r, xs, A) = abs_ioc V actor oid s p q A in ((r, xs, 0), A))"
| "abs_step V (FokOp actor oid s p q) A = (let (r, xs, A) = abs_fok V actor oid s p q A in ((r, xs, 0), A))"
| "abs_step V (MarketOp actor oid s q) A = (let (r, xs, A) = abs_market actor oid s q A in ((r, xs, 0), A))"
| "abs_step V (CancelOp oid) A = (let (r, A) = abs_cancel oid A in ((r, [], 0), A))"
| "abs_step V (ReplaceOp old_id new_id p q) A = (let (r, xs, A) = abs_replace V old_id new_id p q A in ((r, xs, 0), A))"
| "abs_step V (PassiveOp oid s p q) A = (let (r, A) = abs_insert_passive V oid s p q A in ((r, [], 0), A))"
| "abs_step V (ExecuteOp oid q) A = (let (r, t, A) = abs_consume oid q True A in ((r, [], t), A))"
| "abs_step V (ReduceOp oid q) A = (let (r, t, A) = abs_consume oid q False A in ((r, [], t), A))"
| "abs_step V (PolicyOp sp) A = ((Ok, [], 0), A\<lparr>ab_stp := sp\<rparr>)"

fun abs_run :: "(Price \<Rightarrow> bool) \<Rightarrow> book_op list \<Rightarrow> ABook \<Rightarrow> answer list \<times> ABook" where
  "abs_run V [] A = ([], A)"
| "abs_run V (op1 # ops) A = (let (r, A) = abs_step V op1 A; (rs, A) = abs_run V ops A in (r # rs, A))"

context book_policies begin

lemma step_sim:
  assumes r: "refines V b A" and small: "Suc (size_of b) < 2 ^ 32"
  shows "\<exists>b'. book_step P op1 b = Some (fst (abs_step V op1 A), b') \<and> refines V b' (snd (abs_step V op1 A))
    \<and> size_of b' \<le> Suc (size_of b)"
proof -
  have sm: "size_of b < 2 ^ 32" using small by simp
  show ?thesis
  proof (cases op1)
    case (LimitOp actor oid s p q)
    then show ?thesis using limit_sim [OF r small, of actor oid s p q] by (auto simp: split_beta)
  next
    case (IocOp actor oid s p q)
    then show ?thesis using ioc_sim [OF r sm, of actor oid s p q] by (auto simp: split_beta)
  next
    case (FokOp actor oid s p q)
    then show ?thesis using fok_sim [OF r sm, of actor oid s p q] by (auto simp: split_beta)
  next
    case (MarketOp actor oid s q)
    then show ?thesis using market_sim [OF r sm, of actor oid s q] by (auto simp: split_beta)
  next
    case (CancelOp oid)
    then show ?thesis using cancel_sim [OF r sm, of oid] by (auto simp: split_beta)
  next
    case (ReplaceOp old_id new_id p q)
    then show ?thesis using replace_sim [OF r small, of old_id new_id p q] by (auto simp: split_beta)
  next
    case (PassiveOp oid s p q)
    then show ?thesis using insert_passive_sim [OF r small, of oid s p q] by (auto simp: split_beta)
  next
    case (ExecuteOp oid q)
    then show ?thesis using consume_sim [OF r sm, of oid q True] by (auto simp: split_beta execute_resting_def)
  next
    case (ReduceOp oid q)
    then show ?thesis using consume_sim [OF r sm, of oid q False] by (auto simp: split_beta reduce_resting_def)
  next
    case (PolicyOp sp)
    then show ?thesis using set_policy_sim [OF r, of sp] by simp
  qed
qed

lemma run_sim:
  assumes "refines V b A" and "size_of b + length ops < 2 ^ 32"
  shows "\<exists>b'. book_run P ops b = Some (fst (abs_run V ops A), b') \<and> refines V b' (snd (abs_run V ops A))
    \<and> size_of b' \<le> size_of b + length ops"
  using assms
proof (induction ops arbitrary: b A)
  case Nil
  then show ?case by simp
next
  case (Cons op1 ops)
  have "Suc (size_of b) < 2 ^ 32" using Cons.prems(2) by simp
  then obtain b1 where b1: "book_step P op1 b = Some (fst (abs_step V op1 A), b1)"
    "refines V b1 (snd (abs_step V op1 A))" "size_of b1 \<le> Suc (size_of b)"
    using step_sim [OF Cons.prems(1)] by blast
  have "size_of b1 + length ops < 2 ^ 32" using b1(3) Cons.prems(2) by simp
  from Cons.IH [OF b1(2) this] show ?case using b1(1,3) by (auto simp: split_beta Let_def)
qed

end

subsection \<open>The six books of the repository\<close>

definition map_std_policy :: "(MapLadder, addr StdMap) policy" where
  "map_std_policy = policy.make ml_valid_price ml_get_or_create ml_on_level_empty ml_best ml_visit ml_deref ml_store
     (Some std_new) std_reserve std_find std_insert std_erase sm_count"

definition map_open_policy :: "(MapLadder, addr OpenMap) policy" where
  "map_open_policy = policy.make ml_valid_price ml_get_or_create ml_on_level_empty ml_best ml_visit ml_deref ml_store
     om_new om_reserve om_find om_insert om_erase om_size"

definition pooled_std_policy :: "(PooledMapLadder, addr StdMap) policy" where
  "pooled_std_policy = policy.make pm_valid_price pm_get_or_create pm_on_level_empty pm_best pm_visit pm_deref pm_store
     (Some std_new) std_reserve std_find std_insert std_erase sm_count"

definition pooled_open_policy :: "(PooledMapLadder, addr OpenMap) policy" where
  "pooled_open_policy = policy.make pm_valid_price pm_get_or_create pm_on_level_empty pm_best pm_visit pm_deref pm_store
     om_new om_reserve om_find om_insert om_erase om_size"

definition dense_std_policy :: "(DenseLadder, addr StdMap) policy" where
  "dense_std_policy = policy.make dl_valid_price dl_get_or_create dl_on_level_empty dl_best dl_visit dl_deref dl_store
     (Some std_new) std_reserve std_find std_insert std_erase sm_count"

definition dense_open_policy :: "(DenseLadder, addr OpenMap) policy" where
  "dense_open_policy = policy.make dl_valid_price dl_get_or_create dl_on_level_empty dl_best dl_visit dl_deref dl_store
     om_new om_reserve om_find om_insert om_erase om_size"

lemmas policy_defs = map_std_policy_def map_open_policy_def pooled_std_policy_def pooled_open_policy_def
  dense_std_policy_def dense_open_policy_def policy.make_def

interpretation map_std: book_policies map_std_policy ml_inv ml_side ml_window std_inv sm_entries
  by (simp add: book_policies_def policy_defs ml.ladder_axioms std.id_map_axioms)

interpretation map_open: book_policies map_open_policy ml_inv ml_side ml_window om_inv om_lookup
  by (simp add: book_policies_def policy_defs ml.ladder_axioms open_map.id_map_axioms)

interpretation pooled_std: book_policies pooled_std_policy pm_inv pm_side pm_window std_inv sm_entries
  by (simp add: book_policies_def policy_defs pm.ladder_axioms std.id_map_axioms)

interpretation pooled_open: book_policies pooled_open_policy pm_inv pm_side pm_window om_inv om_lookup
  by (simp add: book_policies_def policy_defs pm.ladder_axioms open_map.id_map_axioms)

interpretation dense_std: book_policies dense_std_policy dl_inv dl_levels dl_window std_inv sm_entries
  by (simp add: book_policies_def policy_defs dl.ladder_axioms std.id_map_axioms)

interpretation dense_open: book_policies dense_open_policy dl_inv dl_levels dl_window om_inv om_lookup
  by (simp add: book_policies_def policy_defs dl.ladder_axioms open_map.id_map_axioms)

text \<open>A policy with an empty ladder to start from that keep both contracts.\<close>

definition lawful :: "('l, 'm) policy \<Rightarrow> 'l \<Rightarrow> bool" where
  "lawful P l \<longleftrightarrow> (\<exists>linv levels window minv lookup.
     book_policies P linv levels window minv lookup \<and> linv l \<and> levels l = (\<lambda>_. []))"

lemma lawful_new:
  assumes "lawful P l"
  shows "\<exists>b. book_new P l = Some b"
proof -
  obtain linv levels window minv lookup where L: "book_policies P linv levels window minv lookup"
    "linv l" "levels l = (\<lambda>_. [])" using assms unfolding lawful_def by auto
  show ?thesis using book_policies.new_sim [OF L] by auto
qed

text \<open>One relation between a book and the specification for every policy.\<close>

definition implements :: "('l, 'm) policy \<Rightarrow> (Price \<Rightarrow> bool) \<Rightarrow> ('l, 'm) OrderBook \<Rightarrow> ABook \<Rightarrow> bool" where
  "implements P V b A \<longleftrightarrow> (\<exists>linv levels window minv lookup.
     book_policies P linv levels window minv lookup \<and> book_policies.refines P linv levels minv lookup V b A
     \<and> pol_size P (bk_orders b) < 2 ^ 32)"

lemma lawful_run:
  assumes "lawful P l" and "length ops < 2 ^ 32"
  shows "\<exists>b0 b. book_new P l = Some b0 \<and> book_run P ops b0 = Some (fst (abs_run (pol_valid_price P l) ops abook_new), b)
    \<and> implements P (pol_valid_price P l) b (snd (abs_run (pol_valid_price P l) ops abook_new))
    \<and> pol_size P (bk_orders b) \<le> length ops"
proof -
  obtain linv levels window minv lookup where L: "book_policies P linv levels window minv lookup"
    "linv l" "levels l = (\<lambda>_. [])" using assms(1) unfolding lawful_def by auto
  obtain b0 where b0: "book_new P l = Some b0" "pol_size P (bk_orders b0) = 0"
    "book_policies.refines P linv levels minv lookup (pol_valid_price P l) b0 abook_new"
    using book_policies.new_sim [OF L] by auto
  have "pol_size P (bk_orders b0) + length ops < 2 ^ 32" using b0(2) assms(2) by simp
  from book_policies.run_sim [OF L(1) b0(3) this] show ?thesis
    using b0(1,2) assms(2) L(1) unfolding implements_def by fastforce
qed

end
