(* ===== verification/BookObserve.thy ===== *)
theory BookObserve
  imports BookRun
begin

text \<open>
  What a caller can see of a book, for every lawful policy: the resting orders in priority order, the
  answers of a run, the well-formedness of what is stored.  The lemmas carry the facts of the
  specification over to a book that implements it.
\<close>

subsection \<open>The resting orders\<close>

text \<open>The orders of a side in the order the code walks them
  (\<^verbatim>\<open>for_each_level\<close> and the links of every level).\<close>

fun resting_levels :: "heap \<Rightarrow> Level list \<Rightarrow> (Price \<times> entry) list option" where
  "resting_levels h [] = Some []"
| "resting_levels h (lv # lvs) = do {
     as \<leftarrow> level_nodes h lv;
     fs \<leftarrow> resting_levels h lvs;
     Some (map (\<lambda>a. (lvl_price lv, entry_at h a)) as @ fs) }"

definition resting :: "('l, 'm) policy \<Rightarrow> Side \<Rightarrow> ('l, 'm) OrderBook \<Rightarrow> (Price \<times> entry) list option" where
  "resting P s b = do {
     lvls \<leftarrow> pol_visit P s (bk_ladder b);
     resting_levels (bk_heap b) lvls }"

text \<open>What holds of a book's content at any time.\<close>

definition abook_ok :: "(Price \<Rightarrow> bool) \<Rightarrow> ABook \<Rightarrow> bool" where
  "abook_ok V A \<longleftrightarrow> (\<forall>s. ladder_sorted s (ab_levels A s)
       \<and> (\<forall>(p, es) \<in> set (ab_levels A s). V p \<and> es \<noteq> [] \<and> (\<forall>e \<in> set es. en_qty e \<noteq> 0)))
     \<and> distinct (map (\<lambda>(s, p, e). en_id e) (all_entries A))"

lemma distinct_nodes:
  assumes "ladder_sorted s ls"
    and "\<And>p lv. (p, lv) \<in> set ls \<Longrightarrow> distinct (G s p) \<and> (\<forall>a \<in> set (G s p). f a = (s, p))"
  shows "distinct (concat (map (\<lambda>(p, lv). G s p) ls))"
  using assms
proof (induction ls)
  case (Cons l ls)
  obtain p lv where l: "l = (p, lv)" by force
  have "p \<notin> fst ` set ls" using Cons.prems(1) l by (auto dest: before_all)
  moreover have "f a = (s, q)" if "a \<in> set (G s q)" "(q, lw) \<in> set (l # ls)" for a q lw
    using Cons.prems(2) that by blast
  ultimately have "a \<notin> set (G s q)" if "a \<in> set (G s p)" "(q, lw) \<in> set ls" for a q lw
    using that l by (metis fst_conv image_eqI list.set_intros(1) list.set_intros(2) prod.inject)
  then have "set (G s p) \<inter> set (concat (map (\<lambda>(p, lv). G s p) ls)) = {}" by auto
  moreover have "distinct (G s p)" using Cons.prems(2) l by auto
  moreover have "distinct (concat (map (\<lambda>(p, lv). G s p) ls))"
    using Cons.prems l by (intro Cons.IH) auto
  ultimately show ?case using l by simp
qed simp

context book_policies begin

definition nodes_of :: "('l, 'm) OrderBook \<Rightarrow> ghost \<Rightarrow> Side \<Rightarrow> addr list" where
  "nodes_of b G s = concat (map (\<lambda>(p, lv). G s p) (levels (bk_ladder b) s))"

lemma nodes_of_live: "a \<in> set (nodes_of b G s) \<Longrightarrow> live G a"
  by (auto simp: nodes_of_def live_def)

lemma entries_nodes: "map (\<lambda>(s, p, e). en_id e) (side_entries s (levels_of b G s)) = map (\<lambda>a. ord_id (bk_heap b a)) (nodes_of b G s)"
proof -
  have "map (\<lambda>(s, p, e). en_id e) (concat (map (\<lambda>(p, es). map (\<lambda>e. (s, p, e)) es)
      (map (\<lambda>(p, _). (p, map (entry_at (bk_heap b)) (G s p))) ls)))
     = map (\<lambda>a. ord_id (bk_heap b a)) (concat (map (\<lambda>(p, lv). G s p) ls))" for ls :: "(Price \<times> Level) list"
    by (induction ls) (auto simp: comp_def)
  then show ?thesis by (simp add: side_entries_def levels_of_def view_def nodes_of_def)
qed

lemma refines_ok:
  assumes "refines V b A"
  shows "abook_ok V A"
proof -
  obtain G where G: "settled b G" "ab_levels A = levels_of b G" "pol_valid_price P (bk_ladder b) = V"
    using assms by (auto simp: refines_def)
  note D = settledD [OF G(1)]
  have lv: "V p \<and> es \<noteq> [] \<and> (\<forall>e \<in> set es. en_qty e \<noteq> 0)" if m: "(p, es) \<in> set (ab_levels A s)" for s p es
  proof -
    obtain lv where l: "(p, lv) \<in> set (levels (bk_ladder b) s)" "es = map (entry_at (bk_heap b)) (G s p)"
      using m G(2) by (auto simp: levels_of_def view_def)
    have "G s p \<noteq> []" using settled_key [OF G(1)] l(1) by force
    moreover have "en_qty e \<noteq> 0" if e: "e \<in> set es" for e
    proof -
      obtain a where "a \<in> set (G s p)" "e = entry_at (bk_heap b) a" using e l(2) by auto
      then show ?thesis using D(5) unfolding open_qty_def live_def by auto
    qed
    ultimately show ?thesis using lad.entry_law [OF D(1) l(1)] G(3) l(2) by auto
  qed
  have dist: "distinct (nodes_of b G s)" for s
    unfolding nodes_of_def
  proof (rule distinct_nodes [where f = "\<lambda>a. (ord_side (bk_heap b a), ord_price (bk_heap b a))"])
    show "ladder_sorted s (levels (bk_ladder b) s)" by (rule D(7))
    show "distinct (G s p) \<and> (\<forall>a \<in> set (G s p). (ord_side (bk_heap b a), ord_price (bk_heap b a)) = (s, p))"
      if "(p, lv) \<in> set (levels (bk_ladder b) s)" for p lv
      using that D(9) queues_okD(2) [OF D(6)] by (auto simp: level_ok_def)
  qed
  have side: "ord_side (bk_heap b a) = s" if "a \<in> set (nodes_of b G s)" for a s
    using that D(9) by (auto simp: nodes_of_def)
  have disj: "set (nodes_of b G Bid) \<inter> set (nodes_of b G Ask) = {}" using side by (auto, metis Side.distinct(1))
  have "inj_on (\<lambda>a. ord_id (bk_heap b a)) (set (nodes_of b G Bid @ nodes_of b G Ask))"
  proof (rule inj_onI)
    fix a c assume a: "a \<in> set (nodes_of b G Bid @ nodes_of b G Ask)" "c \<in> set (nodes_of b G Bid @ nodes_of b G Ask)"
      and e: "ord_id (bk_heap b a) = ord_id (bk_heap b c)"
    have "live G a" "live G c" using a nodes_of_live by auto
    then have "lookup (bk_orders b) (ord_id (bk_heap b a)) = Some a" "lookup (bk_orders b) (ord_id (bk_heap b a)) = Some c"
      using D(3) e by (auto simp: index_ok_def)
    then show "a = c" by simp
  qed
  then have "distinct (map (\<lambda>a. ord_id (bk_heap b a)) (nodes_of b G Bid @ nodes_of b G Ask))"
    using dist disj unfolding distinct_map by simp
  moreover have "map (\<lambda>(s, p, e). en_id e) (all_entries A)
      = map (\<lambda>a. ord_id (bk_heap b a)) (nodes_of b G Bid @ nodes_of b G Ask)"
    unfolding all_entries_def G(2) map_append entries_nodes by (rule refl)
  moreover have "ladder_sorted s (ab_levels A s)" for s using D(8) G(2) by simp
  ultimately show ?thesis using lv by (auto simp: abook_ok_def)
qed

lemma resting_sim:
  assumes r: "refines V b A" and small: "size_of b < 2 ^ 32"
  shows "resting P s b = Some (flat (ab_levels A s))"
proof -
  obtain G where G: "settled b G" "ab_levels A = levels_of b G" using r by (auto simp: refines_def)
  have "resting_levels (bk_heap b) (map snd lvs) = Some (flat (map (\<lambda>(p, _). (p, map (entry_at (bk_heap b)) (G s p))) lvs))"
    if "set lvs \<subseteq> set (levels (bk_ladder b) s)" for lvs
    using that
  proof (induction lvs)
    case (Cons l lvs)
    then show ?case using settled_level [OF G(1) small, of "fst l" "snd l" s] by (cases l) (auto simp: comp_def)
  qed simp
  from this [OF order_refl] show ?thesis
    using lad.visit_law [OF settledD(1) [OF G(1)]] G(2)
    by (simp add: resting_def levels_of_def view_def)
qed

lemma find_order_sim:
  assumes r: "refines V b A"
  shows "\<exists>o1. find_order P oid b = Some o1 \<and> (case o1 of None \<Rightarrow> abs_find oid A = None
    | Some x \<Rightarrow> ord_id x = oid \<and> abs_find oid A
        = Some (ord_side x, ord_price x, \<lparr>en_id = ord_id x, en_qty = ord_qty x, en_owner = ord_participant x\<rparr>))"
proof -
  obtain G where G: "settled b G" "ab_levels A = levels_of b G" using r by (auto simp: refines_def)
  obtain o1 where o1: "pol_find P (bk_orders b) oid = Some o1" "abs_find oid A = map_option (located b) o1"
    "lookup (bk_orders b) oid = o1" by (rule find_sim [OF r])
  have "ord_id (bk_heap b a) = oid" if "o1 = Some a" for a
    using settledD(3) [OF G(1)] o1(3) that by (auto simp: index_ok_def)
  then show ?thesis using o1(1,2) by (auto simp: find_order_def located_def entry_at_def split: option.split)
qed

end


subsection \<open>A book that implements the specification\<close>

lemma card_book_ids:
  assumes "abook_ok V A"
  shows "card (book_ids A) = length (all_entries A)"
proof -
  have "(\<lambda>t. en_id (snd (snd t))) ` set (side_entries s ls) = level_ids ls" for s ls
  proof (induction ls)
    case (Cons l ls)
    then show ?case by (cases l) (simp add: image_Un image_image)
  qed simp
  moreover have "book_ids A = level_ids (ab_levels A Bid) \<union> level_ids (ab_levels A Ask)"
    by (intro set_eqI) (simp add: book_ids_def ex_side)
  ultimately have "book_ids A = set (map (\<lambda>(s, p, e). en_id e) (all_entries A))"
    by (simp add: all_entries_def image_Un split_beta)
  moreover have "distinct (map (\<lambda>(s, p, e). en_id e) (all_entries A))" using assms by (simp add: abook_ok_def)
  ultimately show ?thesis by (simp only: distinct_card length_map)
qed

lemma implementsD:
  assumes "implements P V b A"
  shows "state_hash P b = Some (abs_hash A)" and "collect P s n b = Some (abs_depth s n A)"
    and "resting P s b = Some (flat (ab_levels A s))" and "open_orders P b = length (all_entries A)"
    and "bk_counters b = ab_counters A" and "bk_stp b = ab_stp A" and "pol_valid_price P (bk_ladder b) = V"
    and "abook_ok V A"
    and "\<exists>o1. best_level P s b = Some o1 \<and> (case ab_levels A s of [] \<Rightarrow> o1 = None
      | (p, es) # _ \<Rightarrow> \<exists>lv. o1 = Some lv \<and> lvl_price lv = p \<and> lvl_total_qty lv = queue_qty es
          \<and> lvl_order_count lv = of_nat (length es))"
    and "\<exists>o1. find_order P oid b = Some o1 \<and> (case o1 of None \<Rightarrow> abs_find oid A = None
    | Some x \<Rightarrow> ord_id x = oid \<and> abs_find oid A
        = Some (ord_side x, ord_price x, \<lparr>en_id = ord_id x, en_qty = ord_qty x, en_owner = ord_participant x\<rparr>))"
proof -
  obtain linv levels window minv lookup where L: "book_policies P linv levels window minv lookup"
    and r: "book_policies.refines P linv levels minv lookup V b A" and z: "pol_size P (bk_orders b) < 2 ^ 32"
    using assms unfolding implements_def by blast
  show "state_hash P b = Some (abs_hash A)" by (rule book_policies.state_hash_sim [OF L r z])
  show "collect P s n b = Some (abs_depth s n A)" by (rule book_policies.collect_sim [OF L r z])
  show "resting P s b = Some (flat (ab_levels A s))" by (rule book_policies.resting_sim [OF L r z])
  show ok: "abook_ok V A" by (rule book_policies.refines_ok [OF L r])
  show "open_orders P b = length (all_entries A)"
    using book_policies.open_orders_sim [OF L r] card_book_ids [OF ok] by simp
  show "bk_counters b = ab_counters A" "bk_stp b = ab_stp A" "pol_valid_price P (bk_ladder b) = V"
    using r unfolding book_policies.refines_def [OF L] by auto
  show "\<exists>o1. best_level P s b = Some o1 \<and> (case ab_levels A s of [] \<Rightarrow> o1 = None
      | (p, es) # _ \<Rightarrow> \<exists>lv. o1 = Some lv \<and> lvl_price lv = p \<and> lvl_total_qty lv = queue_qty es
          \<and> lvl_order_count lv = of_nat (length es))"
    by (rule book_policies.best_level_sim [OF L r z])
  show "\<exists>o1. find_order P oid b = Some o1 \<and> (case o1 of None \<Rightarrow> abs_find oid A = None
    | Some x \<Rightarrow> ord_id x = oid \<and> abs_find oid A
        = Some (ord_side x, ord_price x, \<lparr>en_id = ord_id x, en_qty = ord_qty x, en_owner = ord_participant x\<rparr>))"
    by (rule book_policies.find_order_sim [OF L r])
qed

lemma implements_step:
  assumes "implements P V b A" and "Suc (pol_size P (bk_orders b)) < 2 ^ 32"
  shows "\<exists>b'. book_step P op1 b = Some (fst (abs_step V op1 A), b') \<and> implements P V b' (snd (abs_step V op1 A))
    \<and> pol_size P (bk_orders b') \<le> Suc (pol_size P (bk_orders b))"
proof -
  obtain linv levels window minv lookup where L: "book_policies P linv levels window minv lookup"
    and r: "book_policies.refines P linv levels minv lookup V b A"
    using assms(1) unfolding implements_def by blast
  then show ?thesis
    using book_policies.step_sim [OF L r assms(2), of op1] assms(2) unfolding implements_def
    by (meson le_less_trans)
qed

text \<open>A run on a new book.\<close>

definition fresh_run :: "('l, 'm) policy \<Rightarrow> 'l \<Rightarrow> book_op list \<Rightarrow> (answer list \<times> ('l, 'm) OrderBook) option" where
  "fresh_run P l ops = do { b \<leftarrow> book_new P l; book_run P ops b }"

lemma fresh_reached:
  assumes "lawful P l" and "fresh_run P l ops = Some (rs, b)" and "length ops < 2 ^ 32"
  shows "rs = fst (abs_run (pol_valid_price P l) ops abook_new)"
    and "implements P (pol_valid_price P l) b (snd (abs_run (pol_valid_price P l) ops abook_new))"
    and "pol_size P (bk_orders b) \<le> length ops"
  using lawful_run [OF assms(1,3)] assms(2) by (auto simp: fresh_run_def)

lemma fresh_step:
  assumes "lawful P l" and "fresh_run P l ops = Some (rs, b)" and "length ops < 2 ^ 32 - 1"
  obtains A where "A = snd (abs_run (pol_valid_price P l) ops abook_new)"
    and "implements P (pol_valid_price P l) b A"
    and "\<And>op1. \<exists>b'. book_step P op1 b = Some (fst (abs_step (pol_valid_price P l) op1 A), b')
      \<and> implements P (pol_valid_price P l) b' (snd (abs_step (pol_valid_price P l) op1 A))"
proof -
  have n: "length ops < 2 ^ 32" using assms(3) by simp
  note F = fresh_reached [OF assms(1,2) n]
  have "Suc (pol_size P (bk_orders b)) < 2 ^ 32" using F(3) assms(3) by simp
  then show thesis using that [OF refl F(2)] implements_step [OF F(2)] by blast
qed

end
