(* ===== verification/MarketRules.thy ===== *)
theory MarketRules
  imports BookObserve
begin

text \<open>
  The market rules as facts of the specification: conservation of quantity, the sides never cross,
  a rejected call changes nothing, how much trades, who is left.
\<close>

subsection \<open>The order a call names\<close>

lemma abook_okD:
  assumes "abook_ok V A"
  shows "ladder_sorted s (ab_levels A s)" and "(p, es) \<in> set (ab_levels A s) \<Longrightarrow> V p"
    and "(p, es) \<in> set (ab_levels A s) \<Longrightarrow> es \<noteq> []"
    and "(p, es) \<in> set (ab_levels A s) \<Longrightarrow> e \<in> set es \<Longrightarrow> en_qty e \<noteq> 0"
    and "distinct (map (\<lambda>(s, p, e). en_id e) (all_entries A))"
  using assms unfolding abook_ok_def by blast+

lemma queue_at_member: "ladder_sorted s ls \<Longrightarrow> (p, es) \<in> set ls \<Longrightarrow> queue_at p ls = es"
  by (simp add: queue_at_def map_of_member)

lemma side_entry_member: "(t, p, e) \<in> set (side_entries s ls) \<longleftrightarrow> t = s \<and> (\<exists>es. (p, es) \<in> set ls \<and> e \<in> set es)"
  by (force simp: side_entries_def)

lemma side_ids: "(p, es) \<in> set ls \<Longrightarrow> distinct (map (\<lambda>(s, p, e). en_id e) (side_entries s ls)) \<Longrightarrow> distinct (map en_id es)"
proof (induction ls)
  case (Cons l ls)
  then show ?case by (cases l) (auto simp: comp_def)
qed simp

lemma abs_find_split:
  assumes ok: "abook_ok V A" and f: "abs_find oid A = Some (s, p, e)"
  obtains xs ys where "(p, xs @ e # ys) \<in> set (ab_levels A s)" and "queue_at p (ab_levels A s) = xs @ e # ys"
    and "en_id e = oid" and "oid \<notin> en_id ` set xs" and "oid \<notin> en_id ` set ys"
proof -
  have m: "(s, p, e) \<in> set (all_entries A)" and i: "en_id e = oid"
    using f by (auto simp: abs_find_def find_Some_iff dest: nth_mem)
  obtain es where es: "(p, es) \<in> set (ab_levels A s)" "e \<in> set es"
    using m by (auto simp: all_entries_def side_entry_member)
  have d: "distinct (map (\<lambda>(s, p, e). en_id e) (side_entries s (ab_levels A s)))"
    using ok by (cases s) (auto simp: abook_ok_def all_entries_def)
  obtain xs ys where x: "es = xs @ e # ys" using es(2) by (meson split_list)
  have "distinct (map en_id es)" by (rule side_ids [OF es(1) d])
  then have "oid \<notin> en_id ` set xs" "oid \<notin> en_id ` set ys" using x i by auto
  moreover have "queue_at p (ab_levels A s) = xs @ e # ys"
    using ok es(1) x by (intro queue_at_member) (auto simp: abook_ok_def)
  ultimately show thesis using that es(1) x i by blast
qed

lemma filter_split:
  assumes "oid \<notin> en_id ` set xs" and "oid \<notin> en_id ` set ys" and "en_id e = oid"
  shows "filter (\<lambda>e. en_id e \<noteq> oid) (xs @ e # ys) = xs @ ys"
    and "map (\<lambda>e. if en_id e = oid then f e else e) (xs @ e # ys) = xs @ f e # ys"
proof -
  show "filter (\<lambda>e. en_id e \<noteq> oid) (xs @ e # ys) = xs @ ys"
  proof -
    have "filter (\<lambda>e. en_id e \<noteq> oid) xs = xs" "filter (\<lambda>e. en_id e \<noteq> oid) ys = ys"
      using assms(1,2) by (auto simp: filter_id_conv)
    then show ?thesis using assms(3) by simp
  qed
  show "map (\<lambda>e. if en_id e = oid then f e else e) (xs @ e # ys) = xs @ f e # ys"
  proof -
    have "map (\<lambda>e. if en_id e = oid then f e else e) xs = xs" "map (\<lambda>e. if en_id e = oid then f e else e) ys = ys"
      using assms(1,2) by (auto intro!: map_idI)
    then show ?thesis using assms(3) by simp
  qed
qed

subsection \<open>Conservation of quantity\<close>

text \<open>What the counters and the resting orders account for; a trade takes from both sides.\<close>

definition accounted :: "ABook \<Rightarrow> u64" where
  "accounted A = 2 * traded_qty (ab_counters A) + canceled_qty (ab_counters A) + executed_qty (ab_counters A)
     + levels_qty (ab_levels A Bid) + levels_qty (ab_levels A Ask)"

definition balanced :: "ABook \<Rightarrow> bool" where
  "balanced A \<longleftrightarrow> added_qty (ab_counters A) = accounted A"

lemma accounted_counts:
  "accounted (abs_count (c_added q) A) = accounted A"
  "added_qty (ab_counters (abs_count (c_added q) A)) = added_qty (ab_counters A) + ucast q"
  "accounted (abs_count (c_canceled q) A) = accounted A + ucast q"
  "added_qty (ab_counters (abs_count (c_canceled q) A)) = added_qty (ab_counters A)"
  "accounted (abs_count (c_executed q) A) = accounted A + ucast q"
  "added_qty (ab_counters (abs_count (c_executed q) A)) = added_qty (ab_counters A)"
  "ab_levels (abs_count f A) = ab_levels A" "ab_stp (abs_count f A) = ab_stp A"
  by (simp_all add: accounted_def abs_count_def c_added_def c_canceled_def c_executed_def algebra_simps)

lemma accounted_match:
  assumes "abs_match has_limit aggressor actor side price qty A = (q, xs, A')"
  shows "accounted A' + ucast q = accounted A + ucast qty"
    and "added_qty (ab_counters A') = added_qty (ab_counters A)"
proof -
  obtain ls c where fl: "fill_levels (ab_stp A) has_limit aggressor actor side price (ab_levels A (opposite side)) qty (ab_counters A)
      = (ls, q, xs, c)" and A': "A' = A\<lparr>ab_levels := (ab_levels A)(opposite side := ls), ab_counters := c\<rparr>"
    using assms by (auto simp: abs_match_def split: prod.splits)
  note B = fill_levels_balance [OF fl]
  show "accounted A' + ucast q = accounted A + ucast qty" "added_qty (ab_counters A') = added_qty (ab_counters A)"
    using B unfolding A' accounted_def by (cases side; simp add: algebra_simps)+
qed

lemma accounted_set_queue:
  assumes "ladder_sorted s (ab_levels A s)"
  shows "accounted (abs_set_queue s p es A) + queue_qty (queue_at p (ab_levels A s)) = accounted A + queue_qty es"
    and "ab_counters (abs_set_queue s p es A) = ab_counters A"
  using levels_qty_place [OF assms, of p es]
  by (cases s; simp add: accounted_def abs_set_queue_def algebra_simps)+

lemma accounted_rest:
  assumes "ladder_sorted s (ab_levels A s)"
  shows "accounted (abs_rest oid s p q actor A) = accounted A + ucast q"
    and "ab_counters (abs_rest oid s p q actor A) = ab_counters A"
  using accounted_set_queue [OF assms, of p "queue_at p (ab_levels A s) @ [\<lparr>en_id = oid, en_qty = q, en_owner = actor\<rparr>]"]
  unfolding abs_rest_def by (simp_all add: algebra_simps)

lemma accounted_remove:
  assumes "abook_ok V A" and "abs_find oid A = Some (s, p, e)"
  shows "accounted (abs_remove s p oid (abs_count f A)) + ucast (en_qty e) = accounted (abs_count f A)"
    and "ab_counters (abs_remove s p oid A) = ab_counters A"
proof -
  obtain xs ys where q: "queue_at p (ab_levels A s) = xs @ e # ys" "en_id e = oid" "oid \<notin> en_id ` set xs" "oid \<notin> en_id ` set ys"
    by (rule abs_find_split [OF assms]) blast
  have "ladder_sorted s (ab_levels (abs_count f A) s)" using assms(1) by (simp add: abook_ok_def accounted_counts)
  from accounted_set_queue(1) [OF this, of p "xs @ ys"]
  show "accounted (abs_remove s p oid (abs_count f A)) + ucast (en_qty e) = accounted (abs_count f A)"
    unfolding abs_remove_def accounted_counts q(1) filter_split(1) [OF q(3,4,2)] by (simp add: algebra_simps)
  show "ab_counters (abs_remove s p oid A) = ab_counters A"
    by (simp add: abs_remove_def abs_set_queue_def)
qed


lemma accounted_consume:
  assumes "abook_ok V A" and "abs_find oid A = Some (s, p, e)" and "t \<le> en_qty e"
  shows "accounted (abs_set_queue s p (map (\<lambda>e. if en_id e = oid then e\<lparr>en_qty := en_qty e - t\<rparr> else e)
      (queue_at p (ab_levels A s))) (abs_count f A)) + ucast t = accounted (abs_count f A)"
proof -
  obtain xs ys where q: "queue_at p (ab_levels A s) = xs @ e # ys" "en_id e = oid" "oid \<notin> en_id ` set xs" "oid \<notin> en_id ` set ys"
    by (rule abs_find_split [OF assms(1,2)]) blast
  have "ladder_sorted s (ab_levels (abs_count f A) s)" using assms(1) by (simp add: abook_ok_def accounted_counts)
  from accounted_set_queue(1) [OF this, of p "xs @ e\<lparr>en_qty := en_qty e - t\<rparr> # ys"]
  show ?thesis
    using ucast_u32_diff [OF assms(3)]
    unfolding accounted_counts q(1) filter_split(2) [OF q(3,4,2)] by (simp add: algebra_simps)
qed

lemma match_levels:
  assumes "abs_match has_limit aggressor actor side price qty A = (q, xs, A')"
  shows "fst ` set (ab_levels A' s) \<subseteq> fst ` set (ab_levels A s)"
    and "ladder_sorted s (ab_levels A s) \<Longrightarrow> ladder_sorted s (ab_levels A' s)"
    and "ab_levels A' side = ab_levels A side" and "ab_stp A' = ab_stp A"
    and "q > 0 \<Longrightarrow> ladder_sorted (opposite side) (ab_levels A (opposite side)) \<Longrightarrow>
      \<forall>p \<in> fst ` set (ab_levels A' (opposite side)). has_limit \<and> \<not> crosses side price p"
proof -
  obtain ls c where fl: "fill_levels (ab_stp A) has_limit aggressor actor side price (ab_levels A (opposite side)) qty (ab_counters A)
      = (ls, q, xs, c)" and A': "A' = A\<lparr>ab_levels := (ab_levels A)(opposite side := ls), ab_counters := c\<rparr>"
    using assms by (auto simp: abs_match_def split: prod.splits)
  show "fst ` set (ab_levels A' s) \<subseteq> fst ` set (ab_levels A s)"
    and "ladder_sorted s (ab_levels A s) \<Longrightarrow> ladder_sorted s (ab_levels A' s)"
    using fill_levels_keys [OF fl, of s] A' by (auto split: if_splits)
  show "ab_levels A' side = ab_levels A side" "ab_stp A' = ab_stp A" using A' by auto
  show "q > 0 \<Longrightarrow> ladder_sorted (opposite side) (ab_levels A (opposite side)) \<Longrightarrow>
      \<forall>p \<in> fst ` set (ab_levels A' (opposite side)). has_limit \<and> \<not> crosses side price p"
    using fill_levels_left [OF fl] A' by simp
qed

text \<open>The steps, one call at a time.\<close>

lemma balanced_limit:
  assumes ok: "\<And>s. ladder_sorted s (ab_levels A s)" and b: "balanced A"
  shows "balanced (snd (snd (abs_limit V actor oid side price qty A)))"
proof -
  obtain q xs A' where m: "abs_match True oid actor side price qty (abs_count (c_added qty) A) = (q, xs, A')"
    by (metis prod_cases3)
  note B = accounted_match [OF m, unfolded accounted_counts]
  have "ladder_sorted side (ab_levels A' side)"
    using match_levels(2) [OF m] ok by (simp add: accounted_counts)
  note R = accounted_rest [OF this, of oid price q actor]
  show ?thesis
  proof (cases "abs_validate V oid price qty A = Ok")
    case True
    have "q = 0 \<or> q > 0" by (auto simp: word_gt_0)
    then show ?thesis using True m B R b by (auto simp: abs_limit_def balanced_def algebra_simps)
  qed (use b in \<open>simp add: abs_limit_def\<close>)
qed

lemma balanced_fleeting:
  assumes m: "abs_match has_limit oid actor side price qty (abs_count (c_added qty) A) = (q, xs, A')" and b: "balanced A"
  shows "balanced (abs_count (c_canceled q) A')"
  using accounted_match [OF m, unfolded accounted_counts] b
  by (simp add: balanced_def accounted_counts algebra_simps)

lemma balanced_cancel:
  assumes "abook_ok V A" and b: "balanced A"
  shows "balanced (snd (abs_cancel oid A))"
proof (cases "abs_find oid A")
  case (Some l)
  obtain s p e where l: "l = (s, p, e)" by (cases l) auto
  have "ab_counters (abs_remove s p oid (abs_count f A)) = ab_counters (abs_count f A)" for f
    by (simp add: abs_remove_def abs_set_queue_def)
  then show ?thesis
    using accounted_remove(1) [OF assms(1) Some [unfolded l], of "c_canceled (en_qty e)"] b Some l
    by (simp add: abs_cancel_def balanced_def accounted_counts algebra_simps)
qed (use b in \<open>simp add: abs_cancel_def\<close>)

lemma balanced_consume:
  assumes "abook_ok V A" and b: "balanced A"
  shows "balanced (snd (snd (abs_consume oid qty is_execution A)))"
proof (cases "abs_find oid A")
  case (Some l)
  obtain s p e where l: "l = (s, p, e)" by (cases l) auto
  define t where "t = min qty (en_qty e)"
  define f where "f = (if is_execution then c_executed t else c_canceled t)"
  have res: "snd (snd (abs_consume oid qty is_execution A)) = (if qty = 0 then A
      else if t = en_qty e then abs_remove s p oid (abs_count f A)
      else abs_set_queue s p (map (\<lambda>e. if en_id e = oid then e\<lparr>en_qty := en_qty e - t\<rparr> else e)
        (queue_at p (ab_levels A s))) (abs_count f A))"
    using Some l by (simp add: abs_consume_def Let_def t_def [symmetric] f_def [symmetric] accounted_counts(7))
  have c: "ab_counters (abs_remove s p oid (abs_count f A)) = ab_counters (abs_count f A)"
    "ab_counters (abs_set_queue s p es (abs_count f A)) = ab_counters (abs_count f A)" for es
    by (simp_all add: abs_remove_def abs_set_queue_def)
  have t: "t \<le> en_qty e" by (simp add: t_def)
  have a: "accounted (abs_count f A) = accounted A + ucast t"
    "added_qty (ab_counters (abs_count f A)) = added_qty (ab_counters A)"
    by (simp_all add: accounted_counts f_def)
  show ?thesis
    using accounted_remove(1) [OF assms(1) Some [unfolded l], of f]
      accounted_consume [OF assms(1) Some [unfolded l] t, of f] b
    unfolding res balanced_def by (cases "t = en_qty e") (simp_all add: c a)
qed (use b in \<open>simp add: abs_consume_def\<close>)


lemma sorted_place [simp]: "ladder_sorted s ls \<Longrightarrow> ladder_sorted s (place s p es ls)"
  by (simp add: place_def)

lemma keys_place: "fst ` set (place s p es ls) = (if es = [] then fst ` set ls - {p} else insert p (fst ` set ls))"
  by (simp add: place_def)

lemma set_queue_levels [simp]:
  "ab_levels (abs_set_queue s p es A) = (ab_levels A)(s := place s p es (ab_levels A s))"
  "ab_stp (abs_set_queue s p es A) = ab_stp A" "ab_counters (abs_set_queue s p es A) = ab_counters A"
  by (simp_all add: abs_set_queue_def)

lemma sorted_remove: "ladder_sorted t (ab_levels A t) \<Longrightarrow> ladder_sorted t (ab_levels (abs_remove s p oid A) t)"
  by (auto simp: abs_remove_def)

lemma sorted_cancel:
  "ladder_sorted t (ab_levels A t) \<Longrightarrow> ladder_sorted t (ab_levels (snd (abs_cancel oid A)) t)"
  by (auto simp: abs_cancel_def accounted_counts sorted_remove split: option.split prod.split)

lemma balanced_step:
  assumes ok: "abook_ok V A" and b: "balanced A"
  shows "balanced (snd (abs_step W op1 A))"
proof -
  have sorted: "ladder_sorted s (ab_levels A s)" for s using ok by (simp add: abook_ok_def)
  show ?thesis
  proof (cases op1)
    case (LimitOp actor oid s p q)
    then show ?thesis using balanced_limit [OF sorted b, of W actor oid s p q] by (simp add: split_beta)
  next
    case (IocOp actor oid s p q)
    then show ?thesis using balanced_fleeting [OF _ b] b by (auto simp: abs_ioc_def Let_def split: prod.splits)
  next
    case (FokOp actor oid s p q)
    then show ?thesis using balanced_fleeting [OF _ b] b by (auto simp: abs_fok_def Let_def split: prod.splits)
  next
    case (MarketOp actor oid s q)
    then show ?thesis using balanced_fleeting [OF _ b] b by (auto simp: abs_market_def Let_def split: prod.splits)
  next
    case (CancelOp oid)
    then show ?thesis using balanced_cancel [OF ok b, of oid] by (simp add: split_beta)
  next
    case (ReplaceOp old_id new_id p q)
    have "balanced (snd (snd (abs_replace W old_id new_id p q A)))"
      using balanced_limit [OF sorted_cancel [OF sorted] balanced_cancel [OF ok b]] b
      by (auto simp: abs_replace_def split: option.split)
    then show ?thesis using ReplaceOp by (simp add: split_beta)
  next
    case (PassiveOp oid s p q)
    have "balanced (abs_rest oid s p q 0 (abs_count (c_added q) A))"
      using accounted_rest [of s "abs_count (c_added q) A" oid p q 0] sorted b
      by (simp add: balanced_def accounted_counts)
    then show ?thesis using PassiveOp b by (auto simp: abs_insert_passive_def Let_def)
  next
    case (ExecuteOp oid q)
    then show ?thesis using balanced_consume [OF ok b, of oid q True] by (simp add: split_beta)
  next
    case (ReduceOp oid q)
    then show ?thesis using balanced_consume [OF ok b, of oid q False] by (simp add: split_beta)
  next
    case (PolicyOp sp)
    then show ?thesis using b by (simp add: balanced_def accounted_def)
  qed
qed

subsection \<open>The sides never cross\<close>

definition prices :: "ABook \<Rightarrow> Side \<Rightarrow> Price set" where
  "prices A s = fst ` set (ab_levels A s)"

definition uncrossed :: "ABook \<Rightarrow> bool" where
  "uncrossed A \<longleftrightarrow> (\<forall>p \<in> prices A Bid. \<forall>r \<in> prices A Ask. p < r)"

lemma uncrossed_shrink:
  assumes "uncrossed A" and "\<And>s. prices A' s \<subseteq> prices A s"
  shows "uncrossed A'"
  using assms(1) assms(2) [of Bid] assms(2) [of Ask] unfolding uncrossed_def by blast

lemma uncrossed_rest:
  assumes "uncrossed A" and "\<forall>r \<in> prices A (opposite s). \<not> crosses s p r"
  shows "uncrossed (abs_rest oid s p q actor A)"
proof -
  have k: "prices (abs_rest oid s p q actor A) t = (if t = s then insert p (prices A s) else prices A t)" for t
    by (simp add: abs_rest_def prices_def keys_place)
  show ?thesis
    using assms k [of Bid] k [of Ask] by (cases s; simp add: uncrossed_def crosses_def not_le)
qed

lemma keys_set_queue:
  assumes "es \<noteq> [] \<Longrightarrow> p \<in> prices A s"
  shows "prices (abs_set_queue s p es A) t \<subseteq> prices A t"
  using assms by (cases "es = []"; cases "t = s") (auto simp: prices_def keys_place simp del: keys_put)

lemma keys_remove: "prices (abs_remove s p oid A) t \<subseteq> prices A t"
  unfolding abs_remove_def
proof (rule keys_set_queue)
  assume "filter (\<lambda>e. en_id e \<noteq> oid) (queue_at p (ab_levels A s)) \<noteq> []"
  then have "queue_at p (ab_levels A s) \<noteq> []" by auto
  then show "p \<in> prices A s" using queue_at_absent unfolding prices_def by blast
qed

lemma keys_count [simp]: "ab_levels (abs_count f A) = ab_levels A" "ab_stp (abs_count f A) = ab_stp A"
  by (simp_all add: accounted_counts)

lemma prices_count [simp]: "prices (abs_count f A) s = prices A s"
  by (simp add: prices_def)

lemma keys_cancel: "prices (snd (abs_cancel oid A)) t \<subseteq> prices A t"
proof (cases "abs_find oid A")
  case (Some l)
  obtain s p e where l: "l = (s, p, e)" by (cases l) auto
  have "snd (abs_cancel oid A) = abs_remove s p oid (abs_count (c_canceled (en_qty e)) A)"
    using Some l by (simp add: abs_cancel_def)
  then show ?thesis using keys_remove [of s p oid "abs_count (c_canceled (en_qty e)) A" t] by simp
qed (simp add: abs_cancel_def)

lemma keys_consume: "prices (snd (snd (abs_consume oid qty is_execution A))) t \<subseteq> prices A t"
proof (cases "abs_find oid A")
  case (Some l)
  obtain s p e where l: "l = (s, p, e)" by (cases l) auto
  define d where "d = min qty (en_qty e)"
  define B where "B = abs_count (if is_execution then c_executed d else c_canceled d) A"
  have B: "prices B = prices A" "ab_levels B = ab_levels A" by (simp_all add: B_def fun_eq_iff)
  let ?es = "map (\<lambda>e. if en_id e = oid then e\<lparr>en_qty := en_qty e - d\<rparr> else e) (queue_at p (ab_levels B s))"
  have "snd (snd (abs_consume oid qty is_execution A)) \<in> {A, abs_remove s p oid B, abs_set_queue s p ?es B}"
    using Some l by (simp add: abs_consume_def Let_def d_def [symmetric] B_def [symmetric])
  moreover have "queue_at p (ab_levels B s) \<noteq> [] \<Longrightarrow> p \<in> prices B s"
    using queue_at_absent unfolding prices_def by blast
  then have "prices (abs_set_queue s p ?es B) t \<subseteq> prices B t" by (intro keys_set_queue) auto
  ultimately show ?thesis using keys_remove [of s p oid B t] B(1) by auto
qed (simp add: abs_consume_def)

lemma uncrossed_limit:
  assumes u: "uncrossed A" and ok: "\<And>s. ladder_sorted s (ab_levels A s)"
  shows "uncrossed (snd (snd (abs_limit V actor oid side price qty A)))"
proof -
  obtain q xs A' where m: "abs_match True oid actor side price qty (abs_count (c_added qty) A) = (q, xs, A')"
    by (metis prod_cases3)
  note M = match_levels [OF m, unfolded keys_count, folded prices_def]
  have u': "uncrossed A'" by (rule uncrossed_shrink [OF u M(1)])
  have "uncrossed (abs_rest oid side price q actor A')" if "q > 0"
    using M(5) [OF that ok] by (intro uncrossed_rest [OF u']) blast
  then show ?thesis using m u u' by (auto simp: abs_limit_def Let_def)
qed

lemma uncrossed_match:
  assumes "uncrossed A" and "abs_match has_limit aggressor actor side price qty (abs_count f A) = (q, xs, A')"
  shows "uncrossed (abs_count g A')"
  using uncrossed_shrink [OF assms(1)] match_levels(1) [OF assms(2)] by (simp add: prices_def)

fun is_passive :: "book_op \<Rightarrow> bool" where
  "is_passive (PassiveOp oid s p q) = True"
| "is_passive op1 = False"

lemma uncrossed_step:
  assumes ok: "abook_ok V A" and u: "uncrossed A" and np: "\<not> is_passive op1"
  shows "uncrossed (snd (abs_step W op1 A))"
proof -
  have sorted: "ladder_sorted s (ab_levels A s)" for s using ok by (simp add: abook_ok_def)
  show ?thesis
  proof (cases op1)
    case (LimitOp actor oid s p q)
    then show ?thesis using uncrossed_limit [OF u sorted, of W actor oid s p q] by (simp add: split_beta)
  next
    case (IocOp actor oid s p q)
    then show ?thesis using uncrossed_match [OF u] u by (auto simp: abs_ioc_def Let_def split: prod.splits)
  next
    case (FokOp actor oid s p q)
    then show ?thesis using uncrossed_match [OF u] u by (auto simp: abs_fok_def Let_def split: prod.splits)
  next
    case (MarketOp actor oid s q)
    then show ?thesis using uncrossed_match [OF u] u by (auto simp: abs_market_def Let_def split: prod.splits)
  next
    case (CancelOp oid)
    then show ?thesis using uncrossed_shrink [OF u keys_cancel, of oid] by (simp add: split_beta)
  next
    case (ReplaceOp old_id new_id p q)
    have "uncrossed (snd (snd (abs_replace W old_id new_id p q A)))"
      using uncrossed_limit [OF uncrossed_shrink [OF u keys_cancel] sorted_cancel [OF sorted]] u
      by (auto simp: abs_replace_def split: option.split)
    then show ?thesis using ReplaceOp by (simp add: split_beta)
  next
    case (ExecuteOp oid q)
    then show ?thesis using uncrossed_shrink [OF u keys_consume, of oid q True] by (simp add: split_beta)
  next
    case (ReduceOp oid q)
    then show ?thesis using uncrossed_shrink [OF u keys_consume, of oid q False] by (simp add: split_beta)
  qed (use u np in \<open>auto simp: uncrossed_def prices_def\<close>)
qed

subsection \<open>How much trades, and with whom\<close>

text \<open>The quantity on a side an order with this limit may trade against.\<close>

definition crossing_qty :: "bool \<Rightarrow> Side \<Rightarrow> Price \<Rightarrow> (Price \<times> entry) list \<Rightarrow> nat" where
  "crossing_qty has_limit side price fs
     = (\<Sum>(p, e)\<leftarrow>filter (\<lambda>(p, e). has_limit \<longrightarrow> crosses side price p) fs. unat (en_qty e))"

lemma crossing_qty_simps [simp]:
  "crossing_qty has_limit side price [] = 0"
  "crossing_qty has_limit side price (map (Pair p) es @ fs)
     = (if has_limit \<longrightarrow> crosses side price p then nat_qty es else 0) + crossing_qty has_limit side price fs"
  by (induction es) (auto simp: crossing_qty_def nat_qty_def)

lemma crossing_none:
  assumes "has_limit" and "\<forall>l \<in> set ls. \<not> crosses side price (fst l)"
  shows "crossing_qty has_limit side price (flat ls) = 0"
  using assms by (induction ls) auto

lemma reach_crossing:
  assumes "ladder_sorted (opposite side) ls" and "\<not> stp_active stp actor"
  shows "reach_levels stp has_limit actor side price ls = crossing_qty has_limit side price (flat ls)"
  using assms(1)
proof (induction ls)
  case (Cons l ls)
  obtain p es where l: "l = (p, es)" by force
  show ?case
  proof (cases "has_limit \<and> \<not> crosses side price p")
    case True
    then have "\<forall>l \<in> set ls. \<not> crosses side price (fst l)"
      using Cons.prems l crosses_before by (auto dest: before_all)
    then show ?thesis using True crossing_none [of has_limit ls] l by simp
  next
    case False
    then show ?thesis using Cons l reach_queue_other [OF assms(2)] by auto
  qed
qed simp

text \<open>A trade is with an order of the queue, at the price of the queue, and never with an own order
  when prevention is on.\<close>

definition trades_with :: "SelfTradePolicy \<Rightarrow> OrderId \<Rightarrow> ParticipantId \<Rightarrow> (Price \<times> entry) list \<Rightarrow> Execution \<Rightarrow> bool" where
  "trades_with stp aggressor actor fs x \<longleftrightarrow> ex_aggressor_id x = aggressor \<and> ex_qty x \<noteq> 0
     \<and> (\<exists>(p, e) \<in> set fs. en_id e = ex_resting_id x \<and> p = ex_price x \<and> ex_qty x \<le> en_qty e
          \<and> \<not> (stp_active stp actor \<and> en_owner e = actor))"

lemma trades_with_mono: "trades_with stp aggressor actor fs x \<Longrightarrow> set fs \<subseteq> set gs \<Longrightarrow> trades_with stp aggressor actor gs x"
  unfolding trades_with_def by blast

lemma fill_queue_counterparties:
  "fill_queue stp aggressor actor p es qty c = (es', q, k, xs, c') \<Longrightarrow> \<forall>e \<in> set es. en_qty e \<noteq> 0 \<Longrightarrow>
     x \<in> set xs \<Longrightarrow> trades_with stp aggressor actor (map (Pair p) es) x"
proof (induction es arbitrary: qty c es' q k xs c' rule: measure_induct_rule [of length])
  case (less es)
  show ?case
  proof (cases rule: fill_queue_cases [of es qty stp aggressor actor p c])
    case (kill e es1)
    then show ?thesis using less.prems by (auto split: if_splits)
  next
    case (skip e es1)
    then have "trades_with stp aggressor actor (map (Pair p) es1) x"
      using less.IH [of es1] less.prems by auto
    then show ?thesis using skip(1) by (auto elim: trades_with_mono)
  next
    case (partial e es1)
    then have "x = \<lparr>ex_resting_id = en_id e, ex_aggressor_id = aggressor, ex_price = p, ex_qty = qty\<rparr>"
      using less.prems by auto
    then show ?thesis using partial by (auto simp: trades_with_def)
  next
    case (full e es1 es2 q2 k2 xs2 c2)
    then consider "x = \<lparr>ex_resting_id = en_id e, ex_aggressor_id = aggressor, ex_price = p, ex_qty = en_qty e\<rparr>" | "x \<in> set xs2"
      using less.prems by auto
    then show ?thesis
    proof cases
      case 1
      then show ?thesis using full(1,3) less.prems(2) by (auto simp: trades_with_def)
    next
      case 2
      then have "trades_with stp aggressor actor (map (Pair p) es1) x"
        using less.IH [of es1, OF _ full(5)] full(1) less.prems by auto
      then show ?thesis using full(1) by (auto elim: trades_with_mono)
    qed
  qed (use less.prems in auto)
qed

lemma fill_levels_counterparties:
  "fill_levels stp has_limit aggressor actor side price ls qty c = (ls', q, xs, c') \<Longrightarrow>
     \<forall>(p, es) \<in> set ls. \<forall>e \<in> set es. en_qty e \<noteq> 0 \<Longrightarrow> x \<in> set xs \<Longrightarrow> trades_with stp aggressor actor (flat ls) x"
proof (induction ls arbitrary: qty c ls' q xs c')
  case (Cons l ls)
  obtain p es where l: "l = (p, es)" by force
  obtain es1 q1 k ys1 c1 where fq: "fill_queue stp aggressor actor p es qty c = (es1, q1, k, ys1, c1)"
    by (metis prod_cases5)
  obtain ls2 q2 ys2 c2 where fl: "fill_levels stp has_limit aggressor actor side price ls q1 c1 = (ls2, q2, ys2, c2)"
    by (metis prod_cases4)
  have "x \<in> set ys1 \<or> x \<in> set ys2"
    using Cons.prems l fq fl by (auto simp: Let_def split: if_splits)
  then show ?case
  proof
    assume "x \<in> set ys1"
    then have "trades_with stp aggressor actor (map (Pair p) es) x"
      using fill_queue_counterparties [OF fq] Cons.prems(2) l by simp
    then show ?thesis unfolding l by (rule trades_with_mono) simp
  next
    assume "x \<in> set ys2"
    then have "trades_with stp aggressor actor (flat ls) x"
      using Cons.IH [OF fl] Cons.prems(2) l by simp
    then show ?thesis unfolding l by (rule trades_with_mono) simp
  qed
qed simp

lemma match_facts:
  assumes ok: "abook_ok V A" and m: "abs_match has_limit aggressor actor side price qty (abs_count f A) = (q, xs, A')"
  shows "x \<in> set xs \<Longrightarrow> trades_with (ab_stp A) aggressor actor (flat (ab_levels A (opposite side))) x"
    and "\<not> stp_active (ab_stp A) actor \<Longrightarrow>
      in_order aggressor (flat (ab_levels A (opposite side))) xs (flat (ab_levels A' (opposite side)))"
    and "\<not> stp_active (ab_stp A) actor \<Longrightarrow>
      executed_total xs = min (unat qty) (crossing_qty has_limit side price (flat (ab_levels A (opposite side))))"
    and "executed_total xs = min (unat qty) (reach_levels (ab_stp A) has_limit actor side price (ab_levels A (opposite side)))"
    and "unat qty \<le> reach_levels (ab_stp A) has_limit actor side price (ab_levels A (opposite side)) \<Longrightarrow> q = 0"
proof -
  obtain ls c where fl: "fill_levels (ab_stp A) has_limit aggressor actor side price (ab_levels A (opposite side)) qty (f (ab_counters A))
      = (ls, q, xs, c)" and A': "ab_levels A' (opposite side) = ls"
    using m by (auto simp: abs_match_def abs_count_def split: prod.splits)
  have "\<forall>(p, es) \<in> set (ab_levels A (opposite side)). \<forall>e \<in> set es. en_qty e \<noteq> 0"
    using abook_okD(4) [OF ok] by blast
  then show "x \<in> set xs \<Longrightarrow> trades_with (ab_stp A) aggressor actor (flat (ab_levels A (opposite side))) x"
    by (rule fill_levels_counterparties [OF fl])
  show "\<not> stp_active (ab_stp A) actor \<Longrightarrow>
      in_order aggressor (flat (ab_levels A (opposite side))) xs (flat (ab_levels A' (opposite side)))"
    unfolding A' by (rule fill_levels_in_order [OF fl])
  show "executed_total xs = min (unat qty) (reach_levels (ab_stp A) has_limit actor side price (ab_levels A (opposite side)))"
    "unat qty \<le> reach_levels (ab_stp A) has_limit actor side price (ab_levels A (opposite side)) \<Longrightarrow> q = 0"
    using fill_levels_reach [OF fl] by auto
  then show "\<not> stp_active (ab_stp A) actor \<Longrightarrow>
      executed_total xs = min (unat qty) (crossing_qty has_limit side price (flat (ab_levels A (opposite side))))"
    using reach_crossing [of side "ab_levels A (opposite side)"] ok by (simp add: abook_ok_def)
qed

subsection \<open>One order among the resting ones\<close>

text \<open>A change to the queue of one price leaves the orders before and after it where they are.\<close>

lemma flat_append [simp]: "flat (ls @ ls') = flat ls @ flat ls'"
  by (simp add: flat_def)

lemma flat_member: "f \<in> set (flat ls) \<longleftrightarrow> (\<exists>es. (fst f, es) \<in> set ls \<and> snd f \<in> set es)"
  by (cases f) (force simp: flat_def)

lemma flat_put:
  "ladder_sorted s ls \<Longrightarrow> \<exists>pre post. flat ls = pre @ map (Pair p) (queue_at p ls) @ post
     \<and> (\<forall>es. flat (put s p es ls) = pre @ map (Pair p) es @ post)
     \<and> flat (del p ls) = pre @ post
     \<and> (\<forall>f \<in> set pre. before s (fst f) p) \<and> (\<forall>f \<in> set post. before s p (fst f))"
proof (induction ls)
  case (Cons l ls)
  obtain r fs where l: "l = (r, fs)" by force
  have rest: "before s r (fst f)" if "f \<in> set (flat ls)" for f
    using Cons.prems that l by (auto simp: flat_member dest: before_all)
  consider "p = r" | "p \<noteq> r" "before s p r" | "p \<noteq> r" "\<not> before s p r" by blast
  then show ?case
  proof cases
    case 1
    then have "p \<notin> fst ` set ls" using Cons.prems l by (auto dest: before_all)
    then have "del p ls = ls" by simp
    then show ?thesis using 1 rest l by (intro exI [of _ "[]"] exI [of _ "flat ls"]) auto
  next
    case 2
    then have "p \<notin> fst ` set ls" using Cons.prems l by (auto dest: before_all before_trans)
    moreover have "before s p (fst f)" if "f \<in> set (flat ls)" for f
      using before_trans [OF 2(2) rest [OF that]] .
    ultimately show ?thesis using 2 l queue_at_absent [of p ls]
      by (intro exI [of _ "[]"] exI [of _ "flat (l # ls)"]) auto
  next
    case 3
    obtain pre post where IH: "flat ls = pre @ map (Pair p) (queue_at p ls) @ post"
      "\<forall>es. flat (put s p es ls) = pre @ map (Pair p) es @ post" "flat (del p ls) = pre @ post"
      "\<forall>f \<in> set pre. before s (fst f) p" "\<forall>f \<in> set post. before s p (fst f)"
      using Cons l by auto
    have "before s r p" using 3 before_total by blast
    then show ?thesis using 3 l IH
      by (intro exI [of _ "map (Pair r) fs @ pre"] exI [of _ post]) auto
  qed
qed (intro exI [of _ "[]"], simp)

lemma flat_place:
  assumes "ladder_sorted s ls"
  obtains pre post where "flat ls = pre @ map (Pair p) (queue_at p ls) @ post"
    and "\<And>es. flat (place s p es ls) = pre @ map (Pair p) es @ post"
    and "\<forall>f \<in> set pre. before s (fst f) p" and "\<forall>f \<in> set post. before s p (fst f)"
  using flat_put [OF assms, of p] by (auto simp: place_def)

subsection \<open>The order a call names, continued\<close>

lemma ids_flat: "map (\<lambda>(s, p, e). en_id e) (side_entries s ls) = map (\<lambda>(p, e). en_id e) (flat ls)"
proof (induction ls)
  case (Cons l ls)
  then show ?case by (cases l) (simp add: comp_def)
qed simp

lemma level_ids_flat: "level_ids ls = (\<lambda>(p, e). en_id e) ` set (flat ls)"
proof (induction ls)
  case (Cons l ls)
  then show ?case by (cases l) (simp add: image_Un image_image)
qed simp

lemma book_ids_flat: "book_ids A = (\<Union>s. (\<lambda>(p, e). en_id e) ` set (flat (ab_levels A s)))"
  by (simp add: book_ids_def level_ids_flat)

lemma distinct_flat:
  assumes "abook_ok V A"
  shows "distinct (map (\<lambda>(p, e). en_id e) (flat (ab_levels A s)))"
    and "f \<in> set (flat (ab_levels A s)) \<Longrightarrow> g \<in> set (flat (ab_levels A (opposite s))) \<Longrightarrow> en_id (snd f) \<noteq> en_id (snd g)"
proof -
  have d: "distinct (map (\<lambda>(p, e). en_id e) (flat (ab_levels A Bid)) @ map (\<lambda>(p, e). en_id e) (flat (ab_levels A Ask)))"
    using abook_okD(5) [OF assms] by (simp add: all_entries_def ids_flat)
  then show "distinct (map (\<lambda>(p, e). en_id e) (flat (ab_levels A s)))" by (cases s) auto
  have D: "en_id (snd f) \<noteq> en_id (snd g)" if "f \<in> set (flat (ab_levels A Bid))" "g \<in> set (flat (ab_levels A Ask))" for f g
    using d that by (auto simp: split_beta)
  show "f \<in> set (flat (ab_levels A s)) \<Longrightarrow> g \<in> set (flat (ab_levels A (opposite s))) \<Longrightarrow> en_id (snd f) \<noteq> en_id (snd g)"
    using D [of f g] D [of g f] by (cases s) auto
qed

lemma one_order:
  assumes "abook_ok V A" and "abs_find oid A = Some (s, p, e)" and "ab_levels B = ab_levels A"
  obtains pre post where "flat (ab_levels A s) = pre @ (p, e) # post" and "en_id e = oid"
    and "flat (ab_levels (abs_remove s p oid B) s) = pre @ post"
    and "\<And>f. flat (ab_levels (abs_set_queue s p (map (\<lambda>e. if en_id e = oid then f e else e)
      (queue_at p (ab_levels A s))) B) s) = pre @ (p, f e) # post"
    and "ab_levels (abs_remove s p oid B) (opposite s) = ab_levels A (opposite s)"
    and "\<And>es. ab_levels (abs_set_queue s p es B) (opposite s) = ab_levels A (opposite s)"
proof -
  obtain xs ys where q: "queue_at p (ab_levels A s) = xs @ e # ys" "en_id e = oid" "oid \<notin> en_id ` set xs" "oid \<notin> en_id ` set ys"
    by (rule abs_find_split [OF assms(1,2)]) blast
  obtain pre post where pp: "flat (ab_levels A s) = pre @ map (Pair p) (queue_at p (ab_levels A s)) @ post"
    "\<And>es. flat (place s p es (ab_levels A s)) = pre @ map (Pair p) es @ post"
    by (rule flat_place [OF abook_okD(1) [OF assms(1)], of s p]) blast
  show thesis
  proof (rule that [of "pre @ map (Pair p) xs" "map (Pair p) ys @ post"])
    show "flat (ab_levels A s) = (pre @ map (Pair p) xs) @ (p, e) # map (Pair p) ys @ post" using pp(1) q(1) by simp
    show "flat (ab_levels (abs_remove s p oid B) s) = (pre @ map (Pair p) xs) @ map (Pair p) ys @ post"
      unfolding abs_remove_def assms(3) q(1) filter_split(1) [OF q(3,4,2)] using pp(2) assms(3) by simp
    show "flat (ab_levels (abs_set_queue s p (map (\<lambda>e. if en_id e = oid then f e else e) (queue_at p (ab_levels A s))) B) s)
        = (pre @ map (Pair p) xs) @ (p, f e) # map (Pair p) ys @ post" for f
      unfolding q(1) filter_split(2) [OF q(3,4,2)] using pp(2) assms(3) by simp
  qed (use q assms(3) in \<open>simp_all add: abs_remove_def\<close>)
qed

lemma cancel_ids:
  assumes ok: "abook_ok V A"
  shows "book_ids (snd (abs_cancel oid A)) = book_ids A - {oid}"
proof (cases "abs_find oid A")
  case None
  then show ?thesis using abs_find_None [of oid A] by (simp add: abs_cancel_def)
next
  case (Some l)
  obtain s p e where l: "abs_find oid A = Some (s, p, e)" using Some by (cases l) auto
  let ?B = "abs_count (c_canceled (en_qty e)) A"
  have B: "ab_levels ?B = ab_levels A" by simp
  obtain pre post where o1: "flat (ab_levels A s) = pre @ (p, e) # post" "en_id e = oid"
    "flat (ab_levels (abs_remove s p oid ?B) s) = pre @ post"
    "ab_levels (abs_remove s p oid ?B) (opposite s) = ab_levels A (opposite s)"
    by (rule one_order [OF ok l B]) blast
  have u: "book_ids C = (\<lambda>(p, e). en_id e) ` set (flat (ab_levels C s)) \<union> (\<lambda>(p, e). en_id e) ` set (flat (ab_levels C (opposite s)))" for C
    unfolding book_ids_flat by (cases s; intro set_eqI; simp add: ex_side; blast)
  have "oid \<notin> (\<lambda>(p, e). en_id e) ` set (pre @ post)"
    using distinct_flat(1) [OF ok, of s] o1(1,2) by (auto simp: split_beta)
  moreover have "oid \<notin> (\<lambda>(p, e). en_id e) ` set (flat (ab_levels A (opposite s)))"
    using distinct_flat(2) [OF ok, of "(p, e)" s] o1(1,2) by (auto simp: split_beta)
  moreover have "snd (abs_cancel oid A) = abs_remove s p oid ?B" using l by (simp add: abs_cancel_def)
  ultimately show ?thesis unfolding u using o1 by auto
qed

text \<open>A replacement that passes its checks is accepted.\<close>

lemma replace_accepts:
  assumes ok: "abook_ok V A" and f: "abs_find old_id A = Some (s, p, e)"
    and "new_id \<noteq> 0" and "new_qty \<noteq> 0" and "V new_price" and "new_id \<noteq> old_id \<Longrightarrow> abs_find new_id A = None"
  shows "fst (abs_replace V old_id new_id new_price new_qty A) = Ok"
proof -
  have "abs_find new_id (snd (abs_cancel old_id A)) = None"
    using cancel_ids [OF ok, of old_id] assms(6) unfolding abs_find_None by auto
  then have "abs_validate V new_id new_price new_qty (snd (abs_cancel old_id A)) = Ok"
    using assms(3-5) by (simp add: abs_validate_def)
  then show ?thesis using assms by (auto simp: abs_replace_def abs_limit_def Let_def split_beta)
qed

end
