(* ===== verification/BookProperties.thy ===== *)
theory BookProperties
  imports MarketRules
begin

text \<open>
  The properties of the order book, for every pair of a ladder and an id map that keep their
  contracts, and for every sequence of calls on a new book.
\<close>

subsection \<open>From a run to the specification\<close>

lemma lawful_policies:
  "lawful map_std_policy ml_new" "lawful map_open_policy ml_new"
  "lawful pooled_std_policy pm_new" "lawful pooled_open_policy pm_new"
  "min_price \<le> max_price \<Longrightarrow> max_price - min_price + 1 < 2 ^ 32 \<Longrightarrow> lawful dense_std_policy (dl_new min_price max_price)"
  "min_price \<le> max_price \<Longrightarrow> max_price - min_price + 1 < 2 ^ 32 \<Longrightarrow> lawful dense_open_policy (dl_new min_price max_price)"
  unfolding lawful_def
  using map_std.book_policies_axioms map_open.book_policies_axioms pooled_std.book_policies_axioms
    pooled_open.book_policies_axioms dense_std.book_policies_axioms dense_open.book_policies_axioms
    ml_new_ok pm_new_ok dl_new_ok by blast+

lemma call:
  assumes "lawful P l" and "fresh_run P l ops = Some (rs, b)" and "length ops < 2 ^ 32 - 1"
    and "book_step P op1 b = Some (ans, b')"
  obtains A A' where "implements P (pol_valid_price P l) b A" and "implements P (pol_valid_price P l) b' A'"
    and "abs_step (pol_valid_price P l) op1 A = (ans, A')"
proof -
  obtain A where A: "implements P (pol_valid_price P l) b A"
    and s: "\<And>op1. \<exists>b'. book_step P op1 b = Some (fst (abs_step (pol_valid_price P l) op1 A), b')
      \<and> implements P (pol_valid_price P l) b' (snd (abs_step (pol_valid_price P l) op1 A))"
    by (rule fresh_step [OF assms(1-3)]) blast
  from s [of op1] show thesis using that [OF A] assms(4) by (metis option.inject prod.collapse prod.inject)
qed

lemma run_exists:
  assumes "lawful P l" and "length ops < 2 ^ 32 - 1"
  shows "\<exists>rs b b'. fresh_run P l ops = Some (rs, b)
    \<and> book_step P op1 b = Some (fst (abs_step (pol_valid_price P l) op1 (snd (abs_run (pol_valid_price P l) ops abook_new))), b')"
proof -
  have "length ops < 2 ^ 32" using assms(2) by simp
  then obtain b0 b where "book_new P l = Some b0"
    "book_run P ops b0 = Some (fst (abs_run (pol_valid_price P l) ops abook_new), b)"
    using lawful_run [OF assms(1)] by blast
  then have r: "fresh_run P l ops = Some (fst (abs_run (pol_valid_price P l) ops abook_new), b)"
    by (simp add: fresh_run_def)
  obtain A where "A = snd (abs_run (pol_valid_price P l) ops abook_new)"
    "\<And>op1. \<exists>b'. book_step P op1 b = Some (fst (abs_step (pol_valid_price P l) op1 A), b')"
    by (rule fresh_step [OF assms(1) r assms(2)]) blast
  with r show ?thesis by blast
qed

lemmas abs_eval = abs_limit_def abs_ioc_def abs_fok_def abs_market_def abs_cancel_def abs_replace_def
  abs_insert_passive_def abs_consume_def abs_validate_def abs_find_def all_entries_def side_entries_def
  abs_match_def abs_rest_def abs_remove_def abs_set_queue_def place_def queue_at_def abs_count_def
  c_added_def c_traded_def c_canceled_def c_executed_def c_prevented_def abook_new_def counters_zero_def
  stp_active_def crosses_def before_def Let_def

lemma map_std_valid: "pol_valid_price map_std_policy l = (\<lambda>_. True)"
  by (auto simp: map_std_policy_def policy.make_def ml_valid_price_def fun_eq_iff)

subsection \<open>The specification is implemented\<close>

text \<open>C1: Every run of calls on a new book, under any lawful policy, ends, gives the answers and executions of the pointer-free specification, and leaves a book with the same state hash, the same depth at every size, the same resting orders, the same counters and the same number of open orders.\<close>

theorem book_implements_spec:
  assumes "lawful P l" and "length ops < 2 ^ 32" and "abs_run (pol_valid_price P l) ops abook_new = (rs, A)"
  shows "\<exists>b. fresh_run P l ops = Some (rs, b) \<and> state_hash P b = Some (abs_hash A)
    \<and> (\<forall>n. depth P n b = Some \<lparr>dp_bids = abs_depth Bid n A, dp_asks = abs_depth Ask n A\<rparr>)
    \<and> (\<forall>s. resting P s b = Some (flat (ab_levels A s)))
    \<and> bk_counters b = ab_counters A \<and> open_orders P b = length (all_entries A)"
proof -
  obtain b0 b where b: "book_new P l = Some b0" "book_run P ops b0 = Some (rs, b)"
    and im: "implements P (pol_valid_price P l) b A"
    using lawful_run [OF assms(1,2)] assms(3) by auto
  have r: "fresh_run P l ops = Some (rs, b)" using b by (simp add: fresh_run_def)
  note D = implementsD [OF im]
  show ?thesis using r D(1-5) by (intro exI [of _ b]) (simp add: depth_def)
qed

theorem book_implements_spec_witness:
  "\<exists>b. fresh_run map_std_policy ml_new [LimitOp 7 1 Ask 100 5, LimitOp 9 2 Bid 101 3]
      = Some ([(Ok, [], 0), (Ok, [\<lparr>ex_resting_id = 1, ex_aggressor_id = 2, ex_price = 100, ex_qty = 3\<rparr>], 0)], b)
    \<and> resting map_std_policy Ask b = Some [(100, \<lparr>en_id = 1, en_qty = 2, en_owner = 7\<rparr>)]"
  using book_implements_spec [OF lawful_policies(1) _ surjective_pairing, of "[LimitOp 7 1 Ask 100 5, LimitOp 9 2 Bid 101 3]"]
  by (force simp: map_std_valid abs_eval)

text \<open>All six combinations of the three ladders and the two id maps keep their contracts; the dense ladder does for every nonempty price range of fewer than 2 to the 32nd ticks.\<close>

theorem policies_lawful:
  assumes "min_price \<le> max_price" and "max_price - min_price + 1 < 2 ^ 32"
  shows "lawful map_std_policy ml_new \<and> lawful map_open_policy ml_new
    \<and> lawful pooled_std_policy pm_new \<and> lawful pooled_open_policy pm_new
    \<and> lawful dense_std_policy (dl_new min_price max_price) \<and> lawful dense_open_policy (dl_new min_price max_price)"
  using lawful_policies assms by blast

theorem policies_lawful_witness:
  "lawful map_std_policy ml_new \<and> lawful map_open_policy ml_new
    \<and> lawful pooled_std_policy pm_new \<and> lawful pooled_open_policy pm_new
    \<and> lawful dense_std_policy (dl_new 1 400000) \<and> lawful dense_open_policy (dl_new 1 400000)"
  using policies_lawful [of 1 400000] by simp

text \<open>The prices a call names.\<close>

fun op_prices :: "book_op \<Rightarrow> Price set" where
  "op_prices (LimitOp actor oid s p q) = {p}"
| "op_prices (IocOp actor oid s p q) = {p}"
| "op_prices (FokOp actor oid s p q) = {p}"
| "op_prices (ReplaceOp old_id new_id p q) = {p}"
| "op_prices (PassiveOp oid s p q) = {p}"
| "op_prices op1 = {}"

lemma abs_step_window:
  assumes "\<forall>p \<in> op_prices op1. V p = W p"
  shows "abs_step V op1 A = abs_step W op1 A"
proof -
  have v: "V p = W p \<Longrightarrow> abs_validate V oid p q B = abs_validate W oid p q B" for oid p q B
    by (simp add: abs_validate_def)
  have lim: "V p = W p \<Longrightarrow> abs_limit V actor oid s p q B = abs_limit W actor oid s p q B" for actor oid s p q B
    by (simp add: abs_limit_def v)
  have "V p = W p \<Longrightarrow> abs_ioc V actor oid s p q B = abs_ioc W actor oid s p q B" for actor oid s p q B
    by (simp add: abs_ioc_def v)
  moreover have "V p = W p \<Longrightarrow> abs_fok V actor oid s p q B = abs_fok W actor oid s p q B" for actor oid s p q B
    by (simp add: abs_fok_def v)
  moreover have "V p = W p \<Longrightarrow> abs_replace V old_id new_id p q B = abs_replace W old_id new_id p q B" for old_id new_id p q B
    by (auto simp: abs_replace_def lim split: option.split)
  moreover have "V p = W p \<Longrightarrow> abs_insert_passive V oid s p q B = abs_insert_passive W oid s p q B" for oid s p q B
    by (simp add: abs_insert_passive_def v)
  ultimately show ?thesis using assms lim by (cases op1) simp_all
qed

lemma abs_run_window:
  "\<forall>op1 \<in> set ops. \<forall>p \<in> op_prices op1. V p = W p \<Longrightarrow> abs_run V ops A = abs_run W ops A"
proof (induction ops arbitrary: A)
  case (Cons op1 ops)
  then have "abs_step V op1 A = abs_step W op1 A" by (intro abs_step_window) simp
  then show ?case using Cons by (simp add: split_beta Let_def)
qed simp

text \<open>C2: Two books on any two lawful policies that accept the prices named by the calls alike give the same answers and executions and end with the same state hash, depth, counters and number of open orders.\<close>

theorem policies_agree:
  assumes "lawful P l" and "lawful Q k" and "length ops < 2 ^ 32"
    and "\<forall>op1 \<in> set ops. \<forall>p \<in> op_prices op1. pol_valid_price P l p = pol_valid_price Q k p"
  shows "\<exists>rs b c. fresh_run P l ops = Some (rs, b) \<and> fresh_run Q k ops = Some (rs, c)
    \<and> state_hash P b = state_hash Q c \<and> (\<forall>n. depth P n b = depth Q n c)
    \<and> bk_counters b = bk_counters c \<and> open_orders P b = open_orders Q c"
proof -
  obtain b0 b where b: "book_new P l = Some b0"
    "book_run P ops b0 = Some (fst (abs_run (pol_valid_price P l) ops abook_new), b)"
    "implements P (pol_valid_price P l) b (snd (abs_run (pol_valid_price P l) ops abook_new))"
    using lawful_run [OF assms(1,3)] by blast
  obtain c0 c where c: "book_new Q k = Some c0"
    "book_run Q ops c0 = Some (fst (abs_run (pol_valid_price Q k) ops abook_new), c)"
    "implements Q (pol_valid_price Q k) c (snd (abs_run (pol_valid_price Q k) ops abook_new))"
    using lawful_run [OF assms(2,3)] by blast
  note e = abs_run_window [OF assms(4), of abook_new]
  show ?thesis
    using b(1,2) c(1,2) implementsD(1,2,4,5) [OF b(3)] implementsD(1,2,4,5) [OF c(3)] e
    by (auto simp: fresh_run_def depth_def)
qed

theorem policies_agree_witness:
  "\<exists>rs b c. fresh_run dense_open_policy (dl_new 1 1000) [LimitOp 0 1 Bid 10 5, MarketOp 0 2 Ask 3] = Some (rs, b)
    \<and> fresh_run map_std_policy ml_new [LimitOp 0 1 Bid 10 5, MarketOp 0 2 Ask 3] = Some (rs, c)
    \<and> state_hash dense_open_policy b = state_hash map_std_policy c"
proof -
  have "pol_valid_price dense_open_policy (dl_new 1 1000) 10"
    by (simp add: dense_open_policy_def policy.make_def dl_valid_price_def dl_new_def Let_def)
  then have w: "\<forall>op1 \<in> set [LimitOp 0 1 Bid 10 5, MarketOp 0 2 Ask 3]. \<forall>p \<in> op_prices op1.
      pol_valid_price dense_open_policy (dl_new 1 1000) p = pol_valid_price map_std_policy ml_new p"
    by (simp add: map_std_valid)
  have l: "lawful dense_open_policy (dl_new 1 1000)" by (rule lawful_policies(6)) simp_all
  show ?thesis
    using policies_agree [OF l lawful_policies(1) _ w] by fastforce
qed

subsection \<open>What is stored\<close>

text \<open>C14: At any time bids are sorted from high to low and asks from low to high, no two resting orders share an id, no resting order is empty or outside the price range, and the index counts exactly the resting orders.\<close>

theorem book_well_formed:
  assumes "lawful P l" and "fresh_run P l ops = Some (rs, b)" and "length ops < 2 ^ 32"
  shows "\<exists>bids asks. resting P Bid b = Some bids \<and> resting P Ask b = Some asks
    \<and> sorted_wrt (\<ge>) (map fst bids) \<and> sorted_wrt (\<le>) (map fst asks)
    \<and> distinct (map (\<lambda>(p, e). en_id e) (bids @ asks))
    \<and> (\<forall>(p, e) \<in> set (bids @ asks). en_qty e \<noteq> 0 \<and> pol_valid_price P l p)
    \<and> open_orders P b = length bids + length asks"
proof -
  obtain A where im: "implements P (pol_valid_price P l) b A" using fresh_reached [OF assms] by blast
  note D = implementsD [OF im] and ok = implementsD(8) [OF im]
  have sorted: "ladder_sorted s ls \<Longrightarrow> sorted_wrt (\<lambda>p q. p = q \<or> before s p q) (map fst (flat ls))" for s ls
  proof (induction ls)
    case (Cons l ls)
    obtain p es where l: "l = (p, es)" by force
    have "sorted_wrt (\<lambda>p q. p = q \<or> before s p q) (map fst (map (Pair p) es))" by (simp add: sorted_wrt_iff_nth_less)
    moreover have "\<forall>f \<in> set (flat ls). before s p (fst f)"
      using Cons.prems l by (auto simp: flat_member dest: before_all)
    ultimately show ?case using Cons l by (auto simp: sorted_wrt_append)
  qed simp
  have "sorted_wrt (\<ge>) (map fst (flat (ab_levels A Bid)))"
    using sorted [OF abook_okD(1) [OF ok, of Bid]] by (rule sorted_wrt_mono_rel [rotated]) (auto simp: before_def)
  moreover have "sorted_wrt (\<le>) (map fst (flat (ab_levels A Ask)))"
    using sorted [OF abook_okD(1) [OF ok, of Ask]] by (rule sorted_wrt_mono_rel [rotated]) (auto simp: before_def)
  moreover have "distinct (map (\<lambda>(p, e). en_id e) (flat (ab_levels A Bid) @ flat (ab_levels A Ask)))"
    using abook_okD(5) [OF ok] by (simp add: all_entries_def ids_flat)
  moreover have "en_qty (snd f) \<noteq> 0 \<and> pol_valid_price P l (fst f)" if "f \<in> set (flat (ab_levels A s))" for f s
    using that abook_okD(2,4) [OF ok] by (auto simp: flat_member)
  moreover have "length (side_entries s ls) = length (flat ls)" for s ls
    using ids_flat [of s ls] by (metis length_map)
  ultimately show ?thesis using D(3,4) by (fastforce simp: all_entries_def)
qed

theorem book_well_formed_witness:
  "\<exists>rs b bids asks. fresh_run map_std_policy ml_new [LimitOp 7 1 Ask 100 5, LimitOp 9 2 Ask 99 3] = Some (rs, b)
    \<and> resting map_std_policy Bid b = Some bids \<and> resting map_std_policy Ask b = Some asks
    \<and> sorted_wrt (\<le>) (map fst asks) \<and> open_orders map_std_policy b = length bids + length asks"
proof -
  have n: "length [LimitOp 7 1 Ask 100 5, LimitOp 9 2 Ask 99 3] < 2 ^ 32 - 1" by simp
  obtain rs b where r: "fresh_run map_std_policy ml_new [LimitOp 7 1 Ask 100 5, LimitOp 9 2 Ask 99 3] = Some (rs, b)"
    using run_exists [OF lawful_policies(1) n] by blast
  show ?thesis using book_well_formed [OF lawful_policies(1) r] r by fastforce
qed

text \<open>find_order returns a node exactly when an order of this id rests, and the node carries its side, price, quantity and participant.\<close>

theorem find_order_exact:
  assumes "lawful P l" and "fresh_run P l ops = Some (rs, b)" and "length ops < 2 ^ 32"
  shows "\<exists>found. find_order P oid b = Some found \<and> (case found of
      None \<Rightarrow> \<forall>s fs. resting P s b = Some fs \<longrightarrow> oid \<notin> (\<lambda>(p, e). en_id e) ` set fs
    | Some x \<Rightarrow> ord_id x = oid \<and> (\<exists>fs. resting P (ord_side x) b = Some fs
        \<and> (ord_price x, \<lparr>en_id = oid, en_qty = ord_qty x, en_owner = ord_participant x\<rparr>) \<in> set fs))"
proof -
  obtain A where im: "implements P (pol_valid_price P l) b A" using fresh_reached [OF assms] by blast
  note D = implementsD [OF im]
  obtain found where f: "find_order P oid b = Some found" and c: "case found of None \<Rightarrow> abs_find oid A = None
    | Some x \<Rightarrow> ord_id x = oid \<and> abs_find oid A
        = Some (ord_side x, ord_price x, \<lparr>en_id = ord_id x, en_qty = ord_qty x, en_owner = ord_participant x\<rparr>)"
    using D(10) by blast
  show ?thesis
  proof (cases found)
    case None
    then have "oid \<notin> book_ids A" using c abs_find_None by simp
    then show ?thesis using f None D(3) by (simp add: book_ids_flat)
  next
    case (Some x)
    then have x: "ord_id x = oid" "abs_find oid A
        = Some (ord_side x, ord_price x, \<lparr>en_id = oid, en_qty = ord_qty x, en_owner = ord_participant x\<rparr>)"
      using c by auto
    obtain pre post where "flat (ab_levels A (ord_side x))
        = pre @ (ord_price x, \<lparr>en_id = oid, en_qty = ord_qty x, en_owner = ord_participant x\<rparr>) # post"
      by (rule one_order [OF D(8) x(2) refl]) blast
    then show ?thesis using f Some D(3) x(1) by simp
  qed
qed

theorem find_order_exact_witness:
  "\<exists>rs b x. fresh_run map_std_policy ml_new [LimitOp 7 1 Ask 100 5] = Some (rs, b) \<and> find_order map_std_policy 1 b = Some x"
proof -
  have n: "length [LimitOp 7 1 Ask 100 5] < 2 ^ 32 - 1" by simp
  obtain rs b where r: "fresh_run map_std_policy ml_new [LimitOp 7 1 Ask 100 5] = Some (rs, b)"
    using run_exists [OF lawful_policies(1) n] by blast
  show ?thesis using find_order_exact [OF lawful_policies(1) r] r by fastforce
qed

subsection \<open>Invariants of every run\<close>

lemma run_invariant:
  assumes "lawful P l" and "fresh_run P l ops = Some (rs, b)" and "length ops < 2 ^ 32 - 1"
    and "J abook_new" and "\<forall>op1 \<in> set ops. \<forall>V A. abook_ok V A \<longrightarrow> J A \<longrightarrow> J (snd (abs_step (pol_valid_price P l) op1 A))"
  obtains A where "implements P (pol_valid_price P l) b A" and "J A"
proof -
  have "\<exists>A. implements P (pol_valid_price P l) b A \<and> J A"
    using assms(2,3,5)
  proof (induction ops arbitrary: rs b rule: rev_induct)
    case Nil
    have "implements P (pol_valid_price P l) b abook_new"
      using fresh_reached(2) [OF assms(1) Nil.prems(1)] by simp
    then show ?case using assms(4) by blast
  next
    case (snoc op1 ops)
    have split: "book_run P (xs @ ys) b = do { (r, b) \<leftarrow> book_run P xs b; (q, b) \<leftarrow> book_run P ys b; Some (r @ q, b) }" for xs ys b
      by (induction xs arbitrary: b) (auto simp: Option.bind_eq_Some_conv split: Option.bind_splits)
    obtain rs1 b1 ans where b1: "fresh_run P l ops = Some (rs1, b1)" "book_step P op1 b1 = Some (ans, b)"
      using snoc.prems(1) unfolding fresh_run_def split
      by (auto split: Option.bind_splits simp: fresh_run_def)
    have n: "length ops < 2 ^ 32 - 1" using snoc.prems(2) by simp
    have n': "length ops < 2 ^ 32" using n by simp
    obtain A where A: "implements P (pol_valid_price P l) b1 A" "J A"
      using snoc.IH [OF b1(1) n] snoc.prems(3) by auto
    have "Suc (pol_size P (bk_orders b1)) < 2 ^ 32"
      using fresh_reached(3) [OF assms(1) b1(1) n'] snoc.prems(2) by simp
    then obtain b2 where "book_step P op1 b1 = Some (fst (abs_step (pol_valid_price P l) op1 A), b2)"
      "implements P (pol_valid_price P l) b2 (snd (abs_step (pol_valid_price P l) op1 A))"
      using implements_step [OF A(1)] by blast
    then show ?case using snoc.prems(3) A(2) implementsD(8) [OF A(1)] b1(2) by auto
  qed
  then show thesis using that by blast
qed

definition resting_qty :: "(Price \<times> entry) list \<Rightarrow> u64" where
  "resting_qty fs = (\<Sum>(p, e)\<leftarrow>fs. ucast (en_qty e))"

lemma resting_qty_flat: "resting_qty (flat ls) = levels_qty ls"
proof -
  have q: "resting_qty (map (Pair p) es) = queue_qty es" for p es
    by (simp add: resting_qty_def queue_qty_def comp_def)
  have "resting_qty (fs @ gs) = resting_qty fs + resting_qty gs" for fs gs by (simp add: resting_qty_def)
  with q show ?thesis by (induction ls) (auto simp: resting_qty_def)
qed

text \<open>C9: Quantity is conserved modulo 2 to the 64th over every run: what was added is twice what traded, plus what was canceled, plus what the feed executed, plus what rests.\<close>

theorem quantity_conserved:
  assumes "lawful P l" and "fresh_run P l ops = Some (rs, b)" and "length ops < 2 ^ 32 - 1"
  shows "\<exists>bids asks. resting P Bid b = Some bids \<and> resting P Ask b = Some asks
    \<and> added_qty (bk_counters b) = 2 * traded_qty (bk_counters b) + canceled_qty (bk_counters b)
        + executed_qty (bk_counters b) + resting_qty bids + resting_qty asks"
proof -
  have "balanced abook_new" by (simp add: balanced_def accounted_def abook_new_def counters_zero_def levels_qty_def)
  then obtain A where A: "implements P (pol_valid_price P l) b A" "balanced A"
    using run_invariant [OF assms, of balanced] balanced_step by blast
  show ?thesis using implementsD(3,5) [OF A(1)] A(2) by (simp add: resting_qty_flat balanced_def accounted_def)
qed

theorem quantity_conserved_witness:
  "\<exists>rs b bids asks. fresh_run map_std_policy ml_new [LimitOp 7 1 Ask 100 5, IocOp 9 2 Bid 100 8, LimitOp 7 3 Ask 100 5] = Some (rs, b)
    \<and> resting map_std_policy Bid b = Some bids \<and> resting map_std_policy Ask b = Some asks
    \<and> added_qty (bk_counters b) = 2 * traded_qty (bk_counters b) + canceled_qty (bk_counters b)
        + executed_qty (bk_counters b) + resting_qty bids + resting_qty asks"
proof -
  have n: "length [LimitOp 7 1 Ask 100 5, IocOp 9 2 Bid 100 8, LimitOp 7 3 Ask 100 5] < 2 ^ 32 - 1" by simp
  obtain rs b where r: "fresh_run map_std_policy ml_new [LimitOp 7 1 Ask 100 5, IocOp 9 2 Bid 100 8, LimitOp 7 3 Ask 100 5] = Some (rs, b)"
    using run_exists [OF lawful_policies(1) n] by blast
  show ?thesis using quantity_conserved [OF lawful_policies(1) r n] r by blast
qed

text \<open>C10: A book that got no insert_passive never rests a bid at or above an ask.\<close>

theorem book_never_crossed:
  assumes "lawful P l" and "fresh_run P l ops = Some (rs, b)" and "length ops < 2 ^ 32 - 1"
    and "\<forall>op1 \<in> set ops. \<not> is_passive op1"
  shows "\<exists>bids asks. resting P Bid b = Some bids \<and> resting P Ask b = Some asks
    \<and> (\<forall>x \<in> set bids. \<forall>y \<in> set asks. fst x < fst y)"
proof -
  have "uncrossed abook_new" by (simp add: uncrossed_def abook_new_def prices_def)
  moreover have "\<forall>op1 \<in> set ops. \<forall>V A. abook_ok V A \<longrightarrow> uncrossed A \<longrightarrow> uncrossed (snd (abs_step (pol_valid_price P l) op1 A))"
    using uncrossed_step assms(4) by blast
  ultimately obtain A where A: "implements P (pol_valid_price P l) b A" "uncrossed A"
    using run_invariant [OF assms(1-3), of uncrossed] by blast
  have "f \<in> set (flat ls) \<Longrightarrow> fst f \<in> fst ` set ls" for f ls by (force simp: flat_member)
  then have "\<forall>x \<in> set (flat (ab_levels A Bid)). \<forall>y \<in> set (flat (ab_levels A Ask)). fst x < fst y"
    using A(2) unfolding uncrossed_def prices_def by blast
  then show ?thesis using implementsD(3) [OF A(1)] by simp
qed

theorem book_never_crossed_witness:
  "\<exists>rs b bids asks. fresh_run map_std_policy ml_new [LimitOp 7 1 Ask 100 5, LimitOp 9 2 Bid 101 8] = Some (rs, b)
    \<and> resting map_std_policy Bid b = Some bids \<and> resting map_std_policy Ask b = Some asks
    \<and> (\<forall>x \<in> set bids. \<forall>y \<in> set asks. fst x < fst y)"
proof -
  have n: "length [LimitOp 7 1 Ask 100 5, LimitOp 9 2 Bid 101 8] < 2 ^ 32 - 1" by simp
  obtain rs b where r: "fresh_run map_std_policy ml_new [LimitOp 7 1 Ask 100 5, LimitOp 9 2 Bid 101 8] = Some (rs, b)"
    using run_exists [OF lawful_policies(1) n] by blast
  show ?thesis using book_never_crossed [OF lawful_policies(1) r n] r by auto
qed

subsection \<open>Rejections\<close>

lemma add_rejected:
  assumes "add_limit_as P actor oid s p q b = Some (r, xs, b')" and "r \<noteq> Ok"
  shows "b' = b \<and> xs = []"
  using assms by (auto simp: add_limit_as_def Option.bind_eq_Some_conv split: if_splits prod.splits)

lemma find_agrees:
  assumes "implements P V b A"
  shows "\<exists>o1. pol_find P (bk_orders b) i = Some o1 \<and> (o1 = None \<longleftrightarrow> abs_find i A = None)"
proof -
  obtain found where f: "find_order P i b = Some found" and c: "case found of None \<Rightarrow> abs_find i A = None
    | Some x \<Rightarrow> ord_id x = i \<and> abs_find i A
        = Some (ord_side x, ord_price x, \<lparr>en_id = ord_id x, en_qty = ord_qty x, en_owner = ord_participant x\<rparr>)"
    using implementsD(10) [OF assms, of i] by (elim exE conjE) (rule that)
  obtain o1 where o1: "pol_find P (bk_orders b) i = Some o1" "found = map_option (bk_heap b) o1"
    using f unfolding find_order_def Option.bind_eq_Some_conv by auto
  show ?thesis using c o1 by (cases o1) auto
qed

text \<open>C13: A call that returns anything but Ok leaves the book exactly as it was, executes nothing and consumes nothing; this includes replace and a killed fill-or-kill.\<close>

theorem rejected_call_changes_nothing:
  assumes "lawful P l" and "fresh_run P l ops = Some (rs, b)" and "length ops < 2 ^ 32 - 1"
    and "book_step P op1 b = Some ((r, xs, t), b')" and "r \<noteq> Ok"
  shows "b' = b \<and> xs = [] \<and> t = 0"
proof (cases op1)
  case (ReplaceOp old_id new_id p q)
  obtain A A' where im: "implements P (pol_valid_price P l) b A"
    and st: "abs_step (pol_valid_price P l) op1 A = ((r, xs, t), A')"
    by (rule call [OF assms(1-4)]) blast
  note D = implementsD [OF im]
  note find = find_agrees [OF im]
  obtain o1 where o1: "pol_find P (bk_orders b) old_id = Some o1" "o1 = None \<longleftrightarrow> abs_find old_id A = None"
    using find by blast
  obtain o2 where o2: "pol_find P (bk_orders b) new_id = Some o2" "o2 = None \<longleftrightarrow> abs_find new_id A = None"
    using find by blast
  have rep: "replace P old_id new_id p q b = Some (r, xs, b')" "t = 0"
    using assms(4) ReplaceOp by (auto simp: Option.bind_eq_Some_conv)
  have no: "\<not> (o1 \<noteq> None \<and> new_id \<noteq> 0 \<and> q \<noteq> 0 \<and> pol_valid_price P l p \<and> (new_id \<noteq> old_id \<longrightarrow> o2 = None))"
  proof
    assume a: "o1 \<noteq> None \<and> new_id \<noteq> 0 \<and> q \<noteq> 0 \<and> pol_valid_price P l p \<and> (new_id \<noteq> old_id \<longrightarrow> o2 = None)"
    then obtain s p0 e where "abs_find old_id A = Some (s, p0, e)" using o1(2) by (metis prod_cases3 not_None_eq)
    then have "fst (abs_replace (pol_valid_price P l) old_id new_id p q A) = Ok"
      using replace_accepts [OF D(8)] a o2(2) by blast
    then show False using st ReplaceOp assms(5) by (auto simp: split_beta)
  qed
  show ?thesis
    using no rep o1(1) o2(1) D(7) by (cases o1) (auto simp: replace_def split: if_splits)
qed (use assms(4,5) in \<open>auto dest: add_rejected simp: add_ioc_as_def add_fok_as_def add_market_as_def cancel_def insert_passive_def
    execute_resting_def reduce_resting_def consume_def Option.bind_eq_Some_conv Let_def split: if_splits prod.splits option.splits\<close>)

theorem rejected_call_changes_nothing_witness:
  "\<exists>rs b b'. fresh_run map_std_policy ml_new [LimitOp 7 1 Ask 100 5] = Some (rs, b)
    \<and> book_step map_std_policy (FokOp 9 2 Bid 100 8) b = Some ((RejectedNoLiquidity, [], 0), b') \<and> b' = b"
proof -
  have n: "length [LimitOp 7 1 Ask 100 5] < 2 ^ 32 - 1" by simp
  obtain rs b b' where r: "fresh_run map_std_policy ml_new [LimitOp 7 1 Ask 100 5] = Some (rs, b)"
    "book_step map_std_policy (FokOp 9 2 Bid 100 8) b = Some ((RejectedNoLiquidity, [], 0), b')"
    using run_exists [OF lawful_policies(1) n, of "FokOp 9 2 Bid 100 8"] by (auto simp: map_std_valid abs_eval)
  show ?thesis using rejected_call_changes_nothing [OF lawful_policies(1) r(1) n r(2)] r by blast
qed

subsection \<open>Matching\<close>

text \<open>C7: An accepted limit order without active self-trade prevention takes the opposite orders strictly in price-time priority, each completely and at its own price but for the last, and executes the smaller of its quantity and the quantity its limit crosses.\<close>

theorem limit_order_matches_in_priority:
  assumes "lawful P l" and "fresh_run P l ops = Some (rs, b)" and "length ops < 2 ^ 32 - 1"
    and "add_limit_as P actor oid side price qty b = Some (Ok, xs, b')" and "\<not> stp_active (bk_stp b) actor"
  shows "\<exists>fs fs'. resting P (opposite side) b = Some fs \<and> resting P (opposite side) b' = Some fs'
    \<and> in_order oid fs xs fs' \<and> executed_total xs = min (unat qty) (crossing_qty True side price fs)"
proof -
  have "book_step P (LimitOp actor oid side price qty) b = Some ((Ok, xs, 0), b')" using assms(4) by simp
  from call [OF assms(1-3) this]
  obtain A A' where im: "implements P (pol_valid_price P l) b A" "implements P (pol_valid_price P l) b' A'"
    and st: "abs_step (pol_valid_price P l) (LimitOp actor oid side price qty) A = ((Ok, xs, 0), A')" by blast
  obtain q A1 where m: "abs_match True oid actor side price qty (abs_count (c_added qty) A) = (q, xs, A1)"
    and A': "ab_levels A' (opposite side) = ab_levels A1 (opposite side)"
    using st by (auto simp: abs_limit_def abs_rest_def Let_def split: if_splits prod.splits)
  note M = match_facts [OF implementsD(8) [OF im(1)] m]
  have "\<not> stp_active (ab_stp A) actor" using assms(5) implementsD(6) [OF im(1)] by simp
  then show ?thesis using M(2,3) A' implementsD(3) [OF im(1)] implementsD(3) [OF im(2)] by simp
qed

theorem limit_order_matches_in_priority_witness:
  "\<exists>rs b xs b' fs. fresh_run map_std_policy ml_new [LimitOp 7 1 Ask 100 5, LimitOp 8 2 Ask 99 4] = Some (rs, b)
    \<and> add_limit_as map_std_policy 9 3 Bid 100 6 b = Some (Ok, xs, b')
    \<and> resting map_std_policy Ask b = Some fs \<and> executed_total xs = min 6 (crossing_qty True Bid 100 fs)"
proof -
  have n: "length [LimitOp 7 1 Ask 100 5, LimitOp 8 2 Ask 99 4] < 2 ^ 32 - 1" by simp
  obtain rs b b' xs where r: "fresh_run map_std_policy ml_new [LimitOp 7 1 Ask 100 5, LimitOp 8 2 Ask 99 4] = Some (rs, b)"
    "add_limit_as map_std_policy 9 3 Bid 100 6 b = Some (Ok, xs, b')"
    using run_exists [OF lawful_policies(1) n, of "LimitOp 9 3 Bid 100 6"]
    by (auto simp: map_std_valid abs_eval Option.bind_eq_Some_conv)
  obtain A where "implements map_std_policy (pol_valid_price map_std_policy ml_new) b A" "ab_stp A = NoPrevention"
    by (rule fresh_step [OF lawful_policies(1) r(1) n]) (auto simp: map_std_valid abs_eval)
  then have "\<not> stp_active (bk_stp b) 9" using implementsD(6) by (fastforce simp: stp_active_def)
  then show ?thesis using limit_order_matches_in_priority [OF lawful_policies(1) r(1) n r(2)] r by fastforce
qed

text \<open>What the walk over the opposite side leaves: \<open>killed\<close> is what self-trade prevention took from the aggressor at an order of its own.\<close>

definition kills :: "SelfTradePolicy \<Rightarrow> ParticipantId \<Rightarrow> queue \<Rightarrow> bool" where
  "kills stp actor es \<longleftrightarrow> stp_active stp actor \<and> (stp = CancelAggressor \<or> stp = CancelBoth) \<and> (\<exists>e \<in> set es. en_owner e = actor)"

lemma fill_queue_rest:
  "fill_queue stp aggressor actor p es qty c = (es', q, k, xs, c') \<Longrightarrow>
     \<exists>killed. unat q + killed + executed_total xs = unat qty \<and> (killed \<noteq> 0 \<longrightarrow> q = 0 \<and> kills stp actor es)"
proof (induction es arbitrary: qty c es' q k xs c' rule: measure_induct_rule [of length])
  case (less es)
  show ?case
  proof (cases rule: fill_queue_cases [of es qty stp aggressor actor p c])
    case (kill e es1)
    then have "kills stp actor es" by (simp add: kills_def)
    then show ?thesis using kill less.prems by (intro exI [of _ "unat qty"]) (auto split: if_splits)
  next
    case (skip e es1)
    have r: "fill_queue stp aggressor actor p es1 qty (c_canceled (en_qty e) (c_prevented c)) = (es', q, k, xs, c')"
      using skip(6) less.prems by simp
    show ?thesis using less.IH [of es1, OF _ r] skip(1) by (auto simp: kills_def)
  next
    case (full e es1 es2 q2 k2 xs2 c2)
    have "unat (qty - en_qty e) = unat qty - unat (en_qty e)" "unat (en_qty e) \<le> unat qty"
      using full(4) by (simp_all add: unat_diff_u32 word_le_nat_alt)
    moreover obtain killed where "unat q2 + killed + executed_total xs2 = unat (qty - en_qty e)" "killed \<noteq> 0 \<longrightarrow> q2 = 0 \<and> kills stp actor es1"
      using less.IH [of es1, OF _ full(5)] full(1) by auto
    ultimately show ?thesis using full(1,6) less.prems by (intro exI [of _ killed]) (auto simp: kills_def)
  qed (use less.prems in \<open>auto split: if_splits\<close>)
qed

lemma fill_levels_rest:
  "fill_levels stp True aggressor actor side price ls qty c = (ls', q, xs, c') \<Longrightarrow>
     \<exists>killed. unat q + killed + executed_total xs = unat qty
       \<and> (killed \<noteq> 0 \<longrightarrow> q = 0 \<and> (\<exists>p es. (p, es) \<in> set ls \<and> crosses side price p \<and> kills stp actor es))"
proof (induction ls arbitrary: qty c ls' q xs c')
  case (Cons l ls)
  obtain p es where l: "l = (p, es)" by force
  show ?case
  proof (cases "qty = 0 \<or> \<not> crosses side price p")
    case True
    then show ?thesis using Cons.prems l by (intro exI [of _ 0]) (auto simp: word_gt_0)
  next
    case False
    obtain es1 q1 k ys1 c1 where fq: "fill_queue stp aggressor actor p es qty c = (es1, q1, k, ys1, c1)"
      by (metis prod_cases5)
    obtain ls2 q2 ys2 c2 where fl: "fill_levels stp True aggressor actor side price ls q1 c1 = (ls2, q2, ys2, c2)"
      by (metis prod_cases4)
    obtain k1 where k1: "unat q1 + k1 + executed_total ys1 = unat qty" "k1 \<noteq> 0 \<longrightarrow> q1 = 0 \<and> kills stp actor es" using fill_queue_rest [OF fq] by blast
    obtain k2 where k2: "unat q2 + k2 + executed_total ys2 = unat q1"
      "k2 \<noteq> 0 \<longrightarrow> q2 = 0 \<and> (\<exists>p es. (p, es) \<in> set ls \<and> crosses side price p \<and> kills stp actor es)" using Cons.IH [OF fl] by blast
    have "q = q1 \<and> xs = ys1 \<or> q = q2 \<and> xs = ys1 @ ys2" using Cons.prems False l fq fl by (auto simp: Let_def word_gt_0 split: if_splits)
    then show ?thesis
    proof
      assume "q = q1 \<and> xs = ys1"
      then show ?thesis using k1 False l by (intro exI [of _ k1]) auto
    next
      assume q: "q = q2 \<and> xs = ys1 @ ys2"
      show ?thesis
      proof (cases "k1 = 0")
        case True
        then show ?thesis using k1 k2 q by (intro exI [of _ k2]) auto
      next
        case f: False
        then have "q2 = 0" "executed_total ys2 = 0" using k1(2) k2(1) by (simp_all add: unat_eq_zero)
        then show ?thesis using f k1 q False l by (intro exI [of _ k1]) auto
      qed
    qed
  qed
qed simp

text \<open>C8: What becomes of an accepted limit order, under every self-trade policy: it executes, what it does not execute rests, if it is anything, behind every order of its side at the same or a better price and before every worse one, and the other orders of the side keep their places.  Only with prevention active for its participant, and only by CancelAggressor or CancelBoth at an order of this participant it crosses, is a quantity killed, and then nothing of it rests.\<close>

theorem limit_remainder_queues_last:
  assumes "lawful P l" and "fresh_run P l ops = Some (rs, b)" and "length ops < 2 ^ 32 - 1"
    and "add_limit_as P actor oid side price qty b = Some (Ok, xs, b')"
  shows "\<exists>pre post left killed fs. resting P side b = Some (pre @ post) \<and> unat left + killed + executed_total xs = unat qty
    \<and> resting P side b' = Some (pre @ (if left = 0 then [] else [(price, \<lparr>en_id = oid, en_qty = left, en_owner = actor\<rparr>)]) @ post)
    \<and> (\<forall>f \<in> set pre. \<not> before side price (fst f)) \<and> (\<forall>f \<in> set post. before side price (fst f))
    \<and> resting P (opposite side) b = Some fs
    \<and> (killed \<noteq> 0 \<longrightarrow> left = 0 \<and> stp_active (bk_stp b) actor \<and> (bk_stp b = CancelAggressor \<or> bk_stp b = CancelBoth)
        \<and> (\<exists>f \<in> set fs. crosses side price (fst f) \<and> en_owner (snd f) = actor))"
proof -
  have "book_step P (LimitOp actor oid side price qty) b = Some ((Ok, xs, 0), b')" using assms(4) by simp
  from call [OF assms(1-3) this]
  obtain A A' where im: "implements P (pol_valid_price P l) b A" "implements P (pol_valid_price P l) b' A'"
    and st: "abs_step (pol_valid_price P l) (LimitOp actor oid side price qty) A = ((Ok, xs, 0), A')" by blast
  obtain q A1 where m: "abs_match True oid actor side price qty (abs_count (c_added qty) A) = (q, xs, A1)"
    and A': "A' = (if q > 0 then abs_rest oid side price q actor A1 else A1)"
    using st by (auto simp: abs_limit_def Let_def split: if_splits prod.splits)
  have own: "ab_levels A1 side = ab_levels A side" using match_levels(3) [OF m] by simp
  obtain c0 ls c where "fill_levels (bk_stp b) True oid actor side price (ab_levels A (opposite side)) qty c0 = (ls, q, xs, c)"
    using m implementsD(6) [OF im(1)] by (auto simp: abs_match_def split: prod.splits)
  from fill_levels_rest [OF this] obtain killed where left: "unat q + killed + executed_total xs = unat qty"
    and kill: "killed \<noteq> 0 \<longrightarrow> q = 0 \<and> (\<exists>p es. (p, es) \<in> set (ab_levels A (opposite side)) \<and> crosses side price p \<and> kills (bk_stp b) actor es)" by blast
  have k: "killed \<noteq> 0 \<longrightarrow> q = 0 \<and> stp_active (bk_stp b) actor \<and> (bk_stp b = CancelAggressor \<or> bk_stp b = CancelBoth)
      \<and> (\<exists>f \<in> set (flat (ab_levels A (opposite side))). crosses side price (fst f) \<and> en_owner (snd f) = actor)"
  proof
    assume "killed \<noteq> 0"
    then obtain p es e where e: "q = 0" "(p, es) \<in> set (ab_levels A (opposite side))" "crosses side price p" "e \<in> set es" "en_owner e = actor"
      "stp_active (bk_stp b) actor" "bk_stp b = CancelAggressor \<or> bk_stp b = CancelBoth" using kill by (auto simp: kills_def)
    have "(p, e) \<in> set (flat (ab_levels A (opposite side)))" using e(2,4) by (auto simp: flat_member)
    with e show "q = 0 \<and> stp_active (bk_stp b) actor \<and> (bk_stp b = CancelAggressor \<or> bk_stp b = CancelBoth)
        \<and> (\<exists>f \<in> set (flat (ab_levels A (opposite side))). crosses side price (fst f) \<and> en_owner (snd f) = actor)" by force
  qed
  obtain pre post where pp: "flat (ab_levels A side) = pre @ map (Pair price) (queue_at price (ab_levels A side)) @ post"
    "\<And>es. flat (place side price es (ab_levels A side)) = pre @ map (Pair price) es @ post"
    "\<forall>f \<in> set pre. before side (fst f) price" "\<forall>f \<in> set post. before side price (fst f)"
    by (rule flat_place [OF abook_okD(1) [OF implementsD(8) [OF im(1)]], of side price]) blast
  let ?pre = "pre @ map (Pair price) (queue_at price (ab_levels A side))"
  have "flat (ab_levels A' side) = ?pre @ (if q = 0 then [] else [(price, \<lparr>en_id = oid, en_qty = q, en_owner = actor\<rparr>)]) @ post"
    using A' own pp(1,2) by (simp add: abs_rest_def word_gt_0)
  moreover have "\<forall>f \<in> set ?pre. \<not> before side price (fst f)" using pp(3) by (auto dest: before_asym)
  ultimately show ?thesis
    using implementsD(3) [OF im(1)] implementsD(3) [OF im(2)] pp(1,4) left k
    by (intro exI [of _ ?pre] exI [of _ post] exI [of _ q] exI [of _ killed] exI [of _ "flat (ab_levels A (opposite side))"]) simp
qed

theorem limit_remainder_queues_last_witness:
  "\<exists>rs b xs b' pre post left killed. fresh_run map_std_policy ml_new [LimitOp 7 1 Bid 100 5] = Some (rs, b)
    \<and> add_limit_as map_std_policy 9 3 Bid 100 6 b = Some (Ok, xs, b')
    \<and> resting map_std_policy Bid b = Some (pre @ post) \<and> unat left + killed + executed_total xs = unat (6 :: u32) \<and> (killed \<noteq> 0 \<longrightarrow> left = 0)
    \<and> resting map_std_policy Bid b' = Some (pre @ (if left = 0 then [] else [(100, \<lparr>en_id = 3, en_qty = left, en_owner = 9\<rparr>)]) @ post)"
proof -
  have n: "length [LimitOp 7 1 Bid 100 5] < 2 ^ 32 - 1" by simp
  obtain rs b b' xs where r: "fresh_run map_std_policy ml_new [LimitOp 7 1 Bid 100 5] = Some (rs, b)"
    "add_limit_as map_std_policy 9 3 Bid 100 6 b = Some (Ok, xs, b')"
    using run_exists [OF lawful_policies(1) n, of "LimitOp 9 3 Bid 100 6"]
    by (auto simp: map_std_valid abs_eval Option.bind_eq_Some_conv)
  show ?thesis using limit_remainder_queues_last [OF lawful_policies(1) r(1) n r(2)] r by blast
qed

text \<open>C12: A fill-or-kill order executes its full quantity or nothing at all, under every self-trade policy; without active prevention it is accepted exactly when the crossing quantity suffices.\<close>

theorem fok_all_or_nothing:
  assumes "lawful P l" and "fresh_run P l ops = Some (rs, b)" and "length ops < 2 ^ 32 - 1"
    and "add_fok_as P actor oid side price qty b = Some (r, xs, b')"
  shows "(if r = Ok then executed_total xs = unat qty else b' = b \<and> xs = [])
    \<and> (\<not> stp_active (bk_stp b) actor \<longrightarrow> validate P oid price qty b = Some Ok \<longrightarrow>
        (\<exists>fs. resting P (opposite side) b = Some fs \<and> (r = Ok \<longleftrightarrow> unat qty \<le> crossing_qty True side price fs)))"
proof -
  have "book_step P (FokOp actor oid side price qty) b = Some ((r, xs, 0), b')" using assms(4) by simp
  from call [OF assms(1-3) this]
  obtain A A' where im: "implements P (pol_valid_price P l) b A" "implements P (pol_valid_price P l) b' A'"
    and st: "abs_step (pol_valid_price P l) (FokOp actor oid side price qty) A = ((r, xs, 0), A')" by blast
  let ?reach = "reach_levels (ab_stp A) True actor side price (ab_levels A (opposite side))"
  have v: "validate P oid price qty b = Some Ok \<Longrightarrow> abs_validate (pol_valid_price P l) oid price qty A = Ok"
  proof -
    obtain o1 where "pol_find P (bk_orders b) oid = Some o1" "o1 = None \<longleftrightarrow> abs_find oid A = None"
      using find_agrees [OF im(1)] by blast
    then show "validate P oid price qty b = Some Ok \<Longrightarrow> abs_validate (pol_valid_price P l) oid price qty A = Ok"
      using implementsD(7) [OF im(1)] by (auto simp: validate_def abs_validate_def split: if_splits)
  qed
  have res: "r = Ok \<Longrightarrow> executed_total xs = unat qty"
  proof -
    assume "r = Ok"
    then obtain q A1 where m: "abs_match True oid actor side price qty (abs_count (c_added qty) A) = (q, xs, A1)"
      and "unat qty \<le> ?reach"
      using st by (auto simp: abs_fok_def Let_def split: if_splits prod.splits)
    then show "executed_total xs = unat qty" using match_facts(4) [OF implementsD(8) [OF im(1)] m] by simp
  qed
  have "b' = b \<and> xs = []" if "r \<noteq> Ok"
    using assms(4) that by (auto simp: add_fok_as_def Option.bind_eq_Some_conv split: if_splits prod.splits)
  moreover have "r = Ok \<longleftrightarrow> unat qty \<le> ?reach" if "validate P oid price qty b = Some Ok"
    using st v [OF that] by (auto simp: abs_fok_def split: if_splits prod.splits)
  moreover have "?reach = crossing_qty True side price (flat (ab_levels A (opposite side)))" if "\<not> stp_active (bk_stp b) actor"
    using that implementsD(6) [OF im(1)] abook_okD(1) [OF implementsD(8) [OF im(1)]] by (intro reach_crossing) auto
  ultimately show ?thesis using res implementsD(3) [OF im(1)] by auto
qed

theorem fok_all_or_nothing_witness:
  "\<exists>rs b xs b'. fresh_run map_std_policy ml_new [LimitOp 7 1 Ask 100 5, LimitOp 8 2 Ask 101 5] = Some (rs, b)
    \<and> add_fok_as map_std_policy 9 3 Bid 101 8 b = Some (Ok, xs, b') \<and> executed_total xs = unat (8 :: u32)"
proof -
  have n: "length [LimitOp 7 1 Ask 100 5, LimitOp 8 2 Ask 101 5] < 2 ^ 32 - 1" by simp
  obtain rs b b' xs where r: "fresh_run map_std_policy ml_new [LimitOp 7 1 Ask 100 5, LimitOp 8 2 Ask 101 5] = Some (rs, b)"
    "add_fok_as map_std_policy 9 3 Bid 101 8 b = Some (Ok, xs, b')"
    using run_exists [OF lawful_policies(1) n, of "FokOp 9 3 Bid 101 8"]
    by (auto simp: map_std_valid abs_eval Option.bind_eq_Some_conv)
  show ?thesis using fok_all_or_nothing [OF lawful_policies(1) r(1) n r(2)] r by auto
qed

fun fleeting :: "book_op \<Rightarrow> Side option" where
  "fleeting (IocOp actor oid s p q) = Some s"
| "fleeting (FokOp actor oid s p q) = Some s"
| "fleeting (MarketOp actor oid s q) = Some s"
| "fleeting op1 = None"

lemma abs_fleeting:
  assumes "fleeting op1 = Some side" and "abs_step V op1 A = (ans, A')"
  shows "A' = A \<or> (\<exists>has_limit oid actor price qty q xs A1.
      abs_match has_limit oid actor side price qty (abs_count (c_added qty) A) = (q, xs, A1) \<and> ab_levels A' = ab_levels A1)"
proof -
  have "\<exists>has_limit oid actor price qty left xs A1. abs_match has_limit oid actor side price qty (abs_count (c_added qty) A) = (left, xs, A1)
      \<and> (A' = A \<or> A' = abs_count (c_canceled left) A1)"
  proof (cases op1)
    case (IocOp actor oid s p q)
    then obtain left xs A1 where "abs_match True oid actor side p q (abs_count (c_added q) A) = (left, xs, A1)" "s = side"
      using assms(1) by (metis fleeting.simps(1) option.inject prod_cases3)
    moreover from this have "A' = A \<or> A' = abs_count (c_canceled left) A1"
      using assms IocOp by (auto simp: abs_ioc_def Let_def split: if_splits)
    ultimately show ?thesis by blast
  next
    case (FokOp actor oid s p q)
    then obtain left xs A1 where "abs_match True oid actor side p q (abs_count (c_added q) A) = (left, xs, A1)" "s = side"
      using assms(1) by (metis fleeting.simps(2) option.inject prod_cases3)
    moreover from this have "A' = A \<or> A' = abs_count (c_canceled left) A1"
      using assms FokOp by (auto simp: abs_fok_def Let_def split: if_splits)
    ultimately show ?thesis by blast
  next
    case (MarketOp actor oid s q)
    then obtain left xs A1 where "abs_match False oid actor side 0 q (abs_count (c_added q) A) = (left, xs, A1)" "s = side"
      using assms(1) by (metis fleeting.simps(3) option.inject prod_cases3)
    moreover from this have "A' = A \<or> A' = abs_count (c_canceled left) A1"
      using assms MarketOp by (auto simp: abs_market_def Let_def split: if_splits)
    ultimately show ?thesis by blast
  qed (use assms(1) in simp_all)
  then show ?thesis by (metis keys_count(1))
qed

text \<open>Immediate-or-cancel, fill-or-kill and market orders never rest: their own side is unchanged and the other side gains no order.\<close>

theorem fleeting_orders_never_rest:
  assumes "lawful P l" and "fresh_run P l ops = Some (rs, b)" and "length ops < 2 ^ 32 - 1"
    and "book_step P op1 b = Some (ans, b')" and "fleeting op1 = Some side"
  shows "\<exists>own fs fs'. resting P side b = Some own \<and> resting P side b' = Some own
    \<and> resting P (opposite side) b = Some fs \<and> resting P (opposite side) b' = Some fs'
    \<and> (\<lambda>(p, e). en_id e) ` set fs' \<subseteq> (\<lambda>(p, e). en_id e) ` set fs"
proof -
  obtain A A' where im: "implements P (pol_valid_price P l) b A" "implements P (pol_valid_price P l) b' A'"
    and st: "abs_step (pol_valid_price P l) op1 A = (ans, A')" by (rule call [OF assms(1-4)]) blast
  from abs_fleeting [OF assms(5) st]
  have lv: "ab_levels A' side = ab_levels A side
    \<and> (\<lambda>(p, e). en_id e) ` set (flat (ab_levels A' (opposite side))) \<subseteq> (\<lambda>(p, e). en_id e) ` set (flat (ab_levels A (opposite side)))"
  proof
    assume "\<exists>has_limit oid actor price qty q xs A1.
      abs_match has_limit oid actor side price qty (abs_count (c_added qty) A) = (q, xs, A1) \<and> ab_levels A' = ab_levels A1"
    then obtain has_limit oid actor price qty q xs A1 where
      m: "abs_match has_limit oid actor side price qty (abs_count (c_added qty) A) = (q, xs, A1)" and l: "ab_levels A' = ab_levels A1"
      by blast
    obtain ls c where "fill_levels (ab_stp A) has_limit oid actor side price (ab_levels A (opposite side)) qty
        (c_added qty (ab_counters A)) = (ls, q, xs, c)" and ls: "ab_levels A1 (opposite side) = ls"
      using m by (auto simp: abs_match_def abs_count_def split: prod.splits)
    then have "level_ids ls \<subseteq> level_ids (ab_levels A (opposite side))" by (intro fill_levels_ids)
    then show ?thesis using l ls match_levels(3) [OF m] by (simp add: level_ids_flat)
  qed simp
  show ?thesis using lv implementsD(3) [OF im(1)] implementsD(3) [OF im(2)] by simp
qed

theorem fleeting_orders_never_rest_witness:
  "\<exists>rs b ans b' own. fresh_run map_std_policy ml_new [LimitOp 7 1 Ask 100 5] = Some (rs, b)
    \<and> book_step map_std_policy (IocOp 9 3 Bid 101 8) b = Some (ans, b')
    \<and> resting map_std_policy Bid b = Some own \<and> resting map_std_policy Bid b' = Some own"
proof -
  have n: "length [LimitOp 7 1 Ask 100 5] < 2 ^ 32 - 1" by simp
  obtain rs b b' ans where r: "fresh_run map_std_policy ml_new [LimitOp 7 1 Ask 100 5] = Some (rs, b)"
    "book_step map_std_policy (IocOp 9 3 Bid 101 8) b = Some (ans, b')"
    using run_exists [OF lawful_policies(1) n, of "IocOp 9 3 Bid 101 8"] by blast
  have "fleeting (IocOp 9 3 Bid 101 8) = Some Bid" by simp
  then show ?thesis using fleeting_orders_never_rest [OF lawful_policies(1) r(1) n r(2)] r by blast
qed

text \<open>The participant, id and side of a call that may trade at once.\<close>

fun incoming :: "book_op \<Rightarrow> (ParticipantId \<times> OrderId \<times> Side) option" where
  "incoming (LimitOp actor oid s p q) = Some (actor, oid, s)"
| "incoming (IocOp actor oid s p q) = Some (actor, oid, s)"
| "incoming (FokOp actor oid s p q) = Some (actor, oid, s)"
| "incoming (MarketOp actor oid s q) = Some (actor, oid, s)"
| "incoming op1 = None"

lemma abs_incoming:
  assumes "incoming op1 = Some (actor, oid, side)" and "abs_step V op1 A = ((r, xs, t), A')"
  shows "xs = [] \<or> (\<exists>has_limit price qty q A1.
      abs_match has_limit oid actor side price qty (abs_count (c_added qty) A) = (q, xs, A1))"
proof (cases op1)
  case (LimitOp actor oid s p q)
  then show ?thesis using assms by (fastforce simp: abs_limit_def Let_def split: if_splits prod.splits)
next
  case (IocOp actor oid s p q)
  then show ?thesis using assms by (fastforce simp: abs_ioc_def Let_def split: if_splits prod.splits)
next
  case (FokOp actor oid s p q)
  then show ?thesis using assms by (fastforce simp: abs_fok_def Let_def split: if_splits prod.splits)
next
  case (MarketOp actor oid s q)
  then show ?thesis using assms by (fastforce simp: abs_market_def Let_def split: if_splits prod.splits)
qed (use assms in simp_all)

text \<open>C11: With a self-trade policy set, a call of a participant never trades with its own orders, and every execution is at the price of the resting order and no larger than it.\<close>

theorem no_self_trade:
  assumes "lawful P l" and "fresh_run P l ops = Some (rs, b)" and "length ops < 2 ^ 32 - 1"
    and "book_step P op1 b = Some ((r, xs, t), b')" and "incoming op1 = Some (actor, oid, side)"
    and "bk_stp b \<noteq> NoPrevention" and "actor \<noteq> 0"
  shows "\<exists>fs. resting P (opposite side) b = Some fs \<and> (\<forall>x \<in> set xs. \<exists>(p, e) \<in> set fs.
    en_id e = ex_resting_id x \<and> en_owner e \<noteq> actor \<and> p = ex_price x \<and> 0 < ex_qty x \<and> ex_qty x \<le> en_qty e)"
proof -
  obtain A A' where im: "implements P (pol_valid_price P l) b A" "implements P (pol_valid_price P l) b' A'"
    and st: "abs_step (pol_valid_price P l) op1 A = ((r, xs, t), A')" by (rule call [OF assms(1-4)]) blast
  have on: "stp_active (ab_stp A) actor" using assms(6,7) implementsD(6) [OF im(1)] by (simp add: stp_active_def)
  have "\<exists>(p, e) \<in> set (flat (ab_levels A (opposite side))). en_id e = ex_resting_id x \<and> en_owner e \<noteq> actor
      \<and> p = ex_price x \<and> 0 < ex_qty x \<and> ex_qty x \<le> en_qty e" if "x \<in> set xs" for x
  proof -
    obtain has_limit price qty q A1 where "abs_match has_limit oid actor side price qty (abs_count (c_added qty) A) = (q, xs, A1)"
      using abs_incoming [OF assms(5) st] \<open>x \<in> set xs\<close> by auto
    from match_facts(1) [OF implementsD(8) [OF im(1)] this \<open>x \<in> set xs\<close>] show ?thesis
      using on by (fastforce simp: trades_with_def word_gt_0)
  qed
  then show ?thesis using implementsD(3) [OF im(1)] by simp
qed

theorem no_self_trade_witness:
  "\<exists>rs b r xs t b' fs. fresh_run map_std_policy ml_new [PolicyOp CancelResting, LimitOp 7 1 Ask 100 5, LimitOp 8 2 Ask 100 5] = Some (rs, b)
    \<and> book_step map_std_policy (LimitOp 7 3 Bid 100 8) b = Some ((r, xs, t), b') \<and> xs \<noteq> []
    \<and> resting map_std_policy Ask b = Some fs
    \<and> (\<forall>x \<in> set xs. \<exists>(p, e) \<in> set fs. en_id e = ex_resting_id x \<and> en_owner e \<noteq> 7)"
proof -
  have n: "length [PolicyOp CancelResting, LimitOp 7 1 Ask 100 5, LimitOp 8 2 Ask 100 5] < 2 ^ 32 - 1" by simp
  obtain rs b b' r xs t where r: "fresh_run map_std_policy ml_new [PolicyOp CancelResting, LimitOp 7 1 Ask 100 5, LimitOp 8 2 Ask 100 5] = Some (rs, b)"
    "book_step map_std_policy (LimitOp 7 3 Bid 100 8) b = Some ((r, xs, t), b')" "xs \<noteq> []"
    using run_exists [OF lawful_policies(1) n, of "LimitOp 7 3 Bid 100 8"] by (auto simp: map_std_valid abs_eval)
  obtain A where A: "implements map_std_policy (pol_valid_price map_std_policy ml_new) b A" "ab_stp A = CancelResting"
    by (rule fresh_step [OF lawful_policies(1) r(1) n]) (auto simp: map_std_valid abs_eval)
  then have s: "bk_stp b \<noteq> NoPrevention" using implementsD(6) by fastforce
  have i: "incoming (LimitOp 7 3 Bid 100 8) = Some (7, 3, Bid)" by simp
  show ?thesis using no_self_trade [OF lawful_policies(1) r(1) n r(2) i s] r by fastforce
qed

subsection \<open>Changes to one order\<close>

text \<open>C15: A feed execution or reduction takes the smaller of the quantity given and the quantity resting, removes the order exactly when it takes everything, and changes no place in the priority order of either side.\<close>

theorem consume_keeps_priority:
  assumes "lawful P l" and "fresh_run P l ops = Some (rs, b)" and "length ops < 2 ^ 32 - 1"
    and "consume P oid qty is_execution b = Some (Ok, took, b')"
  shows "\<exists>s pre p e post. resting P s b = Some (pre @ (p, e) # post) \<and> en_id e = oid \<and> took = min qty (en_qty e)
    \<and> resting P s b' = Some (pre @ (if took = en_qty e then [] else [(p, e\<lparr>en_qty := en_qty e - took\<rparr>)]) @ post)
    \<and> resting P (opposite s) b' = resting P (opposite s) b"
proof -
  let ?op = "if is_execution then ExecuteOp oid qty else ReduceOp oid qty"
  have "book_step P ?op b = Some ((Ok, [], took), b')"
    using assms(4) by (cases is_execution) (simp_all add: execute_resting_def reduce_resting_def)
  from call [OF assms(1-3) this]
  obtain A A' where im: "implements P (pol_valid_price P l) b A" "implements P (pol_valid_price P l) b' A'"
    and st: "abs_step (pol_valid_price P l) ?op A = ((Ok, [], took), A')" by blast
  have co: "abs_consume oid qty is_execution A = (Ok, took, A')"
    using st by (cases is_execution) (auto split: prod.splits)
  obtain s p e where f: "abs_find oid A = Some (s, p, e)" using co by (auto simp: abs_consume_def split: option.splits)
  define B where "B = abs_count (if is_execution then c_executed took else c_canceled took) A"
  have B: "ab_levels B = ab_levels A" by (simp add: B_def)
  have took: "took = min qty (en_qty e)" and A': "A' = (if took = en_qty e then abs_remove s p oid B
      else abs_set_queue s p (map (\<lambda>e. if en_id e = oid then e\<lparr>en_qty := en_qty e - took\<rparr> else e) (queue_at p (ab_levels A s))) B)"
    using co f by (auto simp: abs_consume_def Let_def B_def split: if_splits)
  obtain pre post where o1: "flat (ab_levels A s) = pre @ (p, e) # post" "en_id e = oid"
    "flat (ab_levels (abs_remove s p oid B) s) = pre @ post"
    "\<And>f. flat (ab_levels (abs_set_queue s p (map (\<lambda>e. if en_id e = oid then f e else e)
      (queue_at p (ab_levels A s))) B) s) = pre @ (p, f e) # post"
    "ab_levels (abs_remove s p oid B) (opposite s) = ab_levels A (opposite s)"
    "\<And>es. ab_levels (abs_set_queue s p es B) (opposite s) = ab_levels A (opposite s)"
    by (rule one_order [OF implementsD(8) [OF im(1)] f B]) blast
  have "flat (ab_levels A' s) = pre @ (if took = en_qty e then [] else [(p, e\<lparr>en_qty := en_qty e - took\<rparr>)]) @ post"
    "ab_levels A' (opposite s) = ab_levels A (opposite s)"
    unfolding A' using o1(3) o1(4) [of "\<lambda>e. e\<lparr>en_qty := en_qty e - took\<rparr>"] o1(5,6) by simp_all
  then show ?thesis using o1(1,2) took implementsD(3) [OF im(1)] implementsD(3) [OF im(2)]
    by (intro exI [of _ s] exI [of _ pre] exI [of _ p] exI [of _ e] exI [of _ post]) simp
qed

theorem consume_keeps_priority_witness:
  "\<exists>rs b took b' s pre p e post. fresh_run map_std_policy ml_new [PassiveOp 1 Ask 100 5, PassiveOp 2 Ask 100 5] = Some (rs, b)
    \<and> consume map_std_policy 1 3 True b = Some (Ok, took, b')
    \<and> resting map_std_policy s b = Some (pre @ (p, e) # post) \<and> en_id e = 1 \<and> took = min 3 (en_qty e)
    \<and> resting map_std_policy s b' = Some (pre @ (if took = en_qty e then [] else [(p, e\<lparr>en_qty := en_qty e - took\<rparr>)]) @ post)"
proof -
  have n: "length [PassiveOp 1 Ask 100 5, PassiveOp 2 Ask 100 5] < 2 ^ 32 - 1" by simp
  obtain rs b b' took where r: "fresh_run map_std_policy ml_new [PassiveOp 1 Ask 100 5, PassiveOp 2 Ask 100 5] = Some (rs, b)"
    "consume map_std_policy 1 3 True b = Some (Ok, took, b')"
    using run_exists [OF lawful_policies(1) n, of "ExecuteOp 1 3"]
    by (auto simp: map_std_valid abs_eval execute_resting_def Option.bind_eq_Some_conv)
  show ?thesis using consume_keeps_priority [OF lawful_policies(1) r(1) n r(2)] r by blast
qed

text \<open>cancel removes exactly the order of the id, counts its quantity as canceled and changes nothing else in the resting orders; an unknown id changes nothing.\<close>

theorem cancel_removes_one_order:
  assumes "lawful P l" and "fresh_run P l ops = Some (rs, b)" and "length ops < 2 ^ 32 - 1"
    and "cancel P oid b = Some (r, b')"
  shows "if r = Ok then (\<exists>s pre p e post. resting P s b = Some (pre @ (p, e) # post) \<and> en_id e = oid
      \<and> resting P s b' = Some (pre @ post) \<and> resting P (opposite s) b' = resting P (opposite s) b
      \<and> canceled_qty (bk_counters b') = canceled_qty (bk_counters b) + ucast (en_qty e))
    else r = RejectedUnknownId \<and> b' = b \<and> find_order P oid b = Some None"
proof -
  have "book_step P (CancelOp oid) b = Some ((r, [], 0), b')" using assms(4) by simp
  from call [OF assms(1-3) this]
  obtain A A' where im: "implements P (pol_valid_price P l) b A" "implements P (pol_valid_price P l) b' A'"
    and st: "abs_step (pol_valid_price P l) (CancelOp oid) A = ((r, [], 0), A')" by blast
  have co: "abs_cancel oid A = (r, A')" using st by (auto split: prod.splits)
  show ?thesis
  proof (cases "abs_find oid A")
    case None
    then have "r = RejectedUnknownId" using co by (simp add: abs_cancel_def)
    moreover from this have "b' = b \<and> find_order P oid b = Some None"
      using assms(4) by (auto simp: cancel_def find_order_def Option.bind_eq_Some_conv split: option.splits)
    ultimately show ?thesis by simp
  next
    case (Some l)
    then obtain s p e where f: "abs_find oid A = Some (s, p, e)" by (cases l) auto
    let ?B = "abs_count (c_canceled (en_qty e)) A"
    have B: "ab_levels ?B = ab_levels A" by simp
    obtain pre post where o1: "flat (ab_levels A s) = pre @ (p, e) # post" "en_id e = oid"
      "flat (ab_levels (abs_remove s p oid ?B) s) = pre @ post"
      "ab_levels (abs_remove s p oid ?B) (opposite s) = ab_levels A (opposite s)"
      by (rule one_order [OF implementsD(8) [OF im(1)] f B]) blast
    have A': "r = Ok" "A' = abs_remove s p oid ?B" using co f by (auto simp: abs_cancel_def)
    have "canceled_qty (ab_counters A') = canceled_qty (ab_counters A) + ucast (en_qty e)"
      unfolding A'(2) by (simp add: abs_remove_def abs_count_def c_canceled_def)
    then show ?thesis using o1 A' implementsD(3,5) [OF im(1)] implementsD(3,5) [OF im(2)]
      by (simp, intro exI [of _ s] exI [of _ pre] exI [of _ p] exI [of _ e] exI [of _ post]) simp
  qed
qed

theorem cancel_removes_one_order_witness:
  "\<exists>rs b b' s pre p e post. fresh_run map_std_policy ml_new [LimitOp 7 1 Bid 100 5, LimitOp 7 2 Bid 100 6] = Some (rs, b)
    \<and> cancel map_std_policy 1 b = Some (Ok, b') \<and> resting map_std_policy s b = Some (pre @ (p, e) # post)
    \<and> en_id e = 1 \<and> resting map_std_policy s b' = Some (pre @ post)"
proof -
  have n: "length [LimitOp 7 1 Bid 100 5, LimitOp 7 2 Bid 100 6] < 2 ^ 32 - 1" by simp
  obtain rs b b' where r: "fresh_run map_std_policy ml_new [LimitOp 7 1 Bid 100 5, LimitOp 7 2 Bid 100 6] = Some (rs, b)"
    "cancel map_std_policy 1 b = Some (Ok, b')"
    using run_exists [OF lawful_policies(1) n, of "CancelOp 1"]
    by (auto simp: map_std_valid abs_eval Option.bind_eq_Some_conv)
  show ?thesis using cancel_removes_one_order [OF lawful_policies(1) r(1) n r(2)] r unfolding if_P [OF refl] by blast
qed

lemma limit_ids: "book_ids (snd (snd (abs_limit V actor oid s p q A))) \<subseteq> insert oid (book_ids A)"
proof -
  obtain left xs A1 where m: "abs_match True oid actor s p q (abs_count (c_added q) A) = (left, xs, A1)"
    by (metis prod_cases3)
  have c: "book_ids (abs_count f B) = book_ids B" for f B by (simp add: book_ids_def)
  have put: "level_ids (put t r es ls) \<subseteq> en_id ` set es \<union> level_ids ls" for t r es ls
    by (induction t r es ls rule: put.induct) auto
  have at: "\<forall>e \<in> set (queue_at r ls). en_id e \<in> level_ids ls" for r ls
    by (induction ls) (auto split: if_splits)
  have "level_ids (ab_levels (abs_rest oid s p left actor A1) t) \<subseteq> insert oid (level_ids (ab_levels A1 t))" for t
  proof (cases "t = s")
    case True
    let ?es = "queue_at p (ab_levels A1 s) @ [\<lparr>en_id = oid, en_qty = left, en_owner = actor\<rparr>]"
    have "en_id ` set ?es \<subseteq> insert oid (level_ids (ab_levels A1 s))" using at by auto
    then have "level_ids (put s p ?es (ab_levels A1 s)) \<subseteq> insert oid (level_ids (ab_levels A1 s))"
      using put [of s p ?es "ab_levels A1 s"] by blast
    then show ?thesis using True by (simp add: abs_rest_def place_def)
  qed (auto simp: abs_rest_def)
  then have "book_ids (abs_rest oid s p left actor A1) \<subseteq> insert oid (book_ids A1)"
    unfolding book_ids_def by blast
  moreover have "book_ids A1 \<subseteq> book_ids A" using abs_match_ids [OF m] c by simp
  ultimately show ?thesis using m by (auto simp: abs_limit_def Let_def)
qed

text \<open>C16: An accepted replace is a cancel of the old order followed by a new limit order on its side for its participant, and the old id, unless it is the new one, is gone.\<close>

theorem replace_is_cancel_and_new_order:
  assumes "lawful P l" and "fresh_run P l ops = Some (rs, b)" and "length ops < 2 ^ 32 - 1"
    and "replace P old_id new_id price qty b = Some (Ok, xs, b')"
  shows "(\<exists>old b1. find_order P old_id b = Some (Some old) \<and> cancel P old_id b = Some (Ok, b1)
      \<and> add_limit_as P (ord_participant old) new_id (ord_side old) price qty b1 = Some (Ok, xs, b'))
    \<and> (new_id = old_id \<or> find_order P old_id b' = Some None)"
proof
  have "book_step P (ReplaceOp old_id new_id price qty) b = Some ((Ok, xs, 0), b')" using assms(4) by simp
  from call [OF assms(1-3) this]
  obtain A A' where im: "implements P (pol_valid_price P l) b A" "implements P (pol_valid_price P l) b' A'"
    and st: "abs_step (pol_valid_price P l) (ReplaceOp old_id new_id price qty) A = ((Ok, xs, 0), A')" by blast
  obtain o1 where o1: "pol_find P (bk_orders b) old_id = Some o1" using find_agrees [OF im(1)] by blast
  obtain o2 where o2: "pol_find P (bk_orders b) new_id = Some o2" using find_agrees [OF im(1)] by blast
  obtain a where a: "o1 = Some a" using assms(4) o1 by (cases o1) (auto simp: replace_def)
  obtain b1 where "cancel_open P a b = Some b1"
    "add_limit_as P (ord_participant (bk_heap b a)) new_id (ord_side (bk_heap b a)) price qty b1 = Some (Ok, xs, b')"
    using assms(4) o1 o2 a by (auto simp: replace_def Let_def Option.bind_eq_Some_conv split: if_splits)
  then show "\<exists>old b1. find_order P old_id b = Some (Some old) \<and> cancel P old_id b = Some (Ok, b1)
      \<and> add_limit_as P (ord_participant old) new_id (ord_side old) price qty b1 = Some (Ok, xs, b')"
    using o1 a by (simp add: cancel_def find_order_def)
  have re: "abs_replace (pol_valid_price P l) old_id new_id price qty A = (Ok, xs, A')" using st by (auto split: prod.splits)
  obtain s p e where f: "abs_find old_id A = Some (s, p, e)" using re by (auto simp: abs_replace_def split: option.splits)
  have "abs_limit (pol_valid_price P l) (en_owner e) new_id s price qty (snd (abs_cancel old_id A)) = (Ok, xs, A')"
    using re f by (auto simp: abs_replace_def split: if_splits)
  then have "A' = snd (snd (abs_limit (pol_valid_price P l) (en_owner e) new_id s price qty (snd (abs_cancel old_id A))))"
    by simp
  then have "book_ids A' \<subseteq> insert new_id (book_ids A - {old_id})"
    using limit_ids cancel_ids [OF implementsD(8) [OF im(1)]] by metis
  then have "new_id \<noteq> old_id \<Longrightarrow> abs_find old_id A' = None" using abs_find_None by blast
  moreover obtain o1 where "pol_find P (bk_orders b') old_id = Some o1" "o1 = None \<longleftrightarrow> abs_find old_id A' = None"
    using find_agrees [OF im(2)] by blast
  ultimately show "new_id = old_id \<or> find_order P old_id b' = Some None"
    by (cases "new_id = old_id") (simp_all add: find_order_def)
qed

theorem replace_is_cancel_and_new_order_witness:
  "\<exists>rs b xs b'. fresh_run map_std_policy ml_new [LimitOp 7 1 Bid 100 5, LimitOp 8 2 Ask 103 6] = Some (rs, b)
    \<and> replace map_std_policy 1 5 103 4 b = Some (Ok, xs, b') \<and> find_order map_std_policy 1 b' = Some None"
proof -
  have n: "length [LimitOp 7 1 Bid 100 5, LimitOp 8 2 Ask 103 6] < 2 ^ 32 - 1" by simp
  obtain rs b b' xs where r: "fresh_run map_std_policy ml_new [LimitOp 7 1 Bid 100 5, LimitOp 8 2 Ask 103 6] = Some (rs, b)"
    "replace map_std_policy 1 5 103 4 b = Some (Ok, xs, b')"
    using run_exists [OF lawful_policies(1) n, of "ReplaceOp 1 5 103 4"]
    by (auto simp: map_std_valid abs_eval Option.bind_eq_Some_conv)
  have "(5 :: OrderId) \<noteq> 1" by simp
  then show ?thesis using replace_is_cancel_and_new_order [OF lawful_policies(1) r(1) n r(2)] r by blast
qed

end
