(* ===== verification/Bytes.thy ===== *)
theory Bytes
  imports Prelude "HOL-Library.Monad_Syntax"
begin

text \<open>
  Big-endian fields in a byte string (the readers of \<^verbatim>\<open>include/pricetime/itch.hpp\<close> and the writers of
  \<^verbatim>\<open>itch_writer.hpp\<close>).  A pointer into a message is the message and an offset; a read past its end
  is \<^term>\<open>None\<close>.
\<close>

type_synonym bytes = "u8 list"

definition rd :: "bytes \<Rightarrow> nat \<Rightarrow> u8 option" where
  "rd p i = (if i < length p then Some (p ! i) else None)"

definition ch :: "char \<Rightarrow> u8" where
  "ch c = of_char c"

definition be16 :: "bytes \<Rightarrow> nat \<Rightarrow> u16 option" where
  "be16 p i = do {
     a \<leftarrow> rd p i; b \<leftarrow> rd p (i + 1);
     Some (push_bit 8 (ucast a) OR ucast b) }"

definition be32 :: "bytes \<Rightarrow> nat \<Rightarrow> u32 option" where
  "be32 p i = do {
     a \<leftarrow> rd p i; b \<leftarrow> rd p (i + 1); c \<leftarrow> rd p (i + 2); d \<leftarrow> rd p (i + 3);
     Some (push_bit 24 (ucast a) OR push_bit 16 (ucast b) OR push_bit 8 (ucast c) OR ucast d) }"

definition be48 :: "bytes \<Rightarrow> nat \<Rightarrow> u64 option" where
  "be48 p i = do {
     a \<leftarrow> rd p i; b \<leftarrow> rd p (i + 1); c \<leftarrow> rd p (i + 2);
     d \<leftarrow> rd p (i + 3); e \<leftarrow> rd p (i + 4); f \<leftarrow> rd p (i + 5);
     Some (push_bit 40 (ucast a) OR push_bit 32 (ucast b) OR push_bit 24 (ucast c)
       OR push_bit 16 (ucast d) OR push_bit 8 (ucast e) OR ucast f) }"

definition be64 :: "bytes \<Rightarrow> nat \<Rightarrow> u64 option" where
  "be64 p i = do {
     hi \<leftarrow> be32 p i; lo \<leftarrow> be32 p (i + 4);
     Some (push_bit 32 (ucast hi) OR ucast lo) }"

definition put16 :: "u16 \<Rightarrow> bytes" where
  "put16 v = [ucast (drop_bit 8 v AND 0xFF), ucast (v AND 0xFF)]"
definition put32 :: "u32 \<Rightarrow> bytes" where
  "put32 v = map (\<lambda>shift. ucast (drop_bit shift v AND 0xFF)) [24, 16, 8, 0]"
definition put48 :: "u64 \<Rightarrow> bytes" where
  "put48 v = map (\<lambda>shift. ucast (drop_bit shift v AND 0xFF)) [40, 32, 24, 16, 8, 0]"
definition put64 :: "u64 \<Rightarrow> bytes" where
  "put64 v = map (\<lambda>shift. ucast (drop_bit shift v AND 0xFF)) [56, 48, 40, 32, 24, 16, 8, 0]"

lemma byte_mask: "(0xFF :: 'a::len word) = mask 8"
  by (simp add: mask_eq_exp_minus_1)

lemma low_byte:
  "(ucast (ucast (w AND 0xFF) :: u8) :: u16) = take_bit 8 (w :: u16)"
  "(ucast (ucast (x AND 0xFF) :: u8) :: u32) = take_bit 8 (x :: u32)"
  "(ucast (ucast (y AND 0xFF) :: u8) :: u64) = take_bit 8 (y :: u64)"
  unfolding byte_mask by (rule bit_word_eqI; auto simp: bit_simps)+

lemma join_byte: "push_bit n (take_bit 8 (drop_bit n v)) OR take_bit n v = take_bit (n + 8) (v :: 'a::len word)"
proof (rule bit_word_eqI)
  fix k assume "k < LENGTH('a)"
  have "n \<le> k \<Longrightarrow> n + (k - n) = k" by simp
  then show "bit (push_bit n (take_bit 8 (drop_bit n v)) OR take_bit n v) k = bit (take_bit (n + 8) v) k"
    using \<open>k < LENGTH('a)\<close> by (cases "n \<le> k") (auto simp: bit_simps less_diff_conv2)
qed

lemmas join_bytes = join_byte [of 8, simplified] join_byte [of 16, simplified] join_byte [of 24, simplified]
  join_byte [of 32, simplified] join_byte [of 40, simplified]

lemma join16: "push_bit 8 (ucast (ucast (drop_bit 8 v AND 0xFF) :: u8)) OR ucast (ucast (v AND 0xFF) :: u8) = (v :: u16)"
  unfolding low_byte by (simp add: join_bytes take_bit_word_eq_self)

lemma join32: "push_bit 24 (ucast (ucast (drop_bit 24 v AND 0xFF) :: u8)) OR push_bit 16 (ucast (ucast (drop_bit 16 v AND 0xFF) :: u8))
   OR push_bit 8 (ucast (ucast (drop_bit 8 v AND 0xFF) :: u8)) OR ucast (ucast (v AND 0xFF) :: u8) = (v :: u32)"
  unfolding low_byte or.assoc [symmetric]
  by (simp add: or.assoc join_bytes take_bit_word_eq_self)

lemma join48: "push_bit 40 (ucast (ucast (drop_bit 40 v AND 0xFF) :: u8)) OR push_bit 32 (ucast (ucast (drop_bit 32 v AND 0xFF) :: u8))
   OR push_bit 24 (ucast (ucast (drop_bit 24 v AND 0xFF) :: u8)) OR push_bit 16 (ucast (ucast (drop_bit 16 v AND 0xFF) :: u8))
   OR push_bit 8 (ucast (ucast (drop_bit 8 v AND 0xFF) :: u8)) OR ucast (ucast (v AND 0xFF) :: u8) = (take_bit 48 v :: u64)"
  unfolding low_byte by (simp add: or.assoc join_bytes)

lemma join64: "push_bit 32 (ucast (ucast (drop_bit 32 v) :: u32)) OR ucast (ucast v :: u32) = (v :: u64)"
proof (rule bit_word_eqI)
  fix k assume "k < LENGTH(64)"
  have "32 \<le> k \<Longrightarrow> 32 + (k - 32) = k" by simp
  then show "bit (push_bit 32 (ucast (ucast (drop_bit 32 v) :: u32)) OR ucast (ucast v :: u32) :: u64) k = bit v k"
    using \<open>k < LENGTH(64)\<close> by (cases "32 \<le> k") (auto simp: bit_simps)
qed

lemma halves: "put64 v = put32 (ucast (drop_bit 32 v)) @ put32 (ucast v)"
  unfolding put64_def put32_def byte_mask
  by (auto intro!: bit_word_eqI simp: bit_simps ac_simps)

lemma put_length [simp]: "length (put16 a) = 2" "length (put32 b) = 4" "length (put48 c) = 6" "length (put64 d) = 8"
  by (simp_all add: put16_def put32_def put48_def put64_def)

text \<open>Reading back what was written, wherever it stands.\<close>

lemma rd_append: "rd (xs @ ys) i = (if i < length xs then rd xs i else rd ys (i - length xs))"
  by (auto simp: rd_def nth_append)

lemma rd_skip: "i = length xs \<Longrightarrow> rd (xs @ ys) (i + k) = rd ys k"
  by (simp add: rd_append)

lemma be16_put: "i = length xs \<Longrightarrow> be16 (xs @ put16 v @ ys) i = Some v"
  unfolding be16_def by (simp add: rd_def put16_def nth_append join16)

lemma be32_put: "i = length xs \<Longrightarrow> be32 (xs @ put32 v @ ys) i = Some v"
  unfolding be32_def by (simp add: rd_def put32_def nth_append join32)

lemma be48_put: "i = length xs \<Longrightarrow> be48 (xs @ put48 v @ ys) i = Some (take_bit 48 v)"
  unfolding be48_def by (simp add: rd_def put48_def nth_append join48)

lemma be64_put: "i = length xs \<Longrightarrow> be64 (xs @ put64 v @ ys) i = Some v"
  unfolding be64_def halves
  using be32_put [of i xs "ucast (drop_bit 32 v)" "put32 (ucast v) @ ys"]
    be32_put [of "i + 4" "xs @ put32 (ucast (drop_bit 32 v))" "ucast v" ys] join64 [of v]
  by simp

text \<open>Reading behind a known prefix; these rewrite a read at a fixed offset to the field it hits.\<close>

named_theorems read_simps

lemma rd_read [read_simps]:
  "0 < i \<Longrightarrow> rd (x # ys) i = rd ys (i - 1)" "rd (x # ys) 0 = Some x"
  "length xs \<le> i \<Longrightarrow> rd (xs @ ys) i = rd ys (i - length xs)"
  by (auto simp: rd_def nth_append nth_Cons')

lemma be_skip [read_simps]:
  assumes "length xs \<le> i"
  shows "be16 (xs @ ys) i = be16 ys (i - length xs)" and "be32 (xs @ ys) i = be32 ys (i - length xs)"
    and "be48 (xs @ ys) i = be48 ys (i - length xs)" and "be64 (xs @ ys) i = be64 ys (i - length xs)"
proof -
  have r: "rd (xs @ ys) (i + k) = rd ys (i - length xs + k)" for k
    using assms by (simp add: rd_append)
  note r0 = r [of 0, simplified]
  show b: "be16 (xs @ ys) i = be16 ys (i - length xs)" "be32 (xs @ ys) i = be32 ys (i - length xs)"
    "be48 (xs @ ys) i = be48 ys (i - length xs)"
    unfolding be16_def be32_def be48_def r r0 by (rule refl)+
  show "be64 (xs @ ys) i = be64 ys (i - length xs)"
    unfolding be64_def be32_def add.assoc r r0 by (rule refl)
qed

lemma be_skip_Cons [read_simps]:
  "0 < i \<Longrightarrow> be16 (x # ys) i = be16 ys (i - 1)" "0 < i \<Longrightarrow> be32 (x # ys) i = be32 ys (i - 1)"
  "0 < i \<Longrightarrow> be48 (x # ys) i = be48 ys (i - 1)" "0 < i \<Longrightarrow> be64 (x # ys) i = be64 ys (i - 1)"
  using be_skip [of "[x]" i ys] by simp_all

lemma be_first [read_simps]:
  "be16 (put16 a @ ys) 0 = Some a" "be16 (put16 a) 0 = Some a"
  "be32 (put32 b @ ys) 0 = Some b" "be32 (put32 b) 0 = Some b"
  "be48 (put48 c @ ys) 0 = Some (take_bit 48 c)" "be48 (put48 c) 0 = Some (take_bit 48 c)"
  "be64 (put64 d @ ys) 0 = Some d" "be64 (put64 d) 0 = Some d"
  using be16_put [of 0 "[]" a ys] be16_put [of 0 "[]" a "[]"] be32_put [of 0 "[]" b ys] be32_put [of 0 "[]" b "[]"]
    be48_put [of 0 "[]" c ys] be48_put [of 0 "[]" c "[]"] be64_put [of 0 "[]" d ys] be64_put [of 0 "[]" d "[]"]
  by simp_all

text \<open>A field is read exactly when it lies inside the message.\<close>

lemma rd_Some: "(\<exists>v. rd p i = Some v) \<longleftrightarrow> i < length p"
  by (simp add: rd_def)

lemma fields_inside:
  "be16 p i \<noteq> None \<longleftrightarrow> i + 2 \<le> length p" "be32 p i \<noteq> None \<longleftrightarrow> i + 4 \<le> length p"
  "be48 p i \<noteq> None \<longleftrightarrow> i + 6 \<le> length p" "be64 p i \<noteq> None \<longleftrightarrow> i + 8 \<le> length p"
  by (auto simp: be16_def be32_def be48_def be64_def rd_def bind_eq_None_conv)

end
