(* ===== verification/Itch.thy ===== *)
theory Itch
  imports Bytes Types Hash
begin

text \<open>
  NASDAQ symbols (\<^verbatim>\<open>include/pricetime/symbol.hpp\<close>) and the ITCH 5.0 messages
  (\<^verbatim>\<open>include/pricetime/itch.hpp\<close>): the type table and the decoders, each reading its fields at the
  offsets of the code.  A decoder that would read outside the message is \<^term>\<open>None\<close>.
\<close>

subsection \<open>Symbols\<close>

text \<open>Eight bytes; the constructors are the only way to make one.\<close>

type_synonym Symbol = bytes

definition symbol_default :: Symbol where
  "symbol_default = replicate 8 (ch CHR '' '')"

definition symbol_of :: "bytes \<Rightarrow> Symbol" where
  "symbol_of s =
     (let data = replicate 8 (ch CHR '' '');
          n = (if length s < 8 then length s else 8)
      in take n s @ drop n data)"

definition symbol_from_wire :: "bytes \<Rightarrow> nat \<Rightarrow> Symbol option" where
  "symbol_from_wire p i = (if i + 8 \<le> length p then Some (take 8 (drop i p)) else None)"

text \<open>\<^verbatim>\<open>memcpy\<close> into a 64-bit integer on a little-endian machine, and back.\<close>

definition symbol_bits :: "Symbol \<Rightarrow> u64" where
  "symbol_bits s = foldr (\<lambda>b v. push_bit 8 v OR ucast b) s 0"

definition symbol_from_bits :: "u64 \<Rightarrow> Symbol" where
  "symbol_from_bits v = map (\<lambda>i. ucast (drop_bit (8 * i) v)) [0..<8]"

definition symbol_str :: "Symbol \<Rightarrow> bytes" where
  "symbol_str s = rev (dropWhile (\<lambda>c. c = ch CHR '' '') (rev s))"

definition symbol_hash :: "Symbol \<Rightarrow> u64" where
  "symbol_hash s = splitmix_finalize (symbol_bits s)"

lemma symbol_lengths [simp]:
  "length symbol_default = 8" "length (symbol_of s) = 8" "length (symbol_from_bits v) = 8"
  by (simp_all add: symbol_default_def symbol_of_def symbol_from_bits_def Let_def)

lemma symbol_from_wire_Some: "symbol_from_wire p i = Some s \<Longrightarrow> length s = 8"
  by (auto simp: symbol_from_wire_def split: if_splits)

lemma ucast_byte_or: "(ucast (push_bit 8 v OR ucast (b :: u8)) :: u8) = b" for v :: u64
  by (rule bit_word_eqI) (auto simp: bit_simps)

lemma drop_byte_or: "drop_bit 8 (push_bit 8 v OR ucast (b :: u8)) = take_bit 56 v" for v :: u64
  by (rule bit_word_eqI) (auto simp: bit_simps dest: bit_imp_le_length)

lemma drop_symbol_bits: "length s \<le> 8 \<Longrightarrow> i < length s \<Longrightarrow> ucast (drop_bit (8 * i) (symbol_bits s)) = s ! i"
proof (induction s arbitrary: i)
  case (Cons b s)
  have bits: "symbol_bits (b # s) = push_bit 8 (symbol_bits s) OR ucast b" by (simp add: symbol_bits_def)
  show ?case
  proof (cases i)
    case 0
    then show ?thesis using ucast_byte_or unfolding bits by simp
  next
    case (Suc j)
    have "drop_bit (8 * i) (symbol_bits (b # s)) = drop_bit (8 * j) (take_bit 56 (symbol_bits s))"
      unfolding bits Suc drop_byte_or [of "symbol_bits s" b, symmetric] drop_bit_drop_bit by (rule arg_cong2) simp_all
    moreover have "(ucast (drop_bit (8 * j) (take_bit 56 (symbol_bits s))) :: u8) = ucast (drop_bit (8 * j) (symbol_bits s))"
      using Cons.prems Suc by (intro bit_word_eqI) (auto simp: bit_simps)
    ultimately show ?thesis using Cons Suc by simp
  qed
qed simp

lemma symbol_bits_inverse: "length s = 8 \<Longrightarrow> symbol_from_bits (symbol_bits s) = s"
  unfolding symbol_from_bits_def by (rule nth_equalityI) (simp_all add: drop_symbol_bits)

lemma symbol_bits_inj: "length s = 8 \<Longrightarrow> length t = 8 \<Longrightarrow> symbol_bits s = symbol_bits t \<longleftrightarrow> s = t"
  using symbol_bits_inverse by metis

subsection \<open>Message types\<close>

datatype MsgType = SystemEvent | StockDirectory | StockTradingAction | RegSho
  | MarketParticipantPosition | MwcbDeclineLevel | MwcbStatus | IpoQuotingPeriod
  | LuldAuctionCollar | OperationalHalt | AddOrder | AddOrderMpid | OrderExecuted
  | OrderExecutedWithPrice | OrderCancel | OrderDelete | OrderReplace | TradeNonCross
  | CrossTrade | BrokenTrade | Noii | Rpii | DirectListingCapitalRaise

fun msg_char :: "MsgType \<Rightarrow> u8" where
  "msg_char SystemEvent = ch CHR ''S''"
| "msg_char StockDirectory = ch CHR ''R''"
| "msg_char StockTradingAction = ch CHR ''H''"
| "msg_char RegSho = ch CHR ''Y''"
| "msg_char MarketParticipantPosition = ch CHR ''L''"
| "msg_char MwcbDeclineLevel = ch CHR ''V''"
| "msg_char MwcbStatus = ch CHR ''W''"
| "msg_char IpoQuotingPeriod = ch CHR ''K''"
| "msg_char LuldAuctionCollar = ch CHR ''J''"
| "msg_char OperationalHalt = ch CHR ''h''"
| "msg_char AddOrder = ch CHR ''A''"
| "msg_char AddOrderMpid = ch CHR ''F''"
| "msg_char OrderExecuted = ch CHR ''E''"
| "msg_char OrderExecutedWithPrice = ch CHR ''C''"
| "msg_char OrderCancel = ch CHR ''X''"
| "msg_char OrderDelete = ch CHR ''D''"
| "msg_char OrderReplace = ch CHR ''U''"
| "msg_char TradeNonCross = ch CHR ''P''"
| "msg_char CrossTrade = ch CHR ''Q''"
| "msg_char BrokenTrade = ch CHR ''B''"
| "msg_char Noii = ch CHR ''I''"
| "msg_char Rpii = ch CHR ''N''"
| "msg_char DirectListingCapitalRaise = ch CHR ''O''"

definition all_types :: "MsgType list" where
  "all_types = [SystemEvent, StockDirectory, StockTradingAction, RegSho,
     MarketParticipantPosition, MwcbDeclineLevel, MwcbStatus, IpoQuotingPeriod,
     LuldAuctionCollar, OperationalHalt, AddOrder, AddOrderMpid, OrderExecuted,
     OrderExecutedWithPrice, OrderCancel, OrderDelete, OrderReplace, TradeNonCross,
     CrossTrade, BrokenTrade, Noii, Rpii, DirectListingCapitalRaise]"

text \<open>\<^verbatim>\<open>static_cast<MsgType>(type)\<close> as the switches see it: a named type or none.\<close>

definition msg_type :: "u8 \<Rightarrow> MsgType option" where
  "msg_type c = List.find (\<lambda>t. msg_char t = c) all_types"

fun type_length :: "MsgType \<Rightarrow> nat" where
  "type_length SystemEvent = 12"
| "type_length StockDirectory = 39"
| "type_length StockTradingAction = 25"
| "type_length RegSho = 20"
| "type_length MarketParticipantPosition = 26"
| "type_length MwcbDeclineLevel = 35"
| "type_length MwcbStatus = 12"
| "type_length IpoQuotingPeriod = 28"
| "type_length LuldAuctionCollar = 35"
| "type_length OperationalHalt = 21"
| "type_length AddOrder = 36"
| "type_length AddOrderMpid = 40"
| "type_length OrderExecuted = 31"
| "type_length OrderExecutedWithPrice = 36"
| "type_length OrderCancel = 23"
| "type_length OrderDelete = 19"
| "type_length OrderReplace = 35"
| "type_length TradeNonCross = 44"
| "type_length CrossTrade = 40"
| "type_length BrokenTrade = 19"
| "type_length Noii = 50"
| "type_length Rpii = 20"
| "type_length DirectListingCapitalRaise = 48"

definition message_length :: "u8 \<Rightarrow> nat" where
  "message_length c = (case msg_type c of Some t \<Rightarrow> type_length t | None \<Rightarrow> 0)"

lemma msg_type_char: "msg_type (msg_char t) = Some t"
  by (cases t) (simp_all add: msg_type_def all_types_def ch_def)

lemma msg_type_Some: "msg_type c = Some t \<longleftrightarrow> c = msg_char t"
  using msg_type_char by (auto simp: msg_type_def find_Some_iff)

lemma type_length_bounds: "12 \<le> type_length t" "type_length t \<le> 50"
  by (cases t; simp)+

lemma message_length_char [simp]: "message_length (msg_char t) = type_length t"
  by (simp add: message_length_def msg_type_char)

lemma message_length_bound: "message_length c \<le> 50"
  using type_length_bounds(2) by (simp add: message_length_def split: option.split)

subsection \<open>Decoding\<close>

record AddOrder =
  ao_timestamp :: u64
  ao_reference :: OrderId
  ao_side :: Side
  ao_shares :: Qty
  ao_symbol :: Symbol
  ao_price :: Price

record OrderExecuted =
  oe_timestamp :: u64
  oe_reference :: OrderId
  oe_shares :: Qty
  oe_match_number :: u64
  oe_has_price :: bool
  oe_printable :: bool
  oe_price :: Price

record OrderCancel =
  oc_timestamp :: u64
  oc_reference :: OrderId
  oc_shares :: Qty

record OrderDelete =
  od_timestamp :: u64
  od_reference :: OrderId

record OrderReplace =
  or_timestamp :: u64
  or_original_reference :: OrderId
  or_new_reference :: OrderId
  or_shares :: Qty
  or_price :: Price

record SystemEvent =
  se_timestamp :: u64
  se_code :: u8

record StockDirectory =
  sd_timestamp :: u64
  sd_symbol :: Symbol
  sd_market_category :: u8

definition decode_add_order :: "bytes \<Rightarrow> AddOrder option" where
  "decode_add_order p = do {
     ts \<leftarrow> be48 p 5;
     ref \<leftarrow> be64 p 11;
     side \<leftarrow> rd p 19;
     shares \<leftarrow> be32 p 20;
     sym \<leftarrow> symbol_from_wire p 24;
     price \<leftarrow> be32 p 32;
     Some \<lparr>ao_timestamp = ts, ao_reference = ref,
       ao_side = (if side = ch CHR ''B'' then Bid else Ask),
       ao_shares = shares, ao_symbol = sym, ao_price = uint price\<rparr> }"

definition decode_order_executed :: "bytes \<Rightarrow> OrderExecuted option" where
  "decode_order_executed p = do {
     ts \<leftarrow> be48 p 5;
     ref \<leftarrow> be64 p 11;
     shares \<leftarrow> be32 p 19;
     m \<leftarrow> be64 p 23;
     t \<leftarrow> rd p 0;
     if t = msg_char OrderExecutedWithPrice then do {
       printable \<leftarrow> rd p 31;
       price \<leftarrow> be32 p 32;
       Some \<lparr>oe_timestamp = ts, oe_reference = ref, oe_shares = shares, oe_match_number = m,
         oe_has_price = True, oe_printable = (printable = ch CHR ''Y''), oe_price = uint price\<rparr> }
     else Some \<lparr>oe_timestamp = ts, oe_reference = ref, oe_shares = shares, oe_match_number = m,
         oe_has_price = False, oe_printable = True, oe_price = 0\<rparr> }"

definition decode_order_cancel :: "bytes \<Rightarrow> OrderCancel option" where
  "decode_order_cancel p = do {
     ts \<leftarrow> be48 p 5;
     ref \<leftarrow> be64 p 11;
     shares \<leftarrow> be32 p 19;
     Some \<lparr>oc_timestamp = ts, oc_reference = ref, oc_shares = shares\<rparr> }"

definition decode_order_delete :: "bytes \<Rightarrow> OrderDelete option" where
  "decode_order_delete p = do {
     ts \<leftarrow> be48 p 5;
     ref \<leftarrow> be64 p 11;
     Some \<lparr>od_timestamp = ts, od_reference = ref\<rparr> }"

definition decode_order_replace :: "bytes \<Rightarrow> OrderReplace option" where
  "decode_order_replace p = do {
     ts \<leftarrow> be48 p 5;
     orig \<leftarrow> be64 p 11;
     fresh \<leftarrow> be64 p 19;
     shares \<leftarrow> be32 p 27;
     price \<leftarrow> be32 p 31;
     Some \<lparr>or_timestamp = ts, or_original_reference = orig, or_new_reference = fresh,
       or_shares = shares, or_price = uint price\<rparr> }"

definition decode_system_event :: "bytes \<Rightarrow> SystemEvent option" where
  "decode_system_event p = do {
     ts \<leftarrow> be48 p 5;
     c \<leftarrow> rd p 11;
     Some \<lparr>se_timestamp = ts, se_code = c\<rparr> }"

definition decode_stock_directory :: "bytes \<Rightarrow> StockDirectory option" where
  "decode_stock_directory p = do {
     ts \<leftarrow> be48 p 5;
     sym \<leftarrow> symbol_from_wire p 11;
     c \<leftarrow> rd p 19;
     Some \<lparr>sd_timestamp = ts, sd_symbol = sym, sd_market_category = c\<rparr> }"

lemmas decode_defs = decode_add_order_def decode_order_executed_def decode_order_cancel_def
  decode_order_delete_def decode_order_replace_def decode_system_event_def decode_stock_directory_def

text \<open>Every decoder stays inside a message of the length of its type.\<close>

lemma field_Some:
  "i + 2 \<le> length p \<Longrightarrow> \<exists>v. be16 p i = Some v" "i + 4 \<le> length p \<Longrightarrow> \<exists>v. be32 p i = Some v"
  "i + 6 \<le> length p \<Longrightarrow> \<exists>v. be48 p i = Some v" "i + 8 \<le> length p \<Longrightarrow> \<exists>v. be64 p i = Some v"
  "i < length p \<Longrightarrow> \<exists>v. rd p i = Some v" "i + 8 \<le> length p \<Longrightarrow> \<exists>v. symbol_from_wire p i = Some v"
  using fields_inside [of p i] by (auto simp: rd_def symbol_from_wire_def)

lemma decoders_inside:
  "36 \<le> length p \<Longrightarrow> \<exists>m. decode_add_order p = Some m"
  "length p = (if p ! 0 = msg_char OrderExecutedWithPrice then 36 else 31) \<Longrightarrow> \<exists>m. decode_order_executed p = Some m"
  "23 \<le> length p \<Longrightarrow> \<exists>m. decode_order_cancel p = Some m"
  "19 \<le> length p \<Longrightarrow> \<exists>m. decode_order_delete p = Some m"
  "35 \<le> length p \<Longrightarrow> \<exists>m. decode_order_replace p = Some m"
  "12 \<le> length p \<Longrightarrow> \<exists>m. decode_system_event p = Some m"
  "39 \<le> length p \<Longrightarrow> \<exists>m. decode_stock_directory p = Some m"
  using field_Some(2) [of 20 p] field_Some(2) [of 32 p] field_Some(2) [of 19 p] field_Some(2) [of 27 p] field_Some(2) [of 31 p]
    field_Some(3) [of 5 p] field_Some(4) [of 11 p] field_Some(4) [of 19 p] field_Some(4) [of 23 p]
    field_Some(5) [of 19 p] field_Some(5) [of 11 p] field_Some(5) [of 31 p] field_Some(6) [of 24 p] field_Some(6) [of 11 p]
  by (auto simp: decode_defs rd_def split: if_splits)

end
