(* ===== verification/ItchWriter.thy ===== *)
theory ItchWriter
  imports Itch
begin

text \<open>
  The ITCH encoder (\<^verbatim>\<open>include/pricetime/itch_writer.hpp\<close>): every public method as a function on the
  writer, and what each appends: a two-byte length and a message of exactly this length, which the
  decoders of \<open>Itch\<close> read back.
\<close>

record Writer =
  wr_buf :: bytes
  wr_count :: nat
  wr_msg_start :: nat
  wr_body_start :: nat
  wr_msg_len :: nat

definition writer_new :: Writer where
  "writer_new = \<lparr>wr_buf = [], wr_count = 0, wr_msg_start = 0, wr_body_start = 0, wr_msg_len = 0\<rparr>"

definition writer_clear :: "Writer \<Rightarrow> Writer" where
  "writer_clear w = w\<lparr>wr_buf := [], wr_count := 0\<rparr>"

definition emit :: "bytes \<Rightarrow> Writer \<Rightarrow> Writer" where
  "emit bs w = w\<lparr>wr_buf := wr_buf w @ bs\<rparr>"

definition wr_begin :: "u8 \<Rightarrow> nat \<Rightarrow> Writer \<Rightarrow> Writer" where
  "wr_begin type len w =
     (let w = w\<lparr>wr_msg_start := length (wr_buf w)\<rparr>;
          w = w\<lparr>wr_msg_len := len\<rparr>;
          w = emit [of_nat (len div 256 mod 256)] w;
          w = emit [of_nat (len mod 256)] w;
          w = w\<lparr>wr_body_start := length (wr_buf w)\<rparr>;
          w = emit [type] w;
          w = emit (put16 0) w
      in emit (put16 0) w)"

text \<open>\<^verbatim>\<open>while (buf_.size() - body_start_ < to_len) buf_.push_back(0);\<close>\<close>

definition wr_pad :: "nat \<Rightarrow> Writer \<Rightarrow> Writer" where
  "wr_pad to_len w = emit (replicate (to_len - (length (wr_buf w) - wr_body_start w)) 0) w"

definition wr_end :: "Writer \<Rightarrow> Writer" where
  "wr_end w = (let w = wr_pad (wr_msg_len w) w in w\<lparr>wr_count := wr_count w + 1\<rparr>)"

definition side_char :: "Side \<Rightarrow> u8" where
  "side_char s = (if s = Bid then ch CHR ''B'' else ch CHR ''S'')"

definition put_price :: "Price \<Rightarrow> bytes" where
  "put_price p = put32 (word_of_int p)"

definition write_system_event :: "u64 \<Rightarrow> u8 \<Rightarrow> Writer \<Rightarrow> Writer" where
  "write_system_event ts code w =
     wr_end (emit [code] (emit (put48 ts) (wr_begin (ch CHR ''S'') 12 w)))"

definition write_stock_directory :: "u64 \<Rightarrow> Symbol \<Rightarrow> u8 \<Rightarrow> Writer \<Rightarrow> Writer" where
  "write_stock_directory ts stock category w =
     wr_end (wr_pad 39 (emit [category] (emit stock (emit (put48 ts) (wr_begin (ch CHR ''R'') 39 w)))))"

definition write_add_order :: "u64 \<Rightarrow> OrderId \<Rightarrow> Side \<Rightarrow> Qty \<Rightarrow> Symbol \<Rightarrow> Price \<Rightarrow> Writer \<Rightarrow> Writer" where
  "write_add_order ts ref side shares stock price w =
     wr_end (emit (put_price price) (emit stock (emit (put32 shares) (emit [side_char side]
       (emit (put64 ref) (emit (put48 ts) (wr_begin (ch CHR ''A'') 36 w)))))))"

definition write_add_order_mpid ::
  "u64 \<Rightarrow> OrderId \<Rightarrow> Side \<Rightarrow> Qty \<Rightarrow> Symbol \<Rightarrow> Price \<Rightarrow> bytes \<Rightarrow> Writer \<Rightarrow> Writer" where
  "write_add_order_mpid ts ref side shares stock price mpid w =
     wr_end (emit (map (\<lambda>i. if i < length mpid then mpid ! i else ch CHR '' '') [0..<4])
       (emit (put_price price) (emit stock (emit (put32 shares) (emit [side_char side]
         (emit (put64 ref) (emit (put48 ts) (wr_begin (ch CHR ''F'') 40 w))))))))"

definition write_order_executed :: "u64 \<Rightarrow> OrderId \<Rightarrow> Qty \<Rightarrow> u64 \<Rightarrow> Writer \<Rightarrow> Writer" where
  "write_order_executed ts ref shares m w =
     wr_end (emit (put64 m) (emit (put32 shares) (emit (put64 ref) (emit (put48 ts) (wr_begin (ch CHR ''E'') 31 w)))))"

definition write_order_executed_with_price ::
  "u64 \<Rightarrow> OrderId \<Rightarrow> Qty \<Rightarrow> u64 \<Rightarrow> bool \<Rightarrow> Price \<Rightarrow> Writer \<Rightarrow> Writer" where
  "write_order_executed_with_price ts ref shares m printable price w =
     wr_end (emit (put_price price) (emit [if printable then ch CHR ''Y'' else ch CHR ''N'']
       (emit (put64 m) (emit (put32 shares) (emit (put64 ref) (emit (put48 ts) (wr_begin (ch CHR ''C'') 36 w)))))))"

definition write_order_cancel :: "u64 \<Rightarrow> OrderId \<Rightarrow> Qty \<Rightarrow> Writer \<Rightarrow> Writer" where
  "write_order_cancel ts ref shares w =
     wr_end (emit (put32 shares) (emit (put64 ref) (emit (put48 ts) (wr_begin (ch CHR ''X'') 23 w))))"

definition write_order_delete :: "u64 \<Rightarrow> OrderId \<Rightarrow> Writer \<Rightarrow> Writer" where
  "write_order_delete ts ref w = wr_end (emit (put64 ref) (emit (put48 ts) (wr_begin (ch CHR ''D'') 19 w)))"

definition write_order_replace :: "u64 \<Rightarrow> OrderId \<Rightarrow> OrderId \<Rightarrow> Qty \<Rightarrow> Price \<Rightarrow> Writer \<Rightarrow> Writer" where
  "write_order_replace ts orig fresh shares price w =
     wr_end (emit (put_price price) (emit (put32 shares) (emit (put64 fresh) (emit (put64 orig)
       (emit (put48 ts) (wr_begin (ch CHR ''U'') 35 w))))))"

definition write_trade_non_cross ::
  "u64 \<Rightarrow> OrderId \<Rightarrow> Side \<Rightarrow> Qty \<Rightarrow> Symbol \<Rightarrow> Price \<Rightarrow> u64 \<Rightarrow> Writer \<Rightarrow> Writer" where
  "write_trade_non_cross ts ref side shares stock price m w =
     wr_end (emit (put64 m) (emit (put_price price) (emit stock (emit (put32 shares) (emit [side_char side]
       (emit (put64 ref) (emit (put48 ts) (wr_begin (ch CHR ''P'') 44 w))))))))"

definition write_stock_trading_action :: "u64 \<Rightarrow> Symbol \<Rightarrow> u8 \<Rightarrow> Writer \<Rightarrow> Writer" where
  "write_stock_trading_action ts stock state w =
     wr_end (wr_pad 25 (emit [state] (emit stock (emit (put48 ts) (wr_begin (ch CHR ''H'') 25 w)))))"

subsection \<open>What is appended\<close>

text \<open>The calls as data, and the message each one is.\<close>

datatype feed_event =
    SystemEv u64 u8
  | DirectoryEv u64 Symbol u8
  | AddEv u64 OrderId Side Qty Symbol Price
  | AddMpidEv u64 OrderId Side Qty Symbol Price bytes
  | ExecutedEv u64 OrderId Qty u64
  | ExecutedPriceEv u64 OrderId Qty u64 bool Price
  | CancelEv u64 OrderId Qty
  | DeleteEv u64 OrderId
  | ReplaceEv u64 OrderId OrderId Qty Price
  | TradeEv u64 OrderId Side Qty Symbol Price u64
  | TradingActionEv u64 Symbol u8

fun write_event :: "feed_event \<Rightarrow> Writer \<Rightarrow> Writer" where
  "write_event (SystemEv ts c) w = write_system_event ts c w"
| "write_event (DirectoryEv ts stock c) w = write_stock_directory ts stock c w"
| "write_event (AddEv ts ref s q stock p) w = write_add_order ts ref s q stock p w"
| "write_event (AddMpidEv ts ref s q stock p mpid) w = write_add_order_mpid ts ref s q stock p mpid w"
| "write_event (ExecutedEv ts ref q m) w = write_order_executed ts ref q m w"
| "write_event (ExecutedPriceEv ts ref q m pr p) w = write_order_executed_with_price ts ref q m pr p w"
| "write_event (CancelEv ts ref q) w = write_order_cancel ts ref q w"
| "write_event (DeleteEv ts ref) w = write_order_delete ts ref w"
| "write_event (ReplaceEv ts orig fresh q p) w = write_order_replace ts orig fresh q p w"
| "write_event (TradeEv ts ref s q stock p m) w = write_trade_non_cross ts ref s q stock p m w"
| "write_event (TradingActionEv ts stock st) w = write_stock_trading_action ts stock st w"

fun event_type :: "feed_event \<Rightarrow> MsgType" where
  "event_type (SystemEv ts c) = SystemEvent"
| "event_type (DirectoryEv ts stock c) = StockDirectory"
| "event_type (AddEv ts ref s q stock p) = MsgType.AddOrder"
| "event_type (AddMpidEv ts ref s q stock p mpid) = AddOrderMpid"
| "event_type (ExecutedEv ts ref q m) = OrderExecuted"
| "event_type (ExecutedPriceEv ts ref q m pr p) = OrderExecutedWithPrice"
| "event_type (CancelEv ts ref q) = OrderCancel"
| "event_type (DeleteEv ts ref) = OrderDelete"
| "event_type (ReplaceEv ts orig fresh q p) = OrderReplace"
| "event_type (TradeEv ts ref s q stock p m) = TradeNonCross"
| "event_type (TradingActionEv ts stock st) = StockTradingAction"

text \<open>The fields after the six-byte timestamp.\<close>

fun event_fields :: "feed_event \<Rightarrow> bytes" where
  "event_fields (SystemEv ts c) = [c]"
| "event_fields (DirectoryEv ts stock c) = stock @ [c] @ replicate 19 0"
| "event_fields (AddEv ts ref s q stock p) = put64 ref @ [side_char s] @ put32 q @ stock @ put_price p"
| "event_fields (AddMpidEv ts ref s q stock p mpid) = put64 ref @ [side_char s] @ put32 q @ stock @ put_price p
     @ map (\<lambda>i. if i < length mpid then mpid ! i else ch CHR '' '') [0..<4]"
| "event_fields (ExecutedEv ts ref q m) = put64 ref @ put32 q @ put64 m"
| "event_fields (ExecutedPriceEv ts ref q m pr p) = put64 ref @ put32 q @ put64 m
     @ [if pr then ch CHR ''Y'' else ch CHR ''N''] @ put_price p"
| "event_fields (CancelEv ts ref q) = put64 ref @ put32 q"
| "event_fields (DeleteEv ts ref) = put64 ref"
| "event_fields (ReplaceEv ts orig fresh q p) = put64 orig @ put64 fresh @ put32 q @ put_price p"
| "event_fields (TradeEv ts ref s q stock p m) = put64 ref @ [side_char s] @ put32 q @ stock @ put_price p @ put64 m"
| "event_fields (TradingActionEv ts stock st) = stock @ [st] @ replicate 5 0"

fun event_time :: "feed_event \<Rightarrow> u64" where
  "event_time (SystemEv ts c) = ts"
| "event_time (DirectoryEv ts stock c) = ts"
| "event_time (AddEv ts ref s q stock p) = ts"
| "event_time (AddMpidEv ts ref s q stock p mpid) = ts"
| "event_time (ExecutedEv ts ref q m) = ts"
| "event_time (ExecutedPriceEv ts ref q m pr p) = ts"
| "event_time (CancelEv ts ref q) = ts"
| "event_time (DeleteEv ts ref) = ts"
| "event_time (ReplaceEv ts orig fresh q p) = ts"
| "event_time (TradeEv ts ref s q stock p m) = ts"
| "event_time (TradingActionEv ts stock st) = ts"

fun event_symbol :: "feed_event \<Rightarrow> Symbol option" where
  "event_symbol (DirectoryEv ts stock c) = Some stock"
| "event_symbol (AddEv ts ref s q stock p) = Some stock"
| "event_symbol (AddMpidEv ts ref s q stock p mpid) = Some stock"
| "event_symbol (TradeEv ts ref s q stock p m) = Some stock"
| "event_symbol (TradingActionEv ts stock st) = Some stock"
| "event_symbol e = None"

definition symbol_ok :: "feed_event \<Rightarrow> bool" where
  "symbol_ok e \<longleftrightarrow> (case event_symbol e of Some stock \<Rightarrow> length stock = 8 | None \<Rightarrow> True)"

definition event_message :: "feed_event \<Rightarrow> bytes" where
  "event_message e = [msg_char (event_type e), 0, 0, 0, 0] @ put48 (event_time e) @ event_fields e"

definition event_frame :: "feed_event \<Rightarrow> bytes" where
  "event_frame e = put16 (of_nat (length (event_message e))) @ event_message e"

lemma event_message_length: "symbol_ok e \<Longrightarrow> length (event_message e) = type_length (event_type e)"
  by (cases e) (simp_all add: event_message_def symbol_ok_def put_price_def)

lemmas writer_defs = write_system_event_def write_stock_directory_def write_add_order_def write_add_order_mpid_def
  write_order_executed_def write_order_executed_with_price_def write_order_cancel_def write_order_delete_def
  write_order_replace_def write_trade_non_cross_def write_stock_trading_action_def

lemma put16_zero: "put16 0 = [0, 0]"
  by (simp add: put16_def)

lemma len_bytes: "put16 (of_nat (type_length t)) = [of_nat (type_length t div 256 mod 256), of_nat (type_length t mod 256)]"
  by (cases t) (simp_all add: put16_def)

lemma emit_emit: "emit y (emit x w) = emit (x @ y) w"
  by (simp add: emit_def)

lemma begin_buf: "wr_buf (wr_begin t len w) = wr_buf w @ [of_nat (len div 256 mod 256), of_nat (len mod 256), t, 0, 0, 0, 0]"
  and begin_rest: "wr_body_start (wr_begin t len w) = length (wr_buf w) + 2" "wr_msg_len (wr_begin t len w) = len"
    "wr_count (wr_begin t len w) = wr_count w"
  by (simp_all add: wr_begin_def Let_def emit_def put16_zero)

lemma pad_begin: "wr_pad n (emit x (wr_begin t len w)) = emit (x @ replicate (n - (5 + length x)) 0) (wr_begin t len w)"
  by (simp add: wr_pad_def begin_buf begin_rest emit_def)

lemma end_begin:
  "wr_buf (wr_end (emit x (wr_begin t len w))) = wr_buf w @ [of_nat (len div 256 mod 256), of_nat (len mod 256)]
     @ [t, 0, 0, 0, 0] @ x @ replicate (len - (5 + length x)) 0"
  "wr_count (wr_end (emit x (wr_begin t len w))) = Suc (wr_count w)"
proof -
  have m: "wr_msg_len (emit x (wr_begin t len w)) = len" by (simp add: emit_def begin_rest)
  show "wr_buf (wr_end (emit x (wr_begin t len w))) = wr_buf w @ [of_nat (len div 256 mod 256), of_nat (len mod 256)]
     @ [t, 0, 0, 0, 0] @ x @ replicate (len - (5 + length x)) 0"
    "wr_count (wr_end (emit x (wr_begin t len w))) = Suc (wr_count w)"
    unfolding wr_end_def Let_def m pad_begin by (simp_all add: emit_def begin_buf begin_rest)
qed

text \<open>Every method appends the frame of its message and counts it.\<close>

lemma write_event_fields:
  assumes "symbol_ok e"
  shows "wr_buf (write_event e w) = wr_buf w @ [of_nat (type_length (event_type e) div 256 mod 256),
      of_nat (type_length (event_type e) mod 256)] @ event_message e"
    and "wr_count (write_event e w) = Suc (wr_count w)"
  using assms
  by (cases e; simp add: writer_defs emit_emit pad_begin end_begin event_message_def symbol_ok_def put_price_def)+

lemma write_event_appends:
  assumes "symbol_ok e"
  shows "wr_buf (write_event e w) = wr_buf w @ event_frame e" and "wr_count (write_event e w) = Suc (wr_count w)"
  using write_event_fields [OF assms] unfolding event_frame_def event_message_length [OF assms] len_bytes by simp_all

lemma write_events_append:
  assumes "\<forall>e \<in> set es. symbol_ok e"
  shows "wr_buf (fold write_event es w) = wr_buf w @ concat (map event_frame es)"
    and "wr_count (fold write_event es w) = wr_count w + length es"
  using assms by (induction es arbitrary: w) (simp_all add: write_event_appends)

subsection \<open>The decoders read the encoder\<close>

lemma symbol_read [read_simps]:
  "0 < i \<Longrightarrow> symbol_from_wire (x # ys) i = symbol_from_wire ys (i - 1)"
  "length xs \<le> i \<Longrightarrow> symbol_from_wire (xs @ ys) i = symbol_from_wire ys (i - length xs)"
  "length s = 8 \<Longrightarrow> symbol_from_wire (s @ ys) 0 = Some s"
  by (auto simp: symbol_from_wire_def drop_Cons' Suc_le_eq)

text \<open>Prices and timestamps the wire can carry.\<close>

definition wire_price :: "Price \<Rightarrow> bool" where
  "wire_price p \<longleftrightarrow> 0 \<le> p \<and> p < 2 ^ 32"

lemma wire_price_back: "wire_price p \<Longrightarrow> uint (word_of_int p :: u32) = p"
  by (simp add: wire_price_def unsigned_of_int take_bit_int_eq_self)

lemma side_char_back [simp]: "(side_char s = ch CHR ''B'') = (s = Bid)"
  by (cases s) (simp_all add: side_char_def ch_def)

lemma side_back [simp]: "(if s = Bid then Bid else Ask) = s"
  by (cases s) simp_all

lemma char_simps: "(ch CHR ''N'' = ch CHR ''Y'') = False"
  "(msg_char OrderExecuted = msg_char OrderExecutedWithPrice) = False"
  by (simp_all add: ch_def)

lemma decode_written:
  "length stock = 8 \<Longrightarrow> wire_price p \<Longrightarrow> decode_add_order (event_message (AddEv ts ref s q stock p))
     = Some \<lparr>ao_timestamp = take_bit 48 ts, ao_reference = ref, ao_side = s, ao_shares = q, ao_symbol = stock, ao_price = p\<rparr>"
  "length stock = 8 \<Longrightarrow> wire_price p \<Longrightarrow> decode_add_order (event_message (AddMpidEv ts ref s q stock p mpid))
     = Some \<lparr>ao_timestamp = take_bit 48 ts, ao_reference = ref, ao_side = s, ao_shares = q, ao_symbol = stock, ao_price = p\<rparr>"
  "decode_order_executed (event_message (ExecutedEv ts ref q m))
     = Some \<lparr>oe_timestamp = take_bit 48 ts, oe_reference = ref, oe_shares = q, oe_match_number = m,
         oe_has_price = False, oe_printable = True, oe_price = 0\<rparr>"
  "wire_price p \<Longrightarrow> decode_order_executed (event_message (ExecutedPriceEv ts ref q m pr p))
     = Some \<lparr>oe_timestamp = take_bit 48 ts, oe_reference = ref, oe_shares = q, oe_match_number = m,
         oe_has_price = True, oe_printable = pr, oe_price = p\<rparr>"
  "decode_order_cancel (event_message (CancelEv ts ref q))
     = Some \<lparr>oc_timestamp = take_bit 48 ts, oc_reference = ref, oc_shares = q\<rparr>"
  "decode_order_delete (event_message (DeleteEv ts ref)) = Some \<lparr>od_timestamp = take_bit 48 ts, od_reference = ref\<rparr>"
  "wire_price p \<Longrightarrow> decode_order_replace (event_message (ReplaceEv ts orig fresh q p))
     = Some \<lparr>or_timestamp = take_bit 48 ts, or_original_reference = orig, or_new_reference = fresh, or_shares = q, or_price = p\<rparr>"
  "decode_system_event (event_message (SystemEv ts c)) = Some \<lparr>se_timestamp = take_bit 48 ts, se_code = c\<rparr>"
  "length stock = 8 \<Longrightarrow> decode_stock_directory (event_message (DirectoryEv ts stock c))
     = Some \<lparr>sd_timestamp = take_bit 48 ts, sd_symbol = stock, sd_market_category = c\<rparr>"
  by (simp_all add: event_message_def decode_defs read_simps put_price_def wire_price_back char_simps del: msg_char.simps)

end
