(* ===== verification/ItchReader.thy ===== *)
theory ItchReader
  imports ItchWriter
begin

text \<open>
  The two walkers over a byte string (\<^verbatim>\<open>include/pricetime/itch_reader.hpp\<close>).  The handler is a
  state transformer that may fail (\<^term>\<open>None\<close>, an access outside its message); the walk
  returns its status and the final state.
\<close>

datatype ReadStatus = ReadOk | TruncatedPrefix | TruncatedMessage | UnknownType | LengthMismatch | ZeroLength

record ReadResult =
  rr_status :: ReadStatus
  rr_messages :: nat
  rr_offset :: nat
  rr_bad_type :: u8
  rr_declared_length :: nat
  rr_expected_length :: nat

definition read_result_default :: ReadResult where
  "read_result_default = \<lparr>rr_status = ReadOk, rr_messages = 0, rr_offset = 0, rr_bad_type = ch CHR '' '',
     rr_declared_length = 0, rr_expected_length = 0\<rparr>"

definition read_ok :: "ReadResult \<Rightarrow> bool" where
  "read_ok r \<longleftrightarrow> rr_status r = ReadOk"

type_synonym 's handler = "bytes \<Rightarrow> nat \<Rightarrow> 's \<Rightarrow> 's option"

text \<open>The loop of \<^verbatim>\<open>for_each_framed_message\<close> from offset \<open>off\<close>.\<close>

function framed_loop :: "bytes \<Rightarrow> 's handler \<Rightarrow> nat \<Rightarrow> ReadResult \<Rightarrow> 's \<Rightarrow> (ReadResult \<times> 's) option" where
  "framed_loop data h off r s =
     (if off < length data then
        (if length data - off < 2 then Some (r\<lparr>rr_status := TruncatedPrefix, rr_offset := off\<rparr>, s)
         else do {
           len \<leftarrow> map_option unat (be16 data off);
           if len = 0 then Some (r\<lparr>rr_status := ZeroLength, rr_offset := off\<rparr>, s)
           else if length data - off - 2 < len
           then Some (r\<lparr>rr_status := TruncatedMessage, rr_offset := off, rr_declared_length := len\<rparr>, s)
           else do {
             type \<leftarrow> rd data (off + 2);
             let expected = message_length type;
             if expected \<noteq> 0 \<and> expected \<noteq> len
             then Some (r\<lparr>rr_status := LengthMismatch, rr_offset := off, rr_bad_type := type,
                          rr_declared_length := len, rr_expected_length := expected\<rparr>, s)
             else do {
               s \<leftarrow> h (take len (drop (off + 2) data)) len s;
               framed_loop data h (off + (2 + len)) (r\<lparr>rr_messages := rr_messages r + 1\<rparr>) s } } })
      else Some (r\<lparr>rr_offset := off\<rparr>, s))"
  by pat_completeness auto
termination by (relation "measure (\<lambda>(data, h, off, r, s). length data - off)") auto

declare framed_loop.simps [simp del]

definition for_each_framed_message :: "bytes \<Rightarrow> 's handler \<Rightarrow> 's \<Rightarrow> (ReadResult \<times> 's) option" where
  "for_each_framed_message data h s = framed_loop data h 0 read_result_default s"

function raw_loop :: "bytes \<Rightarrow> 's handler \<Rightarrow> nat \<Rightarrow> ReadResult \<Rightarrow> 's \<Rightarrow> (ReadResult \<times> 's) option" where
  "raw_loop data h off r s =
     (if off < length data then do {
        type \<leftarrow> rd data off;
        let len = message_length type;
        if len = 0 then Some (r\<lparr>rr_status := UnknownType, rr_offset := off, rr_bad_type := type\<rparr>, s)
        else if length data - off < len
        then Some (r\<lparr>rr_status := TruncatedMessage, rr_offset := off, rr_declared_length := len\<rparr>, s)
        else do {
          s \<leftarrow> h (take len (drop off data)) len s;
          raw_loop data h (off + len) (r\<lparr>rr_messages := rr_messages r + 1\<rparr>) s } }
      else Some (r\<lparr>rr_offset := off\<rparr>, s))"
  by pat_completeness auto
termination by (relation "measure (\<lambda>(data, h, off, r, s). length data - off)") auto

declare raw_loop.simps [simp del]

definition for_each_raw_message :: "bytes \<Rightarrow> 's handler \<Rightarrow> 's \<Rightarrow> (ReadResult \<times> 's) option" where
  "for_each_raw_message data h s = raw_loop data h 0 read_result_default s"

subsection \<open>Position independence\<close>

text \<open>A walk depends only on the bytes from its offset on, up to the offset it reports.\<close>

definition shift_offset :: "nat \<Rightarrow> (ReadResult \<times> 's) option \<Rightarrow> (ReadResult \<times> 's) option" where
  "shift_offset k = map_option (\<lambda>(r, s). (r\<lparr>rr_offset := rr_offset r + k\<rparr>, s))"

lemma be16_drop: "k \<le> off \<Longrightarrow> be16 data off = be16 (drop k data) (off - k)"
  by (auto simp: be16_def rd_def)

lemma framed_loop_drop:
  assumes "k \<le> off" and "off \<le> length data"
  shows "framed_loop data h off r s = shift_offset k (framed_loop (drop k data) h (off - k) r s)"
  using assms
proof (induction data h off r s rule: framed_loop.induct)
  case (1 data h off r s)
  show ?case
  proof (cases "length data - off < 2")
    case True
    then show ?thesis using "1.prems"
      by (subst (1 2) framed_loop.simps) (auto simp: shift_offset_def)
  next
    case False
    obtain v where v: "be16 data off = Some v" "be16 (drop k data) (off - k) = Some v"
      using fields_inside(1) [of data off] False be16_drop [OF "1.prems"(1)] by fastforce
    obtain t where t: "off + 2 < length data \<Longrightarrow> rd data (off + 2) = Some t \<and> rd (drop k data) (off - k + 2) = Some t"
      using "1.prems" by (cases "off + 2 < length data") (auto simp: rd_def)
    have d: "drop (off - k + 2) (drop k data) = drop (off + 2) data" using "1.prems" by simp
    show ?thesis
    proof (cases "unat v = 0 \<or> length data - off - 2 < unat v")
      case True
      then show ?thesis using False v "1.prems"
        by (subst (1 2) framed_loop.simps) (auto simp: shift_offset_def)
    next
      case fit: False
      then have t: "rd data (off + 2) = Some t" "rd (drop k data) (off - k + 2) = Some t"
        using t "1.prems" False by auto
      show ?thesis
      proof (cases "message_length t \<noteq> 0 \<and> message_length t \<noteq> unat v")
        case True
        then show ?thesis using False fit v t "1.prems"
          by (subst (1 2) framed_loop.simps) (auto simp: shift_offset_def)
      next
        case ok: False
        show ?thesis
        proof (cases "h (take (unat v) (drop (off + 2) data)) (unat v) s")
          case None
          then show ?thesis using False fit ok v t d "1.prems"
            by (subst (1 2) framed_loop.simps) (auto simp: shift_offset_def)
        next
          case (Some s1)
          have "framed_loop data h (off + (2 + unat v)) (r\<lparr>rr_messages := rr_messages r + 1\<rparr>) s1
              = shift_offset k (framed_loop (drop k data) h (off + (2 + unat v) - k) (r\<lparr>rr_messages := rr_messages r + 1\<rparr>) s1)"
            using "1.IH" [of "unat v" t "message_length t" s1] False fit ok v t Some "1.prems" by auto
          moreover have "off + (2 + unat v) - k = off - k + (2 + unat v)" using "1.prems" by simp
          ultimately show ?thesis using False fit ok v t d Some "1.prems"
            by (subst (1 2) framed_loop.simps) (auto simp: shift_offset_def)
        qed
      qed
    qed
  qed
qed

text \<open>The loop at offset 0, with what follows a message read from the start again.\<close>

lemma framed_unfold:
  "framed_loop data h 0 r s =
     (if data = [] then Some (r\<lparr>rr_offset := 0\<rparr>, s)
      else if length data < 2 then Some (r\<lparr>rr_status := TruncatedPrefix, rr_offset := 0\<rparr>, s)
      else (let len = unat (the (be16 data 0)); type = data ! 2; expected = message_length type in
        if len = 0 then Some (r\<lparr>rr_status := ZeroLength, rr_offset := 0\<rparr>, s)
        else if length data < 2 + len then Some (r\<lparr>rr_status := TruncatedMessage, rr_offset := 0, rr_declared_length := len\<rparr>, s)
        else if expected \<noteq> 0 \<and> expected \<noteq> len
        then Some (r\<lparr>rr_status := LengthMismatch, rr_offset := 0, rr_bad_type := type,
                     rr_declared_length := len, rr_expected_length := expected\<rparr>, s)
        else (case h (take len (drop 2 data)) len s of None \<Rightarrow> None
          | Some s \<Rightarrow> shift_offset (2 + len)
              (framed_loop (drop (2 + len) data) h 0 (r\<lparr>rr_messages := rr_messages r + 1\<rparr>) s))))"
proof (cases "length data < 2")
  case True
  then show ?thesis by (subst framed_loop.simps) auto
next
  case False
  obtain v where v: "be16 data 0 = Some v" using fields_inside(1) [of data 0] False by fastforce
  have rd2: "2 < length data \<Longrightarrow> rd data (Suc (Suc 0)) = Some (data ! Suc (Suc 0))" by (simp add: rd_def numeral_2_eq_2)
  have step: "2 + unat v \<le> length data \<Longrightarrow> framed_loop data h (2 + unat v) r' s'
      = shift_offset (2 + unat v) (framed_loop (drop (2 + unat v) data) h 0 r' s')" for r' s'
    using framed_loop_drop [of "2 + unat v" "2 + unat v" data h r' s'] by simp
  show ?thesis
    using False v rd2 step
    by (subst framed_loop.simps) (auto simp: Let_def numeral_2_eq_2 split: option.split)
qed

fun handle_all :: "'s handler \<Rightarrow> bytes list \<Rightarrow> 's \<Rightarrow> 's option" where
  "handle_all h [] s = Some s"
| "handle_all h (m # ms) s = do { s \<leftarrow> h m (length m) s; handle_all h ms s }"

text \<open>A length prefix and the message it announces.\<close>

definition frame :: "bytes \<Rightarrow> bytes" where
  "frame m = put16 (of_nat (length m)) @ m"

definition message_ok :: "bytes \<Rightarrow> bool" where
  "message_ok m \<longleftrightarrow> m \<noteq> [] \<and> length m < 2 ^ 16 \<and> message_length (hd m) \<in> {0, length m}"

lemma frame_length [simp]: "length (frame m) = 2 + length m"
  by (simp add: frame_def)

lemma framed_step:
  assumes "message_ok m"
  shows "framed_loop (frame m @ ys) h 0 r s = (case h m (length m) s of None \<Rightarrow> None
    | Some s \<Rightarrow> shift_offset (2 + length m) (framed_loop ys h 0 (r\<lparr>rr_messages := rr_messages r + 1\<rparr>) s))"
proof -
  have m: "m \<noteq> []" "length m < 2 ^ 16" "message_length (hd m) = 0 \<or> message_length (hd m) = length m"
    using assms by (auto simp: message_ok_def)
  have "be16 (frame m @ ys) 0 = Some (of_nat (length m))" by (simp add: frame_def read_simps)
  moreover have "unat (of_nat (length m) :: u16) = length m"
    using m(2) by (simp add: unsigned_of_nat take_bit_nat_eq_self)
  moreover have "(frame m @ ys) ! 2 = hd m" "drop 2 (frame m @ ys) = m @ ys" "drop (2 + length m) (frame m @ ys) = ys"
    using m(1) by (simp_all add: frame_def nth_append hd_conv_nth)
  moreover have "frame m @ ys \<noteq> []" using frame_length [of m] by (cases "frame m") auto
  ultimately show ?thesis using m by (subst framed_unfold) (auto simp: Let_def split: option.split)
qed

lemma be16_bytes: "be16 p 0 = Some v \<Longrightarrow> take 2 p = put16 v"
proof -
  assume "be16 p 0 = Some v"
  then obtain a b ys where p: "p = a # b # ys" and v: "v = push_bit 8 (ucast a) OR ucast b"
    by (cases p; cases "tl p") (auto simp: be16_def rd_def split: if_splits)
  have "(ucast (drop_bit 8 v AND 0xFF) :: u8) = a" "(ucast (v AND 0xFF) :: u8) = b"
    unfolding v byte_mask by (rule bit_word_eqI; auto simp: bit_simps dest: bit_imp_le_length)+
  then show "take 2 p = put16 v" by (simp add: p put16_def)
qed

text \<open>What a walk did, whatever its end: it handled the messages of a sequence of complete frames,
  and it is content exactly when they are the whole input.\<close>

lemma framed_sound:
  assumes "framed_loop data h 0 r s = Some (r', s')" and "rr_status r = ReadOk"
  shows "\<exists>ms. (\<forall>m \<in> set ms. message_ok m) \<and> handle_all h ms s = Some s' \<and> take (rr_offset r') data = concat (map frame ms)
    \<and> rr_messages r' = rr_messages r + length ms \<and> rr_offset r' \<le> length data
    \<and> (rr_status r' = ReadOk \<longleftrightarrow> rr_offset r' = length data)"
  using assms
proof (induction data arbitrary: r s r' rule: measure_induct_rule [of length])
  case (less data)
  define len where "len = unat (the (be16 data 0))"
  show ?case
  proof (cases "data = [] \<or> length data < 2 \<or> len = 0 \<or> length data < 2 + len
      \<or> (message_length (data ! 2) \<noteq> 0 \<and> message_length (data ! 2) \<noteq> len)")
    case True
    then have "s' = s \<and> rr_offset r' = 0 \<and> rr_messages r' = rr_messages r \<and> (rr_status r' = ReadOk \<longleftrightarrow> data = [])"
      using less.prems by (subst (asm) framed_unfold) (auto simp: Let_def len_def [symmetric] split: if_splits)
    then show ?thesis by (intro exI [of _ "[]"]) auto
  next
    case False
    let ?m = "take len (drop 2 data)" and ?ys = "drop (2 + len) data"
    obtain v where v: "be16 data 0 = Some v" using fields_inside(1) [of data 0] False by fastforce
    obtain s1 r1 where h: "h ?m len s = Some s1" and
      r1: "framed_loop ?ys h 0 (r\<lparr>rr_messages := rr_messages r + 1\<rparr>) s1 = Some (r1, s')"
      and r': "r' = r1\<lparr>rr_offset := rr_offset r1 + (2 + len)\<rparr>"
      using less.prems False
      by (subst (asm) framed_unfold) (auto simp: Let_def len_def [symmetric] shift_offset_def split: option.splits)
    have lm: "length ?m = len" "?m \<noteq> []" "hd ?m = data ! 2" using False by (auto simp: hd_conv_nth)
    have "len < 2 ^ 16" unfolding len_def using unsigned_less [of "the (be16 data 0)", where ?'a = nat] by simp
    then have ok: "message_ok ?m" using False lm by (auto simp: message_ok_def)
    have "put16 (of_nat len) = take 2 data" using be16_bytes [OF v] v by (simp add: len_def)
    then have fr: "frame ?m = take (2 + len) data" using lm(1) by (simp only: frame_def take_add)
    have "length ?ys < length data" using False by simp
    from less.IH [OF this r1] obtain ms where ms: "\<forall>m \<in> set ms. message_ok m" "handle_all h ms s1 = Some s'"
      "take (rr_offset r1) ?ys = concat (map frame ms)" "rr_messages r1 = rr_messages r + 1 + length ms"
      "rr_offset r1 \<le> length ?ys" "rr_status r1 = ReadOk \<longleftrightarrow> rr_offset r1 = length ?ys"
      using less.prems(2) by auto
    have "take (rr_offset r1 + (2 + len)) data = take (2 + len) data @ take (rr_offset r1) ?ys"
      using take_add [of "2 + len" "rr_offset r1" data] by (simp only: add.commute)
    then show ?thesis
      using ms h ok fr lm(1) r' False by (intro exI [of _ "?m # ms"]) auto
  qed
qed

lemma framed_complete:
  assumes "\<forall>m \<in> set ms. message_ok m"
  shows "framed_loop (concat (map frame ms)) h 0 r s = map_option
    (\<lambda>s. (r\<lparr>rr_messages := rr_messages r + length ms, rr_offset := length (concat (map frame ms))\<rparr>, s)) (handle_all h ms s)"
  using assms
proof (induction ms arbitrary: r s)
  case Nil
  then show ?case by (subst framed_unfold) simp
next
  case (Cons m ms)
  then show ?case
    by (auto simp: framed_step shift_offset_def option.map_comp comp_def ac_simps split: option.split)
qed

end
