(* ===== verification/ItchStream.thy ===== *)
theory ItchStream
  imports ItchReader
begin

text \<open>
  Reading a framed file in chunks (\<^verbatim>\<open>include/pricetime/itch_stream.hpp\<close>).  The file is the bytes that
  are still to come; a write behind the end of the buffer is \<^term>\<open>None\<close>.
\<close>

definition is_truncated :: "ReadStatus \<Rightarrow> bool" where
  "is_truncated st \<longleftrightarrow> st = TruncatedPrefix \<or> st = TruncatedMessage"

text \<open>The loop; \<open>buf\<close> holds the \<^verbatim>\<open>have\<close> bytes in the buffer.\<close>

partial_function (option) stream_loop ::
  "nat \<Rightarrow> 's handler \<Rightarrow> bytes \<Rightarrow> bytes \<Rightarrow> nat \<Rightarrow> ReadResult \<Rightarrow> 's \<Rightarrow> (ReadResult \<times> 's) option" where
  "stream_loop chunk_bytes h file buf consumed tot s =
     (let got = min chunk_bytes (length file); at_eof = got < chunk_bytes in
      if length buf + got > chunk_bytes + 64 then None
      else
        (let buf = buf @ take got file; file = drop got file in
         if buf = [] then Some (tot, s)
         else do {
           (r, s) \<leftarrow> for_each_framed_message buf h s;
           let tot = tot\<lparr>rr_messages := rr_messages tot + rr_messages r\<rparr>;
           if rr_status r = ReadOk then
             (let consumed = consumed + length buf; tot = tot\<lparr>rr_offset := consumed\<rparr> in
              if at_eof then Some (tot, s)
              else stream_loop chunk_bytes h file [] consumed tot s)
           else if is_truncated (rr_status r) then
             (if at_eof
              then Some (tot\<lparr>rr_status := rr_status r, rr_offset := consumed + rr_offset r,
                           rr_declared_length := rr_declared_length r\<rparr>, s)
              else stream_loop chunk_bytes h file (drop (rr_offset r) buf) (consumed + rr_offset r) tot s)
           else Some (tot\<lparr>rr_status := rr_status r, rr_offset := consumed + rr_offset r,
                        rr_bad_type := rr_bad_type r, rr_declared_length := rr_declared_length r,
                        rr_expected_length := rr_expected_length r\<rparr>, s) }))"

text \<open>\<open>None\<close> for a file that cannot be opened.\<close>

definition for_each_framed_stream :: "bytes option \<Rightarrow> 's handler \<Rightarrow> nat \<Rightarrow> 's \<Rightarrow> (ReadResult \<times> 's) option" where
  "for_each_framed_stream file h chunk_bytes s =
     (case file of
        None \<Rightarrow> Some (read_result_default\<lparr>rr_status := TruncatedPrefix\<rparr>, s)
      | Some file \<Rightarrow> stream_loop chunk_bytes h file [] 0 read_result_default s)"

subsection \<open>Cutting the input\<close>

text \<open>Every length prefix the walk can meet announces at most 62 bytes; the longest message of
  ITCH 5.0 has 50.\<close>

function small_frames :: "bytes \<Rightarrow> bool" where
  "small_frames data =
     (if length data < 2 then True
      else (let len = unat (the (be16 data 0)) in
        len \<le> 62 \<and> (len = 0 \<or> length data < 2 + len \<or> small_frames (drop (2 + len) data))))"
  by pat_completeness auto
termination by (relation "measure length") auto

declare small_frames.simps [simp del]

text \<open>The fields of a result the walk has not touched.\<close>

definition resumed :: "ReadResult \<Rightarrow> ReadResult \<Rightarrow> ReadResult" where
  "resumed r r1 = r\<lparr>rr_messages := rr_messages r1\<rparr>"

lemma be16_prefix: "2 \<le> length xs \<Longrightarrow> be16 (xs @ ys) 0 = be16 xs 0"
  by (auto simp: be16_def rd_def nth_append)

lemma shift_offset_0 [simp]: "shift_offset 0 x = x"
  by (cases x) (auto simp: shift_offset_def)

lemma shift_offset_simps [simp]:
  "shift_offset k None = None"
  "shift_offset k (Some (r, s)) = Some (r\<lparr>rr_offset := rr_offset r + k\<rparr>, s)"
  by (simp_all add: shift_offset_def)

lemma shift_offset_twice [simp]: "shift_offset a (shift_offset b x) = shift_offset (b + a) x"
  by (cases x) (auto simp: shift_offset_def algebra_simps)

lemma framed_unfold_message:
  assumes "\<not> (length data < 2 \<or> unat (the (be16 data 0)) = 0 \<or> length data < 2 + unat (the (be16 data 0))
      \<or> (message_length (data ! 2) \<noteq> 0 \<and> message_length (data ! 2) \<noteq> unat (the (be16 data 0))))"
    and "len = unat (the (be16 data 0))"
  shows "framed_loop data h 0 r s = (case h (take len (drop 2 data)) len s of None \<Rightarrow> None
      | Some s1 \<Rightarrow> shift_offset (2 + len) (framed_loop (drop (2 + len) data) h 0 (r\<lparr>rr_messages := rr_messages r + 1\<rparr>) s1))"
proof -
  have "data \<noteq> []" using assms(1) by auto
  then show ?thesis
    using assms(1) unfolding framed_unfold [of data] Let_def assms(2) by (auto split: option.split)
qed

text \<open>Walking a prefix and then the rest is walking the whole.\<close>

lemma framed_append:
  assumes "framed_loop data h 0 r s = res" and "rr_status r = ReadOk"
  shows "framed_loop (data @ ys) h 0 r s = (case res of
      None \<Rightarrow> None
    | Some (r1, s1) \<Rightarrow>
        if rr_status r1 = ReadOk \<or> is_truncated (rr_status r1)
        then shift_offset (rr_offset r1) (framed_loop (drop (rr_offset r1) data @ ys) h 0 (resumed r r1) s1)
        else Some (r1, s1))"
  using assms
proof (induction data arbitrary: r s res rule: measure_induct_rule [of length])
  case (less data)
  define len where "len = unat (the (be16 data 0))"
  show ?case
  proof (cases "length data < 2 \<or> (0 < len \<and> length data < 2 + len)")
    case True
    then have "\<exists>r1. res = Some (r1, s) \<and> (rr_status r1 = ReadOk \<or> is_truncated (rr_status r1)) \<and> rr_offset r1 = 0 \<and> resumed r r1 = r"
      using less.prems by (subst (asm) framed_unfold) (auto simp: Let_def len_def [symmetric] is_truncated_def resumed_def)
    then show ?thesis by auto
  next
    case False
    have len': "unat (the (be16 (data @ ys) 0)) = len" using False be16_prefix [of data ys] by (simp add: len_def)
    have t: "len \<noteq> 0 \<Longrightarrow> (data @ ys) ! 2 = data ! 2" using False by (auto simp: nth_append)
    show ?thesis
    proof (cases "len = 0 \<or> (message_length (data ! 2) \<noteq> 0 \<and> message_length (data ! 2) \<noteq> len)")
      case True
      have ne: "data \<noteq> []" using False by auto
      have "\<exists>r1. res = Some (r1, s) \<and> \<not> (rr_status r1 = ReadOk \<or> is_truncated (rr_status r1))"
        using True False ne unfolding less.prems(1) [symmetric]
        by (subst framed_unfold) (auto simp: Let_def len_def [symmetric] is_truncated_def)
      then obtain r1 where r1: "res = Some (r1, s)" "\<not> (rr_status r1 = ReadOk \<or> is_truncated (rr_status r1))" by blast
      have "framed_loop (data @ ys) h 0 r s = framed_loop data h 0 r s"
        using False True t ne by (subst (1 2) framed_unfold) (auto simp: Let_def len' len_def [symmetric])
      then show ?thesis using r1 less.prems(1) by simp
    next
      case ok: False
      let ?m = "take len (drop 2 data)" and ?ds = "drop (2 + len) data"
      have tk: "take len (drop 2 (data @ ys)) = ?m" "drop (2 + len) (data @ ys) = ?ds @ ys" using False ok by simp_all
      have unf: "framed_loop (data @ zs) h 0 r s = (case h ?m len s of None \<Rightarrow> None | Some s \<Rightarrow>
          shift_offset (2 + len) (framed_loop (?ds @ zs) h 0 (r\<lparr>rr_messages := rr_messages r + 1\<rparr>) s))"
        if "zs = ys \<or> zs = []" for zs
        using that
      proof
        assume "zs = ys"
        then show ?thesis using False ok t tk
          by (subst framed_unfold) (auto simp: Let_def len' split: option.split)
      next
        assume "zs = []"
        then show ?thesis using False ok
          by (subst framed_unfold) (auto simp: Let_def len_def [symmetric] split: option.split)
      qed
      show ?thesis
      proof (cases "h ?m len s")
        case None
        then show ?thesis using unf [of ys] unf [of "[]"] less.prems(1) by simp
      next
        case (Some s1)
        let ?r = "r\<lparr>rr_messages := rr_messages r + 1\<rparr>"
        define res1 where "res1 = framed_loop ?ds h 0 ?r s1"
        have res: "res = shift_offset (2 + len) res1"
          using unf [of "[]"] Some less.prems(1) by (simp add: res1_def)
        have IH: "framed_loop (?ds @ ys) h 0 ?r s1 = (case res1 of None \<Rightarrow> None
          | Some (r1, s1) \<Rightarrow> if rr_status r1 = ReadOk \<or> is_truncated (rr_status r1)
            then shift_offset (rr_offset r1) (framed_loop (drop (rr_offset r1) ?ds @ ys) h 0 (resumed ?r r1) s1)
            else Some (r1, s1))"
          using False less.prems(2) by (intro less.IH) (auto simp: res1_def)
        have rs: "resumed ?r r1 = resumed r r1" for r1 by (simp add: resumed_def)
        have "framed_loop (data @ ys) h 0 r s = shift_offset (2 + len) (framed_loop (?ds @ ys) h 0 ?r s1)"
          using unf [of ys] Some by simp
        then show ?thesis
          unfolding res IH
          by (cases res1) (auto simp: rs resumed_def algebra_simps)
      qed
    qed
  qed
qed

text \<open>A walk that starts with other counts ends with other counts.\<close>

definition recount :: "nat \<Rightarrow> nat \<Rightarrow> ReadResult \<Rightarrow> ReadResult" where
  "recount n k r = r\<lparr>rr_messages := rr_messages r + n, rr_offset := k\<rparr>"

lemma framed_recount:
  "framed_loop data h 0 (recount n k r) s = map_option (\<lambda>(r1, s1). (recount n (rr_offset r1) r1, s1)) (framed_loop data h 0 r s)"
proof (induction data arbitrary: r k s rule: measure_induct_rule [of length])
  case (less data)
  define len where "len = unat (the (be16 data 0))"
  show ?case
  proof (cases "length data < 2 \<or> len = 0 \<or> length data < 2 + len
      \<or> (message_length (data ! 2) \<noteq> 0 \<and> message_length (data ! 2) \<noteq> len)")
    case True
    then show ?thesis
      unfolding framed_unfold [of data] Let_def len_def [symmetric] by (auto simp: recount_def)
  next
    case False
    have up: "(recount n k r)\<lparr>rr_messages := rr_messages (recount n k r) + 1\<rparr> = recount n k (r\<lparr>rr_messages := rr_messages r + 1\<rparr>)"
      by (simp add: recount_def)
    have IH: "framed_loop (drop (2 + len) data) h 0 (recount n k r') s' = map_option (\<lambda>(r1, s1). (recount n (rr_offset r1) r1, s1))
        (framed_loop (drop (2 + len) data) h 0 r' s')" for r' s'
      using False by (intro less.IH) auto
    have unf: "framed_loop data h 0 r' s = (case h (take len (drop 2 data)) len s of None \<Rightarrow> None
      | Some s1 \<Rightarrow> shift_offset (2 + len) (framed_loop (drop (2 + len) data) h 0 (r'\<lparr>rr_messages := rr_messages r' + 1\<rparr>) s1))" for r'
      using framed_unfold_message [OF False [unfolded len_def] len_def] .
    have sh: "shift_offset j (map_option (\<lambda>(r1, s1). (recount n (rr_offset r1) r1, s1)) x)
        = map_option (\<lambda>(r1, s1). (recount n (rr_offset r1) r1, s1)) (shift_offset j x)" for j x
      by (cases x) (auto simp: recount_def)
    show ?thesis unfolding unf up by (simp only: IH sh split: option.split) simp
  qed
qed

text \<open>Where a walk stops for want of bytes, at most 63 of them are left, and it has touched only the
  fields the stream copies.\<close>

lemma framed_cut:
  assumes "framed_loop data h 0 r s = Some (r1, s1)" and "rr_status r = ReadOk" and "small_frames (data @ ys)"
  shows "rr_status r1 = ReadOk \<Longrightarrow> rr_offset r1 = length data"
    and "rr_status r1 = ReadOk \<or> is_truncated (rr_status r1) \<Longrightarrow> small_frames (drop (rr_offset r1) data @ ys)
      \<and> rr_bad_type r1 = rr_bad_type r \<and> rr_expected_length r1 = rr_expected_length r
      \<and> (rr_status r1 \<noteq> TruncatedMessage \<longrightarrow> rr_declared_length r1 = rr_declared_length r)"
    and "is_truncated (rr_status r1) \<Longrightarrow> rr_offset r1 < length data \<and> length data \<le> rr_offset r1 + 63"
proof -
  have "(rr_status r1 = ReadOk \<longrightarrow> rr_offset r1 = length data) \<and>
     (rr_status r1 = ReadOk \<or> is_truncated (rr_status r1) \<longrightarrow> small_frames (drop (rr_offset r1) data @ ys)
      \<and> rr_bad_type r1 = rr_bad_type r \<and> rr_expected_length r1 = rr_expected_length r
      \<and> (rr_status r1 \<noteq> TruncatedMessage \<longrightarrow> rr_declared_length r1 = rr_declared_length r)) \<and>
     (is_truncated (rr_status r1) \<longrightarrow> rr_offset r1 < length data \<and> length data \<le> rr_offset r1 + 63)"
    using assms
  proof (induction data arbitrary: r s r1 rule: measure_induct_rule [of length])
    case (less data)
    define len where "len = unat (the (be16 data 0))"
    have len': "2 \<le> length data \<Longrightarrow> unat (the (be16 (data @ ys) 0)) = len" using be16_prefix [of data ys] by (simp add: len_def)
    have short: "2 \<le> length data \<Longrightarrow> len \<le> 62" using less.prems(3) len' by (subst (asm) small_frames.simps) (auto simp: Let_def)
    show ?case
    proof (cases "length data < 2 \<or> len = 0 \<or> length data < 2 + len
        \<or> (message_length (data ! 2) \<noteq> 0 \<and> message_length (data ! 2) \<noteq> len)")
      case True
      then show ?thesis
        using less.prems short unfolding framed_unfold [of data] Let_def len_def [symmetric]
        by (auto simp: is_truncated_def split: if_splits)
    next
      case False
      obtain s2 r2 where "h (take len (drop 2 data)) len s = Some s2"
        and r2: "framed_loop (drop (2 + len) data) h 0 (r\<lparr>rr_messages := rr_messages r + 1\<rparr>) s2 = Some (r2, s1)"
        and r1: "r1 = r2\<lparr>rr_offset := rr_offset r2 + (2 + len)\<rparr>"
        using less.prems(1) unfolding framed_unfold_message [OF False [unfolded len_def] len_def]
        by (auto simp: shift_offset_def split: option.splits)
      have sm: "small_frames (drop (2 + len) data @ ys)"
        using less.prems(3) False len' by (subst (asm) small_frames.simps) (auto simp: Let_def)
      have "length (drop (2 + len) data) < length data" using False by auto
      from less.IH [OF this r2 _ sm] less.prems(2) show ?thesis
        using False by (auto simp: r1 add.commute)
    qed
  qed
  then show "rr_status r1 = ReadOk \<Longrightarrow> rr_offset r1 = length data"
    and "rr_status r1 = ReadOk \<or> is_truncated (rr_status r1) \<Longrightarrow> small_frames (drop (rr_offset r1) data @ ys)
      \<and> rr_bad_type r1 = rr_bad_type r \<and> rr_expected_length r1 = rr_expected_length r
      \<and> (rr_status r1 \<noteq> TruncatedMessage \<longrightarrow> rr_declared_length r1 = rr_declared_length r)"
    and "is_truncated (rr_status r1) \<Longrightarrow> rr_offset r1 < length data \<and> length data \<le> rr_offset r1 + 63"
    by blast+
qed

text \<open>The stream is the walk over the whole file.\<close>

lemma stream_loop_walk:
  assumes "0 < chunk_bytes" and "length buf \<le> 63" and "small_frames (buf @ input)"
    and "tot = recount n k read_result_default" and "buf = [] \<longrightarrow> k = consumed"
  shows "stream_loop chunk_bytes h input buf consumed tot s = shift_offset consumed (framed_loop (buf @ input) h 0 tot s)"
  using assms(2-)
proof (induction input arbitrary: buf consumed tot n k s rule: measure_induct_rule [of length])
  case (less input)
  define got where "got = min chunk_bytes (length input)"
  define now where "now = buf @ take got input"
  define rest where "rest = drop got input"
  have whole: "buf @ input = now @ rest" by (simp add: now_def rest_def)
  have tot: "rr_status tot = ReadOk" by (simp add: less.prems(3) recount_def read_result_default_def)
  have room: "\<not> length buf + got > chunk_bytes + 64" using less.prems(1) by (simp add: got_def)
  note unf = stream_loop.simps [of chunk_bytes h input buf consumed tot s, unfolded Let_def, folded got_def, folded now_def rest_def]
  show ?case
  proof (cases "now = []")
    case True
    then have "buf = []" "input = []" using assms(1) by (auto simp: now_def got_def min_def split: if_splits)
    then show ?thesis using True room less.prems(3,4) unf by (subst framed_unfold) (auto simp: recount_def)
  next
    case False
    define walk where "walk = for_each_framed_message now h s"
    have res: "framed_loop now h 0 tot s = map_option (\<lambda>(r1, s1). (recount n (rr_offset r1) r1, s1)) walk"
      by (simp add: walk_def for_each_framed_message_def less.prems(3) framed_recount)
    note app = framed_append [OF refl tot, of now rest h s, folded whole]
    show ?thesis
    proof (cases walk)
      case None
      then show ?thesis using False room unf app res by (simp add: walk_def)
    next
      case (Some p)
      then obtain r s1 where p: "walk = Some (r, s1)" by (cases p) auto
      have r: "framed_loop now h 0 read_result_default s = Some (r, s1)"
        using p by (simp add: walk_def for_each_framed_message_def)
      note cut = framed_cut [OF r _ less.prems(2) [unfolded whole]]
      have d: "rr_status read_result_default = ReadOk" by (simp add: read_result_default_def)
      let ?tot = "tot\<lparr>rr_messages := rr_messages tot + rr_messages r\<rparr>"
      have more: "rest \<noteq> [] \<or> \<not> got < chunk_bytes \<Longrightarrow> length rest < length input"
        using assms(1) by (auto simp: got_def rest_def)
      have last: "got < chunk_bytes \<Longrightarrow> rest = []" by (auto simp: got_def rest_def)
      have stop: "rr_status r = ReadOk \<longrightarrow> rr_offset r = length now" using cut(1) d by blast
      have shape: "rr_status r = ReadOk \<or> is_truncated (rr_status r) \<Longrightarrow>
          rr_bad_type r = rr_bad_type read_result_default \<and> rr_expected_length r = rr_expected_length read_result_default
          \<and> (rr_status r \<noteq> TruncatedMessage \<longrightarrow> rr_declared_length r = rr_declared_length read_result_default)"
        using cut(2) d by blast
      have sum: "resumed tot (recount n j r) = recount (rr_messages r + n) k read_result_default"
        "?tot = recount (rr_messages r + n) k read_result_default" for j
        by (simp_all add: less.prems(3) recount_def resumed_def read_result_default_def)
      have any: "framed_loop xs h 0 (recount a i read_result_default) s1 = framed_loop xs h 0 (recount a j read_result_default) s1"
        for xs a i j by (simp only: framed_recount)
      have st: "rr_status (recount n j r) = rr_status r" "rr_offset (recount n j r) = j" for j by (simp_all add: recount_def)
      consider (ok) "rr_status r = ReadOk" | (cut) "is_truncated (rr_status r)"
        | (bad) "rr_status r \<noteq> ReadOk" "\<not> is_truncated (rr_status r)" by blast
      then show ?thesis
      proof cases
        case ok
        let ?k = "consumed + length now"
        have tot': "?tot\<lparr>rr_offset := ?k\<rparr> = recount (rr_messages r + n) ?k read_result_default"
          by (simp add: sum(2)) (simp add: recount_def)
        have R: "framed_loop (buf @ input) h 0 tot s
            = shift_offset (length now) (framed_loop rest h 0 (recount (rr_messages r + n) ?k read_result_default) s1)"
          using app res p ok stop any [of rest _ k ?k] by (simp add: st sum(1))
        show ?thesis
        proof (cases "got < chunk_bytes")
          case True
          then have "stream_loop chunk_bytes h input buf consumed tot s = Some (?tot\<lparr>rr_offset := ?k\<rparr>, s1)"
            using unf False room p ok by (simp add: walk_def)
          then show ?thesis unfolding R last [OF True] tot' by (subst framed_unfold) (simp add: recount_def)
        next
          case go: False
          have "small_frames ([] @ rest)" using cut(2) d ok stop by auto
          then have "stream_loop chunk_bytes h rest [] ?k (recount (rr_messages r + n) ?k read_result_default) s1
              = shift_offset ?k (framed_loop rest h 0 (recount (rr_messages r + n) ?k read_result_default) s1)"
            using less.IH [OF more [OF disjI2 [OF go]] _ _ refl, of "[]" ?k ?k] by simp
          then show ?thesis using unf False room p ok go tot' unfolding R by (simp add: walk_def add.commute)
        qed
      next
        case cut: cut
        have R: "framed_loop (buf @ input) h 0 tot s = shift_offset (rr_offset r)
            (framed_loop (drop (rr_offset r) now @ rest) h 0 (recount (rr_messages r + n) k read_result_default) s1)"
          using app res p cut by (simp add: st sum(1))
        show ?thesis
        proof (cases "got < chunk_bytes")
          case True
          then have "framed_loop (buf @ input) h 0 tot s = Some (recount n (rr_offset r) r, s1)"
            using res p last whole by simp
          then show ?thesis
            using unf False room p cut True shape
            by - (cases r, auto simp: walk_def is_truncated_def less.prems(3) recount_def read_result_default_def)
        next
          case go: False
          let ?frag = "drop (rr_offset r) now"
          have f: "length ?frag \<le> 63" "?frag \<noteq> []" "small_frames (?frag @ rest)"
            using framed_cut(2,3) [OF r d less.prems(2) [unfolded whole]] cut by auto
          have "stream_loop chunk_bytes h rest ?frag (consumed + rr_offset r) ?tot s1 = shift_offset (consumed + rr_offset r)
              (framed_loop (?frag @ rest) h 0 ?tot s1)"
            using f by (intro less.IH [OF more [OF disjI2 [OF go]], of _ _ "rr_messages r + n" k] sum(2)) auto
          moreover have "rr_status r \<noteq> ReadOk" using cut by (auto simp: is_truncated_def)
          ultimately show ?thesis using unf False room p cut go unfolding R sum(2) [symmetric] by (simp add: walk_def add.commute)
        qed
      next
        case bad
        have "framed_loop (buf @ input) h 0 tot s = Some (recount n (rr_offset r) r, s1)"
          using app res p bad by (simp add: st)
        then show ?thesis using unf False room p bad
          by (auto simp: walk_def less.prems(3) recount_def read_result_default_def)
      qed
    qed
  qed
qed

subsection \<open>Two handlers in step\<close>

lemma framed_sim:
  assumes step: "\<And>m s t k. message_ok m \<Longrightarrow> S k s t \<Longrightarrow> k < N \<Longrightarrow>
      \<exists>s' t'. h1 m (length m) s = Some s' \<and> h2 m (length m) t = Some t' \<and> S (Suc k) s' t'"
    and "S k s t" and "k + length data \<le> N"
  shows "\<exists>r' s' t' k'. framed_loop data h1 0 r s = Some (r', s') \<and> framed_loop data h2 0 r t = Some (r', t') \<and> S k' s' t'
    \<and> k' \<le> k + length data"
  using assms(2-)
proof (induction data arbitrary: k r s t rule: measure_induct_rule [of length])
  case (less data)
  define len where "len = unat (the (be16 data 0))"
  show ?case
  proof (cases "length data < 2 \<or> len = 0 \<or> length data < 2 + len
      \<or> (message_length (data ! 2) \<noteq> 0 \<and> message_length (data ! 2) \<noteq> len)")
    case True
    then have "\<exists>r'. framed_loop data h1 0 r s = Some (r', s) \<and> framed_loop data h2 0 r t = Some (r', t)"
      unfolding framed_unfold [of data] Let_def len_def [symmetric] by auto
    then show ?thesis using less.prems(1) by (meson le_add1)
  next
    case False
    note unf = framed_unfold_message [OF False [unfolded len_def] len_def]
    let ?m = "take len (drop 2 data)" and ?ys = "drop (2 + len) data"
    have m: "length ?m = len" "?m \<noteq> []" "hd ?m = data ! 2" using False by (auto simp: hd_conv_nth)
    have "len < 2 ^ 16" unfolding len_def using unsigned_less [of "the (be16 data 0)", where ?'a = nat] by simp
    then have ok: "message_ok ?m" using False m by (auto simp: message_ok_def)
    have ys: "length ?ys < length data" "Suc (k + length ?ys) \<le> k + length data" using False by auto
    obtain s' t' where st: "h1 ?m len s = Some s'" "h2 ?m len t = Some t'" "S (Suc k) s' t'"
      using step [OF ok less.prems(1)] less.prems(2) ys m(1) by fastforce
    have "Suc k + length ?ys \<le> N" using ys(2) less.prems(2) by simp
    from less.IH [OF ys(1) st(3) this, of "r\<lparr>rr_messages := rr_messages r + 1\<rparr>"]
    obtain r' s2 t2 k' where "framed_loop ?ys h1 0 (r\<lparr>rr_messages := rr_messages r + 1\<rparr>) s' = Some (r', s2)"
      "framed_loop ?ys h2 0 (r\<lparr>rr_messages := rr_messages r + 1\<rparr>) t' = Some (r', t2)" "S k' s2 t2" "k' \<le> Suc k + length ?ys"
      by blast
    then show ?thesis using st ys(2) unfolding unf by fastforce
  qed
qed

text \<open>A walk stops only where no complete message follows.\<close>

lemma frame_goes_on:
  assumes "message_ok m" and "data = frame m @ ys"
  shows "\<not> (length data < 2 \<or> unat (the (be16 data 0)) = 0 \<or> length data < 2 + unat (the (be16 data 0))
      \<or> (message_length (data ! 2) \<noteq> 0 \<and> message_length (data ! 2) \<noteq> unat (the (be16 data 0))))"
proof -
  have m: "m \<noteq> []" "length m < 2 ^ 16" "message_length (hd m) = 0 \<or> message_length (hd m) = length m"
    using assms(1) by (auto simp: message_ok_def)
  have "unat (the (be16 data 0)) = length m"
    using m(2) by (simp add: assms(2) frame_def read_simps unsigned_of_nat take_bit_nat_eq_self)
  moreover have "data ! 2 = hd m" using m(1) by (simp add: assms(2) frame_def nth_append hd_conv_nth)
  ultimately show ?thesis using m by (auto simp: assms(2))
qed

lemma framed_maximal:
  assumes "framed_loop data h 0 r s = Some (r', s')" and "message_ok m"
  shows "drop (rr_offset r') data \<noteq> frame m @ ys"
  using assms(1)
proof (induction data arbitrary: r s r' rule: measure_induct_rule [of length])
  case (less data)
  define len where "len = unat (the (be16 data 0))"
  show ?case
  proof (cases "length data < 2 \<or> len = 0 \<or> length data < 2 + len
      \<or> (message_length (data ! 2) \<noteq> 0 \<and> message_length (data ! 2) \<noteq> len)")
    case True
    then have "rr_offset r' = 0"
      using less.prems unfolding framed_unfold [of data] Let_def len_def [symmetric] by (auto split: if_splits)
    then show ?thesis using frame_goes_on [OF assms(2), of data ys] True by (auto simp: len_def)
  next
    case False
    obtain s2 r2 where r2: "framed_loop (drop (2 + len) data) h 0 (r\<lparr>rr_messages := rr_messages r + 1\<rparr>) s2 = Some (r2, s')"
      and r': "r' = r2\<lparr>rr_offset := rr_offset r2 + (2 + len)\<rparr>"
      using less.prems unfolding framed_unfold_message [OF False [unfolded len_def] len_def]
      by (auto simp: shift_offset_def split: option.splits)
    have "length (drop (2 + len) data) < length data" using False by auto
    from less.IH [OF this r2] show ?thesis by (simp add: r' add.commute)
  qed
qed

text \<open>Reading a whole file in chunks.\<close>

lemma stream_whole:
  assumes "0 < chunk_bytes" and "small_frames file"
  shows "for_each_framed_stream (Some file) h chunk_bytes s = for_each_framed_message file h s"
proof -
  have "read_result_default = recount 0 0 read_result_default" by (simp add: recount_def read_result_default_def)
  from stream_loop_walk [OF assms(1) _ _ this, of "[]" "file" 0 h s] assms(2) show ?thesis
    by (simp add: for_each_framed_stream_def for_each_framed_message_def)
qed

text \<open>A walk whose handler copes with every message it can get ends.\<close>

lemma framed_total:
  assumes "\<And>m s. message_ok m \<Longrightarrow> h m (length m) s \<noteq> None"
  shows "\<exists>r s'. for_each_framed_message data h s = Some (r, s')"
proof -
  have "\<exists>r s' t' k. framed_loop data h 0 read_result_default s = Some (r, s') \<and> framed_loop data h 0 read_result_default s = Some (r, t')
      \<and> True \<and> k \<le> 0 + length data"
    using assms by (intro framed_sim [where S = "\<lambda>_ _ _. True" and N = "length data"]; simp)
  then show ?thesis unfolding for_each_framed_message_def by blast
qed

end
