(* ===== verification/Op.thy ===== *)
theory Op
  imports BookObserve
begin

text \<open>
  Book operations as values (\<^verbatim>\<open>include/pricetime/op.hpp\<close>) and their dispatch to the entry points of a
  book.  An operation is one of the calls of \<open>book_op\<close>, so everything proved of runs of calls holds
  of streams of operations.
\<close>

datatype OpType = AddLimit | AddIoc | AddFok | AddMarket | OpCancel | OpReplace

record Op =
  op_type :: OpType
  op_side :: Side
  op_id :: OrderId
  op_new_id :: OrderId
  op_price :: Price
  op_qty :: Qty

definition op_default :: Op where
  "op_default = \<lparr>op_type = AddLimit, op_side = Bid, op_id = 0, op_new_id = 0, op_price = 0, op_qty = 0\<rparr>"

definition apply_op :: "('l, 'm) policy \<Rightarrow> Op \<Rightarrow> ('l, 'm) OrderBook \<Rightarrow> ('l, 'm) outcome" where
  "apply_op P x b =
     (case op_type x of
        AddLimit \<Rightarrow> add_limit P (op_id x) (op_side x) (op_price x) (op_qty x) b
      | AddIoc \<Rightarrow> add_ioc P (op_id x) (op_side x) (op_price x) (op_qty x) b
      | AddFok \<Rightarrow> add_fok P (op_id x) (op_side x) (op_price x) (op_qty x) b
      | AddMarket \<Rightarrow> add_market P (op_id x) (op_side x) (op_qty x) b
      | OpCancel \<Rightarrow> do { (r, b) \<leftarrow> cancel P (op_id x) b; Some (r, [], b) }
      | OpReplace \<Rightarrow> replace P (op_id x) (op_new_id x) (op_price x) (op_qty x) b)"

text \<open>The call an operation is.\<close>

definition op_call :: "Op \<Rightarrow> book_op" where
  "op_call x =
     (case op_type x of
        AddLimit \<Rightarrow> LimitOp 0 (op_id x) (op_side x) (op_price x) (op_qty x)
      | AddIoc \<Rightarrow> IocOp 0 (op_id x) (op_side x) (op_price x) (op_qty x)
      | AddFok \<Rightarrow> FokOp 0 (op_id x) (op_side x) (op_price x) (op_qty x)
      | AddMarket \<Rightarrow> MarketOp 0 (op_id x) (op_side x) (op_qty x)
      | OpCancel \<Rightarrow> CancelOp (op_id x)
      | OpReplace \<Rightarrow> ReplaceOp (op_id x) (op_new_id x) (op_price x) (op_qty x))"

lemma book_step_op:
  "book_step P (op_call x) b = do { (r, xs, b) \<leftarrow> apply_op P x b; Some ((r, xs, 0), b) }"
  by (cases "op_type x")
    (auto simp: op_call_def apply_op_def add_limit_def add_ioc_def add_fok_def add_market_def split: bind_splits)

fun apply_ops :: "('l, 'm) policy \<Rightarrow> Op list \<Rightarrow> ('l, 'm) OrderBook \<Rightarrow> ((Result \<times> Execution list) list \<times> ('l, 'm) OrderBook) option" where
  "apply_ops P [] b = Some ([], b)"
| "apply_ops P (x # xs) b = do {
     (r, es, b) \<leftarrow> apply_op P x b;
     (rs, b) \<leftarrow> apply_ops P xs b;
     Some ((r, es) # rs, b) }"

lemma book_run_ops:
  "book_run P (map op_call xs) b = map_option (\<lambda>(rs, b). (map (\<lambda>(r, es). (r, es, 0)) rs, b)) (apply_ops P xs b)"
proof (induction xs arbitrary: b)
  case (Cons x xs)
  then show ?case
    by (auto simp: book_step_op split: bind_splits)
qed simp

end
