(* ===== verification/MultiBook.thy ===== *)
theory MultiBook
  imports Op Itch OpenAddressMap
begin

text \<open>
  One book per symbol behind one index from order ids to books
  (\<^verbatim>\<open>include/pricetime/multi_book.hpp\<close>).  Books never move, so a \<^verbatim>\<open>BookType*\<close> is named by its symbol.
  The books are an association list in the order of their creation; the arguments \<open>P\<close> and \<open>l\<close>, the
  policy and the empty ladder, are what \<^verbatim>\<open>make_book_\<close> closes over.
\<close>

record ('l, 'm) MultiBook =
  mb_books :: "(Symbol \<times> ('l, 'm) OrderBook) list"
  mb_owner :: "Symbol OpenMap"

definition mb_new :: "('l, 'm) MultiBook option" where
  "mb_new = do { ow \<leftarrow> om_new; Some \<lparr>mb_books = [], mb_owner = ow\<rparr> }"

text \<open>\<^verbatim>\<open>book\<close>, \<^verbatim>\<open>find\<close> and what a caller does through the reference it gets.\<close>

definition mb_book ::
  "('l, 'm) policy \<Rightarrow> 'l \<Rightarrow> Symbol \<Rightarrow> ('l, 'm) MultiBook \<Rightarrow> (('l, 'm) OrderBook \<times> ('l, 'm) MultiBook) option" where
  "mb_book P l s M =
     (case map_of (mb_books M) s of
        Some b \<Rightarrow> Some (b, M)
      | None \<Rightarrow> do { b \<leftarrow> book_new P l; Some (b, M\<lparr>mb_books := mb_books M @ [(s, b)]\<rparr>) })"

definition mb_find :: "Symbol \<Rightarrow> ('l, 'm) MultiBook \<Rightarrow> ('l, 'm) OrderBook option" where
  "mb_find s M = map_of (mb_books M) s"

definition mb_update :: "Symbol \<Rightarrow> ('l, 'm) OrderBook \<Rightarrow> ('l, 'm) MultiBook \<Rightarrow> ('l, 'm) MultiBook" where
  "mb_update s b M = M\<lparr>mb_books := map (\<lambda>(t, c). (t, if t = s then b else c)) (mb_books M)\<rparr>"

definition mb_symbol_count :: "('l, 'm) MultiBook \<Rightarrow> nat" where
  "mb_symbol_count M = length (mb_books M)"

definition mb_symbols :: "('l, 'm) MultiBook \<Rightarrow> Symbol list" where
  "mb_symbols M = map fst (mb_books M)"

definition mb_book_for_order :: "OrderId \<Rightarrow> ('l, 'm) MultiBook \<Rightarrow> Symbol option option" where
  "mb_book_for_order oid M = om_find (mb_owner M) oid"

definition mb_note_order :: "OrderId \<Rightarrow> Symbol \<Rightarrow> ('l, 'm) MultiBook \<Rightarrow> ('l, 'm) MultiBook option" where
  "mb_note_order oid s M = do { (_, ow) \<leftarrow> om_insert (mb_owner M) oid s; Some (M\<lparr>mb_owner := ow\<rparr>) }"

definition mb_forget_order :: "OrderId \<Rightarrow> ('l, 'm) MultiBook \<Rightarrow> ('l, 'm) MultiBook option" where
  "mb_forget_order oid M = do { (_, ow) \<leftarrow> om_erase (mb_owner M) oid; Some (M\<lparr>mb_owner := ow\<rparr>) }"

definition mb_tracked_orders :: "('l, 'm) MultiBook \<Rightarrow> nat" where
  "mb_tracked_orders M = om_size (mb_owner M)"

definition mb_for_each_book :: "(Symbol \<Rightarrow> ('l, 'm) OrderBook \<Rightarrow> 's \<Rightarrow> 's) \<Rightarrow> ('l, 'm) MultiBook \<Rightarrow> 's \<Rightarrow> 's" where
  "mb_for_each_book f M = fold (\<lambda>(s, b). f s b) (mb_books M)"

subsection \<open>The specification\<close>

text \<open>Specification books behind a partial map.\<close>

record AMulti =
  am_books :: "(Symbol \<times> ABook) list"
  am_owner :: "OrderId \<rightharpoonup> Symbol"

definition amulti_new :: AMulti where
  "amulti_new = \<lparr>am_books = [], am_owner = Map.empty\<rparr>"

definition am_book :: "Symbol \<Rightarrow> AMulti \<Rightarrow> ABook \<times> AMulti" where
  "am_book s A =
     (case map_of (am_books A) s of
        Some B \<Rightarrow> (B, A)
      | None \<Rightarrow> (abook_new, A\<lparr>am_books := am_books A @ [(s, abook_new)]\<rparr>))"

definition am_update :: "Symbol \<Rightarrow> ABook \<Rightarrow> AMulti \<Rightarrow> AMulti" where
  "am_update s B A = A\<lparr>am_books := map (\<lambda>(t, C). (t, if t = s then B else C)) (am_books A)\<rparr>"

definition am_note :: "OrderId \<Rightarrow> Symbol \<Rightarrow> AMulti \<Rightarrow> AMulti" where
  "am_note oid s A = (if am_owner A oid = None then A\<lparr>am_owner := (am_owner A)(oid \<mapsto> s)\<rparr> else A)"

definition am_forget :: "OrderId \<Rightarrow> AMulti \<Rightarrow> AMulti" where
  "am_forget oid A = A\<lparr>am_owner := (am_owner A)(oid := None)\<rparr>"

text \<open>The books implement theirs, and hold at most \<open>n\<close> orders.\<close>

definition books_sim :: "('l, 'm) policy \<Rightarrow> (Price \<Rightarrow> bool) \<Rightarrow> nat \<Rightarrow> (Symbol \<times> ('l, 'm) OrderBook) list \<Rightarrow> (Symbol \<times> ABook) list \<Rightarrow> bool" where
  "books_sim P V n = list_all2 (\<lambda>(s, b) (t, B). s = t \<and> implements P V b B \<and> pol_size P (bk_orders b) \<le> n)"

definition multi_sim :: "('l, 'm) policy \<Rightarrow> 'l \<Rightarrow> nat \<Rightarrow> ('l, 'm) MultiBook \<Rightarrow> AMulti \<Rightarrow> bool" where
  "multi_sim P l n M A \<longleftrightarrow> books_sim P (pol_valid_price P l) n (mb_books M) (am_books A)
     \<and> om_inv (mb_owner M) \<and> om_lookup (mb_owner M) = am_owner A \<and> card (dom (am_owner A)) \<le> n"

lemma books_simD:
  assumes "books_sim P V n bs As"
  shows "map_of bs s = None \<Longrightarrow> map_of As s = None"
    and "map_of bs s = Some b \<Longrightarrow> \<exists>B. map_of As s = Some B \<and> implements P V b B \<and> pol_size P (bk_orders b) \<le> n"
    and "map_of As s = Some B \<Longrightarrow> \<exists>b. map_of bs s = Some b \<and> implements P V b B \<and> pol_size P (bk_orders b) \<le> n"
  using assms unfolding books_sim_def by (induction bs As rule: list_all2_induct) (auto split: if_splits)

lemma books_sim_mono: "books_sim P V n bs As \<Longrightarrow> n \<le> m \<Longrightarrow> books_sim P V m bs As"
  unfolding books_sim_def by (erule list_all2_mono) auto

lemma multi_sim_mono: "multi_sim P l n M A \<Longrightarrow> n \<le> m \<Longrightarrow> multi_sim P l m M A"
  by (auto simp: multi_sim_def intro: books_sim_mono)

lemma mb_new_sim: "\<exists>M. mb_new = Some M \<and> multi_sim P l 0 M amulti_new"
proof -
  obtain ow :: "Symbol OpenMap" where ow: "om_new = Some ow" "om_inv ow" "om_lookup ow = Map.empty" using open_map.new_law by blast
  then have "mb_new = Some \<lparr>mb_books = [], mb_owner = ow\<rparr> \<and> multi_sim P l 0 \<lparr>mb_books = [], mb_owner = ow\<rparr> amulti_new"
    unfolding mb_new_def ow(1) by (simp add: multi_sim_def amulti_new_def books_sim_def)
  then show ?thesis by blast
qed

lemma mb_book_sim:
  assumes "lawful P l" and "multi_sim P l n M A"
  shows "\<exists>b M'. mb_book P l s M = Some (b, M') \<and> multi_sim P l n M' (snd (am_book s A))
    \<and> implements P (pol_valid_price P l) b (fst (am_book s A)) \<and> pol_size P (bk_orders b) \<le> n"
proof (cases "map_of (mb_books M) s")
  case None
  obtain b0 b where "book_new P l = Some b0" "implements P (pol_valid_price P l) b0 abook_new" "pol_size P (bk_orders b0) = 0"
    using lawful_run [OF assms(1), of "[]"] by auto
  moreover have "map_of (am_books A) s = None" using None assms(2) books_simD(1) unfolding multi_sim_def by blast
  ultimately show ?thesis using None assms(2)
    by (auto simp: mb_book_def am_book_def multi_sim_def books_sim_def intro: list_all2_appendI)
next
  case (Some b)
  then obtain B where "map_of (am_books A) s = Some B" "implements P (pol_valid_price P l) b B" "pol_size P (bk_orders b) \<le> n"
    using assms(2) books_simD(2) unfolding multi_sim_def by blast
  then show ?thesis using Some assms(2) by (simp add: mb_book_def am_book_def)
qed

lemma mb_find_sim:
  assumes "multi_sim P l n M A" and "map_of (am_books A) s = Some B"
  shows "\<exists>b. mb_find s M = Some b \<and> implements P (pol_valid_price P l) b B \<and> pol_size P (bk_orders b) \<le> n"
  using assms books_simD(3) unfolding multi_sim_def mb_find_def by blast

lemma mb_update_sim:
  assumes "multi_sim P l n M A" and "implements P (pol_valid_price P l) b B" and "pol_size P (bk_orders b) \<le> n"
  shows "multi_sim P l n (mb_update s b M) (am_update s B A)"
  using assms unfolding multi_sim_def books_sim_def mb_update_def am_update_def
  by (auto simp: list_all2_map1 list_all2_map2 elim!: list_all2_mono)

lemma mb_route_sim: "multi_sim P l n M A \<Longrightarrow> mb_book_for_order oid M = Some (am_owner A oid)"
  using open_map.find_law [of "mb_owner M" oid] by (auto simp: multi_sim_def mb_book_for_order_def)

lemma owner_nonzero: "multi_sim P l n M A \<Longrightarrow> am_owner A oid = Some s \<Longrightarrow> oid \<noteq> 0"
  using open_map.lookup_0 [of "mb_owner M"] by (fastforce simp: multi_sim_def)

lemma mb_note_sim:
  assumes "multi_sim P l n M A" and "oid \<noteq> 0" and "n < 2 ^ 40"
  shows "\<exists>M'. mb_note_order oid s M = Some M' \<and> multi_sim P l (Suc n) M' (am_note oid s A)"
proof -
  have M: "books_sim P (pol_valid_price P l) (Suc n) (mb_books M) (am_books A)" "om_inv (mb_owner M)"
    "om_lookup (mb_owner M) = am_owner A" "card (dom (am_owner A)) \<le> n"
    using assms(1) books_sim_mono [OF _ le_SucI [OF order_refl]] by (auto simp: multi_sim_def)
  have c: "om_size (mb_owner M) < 2 ^ 40" using open_map.count_law [OF M(2)] M(3,4) assms(3) by simp
  obtain ow where "om_insert (mb_owner M) oid s = Some (am_owner A oid = None, ow)" "om_inv ow"
    "om_lookup ow = (if am_owner A oid = None then (am_owner A)(oid \<mapsto> s) else am_owner A)"
    using open_map.insert_law [OF M(2) assms(2) c, of s] unfolding M(3) by blast
  moreover have "card (insert oid (dom (am_owner A))) \<le> Suc n"
    using M(4) card_insert_le_m1 [of "Suc n" "dom (am_owner A)" oid] by simp
  ultimately show ?thesis using M(1,4) by (auto simp: mb_note_order_def multi_sim_def am_note_def)
qed

lemma mb_forget_sim:
  assumes "multi_sim P l n M A" and "oid \<noteq> 0"
  shows "\<exists>M'. mb_forget_order oid M = Some M' \<and> multi_sim P l n M' (am_forget oid A)"
proof -
  have M: "books_sim P (pol_valid_price P l) n (mb_books M) (am_books A)" "om_inv (mb_owner M)"
    "om_lookup (mb_owner M) = am_owner A" "card (dom (am_owner A)) \<le> n"
    using assms(1) by (auto simp: multi_sim_def)
  obtain ow where "om_erase (mb_owner M) oid = Some (am_owner A oid \<noteq> None, ow)" "om_inv ow"
    "om_lookup ow = (am_owner A)(oid := None)"
    using open_map.erase_law [OF M(2) assms(2)] unfolding M(3) by blast
  moreover have "finite (dom (am_owner A))" using open_map.finite_law [OF M(2)] M(3) by simp
  then have "card (dom (am_owner A) - {oid}) \<le> n" using M(4) by (meson card_Diff1_le le_trans)
  ultimately show ?thesis using M(1) by (auto simp: mb_forget_order_def multi_sim_def am_forget_def)
qed

text \<open>The calls a replay makes on a book.\<close>

lemma book_calls:
  assumes "implements P V b B" and "Suc (pol_size P (bk_orders b)) < 2 ^ 32"
  shows "\<exists>b'. insert_passive P oid s p q b = Some (fst (abs_insert_passive V oid s p q B), b')
      \<and> implements P V b' (snd (abs_insert_passive V oid s p q B)) \<and> pol_size P (bk_orders b') \<le> Suc (pol_size P (bk_orders b))"
    and "\<exists>b'. cancel P oid b = Some (fst (abs_cancel oid B), b') \<and> implements P V b' (snd (abs_cancel oid B))
      \<and> pol_size P (bk_orders b') \<le> Suc (pol_size P (bk_orders b))"
    and "\<exists>b'. execute_resting P oid q b = Some (fst (abs_consume oid q True B), fst (snd (abs_consume oid q True B)), b')
      \<and> implements P V b' (snd (snd (abs_consume oid q True B))) \<and> pol_size P (bk_orders b') \<le> Suc (pol_size P (bk_orders b))"
    and "\<exists>b'. reduce_resting P oid q b = Some (fst (abs_consume oid q False B), fst (snd (abs_consume oid q False B)), b')
      \<and> implements P V b' (snd (snd (abs_consume oid q False B))) \<and> pol_size P (bk_orders b') \<le> Suc (pol_size P (bk_orders b))"
  using implements_step [OF assms, of "PassiveOp oid s p q"] implements_step [OF assms, of "CancelOp oid"]
    implements_step [OF assms, of "ExecuteOp oid q"] implements_step [OF assms, of "ReduceOp oid q"]
  by (auto simp: split_beta Let_def split: bind_splits)

end
