(* ===== verification/ItchReplay.thy ===== *)
theory ItchReplay
  imports ItchStream MultiBook
begin

text \<open>
  The replay of a decoded ITCH stream into a book per symbol
  (\<^verbatim>\<open>include/pricetime/itch_replay.hpp\<close>).  The observer is the list of the calls it gets, oldest first.
  \<open>P\<close> and \<open>l\<close> are the policy and the empty ladder of the books.
\<close>

record ReplayStats =
  st_messages :: u64
  st_bytes :: u64
  st_adds :: u64
  st_executions :: u64
  st_cancels :: u64
  st_deletes :: u64
  st_replaces :: u64
  st_trades :: u64
  st_skipped_symbol :: u64
  st_unknown_reference :: u64
  st_clamped :: u64
  st_shares_added :: u64
  st_shares_executed :: u64
  st_last_timestamp :: u64
  st_session_state :: u8

definition stats_zero :: ReplayStats where
  "stats_zero = \<lparr>st_messages = 0, st_bytes = 0, st_adds = 0, st_executions = 0, st_cancels = 0,
     st_deletes = 0, st_replaces = 0, st_trades = 0, st_skipped_symbol = 0, st_unknown_reference = 0,
     st_clamped = 0, st_shares_added = 0, st_shares_executed = 0, st_last_timestamp = 0,
     st_session_state = ch CHR '' ''\<rparr>"

datatype observer_call =
    OnAdded OrderId Symbol Side Price Qty u64
  | OnReplaced OrderId OrderId Price Qty u64
  | OnReduced OrderId Qty bool u64
  | OnRemoved OrderId u64

text \<open>The template parameter \<^verbatim>\<open>Books\<close> is the type \<open>'b\<close>: the code's \<open>MultiBook\<close>, or its specification.\<close>

record 'b Replayer =
  rp_books :: 'b
  rp_filter :: "u64 set"
  rp_stats :: ReplayStats
  rp_calls :: "observer_call list"

definition replayer_new :: "'b \<Rightarrow> 'b Replayer" where
  "replayer_new M = \<lparr>rp_books = M, rp_filter = {}, rp_stats = stats_zero, rp_calls = []\<rparr>"

definition track_only :: "Symbol list \<Rightarrow> 'b Replayer \<Rightarrow> 'b Replayer" where
  "track_only ss R = R\<lparr>rp_filter := set (map symbol_bits ss)\<rparr>"

definition tracked :: "u64 set \<Rightarrow> Symbol \<Rightarrow> bool" where
  "tracked filt s \<longleftrightarrow> filt = {} \<or> symbol_bits s \<in> filt"

text \<open>Shorthands for the member updates the handlers share.\<close>

definition bump :: "(ReplayStats \<Rightarrow> ReplayStats) \<Rightarrow> 'b Replayer \<Rightarrow> 'b Replayer" where
  "bump f R = R\<lparr>rp_stats := f (rp_stats R)\<rparr>"

definition observe :: "observer_call \<Rightarrow> 'b Replayer \<Rightarrow> 'b Replayer" where
  "observe c R = R\<lparr>rp_calls := rp_calls R @ [c]\<rparr>"

definition forget_owner :: "OrderId \<Rightarrow> ('l, 'm) MultiBook Replayer \<Rightarrow> ('l, 'm) MultiBook Replayer option" where
  "forget_owner oid R = do { M \<leftarrow> mb_forget_order oid (rp_books R); Some (R\<lparr>rp_books := M\<rparr>) }"

definition note_owner :: "OrderId \<Rightarrow> Symbol \<Rightarrow> ('l, 'm) MultiBook Replayer \<Rightarrow> ('l, 'm) MultiBook Replayer option" where
  "note_owner oid s R = do { M \<leftarrow> mb_note_order oid s (rp_books R); Some (R\<lparr>rp_books := M\<rparr>) }"

text \<open>The book behind a pointer, and its state after a call.\<close>

definition at_book :: "Symbol \<Rightarrow> ('l, 'm) MultiBook Replayer \<Rightarrow> ('l, 'm) OrderBook option" where
  "at_book s R = mb_find s (rp_books R)"

definition put_book :: "Symbol \<Rightarrow> ('l, 'm) OrderBook \<Rightarrow> ('l, 'm) MultiBook Replayer \<Rightarrow> ('l, 'm) MultiBook Replayer" where
  "put_book s b R = R\<lparr>rp_books := mb_update s b (rp_books R)\<rparr>"

definition c_time :: "u64 \<Rightarrow> ReplayStats \<Rightarrow> ReplayStats" where
  "c_time ts st = st\<lparr>st_last_timestamp := ts\<rparr>"

definition c_unknown :: "ReplayStats \<Rightarrow> ReplayStats" where
  "c_unknown st = st\<lparr>st_unknown_reference := st_unknown_reference st + 1\<rparr>"

definition c_skipped :: "ReplayStats \<Rightarrow> ReplayStats" where
  "c_skipped st = st\<lparr>st_skipped_symbol := st_skipped_symbol st + 1\<rparr>"

definition c_add :: "Qty \<Rightarrow> ReplayStats \<Rightarrow> ReplayStats" where
  "c_add q st = st\<lparr>st_adds := st_adds st + 1, st_shares_added := st_shares_added st + ucast q\<rparr>"

definition c_clamp :: "Qty \<Rightarrow> Qty \<Rightarrow> ReplayStats \<Rightarrow> ReplayStats" where
  "c_clamp taken q st = (if taken < q then st\<lparr>st_clamped := st_clamped st + 1\<rparr> else st)"

definition c_execution :: "Qty \<Rightarrow> ReplayStats \<Rightarrow> ReplayStats" where
  "c_execution taken st =
     st\<lparr>st_executions := st_executions st + 1, st_shares_executed := st_shares_executed st + ucast taken\<rparr>"

definition c_cancel :: "ReplayStats \<Rightarrow> ReplayStats" where
  "c_cancel st = st\<lparr>st_cancels := st_cancels st + 1\<rparr>"

definition c_delete :: "ReplayStats \<Rightarrow> ReplayStats" where
  "c_delete st = st\<lparr>st_deletes := st_deletes st + 1\<rparr>"

definition c_replace :: "ReplayStats \<Rightarrow> ReplayStats" where
  "c_replace st = st\<lparr>st_replaces := st_replaces st + 1\<rparr>"

definition c_shares_added :: "Qty \<Rightarrow> ReplayStats \<Rightarrow> ReplayStats" where
  "c_shares_added q st = st\<lparr>st_shares_added := st_shares_added st + ucast q\<rparr>"

definition c_trade :: "ReplayStats \<Rightarrow> ReplayStats" where
  "c_trade st = st\<lparr>st_trades := st_trades st + 1\<rparr>"

definition c_session :: "u8 \<Rightarrow> ReplayStats \<Rightarrow> ReplayStats" where
  "c_session c st = st\<lparr>st_session_state := c\<rparr>"

definition c_message :: "nat \<Rightarrow> ReplayStats \<Rightarrow> ReplayStats" where
  "c_message len st = st\<lparr>st_messages := st_messages st + 1, st_bytes := st_bytes st + of_nat len\<rparr>"

subsection \<open>The handlers\<close>

definition on_add :: "('l, 'm) policy \<Rightarrow> 'l \<Rightarrow> AddOrder \<Rightarrow> ('l, 'm) MultiBook Replayer \<Rightarrow> ('l, 'm) MultiBook Replayer option" where
  "on_add P l m R =
     (let R = bump (c_time (ao_timestamp m)) R in
      if \<not> tracked (rp_filter R) (ao_symbol m) then Some (bump c_skipped R)
      else do {
        (b, M) \<leftarrow> mb_book P l (ao_symbol m) (rp_books R);
        let R = R\<lparr>rp_books := M\<rparr>;
        (r, b) \<leftarrow> insert_passive P (ao_reference m) (ao_side m) (ao_price m) (ao_shares m) b;
        let R = put_book (ao_symbol m) b R;
        if r = Ok then do {
          R \<leftarrow> note_owner (ao_reference m) (ao_symbol m) R;
          let R = bump (c_add (ao_shares m)) R;
          Some (observe (OnAdded (ao_reference m) (ao_symbol m) (ao_side m) (ao_price m) (ao_shares m) (ao_timestamp m)) R) }
        else Some R })"

text \<open>The common end of an execution and a partial cancel.\<close>

definition removed_if_gone ::
  "('l, 'm) policy \<Rightarrow> OrderId \<Rightarrow> u64 \<Rightarrow> Symbol \<Rightarrow> ('l, 'm) MultiBook Replayer \<Rightarrow> ('l, 'm) MultiBook Replayer option" where
  "removed_if_gone P oid ts s R = do {
     b \<leftarrow> at_book s R;
     o1 \<leftarrow> find_order P oid b;
     if o1 = None then do { R \<leftarrow> forget_owner oid R; Some (observe (OnRemoved oid ts) R) } else Some R }"

definition on_executed :: "('l, 'm) policy \<Rightarrow> OrderExecuted \<Rightarrow> ('l, 'm) MultiBook Replayer \<Rightarrow> ('l, 'm) MultiBook Replayer option" where
  "on_executed P m R =
     (let R = bump (c_time (oe_timestamp m)) R in do {
      s1 \<leftarrow> mb_book_for_order (oe_reference m) (rp_books R);
      case s1 of
        None \<Rightarrow> Some (bump c_unknown R)
      | Some s \<Rightarrow> do {
          b \<leftarrow> at_book s R;
          (_, taken, b) \<leftarrow> execute_resting P (oe_reference m) (oe_shares m) b;
          let R = put_book s b R;
          let R = bump (c_execution taken) (bump (c_clamp taken (oe_shares m)) R);
          let R = observe (OnReduced (oe_reference m) taken True (oe_timestamp m)) R;
          removed_if_gone P (oe_reference m) (oe_timestamp m) s R } })"

definition on_cancel :: "('l, 'm) policy \<Rightarrow> OrderCancel \<Rightarrow> ('l, 'm) MultiBook Replayer \<Rightarrow> ('l, 'm) MultiBook Replayer option" where
  "on_cancel P m R =
     (let R = bump (c_time (oc_timestamp m)) R in do {
      s1 \<leftarrow> mb_book_for_order (oc_reference m) (rp_books R);
      case s1 of
        None \<Rightarrow> Some (bump c_unknown R)
      | Some s \<Rightarrow> do {
          b \<leftarrow> at_book s R;
          (_, taken, b) \<leftarrow> reduce_resting P (oc_reference m) (oc_shares m) b;
          let R = put_book s b R;
          let R = bump c_cancel (bump (c_clamp taken (oc_shares m)) R);
          let R = observe (OnReduced (oc_reference m) taken False (oc_timestamp m)) R;
          removed_if_gone P (oc_reference m) (oc_timestamp m) s R } })"

definition on_delete :: "('l, 'm) policy \<Rightarrow> OrderDelete \<Rightarrow> ('l, 'm) MultiBook Replayer \<Rightarrow> ('l, 'm) MultiBook Replayer option" where
  "on_delete P m R =
     (let R = bump (c_time (od_timestamp m)) R in do {
      s1 \<leftarrow> mb_book_for_order (od_reference m) (rp_books R);
      case s1 of
        None \<Rightarrow> Some (bump c_unknown R)
      | Some s \<Rightarrow> do {
          b \<leftarrow> at_book s R;
          (_, b) \<leftarrow> cancel P (od_reference m) b;
          R \<leftarrow> forget_owner (od_reference m) (put_book s b R);
          Some (bump c_delete (observe (OnRemoved (od_reference m) (od_timestamp m)) R)) } })"

definition on_replace :: "('l, 'm) policy \<Rightarrow> OrderReplace \<Rightarrow> ('l, 'm) MultiBook Replayer \<Rightarrow> ('l, 'm) MultiBook Replayer option" where
  "on_replace P m R =
     (let R = bump (c_time (or_timestamp m)) R in do {
      s1 \<leftarrow> mb_book_for_order (or_original_reference m) (rp_books R);
      case s1 of
        None \<Rightarrow> Some (bump c_unknown R)
      | Some s \<Rightarrow> do {
          b \<leftarrow> at_book s R;
          o1 \<leftarrow> find_order P (or_original_reference m) b;
          case o1 of
            None \<Rightarrow> Some (bump c_unknown R)
          | Some original \<Rightarrow> do {
              let side = ord_side original;
              (_, b) \<leftarrow> cancel P (or_original_reference m) b;
              R \<leftarrow> forget_owner (or_original_reference m) (put_book s b R);
              (r, b) \<leftarrow> insert_passive P (or_new_reference m) side (or_price m) (or_shares m) b;
              let R = put_book s b R;
              R \<leftarrow> (if r = Ok then do {
                  R \<leftarrow> note_owner (or_new_reference m) s R;
                  let R = bump (c_shares_added (or_shares m)) R;
                  Some (observe (OnReplaced (or_original_reference m) (or_new_reference m) (or_price m) (or_shares m)
                    (or_timestamp m)) R) }
                else Some R);
              Some (bump c_replace R) } } })"

text \<open>\<^verbatim>\<open>Replayer::apply\<close>, the handler of the walks.\<close>

definition replay_apply :: "('l, 'm) policy \<Rightarrow> 'l \<Rightarrow> ('l, 'm) MultiBook Replayer handler" where
  "replay_apply P l msg len R =
     (let R = bump (c_message len) R in do {
      type \<leftarrow> rd msg 0;
      case msg_type type of
        Some MsgType.AddOrder \<Rightarrow> do { m \<leftarrow> decode_add_order msg; on_add P l m R }
      | Some AddOrderMpid \<Rightarrow> do { m \<leftarrow> decode_add_order msg; on_add P l m R }
      | Some MsgType.OrderExecuted \<Rightarrow> do { m \<leftarrow> decode_order_executed msg; on_executed P m R }
      | Some OrderExecutedWithPrice \<Rightarrow> do { m \<leftarrow> decode_order_executed msg; on_executed P m R }
      | Some MsgType.OrderCancel \<Rightarrow> do { m \<leftarrow> decode_order_cancel msg; on_cancel P m R }
      | Some MsgType.OrderDelete \<Rightarrow> do { m \<leftarrow> decode_order_delete msg; on_delete P m R }
      | Some MsgType.OrderReplace \<Rightarrow> do { m \<leftarrow> decode_order_replace msg; on_replace P m R }
      | Some TradeNonCross \<Rightarrow> do { ts \<leftarrow> be48 msg 5; Some (bump (c_time ts) (bump c_trade R)) }
      | Some MsgType.SystemEvent \<Rightarrow> do {
          ev \<leftarrow> decode_system_event msg;
          Some (bump (c_time (se_timestamp ev)) (bump (c_session (se_code ev)) R)) }
      | _ \<Rightarrow> Some R })"

end
