(* ===== verification/ReplayRefinement.thy ===== *)
theory ReplayRefinement
  imports ItchReplay MarketRules
begin

text \<open>
  The replay against its specification: the same handlers over specification books and a partial map
  of owners.  Every message of the right size is handled, whatever its content, and the books follow
  the specification.
\<close>

subsection \<open>Decoded messages\<close>

datatype feed_msg = FeedAdd AddOrder | FeedExecuted OrderExecuted | FeedCancel OrderCancel
  | FeedDelete OrderDelete | FeedReplace OrderReplace | FeedTrade u64 | FeedSystem SystemEvent | FeedOther

definition decode_feed :: "bytes \<Rightarrow> feed_msg option" where
  "decode_feed msg = do {
     type \<leftarrow> rd msg 0;
     case msg_type type of
       Some MsgType.AddOrder \<Rightarrow> map_option FeedAdd (decode_add_order msg)
     | Some AddOrderMpid \<Rightarrow> map_option FeedAdd (decode_add_order msg)
     | Some MsgType.OrderExecuted \<Rightarrow> map_option FeedExecuted (decode_order_executed msg)
     | Some OrderExecutedWithPrice \<Rightarrow> map_option FeedExecuted (decode_order_executed msg)
     | Some MsgType.OrderCancel \<Rightarrow> map_option FeedCancel (decode_order_cancel msg)
     | Some MsgType.OrderDelete \<Rightarrow> map_option FeedDelete (decode_order_delete msg)
     | Some MsgType.OrderReplace \<Rightarrow> map_option FeedReplace (decode_order_replace msg)
     | Some TradeNonCross \<Rightarrow> map_option FeedTrade (be48 msg 5)
     | Some MsgType.SystemEvent \<Rightarrow> map_option FeedSystem (decode_system_event msg)
     | _ \<Rightarrow> Some FeedOther }"

text \<open>A message the framing checks let through is decoded without leaving it.\<close>

lemma decode_feed_ok: "message_ok msg \<Longrightarrow> \<exists>m. decode_feed msg = Some m"
proof -
  assume ok: "message_ok msg"
  then have t: "rd msg 0 = Some (hd msg)" "msg ! 0 = hd msg" by (auto simp: message_ok_def rd_def hd_conv_nth)
  show ?thesis
  proof (cases "msg_type (hd msg)")
    case None
    then show ?thesis by (simp add: decode_feed_def t(1))
  next
    case (Some k)
    then have k: "hd msg = msg_char k" by (simp add: msg_type_Some)
    have len: "length msg = type_length k"
      using ok Some type_length_bounds(1) [of k] by (auto simp: message_ok_def message_length_def)
    note D = decoders_inside [of msg] fields_inside [of msg 5]
    show ?thesis
      by (cases k; use D len in \<open>simp add: decode_feed_def t msg_type_char k del: msg_char.simps; force simp: char_simps simp del: msg_char.simps\<close>)
  qed
qed

subsection \<open>The specification of a message\<close>

definition with_books :: "('b \<Rightarrow> 'b) \<Rightarrow> 'b Replayer \<Rightarrow> 'b Replayer" where
  "with_books f R = R\<lparr>rp_books := f (rp_books R)\<rparr>"

text \<open>Taking \<open>q\<close> off the order \<open>oid\<close> of the book of \<open>s\<close>.\<close>

definition abs_take ::
  "bool \<Rightarrow> OrderId \<Rightarrow> Qty \<Rightarrow> u64 \<Rightarrow> (Qty \<Rightarrow> ReplayStats \<Rightarrow> ReplayStats) \<Rightarrow> Symbol \<Rightarrow> ABook \<Rightarrow> AMulti Replayer \<Rightarrow> AMulti Replayer" where
  "abs_take is_exec oid q ts count s B A =
     (let (_, taken, B) = abs_consume oid q is_exec B;
          A = with_books (am_update s B) A;
          A = bump (count taken) (bump (c_clamp taken q) A);
          A = observe (OnReduced oid taken is_exec ts) A
      in if abs_find oid B = None then observe (OnRemoved oid ts) (with_books (am_forget oid) A) else A)"

definition abs_routed :: "OrderId \<Rightarrow> (Symbol \<Rightarrow> ABook \<Rightarrow> AMulti Replayer \<Rightarrow> AMulti Replayer) \<Rightarrow> AMulti Replayer \<Rightarrow> AMulti Replayer" where
  "abs_routed oid f A =
     (case am_owner (rp_books A) oid of
        None \<Rightarrow> bump c_unknown A
      | Some s \<Rightarrow> f s (the (map_of (am_books (rp_books A)) s)) A)"

definition abs_new_order ::
  "(Price \<Rightarrow> bool) \<Rightarrow> OrderId \<Rightarrow> Side \<Rightarrow> Price \<Rightarrow> Qty \<Rightarrow> (ReplayStats \<Rightarrow> ReplayStats) \<Rightarrow> observer_call \<Rightarrow> Symbol \<Rightarrow> ABook
   \<Rightarrow> AMulti Replayer \<Rightarrow> AMulti Replayer" where
  "abs_new_order V oid side p q count c s B A =
     (let (r, B) = abs_insert_passive V oid side p q B; A = with_books (am_update s B) A
      in if r = Ok then observe c (bump count (with_books (am_note oid s) A)) else A)"

fun abs_feed :: "(Price \<Rightarrow> bool) \<Rightarrow> feed_msg \<Rightarrow> AMulti Replayer \<Rightarrow> AMulti Replayer" where
  "abs_feed V (FeedAdd m) A =
     (let A = bump (c_time (ao_timestamp m)) A in
      if \<not> tracked (rp_filter A) (ao_symbol m) then bump c_skipped A
      else
        (let (B, M) = am_book (ao_symbol m) (rp_books A)
         in abs_new_order V (ao_reference m) (ao_side m) (ao_price m) (ao_shares m) (c_add (ao_shares m))
              (OnAdded (ao_reference m) (ao_symbol m) (ao_side m) (ao_price m) (ao_shares m) (ao_timestamp m))
              (ao_symbol m) B (with_books (\<lambda>_. M) A)))"
| "abs_feed V (FeedExecuted m) A = abs_routed (oe_reference m)
     (abs_take True (oe_reference m) (oe_shares m) (oe_timestamp m) c_execution) (bump (c_time (oe_timestamp m)) A)"
| "abs_feed V (FeedCancel m) A = abs_routed (oc_reference m)
     (abs_take False (oc_reference m) (oc_shares m) (oc_timestamp m) (\<lambda>_. c_cancel)) (bump (c_time (oc_timestamp m)) A)"
| "abs_feed V (FeedDelete m) A = abs_routed (od_reference m)
     (\<lambda>s B A. bump c_delete (observe (OnRemoved (od_reference m) (od_timestamp m))
        (with_books (am_forget (od_reference m)) (with_books (am_update s (snd (abs_cancel (od_reference m) B))) A))))
     (bump (c_time (od_timestamp m)) A)"
| "abs_feed V (FeedReplace m) A = abs_routed (or_original_reference m)
     (\<lambda>s B A. case abs_find (or_original_reference m) B of
          None \<Rightarrow> bump c_unknown A
        | Some (side, _, _) \<Rightarrow>
            (let B = snd (abs_cancel (or_original_reference m) B);
                 A = with_books (am_forget (or_original_reference m)) (with_books (am_update s B) A)
             in bump c_replace (abs_new_order V (or_new_reference m) side (or_price m) (or_shares m)
                  (c_shares_added (or_shares m))
                  (OnReplaced (or_original_reference m) (or_new_reference m) (or_price m) (or_shares m) (or_timestamp m))
                  s B A)))
     (bump (c_time (or_timestamp m)) A)"
| "abs_feed V (FeedTrade ts) A = bump (c_time ts) (bump c_trade A)"
| "abs_feed V (FeedSystem ev) A = bump (c_time (se_timestamp ev)) (bump (c_session (se_code ev)) A)"
| "abs_feed V FeedOther A = A"

definition abs_apply :: "(Price \<Rightarrow> bool) \<Rightarrow> AMulti Replayer handler" where
  "abs_apply V msg len A = do { m \<leftarrow> decode_feed msg; Some (abs_feed V m (bump (c_message len) A)) }"

subsection \<open>Simulation\<close>

definition rp_sim :: "('l, 'm) policy \<Rightarrow> 'l \<Rightarrow> nat \<Rightarrow> ('l, 'm) MultiBook Replayer \<Rightarrow> AMulti Replayer \<Rightarrow> bool" where
  "rp_sim P l n R A \<longleftrightarrow> multi_sim P l n (rp_books R) (rp_books A) \<and> rp_filter R = rp_filter A
     \<and> rp_stats R = rp_stats A \<and> rp_calls R = rp_calls A"

text \<open>An owned order lives in the book of its owner.\<close>

definition owners_ok :: "AMulti \<Rightarrow> bool" where
  "owners_ok A \<longleftrightarrow> (\<forall>oid s. am_owner A oid = Some s \<longrightarrow> (\<exists>B. map_of (am_books A) s = Some B \<and> oid \<in> book_ids B))"

lemma rp_sim_simps [simp]:
  "rp_sim P l n R A \<Longrightarrow> rp_sim P l n (bump f R) (bump f A)"
  "rp_sim P l n R A \<Longrightarrow> rp_sim P l n (observe c R) (observe c A)"
  by (simp_all add: rp_sim_def bump_def observe_def)

lemma rp_books_simps [simp]:
  "rp_books (bump f R) = rp_books R" "rp_books (observe c R) = rp_books R"
  "rp_books (with_books g R) = g (rp_books R)" "rp_filter (bump f R) = rp_filter R"
  by (simp_all add: bump_def observe_def with_books_def)

lemma rp_simD: "rp_sim P l n R A \<Longrightarrow> multi_sim P l n (rp_books R) (rp_books A)"
  by (simp add: rp_sim_def)

lemma rp_sim_mono: "rp_sim P l n R A \<Longrightarrow> n \<le> m \<Longrightarrow> rp_sim P l m R A"
  by (auto simp: rp_sim_def intro: multi_sim_mono)

lemma put_book_sim:
  assumes "rp_sim P l n R A" and "implements P (pol_valid_price P l) b B" and "pol_size P (bk_orders b) \<le> n"
  shows "rp_sim P l n (put_book s b R) (with_books (am_update s B) A)"
  using assms mb_update_sim [OF _ assms(2,3)] by (simp add: rp_sim_def put_book_def with_books_def)

lemma forget_owner_sim:
  assumes "rp_sim P l n R A" and "oid \<noteq> 0"
  shows "\<exists>R'. forget_owner oid R = Some R' \<and> rp_sim P l n R' (with_books (am_forget oid) A)"
  using assms mb_forget_sim [OF rp_simD [OF assms(1)] assms(2)] by (auto simp: rp_sim_def forget_owner_def with_books_def)

lemma note_owner_sim:
  assumes "rp_sim P l n R A" and "oid \<noteq> 0" and "n < 2 ^ 40"
  shows "\<exists>R'. note_owner oid s R = Some R' \<and> rp_sim P l (Suc n) R' (with_books (am_note oid s) A)"
  using assms mb_note_sim [OF rp_simD [OF assms(1)] assms(2,3), of s] by (auto simp: rp_sim_def note_owner_def with_books_def)

lemma find_gone:
  assumes "implements P V b B"
  shows "\<exists>o1. find_order P oid b = Some o1 \<and> (o1 = None \<longleftrightarrow> abs_find oid B = None)
    \<and> (\<forall>x. o1 = Some x \<longrightarrow> (\<exists>p e. abs_find oid B = Some (ord_side x, p, e)))"
  using implementsD(10) [OF assms, of oid] by (cases "abs_find oid B") (auto split: option.splits)

lemma map_of_set: "map_of (map (\<lambda>(t, c). (t, if t = s then b else c)) xs) r = (if r = s then map_option (\<lambda>_. b) (map_of xs s) else map_of xs r)"
  by (induction xs) auto

lemma at_book_put [simp]: "at_book s R = Some b0 \<Longrightarrow> at_book s (put_book s b R) = Some b"
  by (simp add: at_book_def put_book_def mb_find_def mb_update_def map_of_set)

lemma at_book_simps [simp]: "at_book s (bump f R) = at_book s R" "at_book s (observe c R) = at_book s R"
  by (simp_all add: at_book_def)

lemma at_book_sim:
  "rp_sim P l n R A \<Longrightarrow> map_of (am_books (rp_books A)) s = Some B \<Longrightarrow>
    \<exists>b. at_book s R = Some b \<and> implements P (pol_valid_price P l) b B \<and> pol_size P (bk_orders b) \<le> n"
  unfolding at_book_def by (intro mb_find_sim) (auto simp: rp_sim_def)

lemma new_order_sim:
  assumes "rp_sim P l n R A" and "implements P (pol_valid_price P l) b B" and "pol_size P (bk_orders b) \<le> n" and "Suc n < 2 ^ 32"
  shows "\<exists>r b'. insert_passive P oid side p q b = Some (r, b')
    \<and> (if r = Ok then \<exists>R'. note_owner oid s (put_book s b' R) = Some R'
          \<and> rp_sim P l (n + 2) (observe c (bump count R')) (abs_new_order (pol_valid_price P l) oid side p q count c s B A)
        else rp_sim P l (n + 2) (put_book s b' R) (abs_new_order (pol_valid_price P l) oid side p q count c s B A))"
proof -
  define V where "V = pol_valid_price P l"
  obtain r B' where B': "abs_insert_passive V oid side p q B = (r, B')" by force
  have "Suc (pol_size P (bk_orders b)) < 2 ^ 32" using assms(3,4) by simp
  then obtain b' where b': "insert_passive P oid side p q b = Some (r, b')" "implements P V b' B'"
    "pol_size P (bk_orders b') \<le> Suc n"
    using book_calls(1) [OF assms(2), of oid side p q] assms(3) B' by (fastforce simp: V_def [symmetric])
  have put: "rp_sim P l (Suc n) (put_book s b' R) (with_books (am_update s B') A)"
    using b'(2,3) rp_sim_mono [OF assms(1)] unfolding V_def by (intro put_book_sim) auto
  show ?thesis
  proof (cases "r = Ok")
    case True
    then have "oid \<noteq> 0" using B' by (auto simp: abs_insert_passive_def abs_validate_def Let_def split: if_splits)
    moreover have "Suc n < 2 ^ 40" using assms(4) by simp
    ultimately obtain R' where "note_owner oid s (put_book s b' R) = Some R'"
      "rp_sim P l (Suc (Suc n)) R' (with_books (am_note oid s) (with_books (am_update s B') A))"
      using note_owner_sim [OF put] by blast
    then show ?thesis using True b'(1) B' by (auto simp: abs_new_order_def V_def [symmetric])
  next
    case False
    have "rp_sim P l (n + 2) (put_book s b' R) (with_books (am_update s B') A)" using rp_sim_mono [OF put] by simp
    then show ?thesis using False b'(1) B' by (auto simp: abs_new_order_def V_def [symmetric])
  qed
qed

lemma removed_if_gone_sim:
  assumes "rp_sim P l n R A" and "at_book s R = Some b" and "implements P (pol_valid_price P l) b B" and "oid \<noteq> 0"
  shows "\<exists>R'. removed_if_gone P oid ts s R = Some R' \<and> rp_sim P l n R'
    (if abs_find oid B = None then observe (OnRemoved oid ts) (with_books (am_forget oid) A) else A)"
proof -
  obtain o1 where o1: "find_order P oid b = Some o1" "o1 = None \<longleftrightarrow> abs_find oid B = None"
    using find_gone [OF assms(3)] by blast
  obtain R' where "forget_owner oid R = Some R'" "rp_sim P l n R' (with_books (am_forget oid) A)"
    using forget_owner_sim [OF assms(1,4)] by blast
  then show ?thesis using o1 assms(1,2) by (simp add: removed_if_gone_def)
qed

lemma take_sim:
  assumes "rp_sim P l n R A" and "map_of (am_books (rp_books A)) s = Some B" and "oid \<noteq> 0" and "Suc n < 2 ^ 32"
  shows "\<exists>R'. do {
      b \<leftarrow> at_book s R;
      (_, taken, b) \<leftarrow> (if is_exec then execute_resting P oid q b else reduce_resting P oid q b);
      let R = put_book s b R;
      let R = bump (count taken) (bump (c_clamp taken q) R);
      let R = observe (OnReduced oid taken is_exec ts) R;
      removed_if_gone P oid ts s R } = Some R' \<and> rp_sim P l (Suc n) R' (abs_take is_exec oid q ts count s B A)"
proof -
  obtain r taken B' where B': "abs_consume oid q is_exec B = (r, taken, B')" by (metis prod_cases3)
  obtain b where b: "at_book s R = Some b" "implements P (pol_valid_price P l) b B" "pol_size P (bk_orders b) \<le> n"
    using at_book_sim [OF assms(1,2)] by blast
  have small: "Suc (pol_size P (bk_orders b)) < 2 ^ 32" using b(3) assms(4) by simp
  obtain b' where b': "(if is_exec then execute_resting P oid q b else reduce_resting P oid q b) = Some (r, taken, b')"
    "implements P (pol_valid_price P l) b' B'" "pol_size P (bk_orders b') \<le> Suc n"
    using book_calls(3,4) [OF b(2) small, of oid q] b(3) B' by (cases is_exec) fastforce+
  let ?R = "observe (OnReduced oid taken is_exec ts) (bump (count taken) (bump (c_clamp taken q) (put_book s b' R)))"
  let ?A = "observe (OnReduced oid taken is_exec ts) (bump (count taken) (bump (c_clamp taken q) (with_books (am_update s B') A)))"
  have sim: "rp_sim P l (Suc n) ?R ?A"
    using b'(2,3) rp_sim_mono [OF assms(1)] by (intro rp_sim_simps put_book_sim) auto
  have at: "at_book s ?R = Some b'" using b(1) by simp
  obtain R' where "removed_if_gone P oid ts s ?R = Some R'" "rp_sim P l (Suc n) R'
      (if abs_find oid B' = None then observe (OnRemoved oid ts) (with_books (am_forget oid) ?A) else ?A)"
    using removed_if_gone_sim [OF sim at b'(2) assms(3)] by blast
  then show ?thesis using b(1) b'(1) B' by (simp add: abs_take_def Let_def)
qed

lemma cancel_forget_sim:
  assumes "rp_sim P l n R A" and "map_of (am_books (rp_books A)) s = Some B" and "oid \<noteq> 0" and "Suc n < 2 ^ 32"
  shows "\<exists>b b' R'. at_book s R = Some b \<and> implements P (pol_valid_price P l) b B
    \<and> cancel P oid b = Some (fst (abs_cancel oid B), b') \<and> forget_owner oid (put_book s b' R) = Some R'
    \<and> implements P (pol_valid_price P l) b' (snd (abs_cancel oid B)) \<and> pol_size P (bk_orders b') \<le> Suc n
    \<and> rp_sim P l (Suc n) R' (with_books (am_forget oid) (with_books (am_update s (snd (abs_cancel oid B))) A))"
proof -
  obtain b where b: "at_book s R = Some b" "implements P (pol_valid_price P l) b B" "pol_size P (bk_orders b) \<le> n"
    using at_book_sim [OF assms(1,2)] by blast
  have small: "Suc (pol_size P (bk_orders b)) < 2 ^ 32" using b(3) assms(4) by simp
  obtain b' where b': "cancel P oid b = Some (fst (abs_cancel oid B), b')"
    "implements P (pol_valid_price P l) b' (snd (abs_cancel oid B))" "pol_size P (bk_orders b') \<le> Suc n"
    using book_calls(2) [OF b(2) small, of oid] b(3) by fastforce
  have put: "rp_sim P l (Suc n) (put_book s b' R) (with_books (am_update s (snd (abs_cancel oid B))) A)"
    using b'(2,3) rp_sim_mono [OF assms(1)] by (intro put_book_sim) auto
  obtain R' where "forget_owner oid (put_book s b' R) = Some R'"
    "rp_sim P l (Suc n) R' (with_books (am_forget oid) (with_books (am_update s (snd (abs_cancel oid B))) A))"
    using forget_owner_sim [OF put assms(3)] by blast
  then show ?thesis using b b' by auto
qed

lemma replay_apply_sim:
  assumes "lawful P l" and "rp_sim P l n R A" and "owners_ok (rp_books A)" and "n + 3 < 2 ^ 32" and "decode_feed msg = Some m"
  shows "\<exists>R'. replay_apply P l msg len R = Some R'
    \<and> rp_sim P l (n + 3) R' (abs_feed (pol_valid_price P l) m (bump (c_message len) A))"
proof -
  define R0 where "R0 = bump (c_message len) R"
  define A0 where "A0 = bump (c_message len) A"
  have sim: "rp_sim P l n R0 A0" using assms(2) by (simp add: R0_def A0_def)
  have own: "owners_ok (rp_books A0)" using assms(3) by (simp add: A0_def)
  have up: "rp_sim P l k R' A' \<Longrightarrow> k \<le> n + 3 \<Longrightarrow> rp_sim P l (n + 3) R' A'" for k R' A' by (rule rp_sim_mono)
  have route: "mb_book_for_order oid (rp_books (bump f R0)) = Some (am_owner (rp_books A0) oid)" for oid f
    using mb_route_sim [OF rp_simD [OF sim]] by simp
  have owned: "oid \<noteq> 0 \<and> (\<exists>B. map_of (am_books (rp_books A0)) s = Some B)" if "am_owner (rp_books A0) oid = Some s" for oid s
    using that own owner_nonzero [OF rp_simD [OF sim]] by (fastforce simp: owners_ok_def)
  let ?V = "pol_valid_price P l"
  have filt: "rp_filter R0 = rp_filter A0" using sim by (simp add: rp_sim_def)
  have add: "\<exists>R'. on_add P l x R0 = Some R' \<and> rp_sim P l (n + 3) R' (abs_feed ?V (FeedAdd x) A0)" for x
  proof -
    define R1 where "R1 = bump (c_time (ao_timestamp x)) R0"
    define A1 where "A1 = bump (c_time (ao_timestamp x)) A0"
    have s1: "rp_sim P l n R1 A1" using sim by (simp add: R1_def A1_def)
    show ?thesis
    proof (cases "tracked (rp_filter A0) (ao_symbol x)")
      case False
      then show ?thesis using up [of n "bump c_skipped R1" "bump c_skipped A1"] s1 filt
        by (simp add: on_add_def R1_def A1_def)
    next
      case True
      obtain b M where b: "mb_book P l (ao_symbol x) (rp_books R1) = Some (b, M)"
        "multi_sim P l n M (snd (am_book (ao_symbol x) (rp_books A1)))"
        "implements P ?V b (fst (am_book (ao_symbol x) (rp_books A1)))" "pol_size P (bk_orders b) \<le> n"
        using mb_book_sim [OF assms(1) rp_simD [OF s1]] by blast
      have s2: "rp_sim P l n (R1\<lparr>rp_books := M\<rparr>) (with_books (\<lambda>_. snd (am_book (ao_symbol x) (rp_books A1))) A1)"
        using s1 b(2) by (simp add: rp_sim_def with_books_def)
      have "Suc n < 2 ^ 32" using assms(4) by simp
      note N = new_order_sim [OF s2 b(3,4) this, of "ao_reference x" "ao_side x" "ao_price x" "ao_shares x" "ao_symbol x"
          "OnAdded (ao_reference x) (ao_symbol x) (ao_side x) (ao_price x) (ao_shares x) (ao_timestamp x)" "c_add (ao_shares x)"]
      have A: "abs_feed ?V (FeedAdd x) A0 = abs_new_order ?V (ao_reference x) (ao_side x) (ao_price x) (ao_shares x) (c_add (ao_shares x))
          (OnAdded (ao_reference x) (ao_symbol x) (ao_side x) (ao_price x) (ao_shares x) (ao_timestamp x)) (ao_symbol x)
          (fst (am_book (ao_symbol x) (rp_books A1))) (with_books (\<lambda>_. snd (am_book (ao_symbol x) (rp_books A1))) A1)"
        using True by (simp add: A1_def split_beta Let_def)
      show ?thesis unfolding A
        using N True b(1) filt up [of "n + 2"]
        by (auto simp: on_add_def R1_def [symmetric] Let_def split: if_splits) (auto simp: R1_def)
    qed
  qed
  have take: "\<exists>R'. (do {
        s1 \<leftarrow> mb_book_for_order oid (rp_books (bump (c_time ts) R0));
        case s1 of
          None \<Rightarrow> Some (bump c_unknown (bump (c_time ts) R0))
        | Some s \<Rightarrow> do {
            b \<leftarrow> at_book s (bump (c_time ts) R0);
            (_, taken, b) \<leftarrow> (if is_exec then execute_resting P oid q b else reduce_resting P oid q b);
            let R = put_book s b (bump (c_time ts) R0);
            let R = bump (count taken) (bump (c_clamp taken q) R);
            let R = observe (OnReduced oid taken is_exec ts) R;
            removed_if_gone P oid ts s R } }) = Some R'
      \<and> rp_sim P l (n + 3) R' (abs_routed oid (abs_take is_exec oid q ts count) (bump (c_time ts) A0))"
    for is_exec oid q ts and count :: "Qty \<Rightarrow> ReplayStats \<Rightarrow> ReplayStats"
  proof (cases "am_owner (rp_books A0) oid")
    case None
    then show ?thesis using route [of oid "c_time ts"] sim up [of n] by (simp add: abs_routed_def)
  next
    case (Some s)
    obtain B where B: "oid \<noteq> 0" "map_of (am_books (rp_books (bump (c_time ts) A0))) s = Some B" using owned [OF Some] by auto
    have "Suc n < 2 ^ 32" using assms(4) by simp
    from take_sim [OF rp_sim_simps(1) [OF sim] B(2,1) this, of is_exec q count ts]
    show ?thesis using route [of oid "c_time ts"] Some B(2) up [of "Suc n"] by (auto simp: abs_routed_def)
  qed
  have del: "\<exists>R'. on_delete P x R0 = Some R' \<and> rp_sim P l (n + 3) R' (abs_feed ?V (FeedDelete x) A0)" for x
  proof (cases "am_owner (rp_books A0) (od_reference x)")
    case None
    then show ?thesis using route sim up [of n] by (simp add: on_delete_def abs_routed_def)
  next
    case (Some s)
    define R1 where "R1 = bump (c_time (od_timestamp x)) R0"
    define A1 where "A1 = bump (c_time (od_timestamp x)) A0"
    have s1: "rp_sim P l n R1 A1" using sim by (simp add: R1_def A1_def)
    obtain B where B: "od_reference x \<noteq> 0" "map_of (am_books (rp_books A1)) s = Some B"
      using owned [OF Some] by (auto simp: A1_def)
    have "Suc n < 2 ^ 32" using assms(4) by simp
    from cancel_forget_sim [OF s1 B(2,1) this] show ?thesis
      using route Some B(2) up [of "Suc n"] by (auto simp: on_delete_def abs_routed_def R1_def A1_def)
  qed
  have repl: "\<exists>R'. on_replace P x R0 = Some R' \<and> rp_sim P l (n + 3) R' (abs_feed ?V (FeedReplace x) A0)" for x
  proof (cases "am_owner (rp_books A0) (or_original_reference x)")
    case None
    then show ?thesis using route sim up [of n] by (simp add: on_replace_def abs_routed_def)
  next
    case (Some s)
    define R1 where "R1 = bump (c_time (or_timestamp x)) R0"
    define A1 where "A1 = bump (c_time (or_timestamp x)) A0"
    have s1: "rp_sim P l n R1 A1" using sim by (simp add: R1_def A1_def)
    obtain B where B: "or_original_reference x \<noteq> 0" "map_of (am_books (rp_books A1)) s = Some B"
      using owned [OF Some] by (auto simp: A1_def)
    have same: "rp_books R1 = rp_books R0" "rp_books A1 = rp_books A0" by (simp_all add: R1_def A1_def)
    have n: "Suc n < 2 ^ 32" "Suc (Suc n) < 2 ^ 32" using assms(4) by simp_all
    obtain b b' R2 where b: "at_book s R1 = Some b" "implements P ?V b B"
      "cancel P (or_original_reference x) b = Some (fst (abs_cancel (or_original_reference x) B), b')"
      "forget_owner (or_original_reference x) (put_book s b' R1) = Some R2"
      "implements P ?V b' (snd (abs_cancel (or_original_reference x) B))" "pol_size P (bk_orders b') \<le> Suc n"
      "rp_sim P l (Suc n) R2 (with_books (am_forget (or_original_reference x))
         (with_books (am_update s (snd (abs_cancel (or_original_reference x) B))) A1))"
      using cancel_forget_sim [OF s1 B(2,1) n(1)] by blast
    obtain o1 where o1: "find_order P (or_original_reference x) b = Some o1" "o1 = None \<longleftrightarrow> abs_find (or_original_reference x) B = None"
      "\<And>y. o1 = Some y \<Longrightarrow> \<exists>p e. abs_find (or_original_reference x) B = Some (ord_side y, p, e)"
      using find_gone [OF b(2)] by blast
    show ?thesis
    proof (cases o1)
      case None
      then show ?thesis using route Some B(2) b(1) o1(1,2) s1 up [of n]
        by (simp add: on_replace_def abs_routed_def R1_def [symmetric] A1_def [symmetric] same)
    next
      case original: (Some y)
      obtain p e where f: "abs_find (or_original_reference x) B = Some (ord_side y, p, e)" using o1(3) [OF original] by blast
      note N = new_order_sim [OF b(7,5,6) n(2), of "or_new_reference x" "ord_side y" "or_price x" "or_shares x" s
         "OnReplaced (or_original_reference x) (or_new_reference x) (or_price x) (or_shares x) (or_timestamp x)" "c_shares_added (or_shares x)"]
      have m: "map_of (am_books (rp_books A0)) s = Some B" using B(2) by (simp add: A1_def)
      have A: "abs_feed ?V (FeedReplace x) A0 = bump c_replace (abs_new_order ?V (or_new_reference x) (ord_side y) (or_price x) (or_shares x)
          (c_shares_added (or_shares x)) (OnReplaced (or_original_reference x) (or_new_reference x) (or_price x) (or_shares x) (or_timestamp x))
          s (snd (abs_cancel (or_original_reference x) B)) (with_books (am_forget (or_original_reference x))
         (with_books (am_update s (snd (abs_cancel (or_original_reference x) B))) A1)))"
        using Some m f by (simp add: abs_routed_def A1_def [symmetric] same Let_def)
      show ?thesis unfolding A
        using N route Some b(1,3,4) o1(1) original up [of "Suc n + 2"]
        by (auto simp: on_replace_def R1_def [symmetric] same split: if_splits)
    qed
  qed
  have ex: "on_executed P x R0 = (do {
        s1 \<leftarrow> mb_book_for_order (oe_reference x) (rp_books (bump (c_time (oe_timestamp x)) R0));
        case s1 of
          None \<Rightarrow> Some (bump c_unknown (bump (c_time (oe_timestamp x)) R0))
        | Some s \<Rightarrow> do {
            b \<leftarrow> at_book s (bump (c_time (oe_timestamp x)) R0);
            (_, taken, b) \<leftarrow> (if True then execute_resting P (oe_reference x) (oe_shares x) b else reduce_resting P (oe_reference x) (oe_shares x) b);
            let R = put_book s b (bump (c_time (oe_timestamp x)) R0);
            let R = bump (c_execution taken) (bump (c_clamp taken (oe_shares x)) R);
            let R = observe (OnReduced (oe_reference x) taken True (oe_timestamp x)) R;
            removed_if_gone P (oe_reference x) (oe_timestamp x) s R } })" for x
    unfolding on_executed_def Let_def if_True ..
  have cx: "on_cancel P x R0 = (do {
        s1 \<leftarrow> mb_book_for_order (oc_reference x) (rp_books (bump (c_time (oc_timestamp x)) R0));
        case s1 of
          None \<Rightarrow> Some (bump c_unknown (bump (c_time (oc_timestamp x)) R0))
        | Some s \<Rightarrow> do {
            b \<leftarrow> at_book s (bump (c_time (oc_timestamp x)) R0);
            (_, taken, b) \<leftarrow> (if False then execute_resting P (oc_reference x) (oc_shares x) b else reduce_resting P (oc_reference x) (oc_shares x) b);
            let R = put_book s b (bump (c_time (oc_timestamp x)) R0);
            let R = bump ((\<lambda>_. c_cancel) taken) (bump (c_clamp taken (oc_shares x)) R);
            let R = observe (OnReduced (oc_reference x) taken False (oc_timestamp x)) R;
            removed_if_gone P (oc_reference x) (oc_timestamp x) s R } })" for x
    unfolding on_cancel_def Let_def if_False ..
  have exec: "\<exists>R'. on_executed P x R0 = Some R' \<and> rp_sim P l (n + 3) R' (abs_feed ?V (FeedExecuted x) A0)" for x
    unfolding ex abs_feed.simps by (rule take)
  have canc: "\<exists>R'. on_cancel P x R0 = Some R' \<and> rp_sim P l (n + 3) R' (abs_feed ?V (FeedCancel x) A0)" for x
    unfolding cx abs_feed.simps by (rule take)
  obtain t where t: "rd msg 0 = Some t" using assms(5) by (auto simp: decode_feed_def split: bind_splits)
  show ?thesis
    unfolding replay_apply_def Let_def R0_def [symmetric] A0_def [symmetric]
    using assms(5) add exec canc del repl sim up [of n] t
    by (auto simp: decode_feed_def split: option.splits MsgType.splits)
qed

subsection \<open>The owner index\<close>

lemma ids_sides:
  "oid \<in> book_ids A \<longleftrightarrow> (\<exists>s. \<exists>f \<in> set (flat (ab_levels A s)). en_id (snd f) = oid)"
  by (auto simp: book_ids_flat split_beta)

lemma passive_ids:
  assumes "\<And>s. ladder_sorted s (ab_levels B s)" and "abs_insert_passive W oid s p q B = (r, B')"
  shows "book_ids B \<subseteq> book_ids B'" and "r = Ok \<Longrightarrow> oid \<in> book_ids B'"
proof -
  have "book_ids B \<subseteq> book_ids B' \<and> (r = Ok \<longrightarrow> oid \<in> book_ids B')"
  proof (cases "abs_validate W oid p q B = Ok")
    case False
    then show ?thesis using assms(2) by (auto simp: abs_insert_passive_def Let_def)
  next
    case True
    let ?e = "\<lparr>en_id = oid, en_qty = q, en_owner = 0\<rparr>"
    have B': "B' = abs_rest oid s p q 0 (abs_count (c_added q) B)" using assms(2) True by (simp add: abs_insert_passive_def Let_def)
    obtain pre post where pp: "flat (ab_levels B s) = pre @ map (Pair p) (queue_at p (ab_levels B s)) @ post"
      "\<And>es. flat (place s p es (ab_levels B s)) = pre @ map (Pair p) es @ post"
      by (rule flat_place [OF assms(1), of s p]) blast
    have "set (flat (ab_levels B' s)) = insert (p, ?e) (set (flat (ab_levels B s)))"
      unfolding B' by (simp add: abs_rest_def abs_set_queue_def abs_count_def pp(2)) (auto simp: pp(1))
    moreover have "ab_levels B' t = ab_levels B t" if "t \<noteq> s" for t
      using that unfolding B' by (simp add: abs_rest_def abs_set_queue_def abs_count_def)
    ultimately have "set (flat (ab_levels B t)) \<subseteq> set (flat (ab_levels B' t))" "(p, ?e) \<in> set (flat (ab_levels B' s))" for t
      by (cases "t = s"; auto)+
    moreover have "en_id (snd (p, ?e)) = oid" by simp
    ultimately show ?thesis unfolding subset_iff ids_sides by blast
  qed
  then show "book_ids B \<subseteq> book_ids B'" and "r = Ok \<Longrightarrow> oid \<in> book_ids B'" by auto
qed

lemma consume_ids:
  assumes "abook_ok V B"
  shows "book_ids B - {oid} \<subseteq> book_ids (snd (snd (abs_consume oid q is_exec B)))"
proof (cases "abs_find oid B = None \<or> q = 0")
  case True
  then show ?thesis by (auto simp: abs_consume_def split: option.split)
next
  case False
  then obtain s p e where f: "abs_find oid B = Some (s, p, e)" by auto
  define C where "C = abs_count (if is_exec then c_executed (min q (en_qty e)) else c_canceled (min q (en_qty e))) B"
  have C: "ab_levels C = ab_levels B" by (simp add: C_def)
  obtain pre post where o1: "flat (ab_levels B s) = pre @ (p, e) # post" "en_id e = oid"
    "flat (ab_levels (abs_remove s p oid C) s) = pre @ post"
    "\<And>f. flat (ab_levels (abs_set_queue s p (map (\<lambda>e. if en_id e = oid then f e else e)
      (queue_at p (ab_levels B s))) C) s) = pre @ (p, f e) # post"
    "ab_levels (abs_remove s p oid C) (opposite s) = ab_levels B (opposite s)"
    "\<And>es. ab_levels (abs_set_queue s p es C) (opposite s) = ab_levels B (opposite s)"
    by (rule one_order [OF assms f C]) blast
  have sides: "(\<exists>t. Q t) \<longleftrightarrow> Q s \<or> Q (opposite s)" for Q by (metis opposite_neq(1) side_neq_opposite)
  show ?thesis
  proof
    fix i
    assume "i \<in> book_ids B - {oid}"
    then have i: "(\<exists>f \<in> set (pre @ post). en_id (snd f) = i) \<or> (\<exists>f \<in> set (flat (ab_levels B (opposite s))). en_id (snd f) = i)"
      unfolding Diff_iff ids_sides sides [of "\<lambda>t. \<exists>f \<in> set (flat (ab_levels B t)). en_id (snd f) = i"] o1(1) using o1(2) by auto
    have "i \<in> book_ids (abs_remove s p oid C)"
      unfolding ids_sides sides [of "\<lambda>t. \<exists>f \<in> set (flat (ab_levels (abs_remove s p oid C) t)). en_id (snd f) = i"] o1(3,5) using i by auto
    moreover have "i \<in> book_ids (abs_set_queue s p (map (\<lambda>e. if en_id e = oid then g e else e) (queue_at p (ab_levels B s))) C)" for g
      unfolding ids_sides sides [of "\<lambda>t. \<exists>f \<in> set (flat (ab_levels (abs_set_queue s p (map (\<lambda>e. if en_id e = oid then g e else e) (queue_at p (ab_levels B s))) C) t)). en_id (snd f) = i"]
        o1(4,6) using i by auto
    ultimately show "i \<in> book_ids (snd (snd (abs_consume oid q is_exec B)))"
      using False f C by (simp add: abs_consume_def C_def Let_def)
  qed
qed

definition books_ok :: "(Price \<Rightarrow> bool) \<Rightarrow> AMulti \<Rightarrow> bool" where
  "books_ok V A \<longleftrightarrow> (\<forall>s B. map_of (am_books A) s = Some B \<longrightarrow> abook_ok V B)"

lemma multi_sim_books_ok: "multi_sim P l n M A \<Longrightarrow> books_ok (pol_valid_price P l) A"
  unfolding books_ok_def multi_sim_def using books_simD(3) implementsD(8) by blast

lemma owners_update:
  assumes "owners_ok A" and "map_of (am_books A) s = Some B" and "\<And>oid. am_owner A oid = Some s \<Longrightarrow> oid \<in> book_ids B \<Longrightarrow> oid \<in> book_ids B'"
  shows "owners_ok (am_update s B' A)"
  using assms by (fastforce simp: owners_ok_def am_update_def map_of_set)

lemma owners_note:
  "owners_ok A \<Longrightarrow> map_of (am_books A) s = Some B \<Longrightarrow> oid \<in> book_ids B \<Longrightarrow> owners_ok (am_note oid s A)"
  by (auto simp: owners_ok_def am_note_def)

lemma owners_forget_update:
  assumes "owners_ok A" and "map_of (am_books A) s = Some B" and "book_ids B - {oid} \<subseteq> book_ids B'"
  shows "owners_ok (am_forget oid (am_update s B' A))"
  using assms by (fastforce simp: owners_ok_def am_update_def am_forget_def map_of_set)

lemma owners_new_order:
  assumes "owners_ok (rp_books A)" and "map_of (am_books (rp_books A)) s = Some B0" and "\<And>s. ladder_sorted s (ab_levels B s)"
    and "\<And>i. am_owner (rp_books A) i = Some s \<Longrightarrow> i \<in> book_ids B0 \<Longrightarrow> i \<in> book_ids B"
  shows "owners_ok (rp_books (abs_new_order V oid side p q count c s B A))"
proof -
  obtain r B' where B': "abs_insert_passive V oid side p q B = (r, B')" by force
  note I = passive_ids [OF assms(3) B']
  have "owners_ok (am_update s B' (rp_books A))" using owners_update [OF assms(1,2)] assms(4) I(1) by blast
  moreover have "map_of (am_books (am_update s B' (rp_books A))) s = Some B'" using assms(2) by (simp add: am_update_def map_of_set)
  ultimately show ?thesis using B' I(2) owners_note by (auto simp: abs_new_order_def Let_def)
qed

lemma owners_take:
  assumes "owners_ok (rp_books A)" and "map_of (am_books (rp_books A)) s = Some B" and "abook_ok W B"
  shows "owners_ok (rp_books (abs_take is_exec oid q ts count s B A))"
proof -
  obtain r taken B' where B': "abs_consume oid q is_exec B = (r, taken, B')" by (metis prod_cases3)
  have sub: "book_ids B - {oid} \<subseteq> book_ids B'" using consume_ids [OF assms(3), of oid q is_exec] B' by simp
  show ?thesis
  proof (cases "abs_find oid B' = None")
    case True
    then show ?thesis using owners_forget_update [OF assms(1,2) sub] B' by (simp add: abs_take_def Let_def)
  next
    case False
    then have "book_ids B \<subseteq> book_ids B'" using sub unfolding abs_find_None by blast
    then show ?thesis using owners_update [OF assms(1,2)] False B' by (auto simp: abs_take_def Let_def)
  qed
qed

lemma abs_feed_owners:
  assumes "owners_ok (rp_books A)" and "books_ok W (rp_books A)"
  shows "owners_ok (rp_books (abs_feed V m A))"
proof -
  have routed: "owners_ok (rp_books (abs_routed oid f (bump g A)))"
    if "\<And>s B. am_owner (rp_books A) oid = Some s \<Longrightarrow> map_of (am_books (rp_books A)) s = Some B \<Longrightarrow> abook_ok W B
      \<Longrightarrow> owners_ok (rp_books (f s B (bump g A)))" for oid f g
    using that assms by (fastforce simp: abs_routed_def owners_ok_def books_ok_def split: option.split)
  have cancel: "owners_ok (am_forget oid (am_update s (snd (abs_cancel oid B)) (rp_books A)))"
    if "map_of (am_books (rp_books A)) s = Some B" "abook_ok W B" for oid s B
    using owners_forget_update [OF assms(1) that(1)] cancel_ids [OF that(2), of oid] by blast
  show ?thesis
  proof (cases m)
    case (FeedAdd x)
    show ?thesis
    proof (cases "tracked (rp_filter A) (ao_symbol x)")
      case True
      obtain B M where B: "am_book (ao_symbol x) (rp_books A) = (B, M)" by force
      have new: "abook_ok W abook_new" by (simp add: abook_ok_def abook_new_def all_entries_def side_entries_def)
      have M: "owners_ok M" "map_of (am_books M) (ao_symbol x) = Some B" "abook_ok W B"
      proof -
        show "map_of (am_books M) (ao_symbol x) = Some B" using B by (auto simp: am_book_def map_add_def split: option.splits)
        show "abook_ok W B" using B assms(2) new by (auto simp: am_book_def books_ok_def split: option.splits)
        have "map_of (am_books (rp_books A)) t = Some C \<Longrightarrow> map_of (am_books M) t = Some C" "am_owner M = am_owner (rp_books A)" for t C
          using B by (auto simp: am_book_def map_add_def split: option.splits)
        then show "owners_ok M" using assms(1) unfolding owners_ok_def by metis
      qed
      then show ?thesis using True B abook_okD(1) [OF M(3)] by (auto simp: FeedAdd Let_def intro!: owners_new_order)
    qed (use assms in \<open>simp add: FeedAdd\<close>)
  next
    case (FeedExecuted x)
    then show ?thesis using assms by (auto intro!: routed owners_take)
  next
    case (FeedCancel x)
    then show ?thesis using assms by (auto intro!: routed owners_take)
  next
    case (FeedDelete x)
    then show ?thesis using cancel by (auto intro!: routed)
  next
    case (FeedReplace x)
    have "owners_ok (rp_books (abs_new_order V i side p q cnt c s (snd (abs_cancel oid B))
        (with_books (am_forget oid) (with_books (am_update s (snd (abs_cancel oid B))) (bump g A)))))"
      if "map_of (am_books (rp_books A)) s = Some B" "abook_ok W B" for i side p q cnt c s B oid g
    proof (rule owners_new_order)
      show "owners_ok (rp_books (with_books (am_forget oid) (with_books (am_update s (snd (abs_cancel oid B))) (bump g A))))"
        using cancel that by simp
      show "map_of (am_books (rp_books (with_books (am_forget oid) (with_books (am_update s (snd (abs_cancel oid B))) (bump g A))))) s
          = Some (snd (abs_cancel oid B))" using that(1) by (simp add: am_forget_def am_update_def map_of_set)
      show "ladder_sorted t (ab_levels (snd (abs_cancel oid B)) t)" for t
        using abook_okD(1) [OF that(2)]
        by (auto simp: abs_cancel_def abs_remove_def abs_set_queue_def abs_count_def place_def split: option.split)
    qed
    then show ?thesis using assms(1) by (auto simp: FeedReplace Let_def intro!: routed split: option.split)
  qed (use assms in simp_all)
qed

subsection \<open>Whole inputs\<close>

text \<open>The state after \<open>k\<close> messages.\<close>

definition replayed :: "('l, 'm) policy \<Rightarrow> 'l \<Rightarrow> nat \<Rightarrow> ('l, 'm) MultiBook Replayer \<Rightarrow> AMulti Replayer \<Rightarrow> bool" where
  "replayed P l k R A \<longleftrightarrow> rp_sim P l (3 * k) R A \<and> owners_ok (rp_books A)"

lemma replay_message:
  assumes "lawful P l" and "message_ok msg" and "replayed P l k R A" and "k < 2 ^ 30"
  shows "\<exists>R' A'. replay_apply P l msg len R = Some R' \<and> abs_apply (pol_valid_price P l) msg len A = Some A' \<and> replayed P l (Suc k) R' A'"
proof -
  obtain m where m: "decode_feed msg = Some m" using decode_feed_ok [OF assms(2)] by blast
  have n: "3 * k + 3 < 2 ^ 32" using assms(4) by simp
  have s: "rp_sim P l (3 * k) R A" and o1: "owners_ok (rp_books A)" using assms(3) by (simp_all add: replayed_def)
  have "owners_ok (rp_books (abs_feed (pol_valid_price P l) m (bump (c_message len) A)))"
    using abs_feed_owners [of "bump (c_message len) A"] o1 multi_sim_books_ok [OF rp_simD [OF s]] by simp
  then show ?thesis using replay_apply_sim [OF assms(1) s o1 n m, of len] m
    by (auto simp: abs_apply_def replayed_def add.commute)
qed

text \<open>A replay of a file on a new set of books, and its specification.\<close>

definition replay_file :: "('l, 'm) policy \<Rightarrow> 'l \<Rightarrow> Symbol list \<Rightarrow> bytes \<Rightarrow> (ReadResult \<times> ('l, 'm) MultiBook Replayer) option" where
  "replay_file P l ss data = do {
     M \<leftarrow> mb_new;
     for_each_framed_message data (replay_apply P l) (track_only ss (replayer_new M)) }"

definition abs_replay_file :: "(Price \<Rightarrow> bool) \<Rightarrow> Symbol list \<Rightarrow> bytes \<Rightarrow> (ReadResult \<times> AMulti Replayer) option" where
  "abs_replay_file V ss data = for_each_framed_message data (abs_apply V) (track_only ss (replayer_new amulti_new))"

lemma replay_file_run:
  assumes "lawful P l" and "length data < 2 ^ 30"
    and init: "J (track_only ss (replayer_new amulti_new))"
    and step: "\<And>A m msg len. decode_feed msg = Some m \<Longrightarrow> J A \<Longrightarrow> owners_ok (rp_books A) \<Longrightarrow> books_ok (pol_valid_price P l) (rp_books A)
      \<Longrightarrow> J (abs_feed (pol_valid_price P l) m (bump (c_message len) A))"
  shows "\<exists>r R A k. replay_file P l ss data = Some (r, R) \<and> abs_replay_file (pol_valid_price P l) ss data = Some (r, A)
    \<and> replayed P l k R A \<and> k \<le> length data \<and> J A"
proof -
  obtain M where M: "mb_new = Some M" "multi_sim P l 0 M amulti_new" using mb_new_sim [of P l] by auto
  define S where "S k R A \<longleftrightarrow> replayed P l k R A \<and> J A" for k R A
  have start: "S 0 (track_only ss (replayer_new M)) (track_only ss (replayer_new amulti_new))"
    using M(2) init by (simp add: S_def replayed_def rp_sim_def track_only_def replayer_new_def owners_ok_def amulti_new_def)
  have "\<exists>R' A'. replay_apply P l m (length m) R = Some R' \<and> abs_apply (pol_valid_price P l) m (length m) A = Some A' \<and> S (Suc k) R' A'"
    if a: "message_ok m" "S k R A" "k < 2 ^ 30" for m R A k
  proof -
    have "owners_ok (rp_books A)" "books_ok (pol_valid_price P l) (rp_books A)"
      using a(2) multi_sim_books_ok [OF rp_simD, of P l "3 * k" R A] by (auto simp: S_def replayed_def)
    moreover obtain R' A' where "replay_apply P l m (length m) R = Some R'" "abs_apply (pol_valid_price P l) m (length m) A = Some A'"
      "replayed P l (Suc k) R' A'" using replay_message [OF assms(1) a(1) _ a(3)] a(2) S_def by blast
    ultimately show ?thesis using step [of m] a(2) by (auto simp: S_def abs_apply_def split: bind_splits)
  qed
  from framed_sim [of S "2 ^ 30" "replay_apply P l" "abs_apply (pol_valid_price P l)", OF this start,
      of data read_result_default] assms(2)
  show ?thesis by (auto simp: S_def replay_file_def abs_replay_file_def for_each_framed_message_def M(1))
qed

lemma replay_file_sim:
  assumes "lawful P l" and "length data < 2 ^ 30"
  shows "\<exists>r R A k. replay_file P l ss data = Some (r, R) \<and> abs_replay_file (pol_valid_price P l) ss data = Some (r, A)
    \<and> replayed P l k R A \<and> k \<le> length data"
  using replay_file_run [OF assms, of "\<lambda>_. True" ss] by auto

text \<open>The resting orders a set of books has for a symbol.\<close>

definition replayed_orders :: "('l, 'm) policy \<Rightarrow> Symbol \<Rightarrow> Side \<Rightarrow> ('l, 'm) MultiBook \<Rightarrow> (Price \<times> entry) list option" where
  "replayed_orders P s t M = (case mb_find s M of None \<Rightarrow> Some [] | Some b \<Rightarrow> resting P t b)"

end
