(* ===== verification/ItchChunks.thy ===== *)
theory ItchChunks
  imports ItchStream
begin

text \<open>
  What the chunked reader does where the frames are not known to be short: a file below the size of a chunk is read as
  in memory, and a message cut by a chunk boundary is carried over whole, however much of it lies in front of the boundary.
\<close>

subsection \<open>A file below the size of a chunk\<close>

text \<open>The fields of a result a walk has not touched.\<close>

lemma framed_fields:
  assumes "framed_loop data h 0 r s = Some (r1, s1)" and "rr_status r = ReadOk"
  shows "(rr_status r1 = ReadOk \<longrightarrow> rr_offset r1 = length data)
    \<and> (rr_status r1 = ReadOk \<or> is_truncated (rr_status r1) \<longrightarrow> rr_bad_type r1 = rr_bad_type r \<and> rr_expected_length r1 = rr_expected_length r
      \<and> (rr_status r1 \<noteq> TruncatedMessage \<longrightarrow> rr_declared_length r1 = rr_declared_length r))"
  using assms
proof (induction data arbitrary: r s r1 rule: measure_induct_rule [of length])
  case (less data)
  define len where "len = unat (the (be16 data 0))"
  show ?case
  proof (cases "length data < 2 \<or> len = 0 \<or> length data < 2 + len
      \<or> (message_length (data ! 2) \<noteq> 0 \<and> message_length (data ! 2) \<noteq> len)")
    case True
    then show ?thesis
      using less.prems unfolding framed_unfold [of data] Let_def len_def [symmetric] by (auto simp: is_truncated_def split: if_splits)
  next
    case False
    obtain s2 r2 where r2: "framed_loop (drop (2 + len) data) h 0 (r\<lparr>rr_messages := rr_messages r + 1\<rparr>) s2 = Some (r2, s1)"
      and r1: "r1 = r2\<lparr>rr_offset := rr_offset r2 + (2 + len)\<rparr>"
      using less.prems(1) unfolding framed_unfold_message [OF False [unfolded len_def] len_def]
      by (auto simp: shift_offset_def split: option.splits)
    have "length (drop (2 + len) data) < length data" using False by auto
    from less.IH [OF this r2] less.prems(2) show ?thesis using False by (auto simp: r1)
  qed
qed

lemma stream_short:
  assumes "length file < chunk_bytes"
  shows "for_each_framed_stream (Some file) h chunk_bytes s = for_each_framed_message file h s"
proof (cases "for_each_framed_message file h s")
  case None
  then have "file \<noteq> []" by (auto simp: for_each_framed_message_def framed_unfold [of "[]"])
  then show ?thesis using assms None by (subst for_each_framed_stream_def, subst option.case, subst stream_loop.simps) (simp add: Let_def)
next
  case (Some p)
  obtain r s1 where p: "p = (r, s1)" by force
  have l: "framed_loop file h 0 read_result_default s = Some (r, s1)" using Some p by (simp add: for_each_framed_message_def)
  have F: "(rr_status r = ReadOk \<longrightarrow> rr_offset r = length file)
    \<and> (rr_status r = ReadOk \<or> is_truncated (rr_status r) \<longrightarrow> rr_bad_type r = rr_bad_type read_result_default \<and> rr_expected_length r = rr_expected_length read_result_default
      \<and> (rr_status r \<noteq> TruncatedMessage \<longrightarrow> rr_declared_length r = rr_declared_length read_result_default))"
    by (rule framed_fields [OF l]) (simp add: read_result_default_def)
  show ?thesis
  proof (cases "file = []")
    case True
    then show ?thesis using l assms unfolding Some p
      by (subst for_each_framed_stream_def, subst option.case, subst stream_loop.simps) (auto simp: Let_def framed_unfold [of "[]"] read_result_default_def)
  next
    case False
    then show ?thesis using F assms Some p
      by (subst for_each_framed_stream_def, subst option.case, subst stream_loop.simps)
        (auto simp: Let_def read_result_default_def is_truncated_def)
  qed
qed

subsection \<open>A message cut by a chunk boundary\<close>

text \<open>A walk over a proper prefix of a sequence of frames stops behind one of them, for want of bytes if there are any left.\<close>

lemma walk_prefix:
  assumes "\<forall>m \<in> set ms. message_ok m" and "now @ later = concat (map frame ms) @ tail" and "length now < length (concat (map frame ms))"
    and "framed_loop now h 0 r s = Some (r1, s1)" and "rr_status r = ReadOk"
  shows "\<exists>ms1 ms2. ms = ms1 @ ms2 \<and> ms2 \<noteq> [] \<and> rr_offset r1 = length (concat (map frame ms1)) \<and> rr_offset r1 \<le> length now
    \<and> (rr_status r1 = ReadOk \<and> rr_offset r1 = length now \<or> is_truncated (rr_status r1))"
  using assms
proof (induction ms arbitrary: now r s r1)
  case (Cons m ms)
  show ?case
  proof (cases "length now < 2 + length m")
    case True
    have "unat (the (be16 now 0)) = length m" "length m \<noteq> 0" if "2 \<le> length now"
    proof -
      have "be16 now 0 = be16 (frame m @ concat (map frame ms) @ tail) 0"
        using be16_prefix [OF that, of later] Cons.prems(2) by simp
      then show "unat (the (be16 now 0)) = length m" "length m \<noteq> 0"
        using Cons.prems(1) by (simp_all add: message_ok_def frame_def read_simps unsigned_of_nat take_bit_nat_eq_self)
    qed
    then have "rr_offset r1 = 0 \<and> (rr_status r1 = ReadOk \<and> now = [] \<or> is_truncated (rr_status r1))"
      using Cons.prems(4,5) True unfolding framed_unfold [of now] Let_def by (auto simp: is_truncated_def split: if_splits)
    then show ?thesis by (intro exI [of _ "[]"] exI [of _ "m # ms"]) auto
  next
    case False
    have "take (2 + length m) (now @ later) = frame m" "drop (2 + length m) (now @ later) = concat (map frame ms) @ tail"
      unfolding Cons.prems(2) by simp_all
    then have now: "now = frame m @ drop (2 + length m) now" and rest: "drop (2 + length m) now @ later = concat (map frame ms) @ tail"
      using False append_take_drop_id [of "2 + length m" now] by simp_all
    let ?now = "drop (2 + length m) now"
    obtain r2 s2 where r2: "framed_loop ?now h 0 (r\<lparr>rr_messages := rr_messages r + 1\<rparr>) s2 = Some (r2, s1)"
      and r1: "r1 = r2\<lparr>rr_offset := rr_offset r2 + (2 + length m)\<rparr>"
      using Cons.prems(4) Cons.prems(1) framed_step [of m ?now h r s] unfolding now [symmetric]
      by (auto simp: shift_offset_def split: option.splits)
    have "length ?now < length (concat (map frame ms))" using Cons.prems(3) False by simp
    from Cons.IH [OF _ rest this r2] Cons.prems(1,5) obtain ms1 ms2 where i: "ms = ms1 @ ms2" "ms2 \<noteq> []" "rr_offset r2 = length (concat (map frame ms1))"
      "rr_offset r2 \<le> length ?now" "rr_status r2 = ReadOk \<and> rr_offset r2 = length ?now \<or> is_truncated (rr_status r2)" by auto
    then show ?thesis using False by (intro exI [of _ "m # ms1"] exI [of _ ms2]) (auto simp: r1)
  qed
qed simp

text \<open>The \<open>n\<close>-th boundary from here lies in the frame of \<open>m\<close>, behind \<open>frag\<close> bytes of it.\<close>

lemma stream_loop_overrun:
  assumes "0 < chunk_bytes" and "message_ok m" and "0 < frag" and "frag < 2 + length m"
  shows "\<forall>m \<in> set ms. message_ok m \<Longrightarrow> buf @ input = concat (map frame ms) @ frame m @ rest \<Longrightarrow> 0 < n
    \<Longrightarrow> length buf + n * chunk_bytes = length (concat (map frame ms)) + frag \<Longrightarrow> n * chunk_bytes \<le> length input
    \<Longrightarrow> chunk_bytes + 64 < frag + min chunk_bytes (length input - n * chunk_bytes)
    \<Longrightarrow> stream_loop chunk_bytes h input buf consumed tot s = None"
proof (induction n arbitrary: ms buf input consumed tot s)
  case (Suc n)
  define now where "now = buf @ take chunk_bytes input"
  define later where "later = drop chunk_bytes input"
  have got: "min chunk_bytes (length input) = chunk_bytes" using Suc.prems(5) by simp
  have whole: "now @ later = concat (map frame (ms @ [m])) @ rest" using Suc.prems(2) by (simp add: now_def later_def)
  have ln: "length now = length buf + chunk_bytes" "length later = length input - chunk_bytes" using got by (simp_all add: now_def later_def)
  have short: "length now < length (concat (map frame (ms @ [m])))" using Suc.prems(4) assms(4) ln(1) by simp
  have ne: "now \<noteq> []" using ln(1) assms(1) by auto
  note unf = stream_loop.simps [of chunk_bytes h input buf consumed tot s, unfolded Let_def got, folded now_def later_def]
  show ?case
  proof (cases "length buf + chunk_bytes > chunk_bytes + 64 \<or> for_each_framed_message now h s = None")
    case True
    then show ?thesis using ne unfolding unf by auto
  next
    case False
    then obtain r s1 where w: "for_each_framed_message now h s = Some (r, s1)" by auto
    have ok: "\<forall>m \<in> set (ms @ [m]). message_ok m" using Suc.prems(1) assms(2) by simp
    obtain ms1 ms2 where p: "ms @ [m] = ms1 @ ms2" "ms2 \<noteq> []" "rr_offset r = length (concat (map frame ms1))" "rr_offset r \<le> length now"
      "rr_status r = ReadOk \<and> rr_offset r = length now \<or> is_truncated (rr_status r)"
      using walk_prefix [OF ok whole short w [unfolded for_each_framed_message_def]] by (auto simp: read_result_default_def)
    obtain ms3 where m3: "ms2 = ms3 @ [m]" "ms = ms1 @ ms3" using p(1,2) by (cases ms2 rule: rev_cases) auto
    define buf2 where "buf2 = drop (rr_offset r) now"
    have go: "\<exists>c t. stream_loop chunk_bytes h input buf consumed tot s = stream_loop chunk_bytes h later buf2 c t s1"
    proof (cases "rr_status r = ReadOk")
      case True
      then have "buf2 = []" using p(5) by (simp add: buf2_def is_truncated_def)
      then show ?thesis using True False ne w unfolding unf by (intro exI) simp
    next
      case trunc: False
      then show ?thesis using p(5) False ne w unfolding unf buf2_def by (intro exI) simp
    qed
    have split: "concat (map frame (ms @ [m])) = concat (map frame ms1) @ concat (map frame ms3) @ frame m" by (simp add: m3(2))
    have "drop (rr_offset r) (now @ later) = concat (map frame ms3) @ frame m @ rest" unfolding whole split p(3) by simp
    then have whole2: "buf2 @ later = concat (map frame ms3) @ frame m @ rest" using p(4) by (simp add: buf2_def)
    have lb: "length buf2 + rr_offset r = length now" using p(4) by (simp add: buf2_def)
    have l3: "length (concat (map frame ms)) = rr_offset r + length (concat (map frame ms3))" by (simp add: m3(2) p(3))
    have "stream_loop chunk_bytes h later buf2 c t s1 = None" for c t
    proof (cases n)
      case 0
      then have "length buf2 = length (concat (map frame ms3)) + frag" using Suc.prems(4) lb ln(1) l3 by simp
      then have "length buf2 + min chunk_bytes (length later) > chunk_bytes + 64" using Suc.prems(6) 0 ln(2) by simp
      then show ?thesis by (subst stream_loop.simps) (simp add: Let_def)
    next
      case (Suc k)
      show ?thesis
      proof (rule Suc.IH [OF _ whole2])
        show "\<forall>m \<in> set ms3. message_ok m" using Suc.prems(1) m3(2) by simp
      qed (use Suc Suc.prems(4,5,6) lb ln l3 in auto)
    qed
    then show ?thesis using go by auto
  qed
qed simp

lemma stream_overrun:
  assumes "\<forall>m \<in> set (ms @ [m]). message_ok m" and "file = concat (map frame ms) @ frame m @ rest"
    and "length (concat (map frame ms)) < n * chunk_bytes" and "n * chunk_bytes < length (concat (map frame (ms @ [m])))"
    and "chunk_bytes + 64 < n * chunk_bytes - length (concat (map frame ms)) + min chunk_bytes (length file - n * chunk_bytes)"
  shows "for_each_framed_stream (Some file) h chunk_bytes s = None"
proof -
  have n: "0 < n" "0 < chunk_bytes" using assms(3) by (cases n; cases chunk_bytes; simp)+
  have "length file \<ge> length (concat (map frame (ms @ [m])))" by (simp add: assms(2))
  then have "stream_loop chunk_bytes h file [] 0 read_result_default s = None"
    using assms n by (intro stream_loop_overrun [where n = n and m = m and ms = ms and frag = "n * chunk_bytes - length (concat (map frame ms))"]) auto
  then show ?thesis by (simp add: for_each_framed_stream_def)
qed

end
