(* ===== verification/ItchProperties.thy ===== *)
theory ItchProperties
  imports ItchChunks
begin

text \<open>
  The properties of the ITCH layer: the writer and the readers are inverse, the walks stay inside
  their input and stop at the right byte, reading in chunks is reading at once, and where the chunk
  buffer is too small.
\<close>

subsection \<open>Symbols and types\<close>

text \<open>A symbol survives the packing into 64 bits that the symbol filter uses as its key, and two different symbols never share a key.\<close>

theorem symbol_key_faithful:
  assumes "length s = 8" and "length t = 8"
  shows "symbol_from_bits (symbol_bits s) = s \<and> (symbol_bits s = symbol_bits t \<longleftrightarrow> s = t)"
  using symbol_bits_inverse [OF assms(1)] symbol_bits_inj [OF assms] by blast

theorem symbol_key_faithful_witness:
  "symbol_from_bits (symbol_bits (symbol_of [65, 66])) = symbol_of [65, 66]
    \<and> (symbol_bits (symbol_of [65, 66]) = symbol_bits (symbol_of [65]) \<longleftrightarrow> symbol_of [65, 66] = symbol_of [65])"
  by (rule symbol_key_faithful) simp_all

text \<open>The length table knows a byte exactly when it names one of the 23 message types, and never gives a length over 50; every decoder the replay calls stays inside a message of the length the table gives for its type.\<close>

theorem decoders_stay_inside:
  "(message_length c \<noteq> 0 \<longleftrightarrow> (\<exists>t. c = msg_char t)) \<and> message_length c \<le> 50
    \<and> (length p = message_length (p ! 0) \<longrightarrow>
        (p ! 0 \<in> {msg_char MsgType.AddOrder, msg_char AddOrderMpid} \<longrightarrow> decode_add_order p \<noteq> None)
      \<and> (p ! 0 \<in> {msg_char MsgType.OrderExecuted, msg_char OrderExecutedWithPrice} \<longrightarrow> decode_order_executed p \<noteq> None)
      \<and> (p ! 0 = msg_char MsgType.OrderCancel \<longrightarrow> decode_order_cancel p \<noteq> None)
      \<and> (p ! 0 = msg_char MsgType.OrderDelete \<longrightarrow> decode_order_delete p \<noteq> None)
      \<and> (p ! 0 = msg_char MsgType.OrderReplace \<longrightarrow> decode_order_replace p \<noteq> None)
      \<and> (p ! 0 = msg_char MsgType.SystemEvent \<longrightarrow> decode_system_event p \<noteq> None)
      \<and> (p ! 0 = msg_char MsgType.StockDirectory \<longrightarrow> decode_stock_directory p \<noteq> None))"
proof -
  have k: "message_length c \<noteq> 0 \<longleftrightarrow> (\<exists>t. c = msg_char t)"
  proof (cases "msg_type c")
    case None
    then have "c \<noteq> msg_char t" for t using msg_type_char by auto
    then show ?thesis using None by (simp add: message_length_def)
  next
    case (Some t)
    then show ?thesis using type_length_bounds(1) [of t] by (auto simp: message_length_def msg_type_Some msg_type_char simp del: msg_char.simps)
  qed
  have x: "msg_char MsgType.OrderExecuted \<noteq> msg_char OrderExecutedWithPrice" by (simp add: ch_def)
  show ?thesis
    using k message_length_bound [of c] decoders_inside [of p] x
    by (auto simp del: msg_char.simps)
qed

theorem decoders_stay_inside_witness:
  "decode_order_delete (event_message (DeleteEv 5 7)) \<noteq> None"
proof -
  have "event_message (DeleteEv 5 7) ! 0 = msg_char MsgType.OrderDelete" by (simp add: event_message_def)
  moreover from this have "length (event_message (DeleteEv 5 7)) = message_length (event_message (DeleteEv 5 7) ! 0)"
    using event_message_length [of "DeleteEv 5 7"] by (simp add: symbol_ok_def del: msg_char.simps)
  ultimately show ?thesis using decoders_stay_inside [of 0 "event_message (DeleteEv 5 7)"] by blast
qed

subsection \<open>Writing and reading\<close>

text \<open>What a decoder gives for an event: the timestamp keeps its low 48 bits.\<close>

lemma event_message_ok: "symbol_ok e \<Longrightarrow> message_ok (event_message e)"
  using event_message_length [of e] type_length_bounds [of "event_type e"]
  by (auto simp: message_ok_def event_message_def simp del: msg_char.simps)

lemma event_frame_frame: "event_frame e = frame (event_message e)"
  by (simp add: event_frame_def frame_def)

lemma written_feed_back:
  assumes "\<forall>e \<in> set es. symbol_ok e"
  shows "for_each_framed_message (wr_buf (fold write_event es writer_new)) h s = map_option
    (\<lambda>s. (read_result_default\<lparr>rr_messages := wr_count (fold write_event es writer_new),
                rr_offset := length (wr_buf (fold write_event es writer_new))\<rparr>, s))
    (handle_all h (map event_message es) s)"
proof -
  have "event_frame = frame \<circ> event_message" by (simp add: fun_eq_iff event_frame_frame)
  then have "wr_buf (fold write_event es writer_new) = concat (map frame (map event_message es))"
    "wr_count (fold write_event es writer_new) = length (map event_message es)"
    using write_events_append [OF assms, of writer_new] by (simp_all add: writer_new_def)
  moreover have "\<forall>m \<in> set (map event_message es). message_ok m" using assms event_message_ok by auto
  ultimately show ?thesis
    by (simp only: for_each_framed_message_def framed_complete) (simp add: read_result_default_def)
qed

text \<open>C18: Whatever sequence of feed events a \<^verbatim>\<open>Writer\<close> is given, the framed reader hands exactly the messages of these events, in order, to its handler and ends content at the last byte, with the writer's own message count.\<close>

theorem written_feed_reads_back:
  assumes "\<forall>e \<in> set es. symbol_ok e"
  shows "for_each_framed_message (wr_buf (fold write_event es writer_new)) h s = map_option
    (\<lambda>s. (read_result_default\<lparr>rr_messages := wr_count (fold write_event es writer_new),
                rr_offset := length (wr_buf (fold write_event es writer_new))\<rparr>, s))
    (handle_all h (map event_message es) s)"
  by (rule written_feed_back [OF assms])

theorem written_feed_reads_back_witness:
  "for_each_framed_message (wr_buf (fold write_event [SystemEv 1 79, CancelEv 2 7 30] writer_new))
     (\<lambda>m len s. Some (s + len)) 0 = Some (read_result_default\<lparr>rr_messages := 2, rr_offset := 39\<rparr>, 35)"
proof -
  have ok: "\<forall>e \<in> set [SystemEv 1 79, CancelEv 2 7 30]. symbol_ok e" by (simp add: symbol_ok_def)
  show ?thesis
    using written_feed_reads_back [OF ok, of "\<lambda>m len s. Some (s + len)" 0] write_events_append [OF ok, of writer_new]
    by (simp add: writer_new_def event_frame_def event_message_def)
qed

subsection \<open>Walking arbitrary bytes\<close>

text \<open>C19: On any input whatever, with a handler that copes with every message the framing checks let through, the framed walk ends without reading outside the input; it hands over exactly the messages of the longest run of complete, correctly sized frames at the front of the input, stops at the first byte after it, and reports success exactly when that is the end.\<close>

theorem framed_walk_exact:
  assumes "\<And>m s. message_ok m \<Longrightarrow> h m (length m) s \<noteq> None"
  shows "\<exists>r s' ms. for_each_framed_message data h s = Some (r, s')
    \<and> (\<forall>m \<in> set ms. message_ok m) \<and> handle_all h ms s = Some s' \<and> rr_messages r = length ms
    \<and> data = concat (map frame ms) @ drop (rr_offset r) data
    \<and> (\<forall>m ys. message_ok m \<longrightarrow> drop (rr_offset r) data \<noteq> frame m @ ys)
    \<and> (read_ok r \<longleftrightarrow> rr_offset r = length data)"
proof -
  obtain r s' where w: "for_each_framed_message data h s = Some (r, s')"
    using framed_total [of h data s, OF assms] by blast
  then have l: "framed_loop data h 0 read_result_default s = Some (r, s')" by (simp add: for_each_framed_message_def)
  have "rr_status read_result_default = ReadOk" by (simp add: read_result_default_def)
  from framed_sound [OF l this] obtain ms where "\<forall>m \<in> set ms. message_ok m" "handle_all h ms s = Some s'"
    "take (rr_offset r) data = concat (map frame ms)" "rr_messages r = length ms" "rr_status r = ReadOk \<longleftrightarrow> rr_offset r = length data"
    by (auto simp: read_result_default_def)
  moreover from this have "data = concat (map frame ms) @ drop (rr_offset r) data" by (metis append_take_drop_id)
  ultimately show ?thesis using w framed_maximal [OF l] by (auto simp: read_ok_def)
qed

theorem framed_walk_exact_witness:
  "\<exists>r s' ms. for_each_framed_message [0, 19, 68, 1] (\<lambda>m len s. Some (s + len)) 0 = Some (r, s')
    \<and> (\<forall>m \<in> set ms. message_ok m) \<and> handle_all (\<lambda>m len s. Some (s + len)) ms 0 = Some s' \<and> rr_messages r = length ms
    \<and> [0, 19, 68, 1] = concat (map frame ms) @ drop (rr_offset r) [0, 19, 68, 1]
    \<and> (\<forall>m ys. message_ok m \<longrightarrow> drop (rr_offset r) [0, 19, 68, 1] \<noteq> frame m @ ys)
    \<and> (read_ok r \<longleftrightarrow> rr_offset r = length [0, 19, 68, 1 :: u8])"
  by (rule framed_walk_exact) simp

lemma small_frames_concat:
  assumes "\<forall>m \<in> set ms. message_ok m \<and> length m \<le> 62"
  shows "small_frames (concat (map frame ms))"
  using assms
proof (induction ms)
  case Nil
  then show ?case by (subst small_frames.simps) simp
next
  case (Cons m ms)
  have l: "length m < 2 ^ 16" using Cons.prems by simp
  have "unat (the (be16 (frame m @ concat (map frame ms)) 0)) = length m"
    using l by (simp add: frame_def read_simps unsigned_of_nat take_bit_nat_eq_self)
  moreover have "drop (2 + length m) (frame m @ concat (map frame ms)) = concat (map frame ms)" by simp
  ultimately show ?case using Cons by (subst small_frames.simps) (simp add: Let_def)
qed

lemma written_small:
  assumes "\<forall>e \<in> set es. symbol_ok e"
  shows "small_frames (wr_buf (fold write_event es writer_new))"
proof -
  have "length (event_message e) \<le> 62" if "e \<in> set es" for e
    using that assms event_message_length [of e] type_length_bounds(2) [of "event_type e"] by simp
  then have "small_frames (concat (map frame (map event_message es)))"
    using assms event_message_ok by (intro small_frames_concat) auto
  moreover have "event_frame = frame \<circ> event_message" by (simp add: fun_eq_iff event_frame_frame)
  ultimately show ?thesis using write_events_append(1) [OF assms, of writer_new] by (simp add: writer_new_def)
qed

text \<open>C20: Reading a file in chunks of any positive size gives the same result, the same absolute offsets and the same handler state as reading it at once, when no length prefix on the way announces more than 62 bytes (every known message has at most 50); in particular the buffer of one chunk and 64 bytes is then never overrun.\<close>

theorem stream_equals_memory:
  assumes "0 < chunk_bytes" and "small_frames file"
  shows "for_each_framed_stream (Some file) h chunk_bytes s = for_each_framed_message file h s"
  by (rule stream_whole [OF assms])

theorem stream_equals_memory_witness:
  "for_each_framed_stream (Some (wr_buf (fold write_event [DeleteEv 1 7, DeleteEv 2 8] writer_new))) (\<lambda>m len s. Some (s + len)) 4 0
    = for_each_framed_message (wr_buf (fold write_event [DeleteEv 1 7, DeleteEv 2 8] writer_new)) (\<lambda>m len s. Some (s + len)) 0"
  by (rule stream_equals_memory [OF _ written_small]) (simp_all add: symbol_ok_def)

text \<open>C21: The buffer of the chunked reader, one chunk and 64 bytes, is too small for what the framing checks let through.  When a boundary between two chunks cuts a message, the part in front of it is carried over whole; as soon as this part and the bytes the next read gets exceed a chunk and 64 bytes together, which takes more than 64 bytes of a message of an unknown type, the reader does not come back from the file without having read past the end of its buffer.\<close>

theorem stream_overruns_buffer:
  assumes "\<forall>m \<in> set (ms @ [m]). message_ok m" and "file = concat (map frame ms) @ frame m @ rest"
    and "length (concat (map frame ms)) < n * chunk_bytes" and "n * chunk_bytes < length (concat (map frame (ms @ [m])))"
    and "chunk_bytes + 64 < n * chunk_bytes - length (concat (map frame ms)) + min chunk_bytes (length file - n * chunk_bytes)"
  shows "for_each_framed_stream (Some file) h chunk_bytes s = None"
  by (rule stream_overrun [OF assms])

theorem stream_overruns_buffer_witness:
  "for_each_framed_stream (Some (frame (replicate 20 0) @ frame (replicate 200 0))) (\<lambda>m len s. Some (s + len)) 100 0 = None"
  by (rule stream_overruns_buffer [of "[replicate 20 0]" "replicate 200 0" _ "[]" 1])
    (simp_all add: message_ok_def message_length_def msg_type_def all_types_def ch_def)

end
