(* ===== verification/ReplayProperties.thy ===== *)
theory ReplayProperties
  imports ReplayRefinement ItchProperties BookProperties
begin

text \<open>
  The properties of the replay: what it makes of arbitrary bytes, of a written feed, and what always
  holds of its books, its owner index and its statistics.
\<close>

subsection \<open>Arbitrary input\<close>

lemma books_sim_keys: "books_sim P V n bs As \<Longrightarrow> map fst bs = map fst As"
  unfolding books_sim_def by (induction bs As rule: list_all2_induct) auto

lemma multi_symbols: "multi_sim P l n M A \<Longrightarrow> mb_symbols M = map fst (am_books A)"
  by (auto simp: multi_sim_def mb_symbols_def dest: books_sim_keys)

lemma replay_facts:
  assumes "lawful P l" and "length data < 2 ^ 30"
  shows "\<exists>r R A. replay_file P l ss data = Some (r, R) \<and> abs_replay_file (pol_valid_price P l) ss data = Some (r, A)
    \<and> rp_stats R = rp_stats A \<and> rp_calls R = rp_calls A
    \<and> (\<forall>oid. mb_book_for_order oid (rp_books R) = Some (am_owner (rp_books A) oid))
    \<and> mb_tracked_orders (rp_books R) = card (dom (am_owner (rp_books A)))
    \<and> mb_symbols (rp_books R) = map fst (am_books (rp_books A))
    \<and> (\<forall>s B. map_of (am_books (rp_books A)) s = Some B \<longrightarrow> (\<exists>b. mb_find s (rp_books R) = Some b
        \<and> state_hash P b = Some (abs_hash B) \<and> (\<forall>t. resting P t b = Some (flat (ab_levels B t))) \<and> bk_counters b = ab_counters B))"
proof -
  obtain r R A k where R: "replay_file P l ss data = Some (r, R)" "abs_replay_file (pol_valid_price P l) ss data = Some (r, A)"
    "replayed P l k R A" using replay_file_sim [OF assms] by blast
  have s: "rp_sim P l (3 * k) R A" using R(3) by (simp add: replayed_def)
  note m = rp_simD [OF s]
  have "mb_tracked_orders (rp_books R) = card (dom (am_owner (rp_books A)))"
    using m open_map.count_law [of "mb_owner (rp_books R)"] by (auto simp: mb_tracked_orders_def multi_sim_def)
  moreover have "\<exists>b. mb_find s (rp_books R) = Some b
        \<and> state_hash P b = Some (abs_hash B) \<and> (\<forall>t. resting P t b = Some (flat (ab_levels B t))) \<and> bk_counters b = ab_counters B"
    if "map_of (am_books (rp_books A)) s = Some B" for s B
    using mb_find_sim [OF m that] implementsD(1,3,5) by blast
  ultimately show ?thesis
    using R(1,2) s mb_route_sim [OF m] multi_symbols [OF m] by (auto simp: rp_sim_def)
qed

text \<open>The replayer stands where the specification stands.\<close>

definition follows :: "('l, 'm) policy \<Rightarrow> ('l, 'm) MultiBook Replayer \<Rightarrow> AMulti Replayer \<Rightarrow> bool" where
  "follows P R A \<longleftrightarrow> rp_stats R = rp_stats A \<and> rp_calls R = rp_calls A
    \<and> mb_symbols (rp_books R) = map fst (am_books (rp_books A))
    \<and> (\<forall>s B. map_of (am_books (rp_books A)) s = Some B \<longrightarrow> (\<exists>b. mb_find s (rp_books R) = Some b
        \<and> (\<forall>t. resting P t b = Some (flat (ab_levels B t))) \<and> bk_counters b = ab_counters B))"

lemma follows_book:
  "follows P R A \<Longrightarrow> map_of (am_books (rp_books A)) s = Some B \<Longrightarrow>
    \<exists>b. mb_find s (rp_books R) = Some b \<and> resting P t b = Some (flat (ab_levels B t)) \<and> bk_counters b = ab_counters B"
  unfolding follows_def by blast

lemma follows_stats: "follows P R A \<Longrightarrow> rp_stats R = rp_stats A"
  by (simp add: follows_def)

lemma replay_follows:
  assumes "lawful P l" and "length data < 2 ^ 30"
  shows "\<exists>r R A. replay_file P l ss data = Some (r, R) \<and> abs_replay_file (pol_valid_price P l) ss data = Some (r, A)
    \<and> follows P R A \<and> (\<forall>oid. mb_book_for_order oid (rp_books R) = Some (am_owner (rp_books A) oid))"
  using replay_facts [OF assms, of ss] unfolding follows_def by blast

text \<open>C22: Whatever the bytes, replaying them on new books under any lawful policy ends without reading outside a message, and gives the reader's result, the statistics, the observer calls, the owner index and, for every symbol in order of first sight, a book with the state hash, the resting orders and the counters of the replay specification.\<close>

theorem replay_implements_spec:
  assumes "lawful P l" and "length data < 2 ^ 30"
  shows "\<exists>r R A. replay_file P l ss data = Some (r, R) \<and> abs_replay_file (pol_valid_price P l) ss data = Some (r, A)
    \<and> rp_stats R = rp_stats A \<and> rp_calls R = rp_calls A
    \<and> (\<forall>oid. mb_book_for_order oid (rp_books R) = Some (am_owner (rp_books A) oid))
    \<and> mb_tracked_orders (rp_books R) = card (dom (am_owner (rp_books A)))
    \<and> mb_symbols (rp_books R) = map fst (am_books (rp_books A))
    \<and> (\<forall>s B. map_of (am_books (rp_books A)) s = Some B \<longrightarrow> (\<exists>b. mb_find s (rp_books R) = Some b
        \<and> state_hash P b = Some (abs_hash B) \<and> (\<forall>t. resting P t b = Some (flat (ab_levels B t))) \<and> bk_counters b = ab_counters B))"
  by (rule replay_facts [OF assms])

theorem replay_implements_spec_witness:
  "\<exists>r R A. replay_file map_open_policy ml_new [] [0, 19, 68, 1] = Some (r, R)
    \<and> abs_replay_file (pol_valid_price map_open_policy ml_new) [] [0, 19, 68, 1] = Some (r, A) \<and> rp_stats R = rp_stats A"
  using replay_implements_spec [OF lawful_policies(2), of "[0, 19, 68, 1]" "[]"] by auto

text \<open>The replay does not depend on the ladder or the id map: on any bytes, two lawful policies that accept the same prices give the same result, statistics, observer calls and symbols, and books with the same state hash.\<close>

theorem replay_policies_agree:
  assumes "lawful P l" and "lawful Q k" and "pol_valid_price P l = pol_valid_price Q k" and "length data < 2 ^ 30"
  shows "\<exists>r R1 R2. replay_file P l ss data = Some (r, R1) \<and> replay_file Q k ss data = Some (r, R2)
    \<and> rp_stats R1 = rp_stats R2 \<and> rp_calls R1 = rp_calls R2 \<and> mb_symbols (rp_books R1) = mb_symbols (rp_books R2)
    \<and> (\<forall>s. rel_option (\<lambda>b c. state_hash P b = state_hash Q c) (mb_find s (rp_books R1)) (mb_find s (rp_books R2)))"
proof -
  obtain r R A n where R: "replay_file P l ss data = Some (r, R)" "abs_replay_file (pol_valid_price P l) ss data = Some (r, A)"
    "rp_sim P l n R A" using replay_file_sim [OF assms(1,4), of ss] unfolding replayed_def by blast
  obtain r' R' A' n' where "replay_file Q k ss data = Some (r', R')" "abs_replay_file (pol_valid_price Q k) ss data = Some (r', A')"
    "rp_sim Q k n' R' A'" using replay_file_sim [OF assms(2,4), of ss] unfolding replayed_def by blast
  then have R': "replay_file Q k ss data = Some (r, R')" "rp_sim Q k n' R' A" using R(2) assms(3) by auto
  note m = rp_simD [OF R(3)] and m' = rp_simD [OF R'(2)]
  have "rel_option (\<lambda>b c. state_hash P b = state_hash Q c) (mb_find s (rp_books R)) (mb_find s (rp_books R'))" for s
  proof (cases "map_of (am_books (rp_books A)) s")
    case None
    then have "mb_find s (rp_books R) = None" "mb_find s (rp_books R') = None"
      using multi_symbols [OF m] multi_symbols [OF m'] by (auto simp: mb_find_def mb_symbols_def map_of_eq_None_iff simp flip: set_map)
    then show ?thesis by simp
  next
    case (Some B)
    then show ?thesis using mb_find_sim [OF m Some] mb_find_sim [OF m' Some] by (auto dest!: implementsD(1))
  qed
  then show ?thesis
    using R(1,3) R' multi_symbols [OF m] multi_symbols [OF m'] by (auto simp: rp_sim_def)
qed

theorem replay_policies_agree_witness:
  "\<exists>r R1 R2. replay_file map_open_policy ml_new [] [0, 19, 68, 1] = Some (r, R1) \<and> replay_file pooled_std_policy pm_new [] [0, 19, 68, 1] = Some (r, R2)
    \<and> rp_stats R1 = rp_stats R2"
proof -
  have "pol_valid_price map_open_policy ml_new = pol_valid_price pooled_std_policy pm_new"
    by (simp add: policy_defs ml_valid_price_def pm_valid_price_def fun_eq_iff)
  from replay_policies_agree [OF lawful_policies(2,3) this, of "[0, 19, 68, 1]" "[]"] show ?thesis by auto
qed

text \<open>After any replay the owner index is sound: an order id that the index sends to a symbol rests in the book of that symbol.\<close>

theorem owned_orders_rest:
  assumes "lawful P l" and "length data < 2 ^ 30" and "replay_file P l ss data = Some (r, R)"
    and "mb_book_for_order oid (rp_books R) = Some (Some s)"
  shows "\<exists>b x. mb_find s (rp_books R) = Some b \<and> find_order P oid b = Some (Some x) \<and> ord_id x = oid"
proof -
  obtain A n where R: "rp_sim P l n R A" "owners_ok (rp_books A)"
    using replay_file_sim [OF assms(1,2), of ss] assms(3) unfolding replayed_def by auto
  note m = rp_simD [OF R(1)]
  have "am_owner (rp_books A) oid = Some s" using assms(4) mb_route_sim [OF m] by simp
  then obtain B where B: "map_of (am_books (rp_books A)) s = Some B" "oid \<in> book_ids B" using R(2) by (auto simp: owners_ok_def)
  obtain b where b: "mb_find s (rp_books R) = Some b" "implements P (pol_valid_price P l) b B" using mb_find_sim [OF m B(1)] by blast
  obtain o1 where "find_order P oid b = Some o1"
    "case o1 of None \<Rightarrow> abs_find oid B = None | Some x \<Rightarrow> ord_id x = oid \<and> abs_find oid B
        = Some (ord_side x, ord_price x, \<lparr>en_id = ord_id x, en_qty = ord_qty x, en_owner = ord_participant x\<rparr>)"
    using implementsD(10) [OF b(2)] by blast
  then show ?thesis using b(1) B(2) abs_find_None [of oid B] by (cases o1) auto
qed

subsection \<open>Written feeds\<close>

text \<open>The message an event is on the wire; the timestamp keeps its low 48 bits.\<close>

fun feed_of :: "feed_event \<Rightarrow> feed_msg" where
  "feed_of (SystemEv ts c) = FeedSystem \<lparr>se_timestamp = take_bit 48 ts, se_code = c\<rparr>"
| "feed_of (AddEv ts ref s q stock p) = FeedAdd \<lparr>ao_timestamp = take_bit 48 ts, ao_reference = ref, ao_side = s,
     ao_shares = q, ao_symbol = stock, ao_price = p\<rparr>"
| "feed_of (AddMpidEv ts ref s q stock p mpid) = FeedAdd \<lparr>ao_timestamp = take_bit 48 ts, ao_reference = ref, ao_side = s,
     ao_shares = q, ao_symbol = stock, ao_price = p\<rparr>"
| "feed_of (ExecutedEv ts ref q m) = FeedExecuted \<lparr>oe_timestamp = take_bit 48 ts, oe_reference = ref, oe_shares = q,
     oe_match_number = m, oe_has_price = False, oe_printable = True, oe_price = 0\<rparr>"
| "feed_of (ExecutedPriceEv ts ref q m pr p) = FeedExecuted \<lparr>oe_timestamp = take_bit 48 ts, oe_reference = ref,
     oe_shares = q, oe_match_number = m, oe_has_price = True, oe_printable = pr, oe_price = p\<rparr>"
| "feed_of (CancelEv ts ref q) = FeedCancel \<lparr>oc_timestamp = take_bit 48 ts, oc_reference = ref, oc_shares = q\<rparr>"
| "feed_of (DeleteEv ts ref) = FeedDelete \<lparr>od_timestamp = take_bit 48 ts, od_reference = ref\<rparr>"
| "feed_of (ReplaceEv ts orig fresh q p) = FeedReplace \<lparr>or_timestamp = take_bit 48 ts, or_original_reference = orig,
     or_new_reference = fresh, or_shares = q, or_price = p\<rparr>"
| "feed_of (TradeEv ts ref s q stock p m) = FeedTrade (take_bit 48 ts)"
| "feed_of (DirectoryEv ts stock c) = FeedOther"
| "feed_of (TradingActionEv ts stock st) = FeedOther"

fun event_price :: "feed_event \<Rightarrow> Price" where
  "event_price (AddEv ts ref s q stock p) = p"
| "event_price (AddMpidEv ts ref s q stock p mpid) = p"
| "event_price (ExecutedPriceEv ts ref q m pr p) = p"
| "event_price (ReplaceEv ts orig fresh q p) = p"
| "event_price e = 0"

definition event_ok :: "feed_event \<Rightarrow> bool" where
  "event_ok e \<longleftrightarrow> symbol_ok e \<and> wire_price (event_price e)"

lemma event_first: "rd (event_message e) 0 = Some (msg_char (event_type e))"
  by (simp add: event_message_def rd_def)

lemma event_stamp: "be48 (event_message e) 5 = Some (take_bit 48 (event_time e))"
  by (simp add: event_message_def read_simps)

lemma decode_feed_written: "event_ok e \<Longrightarrow> decode_feed (event_message e) = Some (feed_of e)"
  unfolding decode_feed_def event_first
  by (cases e; simp add: msg_type_char event_ok_def symbol_ok_def decode_written event_stamp del: msg_char.simps)

definition feed_step :: "(Price \<Rightarrow> bool) \<Rightarrow> feed_event \<Rightarrow> AMulti Replayer \<Rightarrow> AMulti Replayer" where
  "feed_step V e A = abs_feed V (feed_of e) (bump (c_message (type_length (event_type e))) A)"

lemma handle_written:
  assumes "\<forall>e \<in> set es. event_ok e"
  shows "handle_all (abs_apply V) (map event_message es) A = Some (fold (feed_step V) es A)"
  using assms
proof (induction es arbitrary: A)
  case (Cons e es)
  then have e: "decode_feed (event_message e) = Some (feed_of e)" "length (event_message e) = type_length (event_type e)"
    using decode_feed_written event_message_length by (simp_all add: event_ok_def)
  show ?case using Cons by (simp add: abs_apply_def e feed_step_def)
qed simp

text \<open>C23: Replaying a feed that the \<^verbatim>\<open>Writer\<close> wrote is applying its events: the reader is content with every byte, and statistics, observer calls, symbols, resting orders and counters are those of the events applied one after the other to specification books, provided prices fit the 32 bits of the wire.\<close>

theorem written_feed_replays:
  assumes "lawful P l" and "\<forall>e \<in> set es. event_ok e" and "length (wr_buf (fold write_event es writer_new)) < 2 ^ 30"
  shows "\<exists>r R. replay_file P l ss (wr_buf (fold write_event es writer_new)) = Some (r, R)
    \<and> read_ok r \<and> rr_messages r = length es
    \<and> follows P R (fold (feed_step (pol_valid_price P l)) es (track_only ss (replayer_new amulti_new)))"
proof -
  have ok: "\<forall>e \<in> set es. symbol_ok e" using assms(2) by (simp add: event_ok_def)
  have count: "wr_count (fold write_event es writer_new) = length es"
    using write_events_append(2) [OF ok, of writer_new] by (simp add: writer_new_def)
  obtain r R A where R: "replay_file P l ss (wr_buf (fold write_event es writer_new)) = Some (r, R)"
    "abs_replay_file (pol_valid_price P l) ss (wr_buf (fold write_event es writer_new)) = Some (r, A)" and n: "follows P R A"
    using replay_follows [OF assms(1,3), of ss] by blast
  have "(r, A) = (read_result_default\<lparr>rr_messages := length es, rr_offset := length (wr_buf (fold write_event es writer_new))\<rparr>,
      fold (feed_step (pol_valid_price P l)) es (track_only ss (replayer_new amulti_new)))"
    using R(2) unfolding abs_replay_file_def written_feed_back [OF ok] handle_written [OF assms(2)] count by simp
  then show ?thesis using R(1) n by (simp add: read_ok_def read_result_default_def)
qed

lemmas feed_eval = abs_eval feed_step_def abs_new_order_def abs_take_def abs_routed_def am_book_def am_update_def am_note_def
  am_forget_def with_books_def bump_def observe_def tracked_def track_only_def replayer_new_def amulti_new_def stats_zero_def
  c_time_def c_add_def c_clamp_def c_execution_def c_cancel_def c_delete_def c_replace_def c_shares_added_def c_message_def
  c_unknown_def c_skipped_def c_trade_def c_session_def

definition sample_feed :: "feed_event list" where
  "sample_feed = [AddEv 1 7 Bid 100 (symbol_of [65]) 5000, ExecutedEv 2 7 40 1, DeleteEv 3 9]"

lemma sample_ok: "\<forall>e \<in> set sample_feed. event_ok e" "length (wr_buf (fold write_event sample_feed writer_new)) < 2 ^ 30"
proof -
  show ok: "\<forall>e \<in> set sample_feed. event_ok e" by (simp add: sample_feed_def event_ok_def symbol_ok_def wire_price_def)
  then have "\<forall>e \<in> set sample_feed. symbol_ok e" by (simp add: event_ok_def)
  from write_events_append(1) [OF this, of writer_new] show "length (wr_buf (fold write_event sample_feed writer_new)) < 2 ^ 30"
    by (simp add: writer_new_def sample_feed_def event_frame_def event_message_def put_price_def)
qed

theorem written_feed_replays_witness:
  "\<exists>r R b. replay_file map_std_policy ml_new [] (wr_buf (fold write_event sample_feed writer_new)) = Some (r, R)
    \<and> read_ok r \<and> mb_find (symbol_of [65]) (rp_books R) = Some b
    \<and> resting map_std_policy Bid b = Some [(5000, \<lparr>en_id = 7, en_qty = 60, en_owner = 0\<rparr>)]
    \<and> st_shares_executed (rp_stats R) = 40 \<and> st_unknown_reference (rp_stats R) = 1"
proof -
  obtain r R where R: "replay_file map_std_policy ml_new [] (wr_buf (fold write_event sample_feed writer_new)) = Some (r, R)" "read_ok r"
    "follows map_std_policy R (fold (feed_step (\<lambda>_. True)) sample_feed (track_only [] (replayer_new amulti_new)))"
    using written_feed_replays [OF lawful_policies(1) sample_ok, of "[]"] unfolding map_std_valid by blast
  have B: "\<exists>B. map_of (am_books (rp_books (fold (feed_step (\<lambda>_. True)) sample_feed (track_only [] (replayer_new amulti_new))))) (symbol_of [65]) = Some B
      \<and> flat (ab_levels B Bid) = [(5000, \<lparr>en_id = 7, en_qty = 60, en_owner = 0\<rparr>)]"
    by (simp add: sample_feed_def feed_eval)
  have st: "rp_stats R = rp_stats (fold (feed_step (\<lambda>_. True)) sample_feed (track_only [] (replayer_new amulti_new)))"
    using R(3) by (simp add: follows_def)
  have "st_shares_executed (rp_stats R) = 40" "st_unknown_reference (rp_stats R) = 1"
    unfolding st by (simp_all add: sample_feed_def feed_eval)
  then show ?thesis using R(1,2) B follows_book [OF R(3), of _ _ Bid] by metis
qed

theorem owned_orders_rest_witness:
  "\<exists>r R b x. replay_file map_std_policy ml_new [] (wr_buf (fold write_event sample_feed writer_new)) = Some (r, R)
    \<and> mb_find (symbol_of [65]) (rp_books R) = Some b \<and> find_order map_std_policy 7 b = Some (Some x) \<and> ord_id x = 7"
proof -
  obtain r R A where R: "replay_file map_std_policy ml_new [] (wr_buf (fold write_event sample_feed writer_new)) = Some (r, R)"
    "abs_replay_file (\<lambda>_. True) [] (wr_buf (fold write_event sample_feed writer_new)) = Some (r, A)"
    "\<forall>oid. mb_book_for_order oid (rp_books R) = Some (am_owner (rp_books A) oid)"
    using replay_follows [OF lawful_policies(1) sample_ok(2), of "[]"] unfolding map_std_valid by blast
  have ok: "\<forall>e \<in> set sample_feed. symbol_ok e" using sample_ok(1) by (simp add: event_ok_def)
  have "A = fold (feed_step (\<lambda>_. True)) sample_feed (track_only [] (replayer_new amulti_new))"
    using R(2) unfolding abs_replay_file_def written_feed_back [OF ok] handle_written [OF sample_ok(1)] by simp
  then have "am_owner (rp_books A) 7 = Some (symbol_of [65])" by (simp add: sample_feed_def feed_eval)
  then show ?thesis using owned_orders_rest [OF lawful_policies(1) sample_ok(2) R(1), of 7 "symbol_of [65]"] R(1,3) by auto
qed

subsection \<open>The statistics against the books\<close>

definition sum_books :: "(Counters \<Rightarrow> u64) \<Rightarrow> (Symbol \<times> ABook) list \<Rightarrow> u64" where
  "sum_books f Bs = (\<Sum>(s, B)\<leftarrow>Bs. f (ab_counters B))"

definition tally :: "AMulti Replayer \<Rightarrow> bool" where
  "tally A \<longleftrightarrow> distinct (map fst (am_books (rp_books A)))
     \<and> (\<forall>s B. map_of (am_books (rp_books A)) s = Some B \<longrightarrow> traded_qty (ab_counters B) = 0 \<and> balanced B)
     \<and> st_shares_added (rp_stats A) = sum_books added_qty (am_books (rp_books A))
     \<and> st_shares_executed (rp_stats A) = sum_books executed_qty (am_books (rp_books A))"

text \<open>One book has moved on by \<open>da\<close> added and \<open>de\<close> executed shares.\<close>

definition moved :: "ABook \<Rightarrow> ABook \<Rightarrow> u64 \<Rightarrow> u64 \<Rightarrow> bool" where
  "moved B B' da de \<longleftrightarrow> added_qty (ab_counters B') = added_qty (ab_counters B) + da
     \<and> executed_qty (ab_counters B') = executed_qty (ab_counters B) + de
     \<and> traded_qty (ab_counters B') = traded_qty (ab_counters B) \<and> (balanced B \<longrightarrow> balanced B')"

lemma moved_trans: "moved B C a e \<Longrightarrow> moved C D a' e' \<Longrightarrow> moved B D (a + a') (e + e')"
  by (simp add: moved_def)

lemma sum_books_update:
  assumes "distinct (map fst Bs)" and "map_of Bs s = Some B"
  shows "sum_books f (map (\<lambda>(t, C). (t, if t = s then B' else C)) Bs) + f (ab_counters B) = sum_books f Bs + f (ab_counters B')"
proof -
  have same: "map (\<lambda>(t, C). (t, if t = s then B' else C)) Bs = Bs" if "s \<notin> fst ` set Bs" for Bs
    using that by (induction Bs) auto
  show ?thesis
    using assms
  proof (induction Bs)
    case (Cons x Bs)
    have step: "sum_books f ((t, C) # Cs) = f (ab_counters C) + sum_books f Cs" for t C Cs by (simp add: sum_books_def)
    obtain t C where x: "x = (t, C)" by force
    show ?case
    proof (cases "t = s")
      case True
      then show ?thesis using Cons.prems same [of Bs] by (simp add: x step)
    next
      case False
      then show ?thesis using Cons by (simp add: x step algebra_simps)
    qed
  qed simp
qed

lemma tally_bump [simp]:
  "st_shares_added (f (rp_stats A)) = st_shares_added (rp_stats A) \<Longrightarrow>
   st_shares_executed (f (rp_stats A)) = st_shares_executed (rp_stats A) \<Longrightarrow> tally (bump f A) = tally A"
  by (simp add: tally_def bump_def)

lemma tally_observe [simp]: "tally (observe c A) = tally A"
  by (simp add: tally_def observe_def)

lemma tally_owner [simp]:
  "tally (with_books (am_forget oid) A) = tally A" "tally (with_books (am_note oid s) A) = tally A"
  by (simp_all add: tally_def with_books_def am_forget_def am_note_def)

lemma stats_other [simp]:
  "rp_stats (with_books g A) = rp_stats A" "rp_stats (observe c A) = rp_stats A" "rp_stats (bump f A) = f (rp_stats A)"
  by (simp_all add: with_books_def observe_def bump_def)

lemma stats_counts [simp]:
  "st_shares_added (c_time ts st) = st_shares_added st" "st_shares_executed (c_time ts st) = st_shares_executed st"
  "st_shares_added (c_unknown st) = st_shares_added st" "st_shares_executed (c_unknown st) = st_shares_executed st"
  "st_shares_added (c_skipped st) = st_shares_added st" "st_shares_executed (c_skipped st) = st_shares_executed st"
  "st_shares_added (c_clamp x y st) = st_shares_added st" "st_shares_executed (c_clamp x y st) = st_shares_executed st"
  "st_shares_added (c_cancel st) = st_shares_added st" "st_shares_executed (c_cancel st) = st_shares_executed st"
  "st_shares_added (c_delete st) = st_shares_added st" "st_shares_executed (c_delete st) = st_shares_executed st"
  "st_shares_added (c_replace st) = st_shares_added st" "st_shares_executed (c_replace st) = st_shares_executed st"
  "st_shares_added (c_trade st) = st_shares_added st" "st_shares_executed (c_trade st) = st_shares_executed st"
  "st_shares_added (c_session c st) = st_shares_added st" "st_shares_executed (c_session c st) = st_shares_executed st"
  "st_shares_added (c_message n st) = st_shares_added st" "st_shares_executed (c_message n st) = st_shares_executed st"
  "st_shares_added (c_add q st) = st_shares_added st + ucast q" "st_shares_executed (c_add q st) = st_shares_executed st"
  "st_shares_added (c_shares_added q st) = st_shares_added st + ucast q" "st_shares_executed (c_shares_added q st) = st_shares_executed st"
  "st_shares_added (c_execution q st) = st_shares_added st" "st_shares_executed (c_execution q st) = st_shares_executed st + ucast q"
  by (simp_all add: c_time_def c_unknown_def c_skipped_def c_clamp_def c_cancel_def c_delete_def c_replace_def c_trade_def
    c_session_def c_message_def c_add_def c_shares_added_def c_execution_def)

lemma tally_update:
  assumes "tally A" and "map_of (am_books (rp_books A)) s = Some B" and "moved B B' da de"
    and "st_shares_added (f (rp_stats A)) = st_shares_added (rp_stats A) + da"
    and "st_shares_executed (f (rp_stats A)) = st_shares_executed (rp_stats A) + de"
  shows "tally (bump f (with_books (am_update s B') A))"
proof -
  have d: "distinct (map fst (am_books (rp_books A)))" using assms(1) by (simp add: tally_def)
  have k: "map fst (map (\<lambda>(t, C). (t, if t = s then B' else C)) Bs) = map fst Bs" for Bs by (induction Bs) auto
  have "sum_books added_qty (map (\<lambda>(t, C). (t, if t = s then B' else C)) (am_books (rp_books A))) + added_qty (ab_counters B)
      = sum_books added_qty (am_books (rp_books A)) + da + added_qty (ab_counters B)"
    "sum_books executed_qty (map (\<lambda>(t, C). (t, if t = s then B' else C)) (am_books (rp_books A))) + executed_qty (ab_counters B)
      = sum_books executed_qty (am_books (rp_books A)) + de + executed_qty (ab_counters B)"
    using sum_books_update [OF d assms(2), of added_qty B'] sum_books_update [OF d assms(2), of executed_qty B'] assms(3)
    by (simp_all add: moved_def algebra_simps)
  then show ?thesis using assms d
    unfolding tally_def bump_def with_books_def am_update_def moved_def by (auto simp: k map_of_set simp del: map_map)
qed

lemma moved_cancel: "abook_ok V B \<Longrightarrow> moved B (snd (abs_cancel oid B)) 0 0"
  using balanced_cancel [of V B oid]
  by (auto simp: moved_def abs_cancel_def abs_remove_def abs_count_def c_canceled_def split: option.split)

lemma moved_consume:
  assumes "abook_ok V B" and "abs_consume oid q is_exec B = (r, taken, B')"
  shows "moved B B' 0 (if is_exec then ucast taken else 0)"
  using assms(2) balanced_consume [OF assms(1), of oid q is_exec]
  by (auto simp: moved_def abs_consume_def abs_remove_def abs_count_def c_canceled_def c_executed_def Let_def
      split: option.splits if_splits)

lemma moved_passive:
  assumes "\<And>s. ladder_sorted s (ab_levels B s)" and "abs_insert_passive W oid s p q B = (r, B')"
  shows "moved B B' (if r = Ok then ucast q else 0) 0"
proof -
  have "executed_qty (ab_counters (abs_count (c_added q) B)) = executed_qty (ab_counters B)"
    "traded_qty (ab_counters (abs_count (c_added q) B)) = traded_qty (ab_counters B)"
    by (simp_all add: abs_count_def c_added_def)
  moreover have "ladder_sorted s (ab_levels (abs_count (c_added q) B) s)" using assms(1) by (simp add: accounted_counts)
  ultimately show ?thesis
    using assms(2) accounted_rest [of s "abs_count (c_added q) B" oid p q 0]
    by (auto simp: moved_def abs_insert_passive_def balanced_def accounted_counts Let_def split: if_splits)
qed

lemma tally_new_order:
  assumes "tally A" and "map_of (am_books (rp_books A)) s = Some B0" and "moved B0 B 0 0"
    and "\<And>s. ladder_sorted s (ab_levels B s)"
    and "\<And>st. st_shares_added (count st) = st_shares_added st + ucast q" "\<And>st. st_shares_executed (count st) = st_shares_executed st"
  shows "tally (abs_new_order V oid side p q count c s B A)"
proof -
  obtain r B' where B': "abs_insert_passive V oid side p q B = (r, B')" by force
  have m: "moved B0 B' (if r = Ok then ucast q else 0) 0"
    using moved_trans [OF assms(3) moved_passive [OF assms(4) B']] by simp
  show ?thesis
  proof (cases "r = Ok")
    case True
    have "bump count (with_books (am_note oid s) (with_books (am_update s B') A)) = with_books (am_note oid s) (bump count (with_books (am_update s B') A))"
      by (simp add: bump_def with_books_def)
    then show ?thesis using tally_update [OF assms(1,2) m, of count] True assms(5,6) B' by (simp add: abs_new_order_def)
  next
    case False
    have "bump (\<lambda>st. st) R = R" for R :: "AMulti Replayer" by (simp add: bump_def)
    then show ?thesis using tally_update [OF assms(1,2) m, of "\<lambda>st. st"] False B' by (simp add: abs_new_order_def)
  qed
qed

lemma tally_feed:
  assumes t: "tally A" and "owners_ok (rp_books A)" and ok: "books_ok W (rp_books A)"
  shows "tally (abs_feed V m (bump (c_message len) A))"
proof -
  have t0: "tally (bump f A)" if "\<And>st. st_shares_added (f st) = st_shares_added st" "\<And>st. st_shares_executed (f st) = st_shares_executed st" for f
    using t that by simp
  have routed: "tally (abs_routed oid f (bump g (bump (c_message len) A)))"
    if "\<And>st. st_shares_added (g st) = st_shares_added st" "\<And>st. st_shares_executed (g st) = st_shares_executed st"
      and "\<And>s B A'. map_of (am_books (rp_books A)) s = Some B \<Longrightarrow> abook_ok W B \<Longrightarrow> tally A' \<Longrightarrow> rp_books A' = rp_books A \<Longrightarrow> tally (f s B A')"
    for oid f g
  proof -
    have "tally (bump g (bump (c_message len) A))" using t that(1,2) by simp
    moreover have "\<exists>B. map_of (am_books (rp_books A)) s = Some B \<and> abook_ok W B" if "am_owner (rp_books A) oid = Some s" for s
      using that assms(2,3) unfolding owners_ok_def books_ok_def by blast
    ultimately show ?thesis using that(3) by (fastforce simp: abs_routed_def split: option.split)
  qed
  have id: "bump (\<lambda>st. st) R = R" for R :: "AMulti Replayer" by (simp add: bump_def)
  have take: "tally (abs_take is_exec oid q ts count s B A')"
    if a: "map_of (am_books (rp_books A)) s = Some B" "abook_ok W B" "tally A'" "rp_books A' = rp_books A"
      and "\<And>x st. st_shares_added (count x st) = st_shares_added st"
        "\<And>x st. st_shares_executed (count x st) = st_shares_executed st + (if is_exec then ucast x else 0)"
    for is_exec oid q ts count s B A'
  proof -
    obtain r taken B' where B': "abs_consume oid q is_exec B = (r, taken, B')" by (metis prod_cases3)
    have "map_of (am_books (rp_books A')) s = Some B" using a by simp
    from tally_update [OF a(3) this moved_consume [OF a(2) B'], of "count taken \<circ> c_clamp taken q"] that(5,6)
    have "tally (bump (count taken) (bump (c_clamp taken q) (with_books (am_update s B') A')))"
      by (simp add: bump_def comp_def)
    then show ?thesis using B' by (auto simp: abs_take_def Let_def)
  qed
  show ?thesis
  proof (cases m)
    case (FeedAdd x)
    define A1 where "A1 = bump (c_time (ao_timestamp x)) (bump (c_message len) A)"
    have t1: "tally A1" "rp_books A1 = rp_books A" "rp_filter A1 = rp_filter A" using t by (simp_all add: A1_def)
    obtain B M where B: "am_book (ao_symbol x) (rp_books A) = (B, M)" by force
    have "balanced abook_new" by (simp add: balanced_def accounted_def abook_new_def counters_zero_def levels_qty_def)
    moreover have "sum_books f (Bs @ [(s, abook_new)]) = sum_books f Bs + f counters_zero" for f s Bs
      by (simp add: sum_books_def abook_new_def)
    ultimately have "tally (with_books (\<lambda>_. M) A1)"
      using B t1 by (auto simp: tally_def am_book_def with_books_def map_of_eq_None_iff map_add_def counters_zero_def
          abook_new_def split: option.splits if_splits)
    moreover have "map_of (am_books M) (ao_symbol x) = Some B" "ladder_sorted s (ab_levels B s)" for s
      using B ok abook_okD(1) [of W B] by (auto simp: am_book_def map_add_def books_ok_def abook_new_def split: option.splits)
    moreover have "moved B B 0 0" by (simp add: moved_def)
    ultimately show ?thesis using B t1
      by (auto simp: FeedAdd Let_def A1_def [symmetric] intro!: tally_new_order)
  next
    case (FeedExecuted x)
    show ?thesis unfolding FeedExecuted abs_feed.simps by (intro routed take) simp_all
  next
    case (FeedCancel x)
    show ?thesis unfolding FeedCancel abs_feed.simps by (intro routed take) simp_all
  next
    case (FeedDelete x)
    have "tally (with_books (am_update s (snd (abs_cancel oid B))) A')"
      if "map_of (am_books (rp_books A)) s = Some B" "abook_ok W B" "tally A'" "rp_books A' = rp_books A" for s oid B A'
      using tally_update [OF that(3) _ moved_cancel [OF that(2)], of s "\<lambda>st. st" oid] that(1,4) by (simp add: id)
    then show ?thesis unfolding FeedDelete abs_feed.simps by (intro routed) simp_all
  next
    case (FeedReplace x)
    have upd: "tally (with_books (am_update s (snd (abs_cancel oid B))) A')"
      if "map_of (am_books (rp_books A)) s = Some B" "abook_ok W B" "tally A'" "rp_books A' = rp_books A" for s oid B A'
      using tally_update [OF that(3) _ moved_cancel [OF that(2)], of s "\<lambda>st. st" oid] that(1,4) by (simp add: id)
    have "tally (abs_new_order V i side p q (c_shares_added q) c s (snd (abs_cancel oid B))
        (with_books (am_forget oid) (with_books (am_update s (snd (abs_cancel oid B))) A')))"
      if "map_of (am_books (rp_books A)) s = Some B" "abook_ok W B" "tally A'" "rp_books A' = rp_books A" for s oid B A' i side p q c
      using upd [OF that] that abook_okD(1) [OF that(2)]
      by (intro tally_new_order [where ?B0.0 = "snd (abs_cancel oid B)"] sorted_cancel)
        (auto simp: moved_def am_forget_def am_update_def map_of_set)
    then show ?thesis unfolding FeedReplace abs_feed.simps
      by (intro routed) (auto simp: Let_def split: option.split)
  qed (use t in simp_all)
qed

lemma sample_replay:
  obtains r R where "replay_file map_std_policy ml_new [] (wr_buf (fold write_event sample_feed writer_new)) = Some (r, R)"
    and "follows map_std_policy R (fold (feed_step (\<lambda>_. True)) sample_feed (track_only [] (replayer_new amulti_new)))"
proof -
  have ok: "\<forall>e \<in> set sample_feed. symbol_ok e" using sample_ok(1) by (simp add: event_ok_def)
  obtain r R A where R: "replay_file map_std_policy ml_new [] (wr_buf (fold write_event sample_feed writer_new)) = Some (r, R)"
    "abs_replay_file (\<lambda>_. True) [] (wr_buf (fold write_event sample_feed writer_new)) = Some (r, A)" "follows map_std_policy R A"
    using replay_follows [OF lawful_policies(1) sample_ok(2), of "[]"] unfolding map_std_valid by blast
  have "A = fold (feed_step (\<lambda>_. True)) sample_feed (track_only [] (replayer_new amulti_new))"
    using R(2) unfolding abs_replay_file_def written_feed_back [OF ok] handle_written [OF sample_ok(1)] by simp
  then show thesis using that R(1,3) by blast
qed

definition open_shares :: "('l, 'm) policy \<Rightarrow> ('l, 'm) OrderBook \<Rightarrow> u64" where
  "open_shares P b = resting_qty (the (resting P Bid b)) + resting_qty (the (resting P Ask b))"

definition over_books :: "(('l, 'm) OrderBook \<Rightarrow> u64) \<Rightarrow> ('l, 'm) MultiBook \<Rightarrow> u64" where
  "over_books f M = (\<Sum>(s, b)\<leftarrow>mb_books M. f b)"

lemma over_books_sim:
  assumes "books_sim P V n bs As" and "\<And>b B. implements P V b B \<Longrightarrow> f b = g B"
  shows "(\<Sum>(s, b)\<leftarrow>bs. f b) = (\<Sum>(s, B)\<leftarrow>As. g B)"
  using assms(1) unfolding books_sim_def
  by (induction bs As rule: list_all2_induct) (auto simp: assms(2) split: prod.splits)

lemma open_shares_sim: "implements P V b B \<Longrightarrow> open_shares P b = levels_qty (ab_levels B Bid) + levels_qty (ab_levels B Ask)"
  by (simp add: open_shares_def implementsD(3) resting_qty_flat)

text \<open>After any replay the statistics agree with the books, modulo 2 to the 64th: the shares counted as added and as executed are the sums of the books' counters, and what was added is what was executed, what the books count as canceled, and what rests in them.\<close>

theorem replay_statistics_agree:
  assumes "lawful P l" and "length data < 2 ^ 30" and "replay_file P l ss data = Some (r, R)"
  shows "st_shares_added (rp_stats R) = over_books (\<lambda>b. added_qty (bk_counters b)) (rp_books R)
    \<and> st_shares_executed (rp_stats R) = over_books (\<lambda>b. executed_qty (bk_counters b)) (rp_books R)
    \<and> st_shares_added (rp_stats R) = st_shares_executed (rp_stats R)
        + over_books (\<lambda>b. canceled_qty (bk_counters b)) (rp_books R) + over_books (open_shares P) (rp_books R)"
proof -
  have init: "tally (track_only ss (replayer_new amulti_new))"
    by (simp add: tally_def track_only_def replayer_new_def amulti_new_def stats_zero_def sum_books_def)
  have step: "tally (abs_feed (pol_valid_price P l) m (bump (c_message len) A))"
    if "decode_feed msg = Some m" "tally A" "owners_ok (rp_books A)" "books_ok (pol_valid_price P l) (rp_books A)" for A m msg len
    using tally_feed that(2-4) by blast
  have "\<exists>r R A k. replay_file P l ss data = Some (r, R) \<and> abs_replay_file (pol_valid_price P l) ss data = Some (r, A)
    \<and> replayed P l k R A \<and> k \<le> length data \<and> tally A"
    by (rule replay_file_run [OF assms(1,2), where J = "tally"]) (rule init, rule step)
  then obtain A n where A: "rp_sim P l n R A" "tally A"
    using assms(3) unfolding replayed_def by auto
  have sim: "books_sim P (pol_valid_price P l) n (mb_books (rp_books R)) (am_books (rp_books A))"
    using rp_simD [OF A(1)] by (simp add: multi_sim_def)
  have st: "rp_stats R = rp_stats A" using A(1) by (simp add: rp_sim_def)
  have c: "over_books (\<lambda>b. f (bk_counters b)) (rp_books R) = sum_books f (am_books (rp_books A))" for f
    unfolding over_books_def sum_books_def by (rule over_books_sim [OF sim]) (simp add: implementsD(5))
  have o1: "over_books (open_shares P) (rp_books R)
      = (\<Sum>(s, B)\<leftarrow>am_books (rp_books A). levels_qty (ab_levels B Bid) + levels_qty (ab_levels B Ask))"
    unfolding over_books_def by (rule over_books_sim [OF sim open_shares_sim])
  have "sum_books added_qty Bs = sum_books executed_qty Bs + sum_books canceled_qty Bs
      + (\<Sum>(s, B)\<leftarrow>Bs. levels_qty (ab_levels B Bid) + levels_qty (ab_levels B Ask))"
    if "\<forall>(s, B) \<in> set Bs. traded_qty (ab_counters B) = 0 \<and> balanced B" for Bs
    using that by (induction Bs) (auto simp: sum_books_def balanced_def accounted_def algebra_simps)
  moreover have "\<forall>(s, B) \<in> set (am_books (rp_books A)). traded_qty (ab_counters B) = 0 \<and> balanced B"
    using A(2) by (auto simp: tally_def)
  ultimately show ?thesis using A(2) unfolding st c o1 by (simp add: tally_def)
qed

theorem replay_statistics_agree_witness:
  "\<exists>r R. replay_file map_std_policy ml_new [] (wr_buf (fold write_event sample_feed writer_new)) = Some (r, R)
    \<and> over_books (\<lambda>b. added_qty (bk_counters b)) (rp_books R) = 100 \<and> over_books (open_shares map_std_policy) (rp_books R)
      = 60 - over_books (\<lambda>b. canceled_qty (bk_counters b)) (rp_books R)"
proof -
  obtain r R where R: "replay_file map_std_policy ml_new [] (wr_buf (fold write_event sample_feed writer_new)) = Some (r, R)"
    "follows map_std_policy R (fold (feed_step (\<lambda>_. True)) sample_feed (track_only [] (replayer_new amulti_new)))"
    by (rule sample_replay)
  have "st_shares_added (rp_stats R) = 100" "st_shares_executed (rp_stats R) = 40"
    unfolding follows_stats [OF R(2)] by (simp_all add: sample_feed_def feed_eval)
  then show ?thesis using replay_statistics_agree [OF lawful_policies(1) sample_ok(2) R(1)] R(1)
    by (auto simp: algebra_simps)
qed

subsection \<open>Messages that leave the books alone\<close>

text \<open>A non-cross trade, a system event and every administrative or unknown message change no book and no owner and make no observer call; a trade only counts itself and moves the clock.\<close>

theorem trades_leave_books_alone:
  assumes "message_ok msg"
    and "msg_type (hd msg) \<notin> Some ` {MsgType.AddOrder, AddOrderMpid, MsgType.OrderExecuted, OrderExecutedWithPrice,
      MsgType.OrderCancel, MsgType.OrderDelete, MsgType.OrderReplace}"
  shows "\<exists>R'. replay_apply P l msg len R = Some R' \<and> rp_books R' = rp_books R \<and> rp_calls R' = rp_calls R
    \<and> st_trades (rp_stats R') = st_trades (rp_stats R) + (if msg_type (hd msg) = Some TradeNonCross then 1 else 0)
    \<and> st_shares_added (rp_stats R') = st_shares_added (rp_stats R)
    \<and> st_shares_executed (rp_stats R') = st_shares_executed (rp_stats R)"
proof -
  obtain m where m: "decode_feed msg = Some m" using decode_feed_ok [OF assms(1)] by blast
  have t: "rd msg 0 = Some (hd msg)" using assms(1) by (auto simp: message_ok_def rd_def hd_conv_nth)
  show ?thesis
    using m assms(2) unfolding decode_feed_def replay_apply_def t
    by (auto simp: bump_def c_message_def c_trade_def c_time_def c_session_def split: option.splits MsgType.splits)
qed

theorem trades_leave_books_alone_witness:
  "\<exists>R'. replay_apply map_std_policy ml_new (event_message (TradeEv 1 7 Bid 100 (symbol_of [65]) 5000 3)) 44
      (replayer_new \<lparr>mb_books = [], mb_owner = \<lparr>om_slots = [], om_mask = 0, om_size = 0\<rparr>\<rparr>) = Some R'
    \<and> mb_books (rp_books R') = [] \<and> st_trades (rp_stats R') = 1"
proof -
  have ok: "message_ok (event_message (TradeEv 1 7 Bid 100 (symbol_of [65]) 5000 3))"
    by (rule event_message_ok) (simp add: symbol_ok_def)
  have h: "hd (event_message (TradeEv 1 7 Bid 100 (symbol_of [65]) 5000 3)) = msg_char TradeNonCross"
    by (simp add: event_message_def)
  show ?thesis
    using trades_leave_books_alone [OF ok, of map_std_policy ml_new 44
        "replayer_new \<lparr>mb_books = [], mb_owner = \<lparr>om_slots = [], om_mask = 0, om_size = 0\<rparr>\<rparr>"]
    unfolding h by (auto simp: msg_type_char replayer_new_def stats_zero_def simp del: msg_char.simps)
qed

subsection \<open>The symbol filter\<close>

lemma decoded_symbol: "decode_feed msg = Some (FeedAdd x) \<Longrightarrow> length (ao_symbol x) = 8"
  by (auto simp: decode_feed_def decode_add_order_def dest: symbol_from_wire_Some split: bind_splits option.splits MsgType.splits)

definition only_tracked :: "Symbol list \<Rightarrow> AMulti Replayer \<Rightarrow> bool" where
  "only_tracked ss A \<longleftrightarrow> rp_filter A = set (map symbol_bits ss) \<and> fst ` set (am_books (rp_books A)) \<subseteq> set ss"

lemma only_tracked_simps [simp]:
  "only_tracked ss (bump f A) = only_tracked ss A" "only_tracked ss (observe c A) = only_tracked ss A"
  "only_tracked ss (with_books (am_forget oid) A) = only_tracked ss A"
  "only_tracked ss (with_books (am_note oid s) A) = only_tracked ss A"
  "only_tracked ss (with_books (am_update s B) A) = only_tracked ss A"
  by (simp_all add: only_tracked_def bump_def observe_def with_books_def am_forget_def am_note_def am_update_def image_image split_beta)

lemma only_tracked_feed:
  assumes "decode_feed msg = Some m" and "only_tracked ss A" and "ss \<noteq> []" and "\<forall>s \<in> set ss. length s = 8"
  shows "only_tracked ss (abs_feed V m (bump (c_message len) A))"
proof -
  have new: "only_tracked ss (abs_new_order V oid side p q count c s B A') = only_tracked ss A'" for oid side p q count c s B A'
    by (simp add: abs_new_order_def split_beta Let_def)
  have take: "only_tracked ss (abs_take is_exec oid q ts count s B A') = only_tracked ss A'" for is_exec oid q ts count s B A'
    by (simp add: abs_take_def split_beta Let_def)
  have routed: "only_tracked ss (abs_routed oid f A')" if "only_tracked ss A'" "\<And>s B A'. only_tracked ss (f s B A') = only_tracked ss A'" for oid f A'
    using that by (simp add: abs_routed_def split: option.split)
  show ?thesis
  proof (cases m)
    case (FeedAdd x)
    have x: "length (ao_symbol x) = 8" using assms(1) decoded_symbol FeedAdd by blast
    show ?thesis
    proof (cases "tracked (rp_filter A) (ao_symbol x)")
      case True
      have "symbol_bits (ao_symbol x) \<in> symbol_bits ` set ss" using True assms(2,3) by (simp add: tracked_def only_tracked_def)
      then have "ao_symbol x \<in> set ss" using x assms(4) symbol_bits_inj by fastforce
      then have "only_tracked ss (with_books (\<lambda>_. snd (am_book (ao_symbol x) (rp_books A))) A')"
        if "only_tracked ss A'" "rp_books A' = rp_books A" for A'
        using that by (auto simp: only_tracked_def with_books_def am_book_def split: option.split)
      then show ?thesis using assms(2) True by (auto simp: FeedAdd new split_beta Let_def)
    qed (use assms(2) in \<open>simp add: FeedAdd\<close>)
  next
    case (FeedReplace x)
    show ?thesis unfolding FeedReplace abs_feed.simps
      by (rule routed) (use assms(2) in \<open>simp_all add: new Let_def split: option.split prod.split\<close>)
  qed (use assms(2) in \<open>auto intro!: routed simp: take\<close>)
qed

text \<open>With a symbol filter, a replay of any bytes never makes a book for a symbol outside it.\<close>

theorem filter_keeps_others_out:
  assumes "lawful P l" and "length data < 2 ^ 30" and "ss \<noteq> []" and "\<forall>s \<in> set ss. length s = 8"
    and "replay_file P l ss data = Some (r, R)"
  shows "set (mb_symbols (rp_books R)) \<subseteq> set ss"
proof -
  have init: "only_tracked ss (track_only ss (replayer_new amulti_new))"
    by (simp add: only_tracked_def track_only_def replayer_new_def amulti_new_def)
  have step: "only_tracked ss (abs_feed (pol_valid_price P l) m (bump (c_message len) A))"
    if "decode_feed msg = Some m" "only_tracked ss A" "owners_ok (rp_books A)" "books_ok (pol_valid_price P l) (rp_books A)" for A m msg len
    using only_tracked_feed [OF that(1,2) assms(3,4)] .
  have "\<exists>r R A k. replay_file P l ss data = Some (r, R) \<and> abs_replay_file (pol_valid_price P l) ss data = Some (r, A)
    \<and> replayed P l k R A \<and> k \<le> length data \<and> only_tracked ss A"
    by (rule replay_file_run [OF assms(1,2), where J = "only_tracked ss"]) (rule init, rule step)
  then obtain A n where A: "rp_sim P l n R A" "only_tracked ss A"
    using assms(5)
    unfolding replayed_def by auto
  then show ?thesis using multi_symbols [OF rp_simD [OF A(1)]] by (simp add: only_tracked_def)
qed

theorem filter_keeps_others_out_witness:
  "\<exists>r R. replay_file map_std_policy ml_new [symbol_of [66]] (wr_buf (fold write_event sample_feed writer_new)) = Some (r, R)
    \<and> set (mb_symbols (rp_books R)) \<subseteq> {symbol_of [66]}"
proof -
  obtain r R where R: "replay_file map_std_policy ml_new [symbol_of [66]] (wr_buf (fold write_event sample_feed writer_new)) = Some (r, R)"
    using replay_follows [OF lawful_policies(1) sample_ok(2), of "[symbol_of [66]]"] by blast
  show ?thesis using filter_keeps_others_out [OF lawful_policies(1) sample_ok(2) _ _ R] R by auto
qed

end
