(* ===== verification/Wire.thy ===== *)
theory Wire
  imports Bytes Book
begin

text \<open>
  The order-entry protocol (\<^verbatim>\<open>include/pricetime/wire.hpp\<close>): 40-byte little-endian messages with a magic tag
  at their end.  The enumerators \<^verbatim>\<open>kind\<close> and \<^verbatim>\<open>code\<close> are the bytes themselves, because a decoder
  casts any byte to them.  A side byte other than 0 behaves as \<^verbatim>\<open>Ask\<close>: the code only ever asks
  whether a side is \<^verbatim>\<open>Bid\<close>.
\<close>

definition kMessageSize :: nat where
  "kMessageSize = 40"

definition kMagic0 :: u8 where
  "kMagic0 = ch CHR ''p''"

definition kMagic1 :: u8 where
  "kMagic1 = ch CHR ''t''"

subsection \<open>Little-endian fields\<close>

definition put_le32 :: "u32 \<Rightarrow> bytes" where
  "put_le32 v = map (\<lambda>i. ucast (drop_bit (8 * i) v)) [0..<4]"

definition put_le64 :: "u64 \<Rightarrow> bytes" where
  "put_le64 v = map (\<lambda>i. ucast (drop_bit (8 * i) v)) [0..<8]"

definition get_le32 :: "bytes \<Rightarrow> nat \<Rightarrow> u32 option" where
  "get_le32 p k = foldl (\<lambda>acc i. do { v \<leftarrow> acc; b \<leftarrow> rd p (k + i); Some (push_bit 8 v OR ucast b) }) (Some 0) (rev [0..<4])"

definition get_le64 :: "bytes \<Rightarrow> nat \<Rightarrow> u64 option" where
  "get_le64 p k = foldl (\<lambda>acc i. do { v \<leftarrow> acc; b \<leftarrow> rd p (k + i); Some (push_bit 8 v OR ucast b) }) (Some 0) (rev [0..<8])"

lemma put_le_length [simp]: "length (put_le32 v) = 4" "length (put_le64 w) = 8"
  by (simp_all add: put_le32_def put_le64_def)

text \<open>The value of little-endian bytes.\<close>

definition le_value :: "bytes \<Rightarrow> 'a::len word" where
  "le_value bs = foldr (\<lambda>b v. push_bit 8 v OR ucast b) bs 0"

lemma le_value_Cons: "le_value (b # bs) = push_bit 8 (le_value bs) OR ucast b"
  by (simp add: le_value_def)

lemma le_bytes: "8 \<le> LENGTH('a) \<Longrightarrow> le_value (map (\<lambda>i. ucast (drop_bit (8 * i) v)) [0..<n]) = take_bit (8 * n) (v :: 'a::len word)"
proof (induction n arbitrary: v)
  case (Suc n)
  have m: "map (\<lambda>i. ucast (drop_bit (8 * i) v) :: u8) [0..<Suc n] = ucast v # map (\<lambda>i. ucast (drop_bit (8 * i) (drop_bit 8 v))) [0..<n]"
    unfolding upt_conv_Cons [OF zero_less_Suc] map_Suc_upt [symmetric] by (simp add: drop_bit_drop_bit add.commute)
  have "push_bit 8 (take_bit (8 * n) (drop_bit 8 v)) OR ucast (ucast v :: u8) = take_bit (8 * Suc n) v"
  proof (rule bit_word_eqI)
    fix k assume k: "k < LENGTH('a)"
    have "8 \<le> k \<Longrightarrow> 8 + (k - 8) = k" by simp
    then show "bit (push_bit 8 (take_bit (8 * n) (drop_bit 8 v)) OR ucast (ucast v :: u8) :: 'a word) k = bit (take_bit (8 * Suc n) v) k"
      using k Suc.prems by (cases "8 \<le> k") (auto simp: bit_simps less_diff_conv2)
  qed
  then show ?case unfolding m le_value_Cons Suc.IH [OF Suc.prems] .
qed (simp add: le_value_def)

lemma get_le_foldr:
  assumes "k + n \<le> length p" and "j \<le> n"
  shows "foldr (\<lambda>i acc. do { v \<leftarrow> acc; b \<leftarrow> rd p (k + i); Some (push_bit 8 v OR ucast b) }) [j..<n] (Some (0 :: 'a::len word))
    = Some (le_value (take (n - j) (drop (k + j) p)))"
  using assms(2)
proof (induction "n - j" arbitrary: j)
  case 0
  then show ?case by (simp add: le_value_def)
next
  case (Suc d)
  then have j: "j < n" by simp
  then have "take (n - j) (drop (k + j) p) = p ! (k + j) # take (n - Suc j) (drop (k + Suc j) p)"
    using assms(1) by (simp add: Cons_nth_drop_Suc [symmetric] take_Cons' Suc_diff_Suc)
  then show ?case using Suc.hyps(1) [of "Suc j"] Suc.hyps(2) j assms(1)
    by (simp add: upt_conv_Cons le_value_def rd_def)
qed

lemma get_le:
  "k + 4 \<le> length p \<Longrightarrow> get_le32 p k = Some (le_value (take 4 (drop k p)))"
  "k + 8 \<le> length p \<Longrightarrow> get_le64 p k = Some (le_value (take 8 (drop k p)))"
  unfolding get_le32_def get_le64_def foldl_conv_foldr rev_rev_ident
  using get_le_foldr [of k 4 p 0] get_le_foldr [of k 8 p 0] by simp_all

lemma get_put_le:
  "k = length xs \<Longrightarrow> get_le32 (xs @ put_le32 v @ ys) k = Some v"
  "k = length xs \<Longrightarrow> get_le64 (xs @ put_le64 w @ ys) k = Some w"
  using le_bytes [of v 4] le_bytes [of w 8]
  by (simp_all add: get_le put_le32_def put_le64_def take_bit_word_eq_self)

subsection \<open>Requests and responses\<close>

datatype ReqKind = Enter | Cancel | Replace | Reduce

fun req_char :: "ReqKind \<Rightarrow> u8" where
  "req_char Enter = ch CHR ''E''"
| "req_char Cancel = ch CHR ''X''"
| "req_char Replace = ch CHR ''U''"
| "req_char Reduce = ch CHR ''Q''"

datatype RespKind = Accepted | Rejected | Executed | Canceled | Reduced

fun resp_char :: "RespKind \<Rightarrow> u8" where
  "resp_char Accepted = ch CHR ''A''"
| "resp_char Rejected = ch CHR ''J''"
| "resp_char Executed = ch CHR ''F''"
| "resp_char Canceled = ch CHR ''C''"
| "resp_char Reduced = ch CHR ''R''"

fun result_num :: "Result \<Rightarrow> u8" where
  "result_num Ok = 0"
| "result_num RejectedBadId = 1"
| "result_num RejectedBadQty = 2"
| "result_num RejectedBadPrice = 3"
| "result_num RejectedDuplicateId = 4"
| "result_num RejectedUnknownId = 5"
| "result_num RejectedNoLiquidity = 6"

definition side_byte :: "Side \<Rightarrow> u8" where
  "side_byte s = (if s = Bid then 0 else 1)"

definition byte_side :: "u8 \<Rightarrow> Side" where
  "byte_side b = (if b = 0 then Bid else Ask)"

record Request =
  rq_kind :: u8
  rq_side :: Side
  rq_qty :: Qty
  rq_price :: Price
  rq_id :: OrderId
  rq_new_id :: OrderId
  rq_client_ts :: u64

record Response =
  rs_kind :: u8
  rs_code :: u8
  rs_qty :: Qty
  rs_price :: Price
  rs_id :: OrderId
  rs_peer :: OrderId
  rs_client_ts :: u64

definition encode_request :: "Request \<Rightarrow> bytes" where
  "encode_request r = [rq_kind r] @ [side_byte (rq_side r)] @ put_le32 (rq_qty r) @ put_le64 (word_of_int (rq_price r))
     @ put_le64 (rq_id r) @ put_le64 (rq_new_id r) @ put_le64 (rq_client_ts r) @ [kMagic0] @ [kMagic1]"

text \<open>A wrong tag is \<^term>\<open>Some None\<close>.\<close>

definition decode_request :: "bytes \<Rightarrow> Request option option" where
  "decode_request p = do {
     m0 \<leftarrow> rd p 38; m1 \<leftarrow> rd p 39;
     if m0 \<noteq> kMagic0 \<or> m1 \<noteq> kMagic1 then Some None
     else do {
       kind \<leftarrow> rd p 0;
       side \<leftarrow> rd p 1;
       qty \<leftarrow> get_le32 p 2;
       price \<leftarrow> get_le64 p 6;
       oid \<leftarrow> get_le64 p 14;
       new_id \<leftarrow> get_le64 p 22;
       ts \<leftarrow> get_le64 p 30;
       Some (Some \<lparr>rq_kind = kind, rq_side = byte_side side, rq_qty = qty, rq_price = sint price, rq_id = oid,
         rq_new_id = new_id, rq_client_ts = ts\<rparr>) } }"

definition encode_response :: "Response \<Rightarrow> bytes" where
  "encode_response r = [rs_kind r] @ [rs_code r] @ put_le32 (rs_qty r) @ put_le64 (word_of_int (rs_price r))
     @ put_le64 (rs_id r) @ put_le64 (rs_peer r) @ put_le64 (rs_client_ts r) @ [kMagic0] @ [kMagic1]"

definition decode_response :: "bytes \<Rightarrow> Response option option" where
  "decode_response p = do {
     m0 \<leftarrow> rd p 38; m1 \<leftarrow> rd p 39;
     if m0 \<noteq> kMagic0 \<or> m1 \<noteq> kMagic1 then Some None
     else do {
       kind \<leftarrow> rd p 0;
       code \<leftarrow> rd p 1;
       qty \<leftarrow> get_le32 p 2;
       price \<leftarrow> get_le64 p 6;
       oid \<leftarrow> get_le64 p 14;
       peer \<leftarrow> get_le64 p 22;
       ts \<leftarrow> get_le64 p 30;
       Some (Some \<lparr>rs_kind = kind, rs_code = code, rs_qty = qty, rs_price = sint price, rs_id = oid,
         rs_peer = peer, rs_client_ts = ts\<rparr>) } }"

text \<open>Prices the 64 bits of the code can hold.\<close>

definition price_fits :: "Price \<Rightarrow> bool" where
  "price_fits p \<longleftrightarrow> - (2 ^ 63) \<le> p \<and> p < 2 ^ 63"

lemma price_back: "price_fits p \<Longrightarrow> sint (word_of_int p :: u64) = p"
  by (simp add: price_fits_def signed_of_int signed_take_bit_int_eq_self)

lemma side_byte_back [simp]: "byte_side (side_byte s) = s"
  by (cases s) (simp_all add: side_byte_def byte_side_def)

lemma encode_length [simp]: "length (encode_request r) = 40" "length (encode_response s) = 40"
  by (simp_all add: encode_request_def encode_response_def)

lemma decode_inside:
  "40 \<le> length p \<Longrightarrow> decode_request p \<noteq> None" "40 \<le> length p \<Longrightarrow> decode_response p \<noteq> None"
  by (auto simp: decode_request_def decode_response_def rd_def get_le)

lemma le_skip:
  assumes "length xs \<le> i"
  shows "get_le32 (xs @ ys) i = get_le32 ys (i - length xs)" and "get_le64 (xs @ ys) i = get_le64 ys (i - length xs)"
proof -
  have "rd (xs @ ys) (i + k) = rd ys (i - length xs + k)" for k using assms by (simp add: rd_append)
  then show "get_le32 (xs @ ys) i = get_le32 ys (i - length xs)" "get_le64 (xs @ ys) i = get_le64 ys (i - length xs)"
    by (simp_all only: get_le32_def get_le64_def)
qed

lemma le_read [read_simps]:
  "0 < i \<Longrightarrow> get_le32 (x # ys) i = get_le32 ys (i - 1)" "0 < i \<Longrightarrow> get_le64 (x # ys) i = get_le64 ys (i - 1)"
  "length xs \<le> i \<Longrightarrow> get_le32 (xs @ ys) i = get_le32 ys (i - length xs)"
  "length xs \<le> i \<Longrightarrow> get_le64 (xs @ ys) i = get_le64 ys (i - length xs)"
  "get_le32 (put_le32 v @ ys) 0 = Some v" "get_le64 (put_le64 w @ ys) 0 = Some w"
  using le_skip [of "[x]" i ys] le_skip [of xs i ys] get_put_le [of 0 "[]"] by simp_all

lemma decode_encode:
  "price_fits (rq_price r) \<Longrightarrow> decode_request (encode_request r @ ys) = Some (Some r)"
  "price_fits (rs_price s) \<Longrightarrow> decode_response (encode_response s @ ys) = Some (Some s)"
  by (simp_all add: decode_request_def encode_request_def decode_response_def encode_response_def read_simps price_back)

end
