(* ===== verification/Mold.thy ===== *)
theory Mold
  imports ItchReader
begin

text \<open>
  MoldUDP64 packets (\<^verbatim>\<open>include/pricetime/moldudp64.hpp\<close>): the packer over its fixed buffer, the parser of
  a datagram and the gap tracker.  A write outside the buffer or a read outside the datagram is
  \<^term>\<open>None\<close>.
\<close>

definition kHeaderSize :: nat where
  "kHeaderSize = 20"

definition kHeartbeat :: u16 where
  "kHeartbeat = 0x0000"

definition kEndOfSession :: u16 where
  "kEndOfSession = 0xFFFF"

record Header =
  hd_session :: bytes
  hd_sequence :: u64
  hd_count :: u16

definition header_default :: Header where
  "header_default = \<lparr>hd_session = replicate 11 0, hd_sequence = 0, hd_count = 0\<rparr>"

subsection \<open>Packing\<close>

text \<open>\<open>pk_buf\<close> is the array of 1400 bytes; it is not initialised, so its first content is an argument.\<close>

record Packer =
  pk_session :: bytes
  pk_buf :: bytes
  pk_len :: nat
  pk_count :: u16
  pk_first_seq :: u64

definition packer_new :: "bytes \<Rightarrow> bytes \<Rightarrow> Packer" where
  "packer_new junk session10 =
     (let n = length session10; k = (if n < 10 then n else 10)
      in \<lparr>pk_session = take k session10 @ replicate (10 - k) (ch CHR '' ''), pk_buf = junk, pk_len = kHeaderSize,
          pk_count = 0, pk_first_seq = 0\<rparr>)"

text \<open>\<^verbatim>\<open>memcpy\<close> into the array.\<close>

definition blit :: "nat \<Rightarrow> bytes \<Rightarrow> bytes \<Rightarrow> bytes option" where
  "blit i xs buf = (if i + length xs \<le> length buf then Some (take i buf @ xs @ drop (i + length xs) buf) else None)"

definition pk_begin :: "u64 \<Rightarrow> Packer \<Rightarrow> Packer" where
  "pk_begin first_sequence p = p\<lparr>pk_len := kHeaderSize, pk_count := 0, pk_first_seq := first_sequence\<rparr>"

definition pk_add :: "bytes \<Rightarrow> Packer \<Rightarrow> (bool \<times> Packer) option" where
  "pk_add msg p =
     (if pk_len p + 2 + length msg > length (pk_buf p) then Some (False, p)
      else do {
        buf \<leftarrow> blit (pk_len p) [of_nat (length msg div 256 mod 256)] (pk_buf p);
        buf \<leftarrow> blit (pk_len p + 1) [of_nat (length msg mod 256)] buf;
        buf \<leftarrow> blit (pk_len p + 2) msg buf;
        Some (True, p\<lparr>pk_buf := buf, pk_len := pk_len p + (2 + length msg), pk_count := pk_count p + 1\<rparr>) })"

definition write_header :: "u16 \<Rightarrow> Packer \<Rightarrow> Packer option" where
  "write_header count p = do {
     buf \<leftarrow> blit 0 (pk_session p) (pk_buf p);
     buf \<leftarrow> blit 10 (map (\<lambda>i. ucast (drop_bit (8 * (7 - i)) (pk_first_seq p))) [0..<8]) buf;
     buf \<leftarrow> blit 18 [ucast (drop_bit 8 count AND 0xFF)] buf;
     buf \<leftarrow> blit 19 [ucast (count AND 0xFF)] buf;
     Some (p\<lparr>pk_buf := buf\<rparr>) }"

definition pk_seal :: "Packer \<Rightarrow> Packer option" where
  "pk_seal p = write_header (pk_count p) p"

definition seal_heartbeat :: "u64 \<Rightarrow> Packer \<Rightarrow> Packer option" where
  "seal_heartbeat next_sequence p = write_header kHeartbeat (p\<lparr>pk_len := kHeaderSize, pk_first_seq := next_sequence\<rparr>)"

definition seal_end_of_session :: "u64 \<Rightarrow> Packer \<Rightarrow> Packer option" where
  "seal_end_of_session next_sequence p =
     write_header kEndOfSession (p\<lparr>pk_len := kHeaderSize, pk_first_seq := next_sequence\<rparr>)"

text \<open>\<^verbatim>\<open>bytes()[0 .. size())\<close>\<close>

definition packet :: "Packer \<Rightarrow> bytes" where
  "packet p = take (pk_len p) (pk_buf p)"

subsection \<open>Parsing\<close>

text \<open>The handler gets the sequence number and the message.\<close>

type_synonym 's mold_handler = "u64 \<Rightarrow> bytes \<Rightarrow> 's \<Rightarrow> 's option"

text \<open>\<open>n\<close> blocks are still to come, \<open>i\<close> have been read.\<close>

fun unpack_blocks :: "nat \<Rightarrow> nat \<Rightarrow> bytes \<Rightarrow> nat \<Rightarrow> u64 \<Rightarrow> 's mold_handler \<Rightarrow> 's \<Rightarrow> (bool \<times> 's) option" where
  "unpack_blocks 0 i pkt off sequence h s = Some (off = length pkt, s)"
| "unpack_blocks (Suc n) i pkt off sequence h s =
     (if length pkt - off < 2 then Some (False, s)
      else do {
        len \<leftarrow> map_option unat (be16 pkt off);
        let off = off + 2;
        if len = 0 \<or> length pkt - off < len then Some (False, s)
        else do {
          s \<leftarrow> h (sequence + of_nat i) (take len (drop off pkt)) s;
          unpack_blocks n (Suc i) pkt (off + len) sequence h s } })"

definition unpack :: "bytes \<Rightarrow> Header \<Rightarrow> 's mold_handler \<Rightarrow> 's \<Rightarrow> (bool \<times> Header \<times> 's) option" where
  "unpack pkt hdr h s =
     (if length pkt < kHeaderSize then Some (False, hdr, s)
      else do {
        let hdr = hdr\<lparr>hd_session := take 10 pkt @ [0]\<rparr>;
        let hdr = hdr\<lparr>hd_sequence := foldl (\<lambda>v b. push_bit 8 v OR ucast b) 0 (take 8 (drop 10 pkt))\<rparr>;
        hi \<leftarrow> rd pkt 18;
        lo \<leftarrow> rd pkt 19;
        let hdr = hdr\<lparr>hd_count := push_bit 8 (ucast hi) OR ucast lo\<rparr>;
        if hd_count hdr = kHeartbeat \<or> hd_count hdr = kEndOfSession then Some (length pkt = kHeaderSize, hdr, s)
        else do {
          (ok, s) \<leftarrow> unpack_blocks (unat (hd_count hdr)) 0 pkt kHeaderSize (hd_sequence hdr) h s;
          Some (ok, hdr, s) } })"

subsection \<open>Gaps\<close>

record GapTracker =
  gt_started :: bool
  gt_next :: u64
  gt_total_missed :: u64

definition tracker_new :: GapTracker where
  "tracker_new = \<lparr>gt_started = False, gt_next = 1, gt_total_missed = 0\<rparr>"

definition on_packet :: "Header \<Rightarrow> GapTracker \<Rightarrow> u64 \<times> GapTracker" where
  "on_packet hdr g =
     (let missed = (if gt_started g \<and> hd_sequence hdr > gt_next g then hd_sequence hdr - gt_next g else 0);
          g = (if \<not> gt_started g \<or> hd_sequence hdr \<ge> gt_next g then
                 (let g = g\<lparr>gt_started := True\<rparr> in
                  if hd_count hdr \<noteq> kHeartbeat \<and> hd_count hdr \<noteq> kEndOfSession
                  then g\<lparr>gt_next := hd_sequence hdr + ucast (hd_count hdr)\<rparr>
                  else g\<lparr>gt_next := (if hd_sequence hdr > gt_next g then hd_sequence hdr else gt_next g)\<rparr>)
               else g)
      in (missed, g\<lparr>gt_total_missed := gt_total_missed g + missed\<rparr>))"

subsection \<open>What a packet carries\<close>

lemma blit_append: "length xs \<le> length rest \<Longrightarrow> i = length pre \<Longrightarrow> blit i xs (pre @ rest) = Some (pre @ xs @ drop (length xs) rest)"
  by (simp add: blit_def)

lemma blit_at: "length xs = length old \<Longrightarrow> i = length pre \<Longrightarrow> blit i xs (pre @ old @ rest) = Some (pre @ xs @ rest)"
  by (simp add: blit_def)

definition mold_ok :: "bytes \<Rightarrow> bool" where
  "mold_ok m \<longleftrightarrow> m \<noteq> [] \<and> length m < 2 ^ 16"

definition blocks :: "bytes list \<Rightarrow> bytes" where
  "blocks ms = concat (map frame ms)"

lemma blocks_simps [simp]: "blocks [] = []" "blocks (m # ms) = frame m @ blocks ms" "blocks (xs @ ys) = blocks xs @ blocks ys"
  by (simp_all add: blocks_def)

text \<open>The packer holds the messages \<open>ms\<close> of a packet that starts at \<open>seq\<close>.\<close>

definition holds :: "Packer \<Rightarrow> bytes \<Rightarrow> u64 \<Rightarrow> bytes list \<Rightarrow> bool" where
  "holds p session seq ms \<longleftrightarrow> (\<exists>hdr rest. pk_buf p = hdr @ blocks ms @ rest \<and> length hdr = kHeaderSize)
     \<and> length (pk_buf p) = 1400 \<and> pk_len p = kHeaderSize + length (blocks ms) \<and> pk_count p = of_nat (length ms)
     \<and> pk_first_seq p = seq \<and> pk_session p = session \<and> length session = 10"

lemma holds_begin:
  assumes "length (pk_buf p) = 1400" and "length (pk_session p) = 10"
  shows "holds (pk_begin seq p) (pk_session p) seq []"
proof -
  have "pk_buf p = take 20 (pk_buf p) @ blocks [] @ drop 20 (pk_buf p)" "length (take 20 (pk_buf p)) = kHeaderSize"
    using assms by (simp_all add: kHeaderSize_def)
  then have "\<exists>hdr rest. pk_buf p = hdr @ blocks [] @ rest \<and> length hdr = kHeaderSize" by (intro exI conjI)
  then show ?thesis using assms unfolding holds_def by (simp add: pk_begin_def)
qed

lemma len_prefix: "n < 2 ^ 16 \<Longrightarrow> put16 (of_nat n) = [of_nat (n div 256 mod 256), of_nat (n mod 256)]"
proof -
  have d: "n div 256 mod 256 = take_bit 8 (drop_bit 8 n)" "n mod 256 = take_bit 8 n"
    by (simp_all add: take_bit_eq_mod drop_bit_eq_div)
  have "(ucast (drop_bit 8 (of_nat n :: u16) AND 0xFF) :: u8) = of_nat (n div 256 mod 256)"
    "(ucast ((of_nat n :: u16) AND 0xFF) :: u8) = of_nat (n mod 256)"
    unfolding byte_mask d by (rule bit_word_eqI; auto simp: bit_simps)+
  then show ?thesis by (simp add: put16_def)
qed

lemma holds_add:
  assumes "holds p session seq ms" and "length m < 2 ^ 16"
  shows "kHeaderSize + length (blocks (ms @ [m])) \<le> 1400 \<Longrightarrow> \<exists>p'. pk_add m p = Some (True, p') \<and> holds p' session seq (ms @ [m])"
    and "\<not> kHeaderSize + length (blocks (ms @ [m])) \<le> 1400 \<Longrightarrow> pk_add m p = Some (False, p)"
proof -
  obtain hdr rest where b: "pk_buf p = hdr @ blocks ms @ rest" "length hdr = kHeaderSize"
    and h: "length (pk_buf p) = 1400" "pk_len p = kHeaderSize + length (blocks ms)" "pk_count p = of_nat (length ms)"
      "pk_first_seq p = seq" "pk_session p = session" "length session = 10"
    using assms(1) by (auto simp: holds_def)
  let ?pre = "hdr @ blocks ms"
  have l: "pk_len p = length ?pre" "pk_buf p = ?pre @ rest" using b h by simp_all
  show "\<exists>p'. pk_add m p = Some (True, p') \<and> holds p' session seq (ms @ [m])" if fit: "kHeaderSize + length (blocks (ms @ [m])) \<le> 1400"
  proof -
    have r: "2 + length m \<le> length rest" using fit h(1) b by (simp add: l)
    obtain x y rest' where rest: "rest = x # y # rest'" "length m \<le> length rest'"
      using r by (cases rest; cases "tl rest") auto
    let ?lo = "[of_nat (length m mod 256)] :: bytes" and ?hi = "[of_nat (length m div 256 mod 256)] :: bytes"
    have s1: "blit (pk_len p) ?hi (pk_buf p) = Some (?pre @ ?hi @ y # rest')"
      using blit_append [of ?hi rest "pk_len p" ?pre] l rest by simp
    have s2: "blit (pk_len p + 1) ?lo (?pre @ ?hi @ y # rest') = Some (?pre @ ?hi @ ?lo @ rest')"
      using blit_append [of ?lo "y # rest'" "pk_len p + 1" "?pre @ ?hi"] l by simp
    have s3: "blit (pk_len p + 2) m (?pre @ ?hi @ ?lo @ rest') = Some (?pre @ ?hi @ ?lo @ m @ drop (length m) rest')"
      using blit_append [OF rest(2), of "pk_len p + 2" "?pre @ ?hi @ ?lo"] l by simp
    have f: "?hi @ ?lo @ m = frame m" using len_prefix [OF assms(2)] by (simp add: frame_def)
    have n: "\<not> pk_len p + 2 + length m > length (pk_buf p)" using r by (simp add: l)
    define p' where "p' = p\<lparr>pk_buf := ?pre @ ?hi @ ?lo @ m @ drop (length m) rest', pk_len := pk_len p + (2 + length m),
        pk_count := pk_count p + 1\<rparr>"
    have add: "pk_add m p = Some (True, p')" using n s1 s2 s3 by (simp add: pk_add_def p'_def)
    have "pk_buf p' = hdr @ blocks (ms @ [m]) @ drop (length m) rest'" using f [symmetric] by (simp add: p'_def)
    then have "\<exists>hdr rest. pk_buf p' = hdr @ blocks (ms @ [m]) @ rest \<and> length hdr = kHeaderSize" using b(2) by blast
    moreover have "length (pk_buf p') = 1400" using b h rest by (simp add: p'_def)
    ultimately have "holds p' session seq (ms @ [m])"
      using h unfolding holds_def by (simp add: p'_def)
    then show ?thesis using add by blast
  qed
  show "pk_add m p = Some (False, p)" if "\<not> kHeaderSize + length (blocks (ms @ [m])) \<le> 1400"
    using that h by (simp add: pk_add_def)
qed

lemma seq_bytes: "map (\<lambda>i. ucast (drop_bit (8 * (7 - i)) v) :: u8) [0..<8] = put64 v"
  unfolding put64_def byte_mask by (auto intro!: bit_word_eqI simp: bit_simps upt_conv_Cons)

lemma header_parts:
  assumes "length hdr = 20"
  obtains h1 h2 :: bytes and x y where "hdr = h1 @ h2 @ [x, y]" "length h1 = 10" "length h2 = 8"
proof -
  have "length (drop 18 hdr) = Suc (Suc 0)" using assms by simp
  then obtain x y where xy: "drop 18 hdr = [x, y]" unfolding length_Suc_conv by blast
  show thesis
  proof (rule that)
    have "take 10 hdr @ take 8 (drop 10 hdr) @ drop 18 hdr = hdr"
      using append_take_drop_id [of 10 hdr] append_take_drop_id [of 8 "drop 10 hdr"] by (simp add: drop_drop)
    then show "hdr = take 10 hdr @ take 8 (drop 10 hdr) @ [x, y]" unfolding xy by (rule sym)
    show "length (take 10 hdr) = 10" "length (take 8 (drop 10 hdr)) = 8" using assms by simp_all
  qed
qed

lemma holds_header:
  assumes "holds p session seq ms"
  shows "\<exists>p'. write_header c p = Some p' \<and> packet p' = session @ put64 seq @ put16 c @ blocks ms"
proof -
  obtain hdr rest where b: "pk_buf p = hdr @ blocks ms @ rest" "length hdr = 20"
    and h: "pk_len p = 20 + length (blocks ms)" "pk_first_seq p = seq" "pk_session p = session" "length session = 10"
    using assms by (auto simp: holds_def kHeaderSize_def)
  let ?tail = "blocks ms @ rest"
  obtain h1 h2 x y where hdr: "hdr = h1 @ h2 @ [x, y]" "length h1 = 10" "length h2 = 8"
    by (rule header_parts [OF b(2)])
  define hi lo :: u8 where hl: "hi = ucast (drop_bit 8 c AND 0xFF)" "lo = ucast (c AND 0xFF)"
  have l8: "length (put64 seq) = 8" by simp
  have "blit 0 session ([] @ h1 @ h2 @ x # y # ?tail) = Some ([] @ session @ h2 @ x # y # ?tail)"
    by (rule blit_at) (simp_all only: hdr h list.size)
  then have "blit 0 session (pk_buf p) = Some (session @ h2 @ x # y # ?tail)" unfolding b(1) hdr(1) by simp
  moreover have "blit 10 (put64 seq) (session @ h2 @ x # y # ?tail) = Some (session @ put64 seq @ x # y # ?tail)"
    by (rule blit_at) (simp_all only: hdr h l8)
  moreover have "blit 18 [hi] ((session @ put64 seq) @ [x] @ y # ?tail) = Some ((session @ put64 seq) @ [hi] @ y # ?tail)"
    by (rule blit_at) (simp_all add: h)
  then have "blit 18 [hi] (session @ put64 seq @ x # y # ?tail) = Some (session @ put64 seq @ hi # y # ?tail)" by simp
  moreover have "blit 19 [lo] ((session @ put64 seq @ [hi]) @ [y] @ ?tail) = Some ((session @ put64 seq @ [hi]) @ [lo] @ ?tail)"
    by (rule blit_at) (simp_all add: h)
  then have "blit 19 [lo] (session @ put64 seq @ hi # y # ?tail) = Some (session @ put64 seq @ hi # lo # ?tail)" by simp
  ultimately have w: "write_header c p = Some (p\<lparr>pk_buf := session @ put64 seq @ hi # lo # ?tail\<rparr>)"
    unfolding write_header_def h seq_bytes hl [symmetric] by simp
  have "put16 c = [hi, lo]" by (simp only: put16_def hl)
  then show ?thesis using w h l8 by (simp add: packet_def)
qed

text \<open>The handler's calls of one packet.\<close>

fun deliver :: "'s mold_handler \<Rightarrow> u64 \<Rightarrow> nat \<Rightarrow> bytes list \<Rightarrow> 's \<Rightarrow> 's option" where
  "deliver h sequence i [] s = Some s"
| "deliver h sequence i (m # ms) s = do { s \<leftarrow> h (sequence + of_nat i) m s; deliver h sequence (Suc i) ms s }"

lemma unpack_frames:
  assumes "\<forall>m \<in> set ms. mold_ok m" and "off = length pre"
  shows "unpack_blocks (length ms) i (pre @ blocks ms) off sequence h s = map_option (\<lambda>s. (True, s)) (deliver h sequence i ms s)"
  using assms
proof (induction ms arbitrary: pre off i s)
  case (Cons m ms)
  have m: "m \<noteq> []" "length m < 2 ^ 16" using Cons.prems(1) by (auto simp: mold_ok_def)
  have b: "be16 (pre @ frame m @ blocks ms) (length pre) = Some (of_nat (length m))"
    using be16_put [of "length pre" pre "of_nat (length m)" "m @ blocks ms"] by (simp add: frame_def)
  have u: "unat (of_nat (length m) :: u16) = length m" using m(2) by (simp add: unsigned_of_nat take_bit_nat_eq_self)
  have t: "take (length m) (drop (length pre + 2) (pre @ frame m @ blocks ms)) = m" by (simp add: frame_def)
  have IH: "unpack_blocks (length ms) (Suc i) (pre @ frame m @ blocks ms) (length pre + 2 + length m) sequence h s'
      = map_option (\<lambda>s. (True, s)) (deliver h sequence (Suc i) ms s')" for s'
    using Cons.IH [of "length pre + 2 + length m" "pre @ frame m" "Suc i" s'] Cons.prems(1) by simp
  have e: "\<not> length (pre @ frame m @ blocks ms) - length pre < 2" "length m \<noteq> 0"
    "\<not> length (pre @ frame m @ blocks ms) - (length pre + 2) < length m"
    using m(1) by simp_all
  let ?p = "pre @ frame m @ blocks ms"
  have "unpack_blocks (Suc (length ms)) i ?p (length pre) sequence h s =
      (do { s \<leftarrow> h (sequence + of_nat i) m s; unpack_blocks (length ms) (Suc i) ?p (length pre + 2 + length m) sequence h s })"
    unfolding unpack_blocks.simps b using e t by (simp add: u del: append.assoc length_append)
  also have "\<dots> = map_option (\<lambda>s. (True, s)) (deliver h sequence i (m # ms) s)"
    unfolding IH by (cases "h (sequence + of_nat i) m s") simp_all
  finally show ?case using Cons.prems(2) by simp
qed simp


subsection \<open>Filling a packet\<close>

text \<open>\<open>begin\<close>, \<open>add\<close> for each message and \<open>seal\<close>; \<open>False\<close> when one did not fit.\<close>

fun add_all :: "bytes list \<Rightarrow> Packer \<Rightarrow> (bool \<times> Packer) option" where
  "add_all [] p = Some (True, p)"
| "add_all (m # ms) p = do { (ok, p) \<leftarrow> pk_add m p; if ok then add_all ms p else Some (False, p) }"

definition pack :: "u64 \<Rightarrow> bytes list \<Rightarrow> Packer \<Rightarrow> (bool \<times> Packer) option" where
  "pack seq ms p = do { (ok, p) \<leftarrow> add_all ms (pk_begin seq p); p \<leftarrow> pk_seal p; Some (ok, p) }"

definition packer_ok :: "Packer \<Rightarrow> bool" where
  "packer_ok p \<longleftrightarrow> length (pk_buf p) = 1400 \<and> length (pk_session p) = 10"

lemma packer_new_ok: "length junk = 1400 \<Longrightarrow> packer_ok (packer_new junk session)"
  by (simp add: packer_ok_def packer_new_def Let_def)

lemma holds_add_all:
  assumes "holds p session seq ms" and "\<forall>m \<in> set ns. mold_ok m" and "kHeaderSize + length (blocks (ms @ ns)) \<le> 1400"
  shows "\<exists>p'. add_all ns p = Some (True, p') \<and> holds p' session seq (ms @ ns)"
  using assms
proof (induction ns arbitrary: p ms)
  case (Cons n ns)
  obtain p1 where p1: "pk_add n p = Some (True, p1)" "holds p1 session seq (ms @ [n])"
    using holds_add(1) [OF Cons.prems(1), of n] Cons.prems(2,3) by (auto simp: mold_ok_def)
  obtain p' where "add_all ns p1 = Some (True, p')" "holds p' session seq ((ms @ [n]) @ ns)"
    using Cons.IH [OF p1(2)] Cons.prems(2,3) by auto
  then show ?case using p1(1) by simp
qed simp

lemma pack_packet:
  assumes "packer_ok p" and "\<forall>m \<in> set ms. mold_ok m" and "kHeaderSize + length (blocks ms) \<le> 1400"
  shows "\<exists>p'. pack seq ms p = Some (True, p') \<and> packet p' = pk_session p @ put64 seq @ put16 (of_nat (length ms)) @ blocks ms"
proof -
  have "holds (pk_begin seq p) (pk_session p) seq []" using assms(1) by (intro holds_begin) (simp_all add: packer_ok_def)
  then obtain p1 where p1: "add_all ms (pk_begin seq p) = Some (True, p1)" "holds p1 (pk_session p) seq ([] @ ms)"
    using holds_add_all [of _ _ _ "[]"] assms(2,3) by fastforce
  have "pk_count p1 = of_nat (length ms)" using p1(2) by (simp add: holds_def)
  then show ?thesis using holds_header [OF p1(2), of "of_nat (length ms)"] p1(1) by (auto simp: pack_def pk_seal_def)
qed

subsection \<open>Parsing it back\<close>

lemma fold_byte:
  fixes v :: u64
  assumes "j = k + 8"
  shows "push_bit 8 (drop_bit j v) OR ucast (ucast (drop_bit k v) :: u8) = drop_bit k v"
proof (rule bit_word_eqI)
  fix i assume "i < LENGTH(64)"
  have "8 \<le> i \<Longrightarrow> k + 8 + (i - 8) = k + i" by simp
  then show "bit (push_bit 8 (drop_bit j v) OR ucast (ucast (drop_bit k v) :: u8)) i = bit (drop_bit k v) i"
    using \<open>i < LENGTH(64)\<close> by (cases "8 \<le> i") (auto simp: bit_simps assms)
qed

lemma fold_be: "foldl (\<lambda>v b. push_bit 8 v OR ucast b) (0 :: u64) (put64 v) = v"
proof -
  have z: "(0 :: u64) = drop_bit 64 v" by (rule bit_word_eqI) (auto simp: bit_simps dest: bit_imp_le_length)
  have byte: "(ucast (x AND mask 8) :: u8) = ucast x" for x :: u64 by (rule bit_word_eqI) (auto simp: bit_simps)
  have "ucast v = (ucast (drop_bit 0 v) :: u8)" by simp
  then have "foldl (\<lambda>v b. push_bit 8 v OR ucast b) (drop_bit 64 v) (put64 v) = drop_bit 0 v"
    unfolding put64_def list.map foldl.simps byte_mask byte by (simp only: fold_byte [where j = 64 and k = 56]
      fold_byte [where j = 56 and k = 48] fold_byte [where j = 48 and k = 40] fold_byte [where j = 40 and k = 32]
      fold_byte [where j = 32 and k = 24] fold_byte [where j = 24 and k = 16] fold_byte [where j = 16 and k = 8]
      fold_byte [where j = 8 and k = 0] arith_simps add_0)
  then show ?thesis unfolding z by simp
qed

lemma unpack_fields:
  assumes "length session = 10"
  shows "unpack (session @ put64 seq @ put16 c @ body) hdr h s =
    (let hdr = \<lparr>hd_session = session @ [0], hd_sequence = seq, hd_count = c\<rparr>;
         pkt = session @ put64 seq @ put16 c @ body
     in if c = kHeartbeat \<or> c = kEndOfSession then Some (body = [], hdr, s)
        else do { (ok, s) \<leftarrow> unpack_blocks (unat c) 0 pkt kHeaderSize seq h s; Some (ok, hdr, s) })"
proof -
  define hi lo :: u8 where hl: "hi = ucast (drop_bit 8 c AND 0xFF)" "lo = ucast (c AND 0xFF)"
  have c: "put16 c = [hi, lo]" "push_bit 8 (ucast hi) OR ucast lo = c" unfolding hl by (simp_all only: put16_def join16)
  have l: "length (put64 seq) = 8" by simp
  have "take 8 (put64 seq @ hi # lo # body) = put64 seq" using l by simp
  then show ?thesis
    using assms l unfolding c(1) unpack_def
    by (cases hdr) (simp add: rd_def nth_append kHeaderSize_def fold_be c(2) Let_def)
qed

lemma unpack_packet:
  assumes "length session = 10" and "\<forall>m \<in> set ms. mold_ok m" and "ms \<noteq> []" and "length ms < 0xFFFF"
  shows "unpack (session @ put64 seq @ put16 (of_nat (length ms)) @ blocks ms) hdr h s =
    map_option (\<lambda>s. (True, \<lparr>hd_session = session @ [0], hd_sequence = seq, hd_count = of_nat (length ms)\<rparr>, s))
      (deliver h seq 0 ms s)"
proof -
  have u: "unat (of_nat (length ms) :: u16) = length ms" using assms(4) by (simp add: unsigned_of_nat take_bit_nat_eq_self)
  have "(of_nat (length ms) :: u16) \<noteq> kHeartbeat" "(of_nat (length ms) :: u16) \<noteq> kEndOfSession"
    using assms(3,4) u by (auto simp: kHeartbeat_def kEndOfSession_def)
  moreover have "kHeaderSize = length (session @ put64 seq @ put16 (of_nat (length ms)))" using assms(1) by (simp add: kHeaderSize_def)
  then have "unpack_blocks (length ms) 0 (session @ put64 seq @ put16 (of_nat (length ms)) @ blocks ms) kHeaderSize seq h s
      = map_option (\<lambda>s. (True, s)) (deliver h seq 0 ms s)"
    using unpack_frames [OF assms(2), of kHeaderSize "session @ put64 seq @ put16 (of_nat (length ms))" 0 seq h s] by simp
  ultimately show ?thesis
    unfolding unpack_fields [OF assms(1)] Let_def u by (cases "deliver h seq 0 ms s") simp_all
qed

text \<open>On arbitrary bytes.\<close>

lemma unpack_blocks_exact:
  assumes h: "\<And>q m s. mold_ok m \<Longrightarrow> h q m s \<noteq> None" and "off \<le> length pkt"
  shows "\<exists>ok s'. unpack_blocks n i pkt off sequence h s = Some (ok, s')
    \<and> (ok \<longleftrightarrow> (\<exists>ms. (\<forall>m \<in> set ms. mold_ok m) \<and> length ms = n \<and> drop off pkt = blocks ms))
    \<and> (\<forall>ms. (\<forall>m \<in> set ms. mold_ok m) \<longrightarrow> length ms = n \<longrightarrow> drop off pkt = blocks ms
          \<longrightarrow> deliver h sequence i ms s = Some s')"
  using assms(2)
proof (induction n arbitrary: i off s)
  case (Suc n)
  define len where "len = unat (the (be16 pkt off))"
  have frame_at: "drop off pkt = frame m @ xs \<Longrightarrow> mold_ok m \<Longrightarrow>
      \<not> length pkt - off < 2 \<and> len = length m \<and> len \<noteq> 0 \<and> \<not> length pkt - (off + 2) < len
      \<and> m = take len (drop (off + 2) pkt) \<and> drop (off + 2 + len) pkt = xs" for m xs
  proof -
    assume d: "drop off pkt = frame m @ xs" and m: "mold_ok m"
    then have p: "pkt = take off pkt @ put16 (of_nat (length m)) @ m @ xs"
      using append_take_drop_id [of off pkt] by (simp add: frame_def)
    have o: "off = length (take off pkt)" using Suc.prems by simp
    have "be16 pkt off = Some (of_nat (length m))" using be16_put [OF o] p by metis
    then have l: "len = length m" using m by (simp add: len_def mold_ok_def unsigned_of_nat take_bit_nat_eq_self)
    have "length (drop off pkt) = 2 + length m + length xs" unfolding d by simp
    moreover have "drop (off + 2) pkt = m @ xs" using arg_cong [OF d, of "drop 2"] by (simp add: frame_def add.commute)
    moreover from this have "drop (off + 2 + len) pkt = xs" using l by (metis add.commute append_eq_conv_conj drop_drop)
    ultimately show "?thesis" using l m by (simp add: mold_ok_def)
  qed
  show ?case
  proof (cases "length pkt - off < 2 \<or> len = 0 \<or> length pkt - (off + 2) < len")
    case True
    then have "unpack_blocks (Suc n) i pkt off sequence h s = Some (False, s)"
      using fields_inside(1) [of pkt off] by (auto simp: len_def)
    moreover have False if "\<forall>m \<in> set ms. mold_ok m" "length ms = Suc n" "drop off pkt = blocks ms" for ms
      using that frame_at True by (cases ms) auto
    ultimately show ?thesis by blast
  next
    case False
    let ?m = "take len (drop (off + 2) pkt)"
    obtain v where v: "be16 pkt off = Some v" using fields_inside(1) [of pkt off] False by fastforce
    have lv: "len = unat v" by (simp add: len_def v)
    have lm: "length ?m = len" using False by simp
    then have ok: "mold_ok ?m" using False lv unsigned_less [of v, where ?'a = nat] by (auto simp: mold_ok_def)
    have "be16 (drop off pkt) 0 = Some v" using v be16_drop [of off off pkt] by simp
    then have "take 2 (drop off pkt) = put16 (of_nat len)" using be16_bytes lv by simp
    then have "frame ?m = take 2 (drop off pkt) @ take len (drop 2 (drop off pkt))" by (simp only: frame_def lm drop_drop add.commute)
    also have "\<dots> = take (2 + len) (drop off pkt)" by (simp only: take_add)
    finally have fr: "drop off pkt = frame ?m @ drop (off + 2 + len) pkt"
      by (metis append_take_drop_id drop_drop add.assoc add.commute)
    obtain s1 where s1: "h (sequence + of_nat i) ?m s = Some s1" using h [OF ok] by blast
    have "off + 2 + len \<le> length pkt" using False by linarith
    from Suc.IH [OF this, of "Suc i" s1] obtain ok' s' where
      r: "unpack_blocks n (Suc i) pkt (off + 2 + len) sequence h s1 = Some (ok', s')"
      and o: "ok' \<longleftrightarrow> (\<exists>ms. (\<forall>m \<in> set ms. mold_ok m) \<and> length ms = n \<and> drop (off + 2 + len) pkt = blocks ms)"
      and d: "\<forall>ms. (\<forall>m \<in> set ms. mold_ok m) \<longrightarrow> length ms = n \<longrightarrow> drop (off + 2 + len) pkt = blocks ms
          \<longrightarrow> deliver h sequence (Suc i) ms s1 = Some s'" by blast
    have "unpack_blocks (Suc n) i pkt off sequence h s = Some (ok', s')" using False r s1 v lv by (simp add: Let_def)
    moreover have eq1: "m = ?m \<and> drop (off + 2 + len) pkt = blocks ms" if "drop off pkt = blocks (m # ms)" "mold_ok m" for m ms
    proof -
      have "drop off pkt = frame m @ blocks ms" using that(1) by (simp only: blocks_simps)
      from frame_at [OF this that(2)] show ?thesis by blast
    qed
    have eq2: "drop off pkt = blocks (?m # ms)" if "drop (off + 2 + len) pkt = blocks ms" for ms
      using fr unfolding that blocks_simps .
    have "ok' \<longleftrightarrow> (\<exists>ms. (\<forall>m \<in> set ms. mold_ok m) \<and> length ms = Suc n \<and> drop off pkt = blocks ms)"
    proof
      assume ok'
      then obtain ms where "\<forall>m \<in> set ms. mold_ok m" "length ms = n" "drop (off + 2 + len) pkt = blocks ms" using o by blast
      then show "\<exists>ms. (\<forall>m \<in> set ms. mold_ok m) \<and> length ms = Suc n \<and> drop off pkt = blocks ms"
        using eq2 ok by (intro exI [of _ "?m # ms"]) simp
    next
      assume "\<exists>ms. (\<forall>m \<in> set ms. mold_ok m) \<and> length ms = Suc n \<and> drop off pkt = blocks ms"
      then obtain m ms where "mold_ok m" "\<forall>m \<in> set ms. mold_ok m" "length ms = n" "drop off pkt = blocks (m # ms)"
        by (auto simp: length_Suc_conv)
      then show ok' using eq1 [of m ms] o by blast
    qed
    moreover have "deliver h sequence i ms s = Some s'"
      if l: "\<forall>m \<in> set ms. mold_ok m" "length ms = Suc n" "drop off pkt = blocks ms" for ms
    proof -
      obtain m ns where ms: "ms = m # ns" using l(2) by (cases ms) auto
      have m: "mold_ok m" "\<forall>m \<in> set ns. mold_ok m" "length ns = n" using l(1,2) by (simp_all add: ms)
      have mm: "m = ?m" "drop (off + 2 + len) pkt = blocks ns" using eq1 [of m ns, OF l(3) [unfolded ms] m(1)] by blast+
      have "deliver h sequence (Suc i) ns s1 = Some s'" using d m(2,3) mm(2) by blast
      then show ?thesis using s1 unfolding mm(1) [symmetric] by (simp only: ms deliver.simps bind.bind_lunit)
    qed
    ultimately show ?thesis by blast
  qed
qed auto

end
