(* ===== verification/ProtocolProperties.thy ===== *)
theory ProtocolProperties
  imports Wire Mold
begin

text \<open>
  What the two protocols of the engine promise: order entry over the byte stream and market data in
  MoldUDP64 packets.
\<close>

subsection \<open>Order entry\<close>

text \<open>C28: Every request and every response whose price fits the 64 bits of the field takes exactly 40 bytes, and reading these bytes, whatever follows them in the buffer, gives the message back.\<close>

theorem wire_roundtrip:
  assumes "price_fits (rq_price r)" and "price_fits (rs_price s)"
  shows "length (encode_request r) = kMessageSize \<and> decode_request (encode_request r @ ys) = Some (Some r)
    \<and> length (encode_response s) = kMessageSize \<and> decode_response (encode_response s @ ys) = Some (Some s)"
  using assms by (simp add: decode_encode kMessageSize_def)

theorem wire_roundtrip_witness:
  "decode_request (encode_request \<lparr>rq_kind = 69, rq_side = Ask, rq_qty = 100, rq_price = -5, rq_id = 7, rq_new_id = 0, rq_client_ts = 9\<rparr> @ [1])
     = Some (Some \<lparr>rq_kind = 69, rq_side = Ask, rq_qty = 100, rq_price = -5, rq_id = 7, rq_new_id = 0, rq_client_ts = 9\<rparr>)"
  using wire_roundtrip [of "\<lparr>rq_kind = 69, rq_side = Ask, rq_qty = 100, rq_price = -5, rq_id = 7, rq_new_id = 0, rq_client_ts = 9\<rparr>"
      "\<lparr>rs_kind = 65, rs_code = 0, rs_qty = 100, rs_price = 5, rs_id = 7, rs_peer = 0, rs_client_ts = 9\<rparr>" "[1]"]
  by (simp add: price_fits_def)

subsection \<open>Market data packets\<close>

text \<open>A packet built by \<^verbatim>\<open>begin\<close>, one \<^verbatim>\<open>add\<close> per message and \<^verbatim>\<open>seal\<close> holds all the messages whenever they fit its 1400 bytes, is never written outside its buffer, and unpacking the bytes sent hands over exactly these messages with consecutive sequence numbers from the first.\<close>

theorem packet_roundtrip:
  assumes "packer_ok p" and "\<forall>m \<in> set ms. mold_ok m" and "ms \<noteq> []" and "kHeaderSize + length (blocks ms) \<le> 1400"
  shows "\<exists>p'. pack seq ms p = Some (True, p') \<and> (\<forall>hdr h (s :: 's).
    unpack (packet p') hdr h s = map_option (\<lambda>s. (True, \<lparr>hd_session = pk_session p @ [0], hd_sequence = seq, hd_count = of_nat (length ms)\<rparr>, s))
      (deliver h seq 0 ms s))"
proof -
  have "length ms < 0xFFFF"
  proof -
    have "length ms \<le> length (blocks ms)" by (induction ms) simp_all
    then show ?thesis using assms(4) by simp
  qed
  moreover have "length (pk_session p) = 10" using assms(1) by (simp add: packer_ok_def)
  ultimately show ?thesis
    using pack_packet [OF assms(1,2,4), of seq] unpack_packet [OF _ assms(2,3), of "pk_session p"] by metis
qed

theorem packet_roundtrip_witness:
  "\<exists>p'. pack 41 [[65, 66], [67]] (packer_new (replicate 1400 0) (map ch ''PRICETIME'')) = Some (True, p')
    \<and> unpack (packet p') header_default (\<lambda>q m s. Some (s @ [(q, m)])) []
      = Some (True, \<lparr>hd_session = map ch ''PRICETIME '' @ [0], hd_sequence = 41, hd_count = 2\<rparr>, [(41, [65, 66]), (42, [67])])"
proof -
  let ?p = "packer_new (replicate 1400 0) (map ch ''PRICETIME'')"
  have "packer_ok ?p" by (rule packer_new_ok) simp
  from packet_roundtrip [OF this, of "[[65, 66], [67]]" 41, where 's = "(u64 \<times> bytes) list"]
  show ?thesis by (auto simp: mold_ok_def packer_new_def kHeaderSize_def)
qed

text \<open>Any datagram whatever is parsed to an end without reading outside it, and it is accepted exactly when it has a whole header and is followed either by nothing (heartbeat, end of session) or by exactly the announced number of non-empty length-prefixed messages up to its last byte; then the handler has been given these messages in order.\<close>

theorem unpack_exact:
  assumes h: "\<And>q m s. mold_ok m \<Longrightarrow> h q m s \<noteq> None"
  shows "\<exists>ok hdr' s'. unpack pkt hdr h s = Some (ok, hdr', s') \<and> (ok \<longleftrightarrow> kHeaderSize \<le> length pkt \<and> (\<exists>ms. (\<forall>m \<in> set ms. mold_ok m)
      \<and> length ms = (if hd_count hdr' \<in> {kHeartbeat, kEndOfSession} then 0 else unat (hd_count hdr'))
      \<and> pkt = take kHeaderSize pkt @ blocks ms \<and> deliver h (hd_sequence hdr') 0 ms s = Some s'))"
proof (cases "length pkt < kHeaderSize")
  case False
  then obtain hi lo where b: "rd pkt 18 = Some hi" "rd pkt 19 = Some lo" by (simp add: rd_def kHeaderSize_def)
  define hdr1 where "hdr1 = hdr\<lparr>hd_session := take 10 pkt @ [0], hd_sequence := foldl (\<lambda>v b. push_bit 8 v OR ucast b) 0 (take 8 (drop 10 pkt)),
      hd_count := push_bit 8 (ucast hi) OR ucast lo\<rparr>"
  have u: "unpack pkt hdr h s = (if hd_count hdr1 = kHeartbeat \<or> hd_count hdr1 = kEndOfSession then Some (length pkt = kHeaderSize, hdr1, s)
      else do { (ok, s) \<leftarrow> unpack_blocks (unat (hd_count hdr1)) 0 pkt kHeaderSize (hd_sequence hdr1) h s; Some (ok, hdr1, s) })"
    using False b by (simp add: unpack_def hdr1_def Let_def)
  have split: "pkt = take kHeaderSize pkt @ blocks ms \<longleftrightarrow> drop kHeaderSize pkt = blocks ms" for ms
    by (metis append_take_drop_id same_append_eq)
  show ?thesis
  proof (cases "hd_count hdr1 = kHeartbeat \<or> hd_count hdr1 = kEndOfSession")
    case True
    then show ?thesis using u False by (auto simp: split)
  next
    case nc: False
    have "kHeaderSize \<le> length pkt" using False by simp
    note r = unpack_blocks_exact [where h = h, OF h this, of "unat (hd_count hdr1)" 0 "hd_sequence hdr1" s]
    from r obtain ok s' where r: "unpack_blocks (unat (hd_count hdr1)) 0 pkt kHeaderSize (hd_sequence hdr1) h s = Some (ok, s')"
      "ok \<longleftrightarrow> (\<exists>ms. (\<forall>m \<in> set ms. mold_ok m) \<and> length ms = unat (hd_count hdr1) \<and> drop kHeaderSize pkt = blocks ms)"
      "\<forall>ms. (\<forall>m \<in> set ms. mold_ok m) \<longrightarrow> length ms = unat (hd_count hdr1) \<longrightarrow> drop kHeaderSize pkt = blocks ms
          \<longrightarrow> deliver h (hd_sequence hdr1) 0 ms s = Some s'"
      by blast
    show ?thesis unfolding u using nc False r by (intro exI [of _ ok] exI [of _ hdr1] exI [of _ s']) (auto simp: split)
  qed
qed (auto simp: unpack_def)

theorem unpack_exact_witness:
  "\<exists>ok hdr' s'. unpack [1, 2, 3] header_default (\<lambda>q m s. Some (s + length m)) 0 = Some (ok, hdr', s') \<and> (ok \<longleftrightarrow> kHeaderSize \<le> length [1, 2, 3 :: u8]
     \<and> (\<exists>ms. (\<forall>m \<in> set ms. mold_ok m)
      \<and> length ms = (if hd_count hdr' \<in> {kHeartbeat, kEndOfSession} then 0 else unat (hd_count hdr'))
      \<and> [1, 2, 3] = take kHeaderSize [1, 2, 3] @ blocks ms \<and> deliver (\<lambda>q m s. Some (s + length m)) (hd_sequence hdr') 0 ms 0 = Some s'))"
  by (rule unpack_exact) simp

subsection \<open>Gaps\<close>

definition carried :: "Header \<Rightarrow> nat" where
  "carried hdr = (if hd_count hdr = kHeartbeat \<or> hd_count hdr = kEndOfSession then 0 else unat (hd_count hdr))"

text \<open>The packets of a list of arrivals that are not from the past, \<open>n\<close> being the next number expected.\<close>

fun timely :: "nat \<Rightarrow> Header list \<Rightarrow> Header list" where
  "timely n [] = []"
| "timely n (hdr # hs) = (if unat (hd_sequence hdr) < n then timely n hs
     else hdr # timely (unat (hd_sequence hdr) + carried hdr) hs)"

definition packet_end :: "Header \<Rightarrow> nat" where
  "packet_end hdr = unat (hd_sequence hdr) + carried hdr"

lemma sequence_end:
  assumes "packet_end hdr < 2 ^ 64" and "hd_count hdr \<noteq> kHeartbeat" and "hd_count hdr \<noteq> kEndOfSession"
  shows "unat (hd_sequence hdr + ucast (hd_count hdr)) = packet_end hdr"
proof -
  have "unat (hd_count hdr) < 2 ^ 64" using unsigned_less [of "hd_count hdr", where ?'a = nat] by simp
  then have "unat (ucast (hd_count hdr) :: u64) = unat (hd_count hdr)" by (simp add: unsigned_ucast_eq take_bit_nat_eq_self)
  then show ?thesis using assms by (simp add: packet_end_def carried_def unat_word_ariths)
qed

lemma on_packet_late: "gt_started g \<Longrightarrow> unat (hd_sequence hdr) < unat (gt_next g) \<Longrightarrow> on_packet hdr g = (0, g)"
  by (simp add: on_packet_def Let_def word_less_nat_alt word_le_nat_alt)

lemma on_packet_next:
  assumes "gt_started g" and "packet_end hdr < 2 ^ 64" and "\<not> unat (hd_sequence hdr) < unat (gt_next g)"
    and "unat (gt_total_missed g) \<le> unat (gt_next g)"
  shows "gt_started (snd (on_packet hdr g)) \<and> unat (gt_next (snd (on_packet hdr g))) = packet_end hdr
    \<and> unat (gt_total_missed (snd (on_packet hdr g))) = unat (gt_total_missed g) + (unat (hd_sequence hdr) - unat (gt_next g))"
proof -
  have ge: "gt_next g \<le> hd_sequence hdr" using assms(3) by (simp add: word_le_nat_alt)
  have m: "(if hd_sequence hdr > gt_next g then hd_sequence hdr - gt_next g else 0) = hd_sequence hdr - gt_next g"
    using ge by auto
  have "unat (gt_total_missed g) + unat (hd_sequence hdr - gt_next g) < 2 ^ 64"
    using ge assms(4) unat_sub [OF ge] unsigned_less [of "hd_sequence hdr", where ?'a = nat] by (simp add: word_le_nat_alt)
  then have "unat (gt_total_missed g + (hd_sequence hdr - gt_next g)) = unat (gt_total_missed g) + (unat (hd_sequence hdr) - unat (gt_next g))"
    using unat_sub [OF ge] by (simp add: unat_word_ariths)
  moreover have "unat (if hd_sequence hdr > gt_next g then hd_sequence hdr else gt_next g) = packet_end hdr"
    if "hd_count hdr = kHeartbeat \<or> hd_count hdr = kEndOfSession"
    using that ge by (auto simp: packet_end_def carried_def)
  ultimately show ?thesis using assms(1) ge m sequence_end [OF assms(2)] by (auto simp: on_packet_def Let_def)
qed

definition track :: "Header list \<Rightarrow> GapTracker \<Rightarrow> GapTracker" where
  "track hs g = fold (\<lambda>hdr g. snd (on_packet hdr g)) hs g"

lemma track_run:
  assumes "gt_started g" and "\<forall>hdr \<in> set hs. packet_end hdr < 2 ^ 64" and "unat (gt_total_missed g) \<le> unat (gt_next g)"
  shows "unat (gt_total_missed (track hs g)) + sum_list (map carried (timely (unat (gt_next g)) hs)) + unat (gt_next g)
    = unat (gt_total_missed g) + unat (gt_next (track hs g))"
  using assms
proof (induction hs arbitrary: g)
  case (Cons hdr hs)
  show ?case
  proof (cases "unat (hd_sequence hdr) < unat (gt_next g)")
    case True
    then show ?thesis using Cons.IH [OF Cons.prems(1)] Cons.prems on_packet_late [of g hdr] by (simp add: track_def)
  next
    case False
    let ?g = "snd (on_packet hdr g)"
    have g: "gt_started ?g" "unat (gt_next ?g) = packet_end hdr"
      "unat (gt_total_missed ?g) = unat (gt_total_missed g) + (unat (hd_sequence hdr) - unat (gt_next g))"
      using on_packet_next [of g hdr] Cons.prems False by auto
    moreover have "unat (gt_total_missed ?g) \<le> unat (gt_next ?g)" using g Cons.prems(3) False by (simp add: packet_end_def)
    ultimately show ?thesis using Cons.IH [of ?g] Cons.prems False by (simp add: track_def packet_end_def)
  qed
qed (simp add: track_def)

text \<open>C29: Whatever packets arrive, in whatever order and however often, as long as the sequence number and the count of no packet reach \<open>2 ^ 64\<close> together and the first packet has a sequence number of at least 1, the tracker's account is exact: the messages it reports missed and the messages carried by the packets that were not from the past together are the sequence numbers from the first packet's first message to the next one expected.\<close>

theorem gap_accounting:
  assumes "\<forall>hdr \<in> set (first # hs). packet_end hdr < 2 ^ 64" and "1 \<le> unat (hd_sequence first)"
  shows "unat (gt_total_missed (track (first # hs) tracker_new)) + sum_list (map carried (first # timely (packet_end first) hs))
    + unat (hd_sequence first) = unat (gt_next (track (first # hs) tracker_new))"
proof -
  let ?g = "snd (on_packet first tracker_new)"
  have "unat (if hd_sequence first > 1 then hd_sequence first else 1) = unat (hd_sequence first)"
    using assms(2) by (auto simp: word_less_nat_alt)
  then have g: "gt_started ?g" "unat (gt_next ?g) = packet_end first" "gt_total_missed ?g = 0"
    using sequence_end [of first] assms(1)
    by (auto simp: on_packet_def tracker_new_def Let_def packet_end_def carried_def)
  then show ?thesis using track_run [of ?g hs] assms(1) by (simp add: track_def packet_end_def)
qed

theorem gap_accounting_witness:
  "let h = (\<lambda>seq n. \<lparr>hd_session = [], hd_sequence = seq, hd_count = n\<rparr>);
       hs = [h 3 2, h 7 1, h 6 1, h 12 0] in
   unat (gt_total_missed (track (h 1 2 # hs) tracker_new)) = 6 \<and> unat (gt_next (track (h 1 2 # hs) tracker_new)) = 12"
proof -
  let ?h = "\<lambda>seq n. \<lparr>hd_session = [], hd_sequence = seq, hd_count = n\<rparr>"
  let ?hs = "[?h 3 2, ?h 7 1, ?h 6 1, ?h 12 0]"
  have n: "gt_next (track (?h 1 2 # ?hs) tracker_new) = 12"
    by (simp add: track_def on_packet_def tracker_new_def Let_def kHeartbeat_def kEndOfSession_def)
  have "unat (gt_total_missed (track (?h 1 2 # ?hs) tracker_new)) + sum_list (map carried (?h 1 2 # timely (packet_end (?h 1 2)) ?hs))
      + unat (hd_sequence (?h 1 2)) = unat (gt_next (track (?h 1 2 # ?hs) tracker_new))"
    by (rule gap_accounting) (simp_all add: packet_end_def carried_def kHeartbeat_def kEndOfSession_def)
  then have "unat (gt_total_missed (track (?h 1 2 # ?hs) tracker_new)) = 6"
    unfolding n by (simp add: packet_end_def carried_def kHeartbeat_def kEndOfSession_def)
  then show ?thesis unfolding Let_def using n by simp
qed

end
