(* ===== verification/Spsc.thy ===== *)
theory Spsc
  imports Prelude "HOL-Library.Monad_Syntax" "HOL-Library.Word"
begin

text \<open>
  The single-producer single-consumer ring (\<^verbatim>\<open>include/pricetime/spsc_queue.hpp\<close>): the code's two
  operations as functions, and the same operations as the atomic steps of two threads over the
  modification orders of \<^verbatim>\<open>head_\<close> and \<^verbatim>\<open>tail_\<close>, where an acquire load may return any value that is not
  older than the one the thread saw last.
\<close>

subsection \<open>The code\<close>

text \<open>\<open>p\<close> becomes 0 when the shift leaves the word; the loop then never ends.\<close>

partial_function (option) round_loop :: "64 word \<Rightarrow> 64 word \<Rightarrow> 64 word option" where
  [code]: "round_loop n p = (if p < n then round_loop n (push_bit 1 p) else Some p)"

definition round_up_pow2 :: "64 word \<Rightarrow> 64 word option" where
  "round_up_pow2 n = round_loop n 1"

record 'a Spsc =
  sq_slots :: "'a list"
  sq_mask :: "64 word"
  sq_head :: "64 word"
  sq_cached_tail :: "64 word"
  sq_tail :: "64 word"
  sq_cached_head :: "64 word"

definition spsc_new :: "'a \<Rightarrow> 64 word \<Rightarrow> 'a Spsc option" where
  "spsc_new d capacity = do {
     p \<leftarrow> round_up_pow2 (capacity + 1);
     let mask = p - 1;
     Some \<lparr>sq_slots = replicate (unat (mask + 1)) d, sq_mask = mask, sq_head = 0, sq_cached_tail = 0, sq_tail = 0,
       sq_cached_head = 0\<rparr> }"

text \<open>A slot index outside the array is \<^term>\<open>None\<close>.\<close>

definition try_push :: "'a \<Rightarrow> 'a Spsc \<Rightarrow> (bool \<times> 'a Spsc) option" where
  "try_push value q =
     (let head = sq_head q; next = (head + 1) AND sq_mask q;
          q = (if next = sq_cached_tail q then q\<lparr>sq_cached_tail := sq_tail q\<rparr> else q)
      in if next = sq_cached_tail q then Some (False, q)
         else if unat head < length (sq_slots q)
         then Some (True, q\<lparr>sq_slots := (sq_slots q)[unat head := value], sq_head := next\<rparr>)
         else None)"

text \<open>\<open>try_pop\<close> returns the value instead of filling its argument; a failed one leaves it alone.\<close>

definition try_pop :: "'a Spsc \<Rightarrow> ('a option \<times> 'a Spsc) option" where
  "try_pop q =
     (let tail = sq_tail q;
          q = (if tail = sq_cached_head q then q\<lparr>sq_cached_head := sq_head q\<rparr> else q)
      in if tail = sq_cached_head q then Some (None, q)
         else if unat tail < length (sq_slots q)
         then Some (Some (sq_slots q ! unat tail), q\<lparr>sq_tail := (tail + 1) AND sq_mask q\<rparr>)
         else None)"

definition size_approx :: "'a Spsc \<Rightarrow> 64 word" where
  "size_approx q = (sq_head q - sq_tail q) AND sq_mask q"

definition empty_approx :: "'a Spsc \<Rightarrow> bool" where
  "empty_approx q \<longleftrightarrow> sq_head q = sq_tail q"

definition spsc_capacity :: "'a Spsc \<Rightarrow> 64 word" where
  "spsc_capacity q = sq_mask q"

subsection \<open>Rounding up\<close>

lemma round_loop_pow:
  assumes "k \<le> 63" and "unat n \<le> 2 ^ 63"
  shows "\<exists>j. k \<le> j \<and> j \<le> 63 \<and> round_loop n (2 ^ k) = Some (2 ^ j) \<and> unat n \<le> 2 ^ j \<and> (j = k \<or> 2 ^ (j - 1) < unat n)"
  using assms(1)
proof (induction "63 - k" arbitrary: k)
  case 0
  then have "k = 63" by simp
  then show ?case using assms(2) by (subst round_loop.simps) (auto simp: word_less_nat_alt)
next
  case (Suc d)
  show ?case
  proof (cases "(2 ^ k :: 64 word) < n")
    case True
    have s: "push_bit 1 (2 ^ k :: 64 word) = 2 ^ Suc k" by (simp add: push_bit_eq_mult)
    from Suc.hyps(1) [of "Suc k"] Suc.hyps(2) obtain j where j: "Suc k \<le> j" "j \<le> 63" "round_loop n (2 ^ Suc k) = Some (2 ^ j)"
      "unat n \<le> 2 ^ j" "j = Suc k \<or> 2 ^ (j - 1) < unat n" by fastforce
    have "round_loop n (2 ^ k) = Some (2 ^ j)" using True s j(3) by (subst round_loop.simps) (simp add: mult.commute)
    moreover have "2 ^ (j - 1) < unat n" using j(5) True Suc.hyps(2) unat_pow2 [of k] by (auto simp: word_less_nat_alt)
    ultimately show ?thesis using j by (intro exI [of _ j]) simp
  next
    case False
    then have "round_loop n (2 ^ k) = Some (2 ^ k)" by (subst round_loop.simps) simp
    moreover have "unat n \<le> 2 ^ k" using False Suc.hyps(2) unat_pow2 [of k] by (simp add: word_less_nat_alt)
    ultimately show ?thesis using Suc.prems by (intro exI [of _ k]) simp
  qed
qed

lemma round_up:
  assumes "unat n \<le> 2 ^ 63"
  shows "\<exists>j \<le> 63. round_up_pow2 n = Some (2 ^ j) \<and> unat n \<le> 2 ^ j \<and> (j = 0 \<or> 2 ^ (j - 1) < unat n)"
  using round_loop_pow [OF _ assms, of 0] by (auto simp: round_up_pow2_def)

lemma round_loop_result:
  assumes "round_loop n p = Some r"
  shows "n \<le> r \<and> (\<exists>k. r = push_bit k p)"
proof (rule round_loop.raw_induct [where P = "\<lambda>n p r. n \<le> r \<and> (\<exists>k. r = push_bit k p)", OF _ assms])
  fix rec :: "64 word \<Rightarrow> 64 word \<Rightarrow> 64 word option" and n p r :: "64 word"
  assume ih: "\<And>n p r. rec n p = Some r \<Longrightarrow> n \<le> r \<and> (\<exists>k. r = push_bit k p)"
    and r: "(if p < n then rec n (push_bit 1 p) else Some p) = Some r"
  show "n \<le> r \<and> (\<exists>k. r = push_bit k p)"
  proof (cases "p < n")
    case True
    then have "n \<le> r \<and> (\<exists>k. r = push_bit k (push_bit 1 p))" using ih r by (simp del: push_bit_of_1)
    then show ?thesis by (metis push_bit_push_bit)
  next
    case False
    then show ?thesis using r by (auto intro: exI [of _ 0])
  qed
qed

lemma round_up_diverges:
  assumes "2 ^ 63 < unat n"
  shows "round_up_pow2 n = None"
proof (rule ccontr)
  assume "round_up_pow2 n \<noteq> None"
  then obtain r where "round_loop n 1 = Some r" by (auto simp: round_up_pow2_def)
  from round_loop_result [OF this] obtain k where "n \<le> r" "r = push_bit k 1" by blast
  moreover have "unat (push_bit k 1 :: 64 word) \<le> 2 ^ 63"
  proof (cases "k < 64")
    case True
    then show ?thesis using unat_pow2 [OF True] power_increasing [of k 63 "2 :: nat"] by (simp add: push_bit_eq_mult)
  next
    case False
    then have "push_bit k 1 = (0 :: 64 word)" by (intro bit_word_eqI) (auto simp: bit_simps)
    then show ?thesis by (simp only: unsigned_0)
  qed
  ultimately show False using assms by (simp add: word_le_nat_alt)
qed

subsection \<open>The two threads\<close>

text \<open>
  Where a thread stands inside its operation: before the load of the other side's index, before the slot is
  touched, before its own index is published.
\<close>

datatype 'a Producer = PIdle | PLoad 'a "64 word" | PWrite 'a "64 word" | PPublish 'a "64 word"

datatype 'a Consumer = CIdle | CLoad | CRead | CPublish 'a

text \<open>
  \<open>sys_heads\<close> and \<open>sys_tails\<close> are the values the two atomics have had, oldest first; \<open>sys_seen_tail\<close> and
  \<open>sys_seen_head\<close> are the positions the two threads have read last.  \<open>sys_in\<close> and \<open>sys_out\<close> record the values
  whose push and pop returned true.
\<close>

record 'a Sys =
  sys_q :: "'a Spsc"
  sys_heads :: "64 word list"
  sys_tails :: "64 word list"
  sys_seen_tail :: nat
  sys_seen_head :: nat
  sys_prod :: "'a Producer"
  sys_cons :: "'a Consumer"
  sys_in :: "'a list"
  sys_out :: "'a list"

definition sys_new :: "'a Spsc \<Rightarrow> 'a Sys" where
  "sys_new q = \<lparr>sys_q = q, sys_heads = [sq_head q], sys_tails = [sq_tail q], sys_seen_tail = 0, sys_seen_head = 0,
     sys_prod = PIdle, sys_cons = CIdle, sys_in = [], sys_out = []\<rparr>"

inductive push_step :: "'a Sys \<Rightarrow> 'a Sys \<Rightarrow> bool" where
  push_begin: "sys_prod s = PIdle \<Longrightarrow> next = (sq_head (sys_q s) + 1) AND sq_mask (sys_q s) \<Longrightarrow>
    push_step s (s\<lparr>sys_prod := (if next = sq_cached_tail (sys_q s) then PLoad v next else PWrite v next)\<rparr>)"
| push_load: "sys_prod s = PLoad v next \<Longrightarrow> sys_seen_tail s \<le> i \<Longrightarrow> i < length (sys_tails s) \<Longrightarrow>
    push_step s (s\<lparr>sys_q := (sys_q s)\<lparr>sq_cached_tail := sys_tails s ! i\<rparr>, sys_seen_tail := i,
      sys_prod := (if next = sys_tails s ! i then PIdle else PWrite v next)\<rparr>)"
| push_write: "sys_prod s = PWrite v next \<Longrightarrow> unat (sq_head (sys_q s)) < length (sq_slots (sys_q s)) \<Longrightarrow>
    push_step s (s\<lparr>sys_q := (sys_q s)\<lparr>sq_slots := (sq_slots (sys_q s))[unat (sq_head (sys_q s)) := v]\<rparr>, sys_prod := PPublish v next\<rparr>)"
| push_publish: "sys_prod s = PPublish v next \<Longrightarrow>
    push_step s (s\<lparr>sys_q := (sys_q s)\<lparr>sq_head := next\<rparr>, sys_heads := sys_heads s @ [next], sys_prod := PIdle, sys_in := sys_in s @ [v]\<rparr>)"

inductive pop_step :: "'a Sys \<Rightarrow> 'a Sys \<Rightarrow> bool" where
  pop_begin: "sys_cons s = CIdle \<Longrightarrow>
    pop_step s (s\<lparr>sys_cons := (if sq_tail (sys_q s) = sq_cached_head (sys_q s) then CLoad else CRead)\<rparr>)"
| pop_load: "sys_cons s = CLoad \<Longrightarrow> sys_seen_head s \<le> i \<Longrightarrow> i < length (sys_heads s) \<Longrightarrow>
    pop_step s (s\<lparr>sys_q := (sys_q s)\<lparr>sq_cached_head := sys_heads s ! i\<rparr>, sys_seen_head := i,
      sys_cons := (if sq_tail (sys_q s) = sys_heads s ! i then CIdle else CRead)\<rparr>)"
| pop_read: "sys_cons s = CRead \<Longrightarrow> unat (sq_tail (sys_q s)) < length (sq_slots (sys_q s)) \<Longrightarrow>
    pop_step s (s\<lparr>sys_cons := CPublish (sq_slots (sys_q s) ! unat (sq_tail (sys_q s)))\<rparr>)"
| pop_publish: "sys_cons s = CPublish x \<Longrightarrow> next = (sq_tail (sys_q s) + 1) AND sq_mask (sys_q s) \<Longrightarrow>
    pop_step s (s\<lparr>sys_q := (sys_q s)\<lparr>sq_tail := next\<rparr>, sys_tails := sys_tails s @ [next], sys_cons := CIdle, sys_out := sys_out s @ [x]\<rparr>)"

definition spsc_step :: "'a Sys \<Rightarrow> 'a Sys \<Rightarrow> bool" where
  "spsc_step s t \<longleftrightarrow> push_step s t \<or> pop_step s t"

definition spsc_reachable :: "'a \<Rightarrow> 64 word \<Rightarrow> 'a Sys \<Rightarrow> bool" where
  "spsc_reachable d capacity s \<longleftrightarrow> (\<exists>q. spsc_new d capacity = Some q \<and> spsc_step\<^sup>*\<^sup>* (sys_new q) s)"

inductive_cases push_stepE: "push_step s t"
inductive_cases pop_stepE: "pop_step s t"

subsection \<open>The ring\<close>

text \<open>The slot of the \<open>k\<close>-th element ever pushed.\<close>

definition idx :: "nat \<Rightarrow> nat \<Rightarrow> 64 word" where
  "idx j k = of_nat (k mod 2 ^ j)"

lemma unat_idx [simp]: "j \<le> 63 \<Longrightarrow> unat (idx j k) = k mod 2 ^ j"
proof -
  assume "j \<le> 63"
  then have "(2 :: nat) ^ j \<le> 2 ^ 63" by (intro power_increasing) simp_all
  moreover have "k mod 2 ^ j < 2 ^ j" by simp
  moreover have "(2 :: nat) ^ 63 < 2 ^ 64" by simp
  ultimately have "k mod 2 ^ j < 2 ^ 64" by (meson less_le_trans less_trans)
  then show ?thesis by (simp add: idx_def unsigned_of_nat take_bit_nat_eq_self)
qed

lemma idx_next: "j \<le> 63 \<Longrightarrow> (idx j k + 1) AND (2 ^ j - 1) = idx j (Suc k)"
proof -
  assume j: "j \<le> 63"
  have "(idx j k + 1) AND (2 ^ j - 1) = take_bit j (of_nat (k mod 2 ^ j + 1))"
    by (simp add: idx_def take_bit_eq_mask mask_eq_exp_minus_1 add.commute)
  also have "\<dots> = of_nat (take_bit j (k mod 2 ^ j + 1))" using j by (simp only: take_bit_of_nat)
  also have "\<dots> = idx j (Suc k)" by (simp add: idx_def take_bit_eq_mod mod_Suc_eq)
  finally show ?thesis .
qed

lemma idx_eq: "j \<le> 63 \<Longrightarrow> a \<le> b \<Longrightarrow> b < a + 2 ^ j \<Longrightarrow> idx j b = idx j a \<longleftrightarrow> b = a"
proof
  assume j: "j \<le> 63" and ab: "a \<le> b" "b < a + 2 ^ j" and e: "idx j b = idx j a"
  from e have "unat (idx j b) = unat (idx j a)" by simp
  then have "b mod 2 ^ j = a mod 2 ^ j" using j by simp
  then have "2 ^ j dvd b - a" using ab by (simp add: mod_eq_dvd_iff_nat)
  moreover have "b - a < 2 ^ j" using ab by linarith
  ultimately show "b = a" using ab by (metis dvd_imp_le le_antisym less_le_not_le not_gr_zero zero_less_diff)
qed simp

lemma idx_lap: "idx j (a + 2 ^ j) = idx j a"
  by (simp add: idx_def)

lemma idx_full: "j \<le> 63 \<Longrightarrow> a \<le> P \<Longrightarrow> P < a + 2 ^ j \<Longrightarrow> idx j (Suc P) \<noteq> idx j a \<longleftrightarrow> Suc P < a + 2 ^ j"
  using idx_eq [of j a "Suc P"] idx_lap [of j a] by (cases "Suc P = a + 2 ^ j") auto

subsection \<open>The invariant\<close>

definition prod_inv :: "nat \<Rightarrow> 'a Sys \<Rightarrow> bool" where
  "prod_inv j s = (case sys_prod s of PIdle \<Rightarrow> True
     | PLoad v next \<Rightarrow> next = idx j (Suc (length (sys_in s)))
     | PWrite v next \<Rightarrow> next = idx j (Suc (length (sys_in s))) \<and> Suc (length (sys_in s)) < sys_seen_tail s + 2 ^ j
     | PPublish v next \<Rightarrow> next = idx j (Suc (length (sys_in s))) \<and> Suc (length (sys_in s)) < sys_seen_tail s + 2 ^ j
         \<and> sq_slots (sys_q s) ! (length (sys_in s) mod 2 ^ j) = v)"

definition cons_inv :: "'a Sys \<Rightarrow> bool" where
  "cons_inv s = (case sys_cons s of CIdle \<Rightarrow> True | CLoad \<Rightarrow> True
     | CRead \<Rightarrow> length (sys_out s) < sys_seen_head s
     | CPublish x \<Rightarrow> length (sys_out s) < sys_seen_head s \<and> x = sys_in s ! length (sys_out s))"

definition ring_inv :: "nat \<Rightarrow> 'a Sys \<Rightarrow> bool" where
  "ring_inv j s \<longleftrightarrow> (let q = sys_q s; P = length (sys_in s); C = length (sys_out s) in
     sq_mask q = 2 ^ j - 1 \<and> length (sq_slots q) = 2 ^ j
     \<and> sys_heads s = map (idx j) [0..<Suc P] \<and> sys_tails s = map (idx j) [0..<Suc C]
     \<and> sq_head q = idx j P \<and> sq_tail q = idx j C
     \<and> sq_cached_tail q = idx j (sys_seen_tail s) \<and> sq_cached_head q = idx j (sys_seen_head s)
     \<and> sys_seen_tail s \<le> C \<and> C \<le> sys_seen_head s \<and> sys_seen_head s \<le> P \<and> P < sys_seen_tail s + 2 ^ j
     \<and> sys_out s = take C (sys_in s) \<and> (\<forall>k. C \<le> k \<longrightarrow> k < P \<longrightarrow> sq_slots q ! (k mod 2 ^ j) = sys_in s ! k))"

lemma ring_inv_pcs [simp]:
  "ring_inv j (s\<lparr>sys_prod := p\<rparr>) = ring_inv j s" "ring_inv j (s\<lparr>sys_cons := c\<rparr>) = ring_inv j s"
  "prod_inv j (s\<lparr>sys_cons := c\<rparr>) = prod_inv j s" "cons_inv (s\<lparr>sys_prod := p\<rparr>) = cons_inv s"
  by (simp_all add: ring_inv_def prod_inv_def cons_inv_def cong: Producer.case_cong Consumer.case_cong)

lemma ring_push:
  assumes j: "j \<le> 63" and s: "ring_inv j s" "prod_inv j s" "cons_inv s" and "push_step s t"
  shows "ring_inv j t \<and> prod_inv j t \<and> cons_inv t"
  using assms(5)
proof cases
  case (push_begin "next" v)
  let ?next = "(sq_head (sys_q s) + 1) AND sq_mask (sys_q s)"
  have n: "?next = idx j (Suc (length (sys_in s)))" using s(1) idx_next [OF j] by (simp add: ring_inv_def Let_def)
  have "?next \<noteq> sq_cached_tail (sys_q s) \<longleftrightarrow> Suc (length (sys_in s)) < sys_seen_tail s + 2 ^ j"
    unfolding n using s(1) idx_full [OF j, of "sys_seen_tail s" "length (sys_in s)"] by (simp add: ring_inv_def Let_def)
  then have "prod_inv j t" unfolding push_begin(1) prod_inv_def using n push_begin(3) by simp
  then show ?thesis using s push_begin(1) by simp
next
  case (push_load v "next" i)
  have i: "i \<le> length (sys_out s)" "sys_tails s ! i = idx j i" using s(1) push_load(4) by (auto simp: ring_inv_def Let_def simp del: upt_Suc)
  have "length (sys_in s) < i + 2 ^ j" "i \<le> length (sys_in s)" using s(1) push_load(3) i by (auto simp: ring_inv_def Let_def)
  then have "next \<noteq> sys_tails s ! i \<longleftrightarrow> Suc (length (sys_in s)) < i + 2 ^ j"
    using s(2) push_load(2) i(2) idx_full [OF j, of i "length (sys_in s)"] by (simp add: prod_inv_def)
  then show ?thesis using s push_load i \<open>length (sys_in s) < i + 2 ^ j\<close>
    by (auto simp: ring_inv_def prod_inv_def cons_inv_def Let_def split: Consumer.splits)
next
  case (push_write v "next")
  let ?P = "length (sys_in s)"
  have h: "unat (sq_head (sys_q s)) = ?P mod 2 ^ j" and l: "length (sq_slots (sys_q s)) = 2 ^ j"
    using s(1) j by (simp_all add: ring_inv_def Let_def)
  have other: "?P mod 2 ^ j \<noteq> k mod 2 ^ j" if "length (sys_out s) \<le> k" "k < ?P" for k
  proof
    assume "?P mod 2 ^ j = k mod 2 ^ j"
    then have "idx j ?P = idx j k" by (simp add: idx_def)
    moreover have "?P < k + 2 ^ j" using s(1) that(1) by (simp add: ring_inv_def Let_def)
    ultimately show False using idx_eq [OF j, of k ?P] that(2) by simp
  qed
  have "ring_inv j t" using s(1) other push_write(1) j by (simp add: ring_inv_def Let_def)
  moreover have "prod_inv j t" using s(2) push_write h l by (simp add: prod_inv_def)
  moreover have "cons_inv t" using s(3) push_write(1) by (simp add: cons_inv_def cong: Consumer.case_cong)
  ultimately show ?thesis by blast
next
  case (push_publish v "next")
  have p: "next = idx j (Suc (length (sys_in s)))" "Suc (length (sys_in s)) < sys_seen_tail s + 2 ^ j"
    "sq_slots (sys_q s) ! (length (sys_in s) mod 2 ^ j) = v"
    using s(2) push_publish(2) by (simp_all add: prod_inv_def)
  have "cons_inv t" using s(1,3) push_publish(1) by (auto simp: ring_inv_def cons_inv_def Let_def nth_append split: Consumer.splits)
  moreover have "ring_inv j t" using s(1) p push_publish(1) by (auto simp: ring_inv_def Let_def nth_append less_Suc_eq)
  ultimately show ?thesis using push_publish(1) by (simp add: prod_inv_def)
qed

lemma ring_pop:
  assumes j: "j \<le> 63" and s: "ring_inv j s" "prod_inv j s" "cons_inv s" and "pop_step s t"
  shows "ring_inv j t \<and> prod_inv j t \<and> cons_inv t"
  using assms(5)
proof cases
  case pop_begin
  have "sq_tail (sys_q s) = sq_cached_head (sys_q s) \<longleftrightarrow> sys_seen_head s = length (sys_out s)"
    using s(1) idx_eq [OF j, of "length (sys_out s)" "sys_seen_head s"] by (auto simp: ring_inv_def Let_def)
  moreover have "length (sys_out s) \<le> sys_seen_head s" using s(1) by (simp add: ring_inv_def Let_def)
  ultimately have "cons_inv t" unfolding pop_begin(1) cons_inv_def by simp
  then show ?thesis using s pop_begin(1) by simp
next
  case (pop_load i)
  have i: "i \<le> length (sys_in s)" "sys_heads s ! i = idx j i" using s(1) pop_load(4) by (auto simp: ring_inv_def Let_def simp del: upt_Suc)
  have "sq_tail (sys_q s) = sys_heads s ! i \<longleftrightarrow> i = length (sys_out s)" "length (sys_out s) \<le> i"
    using s(1) pop_load(3) i idx_eq [OF j, of "length (sys_out s)" i] by (auto simp: ring_inv_def Let_def)
  then show ?thesis using s pop_load i by (auto simp: ring_inv_def prod_inv_def cons_inv_def Let_def split: Producer.splits)
next
  case pop_read
  have "sq_slots (sys_q s) ! unat (sq_tail (sys_q s)) = sys_in s ! length (sys_out s)" "length (sys_out s) < sys_seen_head s"
    using s(1,3) pop_read(2) j by (auto simp: ring_inv_def cons_inv_def Let_def)
  then have "cons_inv t" unfolding pop_read(1) cons_inv_def by simp
  then show ?thesis using s pop_read(1) by simp
next
  case (pop_publish x "next")
  have c: "length (sys_out s) < sys_seen_head s" "x = sys_in s ! length (sys_out s)" using s(3) pop_publish(2) by (simp_all add: cons_inv_def)
  have "next = idx j (Suc (length (sys_out s)))"
    using s(1) pop_publish(3) idx_next [OF j] by (simp add: ring_inv_def Let_def)
  moreover have "take (Suc (length (sys_out s))) (sys_in s) = take (length (sys_out s)) (sys_in s) @ [x]"
    using c s(1) by (simp add: ring_inv_def Let_def take_Suc_conv_app_nth)
  ultimately show ?thesis using s pop_publish(1) c
    by (auto simp: ring_inv_def prod_inv_def cons_inv_def Let_def split: Producer.splits)
qed

lemma ring_start:
  assumes "spsc_new d capacity = Some q"
  shows "\<exists>j \<le> 63. ring_inv j (sys_new q) \<and> sq_mask q = 2 ^ j - 1 \<and> unat (capacity + 1) \<le> 2 ^ j
    \<and> (j = 0 \<or> 2 ^ (j - 1) < unat (capacity + 1))"
proof -
  obtain p where p: "round_up_pow2 (capacity + 1) = Some p"
    and q: "q = \<lparr>sq_slots = replicate (unat p) d, sq_mask = p - 1, sq_head = 0, sq_cached_tail = 0, sq_tail = 0, sq_cached_head = 0\<rparr>"
    using assms by (auto simp: spsc_new_def Let_def split: bind_splits)
  have "unat (capacity + 1) \<le> 2 ^ 63" using round_up_diverges [of "capacity + 1"] p by (cases "2 ^ 63 < unat (capacity + 1)") auto
  from round_up [OF this] p obtain j where j: "j \<le> 63" "p = 2 ^ j" "unat (capacity + 1) \<le> 2 ^ j"
    "j = 0 \<or> 2 ^ (j - 1) < unat (capacity + 1)" by auto
  have "ring_inv j (sys_new q)" using j(1) unat_pow2 [of j] by (simp add: ring_inv_def sys_new_def q j(2) idx_def)
  then show ?thesis using j by (auto simp: q)
qed

lemma reachable_inv:
  assumes "spsc_reachable d capacity s"
  shows "\<exists>j \<le> 63. ring_inv j s \<and> prod_inv j s \<and> cons_inv s \<and> unat (capacity + 1) \<le> 2 ^ j
    \<and> (j = 0 \<or> 2 ^ (j - 1) < unat (capacity + 1))"
proof -
  obtain q where q: "spsc_new d capacity = Some q" "spsc_step\<^sup>*\<^sup>* (sys_new q) s" using assms by (auto simp: spsc_reachable_def)
  obtain j where j: "j \<le> 63" "ring_inv j (sys_new q)" "unat (capacity + 1) \<le> 2 ^ j" "j = 0 \<or> 2 ^ (j - 1) < unat (capacity + 1)"
    using ring_start [OF q(1)] by blast
  have "ring_inv j s \<and> prod_inv j s \<and> cons_inv s"
    using q(2)
  proof (induction rule: rtranclp_induct)
    case base
    show ?case using j(2) by (simp add: prod_inv_def cons_inv_def sys_new_def)
  next
    case (step t u)
    then show ?case using ring_push [OF j(1), of t u] ring_pop [OF j(1), of t u] by (auto simp: spsc_step_def)
  qed
  then show ?thesis using j by blast
qed

subsection \<open>One call at a time\<close>

text \<open>
  A call that is not interleaved is a run of its thread's steps with the newest value at the load, so the
  functions of the code inherit the invariant.  \<open>spsc_holds j q xs\<close>: the ring of \<open>2 ^ j\<close> slots holds \<open>xs\<close>.
\<close>

definition spsc_holds :: "nat \<Rightarrow> 'a Spsc \<Rightarrow> 'a list \<Rightarrow> bool" where
  "spsc_holds j q xs \<longleftrightarrow> j \<le> 63 \<and> (\<exists>s. ring_inv j s \<and> sys_q s = q \<and> xs = drop (length (sys_out s)) (sys_in s))"

lemma push_now:
  assumes j: "j \<le> 63" and s: "ring_inv j s" and room: "Suc (length (sys_in s)) < sys_seen_tail s + 2 ^ j"
  shows "\<exists>t. ring_inv j t \<and> sys_q t = (sys_q s)\<lparr>sq_slots := (sq_slots (sys_q s))[unat (sq_head (sys_q s)) := v],
      sq_head := idx j (Suc (length (sys_in s)))\<rparr> \<and> sys_in t = sys_in s @ [v] \<and> sys_out t = sys_out s"
proof -
  let ?s1 = "s\<lparr>sys_cons := CIdle, sys_prod := PWrite v (idx j (Suc (length (sys_in s))))\<rparr>"
  let ?s2 = "?s1\<lparr>sys_q := (sys_q ?s1)\<lparr>sq_slots := (sq_slots (sys_q ?s1))[unat (sq_head (sys_q ?s1)) := v]\<rparr>,
    sys_prod := PPublish v (idx j (Suc (length (sys_in s))))\<rparr>"
  let ?s3 = "?s2\<lparr>sys_q := (sys_q ?s2)\<lparr>sq_head := idx j (Suc (length (sys_in s)))\<rparr>,
    sys_heads := sys_heads ?s2 @ [idx j (Suc (length (sys_in s)))], sys_prod := PIdle, sys_in := sys_in ?s2 @ [v]\<rparr>"
  have "unat (sq_head (sys_q s)) < length (sq_slots (sys_q s))" using s j by (simp add: ring_inv_def Let_def)
  then have 12: "push_step ?s1 ?s2" by (intro push_step.push_write) simp_all
  have 23: "push_step ?s2 ?s3" by (intro push_step.push_publish) simp
  have "ring_inv j ?s1" "prod_inv j ?s1" "cons_inv ?s1" using s room by (simp_all add: prod_inv_def cons_inv_def)
  from ring_push [OF j this 12] have "ring_inv j ?s2" "prod_inv j ?s2" "cons_inv ?s2" by blast+
  from ring_push [OF j this 23] have "ring_inv j ?s3" by blast
  moreover have "sys_q ?s3 = (sys_q s)\<lparr>sq_slots := (sq_slots (sys_q s))[unat (sq_head (sys_q s)) := v],
      sq_head := idx j (Suc (length (sys_in s)))\<rparr>" "sys_in ?s3 = sys_in s @ [v]" "sys_out ?s3 = sys_out s" by simp_all
  ultimately show ?thesis by blast
qed

lemma ring_fields:
  assumes "ring_inv j s"
  shows "sq_mask (sys_q s) = 2 ^ j - 1" "length (sq_slots (sys_q s)) = 2 ^ j" "sq_head (sys_q s) = idx j (length (sys_in s))"
    "sq_tail (sys_q s) = idx j (length (sys_out s))" "sq_cached_tail (sys_q s) = idx j (sys_seen_tail s)"
    "sq_cached_head (sys_q s) = idx j (sys_seen_head s)" "sys_seen_tail s \<le> length (sys_out s)"
    "length (sys_out s) \<le> sys_seen_head s" "sys_seen_head s \<le> length (sys_in s)" "length (sys_in s) < sys_seen_tail s + 2 ^ j"
  using assms by (simp_all add: ring_inv_def Let_def)

lemma load_tail:
  "ring_inv j s \<Longrightarrow> ring_inv j (s\<lparr>sys_q := (sys_q s)\<lparr>sq_cached_tail := sq_tail (sys_q s)\<rparr>, sys_seen_tail := length (sys_out s)\<rparr>)"
  "ring_inv j s \<Longrightarrow> ring_inv j (s\<lparr>sys_q := (sys_q s)\<lparr>sq_cached_head := sq_head (sys_q s)\<rparr>, sys_seen_head := length (sys_in s)\<rparr>)"
  by (auto simp: ring_inv_def Let_def)

lemma try_push_unfold:
  assumes "(sq_head q + 1) AND sq_mask q = n" and "unat (sq_head q) < length (sq_slots q)"
    and "q1 = (if n = sq_cached_tail q then q\<lparr>sq_cached_tail := sq_tail q\<rparr> else q)"
  shows "try_push v q = (if n = sq_cached_tail q1 then Some (False, q1)
    else Some (True, q1\<lparr>sq_slots := (sq_slots q1)[unat (sq_head q1) := v], sq_head := n\<rparr>))"
  using assms(2) unfolding try_push_def Let_def assms(1,3) by simp

lemma try_push_holds:
  assumes "spsc_holds j q xs"
  shows "\<exists>q'. try_push v q = Some (length xs < 2 ^ j - 1, q') \<and> spsc_holds j q' (if length xs < 2 ^ j - 1 then xs @ [v] else xs)"
proof -
  obtain s where j: "j \<le> 63" and s: "ring_inv j s" and q: "sys_q s = q" and xs: "xs = drop (length (sys_out s)) (sys_in s)"
    using assms by (auto simp: spsc_holds_def)
  note f = ring_fields [OF s, unfolded q]
  let ?n = "idx j (Suc (length (sys_in s)))"
  have n: "(sq_head q + 1) AND sq_mask q = ?n" using f idx_next [OF j] by simp
  have h: "unat (sq_head q) < length (sq_slots q)" using f j by simp
  have len: "length (sys_in s) = length (sys_out s) + length xs" using f xs by simp
  define s1 where "s1 = (if ?n = sq_cached_tail q then s\<lparr>sys_q := q\<lparr>sq_cached_tail := sq_tail q\<rparr>, sys_seen_tail := length (sys_out s)\<rparr> else s)"
  have s1: "ring_inv j s1" "sys_in s1 = sys_in s" "sys_out s1 = sys_out s" using s load_tail(1) [OF s] by (simp_all add: s1_def q)
  note f1 = ring_fields [OF s1(1)]
  have eq: "?n = sq_cached_tail (sys_q s1) \<longleftrightarrow> \<not> Suc (length (sys_in s)) < sys_seen_tail s1 + 2 ^ j"
    using idx_full [OF j, of "sys_seen_tail s1" "length (sys_in s)"] f1 s1 by auto
  have sz: "Suc (length (sys_in s)) < sys_seen_tail s1 + 2 ^ j \<longleftrightarrow> length xs < 2 ^ j - 1"
  proof (cases "?n = sq_cached_tail q")
    case True
    then have "sys_seen_tail s1 = length (sys_out s)" by (simp add: s1_def)
    then show ?thesis unfolding len by linarith
  next
    case False
    then have s1s: "s1 = s" by (simp add: s1_def)
    then have "Suc (length (sys_in s)) < sys_seen_tail s + 2 ^ j" using eq False q by blast
    moreover have "sys_seen_tail s \<le> length (sys_out s)" by (rule f(7))
    ultimately show ?thesis unfolding s1s len by linarith
  qed
  have q1: "sys_q s1 = (if ?n = sq_cached_tail q then q\<lparr>sq_cached_tail := sq_tail q\<rparr> else q)" by (simp add: s1_def q)
  show ?thesis
  proof (cases "length xs < 2 ^ j - 1")
    case True
    obtain t where t: "ring_inv j t" "sys_q t = (sys_q s1)\<lparr>sq_slots := (sq_slots (sys_q s1))[unat (sq_head (sys_q s1)) := v], sq_head := ?n\<rparr>"
      "sys_in t = sys_in s @ [v]" "sys_out t = sys_out s"
      using push_now [OF j s1(1), of v] sz True s1 by auto
    have "?n \<noteq> sq_cached_tail (sys_q s1)" using eq sz True by blast
    then have "try_push v q = Some (True, sys_q t)" unfolding t(2) by (simp only: try_push_unfold [OF n h q1] if_False)
    moreover have "length (sys_out s) \<le> length (sys_in s)" using f(8,9) by linarith
    then have "xs @ [v] = drop (length (sys_out t)) (sys_in t)" using xs t(3,4) by simp
    then have "spsc_holds j (sys_q t) (xs @ [v])" unfolding spsc_holds_def using j t(1) by blast
    ultimately show ?thesis using True by auto
  next
    case False
    then have "?n = sq_cached_tail (sys_q s1)" using eq sz by blast
    then have "try_push v q = Some (False, sys_q s1)" unfolding try_push_unfold [OF n h q1] by (rule if_P)
    moreover have "spsc_holds j (sys_q s1) xs" unfolding spsc_holds_def using j s1 xs by (intro conjI exI [of _ s1]) simp_all
    ultimately show ?thesis using False by auto
  qed
qed

lemma pop_now:
  assumes j: "j \<le> 63" and s: "ring_inv j s" and some: "length (sys_out s) < sys_seen_head s"
  shows "\<exists>t. ring_inv j t \<and> sys_q t = (sys_q s)\<lparr>sq_tail := idx j (Suc (length (sys_out s)))\<rparr> \<and> sys_in t = sys_in s
    \<and> sys_out t = sys_out s @ [sys_in s ! length (sys_out s)]"
    and "sq_slots (sys_q s) ! unat (sq_tail (sys_q s)) = sys_in s ! length (sys_out s)"
proof -
  let ?x = "sys_in s ! length (sys_out s)"
  let ?s1 = "s\<lparr>sys_prod := PIdle, sys_cons := CPublish ?x\<rparr>"
  let ?s2 = "?s1\<lparr>sys_q := (sys_q ?s1)\<lparr>sq_tail := idx j (Suc (length (sys_out s)))\<rparr>,
    sys_tails := sys_tails ?s1 @ [idx j (Suc (length (sys_out s)))], sys_cons := CIdle, sys_out := sys_out ?s1 @ [?x]\<rparr>"
  show "sq_slots (sys_q s) ! unat (sq_tail (sys_q s)) = ?x" using s some j by (simp add: ring_inv_def Let_def)
  have "pop_step ?s1 ?s2" using s idx_next [OF j] by (intro pop_step.pop_publish) (simp_all add: ring_inv_def Let_def)
  moreover have "ring_inv j ?s1" "prod_inv j ?s1" "cons_inv ?s1" using s some by (simp_all add: prod_inv_def cons_inv_def)
  ultimately have "ring_inv j ?s2" using ring_pop [OF j] by blast
  moreover have "sys_q ?s2 = (sys_q s)\<lparr>sq_tail := idx j (Suc (length (sys_out s)))\<rparr>" "sys_in ?s2 = sys_in s"
    "sys_out ?s2 = sys_out s @ [?x]" by simp_all
  ultimately show "\<exists>t. ring_inv j t \<and> sys_q t = (sys_q s)\<lparr>sq_tail := idx j (Suc (length (sys_out s)))\<rparr> \<and> sys_in t = sys_in s
    \<and> sys_out t = sys_out s @ [?x]" by blast
qed

lemma try_pop_unfold:
  assumes "unat (sq_tail q) < length (sq_slots q)"
    and "q1 = (if sq_tail q = sq_cached_head q then q\<lparr>sq_cached_head := sq_head q\<rparr> else q)"
  shows "try_pop q = (if sq_tail q = sq_cached_head q1 then Some (None, q1)
    else Some (Some (sq_slots q1 ! unat (sq_tail q1)), q1\<lparr>sq_tail := (sq_tail q + 1) AND sq_mask q\<rparr>))"
  using assms(1) unfolding try_pop_def Let_def assms(2) by auto

lemma try_pop_holds:
  assumes "spsc_holds j q xs"
  shows "\<exists>q'. try_pop q = Some (first_of xs, q') \<and> spsc_holds j q' (tl xs)"
proof -
  obtain s where j: "j \<le> 63" and s: "ring_inv j s" and q: "sys_q s = q" and xs: "xs = drop (length (sys_out s)) (sys_in s)"
    using assms by (auto simp: spsc_holds_def)
  note f = ring_fields [OF s, unfolded q]
  let ?n = "idx j (Suc (length (sys_out s)))"
  have n: "(sq_tail q + 1) AND sq_mask q = ?n" using f idx_next [OF j] by simp
  have h: "unat (sq_tail q) < length (sq_slots q)" using f j by simp
  have len: "length (sys_in s) = length (sys_out s) + length xs" using f xs by simp
  define s1 where "s1 = (if sq_tail q = sq_cached_head q then s\<lparr>sys_q := q\<lparr>sq_cached_head := sq_head q\<rparr>, sys_seen_head := length (sys_in s)\<rparr> else s)"
  have s1: "ring_inv j s1" "sys_in s1 = sys_in s" "sys_out s1 = sys_out s" using s load_tail(2) [OF s] by (simp_all add: s1_def q)
  note f1 = ring_fields [OF s1(1)]
  have q1: "sys_q s1 = (if sq_tail q = sq_cached_head q then q\<lparr>sq_cached_head := sq_head q\<rparr> else q)" by (simp add: s1_def q)
  then have tl1: "sq_tail (sys_q s1) = sq_tail q" by simp
  have eq: "sq_tail q = sq_cached_head (sys_q s1) \<longleftrightarrow> sys_seen_head s1 = length (sys_out s)"
    unfolding tl1 [symmetric] using idx_eq [OF j, of "length (sys_out s)" "sys_seen_head s1"] f1 s1 by auto
  have sz: "sys_seen_head s1 = length (sys_out s) \<longleftrightarrow> xs = []"
  proof (cases "sq_tail q = sq_cached_head q")
    case True
    then have "sys_seen_head s1 = length (sys_in s)" by (simp add: s1_def)
    then show ?thesis unfolding len by simp
  next
    case False
    then have s1s: "s1 = s" by (simp add: s1_def)
    then have "sys_seen_head s \<noteq> length (sys_out s)" using eq False q by blast
    moreover have "length (sys_out s) \<le> sys_seen_head s" "sys_seen_head s \<le> length (sys_in s)" by (rule f(8), rule f(9))
    ultimately show ?thesis unfolding s1s using len by auto
  qed
  show ?thesis
  proof (cases xs)
    case Nil
    then have "sq_tail q = sq_cached_head (sys_q s1)" using eq sz by blast
    then have "try_pop q = Some (None, sys_q s1)" unfolding try_pop_unfold [OF h q1] by (rule if_P)
    moreover have "spsc_holds j (sys_q s1) xs" unfolding spsc_holds_def using j s1 xs by (intro conjI exI [of _ s1]) simp_all
    ultimately show ?thesis using Nil by simp
  next
    case (Cons x ys)
    have some: "length (sys_out s1) < sys_seen_head s1" using sz Cons f1(8) s1(3) by auto
    obtain t where t: "ring_inv j t" "sys_q t = (sys_q s1)\<lparr>sq_tail := ?n\<rparr>" "sys_in t = sys_in s"
      "sys_out t = sys_out s @ [sys_in s ! length (sys_out s)]"
      using pop_now(1) [OF j s1(1) some] s1 by auto
    have x: "sys_in s ! length (sys_out s) = x" using xs Cons using nth_via_drop [of "length (sys_out s)" "sys_in s" x ys] by simp
    have "sq_slots (sys_q s1) ! unat (sq_tail (sys_q s1)) = x" using pop_now(2) [OF j s1(1) some] s1 x by simp
    moreover have "sq_tail q \<noteq> sq_cached_head (sys_q s1)" using eq sz Cons by blast
    ultimately have "try_pop q = Some (Some x, sys_q t)" unfolding t(2) by (simp only: try_pop_unfold [OF h q1] if_False n)
    moreover have "ys = drop (Suc (length (sys_out s))) (sys_in s)" using xs Cons by (metis drop_Suc list.sel(3) tl_drop)
    then have "spsc_holds j (sys_q t) ys" unfolding spsc_holds_def using j t by (intro conjI exI [of _ t]) simp_all
    ultimately show ?thesis using Cons by simp
  qed
qed

lemma spsc_new_holds:
  assumes "unat (capacity + 1) \<le> 2 ^ 63"
  shows "\<exists>q j. spsc_new d capacity = Some q \<and> spsc_holds j q [] \<and> unat (capacity + 1) \<le> 2 ^ j"
proof -
  obtain q where q: "spsc_new d capacity = Some q" using round_up [OF assms] by (auto simp: spsc_new_def Let_def)
  from ring_start [OF this] obtain j where "j \<le> 63" "ring_inv j (sys_new q)" "unat (capacity + 1) \<le> 2 ^ j" by blast
  then have "spsc_holds j q []" unfolding spsc_holds_def by (intro conjI exI [of _ "sys_new q"]) (simp_all add: sys_new_def)
  then show ?thesis using q \<open>unat (capacity + 1) \<le> 2 ^ j\<close> by blast
qed

lemma unat_mask_pow: "j \<le> 63 \<Longrightarrow> unat (2 ^ j - 1 :: 64 word) = 2 ^ j - 1"
proof -
  assume "j \<le> 63"
  then have u: "unat (2 ^ j :: 64 word) = 2 ^ j" by (simp add: unat_pow2)
  have "(1 :: 64 word) \<le> 2 ^ j" using u by (simp add: word_le_nat_alt)
  then show ?thesis using unat_sub [of 1 "2 ^ j :: 64 word"] u by simp
qed

lemma holds_size:
  assumes "spsc_holds j q xs"
  shows "unat (sq_mask q) = 2 ^ j - 1" and "unat (size_approx q) = length xs" and "empty_approx q \<longleftrightarrow> xs = []"
proof -
  obtain s where j: "j \<le> 63" and s: "ring_inv j s" and q: "sys_q s = q" and xs: "xs = drop (length (sys_out s)) (sys_in s)"
    using assms by (auto simp: spsc_holds_def)
  note f = ring_fields [OF s, unfolded q]
  let ?C = "length (sys_out s)" and ?P = "length (sys_in s)"
  have CP: "?C \<le> ?P" "?P < ?C + 2 ^ j" using f(7-10) by linarith+
  show "unat (sq_mask q) = 2 ^ j - 1" unfolding f(1) by (rule unat_mask_pow [OF j])
  have "empty_approx q \<longleftrightarrow> ?P = ?C" unfolding empty_approx_def f(3,4) by (rule idx_eq [OF j CP])
  then show "empty_approx q \<longleftrightarrow> xs = []" using CP(1) by (auto simp: xs)
  have "size_approx q = take_bit j (idx j ?P - idx j ?C)"
    unfolding size_approx_def f(1,3,4) by (simp add: take_bit_eq_mask mask_eq_exp_minus_1)
  also have "idx j ?P - idx j ?C = of_int (int (?P mod 2 ^ j) - int (?C mod 2 ^ j))" by (simp add: idx_def)
  also have "take_bit j (of_int (int (?P mod 2 ^ j) - int (?C mod 2 ^ j)) :: 64 word) = of_int (take_bit j (int (?P mod 2 ^ j) - int (?C mod 2 ^ j)))"
    using j by (simp only: take_bit_of_int)
  also have "take_bit j (int (?P mod 2 ^ j) - int (?C mod 2 ^ j)) = int (length xs)"
  proof -
    have "(int (?P mod 2 ^ j) - int (?C mod 2 ^ j)) mod 2 ^ j = (int ?P - int ?C) mod 2 ^ j"
      by (simp add: of_nat_mod mod_diff_eq)
    also have "int ?P - int ?C = int (length xs)" using CP(1) xs by simp
    also have "int (length xs) mod 2 ^ j = int (length xs)"
    proof -
      have "length xs < 2 ^ j" using CP xs by simp
      then have "int (length xs) < 2 ^ j" by (metis of_nat_less_iff of_nat_numeral of_nat_power)
      then show ?thesis by simp
    qed
    finally show ?thesis by (simp add: take_bit_eq_mod)
  qed
  finally have "size_approx q = of_nat (length xs)" by simp
  moreover have "length xs < 2 ^ 64"
  proof -
    have "(2 :: nat) ^ j \<le> 2 ^ 63" using j by (intro power_increasing) simp_all
    moreover have "length xs < 2 ^ j" using CP xs by simp
    moreover have "(2 :: nat) ^ 63 < 2 ^ 64" by simp
    ultimately show ?thesis by (meson less_le_trans less_trans)
  qed
  ultimately show "unat (size_approx q) = length xs" by (simp add: unsigned_of_nat take_bit_nat_eq_self)
qed

end
