(* ===== verification/SpscProperties.thy ===== *)
theory SpscProperties
  imports Spsc
begin

text \<open>
  The ring as a bounded queue: the contract its users rely on, sequences of calls, and what holds of
  every interleaving of the two threads.
\<close>

subsection \<open>The contract\<close>

locale bounded_queue =
  fixes push :: "'a \<Rightarrow> 'q \<Rightarrow> (bool \<times> 'q) option"
    and pop :: "'q \<Rightarrow> ('a option \<times> 'q) option"
    and holds :: "'q \<Rightarrow> 'a list \<Rightarrow> bool"
    and cap :: nat
  assumes push_law: "holds q xs \<Longrightarrow>
      \<exists>q'. push v q = Some (length xs < cap, q') \<and> holds q' (if length xs < cap then xs @ [v] else xs)"
    and pop_law: "holds q xs \<Longrightarrow> \<exists>q'. pop q = Some (first_of xs, q') \<and> holds q' (tl xs)"

datatype 'a queue_op = Push 'a | Pop

text \<open>A call, and the bounded list it works on; the answer is whether it succeeded and the value popped.\<close>

fun queue_steps ::
  "('a \<Rightarrow> 'q \<Rightarrow> (bool \<times> 'q) option) \<Rightarrow> ('q \<Rightarrow> ('a option \<times> 'q) option) \<Rightarrow> 'a queue_op list \<Rightarrow> 'q
   \<Rightarrow> ((bool \<times> 'a option) list \<times> 'q) option" where
  "queue_steps push pop [] q = Some ([], q)"
| "queue_steps push pop (Push v # ops) q = do {
     (ok, q) \<leftarrow> push v q;
     (rs, q) \<leftarrow> queue_steps push pop ops q;
     Some ((ok, None) # rs, q) }"
| "queue_steps push pop (Pop # ops) q = do {
     (x, q) \<leftarrow> pop q;
     (rs, q) \<leftarrow> queue_steps push pop ops q;
     Some ((x \<noteq> None, x) # rs, q) }"

fun list_steps :: "nat \<Rightarrow> 'a queue_op list \<Rightarrow> 'a list \<Rightarrow> (bool \<times> 'a option) list \<times> 'a list" where
  "list_steps cap [] xs = ([], xs)"
| "list_steps cap (Push v # ops) xs =
     (let ok = length xs < cap; (rs, xs) = list_steps cap ops (if ok then xs @ [v] else xs) in ((ok, None) # rs, xs))"
| "list_steps cap (Pop # ops) xs = (let (rs, ys) = list_steps cap ops (tl xs) in ((xs \<noteq> [], first_of xs) # rs, ys))"

context bounded_queue begin

lemma steps_refine: "holds q xs \<Longrightarrow> \<exists>q'. queue_steps push pop ops q = Some (fst (list_steps cap ops xs), q') \<and> holds q' (snd (list_steps cap ops xs))"
proof (induction ops arbitrary: q xs)
  case (Cons op1 ops)
  show ?case
  proof (cases op1)
    case (Push v)
    obtain q1 where "push v q = Some (length xs < cap, q1)" "holds q1 (if length xs < cap then xs @ [v] else xs)"
      using push_law [OF Cons.prems] by blast
    then show ?thesis using Cons.IH [of q1 "if length xs < cap then xs @ [v] else xs"] Push by (fastforce simp: split_beta Let_def)
  next
    case Pop
    obtain q1 where "pop q = Some (first_of xs, q1)" "holds q1 (tl xs)" using pop_law [OF Cons.prems] by blast
    moreover obtain q' where "queue_steps push pop ops q1 = Some (fst (list_steps cap ops (tl xs)), q')" "holds q' (snd (list_steps cap ops (tl xs)))"
      using Cons.IH calculation(2) by blast
    ultimately show ?thesis using Pop by (cases xs) (auto simp: split_beta)
  qed
qed simp

end

interpretation ring: bounded_queue try_push try_pop "spsc_holds j" "2 ^ j - 1" for j
  by unfold_locales (rule try_push_holds, assumption, rule try_pop_holds, assumption)

subsection \<open>Sequences of calls\<close>

text \<open>C30: A ring built for a capacity up to 2 to the 63rd minus 1 is a FIFO queue of a bounded number of elements, at least the capacity asked for and, unless this is 0, less than twice it: any sequence of pushes and pops, failing ones included, answers like the bounded list, never touches a slot outside the array, and the approximate size is then exact.\<close>

theorem ring_is_bounded_fifo:
  assumes "unat (capacity + 1) \<le> 2 ^ 63"
  shows "\<exists>q n. spsc_new d capacity = Some q \<and> unat (spsc_capacity q) = n \<and> unat (capacity + 1) \<le> Suc n \<and> (n \<noteq> 0 \<longrightarrow> Suc n < 2 * unat (capacity + 1))
    \<and> (\<forall>ops. \<exists>q'. queue_steps try_push try_pop ops q = Some (fst (list_steps n ops []), q')
        \<and> unat (size_approx q') = length (snd (list_steps n ops [])) \<and> empty_approx q' = (snd (list_steps n ops []) = []))"
proof -
  obtain q where q: "spsc_new d capacity = Some q" using spsc_new_holds [OF assms, of d] by blast
  obtain j where j: "j \<le> 63" "ring_inv j (sys_new q)" "sq_mask q = 2 ^ j - 1" "unat (capacity + 1) \<le> 2 ^ j"
    "j = 0 \<or> 2 ^ (j - 1) < unat (capacity + 1)" using ring_start [OF q] by blast
  have h: "spsc_holds j q []" unfolding spsc_holds_def using j by (intro conjI exI [of _ "sys_new q"]) (simp_all add: sys_new_def)
  have n: "unat (spsc_capacity q) = 2 ^ j - 1" using j(1,3) holds_size(1) [OF h] by (simp add: spsc_capacity_def)
  have "(2 :: nat) ^ j - 1 \<noteq> 0 \<longrightarrow> Suc (2 ^ j - 1) < 2 * unat (capacity + 1)"
    using j(5) by (cases j) auto
  moreover have "\<forall>ops. \<exists>q'. queue_steps try_push try_pop ops q = Some (fst (list_steps (2 ^ j - 1) ops []), q')
      \<and> unat (size_approx q') = length (snd (list_steps (2 ^ j - 1) ops [])) \<and> empty_approx q' = (snd (list_steps (2 ^ j - 1) ops []) = [])"
    using ring.steps_refine [OF h] holds_size(2,3) by blast
  moreover have "unat (capacity + 1) \<le> Suc (2 ^ j - 1)" using j(4) by simp
  ultimately show ?thesis using q n by blast
qed

theorem ring_is_bounded_fifo_witness:
  "\<exists>q. spsc_new 0 2 = Some q \<and> unat (spsc_capacity q) = 3
    \<and> (\<exists>q'. queue_steps try_push try_pop [Push 5, Push 6, Push 7, Push 8, Pop, Push 9, Pop, Pop, Pop, Pop] q
      = Some ([(True, None), (True, None), (True, None), (False, None), (True, Some 5), (True, None), (True, Some 6), (True, Some 7),
          (True, Some (9 :: nat)), (False, None)], q'))"
proof -
  have "unat ((2 :: 64 word) + 1) \<le> 2 ^ 63" by simp
  from ring_is_bounded_fifo [OF this, of "0 :: nat"] obtain q n where q: "spsc_new (0 :: nat) 2 = Some q" "unat (spsc_capacity q) = n"
    and r: "\<forall>ops. \<exists>q'. queue_steps try_push try_pop ops q = Some (fst (list_steps n ops []), q')" by blast
  have "round_up_pow2 (2 + 1) = Some 4"
    unfolding round_up_pow2_def by (simp add: round_loop.simps [of 3])
  then have "n = 3" using q(1,2) by (auto simp: spsc_new_def Let_def spsc_capacity_def)
  then show ?thesis using q(1,2) r by (intro exI [of _ q]) (auto dest!: spec [of _ "[Push 5, Push 6, Push 7, Push 8, Pop, Push 9, Pop, Pop, Pop, Pop]"])
qed

subsection \<open>All interleavings\<close>

text \<open>C31: In every interleaving of the two threads, with loads that may return any value not older than the last one seen, the values popped are the first of the values pushed, in order, none lost or twice; no more are in the ring than it has capacity for; and when one thread is about to write a slot and the other about to read one, both indices are inside the array and they differ.\<close>

theorem interleaved_fifo:
  assumes "spsc_reachable d capacity s"
  shows "sys_out s = take (length (sys_out s)) (sys_in s) \<and> length (sys_out s) \<le> length (sys_in s)
    \<and> length (sys_in s) - length (sys_out s) \<le> unat (spsc_capacity (sys_q s))
    \<and> unat (sq_head (sys_q s)) < length (sq_slots (sys_q s)) \<and> unat (sq_tail (sys_q s)) < length (sq_slots (sys_q s))
    \<and> (sys_prod s = PWrite v next \<and> sys_cons s = CRead \<longrightarrow> sq_head (sys_q s) \<noteq> sq_tail (sys_q s))"
proof -
  obtain j where j: "j \<le> 63" and s: "ring_inv j s" "prod_inv j s" "cons_inv s" using reachable_inv [OF assms] by blast
  note f = ring_fields [OF s(1)]
  have m: "unat (spsc_capacity (sys_q s)) = 2 ^ j - 1" unfolding spsc_capacity_def f(1) by (rule unat_mask_pow [OF j])
  have "sq_head (sys_q s) \<noteq> sq_tail (sys_q s)" if "sys_prod s = PWrite v next" "sys_cons s = CRead"
  proof -
    have "Suc (length (sys_in s)) < sys_seen_tail s + 2 ^ j" "length (sys_out s) < sys_seen_head s"
      using s(2,3) that by (simp_all add: prod_inv_def cons_inv_def)
    then show ?thesis unfolding f(3,4) using idx_eq [OF j, of "length (sys_out s)" "length (sys_in s)"] f(7,9) by auto
  qed
  moreover have "sys_out s = take (length (sys_out s)) (sys_in s)" using s(1) by (simp add: ring_inv_def Let_def)
  moreover have "length (sys_in s) - length (sys_out s) \<le> 2 ^ j - 1" using f(7,10) by linarith
  ultimately show ?thesis using f j m by auto
qed

lemma sample_reachable:
  "\<exists>s. spsc_reachable (0 :: nat) 2 s \<and> sys_in s = [7] \<and> sys_out s = [] \<and> sys_prod s = PWrite 8 2 \<and> sys_cons s = CLoad"
proof -
  have "round_up_pow2 (2 + 1) = Some 4" unfolding round_up_pow2_def by (simp add: round_loop.simps [of 3])
  then have q: "spsc_new (0 :: nat) 2 = Some \<lparr>sq_slots = replicate 4 0, sq_mask = 3, sq_head = 0, sq_cached_tail = 0,
      sq_tail = 0, sq_cached_head = 0\<rparr>" (is "_ = Some ?q") by (simp add: spsc_new_def Let_def)
  let ?s0 = "sys_new ?q"
  let ?s1 = "?s0\<lparr>sys_prod := PWrite 7 1\<rparr>"
  let ?s2 = "?s1\<lparr>sys_q := ?q\<lparr>sq_slots := [7, 0, 0, 0]\<rparr>, sys_prod := PPublish 7 1\<rparr>"
  let ?s3 = "?s2\<lparr>sys_q := ?q\<lparr>sq_slots := [7, 0, 0, 0], sq_head := 1\<rparr>, sys_heads := [0, 1], sys_prod := PIdle, sys_in := [7]\<rparr>"
  let ?s4 = "?s3\<lparr>sys_prod := PWrite 8 2\<rparr>"
  let ?s5 = "?s4\<lparr>sys_cons := CLoad\<rparr>"
  have "spsc_step ?s0 ?s1" using push_step.push_begin [of ?s0 1 7] by (simp add: spsc_step_def sys_new_def)
  moreover have "spsc_step ?s1 ?s2" using push_step.push_write [of ?s1 7 1] by (simp add: spsc_step_def sys_new_def numeral_eq_Suc)
  moreover have "spsc_step ?s2 ?s3" using push_step.push_publish [of ?s2 7 1] by (simp add: spsc_step_def sys_new_def)
  moreover have "spsc_step ?s3 ?s4" using push_step.push_begin [of ?s3 2 8] by (simp add: spsc_step_def sys_new_def)
  moreover have "spsc_step ?s4 ?s5" using pop_step.pop_begin [of ?s4] by (simp add: spsc_step_def sys_new_def)
  ultimately have "spsc_step\<^sup>*\<^sup>* ?s0 ?s5" by (meson rtranclp.rtrancl_into_rtrancl rtranclp.rtrancl_refl)
  then have "spsc_reachable 0 2 ?s5" unfolding spsc_reachable_def using q by blast
  then show ?thesis by (intro exI [of _ ?s5]) (simp add: sys_new_def)
qed

theorem interleaved_fifo_witness:
  "\<exists>s. spsc_reachable (0 :: nat) 2 s \<and> sys_in s = [7] \<and> sys_out s = take (length (sys_out s)) (sys_in s)
    \<and> unat (sq_head (sys_q s)) < length (sq_slots (sys_q s))"
proof -
  obtain s where s: "spsc_reachable (0 :: nat) 2 s" "sys_in s = [7]" using sample_reachable by blast
  show ?thesis using interleaved_fifo [OF s(1), of 8 2] s by blast
qed

fun prod_rank :: "'a Producer \<Rightarrow> nat" where
  "prod_rank PIdle = 0"
| "prod_rank (PPublish v n) = 1"
| "prod_rank (PWrite v n) = 2"
| "prod_rank (PLoad v n) = 3"

fun cons_rank :: "'a Consumer \<Rightarrow> nat" where
  "cons_rank CIdle = 0"
| "cons_rank (CPublish x) = 1"
| "cons_rank CRead = 2"
| "cons_rank CLoad = 3"

text \<open>C32: Both operations are wait-free: a thread inside a call always has a step, whatever the other does, each of its own steps brings the call nearer its end, so that it takes at most four, and no step of the other thread moves it back.  A refused push found the ring full, and a refused pop found it empty, with respect to the value its load returned.\<close>

theorem operations_wait_free:
  assumes "spsc_reachable d capacity s"
  shows "(sys_prod s \<noteq> PIdle \<longrightarrow> (\<exists>t. push_step s t)) \<and> (sys_cons s \<noteq> CIdle \<longrightarrow> (\<exists>t. pop_step s t))
    \<and> (\<forall>t. push_step s t \<longrightarrow> sys_cons t = sys_cons s \<and> prod_rank (sys_prod t) \<le> 3 \<and> (sys_prod s = PIdle \<or> prod_rank (sys_prod t) < prod_rank (sys_prod s))
        \<and> (sys_prod s \<noteq> PIdle \<longrightarrow> sys_prod t = PIdle \<longrightarrow> sys_in t = sys_in s
            \<longrightarrow> length (sys_in s) = sys_seen_tail t + unat (spsc_capacity (sys_q s))))
    \<and> (\<forall>t. pop_step s t \<longrightarrow> sys_prod t = sys_prod s \<and> cons_rank (sys_cons t) \<le> 3 \<and> (sys_cons s = CIdle \<or> cons_rank (sys_cons t) < cons_rank (sys_cons s))
        \<and> (sys_cons s \<noteq> CIdle \<longrightarrow> sys_cons t = CIdle \<longrightarrow> sys_out t = sys_out s \<longrightarrow> sys_seen_head t = length (sys_out s)))"
proof -
  obtain j where j: "j \<le> 63" and s: "ring_inv j s" "prod_inv j s" "cons_inv s" using reachable_inv [OF assms] by blast
  note f = ring_fields [OF s(1)]
  have h: "unat (sq_head (sys_q s)) < length (sq_slots (sys_q s))" "unat (sq_tail (sys_q s)) < length (sq_slots (sys_q s))"
    using f j by simp_all
  have len: "length (sys_tails s) = Suc (length (sys_out s))" "length (sys_heads s) = Suc (length (sys_in s))"
    using s(1) by (simp_all add: ring_inv_def Let_def)
  have at: "i \<le> length (sys_out s) \<Longrightarrow> sys_tails s ! i = idx j i" "k \<le> length (sys_in s) \<Longrightarrow> sys_heads s ! k = idx j k" for i k
    using s(1) by (auto simp: ring_inv_def Let_def simp del: upt_Suc)
  have m: "unat (spsc_capacity (sys_q s)) = 2 ^ j - 1" unfolding spsc_capacity_def f(1) by (rule unat_mask_pow [OF j])
  have seen: "sys_seen_tail s < length (sys_tails s)" "sys_seen_head s < length (sys_heads s)" using f(7,9) len by simp_all
  have "\<exists>t. push_step s t" if "sys_prod s \<noteq> PIdle"
    using that h(1) seen(1) push_step.push_load [of s _ _ "sys_seen_tail s"] push_step.push_write [of s] push_step.push_publish [of s]
    by (cases "sys_prod s") blast+
  moreover have "\<exists>t. pop_step s t" if "sys_cons s \<noteq> CIdle"
    using that h(2) seen(2) pop_step.pop_load [of s "sys_seen_head s"] pop_step.pop_read [of s] pop_step.pop_publish [of s]
    by (cases "sys_cons s") blast+
  moreover have "sys_cons t = sys_cons s \<and> prod_rank (sys_prod t) \<le> 3 \<and> (sys_prod s = PIdle \<or> prod_rank (sys_prod t) < prod_rank (sys_prod s))
        \<and> (sys_prod s \<noteq> PIdle \<longrightarrow> sys_prod t = PIdle \<longrightarrow> sys_in t = sys_in s
            \<longrightarrow> length (sys_in s) = sys_seen_tail t + unat (spsc_capacity (sys_q s)))" if "push_step s t" for t
    using that
  proof cases
    case (push_load v "next" i)
    have "length (sys_in s) = i + (2 ^ j - 1)" if "next = sys_tails s ! i"
    proof -
      have i: "i \<le> length (sys_out s)" "length (sys_out s) \<le> length (sys_in s)" using push_load(4) len f(8,9) by simp_all
      have "idx j (Suc (length (sys_in s))) = idx j i" using that s(2) push_load(2) at(1) [OF i(1)] by (simp add: prod_inv_def)
      then show ?thesis using idx_full [OF j, of i "length (sys_in s)"] i push_load(3) f(10) by auto
    qed
    then show ?thesis using push_load(1,2) by (simp add: m)
  qed (simp_all)
  moreover have "sys_prod t = sys_prod s \<and> cons_rank (sys_cons t) \<le> 3 \<and> (sys_cons s = CIdle \<or> cons_rank (sys_cons t) < cons_rank (sys_cons s))
        \<and> (sys_cons s \<noteq> CIdle \<longrightarrow> sys_cons t = CIdle \<longrightarrow> sys_out t = sys_out s \<longrightarrow> sys_seen_head t = length (sys_out s))" if "pop_step s t" for t
    using that
  proof cases
    case (pop_load i)
    have "i = length (sys_out s)" if "sq_tail (sys_q s) = sys_heads s ! i"
    proof -
      have i: "i \<le> length (sys_in s)" "length (sys_out s) \<le> i" using pop_load(3,4) len f(8) by simp_all
      have "idx j i = idx j (length (sys_out s))" using that f(4) at(2) [OF i(1)] by simp
      then show ?thesis using idx_eq [OF j i(2)] i f(7,10) by auto
    qed
    then show ?thesis using pop_load(1,2) by simp
  qed (simp_all)
  ultimately show ?thesis by blast
qed

theorem operations_wait_free_witness:
  "\<exists>s. spsc_reachable (0 :: nat) 2 s \<and> sys_prod s = PWrite 8 2 \<and> (\<exists>t. push_step s t) \<and> (\<exists>t. pop_step s t)"
proof -
  obtain s where s: "spsc_reachable (0 :: nat) 2 s" "sys_prod s = PWrite 8 2" "sys_cons s = CLoad" using sample_reachable by blast
  show ?thesis using operations_wait_free [OF s(1)] s by auto
qed

end
