(* ===== verification/FlatBook.thy ===== *)
theory FlatBook
  imports MarketRules
begin

text \<open>
  The specification book seen as its two priority lists: what the calls of a feed (\<^verbatim>\<open>insert_passive\<close>,
  \<^verbatim>\<open>execute_resting\<close>, \<^verbatim>\<open>reduce_resting\<close>, \<^verbatim>\<open>cancel\<close>) do to the lists, and that a book is
  determined by them.
\<close>

definition flats :: "ABook \<Rightarrow> Side \<Rightarrow> (Price \<times> entry) list" where
  "flats A s = flat (ab_levels A s)"

lemma flats_count [simp]: "flats (abs_count f A) = flats A"
  by (simp add: flats_def fun_eq_iff)

lemma ids_flats: "book_ids A = (\<Union>s. (\<lambda>f. en_id (snd f)) ` set (flats A s))"
  by (simp add: book_ids_flat flats_def split_beta)

text \<open>Taking \<open>q\<close> off the order \<open>oid\<close>, dropping it, and entering an order behind its price.\<close>

definition lessen :: "OrderId \<Rightarrow> Qty \<Rightarrow> Price \<times> entry \<Rightarrow> Price \<times> entry" where
  "lessen oid q = (\<lambda>(p, e). (p, if en_id e = oid then e\<lparr>en_qty := en_qty e - min q (en_qty e)\<rparr> else e))"

definition cut :: "OrderId \<Rightarrow> Qty \<Rightarrow> (Price \<times> entry) list \<Rightarrow> (Price \<times> entry) list" where
  "cut oid q fs = filter (\<lambda>f. en_qty (snd f) \<noteq> 0) (map (lessen oid q) fs)"

definition without :: "OrderId \<Rightarrow> (Price \<times> entry) list \<Rightarrow> (Price \<times> entry) list" where
  "without oid fs = filter (\<lambda>f. en_id (snd f) \<noteq> oid) fs"

definition enter :: "Side \<Rightarrow> Price \<Rightarrow> entry \<Rightarrow> (Price \<times> entry) list \<Rightarrow> (Price \<times> entry) list" where
  "enter s p e fs = takeWhile (\<lambda>f. \<not> before s p (fst f)) fs @ (p, e) # dropWhile (\<lambda>f. \<not> before s p (fst f)) fs"

lemma cut_append: "cut oid q (xs @ ys) = cut oid q xs @ cut oid q ys"
  by (simp add: cut_def)

lemma cut_other: "\<forall>f \<in> set fs. en_id (snd f) \<noteq> oid \<and> en_qty (snd f) \<noteq> 0 \<Longrightarrow> cut oid q fs = fs"
proof -
  assume o1: "\<forall>f \<in> set fs. en_id (snd f) \<noteq> oid \<and> en_qty (snd f) \<noteq> 0"
  then have "map (lessen oid q) fs = fs" by (intro map_idI) (auto simp: lessen_def split: prod.split)
  then show ?thesis using o1 by (simp add: cut_def filter_id_conv)
qed

lemma without_other: "\<forall>f \<in> set fs. en_id (snd f) \<noteq> oid \<Longrightarrow> without oid fs = fs"
  by (simp add: without_def filter_id_conv)

lemma without_append: "without oid (xs @ ys) = without oid xs @ without oid ys"
  by (simp add: without_def)

lemma cut_one: "en_id e = oid \<Longrightarrow> cut oid q [(p, e)] =
    (if en_qty e - min q (en_qty e) = 0 then [] else [(p, e\<lparr>en_qty := en_qty e - min q (en_qty e)\<rparr>)])"
  by (simp add: cut_def lessen_def)

subsection \<open>Well-formed priority lists\<close>

definition flats_ok :: "(Price \<Rightarrow> bool) \<Rightarrow> (Side \<Rightarrow> (Price \<times> entry) list) \<Rightarrow> bool" where
  "flats_ok V F \<longleftrightarrow> (\<forall>s. \<forall>f \<in> set (F s). V (fst f) \<and> en_qty (snd f) \<noteq> 0)
     \<and> (\<forall>s. distinct (map (\<lambda>f. en_id (snd f)) (F s)))
     \<and> (\<forall>f \<in> set (F Bid). \<forall>g \<in> set (F Ask). en_id (snd f) \<noteq> en_id (snd g))"

definition shape_ok :: "ABook \<Rightarrow> bool" where
  "shape_ok A \<longleftrightarrow> (\<forall>s. ladder_sorted s (ab_levels A s) \<and> (\<forall>(p, es) \<in> set (ab_levels A s). es \<noteq> []))"

lemma flat_ball: "(\<forall>f \<in> set (flat ls). P f) \<longleftrightarrow> (\<forall>(p, es) \<in> set ls. \<forall>e \<in> set es. P (p, e))"
  by (induction ls) (auto simp: ball_Un)

lemma abook_ok_flats: "abook_ok V A \<longleftrightarrow> shape_ok A \<and> flats_ok V (flats A)"
proof -
  have d: "distinct (map (\<lambda>(s, p, e). en_id e) (all_entries A)) \<longleftrightarrow> (\<forall>s. distinct (map (\<lambda>f. en_id (snd f)) (flats A s)))
     \<and> (\<forall>f \<in> set (flats A Bid). \<forall>g \<in> set (flats A Ask). en_id (snd f) \<noteq> en_id (snd g))"
  proof -
    have m: "map (\<lambda>(p, e). en_id e) fs = map (\<lambda>f. en_id (snd f)) fs" for fs :: "(Price \<times> entry) list"
      by (rule map_cong) auto
    have "distinct (map (\<lambda>(s, p, e). en_id e) (all_entries A)) \<longleftrightarrow> distinct (map (\<lambda>f. en_id (snd f)) (flats A Bid) @ map (\<lambda>f. en_id (snd f)) (flats A Ask))"
      by (simp only: all_entries_def map_append ids_flat flats_def m)
    also have "\<dots> \<longleftrightarrow> distinct (map (\<lambda>f. en_id (snd f)) (flats A Bid)) \<and> distinct (map (\<lambda>f. en_id (snd f)) (flats A Ask))
        \<and> (\<forall>f \<in> set (flats A Bid). \<forall>g \<in> set (flats A Ask). en_id (snd f) \<noteq> en_id (snd g))"
      unfolding distinct_append by auto
    also have "distinct (map (\<lambda>f. en_id (snd f)) (flats A Bid)) \<and> distinct (map (\<lambda>f. en_id (snd f)) (flats A Ask))
        \<longleftrightarrow> (\<forall>s. distinct (map (\<lambda>f. en_id (snd f)) (flats A s)))" by (metis Side.exhaust)
    ultimately show ?thesis by blast
  qed
  have "(\<forall>(p, es) \<in> set ls. V p \<and> es \<noteq> [] \<and> (\<forall>e \<in> set es. en_qty e \<noteq> 0))
      \<longleftrightarrow> (\<forall>(p, es) \<in> set ls. es \<noteq> []) \<and> (\<forall>f \<in> set (flat ls). V (fst f) \<and> en_qty (snd f) \<noteq> 0)" for ls
  proof -
    have l: "V p \<and> es \<noteq> [] \<and> (\<forall>e \<in> set es. en_qty e \<noteq> 0) \<longleftrightarrow> es \<noteq> [] \<and> (\<forall>e \<in> set es. V p \<and> en_qty e \<noteq> 0)" for p and es :: queue
      by (cases es) auto
    show ?thesis unfolding flat_ball l fst_conv snd_conv split_beta ball_conj_distrib by (rule refl)
  qed
  then have l: "(\<forall>s. ladder_sorted s (ab_levels A s) \<and> (\<forall>(p, es) \<in> set (ab_levels A s). V p \<and> es \<noteq> [] \<and> (\<forall>e \<in> set es. en_qty e \<noteq> 0)))
      \<longleftrightarrow> shape_ok A \<and> (\<forall>s. \<forall>f \<in> set (flats A s). V (fst f) \<and> en_qty (snd f) \<noteq> 0)"
    by (simp only: shape_ok_def flats_def all_conj_distrib conj_assoc)
  show ?thesis unfolding abook_ok_def l d flats_ok_def by (simp only: conj_assoc)
qed

lemma flat_determines:
  assumes "ladder_sorted s ls" and "\<forall>(p, es) \<in> set ls. es \<noteq> []" and "ladder_sorted s ks" and "\<forall>(p, es) \<in> set ks. es \<noteq> []"
    and "flat ls = flat ks"
  shows "ls = ks"
  using assms
proof (induction ls arbitrary: ks)
  case Nil
  then show ?case by (cases ks) auto
next
  case (Cons l ls)
  obtain p es where l: "l = (p, es)" by force
  then have es: "es \<noteq> []" using Cons.prems(2) by auto
  then obtain k ks' where ks: "ks = k # ks'" using Cons.prems(5) l by (cases ks) auto
  obtain r gs where k: "k = (r, gs)" by force
  then have gs: "gs \<noteq> []" using Cons.prems(4) ks by auto
  have after: "takeWhile (\<lambda>f. fst f = p) (map (Pair p) xs @ flat zs) = map (Pair p) xs"
    if "\<forall>q \<in> fst ` set zs. before s p q" for p and xs :: queue and zs
  proof -
    have "\<forall>f \<in> set (flat zs). fst f \<noteq> p" using that by (fastforce simp: flat_member)
    then have "takeWhile (\<lambda>f. fst f = p) (flat zs) = []" by (cases "flat zs") auto
    then show ?thesis by (simp add: takeWhile_append)
  qed
  have eq: "map (Pair p) es @ flat ls = map (Pair r) gs @ flat ks'" using Cons.prems(5) l ks k by simp
  then have pr: "p = r" using es gs by (cases es; cases gs) auto
  have "map (Pair p) es = map (Pair p) gs"
    using arg_cong [OF eq, of "takeWhile (\<lambda>f. fst f = p)"] after [of ls p es] after [of ks' p gs] Cons.prems(1,3) l ks k pr by auto
  then have "es = gs" by (metis inj_onI list.inj_map_strong prod.inject)
  moreover from this have "flat ls = flat ks'" using eq pr by simp
  then have "ls = ks'" using Cons.prems l ks k by (intro Cons.IH) auto
  ultimately show ?case using l ks k pr by simp
qed

lemma flats_determine: "shape_ok A \<Longrightarrow> shape_ok B \<Longrightarrow> flats A = flats B \<Longrightarrow> ab_levels A = ab_levels B"
proof (rule ext)
  fix s
  assume "shape_ok A" "shape_ok B" "flats A = flats B"
  then have "flat (ab_levels A s) = flat (ab_levels B s)" by (metis flats_def)
  then show "ab_levels A s = ab_levels B s"
    using \<open>shape_ok A\<close> \<open>shape_ok B\<close> by (intro flat_determines [of s]) (simp_all add: shape_ok_def)
qed

subsection \<open>The calls of a feed\<close>

lemma shape_set_queue: "shape_ok A \<Longrightarrow> shape_ok (abs_set_queue s p es A)"
  unfolding shape_ok_def abs_set_queue_def place_def
  by (auto simp: set_del dest!: set_put [THEN equalityD1, THEN subsetD, rotated])

lemma shape_ops:
  assumes "shape_ok A"
  shows "shape_ok (abs_count f A)" and "shape_ok (abs_remove s p oid A)" and "shape_ok (abs_rest oid s p q actor A)"
    and "shape_ok (snd (abs_cancel oid A))" and "shape_ok (snd (snd (abs_consume oid q x A)))"
proof -
  have c: "shape_ok (abs_count f A)" for f using assms by (simp add: shape_ok_def)
  show "shape_ok (abs_count f A)" by (rule c)
  show "shape_ok (abs_remove s p oid A)" "shape_ok (abs_rest oid s p q actor A)"
    using assms by (simp_all add: abs_remove_def abs_rest_def shape_set_queue)
  show "shape_ok (snd (abs_cancel oid A))" "shape_ok (snd (snd (abs_consume oid q x A)))"
    using assms c by (auto simp: abs_cancel_def abs_consume_def abs_remove_def Let_def shape_set_queue split: option.split)
qed

lemma find_flats:
  assumes "abook_ok V A"
  shows "abs_find oid A = Some (s, p, e) \<Longrightarrow> (p, e) \<in> set (flats A s) \<and> en_id e = oid"
    and "(p, e) \<in> set (flats A s) \<Longrightarrow> abs_find (en_id e) A = Some (s, p, e)"
proof -
  show "(p, e) \<in> set (flats A s) \<and> en_id e = oid" if f: "abs_find oid A = Some (s, p, e)" for oid s p e
  proof -
    obtain xs ys where "(p, xs @ e # ys) \<in> set (ab_levels A s)" "en_id e = oid" by (rule abs_find_split [OF assms f]) blast
    then show ?thesis by (force simp: flats_def flat_member)
  qed
  note there = this
  show "abs_find (en_id e) A = Some (s, p, e)" if m: "(p, e) \<in> set (flats A s)"
  proof -
    have "en_id e \<in> book_ids A" using m by (force simp: ids_flats)
    then obtain s' p' e' where f: "abs_find (en_id e) A = Some (s', p', e')" using abs_find_None [of "en_id e" A] by auto
    from there [OF f] have b: "(p', e') \<in> set (flats A s')" "en_id e' = en_id e" by simp_all
    have ok: "flats_ok V (flats A)" using assms by (simp add: abook_ok_flats)
    have "s' = s" using ok m b unfolding flats_ok_def by (cases s; cases s') force+
    moreover have "inj_on (\<lambda>f. en_id (snd f)) (set (flats A s))" using ok unfolding flats_ok_def by (simp add: distinct_map)
    then have "(p', e') = (p, e)" using m b \<open>s' = s\<close> inj_onD [of "\<lambda>f. en_id (snd f)" "set (flats A s)" "(p', e')" "(p, e)"] by simp
    ultimately show ?thesis using f by simp
  qed
qed

text \<open>The order \<open>oid\<close> in its list.\<close>

lemma flats_split:
  assumes ok: "abook_ok V A" and f: "abs_find oid A = Some (s, p, e)" and B: "ab_levels B = ab_levels A"
  obtains pre post where "flats A s = pre @ (p, e) # post" and "\<forall>f \<in> set (pre @ post). en_id (snd f) \<noteq> oid \<and> en_qty (snd f) \<noteq> 0"
    and "\<forall>f \<in> set (flats A (opposite s)). en_id (snd f) \<noteq> oid \<and> en_qty (snd f) \<noteq> 0" and "en_id e = oid" and "en_qty e \<noteq> 0"
    and "flats (abs_remove s p oid B) s = pre @ post"
    and "\<And>f. flats (abs_set_queue s p (map (\<lambda>e. if en_id e = oid then f e else e) (queue_at p (ab_levels A s))) B) s = pre @ (p, f e) # post"
    and "flats (abs_remove s p oid B) (opposite s) = flats A (opposite s)"
    and "\<And>es. flats (abs_set_queue s p es B) (opposite s) = flats A (opposite s)"
proof -
  obtain pre post where o1: "flats A s = pre @ (p, e) # post" "en_id e = oid"
    "flats (abs_remove s p oid B) s = pre @ post"
    "\<And>f. flats (abs_set_queue s p (map (\<lambda>e. if en_id e = oid then f e else e) (queue_at p (ab_levels A s))) B) s = pre @ (p, f e) # post"
    "flats (abs_remove s p oid B) (opposite s) = flats A (opposite s)"
    "\<And>es. flats (abs_set_queue s p es B) (opposite s) = flats A (opposite s)"
    unfolding flats_def by (rule one_order [OF ok f B]) simp
  have fo: "flats_ok V (flats A)" using ok by (simp add: abook_ok_flats)
  then have d: "distinct (map (\<lambda>f. en_id (snd f)) (flats A s))" and q: "\<forall>f \<in> set (flats A t). en_qty (snd f) \<noteq> 0" for t
    unfolding flats_ok_def by blast+
  have x: "f \<in> set (flats A s) \<Longrightarrow> g \<in> set (flats A (opposite s)) \<Longrightarrow> en_id (snd g) \<noteq> en_id (snd f)" for f g
    using fo unfolding flats_ok_def by (cases s) fastforce+
  have "\<forall>f \<in> set (pre @ post). en_id (snd f) \<noteq> oid" using d o1(1,2) by (force simp: image_iff)
  moreover have "\<forall>g \<in> set (flats A (opposite s)). en_id (snd g) \<noteq> oid" using x [of "(p, e)"] o1(1,2) by auto
  moreover have "\<forall>f \<in> set (pre @ post). en_qty (snd f) \<noteq> 0" "en_qty e \<noteq> 0" using q [of s] o1(1) by auto
  ultimately show thesis using that o1 q [of "opposite s"] by blast
qed

lemma other_side: "(t :: Side) \<noteq> s \<Longrightarrow> t = opposite s"
  by (cases s; cases t) (simp_all add: opposite_def)

lemma consume_flats:
  assumes ok: "abook_ok V A" and q: "q \<noteq> 0"
  shows "flats (snd (snd (abs_consume oid q x A))) t = cut oid q (flats A t)"
proof (cases "abs_find oid A")
  case None
  then have "\<forall>f \<in> set (flats A t). en_id (snd f) \<noteq> oid" using abs_find_None [of oid A] by (auto simp: ids_flats)
  moreover have "\<forall>f \<in> set (flats A t). en_qty (snd f) \<noteq> 0" using ok by (simp add: abook_ok_flats flats_ok_def)
  ultimately show ?thesis using None cut_other [of "flats A t" oid q] by (simp add: abs_consume_def)
next
  case (Some l)
  then obtain s p e where f: "abs_find oid A = Some (s, p, e)" by (cases l) auto
  define B where "B = abs_count (if x then c_executed (min q (en_qty e)) else c_canceled (min q (en_qty e))) A"
  have B: "ab_levels B = ab_levels A" by (simp add: B_def)
  obtain pre post where o1: "flats A s = pre @ (p, e) # post" "\<forall>f \<in> set (pre @ post). en_id (snd f) \<noteq> oid \<and> en_qty (snd f) \<noteq> 0"
    "\<forall>f \<in> set (flats A (opposite s)). en_id (snd f) \<noteq> oid \<and> en_qty (snd f) \<noteq> 0" "en_id e = oid" "en_qty e \<noteq> 0"
    "flats (abs_remove s p oid B) s = pre @ post"
    "\<And>f. flats (abs_set_queue s p (map (\<lambda>e. if en_id e = oid then f e else e) (queue_at p (ab_levels A s))) B) s = pre @ (p, f e) # post"
    "flats (abs_remove s p oid B) (opposite s) = flats A (opposite s)"
    "\<And>es. flats (abs_set_queue s p es B) (opposite s) = flats A (opposite s)"
    by (rule flats_split [OF ok f B]) blast
  have cs: "cut oid q (flats A s) = pre @ cut oid q [(p, e)] @ post"
    using cut_other [of pre oid q] cut_other [of post oid q] o1(2) cut_append [of oid q pre "[(p, e)] @ post"] cut_append [of oid q "[(p, e)]" post]
    by (simp add: o1(1))
  have co: "cut oid q (flats A (opposite s)) = flats A (opposite s)" using cut_other o1(3) by blast
  have z: "en_qty e - min q (en_qty e) = 0 \<longleftrightarrow> min q (en_qty e) = en_qty e" by auto
  show ?thesis
  proof (cases "t = s")
    case True
    then show ?thesis using f q o1(4,6,7) cs B z
      by (simp add: abs_consume_def Let_def cut_one B_def [symmetric])
  next
    case False
    then have "t = opposite s" by (rule other_side)
    then show ?thesis using f q o1(8,9) co B by (simp add: abs_consume_def Let_def B_def [symmetric])
  qed
qed

lemma cancel_flats:
  assumes ok: "abook_ok V A"
  shows "flats (snd (abs_cancel oid A)) t = without oid (flats A t)"
proof (cases "abs_find oid A")
  case None
  then have "\<forall>f \<in> set (flats A t). en_id (snd f) \<noteq> oid" using abs_find_None [of oid A] by (auto simp: ids_flats)
  then show ?thesis using None by (simp add: abs_cancel_def without_other)
next
  case (Some l)
  then obtain s p e where f: "abs_find oid A = Some (s, p, e)" by (cases l) auto
  let ?B = "abs_count (c_canceled (en_qty e)) A"
  have B: "ab_levels ?B = ab_levels A" by simp
  obtain pre post where o1: "flats A s = pre @ (p, e) # post" "\<forall>f \<in> set (pre @ post). en_id (snd f) \<noteq> oid \<and> en_qty (snd f) \<noteq> 0"
    "\<forall>f \<in> set (flats A (opposite s)). en_id (snd f) \<noteq> oid \<and> en_qty (snd f) \<noteq> 0" "en_id e = oid"
    "flats (abs_remove s p oid ?B) s = pre @ post" "flats (abs_remove s p oid ?B) (opposite s) = flats A (opposite s)"
    by (rule flats_split [OF ok f B]) blast
  have "without oid (flats A s) = pre @ post" using o1(1,2,4) without_other [of pre oid] without_other [of post oid]
    by (simp add: without_append) (simp add: without_def)
  moreover have "without oid (flats A (opposite s)) = flats A (opposite s)" using o1(3) without_other by blast
  ultimately show ?thesis using f o1(5,6) other_side [of t s] by (cases "t = s") (simp_all add: abs_cancel_def)
qed

lemma rest_flats:
  assumes so: "ladder_sorted s (ab_levels A s)"
  shows "flats (abs_rest oid s p q actor A) t
    = (if t = s then enter s p \<lparr>en_id = oid, en_qty = q, en_owner = actor\<rparr> (flats A s) else flats A t)"
proof (cases "t = s")
  case True
  let ?e = "\<lparr>en_id = oid, en_qty = q, en_owner = actor\<rparr>"
  obtain pre post where pp: "flat (ab_levels A s) = pre @ map (Pair p) (queue_at p (ab_levels A s)) @ post"
    "\<And>es. flat (place s p es (ab_levels A s)) = pre @ map (Pair p) es @ post"
    "\<forall>f \<in> set pre. before s (fst f) p" "\<forall>f \<in> set post. before s p (fst f)"
    by (rule flat_place [OF so, of p]) blast
  let ?front = "pre @ map (Pair p) (queue_at p (ab_levels A s))"
  have a: "\<forall>f \<in> set ?front. \<not> before s p (fst f)" using pp(3) before_asym by fastforce
  have "takeWhile (\<lambda>f. \<not> before s p (fst f)) post = []" "dropWhile (\<lambda>f. \<not> before s p (fst f)) post = post"
    using pp(4) by (cases post; simp)+
  then have "takeWhile (\<lambda>f. \<not> before s p (fst f)) (?front @ post) = ?front" "dropWhile (\<lambda>f. \<not> before s p (fst f)) (?front @ post) = post"
    using a by (simp_all add: takeWhile_append dropWhile_append)
  then have "enter s p ?e (flats A s) = ?front @ (p, ?e) # post" using pp(1) by (simp add: enter_def flats_def)
  then show ?thesis using True pp(2) by (simp add: flats_def abs_rest_def abs_set_queue_def)
qed (simp add: flats_def abs_rest_def abs_set_queue_def)

subsection \<open>Lists of orders that a feed maintains\<close>

definition flat_ids :: "(Side \<Rightarrow> (Price \<times> entry) list) \<Rightarrow> OrderId set" where
  "flat_ids F = (\<Union>t. (\<lambda>f. en_id (snd f)) ` set (F t))"

lemma flat_ids_flats: "flat_ids (flats A) = book_ids A"
  by (simp add: flat_ids_def ids_flats)

lemma flat_ids_iff: "oid \<in> flat_ids F \<longleftrightarrow> (\<exists>t p e. (p, e) \<in> set (F t) \<and> en_id e = oid)"
  by (force simp: flat_ids_def)

lemma lessen_id [simp]: "en_id (snd (lessen oid q f)) = en_id (snd f)" "fst (lessen oid q f) = fst f"
  by (simp_all add: lessen_def split: prod.split)

lemma flats_okI:
  assumes "\<And>t f. f \<in> set (F t) \<Longrightarrow> V (fst f) \<and> en_qty (snd f) \<noteq> 0" and "\<And>t. distinct (map (\<lambda>f. en_id (snd f)) (F t))"
    and "\<And>f g. f \<in> set (F Bid) \<Longrightarrow> g \<in> set (F Ask) \<Longrightarrow> en_id (snd f) \<noteq> en_id (snd g)"
  shows "flats_ok V F"
  using assms unfolding flats_ok_def by blast

lemma flats_okD:
  assumes "flats_ok V F"
  shows "f \<in> set (F t) \<Longrightarrow> V (fst f)" and "f \<in> set (F t) \<Longrightarrow> en_qty (snd f) \<noteq> 0" and "distinct (map (\<lambda>f. en_id (snd f)) (F t))"
    and "f \<in> set (F t) \<Longrightarrow> g \<in> set (F u) \<Longrightarrow> en_id (snd f) = en_id (snd g) \<Longrightarrow> t = u \<and> f = g"
proof -
  show d: "distinct (map (\<lambda>f. en_id (snd f)) (F t))" for t using assms unfolding flats_ok_def by blast
  show "f \<in> set (F t) \<Longrightarrow> V (fst f)" "f \<in> set (F t) \<Longrightarrow> en_qty (snd f) \<noteq> 0" using assms unfolding flats_ok_def by blast+
  have x: "f \<in> set (F Bid) \<Longrightarrow> g \<in> set (F Ask) \<Longrightarrow> en_id (snd f) \<noteq> en_id (snd g)" for f g using assms unfolding flats_ok_def by blast
  show "t = u \<and> f = g" if a: "f \<in> set (F t)" "g \<in> set (F u)" "en_id (snd f) = en_id (snd g)"
  proof -
    have "t = u" using x [of f g] x [of g f] a by (cases t; cases u) auto
    moreover have "inj_on (\<lambda>f. en_id (snd f)) (set (F t))" using d [of t] by (simp add: distinct_map)
    ultimately show ?thesis using a by (auto dest: inj_onD)
  qed
qed

lemma cut_member: "f \<in> set (cut oid q fs) \<Longrightarrow> en_qty (snd f) \<noteq> 0 \<and> (\<exists>g \<in> set fs. fst g = fst f \<and> en_id (snd g) = en_id (snd f))"
  by (auto simp: cut_def) (metis lessen_id fst_conv snd_conv)

lemma flats_ok_cut:
  assumes "flats_ok V F"
  shows "flats_ok V (\<lambda>t. cut oid q (F t))" and "flat_ids (\<lambda>t. cut oid q (F t)) \<subseteq> flat_ids F"
proof -
  show "flat_ids (\<lambda>t. cut oid q (F t)) \<subseteq> flat_ids F" by (force simp: flat_ids_def dest!: cut_member)
  show "flats_ok V (\<lambda>t. cut oid q (F t))"
  proof (rule flats_okI)
    show "V (fst f) \<and> en_qty (snd f) \<noteq> 0" if "f \<in> set (cut oid q (F t))" for t f
      using cut_member [OF that] flats_okD(1) [OF assms] by metis
    have "(\<lambda>f. en_id (snd f)) \<circ> lessen oid q = (\<lambda>f. en_id (snd f))" by (simp add: fun_eq_iff)
    then show "distinct (map (\<lambda>f. en_id (snd f)) (cut oid q (F t)))" for t
      unfolding cut_def using flats_okD(3) [OF assms, of t] by (intro distinct_map_filter) simp
    show "en_id (snd f) \<noteq> en_id (snd g)" if "f \<in> set (cut oid q (F Bid))" "g \<in> set (cut oid q (F Ask))" for f g
      using cut_member [OF that(1)] cut_member [OF that(2)] flats_okD(4) [OF assms, of _ Bid _ Ask] by (metis Side.distinct(1))
  qed
qed

lemma flats_ok_without:
  assumes "flats_ok V F"
  shows "flats_ok V (\<lambda>t. without oid (F t))" and "flat_ids (\<lambda>t. without oid (F t)) = flat_ids F - {oid}"
proof -
  show "flats_ok V (\<lambda>t. without oid (F t))"
    using flats_okD(1-3) [OF assms] flats_okD(4) [OF assms, of _ Bid _ Ask]
    by (intro flats_okI) (auto simp: without_def distinct_map_filter)
  show "flat_ids (\<lambda>t. without oid (F t)) = flat_ids F - {oid}" by (auto simp: flat_ids_def without_def)
qed

lemma enter_set: "set (enter s p e fs) = insert (p, e) (set fs)"
proof -
  have "set fs = set (takeWhile (\<lambda>f. \<not> before s p (fst f)) fs) \<union> set (dropWhile (\<lambda>f. \<not> before s p (fst f)) fs)"
    by (metis set_append takeWhile_dropWhile_id)
  then show ?thesis by (simp add: enter_def)
qed

lemma enter_distinct: "distinct (map g (enter s p e fs)) \<longleftrightarrow> distinct (map g fs) \<and> g (p, e) \<notin> g ` set fs"
proof -
  have fs: "fs = takeWhile (\<lambda>f. \<not> before s p (fst f)) fs @ dropWhile (\<lambda>f. \<not> before s p (fst f)) fs" by simp
  have "distinct (map g (xs @ (p, e) # ys)) \<longleftrightarrow> distinct (map g (xs @ ys)) \<and> g (p, e) \<notin> g ` set (xs @ ys)" for xs ys by auto
  then show ?thesis unfolding enter_def by (simp only: takeWhile_dropWhile_id)
qed

lemma flats_ok_enter:
  assumes "flats_ok V F" and "V p" and "en_qty e \<noteq> 0" and "en_id e \<notin> flat_ids F"
  shows "flats_ok V (F(s := enter s p e (F s)))" and "flat_ids (F(s := enter s p e (F s))) = insert (en_id e) (flat_ids F)"
proof -
  show "flat_ids (F(s := enter s p e (F s))) = insert (en_id e) (flat_ids F)"
  proof -
    have "set ((F(s := enter s p e (F s))) t) = set (F t) \<union> (if t = s then {(p, e)} else {})" for t by (simp add: enter_set)
    moreover have "(\<Union>t. g ` (if t = s then {x} else {})) = {g x}" for g :: "Price \<times> entry \<Rightarrow> OrderId" and x by (auto split: if_splits)
    ultimately show ?thesis unfolding flat_ids_def image_Un UN_Un_distrib by (auto split: if_splits)
  qed
  have n: "en_id (snd f) \<noteq> en_id e" if "f \<in> set (F t)" for f t using assms(4) that by (cases f) (auto simp: flat_ids_iff)
  show "flats_ok V (F(s := enter s p e (F s)))"
  proof (rule flats_okI)
    show "V (fst f) \<and> en_qty (snd f) \<noteq> 0" if "f \<in> set ((F(s := enter s p e (F s))) t)" for t f
      using that assms(2,3) flats_okD(1,2) [OF assms(1), of f] by (auto simp: enter_set split: if_splits)
    show "distinct (map (\<lambda>f. en_id (snd f)) ((F(s := enter s p e (F s))) t))" for t
      using flats_okD(3) [OF assms(1), of t] n [of _ s] by (fastforce simp: enter_distinct)
    show "en_id (snd f) \<noteq> en_id (snd g)" if "f \<in> set ((F(s := enter s p e (F s))) Bid)" "g \<in> set ((F(s := enter s p e (F s))) Ask)" for f g
      using that n [of g Ask] n [of f Bid] flats_okD(4) [OF assms(1), of f Bid g Ask] by (cases s) (auto simp: enter_set)
  qed
qed

text \<open>A book after a cancel.\<close>

lemma canceled_book:
  assumes ok: "abook_ok V B"
  shows "abook_ok V (snd (abs_cancel oid B))" and "flats (snd (abs_cancel oid B)) = (\<lambda>t. without oid (flats B t))"
    and "flat_ids (flats (snd (abs_cancel oid B))) = flat_ids (flats B) - {oid}"
proof -
  show F: "flats (snd (abs_cancel oid B)) = (\<lambda>t. without oid (flats B t))" using cancel_flats [OF ok] by (simp add: fun_eq_iff)
  have o1: "shape_ok B" "flats_ok V (flats B)" using ok by (simp_all add: abook_ok_flats)
  show "flat_ids (flats (snd (abs_cancel oid B))) = flat_ids (flats B) - {oid}" using flats_ok_without(2) [OF o1(2)] F by simp
  show "abook_ok V (snd (abs_cancel oid B))"
    using shape_ops(4) [OF o1(1), of oid] flats_ok_without(1) [OF o1(2), of oid] F by (simp add: abook_ok_flats)
qed

end
