(* ===== verification/Engine.thy ===== *)
theory Engine
  imports BookObserve Wire ItchWriter Mold
begin

text \<open>
  The matching engine (\<^verbatim>\<open>include/pricetime/engine.hpp\<close>): the request handler of the matching thread over
  its book, and the loops of the other three threads as functions of what their queue or socket gives
  them.  The three queues appear as the sequences of what is pushed on them (\<open>SpscProperties\<close> shows the
  ring is such a sequence, \<open>EngineShutdown\<close> interleaves the loops).  The clock and the sockets are
  arguments.
\<close>

record Config =
  cf_md_port :: u16
  cf_queue_capacity :: u64
  cf_symbol :: Symbol

record Stats =
  es_requests :: u64
  es_responses :: u64
  es_executions :: u64
  es_md_datagrams :: u64
  es_desyncs :: u64

definition stats_new :: Stats where
  "stats_new = \<lparr>es_requests = 0, es_responses = 0, es_executions = 0, es_md_datagrams = 0, es_desyncs = 0\<rparr>"

text \<open>A queued market-data message: 64 bytes, of which the first \<open>mm_len\<close> count.\<close>

record MdMsg =
  mm_bytes :: bytes
  mm_len :: u8

text \<open>\<open>eg_out\<close> and \<open>eg_md_q\<close> are what has been pushed on \<^verbatim>\<open>q_out_\<close> and \<^verbatim>\<open>q_md_\<close>, oldest first.\<close>

record ('l, 'm) Engine =
  eg_cfg :: Config
  eg_book :: "('l, 'm) OrderBook"
  eg_execs :: "Execution list"
  eg_md :: Writer
  eg_match_number :: u64
  eg_stats :: Stats
  eg_out :: "Response list"
  eg_md_q :: "MdMsg list"

definition engine_new :: "('l, 'm) policy \<Rightarrow> 'l \<Rightarrow> Config \<Rightarrow> ('l, 'm) Engine option" where
  "engine_new P l cfg = do {
     b \<leftarrow> book_new P l;
     Some \<lparr>eg_cfg = cfg, eg_book = b, eg_execs = [], eg_md = writer_new, eg_match_number = 0, eg_stats = stats_new,
       eg_out = [], eg_md_q = []\<rparr> }"

subsection \<open>The matching thread\<close>

definition push_response :: "Response \<Rightarrow> ('l, 'm) Engine \<Rightarrow> ('l, 'm) Engine" where
  "push_response r e = e\<lparr>eg_stats := (eg_stats e)\<lparr>es_responses := es_responses (eg_stats e) + 1\<rparr>, eg_out := eg_out e @ [r]\<rparr>"

definition respond ::
  "RespKind \<Rightarrow> Result \<Rightarrow> Request \<Rightarrow> OrderId \<Rightarrow> Qty \<Rightarrow> Price \<Rightarrow> ('l, 'm) Engine \<Rightarrow> ('l, 'm) Engine" where
  "respond kind code req oid qty price e =
     push_response \<lparr>rs_kind = resp_char kind, rs_code = result_num code, rs_qty = qty, rs_price = price, rs_id = oid,
       rs_peer = 0, rs_client_ts = rq_client_ts req\<rparr> e"

definition md_push :: "Writer \<Rightarrow> ('l, 'm) Engine \<Rightarrow> ('l, 'm) Engine" where
  "md_push w e =
     (if cf_md_port (eg_cfg e) = 0 then e
      else if length (wr_buf w) > 64 then e
      else e\<lparr>eg_md_q := eg_md_q e @ [\<lparr>mm_bytes = wr_buf w @ replicate (64 - length (wr_buf w)) 0, mm_len = of_nat (length (wr_buf w))\<rparr>]\<rparr>)"

definition md_clear :: "('l, 'm) Engine \<Rightarrow> ('l, 'm) Engine" where
  "md_clear e = e\<lparr>eg_md := writer_clear (eg_md e)\<rparr>"

definition md_execute :: "u64 \<Rightarrow> Execution \<Rightarrow> ('l, 'm) Engine \<Rightarrow> ('l, 'm) Engine" where
  "md_execute ts x e =
     (let e = md_clear e;
          e = e\<lparr>eg_match_number := eg_match_number e + 1\<rparr>;
          e = e\<lparr>eg_md := write_order_executed ts (ex_resting_id x) (ex_qty x) (eg_match_number e) (eg_md e)\<rparr>
      in md_push (eg_md e) e)"

definition md_delete :: "u64 \<Rightarrow> OrderId \<Rightarrow> ('l, 'm) Engine \<Rightarrow> ('l, 'm) Engine" where
  "md_delete ts oid e =
     (let e = md_clear e; e = e\<lparr>eg_md := write_order_delete ts oid (eg_md e)\<rparr> in md_push (eg_md e) e)"

definition md_cancel :: "u64 \<Rightarrow> OrderId \<Rightarrow> Qty \<Rightarrow> ('l, 'm) Engine \<Rightarrow> ('l, 'm) Engine" where
  "md_cancel ts oid shares e =
     (let e = md_clear e; e = e\<lparr>eg_md := write_order_cancel ts oid shares (eg_md e)\<rparr> in md_push (eg_md e) e)"

text \<open>The switch of \<open>handle\<close>; a kind that is no enumerator matches no case.\<close>

definition handle_kind :: "('l, 'm) policy \<Rightarrow> u64 \<Rightarrow> Request \<Rightarrow> ('l, 'm) Engine \<Rightarrow> (Result \<times> ('l, 'm) Engine) option" where
  "handle_kind P ts req e =
     (if rq_kind req = req_char Enter then do {
        (r, xs, b) \<leftarrow> add_limit P (rq_id req) (rq_side req) (rq_price req) (rq_qty req) (eg_book e);
        let e = e\<lparr>eg_book := b, eg_execs := eg_execs e @ xs\<rparr>;
        Some (r, respond (if r = Ok then Accepted else Rejected) r req (rq_id req) (rq_qty req) (rq_price req) e) }
      else if rq_kind req = req_char Cancel then do {
        (r, b) \<leftarrow> cancel P (rq_id req) (eg_book e);
        let e = e\<lparr>eg_book := b\<rparr>;
        let e = respond (if r = Ok then Canceled else Rejected) r req (rq_id req) 0 0 e;
        Some (r, if r = Ok then md_delete ts (rq_id req) e else e) }
      else if rq_kind req = req_char Reduce then do {
        (r, removed, b) \<leftarrow> reduce_resting P (rq_id req) (rq_qty req) (eg_book e);
        let e = e\<lparr>eg_book := b\<rparr>;
        let e = respond (if r = Ok then Reduced else Rejected) r req (rq_id req) removed 0 e;
        Some (r, if r = Ok \<and> removed > 0 then md_cancel ts (rq_id req) removed e else e) }
      else if rq_kind req = req_char Replace then do {
        (r, xs, b) \<leftarrow> replace P (rq_id req) (rq_new_id req) (rq_price req) (rq_qty req) (eg_book e);
        let e = e\<lparr>eg_book := b, eg_execs := eg_execs e @ xs\<rparr>;
        Some (r, respond (if r = Ok then Accepted else Rejected) r req (rq_new_id req) (rq_qty req) (rq_price req) e) }
      else Some (Ok, e))"

text \<open>The body of the loop over the executions.\<close>

definition handle_fill :: "u64 \<Rightarrow> Request \<Rightarrow> Execution \<Rightarrow> Qty \<times> ('l, 'm) Engine \<Rightarrow> Qty \<times> ('l, 'm) Engine" where
  "handle_fill ts req x = (\<lambda>(filled, e).
     let e = e\<lparr>eg_stats := (eg_stats e)\<lparr>es_executions := es_executions (eg_stats e) + 1\<rparr>\<rparr>;
         filled = filled + ex_qty x;
         fill = \<lparr>rs_kind = resp_char Executed, rs_code = result_num Ok, rs_qty = ex_qty x, rs_price = ex_price x,
                 rs_id = ex_aggressor_id x, rs_peer = ex_resting_id x, rs_client_ts = rq_client_ts req\<rparr>;
         e = push_response fill e;
         e = push_response (fill\<lparr>rs_id := ex_resting_id x, rs_peer := ex_aggressor_id x\<rparr>) e
     in (filled, md_execute ts x e))"

definition handle_rest :: "u64 \<Rightarrow> Request \<Rightarrow> Result \<Rightarrow> Qty \<Rightarrow> ('l, 'm) Engine \<Rightarrow> ('l, 'm) Engine" where
  "handle_rest ts req r filled e =
     (if r = Ok \<and> rq_kind req = req_char Enter then
        (let remainder = rq_qty req - filled in
         if remainder > 0 then
           (let e = md_clear e;
                e = e\<lparr>eg_md := write_add_order ts (rq_id req) (rq_side req) remainder (cf_symbol (eg_cfg e)) (rq_price req) (eg_md e)\<rparr>
            in md_push (eg_md e) e)
         else e)
      else if r = Ok \<and> rq_kind req = req_char Replace then
        (let remainder = rq_qty req - filled in
         if remainder > 0 then
           (let e = md_clear e;
                e = e\<lparr>eg_md := write_order_replace ts (rq_id req) (rq_new_id req) remainder (rq_price req) (eg_md e)\<rparr>
            in md_push (eg_md e) e)
         else md_delete ts (rq_id req) e)
      else e)"

definition handle :: "('l, 'm) policy \<Rightarrow> u64 \<Rightarrow> Request \<Rightarrow> ('l, 'm) Engine \<Rightarrow> ('l, 'm) Engine option" where
  "handle P ts req e = do {
     let e = e\<lparr>eg_execs := []\<rparr>;
     (r, e) \<leftarrow> handle_kind P ts req e;
     let (filled, e) = fold (handle_fill ts req) (eg_execs e) (0, e);
     let e = handle_rest ts req r filled e;
     Some (e\<lparr>eg_execs := []\<rparr>) }"

text \<open>The matching thread over the requests it pops, each with the time the clock shows.\<close>

fun handle_list :: "('l, 'm) policy \<Rightarrow> (u64 \<times> Request) list \<Rightarrow> ('l, 'm) Engine \<Rightarrow> ('l, 'm) Engine option" where
  "handle_list P [] e = Some e"
| "handle_list P ((ts, req) # reqs) e = do { e \<leftarrow> handle P ts req e; handle_list P reqs e }"

text \<open>\<^verbatim>\<open>match_loop\<close>: the room reserved for the index, then the requests.\<close>

definition match_thread :: "('l, 'm) policy \<Rightarrow> (u64 \<times> Request) list \<Rightarrow> ('l, 'm) Engine \<Rightarrow> ('l, 'm) Engine option" where
  "match_thread P reqs e = do {
     b \<leftarrow> reserve_orders P (2 ^ 20) (eg_book e);
     handle_list P reqs (e\<lparr>eg_book := b\<rparr>) }"

subsection \<open>The receiving thread\<close>

text \<open>\<^verbatim>\<open>sizeof(buf)\<close> of the two byte buffers\<close>

definition kBufferSize :: nat where
  "kBufferSize = kMessageSize * 256"

text \<open>
  The inner loop over the bytes that have arrived: the offset it stops at, the requests it pushes and whether
  the stream is still in step.
\<close>

function parse_loop :: "bytes \<Rightarrow> nat \<Rightarrow> nat \<Rightarrow> Request list \<Rightarrow> (nat \<times> Request list \<times> bool) option" where
  "parse_loop buf have1 off reqs =
     (if have1 - off \<ge> kMessageSize then do {
        req \<leftarrow> decode_request (drop off buf);
        case req of
          None \<Rightarrow> Some (off, reqs, False)
        | Some req \<Rightarrow> parse_loop buf have1 (off + kMessageSize) (reqs @ [req]) }
      else Some (off, reqs, True))"
  by pat_completeness auto
termination by (relation "measure (\<lambda>(buf, have1, off, reqs). have1 - off)") (auto simp: kMessageSize_def)

declare parse_loop.simps [simp del]

text \<open>
  \<open>recv_loop\<close> reads from the socket until an error, a disconnect or the stop flag (the end of \<open>sizes\<close>); a read
  delivers at most what the buffer has room for and what the client has sent.  The result is the requests
  pushed, the counters and the bytes not read.
\<close>

primrec recv_loop ::
  "nat list \<Rightarrow> bytes \<Rightarrow> bytes \<Rightarrow> nat \<Rightarrow> Request list \<Rightarrow> Stats \<Rightarrow> (Request list \<times> Stats \<times> bytes) option" where
  "recv_loop [] stream buf have1 reqs st = Some (reqs, st, stream)"
| "recv_loop (n # ns) stream buf have1 reqs st =
     (let n = min n (min (length buf - have1) (length stream)) in
      if n = 0 then Some (reqs, st, stream)
      else do {
        buf \<leftarrow> blit have1 (take n stream) buf;
        let have1 = have1 + n;
        (off, new, alive) \<leftarrow> parse_loop buf have1 0 [];
        let st = st\<lparr>es_requests := es_requests st + of_nat (length new)\<rparr>;
        let buf = (if off > 0 \<and> off < have1 then take (have1 - off) (drop off buf) @ drop (have1 - off) buf else buf);
        if alive then recv_loop ns (drop n stream) buf (have1 - off) (reqs @ new) st
        else Some (reqs @ new, st\<lparr>es_desyncs := es_desyncs st + 1\<rparr>, drop n stream) })"

subsection \<open>The sending thread\<close>

text \<open>The results of successive \<^verbatim>\<open>try_pop\<close>s are the list \<open>pops\<close>; \<open>buf\<close> holds the bytes up to \<open>k\<close>.\<close>

fun gather :: "Response \<Rightarrow> bytes \<Rightarrow> Response option list \<Rightarrow> bytes \<times> Response option list" where
  "gather resp buf [] = (buf @ encode_response resp, [])"
| "gather resp buf (None # pops) =
     (let buf = buf @ encode_response resp in if length buf \<ge> kBufferSize then (buf, None # pops) else (buf, pops))"
| "gather resp buf (Some next # pops) =
     (let buf = buf @ encode_response resp in if length buf \<ge> kBufferSize then (buf, Some next # pops) else gather next buf pops)"

text \<open>After a failed send the queue is popped until it is empty.\<close>

fun drain :: "Response option list \<Rightarrow> Response option list" where
  "drain [] = []"
| "drain (None # pops) = pops"
| "drain (Some resp # pops) = drain pops"

lemma gather_shorter: "length (snd (gather resp buf pops)) \<le> length pops"
  by (induction resp buf pops rule: gather.induct) (auto simp: Let_def)

lemma drain_shorter: "length (drain pops) \<le> length pops"
  by (induction pops rule: drain.induct) auto

text \<open>\<open>ok\<close> says of each send whether it works; the result is the buffers sent.\<close>

function send_loop :: "(nat \<Rightarrow> bool) \<Rightarrow> nat \<Rightarrow> Response option list \<Rightarrow> bytes list" where
  "send_loop ok i [] = []"
| "send_loop ok i (None # pops) = send_loop ok i pops"
| "send_loop ok i (Some resp # pops) =
     (let (buf, pops) = gather resp [] pops
      in if ok i then buf # send_loop ok (Suc i) pops else send_loop ok (Suc i) (drain pops))"
  by pat_completeness auto
termination
proof (relation "measure (\<lambda>(ok, i, pops). length pops)")
  fix resp pops p buf and ps :: "Response option list" and ok :: "nat \<Rightarrow> bool" and i
  assume "p = gather resp [] pops" "(buf, ps) = p"
  then have "length ps \<le> length pops" using gather_shorter [of resp "[]" pops] by (metis snd_conv)
  then show "((ok, Suc i, ps), ok, i, Some resp # pops) \<in> measure (\<lambda>(ok, i, pops). length pops)"
    and "((ok, Suc i, drain ps), ok, i, Some resp # pops) \<in> measure (\<lambda>(ok, i, pops). length pops)"
    using drain_shorter [of ps] by auto
qed simp_all

subsection \<open>The market-data thread\<close>

text \<open>One message: the packet handed to the socket, if any, the packer and the next sequence number.\<close>

definition md_step :: "MdMsg \<Rightarrow> Packer \<Rightarrow> u64 \<Rightarrow> (bytes option \<times> Packer \<times> u64) option" where
  "md_step m packer sequence =
     (let packer = pk_begin sequence packer; framed_len = unat (mm_len m) in
      if framed_len \<ge> 2 then do {
        (ok, packer) \<leftarrow> pk_add (take (framed_len - 2) (drop 2 (mm_bytes m))) packer;
        if ok then do {
          packer \<leftarrow> pk_seal packer;
          Some (Some (packet packer), packer, sequence + ucast (pk_count packer)) }
        else Some (None, packer, sequence) }
      else Some (None, packer, sequence))"

text \<open>\<open>ok\<close> says of each send whether it works; the result is the packets handed to the socket and the counters.\<close>

primrec md_messages ::
  "(nat \<Rightarrow> bool) \<Rightarrow> MdMsg list \<Rightarrow> Packer \<Rightarrow> u64 \<Rightarrow> bytes list \<Rightarrow> Stats \<Rightarrow> (Packer \<times> u64 \<times> bytes list \<times> Stats) option" where
  "md_messages ok [] packer sequence pkts st = Some (packer, sequence, pkts, st)"
| "md_messages ok (m # ms) packer sequence pkts st = do {
     (p, packer, sequence) \<leftarrow> md_step m packer sequence;
     case p of
       None \<Rightarrow> md_messages ok ms packer sequence pkts st
     | Some pkt \<Rightarrow> md_messages ok ms packer sequence (pkts @ [pkt])
         (if ok (length pkts) then st\<lparr>es_md_datagrams := es_md_datagrams st + 1\<rparr> else st) }"

definition md_loop :: "(nat \<Rightarrow> bool) \<Rightarrow> Config \<Rightarrow> bytes \<Rightarrow> MdMsg list \<Rightarrow> Stats \<Rightarrow> (bytes list \<times> Stats) option" where
  "md_loop ok cfg junk ms st = do {
     (packer, sequence, pkts, st) \<leftarrow> md_messages ok ms (packer_new junk (map ch ''PRICETIME '')) 1 [] st;
     packer \<leftarrow> seal_end_of_session sequence packer;
     Some (if cf_md_port cfg \<noteq> 0
       then (pkts @ [packet packer], if ok (length pkts) then st\<lparr>es_md_datagrams := es_md_datagrams st + 1\<rparr> else st)
       else (pkts, st)) }"

end
