(* ===== verification/EngineSpec.thy ===== *)
theory EngineSpec
  imports Engine
begin

text \<open>
  The matching thread against its specification: what a request does to the specification book, the
  responses it causes and the feed events it publishes.
\<close>

subsection \<open>The specification of a request\<close>

definition abs_request :: "(Price \<Rightarrow> bool) \<Rightarrow> Request \<Rightarrow> ABook \<Rightarrow> (Result \<times> Execution list \<times> Qty) \<times> ABook" where
  "abs_request V req A =
     (if rq_kind req = req_char Enter then
        (let (r, xs, A) = abs_limit V 0 (rq_id req) (rq_side req) (rq_price req) (rq_qty req) A in ((r, xs, 0), A))
      else if rq_kind req = req_char Cancel then (let (r, A) = abs_cancel (rq_id req) A in ((r, [], 0), A))
      else if rq_kind req = req_char Reduce then
        (let (r, removed, A) = abs_consume (rq_id req) (rq_qty req) False A in ((r, [], removed), A))
      else if rq_kind req = req_char Replace then
        (let (r, xs, A) = abs_replace V (rq_id req) (rq_new_id req) (rq_price req) (rq_qty req) A in ((r, xs, 0), A))
      else ((Ok, [], 0), A))"

definition response :: "RespKind \<Rightarrow> Result \<Rightarrow> Qty \<Rightarrow> Price \<Rightarrow> OrderId \<Rightarrow> OrderId \<Rightarrow> Request \<Rightarrow> Response" where
  "response kind code qty price oid peer req = \<lparr>rs_kind = resp_char kind, rs_code = result_num code, rs_qty = qty,
     rs_price = price, rs_id = oid, rs_peer = peer, rs_client_ts = rq_client_ts req\<rparr>"

definition reply :: "RespKind \<Rightarrow> Result \<Rightarrow> RespKind" where
  "reply kind r = (if r = Ok then kind else Rejected)"

text \<open>The acknowledgement, then two reports per execution.\<close>

definition ack :: "Request \<Rightarrow> Result \<Rightarrow> Qty \<Rightarrow> Response list" where
  "ack req r removed =
     (if rq_kind req = req_char Enter then [response (reply Accepted r) r (rq_qty req) (rq_price req) (rq_id req) 0 req]
      else if rq_kind req = req_char Cancel then [response (reply Canceled r) r 0 0 (rq_id req) 0 req]
      else if rq_kind req = req_char Reduce then [response (reply Reduced r) r removed 0 (rq_id req) 0 req]
      else if rq_kind req = req_char Replace then [response (reply Accepted r) r (rq_qty req) (rq_price req) (rq_new_id req) 0 req]
      else [])"

definition fill_reports :: "Request \<Rightarrow> Execution \<Rightarrow> Response list" where
  "fill_reports req x =
     [response Executed Ok (ex_qty x) (ex_price x) (ex_aggressor_id x) (ex_resting_id x) req,
      response Executed Ok (ex_qty x) (ex_price x) (ex_resting_id x) (ex_aggressor_id x) req]"

definition responses :: "Request \<Rightarrow> Result \<times> Execution list \<times> Qty \<Rightarrow> Response list" where
  "responses req = (\<lambda>(r, xs, removed). ack req r removed @ concat (map (fill_reports req) xs))"

text \<open>\<open>m\<close> is the last match number used.\<close>

fun fill_events :: "u64 \<Rightarrow> u64 \<Rightarrow> Execution list \<Rightarrow> feed_event list" where
  "fill_events ts m [] = []"
| "fill_events ts m (x # xs) = ExecutedEv ts (ex_resting_id x) (ex_qty x) (m + 1) # fill_events ts (m + 1) xs"

definition filled_qty :: "Execution list \<Rightarrow> Qty" where
  "filled_qty xs = (\<Sum>x\<leftarrow>xs. ex_qty x)"

definition head_events :: "u64 \<Rightarrow> Request \<Rightarrow> Result \<Rightarrow> Qty \<Rightarrow> feed_event list" where
  "head_events ts req r removed =
     (if rq_kind req = req_char Cancel \<and> r = Ok then [DeleteEv ts (rq_id req)]
      else if rq_kind req = req_char Reduce \<and> r = Ok \<and> removed > 0 then [CancelEv ts (rq_id req) removed]
      else [])"

definition rest_events :: "Symbol \<Rightarrow> u64 \<Rightarrow> Request \<Rightarrow> Result \<Rightarrow> Qty \<Rightarrow> feed_event list" where
  "rest_events stock ts req r filled =
     (if r = Ok \<and> rq_kind req = req_char Enter then
        (if rq_qty req - filled > 0 then [AddEv ts (rq_id req) (rq_side req) (rq_qty req - filled) stock (rq_price req)] else [])
      else if r = Ok \<and> rq_kind req = req_char Replace then
        (if rq_qty req - filled > 0 then [ReplaceEv ts (rq_id req) (rq_new_id req) (rq_qty req - filled) (rq_price req)]
         else [DeleteEv ts (rq_id req)])
      else [])"

definition events :: "Symbol \<Rightarrow> u64 \<Rightarrow> u64 \<Rightarrow> Request \<Rightarrow> Result \<times> Execution list \<times> Qty \<Rightarrow> feed_event list" where
  "events stock ts m req = (\<lambda>(r, xs, removed).
     head_events ts req r removed @ fill_events ts m xs @ rest_events stock ts req r (filled_qty xs))"

subsection \<open>Market-data messages\<close>

definition md_msg :: "feed_event \<Rightarrow> MdMsg" where
  "md_msg ev = \<lparr>mm_bytes = event_frame ev @ replicate (64 - length (event_frame ev)) 0, mm_len = of_nat (length (event_frame ev))\<rparr>"

definition publish :: "feed_event list \<Rightarrow> ('l, 'm) Engine \<Rightarrow> MdMsg list" where
  "publish evs e = (if cf_md_port (eg_cfg e) = 0 then [] else map md_msg evs)"

lemma event_frame_short: "symbol_ok ev \<Longrightarrow> length (event_frame ev) \<le> 64"
  using type_length_bounds(2) [of "event_type ev"] by (simp add: event_frame_def event_message_length)

lemma md_push_event:
  assumes "symbol_ok ev" and "wr_buf w = []"
  shows "md_push (write_event ev w) e = e\<lparr>eg_md_q := eg_md_q e @ publish [ev] e\<rparr>"
  using write_event_appends(1) [OF assms(1), of w] assms(2) event_frame_short [OF assms(1)]
  by (simp add: md_push_def publish_def md_msg_def)

text \<open>The parts of the engine that the next request depends on.\<close>

definition grows :: "Response list \<Rightarrow> feed_event list \<Rightarrow> u64 \<Rightarrow> ('l, 'm) Engine \<Rightarrow> ('l, 'm) Engine \<Rightarrow> bool" where
  "grows rs evs n e e' \<longleftrightarrow> eg_out e' = eg_out e @ rs \<and> eg_md_q e' = eg_md_q e @ publish evs e \<and> eg_cfg e' = eg_cfg e
    \<and> eg_match_number e' = eg_match_number e + n \<and> es_responses (eg_stats e') = es_responses (eg_stats e) + of_nat (length rs)
    \<and> es_executions (eg_stats e') = es_executions (eg_stats e) + n"

lemma grows_refl: "grows [] [] 0 e e"
  by (simp add: grows_def publish_def)

lemma grows_trans:
  "grows rs evs n e e1 \<Longrightarrow> grows rs' evs' n' e1 e2 \<Longrightarrow> grows (rs @ rs') (evs @ evs') (n + n') e e2"
  by (simp add: grows_def publish_def)

lemma grows_respond: "grows [response kind code qty price oid 0 req] [] 0 e (respond kind code req oid qty price e)"
  by (simp add: grows_def respond_def push_response_def response_def publish_def)

lemma cleared [simp]: "wr_buf (writer_clear w) = []"
  by (simp add: writer_clear_def)

lemmas md_pushes = md_push_event [of "DeleteEv ts oid" for ts oid, simplified symbol_ok_def event_symbol.simps option.case write_event.simps, OF TrueI]
  md_push_event [of "CancelEv ts oid q" for ts oid q, simplified symbol_ok_def event_symbol.simps option.case write_event.simps, OF TrueI]
  md_push_event [of "ExecutedEv ts oid q m" for ts oid q m, simplified symbol_ok_def event_symbol.simps option.case write_event.simps, OF TrueI]
  md_push_event [of "ReplaceEv ts orig fresh q p" for ts orig fresh q p, simplified symbol_ok_def event_symbol.simps option.case write_event.simps, OF TrueI]
  md_push_event [of "AddEv ts oid s q stock p" for ts oid s q stock p, simplified symbol_ok_def event_symbol.simps option.case write_event.simps]

lemma publish_same: "eg_cfg e' = eg_cfg e \<Longrightarrow> publish evs e' = publish evs e"
  by (simp add: publish_def)

lemma publish_empty [simp]: "publish [] e = []"
  by (simp add: publish_def)

lemma grows_delete: "grows [] [DeleteEv ts oid] 0 e (md_delete ts oid e)"
  by (simp add: grows_def md_delete_def Let_def md_clear_def md_pushes) (rule publish_same, simp)

lemma grows_cancel: "grows [] [CancelEv ts oid q] 0 e (md_cancel ts oid q e)"
  by (simp add: grows_def md_cancel_def Let_def md_clear_def md_pushes) (rule publish_same, simp)

lemma grows_execute:
  "grows (fill_reports req x) [ExecutedEv ts (ex_resting_id x) (ex_qty x) (eg_match_number e + 1)] 1 e (snd (handle_fill ts req x (q, e)))"
  by (simp add: grows_def handle_fill_def md_execute_def Let_def md_clear_def md_pushes push_response_def fill_reports_def response_def)
    (rule publish_same, simp)

lemma fill_qty: "fst (handle_fill ts req x (q, e)) = q + ex_qty x"
  by (simp add: handle_fill_def Let_def)

lemma fill_book: "eg_book (snd (handle_fill ts req x (q, e))) = eg_book e"
  by (simp add: handle_fill_def Let_def md_execute_def md_clear_def md_pushes push_response_def)

lemma handle_fills:
  "fst (fold (handle_fill ts req) xs (q, e)) = q + filled_qty xs
   \<and> eg_book (snd (fold (handle_fill ts req) xs (q, e))) = eg_book e
   \<and> grows (concat (map (fill_reports req) xs)) (fill_events ts (eg_match_number e) xs) (of_nat (length xs)) e
      (snd (fold (handle_fill ts req) xs (q, e)))"
proof (induction xs arbitrary: q e)
  case Nil
  then show ?case by (simp add: filled_qty_def grows_refl)
next
  case (Cons x xs)
  obtain q1 e1 where 1: "handle_fill ts req x (q, e) = (q1, e1)" by force
  then have f: "q1 = q + ex_qty x" "eg_book e1 = eg_book e"
    and g: "grows (fill_reports req x) [ExecutedEv ts (ex_resting_id x) (ex_qty x) (eg_match_number e + 1)] 1 e e1"
    using fill_qty [of ts req x q e] fill_book [of ts req x q e] grows_execute [of req x ts e q] by simp_all
  have m: "eg_match_number e1 = eg_match_number e + 1" using g by (simp add: grows_def)
  show ?case using Cons.IH [of q1 e1] grows_trans [OF g, of "concat (map (fill_reports req) xs)" "fill_events ts (eg_match_number e1) xs" "of_nat (length xs)"]
    by (simp add: 1 f filled_qty_def m add.assoc)
qed

lemma rest_grows:
  assumes "length (cf_symbol (eg_cfg e)) = 8"
  shows "grows [] (rest_events (cf_symbol (eg_cfg e)) ts req r filled) 0 e (handle_rest ts req r filled e)"
    and "eg_book (handle_rest ts req r filled e) = eg_book e"
proof -
  have "grows [] [AddEv ts oid s q (cf_symbol (eg_cfg e)) p] 0 e
      (let e = md_clear e; e = e\<lparr>eg_md := write_add_order ts oid s q (cf_symbol (eg_cfg e)) p (eg_md e)\<rparr> in md_push (eg_md e) e)" for oid s q p
    using assms by (simp add: grows_def Let_def md_clear_def md_pushes) (rule publish_same, simp)
  moreover have "grows [] [ReplaceEv ts orig fresh q p] 0 e
      (let e = md_clear e; e = e\<lparr>eg_md := write_order_replace ts orig fresh q p (eg_md e)\<rparr> in md_push (eg_md e) e)" for orig fresh q p
    by (simp add: grows_def Let_def md_clear_def md_pushes) (rule publish_same, simp)
  ultimately show "grows [] (rest_events (cf_symbol (eg_cfg e)) ts req r filled) 0 e (handle_rest ts req r filled e)"
    using grows_refl [of e] grows_delete [of ts "rq_id req" e] unfolding handle_rest_def rest_events_def by (simp add: Let_def)
  show "eg_book (handle_rest ts req r filled e) = eg_book e"
    using assms by (simp add: handle_rest_def Let_def md_delete_def md_clear_def md_pushes)
qed

subsection \<open>The handler implements the specification\<close>

lemma char_kinds: "req_char Enter \<noteq> req_char Cancel" "req_char Enter \<noteq> req_char Reduce" "req_char Enter \<noteq> req_char Replace"
  "req_char Cancel \<noteq> req_char Reduce" "req_char Cancel \<noteq> req_char Replace" "req_char Reduce \<noteq> req_char Replace"
  by (simp_all add: ch_def)

declare req_char.simps [simp del]

definition follows_book :: "('l, 'm) policy \<Rightarrow> (Price \<Rightarrow> bool) \<Rightarrow> nat \<Rightarrow> ('l, 'm) Engine \<Rightarrow> ABook \<Rightarrow> bool" where
  "follows_book P V n e A \<longleftrightarrow> implements P V (eg_book e) A \<and> pol_size P (bk_orders (eg_book e)) \<le> n \<and> length (cf_symbol (eg_cfg e)) = 8"

lemma handle_kind_spec:
  assumes "implements P V (eg_book e) A" and "Suc (pol_size P (bk_orders (eg_book e))) < 2 ^ 32" and "eg_execs e = []"
  shows "\<exists>r xs removed A' e'. abs_request V req A = ((r, xs, removed), A') \<and> handle_kind P ts req e = Some (r, e') \<and> eg_execs e' = xs
    \<and> implements P V (eg_book e') A' \<and> pol_size P (bk_orders (eg_book e')) \<le> Suc (pol_size P (bk_orders (eg_book e)))
    \<and> grows (ack req r removed) (head_events ts req r removed) 0 e e'"
proof -
  note st = implements_step [OF assms(1,2)]
  have g: "grows rs evs n (e\<lparr>eg_book := b, eg_execs := xs\<rparr>) e' = grows rs evs n e e'" for rs evs n b xs and e' :: "('a, 'b) Engine"
    by (simp add: grows_def publish_same [of "e\<lparr>eg_book := b, eg_execs := xs\<rparr>" e])
  have g0: "grows rs evs n (e\<lparr>eg_book := b\<rparr>) e' = grows rs evs n e e'" for rs evs n b and e' :: "('a, 'b) Engine"
    by (simp add: grows_def publish_same [of "e\<lparr>eg_book := b\<rparr>" e])
  have r: "eg_book (respond k c rq oid q p e1) = eg_book e1" "eg_execs (respond k c rq oid q p e1) = eg_execs e1" for k c rq oid q p and e1 :: "('a, 'b) Engine"
    by (simp_all add: respond_def push_response_def)
  have d: "eg_book (md_delete ts oid e1) = eg_book e1" "eg_execs (md_delete ts oid e1) = eg_execs e1"
    "eg_book (md_cancel ts oid q e1) = eg_book e1" "eg_execs (md_cancel ts oid q e1) = eg_execs e1" for oid q and e1 :: "('a, 'b) Engine"
    by (simp_all add: md_delete_def md_cancel_def Let_def md_clear_def md_pushes)
  consider (enter) "rq_kind req = req_char Enter" | (cancel) "rq_kind req = req_char Cancel" | (reduce) "rq_kind req = req_char Reduce"
    | (replace) "rq_kind req = req_char Replace"
    | (none) "rq_kind req \<noteq> req_char Enter" "rq_kind req \<noteq> req_char Cancel" "rq_kind req \<noteq> req_char Reduce" "rq_kind req \<noteq> req_char Replace"
    by blast
  then show ?thesis
  proof cases
    case enter
    obtain r xs A' where A: "abs_limit V 0 (rq_id req) (rq_side req) (rq_price req) (rq_qty req) A = (r, xs, A')" by (metis prod_cases3)
    obtain b where b: "add_limit P (rq_id req) (rq_side req) (rq_price req) (rq_qty req) (eg_book e) = Some (r, xs, b)"
      "implements P V b A'" "pol_size P (bk_orders b) \<le> Suc (pol_size P (bk_orders (eg_book e)))"
      using st [of "LimitOp 0 (rq_id req) (rq_side req) (rq_price req) (rq_qty req)"] A by (auto simp: add_limit_def split: bind_splits)
    let ?e = "e\<lparr>eg_book := b, eg_execs := xs\<rparr>"
    let ?e' = "respond (if r = Ok then Accepted else Rejected) r req (rq_id req) (rq_qty req) (rq_price req) ?e"
    have "grows (ack req r 0) (head_events ts req r 0) 0 e ?e'"
      using grows_respond [of "if r = Ok then Accepted else Rejected" r "rq_qty req" "rq_price req" "rq_id req" req ?e] g
      by (simp add: ack_def head_events_def enter char_kinds reply_def)
    then show ?thesis using A b assms(3) by (intro exI [of _ ?e'] exI) (simp add: abs_request_def handle_kind_def enter char_kinds r)
  next
    case cancel
    obtain r A' where A: "abs_cancel (rq_id req) A = (r, A')" by force
    obtain b where b: "Book.cancel P (rq_id req) (eg_book e) = Some (r, b)"
      "implements P V b A'" "pol_size P (bk_orders b) \<le> Suc (pol_size P (bk_orders (eg_book e)))"
      using st [of "CancelOp (rq_id req)"] A by (auto split: bind_splits)
    let ?e = "e\<lparr>eg_book := b\<rparr>"
    define e1 where "e1 = respond (if r = Ok then Canceled else Rejected) r req (rq_id req) 0 0 ?e"
    let ?e' = "if r = Ok then md_delete ts (rq_id req) e1 else e1"
    have g1: "grows [response (reply Canceled r) r 0 0 (rq_id req) 0 req] [] 0 e e1"
      using grows_respond [of "if r = Ok then Canceled else Rejected" r 0 0 "rq_id req" req ?e] g0 by (simp add: reply_def e1_def)
    have "grows [] (if r = Ok then [DeleteEv ts (rq_id req)] else []) 0 e1 ?e'" using grows_delete [of ts "rq_id req" e1] grows_refl [of e1] by simp
    from grows_trans [OF g1 this]
    have "grows (ack req r 0) (head_events ts req r 0) 0 e ?e'" by (cases "r = Ok") (simp_all add: ack_def head_events_def cancel char_kinds char_kinds [symmetric])
    moreover have "handle_kind P ts req e = Some (r, ?e')" "abs_request V req A = ((r, [], 0), A')"
      using A b(1) by (simp_all add: handle_kind_def abs_request_def cancel char_kinds [symmetric] e1_def Let_def)
    moreover have "eg_execs ?e' = []" "eg_book ?e' = b" using assms(3) by (simp_all add: r d e1_def)
    ultimately show ?thesis using b(2,3) by metis
  next
    case reduce
    obtain r removed A' where A: "abs_consume (rq_id req) (rq_qty req) False A = (r, removed, A')" by (metis prod_cases3)
    obtain b where b: "reduce_resting P (rq_id req) (rq_qty req) (eg_book e) = Some (r, removed, b)"
      "implements P V b A'" "pol_size P (bk_orders b) \<le> Suc (pol_size P (bk_orders (eg_book e)))"
      using st [of "ReduceOp (rq_id req) (rq_qty req)"] A by (auto split: bind_splits)
    let ?e = "e\<lparr>eg_book := b\<rparr>"
    define e1 where "e1 = respond (if r = Ok then Reduced else Rejected) r req (rq_id req) removed 0 ?e"
    let ?e' = "if r = Ok \<and> removed > 0 then md_cancel ts (rq_id req) removed e1 else e1"
    have g1: "grows [response (reply Reduced r) r removed 0 (rq_id req) 0 req] [] 0 e e1"
      using grows_respond [of "if r = Ok then Reduced else Rejected" r removed 0 "rq_id req" req ?e] g0 by (simp add: reply_def e1_def)
    have "grows [] (if r = Ok \<and> removed > 0 then [CancelEv ts (rq_id req) removed] else []) 0 e1 ?e'"
      using grows_cancel [of ts "rq_id req" removed e1] grows_refl [of e1] by simp
    from grows_trans [OF g1 this]
    have "grows (ack req r removed) (head_events ts req r removed) 0 e ?e'"
      by (cases "r = Ok \<and> removed > 0") (auto simp: ack_def head_events_def reduce char_kinds char_kinds [symmetric])
    moreover have "handle_kind P ts req e = Some (r, ?e')" "abs_request V req A = ((r, [], removed), A')"
      using A b(1) by (simp_all add: handle_kind_def abs_request_def reduce char_kinds [symmetric] char_kinds e1_def Let_def)
    moreover have "eg_execs ?e' = []" "eg_book ?e' = b" using assms(3) by (simp_all add: r d e1_def)
    ultimately show ?thesis using b(2,3) by metis
  next
    case replace
    obtain r xs A' where A: "abs_replace V (rq_id req) (rq_new_id req) (rq_price req) (rq_qty req) A = (r, xs, A')" by (metis prod_cases3)
    obtain b where b: "Book.replace P (rq_id req) (rq_new_id req) (rq_price req) (rq_qty req) (eg_book e) = Some (r, xs, b)"
      "implements P V b A'" "pol_size P (bk_orders b) \<le> Suc (pol_size P (bk_orders (eg_book e)))"
      using st [of "ReplaceOp (rq_id req) (rq_new_id req) (rq_price req) (rq_qty req)"] A by (auto split: bind_splits)
    let ?e = "e\<lparr>eg_book := b, eg_execs := xs\<rparr>"
    let ?e' = "respond (if r = Ok then Accepted else Rejected) r req (rq_new_id req) (rq_qty req) (rq_price req) ?e"
    have "grows (ack req r 0) (head_events ts req r 0) 0 e ?e'"
      using grows_respond [of "if r = Ok then Accepted else Rejected" r "rq_qty req" "rq_price req" "rq_new_id req" req ?e] g
      by (simp add: ack_def head_events_def replace char_kinds char_kinds [symmetric] reply_def)
    then show ?thesis using A b assms(3)
      by (intro exI [of _ ?e'] exI) (simp add: abs_request_def handle_kind_def replace char_kinds [symmetric] char_kinds r)
  next
    case none
    then show ?thesis using assms grows_refl [of e] by (simp add: abs_request_def handle_kind_def ack_def head_events_def)
  qed
qed

lemma handle_spec:
  assumes "follows_book P V n e A" and "Suc n < 2 ^ 32"
  shows "\<exists>e'. handle P ts req e = Some e' \<and> follows_book P V (Suc n) e' (snd (abs_request V req A))
    \<and> grows (responses req (fst (abs_request V req A))) (events (cf_symbol (eg_cfg e)) ts (eg_match_number e) req (fst (abs_request V req A)))
        (of_nat (length (fst (snd (fst (abs_request V req A)))))) e e'"
proof -
  let ?e0 = "e\<lparr>eg_execs := []\<rparr>"
  have i0: "implements P V (eg_book ?e0) A" "Suc (pol_size P (bk_orders (eg_book ?e0))) < 2 ^ 32" "eg_execs ?e0 = []"
    using assms by (auto simp: follows_book_def)
  obtain r xs removed A' e1 where k: "abs_request V req A = ((r, xs, removed), A')" "handle_kind P ts req ?e0 = Some (r, e1)" "eg_execs e1 = xs"
    "implements P V (eg_book e1) A'" "pol_size P (bk_orders (eg_book e1)) \<le> Suc (pol_size P (bk_orders (eg_book ?e0)))"
    and g1: "grows (ack req r removed) (head_events ts req r removed) 0 ?e0 e1"
    using handle_kind_spec [OF i0, of req ts] by blast
  obtain filled e2 where f: "fold (handle_fill ts req) xs (0, e1) = (filled, e2)" by force
  have f2: "filled = filled_qty xs" "eg_book e2 = eg_book e1"
    and g2: "grows (concat (map (fill_reports req) xs)) (fill_events ts (eg_match_number e1) xs) (of_nat (length xs)) e1 e2"
    using handle_fills [of ts req xs 0 e1] f by simp_all
  let ?e3 = "handle_rest ts req r filled e2"
  have cfg: "eg_cfg e2 = eg_cfg e" "eg_match_number e1 = eg_match_number e" using g1 g2 by (simp_all add: grows_def)
  have s: "length (cf_symbol (eg_cfg e2)) = 8" using assms(1) cfg by (simp add: follows_book_def)
  note g3 = rest_grows(1) [OF s, of ts req r filled]
  have b3: "eg_book ?e3 = eg_book e1" using rest_grows(2) [OF s] f2 by simp
  have "grows (responses req (r, xs, removed)) (events (cf_symbol (eg_cfg e)) ts (eg_match_number e) req (r, xs, removed)) (of_nat (length xs)) ?e0 ?e3"
    using grows_trans [OF grows_trans [OF g1 g2] g3] by (simp add: responses_def events_def cfg f2(1))
  then have g: "grows (responses req (r, xs, removed)) (events (cf_symbol (eg_cfg e)) ts (eg_match_number e) req (r, xs, removed)) (of_nat (length xs)) e (?e3\<lparr>eg_execs := []\<rparr>)"
    by (simp add: grows_def publish_same [of ?e0 e])
  have "handle P ts req e = Some (?e3\<lparr>eg_execs := []\<rparr>)" by (simp add: handle_def k(2,3) f)
  moreover have "follows_book P V (Suc n) (?e3\<lparr>eg_execs := []\<rparr>) A'"
    using k(4,5) b3 assms(1) g by (simp add: follows_book_def grows_def)
  ultimately show ?thesis using g k(1) by simp
qed

end
