(* ===== verification/EngineFeed.thy ===== *)
theory EngineFeed
  imports FlatBook EngineSpec ReplayProperties
begin

text \<open>
  The feed the matching thread publishes, read back: a replay that applies the published events keeps
  a book with the resting orders of the engine's own.
\<close>

subsection \<open>A replay that mirrors a book\<close>

text \<open>The book the replay keeps for \<open>s\<close> has the orders \<open>F\<close>, and the replay owns exactly these.\<close>

definition mirrors :: "(Price \<Rightarrow> bool) \<Rightarrow> Symbol \<Rightarrow> (Side \<Rightarrow> (Price \<times> entry) list) \<Rightarrow> AMulti Replayer \<Rightarrow> bool" where
  "mirrors V s F R \<longleftrightarrow> abook_ok V (fst (am_book s (rp_books R))) \<and> flats (fst (am_book s (rp_books R))) = F
     \<and> am_owner (rp_books R) = (\<lambda>oid. if oid \<in> flat_ids F then Some s else None) \<and> tracked (rp_filter R) s"

lemma flats_new: "flats abook_new = (\<lambda>_. [])"
  by (simp add: flats_def abook_new_def fun_eq_iff)

lemma mirrors_bump [simp]: "mirrors V s F (bump f R) = mirrors V s F R" "mirrors V s F (observe c R) = mirrors V s F R"
  by (simp_all add: mirrors_def) (simp add: observe_def)

lemma mirrors_new: "mirrors V s (\<lambda>_. []) (track_only [] (replayer_new amulti_new))"
  by (simp add: mirrors_def track_only_def replayer_new_def amulti_new_def am_book_def flats_new flat_ids_def tracked_def)
    (simp add: abook_ok_def abook_new_def all_entries_def side_entries_def)

lemma mirrors_ok: "mirrors V s F R \<Longrightarrow> flats_ok V F"
  by (auto simp: mirrors_def abook_ok_flats)

lemma mirrors_book:
  assumes "mirrors V s F R" and "oid \<in> flat_ids F"
  shows "\<exists>B. map_of (am_books (rp_books R)) s = Some B \<and> abook_ok V B \<and> flats B = F \<and> am_owner (rp_books R) oid = Some s"
  using assms by (cases "map_of (am_books (rp_books R)) s") (auto simp: mirrors_def am_book_def flats_new flat_ids_def)

lemma mirrorsI:
  assumes "map_of (am_books (rp_books R)) s = Some B" and "shape_ok B" and "flats_ok V F" and "flats B = F"
    and "am_owner (rp_books R) = (\<lambda>oid. if oid \<in> flat_ids F then Some s else None)" and "tracked (rp_filter R) s"
  shows "mirrors V s F R"
  using assms by (simp add: mirrors_def am_book_def abook_ok_flats)

lemma books_updates [simp]:
  "map_of (am_books A) s = Some C \<Longrightarrow> map_of (am_books (am_update s B A)) s = Some B" "am_books (am_forget oid A) = am_books A"
  "am_books (am_note oid s A) = am_books A" "am_owner (am_update s B A) = am_owner A" "am_owner (am_forget oid A) = (am_owner A)(oid := None)"
  by (simp_all add: am_update_def am_forget_def am_note_def map_of_set)

lemma shape_of: "abook_ok V B \<Longrightarrow> shape_ok B"
  by (simp add: abook_ok_flats)

lemma mirrors_take:
  assumes m: "mirrors V s F R" and i: "oid \<in> flat_ids F" and q: "q \<noteq> 0"
  shows "mirrors V s (\<lambda>t. cut oid q (F t)) (abs_routed oid (abs_take x oid q ts count) (bump f R))"
proof -
  obtain B where B: "map_of (am_books (rp_books R)) s = Some B" "abook_ok V B" "flats B = F" "am_owner (rp_books R) oid = Some s"
    using mirrors_book [OF m i] by blast
  obtain r taken B' where B': "abs_consume oid q x B = (r, taken, B')" by (metis prod_cases3)
  let ?F = "\<lambda>t. cut oid q (F t)"
  have F: "flats B' = ?F" using consume_flats [OF B(2) q, of oid x] B' B(3) by (simp add: fun_eq_iff)
  have s: "shape_ok B'" using shape_ops(5) [OF shape_of [OF B(2)], of oid q x] B' by simp
  have gone: "abs_find oid B' = None \<longleftrightarrow> oid \<notin> flat_ids ?F" unfolding abs_find_None by (simp add: flat_ids_flats [symmetric] F)
  have ids: "flat_ids F - {oid} \<subseteq> flat_ids ?F" "flat_ids ?F \<subseteq> flat_ids F"
    using consume_ids [OF B(2), of oid q x] B' flats_ok_cut(2) [OF mirrors_ok [OF m]]
    by (simp_all add: flat_ids_flats [symmetric] F B(3))
  have ow: "am_owner (rp_books R) = (\<lambda>i. if i \<in> flat_ids F then Some s else None)" and fi: "tracked (rp_filter R) s"
    using m by (simp_all add: mirrors_def)
  have o1: "oid \<notin> flat_ids ?F \<Longrightarrow> (am_owner (rp_books R))(oid := None) = (\<lambda>i. if i \<in> flat_ids ?F then Some s else None)"
    and o2: "oid \<in> flat_ids ?F \<Longrightarrow> am_owner (rp_books R) = (\<lambda>i. if i \<in> flat_ids ?F then Some s else None)"
    using ids by (auto simp: ow fun_eq_iff)
  note I = mirrorsI [OF _ s flats_ok_cut(1) [OF mirrors_ok [OF m], of oid q] F]
  have "mirrors V s ?F (abs_take x oid q ts count s B (bump f R))"
    unfolding abs_take_def B' prod.case Let_def
    by (cases "oid \<in> flat_ids ?F"; simp add: gone; rule I; simp add: B(1) o1 o2 fi with_books_def bump_def observe_def)
  then show ?thesis using B(1,4) by (simp add: abs_routed_def)
qed

lemma mirrors_cancel:
  assumes m: "mirrors V s F R" and B: "map_of (am_books (rp_books R)) s = Some B"
  shows "mirrors V s (\<lambda>t. without oid (F t)) (with_books (am_forget oid) (with_books (am_update s (snd (abs_cancel oid B))) R))"
proof -
  have b: "abook_ok V B" "flats B = F" using m B by (simp_all add: mirrors_def am_book_def)
  have "flats (snd (abs_cancel oid B)) = (\<lambda>t. without oid (F t))" using cancel_flats [OF b(1)] by (simp add: b(2) fun_eq_iff)
  then show ?thesis using m B flats_ok_without [OF mirrors_ok [OF m], of oid] shape_ops(4) [OF shape_of [OF b(1)]]
    by (intro mirrorsI) (auto simp: mirrors_def with_books_def fun_eq_iff)
qed

lemma mirrors_insert:
  assumes m: "mirrors V s F R" and B: "map_of (am_books (rp_books R)) s = Some B"
    and v: "oid \<noteq> 0" "q \<noteq> 0" "V p" "oid \<notin> flat_ids F"
  shows "mirrors V s (F(side := enter side p \<lparr>en_id = oid, en_qty = q, en_owner = 0\<rparr> (F side))) (abs_new_order V oid side p q count c s B R)"
proof -
  let ?e = "\<lparr>en_id = oid, en_qty = q, en_owner = 0\<rparr>"
  have b: "abook_ok V B" "flats B = F" using m B by (simp_all add: mirrors_def am_book_def)
  have "abs_find oid B = None" unfolding abs_find_None using v(4) by (simp add: flat_ids_flats [symmetric] b(2))
  then have r: "abs_insert_passive V oid side p q B = (Ok, abs_rest oid side p q 0 (abs_count (c_added q) B))"
    using v by (simp add: abs_insert_passive_def abs_validate_def)
  have s: "shape_ok (abs_count (c_added q) B)" using shape_ops(1) [OF shape_of [OF b(1)]] .
  have F: "flats (abs_rest oid side p q 0 (abs_count (c_added q) B)) = F(side := enter side p ?e (F side))"
    using rest_flats [of side "abs_count (c_added q) B"] s b(2) by (auto simp: fun_eq_iff shape_ok_def)
  note E = flats_ok_enter [OF mirrors_ok [OF m] v(3), of ?e side, simplified, OF v(2,4)]
  have ow: "am_owner (rp_books R) = (\<lambda>i. if i \<in> flat_ids F then Some s else None)" and fi: "tracked (rp_filter R) s"
    using m by (simp_all add: mirrors_def)
  show ?thesis unfolding abs_new_order_def r Let_def prod.case
    using B s v(4) E F fi
    by (simp, intro mirrorsI [OF _ shape_ops(3) [OF s]]) (auto simp: with_books_def bump_def observe_def am_note_def ow fun_eq_iff)
qed

text \<open>The events, one by one.\<close>

lemmas feed_steps = feed_step_def feed_of.simps abs_feed.simps

lemma mirrors_executed:
  "mirrors V s F R \<Longrightarrow> oid \<in> flat_ids F \<Longrightarrow> q \<noteq> 0 \<Longrightarrow> mirrors V s (\<lambda>t. cut oid q (F t)) (feed_step V (ExecutedEv ts oid q n) R)"
  "mirrors V s F R \<Longrightarrow> oid \<in> flat_ids F \<Longrightarrow> q \<noteq> 0 \<Longrightarrow> mirrors V s (\<lambda>t. cut oid q (F t)) (feed_step V (CancelEv ts oid q) R)"
  unfolding feed_steps by (simp_all add: mirrors_take)

lemma mirrors_deleted:
  assumes "mirrors V s F R" and "oid \<in> flat_ids F"
  shows "mirrors V s (\<lambda>t. without oid (F t)) (feed_step V (DeleteEv ts oid) R)"
proof -
  obtain B where B: "map_of (am_books (rp_books R)) s = Some B" "am_owner (rp_books R) oid = Some s"
    using mirrors_book [OF assms] by blast
  let ?R = "bump (c_time (take_bit 48 ts)) (bump (c_message (type_length (event_type (DeleteEv ts oid)))) R)"
  have "mirrors V s F ?R" "map_of (am_books (rp_books ?R)) s = Some B" using assms(1) B by simp_all
  from mirrors_cancel [OF this] show ?thesis unfolding feed_steps using B by (simp add: abs_routed_def)
qed

lemma mirrors_added:
  assumes "mirrors V s F R" and "oid \<noteq> 0" and "q \<noteq> 0" and "V p" and "oid \<notin> flat_ids F"
  shows "mirrors V s (F(side := enter side p \<lparr>en_id = oid, en_qty = q, en_owner = 0\<rparr> (F side))) (feed_step V (AddEv ts oid side q s p) R)"
proof -
  let ?R = "bump (c_time (take_bit 48 ts)) (bump (c_message (type_length (event_type (AddEv ts oid side q s p)))) R)"
  obtain B M where B: "am_book s (rp_books R) = (B, M)" by force
  have M: "map_of (am_books M) s = Some B" "am_owner M = am_owner (rp_books R)" "fst (am_book s M) = B"
    using B by (auto simp: am_book_def map_add_def split: option.splits)
  have "mirrors V s F (with_books (\<lambda>_. M) ?R)" using assms(1) B M(2,3) by (simp add: mirrors_def with_books_def bump_def)
  moreover have "map_of (am_books (rp_books (with_books (\<lambda>_. M) ?R))) s = Some B" using M(1) by simp
  ultimately have "mirrors V s (F(side := enter side p \<lparr>en_id = oid, en_qty = q, en_owner = 0\<rparr> (F side)))
      (abs_new_order V oid side p q count c s B (with_books (\<lambda>_. M) ?R))" for count c
    using mirrors_insert [where V=V, OF _ _ assms(2-5)] by blast
  then show ?thesis using assms(1) B unfolding feed_steps by (simp add: mirrors_def)
qed

lemma mirrors_replaced:
  assumes "mirrors V s F R" and "(p0, e) \<in> set (F side)" and "fresh \<noteq> 0" and "q \<noteq> 0" and "V p" and "fresh \<notin> flat_ids F - {en_id e}"
  shows "mirrors V s ((\<lambda>t. without (en_id e) (F t))(side := enter side p \<lparr>en_id = fresh, en_qty = q, en_owner = 0\<rparr> (without (en_id e) (F side))))
    (feed_step V (ReplaceEv ts (en_id e) fresh q p) R)"
proof -
  have i: "en_id e \<in> flat_ids F" using assms(2) by (auto simp: flat_ids_iff)
  obtain B where B: "map_of (am_books (rp_books R)) s = Some B" "abook_ok V B" "flats B = F" "am_owner (rp_books R) (en_id e) = Some s"
    using mirrors_book [OF assms(1) i] by blast
  have f: "abs_find (en_id e) B = Some (side, p0, e)" using find_flats(2) [OF B(2)] assms(2) B(3) by simp
  let ?R = "bump (c_time (take_bit 48 ts)) (bump (c_message (type_length (event_type (ReplaceEv ts (en_id e) fresh q p)))) R)"
  let ?A = "with_books (am_forget (en_id e)) (with_books (am_update s (snd (abs_cancel (en_id e) B))) ?R)"
  have "mirrors V s F ?R" "map_of (am_books (rp_books ?R)) s = Some B" using assms(1) B by simp_all
  from mirrors_cancel [OF this] have m: "mirrors V s (\<lambda>t. without (en_id e) (F t)) ?A" .
  have b: "map_of (am_books (rp_books ?A)) s = Some (snd (abs_cancel (en_id e) B))" using B(1) by simp
  have n: "fresh \<notin> flat_ids (\<lambda>t. without (en_id e) (F t))" using assms(6) flats_ok_without(2) [OF mirrors_ok [OF assms(1)]] by simp
  from mirrors_insert [where V=V, OF m b assms(3-5) n] show ?thesis unfolding feed_steps using B f by (simp add: abs_routed_def Let_def)
qed

subsection \<open>The executions of one aggressor\<close>

lemma cut_front:
  assumes ok: "flats_ok V F" and F: "F u = (p, e) # fs" and d: "d \<noteq> 0" "d \<le> en_qty e"
  shows "(\<lambda>t. cut (en_id e) d (F t)) = F(u := (if d = en_qty e then fs else (p, e\<lparr>en_qty := en_qty e - d\<rparr>) # fs))"
proof
  fix t
  have m: "(p, e) \<in> set (F u)" using F by simp
  have q: "\<forall>f \<in> set (F t). en_qty (snd f) \<noteq> 0" using flats_okD(2) [OF ok] by blast
  show "cut (en_id e) d (F t) = (F(u := (if d = en_qty e then fs else (p, e\<lparr>en_qty := en_qty e - d\<rparr>) # fs))) t"
  proof (cases "t = u")
    case True
    have "\<forall>f \<in> set fs. en_id (snd f) \<noteq> en_id e \<and> en_qty (snd f) \<noteq> 0" using flats_okD(3) [OF ok, of u] F q True by force
    then have "cut (en_id e) d fs = fs" by (rule cut_other)
    moreover have "cut (en_id e) d (F u) = cut (en_id e) d [(p, e)] @ cut (en_id e) d fs" using F cut_append [of "en_id e" d "[(p, e)]" fs] by simp
    moreover have "min d (en_qty e) = d" using d(2) by simp
    ultimately show ?thesis using True by (simp add: cut_one)
  next
    case False
    have "\<forall>f \<in> set (F t). en_id (snd f) \<noteq> en_id e \<and> en_qty (snd f) \<noteq> 0" using flats_okD(4) [OF ok m, of _ t] q False by fastforce
    then have "cut (en_id e) d (F t) = F t" by (rule cut_other)
    then show ?thesis using False by simp
  qed
qed

lemma mirrors_fills:
  assumes "in_order aggressor (F u) xs fs" and "mirrors V s F R"
  shows "mirrors V s (F(u := fs)) (fold (feed_step V) (fill_events ts n xs) R)"
proof -
  obtain taken rest where t: "F u = taken @ rest" and x: "xs = map (\<lambda>f. fill_of aggressor (en_qty (snd f)) f) taken \<and> fs = rest
      \<or> (\<exists>p e rest' d. rest = (p, e) # rest' \<and> 0 < d \<and> d < en_qty e
           \<and> xs = map (\<lambda>f. fill_of aggressor (en_qty (snd f)) f) taken @ [fill_of aggressor d (p, e)]
           \<and> fs = (p, e\<lparr>en_qty := en_qty e - d\<rparr>) # rest')"
    using assms(1) unfolding in_order_def by blast
  have here: "en_id e \<in> flat_ids F" if "F u = (p, e) # gs" for p e gs F
    using that unfolding flat_ids_iff by (metis list.set_intros(1))
  from t x assms(2) show ?thesis
  proof (induction taken arbitrary: F xs R n)
    case Nil
    show ?case
    proof (cases "xs = []")
      case True
      then have "F(u := fs) = F" using Nil.prems(1,2) by (auto intro!: fun_upd_idem)
      then show ?thesis using True Nil.prems(3) by simp
    next
      case False
      then obtain p e rest' d where p: "rest = (p, e) # rest'" "0 < d" "d < en_qty e" "xs = [fill_of aggressor d (p, e)]"
        "fs = (p, e\<lparr>en_qty := en_qty e - d\<rparr>) # rest'" using Nil.prems(2) by auto
      then have c: "(\<lambda>t. cut (en_id e) d (F t)) = F(u := fs)"
        using cut_front [OF mirrors_ok [OF Nil.prems(3)], of u p e rest' d] Nil.prems(1) by (auto simp: word_gt_0)
      have "mirrors V s (F(u := fs)) (feed_step V (ExecutedEv ts (en_id e) d (n + 1)) R)"
        using mirrors_executed(1) [OF Nil.prems(3), of "en_id e" d] here [of F p e rest'] Nil.prems(1) p(1,2)
        unfolding c by (simp add: word_gt_0 del: fun_upd_apply)
      then show ?thesis unfolding p(4) by (simp add: fill_of_def del: fun_upd_apply)
    qed
  next
    case (Cons f taken)
    obtain p e where f: "f = (p, e)" by force
    then have F: "F u = (p, e) # taken @ rest" using Cons.prems(1) by simp
    have xs: "xs = fill_of aggressor (en_qty e) (p, e) # tl xs" using Cons.prems(2) f by auto
    have ys: "tl xs = map (\<lambda>f. fill_of aggressor (en_qty (snd f)) f) taken \<and> fs = rest
      \<or> (\<exists>p e rest' d. rest = (p, e) # rest' \<and> 0 < d \<and> d < en_qty e
           \<and> tl xs = map (\<lambda>f. fill_of aggressor (en_qty (snd f)) f) taken @ [fill_of aggressor d (p, e)]
           \<and> fs = (p, e\<lparr>en_qty := en_qty e - d\<rparr>) # rest')"
      using Cons.prems(2)
    proof (elim disjE exE conjE)
      fix p e rest' d
      assume "rest = (p, e) # rest'" "0 < d" "d < en_qty e" "fs = (p, e\<lparr>en_qty := en_qty e - d\<rparr>) # rest'"
        "xs = map (\<lambda>f. fill_of aggressor (en_qty (snd f)) f) (f # taken) @ [fill_of aggressor d (p, e)]"
      moreover from this have "tl xs = map (\<lambda>f. fill_of aggressor (en_qty (snd f)) f) taken @ [fill_of aggressor d (p, e)]" by simp
      ultimately show ?thesis by blast
    qed simp
    have q: "en_qty e \<noteq> 0" using flats_okD(2) [OF mirrors_ok [OF Cons.prems(3)], of "(p, e)" u] F by simp
    have c: "(\<lambda>t. cut (en_id e) (en_qty e) (F t)) = F(u := taken @ rest)"
      using cut_front [OF mirrors_ok [OF Cons.prems(3)] F q] by simp
    have "mirrors V s (F(u := taken @ rest)) (feed_step V (ExecutedEv ts (en_id e) (en_qty e) (n + 1)) R)"
      using mirrors_executed(1) [OF Cons.prems(3) here [of F p e, OF F] q] unfolding c .
    have "(F(u := taken @ rest)) u = taken @ rest" by simp
    from Cons.IH [OF this ys \<open>mirrors V s (F(u := taken @ rest)) _\<close>, of "n + 1"] show ?case by (subst xs) (simp add: fill_of_def del: fun_upd_apply)
  qed
qed

text \<open>What is left of an aggressor when nothing is prevented, as the engine computes it.\<close>

lemma filled_qty_simps [simp]: "filled_qty [] = 0" "filled_qty (x # xs) = ex_qty x + filled_qty xs" "filled_qty (xs @ ys) = filled_qty xs + filled_qty ys"
  by (simp_all add: filled_qty_def)

lemma fill_queue_left_qty:
  "fill_queue stp aggressor actor p es qty c = (es', q, k, xs, c') \<Longrightarrow> \<not> stp_active stp actor \<Longrightarrow> \<not> k \<and> q = qty - filled_qty xs"
proof (induction es arbitrary: qty c es' q k xs c' rule: measure_induct_rule [of length])
  case (less es)
  show ?case
  proof (cases rule: fill_queue_cases [of es qty stp aggressor actor p c])
    case (full e es1 es2 q2 k2 xs2 c2)
    have "q = q2" "k = k2" "filled_qty xs = en_qty e + filled_qty xs2" using less.prems(1) unfolding full(6) by auto
    then show ?thesis using less.IH [of es1, OF _ full(5) less.prems(2)] full(1) by simp
  qed (use less.prems in auto)
qed

lemma fill_levels_left_qty:
  "fill_levels stp has_limit aggressor actor side price ls qty c = (ls', q, xs, c') \<Longrightarrow> \<not> stp_active stp actor \<Longrightarrow> q = qty - filled_qty xs"
proof (induction ls arbitrary: qty c ls' q xs c')
  case (Cons l ls)
  obtain p es where l: "l = (p, es)" by force
  obtain es1 q1 k ys1 c1 where fq: "fill_queue stp aggressor actor p es qty c = (es1, q1, k, ys1, c1)"
    by (metis prod_cases5)
  obtain ls2 q2 ys2 c2 where fl: "fill_levels stp has_limit aggressor actor side price ls q1 c1 = (ls2, q2, ys2, c2)"
    by (metis prod_cases4)
  show ?case
    using Cons.prems Cons.IH [OF fl] fill_queue_left_qty [OF fq] l fq fl by (auto simp: Let_def algebra_simps split: if_splits)
qed simp

lemma match_left_qty:
  assumes "abs_match has_limit aggressor actor side price qty A = (q, xs, A')" and "\<not> stp_active (ab_stp A) actor"
  shows "q = qty - filled_qty xs"
  using assms fill_levels_left_qty by (auto simp: abs_match_def split: prod.splits)

lemma in_order_from:
  assumes "in_order aggressor fs xs fs'" and "f \<in> set fs'"
  shows "\<exists>g \<in> set fs. fst g = fst f \<and> en_id (snd g) = en_id (snd f) \<and> en_owner (snd g) = en_owner (snd f)"
  using assms unfolding in_order_def by (auto; force)

subsection \<open>One request\<close>

text \<open>The replay follows the engine's book, in which nothing is ever prevented and nobody has a number.\<close>

definition tracks :: "(Price \<Rightarrow> bool) \<Rightarrow> Symbol \<Rightarrow> ABook \<Rightarrow> AMulti Replayer \<Rightarrow> bool" where
  "tracks V s A R \<longleftrightarrow> mirrors V s (flats A) R \<and> ab_stp A = NoPrevention \<and> (\<forall>t. \<forall>f \<in> set (flats A t). en_owner (snd f) = 0)"

lemma tracks_new: "tracks V s abook_new (track_only [] (replayer_new amulti_new))"
  by (simp add: tracks_def flats_new mirrors_new) (simp add: abook_new_def)

lemma tracks_ok: "tracks V s A R \<Longrightarrow> shape_ok A \<Longrightarrow> abook_ok V A"
  unfolding tracks_def abook_ok_flats using mirrors_ok by blast

lemma tracksD: "tracks V s A R \<Longrightarrow> ab_stp A = NoPrevention" "tracks V s A R \<Longrightarrow> \<forall>t. \<forall>f \<in> set (flats A t). en_owner (snd f) = 0"
  by (simp_all add: tracks_def)

lemma stp_kept [simp]:
  "ab_stp (abs_count f A) = ab_stp A" "ab_stp (abs_set_queue s p es A) = ab_stp A" "ab_stp (abs_remove s p oid A) = ab_stp A"
  "ab_stp (abs_rest oid s p q actor A) = ab_stp A" "ab_stp (snd (abs_cancel oid A)) = ab_stp A"
  "ab_stp (snd (snd (abs_consume oid q x A))) = ab_stp A"
proof -
  show c: "ab_stp (abs_count f A) = ab_stp A" "ab_stp (abs_set_queue s p es A) = ab_stp A" for f s p es and A :: ABook
    by (simp_all add: abs_count_def abs_set_queue_def)
  show "ab_stp (abs_remove s p oid A) = ab_stp A" "ab_stp (abs_rest oid s p q actor A) = ab_stp A"
    "ab_stp (snd (abs_cancel oid A)) = ab_stp A" "ab_stp (snd (snd (abs_consume oid q x A))) = ab_stp A"
    by (auto simp: abs_remove_def abs_rest_def abs_cancel_def abs_consume_def c Let_def split: option.split)
qed

lemma all_sides: "(\<forall>t. P t) \<longleftrightarrow> P s \<and> P (opposite s)"
  by (metis other_side)

text \<open>Matching: the executions are published and the book keeps the rest of the side they hit.\<close>

lemma tracks_match:
  assumes ok: "abook_ok V A" and stp: "ab_stp A = NoPrevention" and own: "\<forall>t. \<forall>f \<in> set (flats A t). en_owner (snd f) = 0"
    and m: "abs_match True oid 0 side price qty (abs_count f A) = (q, xs, A')"
    and G: "\<And>t. G t = (if t = opposite side then flats A' t else F t)" "mirrors V s F R" "F (opposite side) = flats A (opposite side)"
  shows "mirrors V s G (fold (feed_step V) (fill_events ts n xs) R)" and "q = qty - filled_qty xs" and "ab_stp A' = NoPrevention"
    and "flats A' side = flats A side" and "flat_ids G \<subseteq> flat_ids F" and "ladder_sorted side (ab_levels A' side)"
    and "\<forall>f \<in> set (flats A' (opposite side)). en_owner (snd f) = 0"
proof -
  have na: "\<not> stp_active (ab_stp A) 0" by (simp add: stp_active_def)
  have i: "in_order oid (F (opposite side)) xs (flats A' (opposite side))"
    using match_facts(2) [OF ok m na] by (simp add: G(3) flats_def)
  have g: "G = F(opposite side := flats A' (opposite side))" using G(1) by (simp add: fun_eq_iff)
  show "mirrors V s G (fold (feed_step V) (fill_events ts n xs) R)" unfolding g by (rule mirrors_fills [OF i G(2)])
  show "q = qty - filled_qty xs" using match_left_qty [OF m] na by simp
  note M = match_levels [OF m]
  show "ab_stp A' = NoPrevention" "flats A' side = flats A side" "ladder_sorted side (ab_levels A' side)"
    using M(2,3,4) stp shape_of [OF ok] by (simp_all add: flats_def shape_ok_def)
  show "flat_ids G \<subseteq> flat_ids F"
  proof
    fix j
    assume "j \<in> flat_ids G"
    then obtain u p e where u: "(p, e) \<in> set (G u)" "en_id e = j" by (auto simp: flat_ids_iff)
    show "j \<in> flat_ids F"
    proof (cases "u = opposite side")
      case True
      then show ?thesis using in_order_from [OF i, of "(p, e)"] u G(1) by (force simp: flat_ids_def)
    next
      case False
      then show ?thesis using u G(1) by (force simp: flat_ids_def)
    qed
  qed
  show "\<forall>f \<in> set (flats A' (opposite side)). en_owner (snd f) = 0"
    using in_order_from [OF i] own G(3) by fastforce
qed

lemma tracks_enter:
  assumes t: "tracks V s A R" and ok: "shape_ok A" and a: "abs_limit W 0 oid side price qty A = (r, xs, A')"
    and req: "rq_kind req = req_char Enter" "rq_id req = oid" "rq_side req = side" "rq_price req = price" "rq_qty req = qty" and p: "V price"
  shows "tracks V s A' (fold (feed_step V) (events s ts n req (r, xs, 0)) R)"
proof (cases "abs_validate W oid price qty A = Ok")
  case False
  then show ?thesis using a t req char_kinds by (auto simp: abs_limit_def events_def head_events_def rest_events_def)
next
  case True
  then have v: "oid \<noteq> 0" "qty \<noteq> 0" "oid \<notin> flat_ids (flats A)"
    using abs_find_None [of oid A] by (auto simp: abs_validate_def flat_ids_flats split: if_splits)
  obtain q ys A1 where m: "abs_match True oid 0 side price qty (abs_count (c_added qty) A) = (q, ys, A1)" by (metis prod_cases3)
  have "abs_limit W 0 oid side price qty A = (Ok, ys, if q > 0 then abs_rest oid side price q 0 A1 else A1)"
    using True m by (simp add: abs_limit_def)
  then have r: "r = Ok" "xs = ys" "A' = (if q > 0 then abs_rest oid side price q 0 A1 else A1)" using a by simp_all
  have mi: "mirrors V s (flats A) R" using t by (simp add: tracks_def)
  have G: "flats A1 u = (if u = opposite side then flats A1 u else flats A u)" for u
  proof (cases "u = side")
    case True
    then show ?thesis using match_levels(3) [OF m] by (simp add: flats_def)
  qed (simp add: other_side)
  note T = tracks_match [OF tracks_ok [OF t ok] _ _ m G mi refl, OF tracksD(1) [OF t] tracksD(2) [OF t]]
  have own: "\<forall>u. \<forall>f \<in> set (flats A1 u). en_owner (snd f) = 0"
    using T(4,7) t unfolding all_sides [of _ side] tracks_def by simp
  have ev: "events s ts n req (r, xs, 0) = fill_events ts n ys @ (if q > 0 then [AddEv ts oid side q s price] else [])"
    using r req T(2) char_kinds by (simp add: events_def head_events_def rest_events_def)
  show ?thesis
  proof (cases "q > 0")
    case False
    then show ?thesis unfolding ev tracks_def using T(1) [of ts n] T(3) own r(3) by simp
  next
    case pos: True
    let ?e = "\<lparr>en_id = oid, en_qty = q, en_owner = 0\<rparr>"
    have F: "flats A' = (flats A1)(side := enter side price ?e (flats A1 side))"
      using rest_flats [OF T(6), of oid price q 0] r(3) pos by (simp add: fun_eq_iff)
    have "oid \<notin> flat_ids (flats A1)" using T(5) v(3) by blast
    from mirrors_added [where V = V, OF T(1) [of ts n] v(1) _ p this, of q side ts] pos
    have "mirrors V s (flats A') (feed_step V (AddEv ts oid side q s price) (fold (feed_step V) (fill_events ts n ys) R))"
      unfolding F by (simp add: word_gt_0 del: fun_upd_apply)
    moreover have "\<forall>u. \<forall>f \<in> set (flats A' u). en_owner (snd f) = 0" using own by (simp add: F enter_set)
    ultimately show ?thesis unfolding ev tracks_def using T(3) r(3) pos by simp
  qed
qed

lemma replace_rejects:
  assumes ok: "abook_ok W A" and a: "abs_replace W old_id fresh price qty A = (r, xs, A')" and r: "r \<noteq> Ok"
  shows "xs = [] \<and> A' = A"
proof (cases "abs_find old_id A")
  case None
  then show ?thesis using a by (simp add: abs_replace_def)
next
  case (Some l)
  then obtain s p e where f: "abs_find old_id A = Some (s, p, e)" by (cases l) auto
  show ?thesis
  proof (cases "fresh \<noteq> 0 \<and> qty \<noteq> 0 \<and> W price \<and> (fresh \<noteq> old_id \<longrightarrow> abs_find fresh A = None)")
    case True
    then show ?thesis using replace_accepts [OF ok f, of fresh qty price] a r by auto
  next
    case False
    then show ?thesis using a f by (auto simp: abs_replace_def split: if_splits)
  qed
qed

lemma tracks_replace:
  assumes t: "tracks V s A R" and w: "abook_ok W A" and a: "abs_replace W old_id fresh price qty A = (r, xs, A')"
    and req: "rq_kind req = req_char Replace" "rq_id req = old_id" "rq_new_id req = fresh" "rq_price req = price" "rq_qty req = qty" and p: "V price"
  shows "tracks V s A' (fold (feed_step V) (events s ts n req (r, xs, 0)) R)"
proof (cases "r = Ok")
  case False
  then have "xs = [] \<and> A' = A" using a replace_rejects [OF w] by blast
  then show ?thesis using t False req char_kinds by (simp add: events_def head_events_def rest_events_def)
next
  case True
  have ok: "shape_ok A" using w by (rule shape_of)
  have v: "abook_ok V A" by (rule tracks_ok [OF t ok])
  obtain side p0 e where f: "abs_find old_id A = Some (side, p0, e)" using a True by (auto simp: abs_replace_def split: option.splits)
  have e: "(p0, e) \<in> set (flats A side)" "en_id e = old_id" using find_flats(1) [OF v f] by simp_all
  have mi: "mirrors V s (flats A) R" and own0: "en_owner e = 0" using t e(1) by (fastforce simp: tracks_def)+
  let ?B = "snd (abs_cancel old_id A)"
  have l: "abs_limit W 0 fresh side price qty ?B = (Ok, xs, A')"
    using a True f own0 by (auto simp: abs_replace_def split: if_splits)
  then have val: "abs_validate W fresh price qty ?B = Ok" by (auto simp: abs_limit_def Let_def split: if_splits)
  have BF: "flats ?B = (\<lambda>u. without old_id (flats A u))" using cancel_flats [OF v] by (simp add: fun_eq_iff)
  have ids: "book_ids ?B = flat_ids (flats A) - {old_id}" using cancel_ids [OF v] by (simp add: flat_ids_flats)
  have z: "fresh \<noteq> 0" "qty \<noteq> 0" "fresh \<notin> flat_ids (flats A) - {old_id}"
    using val abs_find_None [of fresh ?B] ids by (auto simp: abs_validate_def split: if_splits)
  have old: "old_id \<in> flat_ids (flats A)" using e by (auto simp: flat_ids_iff)
  have ownB: "\<forall>u. \<forall>f \<in> set (flats ?B u). en_owner (snd f) = 0"
    using t unfolding BF tracks_def without_def by (metis filter_is_subset subsetD)
  have "flats_ok V (flats ?B)" unfolding BF using flats_ok_without(1) [OF mirrors_ok [OF mi]] .
  then have okB: "abook_ok V ?B" using shape_ops(4) [OF ok] by (simp add: abook_ok_flats)
  have stpB: "ab_stp ?B = NoPrevention" using t by (simp add: tracks_def)
  obtain q ys A1 where m: "abs_match True fresh 0 side price qty (abs_count (c_added qty) ?B) = (q, ys, A1)" by (metis prod_cases3)
  have "abs_limit W 0 fresh side price qty ?B = (Ok, ys, if q > 0 then abs_rest fresh side price q 0 A1 else A1)"
    using val m by (simp add: abs_limit_def)
  then have r: "xs = ys" "A' = (if q > 0 then abs_rest fresh side price q 0 A1 else A1)" using l by simp_all
  have "\<forall>g \<in> set (flats A (opposite side)). en_id (snd g) \<noteq> old_id"
    using flats_okD(4) [OF mirrors_ok [OF mi] e(1)] e(2) by fastforce
  then have opp: "flats ?B (opposite side) = flats A (opposite side)" by (simp add: BF without_other)
  define G where "G u = (if u = opposite side then flats A1 u else flats A u)" for u
  note T = tracks_match [OF okB stpB ownB m G_def mi opp [symmetric]]
  have Gs: "G side = flats A side" by (simp add: G_def)
  have eG: "(p0, e) \<in> set (G side)" using e(1) Gs by simp
  have oldG: "old_id \<in> flat_ids G" using eG e(2) by (auto simp: flat_ids_iff)
  have wG: "(\<lambda>u. without old_id (G u)) = flats A1"
  proof
    fix u
    show "without old_id (G u) = flats A1 u"
    proof (cases "u = side")
      case True
      then show ?thesis using T(4) by (simp add: Gs BF)
    next
      case False
      then have u: "u = opposite side" by (rule other_side)
      have "\<forall>g \<in> set (G u). en_id (snd g) \<noteq> old_id"
        using flats_okD(4) [OF mirrors_ok [OF T(1)] eG, of _ u] False e(2) by fastforce
      then show ?thesis using u by (simp add: without_other G_def)
    qed
  qed
  have own: "\<forall>u. \<forall>f \<in> set (flats A1 u). en_owner (snd f) = 0"
    using T(4,7) ownB unfolding all_sides [of _ side] by simp
  have ev: "events s ts n req (r, xs, 0) = fill_events ts n ys @ (if q > 0 then [ReplaceEv ts old_id fresh q price] else [DeleteEv ts old_id])"
    using True r req T(2) char_kinds by (simp add: events_def head_events_def rest_events_def)
  show ?thesis
  proof (cases "q > 0")
    case False
    have "mirrors V s (flats A1) (feed_step V (DeleteEv ts old_id) (fold (feed_step V) (fill_events ts n ys) R))"
      using mirrors_deleted [OF T(1) oldG] unfolding wG .
    then show ?thesis unfolding ev tracks_def using False T(3) own r(2) by simp
  next
    case pos: True
    let ?e = "\<lparr>en_id = fresh, en_qty = q, en_owner = 0\<rparr>"
    have F: "flats A' = (flats A1)(side := enter side price ?e (flats A1 side))"
      using rest_flats [OF T(6), of fresh price q 0] r(2) pos by (simp add: fun_eq_iff)
    have "fresh \<notin> flat_ids G - {en_id e}" "q \<noteq> 0" using T(5) z(3) e(2) pos by (auto simp: word_gt_0)
    from mirrors_replaced [where V = V, OF T(1) eG z(1) this(2) p this(1), of ts]
    have "mirrors V s (flats A') (feed_step V (ReplaceEv ts old_id fresh q price) (fold (feed_step V) (fill_events ts n ys) R))"
      unfolding F e(2) wG fun_cong [OF wG, of side] .
    moreover have "\<forall>u. \<forall>f \<in> set (flats A' u). en_owner (snd f) = 0" using own by (simp add: F enter_set)
    ultimately show ?thesis unfolding ev tracks_def using T(3) r(2) pos by simp
  qed
qed

lemma cut_min: "\<forall>f \<in> set fs. en_id (snd f) = oid \<longrightarrow> en_qty (snd f) = m \<Longrightarrow> cut oid (min q m) fs = cut oid q fs"
proof -
  assume a: "\<forall>f \<in> set fs. en_id (snd f) = oid \<longrightarrow> en_qty (snd f) = m"
  have "map (lessen oid (min q m)) fs = map (lessen oid q) fs"
  proof (rule map_cong)
    fix f
    assume "f \<in> set fs"
    then have "en_id (snd f) = oid \<Longrightarrow> en_qty (snd f) = m" using a by blast
    then show "lessen oid (min q m) f = lessen oid q f" by (cases f) (simp add: lessen_def min.assoc)
  qed simp
  then show ?thesis unfolding cut_def by (rule arg_cong)
qed

lemma tracks_cancel:
  assumes t: "tracks V s A R" and ok: "shape_ok A" and a: "abs_cancel oid A = (r, A')"
    and req: "rq_kind req = req_char Cancel" "rq_id req = oid"
  shows "tracks V s A' (fold (feed_step V) (events s ts n req (r, [], 0)) R)"
proof -
  have v: "abook_ok V A" by (rule tracks_ok [OF t ok])
  have mi: "mirrors V s (flats A) R" using t by (simp add: tracks_def)
  show ?thesis
  proof (cases "abs_find oid A")
    case None
    then show ?thesis using a t req char_kinds by (auto simp: abs_cancel_def events_def head_events_def rest_events_def)
  next
    case (Some l)
    then have r: "r = Ok" using a by (cases l) (simp add: abs_cancel_def)
    have ev: "events s ts n req (r, [], 0) = [DeleteEv ts oid]" using r req char_kinds [symmetric] by (simp add: events_def head_events_def rest_events_def)
    have F: "flats A' = (\<lambda>u. without oid (flats A u))" using cancel_flats [OF v, of oid] a by (simp add: fun_eq_iff)
    have i: "oid \<in> flat_ids (flats A)" using Some abs_find_None [of oid A] by (simp add: flat_ids_flats)
    have "\<forall>u. \<forall>f \<in> set (flats A' u). en_owner (snd f) = 0"
      using t unfolding F tracks_def without_def by (metis filter_is_subset subsetD)
    moreover have "ab_stp A' = NoPrevention" using stp_kept(5) [of oid A] a t by (simp add: tracks_def)
    ultimately show ?thesis using mirrors_deleted [OF mi i] unfolding ev tracks_def F by simp
  qed
qed

lemma tracks_reduce:
  assumes t: "tracks V s A R" and ok: "shape_ok A" and a: "abs_consume oid q False A = (r, removed, A')"
    and req: "rq_kind req = req_char Reduce" "rq_id req = oid"
  shows "tracks V s A' (fold (feed_step V) (events s ts n req (r, [], removed)) R)"
proof -
  have v: "abook_ok V A" by (rule tracks_ok [OF t ok])
  have mi: "mirrors V s (flats A) R" using t by (simp add: tracks_def)
  show ?thesis
  proof (cases "abs_find oid A = None \<or> q = 0")
    case True
    then show ?thesis using a t req char_kinds char_kinds [symmetric]
      by (auto simp: abs_consume_def events_def head_events_def rest_events_def split: option.splits)
  next
    case False
    then obtain u p e where f: "abs_find oid A = Some (u, p, e)" and q: "q \<noteq> 0" by auto
    have e: "(p, e) \<in> set (flats A u)" "en_id e = oid" using find_flats(1) [OF v f] by simp_all
    have z: "en_qty e \<noteq> 0" using flats_okD(2) [OF mirrors_ok [OF mi] e(1)] by simp
    have r: "r = Ok" "removed = min q (en_qty e)" using a f q by (auto simp: abs_consume_def Let_def split: if_splits)
    have pos: "removed \<noteq> 0" using r(2) q z by (simp add: min_def)
    have ev: "events s ts n req (r, [], removed) = [CancelEv ts oid removed]"
      using r(1) pos req char_kinds char_kinds [symmetric] by (simp add: events_def head_events_def rest_events_def word_gt_0)
    have "cut oid removed (flats A t) = cut oid q (flats A t)" for t
      unfolding r(2) using flats_okD(4) [OF mirrors_ok [OF mi] e(1), of _ t] e(2) by (intro cut_min) fastforce
    then have F: "flats A' = (\<lambda>t. cut oid removed (flats A t))" using consume_flats [OF v q, of oid False] a by (simp add: fun_eq_iff)
    have i: "oid \<in> flat_ids (flats A)" using e by (auto simp: flat_ids_iff)
    have own: "\<forall>t. \<forall>f \<in> set (flats A t). en_owner (snd f) = 0" using t by (simp add: tracks_def)
    have "en_owner (snd (lessen oid removed f)) = en_owner (snd f)" for f by (simp add: lessen_def split: prod.split)
    then have "\<forall>f \<in> set (cut oid removed (flats A t)). en_owner (snd f) = 0" for t
      using own unfolding cut_def by (metis (no_types, lifting) filter_is_subset imageE list.set_map subsetD)
    then have "\<forall>t. \<forall>f \<in> set (flats A' t). en_owner (snd f) = 0" unfolding F by blast
    moreover have "ab_stp A' = NoPrevention" using stp_kept(6) [of oid q False A] a t by (simp add: tracks_def)
    ultimately show ?thesis using mirrors_executed(2) [OF mi i pos] unfolding ev tracks_def F by simp
  qed
qed

definition enters :: "Request \<Rightarrow> bool" where
  "enters req \<longleftrightarrow> rq_kind req = req_char Enter \<or> rq_kind req = req_char Replace"

lemma tracks_request:
  assumes t: "tracks V s A R" and w: "abook_ok W A" and p: "enters req \<Longrightarrow> V (rq_price req)"
  shows "tracks V s (snd (abs_request W req A)) (fold (feed_step V) (events s ts n req (fst (abs_request W req A))) R)"
proof -
  have ok: "shape_ok A" using w by (rule shape_of)
  consider (enter) "rq_kind req = req_char Enter" | (cancel) "rq_kind req = req_char Cancel" | (reduce) "rq_kind req = req_char Reduce"
    | (replace) "rq_kind req = req_char Replace"
    | (none) "rq_kind req \<noteq> req_char Enter" "rq_kind req \<noteq> req_char Cancel" "rq_kind req \<noteq> req_char Reduce" "rq_kind req \<noteq> req_char Replace"
    by blast
  then show ?thesis
  proof cases
    case enter
    obtain r xs A' where A: "abs_limit W 0 (rq_id req) (rq_side req) (rq_price req) (rq_qty req) A = (r, xs, A')" by (metis prod_cases3)
    show ?thesis using tracks_enter [OF t ok A enter refl refl refl refl] p A by (simp add: enters_def enter abs_request_def)
  next
    case cancel
    obtain r A' where A: "abs_cancel (rq_id req) A = (r, A')" by force
    show ?thesis using tracks_cancel [OF t ok A cancel refl] A char_kinds [symmetric] by (simp add: cancel abs_request_def)
  next
    case reduce
    obtain r removed A' where A: "abs_consume (rq_id req) (rq_qty req) False A = (r, removed, A')" by (metis prod_cases3)
    show ?thesis using tracks_reduce [OF t ok A reduce refl] A char_kinds char_kinds [symmetric] by (simp add: reduce abs_request_def)
  next
    case replace
    obtain r xs A' where A: "abs_replace W (rq_id req) (rq_new_id req) (rq_price req) (rq_qty req) A = (r, xs, A')" by (metis prod_cases3)
    show ?thesis using tracks_replace [OF t w A replace refl refl refl refl] p A char_kinds [symmetric] by (simp add: enters_def replace abs_request_def)
  next
    case none
    then show ?thesis using t by (simp add: abs_request_def events_def head_events_def rest_events_def)
  qed
qed

end
