(* ===== verification/EngineRun.thy ===== *)
theory EngineRun
  imports EngineFeed ProtocolProperties
begin

text \<open>
  Whole sessions of the engine: the matching thread over a sequence of requests against its
  specification, the packets of the market-data thread, and a receiver that replays them.
\<close>

subsection \<open>The matching thread\<close>

fun abs_serve :: "(Price \<Rightarrow> bool) \<Rightarrow> Symbol \<Rightarrow> u64 \<Rightarrow> (u64 \<times> Request) list \<Rightarrow> ABook \<Rightarrow> Response list \<times> feed_event list \<times> ABook" where
  "abs_serve V stock m [] A = ([], [], A)"
| "abs_serve V stock m ((ts, req) # reqs) A =
     (let (result, A) = abs_request V req A;
          (rs, evs, A) = abs_serve V stock (m + of_nat (length (fst (snd result)))) reqs A
      in (responses req result @ rs, events stock ts m req result @ evs, A))"

lemma follows_ok: "follows_book P V n e A \<Longrightarrow> abook_ok V A"
  unfolding follows_book_def using implementsD(8) by blast

lemma handle_list_spec:
  assumes "follows_book P V n e A" and "n + length reqs < 2 ^ 32"
    and "abs_serve V (cf_symbol (eg_cfg e)) (eg_match_number e) reqs A = (rs, evs, A')"
  shows "\<exists>e'. handle_list P reqs e = Some e' \<and> follows_book P V (n + length reqs) e' A' \<and> eg_out e' = eg_out e @ rs
    \<and> eg_md_q e' = eg_md_q e @ publish evs e \<and> es_responses (eg_stats e') = es_responses (eg_stats e) + of_nat (length rs)
    \<and> eg_cfg e' = eg_cfg e"
  using assms
proof (induction reqs arbitrary: n e A rs evs A')
  case Nil
  then show ?case by simp
next
  case (Cons r reqs)
  obtain ts req where r: "r = (ts, req)" by force
  obtain result B where B: "abs_request V req A = (result, B)" by (metis surj_pair)
  obtain rs1 evs1 A1 where s: "abs_serve V (cf_symbol (eg_cfg e)) (eg_match_number e + of_nat (length (fst (snd result)))) reqs B = (rs1, evs1, A1)"
    by (metis prod_cases3)
  have out: "rs = responses req result @ rs1" "evs = events (cf_symbol (eg_cfg e)) ts (eg_match_number e) req result @ evs1" "A' = A1"
    using Cons.prems(3) by (simp_all add: r B s)
  have "Suc n < 2 ^ 32" using Cons.prems(2) by simp
  then obtain e1 where e1: "handle P ts req e = Some e1" "follows_book P V (Suc n) e1 B"
    and g: "grows (responses req result) (events (cf_symbol (eg_cfg e)) ts (eg_match_number e) req result) (of_nat (length (fst (snd result)))) e e1"
    using handle_spec [OF Cons.prems(1), of ts req] B by auto
  have cfg: "eg_cfg e1 = eg_cfg e" "eg_match_number e1 = eg_match_number e + of_nat (length (fst (snd result)))" using g by (simp_all add: grows_def)
  have "Suc n + length reqs < 2 ^ 32" using Cons.prems(2) by simp
  from Cons.IH [OF e1(2) this, unfolded cfg, OF s] obtain e' where "handle_list P reqs e1 = Some e'" "follows_book P V (Suc n + length reqs) e' A1"
    "eg_out e' = eg_out e1 @ rs1" "eg_md_q e' = eg_md_q e1 @ publish evs1 e1"
    "es_responses (eg_stats e') = es_responses (eg_stats e1) + of_nat (length rs1)" "eg_cfg e' = eg_cfg e1" unfolding cfg by blast
  then show ?case using e1(1) g out publish_same [OF cfg(1), of evs1] by (auto simp: r grows_def publish_def)
qed

text \<open>A new engine, its index reserved.\<close>

lemma engine_start:
  assumes "lawful P l" and "length (cf_symbol cfg) = 8"
  shows "\<exists>e b. engine_new P l cfg = Some e \<and> reserve_orders P (2 ^ 20) (eg_book e) = Some b
    \<and> follows_book P (pol_valid_price P l) 0 (e\<lparr>eg_book := b\<rparr>) abook_new \<and> eg_cfg e = cfg \<and> eg_out e = [] \<and> eg_md_q e = []
    \<and> eg_match_number e = 0 \<and> es_responses (eg_stats e) = 0"
proof -
  obtain linv levels window minv lookup where L: "book_policies P linv levels window minv lookup"
    "linv l" "levels l = (\<lambda>_. [])" using assms(1) unfolding lawful_def by auto
  obtain b0 where b0: "book_new P l = Some b0" "pol_size P (bk_orders b0) = 0"
    "book_policies.refines P linv levels minv lookup (pol_valid_price P l) b0 abook_new"
    using book_policies.new_sim [OF L] by auto
  have "(2 ^ 20 :: nat) < 2 ^ 40" by simp
  from book_policies.reserve_orders_sim [OF L(1) b0(3) this] obtain b where b: "reserve_orders P (2 ^ 20) b0 = Some b"
    "book_policies.refines P linv levels minv lookup (pol_valid_price P l) b abook_new" "pol_size P (bk_orders b) = 0"
    using b0(2) by metis
  have "implements P (pol_valid_price P l) b abook_new" unfolding implements_def using L(1) b(2,3) by fastforce
  then show ?thesis using b0(1) b(1,3) assms(2) by (simp add: engine_new_def follows_book_def stats_new_def)
qed

definition serve_new :: "('l, 'm) policy \<Rightarrow> 'l \<Rightarrow> Config \<Rightarrow> (u64 \<times> Request) list \<Rightarrow> ('l, 'm) Engine option" where
  "serve_new P l cfg reqs = do { e \<leftarrow> engine_new P l cfg; match_thread P reqs e }"

lemma serve_new_spec:
  assumes "lawful P l" and "length (cf_symbol cfg) = 8" and "length reqs < 2 ^ 32"
    and "abs_serve (pol_valid_price P l) (cf_symbol cfg) 0 reqs abook_new = (rs, evs, A)"
  shows "\<exists>e. serve_new P l cfg reqs = Some e \<and> implements P (pol_valid_price P l) (eg_book e) A \<and> eg_out e = rs
    \<and> eg_md_q e = (if cf_md_port cfg = 0 then [] else map md_msg evs) \<and> es_responses (eg_stats e) = of_nat (length rs) \<and> eg_cfg e = cfg"
proof -
  obtain e b where e: "engine_new P l cfg = Some e" "reserve_orders P (2 ^ 20) (eg_book e) = Some b"
    and f: "follows_book P (pol_valid_price P l) 0 (e\<lparr>eg_book := b\<rparr>) abook_new"
    and z: "eg_cfg e = cfg" "eg_out e = []" "eg_md_q e = []" "eg_match_number e = 0" "es_responses (eg_stats e) = 0"
    using engine_start [OF assms(1,2)] by blast
  have "0 + length reqs < 2 ^ 32" "abs_serve (pol_valid_price P l) (cf_symbol (eg_cfg (e\<lparr>eg_book := b\<rparr>))) (eg_match_number (e\<lparr>eg_book := b\<rparr>)) reqs abook_new = (rs, evs, A)"
    using assms(3,4) z by simp_all
  from handle_list_spec [OF f this] obtain e' where "handle_list P reqs (e\<lparr>eg_book := b\<rparr>) = Some e'"
    "follows_book P (pol_valid_price P l) (0 + length reqs) e' A" "eg_out e' = eg_out (e\<lparr>eg_book := b\<rparr>) @ rs"
    "eg_md_q e' = eg_md_q (e\<lparr>eg_book := b\<rparr>) @ publish evs (e\<lparr>eg_book := b\<rparr>)"
    "es_responses (eg_stats e') = es_responses (eg_stats (e\<lparr>eg_book := b\<rparr>)) + of_nat (length rs)" "eg_cfg e' = eg_cfg (e\<lparr>eg_book := b\<rparr>)" by blast
  then show ?thesis using e z by (auto simp: serve_new_def match_thread_def follows_book_def publish_def)
qed

text \<open>What the published events leave in a replay.\<close>

lemma serve_tracks:
  assumes "follows_book P W n e A" and "n + length reqs < 2 ^ 32" and "tracks V s A R" and "cf_symbol (eg_cfg e) = s"
    and "\<forall>(ts, req) \<in> set reqs. enters req \<longrightarrow> V (rq_price req)" and "abs_serve W s m reqs A = (rs, evs, A')"
  shows "tracks V s A' (fold (feed_step V) evs R)"
  using assms
proof (induction reqs arbitrary: n e A R m rs evs A')
  case (Cons r reqs)
  obtain ts req where r: "r = (ts, req)" by force
  obtain result B where B: "abs_request W req A = (result, B)" by (metis surj_pair)
  obtain rs1 evs1 A1 where s: "abs_serve W s (m + of_nat (length (fst (snd result)))) reqs B = (rs1, evs1, A1)"
    by (metis prod_cases3)
  have out: "evs = events s ts m req result @ evs1" "A' = A1" using Cons.prems(6) by (simp_all add: r B s)
  have n: "Suc n < 2 ^ 32" "Suc n + length reqs < 2 ^ 32" using Cons.prems(2) by simp_all
  obtain e1 where e1: "follows_book P W (Suc n) e1 B" "eg_cfg e1 = eg_cfg e"
    using handle_spec [OF Cons.prems(1) n(1), of ts req] B by (auto simp: grows_def)
  have "tracks V s B (fold (feed_step V) (events s ts m req result) R)"
    using tracks_request [OF Cons.prems(3) follows_ok [OF Cons.prems(1)], of req ts m] Cons.prems(5) r B by auto
  from Cons.IH [OF e1(1) n(2) this _ _ s] show ?case using Cons.prems(4,5) e1(2) r out by simp
qed simp

subsection \<open>The market-data thread\<close>

lemma blit_length: "blit i xs buf = Some buf' \<Longrightarrow> length buf' = length buf"
  by (auto simp: blit_def split: if_splits)

lemma write_header_keeps:
  assumes "write_header c p = Some p'"
  shows "length (pk_buf p') = length (pk_buf p)" and "pk_session p' = pk_session p" and "pk_count p' = pk_count p"
  using assms by (auto simp: write_header_def split: bind_splits dest!: blit_length)

lemma write_header_count: "write_header c (p\<lparr>pk_count := k\<rparr>) = map_option (\<lambda>p. p\<lparr>pk_count := k\<rparr>) (write_header c p)"
  by (cases p) (simp add: write_header_def map_option_bind comp_def)

text \<open>A packet that carries one event, and the packets of a sequence of events.\<close>

definition event_packet :: "bytes \<Rightarrow> u64 \<Rightarrow> feed_event \<Rightarrow> bytes" where
  "event_packet session sequence ev = session @ put64 sequence @ put16 1 @ blocks [event_message ev]"

fun event_packets :: "bytes \<Rightarrow> u64 \<Rightarrow> feed_event list \<Rightarrow> bytes list" where
  "event_packets session sequence [] = [session @ put64 sequence @ put16 kEndOfSession]"
| "event_packets session sequence (ev # evs) = event_packet session sequence ev # event_packets session (sequence + 1) evs"

lemma event_bounds:
  assumes "symbol_ok ev"
  shows "mold_ok (event_message ev)" and "length (event_message ev) \<le> 50"
  using event_message_length [OF assms] type_length_bounds [of "event_type ev"] by (auto simp: mold_ok_def)

lemma md_msg_content:
  assumes "symbol_ok ev"
  shows "unat (mm_len (md_msg ev)) = length (event_message ev) + 2"
    and "take (length (event_message ev)) (drop 2 (mm_bytes (md_msg ev))) = event_message ev"
proof -
  have f: "length (event_frame ev) = length (event_message ev) + 2" by (simp add: event_frame_def)
  show "unat (mm_len (md_msg ev)) = length (event_message ev) + 2"
  proof -
    have "unat (of_nat k :: u8) = k" if "k < 256" for k using that by (simp add: unsigned_of_nat take_bit_nat_eq_self)
    from this [of "length (event_message ev) + 2"] show ?thesis using event_bounds(2) [OF assms] by (simp add: md_msg_def f)
  qed
  show "take (length (event_message ev)) (drop 2 (mm_bytes (md_msg ev))) = event_message ev"
    by (simp add: md_msg_def event_frame_def)
qed

lemma md_step_event:
  assumes "packer_ok p" and "symbol_ok ev"
  shows "\<exists>p'. md_step (md_msg ev) p sequence = Some (Some (event_packet (pk_session p) sequence ev), p', sequence + 1)
    \<and> packer_ok p' \<and> pk_session p' = pk_session p"
proof -
  let ?m = "event_message ev"
  note c = md_msg_content [OF assms(2)] and b = event_bounds [OF assms(2)]
  have h0: "holds (pk_begin sequence p) (pk_session p) sequence []" using assms(1) by (intro holds_begin) (simp_all add: packer_ok_def)
  have fits: "kHeaderSize + length (blocks ([] @ [?m])) \<le> 1400" using b(2) by (simp add: kHeaderSize_def frame_def)
  have "length ?m < 2 ^ 16" using b(2) by simp
  from holds_add(1) [OF h0 this fits] obtain p1 where p1: "pk_add ?m (pk_begin sequence p) = Some (True, p1)"
    "holds p1 (pk_session p) sequence [?m]" by auto
  obtain p2 where p2: "write_header (pk_count p1) p1 = Some p2" "packet p2 = pk_session p @ put64 sequence @ put16 (pk_count p1) @ blocks [?m]"
    using holds_header [OF p1(2)] by blast
  have k: "pk_count p1 = 1" "length (pk_buf p1) = 1400" "pk_session p1 = pk_session p" "length (pk_session p) = 10"
    using p1(2) by (simp_all add: holds_def)
  note w = write_header_keeps [OF p2(1)]
  have "md_step (md_msg ev) p sequence = Some (Some (event_packet (pk_session p) sequence ev), p2, sequence + 1)"
    using p1(1) p2 k w by (simp add: md_step_def c pk_seal_def event_packet_def)
  moreover have "packer_ok p2" "pk_session p2 = pk_session p" using w k by (simp_all add: packer_ok_def)
  ultimately show ?thesis by blast
qed

lemma md_messages_events:
  assumes "packer_ok p" and "\<forall>ev \<in> set evs. symbol_ok ev"
  shows "\<exists>p' st'. md_messages ok (map md_msg evs) p sequence pkts st
      = Some (p', sequence + of_nat (length evs), pkts @ butlast (event_packets (pk_session p) sequence evs), st')
    \<and> packer_ok p' \<and> pk_session p' = pk_session p"
  using assms
proof (induction evs arbitrary: p sequence pkts st)
  case (Cons ev evs)
  obtain p1 where p1: "md_step (md_msg ev) p sequence = Some (Some (event_packet (pk_session p) sequence ev), p1, sequence + 1)"
    "packer_ok p1" "pk_session p1 = pk_session p" using md_step_event [OF Cons.prems(1), of ev sequence] Cons.prems(2) by auto
  have n: "event_packets S q evs \<noteq> []" for S q by (cases evs) simp_all
  show ?case using Cons.IH [OF p1(2), of "sequence + 1" "pkts @ [event_packet (pk_session p) sequence ev]"
      "if ok (length pkts) then st\<lparr>es_md_datagrams := es_md_datagrams st + 1\<rparr> else st"] Cons.prems(2) p1 n by (auto simp: add.assoc)
qed simp

lemma event_packets_last:
  "butlast (event_packets S q evs) @ [S @ put64 (q + of_nat (length evs)) @ put16 kEndOfSession] = event_packets S q evs"
proof (induction evs arbitrary: q)
  case (Cons ev evs)
  have "event_packets S (q + 1) evs \<noteq> []" by (cases evs) simp_all
  then show ?case using Cons.IH [of "q + 1"] by (simp add: add.assoc)
qed simp

definition md_session :: bytes where
  "md_session = map ch ''PRICETIME ''"

lemma md_loop_events:
  assumes "length junk = 1400" and "\<forall>ev \<in> set evs. symbol_ok ev" and "cf_md_port cfg \<noteq> 0"
  shows "\<exists>st'. md_loop ok cfg junk (map md_msg evs) st = Some (event_packets md_session 1 evs, st')"
proof -
  let ?p = "packer_new junk (map ch ''PRICETIME '')"
  have s: "pk_session ?p = md_session" by (simp add: packer_new_def md_session_def)
  have l: "length md_session = 10" by (simp add: md_session_def)
  obtain p1 st1 where p1: "md_messages ok (map md_msg evs) ?p 1 [] st
      = Some (p1, 1 + of_nat (length evs), butlast (event_packets md_session 1 evs), st1)" "packer_ok p1" "pk_session p1 = md_session"
    using md_messages_events [OF packer_new_ok [OF assms(1)] assms(2), of ok "map ch ''PRICETIME ''" 1 "[]" st] unfolding s by auto
  let ?q = "1 + of_nat (length evs)"
  have "holds (pk_begin ?q p1) md_session ?q []" using holds_begin [of p1 ?q] p1(2,3) by (simp add: packer_ok_def)
  from holds_header [OF this, of kEndOfSession] obtain p2 where p2: "write_header kEndOfSession (pk_begin ?q p1) = Some p2"
    "packet p2 = md_session @ put64 ?q @ put16 kEndOfSession" by auto
  have "pk_begin ?q p1 = (p1\<lparr>pk_len := kHeaderSize, pk_first_seq := ?q\<rparr>)\<lparr>pk_count := 0\<rparr>" by (simp add: pk_begin_def)
  then obtain p3 where p3: "write_header kEndOfSession (p1\<lparr>pk_len := kHeaderSize, pk_first_seq := ?q\<rparr>) = Some p3" "p2 = p3\<lparr>pk_count := 0\<rparr>"
    using p2(1) write_header_count [of kEndOfSession 0 "p1\<lparr>pk_len := kHeaderSize, pk_first_seq := ?q\<rparr>"] by auto
  then have "packet p3 = md_session @ put64 ?q @ put16 kEndOfSession" using p2(2) by (simp add: packet_def)
  then show ?thesis using p1(1) p3(1) assms(3) event_packets_last [of md_session 1 evs]
    by (simp add: md_loop_def seal_end_of_session_def)
qed

end
