(* ===== verification/EngineIo.thy ===== *)
theory EngineIo
  imports Engine
begin

text \<open>
  The framing of the receiving and the sending thread: however the socket cuts the client's bytes, the
  requests pushed are those of the bytes read, and however the queue is popped, the bytes sent are
  those of the responses.
\<close>

subsection \<open>The requests in a byte stream\<close>

text \<open>The requests, the bytes after them and whether these may still become a request.\<close>

function parse_stream :: "bytes \<Rightarrow> Request list \<times> bytes \<times> bool" where
  "parse_stream bs =
     (if length bs \<ge> kMessageSize then
        (case decode_request bs of
           Some (Some req) \<Rightarrow> (let (reqs, tail, ok) = parse_stream (drop kMessageSize bs) in (req # reqs, tail, ok))
         | _ \<Rightarrow> ([], bs, False))
      else ([], bs, True))"
  by pat_completeness auto
termination by (relation "measure length") (auto simp: kMessageSize_def)

declare parse_stream.simps [simp del]

lemma parse_short: "length bs < kMessageSize \<Longrightarrow> parse_stream bs = ([], bs, True)"
  by (simp add: parse_stream.simps)

lemma parse_bad: "length bs \<ge> kMessageSize \<Longrightarrow> decode_request bs = Some None \<Longrightarrow> parse_stream bs = ([], bs, False)"
  by (simp add: parse_stream.simps)

lemma parse_good:
  "length bs \<ge> kMessageSize \<Longrightarrow> decode_request bs = Some (Some req) \<Longrightarrow> parse_stream (drop kMessageSize bs) = (reqs, tail, ok) \<Longrightarrow>
     parse_stream bs = (req # reqs, tail, ok)"
  by (subst parse_stream.simps) simp

lemma stream_cases:
  obtains (short) "length bs < kMessageSize"
  | (bad) "length bs \<ge> kMessageSize" "decode_request bs = Some None"
  | (good) req where "length bs \<ge> kMessageSize" "decode_request bs = Some (Some req)"
proof (cases "length bs < kMessageSize")
  case False
  then obtain o1 where "decode_request bs = Some o1" using decode_inside(1) [of bs] by (auto simp: kMessageSize_def)
  then show thesis using False bad good by (cases o1) auto
qed (rule short)

lemma decode_prefix:
  assumes "length p \<ge> kMessageSize"
  shows "decode_request (p @ ys) = decode_request p"
proof -
  have r: "rd (p @ ys) i = rd p i" if "i < 40" for i using that assms by (simp add: rd_def nth_append kMessageSize_def)
  have "40 \<le> length p" using assms by (simp add: kMessageSize_def)
  then have "get_le32 (p @ ys) 2 = get_le32 p 2" "get_le64 (p @ ys) 6 = get_le64 p 6" "get_le64 (p @ ys) 14 = get_le64 p 14"
    "get_le64 (p @ ys) 22 = get_le64 p 22" "get_le64 (p @ ys) 30 = get_le64 p 30" by (simp_all add: get_le)
  moreover have "rd (p @ ys) 38 = rd p 38" "rd (p @ ys) 39 = rd p 39" "rd (p @ ys) 0 = rd p 0" "rd (p @ ys) 1 = rd p 1" using r by simp_all
  ultimately show ?thesis unfolding decode_request_def by (simp cong: if_cong)
qed

lemma parse_append:
  "parse_stream bs = (reqs, tail, ok) \<Longrightarrow> parse_stream (bs @ cs) =
     (if ok then (let (reqs', tail', ok') = parse_stream (tail @ cs) in (reqs @ reqs', tail', ok')) else (reqs, tail @ cs, False))"
proof (induction bs arbitrary: reqs tail ok rule: measure_induct_rule [of length])
  case (less bs)
  show ?case
  proof (cases bs rule: stream_cases)
    case short
    then show ?thesis using less.prems by (auto simp: parse_short)
  next
    case bad
    then show ?thesis using less.prems decode_prefix [OF bad(1)] parse_bad [of "bs @ cs"] by (auto simp: parse_bad)
  next
    case (good req)
    obtain reqs1 rest1 ok1 where p: "parse_stream (drop kMessageSize bs) = (reqs1, rest1, ok1)" by (metis prod_cases3)
    have q: "reqs = req # reqs1" "tail = rest1" "ok = ok1" using parse_good [OF good p] less.prems by simp_all
    obtain reqs2 rest2 ok2 where p2: "parse_stream (rest1 @ cs) = (reqs2, rest2, ok2)" by (metis prod_cases3)
    have d: "decode_request (bs @ cs) = Some (Some req)" "length (bs @ cs) \<ge> kMessageSize" using good decode_prefix [OF good(1)] by simp_all
    have s: "drop kMessageSize (bs @ cs) = drop kMessageSize bs @ cs" using good(1) by simp
    have "length (drop kMessageSize bs) < length bs" using good(1) by (simp add: kMessageSize_def)
    from less.IH [OF this p] have "parse_stream (drop kMessageSize (bs @ cs)) =
        (if ok1 then (reqs1 @ reqs2, rest2, ok2) else (reqs1, rest1 @ cs, False))" unfolding s by (simp add: p2)
    then show ?thesis using parse_good [OF d(2,1)] q p2 by (cases ok1) simp_all
  qed
qed

lemma parse_leftover: "parse_stream bs = (reqs, tail, True) \<Longrightarrow> length tail < kMessageSize"
proof (induction bs arbitrary: reqs rule: measure_induct_rule [of length])
  case (less bs)
  show ?case
  proof (cases bs rule: stream_cases)
    case short
    then show ?thesis using less.prems by (simp add: parse_short)
  next
    case bad
    then show ?thesis using less.prems by (simp add: parse_bad)
  next
    case (good req)
    obtain reqs1 rest1 ok1 where p: "parse_stream (drop kMessageSize bs) = (reqs1, rest1, ok1)" by (metis prod_cases3)
    have "length (drop kMessageSize bs) < length bs" using good(1) by (simp add: kMessageSize_def)
    then show ?thesis using less.IH [of "drop kMessageSize bs" reqs1] p parse_good [OF good p] less.prems by simp
  qed
qed

text \<open>The requests a client encodes are the requests in its stream, also in the part of it that has arrived.\<close>

lemma parse_encoded:
  assumes "\<forall>r \<in> set reqs. price_fits (rq_price r)"
  shows "\<exists>tail. parse_stream (take n (concat (map encode_request reqs))) = (take (n div kMessageSize) reqs, tail, True)"
  using assms
proof (induction reqs arbitrary: n)
  case Nil
  then show ?case by (simp add: parse_short kMessageSize_def)
next
  case (Cons r reqs)
  let ?bs = "take n (concat (map encode_request (r # reqs)))"
  show ?case
  proof (cases "n < kMessageSize")
    case True
    then have "length ?bs < kMessageSize" "n div kMessageSize = 0" by (auto simp: kMessageSize_def)
    then show ?thesis by (simp add: parse_short)
  next
    case False
    then have n: "n = kMessageSize + (n - kMessageSize)" "40 \<le> n" by (simp_all add: kMessageSize_def)
    have b: "?bs = encode_request r @ take (n - kMessageSize) (concat (map encode_request reqs))"
      using n(2) by (simp add: kMessageSize_def)
    obtain tail where tail: "parse_stream (take (n - kMessageSize) (concat (map encode_request reqs)))
        = (take ((n - kMessageSize) div kMessageSize) reqs, tail, True)" using Cons by fastforce
    have "decode_request ?bs = Some (Some r)" unfolding b using decode_encode(1) Cons.prems by simp
    moreover have "length ?bs \<ge> kMessageSize" unfolding b by (simp add: kMessageSize_def)
    moreover have "drop kMessageSize ?bs = take (n - kMessageSize) (concat (map encode_request reqs))" unfolding b by (simp add: kMessageSize_def)
    moreover have "n div kMessageSize = Suc ((n - kMessageSize) div kMessageSize)"
      using False by (simp add: le_div_geq kMessageSize_def)
    ultimately show ?thesis using parse_good tail by fastforce
  qed
qed

subsection \<open>The receiving thread\<close>

lemma parse_loop_stream:
  assumes "off \<le> have1" and "have1 \<le> length buf"
  shows "\<exists>off' new alive. parse_loop buf have1 off reqs = Some (off', reqs @ new, alive) \<and> off' \<le> have1
    \<and> parse_stream (drop off (take have1 buf)) = (new, drop off' (take have1 buf), alive)"
  using assms(1)
proof (induction "have1 - off" arbitrary: off reqs rule: less_induct)
  case less
  let ?bs = "drop off (take have1 buf)"
  have l: "length ?bs = have1 - off" using assms(2) less.prems by simp
  have d: "drop off buf = ?bs @ drop have1 buf" using less.prems by (metis append_take_drop_id drop_append drop_eq_Nil2 length_take min.absorb2 assms(2) drop_0 diff_is_0_eq)
  show ?case
  proof (cases ?bs rule: stream_cases)
    case short
    then show ?thesis using l less.prems
      by (subst parse_loop.simps, intro exI [of _ off] exI [of _ "[]"] exI [of _ True]) (simp add: parse_short)
  next
    case bad
    then have "decode_request (drop off buf) = Some None" unfolding d by (simp add: decode_prefix)
    then show ?thesis using l less.prems bad
      by (subst parse_loop.simps, intro exI [of _ off] exI [of _ "[]"] exI [of _ False]) (simp add: parse_bad)
  next
    case (good req)
    then have dec: "decode_request (drop off buf) = Some (Some req)" unfolding d by (simp add: decode_prefix)
    have o1: "off + kMessageSize \<le> have1" "have1 - (off + kMessageSize) < have1 - off" using good(1) l by (simp_all add: kMessageSize_def)
    obtain off' new alive where IH: "parse_loop buf have1 (off + kMessageSize) (reqs @ [req]) = Some (off', (reqs @ [req]) @ new, alive)" "off' \<le> have1"
      "parse_stream (drop (off + kMessageSize) (take have1 buf)) = (new, drop off' (take have1 buf), alive)"
      using less.hyps [OF o1(2,1)] by blast
    have "parse_stream (drop kMessageSize ?bs) = (new, drop off' (take have1 buf), alive)" using IH(3) by (simp add: add.commute)
    from parse_good [OF good this] show ?thesis using IH(1,2) good(1) l dec by (subst parse_loop.simps) simp
  qed
qed

lemma recv_loop_stream:
  assumes "length buf = kBufferSize" and "parse_stream read = (reqs, take have1 buf, True)" and "have1 < kMessageSize"
  shows "\<exists>n new tail ok. recv_loop sizes stream buf have1 reqs st = Some (reqs @ new,
      st\<lparr>es_requests := es_requests st + of_nat (length new), es_desyncs := es_desyncs st + (if ok then 0 else 1)\<rparr>, drop n stream)
    \<and> n \<le> length stream \<and> parse_stream (read @ take n stream) = (reqs @ new, tail, ok)"
  using assms
proof (induction sizes arbitrary: stream buf have1 reqs st read)
  case Nil
  then show ?case by (intro exI [of _ 0] exI [of _ "[]"] exI [of _ "take have1 buf"] exI [of _ True]) simp
next
  case (Cons m sizes)
  define n where "n = min m (min (length buf - have1) (length stream))"
  have big: "have1 < length buf" using Cons.prems(1,3) by (simp add: kBufferSize_def kMessageSize_def)
  show ?case
  proof (cases "n = 0")
    case True
    then show ?thesis using Cons.prems(2) n_def
      by (intro exI [of _ 0] exI [of _ "[]"] exI [of _ "take have1 buf"] exI [of _ True]) simp
  next
    case False
    let ?x = "take n stream"
    have n: "length ?x = n" "have1 + n \<le> length buf" "n \<le> length stream" using big by (auto simp: n_def)
    define buf1 where "buf1 = take have1 buf @ ?x @ drop (have1 + n) buf"
    have b1: "blit have1 ?x buf = Some buf1" "length buf1 = kBufferSize" "take (have1 + n) buf1 = take have1 buf @ ?x"
      using n Cons.prems(1) by (simp_all add: blit_def buf1_def)
    obtain off new alive where p: "parse_loop buf1 (have1 + n) 0 [] = Some (off, new, alive)" "off \<le> have1 + n"
      "parse_stream (take have1 buf @ ?x) = (new, drop off (take have1 buf @ ?x), alive)"
      using parse_loop_stream [of 0 "have1 + n" buf1 "[]"] n(2) b1 Cons.prems(1) by auto
    have all: "parse_stream (read @ ?x) = (reqs @ new, drop off (take have1 buf @ ?x), alive)"
      using parse_append [OF Cons.prems(2), of ?x] p(3) by simp
    define buf2 where "buf2 = (if off > 0 \<and> off < have1 + n then take (have1 + n - off) (drop off buf1) @ drop (have1 + n - off) buf1 else buf1)"
    have b2: "length buf2 = kBufferSize" "take (have1 + n - off) buf2 = drop off (take have1 buf @ ?x)"
    proof -
      have l: "have1 + n \<le> length buf1" using n(2) b1(2) Cons.prems(1) by simp
      then show "length buf2 = kBufferSize" using b1(2) p(2) by (auto simp: buf2_def)
      let ?front = "take (have1 + n - off) (drop off buf1)"
      have "?front = drop off (take (have1 + n) buf1)" by (simp add: drop_take)
      moreover have "take (have1 + n - off) buf2 = ?front"
      proof (cases "off > 0 \<and> off < have1 + n")
        case True
        have "length ?front = have1 + n - off" using l by simp
        then have "take (have1 + n - off) (?front @ ys) = ?front" for ys by (metis append_eq_conv_conj)
        then show ?thesis unfolding buf2_def if_P [OF True] .
      next
        case False
        then have "off = 0 \<or> have1 + n - off = 0" by auto
        then show ?thesis using False by (auto simp: buf2_def)
      qed
      ultimately show "take (have1 + n - off) buf2 = drop off (take have1 buf @ ?x)" unfolding b1(3) by simp
    qed
    let ?st = "st\<lparr>es_requests := es_requests st + of_nat (length new)\<rparr>"
    have step: "recv_loop (m # sizes) stream buf have1 reqs st =
        (if alive then recv_loop sizes (drop n stream) buf2 (have1 + n - off) (reqs @ new) ?st
         else Some (reqs @ new, ?st\<lparr>es_desyncs := es_desyncs ?st + 1\<rparr>, drop n stream))"
      unfolding recv_loop.simps n_def [symmetric] Let_def using False b1(1) p(1) by (simp add: buf2_def)
    show ?thesis
    proof (cases alive)
      case False
      then show ?thesis using step all n(3) by (intro exI [of _ n] exI [of _ new] exI [of _ "drop off (take have1 buf @ ?x)"] exI [of _ False]) simp
    next
      case True
      have "parse_stream (read @ ?x) = (reqs @ new, take (have1 + n - off) buf2, True)" using all True b2(2) by simp
      moreover have "have1 + n - off < kMessageSize"
      proof -
        have "length (take (have1 + n - off) buf2) = have1 + n - off" using b2(1) n(2) Cons.prems(1) by simp
        then show ?thesis using parse_leftover [OF calculation] by simp
      qed
      ultimately obtain k new2 tail ok where r: "recv_loop sizes (drop n stream) buf2 (have1 + n - off) (reqs @ new) ?st = Some ((reqs @ new) @ new2,
          ?st\<lparr>es_requests := es_requests ?st + of_nat (length new2), es_desyncs := es_desyncs ?st + (if ok then 0 else 1)\<rparr>, drop k (drop n stream))"
        "k \<le> length (drop n stream)" "parse_stream ((read @ ?x) @ take k (drop n stream)) = ((reqs @ new) @ new2, tail, ok)"
        using Cons.IH [OF b2(1)] by blast
      have "take n stream @ take k (drop n stream) = take (n + k) stream" by (simp add: take_add)
      then show ?thesis using step True r n(3)
        by (intro exI [of _ "n + k"] exI [of _ "new @ new2"] exI [of _ tail] exI [of _ ok]) (simp add: add.commute add.left_commute)
    qed
  qed
qed

subsection \<open>The sending thread\<close>

text \<open>The responses that successive \<^verbatim>\<open>try_pop\<close>s delivered.\<close>

fun popped :: "Response option list \<Rightarrow> Response list" where
  "popped [] = []"
| "popped (None # pops) = popped pops"
| "popped (Some r # pops) = r # popped pops"

lemma kBufferSize_eq: "kBufferSize = 40 * 256"
  by (simp add: kBufferSize_def kMessageSize_def)

lemma gather_sends:
  assumes "gather resp buf pops = (buf', pops')" and "length buf = 40 * k" and "k < 256"
  shows "buf' @ concat (map encode_response (popped pops')) = buf @ concat (map encode_response (resp # popped pops))
    \<and> (\<exists>k'. length buf' = 40 * k' \<and> 0 < k' \<and> k' \<le> 256)"
  using assms
proof (induction resp buf pops arbitrary: k rule: gather.induct)
  case (1 resp buf)
  then show ?case by (auto intro!: exI [of _ "Suc k"])
next
  case (2 resp buf pops)
  then show ?case by (auto simp: Let_def split: if_splits intro!: exI [of _ "Suc k"])
next
  case (3 resp buf resp2 pops)
  have l: "length (buf @ encode_response resp) = 40 * Suc k" using 3 by simp
  show ?case
  proof (cases "kBufferSize \<le> length (buf @ encode_response resp)")
    case True
    then show ?thesis using 3 l by (auto simp: Let_def intro!: exI [of _ "Suc k"])
  next
    case False
    then have "Suc k < 256" using l by (simp add: kBufferSize_eq)
    moreover have "gather resp2 (buf @ encode_response resp) pops = (buf', pops')" using 3 False by (simp add: Let_def)
    ultimately show ?thesis using "3.IH" [OF refl False _ l] by simp
  qed
qed

lemma send_loop_sends:
  "concat (send_loop (\<lambda>_. True) i pops) = concat (map encode_response (popped pops))
   \<and> (\<forall>buf \<in> set (send_loop (\<lambda>_. True) i pops). \<exists>k. length buf = 40 * k \<and> 0 < k \<and> k \<le> 256)"
proof (induction pops arbitrary: i rule: measure_induct_rule [of length])
  case (less pops)
  show ?case
  proof (cases pops)
    case (Cons o1 ps)
    show ?thesis
    proof (cases o1)
      case None
      then show ?thesis using less.IH [of ps i] Cons by simp
    next
      case (Some resp)
      obtain buf ps' where g: "gather resp [] ps = (buf, ps')" by force
      have "length ps' < length pops" using gather_shorter [of resp "[]" ps] g Cons by simp
      then have IH: "concat (send_loop (\<lambda>_. True) (Suc i) ps') = concat (map encode_response (popped ps'))"
        "\<forall>buf \<in> set (send_loop (\<lambda>_. True) (Suc i) ps'). \<exists>k. length buf = 40 * k \<and> 0 < k \<and> k \<le> 256" using less.IH by blast+
      have "send_loop (\<lambda>_. True) i pops = buf # send_loop (\<lambda>_. True) (Suc i) ps'" using Cons Some g by simp
      then show ?thesis using IH gather_sends [OF g, of 0] Cons Some by simp
    qed
  qed simp
qed

end
