(* ===== verification/EngineProperties.thy ===== *)
theory EngineProperties
  imports EngineRun EngineIo
begin

text \<open>
  The properties of the engine: a session's responses and counters, the feed a receiver can rebuild
  the book from, and the framing done by the receiving and sending threads.
\<close>

subsection \<open>Receiving the feed\<close>

text \<open>
  A receiver of the packets: every packet is unpacked and accounted for until the end of the session.  The
  result says whether the end was seen; a packet that does not unpack is \<^term>\<open>None\<close>.
\<close>

fun receive :: "'s mold_handler \<Rightarrow> bytes list \<Rightarrow> GapTracker \<times> 's \<Rightarrow> (bool \<times> GapTracker \<times> 's) option" where
  "receive h [] (g, s) = Some (False, g, s)"
| "receive h (pkt # pkts) (g, s) = do {
     (ok, hdr, s) \<leftarrow> unpack pkt header_default h s;
     if \<not> ok then None
     else
       (let g = snd (on_packet hdr g)
        in if hd_count hdr = kEndOfSession then Some (True, g, s) else receive h pkts (g, s)) }"

lemma gap_next:
  assumes "gt_started g \<Longrightarrow> gt_next g = q" and "gt_total_missed g = 0"
  shows "gt_total_missed (snd (on_packet \<lparr>hd_session = S, hd_sequence = q, hd_count = c\<rparr> g)) = 0"
    and "c \<noteq> kHeartbeat \<Longrightarrow> c \<noteq> kEndOfSession \<Longrightarrow> gt_next (snd (on_packet \<lparr>hd_session = S, hd_sequence = q, hd_count = c\<rparr> g)) = q + ucast c"
  using assms by (cases "gt_started g"; simp add: on_packet_def Let_def)+

lemma receive_events:
  assumes "length S = 10" and "\<forall>ev \<in> set evs. symbol_ok ev" and "gt_started g \<Longrightarrow> gt_next g = q" and "gt_total_missed g = 0"
    and "handle_all f (map event_message evs) s = Some s'"
  shows "\<exists>g'. receive (\<lambda>q m. f m (length m)) (event_packets S q evs) (g, s) = Some (True, g', s') \<and> gt_total_missed g' = 0"
  using assms(2-5)
proof (induction evs arbitrary: q g s)
  case Nil
  have "unpack (S @ put64 q @ put16 kEndOfSession) header_default h s = Some (True, \<lparr>hd_session = S @ [0], hd_sequence = q, hd_count = kEndOfSession\<rparr>, s)" for h
    using unpack_fields [OF assms(1), of q kEndOfSession "[]"] by (simp add: Let_def)
  then show ?case using Nil gap_next(1) [OF Nil.prems(2,3)] by simp
next
  case (Cons ev evs)
  have m: "mold_ok (event_message ev)" using event_bounds(1) Cons.prems(1) by simp
  obtain s1 where s1: "f (event_message ev) (length (event_message ev)) s = Some s1" "handle_all f (map event_message evs) s1 = Some s'"
    using Cons.prems(4) by (auto split: bind_splits)
  have u: "unpack (event_packet S q ev) header_default (\<lambda>q m. f m (length m)) s = Some (True, \<lparr>hd_session = S @ [0], hd_sequence = q, hd_count = 1\<rparr>, s1)"
    using unpack_packet [OF assms(1), of "[event_message ev]" q header_default "\<lambda>q m. f m (length m)" s] m s1(1) by (simp add: event_packet_def)
  let ?g = "snd (on_packet \<lparr>hd_session = S @ [0], hd_sequence = q, hd_count = 1\<rparr> g)"
  have one: "(1 :: u16) \<noteq> kEndOfSession" "(1 :: u16) \<noteq> kHeartbeat" by (simp_all add: kEndOfSession_def kHeartbeat_def)
  have "gt_total_missed ?g = 0" "gt_next ?g = q + 1" using gap_next [OF Cons.prems(2,3)] one by simp_all
  then show ?case using Cons.IH [of ?g "q + 1", OF _ _ _ s1(2)] Cons.prems(1) u one by (simp add: Let_def)
qed

subsection \<open>Replaying the feed\<close>

lemma replay_messages:
  assumes "lawful P l" and "replayed P l k R A" and "k + length ms < 2 ^ 30" and "\<forall>m \<in> set ms. message_ok m"
  shows "\<exists>R' A'. handle_all (replay_apply P l) ms R = Some R' \<and> handle_all (abs_apply (pol_valid_price P l)) ms A = Some A'
    \<and> replayed P l (k + length ms) R' A'"
  using assms(2-4)
proof (induction ms arbitrary: k R A)
  case (Cons m ms)
  have k: "k < 2 ^ 30" using Cons.prems(2) by simp
  obtain R1 A1 where 1: "replay_apply P l m (length m) R = Some R1" "abs_apply (pol_valid_price P l) m (length m) A = Some A1" "replayed P l (Suc k) R1 A1"
    using replay_message [OF assms(1) _ Cons.prems(1) k, of m "length m"] Cons.prems(3) by auto
  then show ?case using Cons.IH [OF 1(3)] Cons.prems(2,3) by simp
qed auto

lemma events_ok:
  assumes "length s = 8" and "enters req \<Longrightarrow> wire_price (rq_price req)"
  shows "\<forall>ev \<in> set (events s ts m req result). event_ok ev"
proof -
  have z: "wire_price 0" by (simp add: wire_price_def)
  have f: "\<forall>ev \<in> set (fill_events ts m xs). event_ok ev" for m xs
    by (induction xs arbitrary: m) (simp_all add: event_ok_def symbol_ok_def z)
  obtain r xs removed where x: "result = (r, xs, removed)" by (metis prod_cases3)
  have "\<forall>ev \<in> set (head_events ts req r removed). event_ok ev" by (simp add: head_events_def event_ok_def symbol_ok_def z)
  moreover have "\<forall>ev \<in> set (rest_events s ts req r q). event_ok ev" for q
    using assms by (simp add: rest_events_def event_ok_def symbol_ok_def z enters_def Let_def)
  ultimately show ?thesis using f by (auto simp: events_def x)
qed

lemma serve_events_ok:
  assumes "length s = 8" and "\<forall>(ts, req) \<in> set reqs. enters req \<longrightarrow> wire_price (rq_price req)" and "abs_serve V s m reqs A = (rs, evs, A')"
  shows "\<forall>ev \<in> set evs. event_ok ev"
  using assms(2,3)
proof (induction reqs arbitrary: m A rs evs A')
  case (Cons r reqs)
  obtain ts req where r: "r = (ts, req)" by force
  obtain result B where B: "abs_request V req A = (result, B)" by (metis surj_pair)
  obtain rs1 evs1 A1 where s: "abs_serve V s (m + of_nat (length (fst (snd result)))) reqs B = (rs1, evs1, A1)" by (metis prod_cases3)
  have "evs = events s ts m req result @ evs1" using Cons.prems(2) by (simp add: r B s)
  then show ?case using Cons.IH [OF _ s] Cons.prems(1) events_ok [OF assms(1), of req ts m result] r by auto
qed simp

lemma abs_hash_levels: "ab_levels A = ab_levels B \<Longrightarrow> abs_hash A = abs_hash B"
  by (simp add: abs_hash_def abs_hash_side_def)

lemma mirrored_book:
  assumes r: "replayed P l k R M" and m: "mirrors V s (flats A) M" and i: "implements Q W b A"
  shows "\<forall>t. replayed_orders P s t (rp_books R) = resting Q t b"
    and "\<forall>c. mb_find s (rp_books R) = Some c \<longrightarrow> state_hash P c = state_hash Q b"
proof -
  have ms: "multi_sim P l (3 * k) (rp_books R) (rp_books M)" using r rp_simD [of P l "3 * k" R M] by (simp add: replayed_def)
  have f: "flats (fst (am_book s (rp_books M))) = flats A" "shape_ok (fst (am_book s (rp_books M)))"
    using m shape_of by (auto simp: mirrors_def)
  have sA: "shape_ok A" using implementsD(8) [OF i] by (rule shape_of)
  have lv: "ab_levels (fst (am_book s (rp_books M))) = ab_levels A" by (rule flats_determine [OF f(2) sA f(1)])
  have "(\<forall>t. replayed_orders P s t (rp_books R) = resting Q t b) \<and> (\<forall>c. mb_find s (rp_books R) = Some c \<longrightarrow> state_hash P c = state_hash Q b)"
  proof (cases "map_of (am_books (rp_books M)) s")
    case None
    then have "mb_find s (rp_books R) = None"
      using multi_symbols [OF ms] unfolding mb_symbols_def mb_find_def map_of_eq_None_iff by (metis list.set_map)
    moreover have "ab_levels A t = []" for t using fun_cong [OF lv, of t] None by (simp add: am_book_def abook_new_def)
    ultimately show ?thesis by (simp add: replayed_orders_def implementsD(3) [OF i])
  next
    case (Some C)
    then have C: "ab_levels C = ab_levels A" using lv by (simp add: am_book_def)
    obtain c where c: "mb_find s (rp_books R) = Some c" "implements P (pol_valid_price P l) c C" using mb_find_sim [OF ms Some] by blast
    then show ?thesis using implementsD(1,3) [OF c(2)] implementsD(1,3) [OF i] C abs_hash_levels [OF C] by (simp add: replayed_orders_def)
  qed
  then show "\<forall>t. replayed_orders P s t (rp_books R) = resting Q t b"
    and "\<forall>c. mb_find s (rp_books R) = Some c \<longrightarrow> state_hash P c = state_hash Q b" by blast+
qed

text \<open>The engine takes any price of the 64 bits of the client protocol, while a price of the feed has 32: orders whose prices differ by
  \<open>2 ^ 32\<close> look the same there.\<close>

lemma feed_truncates_prices: "write_add_order ts ref side shares stock (price + 2 ^ 32) w = write_add_order ts ref side shares stock price w"
proof -
  have "(word_of_int (price + 2 ^ 32) :: u32) = word_of_int price" by simp
  then show ?thesis by (simp only: write_add_order_def put_price_def)
qed

text \<open>C3: As long as the prices entered fit the 32 bits of a price of the feed (for others see \<open>feed_truncates_prices\<close>), the feed says everything the book does: the packets the market-data thread makes of a session's messages unpack without a gap up to the end of the session, and a replay of their messages ends with the resting orders of the engine's own book, in the engine's own priority, and with its state hash.  The prices entered have to be valid for the replaying ladder as well, and a session has fewer than \<open>2 ^ 32\<close> requests and \<open>2 ^ 30\<close> feed messages.\<close>

theorem feed_integrity:
  assumes "lawful P l" and "lawful Q k" and "length (cf_symbol cfg) = 8" and "cf_md_port cfg \<noteq> 0" and "length reqs < 2 ^ 32"
    and "\<forall>(ts, req) \<in> set reqs. enters req \<longrightarrow> wire_price (rq_price req) \<and> pol_valid_price Q k (rq_price req)"
    and "serve_new P l cfg reqs = Some e" and "length (eg_md_q e) < 2 ^ 30" and "length junk = 1400"
  shows "\<exists>pkts st M g R. md_loop ok cfg junk (eg_md_q e) (eg_stats e) = Some (pkts, st) \<and> mb_new = Some M
    \<and> receive (\<lambda>q m. replay_apply Q k m (length m)) pkts (tracker_new, replayer_new M) = Some (True, g, R)
    \<and> gt_total_missed g = 0
    \<and> (\<forall>t. replayed_orders Q (cf_symbol cfg) t (rp_books R) = resting P t (eg_book e))
    \<and> (\<forall>c. mb_find (cf_symbol cfg) (rp_books R) = Some c \<longrightarrow> state_hash Q c = state_hash P (eg_book e))"
proof -
  let ?V = "pol_valid_price Q k" and ?s = "cf_symbol cfg"
  obtain rs evs A where s: "abs_serve (pol_valid_price P l) ?s 0 reqs abook_new = (rs, evs, A)" by (metis prod_cases3)
  have e: "implements P (pol_valid_price P l) (eg_book e) A" "eg_md_q e = map md_msg evs"
    using serve_new_spec [OF assms(1,3,5) s] assms(4,7) by auto
  have ok: "\<forall>ev \<in> set evs. event_ok ev" using serve_events_ok [OF assms(3) _ s] assms(6) by fastforce
  then have sok: "\<forall>ev \<in> set evs. symbol_ok ev" by (simp add: event_ok_def)
  obtain st where st: "md_loop ok cfg junk (map md_msg evs) (eg_stats e) = Some (event_packets md_session 1 evs, st)"
    using md_loop_events [OF assms(9) sok assms(4)] by blast
  obtain M where M: "mb_new = Some M" "multi_sim Q k 0 M amulti_new" using mb_new_sim [of Q k] by auto
  have r0: "replayed Q k 0 (replayer_new M) (replayer_new amulti_new)"
    using M(2) by (simp add: replayed_def rp_sim_def replayer_new_def owners_ok_def amulti_new_def)
  have "0 + length (map event_message evs) < 2 ^ 30" "\<forall>m \<in> set (map event_message evs). message_ok m"
    using assms(8) e(2) sok event_message_ok by auto
  from replay_messages [OF assms(2) r0 this] obtain R N where R: "handle_all (replay_apply Q k) (map event_message evs) (replayer_new M) = Some R"
    "handle_all (abs_apply ?V) (map event_message evs) (replayer_new amulti_new) = Some N" "replayed Q k (length evs) R N" by auto
  have N: "N = fold (feed_step ?V) evs (replayer_new amulti_new)" using handle_written [OF ok, of ?V "replayer_new amulti_new"] R(2) by simp
  obtain e0 b where f: "follows_book P (pol_valid_price P l) 0 (e0\<lparr>eg_book := b\<rparr>) abook_new" "eg_cfg e0 = cfg"
    using engine_start [OF assms(1,3)] by blast
  have t0: "tracks ?V ?s abook_new (replayer_new amulti_new)"
    using tracks_new [of ?V ?s] by (simp add: track_only_def replayer_new_def)
  have "0 + length reqs < 2 ^ 32" "cf_symbol (eg_cfg (e0\<lparr>eg_book := b\<rparr>)) = ?s" "\<forall>(ts, req) \<in> set reqs. enters req \<longrightarrow> ?V (rq_price req)"
    using assms(5,6) f(2) by auto
  from serve_tracks [OF f(1) this(1) t0 this(2,3) s] have "tracks ?V ?s A N" unfolding N .
  then have m: "mirrors ?V ?s (flats A) N" by (simp add: tracks_def)
  have l: "length md_session = 10" "gt_started tracker_new \<Longrightarrow> gt_next tracker_new = 1" "gt_total_missed tracker_new = 0"
    by (simp_all add: md_session_def tracker_new_def)
  obtain g where "receive (\<lambda>q m. replay_apply Q k m (length m)) (event_packets md_session 1 evs) (tracker_new, replayer_new M) = Some (True, g, R)"
    "gt_total_missed g = 0" using receive_events [OF l(1) sok l(2,3) R(1)] by blast
  then show ?thesis using st M(1) e(2) mirrored_book [OF R(3) m e(1)] by auto
qed

subsection \<open>A session\<close>

text \<open>C4: Serving a sequence of requests on a new engine never fails: every request is answered with exactly the responses the specification gives for it (its acknowledgement, then two reports per execution), in order, the response counter counts them, the messages queued for the feed are those of the specification's events, and the book ends with the orders, counters and hash of the specification book.\<close>

theorem session_follows_spec:
  assumes "lawful P l" and "length (cf_symbol cfg) = 8" and "length reqs < 2 ^ 32"
  shows "case abs_serve (pol_valid_price P l) (cf_symbol cfg) 0 reqs abook_new of (rs, evs, A) \<Rightarrow>
    \<exists>e. serve_new P l cfg reqs = Some e \<and> eg_out e = rs \<and> es_responses (eg_stats e) = of_nat (length rs)
      \<and> eg_md_q e = (if cf_md_port cfg = 0 then [] else map md_msg evs)
      \<and> (\<forall>t. resting P t (eg_book e) = Some (flat (ab_levels A t))) \<and> bk_counters (eg_book e) = ab_counters A
      \<and> state_hash P (eg_book e) = Some (abs_hash A)"
proof -
  obtain rs evs A where s: "abs_serve (pol_valid_price P l) (cf_symbol cfg) 0 reqs abook_new = (rs, evs, A)" by (metis prod_cases3)
  obtain e where e: "serve_new P l cfg reqs = Some e" "implements P (pol_valid_price P l) (eg_book e) A" "eg_out e = rs"
    "eg_md_q e = (if cf_md_port cfg = 0 then [] else map md_msg evs)" "es_responses (eg_stats e) = of_nat (length rs)"
    using serve_new_spec [OF assms s] by blast
  then show ?thesis unfolding s prod.case using implementsD(1,3,5) [OF e(2)] by blast
qed

subsection \<open>Bytes in, bytes out\<close>

text \<open>C35: Whatever pieces the socket delivers the client's bytes in, the receiving thread never fails, pushes exactly the requests of the bytes it has read, cut every 40 bytes, and drops the session at the first frame without the tag; when the bytes are encoded requests it pushes a prefix of these, all of them once all bytes are read, and never reports a lost frame.\<close>

theorem receiving_ignores_chunks:
  assumes "length buf = kBufferSize"
  shows "\<exists>n reqs tail ok. recv_loop sizes stream buf 0 [] st = Some (reqs,
      st\<lparr>es_requests := es_requests st + of_nat (length reqs), es_desyncs := es_desyncs st + (if ok then 0 else 1)\<rparr>, drop n stream)
    \<and> n \<le> length stream \<and> parse_stream (take n stream) = (reqs, tail, ok)
    \<and> (\<forall>sent. stream = concat (map encode_request sent) \<longrightarrow> (\<forall>r \<in> set sent. price_fits (rq_price r)) \<longrightarrow>
        reqs = take (n div kMessageSize) sent \<and> ok)"
proof -
  have "parse_stream [] = ([], take 0 buf, True)" "0 < kMessageSize" by (simp_all add: parse_short kMessageSize_def)
  from recv_loop_stream [OF assms this] obtain n new tail ok where r: "recv_loop sizes stream buf 0 [] st = Some (new,
      st\<lparr>es_requests := es_requests st + of_nat (length new), es_desyncs := es_desyncs st + (if ok then 0 else 1)\<rparr>, drop n stream)"
    "n \<le> length stream" "parse_stream (take n stream) = (new, tail, ok)" by fastforce
  have "new = take (n div kMessageSize) sent \<and> ok" if "stream = concat (map encode_request sent)" "\<forall>r \<in> set sent. price_fits (rq_price r)" for sent
    using parse_encoded [OF that(2), of n] r(3) unfolding that(1) by auto
  then show ?thesis using r by blast
qed

text \<open>Whatever the sending thread finds when it pops its queue, while the client is there the bytes it sends are those of the encoded responses it popped, in order and each once, in buffers of whole messages that never exceed the array.\<close>

theorem sending_coalesces_exactly:
  "concat (send_loop (\<lambda>_. True) 0 pops) = concat (map encode_response (popped pops))
   \<and> (\<forall>buf \<in> set (send_loop (\<lambda>_. True) 0 pops). kMessageSize dvd length buf \<and> buf \<noteq> [] \<and> length buf \<le> kBufferSize)"
proof -
  have "kMessageSize dvd length buf \<and> buf \<noteq> [] \<and> length buf \<le> kBufferSize" if "length buf = 40 * k" "0 < k" "k \<le> 256" for buf :: bytes and k
    using that by (auto simp: kBufferSize_eq kMessageSize_def)
  then show ?thesis using send_loop_sends [of 0 pops] by blast
qed

subsection \<open>Witnesses\<close>

definition sample_config :: Config where
  "sample_config = \<lparr>cf_md_port = 9001, cf_queue_capacity = 4096, cf_symbol = symbol_of [84, 69, 83, 84]\<rparr>"

definition sample_requests :: "(u64 \<times> Request) list" where
  "sample_requests = [(1, \<lparr>rq_kind = 69, rq_side = Bid, rq_qty = 100, rq_price = 5000, rq_id = 7, rq_new_id = 0, rq_client_ts = 11\<rparr>),
     (2, \<lparr>rq_kind = 69, rq_side = Ask, rq_qty = 40, rq_price = 4990, rq_id = 8, rq_new_id = 0, rq_client_ts = 12\<rparr>)]"

lemma map_open_valid: "pol_valid_price map_open_policy ml_new = (\<lambda>_. True)"
  by (simp add: policy_defs ml_valid_price_def fun_eq_iff)

lemma sample_serve:
  "\<exists>rs evs A. abs_serve (\<lambda>_. True) (cf_symbol sample_config) 0 sample_requests abook_new = (rs, evs, A) \<and> length rs = 4 \<and> length evs = 2
    \<and> flat (ab_levels A Bid) = [(5000, \<lparr>en_id = 7, en_qty = 60, en_owner = 0\<rparr>)]"
  by (simp add: sample_requests_def abs_request_def req_char.simps ch_def responses_def ack_def fill_reports_def events_def
      head_events_def rest_events_def filled_qty_def abs_eval split_beta)

theorem session_follows_spec_witness:
  "\<exists>e. serve_new map_open_policy ml_new sample_config sample_requests = Some e \<and> length (eg_out e) = 4 \<and> length (eg_md_q e) = 2
    \<and> resting map_open_policy Bid (eg_book e) = Some [(5000, \<lparr>en_id = 7, en_qty = 60, en_owner = 0\<rparr>)]"
proof -
  obtain rs evs A where s: "abs_serve (\<lambda>_. True) (cf_symbol sample_config) 0 sample_requests abook_new = (rs, evs, A)" "length rs = 4" "length evs = 2"
    "flat (ab_levels A Bid) = [(5000, \<lparr>en_id = 7, en_qty = 60, en_owner = 0\<rparr>)]" using sample_serve by blast
  have "length (cf_symbol sample_config) = 8" "length sample_requests < 2 ^ 32" "cf_md_port sample_config \<noteq> 0"
    by (simp_all add: sample_config_def sample_requests_def)
  then show ?thesis using session_follows_spec [OF lawful_policies(2), of sample_config sample_requests] s
    unfolding map_open_valid by auto
qed

theorem feed_integrity_witness:
  "\<exists>e pkts st M g R. serve_new map_open_policy ml_new sample_config sample_requests = Some e
    \<and> md_loop (\<lambda>_. True) sample_config (replicate 1400 0) (eg_md_q e) (eg_stats e) = Some (pkts, st) \<and> mb_new = Some M
    \<and> receive (\<lambda>q m. replay_apply map_std_policy ml_new m (length m)) pkts (tracker_new, replayer_new M) = Some (True, g, R)
    \<and> replayed_orders map_std_policy (cf_symbol sample_config) Bid (rp_books R) = Some [(5000, \<lparr>en_id = 7, en_qty = 60, en_owner = 0\<rparr>)]"
proof -
  obtain rs evs A where s: "abs_serve (\<lambda>_. True) (cf_symbol sample_config) 0 sample_requests abook_new = (rs, evs, A)" "length evs = 2"
    "flat (ab_levels A Bid) = [(5000, \<lparr>en_id = 7, en_qty = 60, en_owner = 0\<rparr>)]" using sample_serve by blast
  have c: "length (cf_symbol sample_config) = 8" "length sample_requests < 2 ^ 32" "cf_md_port sample_config \<noteq> 0"
    by (simp_all add: sample_config_def sample_requests_def)
  from serve_new_spec [OF lawful_policies(2) c(1,2)] s(1) obtain e where e: "serve_new map_open_policy ml_new sample_config sample_requests = Some e"
    "implements map_open_policy (\<lambda>_. True) (eg_book e) A" "eg_md_q e = map md_msg evs" unfolding map_open_valid using c(3) by auto
  have p: "\<forall>(ts, req) \<in> set sample_requests. enters req \<longrightarrow> wire_price (rq_price req) \<and> pol_valid_price map_std_policy ml_new (rq_price req)"
    by (simp add: sample_requests_def wire_price_def map_std_valid)
  have l: "length (eg_md_q e) < 2 ^ 30" "length (replicate 1400 (0 :: u8)) = 1400" using e(3) s(2) by simp_all
  obtain pkts st M g R where r: "md_loop (\<lambda>_. True) sample_config (replicate 1400 0) (eg_md_q e) (eg_stats e) = Some (pkts, st)" "mb_new = Some M"
    "receive (\<lambda>q m. replay_apply map_std_policy ml_new m (length m)) pkts (tracker_new, replayer_new M) = Some (True, g, R)"
    "\<forall>t. replayed_orders map_std_policy (cf_symbol sample_config) t (rp_books R) = resting map_open_policy t (eg_book e)"
    using feed_integrity [OF lawful_policies(2,1) c(1,3,2) p e(1) l, of "\<lambda>_. True"] by (elim exE conjE) (rule that; assumption)
  have "replayed_orders map_std_policy (cf_symbol sample_config) Bid (rp_books R) = Some [(5000, \<lparr>en_id = 7, en_qty = 60, en_owner = 0\<rparr>)]"
    using implementsD(3) [OF e(2), of Bid] s(3) r(4) by simp
  with e(1) r(1-3) show ?thesis by (intro exI conjI)
qed

theorem receiving_ignores_chunks_witness:
  "\<exists>n reqs st'. recv_loop [25, 3, 12] (encode_request (snd (hd sample_requests))) (replicate kBufferSize 0) 0 [] stats_new
      = Some (reqs, st', drop n (encode_request (snd (hd sample_requests))))
    \<and> reqs = take (n div kMessageSize) [snd (hd sample_requests)]"
proof -
  let ?r = "snd (hd sample_requests)"
  have b: "length (replicate kBufferSize (0 :: u8)) = kBufferSize" by simp
  have c: "encode_request ?r = concat (map encode_request [?r])" by simp
  have d: "\<forall>r \<in> set [?r]. price_fits (rq_price r)" by (simp add: sample_requests_def price_fits_def)
  obtain n reqs st' where "recv_loop [25, 3, 12] (encode_request ?r) (replicate kBufferSize 0) 0 [] stats_new = Some (reqs, st', drop n (encode_request ?r))"
    "\<forall>sent. encode_request ?r = concat (map encode_request sent) \<longrightarrow> (\<forall>r \<in> set sent. price_fits (rq_price r)) \<longrightarrow> reqs = take (n div kMessageSize) sent"
    using receiving_ignores_chunks [OF b, of "[25, 3, 12]" "encode_request ?r" stats_new] by blast
  then show ?thesis using c d by blast
qed

theorem sending_coalesces_exactly_witness:
  "\<exists>a b. a \<noteq> b \<and> concat (send_loop (\<lambda>_. True) 0 [None, Some a, Some b, None, Some a]) = concat (map encode_response [a, b, a])
    \<and> (\<forall>buf \<in> set (send_loop (\<lambda>_. True) 0 [None, Some a, Some b, None, Some a]). length buf \<le> kBufferSize)"
proof -
  let ?r = "\<lambda>k. \<lparr>rs_kind = k, rs_code = 0, rs_qty = 7, rs_price = 5000, rs_id = 1, rs_peer = 0, rs_client_ts = 9\<rparr>"
  show ?thesis using sending_coalesces_exactly [of "[None, Some (?r 1), Some (?r 2), None, Some (?r 1)]"]
    by (intro exI [of _ "?r 1"] exI [of _ "?r 2"]) simp
qed

end
