(* ===== verification/EngineShutdown.thy ===== *)
theory EngineShutdown
  imports Prelude
begin

text \<open>
  The loop that the matching, the sending and the market-data thread share: pop the queue; when it is empty, ask
  whether the thread upstream is done, and pop once more before leaving.  The thread upstream pushes its items
  in order and then raises its flag.

  An item that the second \<^verbatim>\<open>try_pop\<close> of the condition delivers is overwritten by the next one: the
  loop yields and continues instead of handling it.
\<close>

datatype stage_pc = Top | Check | Second | Ended

text \<open>
  \<open>sg_synced\<close> holds once the flag has been seen raised: from then on every push is visible, while before a
  \<^verbatim>\<open>try_pop\<close> may fail although something has been pushed.  \<open>sg_taken\<close> is the history of the items
  popped, each with whether it was handled.
\<close>

record 'a Stage =
  sg_todo :: "'a list"
  sg_queue :: "'a list"
  sg_done :: bool
  sg_pc :: stage_pc
  sg_synced :: bool
  sg_taken :: "('a \<times> bool) list"

definition stage_new :: "'a list \<Rightarrow> 'a Stage" where
  "stage_new items = \<lparr>sg_todo = items, sg_queue = [], sg_done = False, sg_pc = Top, sg_synced = False, sg_taken = []\<rparr>"

inductive stage_step :: "'a Stage \<Rightarrow> 'a Stage \<Rightarrow> bool" where
  produce: "sg_todo s = x # xs \<Longrightarrow> stage_step s (s\<lparr>sg_todo := xs, sg_queue := sg_queue s @ [x]\<rparr>)"
| finish: "sg_todo s = [] \<Longrightarrow> stage_step s (s\<lparr>sg_done := True\<rparr>)"
| pop_item: "sg_pc s = Top \<Longrightarrow> sg_queue s = x # q \<Longrightarrow> stage_step s (s\<lparr>sg_queue := q, sg_taken := sg_taken s @ [(x, True)]\<rparr>)"
| pop_fails: "sg_pc s = Top \<Longrightarrow> sg_queue s = [] \<or> \<not> sg_synced s \<Longrightarrow> stage_step s (s\<lparr>sg_pc := Check\<rparr>)"
| not_done: "sg_pc s = Check \<Longrightarrow> \<not> sg_synced s \<Longrightarrow> stage_step s (s\<lparr>sg_pc := Top\<rparr>)"
| see_done: "sg_pc s = Check \<Longrightarrow> sg_done s \<Longrightarrow> stage_step s (s\<lparr>sg_pc := Second, sg_synced := True\<rparr>)"
| second_item: "sg_pc s = Second \<Longrightarrow> sg_queue s = x # q \<Longrightarrow> stage_step s (s\<lparr>sg_pc := Top, sg_queue := q, sg_taken := sg_taken s @ [(x, False)]\<rparr>)"
| second_empty: "sg_pc s = Second \<Longrightarrow> sg_queue s = [] \<Longrightarrow> stage_step s (s\<lparr>sg_pc := Ended\<rparr>)"

inductive stage_reaches :: "'a list \<Rightarrow> 'a Stage \<Rightarrow> bool" for items where
  start: "stage_reaches items (stage_new items)"
| more: "stage_reaches items s \<Longrightarrow> stage_step s s' \<Longrightarrow> stage_reaches items s'"

definition sg_handled :: "'a Stage \<Rightarrow> 'a list" where
  "sg_handled s = map fst (filter snd (sg_taken s))"

definition sg_lost :: "'a Stage \<Rightarrow> 'a list" where
  "sg_lost s = map fst (filter (\<lambda>t. \<not> snd t) (sg_taken s))"

text \<open>Nothing is duplicated or reordered, and an item is only lost when the flag has been seen: then the queue is final.\<close>

definition stage_inv :: "'a list \<Rightarrow> 'a Stage \<Rightarrow> bool" where
  "stage_inv items s \<longleftrightarrow> map fst (sg_taken s) @ sg_queue s @ sg_todo s = items
    \<and> (sg_done s \<longrightarrow> sg_todo s = []) \<and> (sg_synced s \<longrightarrow> sg_done s) \<and> (sg_pc s = Second \<longrightarrow> sg_synced s)
    \<and> (sg_pc s = Check \<longrightarrow> sg_synced s \<longrightarrow> sg_queue s = [])
    \<and> (sg_lost s = [] \<or> length (sg_lost s) = 1 \<and> sg_synced s \<and> (sg_pc s \<noteq> Top \<longrightarrow> sg_queue s = []))
    \<and> (sg_pc s = Ended \<longrightarrow> sg_queue s = [] \<and> sg_synced s)"

lemma stage_inv_new: "stage_inv items (stage_new items)"
  by (simp add: stage_inv_def stage_new_def sg_lost_def)

lemma stage_inv_step: "stage_step s s' \<Longrightarrow> stage_inv items s \<Longrightarrow> stage_inv items s'"
  by (induction rule: stage_step.induct) (auto simp: stage_inv_def sg_lost_def)

lemma stage_reaches_inv: "stage_reaches items s \<Longrightarrow> stage_inv items s"
  by (induction rule: stage_reaches.induct) (auto intro: stage_inv_new stage_inv_step)

text \<open>A list with at most one marked element.\<close>

lemma one_marked:
  "length (filter (\<lambda>t. \<not> snd t) ts) \<le> 1 \<Longrightarrow>
     \<exists>ys d zs. map fst ts = ys @ d @ zs \<and> map fst (filter snd ts) = ys @ zs \<and> length d \<le> 1"
proof (induction ts)
  case (Cons t ts)
  show ?case
  proof (cases "snd t")
    case True
    then obtain ys d zs where "map fst ts = ys @ d @ zs" "map fst (filter snd ts) = ys @ zs" "length d \<le> 1" using Cons by auto
    then show ?thesis using True by (intro exI [of _ "fst t # ys"] exI [of _ d] exI [of _ zs]) simp
  next
    case False
    then have "filter (\<lambda>t. \<not> snd t) ts = []" using Cons.prems by simp
    then have "filter snd ts = ts" by (simp add: filter_empty_conv filter_id_conv)
    then show ?thesis using False by (intro exI [of _ "[]"] exI [of _ "[fst t]"] exI [of _ "map fst ts"]) simp
  qed
qed auto

text \<open>When a thread of the engine leaves its loop it has handled every item its upstream thread pushed, in order and once each, but for at most one.\<close>

theorem shutdown_loses_at_most_one:
  assumes "stage_reaches items s" and "sg_pc s = Ended"
  shows "\<exists>ys d zs. items = ys @ d @ zs \<and> sg_handled s = ys @ zs \<and> length d \<le> 1"
proof -
  have i: "stage_inv items s" by (rule stage_reaches_inv [OF assms(1)])
  then have "map fst (sg_taken s) = items" "length (sg_lost s) \<le> 1" using assms(2) by (auto simp: stage_inv_def)
  then show ?thesis using one_marked [of "sg_taken s"] by (auto simp: sg_handled_def sg_lost_def)
qed

text \<open>The item that is lost is pushed between the failing pop and the look at the flag.\<close>

lemma one_by_one:
  "stage_reaches (items @ xs) \<lparr>sg_todo = xs, sg_queue = [], sg_done = False, sg_pc = Top, sg_synced = False,
     sg_taken = map (\<lambda>i. (i, True)) items\<rparr>"
proof (induction items arbitrary: xs rule: rev_induct)
  case Nil
  then show ?case using stage_reaches.start [of xs] by (simp add: stage_new_def)
next
  case (snoc i items)
  have "stage_reaches ((items @ [i]) @ xs) \<lparr>sg_todo = i # xs, sg_queue = [], sg_done = False, sg_pc = Top, sg_synced = False,
     sg_taken = map (\<lambda>i. (i, True)) items\<rparr>" using snoc [of "i # xs"] by simp
  from stage_reaches.more [OF this produce, of i xs]
  have p: "stage_reaches ((items @ [i]) @ xs) \<lparr>sg_todo = xs, sg_queue = [i], sg_done = False, sg_pc = Top, sg_synced = False,
     sg_taken = map (\<lambda>i. (i, True)) items\<rparr>" by simp
  from stage_reaches.more [OF p pop_item, of i "[]"] show ?case by simp
qed

lemma lossy_run:
  "\<exists>s. stage_reaches (items @ [x]) s \<and> sg_pc s = Ended \<and> sg_handled s = items"
proof -
  define st where "st todo q d pc sy taken = \<lparr>sg_todo = todo, sg_queue = q, sg_done = d, sg_pc = pc, sg_synced = sy, sg_taken = taken\<rparr>"
    for todo q and d sy :: bool and pc and taken :: "('a \<times> bool) list"
  let ?h = "map (\<lambda>i. (i, True)) items"
  note go = stage_reaches.more [where items = "items @ [x]"]
  have "stage_reaches (items @ [x]) (st [x] [] False Top False ?h)" using one_by_one [of items "[x]"] by (simp add: st_def)
  from go [OF this pop_fails] have "stage_reaches (items @ [x]) (st [x] [] False Check False ?h)" by (simp add: st_def)
  from go [OF this produce, of x "[]"] have "stage_reaches (items @ [x]) (st [] [x] False Check False ?h)" by (simp add: st_def)
  from go [OF this finish] have "stage_reaches (items @ [x]) (st [] [x] True Check False ?h)" by (simp add: st_def)
  from go [OF this see_done] have "stage_reaches (items @ [x]) (st [] [x] True Second True ?h)" by (simp add: st_def)
  from go [OF this second_item, of x "[]"] have "stage_reaches (items @ [x]) (st [] [] True Top True (?h @ [(x, False)]))" by (simp add: st_def)
  from go [OF this pop_fails] have "stage_reaches (items @ [x]) (st [] [] True Check True (?h @ [(x, False)]))" by (simp add: st_def)
  from go [OF this see_done] have "stage_reaches (items @ [x]) (st [] [] True Second True (?h @ [(x, False)]))" by (simp add: st_def)
  from go [OF this second_empty] have "stage_reaches (items @ [x]) (st [] [] True Ended True (?h @ [(x, False)]))" by (simp add: st_def)
  moreover have "filter snd ?h = ?h" by (induction items) simp_all
  then have "sg_handled (st [] [] True Ended True (?h @ [(x, False)])) = items" by (simp add: sg_handled_def st_def comp_def)
  ultimately show ?thesis by (intro exI [of _ "st [] [] True Ended True (?h @ [(x, False)])"]) (simp add: st_def)
qed

text \<open>One item can indeed be lost: what the upstream thread pushes last can be popped by the second \<^verbatim>\<open>try_pop\<close> of the loop's condition, after which the thread ends without having handled it.\<close>

theorem shutdown_can_lose_the_last:
  "\<exists>s. stage_reaches (items @ [x]) s \<and> sg_pc s = Ended \<and> sg_handled s = items"
  by (rule lossy_run)

theorem shutdown_loses_at_most_one_witness:
  "\<exists>s ys d zs. stage_reaches [1, 2, 3 :: nat] s \<and> sg_pc s = Ended \<and> sg_handled s = [1, 2]
    \<and> [1, 2, 3] = ys @ d @ zs \<and> sg_handled s = ys @ zs \<and> length d \<le> 1"
proof -
  obtain s where "stage_reaches [1, 2, 3 :: nat] s" "sg_pc s = Ended" "sg_handled s = [1, 2]"
    using lossy_run [of "[1, 2]" "3 :: nat"] by auto
  then show ?thesis using shutdown_loses_at_most_one by metis
qed

end
