(* ===== verification/EnginePipeline.thy ===== *)
theory EnginePipeline
  imports EngineShutdown EngineProperties
begin

text \<open>
  The four threads of \<^verbatim>\<open>engine.hpp\<close> over its three bounded queues, as one step relation.  Every queue is a \<open>Stage\<close>: its todo list
  holds what the thread upstream has still to push.  A step is one \<^verbatim>\<open>try_push\<close> or \<^verbatim>\<open>try_pop\<close>, the raising or reading of a flag, or
  the handling of one request, whose responses and feed messages become the todo lists of the two queues behind it; the order
  in which these two lists are pushed is left open.  A \<^verbatim>\<open>push_spin\<close> on a full queue waits: it has no step.  The received
  requests are an input (\<open>recv_loop\<close> gives them), and what becomes of an item taken is in \<open>send_loop\<close> and \<open>md_loop\<close>.
\<close>

subsection \<open>The two ends of a queue\<close>

definition push_one :: "nat \<Rightarrow> 'a Stage \<Rightarrow> 'a Stage \<Rightarrow> bool" where
  "push_one cap s s' \<longleftrightarrow> length (sg_queue s) < cap \<and>
     (case sg_todo s of [] \<Rightarrow> False | x # xs \<Rightarrow> s' = s\<lparr>sg_todo := xs, sg_queue := sg_queue s @ [x]\<rparr>)"

text \<open>What the loop downstream does next, with the item it handles, if any.\<close>

inductive stage_consume :: "'a option \<Rightarrow> 'a Stage \<Rightarrow> 'a Stage \<Rightarrow> bool" where
  pop_item: "sg_pc s = Top \<Longrightarrow> sg_queue s = x # q \<Longrightarrow> stage_consume (Some x) s (s\<lparr>sg_queue := q, sg_taken := sg_taken s @ [(x, True)]\<rparr>)"
| pop_fails: "sg_pc s = Top \<Longrightarrow> sg_queue s = [] \<or> \<not> sg_synced s \<Longrightarrow> stage_consume None s (s\<lparr>sg_pc := Check\<rparr>)"
| not_done: "sg_pc s = Check \<Longrightarrow> \<not> sg_synced s \<Longrightarrow> stage_consume None s (s\<lparr>sg_pc := Top\<rparr>)"
| see_done: "sg_pc s = Check \<Longrightarrow> sg_done s \<Longrightarrow> stage_consume None s (s\<lparr>sg_pc := Second, sg_synced := True\<rparr>)"
| second_item: "sg_pc s = Second \<Longrightarrow> sg_queue s = x # q \<Longrightarrow>
    stage_consume None s (s\<lparr>sg_pc := Top, sg_queue := q, sg_taken := sg_taken s @ [(x, False)]\<rparr>)"
| second_empty: "sg_pc s = Second \<Longrightarrow> sg_queue s = [] \<Longrightarrow> stage_consume None s (s\<lparr>sg_pc := Ended\<rparr>)"

inductive_cases stage_consume_SomeE: "stage_consume (Some x) s s'"

lemma push_one_step: "push_one cap s s' \<Longrightarrow> stage_step s s'"
  by (auto simp: push_one_def split: list.splits intro: stage_step.produce)

lemma stage_consume_step: "stage_consume x s s' \<Longrightarrow> stage_step s s'"
  by (induction rule: stage_consume.induct) (auto intro: stage_step.intros)

lemma stage_consume_keeps: "stage_consume x s s' \<Longrightarrow> sg_todo s' = sg_todo s \<and> sg_done s' = sg_done s \<and> length (sg_queue s') \<le> length (sg_queue s)
    \<and> sg_pc s \<noteq> Ended \<and> sg_handled s' = sg_handled s @ (case x of None \<Rightarrow> [] | Some y \<Rightarrow> [y])"
  by (induction rule: stage_consume.induct) (auto simp: sg_handled_def)

lemma push_one_keeps: "push_one cap s s' \<Longrightarrow> sg_done s' = sg_done s \<and> sg_pc s' = sg_pc s \<and> sg_handled s' = sg_handled s \<and> length (sg_queue s') \<le> cap"
  by (auto simp: push_one_def sg_handled_def split: list.splits)

lemma stage_inv_more: "stage_inv items s \<Longrightarrow> \<not> sg_done s \<Longrightarrow> stage_inv (items @ xs) (s\<lparr>sg_todo := sg_todo s @ xs\<rparr>)"
  by (auto simp: stage_inv_def sg_lost_def)

subsection \<open>The four threads\<close>

text \<open>\<open>pp_served\<close> is the history of the requests handled, each with the time read.\<close>

record ('l, 'm) Pipe =
  pp_in :: "Request Stage"
  pp_engine :: "('l, 'm) Engine"
  pp_out :: "Response Stage"
  pp_md :: "MdMsg Stage"
  pp_served :: "(u64 \<times> Request) list"

definition pipe_new :: "('l, 'm) Engine \<Rightarrow> Request list \<Rightarrow> ('l, 'm) Pipe" where
  "pipe_new e reqs = \<lparr>pp_in = stage_new reqs, pp_engine = e, pp_out = stage_new [], pp_md = stage_new [], pp_served = []\<rparr>"

text \<open>The matching thread goes on when it has pushed everything.\<close>

definition pushed_all :: "('l, 'm) Pipe \<Rightarrow> bool" where
  "pushed_all s \<longleftrightarrow> sg_todo (pp_out s) = [] \<and> sg_todo (pp_md s) = []"

definition more_todo :: "'a list \<Rightarrow> 'a Stage \<Rightarrow> 'a Stage" where
  "more_todo xs s = s\<lparr>sg_todo := sg_todo s @ xs\<rparr>"

inductive pipe_step :: "('l, 'm) policy \<Rightarrow> nat \<Rightarrow> ('l, 'm) Pipe \<Rightarrow> ('l, 'm) Pipe \<Rightarrow> bool" for P cap where
  recv_push: "push_one cap (pp_in s) i \<Longrightarrow> pipe_step P cap s (s\<lparr>pp_in := i\<rparr>)"
| recv_done: "sg_todo (pp_in s) = [] \<Longrightarrow> pipe_step P cap s (s\<lparr>pp_in := (pp_in s)\<lparr>sg_done := True\<rparr>\<rparr>)"
| match_looks: "pushed_all s \<Longrightarrow> stage_consume None (pp_in s) i \<Longrightarrow> pipe_step P cap s (s\<lparr>pp_in := i\<rparr>)"
| match_handles: "pushed_all s \<Longrightarrow> stage_consume (Some req) (pp_in s) i \<Longrightarrow> handle P ts req (pp_engine s) = Some e \<Longrightarrow>
    pipe_step P cap s (s\<lparr>pp_in := i, pp_engine := e,
      pp_out := more_todo (drop (length (eg_out (pp_engine s))) (eg_out e)) (pp_out s),
      pp_md := more_todo (drop (length (eg_md_q (pp_engine s))) (eg_md_q e)) (pp_md s),
      pp_served := pp_served s @ [(ts, req)]\<rparr>)"
| match_push_out: "push_one cap (pp_out s) r \<Longrightarrow> pipe_step P cap s (s\<lparr>pp_out := r\<rparr>)"
| match_push_md: "push_one cap (pp_md s) m \<Longrightarrow> pipe_step P cap s (s\<lparr>pp_md := m\<rparr>)"
| match_done: "pushed_all s \<Longrightarrow> sg_pc (pp_in s) = Ended \<Longrightarrow>
    pipe_step P cap s (s\<lparr>pp_out := (pp_out s)\<lparr>sg_done := True\<rparr>, pp_md := (pp_md s)\<lparr>sg_done := True\<rparr>\<rparr>)"
| send_step: "stage_consume x (pp_out s) r \<Longrightarrow> pipe_step P cap s (s\<lparr>pp_out := r\<rparr>)"
| md_step: "stage_consume y (pp_md s) m \<Longrightarrow> pipe_step P cap s (s\<lparr>pp_md := m\<rparr>)"

inductive pipe_reaches :: "('l, 'm) policy \<Rightarrow> nat \<Rightarrow> ('l, 'm) Engine \<Rightarrow> Request list \<Rightarrow> ('l, 'm) Pipe \<Rightarrow> bool" for P cap e reqs where
  start: "pipe_reaches P cap e reqs (pipe_new e reqs)"
| more: "pipe_reaches P cap e reqs s \<Longrightarrow> pipe_step P cap s s' \<Longrightarrow> pipe_reaches P cap e reqs s'"

subsection \<open>The invariant\<close>

definition pipe_inv :: "('l, 'm) policy \<Rightarrow> nat \<Rightarrow> ('l, 'm) Engine \<Rightarrow> Request list \<Rightarrow> ('l, 'm) Pipe \<Rightarrow> bool" where
  "pipe_inv P cap e reqs s \<longleftrightarrow> handle_list P (pp_served s) e = Some (pp_engine s) \<and> sg_handled (pp_in s) = map snd (pp_served s)
    \<and> stage_inv reqs (pp_in s) \<and> stage_inv (eg_out (pp_engine s)) (pp_out s) \<and> stage_inv (eg_md_q (pp_engine s)) (pp_md s)
    \<and> (sg_done (pp_out s) \<longrightarrow> sg_pc (pp_in s) = Ended) \<and> (sg_done (pp_md s) \<longrightarrow> sg_pc (pp_in s) = Ended)
    \<and> length (sg_queue (pp_in s)) \<le> cap \<and> length (sg_queue (pp_out s)) \<le> cap \<and> length (sg_queue (pp_md s)) \<le> cap"

lemma handle_list_append: "handle_list P (xs @ ys) e = do { e \<leftarrow> handle_list P xs e; handle_list P ys e }"
  by (induction xs arbitrary: e) (auto split: Option.bind_splits)

lemma stage_done: "stage_inv items s \<Longrightarrow> sg_todo s = [] \<Longrightarrow> stage_inv items (s\<lparr>sg_done := True\<rparr>)"
  by (auto simp: stage_inv_def sg_lost_def)

lemma stage_fields [simp]:
  "sg_queue (more_todo xs s) = sg_queue s" "sg_done (more_todo xs s) = sg_done s" "sg_handled (s\<lparr>sg_done := d\<rparr>) = sg_handled s"
  by (simp_all add: more_todo_def sg_handled_def)

lemma stage_handled_le: "stage_inv items s \<Longrightarrow> length (sg_handled s) \<le> length items"
proof -
  assume "stage_inv items s"
  then have "length items = length (sg_taken s) + length (sg_queue s) + length (sg_todo s)"
    unfolding stage_inv_def by (metis add.assoc length_append length_map)
  moreover have "length (sg_handled s) \<le> length (sg_taken s)" by (simp add: sg_handled_def)
  ultimately show ?thesis by linarith
qed

text \<open>Handling appends to the two logs of the engine.\<close>

lemma handle_appends:
  assumes "follows_book P V n e A" and "Suc n < 2 ^ 32" and "handle P ts req e = Some e'"
  shows "eg_out e' = eg_out e @ drop (length (eg_out e)) (eg_out e')" and "eg_md_q e' = eg_md_q e @ drop (length (eg_md_q e)) (eg_md_q e')"
  using handle_spec [OF assms(1,2), of ts req] assms(3) by (auto simp: grows_def)

text \<open>The engine follows the specification so far, and is ready for the request the matching thread has popped.\<close>

lemma pipe_handles:
  assumes inv: "pipe_inv P cap e reqs s" and f: "follows_book P V 0 e A" and n: "length reqs < 2 ^ 32" and c: "stage_consume (Some req) (pp_in s) i"
  shows "\<exists>A'. follows_book P V (length (pp_served s)) (pp_engine s) A'" and "Suc (length (pp_served s)) < 2 ^ 32"
    and "\<exists>e'. handle P ts req (pp_engine s) = Some e'"
proof -
  have "stage_inv reqs i" using stage_inv_step [OF stage_consume_step [OF c]] inv by (simp add: pipe_inv_def)
  then have "length (sg_handled i) \<le> length reqs" by (rule stage_handled_le)
  moreover have "sg_handled i = sg_handled (pp_in s) @ [req]" using stage_consume_keeps [OF c] by simp
  ultimately have served: "length (pp_served s) < length reqs" using inv by (simp add: pipe_inv_def)
  obtain rs evs A' where a: "abs_serve V (cf_symbol (eg_cfg e)) (eg_match_number e) (pp_served s) A = (rs, evs, A')" by (metis prod_cases3)
  have "0 + length (pp_served s) < 2 ^ 32" using served n by simp
  from handle_list_spec [OF f this a] inv have e1: "follows_book P V (length (pp_served s)) (pp_engine s) A'" by (auto simp: pipe_inv_def)
  then show "\<exists>A'. follows_book P V (length (pp_served s)) (pp_engine s) A'" by blast
  show s: "Suc (length (pp_served s)) < 2 ^ 32" using served n by simp
  show "\<exists>e'. handle P ts req (pp_engine s) = Some e'" using handle_spec [OF e1 s, of ts req] by blast
qed

lemma pipe_inv_step:
  assumes "pipe_step P cap s s'" and inv: "pipe_inv P cap e reqs s" and f: "follows_book P V 0 e A" and n: "length reqs < 2 ^ 32"
  shows "pipe_inv P cap e reqs s'"
  using assms(1)
proof cases
  case (match_handles req i ts e')
  obtain A' where e1: "follows_book P V (length (pp_served s)) (pp_engine s) A'" using pipe_handles(1) [OF inv f n match_handles(3)] by blast
  note H = handle_appends [OF e1 pipe_handles(2) [OF inv f n match_handles(3)] match_handles(4)]
  have nd: "\<not> sg_done (pp_out s)" "\<not> sg_done (pp_md s)" using inv stage_consume_keeps [OF match_handles(3)] by (auto simp: pipe_inv_def)
  have "stage_inv (eg_out e') (more_todo (drop (length (eg_out (pp_engine s))) (eg_out e')) (pp_out s))"
    "stage_inv (eg_md_q e') (more_todo (drop (length (eg_md_q (pp_engine s))) (eg_md_q e')) (pp_md s))"
    using inv nd stage_inv_more [of _ "pp_out s"] stage_inv_more [of _ "pp_md s"] H unfolding more_todo_def pipe_inv_def by metis+
  moreover have "handle_list P (pp_served s @ [(ts, req)]) e = Some e'" using inv match_handles(4) by (simp add: handle_list_append pipe_inv_def)
  moreover have "stage_inv reqs i" using stage_inv_step [OF stage_consume_step [OF match_handles(3)]] inv by (simp add: pipe_inv_def)
  ultimately show ?thesis using inv nd stage_consume_keeps [OF match_handles(3)] unfolding match_handles(1) by (simp add: pipe_inv_def)
next
  case (recv_push i)
  then show ?thesis using inv push_one_keeps [OF recv_push(2)] stage_inv_step [OF push_one_step [OF recv_push(2)]] by (simp add: pipe_inv_def)
next
  case recv_done
  then show ?thesis using inv stage_done [of reqs "pp_in s"] by (simp add: pipe_inv_def)
next
  case (match_looks i)
  then show ?thesis using inv stage_consume_keeps [OF match_looks(3)] stage_inv_step [OF stage_consume_step [OF match_looks(3)]] by (auto simp: pipe_inv_def)
next
  case (match_push_out r)
  then show ?thesis using inv push_one_keeps [OF match_push_out(2)] stage_inv_step [OF push_one_step [OF match_push_out(2)]] by (simp add: pipe_inv_def)
next
  case (match_push_md m)
  then show ?thesis using inv push_one_keeps [OF match_push_md(2)] stage_inv_step [OF push_one_step [OF match_push_md(2)]] by (simp add: pipe_inv_def)
next
  case match_done
  then show ?thesis using inv stage_done [of _ "pp_out s"] stage_done [of _ "pp_md s"] by (simp add: pipe_inv_def pushed_all_def)
next
  case (send_step x r)
  then show ?thesis using inv stage_consume_keeps [OF send_step(2)] stage_inv_step [OF stage_consume_step [OF send_step(2)]] by (auto simp: pipe_inv_def)
next
  case (md_step y m)
  then show ?thesis using inv stage_consume_keeps [OF md_step(2)] stage_inv_step [OF stage_consume_step [OF md_step(2)]] by (auto simp: pipe_inv_def)
qed

lemma pipe_inv_reaches:
  assumes "pipe_reaches P cap e reqs s" and "follows_book P V 0 e A" and "length reqs < 2 ^ 32" and "eg_out e = []" and "eg_md_q e = []"
  shows "pipe_inv P cap e reqs s"
  using assms(1)
proof induction
  case start
  show ?case using assms(4,5) stage_inv_new by (simp add: pipe_inv_def pipe_new_def) (simp add: stage_new_def sg_handled_def stage_inv_new [unfolded stage_new_def])
next
  case (more s s')
  then show ?case using pipe_inv_step assms(2,3) by blast
qed

subsection \<open>No deadlock\<close>

text \<open>The work a stage has left for the loop downstream; a loop that has failed to pop and finds the flag down only starts again.\<close>

definition stage_work :: "'a Stage \<Rightarrow> nat" where
  "stage_work s = 4 * length (sg_queue s) + (case sg_pc s of Top \<Rightarrow> 3 | Check \<Rightarrow> if sg_done s then 2 else 4 | Second \<Rightarrow> 1 | Ended \<Rightarrow> 0)"

definition pipe_work :: "('l, 'm) Pipe \<Rightarrow> nat \<times> nat \<times> nat" where
  "pipe_work s = (2 * length (sg_todo (pp_in s)) + length (sg_queue (pp_in s)), length (sg_todo (pp_out s)) + length (sg_todo (pp_md s)),
     stage_work (pp_in s) + stage_work (pp_out s) + stage_work (pp_md s)
       + length (filter Not [sg_done (pp_in s), sg_done (pp_out s), sg_done (pp_md s)]))"

abbreviation less_work :: "(('l, 'm) Pipe \<times> ('l, 'm) Pipe) set" where
  "less_work \<equiv> inv_image (less_than <*lex*> less_than <*lex*> less_than) pipe_work"

lemma wf_less_work: "wf less_work"
  by auto

lemma stage_consume_progress:
  assumes "stage_inv items s" and "sg_pc s \<noteq> Ended" and "sg_queue s \<noteq> [] \<or> sg_done s \<or> sg_pc s = Check"
  obtains x s' where "stage_consume x s s'" "stage_work s' < stage_work s"
proof (cases "sg_pc s")
  case Top
  show ?thesis
  proof (cases "sg_queue s")
    case Nil
    with Top assms(3) show ?thesis by (intro that [OF stage_consume.pop_fails]) (auto simp: stage_work_def)
  next
    case (Cons x q)
    with Top show ?thesis by (intro that [OF stage_consume.pop_item]) (auto simp: stage_work_def)
  qed
next
  case Check
  show ?thesis
  proof (cases "sg_done s")
    case True
    with Check show ?thesis by (intro that [OF stage_consume.see_done]) (auto simp: stage_work_def)
  next
    case False
    then have "\<not> sg_synced s" using assms(1) by (auto simp: stage_inv_def)
    with Check False show ?thesis by (intro that [OF stage_consume.not_done]) (auto simp: stage_work_def)
  qed
next
  case Second
  show ?thesis
  proof (cases "sg_queue s")
    case Nil
    with Second show ?thesis by (intro that [OF stage_consume.second_empty]) (auto simp: stage_work_def)
  next
    case (Cons x q)
    with Second show ?thesis by (intro that [OF stage_consume.second_item]) (auto simp: stage_work_def)
  qed
next
  case Ended
  with assms(2) show ?thesis by simp
qed

lemma push_progress:
  assumes "sg_todo s \<noteq> []" and "sg_queue s = []" and "0 < cap"
  obtains s' where "push_one cap s s'" "Suc (length (sg_todo s')) = length (sg_todo s)" "length (sg_queue s') = 1"
  using assms by (cases "sg_todo s") (auto simp: push_one_def)

lemma pipe_fields [simp]:
  "stage_work (more_todo xs s) = stage_work s" "sg_queue (s\<lparr>sg_done := d\<rparr>) = sg_queue s"
  by (simp_all add: more_todo_def stage_work_def)

lemma done_less_work: "stage_work (s\<lparr>sg_done := True\<rparr>) \<le> stage_work s"
  by (simp add: stage_work_def split: stage_pc.split)

definition pipe_ended :: "('l, 'm) Pipe \<Rightarrow> bool" where
  "pipe_ended s \<longleftrightarrow> sg_pc (pp_in s) = Ended \<and> sg_pc (pp_out s) = Ended \<and> sg_pc (pp_md s) = Ended"

text \<open>Where a thread that sends cannot go on, its queue is empty and it waits for more, unless it has ended.\<close>

definition waits :: "'a Stage \<Rightarrow> bool" where
  "waits s \<longleftrightarrow> sg_pc s = Ended \<or> sg_queue s = [] \<and> \<not> sg_done s"

lemma sender_progress:
  assumes "stage_inv items s" and "\<not> waits s"
  obtains x s' where "stage_consume x s s'" "stage_work s' < stage_work s"
  using stage_consume_progress [OF assms(1)] assms(2) unfolding waits_def by metis

lemma waits_push:
  assumes "stage_inv items s" and "waits s" and "sg_todo s \<noteq> []" and "0 < cap"
  obtains s' where "push_one cap s s'" "Suc (length (sg_todo s')) = length (sg_todo s)" "length (sg_queue s') = 1"
proof -
  have "sg_queue s = []" using assms(1-3) by (auto simp: stage_inv_def waits_def)
  from push_progress [OF assms(3) this assms(4)] that show thesis by blast
qed

lemma matching_progress:
  assumes inv: "pipe_inv P cap e reqs s" and f: "follows_book P V 0 e A" and n: "length reqs < 2 ^ 32" and cap: "0 < cap" and "\<not> pipe_ended s"
    and "waits (pp_out s)" and "waits (pp_md s)" and all: "pushed_all s"
  obtains s' where "pipe_step P cap s s'" "(s', s) \<in> less_work"
proof -
  have i: "stage_inv reqs (pp_in s)" using inv by (simp add: pipe_inv_def)
  consider (ended) "sg_pc (pp_in s) = Ended" | (works) "sg_pc (pp_in s) \<noteq> Ended" "sg_queue (pp_in s) \<noteq> [] \<or> sg_done (pp_in s) \<or> sg_pc (pp_in s) = Check"
    | (push) "sg_queue (pp_in s) = []" "\<not> sg_done (pp_in s)" "sg_todo (pp_in s) \<noteq> []" | (flag) "\<not> sg_done (pp_in s)" "sg_todo (pp_in s) = []" by blast
  then show thesis
  proof cases
    case ended
    then have "\<not> sg_done (pp_out s) \<or> \<not> sg_done (pp_md s)" using assms(5-7) inv by (auto simp: pipe_ended_def waits_def pipe_inv_def stage_inv_def)
    then show thesis using done_less_work [of "pp_out s"] done_less_work [of "pp_md s"]
      by (intro that [OF pipe_step.match_done [OF all ended]]) (auto simp: pipe_work_def)
  next
    case works
    from stage_consume_progress [OF i this] obtain x j where j: "stage_consume x (pp_in s) j" "stage_work j < stage_work (pp_in s)" .
    show thesis
    proof (cases x)
      case None
      show thesis using j(2) stage_consume_keeps [OF j(1)]
        by (intro that [OF pipe_step.match_looks [OF all j(1) [unfolded None]]]) (auto simp: pipe_work_def)
    next
      case (Some req)
      then have "length (sg_queue j) < length (sg_queue (pp_in s))" using j(1) by (auto elim: stage_consume_SomeE)
      moreover obtain e' where "handle P 0 req (pp_engine s) = Some e'"
        using pipe_handles [OF inv f n j(1) [unfolded Some]] by blast
      ultimately show thesis using stage_consume_keeps [OF j(1)]
        by (intro that [OF pipe_step.match_handles [OF all j(1) [unfolded Some]]]) (auto simp: pipe_work_def)
    qed
  next
    case push
    from push_progress [OF push(3,1) cap] obtain j where j: "push_one cap (pp_in s) j" "Suc (length (sg_todo j)) = length (sg_todo (pp_in s))"
      "length (sg_queue j) = 1" .
    show thesis using j(2,3) push(1) by (intro that [OF pipe_step.recv_push [OF j(1)]]) (simp add: pipe_work_def)
  next
    case flag
    then show thesis using done_less_work [of "pp_in s"] by (intro that [OF pipe_step.recv_done [OF flag(2)]]) (auto simp: pipe_work_def)
  qed
qed

lemma pipe_progress:
  assumes inv: "pipe_inv P cap e reqs s" and f: "follows_book P V 0 e A" and n: "length reqs < 2 ^ 32" and cap: "0 < cap" and "\<not> pipe_ended s"
  obtains s' where "pipe_step P cap s s'" "(s', s) \<in> less_work"
proof -
  have i: "stage_inv reqs (pp_in s)" "stage_inv (eg_out (pp_engine s)) (pp_out s)" "stage_inv (eg_md_q (pp_engine s)) (pp_md s)"
    using inv by (simp_all add: pipe_inv_def)
  consider "\<not> waits (pp_out s)" | "\<not> waits (pp_md s)" | "waits (pp_out s)" "sg_todo (pp_out s) \<noteq> []" | "waits (pp_md s)" "sg_todo (pp_md s) \<noteq> []"
    | (pushed) "waits (pp_out s)" "waits (pp_md s)" "pushed_all s" unfolding pushed_all_def by blast
  then show thesis
  proof cases
    case 1
    from sender_progress [OF i(2) this] obtain x r where r: "stage_consume x (pp_out s) r" "stage_work r < stage_work (pp_out s)" .
    show thesis using r(2) stage_consume_keeps [OF r(1)] by (intro that [OF pipe_step.send_step [OF r(1)]]) (simp add: pipe_work_def)
  next
    case 2
    from sender_progress [OF i(3) this] obtain x r where r: "stage_consume x (pp_md s) r" "stage_work r < stage_work (pp_md s)" .
    show thesis using r(2) stage_consume_keeps [OF r(1)] by (intro that [OF pipe_step.md_step [OF r(1)]]) (simp add: pipe_work_def)
  next
    case 3
    from waits_push [OF i(2) this cap] obtain r where r: "push_one cap (pp_out s) r" "Suc (length (sg_todo r)) = length (sg_todo (pp_out s))" .
    show thesis using r(2) by (intro that [OF pipe_step.match_push_out [OF r(1)]]) (simp add: pipe_work_def)
  next
    case 4
    from waits_push [OF i(3) this cap] obtain r where r: "push_one cap (pp_md s) r" "Suc (length (sg_todo r)) = length (sg_todo (pp_md s))" .
    show thesis using r(2) by (intro that [OF pipe_step.match_push_md [OF r(1)]]) (simp add: pipe_work_def)
  next
    case pushed
    show thesis by (rule matching_progress [OF inv f n cap assms(5) pushed]) (rule that)
  qed
qed

subsection \<open>What the client and the feed get\<close>

text \<open>A list that follows another as far as it has got, but for at most one element left out; once the flag upstream is seen
  and the end is reached nothing else is missing.\<close>

definition follows_but_one :: "'a Stage \<Rightarrow> 'a list \<Rightarrow> bool" where
  "follows_but_one s items \<longleftrightarrow> (\<exists>ys d zs rest. items = ys @ d @ zs @ rest \<and> sg_handled s = ys @ zs \<and> length d \<le> 1
    \<and> (\<not> sg_synced s \<longrightarrow> d = []) \<and> (sg_pc s = Ended \<longrightarrow> rest = []))"

lemma stage_follows: "stage_inv items s \<Longrightarrow> follows_but_one s items"
proof -
  assume i: "stage_inv items s"
  then have "length (filter (\<lambda>t. \<not> snd t) (sg_taken s)) \<le> 1" by (auto simp: stage_inv_def sg_lost_def)
  from one_marked [OF this] obtain ys d zs where y: "map fst (sg_taken s) = ys @ d @ zs" "map fst (filter snd (sg_taken s)) = ys @ zs" "length d \<le> 1" by blast
  show ?thesis
  proof (cases "sg_synced s")
    case True
    have "items = ys @ d @ zs @ sg_queue s @ sg_todo s" using i y(1) by (simp add: stage_inv_def)
    moreover have "sg_pc s = Ended \<longrightarrow> sg_queue s @ sg_todo s = []" using i by (simp add: stage_inv_def)
    ultimately show ?thesis using True y(2,3) unfolding follows_but_one_def sg_handled_def by blast
  next
    case False
    then have "sg_lost s = []" using i by (auto simp: stage_inv_def)
    then have "filter snd (sg_taken s) = sg_taken s" by (auto simp: sg_lost_def filter_empty_conv filter_id_conv)
    then have "sg_handled s = map fst (sg_taken s)" by (simp add: sg_handled_def)
    moreover have "items = map fst (sg_taken s) @ [] @ [] @ sg_queue s @ sg_todo s" "sg_pc s = Ended \<longrightarrow> sg_queue s @ sg_todo s = []"
      using i by (simp_all add: stage_inv_def)
    ultimately show ?thesis unfolding follows_but_one_def
      by (intro exI [of _ "map fst (sg_taken s)"] exI [of _ "[]"] exI [of _ "[]"] exI [of _ "sg_queue s @ sg_todo s"]) simp
  qed
qed

lemma ended_misses_one: "stage_inv items s \<Longrightarrow> sg_pc s = Ended \<Longrightarrow> length items \<le> Suc (length (sg_handled s))"
  using stage_follows [of items s] by (auto simp: follows_but_one_def)

text \<open>The engine before its first request.\<close>

lemma pipe_start:
  assumes "lawful P l" and "length (cf_symbol cfg) = 8" and "serve_new P l cfg [] = Some e"
  shows "follows_book P (pol_valid_price P l) 0 e abook_new \<and> eg_out e = [] \<and> eg_md_q e = [] \<and> eg_cfg e = cfg \<and> eg_match_number e = 0"
proof -
  obtain e0 b where e0: "engine_new P l cfg = Some e0" "reserve_orders P (2 ^ 20) (eg_book e0) = Some b"
    and f: "follows_book P (pol_valid_price P l) 0 (e0\<lparr>eg_book := b\<rparr>) abook_new"
    and z: "eg_cfg e0 = cfg" "eg_out e0 = []" "eg_md_q e0 = []" "eg_match_number e0 = 0" "es_responses (eg_stats e0) = 0"
    using engine_start [OF assms(1,2)] by blast
  have "e = e0\<lparr>eg_book := b\<rparr>" using assms(3) e0 by (simp add: serve_new_def match_thread_def)
  with f z show ?thesis by simp
qed

text \<open>C5: However the four threads of the engine interleave over queues of any capacity, the requests handled are the requests
  received, in order, as far as the matching thread has got; the responses taken to be sent and the feed messages taken to be packed
  are those the specification gives for the requests handled, in order, as far as the two threads have got.  Before a thread has seen the flag
  of its upstream thread nothing is left out, and at its end at most one item is.  No queue ever exceeds its capacity.\<close>

theorem pipeline_follows_spec:
  assumes "lawful P l" and "length (cf_symbol cfg) = 8" and "length reqs < 2 ^ 32" and "serve_new P l cfg [] = Some e"
    and "pipe_reaches P cap e reqs s" and "abs_serve (pol_valid_price P l) (cf_symbol cfg) 0 (pp_served s) abook_new = (rs, evs, A)"
  shows "sg_handled (pp_in s) = map snd (pp_served s) \<and> follows_but_one (pp_in s) reqs \<and> follows_but_one (pp_out s) rs
    \<and> follows_but_one (pp_md s) (if cf_md_port cfg = 0 then [] else map md_msg evs)
    \<and> implements P (pol_valid_price P l) (eg_book (pp_engine s)) A
    \<and> length (sg_queue (pp_in s)) \<le> cap \<and> length (sg_queue (pp_out s)) \<le> cap \<and> length (sg_queue (pp_md s)) \<le> cap"
proof -
  have f: "follows_book P (pol_valid_price P l) 0 e abook_new" and k: "eg_out e = []" "eg_md_q e = []" "eg_cfg e = cfg" "eg_match_number e = 0"
    using pipe_start [OF assms(1,2,4)] by simp_all
  have i: "pipe_inv P cap e reqs s" using pipe_inv_reaches [OF assms(5) f assms(3) k(1,2)] .
  have p: "stage_inv reqs (pp_in s)" "stage_inv (eg_out (pp_engine s)) (pp_out s)" "stage_inv (eg_md_q (pp_engine s)) (pp_md s)"
    "handle_list P (pp_served s) e = Some (pp_engine s)" "sg_handled (pp_in s) = map snd (pp_served s)"
    "length (sg_queue (pp_in s)) \<le> cap" "length (sg_queue (pp_out s)) \<le> cap" "length (sg_queue (pp_md s)) \<le> cap"
    using i by (simp_all add: pipe_inv_def)
  have "0 + length (pp_served s) < 2 ^ 32" using stage_handled_le [OF p(1)] p(5) assms(3) by simp
  from handle_list_spec [OF f this, unfolded k, OF assms(6)] p(4)
  have h: "follows_book P (pol_valid_price P l) (length (pp_served s)) (pp_engine s) A" "eg_out (pp_engine s) = rs"
    "eg_md_q (pp_engine s) = (if cf_md_port cfg = 0 then [] else map md_msg evs)" by (auto simp: publish_def k)
  have "implements P (pol_valid_price P l) (eg_book (pp_engine s)) A" using h(1) by (simp add: follows_book_def)
  with p(5-8) stage_follows [OF p(1)] stage_follows [OF p(2)] stage_follows [OF p(3)] show ?thesis unfolding h(2,3) by blast
qed

lemma pipe_finishes:
  assumes "pipe_reaches P cap e reqs s" and "follows_book P V 0 e A" and "length reqs < 2 ^ 32" and "eg_out e = []" and "eg_md_q e = []" and "0 < cap"
  shows "\<exists>s'. (pipe_step P cap)\<^sup>*\<^sup>* s s' \<and> pipe_reaches P cap e reqs s' \<and> pipe_ended s'"
  using wf_less_work assms(1)
proof (induction s rule: wf_induct_rule)
  case (less s)
  show ?case
  proof (cases "pipe_ended s")
    case True
    with less.prems show ?thesis by blast
  next
    case False
    from pipe_progress [OF pipe_inv_reaches [OF less.prems assms(2-5)] assms(2,3,6) this]
    obtain s1 where s1: "pipe_step P cap s s1" "(s1, s) \<in> less_work" .
    from less.IH [OF s1(2) pipe_reaches.more [OF less.prems s1(1)]] show ?thesis
      using converse_rtranclp_into_rtranclp [where r = "pipe_step P cap", OF s1(1)] by blast
  qed
qed

text \<open>C6: The engine has no deadlock: whatever the four threads have done so far, over queues of any capacity but 0, they can all
  come to their end; then at most one request was not handled, and at most one response and one feed message were not taken.\<close>

theorem pipeline_can_finish:
  assumes "lawful P l" and "length (cf_symbol cfg) = 8" and "length reqs < 2 ^ 32" and "serve_new P l cfg [] = Some e"
    and "pipe_reaches P cap e reqs s" and "0 < cap"
  shows "\<exists>s'. (pipe_step P cap)\<^sup>*\<^sup>* s s' \<and> pipe_ended s' \<and> length reqs \<le> Suc (length (sg_handled (pp_in s')))
    \<and> length (eg_out (pp_engine s')) \<le> Suc (length (sg_handled (pp_out s')))
    \<and> length (eg_md_q (pp_engine s')) \<le> Suc (length (sg_handled (pp_md s')))"
proof -
  obtain A where f: "follows_book P (pol_valid_price P l) 0 e A" "eg_out e = []" "eg_md_q e = []" using pipe_start [OF assms(1,2,4)] by blast
  from pipe_finishes [OF assms(5) f(1) assms(3) f(2,3) assms(6)] obtain s' where s': "(pipe_step P cap)\<^sup>*\<^sup>* s s'" "pipe_reaches P cap e reqs s'" "pipe_ended s'"
    by blast
  then show ?thesis using pipe_inv_reaches [OF s'(2) f(1) assms(3) f(2,3)] by (auto simp: pipe_inv_def pipe_ended_def intro!: exI [of _ s'] ended_misses_one)
qed

theorem pipeline_follows_spec_witness:
  "\<exists>e s r1 r2. map snd sample_requests = [r1, r2] \<and> serve_new map_open_policy ml_new sample_config [] = Some e
    \<and> pipe_reaches map_open_policy 1 e [r1, r2] s \<and> pp_served s = [(1, r1)]
    \<and> follows_but_one (pp_in s) [r1, r2] \<and> (\<exists>rs evs A. abs_serve (pol_valid_price map_open_policy ml_new) (cf_symbol sample_config) 0 [(1, r1)] abook_new = (rs, evs, A)
        \<and> follows_but_one (pp_out s) rs \<and> implements map_open_policy (pol_valid_price map_open_policy ml_new) (eg_book (pp_engine s)) A)"
proof -
  have c: "length (cf_symbol sample_config) = 8" by (simp add: sample_config_def)
  obtain r1 r2 where r: "sample_requests = [(1, r1), (2, r2)]" by (simp add: sample_requests_def)
  obtain e0 b where e0: "engine_new map_open_policy ml_new sample_config = Some e0" "reserve_orders map_open_policy (2 ^ 20) (eg_book e0) = Some b"
    and f: "follows_book map_open_policy (pol_valid_price map_open_policy ml_new) 0 (e0\<lparr>eg_book := b\<rparr>) abook_new"
    using engine_start [OF lawful_policies(2) c] by blast
  define e where "e = e0\<lparr>eg_book := b\<rparr>"
  have e: "serve_new map_open_policy ml_new sample_config [] = Some e" using e0 by (simp add: serve_new_def match_thread_def e_def)
  obtain e1 where h: "handle map_open_policy 1 r1 e = Some e1" using handle_spec [OF f, of 1 r1] by (auto simp: e_def)
  let ?s0 = "pipe_new e [r1, r2]"
  define s1 where "s1 = ?s0\<lparr>pp_in := (pp_in ?s0)\<lparr>sg_todo := [r2], sg_queue := [r1]\<rparr>\<rparr>"
  have "pipe_step map_open_policy 1 ?s0 s1" unfolding s1_def
    by (rule pipe_step.recv_push) (simp add: push_one_def pipe_new_def stage_new_def)
  then have s1: "pipe_reaches map_open_policy 1 e [r1, r2] s1" by (rule pipe_reaches.more [OF pipe_reaches.start])
  have "stage_consume (Some r1) (pp_in s1) ((pp_in s1)\<lparr>sg_queue := [], sg_taken := sg_taken (pp_in s1) @ [(r1, True)]\<rparr>)"
    by (rule stage_consume.pop_item) (simp_all add: s1_def pipe_new_def stage_new_def)
  moreover have "pushed_all s1" "pp_engine s1 = e" "pp_served s1 = []" by (simp_all add: pushed_all_def s1_def pipe_new_def stage_new_def)
  ultimately obtain s2 where s2: "pipe_step map_open_policy 1 s1 s2" "pp_served s2 = [(1, r1)]"
    using pipe_step.match_handles [of s1 r1 _ map_open_policy 1 e1 1] h by (fastforce)
  have reach: "pipe_reaches map_open_policy 1 e [r1, r2] s2" by (rule pipe_reaches.more [OF s1 s2(1)])
  obtain rs evs A where a: "abs_serve (pol_valid_price map_open_policy ml_new) (cf_symbol sample_config) 0 [(1, r1)] abook_new = (rs, evs, A)"
    by (metis prod_cases3)
  from pipeline_follows_spec [OF lawful_policies(2) c _ e reach a(1) [folded s2(2)]]
  have "follows_but_one (pp_in s2) [r1, r2] \<and> follows_but_one (pp_out s2) rs
      \<and> implements map_open_policy (pol_valid_price map_open_policy ml_new) (eg_book (pp_engine s2)) A" by simp
  then have "\<exists>rs evs A. abs_serve (pol_valid_price map_open_policy ml_new) (cf_symbol sample_config) 0 [(1, r1)] abook_new = (rs, evs, A)
      \<and> follows_but_one (pp_out s2) rs \<and> implements map_open_policy (pol_valid_price map_open_policy ml_new) (eg_book (pp_engine s2)) A"
    and "follows_but_one (pp_in s2) [r1, r2]" using a by blast+
  moreover have "map snd sample_requests = [r1, r2]" unfolding r list.map snd_conv by (rule refl)
  ultimately show ?thesis using e reach s2(2)
    by - (rule exI [of _ e], rule exI [of _ s2], rule exI [of _ r1], rule exI [of _ r2], intro conjI)
qed

theorem pipeline_can_finish_witness:
  "\<exists>e s'. serve_new map_open_policy ml_new sample_config [] = Some e
    \<and> (pipe_step map_open_policy 1)\<^sup>*\<^sup>* (pipe_new e (map snd sample_requests)) s' \<and> pipe_ended s' \<and> 2 \<le> Suc (length (sg_handled (pp_in s')))"
proof -
  have c: "length (cf_symbol sample_config) = 8" "length (map snd sample_requests) = 2" by (simp_all add: sample_config_def sample_requests_def)
  obtain e where e: "serve_new map_open_policy ml_new sample_config [] = Some e"
    using engine_start [OF lawful_policies(2) c(1)] by (auto simp: serve_new_def match_thread_def)
  from pipeline_can_finish [OF lawful_policies(2) c(1) _ e pipe_reaches.start, of "map snd sample_requests" 1] e
  show ?thesis unfolding c(2) by auto
qed

end
