(* ===== verification/QueuePosition.thy ===== *)
theory QueuePosition
  imports AbsBook "HOL-Library.AList"
begin

text \<open>
  The queue position of one simulated passive order (\<^verbatim>\<open>include/pricetime/queue_position.hpp\<close>).  The
  recorded orders ahead are an association list with distinct keys; the code's \<^verbatim>\<open>unordered_map\<close>
  is only looked up, updated, erased from and summed over, so that its order is never seen.
\<close>

record QueuePosition =
  qp_price :: Price
  qp_side :: Side
  qp_remaining :: Qty
  qp_shares_ahead :: u64
  qp_ahead :: "(OrderId \<times> Qty) list"
  qp_active :: bool

definition qp_default :: QueuePosition where
  "qp_default = \<lparr>qp_price = 0, qp_side = Bid, qp_remaining = 0, qp_shares_ahead = 0, qp_ahead = [], qp_active = False\<rparr>"

definition qp_place :: "Price \<Rightarrow> Side \<Rightarrow> Qty \<Rightarrow> (OrderId \<times> Qty) list \<Rightarrow> QueuePosition \<Rightarrow> QueuePosition" where
  "qp_place price side qty ahead Q =
     (let Q = Q\<lparr>qp_price := price, qp_side := side, qp_remaining := qty, qp_ahead := ahead, qp_shares_ahead := 0\<rparr>;
          Q = fold (\<lambda>kv Q. Q\<lparr>qp_shares_ahead := qp_shares_ahead Q + ucast (snd kv)\<rparr>) ahead Q
      in Q\<lparr>qp_active := True\<rparr>)"

definition qp_cancel :: "QueuePosition \<Rightarrow> QueuePosition" where
  "qp_cancel Q = Q\<lparr>qp_active := False, qp_ahead := [], qp_shares_ahead := 0\<rparr>"

definition qp_at_front :: "QueuePosition \<Rightarrow> bool" where
  "qp_at_front Q \<longleftrightarrow> qp_active Q \<and> qp_ahead Q = []"

definition on_shares_removed :: "OrderId \<Rightarrow> Qty \<Rightarrow> QueuePosition \<Rightarrow> QueuePosition" where
  "on_shares_removed oid qty Q =
     (case map_of (qp_ahead Q) oid of
        None \<Rightarrow> Q
      | Some open_qty \<Rightarrow>
          (let taken = (if qty < open_qty then qty else open_qty);
               Q = Q\<lparr>qp_ahead := AList.update oid (open_qty - taken) (qp_ahead Q)\<rparr>;
               Q = Q\<lparr>qp_shares_ahead := qp_shares_ahead Q - ucast taken\<rparr>
           in if open_qty - taken = 0 then Q\<lparr>qp_ahead := AList.delete oid (qp_ahead Q)\<rparr> else Q))"

definition take_fill :: "Qty \<Rightarrow> QueuePosition \<Rightarrow> Qty \<times> QueuePosition" where
  "take_fill print_qty Q =
     (let fill = (if print_qty < qp_remaining Q then print_qty else qp_remaining Q);
          Q = Q\<lparr>qp_remaining := qp_remaining Q - fill\<rparr>
      in (fill, if qp_remaining Q = 0 then Q\<lparr>qp_active := False\<rparr> else Q))"

subsection \<open>Standing behind a queue\<close>

text \<open>The tracker records exactly the orders \<open>es\<close>, with what is open of each, and their sum.\<close>

definition behind :: "QueuePosition \<Rightarrow> queue \<Rightarrow> bool" where
  "behind Q es \<longleftrightarrow> qp_ahead Q = map (\<lambda>e. (en_id e, en_qty e)) es \<and> qp_shares_ahead Q = (\<Sum>e\<leftarrow>es. ucast (en_qty e))"

text \<open>Taking \<open>q\<close> off the order \<open>oid\<close> of a queue; an order with nothing left is gone.\<close>

definition shrink :: "OrderId \<Rightarrow> Qty \<Rightarrow> queue \<Rightarrow> queue" where
  "shrink oid q es = filter (\<lambda>e. en_qty e \<noteq> 0)
     (map (\<lambda>e. if en_id e = oid then e\<lparr>en_qty := en_qty e - min q (en_qty e)\<rparr> else e) es)"

lemma shrink_append: "shrink oid q (xs @ ys) = shrink oid q xs @ shrink oid q ys"
  by (simp add: shrink_def)

lemma shrink_other: "oid \<notin> en_id ` set es \<Longrightarrow> \<forall>e \<in> set es. en_qty e \<noteq> 0 \<Longrightarrow> shrink oid q es = es"
proof -
  assume o1: "oid \<notin> en_id ` set es" "\<forall>e \<in> set es. en_qty e \<noteq> 0"
  then have "map (\<lambda>e. if en_id e = oid then e\<lparr>en_qty := en_qty e - min q (en_qty e)\<rparr> else e) es = es"
    by (intro map_idI) auto
  then show ?thesis using o1(2) by (simp add: shrink_def filter_id_conv)
qed

lemma place_shares: "fold (\<lambda>kv Q. Q\<lparr>qp_shares_ahead := qp_shares_ahead Q + ucast (snd kv)\<rparr>) kvs Q
    = Q\<lparr>qp_shares_ahead := qp_shares_ahead Q + (\<Sum>kv\<leftarrow>kvs. ucast (snd kv))\<rparr>"
  by (induction kvs arbitrary: Q) (simp_all add: add.assoc)

lemma place_behind:
  "behind (qp_place price side qty (map (\<lambda>e. (en_id e, en_qty e)) es) Q) es"
  "qp_active (qp_place price side qty ahead Q)" "qp_price (qp_place price side qty ahead Q) = price"
  "qp_side (qp_place price side qty ahead Q) = side" "qp_remaining (qp_place price side qty ahead Q) = qty"
  by (simp_all add: qp_place_def behind_def place_shares comp_def Let_def)

lemma removed_frame [simp]:
  "qp_active (on_shares_removed oid qty Q) = qp_active Q" "qp_price (on_shares_removed oid qty Q) = qp_price Q"
  "qp_side (on_shares_removed oid qty Q) = qp_side Q" "qp_remaining (on_shares_removed oid qty Q) = qp_remaining Q"
  by (simp_all add: on_shares_removed_def Let_def split: option.split)

lemma update_middle: "k \<notin> fst ` set xs \<Longrightarrow> AList.update k v (xs @ (k, w) # ys) = xs @ (k, v) # ys"
  by (induction xs) auto

lemma removed_behind:
  assumes b: "behind Q es" and d: "distinct (map en_id es)" and q: "\<forall>e \<in> set es. en_qty e \<noteq> 0"
  shows "behind (on_shares_removed oid qty Q) (shrink oid qty es)"
proof (cases "oid \<in> en_id ` set es")
  case False
  then have "map_of (qp_ahead Q) oid = None" using b by (auto simp: behind_def map_of_eq_None_iff)
  then show ?thesis using b shrink_other [OF False q] by (simp add: on_shares_removed_def)
next
  case True
  then obtain e pre post where es: "es = pre @ e # post" "en_id e = oid" by (metis imageE split_list)
  let ?kv = "\<lambda>e. (en_id e, en_qty e)"
  have n: "oid \<notin> en_id ` set pre" "oid \<notin> en_id ` set post" "\<forall>e \<in> set pre. en_qty e \<noteq> 0" "\<forall>e \<in> set post. en_qty e \<noteq> 0" "en_qty e \<noteq> 0"
    using d q es by auto
  have k: "oid \<notin> fst ` set (map ?kv pre)" "oid \<notin> fst ` set (map ?kv post)" using n(1,2) by auto
  have a: "qp_ahead Q = map ?kv pre @ (oid, en_qty e) # map ?kv post" using b es by (simp add: behind_def)
  then have m: "map_of (qp_ahead Q) oid = Some (en_qty e)" using k(1) by (simp add: map_of_eq_None_iff [THEN iffD2] map_add_def)
  define taken where "taken = (if qty < en_qty e then qty else en_qty e)"
  have t: "min qty (en_qty e) = taken" unfolding taken_def min_def by (auto simp: order.order_iff_strict)
  have u: "AList.update oid v (qp_ahead Q) = map ?kv pre @ (oid, v) # map ?kv post" for v
    unfolding a by (rule update_middle [OF k(1)])
  have r: "AList.delete oid (map ?kv pre @ (oid, v) # map ?kv post) = map ?kv pre @ map ?kv post" for v
  proof -
    have "filter (\<lambda>(k, _). oid \<noteq> k) (map ?kv pre) = map ?kv pre" "filter (\<lambda>(k, _). oid \<noteq> k) (map ?kv post) = map ?kv post"
      using n(1,2) by (auto intro!: filter_id_conv [THEN iffD2])
    then show ?thesis unfolding AList.delete_eq by simp
  qed
  have s: "shrink oid qty es = pre @ (if en_qty e - taken = 0 then [] else [e\<lparr>en_qty := en_qty e - taken\<rparr>]) @ post"
    unfolding es(1) using shrink_append [of oid qty pre "[e] @ post"] shrink_append [of oid qty "[e]" post]
      shrink_other [OF n(1,3)] shrink_other [OF n(2,4)] es(2) t by (simp add: shrink_def [of oid qty "[e]"])
  have w: "taken \<le> en_qty e" by (simp add: taken_def less_imp_le)
  have sh: "qp_shares_ahead Q = (\<Sum>e\<leftarrow>pre. ucast (en_qty e)) + (ucast (en_qty e) + (\<Sum>e\<leftarrow>post. ucast (en_qty e)))"
    using b es by (simp add: behind_def)
  have f: "en_qty e - taken = 0 \<Longrightarrow> taken = en_qty e" by simp
  have Q: "on_shares_removed oid qty Q = (if en_qty e - taken = 0
      then Q\<lparr>qp_ahead := map ?kv pre @ map ?kv post, qp_shares_ahead := qp_shares_ahead Q - ucast taken\<rparr>
      else Q\<lparr>qp_ahead := map ?kv pre @ (oid, en_qty e - taken) # map ?kv post, qp_shares_ahead := qp_shares_ahead Q - ucast taken\<rparr>)"
    by (simp add: on_shares_removed_def m u r taken_def [symmetric] Let_def)
  show ?thesis
  proof (cases "en_qty e - taken = 0")
    case True
    show ?thesis unfolding Q s behind_def using f [OF True] sh True by simp
  next
    case False
    show ?thesis unfolding Q s behind_def using sh False es(2) w by (simp add: ucast_u32_diff)
  qed
qed

lemma removed_nothing: "qp_ahead Q = [] \<Longrightarrow> on_shares_removed oid qty Q = Q"
  by (simp add: on_shares_removed_def)

lemma take_fill_bounds:
  assumes "take_fill print_qty Q = (fill, Q')"
  shows "fill = min print_qty (qp_remaining Q)" and "qp_remaining Q' = qp_remaining Q - fill"
    and "qp_active Q' \<longleftrightarrow> qp_active Q \<and> qp_remaining Q' \<noteq> 0" and "qp_ahead Q' = qp_ahead Q"
    and "qp_shares_ahead Q' = qp_shares_ahead Q" and "qp_price Q' = qp_price Q" and "qp_side Q' = qp_side Q"
  using assms by (auto simp: take_fill_def Let_def min_def split: if_splits)

end
