(* ===== verification/MarketMaker.thy ===== *)
theory MarketMaker
  imports Types "HOL-Library.Signed_Division" "HOL-Library.Monad_Syntax"
begin

text \<open>
  The simulated market maker and its accounting (\<^verbatim>\<open>include/pricetime/market_maker.hpp\<close>): quotes, limits,
  fills, the history of the mid and the reported integers.  Here the code computes with \<^verbatim>\<open>int64_t\<close>
  values; a result outside their range is undefined behaviour and makes the model \<^term>\<open>None\<close>.  The
  two statistics computed in floating point are not modelled.
\<close>

definition i64 :: "int \<Rightarrow> int option" where
  "i64 x = (if - (2 ^ 63) \<le> x \<and> x < 2 ^ 63 then Some x else None)"

record FillEvent =
  fe_side :: Side
  fe_price :: Price
  fe_qty :: Qty
  fe_timestamp :: u64
  fe_mid_at_fill :: Price

record MarketMakerConfig =
  mc_half_spread_ticks :: Price
  mc_quote_size :: Qty
  mc_max_position :: int
  mc_skew_per_100_shares :: Price

record MidPoint =
  mp_ts :: u64
  mp_mid :: Price

record MarketMaker =
  mm_cfg :: MarketMakerConfig
  mm_position :: int
  mm_cash :: int
  mm_fills :: u64
  mm_volume :: u64
  mm_last_mid :: Price
  mm_last_ts :: u64
  mm_fills_log :: "FillEvent list"
  mm_mid_history :: "MidPoint list"

definition market_maker_new :: "MarketMakerConfig \<Rightarrow> MarketMaker" where
  "market_maker_new cfg = \<lparr>mm_cfg = cfg, mm_position = 0, mm_cash = 0, mm_fills = 0, mm_volume = 0, mm_last_mid = 0,
     mm_last_ts = 0, mm_fills_log = [], mm_mid_history = []\<rparr>"

text \<open>Integer division of C++ truncates towards zero.\<close>

definition skew :: "MarketMaker \<Rightarrow> int option" where
  "skew M = do { x \<leftarrow> i64 (mm_position M * mc_skew_per_100_shares (mm_cfg M)); Some (x sdiv 100) }"

definition bid_quote :: "Price \<Rightarrow> MarketMaker \<Rightarrow> Price option" where
  "bid_quote mid M = do { x \<leftarrow> i64 (mid - mc_half_spread_ticks (mm_cfg M)); k \<leftarrow> skew M; i64 (x - k) }"

definition ask_quote :: "Price \<Rightarrow> MarketMaker \<Rightarrow> Price option" where
  "ask_quote mid M = do { x \<leftarrow> i64 (mid + mc_half_spread_ticks (mm_cfg M)); k \<leftarrow> skew M; i64 (x - k) }"

definition wants_bid :: "MarketMaker \<Rightarrow> bool" where
  "wants_bid M \<longleftrightarrow> mm_position M < mc_max_position (mm_cfg M)"

definition wants_ask :: "MarketMaker \<Rightarrow> bool option" where
  "wants_ask M = do { m \<leftarrow> i64 (- mc_max_position (mm_cfg M)); Some (mm_position M > m) }"

definition signed_qty :: "FillEvent \<Rightarrow> int" where
  "signed_qty f = (if fe_side f = Bid then uint (fe_qty f) else - uint (fe_qty f))"

definition on_fill :: "FillEvent \<Rightarrow> MarketMaker \<Rightarrow> MarketMaker option" where
  "on_fill f M = do {
     spent \<leftarrow> i64 (signed_qty f * fe_price f);
     cash \<leftarrow> i64 (mm_cash M - spent);
     pos \<leftarrow> i64 (mm_position M + signed_qty f);
     Some (M\<lparr>mm_cash := cash, mm_position := pos, mm_fills := mm_fills M + 1, mm_volume := mm_volume M + ucast (fe_qty f),
       mm_fills_log := mm_fills_log M @ [f]\<rparr>) }"

definition on_mid :: "Price \<Rightarrow> u64 \<Rightarrow> MarketMaker \<Rightarrow> MarketMaker" where
  "on_mid mid timestamp M =
     (let M = M\<lparr>mm_last_mid := mid, mm_last_ts := timestamp\<rparr>
      in M\<lparr>mm_mid_history := mm_mid_history M @ [\<lparr>mp_ts = timestamp, mp_mid = mid\<rparr>]\<rparr>)"

definition inventory_value_ticks :: "Price \<Rightarrow> MarketMaker \<Rightarrow> int option" where
  "inventory_value_ticks mark M = i64 (mm_position M * mark)"

definition total_pnl_ticks :: "Price \<Rightarrow> MarketMaker \<Rightarrow> int option" where
  "total_pnl_ticks mark M = do { v \<leftarrow> i64 (mm_position M * mark); i64 (mm_cash M + v) }"

fun peak_loop :: "FillEvent list \<Rightarrow> int \<Rightarrow> int \<Rightarrow> int option" where
  "peak_loop [] peak pos = Some peak"
| "peak_loop (f # fs) peak pos = do {
     pos \<leftarrow> i64 (pos + signed_qty f);
     a \<leftarrow> (if pos < 0 then i64 (- pos) else Some pos);
     peak_loop fs (if a > peak then a else peak) pos }"

definition peak_abs_position :: "MarketMaker \<Rightarrow> int option" where
  "peak_abs_position M = peak_loop (mm_fills_log M) 0 0"

definition kNoMid :: Price where
  "kNoMid = - (2 ^ 63)"

text \<open>The binary search; a read past the end of the history is \<^term>\<open>None\<close>.\<close>

definition history_at :: "MarketMaker \<Rightarrow> nat \<Rightarrow> MidPoint option" where
  "history_at M i = (if i < length (mm_mid_history M) then Some (mm_mid_history M ! i) else None)"

function mid_search :: "MarketMaker \<Rightarrow> u64 \<Rightarrow> nat \<Rightarrow> nat \<Rightarrow> nat option" where
  "mid_search M ts lo hi =
     (if lo < hi then
        (let mid_idx = lo + (hi - lo) div 2 in do {
           m \<leftarrow> history_at M mid_idx;
           if mp_ts m < ts then mid_search M ts (mid_idx + 1) hi else mid_search M ts lo mid_idx })
      else Some lo)"
  by pat_completeness auto
termination
  by (relation "measure (\<lambda>(M, ts, lo, hi). hi - lo)") auto

declare mid_search.simps [simp del]

definition mid_at_or_after :: "u64 \<Rightarrow> MarketMaker \<Rightarrow> Price option" where
  "mid_at_or_after ts M = do {
     lo \<leftarrow> mid_search M ts 0 (length (mm_mid_history M));
     if lo < length (mm_mid_history M) then map_option mp_mid (history_at M lo) else Some kNoMid }"

subsection \<open>The search\<close>

lemma mid_search_first:
  assumes "sorted (map mp_ts (mm_mid_history M))" and "lo \<le> hi" and "hi \<le> length (mm_mid_history M)"
    and "\<forall>i < lo. mp_ts (mm_mid_history M ! i) < ts" and "\<forall>i. hi \<le> i \<and> i < length (mm_mid_history M) \<longrightarrow> ts \<le> mp_ts (mm_mid_history M ! i)"
  shows "\<exists>k \<le> length (mm_mid_history M). mid_search M ts lo hi = Some k \<and> (\<forall>i < k. mp_ts (mm_mid_history M ! i) < ts)
    \<and> (\<forall>i. k \<le> i \<and> i < length (mm_mid_history M) \<longrightarrow> ts \<le> mp_ts (mm_mid_history M ! i))"
  using assms
proof (induction M ts lo hi rule: mid_search.induct)
  case (1 M ts lo hi)
  let ?h = "mm_mid_history M" and ?m = "lo + (hi - lo) div 2"
  have mono: "i \<le> j \<Longrightarrow> j < length ?h \<Longrightarrow> mp_ts (?h ! i) \<le> mp_ts (?h ! j)" for i j
    using sorted_nth_mono [OF "1.prems"(1), of i j] by simp
  show ?case
  proof (cases "lo < hi")
    case False
    then show ?thesis using "1.prems" by (subst mid_search.simps) auto
  next
    case True
    then have m: "?m < hi" "lo \<le> ?m" "?m < length ?h" using "1.prems"(3) by auto
    then have r: "history_at M ?m = Some (?h ! ?m)" by (simp add: history_at_def)
    show ?thesis
    proof (cases "mp_ts (?h ! ?m) < ts")
      case lt: True
      have a: "\<forall>i < ?m + 1. mp_ts (?h ! i) < ts"
      proof (intro allI impI)
        fix i assume "i < ?m + 1"
        then have "mp_ts (?h ! i) \<le> mp_ts (?h ! ?m)" using m(3) by (intro mono) auto
        then show "mp_ts (?h ! i) < ts" using lt by simp
      qed
      have "mid_search M ts lo hi = mid_search M ts (?m + 1) hi"
        using True r lt by (subst mid_search.simps) (simp add: Let_def)
      moreover have "?m + 1 \<le> hi" using m(1) by simp
      ultimately show ?thesis
        using "1.IH"(1) [OF True refl r lt "1.prems"(1) _ "1.prems"(3) a "1.prems"(5)] by simp
    next
      case ge: False
      have a: "\<forall>i. ?m \<le> i \<and> i < length ?h \<longrightarrow> ts \<le> mp_ts (?h ! i)"
      proof (intro allI impI)
        fix i assume "?m \<le> i \<and> i < length ?h"
        then have "mp_ts (?h ! ?m) \<le> mp_ts (?h ! i)" by (intro mono) auto
        then show "ts \<le> mp_ts (?h ! i)" using ge by simp
      qed
      have "mid_search M ts lo hi = mid_search M ts lo ?m"
        using True r ge by (subst mid_search.simps) (simp add: Let_def)
      moreover have "?m \<le> length ?h" using m(3) by simp
      ultimately show ?thesis
        using "1.IH"(2) [OF True refl r ge "1.prems"(1) m(2) _ "1.prems"(4) a] by simp
    qed
  qed
qed

lemma find_first:
  assumes "k \<le> length xs" and "\<forall>i < k. \<not> Q (xs ! i)" and "\<forall>i. k \<le> i \<and> i < length xs \<longrightarrow> Q (xs ! i)"
  shows "List.find Q xs = (if k < length xs then Some (xs ! k) else None)"
proof (cases "k < length xs")
  case True
  then have "\<exists>i. i < length xs \<and> Q (xs ! i) \<and> xs ! k = xs ! i \<and> (\<forall>j < i. \<not> Q (xs ! j))" using assms by blast
  then show ?thesis using True find_Some_iff [of Q xs] by auto
next
  case False
  then show ?thesis using assms(1,2) find_None_iff [of Q xs] by (auto simp: in_set_conv_nth)
qed

lemma mid_lookup:
  assumes "sorted (map mp_ts (mm_mid_history M))"
  shows "mid_at_or_after ts M = Some (case List.find (\<lambda>m. ts \<le> mp_ts m) (mm_mid_history M) of None \<Rightarrow> kNoMid | Some m \<Rightarrow> mp_mid m)"
proof -
  obtain k where k: "k \<le> length (mm_mid_history M)" "mid_search M ts 0 (length (mm_mid_history M)) = Some k"
    "\<forall>i < k. mp_ts (mm_mid_history M ! i) < ts" "\<forall>i. k \<le> i \<and> i < length (mm_mid_history M) \<longrightarrow> ts \<le> mp_ts (mm_mid_history M ! i)"
    using mid_search_first [OF assms le0 order_refl, of ts] by (metis (no_types, lifting) not_less_zero not_le)
  have "\<forall>i < k. \<not> ts \<le> mp_ts (mm_mid_history M ! i)" using k(3) by (simp add: not_le)
  from find_first [OF k(1) this k(4)] show ?thesis using k(2) by (simp add: mid_at_or_after_def history_at_def)
qed

subsection \<open>The accounts\<close>

text \<open>A sequence of fills, and what it amounts to.\<close>

fun on_fills :: "FillEvent list \<Rightarrow> MarketMaker \<Rightarrow> MarketMaker option" where
  "on_fills [] M = Some M"
| "on_fills (f # fs) M = do { M \<leftarrow> on_fill f M; on_fills fs M }"

definition bought :: "FillEvent list \<Rightarrow> int" where
  "bought fs = (\<Sum>f\<leftarrow>fs. signed_qty f)"

definition turnover :: "FillEvent list \<Rightarrow> int" where
  "turnover fs = (\<Sum>f\<leftarrow>fs. uint (fe_qty f))"

text \<open>The books of the maker agree with its log.\<close>

definition accounts_ok :: "MarketMaker \<Rightarrow> bool" where
  "accounts_ok M \<longleftrightarrow> mm_position M = bought (mm_fills_log M)
     \<and> mm_cash M = - (\<Sum>f\<leftarrow>mm_fills_log M. signed_qty f * fe_price f)
     \<and> mm_fills M = of_nat (length (mm_fills_log M)) \<and> mm_volume M = (\<Sum>f\<leftarrow>mm_fills_log M. ucast (fe_qty f))"

lemma accounts_new: "accounts_ok (market_maker_new cfg)"
  by (simp add: accounts_ok_def market_maker_new_def bought_def)

lemma accounts_fill: "on_fill f M = Some M' \<Longrightarrow> accounts_ok M \<Longrightarrow> accounts_ok M'"
  by (auto simp: on_fill_def accounts_ok_def i64_def bought_def split: bind_splits if_splits)

lemma accounts_mid: "accounts_ok (on_mid mid ts M) = accounts_ok M"
  by (simp add: accounts_ok_def on_mid_def Let_def)

lemma fill_fields: "on_fill f M = Some M' \<Longrightarrow> mm_fills_log M' = mm_fills_log M @ [f] \<and> mm_cfg M' = mm_cfg M
    \<and> mm_position M' = mm_position M + signed_qty f \<and> mm_mid_history M' = mm_mid_history M"
  by (auto simp: on_fill_def i64_def split: bind_splits if_splits)

lemma signed_abs: "\<bar>signed_qty f\<bar> = uint (fe_qty f)"
  by (simp add: signed_qty_def)

lemma bought_simps [simp]: "bought [] = 0" "bought (f # fs) = signed_qty f + bought fs" "bought (fs @ gs) = bought fs + bought gs"
  by (simp_all add: bought_def)

lemma turnover_simps [simp]: "turnover [] = 0" "turnover (f # fs) = uint (fe_qty f) + turnover fs" "turnover (fs @ gs) = turnover fs + turnover gs"
  by (simp_all add: turnover_def)

lemma turnover_nonneg: "0 \<le> turnover fs"
  by (induction fs) simp_all

lemma bought_turnover: "\<bar>bought fs\<bar> \<le> turnover fs"
proof (induction fs)
  case (Cons f fs)
  then show ?case using signed_abs [of f] by (simp; linarith)
qed simp

lemma spent_turnover:
  assumes "\<forall>f \<in> set fs. \<bar>fe_price f\<bar> \<le> K" and "0 \<le> K"
  shows "\<bar>\<Sum>f\<leftarrow>fs. signed_qty f * fe_price f\<bar> \<le> turnover fs * K"
  using assms
proof (induction fs)
  case (Cons f fs)
  have "\<bar>signed_qty f * fe_price f\<bar> \<le> uint (fe_qty f) * K"
    unfolding abs_mult signed_abs using Cons.prems by (intro mult_left_mono) auto
  with Cons show ?case by (auto simp: algebra_simps)
qed simp

text \<open>Nothing overflows while the turnover at the highest price is in range.\<close>

lemma on_fill_defined:
  assumes "accounts_ok M" and "\<forall>f \<in> set (mm_fills_log M @ [f]). \<bar>fe_price f\<bar> \<le> K" and "1 \<le> K"
    and "turnover (mm_fills_log M @ [f]) * K < 2 ^ 63"
  shows "\<exists>M'. on_fill f M = Some M'"
proof -
  let ?t = "turnover (mm_fills_log M @ [f])"
  have "\<bar>signed_qty f * fe_price f\<bar> \<le> turnover [f] * K" using spent_turnover [of "[f]" K] assms(2,3) by simp
  moreover have "turnover [f] * K \<le> ?t * K" using assms(3) turnover_nonneg [of "mm_fills_log M"] by (intro mult_right_mono) auto
  ultimately have s: "\<bar>signed_qty f * fe_price f\<bar> \<le> ?t * K" by linarith
  have c: "\<bar>mm_cash M - signed_qty f * fe_price f\<bar> \<le> ?t * K"
    using spent_turnover [OF assms(2)] assms(1,3) by (simp add: accounts_ok_def)
  have "?t * 1 \<le> ?t * K" using assms(3) turnover_nonneg by (intro mult_left_mono)
  then have p: "\<bar>mm_position M + signed_qty f\<bar> \<le> ?t * K"
    using bought_turnover [of "mm_fills_log M @ [f]"] assms(1) by (simp add: accounts_ok_def)
  show ?thesis using s c p assms(4) by (auto simp: on_fill_def i64_def abs_le_iff)
qed

lemma on_fills_spec:
  assumes "accounts_ok M" and "\<forall>f \<in> set (mm_fills_log M @ fs). \<bar>fe_price f\<bar> \<le> K" and "1 \<le> K"
    and "turnover (mm_fills_log M @ fs) * K < 2 ^ 63"
  shows "\<exists>M'. on_fills fs M = Some M' \<and> accounts_ok M' \<and> mm_fills_log M' = mm_fills_log M @ fs"
  using assms
proof (induction fs arbitrary: M)
  case (Cons f fs)
  have "turnover (mm_fills_log M @ [f]) * K \<le> turnover (mm_fills_log M @ f # fs) * K"
    using turnover_nonneg [of fs] Cons.prems(3) by (intro mult_right_mono) auto
  then have "turnover (mm_fills_log M @ [f]) * K < 2 ^ 63" using Cons.prems(4) by (rule le_less_trans)
  moreover have "\<forall>f \<in> set (mm_fills_log M @ [f]). \<bar>fe_price f\<bar> \<le> K" using Cons.prems(2) by simp
  ultimately obtain M1 where M1: "on_fill f M = Some M1" using on_fill_defined [OF Cons.prems(1) _ Cons.prems(3)] by blast
  note F = fill_fields [OF M1]
  have "\<exists>M'. on_fills fs M1 = Some M' \<and> accounts_ok M' \<and> mm_fills_log M' = mm_fills_log M1 @ fs"
    using Cons.prems F accounts_fill [OF M1] by (intro Cons.IH) auto
  then show ?case using M1 F by auto
qed simp

lemma peak_spec:
  assumes "\<bar>pos\<bar> + turnover fs < 2 ^ 63" and "\<bar>pos\<bar> \<le> peak"
  shows "\<exists>k. peak_loop fs peak pos = Some k \<and> peak \<le> k \<and> (\<forall>n \<le> length fs. \<bar>pos + bought (take n fs)\<bar> \<le> k)
    \<and> (k = peak \<or> (\<exists>n \<le> length fs. k = \<bar>pos + bought (take n fs)\<bar>))"
  using assms
proof (induction fs arbitrary: pos peak)
  case (Cons f fs)
  let ?p = "pos + signed_qty f"
  have b: "\<bar>?p\<bar> + turnover fs < 2 ^ 63" using Cons.prems(1) signed_abs [of f] by (simp; linarith)
  then have r: "\<bar>?p\<bar> < 2 ^ 63" using turnover_nonneg [of fs] by linarith
  define k0 where "k0 = (if \<bar>?p\<bar> > peak then \<bar>?p\<bar> else peak)"
  have l: "peak_loop (f # fs) peak pos = peak_loop fs k0 ?p"
    using r by (auto simp: i64_def k0_def abs_if)
  obtain k where k: "peak_loop fs k0 ?p = Some k" "k0 \<le> k" "\<forall>n \<le> length fs. \<bar>?p + bought (take n fs)\<bar> \<le> k"
    "k = k0 \<or> (\<exists>n \<le> length fs. k = \<bar>?p + bought (take n fs)\<bar>)"
  proof -
    have "\<bar>?p\<bar> \<le> k0" by (simp add: k0_def)
    from Cons.IH [OF b this] show thesis by (elim exE conjE) (rule that; assumption)
  qed
  have "\<bar>pos + bought (take n (f # fs))\<bar> \<le> k" if "n \<le> length (f # fs)" for n
  proof (cases n)
    case 0
    then show ?thesis using Cons.prems(2) k(2) by (auto simp: k0_def split: if_splits)
  next
    case (Suc m)
    then show ?thesis using k(3) that by (auto simp: add.assoc)
  qed
  moreover have "k = peak \<or> (\<exists>n \<le> length (f # fs). k = \<bar>pos + bought (take n (f # fs))\<bar>)"
  proof (cases "\<exists>n \<le> length fs. k = \<bar>?p + bought (take n fs)\<bar>")
    case True
    then obtain n where "n \<le> length fs" "k = \<bar>?p + bought (take n fs)\<bar>" by blast
    then show ?thesis by (intro disjI2 exI [of _ "Suc n"]) (simp add: add.assoc)
  next
    case False
    then have "k = k0" using k(4) by blast
    then show ?thesis unfolding k0_def by (cases "\<bar>?p\<bar> > peak") (auto intro: exI [of _ "Suc 0"])
  qed
  ultimately show ?case using l k(1,2) by (auto simp: k0_def split: if_splits)
qed simp

end
