(* ===== verification/Sandbox.thy ===== *)
theory Sandbox
  imports ItchReplay QueuePosition MarketMaker
begin

text \<open>
  The market-making sandbox (\<^verbatim>\<open>tools/mm_sandbox.cpp\<close>): a replay of a session with a simulated quoter
  beside it.  The state is what \<^verbatim>\<open>main\<close> declares; \<open>sandbox_message\<close> is the handler it passes to the
  reader.  Parsing the arguments and printing the report are not modelled.
\<close>

record OrderEvent =
  ev_valid :: bool
  ev_is_execution :: bool
  ev_id :: OrderId
  ev_price :: Price
  ev_resting_side :: Side
  ev_shares :: Qty

definition order_event_default :: OrderEvent where
  "order_event_default = \<lparr>ev_valid = False, ev_is_execution = False, ev_id = 0, ev_price = 0, ev_resting_side = Bid, ev_shares = 0\<rparr>"

definition peek_event :: "('l, 'm) policy \<Rightarrow> ('l, 'm) MultiBook \<Rightarrow> bytes \<Rightarrow> OrderEvent option" where
  "peek_event P books m = do {
     let ev = order_event_default;
     type \<leftarrow> rd m 0;
     if type \<noteq> ch CHR ''E'' \<and> type \<noteq> ch CHR ''C'' \<and> type \<noteq> ch CHR ''X'' \<and> type \<noteq> ch CHR ''D'' \<and> type \<noteq> ch CHR ''U''
     then Some ev
     else do {
       ref \<leftarrow> be64 m 11;
       s1 \<leftarrow> mb_book_for_order ref books;
       case s1 of
         None \<Rightarrow> Some ev
       | Some s \<Rightarrow> do {
           b \<leftarrow> mb_find s books;
           o1 \<leftarrow> find_order P ref b;
           case o1 of
             None \<Rightarrow> Some ev
           | Some x \<Rightarrow> do {
               let ev = ev\<lparr>ev_valid := True, ev_id := ref, ev_price := ord_price x, ev_resting_side := ord_side x\<rparr>;
               if type = ch CHR ''E'' \<or> type = ch CHR ''C'' then do {
                 let ev = ev\<lparr>ev_is_execution := True\<rparr>;
                 q \<leftarrow> be32 m 19;
                 Some (ev\<lparr>ev_shares := q\<rparr>) }
               else if type = ch CHR ''X'' then do { q \<leftarrow> be32 m 19; Some (ev\<lparr>ev_shares := q\<rparr>) }
               else Some (ev\<lparr>ev_shares := ord_qty x\<rparr>) } } } }"

text \<open>\<^verbatim>\<open>unordered_map::emplace\<close> keeps an entry that is there.\<close>

definition emplace :: "'k \<Rightarrow> 'v \<Rightarrow> ('k \<times> 'v) list \<Rightarrow> ('k \<times> 'v) list" where
  "emplace k v kvs = (if map_of kvs k = None then kvs @ [(k, v)] else kvs)"

fun level_orders :: "heap \<Rightarrow> Side \<Rightarrow> Price \<Rightarrow> Level list \<Rightarrow> (OrderId \<times> Qty) list option" where
  "level_orders h s p [] = Some []"
| "level_orders h s p (lv # lvs) =
     (let past = (if s = Bid then lvl_price lv < p else lvl_price lv > p) in
      if past then Some []
      else if lvl_price lv = p then do {
        as \<leftarrow> level_nodes h lv;
        Some (fold (\<lambda>a out. emplace (ord_id (h a)) (ord_qty (h a)) out) as []) }
      else level_orders h s p lvs)"

definition orders_at_level :: "('l, 'm) policy \<Rightarrow> ('l, 'm) OrderBook \<Rightarrow> Side \<Rightarrow> Price \<Rightarrow> (OrderId \<times> Qty) list option" where
  "orders_at_level P b s p = do { lvs \<leftarrow> pol_visit P s (bk_ladder b); level_orders (bk_heap b) s p lvs }"

record SandboxConfig =
  sc_symbol :: Symbol
  sc_mm :: MarketMakerConfig
  sc_queue_model :: bool
  sc_tick :: Price

text \<open>The remainder of C++: undefined for a zero divisor, and when the quotient overflows.\<close>

definition rem64 :: "int \<Rightarrow> int \<Rightarrow> int option" where
  "rem64 a b = (if b = 0 \<or> a = - (2 ^ 63) \<and> b = - 1 then None else Some (a smod b))"

definition grid_rest :: "Price \<Rightarrow> Price \<Rightarrow> int option" where
  "grid_rest p tick = do { r \<leftarrow> rem64 p tick; r \<leftarrow> i64 (r + tick); rem64 r tick }"

definition snap_bid :: "Price \<Rightarrow> Price \<Rightarrow> Price option" where
  "snap_bid p tick = do { r \<leftarrow> grid_rest p tick; i64 (p - r) }"

definition snap_ask :: "Price \<Rightarrow> Price \<Rightarrow> Price option" where
  "snap_ask p tick = do { r \<leftarrow> grid_rest p tick; if r = 0 then Some p else do { d \<leftarrow> i64 (tick - r); i64 (p + d) } }"

record ('l, 'm) Sandbox =
  sb_rep :: "('l, 'm) MultiBook Replayer"
  sb_mm :: MarketMaker
  sb_bid :: QueuePosition
  sb_ask :: QueuePosition
  sb_mid_updates :: u64
  sb_prints_seen :: u64
  sb_requotes :: u64
  sb_last_mid :: Price
  sb_have_mid :: bool

definition sandbox_new :: "SandboxConfig \<Rightarrow> ('l, 'm) MultiBook \<Rightarrow> ('l, 'm) Sandbox" where
  "sandbox_new cfg M = \<lparr>sb_rep = track_only [sc_symbol cfg] (replayer_new M), sb_mm = market_maker_new (sc_mm cfg),
     sb_bid = qp_default, sb_ask = qp_default, sb_mid_updates = 0, sb_prints_seen = 0, sb_requotes = 0, sb_last_mid = 0,
     sb_have_mid = False\<rparr>"

text \<open>The side's tracker: \<^verbatim>\<open>QueuePosition& q = side == Side::Bid ? our_bid : our_ask\<close>.\<close>

definition our :: "Side \<Rightarrow> ('l, 'm) Sandbox \<Rightarrow> QueuePosition" where
  "our s S = (if s = Bid then sb_bid S else sb_ask S)"

definition set_our :: "Side \<Rightarrow> QueuePosition \<Rightarrow> ('l, 'm) Sandbox \<Rightarrow> ('l, 'm) Sandbox" where
  "set_our s Q S = (if s = Bid then S\<lparr>sb_bid := Q\<rparr> else S\<lparr>sb_ask := Q\<rparr>)"

definition fill_our :: "Side \<Rightarrow> Price \<Rightarrow> Qty \<Rightarrow> Price \<Rightarrow> ('l, 'm) Sandbox \<Rightarrow> ('l, 'm) Sandbox option" where
  "fill_our s price fill mid_before S = do {
     M \<leftarrow> on_fill \<lparr>fe_side = s, fe_price = price, fe_qty = fill, fe_timestamp = st_last_timestamp (rp_stats (sb_rep S)),
       fe_mid_at_fill = mid_before\<rparr> (sb_mm S);
     Some (S\<lparr>sb_mm := M\<rparr>) }"

definition queue_event :: "OrderEvent \<Rightarrow> Price \<Rightarrow> ('l, 'm) Sandbox \<Rightarrow> ('l, 'm) Sandbox option" where
  "queue_event ev mid_before S =
     (let q = our (ev_resting_side ev) S in
      if ev_is_execution ev \<and> qp_active q \<and> qp_price q = ev_price ev \<and> qp_at_front q then
        (let (fill, q) = take_fill (ev_shares ev) q;
             S = set_our (ev_resting_side ev) q S
         in if fill > 0 then fill_our (ev_resting_side ev) (ev_price ev) fill mid_before S else Some S)
      else
        (let S = S\<lparr>sb_bid := on_shares_removed (ev_id ev) (ev_shares ev) (sb_bid S)\<rparr>
         in Some (S\<lparr>sb_ask := on_shares_removed (ev_id ev) (ev_shares ev) (sb_ask S)\<rparr>)))"

definition optimistic_event :: "SandboxConfig \<Rightarrow> OrderEvent \<Rightarrow> Price \<Rightarrow> ('l, 'm) Sandbox \<Rightarrow> ('l, 'm) Sandbox option" where
  "optimistic_event cfg ev mid_before S = do {
     let fill = (if ev_shares ev < mc_quote_size (sc_mm cfg) then ev_shares ev else mc_quote_size (sc_mm cfg));
     x \<leftarrow> bid_quote mid_before (sb_mm S);
     obid \<leftarrow> snap_bid x (sc_tick cfg);
     y \<leftarrow> ask_quote mid_before (sb_mm S);
     oask \<leftarrow> snap_ask y (sc_tick cfg);
     if ev_resting_side ev = Bid \<and> wants_bid (sb_mm S) \<and> obid \<ge> ev_price ev then fill_our Bid obid fill mid_before S
     else if ev_resting_side ev = Ask then do {
       w \<leftarrow> wants_ask (sb_mm S);
       if w \<and> oask \<le> ev_price ev then fill_our Ask oask fill mid_before S else Some S }
     else Some S }"

definition sandbox_event :: "SandboxConfig \<Rightarrow> OrderEvent \<Rightarrow> Price \<Rightarrow> bool \<Rightarrow> ('l, 'm) Sandbox \<Rightarrow> ('l, 'm) Sandbox option" where
  "sandbox_event cfg ev mid_before had_mid S =
     (if ev_valid ev \<and> had_mid then
        (let S = (if ev_is_execution ev then S\<lparr>sb_prints_seen := sb_prints_seen S + 1\<rparr> else S) in
         if sc_queue_model cfg then queue_event ev mid_before S
         else if ev_is_execution ev then optimistic_event cfg ev mid_before S
         else Some S)
      else Some S)"

text \<open>Placing or moving the quote of a side.\<close>

definition requote ::
  "('l, 'm) policy \<Rightarrow> SandboxConfig \<Rightarrow> ('l, 'm) OrderBook \<Rightarrow> Side \<Rightarrow> Price \<Rightarrow> bool \<Rightarrow> ('l, 'm) Sandbox \<Rightarrow> ('l, 'm) Sandbox option" where
  "requote P cfg b s want wants S =
     (if wants \<and> (\<not> qp_active (our s S) \<or> qp_price (our s S) \<noteq> want) then do {
        ahead \<leftarrow> orders_at_level P b s want;
        let S = set_our s (qp_place want s (mc_quote_size (sc_mm cfg)) ahead (qp_cancel (our s S))) S;
        Some (S\<lparr>sb_requotes := sb_requotes S + 1\<rparr>) }
      else Some S)"

definition sandbox_requote ::
  "('l, 'm) policy \<Rightarrow> SandboxConfig \<Rightarrow> ('l, 'm) OrderBook \<Rightarrow> Price \<Rightarrow> ('l, 'm) Sandbox \<Rightarrow> ('l, 'm) Sandbox option" where
  "sandbox_requote P cfg b mid S = do {
     x \<leftarrow> bid_quote mid (sb_mm S);
     want_bid \<leftarrow> snap_bid x (sc_tick cfg);
     S \<leftarrow> requote P cfg b Bid want_bid (wants_bid (sb_mm S)) S;
     y \<leftarrow> ask_quote mid (sb_mm S);
     want_ask \<leftarrow> snap_ask y (sc_tick cfg);
     w \<leftarrow> wants_ask (sb_mm S);
     requote P cfg b Ask want_ask w S }"

definition note_mid :: "Price \<Rightarrow> ('l, 'm) Sandbox \<Rightarrow> ('l, 'm) Sandbox" where
  "note_mid mid S =
     (let S = (if \<not> sb_have_mid S \<or> mid \<noteq> sb_last_mid S
               then S\<lparr>sb_mm := on_mid mid (st_last_timestamp (rp_stats (sb_rep S))) (sb_mm S), sb_mid_updates := sb_mid_updates S + 1\<rparr>
               else S)
      in S\<lparr>sb_last_mid := mid, sb_have_mid := True\<rparr>)"

definition refresh :: "('l, 'm) policy \<Rightarrow> SandboxConfig \<Rightarrow> ('l, 'm) Sandbox \<Rightarrow> ('l, 'm) Sandbox option" where
  "refresh P cfg S =
     (case mb_find (sc_symbol cfg) (rp_books (sb_rep S)) of
        None \<Rightarrow> Some S
      | Some b \<Rightarrow> do {
          bid \<leftarrow> best_level P Bid b;
          ask \<leftarrow> best_level P Ask b;
          case (bid, ask) of
            (Some lb, Some la) \<Rightarrow> do {
              x \<leftarrow> i64 (lvl_price lb + lvl_price la);
              let mid = x sdiv 2;
              let S = note_mid mid S;
              if sc_queue_model cfg then sandbox_requote P cfg b mid S else Some S }
          | _ \<Rightarrow> Some S })"

definition sandbox_message :: "('l, 'm) policy \<Rightarrow> 'l \<Rightarrow> SandboxConfig \<Rightarrow> ('l, 'm) Sandbox handler" where
  "sandbox_message P l cfg m len S = do {
     ev \<leftarrow> peek_event P (rp_books (sb_rep S)) m;
     let mid_before = sb_last_mid S;
     let had_mid = sb_have_mid S;
     R \<leftarrow> replay_apply P l m len (sb_rep S);
     S \<leftarrow> sandbox_event cfg ev mid_before had_mid (S\<lparr>sb_rep := R\<rparr>);
     refresh P cfg S }"

text \<open>The run of \<^verbatim>\<open>main\<close> on the content of the file; \<^verbatim>\<open>32u << 20\<close> is the default chunk of the reader.\<close>

definition mm_sandbox :: "('l, 'm) policy \<Rightarrow> 'l \<Rightarrow> SandboxConfig \<Rightarrow> bytes option \<Rightarrow> (ReadResult \<times> ('l, 'm) Sandbox) option" where
  "mm_sandbox P l cfg file = do {
     M \<leftarrow> mb_new;
     for_each_framed_stream file (sandbox_message P l cfg) (32 * 2 ^ 20) (sandbox_new cfg M) }"

end
