(* ===== verification/SandboxFeed.thy ===== *)
theory SandboxFeed
  imports Sandbox EngineFeed
begin

text \<open>
  What a feed message does to the queues of the followed symbol, and what the sandbox reads about it
  before it is applied.
\<close>

subsection \<open>The queue of a price\<close>

definition queue_of :: "(Side \<Rightarrow> (Price \<times> entry) list) \<Rightarrow> Side \<Rightarrow> Price \<Rightarrow> queue" where
  "queue_of F s p = map snd (filter (\<lambda>f. fst f = p) (F s))"

lemma queue_of_cut: "queue_of (\<lambda>t. cut oid q (F t)) s p = shrink oid q (queue_of F s p)"
proof -
  have "map snd (filter (\<lambda>f. fst f = p) (cut oid q fs)) = shrink oid q (map snd (filter (\<lambda>f. fst f = p) fs))" for fs
    by (induction fs) (auto simp: cut_def shrink_def lessen_def split: prod.splits)
  then show ?thesis by (simp add: queue_of_def)
qed

lemma queue_of_without: "queue_of (\<lambda>t. without oid (F t)) s p = filter (\<lambda>e. en_id e \<noteq> oid) (queue_of F s p)"
  by (simp add: queue_of_def without_def filter_map comp_def conj_commute)

lemma flat_ordered: "ladder_sorted s ls \<Longrightarrow> sorted_wrt (\<lambda>f g. fst f = fst g \<or> before s (fst f) (fst g)) (flat ls)"
proof (induction ls)
  case (Cons l ls)
  obtain p es where l: "l = (p, es)" by force
  have a: "\<forall>f \<in> set (flat ls). before s p (fst f)" using Cons.prems l by (fastforce simp: flat_member)
  have "sorted_wrt (\<lambda>f g. fst f = fst g \<or> before s (fst f) (fst g)) (map (Pair p) es)" by (simp add: sorted_wrt_map sorted_wrt_iff_nth_less)
  then show ?case using Cons l a by (auto simp: sorted_wrt_append)
qed simp

lemma queue_of_enter:
  assumes "sorted_wrt (\<lambda>f g. fst f = fst g \<or> before t (fst f) (fst g)) (F t)"
  shows "queue_of (F(t := enter t r e (F t))) s p = queue_of F s p @ (if s = t \<and> p = r then [e] else [])"
proof -
  have none: "filter (\<lambda>f. fst f = r) (dropWhile (\<lambda>f. \<not> before t r (fst f)) fs) = []"
    if "sorted_wrt (\<lambda>f g. fst f = fst g \<or> before t (fst f) (fst g)) fs" for fs :: "(Price \<times> entry) list"
    using that
  proof (induction fs)
    case (Cons f fs)
    show ?case
    proof (cases "before t r (fst f)")
      case True
      have "before t r (fst g)" if "g \<in> set fs" for g using Cons.prems that True before_trans [of t r "fst f" "fst g"] by auto
      then have "before t r (fst g)" if "g \<in> set (f # fs)" for g using that True by (metis set_ConsD)
      then have "fst g \<noteq> r" if "g \<in> set (f # fs)" for g using that before_irrefl [of t r] by metis
      then show ?thesis using True by (auto simp: filter_empty_conv)
    next
      case False
      then show ?thesis using Cons by simp
    qed
  qed simp
  have split: "filter P fs = filter P (takeWhile Q fs) @ filter P (dropWhile Q fs)" for P Q and fs :: "(Price \<times> entry) list"
    by (metis filter_append takeWhile_dropWhile_id)
  show ?thesis using none [OF assms] split [of "\<lambda>f. fst f = p" "F t" "\<lambda>f. \<not> before t r (fst f)"]
    by (auto simp: queue_of_def enter_def)
qed

lemma mirrors_ordered: "mirrors V s F A \<Longrightarrow> sorted_wrt (\<lambda>f g. fst f = fst g \<or> before t (fst f) (fst g)) (F t)"
  using flat_ordered [of t "ab_levels (fst (am_book s (rp_books A))) t"] by (auto simp: mirrors_def abook_ok_def flats_def)

lemma queue_entry: "e \<in> set (queue_of F t p) \<longleftrightarrow> (p, e) \<in> set (F t)"
  by (force simp: queue_of_def)

lemma queue_ok:
  assumes "flats_ok V F"
  shows "distinct (map en_id (queue_of F t p))" and "\<forall>e \<in> set (queue_of F t p). en_qty e \<noteq> 0"
proof -
  show "\<forall>e \<in> set (queue_of F t p). en_qty e \<noteq> 0" using flats_okD(2) [OF assms] by (force simp: queue_entry)
  have "distinct (map (\<lambda>f. en_id (snd f)) (filter (\<lambda>f. fst f = p) (F t)))" using flats_okD(3) [OF assms, of t] by (rule distinct_map_filter)
  then show "distinct (map en_id (queue_of F t p))" by (simp add: queue_of_def comp_def)
qed

text \<open>Dropping an order is taking all of it.\<close>

lemma shrink_all:
  assumes "flats_ok V F" and "(p, e) \<in> set (F t)"
  shows "shrink (en_id e) (en_qty e) (queue_of F u r) = filter (\<lambda>g. en_id g \<noteq> en_id e) (queue_of F u r)"
proof -
  have "g = e" if "g \<in> set (queue_of F u r)" "en_id g = en_id e" for g
    using flats_okD(4) [OF assms(1), of "(r, g)" u "(p, e)" t] that assms(2) by (simp add: queue_entry)
  moreover have "\<forall>g \<in> set es. g \<in> set (queue_of F u r) \<longrightarrow> en_id g = en_id e \<longrightarrow> g = e \<Longrightarrow> set es \<subseteq> set (queue_of F u r) \<Longrightarrow>
      shrink (en_id e) (en_qty e) es = filter (\<lambda>g. en_id g \<noteq> en_id e) es" for es
    using queue_ok(2) [OF assms(1), of u r] by (induction es) (auto simp: shrink_def)
  ultimately show ?thesis by blast
qed

subsection \<open>A message and the queues\<close>

text \<open>The order a message takes shares from, whether by an execution, and how many; \<^term>\<open>None\<close> is all.\<close>

fun feed_target :: "feed_msg \<Rightarrow> (OrderId \<times> bool \<times> Qty option) option" where
  "feed_target (FeedExecuted m) = Some (oe_reference m, True, Some (oe_shares m))"
| "feed_target (FeedCancel m) = Some (oc_reference m, False, Some (oc_shares m))"
| "feed_target (FeedDelete m) = Some (od_reference m, False, None)"
| "feed_target (FeedReplace m) = Some (or_original_reference m, False, None)"
| "feed_target _ = None"

definition left_by :: "feed_msg \<Rightarrow> queue \<Rightarrow> queue" where
  "left_by m es = (case feed_target m of
      None \<Rightarrow> es
    | Some (oid, x, Some q) \<Rightarrow> shrink oid q es
    | Some (oid, x, None) \<Rightarrow> filter (\<lambda>e. en_id e \<noteq> oid) es)"

definition follows_queues :: "feed_msg \<Rightarrow> (Side \<Rightarrow> (Price \<times> entry) list) \<Rightarrow> (Side \<Rightarrow> (Price \<times> entry) list) \<Rightarrow> bool" where
  "follows_queues m F F' \<longleftrightarrow> (\<forall>t p. \<exists>more. queue_of F' t p = left_by m (queue_of F t p) @ more)"

definition priced :: "(Side \<Rightarrow> (Price \<times> entry) list) \<Rightarrow> bool" where
  "priced F \<longleftrightarrow> (\<forall>t. \<forall>f \<in> set (F t). 0 \<le> fst f \<and> fst f < 2 ^ 32)"

lemma priced_simps:
  "priced F \<Longrightarrow> priced (\<lambda>t. cut oid q (F t))" "priced F \<Longrightarrow> priced (\<lambda>t. without oid (F t))"
  "priced F \<Longrightarrow> 0 \<le> p \<Longrightarrow> p < 2 ^ 32 \<Longrightarrow> priced (F(s := enter s p e (F s)))"
  by (auto simp: priced_def without_def enter_set dest!: cut_member) (metis fst_conv)+

lemma left_unknown:
  assumes "flats_ok V F" and "feed_target m = Some (oid, x, q)" and "oid \<notin> flat_ids F"
  shows "left_by m (queue_of F t p) = queue_of F t p"
proof -
  have "oid \<notin> en_id ` set (queue_of F t p)" using assms(3) unfolding flat_ids_iff by (auto simp: queue_entry; blast)
  then show ?thesis using shrink_other queue_ok(2) [OF assms(1)] assms(2)
    by (auto simp: left_by_def filter_id_conv split: option.split)
qed

lemma mirrors_same:
  assumes "mirrors V s F A" and "map_of (am_books (rp_books A)) s = Some B"
  shows "mirrors V s F (with_books (am_update s B) A)"
proof -
  have b: "abook_ok V B" "flats B = F" using assms by (simp_all add: mirrors_def am_book_def)
  show ?thesis by (rule mirrorsI) (use assms shape_of [OF b(1)] b(2) mirrors_ok [OF assms(1)] in \<open>simp_all add: mirrors_def with_books_def\<close>)
qed

lemma shrink_nothing: "\<forall>e \<in> set es. en_qty e \<noteq> 0 \<Longrightarrow> shrink oid 0 es = es"
proof -
  have "min 0 (q :: Qty) = 0" for q by (simp add: min_def)
  then have "map (\<lambda>e. if en_id e = oid then e\<lparr>en_qty := en_qty e - min 0 (en_qty e)\<rparr> else e) es = es" by (intro map_idI) simp
  moreover assume "\<forall>e \<in> set es. en_qty e \<noteq> 0"
  ultimately show ?thesis by (simp add: shrink_def filter_id_conv)
qed

text \<open>Entering an order that may be refused.\<close>

lemma mirrors_try_insert:
  assumes m: "mirrors V s F A" and B: "map_of (am_books (rp_books A)) s = Some B" and f: "priced F" and p: "0 \<le> p" "p < 2 ^ 32"
  shows "\<exists>F'. mirrors V s F' (abs_new_order V oid side p q count c s B A) \<and> priced F' \<and> (\<forall>t r. \<exists>more. queue_of F' t r = queue_of F t r @ more)"
proof (cases "oid \<noteq> 0 \<and> q \<noteq> 0 \<and> V p \<and> oid \<notin> flat_ids F")
  case True
  let ?e = "\<lparr>en_id = oid, en_qty = q, en_owner = 0\<rparr>"
  have "mirrors V s (F(side := enter side p ?e (F side))) (abs_new_order V oid side p q count c s B A)"
    using mirrors_insert [where V = V, OF m B] True by blast
  moreover have "\<exists>more. queue_of (F(side := enter side p ?e (F side))) t r = queue_of F t r @ more" for t r
    using queue_of_enter [where F = F and t = side and r = p and e = ?e] mirrors_ordered [OF m] by blast
  ultimately show ?thesis using priced_simps(3) [OF f p] by blast
next
  case False
  have b: "abook_ok V B" "flats B = F" using m B by (simp_all add: mirrors_def am_book_def)
  have "abs_find oid B = None \<longleftrightarrow> oid \<notin> flat_ids F" unfolding abs_find_None by (simp add: flat_ids_flats [symmetric] b(2))
  then have "abs_validate V oid p q B \<noteq> Ok" using False by (auto simp: abs_validate_def)
  then have "abs_new_order V oid side p q count c s B A = with_books (am_update s B) A"
    by (simp add: abs_new_order_def abs_insert_passive_def Let_def)
  then show ?thesis using mirrors_same [OF m B] f by (intro exI [of _ F]) simp
qed

lemma mirrors_take_any:
  assumes m: "mirrors V s F A" and f: "priced F"
  shows "\<exists>F'. mirrors V s F' (abs_routed oid (abs_take x oid q ts count) A) \<and> priced F' \<and> (\<forall>t r. queue_of F' t r = shrink oid q (queue_of F t r))"
proof -
  have ok: "flats_ok V F" by (rule mirrors_ok [OF m])
  consider (unknown) "oid \<notin> flat_ids F" | (zero) "oid \<in> flat_ids F" "q = 0" | (real) "oid \<in> flat_ids F" "q \<noteq> 0" by blast
  then show ?thesis
  proof cases
    case unknown
    then have "am_owner (rp_books A) oid = None" using m by (simp add: mirrors_def)
    then have r: "abs_routed oid (abs_take x oid q ts count) A = bump c_unknown A" by (simp add: abs_routed_def)
    have "shrink oid q (queue_of F t p) = queue_of F t p" for t p
      by (rule shrink_other [OF _ queue_ok(2) [OF ok]]) (use unknown in \<open>force simp: flat_ids_iff queue_entry\<close>)
    then show ?thesis using m f unfolding r by (intro exI [of _ F]) simp
  next
    case zero
    obtain B where B: "map_of (am_books (rp_books A)) s = Some B" "abook_ok V B" "flats B = F" "am_owner (rp_books A) oid = Some s"
      using mirrors_book [OF m zero(1)] by blast
    have "abs_find oid B \<noteq> None" using abs_find_None [of oid B] zero(1) by (simp add: flat_ids_flats [symmetric] B(3))
    then have "mirrors V s F (abs_routed oid (abs_take x oid q ts count) A)"
      using mirrors_same [OF m B(1)] B(1,4) zero(2)
      by (auto simp: abs_routed_def abs_take_def abs_consume_def Let_def)
    moreover have "shrink oid 0 (queue_of F t p) = queue_of F t p" for t p
      by (rule shrink_nothing [OF queue_ok(2) [OF ok]])
    ultimately show ?thesis using f zero(2) by (intro exI [of _ F] conjI allI) simp_all
  next
    case real
    have "mirrors V s (\<lambda>t. cut oid q (F t)) (abs_routed oid (abs_take x oid q ts count) (bump id A))"
      by (rule mirrors_take [OF m real])
    moreover have "bump id A = A" by (simp add: bump_def)
    ultimately show ?thesis using priced_simps(1) [OF f] queue_of_cut by fastforce
  qed
qed

lemma decoded_price:
  "decode_feed msg = Some (FeedAdd x) \<Longrightarrow> 0 \<le> ao_price x \<and> ao_price x < 2 ^ 32"
  "decode_feed msg = Some (FeedReplace y) \<Longrightarrow> 0 \<le> or_price y \<and> or_price y < 2 ^ 32"
  using uint_bounded [where 'a = 32]
  by (auto simp: decode_feed_def decode_add_order_def decode_order_replace_def split: bind_splits option.splits MsgType.splits)

lemma mirrors_feed:
  assumes m: "mirrors V s F A" and f: "priced F" and d: "decode_feed msg = Some msg1" and t: "only_tracked [s] A" and l: "length s = 8"
  shows "\<exists>F'. mirrors V s F' (abs_feed V msg1 (bump c A)) \<and> priced F' \<and> follows_queues msg1 F F'"
proof (cases msg1)
  case (FeedAdd x)
  have p: "0 \<le> ao_price x" "ao_price x < 2 ^ 32" using decoded_price(1) d FeedAdd by auto
  have len: "length (ao_symbol x) = 8" using d decoded_symbol FeedAdd by blast
  show ?thesis
  proof (cases "ao_symbol x = s")
    case True
    let ?A = "bump (c_time (ao_timestamp x)) (bump c A)"
    obtain B M where B: "am_book s (rp_books A) = (B, M)" by force
    have M: "map_of (am_books M) s = Some B" "am_owner M = am_owner (rp_books A)" "fst (am_book s M) = B"
      using B by (auto simp: am_book_def map_add_def split: option.splits)
    have "mirrors V s F (with_books (\<lambda>_. M) ?A)" using m B M(2,3) by (simp add: mirrors_def with_books_def bump_def)
    moreover have "map_of (am_books (rp_books (with_books (\<lambda>_. M) ?A))) s = Some B" using M(1) by simp
    ultimately obtain F' where F': "mirrors V s F' (abs_new_order V (ao_reference x) (ao_side x) (ao_price x) (ao_shares x) (c_add (ao_shares x))
        (OnAdded (ao_reference x) (ao_symbol x) (ao_side x) (ao_price x) (ao_shares x) (ao_timestamp x)) s B (with_books (\<lambda>_. M) ?A))"
      "priced F'" "\<forall>t r. \<exists>more. queue_of F' t r = queue_of F t r @ more"
      using mirrors_try_insert [OF _ _ f p] by blast
    have "tracked (rp_filter A) s" using m by (simp add: mirrors_def)
    then have "mirrors V s F' (abs_feed V msg1 (bump c A))" using F'(1) True B by (simp add: FeedAdd Let_def)
    then show ?thesis using F'(2,3) by (auto simp: follows_queues_def left_by_def FeedAdd)
  next
    case False
    then have "\<not> tracked (rp_filter A) (ao_symbol x)" using t l len symbol_bits_inj by (simp add: tracked_def only_tracked_def)
    then have "mirrors V s F (abs_feed V msg1 (bump c A))" using m by (simp add: FeedAdd Let_def)
    then show ?thesis using f by (auto simp: follows_queues_def left_by_def FeedAdd)
  qed
next
  case (FeedExecuted x)
  have "mirrors V s F (bump (c_time (oe_timestamp x)) (bump c A))" using m by simp
  then obtain F' where "mirrors V s F' (abs_feed V msg1 (bump c A))" "priced F'"
    "\<forall>t r. queue_of F' t r = shrink (oe_reference x) (oe_shares x) (queue_of F t r)"
    unfolding FeedExecuted abs_feed.simps using mirrors_take_any [OF _ f] by blast
  then show ?thesis by (intro exI [of _ F']) (simp add: FeedExecuted follows_queues_def left_by_def)
next
  case (FeedCancel x)
  have "mirrors V s F (bump (c_time (oc_timestamp x)) (bump c A))" using m by simp
  then obtain F' where "mirrors V s F' (abs_feed V msg1 (bump c A))" "priced F'"
    "\<forall>t r. queue_of F' t r = shrink (oc_reference x) (oc_shares x) (queue_of F t r)"
    unfolding FeedCancel abs_feed.simps using mirrors_take_any [OF _ f] by blast
  then show ?thesis by (intro exI [of _ F']) (simp add: FeedCancel follows_queues_def left_by_def)
next
  case (FeedDelete x)
  let ?A = "bump (c_time (od_timestamp x)) (bump c A)" and ?o = "od_reference x"
  show ?thesis
  proof (cases "?o \<in> flat_ids F")
    case True
    obtain B where B: "map_of (am_books (rp_books A)) s = Some B" "am_owner (rp_books A) ?o = Some s" using mirrors_book [OF m True] by blast
    have "mirrors V s F ?A" "map_of (am_books (rp_books ?A)) s = Some B" using m B by simp_all
    from mirrors_cancel [OF this] have "mirrors V s (\<lambda>t. without ?o (F t)) (abs_feed V msg1 (bump c A))" using B by (simp add: FeedDelete abs_routed_def)
    then show ?thesis using priced_simps(2) [OF f] by (auto simp: follows_queues_def left_by_def FeedDelete queue_of_without)
  next
    case False
    then have "mirrors V s F (abs_feed V msg1 (bump c A))" using m by (simp add: FeedDelete abs_routed_def mirrors_def)
    moreover have "follows_queues msg1 F F" using left_unknown [OF mirrors_ok [OF m] _ False, where m = msg1 and x = False and q = None] by (simp add: follows_queues_def FeedDelete)
    ultimately show ?thesis using f by blast
  qed
next
  case (FeedReplace x)
  let ?A = "bump (c_time (or_timestamp x)) (bump c A)" and ?o = "or_original_reference x"
  have p: "0 \<le> or_price x" "or_price x < 2 ^ 32" using decoded_price(2) d FeedReplace by auto
  show ?thesis
  proof (cases "?o \<in> flat_ids F")
    case True
    obtain B where B: "map_of (am_books (rp_books A)) s = Some B" "abook_ok V B" "flats B = F" "am_owner (rp_books A) ?o = Some s"
      using mirrors_book [OF m True] by blast
    have "abs_find ?o B \<noteq> None" using abs_find_None [of ?o B] True by (simp add: flat_ids_flats [symmetric] B(3))
    then obtain side p0 e where e: "abs_find ?o B = Some (side, p0, e)" by (cases "abs_find ?o B") auto
    let ?C = "snd (abs_cancel ?o B)"
    let ?A2 = "with_books (am_forget ?o) (with_books (am_update s ?C) ?A)"
    have "mirrors V s F ?A" "map_of (am_books (rp_books ?A)) s = Some B" using m B by simp_all
    from mirrors_cancel [OF this] have m2: "mirrors V s (\<lambda>t. without ?o (F t)) ?A2" .
    have b: "map_of (am_books (rp_books ?A2)) s = Some ?C" using B(1) by simp
    obtain F' where F': "mirrors V s F' (abs_new_order V (or_new_reference x) side (or_price x) (or_shares x) (c_shares_added (or_shares x))
        (OnReplaced ?o (or_new_reference x) (or_price x) (or_shares x) (or_timestamp x)) s ?C ?A2)"
      "priced F'" "\<forall>t r. \<exists>more. queue_of F' t r = queue_of (\<lambda>t. without ?o (F t)) t r @ more"
      using mirrors_try_insert [OF m2 b priced_simps(2) [OF f] p] by blast
    have "mirrors V s F' (abs_feed V msg1 (bump c A))" using F'(1) B e by (simp add: FeedReplace abs_routed_def Let_def)
    then show ?thesis using F'(2,3) by (auto simp: follows_queues_def left_by_def FeedReplace queue_of_without)
  next
    case False
    then have "mirrors V s F (abs_feed V msg1 (bump c A))" using m by (simp add: FeedReplace abs_routed_def mirrors_def)
    moreover have "follows_queues msg1 F F" using left_unknown [OF mirrors_ok [OF m] _ False, where m = msg1 and x = False and q = None] by (simp add: follows_queues_def FeedReplace)
    ultimately show ?thesis using f by blast
  qed
qed (use m f in \<open>auto simp: follows_queues_def left_by_def\<close>)

end
