(* ===== verification/SandboxRun.thy ===== *)
theory SandboxRun
  imports SandboxFeed
begin

text \<open>
  The sandbox beside its replay: what it reads of the books, and what one message keeps true of its
  two quotes and of its accounts.
\<close>

subsection \<open>Reading a level\<close>

lemma emplace_all:
  assumes "distinct (map f as)" and "\<forall>a \<in> set as. f a \<notin> fst ` set kvs"
  shows "fold (\<lambda>a out. emplace (f a) (g a) out) as kvs = kvs @ map (\<lambda>a. (f a, g a)) as"
  using assms
proof (induction as arbitrary: kvs)
  case (Cons a as)
  have "map_of kvs (f a) = None" using Cons.prems(2) by (simp add: map_of_eq_None_iff)
  moreover have "f b \<noteq> f a" if "b \<in> set as" for b using Cons.prems(1) that by (metis distinct.simps(2) image_eqI list.set_map list.simps(9))
  ultimately show ?case using Cons.IH [of "kvs @ [(f a, g a)]"] Cons.prems by (auto simp: emplace_def)
qed simp

lemma queue_at_beyond: "\<forall>q \<in> fst ` set ls. q \<noteq> p \<Longrightarrow> queue_at p ls = []"
proof -
  assume "\<forall>q \<in> fst ` set ls. q \<noteq> p"
  then have "map_of ls p = None" by (auto simp: map_of_eq_None_iff)
  then show ?thesis by (simp add: queue_at_def)
qed

context book_policies begin

lemma orders_at_level_sim:
  assumes r: "refines V b A" and small: "size_of b < 2 ^ 32"
  shows "orders_at_level P b s p = Some (map (\<lambda>e. (en_id e, en_qty e)) (queue_at p (ab_levels A s)))"
proof -
  obtain G where G: "settled b G" "ab_levels A = levels_of b G" using r by (auto simp: refines_def)
  note D = settledD [OF G(1)]
  have ids: "distinct (map (\<lambda>a. ord_id (bk_heap b a)) (G s q))" if "(q, lv) \<in> set (levels (bk_ladder b) s)" for q lv
  proof -
    have "distinct (G s q)" using queues_okD(2) [OF D(6) that] by (simp add: level_ok_def)
    moreover have "inj_on (\<lambda>a. ord_id (bk_heap b a)) (set (G s q))"
    proof (rule inj_onI)
      fix a c assume a: "a \<in> set (G s q)" "c \<in> set (G s q)" "ord_id (bk_heap b a) = ord_id (bk_heap b c)"
      then have "live G a" "live G c" by (auto simp: live_def)
      then have "lookup (bk_orders b) (ord_id (bk_heap b a)) = Some a" "lookup (bk_orders b) (ord_id (bk_heap b a)) = Some c"
        using D(3) a(3) by (auto simp: index_ok_def)
      then show "a = c" by simp
    qed
    ultimately show ?thesis by (simp add: distinct_map)
  qed
  have "level_orders (bk_heap b) s p (map snd lvs)
      = Some (map (\<lambda>e. (en_id e, en_qty e)) (queue_at p (map (\<lambda>(q, _). (q, map (entry_at (bk_heap b)) (G s q))) lvs)))"
    if "set lvs \<subseteq> set (levels (bk_ladder b) s)" "ladder_sorted s lvs" for lvs
    using that
  proof (induction lvs)
    case (Cons l lvs)
    obtain q lv where l: "l = (q, lv)" by force
    have m: "(q, lv) \<in> set (levels (bk_ladder b) s)" using Cons.prems(1) l by simp
    note L = settled_level [OF G(1) small m]
    have later: "\<forall>r \<in> fst ` set lvs. before s q r" using Cons.prems(2) l by (auto dest: before_all)
    consider "q = p" | "before s p q" | "q \<noteq> p" "\<not> before s p q" by blast
    then show ?case
    proof cases
      case 1
      have "fold (\<lambda>a out. emplace (ord_id (bk_heap b a)) (ord_qty (bk_heap b a)) out) (G s p) []
          = map (\<lambda>a. (ord_id (bk_heap b a), ord_qty (bk_heap b a))) (G s p)" using emplace_all [OF ids [OF m], of "[]"] 1 by simp
      then show ?thesis using 1 l L(1,2) by (simp add: queue_at_def comp_def entry_at_def)
    next
      case 2
      then have "q \<noteq> p" using before_irrefl [of s p] by metis
      moreover have "\<forall>r \<in> fst ` set lvs. r \<noteq> p" using later 2 before_trans [of s p q] before_irrefl [of s p] by blast
      ultimately have "queue_at p (map (\<lambda>(q, _). (q, map (entry_at (bk_heap b)) (G s q))) (l # lvs)) = []"
        using l by (intro queue_at_beyond) (auto simp: image_image split_beta)
      then show ?thesis using 2 l L(1) by (cases s) (simp_all add: before_def)
    next
      case 3
      then have "queue_at p (map (\<lambda>(q, _). (q, map (entry_at (bk_heap b)) (G s q))) (l # lvs))
          = queue_at p (map (\<lambda>(q, _). (q, map (entry_at (bk_heap b)) (G s q))) lvs)" using l by (simp add: queue_at_def)
      then show ?thesis using 3 l L(1) Cons by (cases s) (simp_all add: before_def)
    qed
  qed (simp add: queue_at_def)
  from this [OF order_refl D(7)] show ?thesis
    using lad.visit_law [OF D(1)] G(2) by (simp add: orders_at_level_def levels_of_def view_def)
qed

end

lemma queue_of_flats: "ladder_sorted s (ab_levels A s) \<Longrightarrow> queue_of (flats A) s p = queue_at p (ab_levels A s)"
proof -
  have "ladder_sorted s ls \<Longrightarrow> map snd (filter (\<lambda>f. fst f = p) (flat ls)) = queue_at p ls" for ls
  proof (induction ls)
    case (Cons l ls)
    obtain q es where l: "l = (q, es)" by force
    have "\<forall>r \<in> fst ` set ls. before s q r" using Cons.prems l by simp
    then have n: "\<forall>r \<in> fst ` set ls. r \<noteq> q" using before_irrefl [of s q] by blast
    show ?case
    proof (cases "q = p")
      case True
      then have "queue_at p ls = []" using n by (intro queue_at_beyond) simp
      then have "filter (\<lambda>f. fst f = p) (flat ls) = []" using Cons l by (simp add: ladder_sorted_def)
      then show ?thesis using True l by (simp add: queue_at_def comp_def)
    next
      case False
      then show ?thesis using Cons l by (simp add: queue_at_def comp_def ladder_sorted_def)
    qed
  qed (simp add: queue_at_def)
  then show "ladder_sorted s (ab_levels A s) \<Longrightarrow> queue_of (flats A) s p = queue_at p (ab_levels A s)"
    by (simp add: queue_of_def flats_def)
qed

lemma orders_of_queue:
  assumes "implements P V b A"
  shows "orders_at_level P b s p = Some (map (\<lambda>e. (en_id e, en_qty e)) (queue_of (flats A) s p))"
proof -
  obtain linv levels window minv lookup where L: "book_policies P linv levels window minv lookup"
    and r: "book_policies.refines P linv levels minv lookup V b A" and z: "pol_size P (bk_orders b) < 2 ^ 32"
    using assms unfolding implements_def by blast
  have "ladder_sorted s (ab_levels A s)" using implementsD(8) [OF assms] by (simp add: abook_ok_def)
  then show ?thesis using book_policies.orders_at_level_sim [OF L r z] queue_of_flats by simp
qed


subsection \<open>Looking at an order before it changes\<close>

definition looked_up ::
  "('l, 'm) policy \<Rightarrow> ('l, 'm) MultiBook \<Rightarrow> OrderId \<Rightarrow> bool \<Rightarrow> Qty option \<Rightarrow> OrderEvent option" where
  "looked_up P M oid x q = do {
     s1 \<leftarrow> mb_book_for_order oid M;
     case s1 of
       None \<Rightarrow> Some order_event_default
     | Some s \<Rightarrow> do {
         b \<leftarrow> mb_find s M;
         o1 \<leftarrow> find_order P oid b;
         case o1 of
           None \<Rightarrow> Some order_event_default
         | Some y \<Rightarrow> Some \<lparr>ev_valid = True, ev_is_execution = x, ev_id = oid, ev_price = ord_price y, ev_resting_side = ord_side y,
             ev_shares = (case q of None \<Rightarrow> ord_qty y | Some q \<Rightarrow> q)\<rparr> } }"

lemma peek_decoded:
  assumes "decode_feed msg = Some m"
  shows "peek_event P M msg = (case feed_target m of None \<Rightarrow> Some order_event_default | Some (oid, x, q) \<Rightarrow> looked_up P M oid x q)"
proof -
  obtain t where t: "rd msg 0 = Some t" using assms by (cases "rd msg 0") (auto simp: decode_feed_def)
  show ?thesis
  proof (cases "msg_type t")
    case None
    then have "t \<noteq> msg_char k" for k using msg_type_char by fastforce
    from this [of OrderExecuted] this [of OrderExecutedWithPrice] this [of OrderCancel] this [of OrderDelete] this [of OrderReplace]
    show ?thesis using assms None t by (auto simp: peek_event_def decode_feed_def msg_char.simps)
  next
    case (Some k)
    then have k: "t = msg_char k" by (simp add: msg_type_Some)
    show ?thesis using assms Some t unfolding k
      by (cases k) (auto simp: peek_event_def decode_feed_def ch_def looked_up_def decode_defs order_event_default_def msg_type_char
        split: bind_splits option.splits)
  qed
qed

lemma looked_up_sim:
  assumes "rp_sim P l n R A" and "mirrors (pol_valid_price P l) s F A"
  shows "\<exists>ev. looked_up P (rp_books R) oid x q = Some ev \<and> (oid \<notin> flat_ids F \<longrightarrow> ev = order_event_default)
    \<and> (oid \<in> flat_ids F \<longrightarrow> (\<exists>t p e. (p, e) \<in> set (F t) \<and> en_id e = oid \<and> ev = \<lparr>ev_valid = True, ev_is_execution = x, ev_id = oid,
        ev_price = p, ev_resting_side = t, ev_shares = (case q of None \<Rightarrow> en_qty e | Some q \<Rightarrow> q)\<rparr>))"
proof -
  have route: "mb_book_for_order oid (rp_books R) = Some (am_owner (rp_books A) oid)" using mb_route_sim [OF rp_simD [OF assms(1)]] .
  have ow: "am_owner (rp_books A) oid = (if oid \<in> flat_ids F then Some s else None)" using assms(2) by (simp add: mirrors_def)
  show ?thesis
  proof (cases "oid \<in> flat_ids F")
    case False
    then show ?thesis using route ow by (simp add: looked_up_def)
  next
    case True
    obtain B where B: "map_of (am_books (rp_books A)) s = Some B" "abook_ok (pol_valid_price P l) B" "flats B = F"
      using mirrors_book [OF assms(2) True] by blast
    obtain b where b: "mb_find s (rp_books R) = Some b" "implements P (pol_valid_price P l) b B"
      using mb_find_sim [OF rp_simD [OF assms(1)] B(1)] by blast
    have "abs_find oid B \<noteq> None" using abs_find_None [of oid B] True by (simp add: flat_ids_flats [symmetric] B(3))
    then obtain y where y: "find_order P oid b = Some (Some y)" "abs_find oid B
        = Some (ord_side y, ord_price y, \<lparr>en_id = ord_id y, en_qty = ord_qty y, en_owner = ord_participant y\<rparr>)"
      using implementsD(10) [OF b(2), of oid] by (auto split: option.splits)
    have i: "ord_id y = oid" using find_flats(1) [OF B(2) y(2)] by simp
    have "(ord_price y, \<lparr>en_id = oid, en_qty = ord_qty y, en_owner = ord_participant y\<rparr>) \<in> set (F (ord_side y))"
      using find_flats(1) [OF B(2) y(2)] by (simp add: B(3) i)
    moreover have "looked_up P (rp_books R) oid x q = Some \<lparr>ev_valid = True, ev_is_execution = x, ev_id = oid, ev_price = ord_price y,
        ev_resting_side = ord_side y, ev_shares = (case q of None \<Rightarrow> ord_qty y | Some q \<Rightarrow> q)\<rparr>"
      using route ow True b(1) y(1) by (simp add: looked_up_def)
    ultimately show ?thesis using True by (intro exI conjI) (assumption, simp, rule impI, intro exI conjI, assumption, simp, simp split: option.split)
  qed
qed

text \<open>The event tells what the message will do to every queue.\<close>

definition foretells :: "OrderEvent \<Rightarrow> feed_msg \<Rightarrow> (Side \<Rightarrow> (Price \<times> entry) list) \<Rightarrow> bool" where
  "foretells ev m F \<longleftrightarrow> (if ev_valid ev
     then (\<exists>e. (ev_price ev, e) \<in> set (F (ev_resting_side ev)) \<and> en_id e = ev_id ev)
        \<and> (\<forall>t p. left_by m (queue_of F t p) = shrink (ev_id ev) (ev_shares ev) (queue_of F t p))
     else \<forall>t p. left_by m (queue_of F t p) = queue_of F t p)"

lemma peek_foretells:
  assumes "rp_sim P l n R A" and "mirrors (pol_valid_price P l) s F A" and "decode_feed msg = Some m"
  shows "\<exists>ev. peek_event P (rp_books R) msg = Some ev \<and> foretells ev m F"
proof (cases "feed_target m")
  case None
  then have "foretells order_event_default m F" by (simp add: foretells_def order_event_default_def left_by_def)
  then show ?thesis using peek_decoded [OF assms(3), of P "rp_books R"] None by (intro exI [of _ order_event_default]) simp
next
  case (Some tgt)
  then obtain oid x q where t: "feed_target m = Some (oid, x, q)" by (cases tgt) auto
  have ok: "flats_ok (pol_valid_price P l) F" by (rule mirrors_ok [OF assms(2)])
  obtain ev where ev: "looked_up P (rp_books R) oid x q = Some ev" "oid \<notin> flat_ids F \<longrightarrow> ev = order_event_default"
    "oid \<in> flat_ids F \<longrightarrow> (\<exists>t p e. (p, e) \<in> set (F t) \<and> en_id e = oid \<and> ev = \<lparr>ev_valid = True, ev_is_execution = x, ev_id = oid,
        ev_price = p, ev_resting_side = t, ev_shares = (case q of None \<Rightarrow> en_qty e | Some q \<Rightarrow> q)\<rparr>)"
    using looked_up_sim [OF assms(1,2), of oid x q] by (elim exE conjE) (rule that; assumption)
  have "foretells ev m F"
  proof (cases "oid \<in> flat_ids F")
    case False
    then show ?thesis using ev(2) left_unknown [OF ok t False] by (simp add: foretells_def order_event_default_def)
  next
    case True
    then obtain u p e where e: "(p, e) \<in> set (F u)" "en_id e = oid" "ev = \<lparr>ev_valid = True, ev_is_execution = x, ev_id = oid,
        ev_price = p, ev_resting_side = u, ev_shares = (case q of None \<Rightarrow> en_qty e | Some q \<Rightarrow> q)\<rparr>" using ev(3) by blast
    then show ?thesis using shrink_all [OF ok e(1)] t by (auto simp: foretells_def left_by_def split: option.split)
  qed
  then show ?thesis using peek_decoded [OF assms(3), of P "rp_books R"] t ev(1) by (intro exI [of _ ev]) simp
qed

subsection \<open>The quotes\<close>

text \<open>An active quote stands behind a front part of the queue at its price.\<close>

definition stands :: "(Side \<Rightarrow> (Price \<times> entry) list) \<Rightarrow> Side \<Rightarrow> QueuePosition \<Rightarrow> bool" where
  "stands F s Q \<longleftrightarrow> (qp_active Q \<longrightarrow> qp_side Q = s \<and> (\<exists>es later. queue_of F s (qp_price Q) = es @ later \<and> behind Q es))"

lemma our_set [simp]:
  "our s (set_our s Q S) = Q" "s \<noteq> t \<Longrightarrow> our s (set_our t Q S) = our s S" "sb_rep (set_our s Q S) = sb_rep S" "sb_mm (set_our s Q S) = sb_mm S"
  "sb_have_mid (set_our s Q S) = sb_have_mid S" "sb_last_mid (set_our s Q S) = sb_last_mid S"
  by (cases s; cases t; simp add: our_def set_our_def)+

lemma stands_cong: "(\<forall>p. \<exists>more. queue_of F' s p = queue_of F s p @ more) \<Longrightarrow> stands F s Q \<Longrightarrow> stands F' s Q"
  unfolding stands_def by (metis append.assoc)

lemma stands_removed:
  assumes ok: "flats_ok V F" and f: "\<forall>p. \<exists>more. queue_of F' s p = shrink oid q (queue_of F s p) @ more" and st: "stands F s Q"
  shows "stands F' s (on_shares_removed oid q Q)"
    and "qp_active Q \<longrightarrow> qp_ahead Q = [] \<or> (\<forall>e \<in> set (queue_of F s (qp_price Q)). en_id e \<noteq> oid) \<Longrightarrow> stands F' s Q"
proof -
  have both: "stands F' s (on_shares_removed oid q Q) \<and> (qp_ahead Q = [] \<or> (\<forall>e \<in> set (queue_of F s (qp_price Q)). en_id e \<noteq> oid) \<longrightarrow> stands F' s Q)"
    if a: "qp_active Q"
  proof -
    obtain es later where es: "queue_of F s (qp_price Q) = es @ later" "behind Q es" "qp_side Q = s" using st a by (auto simp: stands_def)
    have d: "distinct (map en_id es)" "\<forall>e \<in> set es. en_qty e \<noteq> 0" using queue_ok [OF ok, of s "qp_price Q"] es(1) by auto
    obtain more where m: "queue_of F' s (qp_price Q) = shrink oid q es @ shrink oid q later @ more"
      using f es(1) by (metis append.assoc shrink_append)
    have r: "stands F' s (on_shares_removed oid q Q)" using m removed_behind [OF es(2) d] es(3) by (auto simp: stands_def)
    have "on_shares_removed oid q Q = Q" if "qp_ahead Q = [] \<or> (\<forall>e \<in> set (queue_of F s (qp_price Q)). en_id e \<noteq> oid)"
    proof -
      have "map_of (qp_ahead Q) oid = None" using that es(1,2) by (auto simp: behind_def map_of_eq_None_iff)
      then show ?thesis by (simp add: on_shares_removed_def)
    qed
    then show ?thesis using r by metis
  qed
  show "stands F' s (on_shares_removed oid q Q)" using both by (cases "qp_active Q") (simp_all add: stands_def)
  show "stands F' s Q" if "qp_active Q \<longrightarrow> qp_ahead Q = [] \<or> (\<forall>e \<in> set (queue_of F s (qp_price Q)). en_id e \<noteq> oid)"
    using both that by (cases "qp_active Q") (simp_all add: stands_def)
qed

lemma take_fill_stands: "take_fill n Q = (fill, Q') \<Longrightarrow> stands F s Q \<Longrightarrow> stands F s Q'"
  using take_fill_bounds [of n Q fill Q'] by (simp add: stands_def behind_def)

subsection \<open>One event\<close>

text \<open>What an active quote can still trade; the position with it stays inside the limits.\<close>

definition left_open :: "QueuePosition \<Rightarrow> int" where
  "left_open Q = (if qp_active Q then uint (qp_remaining Q) else 0)"

definition cap :: "SandboxConfig \<Rightarrow> int" where
  "cap cfg = mc_max_position (sc_mm cfg) + uint (mc_quote_size (sc_mm cfg))"

definition quotes_ok :: "SandboxConfig \<Rightarrow> (Side \<Rightarrow> (Price \<times> entry) list) \<Rightarrow> ('l, 'm) Sandbox \<Rightarrow> bool" where
  "quotes_ok cfg F S \<longleftrightarrow> (\<forall>s. stands F s (our s S)) \<and> (\<forall>s. qp_active (our s S) \<longrightarrow> sb_have_mid S \<and> sc_queue_model cfg)
     \<and> mm_position (sb_mm S) + left_open (our Bid S) < cap cfg \<and> - mm_position (sb_mm S) + left_open (our Ask S) < cap cfg
     \<and> accounts_ok (sb_mm S) \<and> mm_cfg (sb_mm S) = sc_mm cfg"

lemma quotes_okD:
  assumes "quotes_ok cfg F S"
  shows "stands F s (our s S)" and "qp_active (our s S) \<Longrightarrow> sb_have_mid S \<and> sc_queue_model cfg"
    and "mm_position (sb_mm S) + left_open (our Bid S) < cap cfg" and "- mm_position (sb_mm S) + left_open (our Ask S) < cap cfg"
    and "accounts_ok (sb_mm S)" and "mm_cfg (sb_mm S) = sc_mm cfg"
  using assms unfolding quotes_ok_def by blast+

lemma left_open_nonneg: "0 \<le> left_open Q"
  by (simp add: left_open_def)

lemma fill_our_effect:
  assumes "fill_our s price fill mid S = Some S'"
  shows "our t S' = our t S" and "sb_rep S' = sb_rep S" and "sb_have_mid S' = sb_have_mid S" and "sb_last_mid S' = sb_last_mid S"
    and "mm_position (sb_mm S') = mm_position (sb_mm S) + (if s = Bid then uint fill else - uint fill)"
    and "accounts_ok (sb_mm S) \<Longrightarrow> accounts_ok (sb_mm S')" and "mm_cfg (sb_mm S') = mm_cfg (sb_mm S)"
proof -
  obtain f M where f: "on_fill f (sb_mm S) = Some M" "S' = S\<lparr>sb_mm := M\<rparr>" "fe_side f = s" "fe_qty f = fill"
    using assms by (auto simp: fill_our_def split: bind_splits)
  note E = fill_fields [OF f(1)] and A = accounts_fill [OF f(1)]
  show "our t S' = our t S" "sb_rep S' = sb_rep S" "sb_have_mid S' = sb_have_mid S" "sb_last_mid S' = sb_last_mid S"
    by (simp_all add: f(2) our_def)
  show "mm_position (sb_mm S') = mm_position (sb_mm S) + (if s = Bid then uint fill else - uint fill)" "mm_cfg (sb_mm S') = mm_cfg (sb_mm S)"
    "accounts_ok (sb_mm S) \<Longrightarrow> accounts_ok (sb_mm S')" using E A f(3,4) by (auto simp: f(2) signed_qty_def)
qed

lemma optimistic_effect:
  assumes "optimistic_event cfg ev mid S = Some S'" and "quotes_ok cfg F S" and "\<forall>s. \<not> qp_active (our s S)"
  shows "quotes_ok cfg F S' \<and> (\<forall>s. our s S' = our s S) \<and> sb_rep S' = sb_rep S \<and> sb_have_mid S' = sb_have_mid S \<and> sb_last_mid S' = sb_last_mid S"
proof -
  let ?fill = "if ev_shares ev < mc_quote_size (sc_mm cfg) then ev_shares ev else mc_quote_size (sc_mm cfg)"
  have le: "uint ?fill \<le> uint (mc_quote_size (sc_mm cfg))" by (simp add: word_less_def)
  have done1: "quotes_ok cfg F S2 \<and> (\<forall>s. our s S2 = our s S) \<and> sb_rep S2 = sb_rep S \<and> sb_have_mid S2 = sb_have_mid S \<and> sb_last_mid S2 = sb_last_mid S"
    if f: "fill_our s price ?fill mid S = Some S2" "if s = Bid then wants_bid (sb_mm S) else wants_ask (sb_mm S) = Some True" for s price S2
  proof -
    note E = fill_our_effect [OF f(1)]
    have z: "left_open (our t S) = 0" for t using assms(3) by (simp add: left_open_def)
    have "if s = Bid then mm_position (sb_mm S) < mc_max_position (sc_mm cfg) else - mc_max_position (sc_mm cfg) < mm_position (sb_mm S)"
      using f(2) quotes_okD(6) [OF assms(2)] by (auto simp: wants_bid_def wants_ask_def i64_def split: if_splits bind_splits)
    moreover define v where "v = uint ?fill"
    moreover have "0 \<le> v" "v \<le> uint (mc_quote_size (sc_mm cfg))" using le by (simp_all add: v_def)
    ultimately have "mm_position (sb_mm S2) < cap cfg \<and> - mm_position (sb_mm S2) < cap cfg"
      using quotes_okD(3,4) [OF assms(2)] unfolding E(5) z cap_def v_def [symmetric] by (cases s) auto
    then show ?thesis using quotes_okD [OF assms(2)] E z unfolding quotes_ok_def by simp
  qed
  from assms(1) have "S' = S \<or> (\<exists>s price. fill_our s price ?fill mid S = Some S' \<and> (if s = Bid then wants_bid (sb_mm S) else wants_ask (sb_mm S) = Some True))"
    by (auto simp: optimistic_event_def Let_def split: bind_splits if_splits)
  then show ?thesis using done1 assms(2) by blast
qed

lemma queue_effect:
  assumes e: "queue_event ev mid S = Some S'" and f: "foretells ev m F" and v: "ev_valid ev" and w: "follows_queues m F F'"
    and ok: "flats_ok V F" and q: "quotes_ok cfg F S"
  shows "quotes_ok cfg F' S' \<and> sb_rep S' = sb_rep S \<and> sb_have_mid S' = sb_have_mid S \<and> sb_last_mid S' = sb_last_mid S"
proof -
  let ?t = "ev_resting_side ev"
  note Q = quotes_okD [OF q]
  have sh: "\<forall>p. \<exists>more. queue_of F' s p = shrink (ev_id ev) (ev_shares ev) (queue_of F s p) @ more" for s
    using f v w by (simp add: foretells_def follows_queues_def)
  obtain g where g: "(ev_price ev, g) \<in> set (F ?t)" "en_id g = ev_id ev" using f v by (auto simp: foretells_def)
  have other: "en_id h \<noteq> ev_id ev" if "h \<in> set (queue_of F s p)" "s \<noteq> ?t" for h s p
    using flats_okD(4) [OF ok g(1), of "(p, h)" s] g(2) that by (auto simp: queue_entry)
  show ?thesis
  proof (cases "ev_is_execution ev \<and> qp_active (our ?t S) \<and> qp_price (our ?t S) = ev_price ev \<and> qp_at_front (our ?t S)")
    case False
    then have S': "S' = S\<lparr>sb_bid := on_shares_removed (ev_id ev) (ev_shares ev) (sb_bid S), sb_ask := on_shares_removed (ev_id ev) (ev_shares ev) (sb_ask S)\<rparr>"
      using e unfolding queue_event_def Let_def if_not_P [OF False] by simp
    have o1: "our s S' = on_shares_removed (ev_id ev) (ev_shares ev) (our s S)" for s by (cases s) (simp_all add: S' our_def)
    have "stands F' s (our s S')" for s unfolding o1 by (rule stands_removed(1) [OF ok sh Q(1)])
    moreover have "left_open (our s S') = left_open (our s S)" "qp_active (our s S') = qp_active (our s S)" for s by (simp_all add: o1 left_open_def)
    moreover have "sb_rep S' = sb_rep S" "sb_have_mid S' = sb_have_mid S" "sb_last_mid S' = sb_last_mid S" "sb_mm S' = sb_mm S" by (simp_all add: S')
    ultimately show ?thesis using Q(2-6) unfolding quotes_ok_def by auto
  next
    case True
    obtain fill Q' where t: "take_fill (ev_shares ev) (our ?t S) = (fill, Q')" by force
    note T = take_fill_bounds [OF t]
    have a: "qp_active (our ?t S)" "qp_ahead (our ?t S) = []" using True by (simp_all add: qp_at_front_def)
    have le: "fill \<le> qp_remaining (our ?t S)" using T(1) by simp
    then have lo: "left_open Q' = left_open (our ?t S) - uint fill" using a(1) T(2,3) by (simp add: left_open_def uint_minus_simple_alt)
    have S2: "S' = set_our ?t Q' S \<or> fill_our ?t (ev_price ev) fill mid (set_our ?t Q' S) = Some S'" and z: "S' = set_our ?t Q' S \<Longrightarrow> fill = 0 \<or> fill_our ?t (ev_price ev) fill mid (set_our ?t Q' S) = Some S'"
      using e True t by (auto simp: queue_event_def Let_def word_gt_0 split: if_splits)
    have st: "stands F' s (our s (set_our ?t Q' S))" for s
    proof (cases "s = ?t")
      case True
      then show ?thesis using take_fill_stands [OF t stands_removed(2) [OF ok sh Q(1)]] a(2) by simp
    next
      case False
      then show ?thesis using stands_removed(2) [OF ok sh Q(1), of s] other by auto
    qed
    have pos: "mm_position (sb_mm S') = mm_position (sb_mm S) + (if ?t = Bid then uint fill else - uint fill)"
      and keep: "our s S' = our s (set_our ?t Q' S)" "sb_rep S' = sb_rep S" "sb_have_mid S' = sb_have_mid S" "sb_last_mid S' = sb_last_mid S"
        "accounts_ok (sb_mm S')" "mm_cfg (sb_mm S') = sc_mm cfg" for s
      using S2 z fill_our_effect [of ?t "ev_price ev" fill mid "set_our ?t Q' S" S'] Q(5,6) by auto
    have "qp_active (our s S) \<or> s = ?t \<and> qp_active Q'" if "qp_active (our s (set_our ?t Q' S))" for s using that by (cases "s = ?t") auto
    then have act: "qp_active (our s S') \<longrightarrow> sb_have_mid S' \<and> sc_queue_model cfg" for s using Q(2) [OF a(1)] keep(1,3) by simp
    define v where "v = uint fill"
    then have fill_nn: "0 \<le> v" by simp
    have lim: "mm_position (sb_mm S') + left_open (our Bid S') < cap cfg \<and> - mm_position (sb_mm S') + left_open (our Ask S') < cap cfg"
      using Q(3,4) lo fill_nn unfolding pos keep(1) v_def [symmetric] by (cases ?t) auto
    show ?thesis using st act lim keep unfolding quotes_ok_def by simp
  qed
qed

lemma event_effect:
  assumes e: "sandbox_event cfg ev mid (sb_have_mid S) S = Some S'" and f: "foretells ev m F" and w: "follows_queues m F F'"
    and ok: "flats_ok V F" and q: "quotes_ok cfg F S"
  shows "quotes_ok cfg F' S' \<and> sb_rep S' = sb_rep S \<and> sb_have_mid S' = sb_have_mid S \<and> sb_last_mid S' = sb_last_mid S"
proof -
  let ?S = "if ev_is_execution ev then S\<lparr>sb_prints_seen := sb_prints_seen S + 1\<rparr> else S"
  have o1: "our s ?S = our s S" "sb_mm ?S = sb_mm S" "sb_have_mid ?S = sb_have_mid S" "sb_last_mid ?S = sb_last_mid S" "sb_rep ?S = sb_rep S" for s
    by (simp_all add: our_def)
  have idle: "quotes_ok cfg F' S2" if "quotes_ok cfg F S2" "\<forall>s. \<not> qp_active (our s S2)" for S2
    using that unfolding quotes_ok_def by (simp add: stands_def)
  consider (invalid) "\<not> ev_valid ev" | (early) "\<not> sb_have_mid S" | (queue) "ev_valid ev" "sb_have_mid S" "sc_queue_model cfg"
    | (naive) "ev_valid ev" "sb_have_mid S" "\<not> sc_queue_model cfg" by blast
  then show ?thesis
  proof cases
    case invalid
    then have "\<forall>p. \<exists>more. queue_of F' s p = queue_of F s p @ more" for s using f w by (simp add: foretells_def follows_queues_def)
    then have "stands F' s (our s S)" for s by (rule stands_cong [OF _ quotes_okD(1) [OF q]])
    then show ?thesis using e q invalid by (auto simp: sandbox_event_def quotes_ok_def)
  next
    case early
    then have "\<forall>s. \<not> qp_active (our s S)" using quotes_okD(2) [OF q] by blast
    then show ?thesis using idle [OF q] e early by (simp add: sandbox_event_def)
  next
    case queue
    have g: "quotes_ok cfg F ?S" using q unfolding quotes_ok_def o1 .
    have "queue_event ev mid ?S = Some S'" using e queue by (simp add: sandbox_event_def Let_def)
    from queue_effect [OF this f queue(1) w ok g] show ?thesis unfolding o1 .
  next
    case naive
    have i: "\<forall>s. \<not> qp_active (our s ?S)" using quotes_okD(2) [OF q] naive(3) unfolding o1 by blast
    have "quotes_ok cfg F ?S" using q unfolding quotes_ok_def o1 .
    moreover from e naive have "optimistic_event cfg ev mid ?S = Some S' \<or> S' = ?S" by (auto simp: sandbox_event_def Let_def split: if_splits)
    ultimately have "quotes_ok cfg F S' \<and> (\<forall>s. our s S' = our s ?S) \<and> sb_rep S' = sb_rep ?S \<and> sb_have_mid S' = sb_have_mid ?S
        \<and> sb_last_mid S' = sb_last_mid ?S"
      using optimistic_effect [OF _ _ i] by blast
    then show ?thesis using idle [of S'] i unfolding o1 by simp
  qed
qed

subsection \<open>One message\<close>

lemma note_mid_simps [simp]:
  "our s (note_mid mid S) = our s S" "sb_rep (note_mid mid S) = sb_rep S" "sb_have_mid (note_mid mid S)" "sb_last_mid (note_mid mid S) = mid"
  "mm_position (sb_mm (note_mid mid S)) = mm_position (sb_mm S)" "mm_cfg (sb_mm (note_mid mid S)) = mm_cfg (sb_mm S)"
  "accounts_ok (sb_mm (note_mid mid S)) = accounts_ok (sb_mm S)" "mm_fills_log (sb_mm (note_mid mid S)) = mm_fills_log (sb_mm S)"
  by (cases s; simp add: note_mid_def our_def Let_def on_mid_def accounts_ok_def)
    (simp_all add: note_mid_def Let_def on_mid_def accounts_ok_def)

lemma requote_effect:
  assumes r: "requote P cfg b s want wants S = Some S'" and b: "implements P V b B" and F: "flats B = F" and q: "quotes_ok cfg F S"
    and w: "wants \<Longrightarrow> (if s = Bid then mm_position (sb_mm S) else - mm_position (sb_mm S)) < mc_max_position (sc_mm cfg)"
    and m: "sb_have_mid S" "sc_queue_model cfg"
  shows "quotes_ok cfg F S' \<and> sb_rep S' = sb_rep S \<and> sb_have_mid S' \<and> sb_last_mid S' = sb_last_mid S \<and> sb_mm S' = sb_mm S"
proof (cases "wants \<and> (\<not> qp_active (our s S) \<or> qp_price (our s S) \<noteq> want)")
  case False
  then show ?thesis using r q m(1) unfolding requote_def if_not_P [OF False] by simp
next
  case True
  note Q = quotes_okD [OF q]
  let ?Q = "qp_place want s (mc_quote_size (sc_mm cfg)) (map (\<lambda>e. (en_id e, en_qty e)) (queue_of F s want)) (qp_cancel (our s S))"
  have S': "S' = (set_our s ?Q S)\<lparr>sb_requotes := sb_requotes (set_our s ?Q S) + 1\<rparr>"
    using r orders_of_queue [OF b, of s want] unfolding requote_def if_P [OF True] F by (simp add: Let_def)
  have o1: "our t S' = our t (set_our s ?Q S)" for t unfolding S' by (simp add: our_def)
  have "stands F s ?Q" unfolding stands_def place_behind(3,4) using place_behind(1) [of want s _ "queue_of F s want"] by (intro impI conjI refl exI [of _ "queue_of F s want"] exI [of _ "[]"]) simp_all
  then have st: "stands F t (our t S')" for t using Q(1) [of t] unfolding o1 by (cases "t = s") simp_all
  have lo: "left_open ?Q = uint (mc_quote_size (sc_mm cfg))" by (simp add: left_open_def place_behind)
  have same: "sb_rep S' = sb_rep S" "sb_have_mid S' = sb_have_mid S" "sb_last_mid S' = sb_last_mid S" "sb_mm S' = sb_mm S" by (simp_all add: S')
  have "mm_position (sb_mm S') + left_open (our Bid S') < cap cfg \<and> - mm_position (sb_mm S') + left_open (our Ask S') < cap cfg"
    using w True Q(3,4) lo unfolding o1 same by (cases s) (simp_all add: cap_def)
  then show ?thesis using st same Q(5,6) m unfolding quotes_ok_def by simp
qed

lemma refresh_effect:
  assumes r: "refresh P cfg S = Some S'" and s: "rp_sim P l n (sb_rep S) A" and m: "mirrors (pol_valid_price P l) (sc_symbol cfg) F A"
    and q: "quotes_ok cfg F S"
  shows "quotes_ok cfg F S' \<and> sb_rep S' = sb_rep S"
proof (cases "mb_find (sc_symbol cfg) (rp_books (sb_rep S))")
  case None
  then show ?thesis using r q by (simp add: refresh_def)
next
  case (Some b)
  then obtain B where B: "map_of (am_books (rp_books A)) (sc_symbol cfg) = Some B" "implements P (pol_valid_price P l) b B"
    using rp_simD [OF s] books_simD(2) unfolding multi_sim_def mb_find_def by blast
  then have F: "flats B = F" using m by (simp add: mirrors_def am_book_def)
  from r Some consider "S' = S" | mid where "S' = note_mid mid S" | mid where "sc_queue_model cfg" "sandbox_requote P cfg b mid (note_mid mid S) = Some S'"
    by (auto simp: refresh_def Let_def split: bind_splits option.splits if_splits)
  then show ?thesis
  proof cases
    case 1
    then show ?thesis using q by simp
  next
    case 2
    then show ?thesis using q by (simp add: quotes_ok_def)
  next
    case 3
    let ?S = "note_mid mid S"
    have q0: "quotes_ok cfg F ?S" using q by (simp add: quotes_ok_def)
    from 3(2) obtain want1 want2 w S1 where S1: "requote P cfg b Bid want1 (wants_bid (sb_mm ?S)) ?S = Some S1"
      "wants_ask (sb_mm S1) = Some w" "requote P cfg b Ask want2 w S1 = Some S'"
      by (auto simp: sandbox_requote_def split: bind_splits)
    have E1: "quotes_ok cfg F S1 \<and> sb_rep S1 = sb_rep ?S \<and> sb_have_mid S1 \<and> sb_last_mid S1 = sb_last_mid ?S \<and> sb_mm S1 = sb_mm ?S"
      by (rule requote_effect [OF S1(1) B(2) F q0]) (use 3(1) quotes_okD(6) [OF q0] in \<open>simp_all add: wants_bid_def\<close>)
    then have "mm_cfg (sb_mm S1) = sc_mm cfg" using quotes_okD(6) by blast
    then have w: "w \<Longrightarrow> - mm_position (sb_mm S1) < mc_max_position (sc_mm cfg)"
      using S1(2) by (auto simp: wants_ask_def i64_def split: bind_splits if_splits)
    have "quotes_ok cfg F S' \<and> sb_rep S' = sb_rep S1 \<and> sb_have_mid S' \<and> sb_last_mid S' = sb_last_mid S1 \<and> sb_mm S' = sb_mm S1"
      by (rule requote_effect [OF S1(3) B(2) F]) (use E1 3(1) w in simp_all)
    then show ?thesis using E1 by simp
  qed
qed

text \<open>Both quotes, where the maker wants them, are at the price the current mid asks for.\<close>

definition on_target :: "SandboxConfig \<Rightarrow> Price \<Rightarrow> ('l, 'm) Sandbox \<Rightarrow> bool" where
  "on_target cfg mid S \<longleftrightarrow>
     (\<exists>x v. bid_quote mid (sb_mm S) = Some x \<and> snap_bid x (sc_tick cfg) = Some v
        \<and> (wants_bid (sb_mm S) \<longrightarrow> qp_active (our Bid S) \<and> qp_price (our Bid S) = v))
   \<and> (\<exists>y w b. ask_quote mid (sb_mm S) = Some y \<and> snap_ask y (sc_tick cfg) = Some w \<and> wants_ask (sb_mm S) = Some b
        \<and> (b \<longrightarrow> qp_active (our Ask S) \<and> qp_price (our Ask S) = w))"

definition targets :: "SandboxConfig \<Rightarrow> (Side \<Rightarrow> (Price \<times> entry) list) \<Rightarrow> ('l, 'm) Sandbox \<Rightarrow> bool" where
  "targets cfg F S \<longleftrightarrow> (sc_queue_model cfg \<longrightarrow> F Bid \<noteq> [] \<longrightarrow> F Ask \<noteq> [] \<longrightarrow> on_target cfg ((fst (hd (F Bid)) + fst (hd (F Ask))) sdiv 2) S)"

lemma requote_target:
  assumes "requote P cfg b s want wants S = Some S'"
  shows "wants \<Longrightarrow> qp_active (our s S') \<and> qp_price (our s S') = want" and "t \<noteq> s \<Longrightarrow> our t S' = our t S" and "sb_mm S' = sb_mm S"
proof -
  have "\<not> (wants \<and> (\<not> qp_active (our s S) \<or> qp_price (our s S) \<noteq> want)) \<and> S' = S
     \<or> (\<exists>ahead. S' = (set_our s (qp_place want s (mc_quote_size (sc_mm cfg)) ahead (qp_cancel (our s S))) S)
          \<lparr>sb_requotes := sb_requotes (set_our s (qp_place want s (mc_quote_size (sc_mm cfg)) ahead (qp_cancel (our s S))) S) + 1\<rparr>)"
    using assms by (auto simp: requote_def Let_def split: bind_splits if_splits)
  moreover have "our t (S\<lparr>sb_requotes := n\<rparr>) = our t S" for t n and S :: "('a, 'b) Sandbox" by (simp add: our_def)
  ultimately show "wants \<Longrightarrow> qp_active (our s S') \<and> qp_price (our s S') = want" "t \<noteq> s \<Longrightarrow> our t S' = our t S" "sb_mm S' = sb_mm S"
    by (auto simp: place_behind)
qed

lemma best_flats:
  assumes "implements P V b B" and "best_level P s b = Some o1"
  shows "case o1 of None \<Rightarrow> flats B s = [] | Some lv \<Rightarrow> flats B s \<noteq> [] \<and> lvl_price lv = fst (hd (flats B s))"
proof (cases "ab_levels B s")
  case Nil
  then show ?thesis using implementsD(9) [OF assms(1), of s] assms(2) by (simp add: flats_def)
next
  case (Cons l ls)
  obtain p es where l: "l = (p, es)" by force
  have "es \<noteq> []" using abook_okD(3) [OF implementsD(8) [OF assms(1)], of p es s] Cons l by simp
  then show ?thesis using implementsD(9) [OF assms(1), of s] assms(2) Cons l by (cases es) (auto simp: flats_def)
qed

lemma refresh_targets:
  assumes r: "refresh P cfg S = Some S'" and s: "rp_sim P l n (sb_rep S) A" and m: "mirrors (pol_valid_price P l) (sc_symbol cfg) F A"
  shows "targets cfg F S'"
  unfolding targets_def
proof (intro impI)
  assume qm: "sc_queue_model cfg" and ne: "F Bid \<noteq> []" "F Ask \<noteq> []"
  have "map_of (am_books (rp_books A)) (sc_symbol cfg) \<noteq> None" using m ne
    by (cases "map_of (am_books (rp_books A)) (sc_symbol cfg)") (auto simp: mirrors_def am_book_def flats_new)
  then obtain B where B: "map_of (am_books (rp_books A)) (sc_symbol cfg) = Some B" by blast
  then have F: "flats B = F" using m by (simp add: mirrors_def am_book_def)
  obtain b where b: "mb_find (sc_symbol cfg) (rp_books (sb_rep S)) = Some b" "implements P (pol_valid_price P l) b B"
    using mb_find_sim [OF rp_simD [OF s] B] by blast
  obtain o1 o2 where o: "best_level P Bid b = Some o1" "best_level P Ask b = Some o2" using r b(1) by (auto simp: refresh_def split: bind_splits)
  obtain lb la where l: "o1 = Some lb" "o2 = Some la" "lvl_price lb = fst (hd (F Bid))" "lvl_price la = fst (hd (F Ask))"
    using best_flats [OF b(2) o(1)] best_flats [OF b(2) o(2)] ne unfolding F by (auto split: option.splits)
  let ?mid = "(fst (hd (F Bid)) + fst (hd (F Ask))) sdiv 2" and ?S = "note_mid ((fst (hd (F Bid)) + fst (hd (F Ask))) sdiv 2) S"
  have "sandbox_requote P cfg b ?mid ?S = Some S'"
    using r b(1) o l qm by (auto simp: refresh_def Let_def i64_def split: bind_splits if_splits)
  then obtain x v S1 y w z where q: "bid_quote ?mid (sb_mm ?S) = Some x" "snap_bid x (sc_tick cfg) = Some v"
    "requote P cfg b Bid v (wants_bid (sb_mm ?S)) ?S = Some S1" "ask_quote ?mid (sb_mm S1) = Some y" "snap_ask y (sc_tick cfg) = Some w"
    "wants_ask (sb_mm S1) = Some z" "requote P cfg b Ask w z S1 = Some S'"
    by (auto simp: sandbox_requote_def split: bind_splits)
  note T1 = requote_target [OF q(3)] and T2 = requote_target [OF q(7)]
  have bid: "our Bid S' = our Bid S1" by (rule T2(2)) simp
  show "on_target cfg ?mid S'" unfolding on_target_def bid T2(3) T1(3)
  proof (intro conjI exI)
    show "bid_quote ?mid (sb_mm ?S) = Some x" "snap_bid x (sc_tick cfg) = Some v" using q by simp_all
    show "wants_bid (sb_mm ?S) \<longrightarrow> qp_active (our Bid S1) \<and> qp_price (our Bid S1) = v" using T1(1) by blast
    show "ask_quote ?mid (sb_mm ?S) = Some y" "snap_ask y (sc_tick cfg) = Some w" "wants_ask (sb_mm ?S) = Some z" using q T1(3) by simp_all
    show "z \<longrightarrow> qp_active (our Ask S') \<and> qp_price (our Ask S') = w" using T2(1) by blast
  qed
qed

text \<open>What holds between two messages.\<close>

definition sandbox_ok :: "('l, 'm) policy \<Rightarrow> 'l \<Rightarrow> SandboxConfig \<Rightarrow> nat \<Rightarrow> ('l, 'm) Sandbox \<Rightarrow> bool" where
  "sandbox_ok P l cfg k S \<longleftrightarrow> (\<exists>A F. replayed P l k (sb_rep S) A \<and> mirrors (pol_valid_price P l) (sc_symbol cfg) F A \<and> priced F
     \<and> only_tracked [sc_symbol cfg] A \<and> quotes_ok cfg F S \<and> targets cfg F S)"

lemma message_keeps:
  assumes l: "lawful P l" and s: "length (sc_symbol cfg) = 8" and ok: "message_ok msg" "sandbox_ok P l cfg k S" "k < 2 ^ 30"
    and r: "sandbox_message P l cfg msg len S = Some S'"
  shows "sandbox_ok P l cfg (Suc k) S'"
proof -
  obtain A F where A: "replayed P l k (sb_rep S) A" "mirrors (pol_valid_price P l) (sc_symbol cfg) F A" "priced F"
    "only_tracked [sc_symbol cfg] A" "quotes_ok cfg F S" using ok(2) by (auto simp: sandbox_ok_def)
  obtain m where m: "decode_feed msg = Some m" using decode_feed_ok [OF ok(1)] by blast
  have sim: "rp_sim P l (3 * k) (sb_rep S) A" using A(1) by (simp add: replayed_def)
  obtain ev where ev: "peek_event P (rp_books (sb_rep S)) msg = Some ev" "foretells ev m F" using peek_foretells [OF sim A(2) m] by blast
  obtain R A' where R: "replay_apply P l msg len (sb_rep S) = Some R" "replayed P l (Suc k) R A'" "A' = abs_feed (pol_valid_price P l) m (bump (c_message len) A)"
    using replay_message [OF l ok(1) A(1) ok(3), of len] m by (auto simp: abs_apply_def)
  obtain F' where F': "mirrors (pol_valid_price P l) (sc_symbol cfg) F' A'" "priced F'" "follows_queues m F F'"
    using mirrors_feed [OF A(2,3) m A(4) s] unfolding R(3) by blast
  have t: "only_tracked [sc_symbol cfg] A'" unfolding R(3) by (rule only_tracked_feed [OF m A(4)]) (use s in simp_all)
  let ?S = "S\<lparr>sb_rep := R\<rparr>"
  have o1: "our s ?S = our s S" for s by (simp add: our_def)
  have q: "quotes_ok cfg F ?S" using A(5) unfolding quotes_ok_def o1 by simp
  obtain S1 where S1: "sandbox_event cfg ev (sb_last_mid S) (sb_have_mid ?S) ?S = Some S1" "refresh P cfg S1 = Some S'"
    using r ev(1) R(1) by (auto simp: sandbox_message_def split: bind_splits)
  have E: "quotes_ok cfg F' S1" "sb_rep S1 = R" using event_effect [OF S1(1) ev(2) F'(3) mirrors_ok [OF A(2)] q] by auto
  have "rp_sim P l (3 * Suc k) (sb_rep S1) A'" using R(2) E(2) by (simp add: replayed_def)
  from refresh_effect [OF S1(2) this F'(1) E(1)] have "quotes_ok cfg F' S'" "sb_rep S' = R" using E(2) by simp_all
  moreover have "targets cfg F' S'" by (rule refresh_targets [OF S1(2) \<open>rp_sim P l (3 * Suc k) (sb_rep S1) A'\<close> F'(1)])
  ultimately show ?thesis using R(2) F'(1,2) t unfolding sandbox_ok_def by blast
qed


subsection \<open>Whole files\<close>

text \<open>A walk with a handler that can fail, and what every successful step keeps.\<close>

lemma framed_keeps:
  assumes step: "\<And>m s s' k. message_ok m \<Longrightarrow> J k s \<Longrightarrow> k < N \<Longrightarrow> h m (length m) s = Some s' \<Longrightarrow> J (Suc k) s'"
    and "J 0 s" and "length data \<le> N" and "for_each_framed_message data h s = Some (r', s')"
  shows "\<exists>k \<le> length data. J k s'"
proof -
  have "rr_status read_result_default = ReadOk" by (simp add: read_result_default_def)
  from framed_sound [OF assms(4) [unfolded for_each_framed_message_def] this] obtain ms
    where ms: "\<forall>m \<in> set ms. message_ok m" "handle_all h ms s = Some s'" "take (rr_offset r') data = concat (map frame ms)" by blast
  have "length (concat (map frame ms)) \<ge> length ms" by (induction ms) auto
  then have n: "length ms \<le> length data" using arg_cong [OF ms(3), of length] by simp
  have "J (k + length ms) s'" if "J k s" "k + length ms \<le> N" "handle_all h ms s = Some s'" "\<forall>m \<in> set ms. message_ok m" for k s ms
    using that
  proof (induction ms arbitrary: k s)
    case (Cons m ms)
    then obtain s1 where s1: "h m (length m) s = Some s1" "handle_all h ms s1 = Some s'" by (auto split: bind_splits)
    have "J (Suc k) s1" using Cons.prems s1(1) by (intro step [of m k s]) auto
    then show ?case using Cons.IH [of "Suc k" s1] Cons.prems s1(2) by simp
  qed simp
  from this [of 0 s ms] show ?thesis using assms(2,3) ms n by auto
qed

lemma framed_project:
  assumes "\<And>m len s s'. h m len s = Some s' \<Longrightarrow> g m len (f s) = Some (f s')"
    and "framed_loop data h off r s = Some (r', s')"
  shows "framed_loop data g off r (f s) = Some (r', f s')"
  using assms
proof (induction data h off r s rule: framed_loop.induct)
  case (1 data h off r s)
  note step = "1.IH" and assms = "1.prems"(1) and p = "1.prems"(2)
  show ?case
  proof (cases "off < length data \<and> \<not> length data - off < 2")
    case False
    then show ?thesis using p by (subst framed_loop.simps, subst (asm) framed_loop.simps) (auto split: if_splits)
  next
    case True
    obtain v where v: "be16 data off = Some v" using p True by (subst (asm) framed_loop.simps) (auto split: bind_splits)
    show ?thesis
    proof (cases "unat v = 0 \<or> length data - off - 2 < unat v")
      case stop: True
      then show ?thesis using p True v by (subst framed_loop.simps, subst (asm) framed_loop.simps) (auto split: if_splits)
    next
      case go: False
      obtain t where t: "rd data (off + 2) = Some t" using p True v go by (subst (asm) framed_loop.simps) (auto split: bind_splits)
      show ?thesis
      proof (cases "message_length t \<noteq> 0 \<and> message_length t \<noteq> unat v")
        case stop: True
        then show ?thesis using p True v go t by (subst framed_loop.simps, subst (asm) framed_loop.simps) (auto simp: Let_def)
      next
        case on: False
        have u: "framed_loop data k off r x = do { x \<leftarrow> k (take (unat v) (drop (off + 2) data)) (unat v) x;
            framed_loop data k (off + (2 + unat v)) (r\<lparr>rr_messages := rr_messages r + 1\<rparr>) x }" for k :: "'x handler" and x :: 'x
          using True v go t on by (subst framed_loop.simps) (auto simp: Let_def)
        obtain s1 where s1: "h (take (unat v) (drop (off + 2) data)) (unat v) s = Some s1"
          "framed_loop data h (off + (2 + unat v)) (r\<lparr>rr_messages := rr_messages r + 1\<rparr>) s1 = Some (r', s')"
          using p unfolding u by (auto split: bind_splits)
        have "framed_loop data g (off + (2 + unat v)) (r\<lparr>rr_messages := rr_messages r + 1\<rparr>) (f s1) = Some (r', f s')"
          by (rule step [where a = "unat v" and aa = t and x = "message_length t"]) (use True v go t on s1 assms in simp_all)
        then show ?thesis unfolding u using assms [OF s1(1)] by simp
      qed
    qed
  qed
qed

end
