(* ===== verification/SandboxTotal.thy ===== *)
theory SandboxTotal
  imports SandboxRun ItchChunks
begin

text \<open>
  The sandbox never leaves the range of its 64-bit integers, for a bounded configuration and an input
  that is short against the size of a quote.
\<close>

definition sane :: "SandboxConfig \<Rightarrow> bool" where
  "sane cfg \<longleftrightarrow> \<bar>mc_half_spread_ticks (sc_mm cfg)\<bar> \<le> 2 ^ 31 \<and> 1 \<le> mc_max_position (sc_mm cfg) \<and> mc_max_position (sc_mm cfg) \<le> 2 ^ 20
     \<and> uint (mc_quote_size (sc_mm cfg)) \<le> 2 ^ 20 \<and> \<bar>mc_skew_per_100_shares (sc_mm cfg)\<bar> \<le> 2 ^ 10 \<and> 1 \<le> sc_tick cfg \<and> sc_tick cfg \<le> 2 ^ 31"

subsection \<open>The grid\<close>

lemma smod_pos: "0 < t \<Longrightarrow> p smod t = (if 0 \<le> p then p mod t else - ((- p) mod t))" for p t :: int
proof (cases "0 \<le> p")
  case True
  then show "0 < t \<Longrightarrow> ?thesis" by (cases "p = 0") (simp_all add: signed_modulo_int_def signed_divide_int_def minus_mult_div_eq_mod mult.commute)
next
  case False
  then show "0 < t \<Longrightarrow> ?thesis" by (simp add: signed_modulo_int_def signed_divide_int_def minus_mult_div_eq_mod mult.commute algebra_simps)
qed

lemma grid_rest_mod:
  assumes "0 < t" and "t < 2 ^ 62"
  shows "grid_rest p t = Some (p mod t)"
proof -
  have r: "\<bar>p smod t\<bar> < t" using assms(1) by (auto simp: smod_pos)
  have "(p smod t + t) smod t = (p smod t + t) mod t" using r smod_pos [OF assms(1), of "p smod t + t"] by simp
  also have "\<dots> = p smod t mod t" by simp
  also have "\<dots> = p mod t" using assms(1) by (simp add: smod_pos mod_minus_eq)
  finally show ?thesis using r assms by (simp add: grid_rest_def rem64_def i64_def abs_less_iff)
qed

lemma snap_grid:
  assumes "0 < t" and "t < 2 ^ 62" and "\<bar>p\<bar> < 2 ^ 62"
  shows "snap_bid p t = Some (p - p mod t)" and "snap_ask p t = Some (p + (- p) mod t)"
proof -
  have m: "0 \<le> p mod t" "p mod t < t" using assms(1) by simp_all
  then have "- (2 ^ 63) \<le> p - p mod t \<and> p - p mod t < 2 ^ 63" "- (2 ^ 63) \<le> t - p mod t \<and> t - p mod t < 2 ^ 63"
    "- (2 ^ 63) \<le> p + (t - p mod t) \<and> p + (t - p mod t) < 2 ^ 63" using assms(2,3) by auto
  note m = m i64_def [of "p - p mod t"] i64_def [of "t - p mod t"] i64_def [of "p + (t - p mod t)"] this
  show "snap_bid p t = Some (p - p mod t)" using m assms(1,2) by (simp add: snap_bid_def grid_rest_mod)
  have "(- p) mod t = (if p mod t = 0 then 0 else t - p mod t)" using assms(1) by (simp add: zmod_zminus1_eq_if)
  then show "snap_ask p t = Some (p + (- p) mod t)" using m assms(1,2) by (simp add: snap_ask_def grid_rest_mod)
qed


subsection \<open>The quotes\<close>

lemma sdiv_bound: "\<bar>x sdiv 100\<bar> \<le> \<bar>x\<bar>" for x :: int
  by (auto simp: signed_divide_int_def abs_mult sgn_if)

lemma in_range: "\<bar>x\<bar> < 2 ^ 63 \<Longrightarrow> i64 x = Some x"
  by (auto simp: i64_def)

lemma quotes_defined:
  assumes c: "sane cfg" and m: "mm_cfg M = sc_mm cfg" and p: "\<bar>mm_position M\<bar> < cap cfg" and mid: "0 \<le> mid" "mid < 2 ^ 32"
  shows "\<exists>x. bid_quote mid M = Some x \<and> (\<exists>v. snap_bid x (sc_tick cfg) = Some v \<and> \<bar>v\<bar> \<le> 2 ^ 34)"
    and "\<exists>x. ask_quote mid M = Some x \<and> (\<exists>v. snap_ask x (sc_tick cfg) = Some v \<and> \<bar>v\<bar> \<le> 2 ^ 34)"
    and "wants_ask M = Some (- mc_max_position (sc_mm cfg) < mm_position M)"
proof -
  note C = c [unfolded sane_def]
  let ?h = "mc_half_spread_ticks (sc_mm cfg)" and ?k = "mc_skew_per_100_shares (sc_mm cfg)" and ?t = "sc_tick cfg"
  have "\<bar>mm_position M\<bar> \<le> 2 ^ 21" using p C by (auto simp: cap_def)
  then have "\<bar>mm_position M\<bar> * \<bar>?k\<bar> \<le> 2 ^ 21 * 2 ^ 10" using C by (intro mult_mono) auto
  then have b: "\<bar>mm_position M * ?k\<bar> \<le> 2 ^ 31" by (simp add: abs_mult)
  define z where "z = mm_position M * ?k sdiv 100"
  have z: "skew M = Some z" "\<bar>z\<bar> \<le> 2 ^ 31" using b sdiv_bound [of "mm_position M * ?k"] m by (simp_all add: skew_def in_range z_def)
  have "\<bar>mid - ?h\<bar> < 2 ^ 63" "\<bar>mid + ?h\<bar> < 2 ^ 63" "\<bar>mid - ?h - z\<bar> < 2 ^ 63" "\<bar>mid + ?h - z\<bar> < 2 ^ 63" using C mid z(2) by auto
  note i = this [THEN in_range]
  have q: "bid_quote mid M = Some (mid - ?h - z)" "ask_quote mid M = Some (mid + ?h - z)"
    using i z(1) m by (simp_all add: bid_quote_def ask_quote_def)
  have r: "\<bar>mid - ?h - z\<bar> < 2 ^ 33 + 2 ^ 31" "\<bar>mid + ?h - z\<bar> < 2 ^ 33 + 2 ^ 31" using C mid z(2) by auto
  have t: "0 < ?t" "?t < 2 ^ 62" "?t \<le> 2 ^ 31" using C by auto
  have g: "0 \<le> x mod ?t \<and> x mod ?t < 2 ^ 31" for x using t pos_mod_bound [OF t(1), of x] pos_mod_sign [OF t(1), of x] by linarith
  have "\<bar>mid - ?h - z\<bar> < 2 ^ 62" "\<bar>mid + ?h - z\<bar> < 2 ^ 62" using r by auto
  note S = snap_grid(1) [OF t(1,2) this(1)] snap_grid(2) [OF t(1,2) this(2)]
  have "\<bar>(mid - ?h - z) - (mid - ?h - z) mod ?t\<bar> \<le> 2 ^ 34" "\<bar>(mid + ?h - z) + (- (mid + ?h - z)) mod ?t\<bar> \<le> 2 ^ 34"
    using r g [of "mid - ?h - z"] g [of "- (mid + ?h - z)"] by auto
  then show "\<exists>x. bid_quote mid M = Some x \<and> (\<exists>v. snap_bid x (sc_tick cfg) = Some v \<and> \<bar>v\<bar> \<le> 2 ^ 34)"
    "\<exists>x. ask_quote mid M = Some x \<and> (\<exists>v. snap_ask x (sc_tick cfg) = Some v \<and> \<bar>v\<bar> \<le> 2 ^ 34)"
    using q S by blast+
  show "wants_ask M = Some (- mc_max_position (sc_mm cfg) < mm_position M)" using C m by (simp add: wants_ask_def in_range)
qed

subsection \<open>One message\<close>

definition bounded :: "SandboxConfig \<Rightarrow> nat \<Rightarrow> ('l, 'm) Sandbox \<Rightarrow> bool" where
  "bounded cfg k S \<longleftrightarrow> (\<forall>f \<in> set (mm_fills_log (sb_mm S)). \<bar>fe_price f\<bar> \<le> 2 ^ 34)
     \<and> turnover (mm_fills_log (sb_mm S)) \<le> int k * uint (mc_quote_size (sc_mm cfg))
     \<and> (sb_have_mid S \<longrightarrow> 0 \<le> sb_last_mid S \<and> sb_last_mid S < 2 ^ 32)
     \<and> (\<forall>s. uint (qp_remaining (our s S)) \<le> uint (mc_quote_size (sc_mm cfg)))"

lemma fill_defined:
  assumes a: "accounts_ok (sb_mm S)" and b: "bounded cfg k S" and f: "uint fill \<le> uint (mc_quote_size (sc_mm cfg))" and p: "\<bar>price\<bar> \<le> 2 ^ 34"
    and n: "int (Suc k) * uint (mc_quote_size (sc_mm cfg)) < 2 ^ 29"
  shows "\<exists>S'. fill_our s price fill mid S = Some S' \<and> bounded cfg (Suc k) S'"
proof -
  let ?f = "\<lparr>fe_side = s, fe_price = price, fe_qty = fill, fe_timestamp = st_last_timestamp (rp_stats (sb_rep S)), fe_mid_at_fill = mid\<rparr>"
  let ?l = "mm_fills_log (sb_mm S) @ [?f]"
  have pr: "\<forall>g \<in> set ?l. \<bar>fe_price g\<bar> \<le> 2 ^ 34" using b p by (simp add: bounded_def)
  have t: "turnover ?l \<le> int (Suc k) * uint (mc_quote_size (sc_mm cfg))" using b f by (simp add: bounded_def distrib_right)
  then have "turnover ?l * 2 ^ 34 < 2 ^ 63" using n by simp
  then obtain M where M: "on_fill ?f (sb_mm S) = Some M" using on_fill_defined [OF a pr] by auto
  then have "fill_our s price fill mid S = Some (S\<lparr>sb_mm := M\<rparr>)" by (simp add: fill_our_def)
  moreover have "our u (S\<lparr>sb_mm := M\<rparr>) = our u S" for u by (simp add: our_def)
  then have "bounded cfg (Suc k) (S\<lparr>sb_mm := M\<rparr>)" using fill_fields [OF M] pr t b unfolding bounded_def by simp
  ultimately show ?thesis by blast
qed

lemma bounded_Suc: "bounded cfg k S \<Longrightarrow> bounded cfg (Suc k) S"
  by (auto simp: bounded_def distrib_right intro: order_trans)

lemma event_defined:
  assumes c: "sane cfg" and f: "foretells ev m F" and ok: "priced F" and q: "quotes_ok cfg F S" and b: "bounded cfg k S"
    and n: "int (Suc k) * uint (mc_quote_size (sc_mm cfg)) < 2 ^ 29"
  shows "\<exists>S'. sandbox_event cfg ev (sb_last_mid S) (sb_have_mid S) S = Some S' \<and> bounded cfg (Suc k) S'"
proof -
  note Q = quotes_okD [OF q]
  let ?S = "if ev_is_execution ev then S\<lparr>sb_prints_seen := sb_prints_seen S + 1\<rparr> else S"
  have o1: "our s ?S = our s S" "sb_mm ?S = sb_mm S" "sb_have_mid ?S = sb_have_mid S" "sb_last_mid ?S = sb_last_mid S" "sb_rep ?S = sb_rep S" for s
    by (simp_all add: our_def)
  have b1: "bounded cfg k ?S" using b unfolding bounded_def o1 .
  have a1: "accounts_ok (sb_mm ?S)" using Q(5) unfolding o1 .
  consider (none) "\<not> (ev_valid ev \<and> sb_have_mid S)" | (queue) "ev_valid ev" "sb_have_mid S" "sc_queue_model cfg"
    | (naive) "ev_valid ev" "sb_have_mid S" "\<not> sc_queue_model cfg" "ev_is_execution ev" | (skip) "ev_valid ev" "sb_have_mid S" "\<not> sc_queue_model cfg" "\<not> ev_is_execution ev" by blast
  then show ?thesis
  proof cases
    case none
    then show ?thesis using bounded_Suc [OF b] by (auto simp: sandbox_event_def)
  next
    case skip
    then show ?thesis using bounded_Suc [OF b] by (auto simp: sandbox_event_def)
  next
    case queue
    let ?t = "ev_resting_side ev"
    obtain g where "(ev_price ev, g) \<in> set (F ?t)" using f queue(1) by (auto simp: foretells_def)
    then have "0 \<le> ev_price ev \<and> ev_price ev < 2 ^ 32" using ok by (fastforce simp: priced_def)
    then have p: "\<bar>ev_price ev\<bar> \<le> 2 ^ 34" by simp
    obtain fill Q' where t: "take_fill (ev_shares ev) (our ?t ?S) = (fill, Q')" by force
    note T = take_fill_bounds [OF t]
    have u: "uint fill \<le> uint (mc_quote_size (sc_mm cfg))" "uint (qp_remaining Q') \<le> uint (mc_quote_size (sc_mm cfg))"
    proof -
      have le: "fill \<le> qp_remaining (our ?t S)" using T(1) unfolding o1 by simp
      then have "uint (qp_remaining Q') = uint (qp_remaining (our ?t S)) - uint fill" using T(2) unfolding o1 by (simp add: uint_minus_simple_alt)
      moreover have "uint (qp_remaining (our ?t S)) \<le> uint (mc_quote_size (sc_mm cfg))" using b by (simp add: bounded_def)
      moreover have "uint fill \<le> uint (qp_remaining (our ?t S))" "0 \<le> uint fill" using le by (simp_all add: word_le_def)
      ultimately show "uint fill \<le> uint (mc_quote_size (sc_mm cfg))" "uint (qp_remaining Q') \<le> uint (mc_quote_size (sc_mm cfg))" by linarith+
    qed
    have b2: "bounded cfg k (set_our ?t Q' ?S)"
    proof -
      have "uint (qp_remaining (our s (set_our ?t Q' ?S))) \<le> uint (mc_quote_size (sc_mm cfg))" for s
        using b1 u(2) by (cases "s = ?t") (simp_all only: our_set bounded_def, simp)
      then show ?thesis using b1 unfolding bounded_def by simp
    qed
    have a2: "accounts_ok (sb_mm (set_our ?t Q' ?S))" using a1 by simp
    have b3: "bounded cfg (Suc k) (?S\<lparr>sb_bid := on_shares_removed (ev_id ev) (ev_shares ev) (sb_bid ?S), sb_ask := on_shares_removed (ev_id ev) (ev_shares ev) (sb_ask ?S)\<rparr>)"
      (is "bounded cfg (Suc k) ?R")
    proof -
      have "our s ?R = on_shares_removed (ev_id ev) (ev_shares ev) (our s ?S)" for s by (simp add: our_def)
      then show ?thesis using bounded_Suc [OF b1] unfolding bounded_def by simp
    qed
    have "\<exists>S'. queue_event ev (sb_last_mid S) ?S = Some S' \<and> bounded cfg (Suc k) S'"
    proof (cases "ev_is_execution ev \<and> qp_active (our ?t ?S) \<and> qp_price (our ?t ?S) = ev_price ev \<and> qp_at_front (our ?t ?S)")
      case True
      then show ?thesis using fill_defined [OF a2 b2 u(1) p n, of ?t "sb_last_mid S"] bounded_Suc [OF b2]
        unfolding queue_event_def Let_def if_P [OF True] t prod.case by (cases "fill > 0") simp_all
    next
      case False
      show ?thesis using b3 unfolding queue_event_def Let_def if_not_P [OF False] by simp
    qed
    then show ?thesis using queue by (simp add: sandbox_event_def Let_def)
  next
    case naive
    let ?fill = "if ev_shares ev < mc_quote_size (sc_mm cfg) then ev_shares ev else mc_quote_size (sc_mm cfg)"
    have le: "uint ?fill \<le> uint (mc_quote_size (sc_mm cfg))" by (simp add: word_less_def)
    define S0 where "S0 = ?S"
    have pos: "\<bar>mm_position (sb_mm S0)\<bar> < cap cfg"
      using Q(3,4) left_open_nonneg [of "our Bid S"] left_open_nonneg [of "our Ask S"] unfolding S0_def o1 by linarith
    have mid: "0 \<le> sb_last_mid S" "sb_last_mid S < 2 ^ 32" using b naive(2) by (simp_all add: bounded_def)
    have cf: "mm_cfg (sb_mm S0) = sc_mm cfg" using Q(6) unfolding S0_def o1 .
    note D = quotes_defined [OF c cf pos mid]
    obtain x v y w where v: "bid_quote (sb_last_mid S) (sb_mm S0) = Some x" "snap_bid x (sc_tick cfg) = Some v" "\<bar>v\<bar> \<le> 2 ^ 34"
      "ask_quote (sb_last_mid S) (sb_mm S0) = Some y" "snap_ask y (sc_tick cfg) = Some w" "\<bar>w\<bar> \<le> 2 ^ 34" using D(1,2) by blast
    note ab = a1 [folded S0_def] b1 [folded S0_def]
    define fill where "fill = ?fill"
    have o2: "optimistic_event cfg ev (sb_last_mid S) S0 = (if ev_resting_side ev = Bid \<and> wants_bid (sb_mm S0) \<and> v \<ge> ev_price ev
        then fill_our Bid v fill (sb_last_mid S) S0
        else if ev_resting_side ev = Ask \<and> - mc_max_position (sc_mm cfg) < mm_position (sb_mm S0) \<and> w \<le> ev_price ev
        then fill_our Ask w fill (sb_last_mid S) S0 else Some S0)"
      by (simp add: optimistic_event_def v D(3) fill_def Let_def)
    have "\<exists>S'. optimistic_event cfg ev (sb_last_mid S) S0 = Some S' \<and> bounded cfg (Suc k) S'"
      using fill_defined [OF ab le v(3) n, of Bid "sb_last_mid S", folded fill_def] fill_defined [OF ab le v(6) n, of Ask "sb_last_mid S", folded fill_def] bounded_Suc [OF ab(2)]
      unfolding o2 by (simp del: split_paired_Ex)
    then have "\<exists>S'. optimistic_event cfg ev (sb_last_mid S) ?S = Some S' \<and> bounded cfg (Suc k) S'" unfolding S0_def .
    then show ?thesis using naive by (simp add: sandbox_event_def Let_def)
  qed
qed

lemma best_priced:
  assumes "implements P V b B" and "priced (flats B)"
  shows "\<exists>o1. best_level P s b = Some o1 \<and> (\<forall>lv. o1 = Some lv \<longrightarrow> 0 \<le> lvl_price lv \<and> lvl_price lv < 2 ^ 32)"
proof -
  have r: "0 \<le> p \<and> p < 2 ^ 32" if "ab_levels B s = (p, es) # ls" for p es ls
  proof -
    have "es \<noteq> []" using abook_okD(3) [OF implementsD(8) [OF assms(1)], of p es s] that by simp
    then have "(p, hd es) \<in> set (flats B s)" using that by (cases es) (simp_all add: flats_def)
    then show ?thesis using assms(2) unfolding priced_def by (metis fst_conv)
  qed
  show ?thesis using implementsD(9) [OF assms(1), of s] r by (cases "ab_levels B s") auto
qed

lemma requote_defined:
  assumes "implements P V b B" and "flats B = F" and "bounded cfg k S"
  shows "\<exists>S'. requote P cfg b s want wants S = Some S' \<and> bounded cfg k S'"
proof (cases "wants \<and> (\<not> qp_active (our s S) \<or> qp_price (our s S) \<noteq> want)")
  case False
  then show ?thesis using assms(3) unfolding requote_def if_not_P [OF False] by simp
next
  case True
  let ?Q = "qp_place want s (mc_quote_size (sc_mm cfg)) (map (\<lambda>e. (en_id e, en_qty e)) (queue_of F s want)) (qp_cancel (our s S))"
  let ?S = "(set_our s ?Q S)\<lparr>sb_requotes := sb_requotes (set_our s ?Q S) + 1\<rparr>"
  have o1: "our t ?S = our t (set_our s ?Q S)" for t by (simp add: our_def)
  have "uint (qp_remaining (our t ?S)) \<le> uint (mc_quote_size (sc_mm cfg))" for t
    using assms(3) unfolding o1 by (cases "t = s") (simp_all add: bounded_def place_behind)
  then have "bounded cfg k ?S" using assms(3) unfolding bounded_def by simp
  moreover have "requote P cfg b s want wants S = Some ?S"
    using orders_of_queue [OF assms(1), of s want] unfolding requote_def if_P [OF True] assms(2) by (simp add: Let_def)
  ultimately show ?thesis by blast
qed

lemma refresh_defined:
  assumes c: "sane cfg" and s: "rp_sim P l n (sb_rep S) A" and m: "mirrors (pol_valid_price P l) (sc_symbol cfg) F A"
    and f: "priced F" and q: "quotes_ok cfg F S" and b: "bounded cfg k S"
  shows "\<exists>S'. refresh P cfg S = Some S' \<and> bounded cfg k S'"
proof (cases "mb_find (sc_symbol cfg) (rp_books (sb_rep S))")
  case None
  then show ?thesis using b by (simp add: refresh_def)
next
  case (Some bk)
  then obtain B where B: "map_of (am_books (rp_books A)) (sc_symbol cfg) = Some B" "implements P (pol_valid_price P l) bk B"
    using rp_simD [OF s] books_simD(2) unfolding multi_sim_def mb_find_def by blast
  then have F: "flats B = F" using m by (simp add: mirrors_def am_book_def)
  note best = best_priced [OF B(2) f [folded F]]
  obtain o1 o2 where o: "best_level P Bid bk = Some o1" "\<forall>lv. o1 = Some lv \<longrightarrow> 0 \<le> lvl_price lv \<and> lvl_price lv < 2 ^ 32"
    "best_level P Ask bk = Some o2" "\<forall>lv. o2 = Some lv \<longrightarrow> 0 \<le> lvl_price lv \<and> lvl_price lv < 2 ^ 32"
    using best [of Bid] best [of Ask] by blast
  show ?thesis
  proof (cases "o1 = None \<or> o2 = None")
    case True
    then have "refresh P cfg S = Some S" using Some o(1,3) by (auto simp: refresh_def split: option.split)
    then show ?thesis using b by blast
  next
    case False
    then obtain lb la where l: "o1 = Some lb" "o2 = Some la" by auto
    define mid where "mid = (lvl_price lb + lvl_price la) sdiv 2"
    have r: "0 \<le> lvl_price lb + lvl_price la" "lvl_price lb + lvl_price la < 2 * 2 ^ 32" using o(2,4) l by auto
    then have "mid = (lvl_price lb + lvl_price la) div 2" by (simp add: mid_def signed_divide_int_def sgn_if)
    then have mid: "0 \<le> mid" "mid < 2 ^ 32" using r by auto
    let ?S = "note_mid mid S"
    have b1: "bounded cfg k ?S" using b mid unfolding bounded_def by simp
    have "i64 (lvl_price lb + lvl_price la) = Some (lvl_price lb + lvl_price la)" using r by (intro in_range) auto
    then have rf: "refresh P cfg S = (if sc_queue_model cfg then sandbox_requote P cfg bk mid ?S else Some ?S)"
      using Some o(1,3) l by (simp add: refresh_def mid_def Let_def)
    have q0: "quotes_ok cfg F ?S" using q by (simp add: quotes_ok_def)
    note Q = quotes_okD [OF q0]
    have pos: "\<bar>mm_position (sb_mm ?S)\<bar> < cap cfg"
      using Q(3,4) left_open_nonneg [of "our Bid ?S"] left_open_nonneg [of "our Ask ?S"] by linarith
    obtain x v where v: "bid_quote mid (sb_mm ?S) = Some x" "snap_bid x (sc_tick cfg) = Some v" using quotes_defined(1) [OF c Q(6) pos mid] by blast
    obtain S1 where S1: "requote P cfg bk Bid v (wants_bid (sb_mm ?S)) ?S = Some S1" "bounded cfg k S1"
      using requote_defined [OF B(2) F b1] by blast
    have "sb_mm S1 = sb_mm ?S" using S1(1) by (auto simp: requote_def Let_def split: bind_splits if_splits)
    then have mm: "mm_cfg (sb_mm S1) = sc_mm cfg" "\<bar>mm_position (sb_mm S1)\<bar> < cap cfg" using Q(6) pos by simp_all
    note D = quotes_defined(2,3) [OF c mm mid]
    obtain y w where w: "ask_quote mid (sb_mm S1) = Some y" "snap_ask y (sc_tick cfg) = Some w" using D(1) by blast
    obtain S2 where S2: "requote P cfg bk Ask w (- mc_max_position (sc_mm cfg) < mm_position (sb_mm S1)) S1 = Some S2" "bounded cfg k S2"
      using requote_defined [OF B(2) F S1(2)] by blast
    have "sandbox_requote P cfg bk mid ?S = Some S2" using v S1(1) w S2(1) D(2) by (simp add: sandbox_requote_def)
    then show ?thesis using rf b1 S2(2) by simp
  qed
qed

lemma message_defined:
  assumes c: "sane cfg" and l: "lawful P l" and s: "length (sc_symbol cfg) = 8" and ok: "message_ok msg" "sandbox_ok P l cfg k S" "k < 2 ^ 30"
    and b: "bounded cfg k S" and n: "int (Suc k) * uint (mc_quote_size (sc_mm cfg)) < 2 ^ 29"
  shows "\<exists>S'. sandbox_message P l cfg msg len S = Some S' \<and> bounded cfg (Suc k) S'"
proof -
  obtain A F where A: "replayed P l k (sb_rep S) A" "mirrors (pol_valid_price P l) (sc_symbol cfg) F A" "priced F"
    "only_tracked [sc_symbol cfg] A" "quotes_ok cfg F S" using ok(2) by (auto simp: sandbox_ok_def)
  obtain m where m: "decode_feed msg = Some m" using decode_feed_ok [OF ok(1)] by blast
  have sim: "rp_sim P l (3 * k) (sb_rep S) A" using A(1) by (simp add: replayed_def)
  obtain ev where ev: "peek_event P (rp_books (sb_rep S)) msg = Some ev" "foretells ev m F" using peek_foretells [OF sim A(2) m] by blast
  obtain R A' where R: "replay_apply P l msg len (sb_rep S) = Some R" "replayed P l (Suc k) R A'" "A' = abs_feed (pol_valid_price P l) m (bump (c_message len) A)"
    using replay_message [OF l ok(1) A(1) ok(3), of len] m by (auto simp: abs_apply_def)
  obtain F' where F': "mirrors (pol_valid_price P l) (sc_symbol cfg) F' A'" "priced F'" "follows_queues m F F'"
    using mirrors_feed [OF A(2,3) m A(4) s] unfolding R(3) by blast
  let ?S = "S\<lparr>sb_rep := R\<rparr>"
  have o1: "our s ?S = our s S" for s by (simp add: our_def)
  have q: "quotes_ok cfg F ?S" using A(5) unfolding quotes_ok_def o1 by simp
  have b1: "bounded cfg k ?S" using b unfolding bounded_def o1 by simp
  obtain S1 where S1: "sandbox_event cfg ev (sb_last_mid S) (sb_have_mid S) ?S = Some S1" "bounded cfg (Suc k) S1"
    using event_defined [OF c ev(2) A(3) q b1 n] by auto
  have E: "quotes_ok cfg F' S1" "sb_rep S1 = R" using event_effect [OF _ ev(2) F'(3) mirrors_ok [OF A(2)] q, of "sb_last_mid S" S1] S1(1) by auto
  have "rp_sim P l (3 * Suc k) (sb_rep S1) A'" using R(2) E(2) by (simp add: replayed_def)
  from refresh_defined [OF c this F'(1,2) E(1) S1(2)] obtain S2 where "refresh P cfg S1 = Some S2" "bounded cfg (Suc k) S2" by blast
  then show ?thesis using ev(1) R(1) S1(1) by (simp add: sandbox_message_def)
qed

subsection \<open>A whole run\<close>

lemma sandbox_start:
  assumes "mb_new = Some M" and "multi_sim P l 0 M amulti_new" and "1 \<le> mc_max_position (sc_mm cfg)"
  shows "sandbox_ok P l cfg 0 (sandbox_new cfg M)" and "bounded cfg 0 (sandbox_new cfg M)"
proof -
  let ?A = "track_only [sc_symbol cfg] (replayer_new amulti_new)"
  have r: "replayed P l 0 (sb_rep (sandbox_new cfg M)) ?A"
    using assms(2) by (simp add: replayed_def rp_sim_def track_only_def replayer_new_def owners_ok_def amulti_new_def sandbox_new_def)
  have m: "mirrors V (sc_symbol cfg) (\<lambda>_. []) ?A" for V
    using mirrors_new [of V "sc_symbol cfg"] by (simp add: mirrors_def track_only_def replayer_new_def tracked_def)
  have t: "only_tracked [sc_symbol cfg] ?A" by (simp add: only_tracked_def track_only_def replayer_new_def amulti_new_def)
  have o1: "our s (sandbox_new cfg M) = qp_default" for s by (simp add: our_def sandbox_new_def)
  have "0 < cap cfg" using assms(3) unsigned_greater_eq [of "mc_quote_size (sc_mm cfg)", where ?'a = int] unfolding cap_def by linarith
  moreover have "mm_position (sb_mm (sandbox_new cfg M)) = 0" "mm_cfg (sb_mm (sandbox_new cfg M)) = sc_mm cfg"
    by (simp_all add: sandbox_new_def market_maker_new_def)
  moreover have "accounts_ok (sb_mm (sandbox_new cfg M))" by (simp add: sandbox_new_def accounts_new)
  ultimately have "quotes_ok cfg (\<lambda>_. []) (sandbox_new cfg M)"
    unfolding quotes_ok_def o1 by (simp add: stands_def left_open_def qp_default_def)
  then show "sandbox_ok P l cfg 0 (sandbox_new cfg M)"
    unfolding sandbox_ok_def using r m t by (intro exI [of _ ?A] exI [of _ "\<lambda>_. []"]) (simp add: priced_def targets_def)
  have l: "mm_fills_log (sb_mm (sandbox_new cfg M)) = []" "\<not> sb_have_mid (sandbox_new cfg M)" by (simp_all add: sandbox_new_def market_maker_new_def)
  show "bounded cfg 0 (sandbox_new cfg M)" unfolding bounded_def o1 using l by (simp add: qp_default_def)
qed

text \<open>Files the reader takes like a file in memory: those below the 32 MB of its chunk, and those with short frames only.\<close>

definition plain_file :: "bytes \<Rightarrow> bool" where
  "plain_file file \<longleftrightarrow> length file < 32 * 2 ^ 20 \<or> small_frames file"

lemma stream_default:
  "plain_file file \<Longrightarrow> for_each_framed_stream (Some file) h (32 * 2 ^ 20) s = for_each_framed_message file h s"
  unfolding plain_file_def using stream_short [of "file" "32 * 2 ^ 20" h s] stream_whole [of "32 * 2 ^ 20" "file" h s] by auto

text \<open>Whatever a run does, it keeps this.\<close>

lemma sandbox_reached:
  assumes "lawful P l" and "length (sc_symbol cfg) = 8" and "1 \<le> mc_max_position (sc_mm cfg)" and "plain_file file" and "length file < 2 ^ 30"
    and "mm_sandbox P l cfg (Some file) = Some (r, S)"
  shows "\<exists>k \<le> length file. sandbox_ok P l cfg k S"
    and "replay_file P l [sc_symbol cfg] file = Some (r, sb_rep S)"
proof -
  obtain M where M: "mb_new = Some M" "multi_sim P l 0 M amulti_new" using mb_new_sim [of P l] by auto
  have run: "for_each_framed_message file (sandbox_message P l cfg) (sandbox_new cfg M) = Some (r, S)"
    using assms(6) unfolding mm_sandbox_def M(1) stream_default [OF assms(4)] by simp
  show "\<exists>k \<le> length file. sandbox_ok P l cfg k S"
    by (rule framed_keeps [where J = "sandbox_ok P l cfg" and N = "2 ^ 30", OF _ sandbox_start(1) [OF M assms(3)] _ run])
      (use message_keeps [OF assms(1,2)] assms(5) in auto)
  have "replay_apply P l m len (sb_rep S) = Some (sb_rep S')" if r: "sandbox_message P l cfg m len S = Some S'" for m len S S'
  proof -
    obtain ev R S1 where s: "replay_apply P l m len (sb_rep S) = Some R"
      "sandbox_event cfg ev (sb_last_mid S) (sb_have_mid S) (S\<lparr>sb_rep := R\<rparr>) = Some S1" "refresh P cfg S1 = Some S'"
      using r by (auto simp: sandbox_message_def split: bind_splits)
    have "sb_rep S1 = R"
      using s(2) by (auto simp: sandbox_event_def queue_event_def optimistic_event_def Let_def fill_our_def split: bind_splits if_splits prod.splits)
    moreover have "sb_rep S3 = sb_rep S2" if "requote P cfg b s want wants S2 = Some S3" for b s want wants S2 S3
      using that by (auto simp: requote_def Let_def split: bind_splits if_splits)
    then have "sb_rep S3 = sb_rep S2" if "sandbox_requote P cfg b mid S2 = Some S3" for b mid S2 S3
      using that by (force simp: sandbox_requote_def split: bind_splits)
    then have "sb_rep S' = sb_rep S1" using s(3) by (force simp: refresh_def Let_def split: bind_splits option.splits if_splits)
    ultimately show ?thesis using s(1) by simp
  qed
  from framed_project [where f = sb_rep and g = "replay_apply P l", OF this run [unfolded for_each_framed_message_def]]
  have "for_each_framed_message file (replay_apply P l) (sb_rep (sandbox_new cfg M)) = Some (r, sb_rep S)" by (simp add: for_each_framed_message_def)
  then show "replay_file P l [sc_symbol cfg] file = Some (r, sb_rep S)" by (simp add: replay_file_def M(1) sandbox_new_def)
qed

text \<open>A bounded run does not fail.\<close>

lemma sandbox_total:
  assumes "lawful P l" and "length (sc_symbol cfg) = 8" and "sane cfg" and "plain_file file" and "length file < 2 ^ 29"
    and n: "int (length file) * uint (mc_quote_size (sc_mm cfg)) < 2 ^ 29"
  shows "\<exists>r S k. mm_sandbox P l cfg (Some file) = Some (r, S) \<and> k \<le> length file \<and> sandbox_ok P l cfg k S \<and> bounded cfg k S"
proof -
  obtain M where M: "mb_new = Some M" "multi_sim P l 0 M amulti_new" using mb_new_sim [of P l] by auto
  have mx: "1 \<le> mc_max_position (sc_mm cfg)" using assms(3) by (simp add: sane_def)
  define J where "J k S S' \<longleftrightarrow> S' = S \<and> sandbox_ok P l cfg k S \<and> bounded cfg k S" for k S S'
  have step: "\<exists>s' t'. sandbox_message P l cfg m (length m) s = Some s' \<and> sandbox_message P l cfg m (length m) t = Some t' \<and> J (Suc k) s' t'"
    if a: "message_ok m" "J k s t" "k < length file" for m s t k
  proof -
    have st: "t = s" "sandbox_ok P l cfg k s" "bounded cfg k s" using a(2) by (simp_all add: J_def)
    have k: "k < 2 ^ 30" using a(3) assms(5) by simp
    have "int (Suc k) * uint (mc_quote_size (sc_mm cfg)) \<le> int (length file) * uint (mc_quote_size (sc_mm cfg))"
      using a(3) by (intro mult_right_mono) auto
    then have n1: "int (Suc k) * uint (mc_quote_size (sc_mm cfg)) < 2 ^ 29" using n by simp
    obtain s' where s': "sandbox_message P l cfg m (length m) s = Some s'" "bounded cfg (Suc k) s'"
      using message_defined [OF assms(3,1,2) a(1) st(2) k st(3) n1] by blast
    then show ?thesis using message_keeps [OF assms(1,2) a(1) st(2) k s'(1)] st(1) by (auto simp: J_def)
  qed
  have "J 0 (sandbox_new cfg M) (sandbox_new cfg M)" using sandbox_start [OF M mx] by (simp add: J_def)
  from framed_sim [of J "length file" "sandbox_message P l cfg" "sandbox_message P l cfg", OF step this, of "file" read_result_default]
  obtain r S k where "framed_loop file (sandbox_message P l cfg) 0 read_result_default (sandbox_new cfg M) = Some (r, S)" "J k S S" "k \<le> length file"
    by (auto simp: J_def)
  then show ?thesis unfolding mm_sandbox_def M(1) stream_default [OF assms(4)] by (auto simp: for_each_framed_message_def J_def)
qed

end
