(* ===== verification/SandboxQueue.thy ===== *)
theory SandboxQueue
  imports SandboxTotal
begin

text \<open>
  Where an active quote of the sandbox stands: the orders ahead of it are those that rested at its price when it was placed, less
  what every message since then has taken of them.
\<close>

lemma orders_mirrored:
  assumes "rp_sim P l n R A" and "mirrors (pol_valid_price P l) s F A"
  shows "replayed_orders P s t (rp_books R) = Some (F t)"
proof (cases "mb_find s (rp_books R)")
  case None
  then have "map_of (am_books (rp_books A)) s = None" using rp_simD [OF assms(1)] books_simD(1) unfolding multi_sim_def mb_find_def by blast
  then show ?thesis using None assms(2) by (auto simp: replayed_orders_def mirrors_def am_book_def flats_new)
next
  case (Some b)
  then obtain B where B: "map_of (am_books (rp_books A)) s = Some B" "implements P (pol_valid_price P l) b B"
    using rp_simD [OF assms(1)] books_simD(2) unfolding multi_sim_def mb_find_def by blast
  then have "flats B = F" using assms(2) by (simp add: mirrors_def am_book_def)
  then show ?thesis using Some implementsD(3) [OF B(2), of t] by (auto simp: replayed_orders_def flats_def)
qed

lemma sandbox_okD:
  assumes "sandbox_ok P l cfg k S"
  obtains F where "\<forall>t. replayed_orders P (sc_symbol cfg) t (rp_books (sb_rep S)) = Some (F t)" and "quotes_ok cfg F S" and "targets cfg F S"
proof -
  obtain A F where A: "replayed P l k (sb_rep S) A" "mirrors (pol_valid_price P l) (sc_symbol cfg) F A" "quotes_ok cfg F S" "targets cfg F S"
    using assms by (auto simp: sandbox_ok_def)
  have "rp_sim P l (3 * k) (sb_rep S) A" using A(1) by (simp add: replayed_def)
  from that [OF allI [OF orders_mirrored [OF this A(2)]] A(3,4)] show thesis .
qed

subsection \<open>The orders ahead, from the messages\<close>

text \<open>The handler of a message up to the new quotes, and the two parts together.\<close>

definition sandbox_absorb :: "('l, 'm) policy \<Rightarrow> 'l \<Rightarrow> SandboxConfig \<Rightarrow> ('l, 'm) Sandbox handler" where
  "sandbox_absorb P l cfg m len S = do {
     ev \<leftarrow> peek_event P (rp_books (sb_rep S)) m;
     R \<leftarrow> replay_apply P l m len (sb_rep S);
     sandbox_event cfg ev (sb_last_mid S) (sb_have_mid S) (S\<lparr>sb_rep := R\<rparr>) }"

lemma message_parts: "sandbox_message P l cfg m len S = do { E \<leftarrow> sandbox_absorb P l cfg m len S; refresh P cfg E }"
  by (simp add: sandbox_message_def sandbox_absorb_def Let_def)

definition level_queue :: "(Price \<times> entry) list \<Rightarrow> Price \<Rightarrow> queue" where
  "level_queue fs p = map snd (filter (\<lambda>f. fst f = p) fs)"

text \<open>One message, for the quote of side \<open>s\<close> and the orders \<open>es\<close> ahead of it: the quote stays where it is and \<open>es\<close> loses what
  the message takes, or it joins the end of the queue that rests at its price in the replayed book.\<close>

definition ahead_step ::
  "('l, 'm) policy \<Rightarrow> 'l \<Rightarrow> SandboxConfig \<Rightarrow> Side \<Rightarrow> bytes \<Rightarrow> ('l, 'm) Sandbox \<times> queue \<Rightarrow> (('l, 'm) Sandbox \<times> queue) option" where
  "ahead_step P l cfg s m Se = do {
     E \<leftarrow> sandbox_absorb P l cfg m (length m) (fst Se);
     S \<leftarrow> refresh P cfg E;
     fs \<leftarrow> replayed_orders P (sc_symbol cfg) s (rp_books (sb_rep S));
     f \<leftarrow> decode_feed m;
     Some (S, if qp_active (our s E) \<and> qp_price (our s E) = qp_price (our s S) then left_by f (snd Se)
              else level_queue fs (qp_price (our s S))) }"

fun ahead_run ::
  "('l, 'm) policy \<Rightarrow> 'l \<Rightarrow> SandboxConfig \<Rightarrow> Side \<Rightarrow> bytes list \<Rightarrow> ('l, 'm) Sandbox \<times> queue \<Rightarrow> (('l, 'm) Sandbox \<times> queue) option" where
  "ahead_run P l cfg s [] Se = Some Se"
| "ahead_run P l cfg s (m # ms) Se = do { Se \<leftarrow> ahead_step P l cfg s m Se; ahead_run P l cfg s ms Se }"

subsection \<open>What an event takes of a front part\<close>

lemma shrink_filter: "shrink oid q (filter (\<lambda>e. en_id e \<in> I) es) = filter (\<lambda>e. en_id e \<in> I) (shrink oid q es)"
  by (induction es) (auto simp: shrink_def)

lemma left_by_filter: "left_by m (filter (\<lambda>e. en_id e \<in> I) es) = filter (\<lambda>e. en_id e \<in> I) (left_by m es)"
  by (auto simp: left_by_def shrink_filter conj_commute split: option.split)

lemma front_part: "distinct (map en_id (xs @ ys)) \<Longrightarrow> filter (\<lambda>e. en_id e \<in> en_id ` set xs) (xs @ ys) = xs"
  by (auto simp: filter_id_conv filter_empty_conv)

lemma left_by_front:
  assumes "distinct (map en_id (xs @ ys))"
  shows "left_by m (xs @ ys) = shrink oid q (xs @ ys) \<Longrightarrow> left_by m xs = shrink oid q xs" and "left_by m (xs @ ys) = xs @ ys \<Longrightarrow> left_by m xs = xs"
proof -
  let ?I = "en_id ` set xs"
  have l: "left_by m xs = filter (\<lambda>e. en_id e \<in> ?I) (left_by m (xs @ ys))"
    using left_by_filter [of m ?I "xs @ ys"] unfolding front_part [OF assms] .
  have s: "shrink oid q xs = filter (\<lambda>e. en_id e \<in> ?I) (shrink oid q (xs @ ys))"
    using shrink_filter [of oid q ?I "xs @ ys"] unfolding front_part [OF assms] .
  show "left_by m (xs @ ys) = shrink oid q (xs @ ys) \<Longrightarrow> left_by m xs = shrink oid q xs" unfolding l s by (rule arg_cong)
  show "left_by m xs = xs" if "left_by m (xs @ ys) = xs @ ys" unfolding l that by (rule front_part [OF assms])
qed

lemma queue_event_ours:
  assumes "queue_event ev mid S = Some E"
  shows "our s E = on_shares_removed (ev_id ev) (ev_shares ev) (our s S)
    \<or> s = ev_resting_side ev \<and> qp_ahead (our s S) = [] \<and> (\<exists>fill. take_fill (ev_shares ev) (our s S) = (fill, our s E))
    \<or> s \<noteq> ev_resting_side ev \<and> our s E = our s S"
proof (cases "ev_is_execution ev \<and> qp_active (our (ev_resting_side ev) S) \<and> qp_price (our (ev_resting_side ev) S) = ev_price ev
    \<and> qp_at_front (our (ev_resting_side ev) S)")
  case False
  then have "E = S\<lparr>sb_bid := on_shares_removed (ev_id ev) (ev_shares ev) (sb_bid S), sb_ask := on_shares_removed (ev_id ev) (ev_shares ev) (sb_ask S)\<rparr>"
    using assms unfolding queue_event_def Let_def if_not_P [OF False] by simp
  then show ?thesis by (cases s) (simp_all add: our_def)
next
  case True
  obtain fill Q' where t: "take_fill (ev_shares ev) (our (ev_resting_side ev) S) = (fill, Q')" by force
  have "E = set_our (ev_resting_side ev) Q' S \<or> fill_our (ev_resting_side ev) (ev_price ev) fill mid (set_our (ev_resting_side ev) Q' S) = Some E"
    using assms True t by (auto simp: queue_event_def Let_def split: if_splits)
  then have "our s E = our s (set_our (ev_resting_side ev) Q' S)" using fill_our_effect(1) by metis
  then show ?thesis using True t by (cases "s = ev_resting_side ev") (auto simp: qp_at_front_def)
qed

lemma event_ahead:
  assumes e: "sandbox_event cfg ev mid (sb_have_mid S) S = Some E" and f: "foretells ev m F" and ok: "flats_ok V F" and q: "quotes_ok cfg F S"
    and a: "qp_active (our s E)"
  shows "qp_active (our s S)" and "qp_price (our s E) = qp_price (our s S)"
    and "queue_of F s (qp_price (our s S)) = es @ later \<Longrightarrow> behind (our s S) es \<Longrightarrow> behind (our s E) (left_by m es)"
proof -
  let ?S = "if ev_is_execution ev then S\<lparr>sb_prints_seen := sb_prints_seen S + 1\<rparr> else S"
  have o2: "our t ?S = our t S" "sb_mm ?S = sb_mm S" "sb_have_mid ?S = sb_have_mid S" for t by (simp_all add: our_def)
  note o1 = o2(1) [of s]
  have d: "distinct (map en_id (es @ later))" "\<forall>e \<in> set es. en_qty e \<noteq> 0" if "queue_of F s p = es @ later" for p
    using queue_ok [OF ok, of s p] that by auto
  consider (idle) "E = S" "\<not> (ev_valid ev \<and> sb_have_mid S)" | (queue) "ev_valid ev" "queue_event ev mid ?S = Some E"
    | (naive) "ev_valid ev" "\<not> sc_queue_model cfg" "optimistic_event cfg ev mid ?S = Some E \<or> E = ?S"
    using e by (auto simp: sandbox_event_def Let_def split: if_splits)
  then have "qp_active (our s S) \<and> qp_price (our s E) = qp_price (our s S)
    \<and> (queue_of F s (qp_price (our s S)) = es @ later \<longrightarrow> behind (our s S) es \<longrightarrow> behind (our s E) (left_by m es))"
  proof cases
    case idle
    then have "\<not> ev_valid ev" using quotes_okD(2) [OF q, of s] a by auto
    then have "left_by m es = es" if "queue_of F s (qp_price (our s S)) = es @ later"
    proof -
      have "left_by m (queue_of F s (qp_price (our s S))) = queue_of F s (qp_price (our s S))" using f \<open>\<not> ev_valid ev\<close> by (simp add: foretells_def)
      then show ?thesis unfolding that by (rule left_by_front(2) [OF d(1) [OF that]])
    qed
    then show ?thesis using idle(1) a by auto
  next
    case queue
    have sh: "left_by m es = shrink (ev_id ev) (ev_shares ev) es" if "queue_of F s (qp_price (our s S)) = es @ later"
    proof -
      have "left_by m (queue_of F s (qp_price (our s S))) = shrink (ev_id ev) (ev_shares ev) (queue_of F s (qp_price (our s S)))"
        using f queue(1) by (simp add: foretells_def)
      then show ?thesis unfolding that by (rule left_by_front(1) [OF d(1) [OF that]])
    qed
    from queue_event_ours [OF queue(2), of s, unfolded o1]
    consider (removed) "our s E = on_shares_removed (ev_id ev) (ev_shares ev) (our s S)"
      | (filled) fill where "qp_ahead (our s S) = []" "take_fill (ev_shares ev) (our s S) = (fill, our s E)"
      | (other) "s \<noteq> ev_resting_side ev" "our s E = our s S" by blast
    then show ?thesis
    proof cases
      case removed
      then show ?thesis using a sh d removed_behind [of "our s S" es "ev_id ev" "ev_shares ev"] by auto
    next
      case filled
      note T = take_fill_bounds [OF filled(2)]
      have "es = []" if "behind (our s S) es" using that filled(1) by (simp add: behind_def)
      then show ?thesis using a T sh filled(1) by (auto simp: behind_def shrink_def)
    next
      case other
      obtain g where g: "(ev_price ev, g) \<in> set (F (ev_resting_side ev))" "en_id g = ev_id ev" using f queue(1) by (auto simp: foretells_def)
      have foreign: "en_id h \<noteq> ev_id ev" if "h \<in> set (queue_of F s p)" for h p
        using flats_okD(4) [OF ok g(1), of "(p, h)" s] g(2) that other(1) by (auto simp: queue_entry)
      have "shrink (ev_id ev) (ev_shares ev) es = es" if es: "queue_of F s (qp_price (our s S)) = es @ later"
      proof -
        have "en_id h \<noteq> ev_id ev" if "h \<in> set es" for h using that by (intro foreign [of h "qp_price (our s S)"]) (simp add: es)
        then have "ev_id ev \<notin> en_id ` set es" by (metis imageE)
        then show ?thesis using d(2) [OF es] by (rule shrink_other)
      qed
      then show ?thesis using a sh other(2) by auto
    qed
  next
    case naive
    have i: "\<forall>s. \<not> qp_active (our s ?S)" using quotes_okD(2) [OF q] naive(2) unfolding o2 by blast
    have "quotes_ok cfg F ?S" using q unfolding quotes_ok_def o2 .
    then have "our s E = our s ?S" using naive(3) optimistic_effect [OF _ _ i] by blast
    then show ?thesis using a i by simp
  qed
  then show "qp_active (our s S)" "qp_price (our s E) = qp_price (our s S)"
    "queue_of F s (qp_price (our s S)) = es @ later \<Longrightarrow> behind (our s S) es \<Longrightarrow> behind (our s E) (left_by m es)" by blast+
qed

subsection \<open>Joining a queue\<close>

text \<open>A quote is left alone or placed behind all orders at its new price.\<close>

definition joins_queue :: "(Side \<Rightarrow> (Price \<times> entry) list) \<Rightarrow> Side \<Rightarrow> QueuePosition \<Rightarrow> QueuePosition \<Rightarrow> bool" where
  "joins_queue F s Q Q' \<longleftrightarrow> Q' = Q \<or> \<not> (qp_active Q \<and> qp_price Q = qp_price Q') \<and> behind Q' (queue_of F s (qp_price Q'))"

lemma requote_joins:
  assumes r: "requote P cfg b s want wants S = Some S'" and b: "implements P V b B" and F: "flats B = F"
  shows "joins_queue F s (our s S) (our s S')"
proof (cases "wants \<and> (\<not> qp_active (our s S) \<or> qp_price (our s S) \<noteq> want)")
  case False
  then show ?thesis using r unfolding requote_def if_not_P [OF False] by (simp add: joins_queue_def)
next
  case True
  let ?Q = "qp_place want s (mc_quote_size (sc_mm cfg)) (map (\<lambda>e. (en_id e, en_qty e)) (queue_of F s want)) (qp_cancel (our s S))"
  have "S' = (set_our s ?Q S)\<lparr>sb_requotes := sb_requotes (set_our s ?Q S) + 1\<rparr>"
    using r orders_of_queue [OF b, of s want] unfolding requote_def if_P [OF True] F by (simp add: Let_def)
  moreover have "our s (T\<lparr>sb_requotes := n\<rparr>) = our s T" for n and T :: "('a, 'b) Sandbox" by (simp add: our_def)
  ultimately have "our s S' = ?Q" by simp
  then show ?thesis using True unfolding joins_queue_def by (auto simp: place_behind)
qed

lemma refresh_joins:
  assumes r: "refresh P cfg E = Some S'" and s: "rp_sim P l n (sb_rep E) A" and m: "mirrors (pol_valid_price P l) (sc_symbol cfg) F A"
  shows "joins_queue F s (our s E) (our s S')"
proof (cases "mb_find (sc_symbol cfg) (rp_books (sb_rep E))")
  case None
  then show ?thesis using r by (simp add: refresh_def joins_queue_def)
next
  case (Some b)
  then obtain B where B: "map_of (am_books (rp_books A)) (sc_symbol cfg) = Some B" "implements P (pol_valid_price P l) b B"
    using rp_simD [OF s] books_simD(2) unfolding multi_sim_def mb_find_def by blast
  then have F: "flats B = F" using m by (simp add: mirrors_def am_book_def)
  from r Some consider "our s S' = our s E" | mid where "sandbox_requote P cfg b mid (note_mid mid E) = Some S'"
    by (auto simp: refresh_def Let_def split: bind_splits option.splits if_splits)
  then show ?thesis
  proof cases
    case 1
    then show ?thesis by (simp add: joins_queue_def)
  next
    case 2
    then obtain want1 want2 w S1 where S1: "requote P cfg b Bid want1 (wants_bid (sb_mm (note_mid mid E))) (note_mid mid E) = Some S1"
      "requote P cfg b Ask want2 w S1 = Some S'"
      by (auto simp: sandbox_requote_def split: bind_splits)
    note J1 = requote_joins [OF S1(1) B(2) F] and J2 = requote_joins [OF S1(2) B(2) F]
    have "our Ask S1 = our Ask (note_mid mid E)" "our Bid S' = our Bid S1" using requote_target(2) [OF S1(1), of Ask] requote_target(2) [OF S1(2), of Bid] by simp_all
    then show ?thesis using J1 J2 by (cases s) simp_all
  qed
qed

subsection \<open>The run\<close>

definition ahead_ok :: "('l, 'm) policy \<Rightarrow> SandboxConfig \<Rightarrow> Side \<Rightarrow> ('l, 'm) Sandbox \<Rightarrow> queue \<Rightarrow> bool" where
  "ahead_ok P cfg s S es \<longleftrightarrow> (qp_active (our s S) \<longrightarrow> behind (our s S) es
     \<and> (\<exists>fs later. replayed_orders P (sc_symbol cfg) s (rp_books (sb_rep S)) = Some fs \<and> level_queue fs (qp_price (our s S)) = es @ later))"

lemma message_ahead:
  assumes l: "lawful P l" and s8: "length (sc_symbol cfg) = 8" and ok: "message_ok msg" "sandbox_ok P l cfg k S" "k < 2 ^ 30"
    and r: "sandbox_message P l cfg msg (length msg) S = Some S'" and a: "ahead_ok P cfg s S es"
  shows "\<exists>es'. ahead_step P l cfg s msg (S, es) = Some (S', es') \<and> ahead_ok P cfg s S' es'"
proof -
  obtain A F where A: "replayed P l k (sb_rep S) A" "mirrors (pol_valid_price P l) (sc_symbol cfg) F A" "priced F"
    "only_tracked [sc_symbol cfg] A" "quotes_ok cfg F S" using ok(2) by (auto simp: sandbox_ok_def)
  obtain m where m: "decode_feed msg = Some m" using decode_feed_ok [OF ok(1)] by blast
  have sim: "rp_sim P l (3 * k) (sb_rep S) A" using A(1) by (simp add: replayed_def)
  obtain ev where ev: "peek_event P (rp_books (sb_rep S)) msg = Some ev" "foretells ev m F" using peek_foretells [OF sim A(2) m] by blast
  obtain R A' where R: "replay_apply P l msg (length msg) (sb_rep S) = Some R" "replayed P l (Suc k) R A'"
    "A' = abs_feed (pol_valid_price P l) m (bump (c_message (length msg)) A)"
    using replay_message [OF l ok(1) A(1) ok(3), of "length msg"] m by (auto simp: abs_apply_def)
  obtain F' where F': "mirrors (pol_valid_price P l) (sc_symbol cfg) F' A'" "priced F'" "follows_queues m F F'"
    using mirrors_feed [OF A(2,3) m A(4) s8] unfolding R(3) by blast
  let ?S = "S\<lparr>sb_rep := R\<rparr>"
  have o1: "our s ?S = our s S" for s by (simp add: our_def)
  have q: "quotes_ok cfg F ?S" using A(5) unfolding quotes_ok_def o1 by simp
  obtain E where E: "sandbox_event cfg ev (sb_last_mid S) (sb_have_mid ?S) ?S = Some E" "refresh P cfg E = Some S'"
    "sandbox_absorb P l cfg msg (length msg) S = Some E"
    using r ev(1) R(1) by (auto simp: message_parts sandbox_absorb_def split: bind_splits)
  have fl: "flats_ok (pol_valid_price P l) F" by (rule mirrors_ok [OF A(2)])
  have Er: "sb_rep E = R" "quotes_ok cfg F' E" using event_effect [OF E(1) ev(2) F'(3) fl q] by auto
  have simE: "rp_sim P l (3 * Suc k) (sb_rep E) A'" using R(2) Er(1) by (simp add: replayed_def)
  have Sr: "sb_rep S' = R" using refresh_effect [OF E(2) simE F'(1) Er(2)] Er(1) by simp
  have fs': "replayed_orders P (sc_symbol cfg) s (rp_books (sb_rep S')) = Some (F' s)"
    using orders_mirrored [OF simE F'(1), of s] Er(1) Sr by simp
  let ?stays = "qp_active (our s E) \<and> qp_price (our s E) = qp_price (our s S')"
  let ?es = "if ?stays then left_by m es else level_queue (F' s) (qp_price (our s S'))"
  have J: "joins_queue F' s (our s E) (our s S')" by (rule refresh_joins [OF E(2) simE F'(1)])
  have "ahead_step P l cfg s msg (S, es) = Some (S', ?es)" using E fs' m by (simp add: ahead_step_def)
  moreover have "ahead_ok P cfg s S' ?es"
  proof (cases ?stays)
    case True
    note T = event_ahead [OF E(1) ev(2) fl q conjunct1 [OF True], unfolded o1]
    obtain later where b: "behind (our s S) es" "queue_of F s (qp_price (our s S)) = es @ later"
      using a T(1) orders_mirrored [OF sim A(2), of s] by (auto simp: ahead_ok_def level_queue_def queue_of_def)
    have eq: "our s S' = our s E" using J True by (simp add: joins_queue_def)
    have "left_by m (es @ later) = left_by m es @ left_by m later" by (auto simp: left_by_def shrink_append split: option.split)
    moreover obtain more where "queue_of F' s (qp_price (our s S)) = left_by m (queue_of F s (qp_price (our s S))) @ more"
      using F'(3) unfolding follows_queues_def by blast
    ultimately have "queue_of F' s (qp_price (our s S')) = left_by m es @ left_by m later @ more" unfolding eq T(2) b(2) by simp
    then have "\<exists>more. queue_of F' s (qp_price (our s S')) = left_by m es @ more" by blast
    then have "\<exists>later. level_queue (F' s) (qp_price (our s S')) = left_by m es @ later" by (simp only: level_queue_def queue_of_def)
    moreover have "behind (our s S') (left_by m es)" using T(3) [OF b(2,1)] by (simp only: eq)
    ultimately show ?thesis unfolding ahead_ok_def if_P [OF True] using fs' by blast
  next
    case False
    show ?thesis unfolding ahead_ok_def if_not_P [OF False]
    proof
      assume "qp_active (our s S')"
      with False have "our s S' \<noteq> our s E" by metis
      with J have "behind (our s S') (queue_of F' s (qp_price (our s S')))" by (simp add: joins_queue_def)
      then show "behind (our s S') (level_queue (F' s) (qp_price (our s S')))
        \<and> (\<exists>fs later. replayed_orders P (sc_symbol cfg) s (rp_books (sb_rep S')) = Some fs
          \<and> level_queue fs (qp_price (our s S')) = level_queue (F' s) (qp_price (our s S')) @ later)"
        using fs' by (simp add: level_queue_def queue_of_def)
    qed
  qed
  ultimately show ?thesis by blast
qed

lemma messages_ahead:
  assumes l: "lawful P l" and s8: "length (sc_symbol cfg) = 8"
  shows "\<forall>m \<in> set ms. message_ok m \<Longrightarrow> sandbox_ok P l cfg k S \<Longrightarrow> k + length ms < 2 ^ 30 \<Longrightarrow> handle_all (sandbox_message P l cfg) ms S = Some S'
    \<Longrightarrow> ahead_ok P cfg s S es \<Longrightarrow> \<exists>es'. ahead_run P l cfg s ms (S, es) = Some (S', es') \<and> ahead_ok P cfg s S' es'"
proof (induction ms arbitrary: k S es)
  case (Cons m ms)
  obtain S1 where S1: "sandbox_message P l cfg m (length m) S = Some S1" "handle_all (sandbox_message P l cfg) ms S1 = Some S'"
    using Cons.prems(4) by (auto split: bind_splits)
  have k: "message_ok m" "k < 2 ^ 30" using Cons.prems(1,3) by simp_all
  obtain es1 where es1: "ahead_step P l cfg s m (S, es) = Some (S1, es1)" "ahead_ok P cfg s S1 es1"
    using message_ahead [OF l s8 k(1) Cons.prems(2) k(2) S1(1) Cons.prems(5)] by blast
  have "sandbox_ok P l cfg (Suc k) S1" by (rule message_keeps [OF l s8 k(1) Cons.prems(2) k(2) S1(1)])
  from Cons.IH [OF _ this _ S1(2) es1(2)] Cons.prems(1,3) es1(1) show ?case by auto
qed simp

lemma sandbox_ahead:
  assumes "lawful P l" and "length (sc_symbol cfg) = 8" and "1 \<le> mc_max_position (sc_mm cfg)" and "plain_file file" and "length file < 2 ^ 30"
    and "mm_sandbox P l cfg (Some file) = Some (r, S)"
  shows "\<exists>M ms es. mb_new = Some M \<and> (\<forall>m \<in> set ms. message_ok m) \<and> take (rr_offset r) file = concat (map frame ms)
    \<and> ahead_run P l cfg s ms (sandbox_new cfg M, []) = Some (S, es) \<and> ahead_ok P cfg s S es"
proof -
  obtain M where M: "mb_new = Some M" "multi_sim P l 0 M amulti_new" using mb_new_sim [of P l] by auto
  have "for_each_framed_message file (sandbox_message P l cfg) (sandbox_new cfg M) = Some (r, S)"
    using assms(6) unfolding mm_sandbox_def M(1) stream_default [OF assms(4)] by simp
  then obtain ms where ms: "\<forall>m \<in> set ms. message_ok m" "handle_all (sandbox_message P l cfg) ms (sandbox_new cfg M) = Some S"
    "take (rr_offset r) file = concat (map frame ms)"
    using framed_sound [of "file" "sandbox_message P l cfg" read_result_default "sandbox_new cfg M" r S]
    by (auto simp: for_each_framed_message_def read_result_default_def)
  have "length ms \<le> length (concat (map frame ms))" by (induction ms) auto
  moreover have "length (concat (map frame ms)) \<le> length file" using arg_cong [OF ms(3), of length] by simp
  ultimately have n: "0 + length ms < 2 ^ 30" using assms(5) by linarith
  have "ahead_ok P cfg s (sandbox_new cfg M) []" by (cases s) (simp_all add: ahead_ok_def sandbox_new_def our_def qp_default_def)
  from messages_ahead [OF assms(1,2) ms(1) sandbox_start(1) [OF M assms(3)] n ms(2) this] M(1) ms(1,3) show ?thesis by blast
qed

end
