(* ===== verification/SandboxProperties.thy ===== *)
theory SandboxProperties
  imports SandboxQueue
begin

text \<open>
  The claims about the market-making sandbox: its queue positions, its quotes, its limits, its
  accounts, and that a run does not fail.
\<close>

text \<open>C36: The queue position is exact.  Take the messages of the file one by one.  A quote that is placed or moved by a message joins the end of the queue: ahead of it are all the orders that rest at its price in the replayed book after this message.  From then on every message takes from the orders ahead just what it takes from the book.  After the whole file, and so after any part of a session, the tracker of an active quote records precisely the orders ahead obtained in this way, each with its open quantity and in their order, and their sum; they are a front part of the orders that rest at the quote's price, and the quote is at the front exactly when none of them is left.  The replay beside it is the plain replay of the file.  The file is shorter than the 32 MB of the reader's chunk or has short frames only.\<close>

theorem sandbox_queue_exact:
  assumes "lawful P l" and "length (sc_symbol cfg) = 8" and "1 \<le> mc_max_position (sc_mm cfg)" and "plain_file file" and "length file < 2 ^ 30"
    and "mm_sandbox P l cfg (Some file) = Some (r, S)"
  shows "replay_file P l [sc_symbol cfg] file = Some (r, sb_rep S)
    \<and> (\<exists>M ms es. mb_new = Some M \<and> (\<forall>m \<in> set ms. message_ok m) \<and> take (rr_offset r) file = concat (map frame ms)
      \<and> ahead_run P l cfg s ms (sandbox_new cfg M, []) = Some (S, es)
      \<and> (qp_active (our s S) \<longrightarrow> qp_ahead (our s S) = map (\<lambda>e. (en_id e, en_qty e)) es
          \<and> qp_shares_ahead (our s S) = (\<Sum>e\<leftarrow>es. ucast (en_qty e)) \<and> (qp_at_front (our s S) \<longleftrightarrow> es = [])
          \<and> (\<exists>fs later. replayed_orders P (sc_symbol cfg) s (rp_books (sb_rep S)) = Some fs
              \<and> level_queue fs (qp_price (our s S)) = es @ later)))"
proof -
  obtain M ms es where m: "mb_new = Some M" "\<forall>m \<in> set ms. message_ok m" "take (rr_offset r) file = concat (map frame ms)"
    "ahead_run P l cfg s ms (sandbox_new cfg M, []) = Some (S, es)" "ahead_ok P cfg s S es" using sandbox_ahead [OF assms] by blast
  have "qp_active (our s S) \<longrightarrow> qp_ahead (our s S) = map (\<lambda>e. (en_id e, en_qty e)) es
      \<and> qp_shares_ahead (our s S) = (\<Sum>e\<leftarrow>es. ucast (en_qty e)) \<and> (qp_at_front (our s S) \<longleftrightarrow> es = [])
      \<and> (\<exists>fs later. replayed_orders P (sc_symbol cfg) s (rp_books (sb_rep S)) = Some fs \<and> level_queue fs (qp_price (our s S)) = es @ later)"
    using m(5) by (simp add: ahead_ok_def behind_def qp_at_front_def)
  then show ?thesis using sandbox_reached(2) [OF assms] m(1-4) by blast
qed

text \<open>C37: For a file shorter than the reader's chunk or with short frames only: with the queue model, as soon as both sides of the book have orders, every side the maker wants to quote has an active quote at the price its rule asks for: half the spread off the mid of the best prices, skewed by the inventory and moved to the grid.\<close>

theorem sandbox_quotes_follow_mid:
  assumes "lawful P l" and "length (sc_symbol cfg) = 8" and "1 \<le> mc_max_position (sc_mm cfg)" and "plain_file file" and "length file < 2 ^ 30"
    and "mm_sandbox P l cfg (Some file) = Some (r, S)" and "sc_queue_model cfg"
    and "replayed_orders P (sc_symbol cfg) Bid (rp_books (sb_rep S)) = Some ((pb, eb) # fb)"
    and "replayed_orders P (sc_symbol cfg) Ask (rp_books (sb_rep S)) = Some ((pa, ea) # fa)"
  shows "\<exists>x v y w b. bid_quote ((pb + pa) sdiv 2) (sb_mm S) = Some x \<and> snap_bid x (sc_tick cfg) = Some v
    \<and> (wants_bid (sb_mm S) \<longrightarrow> qp_active (our Bid S) \<and> qp_price (our Bid S) = v)
    \<and> ask_quote ((pb + pa) sdiv 2) (sb_mm S) = Some y \<and> snap_ask y (sc_tick cfg) = Some w \<and> wants_ask (sb_mm S) = Some b
    \<and> (b \<longrightarrow> qp_active (our Ask S) \<and> qp_price (our Ask S) = w)"
proof -
  obtain k where "sandbox_ok P l cfg k S" using sandbox_reached [OF assms(1-6)] by blast
  then obtain F where F: "\<forall>t. replayed_orders P (sc_symbol cfg) t (rp_books (sb_rep S)) = Some (F t)" "quotes_ok cfg F S" "targets cfg F S"
    by (rule sandbox_okD)
  have "F Bid = (pb, eb) # fb" "F Ask = (pa, ea) # fa" using F(1) assms(8,9) by simp_all
  then have "on_target cfg ((pb + pa) sdiv 2) S" using F(3) assms(7) by (simp add: targets_def)
  then show ?thesis unfolding on_target_def by blast
qed

text \<open>C38: For a file shorter than the reader's chunk or with short frames only: under both fill models the position stays inside the limit by less than one quote, and position, cash, fills and volume are those of the log of the fills, so that the profit at any mark is the sum over the fills of what each has gained against the mark.\<close>

theorem sandbox_accounts:
  assumes "lawful P l" and "length (sc_symbol cfg) = 8" and "1 \<le> mc_max_position (sc_mm cfg)" and "plain_file file" and "length file < 2 ^ 30"
    and "mm_sandbox P l cfg (Some file) = Some (r, S)"
  shows "\<bar>mm_position (sb_mm S)\<bar> < mc_max_position (sc_mm cfg) + uint (mc_quote_size (sc_mm cfg))
    \<and> mm_position (sb_mm S) = (\<Sum>f\<leftarrow>mm_fills_log (sb_mm S). signed_qty f)
    \<and> mm_fills (sb_mm S) = of_nat (length (mm_fills_log (sb_mm S))) \<and> mm_volume (sb_mm S) = (\<Sum>f\<leftarrow>mm_fills_log (sb_mm S). ucast (fe_qty f))
    \<and> (\<forall>mark. total_pnl_ticks mark (sb_mm S) \<in> {None, Some (\<Sum>f\<leftarrow>mm_fills_log (sb_mm S). signed_qty f * (mark - fe_price f))})"
proof -
  obtain k where "sandbox_ok P l cfg k S" using sandbox_reached [OF assms] by blast
  then obtain F where F: "\<forall>t. replayed_orders P (sc_symbol cfg) t (rp_books (sb_rep S)) = Some (F t)" "quotes_ok cfg F S" "targets cfg F S"
    by (rule sandbox_okD)
  note Q = quotes_okD [OF F(2)]
  have p: "\<bar>mm_position (sb_mm S)\<bar> < cap cfg" using Q(3,4) left_open_nonneg [of "our Bid S"] left_open_nonneg [of "our Ask S"] by linarith
  have pnl: "total_pnl_ticks mark (sb_mm S) \<in> {None, Some (\<Sum>f\<leftarrow>mm_fills_log (sb_mm S). signed_qty f * (mark - fe_price f))}" for mark
  proof -
    have "(\<Sum>f\<leftarrow>fs. signed_qty f * (mark - fe_price f)) = bought fs * mark - (\<Sum>f\<leftarrow>fs. signed_qty f * fe_price f)" for fs
      by (induction fs) (simp_all add: algebra_simps)
    then show ?thesis using Q(5) by (auto simp: total_pnl_ticks_def i64_def accounts_ok_def split: bind_splits)
  qed
  show ?thesis using Q(5) p pnl by (simp add: accounts_ok_def cap_def bought_def)
qed

text \<open>C39: A run over a file, well-formed or not, that is shorter than the 32 MB of the reader's chunk or announces no message of more than 62 bytes, does not leave the range of its 64-bit integers and ends, for a spread and a tick up to \<open>2 ^ 31\<close>, a limit and a quote up to \<open>2 ^ 20\<close> shares and a skew up to \<open>2 ^ 10\<close>, as long as the bytes of the file times the size of a quote stay below \<open>2 ^ 29\<close>; the reader's result and the replay are those of the plain replay of the file.\<close>

theorem sandbox_runs:
  assumes "lawful P l" and "length (sc_symbol cfg) = 8" and "sane cfg" and "plain_file file" and "length file < 2 ^ 29"
    and "int (length file) * uint (mc_quote_size (sc_mm cfg)) < 2 ^ 29"
  shows "\<exists>r S. mm_sandbox P l cfg (Some file) = Some (r, S) \<and> replay_file P l [sc_symbol cfg] file = Some (r, sb_rep S)"
proof -
  obtain r S where r: "mm_sandbox P l cfg (Some file) = Some (r, S)" using sandbox_total [OF assms] by blast
  have "1 \<le> mc_max_position (sc_mm cfg)" "length file < 2 ^ 30" using assms(3,5) by (simp_all add: sane_def)
  from sandbox_reached(2) [OF assms(1,2) this(1) assms(4) this(2) r] r show ?thesis by blast
qed

text \<open>C40: The accounts of the maker for any sequence of fills whose turnover at the highest price stays below \<open>2 ^ 62\<close>: nothing overflows, the profit at a mark is the sum over the fills of what each has gained against it, the peak is the largest absolute position the fills passed through, and a mid looked up for a time is the first one recorded at or after it.\<close>

theorem fills_account:
  assumes "\<forall>f \<in> set fs. \<bar>fe_price f\<bar> \<le> K" and "1 \<le> K" and "2 * turnover fs * K < 2 ^ 63" and "\<bar>mark\<bar> \<le> K"
    and "sorted (map mp_ts (mm_mid_history M))"
  shows "\<exists>N. on_fills fs (market_maker_new cfg) = Some N \<and> mm_fills_log N = fs
    \<and> total_pnl_ticks mark N = Some (\<Sum>f\<leftarrow>fs. signed_qty f * (mark - fe_price f))
    \<and> peak_abs_position N = Some (Max ((\<lambda>n. \<bar>\<Sum>f\<leftarrow>take n fs. signed_qty f\<bar>) ` {0..length fs}))
    \<and> mid_at_or_after ts M = Some (case List.find (\<lambda>m. ts \<le> mp_ts m) (mm_mid_history M) of None \<Rightarrow> kNoMid | Some m \<Rightarrow> mp_mid m)"
proof -
  have t: "0 \<le> turnover fs" by (rule turnover_nonneg)
  have l: "mm_fills_log (market_maker_new cfg) = []" by (simp add: market_maker_new_def)
  have m: "2 * (turnover fs * K) < 2 ^ 63" using assms(3) by (simp add: mult.assoc)
  moreover have "0 \<le> turnover fs * K" using assms(2) t by simp
  ultimately have "turnover fs * K < 2 ^ 63" by linarith
  then obtain N where N: "on_fills fs (market_maker_new cfg) = Some N" "accounts_ok N" "mm_fills_log N = fs"
    using on_fills_spec [OF accounts_new, of cfg fs K] assms(1,2) l by auto
  have b: "\<bar>bought fs * mark\<bar> \<le> turnover fs * K" "\<bar>\<Sum>f\<leftarrow>fs. signed_qty f * fe_price f\<bar> \<le> turnover fs * K"
    using bought_turnover [of fs] assms(2,4) t spent_turnover [OF assms(1)] by (auto simp: abs_mult intro!: mult_mono)
  have s: "(\<Sum>f\<leftarrow>gs. signed_qty f * (mark - fe_price f)) = bought gs * mark - (\<Sum>f\<leftarrow>gs. signed_qty f * fe_price f)" for gs
    by (induction gs) (simp_all add: algebra_simps)
  have "\<bar>bought fs * mark\<bar> < 2 ^ 63" "\<bar>bought fs * mark - (\<Sum>f\<leftarrow>fs. signed_qty f * fe_price f)\<bar> < 2 ^ 63"
    using b m by linarith+
  then have pnl: "total_pnl_ticks mark N = Some (\<Sum>f\<leftarrow>fs. signed_qty f * (mark - fe_price f))"
    using N(2,3) unfolding s total_pnl_ticks_def accounts_ok_def by (simp add: in_range)
  have "turnover fs * 1 \<le> turnover fs * K" using assms(2) t by (intro mult_left_mono)
  then have "\<bar>0\<bar> + turnover fs < 2 ^ 63" using m t by linarith
  from peak_spec [OF this, of 0] obtain k where k: "peak_loop fs 0 0 = Some k" "\<forall>n \<le> length fs. \<bar>bought (take n fs)\<bar> \<le> k"
    "k = 0 \<or> (\<exists>n \<le> length fs. k = \<bar>bought (take n fs)\<bar>)" by auto
  have "k = \<bar>bought (take 0 fs)\<bar> \<or> (\<exists>n \<le> length fs. k = \<bar>bought (take n fs)\<bar>)" using k(3) by simp
  then have "Max ((\<lambda>n. \<bar>bought (take n fs)\<bar>) ` {0..length fs}) = k" using k(2) by (intro Max_eqI) auto
  then have "peak_abs_position N = Some (Max ((\<lambda>n. \<bar>\<Sum>f\<leftarrow>take n fs. signed_qty f\<bar>) ` {0..length fs}))"
    using k(1) N(3) by (simp add: peak_abs_position_def bought_def)
  then show ?thesis using N pnl mid_lookup [OF assms(5)] by blast
qed

subsection \<open>Witnesses\<close>

definition session_events :: "feed_event list" where
  "session_events = [AddEv 1 1 Bid 100 (symbol_of [65]) 999900, AddEv 2 2 Ask 50 (symbol_of [65]) 1000100,
     AddEv 3 3 Bid 70 (symbol_of [65]) 999900, ExecutedEv 4 1 30 1]"

definition session_file :: bytes where
  "session_file = wr_buf (fold write_event session_events writer_new)"

definition session_config :: SandboxConfig where
  "session_config = \<lparr>sc_symbol = symbol_of [65],
     sc_mm = \<lparr>mc_half_spread_ticks = 100, mc_quote_size = 100, mc_max_position = 100000, mc_skew_per_100_shares = 0\<rparr>,
     sc_queue_model = True, sc_tick = 100\<rparr>"

lemma session_ok: "\<forall>e \<in> set session_events. event_ok e" "plain_file session_file" "length session_file = 147" "length (sc_symbol session_config) = 8"
  "sane session_config" "1 \<le> mc_max_position (sc_mm session_config)" "sc_queue_model session_config"
  "uint (mc_quote_size (sc_mm session_config)) = 100"
proof -
  show ok: "\<forall>e \<in> set session_events. event_ok e" by (simp add: session_events_def event_ok_def symbol_ok_def wire_price_def)
  then have s: "\<forall>e \<in> set session_events. symbol_ok e" by (simp add: event_ok_def)
  show "plain_file session_file" unfolding session_file_def plain_file_def using written_small [OF s] by simp
  from write_events_append(1) [OF s, of writer_new] show "length session_file = 147"
    by (simp add: session_file_def writer_new_def session_events_def event_frame_def event_message_def put_price_def)
qed (simp_all add: session_config_def sane_def)

lemma session_run:
  "\<exists>r S. mm_sandbox map_std_policy ml_new session_config (Some session_file) = Some (r, S)
    \<and> replayed_orders map_std_policy (sc_symbol session_config) Bid (rp_books (sb_rep S))
        = Some [(999900, \<lparr>en_id = 1, en_qty = 70, en_owner = 0\<rparr>), (999900, \<lparr>en_id = 3, en_qty = 70, en_owner = 0\<rparr>)]
    \<and> replayed_orders map_std_policy (sc_symbol session_config) Ask (rp_books (sb_rep S)) = Some [(1000100, \<lparr>en_id = 2, en_qty = 50, en_owner = 0\<rparr>)]
    \<and> qp_active (our Bid S) \<and> qp_price (our Bid S) = 999900"
proof -
  let ?s = "symbol_of [65]" and ?A = "fold (feed_step (\<lambda>_. True)) session_events (track_only [symbol_of [65]] (replayer_new amulti_new))"
  note O = session_ok
  have len: "length session_file < 2 ^ 29" "length session_file < 2 ^ 30"
    "int (length session_file) * uint (mc_quote_size (sc_mm session_config)) < 2 ^ 29" by (simp_all add: O)
  have sy: "sc_symbol session_config = ?s" by (simp add: session_config_def)
  obtain r S k0 where run: "mm_sandbox map_std_policy ml_new session_config (Some session_file) = Some (r, S)"
    and k0: "k0 \<le> length session_file" "sandbox_ok map_std_policy ml_new session_config k0 S" "bounded session_config k0 S"
    using sandbox_total [OF lawful_policies(1) O(4,5,2) len(1,3)] by blast
  have R: "replay_file map_std_policy ml_new [?s] session_file = Some (r, sb_rep S)"
    using sandbox_reached(2) [OF lawful_policies(1) O(4,6,2) len(2) run] unfolding sy .
  obtain A k where A: "abs_replay_file (\<lambda>_. True) [?s] session_file = Some (r, A)" "replayed map_std_policy ml_new k (sb_rep S) A"
    using replay_file_sim [OF lawful_policies(1) len(2), of "[?s]"] R unfolding map_std_valid by auto
  have ok: "\<forall>e \<in> set session_events. symbol_ok e" using O(1) by (simp add: event_ok_def)
  have "A = ?A" using A(1) unfolding abs_replay_file_def session_file_def written_feed_back [OF ok] handle_written [OF O(1)] by simp
  moreover have "\<exists>B. map_of (am_books (rp_books ?A)) ?s = Some B
      \<and> flat (ab_levels B Bid) = [(999900, \<lparr>en_id = 1, en_qty = 70, en_owner = 0\<rparr>), (999900, \<lparr>en_id = 3, en_qty = 70, en_owner = 0\<rparr>)]
      \<and> flat (ab_levels B Ask) = [(1000100, \<lparr>en_id = 2, en_qty = 50, en_owner = 0\<rparr>)]"
    by (simp add: session_events_def feed_eval)
  ultimately obtain B where B: "map_of (am_books (rp_books A)) ?s = Some B"
    "flat (ab_levels B Bid) = [(999900, \<lparr>en_id = 1, en_qty = 70, en_owner = 0\<rparr>), (999900, \<lparr>en_id = 3, en_qty = 70, en_owner = 0\<rparr>)]"
    "flat (ab_levels B Ask) = [(1000100, \<lparr>en_id = 2, en_qty = 50, en_owner = 0\<rparr>)]" by blast
  have sim: "rp_sim map_std_policy ml_new (3 * k) (sb_rep S) A" using A(2) by (simp add: replayed_def)
  obtain b where b: "mb_find ?s (rp_books (sb_rep S)) = Some b" "implements map_std_policy (pol_valid_price map_std_policy ml_new) b B"
    using mb_find_sim [OF rp_simD [OF sim] B(1)] by blast
  have "replayed_orders map_std_policy ?s t (rp_books (sb_rep S)) = Some (flat (ab_levels B t))" for t
    using b(1) implementsD(3) [OF b(2), of t] by (simp add: replayed_orders_def)
  then have os: "replayed_orders map_std_policy (sc_symbol session_config) t (rp_books (sb_rep S)) = Some (flat (ab_levels B t))" for t unfolding sy .
  obtain F where F: "\<forall>t. replayed_orders map_std_policy (sc_symbol session_config) t (rp_books (sb_rep S)) = Some (F t)"
    "quotes_ok session_config F S" "targets session_config F S" using k0(2) by (rule sandbox_okD)
  have hd: "fst (hd (F Bid)) = 999900" "fst (hd (F Ask)) = 1000100" "F Bid \<noteq> []" "F Ask \<noteq> []" using os F(1) B(2,3) by simp_all
  have mid: "(999900 + 1000100 :: int) sdiv 2 = 1000000" by (simp add: signed_divide_int_def)
  have "on_target session_config 1000000 S" using F(3) hd O(7) mid by (simp add: targets_def)
  moreover note cf = quotes_okD(6) [OF F(2)] and ac = quotes_okD(5) [OF F(2)]
  have "turnover (mm_fills_log (sb_mm S)) \<le> int k0 * 100" using k0(3) O(8) by (simp add: bounded_def)
  then have "\<bar>mm_position (sb_mm S)\<bar> < 100000" using bought_turnover [of "mm_fills_log (sb_mm S)"] ac k0(1) O(3) by (simp add: accounts_ok_def)
  then have "wants_bid (sb_mm S)" using cf by (simp add: wants_bid_def session_config_def)
  moreover have "skew (sb_mm S) = Some 0" using cf by (simp add: skew_def session_config_def i64_def)
  then have "bid_quote 1000000 (sb_mm S) = Some 999900" using cf by (simp add: bid_quote_def session_config_def i64_def)
  moreover have "snap_bid 999900 (sc_tick session_config) = Some 999900" by (simp add: session_config_def snap_grid)
  ultimately have "qp_active (our Bid S)" "qp_price (our Bid S) = 999900" unfolding on_target_def by auto
  then show ?thesis using run os B(2,3) by auto
qed

theorem sandbox_quotes_follow_mid_witness:
  "\<exists>r S. mm_sandbox map_std_policy ml_new session_config (Some session_file) = Some (r, S)
    \<and> (\<exists>x v. bid_quote 1000000 (sb_mm S) = Some x \<and> snap_bid x 100 = Some v
      \<and> (wants_bid (sb_mm S) \<longrightarrow> qp_active (our Bid S) \<and> qp_price (our Bid S) = v))"
proof -
  note O = session_ok
  have len: "length session_file < 2 ^ 30" by (simp add: O)
  obtain r S e1 f1 e2 where run: "mm_sandbox map_std_policy ml_new session_config (Some session_file) = Some (r, S)"
    "replayed_orders map_std_policy (sc_symbol session_config) Bid (rp_books (sb_rep S)) = Some ((999900, e1) # f1)"
    "replayed_orders map_std_policy (sc_symbol session_config) Ask (rp_books (sb_rep S)) = Some [(1000100, e2)]" using session_run by blast
  have m: "(999900 + 1000100 :: int) sdiv 2 = 1000000" by (simp add: signed_divide_int_def)
  have t: "sc_tick session_config = 100" by (simp add: session_config_def)
  show ?thesis using sandbox_quotes_follow_mid [OF lawful_policies(1) O(4,6,2) len run(1) O(7) run(2,3)] run(1) unfolding m t by blast
qed

theorem sandbox_runs_witness:
  "\<exists>r S. mm_sandbox map_std_policy ml_new session_config (Some session_file) = Some (r, S)
    \<and> replay_file map_std_policy ml_new [symbol_of [65]] session_file = Some (r, sb_rep S)"
proof -
  note O = session_ok
  have "length session_file < 2 ^ 29" "int (length session_file) * uint (mc_quote_size (sc_mm session_config)) < 2 ^ 29" by (simp_all add: O)
  moreover have "sc_symbol session_config = symbol_of [65]" by (simp add: session_config_def)
  ultimately show ?thesis using sandbox_runs [OF lawful_policies(1) O(4,5,2)] by simp
qed

theorem sandbox_accounts_witness:
  "\<exists>r S. mm_sandbox map_std_policy ml_new session_config (Some session_file) = Some (r, S) \<and> \<bar>mm_position (sb_mm S)\<bar> < 100100"
proof -
  note O = session_ok
  have len: "length session_file < 2 ^ 30" by (simp add: O)
  have mx: "mc_max_position (sc_mm session_config) = 100000" by (simp add: session_config_def)
  obtain r S where run: "mm_sandbox map_std_policy ml_new session_config (Some session_file) = Some (r, S)" using session_run by blast
  then show ?thesis using sandbox_accounts [OF lawful_policies(1) O(4,6,2) len run] unfolding mx O(8) by auto
qed

theorem sandbox_queue_exact_witness:
  "\<exists>r S M ms es later. mm_sandbox map_std_policy ml_new session_config (Some session_file) = Some (r, S)
    \<and> ahead_run map_std_policy ml_new session_config Bid ms (sandbox_new session_config M, []) = Some (S, es)
    \<and> take (rr_offset r) session_file = concat (map frame ms) \<and> qp_active (our Bid S)
    \<and> [\<lparr>en_id = 1, en_qty = 70, en_owner = 0\<rparr>, \<lparr>en_id = 3, en_qty = 70, en_owner = 0\<rparr>] = es @ later
    \<and> qp_ahead (our Bid S) = map (\<lambda>e. (en_id e, en_qty e)) es \<and> (qp_at_front (our Bid S) \<longleftrightarrow> es = [])"
proof -
  note O = session_ok
  have len: "length session_file < 2 ^ 30" by (simp add: O)
  obtain r S where run: "mm_sandbox map_std_policy ml_new session_config (Some session_file) = Some (r, S)"
    "replayed_orders map_std_policy (sc_symbol session_config) Bid (rp_books (sb_rep S))
        = Some [(999900, \<lparr>en_id = 1, en_qty = 70, en_owner = 0\<rparr>), (999900, \<lparr>en_id = 3, en_qty = 70, en_owner = 0\<rparr>)]"
    "qp_active (our Bid S)" "qp_price (our Bid S) = 999900" using session_run by blast
  obtain M ms es later where e: "ahead_run map_std_policy ml_new session_config Bid ms (sandbox_new session_config M, []) = Some (S, es)"
    "take (rr_offset r) session_file = concat (map frame ms)"
    "level_queue [(999900, \<lparr>en_id = 1, en_qty = 70, en_owner = 0\<rparr>), (999900, \<lparr>en_id = 3, en_qty = 70, en_owner = 0\<rparr>)] 999900 = es @ later"
    "qp_ahead (our Bid S) = map (\<lambda>e. (en_id e, en_qty e)) es" "qp_at_front (our Bid S) \<longleftrightarrow> es = []"
    using sandbox_queue_exact [OF lawful_policies(1) O(4,6,2) len run(1), of Bid] run(2-4) by auto
  have "[\<lparr>en_id = 1, en_qty = 70, en_owner = 0\<rparr>, \<lparr>en_id = 3, en_qty = 70, en_owner = 0\<rparr>] = es @ later" using e(3) by (simp add: level_queue_def)
  then show ?thesis using run(1,3) e(1,2,4,5) by blast
qed

theorem fills_account_witness:
  "\<exists>N. on_fills [\<lparr>fe_side = Bid, fe_price = 100, fe_qty = 3, fe_timestamp = 1, fe_mid_at_fill = 101\<rparr>,
      \<lparr>fe_side = Ask, fe_price = 104, fe_qty = 5, fe_timestamp = 2, fe_mid_at_fill = 103\<rparr>] (market_maker_new (sc_mm session_config)) = Some N
    \<and> total_pnl_ticks 103 N = Some 14 \<and> peak_abs_position N = Some 3"
proof -
  let ?fs = "[\<lparr>fe_side = Bid, fe_price = 100, fe_qty = 3, fe_timestamp = 1, fe_mid_at_fill = 101\<rparr>,
      \<lparr>fe_side = Ask, fe_price = 104, fe_qty = 5, fe_timestamp = 2, fe_mid_at_fill = 103\<rparr>]"
  have a: "\<forall>f \<in> set ?fs. \<bar>fe_price f\<bar> \<le> 1000" "2 * turnover ?fs * 1000 < 2 ^ 63" by (simp_all add: turnover_def)
  have h: "sorted (map mp_ts (mm_mid_history (market_maker_new (sc_mm session_config))))" by (simp add: market_maker_new_def)
  obtain N where N: "on_fills ?fs (market_maker_new (sc_mm session_config)) = Some N"
    "total_pnl_ticks 103 N = Some (\<Sum>f\<leftarrow>?fs. signed_qty f * (103 - fe_price f))"
    "peak_abs_position N = Some (Max ((\<lambda>n. \<bar>\<Sum>f\<leftarrow>take n ?fs. signed_qty f\<bar>) ` {0..length ?fs}))"
    using fills_account [OF a(1) _ a(2) _ h, of 103 "sc_mm session_config"] by auto
  have "{0..length ?fs} = {0, 1, 2}" by auto
  then show ?thesis using N by (simp add: signed_qty_def)
qed

end
