(* ===== verification/Fuzz.thy ===== *)
theory Fuzz
  imports BookProperties ReplayRefinement
begin

text \<open>
  The body of the ITCH fuzz target (\<^verbatim>\<open>fuzz/fuzz_itch.hpp\<close>, \<^verbatim>\<open>fuzz/fuzz_itch.cpp\<close>): decoding every message
  both readers accept, and rebuilding the books of a small input to check their linked structure.
  The lemmas show the check complete for a book that implements the specification, and the target
  total: it never aborts, whatever bytes it is given.
\<close>

subsection \<open>Decoding\<close>

definition kReplayByteLimit :: nat where
  "kReplayByteLimit = 1024"

text \<open>\<^verbatim>\<open>static_cast<std::uint64_t>(price)\<close>.\<close>

definition price_num :: "Price \<Rightarrow> u64" where
  "price_num p = word_of_int p"

text \<open>The event code is a \<^verbatim>\<open>char\<close>, signed on the targets the build supports, so its cast extends the sign.\<close>

definition decode_message :: "bytes \<Rightarrow> nat \<Rightarrow> u64 option" where
  "decode_message msg len = do {
     type \<leftarrow> rd msg 0;
     case msg_type type of
       Some MsgType.AddOrder \<Rightarrow> do {
         m \<leftarrow> decode_add_order msg;
         Some (ao_reference m XOR ao_timestamp m XOR ucast (ao_shares m) XOR price_num (ao_price m) XOR
           symbol_bits (ao_symbol m) XOR side_num (ao_side m)) }
     | Some AddOrderMpid \<Rightarrow> do {
         m \<leftarrow> decode_add_order msg;
         Some (ao_reference m XOR ao_timestamp m XOR ucast (ao_shares m) XOR price_num (ao_price m) XOR
           symbol_bits (ao_symbol m) XOR side_num (ao_side m)) }
     | Some MsgType.OrderExecuted \<Rightarrow> do {
         m \<leftarrow> decode_order_executed msg;
         Some (oe_reference m XOR oe_timestamp m XOR ucast (oe_shares m) XOR oe_match_number m) }
     | Some OrderExecutedWithPrice \<Rightarrow> do {
         m \<leftarrow> decode_order_executed msg;
         Some (oe_reference m XOR oe_timestamp m XOR ucast (oe_shares m) XOR oe_match_number m) }
     | Some MsgType.OrderCancel \<Rightarrow> do {
         m \<leftarrow> decode_order_cancel msg;
         Some (oc_reference m XOR oc_timestamp m XOR ucast (oc_shares m)) }
     | Some MsgType.OrderDelete \<Rightarrow> do {
         m \<leftarrow> decode_order_delete msg;
         Some (od_reference m XOR od_timestamp m) }
     | Some MsgType.OrderReplace \<Rightarrow> do {
         m \<leftarrow> decode_order_replace msg;
         Some (or_original_reference m XOR or_new_reference m XOR or_timestamp m XOR ucast (or_shares m) XOR
           price_num (or_price m)) }
     | Some MsgType.SystemEvent \<Rightarrow> do {
         m \<leftarrow> decode_system_event msg;
         Some (se_timestamp m XOR scast (se_code m)) }
     | _ \<Rightarrow> Some (of_nat len) }"

subsection \<open>The structure of a book\<close>

text \<open>The walk over the orders of a level.  The state is the verdict, \<^verbatim>\<open>sum\<close>, \<^verbatim>\<open>n\<close> and \<^verbatim>\<open>prev\<close>; the
  address \<^verbatim>\<open>&lvl\<close> is the level's name \<open>r\<close>.  It ends for any links at all, because of the guard on
  \<^verbatim>\<open>n\<close>.\<close>

type_synonym order_scan = "bool \<times> u64 \<times> u32 \<times> addr option"

function sound_orders :: "heap \<Rightarrow> level_ref \<Rightarrow> Level \<Rightarrow> addr option \<Rightarrow> order_scan \<Rightarrow> order_scan" where
  "sound_orders h r lv None st = st"
| "sound_orders h r lv (Some a) (ok, total_qty, n, prev) =
     (let o1 = h a;
          ok = (ok \<and> ord_prev o1 = prev);
          ok = (ok \<and> ord_level o1 = Some r);
          ok = (ok \<and> ord_qty o1 \<noteq> 0);
          ok = (ok \<and> ord_price o1 = lvl_price lv);
          st = (ok, total_qty + ucast (ord_qty o1), n + 1, Some a)
      in if n + 1 > 100000 then st else sound_orders h r lv (ord_next o1) st)"
  by pat_completeness auto
termination
proof (relation "measure (\<lambda>(h, r, lv, a, ok, total_qty, n, prev). if n = -1 then 100002 else 100001 - unat n)", goal_cases)
  case (2 h r lv a ok total_qty n prev x xa xb xc xd xe)
  show ?case
  proof (cases "n = -1")
    case True
    then show ?thesis using 2 by simp
  next
    case False
    then have "unat (n + 1) = unat n + 1" using unatSuc [of n] by (metis add.commute add_eq_0_iff2 Suc_eq_plus1)
    moreover have "unat (n + 1) \<le> 100000" using 2 by (simp add: word_less_nat_alt not_less)
    moreover have "m \<noteq> -1" if "\<not> m > 100000" for m :: u32 using that by auto
    then have "n + 1 \<noteq> -1" using 2 by blast
    ultimately show ?thesis using 2 False by simp
  qed
qed simp

text \<open>What the visitor of \<^verbatim>\<open>book_structurally_sound\<close> captures.\<close>

record book_scan =
  sc_first :: bool
  sc_previous :: Price
  sc_orders :: nat
  sc_ok :: bool

definition sound_level :: "heap \<Rightarrow> Side \<Rightarrow> Level \<Rightarrow> book_scan \<Rightarrow> book_scan" where
  "sound_level h s lv sc =
     (let ordered = (if s = Bid then lvl_price lv < sc_previous sc else lvl_price lv > sc_previous sc);
          sc = (if \<not> sc_first sc \<and> \<not> ordered then sc\<lparr>sc_ok := False\<rparr> else sc);
          sc = sc\<lparr>sc_first := False, sc_previous := lvl_price lv\<rparr>
      in case (lvl_head lv, lvl_tail lv) of
           (Some hd1, Some tl1) \<Rightarrow>
             if lvl_order_count lv = 0 then sc\<lparr>sc_ok := False\<rparr>
             else
               (let ok = (sc_ok sc \<and> ord_prev (h hd1) = None \<and> ord_next (h tl1) = None);
                    (ok, total_qty, n, prev) = sound_orders h (s, lvl_price lv) lv (Some hd1) (ok, 0, 0, None);
                    ok = (ok \<and> prev = Some tl1);
                    ok = (ok \<and> n = lvl_order_count lv);
                    ok = (ok \<and> total_qty = lvl_total_qty lv)
                in sc\<lparr>sc_ok := ok, sc_orders := sc_orders sc + unat n\<rparr>)
         | _ \<Rightarrow> sc\<lparr>sc_ok := False\<rparr>)"

definition sound_side :: "('l, 'm) policy \<Rightarrow> ('l, 'm) OrderBook \<Rightarrow> Side \<Rightarrow> nat \<times> bool \<Rightarrow> (nat \<times> bool) option" where
  "sound_side P b s = (\<lambda>(n, ok). do {
     lvls \<leftarrow> pol_visit P s (bk_ladder b);
     let sc = fold (sound_level (bk_heap b) s) lvls \<lparr>sc_first = True, sc_previous = 0, sc_orders = n, sc_ok = ok\<rparr>;
     Some (sc_orders sc, sc_ok sc) })"

definition book_structurally_sound :: "('l, 'm) policy \<Rightarrow> ('l, 'm) OrderBook \<Rightarrow> bool option" where
  "book_structurally_sound P b = do {
     acc \<leftarrow> sound_side P b Bid (0, True);
     (n, ok) \<leftarrow> sound_side P b Ask acc;
     Some (ok \<and> n = open_orders P b) }"

subsection \<open>The target\<close>

fun status_num :: "ReadStatus \<Rightarrow> u64" where
  "status_num ReadOk = 0"
| "status_num TruncatedPrefix = 1"
| "status_num TruncatedMessage = 2"
| "status_num UnknownType = 3"
| "status_num LengthMismatch = 4"
| "status_num ZeroLength = 5"

definition sink_message :: "u64 handler" where
  "sink_message msg len sink = do { v \<leftarrow> decode_message msg len; Some (sink XOR v) }"

definition sink_result :: "ReadResult \<Rightarrow> u64 \<Rightarrow> u64" where
  "sink_result r sink = sink XOR (of_nat (rr_messages r) XOR of_nat (rr_offset r) XOR status_num (rr_status r))"

text \<open>The visitor of the last stage.\<close>

fun fuzz_books :: "('l, 'm) policy \<Rightarrow> (Symbol \<times> ('l, 'm) OrderBook) list \<Rightarrow> u64 \<times> bool \<Rightarrow> (u64 \<times> bool) option" where
  "fuzz_books P [] acc = Some acc"
| "fuzz_books P ((s, b) # bs) (sink, sound) = do {
     ok \<leftarrow> book_structurally_sound P b;
     v \<leftarrow> state_hash P b;
     fuzz_books P bs (sink XOR v, sound \<and> ok) }"

definition fuzz_one :: "bytes \<Rightarrow> (u64 \<times> bool) option" where
  "fuzz_one data = do {
     (framed, sink) \<leftarrow> for_each_framed_message data sink_message 0;
     (raw, sink) \<leftarrow> for_each_raw_message data sink_message (sink_result framed sink);
     let sink = sink_result raw sink;
     if length data \<le> kReplayByteLimit then do {
       books \<leftarrow> mb_new;
       (_, rep) \<leftarrow> for_each_framed_message data (replay_apply map_open_policy ml_new) (replayer_new books);
       fuzz_books map_open_policy (mb_books (rp_books rep)) (sink, True) }
     else Some (sink, True) }"

text \<open>\<^verbatim>\<open>std::abort\<close> is \<^term>\<open>None\<close>.\<close>

definition LLVMFuzzerTestOneInput :: "bytes \<Rightarrow> int option" where
  "LLVMFuzzerTestOneInput data = do { (sink, sound) \<leftarrow> fuzz_one data; if sound then Some 0 else None }"

subsection \<open>The check accepts every book that implements the specification\<close>

lemma sound_orders_dll:
  assumes "dll h p as None" and "\<forall>a \<in> set as. ord_level (h a) = Some r \<and> ord_qty (h a) \<noteq> 0 \<and> ord_price (h a) = lvl_price lv"
    and "unat n + length as \<le> 100000"
  shows "sound_orders h r lv (first_of as) (ok, q, n, p)
    = (ok, q + (\<Sum>a\<leftarrow>as. ucast (ord_qty (h a))), n + of_nat (length as), if as = [] then p else last_of as)"
  using assms
proof (induction as arbitrary: p q n)
  case (Cons a as)
  have next1: "ord_next (h a) = first_of as" using Cons.prems(1) by auto
  have n: "unat (n + 1) = Suc (unat n)" using Cons.prems(3) by (simp add: unat_word_ariths)
  then have small: "\<not> n + 1 > 100000" using Cons.prems(3) by (simp add: word_less_nat_alt)
  have "sound_orders h r lv (first_of as) (ok, q + ucast (ord_qty (h a)), n + 1, Some a)
    = (ok, q + ucast (ord_qty (h a)) + (\<Sum>a\<leftarrow>as. ucast (ord_qty (h a))), n + 1 + of_nat (length as),
       if as = [] then Some a else last_of as)"
    by (rule Cons.IH) (use Cons.prems n in auto)
  then show ?case using Cons.prems next1 small by (auto simp: ac_simps)
qed simp

context book_policies begin

lemma sound_level_settled:
  assumes st: "settled b G" and small: "size_of b \<le> 100000" and m: "(p, lv) \<in> set (levels (bk_ladder b) s)"
    and ordered: "sc_first sc \<or> before s (sc_previous sc) p"
  shows "sound_level (bk_heap b) s lv sc
    = sc\<lparr>sc_first := False, sc_previous := p, sc_orders := sc_orders sc + length (G s p)\<rparr>"
proof -
  have sz: "size_of b < 2 ^ 32" using small by simp
  have ok: "level_ok (bk_heap b) (s, p) lv (G s p)" using queues_okD(2) [OF settledD(6) [OF st] m] by simp
  have ne: "G s p \<noteq> []" using queues_okD(3) [OF settledD(6) [OF st] m] by simp
  have "length (G s p) \<le> card (dom (lookup (bk_orders b)))"
    by (rule index_ok_queue_length [OF settledD(3) [OF st] ids.finite_law [OF settledD(2) [OF st]]]) (use ok in \<open>simp add: level_ok_def\<close>)
  then have len: "length (G s p) \<le> 100000" using ids.count_law [OF settledD(2) [OF st]] small by simp
  obtain a as where as: "G s p = a # as" using ne by (cases "G s p") auto
  have nodes: "\<forall>a \<in> set (G s p). ord_level (bk_heap b a) = Some (s, p) \<and> ord_qty (bk_heap b a) \<noteq> 0 \<and> ord_price (bk_heap b a) = lvl_price lv"
    using settledD(5,9) [OF st] ok unfolding open_qty_def live_def level_ok_def by auto
  obtain z where z: "last_of (G s p) = Some z" using ne by (cases "last_of (G s p)") auto
  then obtain ys where ys: "G s p = ys @ [z]" by (auto dest: last_of_SomeD)
  have d: "dll (bk_heap b) None (G s p) None" using ok by (simp add: level_ok_def)
  have ends: "ord_prev (bk_heap b a) = None" "ord_next (bk_heap b z) = None"
    using d as d [unfolded ys dll_append] by auto
  have walk: "sound_orders (bk_heap b) (s, p) lv (Some a) (okv, 0, 0, None)
      = (okv, lvl_total_qty lv, lvl_order_count lv, Some z)" for okv
    using sound_orders_dll [OF d nodes, of 0 okv 0] len ok z as by (simp add: level_ok_def)
  have cnt: "lvl_order_count lv = of_nat (length (G s p))" "lvl_price lv = p" "lvl_head lv = Some a" "lvl_tail lv = Some z"
    using ok z as by (auto simp: level_ok_def)
  have "unat (lvl_order_count lv) = length (G s p)" "lvl_order_count lv \<noteq> 0"
    using cnt(1) len ne of_nat_u32_eq_0 [of "length (G s p)"] unat_of_nat_u32 [of "length (G s p)"] by simp_all
  then show ?thesis using ordered cnt(2-4) ends walk by (auto simp: sound_level_def before_def Let_def)
qed

lemma sound_levels_settled:
  assumes st: "settled b G" and small: "size_of b \<le> 100000" and "set lvs \<subseteq> set (levels (bk_ladder b) s)"
    and "ladder_sorted s lvs" and "\<forall>(p, lv) \<in> set lvs. sc_first sc \<or> before s (sc_previous sc) p"
  shows "sc_ok (fold (sound_level (bk_heap b) s) (map snd lvs) sc) = sc_ok sc
    \<and> sc_orders (fold (sound_level (bk_heap b) s) (map snd lvs) sc)
      = sc_orders sc + length (concat (map (\<lambda>(p, lv). G s p) lvs))"
  using assms(3-5)
proof (induction lvs arbitrary: sc)
  case (Cons l lvs)
  obtain p lv where l: "l = (p, lv)" by force
  let ?sc = "sc\<lparr>sc_first := False, sc_previous := p, sc_orders := sc_orders sc + length (G s p)\<rparr>"
  have "sound_level (bk_heap b) s lv sc = ?sc"
    by (rule sound_level_settled [OF st small]) (use Cons.prems l in auto)
  moreover have "sc_ok (fold (sound_level (bk_heap b) s) (map snd lvs) ?sc) = sc_ok ?sc
    \<and> sc_orders (fold (sound_level (bk_heap b) s) (map snd lvs) ?sc)
      = sc_orders ?sc + length (concat (map (\<lambda>(p, lv). G s p) lvs))"
    by (rule Cons.IH) (use Cons.prems l in \<open>auto dest: before_all\<close>)
  ultimately show ?case using l by simp
qed simp

lemma sound_side_settled:
  assumes "settled b G" and "size_of b \<le> 100000"
  shows "sound_side P b s (n, ok) = Some (n + length (nodes_of b G s), ok)"
  using sound_levels_settled [OF assms order_refl settledD(7) [OF assms(1)], where sc = "\<lparr>sc_first = True, sc_previous = 0, sc_orders = n, sc_ok = ok\<rparr>"]
    lad.visit_law [OF settledD(1) [OF assms(1)]]
  by (simp add: sound_side_def Let_def nodes_of_def)

lemma sound_refines:
  assumes r: "refines V b A" and small: "size_of b \<le> 100000"
  shows "book_structurally_sound P b = Some True"
proof -
  obtain G where G: "settled b G" "ab_levels A = levels_of b G" using r by (auto simp: refines_def)
  have "length (side_entries s (levels_of b G s)) = length (nodes_of b G s)" for s
    using arg_cong [OF entries_nodes [of s b G], of length] by simp
  then have "open_orders P b = length (nodes_of b G Bid) + length (nodes_of b G Ask)"
    using open_orders_sim [OF r] card_book_ids [OF refines_ok [OF r]] G(2) by (simp add: all_entries_def)
  then show ?thesis
    by (simp add: book_structurally_sound_def sound_side_settled [OF G(1) small])
qed

end

lemma implements_sound:
  assumes "implements P V b A" and "pol_size P (bk_orders b) \<le> 100000"
  shows "book_structurally_sound P b = Some True"
  using assms book_policies.sound_refines unfolding implements_def by blast

subsection \<open>The walks end on every input\<close>

lemma raw_total:
  assumes "\<And>m s. message_ok m \<Longrightarrow> h m (length m) s \<noteq> None"
  shows "\<exists>r s'. for_each_raw_message data h s = Some (r, s')"
proof -
  have "\<exists>r' s'. raw_loop data h off r s = Some (r', s')" for off r
    using assms
  proof (induction data h off r s rule: raw_loop.induct)
    case (1 data h off r s)
    let ?len = "message_length (data ! off)" and ?m = "take (message_length (data ! off)) (drop off data)"
    show ?case
    proof (cases "off < length data \<and> ?len \<noteq> 0 \<and> ?len \<le> length data - off")
      case True
      then have m: "length ?m = ?len" "?m \<noteq> []" "hd ?m = data ! off" by (auto simp: hd_conv_nth)
      then have "message_ok ?m" using message_length_bound [of "data ! off"] True by (simp add: message_ok_def)
      then obtain s1 where "h ?m ?len s = Some s1" using "1.prems" [of ?m s] m(1) by auto
      then show ?thesis using True "1.IH" [of "data ! off" ?len s1] "1.prems"
        by (subst raw_loop.simps) (simp add: rd_def)
    next
      case False
      then show ?thesis by (subst raw_loop.simps) (auto simp: rd_def Let_def)
    qed
  qed
  then show ?thesis unfolding for_each_raw_message_def by blast
qed

lemma decode_message_ok:
  assumes "message_ok msg"
  shows "\<exists>v. decode_message msg len = Some v"
proof (cases "msg_type (hd msg)")
  case None
  then show ?thesis using assms by (auto simp: decode_message_def message_ok_def rd_def hd_conv_nth)
next
  case (Some k)
  then have k: "hd msg = msg_char k" by (simp add: msg_type_Some)
  have t: "rd msg 0 = Some (hd msg)" "msg ! 0 = hd msg" using assms by (auto simp: message_ok_def rd_def hd_conv_nth)
  have len: "length msg = type_length k"
    using assms Some type_length_bounds(1) [of k] by (auto simp: message_ok_def message_length_def)
  note D = decoders_inside [of msg]
  show ?thesis
    by (cases k; use D len in \<open>simp add: decode_message_def t msg_type_char k del: msg_char.simps; force simp: char_simps simp del: msg_char.simps\<close>)
qed

lemma sink_message_ok: "message_ok m \<Longrightarrow> sink_message m (length m) s \<noteq> None"
  using decode_message_ok [of m "length m"] by (auto simp: sink_message_def)

subsection \<open>The verdict\<close>

lemma fuzz_books_sound:
  assumes "books_sim P V n bs As" and "n \<le> 100000"
  shows "\<exists>sink'. fuzz_books P bs (sink, sound) = Some (sink', sound)"
  using assms(1) unfolding books_sim_def
proof (induction bs As arbitrary: sink rule: list_all2_induct)
  case (Cons x bs y As)
  obtain s b t B where x: "x = (s, b)" "y = (t, B)" by force
  then have "implements P V b B" "pol_size P (bk_orders b) \<le> 100000" using Cons.hyps assms(2) by auto
  then show ?case using x Cons.IH implements_sound implementsD(1) by fastforce
qed simp

lemma fuzz_replay:
  assumes "lawful P l" and "length data \<le> kReplayByteLimit"
  shows "\<exists>M r R As. mb_new = Some M \<and> for_each_framed_message data (replay_apply P l) (replayer_new M) = Some (r, R)
    \<and> books_sim P (pol_valid_price P l) 100000 (mb_books (rp_books R)) As"
proof -
  have len: "length data < 2 ^ 30" using assms(2) by (simp add: kReplayByteLimit_def)
  obtain r R A k where run: "replay_file P l [] data = Some (r, R)" "replayed P l k R A" "k \<le> length data"
    using replay_file_sim [OF assms(1) len, of "[]"] by blast
  have "multi_sim P l (3 * k) (rp_books R) (rp_books A)" using run(2) rp_simD by (auto simp: replayed_def)
  then have "books_sim P (pol_valid_price P l) 100000 (mb_books (rp_books R)) (am_books (rp_books A))"
    using run(3) assms(2) by (auto simp: multi_sim_def kReplayByteLimit_def intro: books_sim_mono)
  moreover have "track_only [] (replayer_new M) = replayer_new M" for M :: "('a, 'b) MultiBook"
    by (simp add: track_only_def replayer_new_def)
  ultimately show ?thesis using run(1) by (auto simp: replay_file_def split: bind_splits)
qed

text \<open>C27: Whatever bytes the fuzz target is given, it finishes without reading outside them, every book it rebuilds passes the structural check, and the driver returns 0 instead of aborting.\<close>

theorem fuzz_target_never_aborts:
  "LLVMFuzzerTestOneInput data = Some 0 \<and> (\<exists>sink. fuzz_one data = Some (sink, True))"
proof -
  obtain fr sink where 1: "for_each_framed_message data sink_message 0 = Some (fr, sink)"
    using framed_total [of sink_message data 0, OF sink_message_ok] by blast
  obtain rr sink' where 2: "for_each_raw_message data sink_message (sink_result fr sink) = Some (rr, sink')"
    using raw_total [of sink_message data, OF sink_message_ok] by blast
  have "\<exists>sink. fuzz_one data = Some (sink, True)"
  proof (cases "length data \<le> kReplayByteLimit")
    case True
    obtain M :: "(MapLadder, addr OpenMap) MultiBook" and r R As where
      R: "mb_new = Some M" "for_each_framed_message data (replay_apply map_open_policy ml_new) (replayer_new M) = Some (r, R)"
      "books_sim map_open_policy (pol_valid_price map_open_policy ml_new) 100000 (mb_books (rp_books R)) As"
      using fuzz_replay [OF lawful_policies(2) True] by blast
    obtain sink1 where "fuzz_books map_open_policy (mb_books (rp_books R)) (sink_result rr sink', True) = Some (sink1, True)"
      using fuzz_books_sound [OF R(3) order_refl, of "sink_result rr sink'" True] by blast
    then show ?thesis using True by (simp add: fuzz_one_def Let_def 1 2 R(1,2))
  next
    case False
    then show ?thesis using 1 2 by (simp add: fuzz_one_def Let_def)
  qed
  then show ?thesis by (auto simp: LLVMFuzzerTestOneInput_def)
qed

end
