(* ===== verification/GenItch.thy ===== *)
theory GenItch
  imports ItchWriter
begin

text \<open>
  The generator of synthetic ITCH files (\<^verbatim>\<open>tools/gen_itch.cpp\<close>).  One pass of its loop gives the call it makes on
  the \<^verbatim>\<open>Writer\<close> as a \<^typ>\<open>feed_event\<close>.  A remainder by zero is \<^term>\<open>None\<close>.
\<close>

text \<open>The splitmix64 generator: the number and the new state.\<close>

definition next_random :: "u64 \<Rightarrow> u64 \<times> u64" where
  "next_random state =
     (let state = state + 0x9E3779B97F4A7C15;
          z = state;
          z = (z XOR drop_bit 30 z) * 0xBF58476D1CE4E5B9;
          z = (z XOR drop_bit 27 z) * 0x94D049BB133111EB
      in (z XOR drop_bit 31 z, state))"

record LiveOrder =
  lo_ref :: OrderId
  lo_shares :: Qty
  lo_symbol_index :: nat
  lo_side :: Side

text \<open>The variables of \<^verbatim>\<open>main\<close> that the loop changes, the writer aside.\<close>

record Gen =
  gn_seed :: u64
  gn_ts :: u64
  gn_live :: "LiveOrder list"
  gn_next_ref :: OrderId
  gn_match_number :: u64

definition mids :: "Symbol list \<Rightarrow> Price list" where
  "mids symbols = map (\<lambda>i. 500000 + (int i + 1) * 250000) [0..<length symbols]"

text \<open>\<^verbatim>\<open>next_random(seed) % n\<close>.\<close>

definition draw :: "u64 \<Rightarrow> Gen \<Rightarrow> (u64 \<times> Gen) option" where
  "draw n g = (if n = 0 then None
     else (let (r, s) = next_random (gn_seed g) in Some (r mod n, g\<lparr>gn_seed := s\<rparr>)))"

text \<open>A price off the mid, and a number of shares.\<close>

definition draw_offset :: "Gen \<Rightarrow> (Price \<times> Gen) option" where
  "draw_offset g = do { (r, g) \<leftarrow> draw 500 g; Some (uint (1 + r), g) }"

definition draw_shares :: "Gen \<Rightarrow> (Qty \<times> Gen) option" where
  "draw_shares g = do { (r, g) \<leftarrow> draw 20 g; Some (ucast (100 * (1 + r)), g) }"

definition off_mid :: "Symbol list \<Rightarrow> nat \<Rightarrow> Side \<Rightarrow> Price \<Rightarrow> Price" where
  "off_mid symbols si side offset = (if side = Bid then mids symbols ! si - offset else mids symbols ! si + offset)"

text \<open>\<^verbatim>\<open>o = live.back(); live.pop_back();\<close>\<close>

definition swap_out :: "nat \<Rightarrow> 'a list \<Rightarrow> 'a list" where
  "swap_out idx xs = butlast (xs[idx := last xs])"

subsection \<open>The branches\<close>

definition nsdq :: bytes where
  "nsdq = [ch CHR ''N'', ch CHR ''S'', ch CHR ''D'', ch CHR ''Q'']"

definition gen_add :: "Symbol list \<Rightarrow> Gen \<Rightarrow> (feed_event \<times> Gen) option" where
  "gen_add symbols g = do {
     (r, g) \<leftarrow> draw (of_nat (length symbols)) g;
     let si = unat r;
     (r, g) \<leftarrow> draw 2 g;
     let side = (if r = 0 then Bid else Ask);
     (offset, g) \<leftarrow> draw_offset g;
     let price = off_mid symbols si side offset;
     (shares, g) \<leftarrow> draw_shares g;
     let ref = gn_next_ref g;
     let g = g\<lparr>gn_next_ref := gn_next_ref g + 1\<rparr>;
     (r, g) \<leftarrow> draw 10 g;
     let e = (if r = 0 then AddMpidEv (gn_ts g) ref side shares (symbols ! si) price nsdq
              else AddEv (gn_ts g) ref side shares (symbols ! si) price);
     Some (e, g\<lparr>gn_live := gn_live g @ [\<lparr>lo_ref = ref, lo_shares = shares, lo_symbol_index = si, lo_side = side\<rparr>]\<rparr>) }"

definition gen_delete :: "nat \<Rightarrow> Gen \<Rightarrow> (feed_event \<times> Gen) option" where
  "gen_delete idx g = Some (DeleteEv (gn_ts g) (lo_ref (gn_live g ! idx)), g\<lparr>gn_live := swap_out idx (gn_live g)\<rparr>)"

text \<open>What a cancel and an execution leave of the order.\<close>

definition gen_lessen :: "nat \<Rightarrow> Qty \<Rightarrow> Gen \<Rightarrow> Gen" where
  "gen_lessen idx q g =
     (let lo = gn_live g ! idx in
      if q \<ge> lo_shares lo then g\<lparr>gn_live := swap_out idx (gn_live g)\<rparr>
      else g\<lparr>gn_live := (gn_live g)[idx := lo\<lparr>lo_shares := lo_shares lo - q\<rparr>]\<rparr>)"

definition gen_cancel :: "nat \<Rightarrow> Gen \<Rightarrow> (feed_event \<times> Gen) option" where
  "gen_cancel idx g = do {
     let lo = gn_live g ! idx;
     (r, g) \<leftarrow> draw (ucast (lo_shares lo)) g;
     let q = ucast (1 + r);
     Some (CancelEv (gn_ts g) (lo_ref lo) q, gen_lessen idx q g) }"

definition gen_execute :: "Symbol list \<Rightarrow> nat \<Rightarrow> Gen \<Rightarrow> (feed_event \<times> Gen) option" where
  "gen_execute symbols idx g = do {
     let lo = gn_live g ! idx;
     (r, g) \<leftarrow> draw (ucast (lo_shares lo)) g;
     let fill = ucast (1 + r);
     (r, g) \<leftarrow> draw 5 g;
     let m = gn_match_number g;
     let g = g\<lparr>gn_match_number := m + 1\<rparr>;
     let e = (if r = 0 then ExecutedPriceEv (gn_ts g) (lo_ref lo) fill m True (mids symbols ! lo_symbol_index lo)
              else ExecutedEv (gn_ts g) (lo_ref lo) fill m);
     Some (e, gen_lessen idx fill g) }"

definition gen_replace :: "Symbol list \<Rightarrow> nat \<Rightarrow> Gen \<Rightarrow> (feed_event \<times> Gen) option" where
  "gen_replace symbols idx g = do {
     let lo = gn_live g ! idx;
     let si = lo_symbol_index lo;
     (offset, g) \<leftarrow> draw_offset g;
     (shares, g) \<leftarrow> draw_shares g;
     let fresh = gn_next_ref g;
     let g = g\<lparr>gn_next_ref := gn_next_ref g + 1\<rparr>;
     let price = off_mid symbols si (lo_side lo) offset;
     Some (ReplaceEv (gn_ts g) (lo_ref lo) fresh shares price,
           g\<lparr>gn_live := (gn_live g)[idx := lo\<lparr>lo_ref := fresh, lo_shares := shares\<rparr>]\<rparr>) }"

definition gen_trade :: "Symbol list \<Rightarrow> nat \<Rightarrow> Gen \<Rightarrow> (feed_event \<times> Gen) option" where
  "gen_trade symbols idx g =
     (let lo = gn_live g ! idx; m = gn_match_number g in
      Some (TradeEv (gn_ts g) 0 Bid 100 (symbols ! lo_symbol_index lo) (mids symbols ! lo_symbol_index lo) m,
            g\<lparr>gn_match_number := m + 1\<rparr>))"

subsection \<open>The loop\<close>

definition gen_step :: "Symbol list \<Rightarrow> Gen \<Rightarrow> (feed_event \<times> Gen) option" where
  "gen_step symbols g = do {
     (r, g) \<leftarrow> draw 50000 g;
     let g = g\<lparr>gn_ts := gn_ts g + (1000 + r)\<rparr>;
     (roll, g) \<leftarrow> draw 100 g;
     if roll < 45 \<or> gn_live g = [] then gen_add symbols g
     else do {
       (r, g) \<leftarrow> draw (of_nat (length (gn_live g))) g;
       let idx = unat r;
       if roll < 70 then gen_delete idx g
       else if roll < 82 then gen_cancel idx g
       else if roll < 94 then gen_execute symbols idx g
       else if roll < 98 then gen_replace symbols idx g
       else gen_trade symbols idx g } }"

lemma write_event_count: "wr_count (write_event e w) = Suc (wr_count w)"
  by (cases e) (simp_all add: writer_defs wr_end_def wr_pad_def wr_begin_def emit_def Let_def)

function gen_loop :: "Symbol list \<Rightarrow> nat \<Rightarrow> Gen \<Rightarrow> Writer \<Rightarrow> (Gen \<times> Writer) option" where
  "gen_loop symbols target_messages g w =
     (if wr_count w < target_messages then do {
        (e, g) \<leftarrow> gen_step symbols g;
        gen_loop symbols target_messages g (write_event e w) }
      else Some (g, w))"
  by pat_completeness auto
termination
  by (relation "measure (\<lambda>(symbols, target, g, w). target - wr_count w)") (auto simp: write_event_count)

declare gen_loop.simps [simp del]

definition day_open :: u64 where
  "day_open = 9 * 3600 * 1000000000"

definition gen_head :: "Symbol list \<Rightarrow> Writer" where
  "gen_head symbols =
     (let w = write_system_event day_open (ch CHR ''O'') writer_new;
          w = fold (\<lambda>s. write_stock_directory day_open s (ch CHR ''Q'')) symbols w
      in write_system_event (day_open + 1800 * 1000000000) (ch CHR ''Q'') w)"

text \<open>The bytes of the file and the number of orders still open.\<close>

definition gen_itch :: "Symbol list \<Rightarrow> nat \<Rightarrow> u64 \<Rightarrow> (bytes \<times> nat) option" where
  "gen_itch symbols target_messages seed = do {
     let g = \<lparr>gn_seed = seed, gn_ts = day_open + 1800 * 1000000000, gn_live = [], gn_next_ref = 1, gn_match_number = 1\<rparr>;
     (g, w) \<leftarrow> gen_loop symbols target_messages g (gen_head symbols);
     let ts = 16 * 3600 * 1000000000;
     let w = write_system_event ts (ch CHR ''M'') w;
     let w = write_system_event (ts + 1) (ch CHR ''C'') w;
     Some (wr_buf w, length (gn_live g)) }"

text \<open>The tickers of \<^verbatim>\<open>--symbols\<close> (\<^verbatim>\<open>tools/cli.hpp\<close>): the loop over the characters up to the terminator, and the default
  of \<^verbatim>\<open>main\<close>.\<close>

fun split_csv :: "bytes \<Rightarrow> bytes \<Rightarrow> Symbol list" where
  "split_csv [] cur = (if cur \<noteq> [] then [symbol_of cur] else [])"
| "split_csv (c # csv) cur =
     (if c = ch CHR '','' then (if cur \<noteq> [] then [symbol_of cur] else []) @ split_csv csv []
      else split_csv csv (cur @ [c]))"

definition parse_symbols :: "bytes \<Rightarrow> Symbol list" where
  "parse_symbols csv = split_csv csv []"

definition ascii :: "string \<Rightarrow> bytes" where
  "ascii cs = map ch cs"

definition gen_symbols :: "bytes \<Rightarrow> Symbol list" where
  "gen_symbols csv =
     (let symbols = parse_symbols csv
      in if symbols = [] then map (\<lambda>s. symbol_of (ascii s)) [''AAPL'', ''MSFT'', ''TSLA'', ''NVDA''] else symbols)"

definition gen_main :: "bytes \<Rightarrow> nat \<Rightarrow> u64 \<Rightarrow> (bytes \<times> nat) option" where
  "gen_main csv target_messages seed = gen_itch (gen_symbols csv) target_messages seed"

end
