(* ===== verification/GenFeed.thy ===== *)
theory GenFeed
  imports EngineFeed GenItch
begin

text \<open>
  A replay that keeps, for every symbol at once, exactly the orders a sequence of events leaves, and finds every
  reference it is given (\<open>keeps\<close>): what each event of a feed does to these orders.
\<close>

subsection \<open>One book\<close>

lemma taken_book:
  assumes ok: "abook_ok V B" and q: "q \<noteq> 0" and c: "abs_consume oid q x B = (r, taken, B')"
  shows "abook_ok V B'" and "flats B' = (\<lambda>t. cut oid q (flats B t))"
    and "abs_find oid B' = None \<longleftrightarrow> oid \<notin> flat_ids (flats B')" and "flat_ids (flats B) - {oid} \<subseteq> flat_ids (flats B')"
    and "flat_ids (flats B') \<subseteq> flat_ids (flats B)"
    and "(p, e) \<in> set (flats B t) \<Longrightarrow> en_id e = oid \<Longrightarrow> q \<le> en_qty e \<Longrightarrow> taken = q"
proof -
  show F: "flats B' = (\<lambda>t. cut oid q (flats B t))" using consume_flats [OF ok q, of oid x] c by (simp add: fun_eq_iff)
  have o1: "shape_ok B" "flats_ok V (flats B)" using ok by (simp_all add: abook_ok_flats)
  show "abook_ok V B'" using shape_ops(5) [OF o1(1), of oid q x] flats_ok_cut(1) [OF o1(2), of oid q] c F by (simp add: abook_ok_flats)
  show "abs_find oid B' = None \<longleftrightarrow> oid \<notin> flat_ids (flats B')" by (simp add: abs_find_None flat_ids_flats)
  show "flat_ids (flats B) - {oid} \<subseteq> flat_ids (flats B')" using consume_ids [OF ok, of oid q x] c by (simp add: flat_ids_flats)
  show "flat_ids (flats B') \<subseteq> flat_ids (flats B)" using flats_ok_cut(2) [OF o1(2)] F by simp
  show "taken = q" if "(p, e) \<in> set (flats B t)" "en_id e = oid" "q \<le> en_qty e"
    using find_flats(2) [OF ok that(1)] that(2,3) c q by (auto simp: abs_consume_def Let_def split: if_splits)
qed

lemma entered_book:
  assumes ok: "abook_ok V B" and v: "oid \<noteq> 0" "q \<noteq> 0" "V p" "oid \<notin> flat_ids (flats B)"
  obtains B' where "abs_insert_passive V oid side p q B = (Ok, B')" and "abook_ok V B'"
    and "flats B' = (flats B)(side := enter side p \<lparr>en_id = oid, en_qty = q, en_owner = 0\<rparr> (flats B side))"
    and "flat_ids (flats B') = insert oid (flat_ids (flats B))"
proof -
  let ?e = "\<lparr>en_id = oid, en_qty = q, en_owner = 0\<rparr>" and ?B = "abs_rest oid side p q 0 (abs_count (c_added q) B)"
  have o1: "shape_ok B" "flats_ok V (flats B)" using ok by (simp_all add: abook_ok_flats)
  have "abs_find oid B = None" unfolding abs_find_None using v(4) by (simp add: flat_ids_flats)
  then have r: "abs_insert_passive V oid side p q B = (Ok, ?B)" using v by (simp add: abs_insert_passive_def abs_validate_def)
  have s: "shape_ok (abs_count (c_added q) B)" using shape_ops(1) [OF o1(1)] .
  have F: "flats ?B = (flats B)(side := enter side p ?e (flats B side))"
    using rest_flats [of side "abs_count (c_added q) B"] s by (auto simp: fun_eq_iff shape_ok_def)
  note E = flats_ok_enter [OF o1(2) v(3), of ?e side, simplified, OF v(2,4)]
  show thesis using that [OF r _ F] E F shape_ops(3) [OF s] by (simp add: abook_ok_flats)
qed

subsection \<open>All books\<close>

definition book_at :: "Symbol \<Rightarrow> AMulti \<Rightarrow> ABook" where
  "book_at s M = fst (am_book s M)"

definition keeps :: "(Price \<Rightarrow> bool) \<Rightarrow> (Symbol \<Rightarrow> Side \<Rightarrow> (Price \<times> entry) list) \<Rightarrow> AMulti Replayer \<Rightarrow> bool" where
  "keeps V F R \<longleftrightarrow> (\<forall>s. abook_ok V (book_at s (rp_books R)) \<and> flats (book_at s (rp_books R)) = F s)
     \<and> (\<forall>oid s. am_owner (rp_books R) oid = Some s \<longleftrightarrow> oid \<in> flat_ids (F s)) \<and> distinct (map fst (am_books (rp_books R))) \<and> rp_filter R = {}
     \<and> st_unknown_reference (rp_stats R) = 0 \<and> st_clamped (rp_stats R) = 0 \<and> st_skipped_symbol (rp_stats R) = 0"

lemma keepsD:
  assumes "keeps V F R"
  shows "abook_ok V (book_at s (rp_books R))" and "flats (book_at s (rp_books R)) = F s"
    and "am_owner (rp_books R) oid = Some s \<longleftrightarrow> oid \<in> flat_ids (F s)" and "rp_filter R = {}"
    and "st_unknown_reference (rp_stats R) = 0" and "st_clamped (rp_stats R) = 0" and "st_skipped_symbol (rp_stats R) = 0"
    and "oid \<in> flat_ids (F s) \<Longrightarrow> oid \<in> flat_ids (F t) \<Longrightarrow> s = t"
    and "distinct (map fst (am_books (rp_books R)))"
  using assms unfolding keeps_def by (blast, blast, blast, blast, blast, blast, blast, metis option.inject, blast)

lemma keeps_book:
  assumes "keeps V F R" and "oid \<in> flat_ids (F s)"
  shows "map_of (am_books (rp_books R)) s = Some (book_at s (rp_books R))" and "am_owner (rp_books R) oid = Some s"
proof -
  show "am_owner (rp_books R) oid = Some s" using assms keepsD(3) by blast
  have "book_at s (rp_books R) \<noteq> abook_new"
  proof
    assume "book_at s (rp_books R) = abook_new"
    then have "F s = (\<lambda>_. [])" using keepsD(2) [OF assms(1), of s] by (simp add: flats_new)
    then show False using assms(2) by (simp add: flat_ids_def)
  qed
  then show "map_of (am_books (rp_books R)) s = Some (book_at s (rp_books R))"
    by (auto simp: book_at_def am_book_def split: option.splits)
qed

lemma keeps_new: "keeps V (\<lambda>_ _. []) (track_only [] (replayer_new amulti_new))"
proof -
  have "abook_ok V abook_new" by (simp add: abook_ok_def abook_new_def all_entries_def side_entries_def)
  then show ?thesis
    by (simp add: keeps_def track_only_def replayer_new_def amulti_new_def book_at_def am_book_def flats_new flat_ids_def stats_zero_def)
qed

lemma keeps_observe [simp]: "keeps V F (observe c R) = keeps V F R"
  by (simp add: keeps_def) (simp add: observe_def)

lemma keeps_bump [simp]:
  "st_unknown_reference (f (rp_stats R)) = st_unknown_reference (rp_stats R) \<Longrightarrow> st_clamped (f (rp_stats R)) = st_clamped (rp_stats R) \<Longrightarrow>
   st_skipped_symbol (f (rp_stats R)) = st_skipped_symbol (rp_stats R) \<Longrightarrow> keeps V F (bump f R) = keeps V F R"
  by (simp add: keeps_def)

lemma errors_counts [simp]:
  "st_unknown_reference (c_time ts st) = st_unknown_reference st" "st_clamped (c_time ts st) = st_clamped st"
  "st_skipped_symbol (c_time ts st) = st_skipped_symbol st"
  "st_unknown_reference (c_add q st) = st_unknown_reference st" "st_clamped (c_add q st) = st_clamped st"
  "st_skipped_symbol (c_add q st) = st_skipped_symbol st"
  "st_unknown_reference (c_execution q st) = st_unknown_reference st" "st_clamped (c_execution q st) = st_clamped st"
  "st_skipped_symbol (c_execution q st) = st_skipped_symbol st"
  "st_unknown_reference (c_cancel st) = st_unknown_reference st" "st_clamped (c_cancel st) = st_clamped st"
  "st_skipped_symbol (c_cancel st) = st_skipped_symbol st"
  "st_unknown_reference (c_delete st) = st_unknown_reference st" "st_clamped (c_delete st) = st_clamped st"
  "st_skipped_symbol (c_delete st) = st_skipped_symbol st"
  "st_unknown_reference (c_replace st) = st_unknown_reference st" "st_clamped (c_replace st) = st_clamped st"
  "st_skipped_symbol (c_replace st) = st_skipped_symbol st"
  "st_unknown_reference (c_shares_added q st) = st_unknown_reference st" "st_clamped (c_shares_added q st) = st_clamped st"
  "st_skipped_symbol (c_shares_added q st) = st_skipped_symbol st"
  "st_unknown_reference (c_trade st) = st_unknown_reference st" "st_clamped (c_trade st) = st_clamped st"
  "st_skipped_symbol (c_trade st) = st_skipped_symbol st"
  "st_unknown_reference (c_session c st) = st_unknown_reference st" "st_clamped (c_session c st) = st_clamped st"
  "st_skipped_symbol (c_session c st) = st_skipped_symbol st"
  "st_unknown_reference (c_message n st) = st_unknown_reference st" "st_clamped (c_message n st) = st_clamped st"
  "st_skipped_symbol (c_message n st) = st_skipped_symbol st" "c_clamp q q st = st"
  by (simp_all add: c_time_def c_add_def c_execution_def c_cancel_def c_delete_def c_replace_def c_shares_added_def c_trade_def
    c_session_def c_message_def c_clamp_def)

lemma map_of_keyed: "map_of (map (\<lambda>(t, C). (t, if t = s then B else C)) Bs) t = (if t = s then map_option (\<lambda>_. B) (map_of Bs s) else map_of Bs t)"
  by (induction Bs) auto

text \<open>One symbol has moved on.\<close>

lemma keeps_set:
  assumes k: "keeps V F R" and m: "map_of (am_books (rp_books R)) s = Some B" and b: "abook_ok V B'" "flats B' = G"
    and bs: "am_books M = am_books (am_update s B' (rp_books R))"
    and ow: "\<And>oid t. am_owner M oid = Some t \<longleftrightarrow> oid \<in> flat_ids ((F(s := G)) t)"
  shows "keeps V (F(s := G)) (with_books (\<lambda>_. M) R)"
proof -
  have "book_at t M = (if t = s then B' else book_at t (rp_books R))" for t
    using m bs by (auto simp: book_at_def am_book_def am_update_def map_of_keyed split: option.split)
  moreover have "map fst (am_books M) = map fst (am_books (rp_books R))" unfolding bs by (simp add: am_update_def comp_def split_def)
  ultimately show ?thesis using k b ow by (simp add: keeps_def with_books_def)
qed

lemma with_books_const: "with_books g R = with_books (\<lambda>_. g (rp_books R)) R"
  by (simp add: with_books_def)

lemma keeps_take:
  assumes k: "keeps V F R" and e: "(p, e) \<in> set (F s t)" "en_id e = oid" and q: "q \<noteq> 0" "q \<le> en_qty e"
    and c: "\<And>n st. st_unknown_reference (count n st) = st_unknown_reference st" "\<And>n st. st_clamped (count n st) = st_clamped st"
      "\<And>n st. st_skipped_symbol (count n st) = st_skipped_symbol st"
  shows "keeps V (F(s := (\<lambda>t. cut oid q (F s t)))) (abs_routed oid (abs_take x oid q ts count) R)"
proof -
  have i: "oid \<in> flat_ids (F s)" using e by (auto simp: flat_ids_iff)
  let ?B = "book_at s (rp_books R)"
  note B = keeps_book [OF k i] keepsD(1,2) [OF k, of s]
  obtain r taken B' where B': "abs_consume oid q x ?B = (r, taken, B')" by (metis prod_cases3)
  note T = taken_book [OF B(3) q(1) B']
  have taken: "taken = q" using T(6) [of p e t] e q(2) B(4) by simp
  let ?G = "\<lambda>t. cut oid q (F s t)"
  have G: "flats B' = ?G" "flat_ids (F s) - {oid} \<subseteq> flat_ids ?G" "flat_ids ?G \<subseteq> flat_ids (F s)" using T(2,4,5) B(4) by simp_all
  have other: "u \<noteq> s \<Longrightarrow> oid \<notin> flat_ids (F u)" for u using keepsD(8) [OF k i, of u] by blast
  note own = keepsD(3) [OF k]
  have o1: "((am_owner (rp_books R))(oid := None)) i = Some u \<longleftrightarrow> i \<in> flat_ids ((F(s := ?G)) u)" if "oid \<notin> flat_ids ?G" for i u
    using G(2,3) other [of u] own [of i u] that by (cases "u = s"; cases "i = oid") auto
  have o2: "am_owner (rp_books R) i = Some u \<longleftrightarrow> i \<in> flat_ids ((F(s := ?G)) u)" if "oid \<in> flat_ids ?G" for i u
    using G(2,3) other [of u] own [of i u] that by (cases "u = s"; cases "i = oid") auto
  have "keeps V (F(s := ?G)) (with_books (\<lambda>_. am_forget oid (am_update s B' (rp_books R))) R)" if "oid \<notin> flat_ids ?G"
    by (rule keeps_set [OF k B(1) T(1) G(1)]) (simp_all add: o1 [OF that] del: fun_upd_apply)
  moreover have "keeps V (F(s := ?G)) (with_books (\<lambda>_. am_update s B' (rp_books R)) R)" if "oid \<in> flat_ids ?G"
    by (rule keeps_set [OF k B(1) T(1) G(1)]) (simp_all add: o2 [OF that] del: fun_upd_apply)
  ultimately show ?thesis
    unfolding abs_routed_def B(2) option.case B(1) option.sel abs_take_def B' prod.case Let_def T(3) G(1) taken
    using c by (auto simp: with_books_def bump_def observe_def keeps_def)
qed

lemma keeps_cancel:
  assumes k: "keeps V F R" and i: "oid \<in> flat_ids (F s)"
  shows "keeps V (F(s := (\<lambda>t. without oid (F s t))))
    (with_books (am_forget oid) (with_books (am_update s (snd (abs_cancel oid (book_at s (rp_books R))))) R))"
proof -
  let ?G = "\<lambda>t. without oid (F s t)"
  note B = keeps_book [OF k i] keepsD(1,2) [OF k, of s]
  note C = canceled_book [OF B(3), of oid]
  have G: "flat_ids ?G = flat_ids (F s) - {oid}" using C(2,3) B(4) by simp
  have other: "u \<noteq> s \<Longrightarrow> oid \<notin> flat_ids (F u)" for u using keepsD(8) [OF k i, of u] by blast
  have o1: "((am_owner (rp_books R))(oid := None)) j = Some u \<longleftrightarrow> j \<in> flat_ids ((F(s := ?G)) u)" for j u
    using G other [of u] keepsD(3) [OF k, of j u] by (cases "u = s"; cases "j = oid") auto
  have "keeps V (F(s := ?G)) (with_books (\<lambda>_. am_forget oid (am_update s (snd (abs_cancel oid (book_at s (rp_books R)))) (rp_books R))) R)"
    by (rule keeps_set [OF k B(1) C(1)]) (simp_all add: o1 C(2) B(4) del: fun_upd_apply)
  then show ?thesis by (simp add: with_books_def)
qed

lemma keeps_insert:
  assumes k: "keeps V F R" and m: "map_of (am_books (rp_books R)) s = Some B" and v: "oid \<noteq> 0" "q \<noteq> 0" "V p"
    and fresh: "\<And>t. oid \<notin> flat_ids (F t)"
    and c: "\<And>st. st_unknown_reference (count st) = st_unknown_reference st" "\<And>st. st_clamped (count st) = st_clamped st"
      "\<And>st. st_skipped_symbol (count st) = st_skipped_symbol st"
  shows "keeps V (F(s := (F s)(side := enter side p \<lparr>en_id = oid, en_qty = q, en_owner = 0\<rparr> (F s side))))
    (abs_new_order V oid side p q count c s B R)"
proof -
  let ?G = "(F s)(side := enter side p \<lparr>en_id = oid, en_qty = q, en_owner = 0\<rparr> (F s side))"
  have b: "B = book_at s (rp_books R)" using m by (simp add: book_at_def am_book_def)
  note B = keepsD(1,2) [OF k, of s]
  obtain B' where B': "abs_insert_passive V oid side p q B = (Ok, B')" "abook_ok V B'" "flats B' = ?G" "flat_ids ?G = insert oid (flat_ids (F s))"
    using entered_book [OF B(1) v, of side] fresh [of s] unfolding b B(2) by metis
  have none: "am_owner (rp_books R) oid = None" using keepsD(3) [OF k] fresh by (metis not_None_eq)
  have o1: "((am_owner (rp_books R))(oid \<mapsto> s)) i = Some u \<longleftrightarrow> i \<in> flat_ids ((F(s := ?G)) u)" for i u
    using B'(4) fresh [of u] keepsD(3) [OF k, of i u] by (cases "u = s"; cases "i = oid") auto
  have "keeps V (F(s := ?G)) (with_books (\<lambda>_. am_note oid s (am_update s B' (rp_books R))) R)"
    by (rule keeps_set [OF k m B'(2,3)]) (simp_all add: o1 am_note_def none am_update_def del: fun_upd_apply)
  then show ?thesis unfolding abs_new_order_def B'(1) Let_def prod.case using c
    by (simp add: with_books_def bump_def observe_def keeps_def)
qed

subsection \<open>The events\<close>

lemma keeps_start: "keeps V F R \<Longrightarrow> keeps V F (bump (c_time ts) (bump (c_message n) R))"
  by simp

lemma keeps_executed:
  assumes "keeps V F R" and "(p, e) \<in> set (F s t)" "en_id e = oid" "q \<noteq> 0" "q \<le> en_qty e"
  shows "keeps V (F(s := (\<lambda>t. cut oid q (F s t)))) (feed_step V (ExecutedEv ts oid q m) R)"
    and "keeps V (F(s := (\<lambda>t. cut oid q (F s t)))) (feed_step V (ExecutedPriceEv ts oid q m pr price) R)"
    and "keeps V (F(s := (\<lambda>t. cut oid q (F s t)))) (feed_step V (CancelEv ts oid q) R)"
  unfolding feed_steps using keeps_take [OF keeps_start [OF assms(1)] assms(2-)] by simp_all

lemma keeps_deleted:
  assumes "keeps V F R" and "oid \<in> flat_ids (F s)"
  shows "keeps V (F(s := (\<lambda>t. without oid (F s t)))) (feed_step V (DeleteEv ts oid) R)"
proof -
  note k = keeps_start [OF assms(1), of "take_bit 48 ts" "type_length (event_type (DeleteEv ts oid))"]
  show ?thesis unfolding feed_steps abs_routed_def
    using keeps_book [OF k assms(2)] keeps_cancel [OF k assms(2)] by simp
qed

lemma keeps_added:
  assumes "keeps V F R" and "oid \<noteq> 0" and "q \<noteq> 0" and "V p" and "\<And>t. oid \<notin> flat_ids (F t)"
  shows "keeps V (F(s := (F s)(side := enter side p \<lparr>en_id = oid, en_qty = q, en_owner = 0\<rparr> (F s side)))) (feed_step V (AddEv ts oid side q s p) R)"
    and "keeps V (F(s := (F s)(side := enter side p \<lparr>en_id = oid, en_qty = q, en_owner = 0\<rparr> (F s side)))) (feed_step V (AddMpidEv ts oid side q s p mpid) R)"
proof -
  have add: "keeps V (F(s := (F s)(side := enter side p \<lparr>en_id = oid, en_qty = q, en_owner = 0\<rparr> (F s side))))
    (abs_new_order V oid side p q count c s B (with_books (\<lambda>_. M) A))"
    if k: "keeps V F A" and B: "am_book s (rp_books A) = (B, M)" and c: "count = c_add q" for A B M count c
  proof -
    have M: "map_of (am_books M) s = Some B" "am_owner M = am_owner (rp_books A)" "book_at t M = book_at t (rp_books A)" for t
      using B by (auto simp: am_book_def book_at_def map_add_def split: option.splits if_splits)
    moreover have "distinct (map fst (am_books M))"
      using B keepsD(9) [OF k] by (auto simp: am_book_def map_of_eq_None_iff split: option.splits)
    ultimately have "keeps V F (with_books (\<lambda>_. M) A)" using k by (simp add: keeps_def with_books_def)
    moreover have "map_of (am_books (rp_books (with_books (\<lambda>_. M) A))) s = Some B" using M(1) by simp
    ultimately show ?thesis by (rule keeps_insert) (use assms(2-5) c in simp_all)
  qed
  have go: "keeps V (F(s := (F s)(side := enter side p \<lparr>en_id = oid, en_qty = q, en_owner = 0\<rparr> (F s side))))
      (abs_feed V (FeedAdd \<lparr>ao_timestamp = ts, ao_reference = oid, ao_side = side, ao_shares = q, ao_symbol = s, ao_price = p\<rparr>)
        (bump (c_message n) R))" for ts n
    using add [OF keeps_start [OF assms(1)], of ts n] keepsD(4) [OF assms(1)]
    by (simp add: tracked_def Let_def split: prod.split)
  show "keeps V (F(s := (F s)(side := enter side p \<lparr>en_id = oid, en_qty = q, en_owner = 0\<rparr> (F s side)))) (feed_step V (AddEv ts oid side q s p) R)"
    "keeps V (F(s := (F s)(side := enter side p \<lparr>en_id = oid, en_qty = q, en_owner = 0\<rparr> (F s side)))) (feed_step V (AddMpidEv ts oid side q s p mpid) R)"
    unfolding feed_step_def feed_of.simps by (rule go)+
qed

lemma keeps_replaced:
  assumes k: "keeps V F R" and e: "(p0, e) \<in> set (F s side)" "en_id e = oid" and v: "fresh \<noteq> 0" "q \<noteq> 0" "V p" "\<And>t. fresh \<notin> flat_ids (F t)"
  shows "keeps V (F(s := (\<lambda>t. without oid (F s t))(side := enter side p \<lparr>en_id = fresh, en_qty = q, en_owner = 0\<rparr> (without oid (F s side)))))
    (feed_step V (ReplaceEv ts oid fresh q p) R)"
proof -
  have i: "oid \<in> flat_ids (F s)" using e by (auto simp: flat_ids_iff)
  let ?R = "bump (c_time (take_bit 48 ts)) (bump (c_message (type_length (event_type (ReplaceEv ts oid fresh q p)))) R)"
  let ?B = "book_at s (rp_books R)"
  let ?A = "with_books (am_forget oid) (with_books (am_update s (snd (abs_cancel oid ?B))) ?R)"
  note k1 = keeps_start [OF k, of "take_bit 48 ts" "type_length (event_type (ReplaceEv ts oid fresh q p))"]
  note B = keeps_book [OF k i] keepsD(1,2) [OF k, of s]
  have c: "keeps V (F(s := (\<lambda>t. without oid (F s t)))) ?A" using keeps_cancel [OF k1 i] by simp
  have f: "abs_find oid ?B = Some (side, p0, e)" using find_flats(2) [OF B(3), of p0 e side] e B(4) by simp
  have m: "map_of (am_books (rp_books ?A)) s = Some (snd (abs_cancel oid ?B))" using B(1) by simp
  have n: "fresh \<notin> flat_ids ((F(s := (\<lambda>t. without oid (F s t)))) t)" for t
    using v(4) [of t] v(4) [of s] by (auto simp: flat_ids_def without_def)
  have "keeps V (F(s := (\<lambda>t. without oid (F s t))(side := enter side p \<lparr>en_id = fresh, en_qty = q, en_owner = 0\<rparr> (without oid (F s side)))))
      (abs_new_order V fresh side p q (c_shares_added q) c s (snd (abs_cancel oid ?B)) ?A)" for c
    using keeps_insert [OF c m v(1-3) n, of "c_shares_added q" side c] unfolding fun_upd_same fun_upd_upd by simp
  then show ?thesis unfolding feed_steps using B(1,2) f by (simp add: abs_routed_def Let_def)
qed

lemma keeps_quiet:
  assumes "keeps V F R"
  shows "keeps V F (feed_step V (TradeEv ts ref s q stock p m) R)" and "keeps V F (feed_step V (SystemEv ts c) R)"
    and "keeps V F (feed_step V (DirectoryEv ts stock c) R)"
  unfolding feed_step_def feed_of.simps abs_feed.simps using assms by simp_all

end
