(* ===== verification/ReplayCheck.thy ===== *)
theory ReplayCheck
  imports ReplayProperties
begin

text \<open>
  The command-line replay (\<^verbatim>\<open>tools/replay_itch.cpp\<close>): a file is replayed, its messages are counted by the
  minute, and every book is checked before the exit code is chosen.  Printing is left out.
\<close>

subsection \<open>The checks\<close>

text \<open>\<^verbatim>\<open>resting += lvl.total_qty\<close> over both sides.\<close>

definition book_resting :: "('l, 'm) policy \<Rightarrow> ('l, 'm) OrderBook \<Rightarrow> u64 option" where
  "book_resting P b = do {
     bids \<leftarrow> pol_visit P Bid (bk_ladder b);
     asks \<leftarrow> pol_visit P Ask (bk_ladder b);
     Some (fold (\<lambda>lv total_qty. total_qty + lvl_total_qty lv) (bids @ asks) 0) }"

text \<open>What the visitor does for one book: its failures and its resting shares.\<close>

definition check_book :: "('l, 'm) policy \<Rightarrow> ('l, 'm) OrderBook \<Rightarrow> (int \<times> u64) option" where
  "check_book P b = do {
     bid \<leftarrow> best_level P Bid b;
     ask \<leftarrow> best_level P Ask b;
     let failures = (case (bid, ask) of
         (Some x, Some y) \<Rightarrow> if lvl_price x \<ge> lvl_price y then 1 else 0
       | _ \<Rightarrow> 0);
     resting \<leftarrow> book_resting P b;
     let c = bk_counters b;
     let failures = (if added_qty c \<noteq> executed_qty c + canceled_qty c + 2 * traded_qty c + resting
                     then failures + 1 else failures);
     Some (failures, resting) }"

text \<open>The failures of all books, and the rows of the report.\<close>

fun check_and_report :: "('l, 'm) policy \<Rightarrow> (Symbol \<times> ('l, 'm) OrderBook) list \<Rightarrow> (int \<times> (Symbol \<times> u64) list) option" where
  "check_and_report P [] = Some (0, [])"
| "check_and_report P ((s, b) # bs) = do {
     (f, resting) \<leftarrow> check_book P b;
     (fs, rows) \<leftarrow> check_and_report P bs;
     Some (f + fs, (s, resting) # rows) }"

subsection \<open>The run\<close>

record Options =
  opt_symbols :: "Symbol list"
  opt_dense :: bool
  opt_pooled :: bool
  opt_minute_profile :: bool
  opt_use_mmap :: bool

definition options_default :: Options where
  "options_default = \<lparr>opt_symbols = [], opt_dense = False, opt_pooled = False, opt_minute_profile = False, opt_use_mmap = False\<rparr>"

text \<open>\<^verbatim>\<open>on_message\<close>; \<open>pm\<close> is \<^verbatim>\<open>per_minute\<close>.\<close>

definition on_message :: "('l, 'm) policy \<Rightarrow> 'l \<Rightarrow> bool \<Rightarrow> (('l, 'm) MultiBook Replayer \<times> u64 list) handler" where
  "on_message P l profile msg len = (\<lambda>(R, pm). do {
     R \<leftarrow> replay_apply P l msg len R;
     let minute = unat (st_last_timestamp (rp_stats R) div 60000000000);
     Some (R, if profile \<and> minute < length pm then pm[minute := pm ! minute + 1] else pm) })"

text \<open>An empty file cannot be mapped (\<^verbatim>\<open>MmapFile::open\<close>), but it can be streamed.\<close>

definition replay_input ::
  "('l, 'm) policy \<Rightarrow> 'l \<Rightarrow> Options \<Rightarrow> bytes \<Rightarrow> ('l, 'm) MultiBook
    \<Rightarrow> (ReadResult \<times> ('l, 'm) MultiBook Replayer \<times> u64 list) option" where
  "replay_input P l opt1 data books =
     (let rep = replayer_new books;
          rep = (if opt_symbols opt1 \<noteq> [] then track_only (opt_symbols opt1) rep else rep);
          st = (rep, replicate (24 * 60) 0)
      in if opt_use_mmap opt1 then for_each_framed_message data (on_message P l (opt_minute_profile opt1)) st
         else for_each_framed_stream (Some data) (on_message P l (opt_minute_profile opt1)) (32 * 2 ^ 20) st)"

definition replay_run :: "('l, 'm) policy \<Rightarrow> 'l \<Rightarrow> Options \<Rightarrow> bytes \<Rightarrow> int option" where
  "replay_run P l opt1 data =
     (if opt_use_mmap opt1 \<and> data = [] then Some 2
      else do {
        books \<leftarrow> mb_new;
        (r, rep, pm) \<leftarrow> replay_input P l opt1 data books;
        (failures, rows) \<leftarrow> check_and_report P (mb_books (rp_books rep));
        Some (if read_ok r \<and> failures = 0 then 0 else 1) })"

text \<open>\<^verbatim>\<open>main\<close> behind its argument parser; a file that cannot be opened is \<^term>\<open>None\<close>.\<close>

definition replay_main :: "Options \<Rightarrow> bytes option \<Rightarrow> int option" where
  "replay_main opt1 file1 =
     (case file1 of
        None \<Rightarrow> Some 2
      | Some data \<Rightarrow>
          if opt_dense opt1 then replay_run dense_open_policy (dl_new 0 2000000) opt1 data
          else if opt_pooled opt1 then replay_run pooled_open_policy pm_new opt1 data
          else replay_run map_open_policy ml_new opt1 data)"

subsection \<open>The intraday profile\<close>

record minute_report =
  mr_peak :: u64
  mr_peak_min :: nat
  mr_total :: u64

definition minute_scan :: "u64 list \<Rightarrow> minute_report" where
  "minute_scan pm = fold (\<lambda>i mr.
     let mr = mr\<lparr>mr_total := mr_total mr + pm ! i\<rparr>
     in if pm ! i > mr_peak mr then mr\<lparr>mr_peak := pm ! i, mr_peak_min := i\<rparr> else mr)
     [0..<length pm] \<lparr>mr_peak = 1, mr_peak_min = 0, mr_total = 0\<rparr>"

text \<open>The five-minute buckets, and the length of the bar of one of them.\<close>

function minute_buckets :: "u64 list \<Rightarrow> nat \<Rightarrow> u64 list" where
  "minute_buckets pm b =
     (if b + 5 \<le> length pm then fold (\<lambda>j bucket. bucket + pm ! j) [b..<b + 5] 0 # minute_buckets pm (b + 5) else [])"
  by pat_completeness auto
termination by (relation "measure (\<lambda>(pm, b). length pm - b)") auto

declare minute_buckets.simps [simp del]

definition minute_bars :: "u64 \<Rightarrow> u64 \<Rightarrow> u64" where
  "minute_bars peak bucket = bucket * 60 div (peak * 5)"

subsection \<open>What the checks find\<close>

lemma fold_sum: "fold (\<lambda>x acc. acc + f x) xs a = a + (\<Sum>x\<leftarrow>xs. f x)" for f :: "'a \<Rightarrow> u64"
  by (induction xs arbitrary: a) (simp_all add: ac_simps)

context book_policies begin

lemma visit_qty:
  assumes r: "refines V b A" and small: "size_of b < 2 ^ 32"
  shows "\<exists>lvls. pol_visit P s (bk_ladder b) = Some lvls \<and> (\<Sum>lv\<leftarrow>lvls. lvl_total_qty lv) = levels_qty (ab_levels A s)"
proof -
  obtain G where G: "settled b G" "ab_levels A = levels_of b G" using r by (auto simp: refines_def)
  have "(\<Sum>lv\<leftarrow>map snd lvs. lvl_total_qty lv) = levels_qty (map (\<lambda>(p, _). (p, map (entry_at (bk_heap b)) (G s p))) lvs)"
    if "set lvs \<subseteq> set (levels (bk_ladder b) s)" for lvs
    using that
  proof (induction lvs)
    case (Cons l lvs)
    then show ?case using settled_level(3) [OF G(1) small, of "fst l" "snd l" s] by (cases l) simp
  qed simp
  then show ?thesis
    using lad.visit_law [OF settledD(1) [OF G(1)], of s] G(2) by (simp add: levels_of_def view_def)
qed

lemma book_resting_sim:
  assumes "refines V b A" and "size_of b < 2 ^ 32"
  shows "book_resting P b = Some (levels_qty (ab_levels A Bid) + levels_qty (ab_levels A Ask))"
  using visit_qty [OF assms, of Bid] visit_qty [OF assms, of Ask] by (auto simp: book_resting_def fold_sum)

end

text \<open>A book whose best bid reaches its best ask.\<close>

definition crossed :: "('l, 'm) policy \<Rightarrow> ('l, 'm) OrderBook \<Rightarrow> bool" where
  "crossed P b \<longleftrightarrow> (case (resting P Bid b, resting P Ask b) of
     (Some (bid # _), Some (ask # _)) \<Rightarrow> fst ask \<le> fst bid
   | _ \<Rightarrow> False)"

lemma flat_first: "abook_ok V A \<Longrightarrow> ab_levels A s = (p, es) # ls \<Longrightarrow> \<exists>e fs. flat (ab_levels A s) = (p, e) # fs"
proof -
  assume "abook_ok V A" "ab_levels A s = (p, es) # ls"
  then have "es \<noteq> []" by (metis abook_okD(3) list.set_intros(1))
  then show ?thesis using \<open>ab_levels A s = (p, es) # ls\<close> by (cases es) auto
qed

lemma check_book_sim:
  assumes i: "implements P V b A" and bal: "balanced A"
  shows "\<exists>q. check_book P b = Some (if crossed P b then 1 else 0, q)"
proof -
  obtain linv levels window minv lookup where L: "book_policies P linv levels window minv lookup"
    and r: "book_policies.refines P linv levels minv lookup V b A" and z: "pol_size P (bk_orders b) < 2 ^ 32"
    using i unfolding implements_def by blast
  note D = implementsD [OF i]
  obtain bid where bid: "best_level P Bid b = Some bid" "case ab_levels A Bid of [] \<Rightarrow> bid = None
      | (p, es) # _ \<Rightarrow> \<exists>lv. bid = Some lv \<and> lvl_price lv = p \<and> lvl_total_qty lv = queue_qty es \<and> lvl_order_count lv = of_nat (length es)"
    using D(9) [of Bid] by blast
  obtain ask where ask: "best_level P Ask b = Some ask" "case ab_levels A Ask of [] \<Rightarrow> ask = None
      | (p, es) # _ \<Rightarrow> \<exists>lv. ask = Some lv \<and> lvl_price lv = p \<and> lvl_total_qty lv = queue_qty es \<and> lvl_order_count lv = of_nat (length es)"
    using D(9) [of Ask] by blast
  have "(case (bid, ask) of (Some x, Some y) \<Rightarrow> if lvl_price x \<ge> lvl_price y then 1 else 0 | _ \<Rightarrow> (0 :: int))
      = (if crossed P b then 1 else 0)"
  proof (cases "ab_levels A Bid = [] \<or> ab_levels A Ask = []")
    case True
    then show ?thesis using bid(2) ask(2) D(3) by (auto simp: crossed_def split: option.splits list.splits)
  next
    case False
    then obtain p es ls q ks ms where l: "ab_levels A Bid = (p, es) # ls" "ab_levels A Ask = (q, ks) # ms"
      by (metis list.exhaust surj_pair)
    obtain e fs k gs where "flat (ab_levels A Bid) = (p, e) # fs" "flat (ab_levels A Ask) = (q, k) # gs"
      using flat_first [OF D(8)] l by blast
    then show ?thesis using bid(2) ask(2) l D(3) by (auto simp: crossed_def)
  qed
  moreover have "added_qty (bk_counters b) = executed_qty (bk_counters b) + canceled_qty (bk_counters b) + 2 * traded_qty (bk_counters b)
      + (levels_qty (ab_levels A Bid) + levels_qty (ab_levels A Ask))"
    using bal D(5) by (simp add: balanced_def accounted_def algebra_simps)
  ultimately show ?thesis
    using bid(1) ask(1) book_policies.book_resting_sim [OF L r z] by (simp add: check_book_def Let_def)
qed

lemma check_and_report_sim:
  assumes "books_sim P V n bs As" and "\<forall>(s, A) \<in> set As. balanced A"
  shows "\<exists>rows. check_and_report P bs = Some (int (length (filter (\<lambda>(s, b). crossed P b) bs)), rows) \<and> map fst rows = map fst bs"
  using assms unfolding books_sim_def
proof (induction bs As rule: list_all2_induct)
  case (Cons x bs y As)
  obtain s b t B where x: "x = (s, b)" "y = (t, B)" by force
  then have "implements P V b B" "balanced B" using Cons.hyps Cons.prems by auto
  then obtain q where "check_book P b = Some (if crossed P b then 1 else 0, q)" using check_book_sim by blast
  then show ?case using x Cons by auto
qed simp

subsection \<open>The profile\<close>

definition minute_pass :: "u64 list \<Rightarrow> nat \<Rightarrow> minute_report" where
  "minute_pass pm n = fold (\<lambda>i mr.
     let mr = mr\<lparr>mr_total := mr_total mr + pm ! i\<rparr>
     in if pm ! i > mr_peak mr then mr\<lparr>mr_peak := pm ! i, mr_peak_min := i\<rparr> else mr)
     [0..<n] \<lparr>mr_peak = 1, mr_peak_min = 0, mr_total = 0\<rparr>"

lemma minute_pass_Suc: "minute_pass pm (Suc n) =
    (let mr = (minute_pass pm n)\<lparr>mr_total := mr_total (minute_pass pm n) + pm ! n\<rparr>
     in if pm ! n > mr_peak mr then mr\<lparr>mr_peak := pm ! n, mr_peak_min := n\<rparr> else mr)"
  by (simp add: minute_pass_def)

lemma minute_pass_facts:
  "n \<le> length pm \<Longrightarrow> mr_total (minute_pass pm n) = (\<Sum>x\<leftarrow>take n pm. x)
    \<and> (\<forall>i < n. pm ! i \<le> mr_peak (minute_pass pm n)) \<and> 1 \<le> mr_peak (minute_pass pm n)
    \<and> mr_peak (minute_pass pm n) \<in> insert 1 (set pm)"
proof (induction n)
  case (Suc n)
  then show ?case
    by (auto simp: minute_pass_Suc Let_def take_Suc_conv_app_nth less_Suc_eq intro: order_trans less_imp_le)
qed (simp add: minute_pass_def)

lemma minute_scan_facts:
  "mr_total (minute_scan pm) = (\<Sum>x\<leftarrow>pm. x)" "x \<in> set pm \<Longrightarrow> x \<le> mr_peak (minute_scan pm)"
  "1 \<le> mr_peak (minute_scan pm)" "mr_peak (minute_scan pm) \<in> insert 1 (set pm)"
proof -
  have "minute_scan pm = minute_pass pm (length pm)" by (simp add: minute_scan_def minute_pass_def)
  then show "mr_total (minute_scan pm) = (\<Sum>x\<leftarrow>pm. x)" "x \<in> set pm \<Longrightarrow> x \<le> mr_peak (minute_scan pm)"
    "1 \<le> mr_peak (minute_scan pm)" "mr_peak (minute_scan pm) \<in> insert 1 (set pm)"
    using minute_pass_facts [of "length pm" pm] by (auto simp: in_set_conv_nth)
qed

lemma unat_sum_small: "sum_list (map unat xs) < 2 ^ 64 \<Longrightarrow> unat (sum_list xs :: u64) = sum_list (map unat xs)"
proof (induction xs)
  case (Cons x xs)
  then have "unat (sum_list xs) = sum_list (map unat xs)" by simp
  then show ?case using Cons.prems by (simp add: unat_word_ariths)
qed simp

lemma minute_buckets_member:
  assumes "x \<in> set (minute_buckets pm b)"
  shows "\<exists>c. c + 5 \<le> length pm \<and> x = sum_list (take 5 (drop c pm))"
  using assms
proof (induction pm b rule: minute_buckets.induct)
  case (1 pm b)
  have "fold (\<lambda>j bucket. bucket + pm ! j) [b..<b + 5] 0 = sum_list (take 5 (drop b pm))" if "b + 5 \<le> length pm"
  proof -
    have "map (\<lambda>j. pm ! j) [b..<b + 5] = take 5 (drop b pm)" using that by (intro nth_equalityI) auto
    then show ?thesis unfolding fold_sum by simp
  qed
  then show ?case using 1 by (subst (asm) minute_buckets.simps) (auto split: if_splits)
qed

lemma unat_mult_small: "unat x < 2 ^ 50 \<Longrightarrow> unat y < 2 ^ 10 \<Longrightarrow> unat (x * y) = unat x * unat y" for x y :: u64
proof -
  assume "unat x < 2 ^ 50" "unat y < 2 ^ 10"
  then have "unat x * unat y < 2 ^ 50 * 2 ^ 10" by (intro mult_strict_mono) auto
  then show ?thesis by (simp add: unat_word_ariths)
qed

lemma sum_unat_le: "(\<And>x. x \<in> set xs \<Longrightarrow> x \<le> p) \<Longrightarrow> sum_list (map unat xs) \<le> length xs * unat p" for p :: u64
proof (induction xs)
  case (Cons x xs)
  then have "unat x \<le> unat p" by (simp add: word_le_nat_alt)
  then show ?case using Cons by fastforce
qed simp

text \<open>No bar is longer than 60 characters.\<close>

lemma minute_bars_short:
  assumes small: "sum_list (map unat pm) < 2 ^ 50" and x: "x \<in> set (minute_buckets pm 0)"
  shows "minute_bars (mr_peak (minute_scan pm)) x \<le> 60"
proof -
  obtain c where c: "c + 5 \<le> length pm" "x = sum_list (take 5 (drop c pm))" using minute_buckets_member [OF x] by blast
  let ?ys = "take 5 (drop c pm)" and ?peak = "mr_peak (minute_scan pm)"
  have "x \<le> ?peak" if "x \<in> set ?ys" for x using that minute_scan_facts(2) by (meson in_set_dropD in_set_takeD)
  then have le: "sum_list (map unat ?ys) \<le> 5 * unat ?peak"
    using sum_unat_le [of ?ys ?peak] c(1) by simp
  have "sum_list (map unat (drop c pm)) \<le> sum_list (map unat pm)" "sum_list (map unat ?ys) \<le> sum_list (map unat (drop c pm))"
    by (metis append_take_drop_id map_append sum_list_append le_add2, metis append_take_drop_id map_append sum_list_append le_add1)
  then have y: "sum_list (map unat ?ys) < 2 ^ 50" using small by simp
  have ux: "unat x = sum_list (map unat ?ys)" using unat_sum_small [of ?ys] y c(2) by simp
  have "unat z \<le> sum_list (map unat pm)" if "z \<in> set pm" for z using that by (intro member_le_sum_list) auto
  then have mem: "unat z < 2 ^ 50" if "z \<in> insert 1 (set pm)" for z using that small le_less_trans by fastforce
  have pk: "unat ?peak < 2 ^ 50" by (rule mem [OF minute_scan_facts(4)])
  have pk1: "1 \<le> unat ?peak" using minute_scan_facts(3) [of pm] by (simp add: word_le_nat_alt)
  have ux': "unat x < 2 ^ 50" unfolding ux by (rule y)
  have m: "unat (60 :: u64) = 60" "unat (5 :: u64) = 5" by simp_all
  have "unat (x * 60) = unat x * 60" "unat (?peak * 5) = unat ?peak * 5"
    using unat_mult_small [OF ux', of 60] unat_mult_small [OF pk, of 5] unfolding m by auto
  moreover have "unat x * 60 div (unat ?peak * 5) \<le> 60"
  proof -
    have "unat x * 60 \<le> 60 * (unat ?peak * 5)" using le ux by linarith
    then have "unat x * 60 div (unat ?peak * 5) \<le> 60 * (unat ?peak * 5) div (unat ?peak * 5)" by (rule div_le_mono)
    then show ?thesis using pk1 by simp
  qed
  ultimately show ?thesis by (simp add: minute_bars_def word_le_nat_alt unat_div)
qed

subsection \<open>The run\<close>

text \<open>What is true after \<open>k\<close> messages.\<close>

definition counted :: "('l, 'm) policy \<Rightarrow> 'l \<Rightarrow> nat \<Rightarrow> ('l, 'm) MultiBook Replayer \<times> u64 list \<Rightarrow> ('l, 'm) MultiBook Replayer \<Rightarrow> bool" where
  "counted P l k = (\<lambda>(R, pm) R'. R' = R \<and> length pm = 1440 \<and> sum_list (map unat pm) \<le> k
     \<and> unat (st_messages (rp_stats R)) = k \<and> (\<exists>A. replayed P l k R A \<and> tally A))"

lemma messages_counts [simp]:
  "st_messages (c_time ts st) = st_messages st" "st_messages (c_unknown st) = st_messages st"
  "st_messages (c_skipped st) = st_messages st" "st_messages (c_add q st) = st_messages st"
  "st_messages (c_clamp x y st) = st_messages st" "st_messages (c_execution q st) = st_messages st"
  "st_messages (c_cancel st) = st_messages st" "st_messages (c_delete st) = st_messages st"
  "st_messages (c_replace st) = st_messages st" "st_messages (c_shares_added q st) = st_messages st"
  "st_messages (c_trade st) = st_messages st" "st_messages (c_session c st) = st_messages st"
  by (simp_all add: c_time_def c_unknown_def c_skipped_def c_add_def c_clamp_def c_execution_def c_cancel_def c_delete_def
    c_replace_def c_shares_added_def c_trade_def c_session_def)

lemma messages_feed: "st_messages (rp_stats (abs_feed V m A)) = st_messages (rp_stats A)"
  by (cases m) (auto simp: abs_routed_def abs_take_def abs_new_order_def Let_def split: option.split prod.split)

lemma counted_step:
  assumes "lawful P l" and "message_ok msg" and "counted P l k (R, pm) R0" and "k < 2 ^ 30"
  shows "\<exists>st' R'. on_message P l profile msg (length msg) (R, pm) = Some st' \<and> replay_apply P l msg (length msg) R0 = Some R'
    \<and> counted P l (Suc k) st' R'"
proof -
  have c: "R0 = R" "length pm = 1440" "sum_list (map unat pm) \<le> k" "unat (st_messages (rp_stats R)) = k"
    using assms(3) by (simp_all add: counted_def)
  obtain A where A: "replayed P l k R A" "tally A" using assms(3) by (auto simp: counted_def)
  obtain R' A' where R': "replay_apply P l msg (length msg) R = Some R'" "abs_apply (pol_valid_price P l) msg (length msg) A = Some A'"
    "replayed P l (Suc k) R' A'" using replay_message [OF assms(1,2) A(1) assms(4)] by blast
  have o1: "owners_ok (rp_books A)" "books_ok (pol_valid_price P l) (rp_books A)"
    using A(1) multi_sim_books_ok [OF rp_simD, of P l "3 * k" R A] by (auto simp: replayed_def)
  then have "tally A'" using R'(2) tally_feed [OF A(2) o1] by (auto simp: abs_apply_def split: bind_splits)
  moreover have "st_messages (rp_stats R') = st_messages (rp_stats R) + 1"
    using R'(2,3) A(1) messages_feed by (auto simp: replayed_def rp_sim_def abs_apply_def c_message_def split: bind_splits)
  then have "unat (st_messages (rp_stats R')) = Suc k" using c(4) assms(4) by (simp add: unat_word_ariths)
  moreover define m where "m = unat (st_last_timestamp (rp_stats R') div 60000000000)"
  have "sum_list (map unat (pm[m := pm ! m + 1])) \<le> Suc k" if "m < length pm"
  proof -
    have "unat (pm ! m) \<le> k" using member_le_sum_list [of "unat (pm ! m)" "map unat pm"] that c(3) by auto
    then have "unat (pm ! m + 1) = unat (pm ! m) + 1" using assms(4) by (simp add: unat_word_ariths)
    then have "sum_list ((map unat pm)[m := unat (pm ! m) + 1]) = sum_list (map unat pm) + 1"
      using that by (simp add: sum_list_update)
    then show ?thesis using c(3) \<open>unat (pm ! m + 1) = unat (pm ! m) + 1\<close> by (simp add: map_update)
  qed
  ultimately show ?thesis
    using R' c by (auto simp: on_message_def counted_def Let_def m_def [symmetric])
qed

text \<open>Both ways of reading give the replay of the file, and a profile that counts no message twice.\<close>

lemma replay_input_sim:
  assumes "lawful P l" and "length data < 2 ^ 30" and "opt_use_mmap opt1 \<or> small_frames data"
  shows "\<exists>books r R pm. mb_new = Some books \<and> replay_input P l opt1 data books = Some (r, R, pm)
    \<and> replay_file P l (opt_symbols opt1) data = Some (r, R) \<and> length pm = 1440
    \<and> sum_list (map unat pm) \<le> unat (st_messages (rp_stats R)) \<and> unat (st_messages (rp_stats R)) < 2 ^ 30
    \<and> (\<exists>As n. books_sim P (pol_valid_price P l) n (mb_books (rp_books R)) As \<and> (\<forall>(s, A) \<in> set As. balanced A))"
proof -
  let ?ss = "opt_symbols opt1" and ?h = "on_message P l (opt_minute_profile opt1)"
  obtain M where M: "mb_new = Some M" "multi_sim P l 0 M amulti_new" using mb_new_sim [of P l] by auto
  define R0 where "R0 = track_only ?ss (replayer_new M)"
  have R0: "(if ?ss \<noteq> [] then track_only ?ss (replayer_new M) else replayer_new M) = R0"
    by (simp add: R0_def track_only_def replayer_new_def)
  have start: "counted P l 0 (R0, replicate 1440 0) R0"
    using M(2) by (auto simp: counted_def R0_def replayed_def rp_sim_def track_only_def replayer_new_def owners_ok_def amulti_new_def
        tally_def stats_zero_def sum_books_def sum_list_replicate intro!: exI [of _ "track_only ?ss (replayer_new amulti_new)"])
  have "\<exists>s' t'. ?h m (length m) s = Some s' \<and> replay_apply P l m (length m) t = Some t' \<and> counted P l (Suc k) s' t'"
    if "message_ok m" "counted P l k s t" "k < 2 ^ 30" for m s t k
    using counted_step [OF assms(1) that(1) _ that(3), of "fst s" "snd s" t "opt_minute_profile opt1"] that(2) by simp
  from framed_sim [of "counted P l" "2 ^ 30" ?h "replay_apply P l", OF this start, of data read_result_default] assms(2)
  obtain r st R k where w: "for_each_framed_message data ?h (R0, replicate 1440 0) = Some (r, st)"
    "for_each_framed_message data (replay_apply P l) R0 = Some (r, R)" "counted P l k st R" "k \<le> length data"
    by (auto simp: for_each_framed_message_def)
  obtain pm where st: "st = (R, pm)" using w(3) by (cases st) (simp add: counted_def)
  obtain A where A: "replayed P l k R A" "tally A" using w(3) by (auto simp: counted_def st)
  have "books_sim P (pol_valid_price P l) (3 * k) (mb_books (rp_books R)) (am_books (rp_books A))"
    using A(1) rp_simD [of P l "3 * k" R A] by (simp add: replayed_def multi_sim_def)
  moreover have "\<forall>(s, B) \<in> set (am_books (rp_books A)). balanced B" using A(2) by (auto simp: tally_def)
  moreover have "replay_input P l opt1 data M = Some (r, R, pm)"
    using w(1) st assms(3) stream_whole [of "32 * 2 ^ 20" data ?h] by (auto simp: replay_input_def R0 Let_def)
  moreover have "replay_file P l ?ss data = Some (r, R)" using w(2) by (simp add: replay_file_def M(1) R0_def)
  ultimately show ?thesis using w(3,4) assms(2) M(1) by (auto simp: counted_def st intro!: exI [of _ M])
qed

text \<open>C25: Replaying a file of fewer than 2 to the 30 bytes, mapped or (when no prefix announces more than 62 bytes) streamed, the tool never reports a violation of conservation: the failures it counts are exactly the books whose best bid reaches their best ask, and the exit code is 0 exactly when every byte was read as a complete message and there is no such book. The intraday profile counts no message twice and has no bar longer than 60 characters.\<close>

theorem replay_check_exact:
  assumes "lawful P l" and "length data < 2 ^ 30" and "opt_use_mmap opt1 \<or> small_frames data" and "data \<noteq> [] \<or> \<not> opt_use_mmap opt1"
  shows "\<exists>books r R pm rows. mb_new = Some books \<and> replay_input P l opt1 data books = Some (r, R, pm)
    \<and> replay_file P l (opt_symbols opt1) data = Some (r, R)
    \<and> check_and_report P (mb_books (rp_books R)) = Some (int (length (filter (\<lambda>(s, b). crossed P b) (mb_books (rp_books R)))), rows)
    \<and> replay_run P l opt1 data = Some (if read_ok r \<and> filter (\<lambda>(s, b). crossed P b) (mb_books (rp_books R)) = [] then 0 else 1)
    \<and> sum_list (map unat pm) \<le> unat (st_messages (rp_stats R)) \<and> unat (mr_total (minute_scan pm)) = sum_list (map unat pm)
    \<and> filter (\<lambda>bucket. minute_bars (mr_peak (minute_scan pm)) bucket > 60) (minute_buckets pm 0) = []"
proof -
  obtain books r R pm As n where w: "mb_new = Some books" "replay_input P l opt1 data books = Some (r, R, pm)"
    "replay_file P l (opt_symbols opt1) data = Some (r, R)" "sum_list (map unat pm) \<le> unat (st_messages (rp_stats R))"
    "unat (st_messages (rp_stats R)) < 2 ^ 30" and sim: "books_sim P (pol_valid_price P l) n (mb_books (rp_books R)) As" "\<forall>(s, A) \<in> set As. balanced A"
    using replay_input_sim [OF assms(1-3)] by blast
  obtain rows where rows: "check_and_report P (mb_books (rp_books R))
      = Some (int (length (filter (\<lambda>(s, b). crossed P b) (mb_books (rp_books R)))), rows)"
    using check_and_report_sim [OF sim] by blast
  have run: "replay_run P l opt1 data = Some (if read_ok r \<and> filter (\<lambda>(s, b). crossed P b) (mb_books (rp_books R)) = [] then 0 else 1)"
    using assms(4) by (auto simp: replay_run_def w(1,2) rows)
  have small: "sum_list (map unat pm) < 2 ^ 50" using w(4,5) by simp
  then have "unat (mr_total (minute_scan pm)) = sum_list (map unat pm)"
    using unat_sum_small [of pm] by (simp add: minute_scan_facts(1))
  moreover have "filter (\<lambda>bucket. minute_bars (mr_peak (minute_scan pm)) bucket > 60) (minute_buckets pm 0) = []"
    using minute_bars_short [OF small] by (simp add: filter_empty_conv not_less)
  ultimately show ?thesis using w rows run by blast
qed

theorem replay_check_exact_witness:
  "\<exists>books r R pm. mb_new = Some books
    \<and> replay_input map_open_policy ml_new (options_default\<lparr>opt_use_mmap := True\<rparr>) [0, 19, 68, 1] books = Some (r, R, pm)
    \<and> replay_run map_open_policy ml_new (options_default\<lparr>opt_use_mmap := True\<rparr>) [0, 19, 68, 1] = Some 1"
proof -
  have "replay_file map_open_policy ml_new [] [0, 19, 68, 1] = Some (r, R) \<Longrightarrow> \<not> read_ok r" for r R
    by (auto simp: replay_file_def for_each_framed_message_def read_ok_def framed_loop.simps [of "[0, 19, 68, 1]"]
      read_simps be16_def rd_def split: bind_splits)
  moreover have "length [0, 19, 68, 1 :: u8] < 2 ^ 30" by simp
  ultimately show ?thesis
    using replay_check_exact [OF lawful_policies(2), of "[0, 19, 68, 1]" "options_default\<lparr>opt_use_mmap := True\<rparr>"]
    by (auto simp: options_default_def)
qed

end
