(* ===== verification/Swaps.thy ===== *)
theory Swaps
  imports Prelude "HOL-Library.Multiset"
begin

text \<open>Removing an element of a vector by overwriting it with the last one, as the tools do.  Nothing here models code.\<close>

lemma mset_drop_swapped: "j < length xs \<Longrightarrow> mset xs = add_mset (xs ! j) (mset (butlast (xs[j := last xs])))"
proof -
  assume i: "j < length xs"
  let ?ys = "xs[j := last xs]"
  have "xs \<noteq> []" using i by auto
  then have "?ys \<noteq> []" "last ?ys = last xs" using i by (simp_all add: last_list_update)
  then have "mset ?ys = add_mset (last xs) (mset (butlast ?ys))"
    by (metis append_butlast_last_id mset.simps union_mset_add_mset_right add_0_right mset_append)
  moreover have "mset ?ys = add_mset (last xs) (mset xs - {#xs ! j#})" using i by (simp add: mset_update)
  moreover have "add_mset (xs ! j) (mset xs - {#xs ! j#}) = mset xs" using i by (intro insert_DiffM) simp
  ultimately show ?thesis by simp
qed

end
