(* ===== verification/GenRun.thy ===== *)
theory GenRun
  imports GenFeed ReplayCheck Swaps
begin

text \<open>
  What the generator writes, replayed: its list of live orders is the content of the books at every moment, so every
  message finds its order, nothing is clamped, and no book is crossed when the tickers differ.
\<close>

subsection \<open>Drawing numbers\<close>

lemma draw_Some: "n \<noteq> 0 \<Longrightarrow> \<exists>r s. draw n g = Some (r, g\<lparr>gn_seed := s\<rparr>) \<and> r < n"
  by (auto simp: draw_def word_mod_less_divisor word_gt_0 split: prod.split)

lemma unat_one_plus: "r < n \<Longrightarrow> unat (1 + r) = Suc (unat r)" for r n :: u64
proof -
  assume "r < n"
  then have "Suc (unat r) < 2 ^ 64" using unsigned_less [of n, where ?'a = nat] by (simp add: word_less_nat_alt)
  then show ?thesis by (simp add: unat_word_ariths)
qed

lemma draw_offset_Some: "\<exists>d s. draw_offset g = Some (d, g\<lparr>gn_seed := s\<rparr>) \<and> 1 \<le> d \<and> d \<le> 500"
proof -
  obtain r s where r: "draw 500 g = Some (r, g\<lparr>gn_seed := s\<rparr>)" "r < 500" using draw_Some [of 500 g] by auto
  have "uint (1 + r) = int (unat (1 + r))" by simp
  then have "uint (1 + r) = 1 + int (unat r)" unfolding unat_one_plus [OF r(2)] by simp
  moreover have "uint r < 500" using r(2) by (simp add: word_less_def)
  ultimately show ?thesis using r(1) by (intro exI [of _ "uint (1 + r)"] exI [of _ s]) (simp add: draw_offset_def)
qed

lemma ucast_small: "unat x < 2 ^ 32 \<Longrightarrow> unat (ucast x :: u32) = unat x" for x :: u64
  by (simp add: unsigned_ucast_eq take_bit_nat_eq_self)

lemma draw_shares_Some: "\<exists>q s. draw_shares g = Some (q, g\<lparr>gn_seed := s\<rparr>) \<and> q \<noteq> 0"
proof -
  obtain r s where r: "draw 20 g = Some (r, g\<lparr>gn_seed := s\<rparr>)" "r < 20" using draw_Some [of 20 g] by auto
  have "unat r < 20" using r(2) by (simp add: word_less_nat_alt)
  then have "unat (100 * (1 + r)) = 100 * Suc (unat r)" using unat_one_plus [OF r(2)] by (simp add: unat_word_ariths)
  moreover from this have "unat (ucast (100 * (1 + r)) :: u32) = 100 * Suc (unat r)"
    using \<open>unat r < 20\<close> ucast_small [of "100 * (1 + r)"] by simp
  then have "(ucast (100 * (1 + r)) :: u32) \<noteq> 0" by (metis Suc_neq_Zero mult_is_0 unsigned_0 zero_neq_numeral)
  ultimately show ?thesis using r(1) by (intro exI [of _ "ucast (100 * (1 + r))"] exI [of _ s]) (simp add: draw_shares_def)
qed

lemma draw_part_Some:
  assumes "q \<noteq> 0"
  shows "\<exists>r s. draw (ucast q) g = Some (r, g\<lparr>gn_seed := s\<rparr>) \<and> (ucast (1 + r) :: Qty) \<noteq> 0 \<and> (ucast (1 + r) :: Qty) \<le> q"
proof -
  have "(ucast q :: u64) \<noteq> 0" using assms by (metis unat_ucast_u32_u64 unsigned_0 unsigned_eq_0_iff)
  then obtain r s where r: "draw (ucast q) g = Some (r, g\<lparr>gn_seed := s\<rparr>)" "r < ucast q" using draw_Some by blast
  then have "unat r < unat q" by (simp add: word_less_nat_alt)
  moreover have "unat q < 2 ^ 32" using unsigned_less [of q, where ?'a = nat] by simp
  ultimately have "unat (ucast (1 + r) :: Qty) = Suc (unat r)" using ucast_small [of "1 + r"] unat_one_plus [OF r(2)] by simp
  then show ?thesis using r(1) \<open>unat r < unat q\<close> by (auto simp: word_le_nat_alt) 
qed

subsection \<open>The live orders\<close>

lemma swap_out_mset: "idx < length xs \<Longrightarrow> mset xs = add_mset (xs ! idx) (mset (swap_out idx xs))"
  unfolding swap_out_def by (rule mset_drop_swapped)

lemma update_mset: "idx < length xs \<Longrightarrow> mset (xs[idx := y]) = add_mset y (mset (swap_out idx xs))"
  using swap_out_mset [of idx xs] by (simp add: mset_update)

text \<open>A price on the right side of the mid.\<close>

definition passive_price :: "Symbol list \<Rightarrow> nat \<Rightarrow> Side \<Rightarrow> Price \<Rightarrow> bool" where
  "passive_price symbols si side p \<longleftrightarrow> (if side = Bid then p < mids symbols ! si else mids symbols ! si < p)"

text \<open>The live orders are what rests in the books.\<close>

definition live_ok :: "Symbol list \<Rightarrow> OrderId \<Rightarrow> LiveOrder list \<Rightarrow> (Symbol \<Rightarrow> Side \<Rightarrow> (Price \<times> entry) list) \<Rightarrow> bool" where
  "live_ok symbols bound L F \<longleftrightarrow> distinct (map lo_ref L)
     \<and> (\<forall>lo \<in> set L. lo_symbol_index lo < length symbols \<and> lo_shares lo \<noteq> 0 \<and> lo_ref lo \<noteq> 0 \<and> lo_ref lo < bound
          \<and> (\<exists>p e. (p, e) \<in> set (F (symbols ! lo_symbol_index lo) (lo_side lo)) \<and> en_id e = lo_ref lo))
     \<and> (\<forall>s t p e. (p, e) \<in> set (F s t) \<longrightarrow> (\<exists>lo \<in> set L. lo_ref lo = en_id e \<and> lo_shares lo = en_qty e \<and> lo_side lo = t
          \<and> symbols ! lo_symbol_index lo = s \<and> passive_price symbols (lo_symbol_index lo) t p))"

lemma live_ok_mset: "mset L = mset L' \<Longrightarrow> live_ok symbols bound L F = live_ok symbols bound L' F"
proof -
  assume m: "mset L = mset L'"
  then have "set L = set L'" by (rule mset_eq_setD)
  moreover have "distinct (map lo_ref L) = distinct (map lo_ref L')" by (rule mset_eq_imp_distinct_iff) (simp add: m)
  ultimately show ?thesis by (simp add: live_ok_def)
qed

lemma live_ok_cong: "(\<And>u t. set (F u t) = set (G u t)) \<Longrightarrow> live_ok symbols bound L F = live_ok symbols bound L G"
  by (simp add: live_ok_def)

lemma live_okD:
  assumes "live_ok symbols bound L F"
  shows "distinct (map lo_ref L)"
    and "lo \<in> set L \<Longrightarrow> lo_symbol_index lo < length symbols \<and> lo_shares lo \<noteq> 0 \<and> lo_ref lo \<noteq> 0 \<and> lo_ref lo < bound"
    and "lo \<in> set L \<Longrightarrow> \<exists>p e. (p, e) \<in> set (F (symbols ! lo_symbol_index lo) (lo_side lo)) \<and> en_id e = lo_ref lo \<and> en_qty e = lo_shares lo"
    and "(p, e) \<in> set (F s t) \<Longrightarrow> \<exists>lo \<in> set L. lo_ref lo = en_id e \<and> lo_shares lo = en_qty e \<and> lo_side lo = t
          \<and> symbols ! lo_symbol_index lo = s \<and> passive_price symbols (lo_symbol_index lo) t p"
proof -
  show d: "distinct (map lo_ref L)" using assms by (simp add: live_ok_def)
  show "lo \<in> set L \<Longrightarrow> lo_symbol_index lo < length symbols \<and> lo_shares lo \<noteq> 0 \<and> lo_ref lo \<noteq> 0 \<and> lo_ref lo < bound"
    using assms by (simp add: live_ok_def)
  show c: "\<exists>lo \<in> set L. lo_ref lo = en_id e \<and> lo_shares lo = en_qty e \<and> lo_side lo = t
          \<and> symbols ! lo_symbol_index lo = s \<and> passive_price symbols (lo_symbol_index lo) t p" if "(p, e) \<in> set (F s t)" for p e s t
    using assms that by (simp add: live_ok_def)
  show "\<exists>p e. (p, e) \<in> set (F (symbols ! lo_symbol_index lo) (lo_side lo)) \<and> en_id e = lo_ref lo \<and> en_qty e = lo_shares lo" if l: "lo \<in> set L"
  proof -
    obtain p e where e: "(p, e) \<in> set (F (symbols ! lo_symbol_index lo) (lo_side lo))" "en_id e = lo_ref lo"
      using assms l unfolding live_ok_def by blast
    then obtain lo' where "lo' \<in> set L" "lo_ref lo' = en_id e" "lo_shares lo' = en_qty e" using c by blast
    then have "lo' = lo" using d l e(2) by (simp add: distinct_map inj_on_def)
    then show ?thesis using e \<open>lo_shares lo' = en_qty e\<close> by auto
  qed
qed

lemma without_member: "(p, e) \<in> set (without oid fs) \<longleftrightarrow> (p, e) \<in> set fs \<and> en_id e \<noteq> oid"
  by (auto simp: without_def)

lemma cut_other_member: "en_id e \<noteq> oid \<Longrightarrow> en_qty e \<noteq> 0 \<Longrightarrow> (p, e) \<in> set fs \<Longrightarrow> (p, e) \<in> set (cut oid q fs)"
  by (force simp: cut_def lessen_def)

lemma cut_own_member: "(p, e) \<in> set fs \<Longrightarrow> en_id e = oid \<Longrightarrow> q < en_qty e \<Longrightarrow> (p, e\<lparr>en_qty := en_qty e - q\<rparr>) \<in> set (cut oid q fs)"
  by (force simp: cut_def lessen_def)

lemma cut_from:
  assumes "(p, e) \<in> set (cut oid q fs)"
  obtains e0 where "(p, e0) \<in> set fs" and "en_id e = en_id e0" and "en_id e0 \<noteq> oid \<Longrightarrow> e = e0"
    and "en_id e0 = oid \<Longrightarrow> q < en_qty e0 \<and> en_qty e = en_qty e0 - q"
  using assms
  by (auto simp: cut_def lessen_def min_def split: if_splits prod.splits)

lemma live_delete:
  assumes l: "live_ok symbols bound (lo # L) F" and s: "s = symbols ! lo_symbol_index lo"
  shows "live_ok symbols bound L (F(s := (\<lambda>t. without (lo_ref lo) (F s t))))"
proof -
  let ?G = "F(s := (\<lambda>t. without (lo_ref lo) (F s t)))"
  note D = live_okD [OF l]
  have ne: "lo_ref lo' \<noteq> lo_ref lo" if "lo' \<in> set L" for lo' using D(1) that by (fastforce simp: image_iff)
  have G: "(p, e) \<in> set (?G u t) \<longleftrightarrow> (p, e) \<in> set (F u t) \<and> (u = s \<longrightarrow> en_id e \<noteq> lo_ref lo)" for u t p e
    by (auto simp: without_member)
  show ?thesis
    unfolding live_ok_def G
  proof (intro conjI ballI allI impI)
    show "distinct (map lo_ref L)" using D(1) by simp
    fix lo' assume lo': "lo' \<in> set L"
    then show "lo_symbol_index lo' < length symbols" "lo_shares lo' \<noteq> 0" "lo_ref lo' \<noteq> 0" "lo_ref lo' < bound" using D(2) [of lo'] by simp_all
    show "\<exists>p e. ((p, e) \<in> set (F (symbols ! lo_symbol_index lo') (lo_side lo')) \<and> (symbols ! lo_symbol_index lo' = s \<longrightarrow> en_id e \<noteq> lo_ref lo))
        \<and> en_id e = lo_ref lo'"
      using D(3) [of lo'] lo' ne [OF lo'] by fastforce
  next
    fix u t p e assume "(p, e) \<in> set (F u t) \<and> (u = s \<longrightarrow> en_id e \<noteq> lo_ref lo)"
    then show "\<exists>lo \<in> set L. lo_ref lo = en_id e \<and> lo_shares lo = en_qty e \<and> lo_side lo = t \<and> symbols ! lo_symbol_index lo = u
        \<and> passive_price symbols (lo_symbol_index lo) t p"
      using D(4) [of p e u t] s by fastforce
  qed
qed

lemma live_part:
  assumes l: "live_ok symbols bound (lo # L) F" and s: "s = symbols ! lo_symbol_index lo" and q: "q < lo_shares lo"
  shows "live_ok symbols bound (lo\<lparr>lo_shares := lo_shares lo - q\<rparr> # L) (F(s := (\<lambda>t. cut (lo_ref lo) q (F s t))))"
proof -
  let ?G = "F(s := (\<lambda>t. cut (lo_ref lo) q (F s t)))" and ?lo = "lo\<lparr>lo_shares := lo_shares lo - q\<rparr>"
  note D = live_okD [OF l]
  have ne: "lo_ref lo' \<noteq> lo_ref lo" if "lo' \<in> set L" for lo' using D(1) that by (fastforce simp: image_iff)
  have nz: "lo_shares lo - q \<noteq> 0" using q by auto
  show ?thesis
    unfolding live_ok_def
  proof (intro conjI ballI allI impI)
    show "distinct (map lo_ref (?lo # L))" using D(1) by simp
    fix lo' assume lo': "lo' \<in> set (?lo # L)"
    then show "lo_symbol_index lo' < length symbols" "lo_shares lo' \<noteq> 0" "lo_ref lo' \<noteq> 0" "lo_ref lo' < bound"
      using D(2) [of lo'] D(2) [of lo] nz by auto
    show "\<exists>p e. (p, e) \<in> set (?G (symbols ! lo_symbol_index lo') (lo_side lo')) \<and> en_id e = lo_ref lo'"
    proof (cases "lo' \<in> set L")
      case True
      obtain p e where e: "(p, e) \<in> set (F (symbols ! lo_symbol_index lo') (lo_side lo'))" "en_id e = lo_ref lo'" "en_qty e = lo_shares lo'"
        using D(3) [of lo'] True by auto
      then have "(p, e) \<in> set (?G (symbols ! lo_symbol_index lo') (lo_side lo'))"
        using ne [OF True] D(2) [of lo'] True by (auto intro: cut_other_member)
      then show ?thesis using e(2) by blast
    next
      case False
      then have lo': "lo' = ?lo" using lo' by simp
      obtain p e where e: "(p, e) \<in> set (F s (lo_side lo))" "en_id e = lo_ref lo" "en_qty e = lo_shares lo"
        using D(3) [of lo] s by auto
      then have "(p, e\<lparr>en_qty := en_qty e - q\<rparr>) \<in> set (?G s (lo_side lo))" using cut_own_member [OF e(1,2), of q] q e(3) by simp
      then show ?thesis unfolding lo' using e(2) s by (intro exI [of _ p] exI [of _ "e\<lparr>en_qty := en_qty e - q\<rparr>"]) simp
    qed
  next
    fix u t p e assume m: "(p, e) \<in> set (?G u t)"
    show "\<exists>lo' \<in> set (?lo # L). lo_ref lo' = en_id e \<and> lo_shares lo' = en_qty e \<and> lo_side lo' = t \<and> symbols ! lo_symbol_index lo' = u
        \<and> passive_price symbols (lo_symbol_index lo') t p"
    proof (cases "u = s")
      case False
      then obtain lo' where "lo' \<in> set (lo # L)" "lo_ref lo' = en_id e" "lo_shares lo' = en_qty e" "lo_side lo' = t" "symbols ! lo_symbol_index lo' = u"
        "passive_price symbols (lo_symbol_index lo') t p" using D(4) [of p e u t] m by auto
      moreover from this have "lo' \<noteq> lo" using False s by auto
      ultimately show ?thesis by auto
    next
      case True
      then have "(p, e) \<in> set (cut (lo_ref lo) q (F s t))" using m by simp
      then obtain e0 where e0: "(p, e0) \<in> set (F s t)" "en_id e = en_id e0" "en_id e0 \<noteq> lo_ref lo \<Longrightarrow> e = e0"
        "en_id e0 = lo_ref lo \<Longrightarrow> q < en_qty e0 \<and> en_qty e = en_qty e0 - q" by (rule cut_from) blast
      obtain lo' where lo': "lo' \<in> set (lo # L)" "lo_ref lo' = en_id e0" "lo_shares lo' = en_qty e0" "lo_side lo' = t"
        "symbols ! lo_symbol_index lo' = s" "passive_price symbols (lo_symbol_index lo') t p" using D(4) [OF e0(1)] by blast
      show ?thesis
      proof (cases "lo' = lo")
        case True
        then show ?thesis using lo' e0(2,4) \<open>u = s\<close> by (intro bexI [of _ ?lo]) auto
      next
        case False
        then have "lo' \<in> set L" using lo'(1) by simp
        then show ?thesis using lo' e0 ne [of lo'] \<open>u = s\<close> by (intro bexI [of _ lo']) auto
      qed
    qed
  qed
qed

lemma live_full:
  assumes l: "live_ok symbols bound (lo # L) F" and s: "s = symbols ! lo_symbol_index lo" and q: "q = lo_shares lo"
  shows "live_ok symbols bound L (F(s := (\<lambda>t. cut (lo_ref lo) q (F s t))))"
proof -
  note D = live_okD [OF l]
  have "(p, e) \<in> set (cut (lo_ref lo) q (F s t)) \<longleftrightarrow> (p, e) \<in> set (without (lo_ref lo) (F s t))" for p e t
  proof
    assume "(p, e) \<in> set (cut (lo_ref lo) q (F s t))"
    then obtain e0 where e0: "(p, e0) \<in> set (F s t)" "en_id e = en_id e0" "en_id e0 \<noteq> lo_ref lo \<Longrightarrow> e = e0"
      "en_id e0 = lo_ref lo \<Longrightarrow> q < en_qty e0 \<and> en_qty e = en_qty e0 - q" by (rule cut_from) blast
    have "en_id e0 \<noteq> lo_ref lo"
    proof
      assume i: "en_id e0 = lo_ref lo"
      obtain lo' where "lo' \<in> set (lo # L)" "lo_ref lo' = en_id e0" "lo_shares lo' = en_qty e0" using D(4) [OF e0(1)] by blast
      then have "lo_shares lo = en_qty e0" using D(1) i by (force simp: image_iff)
      then show False using e0(4) [OF i] q by simp
    qed
    then show "(p, e) \<in> set (without (lo_ref lo) (F s t))" using e0(1,3) by (simp add: without_member)
  next
    assume "(p, e) \<in> set (without (lo_ref lo) (F s t))"
    moreover from this have "en_qty e \<noteq> 0" using D(2,4) by (fastforce simp: without_member)
    ultimately show "(p, e) \<in> set (cut (lo_ref lo) q (F s t))" by (simp add: without_member cut_other_member)
  qed
  then have "set ((F(s := (\<lambda>t. cut (lo_ref lo) q (F s t)))) u t) = set ((F(s := (\<lambda>t. without (lo_ref lo) (F s t)))) u t)" for u t
    by auto
  then show ?thesis using live_delete [OF l s] live_ok_cong by blast
qed

lemma live_enter:
  assumes l: "live_ok symbols bound L F" and b: "bound \<noteq> 0" "bound < bound + 1"
    and lo: "lo_ref lo = bound" "lo_shares lo \<noteq> 0" "lo_symbol_index lo < length symbols"
    and s: "s = symbols ! lo_symbol_index lo" and p: "passive_price symbols (lo_symbol_index lo) (lo_side lo) p"
    and e: "en_id e = bound" "en_qty e = lo_shares lo"
  shows "live_ok symbols (bound + 1) (lo # L) (F(s := (F s)(lo_side lo := enter (lo_side lo) p e (F s (lo_side lo)))))"
proof -
  let ?G = "F(s := (F s)(lo_side lo := enter (lo_side lo) p e (F s (lo_side lo))))"
  note D = live_okD [OF l]
  have ne: "lo_ref lo' \<noteq> bound \<and> lo_ref lo' < bound + 1" if "lo' \<in> set L" for lo' using D(2) [OF that] b(2) by auto
  have G: "(q, x) \<in> set (?G u t) \<longleftrightarrow> (q, x) \<in> set (F u t) \<or> u = s \<and> t = lo_side lo \<and> q = p \<and> x = e" for u t q x
    by (auto simp: enter_set)
  show ?thesis
    unfolding live_ok_def G
  proof (intro conjI ballI allI impI)
    show "distinct (map lo_ref (lo # L))" using D(1) ne lo(1) by (force simp: image_iff)
    fix lo' assume lo': "lo' \<in> set (lo # L)"
    then have "lo_symbol_index lo' < length symbols \<and> lo_shares lo' \<noteq> 0 \<and> lo_ref lo' \<noteq> 0 \<and> lo_ref lo' < bound + 1"
    proof (cases "lo' = lo")
      case True
      then show ?thesis using lo b by simp
    next
      case False
      then have "lo' \<in> set L" using lo' by simp
      then show ?thesis using D(2) ne by blast
    qed
    then show "lo_symbol_index lo' < length symbols" "lo_shares lo' \<noteq> 0" "lo_ref lo' \<noteq> 0" "lo_ref lo' < bound + 1" by blast+
    show "\<exists>q x. ((q, x) \<in> set (F (symbols ! lo_symbol_index lo') (lo_side lo'))
        \<or> symbols ! lo_symbol_index lo' = s \<and> lo_side lo' = lo_side lo \<and> q = p \<and> x = e) \<and> en_id x = lo_ref lo'"
    proof (cases "lo' = lo")
      case True
      show ?thesis unfolding True by (intro exI [of _ p] exI [of _ e]) (simp add: s e(1) lo(1))
    next
      case False
      then have "lo' \<in> set L" using lo' by simp
      then show ?thesis using D(3) [of lo'] by blast
    qed
  next
    fix u t q x assume "(q, x) \<in> set (F u t) \<or> u = s \<and> t = lo_side lo \<and> q = p \<and> x = e"
    then show "\<exists>lo \<in> set (lo # L). lo_ref lo = en_id x \<and> lo_shares lo = en_qty x \<and> lo_side lo = t \<and> symbols ! lo_symbol_index lo = u
        \<and> passive_price symbols (lo_symbol_index lo) t q"
      using D(4) [of q x u t] lo s p e by auto
  qed
qed

lemma live_ids:
  assumes "live_ok symbols bound L F"
  shows "oid \<in> flat_ids (F s) \<longleftrightarrow> (\<exists>lo \<in> set L. lo_ref lo = oid \<and> symbols ! lo_symbol_index lo = s)" and "bound \<notin> flat_ids (F s)"
proof -
  note D = live_okD [OF assms]
  show i: "oid \<in> flat_ids (F s) \<longleftrightarrow> (\<exists>lo \<in> set L. lo_ref lo = oid \<and> symbols ! lo_symbol_index lo = s)" for oid
  proof
    assume "oid \<in> flat_ids (F s)"
    then obtain t p e where "(p, e) \<in> set (F s t)" "en_id e = oid" by (auto simp: flat_ids_iff)
    then show "\<exists>lo \<in> set L. lo_ref lo = oid \<and> symbols ! lo_symbol_index lo = s" using D(4) by blast
  next
    assume "\<exists>lo \<in> set L. lo_ref lo = oid \<and> symbols ! lo_symbol_index lo = s"
    then show "oid \<in> flat_ids (F s)" using D(3) unfolding flat_ids_iff by blast
  qed
  show "bound \<notin> flat_ids (F s)" using i [of bound] D(2) by auto
qed

subsection \<open>One pass of the loop\<close>

definition symbols_ok :: "Symbol list \<Rightarrow> bool" where
  "symbols_ok symbols \<longleftrightarrow> symbols \<noteq> [] \<and> length symbols \<le> 10000 \<and> (\<forall>s \<in> set symbols. length s = 8)"

text \<open>The prices the generator may choose.\<close>

definition prices_fit :: "(Price \<Rightarrow> bool) \<Rightarrow> Symbol list \<Rightarrow> bool" where
  "prices_fit V symbols \<longleftrightarrow> (\<forall>p. 749500 \<le> p \<and> p \<le> 500500 + 250000 * int (length symbols) \<longrightarrow> V p)"

definition generated :: "(Price \<Rightarrow> bool) \<Rightarrow> Symbol list \<Rightarrow> Gen \<Rightarrow> AMulti Replayer \<Rightarrow> bool" where
  "generated V symbols g R \<longleftrightarrow> (\<exists>F. keeps V F R \<and> live_ok symbols (gn_next_ref g) (gn_live g) F)"

definition goes_on ::
  "(Price \<Rightarrow> bool) \<Rightarrow> Symbol list \<Rightarrow> OrderId \<Rightarrow> AMulti Replayer \<Rightarrow> (feed_event \<times> Gen) option \<Rightarrow> bool" where
  "goes_on V symbols bound R x \<longleftrightarrow> (\<exists>e g. x = Some (e, g) \<and> event_ok e \<and> generated V symbols g (feed_step V e R)
     \<and> (gn_next_ref g = bound \<or> gn_next_ref g = bound + 1))"

lemma generated_simps [simp]:
  "generated V symbols (g\<lparr>gn_seed := s\<rparr>) R = generated V symbols g R" "generated V symbols (g\<lparr>gn_ts := t\<rparr>) R = generated V symbols g R"
  "generated V symbols (g\<lparr>gn_match_number := m\<rparr>) R = generated V symbols g R"
  by (simp_all add: generated_def)

lemma goes_onI:
  "x = Some (e, g) \<Longrightarrow> event_ok e \<Longrightarrow> keeps V F (feed_step V e R) \<Longrightarrow> live_ok symbols (gn_next_ref g) (gn_live g) F \<Longrightarrow>
   gn_next_ref g = bound \<or> gn_next_ref g = bound + 1 \<Longrightarrow> goes_on V symbols bound R x"
  unfolding goes_on_def generated_def by blast

lemma mids_bounds:
  "symbols_ok symbols \<Longrightarrow> si < length symbols \<Longrightarrow> 750000 \<le> mids symbols ! si \<and> mids symbols ! si \<le> 500000 + 250000 * int (length symbols)
    \<and> mids symbols ! si \<le> 2500500000"
  by (simp add: mids_def symbols_ok_def)

lemma off_mid_facts:
  assumes "symbols_ok symbols" and "si < length symbols" and "1 \<le> d" "d \<le> 500"
  shows "prices_fit V symbols \<Longrightarrow> V (off_mid symbols si side d)" and "wire_price (off_mid symbols si side d)"
    and "passive_price symbols si side (off_mid symbols si side d)" and "wire_price (mids symbols ! si)"
  using mids_bounds [OF assms(1,2)] assms(3,4)
  by (auto simp: prices_fit_def off_mid_def wire_price_def passive_price_def)

lemma live_at:
  assumes "live_ok symbols bound L F" and "idx < length L"
  shows "live_ok symbols bound (L ! idx # swap_out idx L) F"
proof -
  have "mset L = mset (L ! idx # swap_out idx L)" using swap_out_mset [OF assms(2)] by simp
  then show ?thesis using assms(1) live_ok_mset by blast
qed

lemma live_updated:
  assumes "live_ok symbols bound (lo # swap_out idx L) F" and "idx < length L"
  shows "live_ok symbols bound (L[idx := lo]) F"
proof -
  have "mset (L[idx := lo]) = mset (lo # swap_out idx L)" using update_mset [OF assms(2)] by simp
  then show ?thesis using assms(1) live_ok_mset by blast
qed

lemma live_lessened:
  assumes l: "live_ok symbols (gn_next_ref g) (gn_live g) F" and i: "idx < length (gn_live g)" and q: "q \<le> lo_shares (gn_live g ! idx)"
    and lo: "lo = gn_live g ! idx" and s: "s = symbols ! lo_symbol_index lo"
  shows "live_ok symbols (gn_next_ref (gen_lessen idx q g)) (gn_live (gen_lessen idx q g)) (F(s := (\<lambda>t. cut (lo_ref lo) q (F s t))))"
    and "gn_next_ref (gen_lessen idx q g) = gn_next_ref g"
proof -
  show "gn_next_ref (gen_lessen idx q g) = gn_next_ref g" by (simp add: gen_lessen_def Let_def)
  note L = live_at [OF l i, folded lo]
  show "live_ok symbols (gn_next_ref (gen_lessen idx q g)) (gn_live (gen_lessen idx q g)) (F(s := (\<lambda>t. cut (lo_ref lo) q (F s t))))"
  proof (cases "q < lo_shares lo")
    case True
    then have "gen_lessen idx q g = g\<lparr>gn_live := (gn_live g)[idx := lo\<lparr>lo_shares := lo_shares lo - q\<rparr>]\<rparr>"
      by (simp add: gen_lessen_def lo not_le Let_def)
    then show ?thesis using live_updated [OF live_part [OF L s True] i] by simp
  next
    case False
    then have "q = lo_shares lo" using q lo by simp
    moreover from this have "gen_lessen idx q g = g\<lparr>gn_live := swap_out idx (gn_live g)\<rparr>" by (simp add: gen_lessen_def lo Let_def)
    ultimately show ?thesis using live_full [OF L s] by simp
  qed
qed

lemma live_rests:
  assumes "live_ok symbols bound L F" and "idx < length L" and "lo = L ! idx" and "s = symbols ! lo_symbol_index lo"
  obtains p e where "(p, e) \<in> set (F s (lo_side lo))" and "en_id e = lo_ref lo" and "en_qty e = lo_shares lo"
  using live_okD(3) [OF assms(1), of lo] assms by auto

lemma draw_index: "n \<noteq> 0 \<Longrightarrow> n < 2 ^ 64 \<Longrightarrow> \<exists>r s. draw (of_nat n) g = Some (r, g\<lparr>gn_seed := s\<rparr>) \<and> unat r < n"
proof -
  assume n: "n \<noteq> 0" "n < 2 ^ 64"
  have u: "unat (of_nat n :: u64) = n" using n(2) by (simp add: unat_of_nat take_bit_nat_eq_self)
  then have "(of_nat n :: u64) \<noteq> 0" using n(1) by (metis unsigned_0)
  then obtain r s where "draw (of_nat n) g = Some (r, g\<lparr>gn_seed := s\<rparr>)" "r < of_nat n" using draw_Some by blast
  then show ?thesis using u by (auto simp: word_less_nat_alt)
qed

lemma gen_add_goes:
  assumes k: "keeps V F R" and l: "live_ok symbols (gn_next_ref g) (gn_live g) F" and ok: "symbols_ok symbols" "prices_fit V symbols"
    and b: "gn_next_ref g \<noteq> 0" "gn_next_ref g < gn_next_ref g + 1"
  shows "goes_on V symbols (gn_next_ref g) R (gen_add symbols g)"
proof -
  have n: "length symbols \<noteq> 0" "length symbols < 2 ^ 64" using ok(1) by (simp_all add: symbols_ok_def)
  obtain r1 s1 where d1: "draw (of_nat (length symbols)) g = Some (r1, g\<lparr>gn_seed := s1\<rparr>)" "unat r1 < length symbols"
    using draw_index [OF n] by blast
  obtain r2 s2 where d2: "draw 2 (g\<lparr>gn_seed := s1\<rparr>) = Some (r2, g\<lparr>gn_seed := s2\<rparr>)" using draw_Some [of 2 "g\<lparr>gn_seed := s1\<rparr>"] by auto
  obtain d s3 where d3: "draw_offset (g\<lparr>gn_seed := s2\<rparr>) = Some (d, g\<lparr>gn_seed := s3\<rparr>)" "1 \<le> d" "d \<le> 500"
    using draw_offset_Some [of "g\<lparr>gn_seed := s2\<rparr>"] by auto
  obtain q s4 where d4: "draw_shares (g\<lparr>gn_seed := s3\<rparr>) = Some (q, g\<lparr>gn_seed := s4\<rparr>)" "q \<noteq> 0"
    using draw_shares_Some [of "g\<lparr>gn_seed := s3\<rparr>"] by auto
  let ?ref = "gn_next_ref g" and ?side = "if r2 = 0 then Bid else Ask"
  let ?h = "g\<lparr>gn_seed := s4, gn_next_ref := ?ref + 1\<rparr>"
  obtain r5 s5 where d5: "draw 10 ?h = Some (r5, ?h\<lparr>gn_seed := s5\<rparr>)" using draw_Some [of 10 ?h] by auto
  let ?si = "unat r1" and ?s = "symbols ! unat r1" and ?p = "off_mid symbols (unat r1) ?side d"
  let ?lo = "\<lparr>lo_ref = ?ref, lo_shares = q, lo_symbol_index = ?si, lo_side = ?side\<rparr>"
  let ?e = "if r5 = 0 then AddMpidEv (gn_ts g) ?ref ?side q ?s ?p nsdq else AddEv (gn_ts g) ?ref ?side q ?s ?p"
  let ?F = "F(?s := (F ?s)(?side := enter ?side ?p \<lparr>en_id = ?ref, en_qty = q, en_owner = 0\<rparr> (F ?s ?side)))"
  note P = off_mid_facts [OF ok(1) d1(2) d3(2,3)]
  have x: "gen_add symbols g = Some (?e, ?h\<lparr>gn_seed := s5, gn_live := gn_live g @ [?lo]\<rparr>)"
    unfolding gen_add_def d1(1) Let_def by (simp add: d2 d3(1) d4(1) d5)
  have "length ?s = 8" using ok(1) d1(2) by (simp add: symbols_ok_def)
  then have e: "event_ok ?e" using P(2) by (simp add: event_ok_def symbol_ok_def)
  have f: "?ref \<notin> flat_ids (F t)" for t using live_ids(2) [OF l] .
  have K: "keeps V ?F (feed_step V ?e R)" using keeps_added [OF k b(1) d4(2) P(1) [OF ok(2)] f] by (cases "r5 = 0") simp_all
  have "live_ok symbols (?ref + 1) (?lo # gn_live g) ?F"
    using live_enter [OF l b, of ?lo ?s ?p "\<lparr>en_id = ?ref, en_qty = q, en_owner = 0\<rparr>"] d4(2) d1(2) P(3) by simp
  then have "live_ok symbols (?ref + 1) (gn_live g @ [?lo]) ?F"
    using live_ok_mset [of "gn_live g @ [?lo]" "?lo # gn_live g"] by simp
  then show ?thesis by (intro goes_onI [OF x e K]) simp_all
qed

lemma gen_delete_goes:
  assumes k: "keeps V F R" and l: "live_ok symbols (gn_next_ref g) (gn_live g) F" and i: "idx < length (gn_live g)"
  shows "goes_on V symbols (gn_next_ref g) R (gen_delete idx g)"
proof -
  obtain lo s where lo: "lo = gn_live g ! idx" "s = symbols ! lo_symbol_index lo" by simp
  note L = live_at [OF l i, folded lo]
  have "lo_ref lo \<in> flat_ids (F s)" unfolding live_ids(1) [OF L] using lo(2) by auto
  from keeps_deleted [OF k this] live_delete [OF L lo(2)] show ?thesis
    unfolding gen_delete_def lo(1) [symmetric] by (intro goes_onI [OF refl]) (simp_all add: event_ok_def symbol_ok_def wire_price_def)
qed

lemma gen_cancel_goes:
  assumes k: "keeps V F R" and l: "live_ok symbols (gn_next_ref g) (gn_live g) F" and i: "idx < length (gn_live g)"
  shows "goes_on V symbols (gn_next_ref g) R (gen_cancel idx g)"
proof -
  obtain lo s where lo: "lo = gn_live g ! idx" "s = symbols ! lo_symbol_index lo" by simp
  have "lo_shares lo \<noteq> 0" using live_okD(2) [OF l, of lo] i lo(1) by simp
  then obtain r s1 where d: "draw (ucast (lo_shares lo)) g = Some (r, g\<lparr>gn_seed := s1\<rparr>)" "(ucast (1 + r) :: Qty) \<noteq> 0"
    "(ucast (1 + r) :: Qty) \<le> lo_shares lo" using draw_part_Some by blast
  obtain p e where e: "(p, e) \<in> set (F s (lo_side lo))" "en_id e = lo_ref lo" "en_qty e = lo_shares lo" by (rule live_rests [OF l i lo])
  let ?q = "ucast (1 + r) :: Qty" and ?g = "g\<lparr>gn_seed := s1\<rparr>"
  have x: "gen_cancel idx g = Some (CancelEv (gn_ts g) (lo_ref lo) ?q, gen_lessen idx ?q ?g)"
    by (simp add: gen_cancel_def d(1) lo(1) [symmetric] Let_def)
  have "live_ok symbols (gn_next_ref ?g) (gn_live ?g) F" using l by simp
  from live_lessened [OF this, of idx ?q lo s] i d(3) lo
  show ?thesis using keeps_executed(3) [OF k e(1,2) d(2)] d(3) e(3)
    by (intro goes_onI [OF x]) (simp_all add: event_ok_def symbol_ok_def wire_price_def)
qed

lemma gen_execute_goes:
  assumes k: "keeps V F R" and l: "live_ok symbols (gn_next_ref g) (gn_live g) F" and i: "idx < length (gn_live g)" and ok: "symbols_ok symbols"
  shows "goes_on V symbols (gn_next_ref g) R (gen_execute symbols idx g)"
proof -
  obtain lo s where lo: "lo = gn_live g ! idx" "s = symbols ! lo_symbol_index lo" by simp
  note D = live_okD(2) [OF l, of lo]
  have si: "lo_symbol_index lo < length symbols" "lo_shares lo \<noteq> 0" using D i lo(1) by simp_all
  then obtain r s1 where d: "draw (ucast (lo_shares lo)) g = Some (r, g\<lparr>gn_seed := s1\<rparr>)" "(ucast (1 + r) :: Qty) \<noteq> 0"
    "(ucast (1 + r) :: Qty) \<le> lo_shares lo" using draw_part_Some by blast
  obtain r2 s2 where d2: "draw 5 (g\<lparr>gn_seed := s1\<rparr>) = Some (r2, g\<lparr>gn_seed := s2\<rparr>)" using draw_Some [of 5 "g\<lparr>gn_seed := s1\<rparr>"] by auto
  obtain p e where e: "(p, e) \<in> set (F s (lo_side lo))" "en_id e = lo_ref lo" "en_qty e = lo_shares lo" by (rule live_rests [OF l i lo])
  let ?q = "ucast (1 + r) :: Qty" and ?m = "gn_match_number g"
  let ?g = "g\<lparr>gn_seed := s2, gn_match_number := ?m + 1\<rparr>"
  let ?e = "if r2 = 0 then ExecutedPriceEv (gn_ts g) (lo_ref lo) ?q ?m True (mids symbols ! lo_symbol_index lo) else ExecutedEv (gn_ts g) (lo_ref lo) ?q ?m"
  have x: "gen_execute symbols idx g = Some (?e, gen_lessen idx ?q ?g)"
    by (simp add: gen_execute_def d(1) d2 lo(1) [symmetric] Let_def)
  have "event_ok ?e" using off_mid_facts(4) [OF ok si(1), of 1] by (simp add: event_ok_def symbol_ok_def wire_price_def)
  moreover have "q0 \<le> en_qty e \<Longrightarrow> q0 \<noteq> 0 \<Longrightarrow> keeps V (F(s := (\<lambda>t. cut (lo_ref lo) q0 (F s t)))) (feed_step V (if r2 = 0
      then ExecutedPriceEv (gn_ts g) (lo_ref lo) q0 ?m True (mids symbols ! lo_symbol_index lo) else ExecutedEv (gn_ts g) (lo_ref lo) q0 ?m) R)" for q0
    using keeps_executed(1,2) [OF k e(1,2), of q0] by simp
  moreover have "live_ok symbols (gn_next_ref ?g) (gn_live ?g) F" using l by simp
  note live_lessened [OF this, of idx ?q lo s]
  ultimately show ?thesis using i d(2,3) lo e(3) by (intro goes_onI [OF x]) simp_all
qed

lemma gen_replace_goes:
  assumes k: "keeps V F R" and l: "live_ok symbols (gn_next_ref g) (gn_live g) F" and i: "idx < length (gn_live g)"
    and ok: "symbols_ok symbols" "prices_fit V symbols" and b: "gn_next_ref g \<noteq> 0" "gn_next_ref g < gn_next_ref g + 1"
  shows "goes_on V symbols (gn_next_ref g) R (gen_replace symbols idx g)"
proof -
  obtain lo s where lo: "lo = gn_live g ! idx" "s = symbols ! lo_symbol_index lo" by simp
  note L = live_at [OF l i, folded lo(1)]
  have si: "lo_symbol_index lo < length symbols" using live_okD(2) [OF l, of lo] i lo(1) by simp
  obtain d s3 where d3: "draw_offset g = Some (d, g\<lparr>gn_seed := s3\<rparr>)" "1 \<le> d" "d \<le> 500" using draw_offset_Some by blast
  obtain q s4 where d4: "draw_shares (g\<lparr>gn_seed := s3\<rparr>) = Some (q, g\<lparr>gn_seed := s4\<rparr>)" "q \<noteq> 0"
    using draw_shares_Some [of "g\<lparr>gn_seed := s3\<rparr>"] by auto
  obtain p0 e where e: "(p0, e) \<in> set (F s (lo_side lo))" "en_id e = lo_ref lo" by (rule live_rests [OF l i lo])
  let ?ref = "gn_next_ref g" and ?lo = "lo\<lparr>lo_ref := gn_next_ref g, lo_shares := q\<rparr>"
  let ?p = "off_mid symbols (lo_symbol_index lo) (lo_side lo) d" and ?g = "g\<lparr>gn_seed := s4, gn_next_ref := gn_next_ref g + 1\<rparr>"
  let ?en = "\<lparr>en_id = ?ref, en_qty = q, en_owner = 0\<rparr>"
  note P = off_mid_facts [OF ok(1) si d3(2,3)]
  have x: "gen_replace symbols idx g = Some (ReplaceEv (gn_ts g) (lo_ref lo) ?ref q ?p, ?g\<lparr>gn_live := (gn_live g)[idx := ?lo]\<rparr>)"
    unfolding gen_replace_def lo(1) [symmetric] Let_def by (simp add: d3(1) d4(1))
  let ?D = "F(s := (\<lambda>t. without (lo_ref lo) (F s t)))"
  let ?F = "?D(s := (?D s)(lo_side lo := enter (lo_side lo) ?p ?en (?D s (lo_side lo))))"
  have "live_ok symbols (?ref + 1) (?lo # swap_out idx (gn_live g)) ?F"
    using live_enter [OF live_delete [OF L lo(2)] b, of ?lo s ?p ?en] d4(2) si P(3) lo(2) by simp
  then have "live_ok symbols (?ref + 1) ((gn_live g)[idx := ?lo]) ?F" by (rule live_updated [OF _ i])
  moreover have "keeps V ?F (feed_step V (ReplaceEv (gn_ts g) (lo_ref lo) ?ref q ?p) R)"
    using keeps_replaced [OF k e b(1) d4(2) P(1) [OF ok(2)] live_ids(2) [OF l]] by simp
  ultimately show ?thesis using P(2) by (intro goes_onI [OF x]) (simp_all add: event_ok_def symbol_ok_def)
qed

lemma gen_trade_goes:
  assumes k: "keeps V F R" and l: "live_ok symbols (gn_next_ref g) (gn_live g) F" and i: "idx < length (gn_live g)" and ok: "symbols_ok symbols"
  shows "goes_on V symbols (gn_next_ref g) R (gen_trade symbols idx g)"
proof -
  obtain lo where lo: "lo = gn_live g ! idx" by simp
  have si: "lo_symbol_index lo < length symbols" using live_okD(2) [OF l, of lo] i lo by simp
  then have "length (symbols ! lo_symbol_index lo) = 8" using ok by (simp add: symbols_ok_def)
  then show ?thesis using off_mid_facts(4) [OF ok si, of 1] keeps_quiet(1) [OF k] l
    unfolding gen_trade_def lo [symmetric] Let_def by (intro goes_onI [OF refl]) (simp_all add: event_ok_def symbol_ok_def wire_price_def)
qed

lemma live_few:
  assumes "live_ok symbols bound L F"
  shows "length L < 2 ^ 64"
proof -
  have "length L = card (unat ` set (map lo_ref L))"
    using distinct_card [OF live_okD(1) [OF assms]] card_image [of unat "set (map lo_ref L)"] by (simp add: inj_on_def word_unat_eq_iff)
  also have "\<dots> \<le> card {..<unat bound}" using live_okD(2) [OF assms] by (intro card_mono) (auto simp: word_less_nat_alt)
  finally show ?thesis using unsigned_less [of bound, where ?'a = nat] by simp
qed

lemma gen_step_goes:
  assumes "generated V symbols g R" and ok: "symbols_ok symbols" "prices_fit V symbols" and b: "gn_next_ref g \<noteq> 0" "gn_next_ref g < gn_next_ref g + 1"
  shows "goes_on V symbols (gn_next_ref g) R (gen_step symbols g)"
proof -
  obtain F where k: "keeps V F R" and l: "live_ok symbols (gn_next_ref g) (gn_live g) F" using assms(1) by (auto simp: generated_def)
  obtain r1 s1 where d1: "draw 50000 g = Some (r1, g\<lparr>gn_seed := s1\<rparr>)" using draw_Some [of 50000 g] by auto
  let ?t = "gn_ts g + (1000 + r1)"
  obtain roll s2 where d2: "draw 100 (g\<lparr>gn_seed := s1, gn_ts := ?t\<rparr>) = Some (roll, g\<lparr>gn_ts := ?t, gn_seed := s2\<rparr>)"
    using draw_Some [of 100 "g\<lparr>gn_seed := s1, gn_ts := ?t\<rparr>"] by auto
  show ?thesis
  proof (cases "roll < 45 \<or> gn_live g = []")
    case True
    then show ?thesis using gen_add_goes [OF k _ ok, of "g\<lparr>gn_ts := ?t, gn_seed := s2\<rparr>"] l b by (simp add: gen_step_def d1 d2)
  next
    case False
    then obtain r3 s3 where d3: "draw (of_nat (length (gn_live g))) (g\<lparr>gn_ts := ?t, gn_seed := s2\<rparr>) = Some (r3, g\<lparr>gn_ts := ?t, gn_seed := s3\<rparr>)"
      "unat r3 < length (gn_live g)"
      using draw_index [OF _ live_few [OF l], of "g\<lparr>gn_ts := ?t, gn_seed := s2\<rparr>"] by auto
    let ?g = "g\<lparr>gn_ts := ?t, gn_seed := s3\<rparr>"
    have x: "gen_step symbols g = (if roll < 70 then gen_delete (unat r3) ?g
       else if roll < 82 then gen_cancel (unat r3) ?g
       else if roll < 94 then gen_execute symbols (unat r3) ?g
       else if roll < 98 then gen_replace symbols (unat r3) ?g
       else gen_trade symbols (unat r3) ?g)"
      using False by (simp add: gen_step_def d1 d2 d3(1))
    have l': "live_ok symbols (gn_next_ref ?g) (gn_live ?g) F" and i: "unat r3 < length (gn_live ?g)" and b': "gn_next_ref ?g \<noteq> 0" "gn_next_ref ?g < gn_next_ref ?g + 1"
      and n: "gn_next_ref ?g = gn_next_ref g" using l d3(2) b by simp_all
    show ?thesis unfolding x
      using gen_delete_goes [OF k l' i] gen_cancel_goes [OF k l' i] gen_execute_goes [OF k l' i ok(1)] gen_replace_goes [OF k l' i ok b']
        gen_trade_goes [OF k l' i ok(1)] unfolding n by presburger
  qed
qed

subsection \<open>The whole file\<close>

lemma next_ref_grows: "unat x < 2 ^ 63 \<Longrightarrow> x < x + 1 \<and> unat (x + 1) = Suc (unat x)" for x :: u64
  by (simp add: word_less_nat_alt unat_word_ariths)

lemma gen_loop_goes:
  assumes "generated V symbols g R" and "symbols_ok symbols" "prices_fit V symbols"
    and "gn_next_ref g \<noteq> 0" "unat (gn_next_ref g) \<le> Suc (wr_count w)" "target < 2 ^ 60"
  shows "\<exists>es h. gen_loop symbols target g w = Some (h, fold write_event es w) \<and> (\<forall>e \<in> set es. event_ok e)
    \<and> generated V symbols h (fold (feed_step V) es R) \<and> wr_count w + length es = max target (wr_count w)"
  using assms
proof (induction "target - wr_count w" arbitrary: g w R)
  case 0
  then show ?case by (intro exI [of _ "[]"] exI [of _ g]) (simp add: gen_loop.simps [of symbols target])
next
  case (Suc k)
  then have c: "wr_count w < target" by simp
  have u: "unat (gn_next_ref g) < 2 ^ 63" using Suc.prems(5,6) c by simp
  have b: "gn_next_ref g < gn_next_ref g + 1" "unat (gn_next_ref g + 1) = Suc (unat (gn_next_ref g))" using next_ref_grows [OF u] by blast+
  obtain e h where e: "gen_step symbols g = Some (e, h)" "event_ok e" "generated V symbols h (feed_step V e R)"
    and n: "gn_next_ref h = gn_next_ref g \<or> gn_next_ref h = gn_next_ref g + 1"
    using gen_step_goes [OF Suc.prems(1-4) b(1)] by (auto simp: goes_on_def)
  have n': "gn_next_ref h \<noteq> 0" "unat (gn_next_ref h) \<le> Suc (wr_count (write_event e w))"
    using n b(2) Suc.prems(4,5) by (auto simp: write_event_count)
  have "k = target - wr_count (write_event e w)" using Suc.hyps(2) by (simp add: write_event_count)
  from Suc.hyps(1) [OF this e(3) Suc.prems(2,3) n' Suc.prems(6)] obtain es i where
    i: "gen_loop symbols target h (write_event e w) = Some (i, fold write_event es (write_event e w))" "\<forall>e \<in> set es. event_ok e"
      "generated V symbols i (fold (feed_step V) es (feed_step V e R))"
      "wr_count (write_event e w) + length es = max target (wr_count (write_event e w))" by blast
  then show ?case using e c
    by (intro exI [of _ "e # es"] exI [of _ i]) (simp add: gen_loop.simps [of symbols target g] write_event_count)
qed

definition head_events :: "Symbol list \<Rightarrow> feed_event list" where
  "head_events symbols = SystemEv day_open (ch CHR ''O'') # map (\<lambda>s. DirectoryEv day_open s (ch CHR ''Q'')) symbols
     @ [SystemEv (day_open + 1800 * 1000000000) (ch CHR ''Q'')]"

lemma gen_head_events: "gen_head symbols = fold write_event (head_events symbols) writer_new"
proof -
  have "write_event (DirectoryEv t s c) = write_stock_directory t s c" for t s c by (simp add: fun_eq_iff)
  then show ?thesis by (simp add: gen_head_def head_events_def fold_map comp_def)
qed

lemma quiet_events:
  assumes "keeps V F R" and "\<forall>e \<in> set es. (\<exists>t c. e = SystemEv t c) \<or> (\<exists>t s c. e = DirectoryEv t s c)"
  shows "keeps V F (fold (feed_step V) es R)"
  using assms by (induction es arbitrary: R) (auto intro: keeps_quiet)

lemma gen_run:
  assumes ok: "symbols_ok symbols" "prices_fit V symbols" and t: "target < 2 ^ 60"
  obtains es F L bound where "gen_itch symbols target seed = Some (wr_buf (fold write_event es writer_new), length L)"
    and "\<forall>e \<in> set es. event_ok e" and "length es = max target (length symbols + 2) + 2"
    and "keeps V F (fold (feed_step V) es (track_only [] (replayer_new amulti_new)))" and "live_ok symbols bound L F"
proof -
  let ?hs = "head_events symbols" and ?R = "track_only [] (replayer_new amulti_new) :: AMulti Replayer"
  let ?t = "16 * 3600 * 1000000000 :: u64"
  let ?ts = "[SystemEv ?t (ch CHR ''M''), SystemEv (?t + 1) (ch CHR ''C'')]"
  define g where "g = \<lparr>gn_seed = seed, gn_ts = day_open + 1800 * 1000000000, gn_live = [], gn_next_ref = 1, gn_match_number = 1\<rparr>"
  have H: "\<forall>e \<in> set ?hs. event_ok e" "length ?hs = length symbols + 2"
    using ok(1) by (auto simp: head_events_def event_ok_def symbol_ok_def wire_price_def symbols_ok_def)
  have hk: "keeps V (\<lambda>_ _. []) (fold (feed_step V) ?hs ?R)"
    by (rule quiet_events [OF keeps_new]) (auto simp: head_events_def)
  have c: "wr_count (gen_head symbols) = length symbols + 2"
    using write_events_append(2) [of ?hs writer_new] H by (simp add: gen_head_events event_ok_def writer_new_def)
  have "live_ok symbols (gn_next_ref g) (gn_live g) (\<lambda>_ _. [])" by (simp add: live_ok_def g_def)
  then have "generated V symbols g (fold (feed_step V) ?hs ?R)" using hk by (auto simp: generated_def)
  from gen_loop_goes [OF this ok, of "gen_head symbols" target] t c
  obtain es h where es: "gen_loop symbols target g (gen_head symbols) = Some (h, fold write_event es (gen_head symbols))" "\<forall>e \<in> set es. event_ok e"
    "generated V symbols h (fold (feed_step V) es (fold (feed_step V) ?hs ?R))" "length symbols + 2 + length es = max target (length symbols + 2)"
    by (auto simp: g_def)
  obtain F where F: "keeps V F (fold (feed_step V) es (fold (feed_step V) ?hs ?R))" "live_ok symbols (gn_next_ref h) (gn_live h) F"
    using es(3) by (auto simp: generated_def)
  have K: "keeps V F (fold (feed_step V) ?ts (fold (feed_step V) es (fold (feed_step V) ?hs ?R)))"
    by (rule quiet_events [OF F(1)]) auto
  have x: "gen_itch symbols target seed = Some (wr_buf (fold write_event (?hs @ es @ ?ts) writer_new), length (gn_live h))"
    unfolding gen_itch_def Let_def g_def [symmetric] es(1) by (simp add: gen_head_events)
  have e: "\<forall>e \<in> set (?hs @ es @ ?ts). event_ok e" using H(1) es(2) by (auto simp: event_ok_def symbol_ok_def wire_price_def)
  show thesis by (rule that [OF x e _ _ F(2)]) (use K H(2) es(4) in simp_all)
qed

lemma frames_short: "\<forall>e \<in> set es. symbol_ok e \<Longrightarrow> length (concat (map event_frame es)) \<le> 52 * length es"
proof (induction es)
  case (Cons e es)
  then show ?case using type_length_bounds(2) [of "event_type e"] by (simp add: event_frame_def event_message_length)
qed simp

text \<open>No book of the replay is crossed.\<close>

lemma not_crossed:
  assumes l: "live_ok symbols bound L F" and d: "distinct symbols" and r: "resting P Bid b = Some (F s Bid)" "resting P Ask b = Some (F s Ask)"
  shows "\<not> crossed P b"
proof
  assume "crossed P b"
  then obtain bid ask where x: "bid \<in> set (F s Bid)" "ask \<in> set (F s Ask)" "fst ask \<le> fst bid"
    using r by (auto simp: crossed_def split: list.splits)
  obtain lo where lo: "lo \<in> set L" "symbols ! lo_symbol_index lo = s" "passive_price symbols (lo_symbol_index lo) Bid (fst bid)"
    using live_okD(4) [OF l, of "fst bid" "snd bid" s Bid] x(1) by auto
  obtain lo' where lo': "lo' \<in> set L" "symbols ! lo_symbol_index lo' = s" "passive_price symbols (lo_symbol_index lo') Ask (fst ask)"
    using live_okD(4) [OF l, of "fst ask" "snd ask" s Ask] x(2) by auto
  have "lo_symbol_index lo = lo_symbol_index lo'"
    using nth_eq_iff_index_eq [OF d] live_okD(2) [OF l lo(1)] live_okD(2) [OF l lo'(1)] lo(2) lo'(2) by metis
  then show False using lo(3) lo'(3) x(3) by (simp add: passive_price_def)
qed

lemma kept_books_uncrossed:
  assumes k: "keeps V F R" and l: "live_ok symbols bound L F" and d: "distinct symbols" and sim: "books_sim P V n bs (am_books (rp_books R))"
  shows "filter (\<lambda>(s, b). crossed P b) bs = []"
proof -
  have "\<not> crossed P b" if m: "(s, b) \<in> set bs" for s b
  proof -
    obtain i where i: "i < length bs" "bs ! i = (s, b)" using m unfolding in_set_conv_nth by blast
    obtain t B where B: "am_books (rp_books R) ! i = (t, B)" by force
    have "length bs = length (am_books (rp_books R))" "s = t" "implements P V b B"
      using sim i B unfolding books_sim_def list_all2_conv_all_nth by auto
    moreover from this have "(s, B) \<in> set (am_books (rp_books R))" using i(1) B by (metis nth_mem)
    then have "B = book_at s (rp_books R)" using keepsD(9) [OF k] by (simp add: book_at_def am_book_def)
    then have "flat (ab_levels B u) = F s u" for u using keepsD(2) [OF k, of s] by (metis flats_def)
    ultimately have "resting P Bid b = Some (F s Bid)" "resting P Ask b = Some (F s Ask)"
      using implementsD(3) [of P V b B] by simp_all
    then show ?thesis using not_crossed [OF l d] by blast
  qed
  then show ?thesis by (auto simp: filter_empty_conv)
qed

lemma kept_orders: "keeps V F R \<Longrightarrow> live_ok symbols bound L F \<Longrightarrow> card (dom (am_owner (rp_books R))) = length L"
proof -
  assume k: "keeps V F R" and l: "live_ok symbols bound L F"
  have "dom (am_owner (rp_books R)) = set (map lo_ref L)"
    using keepsD(3) [OF k] live_ids(1) [OF l] by (fastforce simp: dom_def)
  then show ?thesis using distinct_card [OF live_okD(1) [OF l]] by simp
qed

lemma gen_symbols_ok: "length (gen_symbols csv) \<le> 10000 \<Longrightarrow> symbols_ok (gen_symbols csv)"
proof -
  have "s \<in> set (split_csv cs cur) \<Longrightarrow> length s = 8" for s cs cur
    by (induction cs cur rule: split_csv.induct) (auto split: if_splits)
  then show "length (gen_symbols csv) \<le> 10000 \<Longrightarrow> symbols_ok (gen_symbols csv)"
    by (auto simp: symbols_ok_def gen_symbols_def parse_symbols_def Let_def)
qed

text \<open>C26: Every file the generator writes for different tickers, at most 10000 of them, and at most 20000000 messages is one the replay tool accepts when it replays all symbols on ladders that accept the prices the generator chooses from, whatever the seed and the way the file is read.  These prices lie between 749500 and 250000 times the number of tickers plus 500500: the tree ladders accept them all, the dense ladder of the tool, up to 2000000, those of up to five tickers.  Accepting means: all bytes are read as messages, as many as were asked for and the closing two, every message finds its order, nothing is clamped or skipped, no book is crossed, exactly the orders the generator believes open rest in the books, and the exit code is 0.\<close>

theorem generated_file_clean:
  assumes "lawful P l" and "distinct (gen_symbols csv)" and "length (gen_symbols csv) \<le> 10000" and "target_messages \<le> 20000000"
    and "prices_fit (pol_valid_price P l) (gen_symbols csv)" and "opt_symbols opt1 = []"
  shows "\<exists>data still_open r R. gen_main csv target_messages seed = Some (data, still_open)
    \<and> replay_file P l [] data = Some (r, R) \<and> read_ok r \<and> rr_messages r = max target_messages (length (gen_symbols csv) + 2) + 2
    \<and> st_unknown_reference (rp_stats R) = 0 \<and> st_clamped (rp_stats R) = 0 \<and> st_skipped_symbol (rp_stats R) = 0
    \<and> mb_tracked_orders (rp_books R) = still_open \<and> replay_run P l opt1 data = Some 0"
proof -
  let ?V = "pol_valid_price P l" and ?ss = "gen_symbols csv"
  have t: "target_messages < 2 ^ 60" using assms(4) by simp
  obtain es F L bound where es: "gen_itch ?ss target_messages seed = Some (wr_buf (fold write_event es writer_new), length L)"
    "\<forall>e \<in> set es. event_ok e" "length es = max target_messages (length ?ss + 2) + 2"
    and k: "keeps ?V F (fold (feed_step ?V) es (track_only [] (replayer_new amulti_new)))" and l: "live_ok ?ss bound L F"
    by (rule gen_run [OF gen_symbols_ok [OF assms(3)] assms(5) t])
  let ?data = "wr_buf (fold write_event es writer_new)"
  have ok: "\<forall>e \<in> set es. symbol_ok e" using es(2) by (simp add: event_ok_def)
  have "length es \<le> 20000002" using es(3) assms(3,4) by simp
  then have len: "length ?data < 2 ^ 30"
    using frames_short [OF ok] write_events_append(1) [OF ok, of writer_new] by (simp add: writer_new_def)
  have count: "wr_count (fold write_event es writer_new) = length es"
    using write_events_append(2) [OF ok, of writer_new] by (simp add: writer_new_def)
  obtain r R A n where R: "replay_file P l [] ?data = Some (r, R)" "abs_replay_file ?V [] ?data = Some (r, A)" "rp_sim P l n R A"
    "mb_tracked_orders (rp_books R) = card (dom (am_owner (rp_books A)))"
    using replay_file_sim [OF assms(1) len, of "[]"] replay_facts [OF assms(1) len, of "[]"] unfolding replayed_def by auto
  have "(r, A) = (read_result_default\<lparr>rr_messages := length es, rr_offset := length ?data\<rparr>,
      fold (feed_step ?V) es (track_only [] (replayer_new amulti_new)))"
    using R(2) unfolding abs_replay_file_def written_feed_back [OF ok] handle_written [OF es(2)] count by simp
  then have r: "read_ok r" "rr_messages r = length es" and A: "keeps ?V F A"
    using k by (simp_all add: read_ok_def read_result_default_def)
  have sim: "books_sim P ?V n (mb_books (rp_books R)) (am_books (rp_books A))" using rp_simD [OF R(3)] by (simp add: multi_sim_def)
  note clean = kept_books_uncrossed [OF A l assms(2) sim]
  obtain books R' pm As m where w: "mb_new = Some books" "replay_input P l opt1 ?data books = Some (r, R', pm)" "R' = R"
      "books_sim P ?V m (mb_books (rp_books R')) As" "\<forall>(s, A) \<in> set As. balanced A"
    using replay_input_sim [OF assms(1) len, of opt1] written_small [OF ok] R(1) assms(6) by auto
  obtain rows where "check_and_report P (mb_books (rp_books R)) = Some (0, rows)"
    using check_and_report_sim [OF w(4,5)] clean w(3) by auto
  moreover have "?data \<noteq> []" using write_events_append(1) [OF ok, of writer_new] es(3)
    by (cases es) (auto simp: event_frame_def event_message_def writer_new_def)
  ultimately have run: "replay_run P l opt1 ?data = Some 0" using r(1) by (simp add: replay_run_def w(1,2,3))
  have "rp_stats R = rp_stats A" using R(3) by (simp add: rp_sim_def)
  then show ?thesis using es R(1,4) r run keepsD(5-7) [OF A] kept_orders [OF A l]
    by (intro exI [of _ ?data] exI [of _ "length L"] exI [of _ r] exI [of _ R]) (simp add: gen_main_def)
qed

theorem generated_file_clean_witness:
  "\<exists>data still_open. gen_main [] 1000 7 = Some (data, still_open)
    \<and> replay_run dense_open_policy (dl_new 0 2000000) (options_default\<lparr>opt_dense := True\<rparr>) data = Some 0"
proof -
  have s: "gen_symbols [] = map (\<lambda>s. symbol_of (ascii s)) [''AAPL'', ''MSFT'', ''TSLA'', ''NVDA'']"
    by (simp add: gen_symbols_def parse_symbols_def)
  have n: "length (gen_symbols []) = 4" unfolding s by simp
  have "distinct (gen_symbols [])" unfolding s by (simp add: symbol_of_def ascii_def ch_def Let_def)
  moreover have "prices_fit (pol_valid_price dense_open_policy (dl_new 0 2000000)) (gen_symbols [])"
    by (simp add: prices_fit_def n dense_open_policy_def policy.make_def dl_valid_price_def dl_new_def Let_def)
  moreover have "lawful dense_open_policy (dl_new 0 2000000)" by (rule lawful_policies(6)) simp_all
  ultimately show ?thesis
    using generated_file_clean [of dense_open_policy "dl_new 0 2000000" "[]" 1000 "options_default\<lparr>opt_dense := True\<rparr>" 7]
    by (auto simp: n options_default_def)
qed

end
