(* ===== verification/BookStats.thy ===== *)
theory BookStats
  imports ReplayProperties
begin

text \<open>
  The statistics of a trading day (\<^verbatim>\<open>tools/book_stats.cpp\<close>): the observer that is fed while a file is replayed, the
  samples taken of the books, and the run.  A hash map that is looped over is a list of pairs, one that is only looked up
  a map.  Printing and the CSV files are left out, and of a percentile the product of floating-point numbers.
\<close>

subsection \<open>The observer\<close>

definition kLifetime :: "u64 list" where
  "kLifetime = [1000, 10000, 100000, 1000000, 10000000, 100000000, 1000000000, 10000000000, 60000000000, 600000000000, NOT 0]"

definition kLifetimeSample :: OrderId where
  "kLifetimeSample = 64"

record SymbolCounters =
  sc_adds :: u64
  sc_removes :: u64
  sc_executions :: u64

record StatsObserver =
  so_sym :: "(u64 \<times> SymbolCounters) list"
  so_size_hist :: "(Qty \<times> u64) list"
  so_birth :: "OrderId \<rightharpoonup> u64"
  so_owner :: "OrderId \<rightharpoonup> u64"
  so_lifetimes :: "u64 list"
  so_lifetime_hist :: "u64 list"
  so_lifetime_total :: u64
  so_lifetime_n :: u64
  so_adds :: u64
  so_removes :: u64
  so_executions :: u64
  so_replaces :: u64
  so_total_added_shares :: u64
  so_executed_shares :: u64

definition stats_observer_new :: StatsObserver where
  "stats_observer_new = \<lparr>so_sym = [], so_size_hist = [], so_birth = Map.empty, so_owner = Map.empty, so_lifetimes = [],
     so_lifetime_hist = replicate (length kLifetime) 0, so_lifetime_total = 0, so_lifetime_n = 0, so_adds = 0, so_removes = 0,
     so_executions = 0, so_replaces = 0, so_total_added_shares = 0, so_executed_shares = 0\<rparr>"

text \<open>\<^verbatim>\<open>m[k]\<close>, updated; \<open>z\<close> is the value of a new key.\<close>

fun at_key :: "'v \<Rightarrow> ('v \<Rightarrow> 'v) \<Rightarrow> 'k \<Rightarrow> ('k \<times> 'v) list \<Rightarrow> ('k \<times> 'v) list" where
  "at_key z f k [] = [(k, f z)]"
| "at_key z f k ((j, v) # m) = (if j = k then (j, f v) # m else (j, v) # at_key z f k m)"

definition at_symbol :: "(SymbolCounters \<Rightarrow> SymbolCounters) \<Rightarrow> u64 \<Rightarrow> StatsObserver \<Rightarrow> StatsObserver" where
  "at_symbol f bits ob = ob\<lparr>so_sym := at_key \<lparr>sc_adds = 0, sc_removes = 0, sc_executions = 0\<rparr> f bits (so_sym ob)\<rparr>"

definition stats_on_added :: "OrderId \<Rightarrow> Symbol \<Rightarrow> Qty \<Rightarrow> u64 \<Rightarrow> StatsObserver \<Rightarrow> StatsObserver" where
  "stats_on_added oid s qty ts ob =
     (let ob = at_symbol (\<lambda>c. c\<lparr>sc_adds := sc_adds c + 1\<rparr>) (symbol_bits s) ob;
          ob = ob\<lparr>so_size_hist := at_key 0 (\<lambda>n. n + 1) qty (so_size_hist ob)\<rparr>;
          ob = ob\<lparr>so_total_added_shares := so_total_added_shares ob + ucast qty\<rparr>;
          ob = ob\<lparr>so_adds := so_adds ob + 1\<rparr>;
          ob = (if oid mod kLifetimeSample = 0 then ob\<lparr>so_birth := (so_birth ob)(oid \<mapsto> ts)\<rparr> else ob)
      in ob\<lparr>so_owner := (so_owner ob)(oid \<mapsto> symbol_bits s)\<rparr>)"

definition stats_on_replaced :: "OrderId \<Rightarrow> OrderId \<Rightarrow> Qty \<Rightarrow> u64 \<Rightarrow> StatsObserver \<Rightarrow> StatsObserver" where
  "stats_on_replaced old_id new_id qty ts ob =
     (let bits = (case so_owner ob old_id of None \<Rightarrow> 0 | Some bits \<Rightarrow> bits);
          ob = (if bits \<noteq> 0 then
                  (let ob = at_symbol (\<lambda>c. c\<lparr>sc_adds := sc_adds c + 1\<rparr>) bits ob
                   in ob\<lparr>so_owner := (so_owner ob)(new_id \<mapsto> bits)\<rparr>)
                else ob);
          ob = ob\<lparr>so_size_hist := at_key 0 (\<lambda>n. n + 1) qty (so_size_hist ob)\<rparr>;
          ob = ob\<lparr>so_total_added_shares := so_total_added_shares ob + ucast qty\<rparr>;
          ob = ob\<lparr>so_adds := so_adds ob + 1\<rparr>;
          ob = ob\<lparr>so_replaces := so_replaces ob + 1\<rparr>
      in if new_id mod kLifetimeSample = 0 then ob\<lparr>so_birth := (so_birth ob)(new_id \<mapsto> ts)\<rparr> else ob)"

definition stats_on_reduced :: "OrderId \<Rightarrow> Qty \<Rightarrow> bool \<Rightarrow> StatsObserver \<Rightarrow> StatsObserver" where
  "stats_on_reduced oid qty executed ob =
     (let ob = (case so_owner ob oid of
                  None \<Rightarrow> ob
                | Some bits \<Rightarrow> if executed then at_symbol (\<lambda>c. c\<lparr>sc_executions := sc_executions c + 1\<rparr>) bits ob else ob)
      in if executed then ob\<lparr>so_executed_shares := so_executed_shares ob + ucast qty, so_executions := so_executions ob + 1\<rparr> else ob)"

text \<open>The loop over the buckets.\<close>

fun count_life :: "u64 \<Rightarrow> u64 list \<Rightarrow> u64 list \<Rightarrow> u64 list" where
  "count_life life (upper_ns # us) (n # hist) = (if life < upper_ns then (n + 1) # hist else n # count_life life us hist)"
| "count_life life us hist = hist"

definition stats_on_removed :: "OrderId \<Rightarrow> u64 \<Rightarrow> StatsObserver \<Rightarrow> StatsObserver" where
  "stats_on_removed oid ts ob =
     (let ob = (case so_owner ob oid of
                  None \<Rightarrow> ob
                | Some bits \<Rightarrow>
                    (let ob = at_symbol (\<lambda>c. c\<lparr>sc_removes := sc_removes c + 1\<rparr>) bits ob
                     in ob\<lparr>so_owner := (so_owner ob)(oid := None)\<rparr>));
          ob = ob\<lparr>so_removes := so_removes ob + 1\<rparr>
      in case so_birth ob oid of
           None \<Rightarrow> ob
         | Some birth \<Rightarrow>
             (let ob = (if ts \<ge> birth then
                          (let life = ts - birth
                           in ob\<lparr>so_lifetime_total := so_lifetime_total ob + life, so_lifetime_n := so_lifetime_n ob + 1,
                                 so_lifetimes := so_lifetimes ob @ [life],
                                 so_lifetime_hist := count_life life kLifetime (so_lifetime_hist ob)\<rparr>)
                        else ob)
              in ob\<lparr>so_birth := (so_birth ob)(oid := None)\<rparr>))"

fun stats_call :: "observer_call \<Rightarrow> StatsObserver \<Rightarrow> StatsObserver" where
  "stats_call (OnAdded oid s side p q ts) ob = stats_on_added oid s q ts ob"
| "stats_call (OnReplaced old_id new_id p q ts) ob = stats_on_replaced old_id new_id q ts ob"
| "stats_call (OnReduced oid q executed ts) ob = stats_on_reduced oid q executed ob"
| "stats_call (OnRemoved oid ts) ob = stats_on_removed oid ts ob"

definition stats_observer :: "'b Replayer \<Rightarrow> StatsObserver" where
  "stats_observer R = fold stats_call (rp_calls R) stats_observer_new"

subsection \<open>Samples of the books\<close>

record Samples =
  sm_levels :: "u64 list"
  sm_spans :: "u64 list"
  sm_touch :: "u64 list"
  sm_widest_book :: u64
  sm_widest_symbol :: "Symbol option"
  sm_widest_span :: u64
  sm_widest_span_symbol :: "Symbol option"
  sm_ticks :: u64

definition samples_new :: Samples where
  "samples_new = \<lparr>sm_levels = [], sm_spans = [], sm_touch = [], sm_widest_book = 0, sm_widest_symbol = None, sm_widest_span = 0,
     sm_widest_span_symbol = None, sm_ticks = 0\<rparr>"

text \<open>The visitor of the levels: their number, and the first and the last price.\<close>

definition side_levels :: "Level list \<Rightarrow> u64 \<times> Price \<times> Price" where
  "side_levels lvls = fold (\<lambda>lvl (n, best_price, worst_price).
     (n + 1, if n = 0 then lvl_price lvl else best_price, lvl_price lvl)) lvls (0, 0, 0)"

definition sample_side :: "('l, 'm) policy \<Rightarrow> Symbol \<Rightarrow> ('l, 'm) OrderBook \<Rightarrow> Side \<Rightarrow> u64 \<times> Samples \<Rightarrow> (u64 \<times> Samples) option" where
  "sample_side P s b side = (\<lambda>(levels, sm). do {
     lvls \<leftarrow> pol_visit P side (bk_ladder b);
     let (n, best_price, worst_price) = side_levels lvls;
     let levels = levels + n;
     if n > 0 then
       (let lo = (if best_price < worst_price then best_price else worst_price);
            hi = (if best_price < worst_price then worst_price else best_price);
            span = word_of_int (hi - lo) + 1;
            sm = sm\<lparr>sm_spans := sm_spans sm @ [span]\<rparr>
        in Some (levels, if span > sm_widest_span sm then sm\<lparr>sm_widest_span := span, sm_widest_span_symbol := Some s\<rparr> else sm))
     else Some (levels, sm) })"

definition push_touch :: "Level option \<Rightarrow> Samples \<Rightarrow> Samples" where
  "push_touch lvl sm = (case lvl of None \<Rightarrow> sm | Some lvl \<Rightarrow> sm\<lparr>sm_touch := sm_touch sm @ [ucast (lvl_order_count lvl)]\<rparr>)"

definition sample_book :: "('l, 'm) policy \<Rightarrow> Symbol \<Rightarrow> ('l, 'm) OrderBook \<Rightarrow> Samples \<Rightarrow> Samples option" where
  "sample_book P s b sm =
     (if open_orders P b = 0 then Some sm
      else do {
        st \<leftarrow> sample_side P s b Bid (0, sm);
        (levels, sm) \<leftarrow> sample_side P s b Ask st;
        let sm = sm\<lparr>sm_levels := sm_levels sm @ [levels]\<rparr>;
        let sm = (if levels > sm_widest_book sm then sm\<lparr>sm_widest_book := levels, sm_widest_symbol := Some s\<rparr> else sm);
        bid \<leftarrow> best_level P Bid b;
        ask \<leftarrow> best_level P Ask b;
        Some (push_touch ask (push_touch bid sm)) })"

fun sample_each :: "('l, 'm) policy \<Rightarrow> (Symbol \<times> ('l, 'm) OrderBook) list \<Rightarrow> Samples \<Rightarrow> Samples option" where
  "sample_each P [] sm = Some sm"
| "sample_each P ((s, b) # bs) sm = do { sm \<leftarrow> sample_book P s b sm; sample_each P bs sm }"

definition sample_books :: "('l, 'm) policy \<Rightarrow> ('l, 'm) MultiBook \<Rightarrow> Samples \<Rightarrow> Samples option" where
  "sample_books P M sm = sample_each P (mb_books M) (sm\<lparr>sm_ticks := sm_ticks sm + 1\<rparr>)"

subsection \<open>The run\<close>

definition stats_message :: "('l, 'm) policy \<Rightarrow> 'l \<Rightarrow> u64 \<Rightarrow> (('l, 'm) MultiBook Replayer \<times> u64 \<times> Samples) handler" where
  "stats_message P l sample_every m len = (\<lambda>(rep, since_sample, sm). do {
     rep \<leftarrow> replay_apply P l m len rep;
     let since_sample = since_sample + 1;
     if since_sample \<ge> sample_every then do {
       sm \<leftarrow> sample_books P (rp_books rep) sm;
       Some (rep, 0, sm) }
     else Some (rep, since_sample, sm) })"

text \<open>The exit code, the replayer and the samples.\<close>

definition stats_run ::
  "('l, 'm) policy \<Rightarrow> 'l \<Rightarrow> u64 \<Rightarrow> Symbol list \<Rightarrow> bytes option \<Rightarrow> (int \<times> ('l, 'm) MultiBook Replayer \<times> Samples) option" where
  "stats_run P l sample_every symbols path =
     (let sample_every = (if sample_every = 0 then 1 else sample_every) in do {
      books \<leftarrow> mb_new;
      let rep = replayer_new books;
      let rep = (if symbols \<noteq> [] then track_only symbols rep else rep);
      (r, rep, since_sample, sm) \<leftarrow>
        for_each_framed_stream path (stats_message P l sample_every) (32 * 2 ^ 20) (rep, 0, samples_new);
      if \<not> read_ok r then Some (1, rep, sm)
      else do {
        sm \<leftarrow> sample_books P (rp_books rep) sm;
        Some (0, rep, sm) } })"

definition stats_main ::
  "u64 \<Rightarrow> Symbol list \<Rightarrow> bytes option \<Rightarrow> (int \<times> (PooledMapLadder, addr OpenMap) MultiBook Replayer \<times> Samples) option" where
  "stats_main = stats_run pooled_open_policy pm_new"

subsection \<open>What is made of it\<close>

text \<open>\<^verbatim>\<open>pct\<close>, where \<open>i\<close> is \<^verbatim>\<open>q * sorted.size()\<close> cut to an integer.\<close>

definition pct :: "u64 list \<Rightarrow> nat \<Rightarrow> u64" where
  "pct samples i = (if samples = [] then 0 else (let i = (if i \<ge> length samples then length samples - 1 else i) in samples ! i))"

definition round_lots :: "StatsObserver \<Rightarrow> u64 \<times> u64" where
  "round_lots ob = fold (\<lambda>(q, n) (round_lots, all_orders).
     (if q mod 100 = 0 then round_lots + n else round_lots, all_orders + n)) (so_size_hist ob) (0, 0)"

definition levels_hist :: "u64 list \<Rightarrow> (u64 \<times> u64) list" where
  "levels_hist vs = fold (\<lambda>v. at_key 0 (\<lambda>n. n + 1) (if v > 400 then 400 else v)) vs []"

text \<open>\<^verbatim>\<open>while (bucket * 2 <= v) bucket *= 2;\<close>\<close>

partial_function (option) span_bucket :: "u64 \<Rightarrow> u64 \<Rightarrow> u64 option" where
  "span_bucket bucket v = (if bucket * 2 \<le> v then span_bucket (bucket * 2) v else Some bucket)"

fun spans_hist :: "u64 list \<Rightarrow> (u64 \<times> u64) list \<Rightarrow> (u64 \<times> u64) list option" where
  "spans_hist [] shist = Some shist"
| "spans_hist (v # vs) shist = do { bucket \<leftarrow> span_bucket 1 v; spans_hist vs (at_key 0 (\<lambda>n. n + 1) bucket shist) }"

subsection \<open>The observer on its own\<close>

lemma at_key_sum:
  assumes "g z = 0" and "\<And>v. g (f v) = g v + d"
  shows "(\<Sum>(j, v)\<leftarrow>at_key z f k m. g v) = (\<Sum>(j, v)\<leftarrow>m. g v) + (d :: u64)"
proof (induction m)
  case (Cons x m)
  then show ?case by (cases x) (simp add: assms algebra_simps)
qed (simp add: assms)

definition sym_sum :: "(SymbolCounters \<Rightarrow> u64) \<Rightarrow> StatsObserver \<Rightarrow> u64" where
  "sym_sum f ob = (\<Sum>(bits, c)\<leftarrow>so_sym ob. f c)"

lemma sym_sum_plus:
  assumes "f \<lparr>sc_adds = 0, sc_removes = 0, sc_executions = 0\<rparr> = 0" and "\<And>c. f (u c) = f c + d"
  shows "sym_sum f (at_symbol u bits ob) = sym_sum f ob + d"
  using at_key_sum [of f, OF assms, of bits "so_sym ob"] by (simp add: sym_sum_def at_symbol_def)

lemmas sym_sum_same = sym_sum_plus [where d = 0, simplified]

lemma sym_sum_at [simp]:
  "sym_sum sc_adds (at_symbol (\<lambda>c. c\<lparr>sc_adds := sc_adds c + 1\<rparr>) bits ob) = sym_sum sc_adds ob + 1"
  "sym_sum sc_removes (at_symbol (\<lambda>c. c\<lparr>sc_adds := sc_adds c + 1\<rparr>) bits ob) = sym_sum sc_removes ob"
  "sym_sum sc_executions (at_symbol (\<lambda>c. c\<lparr>sc_adds := sc_adds c + 1\<rparr>) bits ob) = sym_sum sc_executions ob"
  "sym_sum sc_adds (at_symbol (\<lambda>c. c\<lparr>sc_removes := sc_removes c + 1\<rparr>) bits ob) = sym_sum sc_adds ob"
  "sym_sum sc_removes (at_symbol (\<lambda>c. c\<lparr>sc_removes := sc_removes c + 1\<rparr>) bits ob) = sym_sum sc_removes ob + 1"
  "sym_sum sc_executions (at_symbol (\<lambda>c. c\<lparr>sc_removes := sc_removes c + 1\<rparr>) bits ob) = sym_sum sc_executions ob"
  "sym_sum sc_adds (at_symbol (\<lambda>c. c\<lparr>sc_executions := sc_executions c + 1\<rparr>) bits ob) = sym_sum sc_adds ob"
  "sym_sum sc_removes (at_symbol (\<lambda>c. c\<lparr>sc_executions := sc_executions c + 1\<rparr>) bits ob) = sym_sum sc_removes ob"
  "sym_sum sc_executions (at_symbol (\<lambda>c. c\<lparr>sc_executions := sc_executions c + 1\<rparr>) bits ob) = sym_sum sc_executions ob + 1"
  by (simp_all add: sym_sum_plus sym_sum_same)

lemma at_symbol_simps [simp]:
  "so_size_hist (at_symbol f k ob) = so_size_hist ob" "so_birth (at_symbol f k ob) = so_birth ob" "so_owner (at_symbol f k ob) = so_owner ob"
  "so_lifetimes (at_symbol f k ob) = so_lifetimes ob" "so_lifetime_hist (at_symbol f k ob) = so_lifetime_hist ob"
  "so_lifetime_total (at_symbol f k ob) = so_lifetime_total ob" "so_lifetime_n (at_symbol f k ob) = so_lifetime_n ob"
  "so_adds (at_symbol f k ob) = so_adds ob" "so_removes (at_symbol f k ob) = so_removes ob" "so_executions (at_symbol f k ob) = so_executions ob"
  "so_replaces (at_symbol f k ob) = so_replaces ob" "so_total_added_shares (at_symbol f k ob) = so_total_added_shares ob"
  "so_executed_shares (at_symbol f k ob) = so_executed_shares ob"
  by (simp_all add: at_symbol_def)

lemma sym_sum_only [simp]:
  "sym_sum f (ob\<lparr>so_size_hist := v1\<rparr>) = sym_sum f ob" "sym_sum f (ob\<lparr>so_birth := v2\<rparr>) = sym_sum f ob"
  "sym_sum f (ob\<lparr>so_owner := v2\<rparr>) = sym_sum f ob" "sym_sum f (ob\<lparr>so_lifetimes := v3\<rparr>) = sym_sum f ob"
  "sym_sum f (ob\<lparr>so_lifetime_hist := v3\<rparr>) = sym_sum f ob" "sym_sum f (ob\<lparr>so_lifetime_total := v4\<rparr>) = sym_sum f ob"
  "sym_sum f (ob\<lparr>so_lifetime_n := v4\<rparr>) = sym_sum f ob" "sym_sum f (ob\<lparr>so_adds := v4\<rparr>) = sym_sum f ob"
  "sym_sum f (ob\<lparr>so_removes := v4\<rparr>) = sym_sum f ob" "sym_sum f (ob\<lparr>so_executions := v4\<rparr>) = sym_sum f ob"
  "sym_sum f (ob\<lparr>so_replaces := v4\<rparr>) = sym_sum f ob" "sym_sum f (ob\<lparr>so_total_added_shares := v4\<rparr>) = sym_sum f ob"
  "sym_sum f (ob\<lparr>so_executed_shares := v4\<rparr>) = sym_sum f ob"
  by (simp_all add: sym_sum_def)

text \<open>The histograms hold what was counted.\<close>

definition counted_up :: "StatsObserver \<Rightarrow> bool" where
  "counted_up ob \<longleftrightarrow> (\<Sum>(q, n)\<leftarrow>so_size_hist ob. n) = so_adds ob \<and> length (so_lifetime_hist ob) = length kLifetime
     \<and> sum_list (so_lifetime_hist ob) = so_lifetime_n ob \<and> of_nat (length (so_lifetimes ob)) = so_lifetime_n ob
     \<and> sum_list (so_lifetimes ob) = so_lifetime_total ob"

lemma count_life_length [simp]: "length (count_life life us hist) = length hist"
  by (induction life us hist rule: count_life.induct) auto

lemma count_life_sum: "\<exists>u \<in> set us. life < u \<Longrightarrow> length hist = length us \<Longrightarrow> sum_list (count_life life us hist) = sum_list hist + 1"
  by (induction life us hist rule: count_life.induct) (auto simp: algebra_simps)

fun call_time :: "observer_call \<Rightarrow> u64" where
  "call_time (OnAdded oid s side p q ts) = ts"
| "call_time (OnReplaced old_id new_id p q ts) = ts"
| "call_time (OnReduced oid q executed ts) = ts"
| "call_time (OnRemoved oid ts) = ts"

lemma counted_up_call:
  assumes "counted_up ob" and "call_time c < 2 ^ 48"
  shows "counted_up (stats_call c ob)"
proof -
  have life: "sum_list (count_life (ts - birth) kLifetime (so_lifetime_hist ob)) = sum_list (so_lifetime_hist ob) + 1"
    if "ts < 2 ^ 48" "birth \<le> ts" for ts birth
  proof -
    have "ts - birth \<le> ts" using that(2) by (simp add: word_sub_le)
    also note that(1)
    also have "(2 ^ 48 :: u64) \<le> NOT 0" by simp
    finally have "ts - birth < NOT 0" .
    then show ?thesis using assms(1) by (intro count_life_sum) (auto simp: counted_up_def kLifetime_def)
  qed
  have size: "(\<Sum>(j, v)\<leftarrow>at_key 0 (\<lambda>n. n + 1) q (so_size_hist ob). v) = so_adds ob + 1" for q
    using at_key_sum [of "\<lambda>v. v" 0 "\<lambda>n. n + 1" 1 q "so_size_hist ob"] assms(1) by (simp add: counted_up_def)
  show ?thesis
  proof (cases c)
    case (OnAdded oid s side p q ts)
    then show ?thesis using assms(1) size by (simp add: counted_up_def stats_on_added_def Let_def)
  next
    case (OnReplaced old_id new_id p q ts)
    then show ?thesis using assms(1) size by (simp add: counted_up_def stats_on_replaced_def Let_def)
  next
    case (OnReduced oid q executed ts)
    then show ?thesis using assms(1) by (simp add: counted_up_def stats_on_reduced_def Let_def split: option.split)
  next
    case (OnRemoved oid ts)
    then show ?thesis using assms life by (auto simp: counted_up_def stats_on_removed_def Let_def split: option.split)
  qed
qed

text \<open>Every event is on the account of a symbol.\<close>

definition attributed :: "(OrderId \<rightharpoonup> Symbol) \<Rightarrow> StatsObserver \<Rightarrow> bool" where
  "attributed owner ob \<longleftrightarrow> dom owner \<subseteq> dom (so_owner ob) \<and> 0 \<notin> ran (so_owner ob)
     \<and> sym_sum sc_adds ob = so_adds ob \<and> sym_sum sc_removes ob = so_removes ob \<and> sym_sum sc_executions ob = so_executions ob"

lemma attributed_added:
  "attributed owner ob \<Longrightarrow> symbol_bits s \<noteq> 0 \<Longrightarrow> dom owner' \<subseteq> insert oid (dom owner) \<Longrightarrow> attributed owner' (stats_on_added oid s q ts ob)"
  by (auto simp: attributed_def stats_on_added_def Let_def ran_def)

lemma attributed_replaced:
  "attributed owner ob \<Longrightarrow> old_id \<in> dom (so_owner ob) \<Longrightarrow> dom owner' \<subseteq> insert new_id (dom owner) \<Longrightarrow>
   attributed owner' (stats_on_replaced old_id new_id q ts ob)"
  by (auto simp: attributed_def stats_on_replaced_def Let_def ran_def split: option.split) 

lemma attributed_reduced: "attributed owner ob \<Longrightarrow> oid \<in> dom owner \<Longrightarrow> attributed owner (stats_on_reduced oid q executed ob)"
  by (auto simp: attributed_def stats_on_reduced_def Let_def split: option.split)

lemma attributed_removed:
  assumes "attributed owner ob" and "oid \<in> dom owner"
  shows "attributed (owner(oid := None)) (stats_on_removed oid ts ob)"
  using assms by (auto simp: attributed_def stats_on_removed_def Let_def ran_def split: option.split)

subsection \<open>The observer of a replay\<close>

lemma take_byte: "8 \<le> n \<Longrightarrow> take_bit n (ucast x :: u64) = ucast x" for x :: u8
  by (rule bit_word_eqI) (auto simp: bit_simps dest: bit_imp_le_length)

lemma be48_bound: "be48 p i = Some v \<Longrightarrow> v < 2 ^ 48"
proof -
  assume "be48 p i = Some v"
  then have "take_bit 48 v = v"
    by (auto simp: be48_def take_bit_or take_bit_push_bit take_byte split: bind_splits)
  then have "unat v = take_bit 48 (unat v)" by (metis unsigned_take_bit_eq)
  then have "unat v < 2 ^ 48" by (metis take_bit_nat_less_exp)
  then show ?thesis by (simp add: word_less_nat_alt)
qed

fun feed_time :: "feed_msg \<Rightarrow> u64" where
  "feed_time (FeedAdd m) = ao_timestamp m"
| "feed_time (FeedExecuted m) = oe_timestamp m"
| "feed_time (FeedCancel m) = oc_timestamp m"
| "feed_time (FeedDelete m) = od_timestamp m"
| "feed_time (FeedReplace m) = or_timestamp m"
| "feed_time m = 0"

lemma decoded_time: "decode_feed msg = Some m \<Longrightarrow> feed_time m < 2 ^ 48"
  using be48_bound [of msg 5]
  by (auto simp: decode_feed_def decode_defs split: bind_splits option.splits MsgType.splits if_splits)

lemma stats_observer_simps [simp]:
  "stats_observer (observe c R) = stats_call c (stats_observer R)" "stats_observer (bump f R) = stats_observer R"
  "stats_observer (with_books g R) = stats_observer R" "rp_calls R = [] \<Longrightarrow> stats_observer R = stats_observer_new"
  by (simp_all add: stats_observer_def observe_def bump_def with_books_def)

definition agree :: "StatsObserver \<Rightarrow> ReplayStats \<Rightarrow> bool" where
  "agree ob st \<longleftrightarrow> so_adds ob = st_adds st + so_replaces ob \<and> so_executions ob = st_executions st
     \<and> so_total_added_shares ob = st_shares_added st \<and> so_executed_shares ob = st_shares_executed st"

definition all_named :: "AMulti \<Rightarrow> bool" where
  "all_named M \<longleftrightarrow> (\<forall>s \<in> fst ` set (am_books M). symbol_bits s \<noteq> 0)"

definition watched :: "AMulti Replayer \<Rightarrow> bool" where
  "watched R \<longleftrightarrow> agree (stats_observer R) (rp_stats R) \<and> counted_up (stats_observer R)
     \<and> (all_named (rp_books R) \<longrightarrow> attributed (am_owner (rp_books R)) (stats_observer R))"

lemma owner_simps [simp]:
  "am_owner (am_update s B M) = am_owner M" "am_owner (am_forget oid M) = (am_owner M)(oid := None)"
  "fst ` set (am_books (am_update s B M)) = fst ` set (am_books M)" "am_books (am_forget oid M) = am_books M"
  by (simp_all add: am_update_def am_forget_def image_image split_def)

lemma all_named_simps [simp]:
  "all_named (am_update s B M) = all_named M" "all_named (am_forget oid M) = all_named M" "all_named (am_note oid s M) = all_named M"
  by (auto simp: all_named_def am_update_def am_forget_def am_note_def)

lemma agree_calls:
  "agree ob st \<Longrightarrow> agree (stats_on_added oid s q ts ob) (c_add q st)"
  "agree ob st \<Longrightarrow> agree (stats_on_replaced old_id new_id q ts ob) (c_shares_added q st)"
  "agree ob st \<Longrightarrow> agree (stats_on_reduced oid q True ob) (c_execution q st)"
  "agree ob st \<Longrightarrow> agree (stats_on_reduced oid q False ob) st"
  "agree ob st \<Longrightarrow> agree (stats_on_removed oid ts ob) st"
  by (auto simp: agree_def stats_on_added_def stats_on_replaced_def stats_on_reduced_def stats_on_removed_def Let_def
    c_add_def c_shares_added_def c_execution_def algebra_simps split: option.split)

lemma agree_counts [simp]:
  "agree ob (c_time ts st) = agree ob st" "agree ob (c_unknown st) = agree ob st" "agree ob (c_skipped st) = agree ob st"
  "agree ob (c_clamp x y st) = agree ob st" "agree ob (c_cancel st) = agree ob st" "agree ob (c_delete st) = agree ob st"
  "agree ob (c_replace st) = agree ob st" "agree ob (c_trade st) = agree ob st" "agree ob (c_session c st) = agree ob st"
  "agree ob (c_message n st) = agree ob st"
  by (simp_all add: agree_def c_time_def c_unknown_def c_skipped_def c_clamp_def c_cancel_def c_delete_def c_replace_def c_trade_def
    c_session_def c_message_def)

lemma watched_bump [simp]:
  "(\<And>ob. agree ob (f (rp_stats R)) = agree ob (rp_stats R)) \<Longrightarrow> watched (bump f R) = watched R"
  by (simp add: watched_def)

lemma watched_update [simp]: "watched (with_books (am_update s B) R) = watched R"
  by (simp add: watched_def)

lemma watched_forget: "watched R \<Longrightarrow> watched (with_books (am_forget oid) R)"
  by (auto simp: watched_def attributed_def split: if_splits)

lemma watched_removed:
  assumes "watched R" and "oid \<in> dom (am_owner (rp_books R))" and "ts < 2 ^ 48"
  shows "watched (observe (OnRemoved oid ts) (with_books (am_forget oid) R))"
  using assms attributed_removed [of "am_owner (rp_books R)" "stats_observer R" oid ts] counted_up_call [of "stats_observer R" "OnRemoved oid ts"]
  by (simp add: watched_def agree_calls)

lemma watched_reduced:
  assumes "watched R" and "oid \<in> dom (am_owner (rp_books R))" and "ts < 2 ^ 48"
  shows "watched (observe (OnReduced oid q True ts) (bump (c_execution q) R))" and "watched (observe (OnReduced oid q False ts) R)"
  using assms attributed_reduced [of "am_owner (rp_books R)" "stats_observer R" oid q] counted_up_call [of "stats_observer R" "OnReduced oid q _ ts"]
  by (simp_all add: watched_def agree_calls)

lemma watched_entered:
  assumes "watched R" and "s \<in> fst ` set (am_books (rp_books R))" and "ts < 2 ^ 48"
  shows "watched (observe (OnAdded oid s side p q ts) (bump (c_add q) (with_books (am_note oid s) R)))"
    and "(all_named (rp_books R) \<Longrightarrow> old_id \<in> dom (so_owner (stats_observer R))) \<Longrightarrow>
      watched (observe (OnReplaced old_id oid p q ts) (bump (c_shares_added q) (with_books (am_note oid s) R)))"
proof -
  have o1: "dom (am_owner (am_note oid s (rp_books R))) \<subseteq> insert oid (dom (am_owner (rp_books R)))" by (auto simp: am_note_def)
  show "watched (observe (OnAdded oid s side p q ts) (bump (c_add q) (with_books (am_note oid s) R)))"
    using assms attributed_added [OF _ _ o1, of "stats_observer R" s q ts] counted_up_call [of "stats_observer R" "OnAdded oid s side p q ts"]
    by (simp add: watched_def agree_calls) (auto simp: all_named_def)
  show "watched (observe (OnReplaced old_id oid p q ts) (bump (c_shares_added q) (with_books (am_note oid s) R)))"
    if "all_named (rp_books R) \<Longrightarrow> old_id \<in> dom (so_owner (stats_observer R))"
    using assms that attributed_replaced [OF _ _ o1, of "stats_observer R" old_id q ts]
      counted_up_call [of "stats_observer R" "OnReplaced old_id oid p q ts"]
    by (simp add: watched_def agree_calls)
qed

lemma watched_take:
  assumes "watched A" and "oid \<in> dom (am_owner (rp_books A))" and "ts < 2 ^ 48"
  shows "watched (abs_take True oid q ts c_execution s B A)" and "watched (abs_take False oid q ts (\<lambda>_. c_cancel) s B A)"
proof -
  have "watched (abs_take is_exec oid q ts count s B A)"
    if r: "\<And>taken R. watched R \<Longrightarrow> oid \<in> dom (am_owner (rp_books R)) \<Longrightarrow> watched (observe (OnReduced oid taken is_exec ts) (bump (count taken) R))"
    for is_exec count
  proof -
    obtain x taken B' where c: "abs_consume oid q is_exec B = (x, taken, B')" by (metis prod_cases3)
    have "watched (bump (c_clamp taken q) (with_books (am_update s B') A))" using assms(1) by simp
    from r [OF this] have "watched (observe (OnReduced oid taken is_exec ts) (bump (count taken) (bump (c_clamp taken q) (with_books (am_update s B') A))))"
      using assms(2) by simp
    from this watched_removed [OF this _ assms(3), of oid] show ?thesis using assms(2) by (simp add: abs_take_def c Let_def)
  qed
  then show "watched (abs_take True oid q ts c_execution s B A)" "watched (abs_take False oid q ts (\<lambda>_. c_cancel) s B A)"
    using watched_reduced [OF _ _ assms(3)] by simp_all
qed

lemma watched_new_order:
  assumes "watched A" and "s \<in> fst ` set (am_books (rp_books A))" and "ts < 2 ^ 48"
  shows "watched (abs_new_order V oid side p q (c_add q) (OnAdded oid s side p q ts) s B A)"
    and "(all_named (rp_books A) \<Longrightarrow> old_id \<in> dom (so_owner (stats_observer A))) \<Longrightarrow>
      watched (abs_new_order V oid side p q (c_shares_added q) (OnReplaced old_id oid p q ts) s B A)"
  using assms watched_entered [OF _ _ assms(3), of "with_books (am_update s _) A"]
  by (simp_all add: abs_new_order_def Let_def split: prod.split)

lemma watched_feed:
  assumes w: "watched A" and t: "feed_time m < 2 ^ 48" and o1: "owners_ok (rp_books A)"
  shows "watched (abs_feed V m (bump (c_message len) A))"
proof -
  let ?A = "\<lambda>ts. bump (c_time ts) (bump (c_message len) A)"
  have w1: "watched (?A ts)" for ts using w by simp
  have routed: "watched (abs_routed oid f (?A ts))"
    if "\<And>s B. s \<in> fst ` set (am_books (rp_books A)) \<Longrightarrow> oid \<in> dom (am_owner (rp_books A)) \<Longrightarrow> watched (f s B (?A ts))" for oid f ts
  proof (cases "am_owner (rp_books A) oid")
    case None
    then show ?thesis using w1 [of ts] by (simp add: abs_routed_def)
  next
    case (Some s)
    then obtain B where "map_of (am_books (rp_books A)) s = Some B" using o1 by (auto simp: owners_ok_def)
    then have "s \<in> fst ` set (am_books (rp_books A))" by (force dest: map_of_SomeD)
    then show ?thesis using that [of s] Some by (simp add: abs_routed_def domI)
  qed
  show ?thesis
  proof (cases m)
    case (FeedAdd x)
    obtain B M where M: "am_book (ao_symbol x) (rp_books A) = (B, M)" by force
    then have "map_of (am_books M) (ao_symbol x) = Some B" by (auto simp: am_book_def map_add_def split: option.splits)
    then have n: "am_owner M = am_owner (rp_books A)" "all_named M \<Longrightarrow> all_named (rp_books A)" "ao_symbol x \<in> fst ` set (am_books M)"
      using M by (auto simp: am_book_def all_named_def split: option.splits) (metis fst_conv image_eqI map_of_SomeD)+
    have "watched (with_books (\<lambda>_. M) (?A (ao_timestamp x)))" using w1 [of "ao_timestamp x"] n by (auto simp: watched_def)
    from watched_new_order(1) [OF this] show ?thesis using n(3) t w1 [of "ao_timestamp x"] M by (simp add: FeedAdd Let_def)
  next
    case (FeedExecuted x)
    show ?thesis unfolding FeedExecuted abs_feed.simps using t w1 by (intro routed watched_take) (simp_all add: FeedExecuted)
  next
    case (FeedCancel x)
    show ?thesis unfolding FeedCancel abs_feed.simps using t w1 by (intro routed watched_take) (simp_all add: FeedCancel)
  next
    case (FeedDelete x)
    have "watched (bump c_delete (observe (OnRemoved (od_reference x) (od_timestamp x)) (with_books (am_forget (od_reference x))
        (with_books (am_update s B) (?A (od_timestamp x))))))" if "od_reference x \<in> dom (am_owner (rp_books A))" for s B
      using watched_removed [of "with_books (am_update s B) (?A (od_timestamp x))" "od_reference x" "od_timestamp x"] w1 that t
      by (simp add: FeedDelete)
    then show ?thesis unfolding FeedDelete abs_feed.simps by (intro routed) simp
  next
    case (FeedReplace x)
    have "watched (abs_new_order V i side p q (c_shares_added q) (OnReplaced old_id i p q (or_timestamp x)) s B
        (with_books (am_forget old_id) (with_books (am_update s C) (?A (or_timestamp x)))))"
      if "s \<in> fst ` set (am_books (rp_books A))" "old_id \<in> dom (am_owner (rp_books A))" for i side p q old_id s B C
    proof -
      have "watched (with_books (am_forget old_id) (with_books (am_update s C) (?A (or_timestamp x))))" using w1 by (intro watched_forget) simp
      moreover have "all_named (rp_books A) \<Longrightarrow> old_id \<in> dom (so_owner (stats_observer A))" using w that(2) by (auto simp: watched_def attributed_def)
      moreover have "or_timestamp x < 2 ^ 48" using t FeedReplace by simp
      ultimately show ?thesis using that(1) by (intro watched_new_order(2)) simp_all
    qed
    then show ?thesis unfolding FeedReplace abs_feed.simps using w1 [of "or_timestamp x"]
      by (intro routed) (auto simp: Let_def split: option.split)
  qed (use w in simp_all)
qed

lemma watched_new: "watched (track_only ss (replayer_new amulti_new))"
  by (simp add: watched_def track_only_def replayer_new_def agree_def stats_observer_new_def stats_zero_def counted_up_def
    attributed_def amulti_new_def sym_sum_def sum_list_replicate)

end
