(* ===== verification/StatsRun.thy ===== *)
theory StatsRun
  imports BookStats ReplayCheck
begin

text \<open>
  The run of the statistics tool: what the samples say of the books, and that observer and statistics agree.
\<close>

subsection \<open>Samples in terms of resting orders\<close>

text \<open>The prices of a side from best to worst, and what a sample makes of them.\<close>

definition side_prices :: "(Price \<times> entry) list \<Rightarrow> Price list" where
  "side_prices fs = remdups (map fst fs)"

definition span_of :: "Price list \<Rightarrow> u64 list" where
  "span_of ps = (if ps = [] then [] else [word_of_int \<bar>hd ps - last ps\<bar> + 1])"

definition touch_of :: "(Price \<times> entry) list \<Rightarrow> u64 list" where
  "touch_of fs = (if fs = [] then [] else [of_nat (length (filter (\<lambda>f. fst f = fst (hd fs)) fs))])"

definition resting_orders :: "('l, 'm) policy \<Rightarrow> Side \<Rightarrow> ('l, 'm) OrderBook \<Rightarrow> (Price \<times> entry) list" where
  "resting_orders P side b = the (resting P side b)"

definition book_levels :: "('l, 'm) policy \<Rightarrow> ('l, 'm) OrderBook \<Rightarrow> u64" where
  "book_levels P b = of_nat (length (side_prices (resting_orders P Bid b)) + length (side_prices (resting_orders P Ask b)))"

definition book_spans :: "('l, 'm) policy \<Rightarrow> ('l, 'm) OrderBook \<Rightarrow> u64 list" where
  "book_spans P b = span_of (side_prices (resting_orders P Bid b)) @ span_of (side_prices (resting_orders P Ask b))"

definition book_touch :: "('l, 'm) policy \<Rightarrow> ('l, 'm) OrderBook \<Rightarrow> u64 list" where
  "book_touch P b = touch_of (resting_orders P Bid b) @ touch_of (resting_orders P Ask b)"

definition busy :: "('l, 'm) policy \<Rightarrow> (Symbol \<times> ('l, 'm) OrderBook) list \<Rightarrow> ('l, 'm) OrderBook list" where
  "busy P bs = filter (\<lambda>b. resting_orders P Bid b @ resting_orders P Ask b \<noteq> []) (map snd bs)"

context book_policies begin

lemma visit_prices:
  assumes r: "refines V b A" and small: "size_of b < 2 ^ 32"
  shows "\<exists>lvls. pol_visit P s (bk_ladder b) = Some lvls \<and> map lvl_price lvls = map fst (ab_levels A s)"
proof -
  obtain G where G: "settled b G" "ab_levels A = levels_of b G" using r by (auto simp: refines_def)
  have "map lvl_price (map snd (levels (bk_ladder b) s)) = map fst (levels (bk_ladder b) s)"
    using settled_level(1) [OF G(1) small] by (auto simp: case_prod_unfold)
  then show ?thesis
    using lad.visit_law [OF settledD(1) [OF G(1)], of s] G(2) by (simp add: levels_of_def fst_view)
qed

end

lemma side_levels_exact:
  assumes "length lvls < 2 ^ 64"
  shows "side_levels lvls = (of_nat (length lvls), if lvls = [] then (0, 0) else (lvl_price (hd lvls), lvl_price (last lvls)))"
  using assms
proof (induction lvls rule: rev_induct)
  case (snoc x xs)
  then have "(of_nat (length xs) :: u64) = 0 \<longleftrightarrow> xs = []" by (auto simp: word_of_nat_eq_0_iff dest: dvd_imp_le)
  then show ?case using snoc by (auto simp: side_levels_def)
qed (simp add: side_levels_def)

lemma remdups_flat: "distinct (map fst ls) \<Longrightarrow> \<forall>(p, es) \<in> set ls. es \<noteq> [] \<Longrightarrow> side_prices (flat ls) = map fst ls"
proof (induction ls)
  case (Cons x ls)
  obtain p es where x: "x = (p, es)" by force
  have n: "p \<notin> fst ` set (flat ls)" using Cons.prems(1) by (auto simp: x flat_def image_iff)
  have "remdups (map (\<lambda>_. p) es @ xs) = p # remdups xs" if "es \<noteq> []" "p \<notin> set xs" for es :: "entry list" and xs
    using that
  proof (induction es)
    case (Cons e es)
    then show ?case by (cases "es = []") (simp_all add: image_constant_conv)
  qed simp
  then show ?case using Cons n by (simp add: x side_prices_def comp_def)
qed (simp add: side_prices_def)

lemma ladder_distinct: "ladder_sorted s ls \<Longrightarrow> distinct (map fst ls)"
proof -
  assume "ladder_sorted s ls"
  then have "sorted_wrt (\<noteq>) (map fst ls)" unfolding ladder_sorted_def
    by (rule sorted_wrt_mono_rel [rotated]) (auto simp: before_def split: if_splits)
  then show ?thesis by (simp add: sorted_wrt_iff_nth_less distinct_conv_nth) (metis linorder_neqE_nat)
qed

text \<open>An array over the prices of a side has room for all its levels.\<close>

lemma sorted_span:
  "sorted_wrt (<) ps \<Longrightarrow> ps \<noteq> [] \<Longrightarrow> int (length ps) \<le> last ps - hd ps + 1"
  "sorted_wrt (>) ps \<Longrightarrow> ps \<noteq> [] \<Longrightarrow> int (length ps) \<le> hd ps - last ps + 1" for ps :: "int list"
proof -
  show "sorted_wrt (<) ps \<Longrightarrow> ps \<noteq> [] \<Longrightarrow> int (length ps) \<le> last ps - hd ps + 1"
  proof (induction ps)
    case (Cons p ps)
    then show ?case by (cases ps) auto
  qed simp
  show "sorted_wrt (>) ps \<Longrightarrow> ps \<noteq> [] \<Longrightarrow> int (length ps) \<le> hd ps - last ps + 1"
  proof (induction ps)
    case (Cons p ps)
    then show ?case by (cases ps) auto
  qed simp
qed

lemma ladder_span: "ladder_sorted s ls \<Longrightarrow> ls \<noteq> [] \<Longrightarrow> int (length ls) \<le> \<bar>hd (map fst ls) - last (map fst ls)\<bar> + 1"
  using sorted_span [of "map fst ls"] unfolding ladder_sorted_def before_def by (cases s) auto

lemma side_facts:
  assumes i: "implements P V b A"
  shows "resting_orders P s b = flat (ab_levels A s)" and "side_prices (resting_orders P s b) = map fst (ab_levels A s)"
    and "resting_orders P s b = [] \<longleftrightarrow> ab_levels A s = []" and "length (ab_levels A s) < 2 ^ 32"
    and "(p, es) \<in> set (ab_levels A s) \<Longrightarrow> length es < 2 ^ 32"
    and "open_orders P b = 0 \<longleftrightarrow> resting_orders P Bid b @ resting_orders P Ask b = []"
proof -
  note D = implementsD [OF i]
  show r: "resting_orders P s b = flat (ab_levels A s)" for s using D(3) by (simp add: resting_orders_def)
  have ne: "\<forall>(p, es) \<in> set (ab_levels A s). es \<noteq> []" for s using abook_okD(3) [OF D(8)] by blast
  show "side_prices (resting_orders P s b) = map fst (ab_levels A s)"
    unfolding r using remdups_flat [OF ladder_distinct [OF abook_okD(1) [OF D(8)]] ne] .
  have len: "length (side_entries s ls) = length (flat ls)" for s ls
    by (simp add: side_entries_def flat_def length_concat comp_def case_prod_unfold)
  have oo: "open_orders P b = length (flat (ab_levels A Bid)) + length (flat (ab_levels A Ask))"
    unfolding D(4) by (simp add: all_entries_def len)
  have small: "open_orders P b < 2 ^ 32" using i by (auto simp: implements_def open_orders_def)
  have le: "length (flat (ab_levels A s)) < 2 ^ 32" using oo small by (cases s) auto
  have "length ls \<le> length (flat ls)" if "\<forall>(p, es) \<in> set ls. es \<noteq> []" for ls :: "(Price \<times> queue) list"
    using that
  proof (induction ls)
    case (Cons x ls)
    then show ?case by (cases x; cases "snd x") auto
  qed simp
  from this [OF ne] show "length (ab_levels A s) < 2 ^ 32" using le by (rule le_less_trans)
  show "resting_orders P s b = [] \<longleftrightarrow> ab_levels A s = []" using flat_first [OF D(8), of s] unfolding r
    by (cases "ab_levels A s") force+
  show "length es < 2 ^ 32" if "(p, es) \<in> set (ab_levels A s)"
  proof -
    have "length es \<le> length (flat ls)" if "(p, es) \<in> set ls" for ls :: "(Price \<times> queue) list"
      using that by (induction ls) auto
    from this [OF that] show ?thesis using le by (rule le_less_trans)
  qed
  show "open_orders P b = 0 \<longleftrightarrow> resting_orders P Bid b @ resting_orders P Ask b = []" unfolding oo r by simp
qed

text \<open>One side, one book, all books.\<close>

lemma sample_side_sim:
  assumes i: "implements P V b A"
  shows "\<exists>sm'. sample_side P s b side (levels, sm) = Some (levels + of_nat (length (side_prices (resting_orders P side b))), sm')
    \<and> sm_spans sm' = sm_spans sm @ span_of (side_prices (resting_orders P side b))
    \<and> sm_widest_span sm' = fold max (span_of (side_prices (resting_orders P side b))) (sm_widest_span sm)
    \<and> sm_levels sm' = sm_levels sm \<and> sm_touch sm' = sm_touch sm \<and> sm_widest_book sm' = sm_widest_book sm \<and> sm_ticks sm' = sm_ticks sm"
proof -
  obtain linv levels window minv lookup where L: "book_policies P linv levels window minv lookup"
    and r: "book_policies.refines P linv levels minv lookup V b A" and z: "pol_size P (bk_orders b) < 2 ^ 32"
    using i unfolding implements_def by blast
  obtain lvls where l: "pol_visit P side (bk_ladder b) = Some lvls" "map lvl_price lvls = map fst (ab_levels A side)"
    using book_policies.visit_prices [OF L r z] by blast
  let ?ps = "side_prices (resting_orders P side b)"
  have ps: "?ps = map lvl_price lvls" unfolding l(2) by (rule side_facts(2) [OF i])
  have len: "length lvls = length ?ps" "length lvls < 2 ^ 64"
    using side_facts(4) [OF i, of side] ps arg_cong [OF l(2), of length] by simp_all
  note s = side_levels_exact [OF len(2)]
  show ?thesis
  proof (cases "lvls = []")
    case True
    then show ?thesis using s ps by (simp add: sample_side_def l(1) span_of_def)
  next
    case False
    then have "?ps \<noteq> []" "hd ?ps = lvl_price (hd lvls)" "last ?ps = lvl_price (last lvls)" unfolding ps by (simp_all add: hd_map last_map)
    moreover have "(of_nat (length lvls) :: u64) \<noteq> 0" using False len(2) by (auto simp: word_of_nat_eq_0_iff dest: dvd_imp_le)
    then have "(of_nat (length lvls) :: u64) > 0" by (simp add: word_gt_0)
    moreover have "(if lo < hi then hi else lo) - (if lo < hi then lo else hi) = \<bar>lo - hi\<bar>" for lo hi :: int by simp
    ultimately show ?thesis using s False len(1)
      by (auto simp: sample_side_def l(1) span_of_def Let_def max_def)
  qed
qed

lemma best_touch:
  assumes i: "implements P V b A"
  shows "\<exists>lvl. best_level P side b = Some lvl
    \<and> (\<forall>sm. push_touch lvl sm = sm\<lparr>sm_touch := sm_touch sm @ touch_of (resting_orders P side b)\<rparr>)"
proof -
  obtain lvl where l: "best_level P side b = Some lvl" "case ab_levels A side of [] \<Rightarrow> lvl = None
      | (p, es) # _ \<Rightarrow> \<exists>lv. lvl = Some lv \<and> lvl_price lv = p \<and> lvl_total_qty lv = queue_qty es \<and> lvl_order_count lv = of_nat (length es)"
    using implementsD(9) [OF i] by blast
  note D = implementsD [OF i]
  have "push_touch lvl sm = sm\<lparr>sm_touch := sm_touch sm @ touch_of (resting_orders P side b)\<rparr>" for sm
  proof (cases "ab_levels A side")
    case Nil
    then show ?thesis using l(2) side_facts(1) [OF i, of side] by (simp add: push_touch_def touch_of_def)
  next
    case (Cons x ls)
    obtain p es where x: "x = (p, es)" by force
    have lt: "length es < 2 ^ 32" using side_facts(5) [OF i, of p es side] Cons x by simp
    have ne: "es \<noteq> []" using abook_okD(3) [OF D(8), of p es side] Cons x by simp
    have "p \<notin> fst ` set ls" using ladder_distinct [OF abook_okD(1) [OF D(8), of side]] Cons x by simp
    then have "filter (\<lambda>f. fst f = p) (flat ls) = []" by (auto simp: filter_empty_conv flat_def image_iff)
    moreover have "filter (\<lambda>f. fst f = p) (map (Pair p) es) = map (Pair p) es" by (simp add: filter_id_conv)
    moreover have r: "resting_orders P side b = map (Pair p) es @ flat ls" using side_facts(1) [OF i, of side] Cons x by simp
    moreover have "fst (hd (map (Pair p) es @ flat ls)) = p" using ne by (cases es) auto
    ultimately have "touch_of (resting_orders P side b) = [of_nat (length es)]" using ne by (simp add: touch_of_def)
    moreover have "unat (of_nat (length es) :: u32) = length es" "unat (of_nat (length es) :: u64) = length es"
      using lt by (simp_all add: unat_of_nat take_bit_nat_eq_self)
    then have "(ucast (of_nat (length es) :: u32) :: u64) = of_nat (length es)" by (simp add: word_unat_eq_iff)
    ultimately show ?thesis using l(2) Cons x by (auto simp: push_touch_def)
  qed
  then show ?thesis using l(1) by blast
qed

lemma sample_book_sim:
  assumes i: "implements P V b A"
  shows "\<exists>sm'. sample_book P s b sm = Some sm' \<and> sm_ticks sm' = sm_ticks sm
    \<and> sm_levels sm' = sm_levels sm @ map (book_levels P) (busy P [(s, b)])
    \<and> sm_spans sm' = sm_spans sm @ concat (map (book_spans P) (busy P [(s, b)]))
    \<and> sm_touch sm' = sm_touch sm @ concat (map (book_touch P) (busy P [(s, b)]))
    \<and> sm_widest_book sm' = fold max (map (book_levels P) (busy P [(s, b)])) (sm_widest_book sm)
    \<and> sm_widest_span sm' = fold max (concat (map (book_spans P) (busy P [(s, b)]))) (sm_widest_span sm)"
proof (cases "open_orders P b = 0")
  case True
  then have "busy P [(s, b)] = []" using side_facts(6) [OF i] by (simp add: busy_def)
  then show ?thesis using True by (simp add: sample_book_def)
next
  case False
  then have y: "busy P [(s, b)] = [b]" using side_facts(6) [OF i] by (simp add: busy_def)
  obtain sm1 where 1: "sample_side P s b Bid (0, sm) = Some (of_nat (length (side_prices (resting_orders P Bid b))), sm1)"
    "sm_spans sm1 = sm_spans sm @ span_of (side_prices (resting_orders P Bid b))"
    "sm_widest_span sm1 = fold max (span_of (side_prices (resting_orders P Bid b))) (sm_widest_span sm)"
    "sm_levels sm1 = sm_levels sm" "sm_touch sm1 = sm_touch sm" "sm_widest_book sm1 = sm_widest_book sm" "sm_ticks sm1 = sm_ticks sm"
    using sample_side_sim [OF i, of s Bid 0 sm] by auto
  obtain sm2 where 2: "sample_side P s b Ask (of_nat (length (side_prices (resting_orders P Bid b))), sm1) = Some (book_levels P b, sm2)"
    "sm_spans sm2 = sm_spans sm1 @ span_of (side_prices (resting_orders P Ask b))"
    "sm_widest_span sm2 = fold max (span_of (side_prices (resting_orders P Ask b))) (sm_widest_span sm1)"
    "sm_levels sm2 = sm_levels sm1" "sm_touch sm2 = sm_touch sm1" "sm_widest_book sm2 = sm_widest_book sm1" "sm_ticks sm2 = sm_ticks sm1"
    using sample_side_sim [OF i, of s Ask "of_nat (length (side_prices (resting_orders P Bid b)))" sm1] by (auto simp: book_levels_def)
  obtain bid where bid: "best_level P Bid b = Some bid"
    "\<forall>sm. push_touch bid sm = sm\<lparr>sm_touch := sm_touch sm @ touch_of (resting_orders P Bid b)\<rparr>" using best_touch [OF i, of Bid] by blast
  obtain ask where ask: "best_level P Ask b = Some ask"
    "\<forall>sm. push_touch ask sm = sm\<lparr>sm_touch := sm_touch sm @ touch_of (resting_orders P Ask b)\<rparr>" using best_touch [OF i, of Ask] by blast
  show ?thesis
    using False unfolding y
    by (auto simp: sample_book_def 1 2 bid ask Let_def book_spans_def book_touch_def max_def)
qed

lemma sample_each_sim:
  assumes "books_sim P V n bs As"
  shows "\<exists>sm'. sample_each P bs sm = Some sm' \<and> sm_ticks sm' = sm_ticks sm
    \<and> sm_levels sm' = sm_levels sm @ map (book_levels P) (busy P bs)
    \<and> sm_spans sm' = sm_spans sm @ concat (map (book_spans P) (busy P bs))
    \<and> sm_touch sm' = sm_touch sm @ concat (map (book_touch P) (busy P bs))
    \<and> sm_widest_book sm' = fold max (map (book_levels P) (busy P bs)) (sm_widest_book sm)
    \<and> sm_widest_span sm' = fold max (concat (map (book_spans P) (busy P bs))) (sm_widest_span sm)"
  using assms unfolding books_sim_def
proof (induction bs As arbitrary: sm rule: list_all2_induct)
  case Nil
  then show ?case by (simp add: busy_def)
next
  case (Cons x bs y As)
  obtain s b t B where x: "x = (s, b)" "y = (t, B)" by force
  then have i: "implements P V b B" using Cons.hyps by auto
  obtain sm1 where 1: "sample_book P s b sm = Some sm1" "sm_ticks sm1 = sm_ticks sm"
    "sm_levels sm1 = sm_levels sm @ map (book_levels P) (busy P [(s, b)])"
    "sm_spans sm1 = sm_spans sm @ concat (map (book_spans P) (busy P [(s, b)]))"
    "sm_touch sm1 = sm_touch sm @ concat (map (book_touch P) (busy P [(s, b)]))"
    "sm_widest_book sm1 = fold max (map (book_levels P) (busy P [(s, b)])) (sm_widest_book sm)"
    "sm_widest_span sm1 = fold max (concat (map (book_spans P) (busy P [(s, b)]))) (sm_widest_span sm)"
    using sample_book_sim [OF i, of s sm] by blast
  have y: "busy P (x # bs) = busy P [(s, b)] @ busy P bs" by (simp add: busy_def x)
  show ?case using Cons.IH [of sm1] 1 by (auto simp: x(1) y [unfolded x(1)])
qed

subsection \<open>The run\<close>

definition watching ::
  "('l, 'm) policy \<Rightarrow> 'l \<Rightarrow> nat \<Rightarrow> nat \<Rightarrow> ('l, 'm) MultiBook Replayer \<times> u64 \<times> Samples \<Rightarrow> ('l, 'm) MultiBook Replayer \<Rightarrow> bool" where
  "watching P l every k = (\<lambda>(rep, since_sample, sm) R. rep = R \<and> unat since_sample = k mod every \<and> sm_ticks sm = of_nat (k div every)
     \<and> unat (st_messages (rp_stats R)) = k \<and> (\<exists>A. replayed P l k R A \<and> watched A))"

lemma replayed_sample:
  assumes "replayed P l k R A"
  shows "\<exists>sm'. sample_books P (rp_books R) sm = Some sm' \<and> sm_ticks sm' = sm_ticks sm + 1
    \<and> sm_levels sm' = sm_levels sm @ map (book_levels P) (busy P (mb_books (rp_books R)))
    \<and> sm_spans sm' = sm_spans sm @ concat (map (book_spans P) (busy P (mb_books (rp_books R))))
    \<and> sm_touch sm' = sm_touch sm @ concat (map (book_touch P) (busy P (mb_books (rp_books R))))
    \<and> sm_widest_book sm' = fold max (map (book_levels P) (busy P (mb_books (rp_books R)))) (sm_widest_book sm)
    \<and> sm_widest_span sm' = fold max (concat (map (book_spans P) (busy P (mb_books (rp_books R))))) (sm_widest_span sm)"
proof -
  have "books_sim P (pol_valid_price P l) (3 * k) (mb_books (rp_books R)) (am_books (rp_books A))"
    using assms rp_simD [of P l "3 * k" R A] by (simp add: replayed_def multi_sim_def)
  from sample_each_sim [OF this, of "sm\<lparr>sm_ticks := sm_ticks sm + 1\<rparr>"] show ?thesis by (simp add: sample_books_def)
qed

lemma watching_step:
  assumes "lawful P l" and "message_ok m" and w: "watching P l (unat every) k (rep, since, sm) R" and "k < 2 ^ 30" and "every \<noteq> 0"
  shows "\<exists>s' R'. stats_message P l every m (length m) (rep, since, sm) = Some s' \<and> replay_apply P l m (length m) R = Some R'
    \<and> watching P l (unat every) (Suc k) s' R'"
proof -
  have c: "rep = R" "unat since = k mod unat every" "sm_ticks sm = of_nat (k div unat every)" "unat (st_messages (rp_stats R)) = k"
    using w by (simp_all add: watching_def)
  obtain A where A: "replayed P l k R A" "watched A" using w by (auto simp: watching_def)
  obtain R' A' where R': "replay_apply P l m (length m) R = Some R'" "abs_apply (pol_valid_price P l) m (length m) A = Some A'"
    "replayed P l (Suc k) R' A'" using replay_message [OF assms(1,2) A(1) assms(4)] by blast
  obtain x where x: "decode_feed m = Some x" "A' = abs_feed (pol_valid_price P l) x (bump (c_message (length m)) A)"
    using R'(2) by (auto simp: abs_apply_def split: bind_splits)
  have A': "watched A'" unfolding x(2) using A by (intro watched_feed decoded_time [OF x(1)]) (simp_all add: replayed_def)
  have "st_messages (rp_stats R') = st_messages (rp_stats R) + 1"
    using R'(3) A(1) messages_feed by (auto simp: x(2) replayed_def rp_sim_def c_message_def)
  then have n: "unat (st_messages (rp_stats R')) = Suc k" using c(4) assms(4) by (simp add: unat_word_ariths)
  have e: "unat every \<noteq> 0" using assms(5) by (simp add: unsigned_eq_0_iff)
  have "k mod unat every \<le> k" "k + 1 < 2 ^ 64" using assms(4) by simp_all
  then have "k mod unat every + 1 < 2 ^ 64" by linarith
  then have s: "unat (since + 1) = Suc (k mod unat every)" using c(2) by (simp add: unat_word_ariths)
  have lt: "k mod unat every < unat every" using e by simp
  show ?thesis
  proof (cases "since + 1 \<ge> every")
    case True
    then have m: "Suc (k mod unat every) = unat every" using s lt by (simp add: word_le_nat_alt)
    then have d: "Suc k mod unat every = 0" "Suc k div unat every = Suc (k div unat every)" by (simp_all add: mod_Suc div_Suc)
    obtain sm' where "sample_books P (rp_books R') sm = Some sm'" "sm_ticks sm' = sm_ticks sm + 1"
      using replayed_sample [OF R'(3), of sm] by blast
    then show ?thesis using True R' A' n d c(3)
      by (auto simp: stats_message_def c(1) watching_def)
  next
    case False
    then have m: "Suc (k mod unat every) \<noteq> unat every" using s by (auto simp: word_le_nat_alt)
    then have d: "Suc k mod unat every = Suc (k mod unat every)" "Suc k div unat every = k div unat every" by (simp_all add: mod_Suc div_Suc)
    then show ?thesis using False R' A' n s c(3)
      by (auto simp: stats_message_def c(1) watching_def)
  qed
qed

text \<open>The whole run: the replay of the file, sampled.\<close>

lemma stats_run_sim:
  assumes "lawful P l" and "length data < 2 ^ 30" and "small_frames data" and every: "every' = (if every = 0 then 1 else every)"
  shows "\<exists>r R sm A k. replay_file P l ss data = Some (r, R) \<and> stats_run P l every ss (Some data) = Some (if read_ok r then 0 else 1, R, sm)
    \<and> sm_ticks sm = of_nat (unat (st_messages (rp_stats R)) div unat every') + (if read_ok r then 1 else 0)
    \<and> replayed P l k R A \<and> watched A"
proof -
  let ?h = "stats_message P l every'"
  obtain M where M: "mb_new = Some M" "multi_sim P l 0 M amulti_new" using mb_new_sim [of P l] by auto
  define R0 where "R0 = track_only ss (replayer_new M)"
  have R0: "(if ss \<noteq> [] then track_only ss (replayer_new M) else replayer_new M) = R0"
    by (simp add: R0_def track_only_def replayer_new_def)
  have ne: "every' \<noteq> 0" using every by simp
  have "replayed P l 0 R0 (track_only ss (replayer_new amulti_new))"
    using M(2) by (simp add: R0_def replayed_def rp_sim_def track_only_def replayer_new_def owners_ok_def amulti_new_def)
  then have start: "watching P l (unat every') 0 (R0, 0, samples_new) R0"
    using watched_new [of ss] by (auto simp: watching_def samples_new_def R0_def track_only_def replayer_new_def stats_zero_def)
  have "\<exists>s' t'. ?h m (length m) s = Some s' \<and> replay_apply P l m (length m) t = Some t' \<and> watching P l (unat every') (Suc k) s' t'"
    if "message_ok m" "watching P l (unat every') k s t" "k < 2 ^ 30" for m s t k
    using watching_step [OF assms(1) that(1) _ that(3) ne, of "fst s" "fst (snd s)" "snd (snd s)" t] that(2) by simp
  from framed_sim [of "watching P l (unat every')" "2 ^ 30" ?h "replay_apply P l", OF this start, of data read_result_default] assms(2)
  obtain r st R k where w: "for_each_framed_message data ?h (R0, 0, samples_new) = Some (r, st)"
    "for_each_framed_message data (replay_apply P l) R0 = Some (r, R)" "watching P l (unat every') k st R"
    by (auto simp: for_each_framed_message_def)
  obtain since sm where st: "st = (R, since, sm)" using w(3) by (cases st) (auto simp: watching_def)
  obtain A where A: "replayed P l k R A" "watched A" and t: "sm_ticks sm = of_nat (k div unat every')" "unat (st_messages (rp_stats R)) = k"
    using w(3) by (auto simp: watching_def st)
  have whole: "replay_file P l ss data = Some (r, R)" using w(2) by (simp add: replay_file_def M(1) R0_def)
  have stream: "for_each_framed_stream (Some data) ?h (32 * 2 ^ 20) (R0, 0, samples_new) = Some (r, R, since, sm)"
    using w(1) st stream_whole [of "32 * 2 ^ 20" data ?h] assms(3) by simp
  obtain sm' where sm': "sample_books P (rp_books R) sm = Some sm'" "sm_ticks sm' = sm_ticks sm + 1" using replayed_sample [OF A(1), of sm] by blast
  have "stats_run P l every ss (Some data) = Some (if read_ok r then 0 else 1, R, if read_ok r then sm' else sm)"
    unfolding stats_run_def Let_def every [symmetric] M(1) Option.bind.bind_lunit R0 stream by (simp add: sm'(1))
  then show ?thesis using whole A t sm'(2) by (intro exI [of _ r] exI [of _ R] exI [of _ "if read_ok r then sm' else sm"]) auto
qed

text \<open>C24: The statistics of a file, in which no prefix announces more than 62 bytes, are those of its replay: sampling changes nothing, happens after every so many messages and once more at the end of a good file, and the tool counts exactly the adds, replacements, executions and shares the replayer counts. The histogram of sizes holds every order added, the one of lifetimes every lifetime measured, and, if no ticker is all zero bytes, the counters of the symbols add up to the totals.\<close>

theorem book_stats_exact:
  assumes "lawful P l" and "length data < 2 ^ 30" and "small_frames data" and "every' = (if every = 0 then 1 else every)"
  shows "\<exists>r R sm. replay_file P l ss data = Some (r, R) \<and> stats_run P l every ss (Some data) = Some (if read_ok r then 0 else 1, R, sm)
    \<and> sm_ticks sm = of_nat (unat (st_messages (rp_stats R)) div unat every') + (if read_ok r then 1 else 0)
    \<and> so_adds (stats_observer R) = st_adds (rp_stats R) + so_replaces (stats_observer R)
    \<and> so_executions (stats_observer R) = st_executions (rp_stats R)
    \<and> so_total_added_shares (stats_observer R) = st_shares_added (rp_stats R)
    \<and> so_executed_shares (stats_observer R) = st_shares_executed (rp_stats R)
    \<and> (\<Sum>(q, n)\<leftarrow>so_size_hist (stats_observer R). n) = so_adds (stats_observer R)
    \<and> sum_list (so_lifetime_hist (stats_observer R)) = so_lifetime_n (stats_observer R)
    \<and> of_nat (length (so_lifetimes (stats_observer R))) = so_lifetime_n (stats_observer R)
    \<and> sum_list (so_lifetimes (stats_observer R)) = so_lifetime_total (stats_observer R)
    \<and> (0 \<notin> symbol_bits ` set (mb_symbols (rp_books R)) \<longrightarrow>
        sym_sum sc_adds (stats_observer R) = so_adds (stats_observer R)
        \<and> sym_sum sc_removes (stats_observer R) = so_removes (stats_observer R)
        \<and> sym_sum sc_executions (stats_observer R) = so_executions (stats_observer R))"
proof -
  obtain r R sm A k where w: "replay_file P l ss data = Some (r, R)" "stats_run P l every ss (Some data) = Some (if read_ok r then 0 else 1, R, sm)"
    "sm_ticks sm = of_nat (unat (st_messages (rp_stats R)) div unat every') + (if read_ok r then 1 else 0)"
    "replayed P l k R A" "watched A" using stats_run_sim [OF assms, of ss] by blast
  have s: "rp_sim P l (3 * k) R A" using w(4) by (simp add: replayed_def)
  have "stats_observer R = stats_observer A" "rp_stats R = rp_stats A" using s by (simp_all add: stats_observer_def rp_sim_def)
  moreover have "0 \<notin> symbol_bits ` set (mb_symbols (rp_books R)) \<Longrightarrow> all_named (rp_books A)"
    using multi_symbols [OF rp_simD [OF s]] by (simp add: all_named_def) (metis image_eqI)
  ultimately show ?thesis using w(1-3,5) by (auto simp: watched_def agree_def counted_up_def attributed_def)
qed

theorem book_stats_exact_witness:
  "\<exists>R sm. stats_run map_std_policy ml_new 2 [] (Some (wr_buf (fold write_event sample_feed writer_new))) = Some (0, R, sm)
    \<and> sm_ticks sm = 2 \<and> so_adds (stats_observer R) = 1 \<and> so_executions (stats_observer R) = 1 \<and> so_executed_shares (stats_observer R) = 40"
proof -
  have ok: "\<forall>e \<in> set sample_feed. symbol_ok e" using sample_ok(1) by (simp add: event_ok_def)
  obtain r R sm where w: "replay_file map_std_policy ml_new [] (wr_buf (fold write_event sample_feed writer_new)) = Some (r, R)"
    "stats_run map_std_policy ml_new 2 [] (Some (wr_buf (fold write_event sample_feed writer_new))) = Some (if read_ok r then 0 else 1, R, sm)"
    "sm_ticks sm = of_nat (unat (st_messages (rp_stats R)) div unat (2 :: u64)) + (if read_ok r then 1 else 0)"
    "so_adds (stats_observer R) = st_adds (rp_stats R) + so_replaces (stats_observer R)"
    "so_executions (stats_observer R) = st_executions (rp_stats R)" "so_executed_shares (stats_observer R) = st_shares_executed (rp_stats R)"
    using book_stats_exact [OF lawful_policies(1) sample_ok(2) written_small [OF ok] refl, where every = 2 and ss = "[]"] by auto
  obtain r' A where A: "abs_replay_file (\<lambda>_. True) [] (wr_buf (fold write_event sample_feed writer_new)) = Some (r, A)" "follows map_std_policy R A"
    using replay_follows [OF lawful_policies(1) sample_ok(2), of "[]"] w(1) unfolding map_std_valid by auto
  have "A = fold (feed_step (\<lambda>_. True)) sample_feed (track_only [] (replayer_new amulti_new))" "read_ok r"
    using A(1) unfolding abs_replay_file_def written_feed_back [OF ok] handle_written [OF sample_ok(1)]
    by (auto simp: read_ok_def read_result_default_def)
  then have st: "rp_stats R = rp_stats (fold (feed_step (\<lambda>_. True)) sample_feed (track_only [] (replayer_new amulti_new)))" "read_ok r"
    "rp_calls R = rp_calls (fold (feed_step (\<lambda>_. True)) sample_feed (track_only [] (replayer_new amulti_new)))"
    using A(2) by (simp_all add: follows_def)
  have "st_messages (rp_stats R) = 3" "st_adds (rp_stats R) = 1" "st_executions (rp_stats R) = 1" "st_shares_executed (rp_stats R) = 40"
    unfolding st by (simp_all add: sample_feed_def feed_eval)
  moreover have "so_replaces (stats_observer R) = 0" unfolding stats_observer_def st(3)
    by (simp add: sample_feed_def feed_eval stats_on_added_def stats_on_reduced_def stats_observer_new_def at_symbol_def Let_def split: option.split)
  ultimately show ?thesis using w st(2) by auto
qed

lemma books_sim_member: "books_sim P V n bs As \<Longrightarrow> b \<in> snd ` set bs \<Longrightarrow> \<exists>B. implements P V b B"
  unfolding books_sim_def by (induction bs As rule: list_all2_induct) auto

text \<open>A sample of the books of a replay says exactly what rests in them: for every book with orders the number of its prices, for each of its sides with orders the distance of best and worst price (counting both) and the number of orders at the best price. The widest book and span are the maxima seen, and the span of a side is never below the number of its levels.\<close>

theorem samples_exact:
  assumes "lawful P l" and "length data < 2 ^ 30" and "replay_file P l ss data = Some (r, R)" and "bs = busy P (mb_books (rp_books R))"
  shows "\<exists>sm'. sample_books P (rp_books R) sm = Some sm'
    \<and> sm_levels sm' = sm_levels sm @ map (book_levels P) bs \<and> sm_spans sm' = sm_spans sm @ concat (map (book_spans P) bs)
    \<and> sm_touch sm' = sm_touch sm @ concat (map (book_touch P) bs)
    \<and> sm_widest_book sm' = fold max (map (book_levels P) bs) (sm_widest_book sm)
    \<and> sm_widest_span sm' = fold max (concat (map (book_spans P) bs)) (sm_widest_span sm)
    \<and> (b \<in> snd ` set (mb_books (rp_books R)) \<longrightarrow> side_prices (resting_orders P side b) = ps \<longrightarrow> ps \<noteq> [] \<longrightarrow>
        int (length ps) \<le> \<bar>hd ps - last ps\<bar> + 1)"
proof -
  obtain A k where A: "replayed P l k R A" using replay_file_sim [OF assms(1,2), of ss] assms(3) by auto
  then have sim: "books_sim P (pol_valid_price P l) (3 * k) (mb_books (rp_books R)) (am_books (rp_books A))"
    using rp_simD [of P l "3 * k" R A] by (simp add: replayed_def multi_sim_def)
  have "int (length ps) \<le> \<bar>hd ps - last ps\<bar> + 1"
    if b: "b \<in> snd ` set (mb_books (rp_books R))" and ps: "side_prices (resting_orders P side b) = ps" "ps \<noteq> []"
  proof -
    obtain B where B: "implements P (pol_valid_price P l) b B" using books_sim_member [OF sim b] by blast
    have "map fst (ab_levels B side) = ps" using side_facts(2) [OF B, of side] ps(1) by simp
    then show ?thesis using ladder_span [OF abook_okD(1) [OF implementsD(8) [OF B], of side]] ps(2) by (metis length_map list.map_disc_iff)
  qed
  then show ?thesis using replayed_sample [OF A, of sm] assms(4) by blast
qed

theorem samples_exact_witness:
  "\<exists>r R sm'. replay_file map_std_policy ml_new [] (wr_buf (fold write_event sample_feed writer_new)) = Some (r, R)
    \<and> sample_books map_std_policy (rp_books R) samples_new = Some sm' \<and> sm_levels sm' = [1] \<and> sm_spans sm' = [1] \<and> sm_touch sm' = [1]"
proof -
  obtain r R where R: "replay_file map_std_policy ml_new [] (wr_buf (fold write_event sample_feed writer_new)) = Some (r, R)"
    "follows map_std_policy R (fold (feed_step (\<lambda>_. True)) sample_feed (track_only [] (replayer_new amulti_new)))" by (rule sample_replay)
  let ?A = "fold (feed_step (\<lambda>_. True)) sample_feed (track_only [] (replayer_new amulti_new))" and ?s = "symbol_of [65]"
  obtain B where B: "am_books (rp_books ?A) = [(?s, B)]" "flat (ab_levels B Bid) = [(5000, \<lparr>en_id = 7, en_qty = 60, en_owner = 0\<rparr>)]"
    "flat (ab_levels B Ask) = []"
    by (simp add: sample_feed_def feed_eval)
  have "mb_symbols (rp_books R) = [?s]" using R(2) B(1) by (simp add: follows_def)
  then obtain b where b: "mb_books (rp_books R) = [(?s, b)]" by (auto simp: mb_symbols_def)
  have "map_of (am_books (rp_books ?A)) ?s = Some B" using B(1) by simp
  from follows_book [OF R(2) this] have "resting_orders map_std_policy t b = flat (ab_levels B t)" for t
    using b by (auto simp: mb_find_def resting_orders_def)
  then have o1: "resting_orders map_std_policy Bid b = [(5000, \<lparr>en_id = 7, en_qty = 60, en_owner = 0\<rparr>)]" "resting_orders map_std_policy Ask b = []"
    using B(2,3) by simp_all
  have y: "busy map_std_policy (mb_books (rp_books R)) = [b]" by (simp add: busy_def b o1)
  obtain sm' where "sample_books map_std_policy (rp_books R) samples_new = Some sm'"
    "sm_levels sm' = sm_levels samples_new @ map (book_levels map_std_policy) [b]"
    "sm_spans sm' = sm_spans samples_new @ concat (map (book_spans map_std_policy) [b])"
    "sm_touch sm' = sm_touch samples_new @ concat (map (book_touch map_std_policy) [b])"
    using samples_exact [OF lawful_policies(1) sample_ok(2) R(1) refl, where sm = samples_new] unfolding y by blast
  then show ?thesis using R(1)
    by (simp add: samples_new_def book_levels_def book_spans_def book_touch_def side_prices_def span_of_def touch_of_def o1)
qed

subsection \<open>The histograms of the report\<close>

text \<open>The loop that finds the bucket of a span ends at the largest power of two in it, for spans below 2 to the 63rd.\<close>

lemma span_bucket_exact:
  assumes "2 ^ j \<le> unat v" and "unat v < 2 ^ 63"
  shows "\<exists>k. span_bucket (2 ^ j) v = Some (2 ^ k) \<and> 2 ^ k \<le> unat v \<and> unat v < 2 ^ Suc k"
  using assms(1)
proof (induction "63 - j" arbitrary: j rule: less_induct)
  case less
  have "(2 :: nat) ^ j < 2 ^ 63" using less.prems assms(2) by (rule le_less_trans)
  then have j: "j < 63" by (rule power_less_imp_less_exp [rotated]) simp
  have u: "unat ((2 :: u64) ^ i) = 2 ^ i" if "i < 64" for i using that by (rule unat_pow2)
  have d: "(2 :: u64) ^ j * 2 = 2 ^ Suc j" by simp
  have le: "(2 :: u64) ^ Suc j \<le> v \<longleftrightarrow> 2 ^ Suc j \<le> unat v" unfolding word_le_nat_alt using u [of "Suc j"] j by simp
  show ?case
  proof (cases "2 ^ Suc j \<le> unat v")
    case True
    have "63 - Suc j < 63 - j" using j by simp
    from less.hyps [OF this True] show ?thesis using True le by (subst span_bucket.simps) (simp only: d if_True)
  next
    case False
    then show ?thesis using le less.prems by (subst span_bucket.simps) (simp only: d if_False, auto intro!: exI [of _ j])
  qed
qed

text \<open>The counts of the report add up.\<close>

lemma fold_at_key: "(\<Sum>(j, n)\<leftarrow>fold (\<lambda>v. at_key 0 (\<lambda>n. n + 1) (g v)) vs m. n) = (\<Sum>(j, n)\<leftarrow>m. n) + (of_nat (length vs) :: u64)"
proof (induction vs arbitrary: m)
  case (Cons v vs)
  show ?case using Cons.IH [of "at_key 0 (\<lambda>n. n + 1) (g v) m"] at_key_sum [of "\<lambda>v. v" 0 "\<lambda>n. n + 1" 1 "g v" m]
    by (simp add: algebra_simps)
qed simp

lemma report_counts:
  "(\<Sum>(level, n)\<leftarrow>levels_hist vs. n) = of_nat (length vs)" "snd (round_lots ob) = (\<Sum>(q, n)\<leftarrow>so_size_hist ob. n)"
  "samples \<noteq> [] \<Longrightarrow> pct samples i \<in> set samples"
proof -
  show "(\<Sum>(level, n)\<leftarrow>levels_hist vs. n) = of_nat (length vs)" using fold_at_key [of _ vs "[]"] by (simp add: levels_hist_def)
  have "snd (fold (\<lambda>(q, n) (round_lots, all_orders). (if q mod 100 = 0 then round_lots + n else round_lots, all_orders + n)) xs (a, b))
      = b + (\<Sum>(q, n)\<leftarrow>xs. n)" for xs :: "(Qty \<times> u64) list" and a b :: u64
    by (induction xs arbitrary: a b) (auto simp: algebra_simps)
  then show "snd (round_lots ob) = (\<Sum>(q, n)\<leftarrow>so_size_hist ob. n)" by (simp add: round_lots_def)
  show "samples \<noteq> [] \<Longrightarrow> pct samples i \<in> set samples" by (simp add: pct_def Let_def)
qed

lemma spans_hist_exact:
  assumes "\<forall>v \<in> set vs. 0 < v \<and> unat v < 2 ^ 63"
  shows "\<exists>h. spans_hist vs m = Some h \<and> (\<Sum>(bucket, n)\<leftarrow>h. n) = (\<Sum>(bucket, n)\<leftarrow>m. n) + of_nat (length vs)"
  using assms
proof (induction vs arbitrary: m)
  case (Cons v vs)
  have "2 ^ 0 \<le> unat v" "unat v < 2 ^ 63" using Cons.prems by (simp_all add: word_less_nat_alt)
  then obtain k where "span_bucket 1 v = Some (2 ^ k)" using span_bucket_exact [of 0 v] by auto
  then show ?case using Cons.IH [of "at_key 0 (\<lambda>n. n + 1) (2 ^ k) m"] Cons.prems at_key_sum [of "\<lambda>v. v" 0 "\<lambda>n. n + 1" 1 "2 ^ k" m]
    by (auto simp: algebra_simps)
qed simp

end
