(* ===== verification/Net.thy ===== *)
theory Net
  imports Bytes
begin

text \<open>
  The loops of \<^verbatim>\<open>TcpStream\<close> around the calls of the operating system (\<^verbatim>\<open>include/pricetime/net.hpp\<close>).  What \<^verbatim>\<open>::send\<close>
  and \<^verbatim>\<open>::recv\<close> answer is an input: a list of answers, one per call, so that every way of cutting a transfer into pieces
  is covered.  A call that finds no answer left has not returned, and the result is \<^term>\<open>None\<close>.
\<close>

text \<open>\<^term>\<open>Moved n\<close>: at most \<open>n\<close> bytes, and never more than were asked for or are there.\<close>

datatype os_answer = Moved nat | WouldBlock | OsError

text \<open>The bytes \<^verbatim>\<open>send_all\<close> has put on the wire are kept in \<open>wire\<close>.\<close>

fun send_all :: "bool \<Rightarrow> bytes \<Rightarrow> nat \<Rightarrow> bytes \<Rightarrow> os_answer list \<Rightarrow> (bool \<times> bytes \<times> os_answer list) option" where
  "send_all spin data sent wire answers =
     (if sent < length data then
        case answers of
          [] \<Rightarrow> None
        | a # answers \<Rightarrow>
            (case a of
               WouldBlock \<Rightarrow> if spin then send_all spin data sent wire answers else Some (False, wire, answers)
             | OsError \<Rightarrow> Some (False, wire, answers)
             | Moved n \<Rightarrow>
                 (let n = min n (length data - sent)
                  in if n = 0 then Some (False, wire, answers)
                     else send_all spin data (sent + n) (wire @ take n (drop sent data)) answers))
      else Some (True, wire, answers))"

text \<open>\<open>incoming\<close> is what the peer has sent and nobody has read.\<close>

fun recv_some :: "bool \<Rightarrow> nat \<Rightarrow> bytes \<Rightarrow> os_answer list \<Rightarrow> (int \<times> bytes \<times> bytes \<times> os_answer list) option" where
  "recv_some spin cap incoming [] = None"
| "recv_some spin cap incoming (WouldBlock # answers) =
     (if spin then recv_some spin cap incoming answers else Some (- 1, [], incoming, answers))"
| "recv_some spin cap incoming (OsError # answers) = Some (- 1, [], incoming, answers)"
| "recv_some spin cap incoming (Moved n # answers) =
     (let data = take (min n cap) incoming in Some (int (length data), data, drop (length data) incoming, answers))"

fun recv_all :: "bool \<Rightarrow> nat \<Rightarrow> bytes \<Rightarrow> bytes \<Rightarrow> os_answer list \<Rightarrow> (bool \<times> bytes \<times> bytes \<times> os_answer list) option" where
  "recv_all spin len data incoming answers =
     (if length data < len then
        case answers of
          [] \<Rightarrow> None
        | a # answers \<Rightarrow>
            (case a of
               WouldBlock \<Rightarrow> if spin then recv_all spin len data incoming answers else Some (False, data, incoming, answers)
             | OsError \<Rightarrow> Some (False, data, incoming, answers)
             | Moved n \<Rightarrow>
                 (let piece = take (min n (len - length data)) incoming
                  in if piece = [] then Some (False, data, incoming, answers)
                     else recv_all spin len (data @ piece) (drop (length piece) incoming) answers))
      else Some (True, data, incoming, answers))"

declare send_all.simps [simp del] recv_all.simps [simp del]

subsection \<open>What they transfer\<close>

text \<open>Nothing is lost, repeated or reordered, however the transfer is cut and however it ends.\<close>

lemma send_all_prefix:
  assumes "send_all spin data sent wire answers = Some (ok, wire', answers')" and "sent \<le> length data"
  shows "\<exists>k. sent \<le> k \<and> k \<le> length data \<and> wire' = wire @ take (k - sent) (drop sent data) \<and> (ok \<longleftrightarrow> k = length data)"
  using assms
proof (induction answers arbitrary: sent wire)
  case Nil
  then show ?case by (auto simp: send_all.simps [of spin data sent wire] split: if_splits)
next
  case (Cons a answers)
  show ?case
  proof (cases "sent < length data")
    case False
    then show ?thesis using Cons.prems unfolding send_all.simps [of spin data sent wire "a # answers"] by (intro exI [of _ sent]) simp
  next
    case True
    show ?thesis
    proof (cases a)
      case (Moved n)
      define m where "m = min n (length data - sent)"
      show ?thesis
      proof (cases "m = 0")
        case True
        then show ?thesis using Cons.prems \<open>sent < length data\<close> Moved
          by (intro exI [of _ sent]) (auto simp: send_all.simps [of spin data sent wire "Moved n # answers"] Let_def m_def [symmetric])
      next
        case False
        then have "send_all spin data (sent + m) (wire @ take m (drop sent data)) answers = Some (ok, wire', answers')"
          using Cons.prems(1) \<open>sent < length data\<close> Moved
          by (simp add: send_all.simps [of spin data sent wire "Moved n # answers"] Let_def m_def [symmetric])
        moreover have "sent + m \<le> length data" using \<open>sent < length data\<close> by (simp add: m_def)
        ultimately obtain k where k: "sent + m \<le> k" "k \<le> length data" "ok \<longleftrightarrow> k = length data"
          "wire' = (wire @ take m (drop sent data)) @ take (k - (sent + m)) (drop (sent + m) data)" using Cons.IH by blast
        have "take (k - sent) (drop sent data) = take m (drop sent data) @ take (k - (sent + m)) (drop (sent + m) data)"
          using k(1) take_add [of m "k - (sent + m)" "drop sent data"] by (simp add: add.commute)
        then show ?thesis using k by (intro exI [of _ k]) simp
      qed
    qed (use Cons True in \<open>auto simp: send_all.simps [of spin data sent wire] split: if_splits intro!: exI [of _ sent]\<close>)
  qed
qed

lemma recv_all_prefix:
  assumes "recv_all spin len data incoming answers = Some (ok, data', incoming', answers')" and "length data \<le> len"
  shows "\<exists>k. data' = data @ take k incoming \<and> incoming' = drop k incoming \<and> length data' \<le> len \<and> (ok \<longleftrightarrow> length data' = len)"
  using assms
proof (induction answers arbitrary: data incoming)
  case Nil
  then show ?case by (auto simp: recv_all.simps [of spin len data incoming] split: if_splits intro!: exI [of _ 0])
next
  case (Cons a answers)
  show ?case
  proof (cases "length data < len")
    case False
    then show ?thesis using Cons.prems unfolding recv_all.simps [of spin len data incoming "a # answers"] by (intro exI [of _ 0]) simp
  next
    case True
    show ?thesis
    proof (cases a)
      case (Moved n)
      define piece where "piece = take (min n (len - length data)) incoming"
      show ?thesis
      proof (cases "piece = []")
        case True
        then show ?thesis using Cons.prems \<open>length data < len\<close> Moved
          by (intro exI [of _ 0]) (auto simp: recv_all.simps [of spin len data incoming "Moved n # answers"] Let_def piece_def [symmetric])
      next
        case False
        then have "recv_all spin len (data @ piece) (drop (length piece) incoming) answers = Some (ok, data', incoming', answers')"
          using Cons.prems(1) \<open>length data < len\<close> Moved
          by (simp add: recv_all.simps [of spin len data incoming "Moved n # answers"] Let_def piece_def [symmetric])
        moreover have "length (data @ piece) \<le> len" using \<open>length data < len\<close> by (simp add: piece_def)
        ultimately obtain k where k: "data' = (data @ piece) @ take k (drop (length piece) incoming)"
          "incoming' = drop k (drop (length piece) incoming)" "length data' \<le> len" "ok \<longleftrightarrow> length data' = len" using Cons.IH by blast
        have "piece = take (length piece) incoming" by (simp add: piece_def min_def)
        then have "piece @ take k (drop (length piece) incoming) = take (length piece + k) incoming" by (metis take_add)
        then show ?thesis using k by (intro exI [of _ "length piece + k"]) (simp add: add.commute)
      qed
    qed (use Cons True in \<open>auto simp: recv_all.simps [of spin len data incoming] split: if_splits intro!: exI [of _ 0]\<close>)
  qed
qed

subsection \<open>That they end\<close>

text \<open>The connection stays up, and a call would only block if the socket is polled.\<close>

definition willing :: "bool \<Rightarrow> os_answer list \<Rightarrow> bool" where
  "willing spin answers \<longleftrightarrow> (\<forall>a \<in> set answers. case a of Moved n \<Rightarrow> 0 < n | WouldBlock \<Rightarrow> spin | OsError \<Rightarrow> False)"

fun moves :: "os_answer list \<Rightarrow> nat" where
  "moves [] = 0"
| "moves (Moved n # answers) = Suc (moves answers)"
| "moves (a # answers) = moves answers"

lemma willing_Cons: "willing spin (a # answers) \<longleftrightarrow> (case a of Moved n \<Rightarrow> 0 < n | WouldBlock \<Rightarrow> spin | OsError \<Rightarrow> False) \<and> willing spin answers"
  by (simp add: willing_def)

lemma send_all_ends:
  assumes "willing spin answers" and "length data - sent \<le> moves answers" and "sent \<le> length data"
  shows "\<exists>wire' answers'. send_all spin data sent wire answers = Some (True, wire', answers') \<and> willing spin answers'
    \<and> moves answers \<le> moves answers' + (length data - sent)"
  using assms
proof (induction answers arbitrary: sent wire)
  case Nil
  then show ?case by (simp add: send_all.simps [of spin data sent wire])
next
  case (Cons a answers)
  show ?case
  proof (cases "sent < length data")
    case False
    then show ?thesis using Cons.prems unfolding send_all.simps [of spin data sent wire "a # answers"] by simp
  next
    case True
    show ?thesis
    proof (cases a)
      case (Moved n)
      define m where "m = min n (length data - sent)"
      have m: "0 < m" "sent + m \<le> length data" using Cons.prems(1) True Moved by (auto simp: m_def willing_Cons)
      have "willing spin answers" "length data - (sent + m) \<le> moves answers" using Cons.prems m Moved by (auto simp: willing_Cons)
      from Cons.IH [OF this m(2), of "wire @ take m (drop sent data)"] obtain wire' answers' where
        w: "send_all spin data (sent + m) (wire @ take m (drop sent data)) answers = Some (True, wire', answers')" "willing spin answers'"
          "moves answers \<le> moves answers' + (length data - (sent + m))" by blast
      have u: "send_all spin data sent wire (a # answers) = send_all spin data (sent + m) (wire @ take m (drop sent data)) answers"
        using m(1) True Moved unfolding send_all.simps [of spin data sent wire "a # answers"] by (simp add: Let_def m_def [symmetric])
      have "moves (a # answers) = Suc (moves answers)" "length data - sent = length data - (sent + m) + m" using Moved m(2) by simp_all
      then have "moves (a # answers) \<le> moves answers' + (length data - sent)" using w(3) m(1) by linarith
      then show ?thesis using w(1,2) unfolding u by (intro exI [of _ wire'] exI [of _ answers']) simp
    qed (use Cons True in \<open>subst send_all.simps; auto simp: willing_Cons\<close>)+
  qed
qed

lemma recv_all_ends:
  assumes "willing spin answers" and "len - length data \<le> moves answers" and "len - length data \<le> length incoming" and "length data \<le> len"
  shows "\<exists>data' incoming' answers'. recv_all spin len data incoming answers = Some (True, data', incoming', answers') \<and> willing spin answers'
    \<and> moves answers \<le> moves answers' + (len - length data)"
  using assms
proof (induction answers arbitrary: data incoming)
  case Nil
  then show ?case unfolding recv_all.simps [of spin len data incoming "[]"] by simp
next
  case (Cons a answers)
  show ?case
  proof (cases "length data < len")
    case False
    then show ?thesis using Cons.prems unfolding recv_all.simps [of spin len data incoming "a # answers"] by simp
  next
    case True
    show ?thesis
    proof (cases a)
      case (Moved n)
      define piece where "piece = take (min n (len - length data)) incoming"
      have "0 < length piece" "length piece \<le> len - length data" using Cons.prems(1,3) True Moved by (auto simp: piece_def willing_Cons)
      then have m: "piece \<noteq> []" "0 < length piece" "length (data @ piece) \<le> len" "len - length (data @ piece) + length piece = len - length data"
        using True by auto
      have "len - length data \<le> Suc (moves answers)" using Cons.prems(2) Moved by simp
      then have "willing spin answers" "len - length (data @ piece) \<le> moves answers" "len - length (data @ piece) \<le> length (drop (length piece) incoming)"
        using Cons.prems(1,3) m(2,4) by (simp add: willing_Cons, linarith, simp)
      from Cons.IH [OF this m(3)] obtain data' incoming' answers' where
        w: "recv_all spin len (data @ piece) (drop (length piece) incoming) answers = Some (True, data', incoming', answers')" "willing spin answers'"
          "moves answers \<le> moves answers' + (len - length (data @ piece))" by blast
      have u: "recv_all spin len data incoming (a # answers) = recv_all spin len (data @ piece) (drop (length piece) incoming) answers"
        using m(1) True Moved unfolding recv_all.simps [of spin len data incoming "a # answers"] by (simp add: Let_def piece_def [symmetric])
      have "moves (a # answers) = Suc (moves answers)" using Moved by simp
      then have "moves (a # answers) \<le> moves answers' + (len - length data)" using w(3) m(2,4) by linarith
      then show ?thesis using w(1,2) unfolding u by (intro exI [of _ data'] exI [of _ incoming'] exI [of _ answers']) simp
    qed (use Cons True in \<open>subst recv_all.simps; auto simp: willing_Cons\<close>)+
  qed
qed

text \<open>A whole transfer.\<close>

lemma transfer:
  assumes "willing spin answers" and "length data \<le> moves answers"
  shows "\<exists>answers'. send_all spin data 0 [] answers = Some (True, data, answers') \<and> willing spin answers' \<and> moves answers \<le> moves answers' + length data"
    and "length incoming = length data \<Longrightarrow>
      \<exists>answers'. recv_all spin (length data) [] incoming answers = Some (True, incoming, [], answers') \<and> willing spin answers'
        \<and> moves answers \<le> moves answers' + length data"
proof -
  obtain wire' answers' where w: "send_all spin data 0 [] answers = Some (True, wire', answers')" "willing spin answers'"
    "moves answers \<le> moves answers' + length data" using send_all_ends [OF assms(1), of data 0 "[]"] assms(2) by auto
  then show "\<exists>answers'. send_all spin data 0 [] answers = Some (True, data, answers') \<and> willing spin answers' \<and> moves answers \<le> moves answers' + length data"
    using send_all_prefix [OF w(1)] by auto
  show "\<exists>answers'. recv_all spin (length data) [] incoming answers = Some (True, incoming, [], answers') \<and> willing spin answers'
      \<and> moves answers \<le> moves answers' + length data" if n: "length incoming = length data"
  proof -
    obtain data' incoming' answers' where r: "recv_all spin (length data) [] incoming answers = Some (True, data', incoming', answers')"
      "willing spin answers'" "moves answers \<le> moves answers' + length data"
      using recv_all_ends [OF assms(1), of "length data" "[]" incoming] assms(2) n by auto
    then show ?thesis using recv_all_prefix [OF r(1)] n by auto
  qed
qed

end
