(* ===== verification/Client.thy ===== *)
theory Client
  imports Net EngineProperties
begin

text \<open>
  The latency run of the engine's client (\<^verbatim>\<open>tools/engine_client.cpp\<close>): an order is entered and canceled, over and over,
  and every response is checked.  The clock is a function from the number of the reading; the peer is a function from the
  bytes sent to the bytes it answers, and the engine is one (\<open>engine_peer\<close>).
\<close>

definition splitmix :: "u64 \<Rightarrow> u64 \<times> u64" where
  "splitmix s =
     (let s = s + 0x9E3779B97F4A7C15;
          z = s;
          z = (z XOR drop_bit 30 z) * 0xBF58476D1CE4E5B9;
          z = (z XOR drop_bit 27 z) * 0x94D049BB133111EB
      in (z XOR drop_bit 31 z, s))"

subsection \<open>The connection\<close>

record 's Conn =
  cn_answers :: "os_answer list"
  cn_incoming :: bytes
  cn_peer :: 's

text \<open>\<^verbatim>\<open>conn.send_all(out, sizeof(out))\<close> and \<^verbatim>\<open>conn.recv_all(in, sizeof(in))\<close>; a failure of one of them is \<^term>\<open>None\<close> inside.\<close>

definition round_trip :: "bool \<Rightarrow> ('s \<Rightarrow> bytes \<Rightarrow> bytes \<times> 's) \<Rightarrow> bytes \<Rightarrow> 's Conn \<Rightarrow> (bytes option \<times> 's Conn) option" where
  "round_trip spin peer out conn = do {
     (ok, wire, answers) \<leftarrow> send_all spin out 0 [] (cn_answers conn);
     let (bs, s) = peer (cn_peer conn) wire;
     let conn = conn\<lparr>cn_answers := answers, cn_incoming := cn_incoming conn @ bs, cn_peer := s\<rparr>;
     if \<not> ok then Some (None, conn)
     else do {
       (ok, data, incoming, answers) \<leftarrow> recv_all spin kMessageSize [] (cn_incoming conn) (cn_answers conn);
       Some (if ok then Some data else None, conn\<lparr>cn_incoming := incoming, cn_answers := answers\<rparr>) } }"

text \<open>The engine at the other end: the request is decoded, handled, and answered with its responses; the time it reads is
  any function of its state.\<close>

definition engine_peer :: "('l, 'm) policy \<Rightarrow> (('l, 'm) Engine \<Rightarrow> u64) \<Rightarrow> ('l, 'm) Engine \<Rightarrow> bytes \<Rightarrow> bytes \<times> ('l, 'm) Engine" where
  "engine_peer P ts e wire =
     (case decode_request wire of
        Some (Some req) \<Rightarrow>
          (case handle P (ts e) req (e\<lparr>eg_out := []\<rparr>) of
             Some e \<Rightarrow> (concat (map encode_response (eg_out e)), e)
           | None \<Rightarrow> ([], e))
      | _ \<Rightarrow> ([], e))"

subsection \<open>The run\<close>

record 's Client =
  cl_conn :: "'s Conn"
  cl_seed :: u64
  cl_next_id :: OrderId
  cl_readings :: nat
  cl_enter_rtt :: "u64 list"
  cl_cancel_rtt :: "u64 list"

definition now_ticks :: "(nat \<Rightarrow> u64) \<Rightarrow> 's Client \<Rightarrow> u64 \<times> 's Client" where
  "now_ticks clock c = (clock (cl_readings c), c\<lparr>cl_readings := cl_readings c + 1\<rparr>)"

definition client_splitmix :: "'s Client \<Rightarrow> u64 \<times> 's Client" where
  "client_splitmix c = (let (r, s) = splitmix (cl_seed c) in (r, c\<lparr>cl_seed := s\<rparr>))"

text \<open>One request and its response; \<open>None\<close> inside: the run returns 2.\<close>

definition client_call ::
  "bool \<Rightarrow> ('s \<Rightarrow> bytes \<Rightarrow> bytes \<times> 's) \<Rightarrow> (nat \<Rightarrow> u64) \<Rightarrow> RespKind \<Rightarrow> Request \<Rightarrow> 's Client \<Rightarrow> (u64 option \<times> 's Client) option" where
  "client_call spin peer clock kind req c = do {
     let (ts, c) = now_ticks clock c;
     let req = req\<lparr>rq_client_ts := ts\<rparr>;
     (in1, conn) \<leftarrow> round_trip spin peer (encode_request req) (cl_conn c);
     let c = c\<lparr>cl_conn := conn\<rparr>;
     case in1 of
       None \<Rightarrow> Some (None, c)
     | Some data \<Rightarrow>
         (let (t_ack, c) = now_ticks clock c in do {
          resp \<leftarrow> decode_response data;
          Some (case resp of
              None \<Rightarrow> (None, c)
            | Some resp \<Rightarrow> if rs_kind resp \<noteq> resp_char kind then (None, c) else (Some (t_ack - rs_client_ts resp), c)) }) }"

text \<open>The order of round \<open>i\<close> and the request that cancels it.\<close>

definition client_order :: "nat \<Rightarrow> 's Client \<Rightarrow> Request \<times> 's Client" where
  "client_order i c =
     (let oid = cl_next_id c;
          c = c\<lparr>cl_next_id := cl_next_id c + 1\<rparr>;
          side = (if i mod 2 = 0 then Bid else Ask);
          (r, c) = client_splitmix c;
          price = uint ((if side = Bid then 900 else 1100) + r mod 50);
          (r, c) = client_splitmix c;
          qty = ucast (1 + r mod 100)
      in (\<lparr>rq_kind = req_char Enter, rq_side = side, rq_qty = qty, rq_price = price, rq_id = oid, rq_new_id = 0, rq_client_ts = 0\<rparr>, c))"

definition client_cancel :: "Request \<Rightarrow> Request" where
  "client_cancel req =
     \<lparr>rq_kind = req_char Cancel, rq_side = Bid, rq_qty = 0, rq_price = 0, rq_id = rq_id req, rq_new_id = 0, rq_client_ts = 0\<rparr>"

text \<open>The body of the loop; the result says whether the run goes on.\<close>

definition latency_step ::
  "bool \<Rightarrow> ('s \<Rightarrow> bytes \<Rightarrow> bytes \<times> 's) \<Rightarrow> (nat \<Rightarrow> u64) \<Rightarrow> nat \<Rightarrow> nat \<Rightarrow> 's Client \<Rightarrow> (bool \<times> 's Client) option" where
  "latency_step spin peer clock warmup i c = do {
     let (req, c) = client_order i c;
     (rtt, c) \<leftarrow> client_call spin peer clock Accepted req c;
     case rtt of
       None \<Rightarrow> Some (False, c)
     | Some rtt \<Rightarrow> do {
         let c = (if i \<ge> warmup then c\<lparr>cl_enter_rtt := cl_enter_rtt c @ [rtt]\<rparr> else c);
         (rtt, c) \<leftarrow> client_call spin peer clock Canceled (client_cancel req) c;
         case rtt of
           None \<Rightarrow> Some (False, c)
         | Some rtt \<Rightarrow> Some (True, if i \<ge> warmup then c\<lparr>cl_cancel_rtt := cl_cancel_rtt c @ [rtt]\<rparr> else c) } }"

fun latency_loop ::
  "bool \<Rightarrow> ('s \<Rightarrow> bytes \<Rightarrow> bytes \<times> 's) \<Rightarrow> (nat \<Rightarrow> u64) \<Rightarrow> nat \<Rightarrow> nat list \<Rightarrow> 's Client \<Rightarrow> (int \<times> 's Client) option" where
  "latency_loop spin peer clock warmup [] c = Some (0, c)"
| "latency_loop spin peer clock warmup (i # is) c = do {
     (ok, c) \<leftarrow> latency_step spin peer clock warmup i c;
     if ok then latency_loop spin peer clock warmup is c else Some (2, c) }"

definition run_latency ::
  "bool \<Rightarrow> ('s \<Rightarrow> bytes \<Rightarrow> bytes \<times> 's) \<Rightarrow> (nat \<Rightarrow> u64) \<Rightarrow> u64 \<Rightarrow> 's Conn \<Rightarrow> (int \<times> 's Client) option" where
  "run_latency spin peer clock ops conn =
     (let c = \<lparr>cl_conn = conn, cl_seed = 0xC11E27, cl_next_id = 1, cl_readings = 0, cl_enter_rtt = [], cl_cancel_rtt = []\<rparr>;
          warmup = ops div 10 + 100
      in latency_loop spin peer clock (unat warmup) [0..<unat (ops + warmup)] c)"

subsection \<open>One request against the engine\<close>

lemma abs_enter_empty:
  assumes "ab_levels A = (\<lambda>_. [])" and "rq_kind req = req_char Enter" and "rq_id req \<noteq> 0" and "rq_qty req \<noteq> 0" and "V (rq_price req)"
  shows "fst (abs_request V req A) = (Ok, [], 0)"
    and "ab_levels (snd (abs_request V req A))
      = (\<lambda>_. [])(rq_side req := [(rq_price req, [\<lparr>en_id = rq_id req, en_qty = rq_qty req, en_owner = 0\<rparr>])])"
  using assms by (cases "rq_side req"; simp add: abs_request_def abs_eval fun_eq_iff word_neq_0_conv)+

lemma abs_cancel_single:
  assumes "ab_levels A = (\<lambda>_. [])(s := [(p, [x])])" and "rq_kind req = req_char Cancel" and "rq_id req = en_id x"
  shows "fst (abs_request V req A) = (Ok, [], 0)" and "ab_levels (snd (abs_request V req A)) = (\<lambda>_. [])"
proof -
  have "abs_find (en_id x) A = Some (s, p, x)" using assms(1) by (cases s) (simp_all add: abs_find_def all_entries_def side_entries_def)
  then have r: "abs_request V req A = ((Ok, [], 0), abs_remove s p (en_id x) (abs_count (c_canceled (en_qty x)) A))"
    by (simp add: abs_request_def assms(2,3) ch_def abs_cancel_def)
  then show "fst (abs_request V req A) = (Ok, [], 0)" by simp
  show "ab_levels (snd (abs_request V req A)) = (\<lambda>_. [])" unfolding r
    by (simp add: abs_remove_def abs_set_queue_def place_def queue_at_def abs_count_def assms(1) fun_eq_iff)
qed

lemma engine_answers:
  assumes "follows_book P V n e A" and "Suc n < 2 ^ 32" and "price_fits (rq_price req)" and "fst (abs_request V req A) = (Ok, [], 0)"
    and "ack req Ok 0 = [r]"
  shows "\<exists>e'. engine_peer P ts e (encode_request req) = (encode_response r, e') \<and> follows_book P V (Suc n) e' (snd (abs_request V req A))
    \<and> es_responses (eg_stats e') = es_responses (eg_stats e) + 1"
proof -
  have f: "follows_book P V n (e\<lparr>eg_out := []\<rparr>) A" using assms(1) by (simp add: follows_book_def)
  from handle_spec [OF this assms(2), of "ts e" req] assms(4,5) obtain e' where
    "handle P (ts e) req (e\<lparr>eg_out := []\<rparr>) = Some e'" "follows_book P V (Suc n) e' (snd (abs_request V req A))" "eg_out e' = [r]"
    "es_responses (eg_stats e') = es_responses (eg_stats e) + 1" by (auto simp: grows_def responses_def)
  then show ?thesis using decode_encode(1) [OF assms(3), of "[]"] by (simp add: engine_peer_def)
qed

lemma round_trip_answered:
  assumes "willing spin (cn_answers conn)" and "length out + kMessageSize \<le> moves (cn_answers conn)" and "cn_incoming conn = []"
    and "peer (cn_peer conn) out = (bs, s)" and "length bs = kMessageSize"
  shows "\<exists>answers. round_trip spin peer out conn = Some (Some bs, \<lparr>cn_answers = answers, cn_incoming = [], cn_peer = s\<rparr>)
    \<and> willing spin answers \<and> moves (cn_answers conn) \<le> moves answers + (length out + kMessageSize)"
proof -
  obtain a1 where a1: "send_all spin out 0 [] (cn_answers conn) = Some (True, out, a1)" "willing spin a1" "moves (cn_answers conn) \<le> moves a1 + length out"
    using transfer(1) [OF assms(1), of out] assms(2) by auto
  obtain a2 where "recv_all spin (length bs) [] bs a1 = Some (True, bs, [], a2)" "willing spin a2" "moves a1 \<le> moves a2 + length bs"
    using transfer(2) [OF a1(2), of bs bs] a1(3) assms(2,5) by auto
  then show ?thesis using a1 assms by (cases conn) (auto simp: round_trip_def)
qed

text \<open>The \<open>k\<close>-th reading of the clock starts a call, the next ends it.\<close>

definition rtt :: "(nat \<Rightarrow> u64) \<Rightarrow> nat \<Rightarrow> u64" where
  "rtt clock k = clock (k + 1) - clock k"

definition stamped :: "(nat \<Rightarrow> u64) \<Rightarrow> 's Client \<Rightarrow> Request \<Rightarrow> Request" where
  "stamped clock c req = req\<lparr>rq_client_ts := clock (cl_readings c)\<rparr>"

lemma client_call_engine:
  assumes "follows_book P V n (cn_peer (cl_conn c)) A" and "Suc n < 2 ^ 32" and "price_fits (rq_price req)" and "price_fits p"
    and "fst (abs_request V (stamped clock c req) A) = (Ok, [], 0)"
    and "ack (stamped clock c req) Ok 0 = [response kind Ok q p oid 0 (stamped clock c req)]"
    and "willing spin (cn_answers (cl_conn c))" and "80 \<le> moves (cn_answers (cl_conn c))" and "cn_incoming (cl_conn c) = []"
  shows "\<exists>answers e'. client_call spin (engine_peer P ts) clock kind req c = Some (Some (rtt clock (cl_readings c)),
      c\<lparr>cl_conn := \<lparr>cn_answers = answers, cn_incoming = [], cn_peer = e'\<rparr>, cl_readings := cl_readings c + 2\<rparr>)
    \<and> willing spin answers \<and> moves (cn_answers (cl_conn c)) \<le> moves answers + 80
    \<and> follows_book P V (Suc n) e' (snd (abs_request V (stamped clock c req) A))
    \<and> es_responses (eg_stats e') = es_responses (eg_stats (cn_peer (cl_conn c))) + 1"
proof -
  define r where "r = response kind Ok q p oid 0 (stamped clock c req)"
  have f: "price_fits (rq_price (stamped clock c req))" using assms(3) by (simp add: stamped_def)
  obtain e' where e': "engine_peer P ts (cn_peer (cl_conn c)) (encode_request (stamped clock c req)) = (encode_response r, e')"
    "follows_book P V (Suc n) e' (snd (abs_request V (stamped clock c req) A))"
    "es_responses (eg_stats e') = es_responses (eg_stats (cn_peer (cl_conn c))) + 1"
    using engine_answers [OF assms(1,2) f assms(5) assms(6) [folded r_def]] by blast
  have n: "length (encode_request (stamped clock c req)) + kMessageSize = 80" "length (encode_response r) = kMessageSize" by (simp_all add: kMessageSize_def)
  obtain answers where a: "round_trip spin (engine_peer P ts) (encode_request (stamped clock c req)) (cl_conn c)
      = Some (Some (encode_response r), \<lparr>cn_answers = answers, cn_incoming = [], cn_peer = e'\<rparr>)"
    "willing spin answers" "moves (cn_answers (cl_conn c)) \<le> moves answers + 80"
    using round_trip_answered [where peer = "engine_peer P ts", OF assms(7) _ assms(9) e'(1) n(2)] assms(8) unfolding n(1) by blast
  have "price_fits (rs_price r)" using assms(4) by (simp add: r_def response_def)
  then have d: "decode_response (encode_response r) = Some (Some r)" using decode_encode(2) [of r "[]"] by simp
  have "client_call spin (engine_peer P ts) clock kind req c = Some (Some (rtt clock (cl_readings c)),
      c\<lparr>cl_conn := \<lparr>cn_answers = answers, cn_incoming = [], cn_peer = e'\<rparr>, cl_readings := cl_readings c + 2\<rparr>)"
    using a(1) d by (cases c) (simp add: client_call_def now_ticks_def stamped_def r_def response_def rtt_def)
  then show ?thesis using a(2,3) e'(2,3) by blast
qed

subsection \<open>A round\<close>

lemma client_price: "900 \<le> uint ((if b then 900 else 1100) + r mod 50 :: u64)" "uint ((if b then 900 else 1100) + r mod 50 :: u64) < 1150"
proof -
  have m: "uint (r mod 50) = uint r mod 50" by (simp add: uint_mod)
  have "0 \<le> uint r mod 50" "uint r mod 50 < 50" by simp_all
  then have "uint (900 + r mod 50) = 900 + uint r mod 50" "uint (1100 + r mod 50) = 1100 + uint r mod 50"
    by (simp_all add: uint_word_ariths m)
  then show "900 \<le> uint ((if b then 900 else 1100) + r mod 50 :: u64)" "uint ((if b then 900 else 1100) + r mod 50 :: u64) < 1150"
    using \<open>0 \<le> uint r mod 50\<close> \<open>uint r mod 50 < 50\<close> by (cases b; simp)+
qed

lemma client_qty: "(ucast (1 + r mod 100 :: u64) :: u32) \<noteq> 0"
proof -
  have "uint (1 + r mod 100) = 1 + uint r mod 100" by (simp add: uint_word_ariths uint_mod)
  then have "uint (ucast (1 + r mod 100 :: u64) :: u32) = 1 + uint r mod 100" by (simp add: unsigned_ucast_eq take_bit_eq_mod)
  then show ?thesis by auto
qed

lemma client_order_valid:
  assumes "client_order i c = (req, c')"
  shows "rq_kind req = req_char Enter" and "rq_id req = cl_next_id c" and "rq_qty req \<noteq> 0" and "900 \<le> rq_price req" and "rq_price req < 1150"
    and "price_fits (rq_price req)" and "\<exists>s. c' = c\<lparr>cl_next_id := cl_next_id c + 1, cl_seed := s\<rparr>"
proof -
  obtain r1 s1 where r1: "splitmix (cl_seed c) = (r1, s1)" by force
  obtain r2 s2 where r2: "splitmix s1 = (r2, s2)" by force
  let ?side = "if i mod 2 = 0 then Bid else Ask"
  have req: "req = \<lparr>rq_kind = req_char Enter, rq_side = ?side, rq_qty = ucast (1 + r2 mod 100),
      rq_price = uint ((if ?side = Bid then 900 else 1100) + r1 mod 50), rq_id = cl_next_id c, rq_new_id = 0, rq_client_ts = 0\<rparr>"
    and c': "c' = c\<lparr>cl_next_id := cl_next_id c + 1, cl_seed := s2\<rparr>"
    using assms by (simp_all add: client_order_def client_splitmix_def r1 r2 Let_def)
  show "rq_kind req = req_char Enter" "rq_id req = cl_next_id c" unfolding req by simp_all
  show "rq_qty req \<noteq> 0" unfolding req using client_qty [of r2] by simp
  show p: "900 \<le> rq_price req" "rq_price req < 1150" unfolding req Request.select_convs by (rule client_price)+
  show "price_fits (rq_price req)" using p by (simp add: price_fits_def)
  show "\<exists>s. c' = c\<lparr>cl_next_id := cl_next_id c + 1, cl_seed := s\<rparr>" using c' by blast
qed

text \<open>The calls of a round: the order rests alone, and is gone again.\<close>

abbreviation answered :: "('l, 'm) Engine Client \<Rightarrow> os_answer list \<Rightarrow> ('l, 'm) Engine \<Rightarrow> ('l, 'm) Engine Client" where
  "answered c answers e \<equiv> c\<lparr>cl_conn := \<lparr>cn_answers = answers, cn_incoming = [], cn_peer = e\<rparr>, cl_readings := cl_readings c + 2\<rparr>"

lemma enter_call:
  assumes "follows_book P V n (cn_peer (cl_conn c)) A" and "Suc n < 2 ^ 32" and "ab_levels A = (\<lambda>_. [])"
    and "rq_kind req = req_char Enter" and "rq_id req \<noteq> 0" and "rq_qty req \<noteq> 0" and "price_fits (rq_price req)" and "V (rq_price req)"
    and "willing spin (cn_answers (cl_conn c))" and "80 \<le> moves (cn_answers (cl_conn c))" and "cn_incoming (cl_conn c) = []"
  shows "\<exists>answers e B. client_call spin (engine_peer P ts) clock Accepted req c = Some (Some (rtt clock (cl_readings c)), answered c answers e)
    \<and> willing spin answers \<and> moves (cn_answers (cl_conn c)) \<le> moves answers + 80 \<and> follows_book P V (Suc n) e B
    \<and> (\<exists>s p x. ab_levels B = (\<lambda>_. [])(s := [(p, [x])]) \<and> en_id x = rq_id req)
    \<and> es_responses (eg_stats e) = es_responses (eg_stats (cn_peer (cl_conn c))) + 1"
proof -
  let ?req = "stamped clock c req"
  have r: "rq_kind ?req = req_char Enter" "rq_id ?req \<noteq> 0" "rq_qty ?req \<noteq> 0" "V (rq_price ?req)" using assms(4-6,8) by (simp_all add: stamped_def)
  note en = abs_enter_empty [where V = V, OF assms(3) r]
  have "ack ?req Ok 0 = [response Accepted Ok (rq_qty req) (rq_price req) (rq_id req) 0 ?req]" by (simp add: ack_def stamped_def assms(4) reply_def)
  from client_call_engine [OF assms(1,2,7,7) en(1) this assms(9-11), of ts] obtain answers e where
    c: "client_call spin (engine_peer P ts) clock Accepted req c = Some (Some (rtt clock (cl_readings c)), answered c answers e)"
    "willing spin answers" "moves (cn_answers (cl_conn c)) \<le> moves answers + 80" "follows_book P V (Suc n) e (snd (abs_request V ?req A))"
    "es_responses (eg_stats e) = es_responses (eg_stats (cn_peer (cl_conn c))) + 1" by blast
  have "en_id \<lparr>en_id = rq_id ?req, en_qty = rq_qty ?req, en_owner = 0\<rparr> = rq_id req" by (simp add: stamped_def)
  then show ?thesis using c en(2) by blast
qed

lemma cancel_call:
  assumes "follows_book P V n (cn_peer (cl_conn c)) A" and "Suc n < 2 ^ 32" and "ab_levels A = (\<lambda>_. [])(s := [(p, [x])])" and "en_id x = rq_id req"
    and "willing spin (cn_answers (cl_conn c))" and "80 \<le> moves (cn_answers (cl_conn c))" and "cn_incoming (cl_conn c) = []"
  shows "\<exists>answers e B. client_call spin (engine_peer P ts) clock Canceled (client_cancel req) c
      = Some (Some (rtt clock (cl_readings c)), answered c answers e)
    \<and> willing spin answers \<and> moves (cn_answers (cl_conn c)) \<le> moves answers + 80 \<and> follows_book P V (Suc n) e B \<and> ab_levels B = (\<lambda>_. [])
    \<and> es_responses (eg_stats e) = es_responses (eg_stats (cn_peer (cl_conn c))) + 1"
proof -
  let ?req = "stamped clock c (client_cancel req)"
  have r: "rq_kind ?req = req_char Cancel" "rq_id ?req = en_id x" using assms(4) by (simp_all add: stamped_def client_cancel_def)
  note ca = abs_cancel_single [where V = V, OF assms(3) r]
  have k: "ack ?req Ok 0 = [response Canceled Ok 0 0 (rq_id req) 0 ?req]" "price_fits (rq_price (client_cancel req))" "price_fits 0"
    by (simp_all add: ack_def stamped_def client_cancel_def reply_def ch_def price_fits_def)
  show ?thesis using client_call_engine [OF assms(1,2) k(2,3) ca(1) k(1) assms(5-7), of ts] ca(2) by blast
qed

text \<open>Between two rounds: the book is empty, the connection drained.\<close>

definition between :: "bool \<Rightarrow> ('l, 'm) policy \<Rightarrow> (Price \<Rightarrow> bool) \<Rightarrow> nat \<Rightarrow> ('l, 'm) Engine Client \<Rightarrow> bool" where
  "between spin P V i c \<longleftrightarrow> (\<exists>A. follows_book P V (2 * i) (cn_peer (cl_conn c)) A \<and> ab_levels A = (\<lambda>_. []))
    \<and> cn_incoming (cl_conn c) = [] \<and> willing spin (cn_answers (cl_conn c)) \<and> cl_next_id c = of_nat (Suc i) \<and> cl_readings c = 4 * i
    \<and> es_responses (eg_stats (cn_peer (cl_conn c))) = of_nat (2 * i)"

lemma latency_round:
  assumes "between spin P V i c" and "160 \<le> moves (cn_answers (cl_conn c))" and "2 * i + 2 < 2 ^ 32" and "\<forall>p. 900 \<le> p \<and> p < 1150 \<longrightarrow> V p"
  shows "\<exists>c'. latency_step spin (engine_peer P ts) clock warmup i c = Some (True, c') \<and> between spin P V (Suc i) c'
    \<and> moves (cn_answers (cl_conn c)) \<le> moves (cn_answers (cl_conn c')) + 160
    \<and> cl_enter_rtt c' = cl_enter_rtt c @ (if warmup \<le> i then [rtt clock (4 * i)] else [])
    \<and> cl_cancel_rtt c' = cl_cancel_rtt c @ (if warmup \<le> i then [rtt clock (4 * i + 2)] else [])"
proof -
  obtain A where A: "follows_book P V (2 * i) (cn_peer (cl_conn c)) A" "ab_levels A = (\<lambda>_. [])" using assms(1) by (auto simp: between_def)
  have b: "cn_incoming (cl_conn c) = []" "willing spin (cn_answers (cl_conn c))" "cl_next_id c = of_nat (Suc i)" "cl_readings c = 4 * i"
    "es_responses (eg_stats (cn_peer (cl_conn c))) = of_nat (2 * i)" using assms(1) by (simp_all add: between_def del: of_nat_Suc)
  obtain req c1 where o: "client_order i c = (req, c1)" by force
  note v = client_order_valid [OF o]
  obtain sd where c1: "c1 = c\<lparr>cl_next_id := cl_next_id c + 1, cl_seed := sd\<rparr>" using v(7) by blast
  have "rq_id req \<noteq> 0" using assms(3) by (simp add: v(2) b(3) unat_eq_zero [symmetric] unat_of_nat_u64 del: of_nat_Suc)
  moreover have "Suc (2 * i) < 2 ^ 32" "Suc (Suc (2 * i)) < 2 ^ 32" "V (rq_price req)" using assms(3,4) v(4,5) by simp_all
  ultimately obtain a1 e1 B s p x where
    k1: "client_call spin (engine_peer P ts) clock Accepted req c1 = Some (Some (rtt clock (4 * i)), answered c1 a1 e1)"
    "willing spin a1" "moves (cn_answers (cl_conn c)) \<le> moves a1 + 80" "follows_book P V (Suc (2 * i)) e1 B"
    "ab_levels B = (\<lambda>_. [])(s := [(p, [x])])" "en_id x = rq_id req" "es_responses (eg_stats e1) = of_nat (2 * i) + 1"
    using enter_call [where c = c1 and V = V and spin = spin and P = P and n = "2 * i" and A = A and ts = ts and clock = clock and req = req]
      A v(1-6) b assms(2) unfolding c1 by fastforce
  define c2 where "c2 = (answered c1 a1 e1)\<lparr>cl_enter_rtt := cl_enter_rtt c @ (if warmup \<le> i then [rtt clock (4 * i)] else [])\<rparr>"
  have c2: "(if warmup \<le> i then (answered c1 a1 e1)\<lparr>cl_enter_rtt := cl_enter_rtt (answered c1 a1 e1) @ [rtt clock (4 * i)]\<rparr> else answered c1 a1 e1) = c2"
    and d: "cl_conn c2 = \<lparr>cn_answers = a1, cn_incoming = [], cn_peer = e1\<rparr>" "cl_readings c2 = 4 * i + 2"
    using b(4) by (simp_all add: c2_def c1)
  have "80 \<le> moves a1" using k1(3) assms(2) by simp
  then obtain a2 e2 D where
    k2: "client_call spin (engine_peer P ts) clock Canceled (client_cancel req) c2 = Some (Some (rtt clock (4 * i + 2)), answered c2 a2 e2)"
    "willing spin a2" "moves a1 \<le> moves a2 + 80" "follows_book P V (Suc (Suc (2 * i))) e2 D" "ab_levels D = (\<lambda>_. [])"
    "es_responses (eg_stats e2) = of_nat (2 * i) + 2"
    using cancel_call [where c = c2 and V = V and spin = spin and P = P and n = "Suc (2 * i)" and ts = ts and clock = clock and req = req, OF _ _ k1(5,6)]
      k1(2,4,7) assms(3) unfolding d by fastforce
  define c3 where "c3 = (answered c2 a2 e2)\<lparr>cl_cancel_rtt := cl_cancel_rtt c @ (if warmup \<le> i then [rtt clock (4 * i + 2)] else [])\<rparr>"
  have c3: "(if warmup \<le> i then (answered c2 a2 e2)\<lparr>cl_cancel_rtt := cl_cancel_rtt (answered c2 a2 e2) @ [rtt clock (4 * i + 2)]\<rparr> else answered c2 a2 e2) = c3"
    by (simp add: c3_def c2_def c1)
  have "latency_step spin (engine_peer P ts) clock warmup i c = Some (True, c3)"
    using o k1(1) k2(1) by (simp only: latency_step_def Let_def split Option.bind.simps option.case c2 c3)
  moreover have "between spin P V (Suc i) c3"
    using k2(2,4,5,6) b(3,4) by (auto simp: between_def c3_def c2_def c1)
  moreover have "moves (cn_answers (cl_conn c)) \<le> moves (cn_answers (cl_conn c3)) + 160" using k1(3) k2(3) by (simp add: c3_def)
  ultimately show ?thesis by (intro exI [of _ c3]) (simp add: c3_def c2_def c1)
qed

subsection \<open>The whole run\<close>

lemma latency_rounds:
  assumes "between spin P V i c" and "i \<le> n" and "160 * (n - i) \<le> moves (cn_answers (cl_conn c))" and "2 * n < 2 ^ 32"
    and "\<forall>p. 900 \<le> p \<and> p < 1150 \<longrightarrow> V p"
  shows "\<exists>c'. latency_loop spin (engine_peer P ts) clock warmup [i..<n] c = Some (0, c') \<and> between spin P V n c'
    \<and> cl_enter_rtt c' = cl_enter_rtt c @ map (\<lambda>k. rtt clock (4 * k)) [max warmup i..<n]
    \<and> cl_cancel_rtt c' = cl_cancel_rtt c @ map (\<lambda>k. rtt clock (4 * k + 2)) [max warmup i..<n]"
  using assms
proof (induction "n - i" arbitrary: i c)
  case 0
  then show ?case by (intro exI [of _ c]) auto
next
  case (Suc m)
  then have i: "i < n" "[i..<n] = i # [Suc i..<n]" by (simp_all add: upt_conv_Cons)
  have "160 \<le> moves (cn_answers (cl_conn c))" "2 * i + 2 < 2 ^ 32" using Suc.prems(3,4) i(1) by auto
  from latency_round [OF Suc.prems(1) this Suc.prems(5), of ts clock warmup] obtain c1 where
    c1: "latency_step spin (engine_peer P ts) clock warmup i c = Some (True, c1)" "between spin P V (Suc i) c1"
      "moves (cn_answers (cl_conn c)) \<le> moves (cn_answers (cl_conn c1)) + 160"
      "cl_enter_rtt c1 = cl_enter_rtt c @ (if warmup \<le> i then [rtt clock (4 * i)] else [])"
      "cl_cancel_rtt c1 = cl_cancel_rtt c @ (if warmup \<le> i then [rtt clock (4 * i + 2)] else [])" by blast
  have "m = n - Suc i" "Suc i \<le> n" "160 * (n - Suc i) \<le> moves (cn_answers (cl_conn c1))" using Suc.hyps(2) Suc.prems(3) i(1) c1(3) by auto
  from Suc.hyps(1) [OF this(1) c1(2) this(2,3) Suc.prems(4,5)] obtain c' where
    c': "latency_loop spin (engine_peer P ts) clock warmup [Suc i..<n] c1 = Some (0, c')" "between spin P V n c'"
      "cl_enter_rtt c' = cl_enter_rtt c1 @ map (\<lambda>k. rtt clock (4 * k)) [max warmup (Suc i)..<n]"
      "cl_cancel_rtt c' = cl_cancel_rtt c1 @ map (\<lambda>k. rtt clock (4 * k + 2)) [max warmup (Suc i)..<n]" by blast
  have w: "[max warmup i..<n] = (if warmup \<le> i then [i] else []) @ [max warmup (Suc i)..<n]"
    using i by (auto simp: max_def not_less_eq_eq dest: le_antisym)
  show ?case unfolding i(2) using c1(1,4,5) c' by (intro exI [of _ c']) (simp add: w)
qed

lemma client_start:
  assumes "lawful P l" and "length (cf_symbol cfg) = 8"
  shows "\<exists>e. serve_new P l cfg [] = Some e \<and> follows_book P (pol_valid_price P l) 0 e abook_new \<and> es_responses (eg_stats e) = 0"
  using engine_start [OF assms] by (fastforce simp: serve_new_def match_thread_def)

text \<open>C33: The latency run of the client against the engine ends with exit code 0 however the two sockets cut the transfers, as long as they move something: every order is accepted and every cancel confirmed, the samples are exactly the round trips of the rounds after the warm-up, each the difference of the clock read before the call and after its response, and the engine answered each request once and is left with an empty book.\<close>

theorem latency_client_completes:
  assumes "lawful P l" and "length (cf_symbol cfg) = 8" and "\<forall>p. 900 \<le> p \<and> p < 1150 \<longrightarrow> pol_valid_price P l p"
    and "unat ops < 10 ^ 9" and "willing spin answers" and "160 * (unat ops + unat ops div 10 + 100) \<le> moves answers"
  shows "\<exists>e c. serve_new P l cfg [] = Some e
    \<and> run_latency spin (engine_peer P ts) clock ops \<lparr>cn_answers = answers, cn_incoming = [], cn_peer = e\<rparr> = Some (0, c)
    \<and> (let rounds = [unat ops div 10 + 100..<unat ops + unat ops div 10 + 100]
       in cl_enter_rtt c = map (\<lambda>k. clock (4 * k + 1) - clock (4 * k)) rounds
        \<and> cl_cancel_rtt c = map (\<lambda>k. clock (4 * k + 3) - clock (4 * k + 2)) rounds)
    \<and> (\<forall>s. resting P s (eg_book (cn_peer (cl_conn c))) = Some [])
    \<and> es_responses (eg_stats (cn_peer (cl_conn c))) = of_nat (2 * (unat ops + unat ops div 10 + 100))"
proof -
  obtain e where e: "serve_new P l cfg [] = Some e" "follows_book P (pol_valid_price P l) 0 e abook_new" "es_responses (eg_stats e) = 0"
    using client_start [OF assms(1,2)] by blast
  let ?c = "\<lparr>cl_conn = \<lparr>cn_answers = answers, cn_incoming = [], cn_peer = e\<rparr>, cl_seed = 0xC11E27, cl_next_id = 1, cl_readings = 0,
    cl_enter_rtt = [], cl_cancel_rtt = []\<rparr>"
  define w n where "w = unat ops div 10 + 100" and "n = unat ops + w"
  have "unat (ops div 10) = unat ops div 10" by (simp add: unat_div)
  then have w: "unat (ops div 10 + 100) = w" using assms(4) by (simp add: w_def unat_word_ariths)
  have n: "unat (ops + (ops div 10 + 100)) = n" using assms(4) by (subst unat_word_ariths) (simp add: w n_def w_def)
  have b: "between spin P (pol_valid_price P l) 0 ?c" using e(2,3) assms(5) by (auto simp: between_def abook_new_def)
  have "160 * (n - 0) \<le> moves (cn_answers (cl_conn ?c))" "2 * n < 2 ^ 32" using assms(4,6) by (simp_all add: n_def w_def)
  from latency_rounds [OF b le0 this assms(3), of ts clock w] obtain c where
    c: "latency_loop spin (engine_peer P ts) clock w [0..<n] ?c = Some (0, c)" "between spin P (pol_valid_price P l) n c"
      "cl_enter_rtt c = map (\<lambda>k. rtt clock (4 * k)) [w..<n]" "cl_cancel_rtt c = map (\<lambda>k. rtt clock (4 * k + 2)) [w..<n]" by auto
  obtain A where A: "follows_book P (pol_valid_price P l) (2 * n) (cn_peer (cl_conn c)) A" "ab_levels A = (\<lambda>_. [])"
    and r: "es_responses (eg_stats (cn_peer (cl_conn c))) = of_nat (2 * n)" using c(2) by (auto simp: between_def)
  have "resting P s (eg_book (cn_peer (cl_conn c))) = Some []" for s
    using implementsD(3) [of P "pol_valid_price P l" "eg_book (cn_peer (cl_conn c))" A s] A by (simp add: follows_book_def)
  moreover have "run_latency spin (engine_peer P ts) clock ops \<lparr>cn_answers = answers, cn_incoming = [], cn_peer = e\<rparr> = Some (0, c)"
    using c(1) by (simp only: run_latency_def Let_def w n)
  moreover have "unat ops + unat ops div 10 + 100 = n" "unat ops div 10 + 100 = w" by (simp_all add: w_def n_def)
  moreover have "rtt clock (4 * k) = clock (4 * k + 1) - clock (4 * k)" "rtt clock (4 * k + 2) = clock (4 * k + 3) - clock (4 * k + 2)" for k
    by (simp_all only: rtt_def add.assoc) simp
  ultimately show ?thesis using e(1) c(3,4) r by (intro exI [of _ e] exI [of _ c] conjI allI) (simp_all only: Let_def)
qed

theorem latency_client_completes_witness:
  "\<exists>e c. serve_new map_open_policy ml_new sample_config [] = Some e
    \<and> run_latency True (engine_peer map_open_policy (\<lambda>_. 7)) of_nat 3
        \<lparr>cn_answers = concat (replicate 16480 [WouldBlock, Moved 17]), cn_incoming = [], cn_peer = e\<rparr> = Some (0, c)
    \<and> cl_enter_rtt c = [1, 1, 1] \<and> resting map_open_policy Bid (eg_book (cn_peer (cl_conn c))) = Some []"
proof -
  let ?answers = "concat (replicate 16480 [WouldBlock, Moved 17])"
  have "moves (concat (replicate k [WouldBlock, Moved 17])) = k" for k by (induction k) simp_all
  then have m: "160 * (unat (3 :: u64) + unat (3 :: u64) div 10 + 100) \<le> moves ?answers" by simp
  have w: "willing True ?answers" by (auto simp: willing_def)
  have p: "\<forall>p. 900 \<le> p \<and> p < 1150 \<longrightarrow> pol_valid_price map_open_policy ml_new p" by (simp add: map_open_valid)
  have s: "length (cf_symbol sample_config) = 8" "unat (3 :: u64) < 10 ^ 9" by (simp_all add: sample_config_def)
  from latency_client_completes [OF lawful_policies(2) s(1) p s(2) w m, of "\<lambda>_. 7" of_nat] obtain e c where
    c: "serve_new map_open_policy ml_new sample_config [] = Some e"
      "run_latency True (engine_peer map_open_policy (\<lambda>_. 7)) of_nat 3 \<lparr>cn_answers = ?answers, cn_incoming = [], cn_peer = e\<rparr> = Some (0, c)"
      "cl_enter_rtt c = map (\<lambda>k. of_nat (4 * k + 1) - of_nat (4 * k)) [100..<103]"
      "resting map_open_policy Bid (eg_book (cn_peer (cl_conn c))) = Some []" unfolding Let_def by auto
  have "[100..<103 :: nat] = [100, 101, 102]" by (simp add: upt_rec)
  then have "cl_enter_rtt c = [1, 1, 1]" using c(3) by simp
  with c show ?thesis by (intro exI conjI)
qed

end
