(* ===== verification/ClientLoad.thy ===== *)
theory ClientLoad
  imports Client
begin

text \<open>
  The throughput run of the client (\<^verbatim>\<open>tools/engine_client.cpp\<close>, \<open>run_throughput\<close>): the main thread sends batches of
  orders, the reader thread counts the whole messages in whatever arrives.  The two share nothing but the counter and the
  stop flag, which is the argument \<open>stop\<close>; what the clock measures and the wait for the stream to go quiet are left out.
\<close>

subsection \<open>The sender\<close>

record Load =
  ld_seed :: u64
  ld_next_id :: OrderId
  ld_sent :: u64

definition load_splitmix :: "Load \<Rightarrow> u64 \<times> Load" where
  "load_splitmix l = (let (r, s) = splitmix (ld_seed l) in (r, l\<lparr>ld_seed := s\<rparr>))"

definition load_order :: "Load \<Rightarrow> Request \<times> Load" where
  "load_order l =
     (let oid = ld_next_id l;
          l = l\<lparr>ld_next_id := ld_next_id l + 1\<rparr>;
          (r, l) = load_splitmix l;
          side = (if r mod 2 = 0 then Bid else Ask);
          (r, l) = load_splitmix l;
          price = uint ((if side = Bid then 995 else 1000) + r mod 11);
          (r, l) = load_splitmix l;
          qty = ucast (1 + r mod 100)
      in (\<lparr>rq_kind = req_char Enter, rq_side = side, rq_qty = qty, rq_price = price, rq_id = oid, rq_new_id = 0, rq_client_ts = ld_sent l\<rparr>,
          l\<lparr>ld_sent := ld_sent l + 1\<rparr>))"

text \<open>\<^verbatim>\<open>sizeof(out)\<close>\<close>

definition kBatchSize :: nat where
  "kBatchSize = kMessageSize * 256"

lemma load_order_sent: "ld_sent (snd (load_order l)) = ld_sent l + 1"
  by (simp add: load_order_def load_splitmix_def Let_def split_beta)

lemma load_order_progress: "ld_sent l < ops \<Longrightarrow> unat (ld_sent (snd (load_order l))) = Suc (unat (ld_sent l))"
proof -
  assume "ld_sent l < ops"
  then have "unat (ld_sent l) < unat ops" by (simp only: word_less_nat_alt)
  moreover have "unat ops < 2 ^ LENGTH(64)" by (rule unsigned_less)
  ultimately have "unat (ld_sent l) + unat (1 :: u64) < 2 ^ LENGTH(64)" by simp
  then have "unat (ld_sent l + 1) = unat (ld_sent l) + unat (1 :: u64)" by (simp only: unat_add_lem)
  then show ?thesis unfolding load_order_sent by simp
qed

function load_batch :: "u64 \<Rightarrow> bytes \<Rightarrow> Load \<Rightarrow> bytes \<times> Load" where
  "load_batch ops out l =
     (if length out < kBatchSize \<and> ld_sent l < ops then
        (let (req, l) = load_order l in load_batch ops (out @ encode_request req) l)
      else (out, l))"
  by pat_completeness auto
termination
proof (relation "measure (\<lambda>(ops, out, l). unat ops - unat (ld_sent l))")
  fix ops :: u64 and out :: bytes and l l' :: Load and p req
  assume a: "length out < kBatchSize \<and> ld_sent l < ops" "p = load_order l" "(req, l') = p"
  then have "unat (ld_sent l') = Suc (unat (ld_sent l))" using load_order_progress [of l ops] by (metis snd_conv)
  then show "((ops, out @ encode_request req, l'), ops, out, l) \<in> measure (\<lambda>(ops, out, l). unat ops - unat (ld_sent l))"
    using a(1) by (auto simp: word_less_nat_alt)
qed simp

declare load_batch.simps [simp del]

text \<open>A batch is the encodings of the next orders, at least one and at most 256 of them.\<close>

primrec load_orders :: "nat \<Rightarrow> Load \<Rightarrow> Request list \<times> Load" where
  "load_orders 0 l = ([], l)"
| "load_orders (Suc n) l = (let (req, l) = load_order l; (reqs, l) = load_orders n l in (req # reqs, l))"

lemma load_orders_add: "load_orders (m + n) l = (let (xs, l) = load_orders m l; (ys, l) = load_orders n l in (xs @ ys, l))"
  by (induction m arbitrary: l) (simp_all add: split_beta Let_def)

lemma load_batch_orders:
  "\<exists>n. load_batch ops out l = (out @ concat (map encode_request (fst (load_orders n l))), snd (load_orders n l))
    \<and> unat (ld_sent (snd (load_orders n l))) = unat (ld_sent l) + n \<and> length (fst (load_orders n l)) = n
    \<and> (ld_sent l < ops \<and> length out < kBatchSize \<longrightarrow> 0 < n) \<and> (n = 0 \<or> unat (ld_sent l) + n \<le> unat ops)"
proof (induction ops out l rule: load_batch.induct)
  case (1 ops out l)
  show ?case
  proof (cases "length out < kBatchSize \<and> ld_sent l < ops")
    case False
    then show ?thesis by (intro exI [of _ 0]) (auto simp: load_batch.simps [of ops out l])
  next
    case True
    obtain req l' where o: "load_order l = (req, l')" by force
    have s: "unat (ld_sent l') = Suc (unat (ld_sent l))" using load_order_progress [of l ops] True o by simp
    from 1 [OF True o [symmetric] refl] obtain n where
      n: "load_batch ops (out @ encode_request req) l' = ((out @ encode_request req) @ concat (map encode_request (fst (load_orders n l'))), snd (load_orders n l'))"
        "unat (ld_sent (snd (load_orders n l'))) = unat (ld_sent l') + n" "length (fst (load_orders n l')) = n" "n = 0 \<or> unat (ld_sent l') + n \<le> unat ops"
      by blast
    have "unat (ld_sent l) < unat ops" using True by (simp add: word_less_nat_alt)
    then show ?thesis using n s True
      by (intro exI [of _ "Suc n"]) (auto simp: load_batch.simps [of ops out l] o split_beta Let_def)
  qed
qed

text \<open>The whole main thread: the exit code, what is on the wire and what is left of the answers.\<close>

function load_send :: "bool \<Rightarrow> u64 \<Rightarrow> bytes \<Rightarrow> Load \<Rightarrow> os_answer list \<Rightarrow> (int \<times> bytes \<times> Load \<times> os_answer list) option" where
  "load_send spin ops wire l answers =
     (if ld_sent l < ops then
        (let (out, l) = load_batch ops [] l in do {
           (ok, wire, answers) \<leftarrow> send_all spin out 0 wire answers;
           if ok then load_send spin ops wire l answers else Some (2, wire, l, answers) })
      else Some (0, wire, l, answers))"
  by pat_completeness auto
termination
proof (relation "measure (\<lambda>(spin, ops, wire, l, answers). unat ops - unat (ld_sent l))")
  fix spin :: bool and ops :: u64 and wire wire' out :: bytes and l l' :: Load and answers answers' q and p r :: "bytes \<times> Load" and x y
  assume a: "ld_sent l < ops" "p = load_batch ops [] l" "(out, l') = p"
  have "0 < kBatchSize" by (simp add: kBatchSize_def kMessageSize_def)
  then have "unat (ld_sent l) < unat (ld_sent l')" using load_batch_orders [of ops "[]" l] a by auto
  then show "((x, ops, wire', l', answers'), spin, ops, wire, l, answers) \<in> measure (\<lambda>(spin, ops, wire, l, answers). unat ops - unat (ld_sent l))"
    using a(1) by (auto simp: word_less_nat_alt)
qed simp

declare load_send.simps [simp del]

lemma send_all_appends:
  assumes "willing spin answers" and "length data \<le> moves answers"
  shows "\<exists>answers'. send_all spin data 0 wire answers = Some (True, wire @ data, answers') \<and> willing spin answers'
    \<and> moves answers \<le> moves answers' + length data"
proof -
  obtain wire' answers' where w: "send_all spin data 0 wire answers = Some (True, wire', answers')" "willing spin answers'"
    "moves answers \<le> moves answers' + length data" using send_all_ends [OF assms(1), of data 0 wire] assms(2) by auto
  then show ?thesis using send_all_prefix [OF w(1)] by auto
qed

lemma encoded_length: "length (concat (map encode_request reqs)) = 40 * length reqs"
  by (induction reqs) simp_all

text \<open>Every order goes out once, in the order of their ids.\<close>

lemma load_sends_all:
  assumes "willing spin answers" and "40 * (unat ops - unat (ld_sent l)) \<le> moves answers" and "unat (ld_sent l) \<le> unat ops"
  shows "\<exists>l' answers'. load_send spin ops wire l answers
    = Some (0, wire @ concat (map encode_request (fst (load_orders (unat ops - unat (ld_sent l)) l))), l', answers')"
  using assms
proof (induction "unat ops - unat (ld_sent l)" arbitrary: wire l answers rule: less_induct)
  case less
  show ?case
  proof (cases "ld_sent l < ops")
    case False
    then show ?thesis using less.prems(3) by (simp add: load_send.simps [of spin ops wire l answers] word_less_nat_alt)
  next
    case True
    have "0 < kBatchSize" by (simp add: kBatchSize_def kMessageSize_def)
    with True load_batch_orders [of ops "[]" l] obtain n where
      n: "load_batch ops [] l = (concat (map encode_request (fst (load_orders n l))), snd (load_orders n l))"
        "unat (ld_sent (snd (load_orders n l))) = unat (ld_sent l) + n" "length (fst (load_orders n l)) = n" "0 < n" "unat (ld_sent l) + n \<le> unat ops"
      by auto
    define out l1 where "out = concat (map encode_request (fst (load_orders n l)))" and "l1 = snd (load_orders n l)"
    have out: "length out = 40 * n" "unat (ld_sent l1) = unat (ld_sent l) + n" using n(2,3) by (simp_all add: out_def l1_def encoded_length)
    have "length out \<le> moves answers" using less.prems(2) n(5) out(1) by linarith
    from send_all_appends [OF less.prems(1) this, of wire] obtain a1 where
      a1: "send_all spin out 0 wire answers = Some (True, wire @ out, a1)" "willing spin a1" "moves answers \<le> moves a1 + length out" by blast
    have m: "unat ops - unat (ld_sent l1) < unat ops - unat (ld_sent l)" "40 * (unat ops - unat (ld_sent l1)) \<le> moves a1" "unat (ld_sent l1) \<le> unat ops"
      "unat ops - unat (ld_sent l) = n + (unat ops - unat (ld_sent l1))"
      using out n(4,5) a1(3) less.prems(2) by linarith+
    from less.hyps [OF m(1) a1(2) m(2,3), of "wire @ out"] obtain l' a2 where
      "load_send spin ops (wire @ out) l1 a1 = Some (0, (wire @ out) @ concat (map encode_request (fst (load_orders (unat ops - unat (ld_sent l1)) l1))), l', a2)"
      by blast
    moreover have "load_send spin ops wire l answers = load_send spin ops (wire @ out) l1 a1"
      using True n(1) a1(1) unfolding load_send.simps [of spin ops wire l answers] by (simp add: out_def [symmetric] l1_def [symmetric])
    moreover have "fst (load_orders (unat ops - unat (ld_sent l)) l) = fst (load_orders n l) @ fst (load_orders (unat ops - unat (ld_sent l1)) l1)"
      unfolding m(4) by (simp add: load_orders_add split_beta Let_def l1_def)
    ultimately show ?thesis by (simp add: out_def)
  qed
qed

subsection \<open>The reader\<close>

lemma recv_some_shorter: "recv_some spin cap arriving answers = Some (n, data, arriving', answers') \<Longrightarrow> length answers' < length answers"
  by (induction spin cap arriving answers rule: recv_some.induct) (auto simp: Let_def split: if_splits)

function load_read ::
  "(nat \<Rightarrow> bool) \<Rightarrow> bool \<Rightarrow> nat \<Rightarrow> bytes \<Rightarrow> u64 \<Rightarrow> bytes \<Rightarrow> os_answer list \<Rightarrow> (u64 \<times> bytes \<times> bytes) option" where
  "load_read stop spin i buf received arriving answers =
     (if stop i then Some (received, buf, arriving)
      else
        case recv_some spin (kBatchSize - length buf) arriving answers of
          None \<Rightarrow> None
        | Some (n, data, arriving, answers) \<Rightarrow>
            if n \<le> 0 then Some (received, buf, arriving)
            else
              (let buf = buf @ data;
                   whole = length buf div kMessageSize;
                   used = whole * kMessageSize
               in load_read stop spin (Suc i) (drop used buf) (received + of_nat whole) arriving answers))"
  by pat_completeness auto
termination
  by (relation "measure (\<lambda>(stop, spin, i, buf, received, arriving, answers). length answers)") (auto dest: recv_some_shorter)

declare load_read.simps [simp del]

lemma recv_some_data:
  "recv_some spin cap arriving answers = Some (n, data, arriving', answers') \<Longrightarrow>
    arriving = data @ arriving' \<and> length data \<le> cap \<and> (n \<le> 0 \<longrightarrow> data = [])"
  by (induction spin cap arriving answers rule: recv_some.induct) (auto simp: Let_def min_def split: if_splits)

text \<open>What has been read is counted in whole messages; the rest, less than one, waits in the buffer.\<close>

lemma load_read_counts:
  assumes "load_read stop spin i buf received arriving answers = Some (received', buf', arriving')" and "length buf < kMessageSize"
  shows "\<exists>data. arriving = data @ arriving' \<and> received' = received + of_nat (length (buf @ data) div kMessageSize)
    \<and> buf' = drop (length (buf @ data) div kMessageSize * kMessageSize) (buf @ data) \<and> length buf' < kMessageSize"
  using assms
proof (induction stop spin i buf received arriving answers rule: load_read.induct)
  case (1 stop spin i buf received arriving answers)
  note u = load_read.simps [of stop spin i buf received arriving answers]
  let ?r = "recv_some spin (kBatchSize - length buf) arriving answers"
  show ?case
  proof (cases "stop i \<or> (\<exists>n data arr ans. ?r = Some (n, data, arr, ans) \<and> n \<le> 0)")
    case True
    then have "received' = received" "buf' = buf" "arriving' = arriving"
      using "1.prems"(1) unfolding u by (auto split: if_splits dest: recv_some_data)
    then show ?thesis using "1.prems"(2) by (intro exI [of _ "[]"]) simp
  next
    case False
    then obtain n data arr ans where r: "?r = Some (n, data, arr, ans)" "\<not> n \<le> 0" using "1.prems"(1) unfolding u by (auto split: option.splits)
    define m where "m = length (buf @ data) div kMessageSize"
    have k: "0 < kMessageSize" by (simp add: kMessageSize_def)
    have l: "load_read stop spin (Suc i) (drop (m * kMessageSize) (buf @ data)) (received + of_nat m) arr ans = Some (received', buf', arriving')"
      using "1.prems"(1) False r unfolding u by (simp add: Let_def m_def)
    have d: "length (drop (m * kMessageSize) (buf @ data)) < kMessageSize" using k by (simp only: m_def length_drop minus_div_mult_eq_mod mod_less_divisor)
    from False have "\<not> stop i" by blast
    from "1.IH" [OF this r(1) refl refl refl r(2) refl refl refl, folded m_def, OF l d] obtain rest where
      t: "arr = rest @ arriving'" "received' = received + of_nat m + of_nat (length (drop (m * kMessageSize) (buf @ data) @ rest) div kMessageSize)"
        "buf' = drop (length (drop (m * kMessageSize) (buf @ data) @ rest) div kMessageSize * kMessageSize) (drop (m * kMessageSize) (buf @ data) @ rest)"
        "length buf' < kMessageSize" by blast
    define x y q where "x = buf @ data" and "y = drop (m * kMessageSize) x @ rest" and "q = length y div kMessageSize"
    have "m * kMessageSize \<le> length x" by (simp add: m_def x_def)
    then have e: "length (x @ rest) = length y + m * kMessageSize" and y: "y = drop (m * kMessageSize) (x @ rest)" by (simp_all add: y_def)
    have n: "length (x @ rest) div kMessageSize = m + q" unfolding e q_def using k by simp
    have "drop ((m + q) * kMessageSize) (x @ rest) = drop (q * kMessageSize) y" by (simp only: y drop_drop add_mult_distrib add.commute)
    moreover have "arriving = (data @ rest) @ arriving'" using recv_some_data [OF r(1)] t(1) by simp
    moreover have "buf @ data @ rest = x @ rest" by (simp add: x_def)
    moreover have "received' = received + of_nat (m + q)" "buf' = drop (q * kMessageSize) y"
      using t(2,3) unfolding x_def [symmetric] y_def [symmetric] q_def [symmetric] by (simp_all add: add.assoc)
    ultimately show ?thesis using t(4) by (intro exI [of _ "data @ rest"]) (simp only: n simp_thms)
  qed
qed

subsection \<open>Both together with the engine\<close>

definition load_new :: Load where
  "load_new = \<lparr>ld_seed = 0x7B0, ld_next_id = 1, ld_sent = 0\<rparr>"

text \<open>
  The requests of a throughput run reach the wire in order, and if the reader reads everything the engine sends it has
  counted each of the engine's responses.
\<close>

theorem throughput_counts_responses:
  assumes "lawful P l" and "length (cf_symbol cfg) = 8" and "unat ops < 2 ^ 32" and "length stamps = unat ops"
    and "willing spin answers" and "40 * unat ops \<le> moves answers"
  and "reqs = fst (load_orders (unat ops) load_new)"
  shows "\<exists>l' answers' e. load_send spin ops [] load_new answers = Some (0, concat (map encode_request reqs), l', answers')
    \<and> serve_new P l cfg (zip stamps reqs) = Some e
    \<and> (\<forall>pops stop spin' ans received buf. popped pops = eg_out e \<longrightarrow>
        load_read stop spin' 0 [] 0 (concat (send_loop (\<lambda>_. True) 0 pops)) ans = Some (received, buf, []) \<longrightarrow>
        received = es_responses (eg_stats e) \<and> buf = [])"
proof -
  have "40 * (unat ops - unat (ld_sent load_new)) \<le> moves answers" "unat (ld_sent load_new) \<le> unat ops" "unat ops - unat (ld_sent load_new) = unat ops"
    using assms(6) by (simp_all add: load_new_def)
  with load_sends_all [OF assms(5) this(1,2), of "[]"] obtain l' answers' where
    s: "load_send spin ops [] load_new answers = Some (0, concat (map encode_request reqs), l', answers')" unfolding assms(7) by auto
  obtain rs evs A where a: "abs_serve (pol_valid_price P l) (cf_symbol cfg) 0 (zip stamps reqs) abook_new = (rs, evs, A)" by (metis prod_cases3)
  have "length (zip stamps reqs) < 2 ^ 32" using assms(3,4) by simp
  from serve_new_spec [OF assms(1,2) this a] obtain e where
    e: "serve_new P l cfg (zip stamps reqs) = Some e" "eg_out e = rs" "es_responses (eg_stats e) = of_nat (length rs)" by blast
  have k: "kMessageSize = 40" by (simp add: kMessageSize_def)
  have "received = es_responses (eg_stats e) \<and> buf = []"
    if p: "popped pops = eg_out e" and r: "load_read stop spin' 0 [] 0 (concat (send_loop (\<lambda>_. True) 0 pops)) ans = Some (received, buf, [])"
    for pops stop spin' ans received buf
  proof -
    have n: "length (concat (send_loop (\<lambda>_. True) 0 pops)) = 40 * length rs"
      using send_loop_sends [of 0 pops] p e(2) by (simp add: length_concat o_def sum_list_triv)
    obtain data where "concat (send_loop (\<lambda>_. True) 0 pops) = data" "received = of_nat (length data div kMessageSize)"
      "buf = drop (length data div kMessageSize * kMessageSize) data"
      using load_read_counts [OF r] by (auto simp: k)
    then show ?thesis using n e(3) by (simp add: k)
  qed
  then show ?thesis using s e(1) by (intro exI [of _ l'] exI [of _ answers'] exI [of _ e]) blast
qed

end
