(* ===== verification/Bench.thy ===== *)
theory Bench
  imports BookRun
begin

text \<open>
  The scenarios of \<^verbatim>\<open>bench/bench_book.cpp\<close>: what they call and check, without the clock and the samples.  \<^verbatim>\<open>run_ladder\<close> gives
  its fingerprint and the number of "BUG" messages.  A read through a null pointer and a remainder by zero are \<^term>\<open>None\<close>.
\<close>

subsection \<open>Inputs\<close>

definition splitmix64 :: "u64 \<Rightarrow> u64 \<times> u64" where
  "splitmix64 s =
     (let s = s + 0x9E3779B97F4A7C15;
          z = s;
          z = (z XOR drop_bit 30 z) * 0xBF58476D1CE4E5B9;
          z = (z XOR drop_bit 27 z) * 0x94D049BB133111EB
      in (z XOR drop_bit 31 z, s))"

definition kMid :: Price where "kMid = 100000"
definition kDenseMin :: Price where "kDenseMin = 0"
definition kDenseMax :: Price where "kDenseMax = 2 ^ 17 - 1"
definition kPrefillMixed :: nat where "kPrefillMixed = 100000"

definition bench_price :: "Side \<Rightarrow> u64 \<Rightarrow> Price \<times> u64" where
  "bench_price side s = (let (r, s) = splitmix64 s; off = uint (10 + r mod 491) in (if side = Bid then kMid - off else kMid + off, s))"

definition bench_qty :: "u64 \<Rightarrow> Qty \<times> u64" where
  "bench_qty s = (let (r, s) = splitmix64 s in (ucast (1 + r mod 100), s))"

text \<open>
  Where both are arguments of one call the order of the two draws is the compiler's: \<open>price_first\<close>.
\<close>

definition draw_args :: "bool \<Rightarrow> Side \<Rightarrow> u64 \<Rightarrow> Price \<times> Qty \<times> u64" where
  "draw_args price_first side s =
     (if price_first then (let (p, s) = bench_price side s; (q, s) = bench_qty s in (p, q, s))
      else (let (q, s) = bench_qty s; (p, s) = bench_price side s in (p, q, s)))"

subsection \<open>Adding and canceling\<close>

text \<open>The loop that adds, over the numbers of its rounds; \<open>price_first\<close> is true where the draws are statements of their own.\<close>

fun bench_adds ::
  "('l, 'm) policy \<Rightarrow> bool \<Rightarrow> (nat \<Rightarrow> Side) \<Rightarrow> nat list \<Rightarrow> u64 \<Rightarrow> OrderId \<Rightarrow> OrderId list \<Rightarrow> ('l, 'm) OrderBook
   \<Rightarrow> (u64 \<times> OrderId \<times> OrderId list \<times> ('l, 'm) OrderBook) option" where
  "bench_adds P price_first side [] prng next_id ids b = Some (prng, next_id, ids, b)"
| "bench_adds P price_first side (i # is) prng next_id ids b = do {
     let (price, qty, prng) = draw_args price_first (side i) prng;
     (r, xs, b) \<leftarrow> add_limit P next_id (side i) price qty b;
     bench_adds P price_first side is prng (next_id + 1) (ids @ [next_id]) b }"

definition both_sides :: "nat \<Rightarrow> Side" where
  "both_sides i = (if even i then Bid else Ask)"

text \<open>Fisher-Yates.\<close>

fun bench_shuffle :: "nat \<Rightarrow> u64 \<Rightarrow> OrderId list \<Rightarrow> u64 \<times> OrderId list" where
  "bench_shuffle 0 prng ids = (prng, ids)"
| "bench_shuffle (Suc i) prng ids =
     (if i = 0 then (prng, ids)
      else
        (let (r, prng) = splitmix64 prng;
             j = unat (r mod of_nat (Suc i))
         in bench_shuffle i prng (ids[i := ids ! j, j := ids ! i])))"

fun bench_cancels :: "('l, 'm) policy \<Rightarrow> OrderId list \<Rightarrow> ('l, 'm) OrderBook \<Rightarrow> ('l, 'm) OrderBook option" where
  "bench_cancels P [] b = Some b"
| "bench_cancels P (oid # ids) b = do { (r, b) \<leftarrow> cancel P oid b; bench_cancels P ids b }"

subsection \<open>The steady state\<close>

fun bench_mixed ::
  "('l, 'm) policy \<Rightarrow> nat list \<Rightarrow> u64 \<Rightarrow> OrderId \<Rightarrow> OrderId list \<Rightarrow> ('l, 'm) OrderBook
   \<Rightarrow> (u64 \<times> OrderId list \<times> ('l, 'm) OrderBook) option" where
  "bench_mixed P [] prng next_id alive b = Some (prng, alive, b)"
| "bench_mixed P (i # is) prng next_id alive b =
     (if even i then do {
        let (r, prng) = splitmix64 prng;
        let side = (if r mod 2 = 0 then Bid else Ask);
        let (price, prng) = bench_price side prng;
        let (qty, prng) = bench_qty prng;
        (r, xs, b) \<leftarrow> add_limit P next_id side price qty b;
        bench_mixed P is prng (next_id + 1) (alive @ [next_id]) b }
      else if alive = [] then None
      else do {
        let (r, prng) = splitmix64 prng;
        let j = unat (r mod of_nat (length alive));
        let oid = alive ! j;
        let alive = butlast (alive[j := last alive]);
        (r, b) \<leftarrow> cancel P oid b;
        bench_mixed P is prng next_id alive b })"

subsection \<open>Executing\<close>

fun bench_executes :: "('l, 'm) policy \<Rightarrow> nat \<Rightarrow> OrderId \<Rightarrow> ('l, 'm) OrderBook \<Rightarrow> ('l, 'm) OrderBook option" where
  "bench_executes P 0 next_id b = Some b"
| "bench_executes P (Suc n) next_id b = do {
     best \<leftarrow> best_level P Ask b;
     lv \<leftarrow> best;
     a \<leftarrow> lvl_head lv;
     (r, xs, b) \<leftarrow> add_limit P next_id Bid (lvl_price lv) (ord_qty (bk_heap b a)) b;
     bench_executes P n (next_id + 1) b }"

subsection \<open>The scenarios\<close>

definition bench_book :: "('l, 'm) policy \<Rightarrow> 'l \<Rightarrow> nat \<Rightarrow> ('l, 'm) OrderBook option" where
  "bench_book P l n = do { b \<leftarrow> book_new P l; reserve_orders P n b }"

definition run_ladder :: "('l, 'm) policy \<Rightarrow> 'l \<Rightarrow> bool \<Rightarrow> u64 \<Rightarrow> (u64 \<times> nat) option" where
  "run_ladder P l price_first ops = do {
     let prng = 0x0DDBA115EED;
     b \<leftarrow> bench_book P l (unat ops);
     (prng, next_id, ids, b) \<leftarrow> bench_adds P True both_sides [0..<unat ops] prng 1 [] b;
     h \<leftarrow> state_hash P b;
     let sink = 0 XOR h;
     let (prng, ids) = bench_shuffle (length ids) prng ids;
     b \<leftarrow> bench_cancels P ids b;
     let bugs = (if open_orders P b \<noteq> 0 then 1 else 0);
     b \<leftarrow> bench_book P l (kPrefillMixed + unat (ops div 2) + 1);
     (prng, next_id, alive, b) \<leftarrow> bench_adds P price_first both_sides [0..<kPrefillMixed] prng 1 [] b;
     (prng, alive, b) \<leftarrow> bench_mixed P [0..<unat ops] prng next_id alive b;
     h \<leftarrow> state_hash P b;
     let sink = sink XOR h;
     b \<leftarrow> bench_book P l (unat ops + 1);
     (prng, next_id, ids, b) \<leftarrow> bench_adds P price_first (\<lambda>_. Ask) [0..<unat ops] prng 1 [] b;
     b \<leftarrow> bench_executes P (unat ops) next_id b;
     let bugs = bugs + (if open_orders P b \<noteq> 0 then 1 else 0);
     Some (sink XOR traded_qty (bk_counters b), bugs) }"

text \<open>The worst case of the dense ladder.\<close>

fun bench_rescans :: "('l, 'm) policy \<Rightarrow> nat \<Rightarrow> OrderId \<Rightarrow> ('l, 'm) OrderBook \<Rightarrow> ('l, 'm) OrderBook option" where
  "bench_rescans P 0 next_id b = Some b"
| "bench_rescans P (Suc n) next_id b = do {
     (r, xs, b) \<leftarrow> add_limit P next_id Ask (kDenseMin + 1) 10 b;
     (r, xs, b) \<leftarrow> add_limit P (next_id + 1) Bid (kDenseMin + 1) 10 b;
     bench_rescans P n (next_id + 2) b }"

definition run_adversarial :: "('l, 'm) policy \<Rightarrow> 'l \<Rightarrow> u64 \<Rightarrow> ('l, 'm) OrderBook option" where
  "run_adversarial P l ops = do {
     let reps = unat (ops div 10 + 1);
     b \<leftarrow> bench_book P l (reps * 2 + 16);
     (r, xs, b) \<leftarrow> add_limit P 1 Ask (kDenseMax - 1) 1000000 b;
     bench_rescans P reps 2 b }"

subsection \<open>Self-trade prevention\<close>

record Variant =
  va_policy :: SelfTradePolicy
  va_resting :: ParticipantId
  va_aggressor :: ParticipantId

definition variants :: "Variant list" where
  "variants = [\<lparr>va_policy = NoPrevention, va_resting = 0, va_aggressor = 0\<rparr>,
     \<lparr>va_policy = CancelResting, va_resting = 1, va_aggressor = 2\<rparr>,
     \<lparr>va_policy = CancelResting, va_resting = 1, va_aggressor = 1\<rparr>]"

text \<open>Both loops: one order of 100 at the price of the scenario per round.\<close>

fun bench_orders :: "('l, 'm) policy \<Rightarrow> ParticipantId \<Rightarrow> Side \<Rightarrow> nat \<Rightarrow> OrderId \<Rightarrow> ('l, 'm) OrderBook \<Rightarrow> ('l, 'm) OrderBook option" where
  "bench_orders P actor side 0 next_id b = Some b"
| "bench_orders P actor side (Suc n) next_id b = do {
     (r, xs, b) \<leftarrow> add_limit_as P actor next_id side 100000 100 b;
     bench_orders P actor side n (next_id + 1) b }"

text \<open>The book after \<open>n\<close> of the timed rounds; the scenario has \<open>reps\<close> of them.\<close>

definition stp_rounds :: "('l, 'm) policy \<Rightarrow> 'l \<Rightarrow> u64 \<Rightarrow> nat \<Rightarrow> Variant \<Rightarrow> ('l, 'm) OrderBook option" where
  "stp_rounds P l ops n v = do {
     let reps = unat (ops div 2 + 1);
     b \<leftarrow> bench_book P l (reps * 2 + 16);
     let b = set_self_trade_policy (va_policy v) b;
     b \<leftarrow> bench_orders P (va_resting v) Ask reps 1 b;
     bench_orders P (va_aggressor v) Bid n (of_nat reps + 1) b }"

definition run_stp :: "('l, 'm) policy \<Rightarrow> 'l \<Rightarrow> u64 \<Rightarrow> ('l, 'm) OrderBook list option" where
  "run_stp P l ops = those (map (stp_rounds P l ops (unat (ops div 2 + 1))) variants)"

text \<open>The exit code of \<^verbatim>\<open>main\<close>, from the two fingerprints when both ladders run.\<close>

definition bench_exit :: "u64 option \<Rightarrow> u64 option \<Rightarrow> nat" where
  "bench_exit dense map1 = (case (dense, map1) of (Some x, Some y) \<Rightarrow> if x \<noteq> y then 1 else 0 | _ \<Rightarrow> 0)"

end
