(* ===== verification/BenchRun.thy ===== *)
theory BenchRun
  imports Bench FlatBook
begin

text \<open>
  The scenarios on the specification of the book: the same loops, on queues instead of pointers.  The first part shows that
  they are what the scenarios do under every lawful policy, the second what they leave.
\<close>

subsection \<open>The loops on the specification\<close>

text \<open>No price of the scenarios is rejected, so the specification need not ask the ladder.\<close>

abbreviation any_price :: "Price \<Rightarrow> bool" where
  "any_price \<equiv> \<lambda>_. True"

fun abs_adds ::
  "bool \<Rightarrow> (nat \<Rightarrow> Side) \<Rightarrow> nat list \<Rightarrow> u64 \<Rightarrow> OrderId \<Rightarrow> OrderId list \<Rightarrow> ABook \<Rightarrow> u64 \<times> OrderId \<times> OrderId list \<times> ABook" where
  "abs_adds price_first side [] prng next_id ids A = (prng, next_id, ids, A)"
| "abs_adds price_first side (i # is) prng next_id ids A =
     (let (price, qty, prng) = draw_args price_first (side i) prng;
          (r, xs, A) = abs_limit any_price 0 next_id (side i) price qty A
      in abs_adds price_first side is prng (next_id + 1) (ids @ [next_id]) A)"

definition abs_cancels :: "OrderId list \<Rightarrow> ABook \<Rightarrow> ABook" where
  "abs_cancels ids A = fold (\<lambda>oid A. snd (abs_cancel oid A)) ids A"

fun abs_mixed :: "nat list \<Rightarrow> u64 \<Rightarrow> OrderId \<Rightarrow> OrderId list \<Rightarrow> ABook \<Rightarrow> (u64 \<times> OrderId list \<times> ABook) option" where
  "abs_mixed [] prng next_id ids A = Some (prng, ids, A)"
| "abs_mixed (i # is) prng next_id ids A =
     (if even i then
        (let (r, prng) = splitmix64 prng;
             side = (if r mod 2 = 0 then Bid else Ask);
             (price, qty, prng) = draw_args True side prng;
             (r, xs, A) = abs_limit any_price 0 next_id side price qty A
         in abs_mixed is prng (next_id + 1) (ids @ [next_id]) A)
      else if ids = [] then None
      else
        (let (r, prng) = splitmix64 prng;
             j = unat (r mod of_nat (length ids))
         in abs_mixed is prng next_id (butlast (ids[j := last ids])) (snd (abs_cancel (ids ! j) A))))"

fun abs_executes :: "nat \<Rightarrow> OrderId \<Rightarrow> ABook \<Rightarrow> ABook option" where
  "abs_executes 0 next_id A = Some A"
| "abs_executes (Suc n) next_id A =
     (case flats A Ask of
        [] \<Rightarrow> None
      | (p, e) # _ \<Rightarrow> abs_executes n (next_id + 1) (snd (snd (abs_limit any_price 0 next_id Bid p (en_qty e) A))))"

fun abs_orders :: "ParticipantId \<Rightarrow> Side \<Rightarrow> nat \<Rightarrow> OrderId \<Rightarrow> ABook \<Rightarrow> ABook" where
  "abs_orders actor side 0 next_id A = A"
| "abs_orders actor side (Suc n) next_id A =
     abs_orders actor side n (next_id + 1) (snd (snd (abs_limit any_price actor next_id side 100000 100 A)))"

fun abs_rescans :: "nat \<Rightarrow> OrderId \<Rightarrow> ABook \<Rightarrow> ABook" where
  "abs_rescans 0 next_id A = A"
| "abs_rescans (Suc n) next_id A =
     abs_rescans n (next_id + 2)
       (snd (snd (abs_limit any_price 0 (next_id + 1) Bid 1 10 (snd (snd (abs_limit any_price 0 next_id Ask 1 10 A))))))"

subsection \<open>The scenarios follow them\<close>

context book_policies begin

lemma best_head_sim:
  assumes r: "refines V b A" and small: "size_of b < 2 ^ 32" and A: "ab_levels A s = (p, e # es) # ls"
  shows "\<exists>lv a. best_level P s b = Some (Some lv) \<and> lvl_price lv = p \<and> lvl_head lv = Some a \<and> ord_qty (bk_heap b a) = en_qty e"
proof -
  obtain G where G: "settled b G" "ab_levels A = levels_of b G" using r by (auto simp: refines_def)
  have li: "linv (bk_ladder b)" by (rule settledD(1) [OF G(1)])
  obtain lv lvs where l: "levels (bk_ladder b) s = (p, lv) # lvs" and m1: "map (entry_at (bk_heap b)) (G s p) = e # es"
    using A G(2) by (auto simp: levels_of_def view_def)
  have m: "(p, lv) \<in> set (levels (bk_ladder b) s)" using l by simp
  note S = settled_level [OF G(1) small m]
  obtain a as where a: "G s p = a # as" "entry_at (bk_heap b) a = e" using m1 by auto
  have "lvl_head lv = Some a"
    using S(2) a(1) by (cases "lvl_head lv"; cases "unat (lvl_order_count lv)") (auto simp: level_nodes_def)
  moreover have "best_level P s b = Some (Some lv)"
    using l lad.best_first [OF li, of s p lv lvs] lad.deref_active [OF li m] by (simp add: best_level_def)
  ultimately show ?thesis using S(1) a(2) by (auto simp: entry_at_def)
qed

end

definition holds :: "('l, 'm) policy \<Rightarrow> (Price \<Rightarrow> bool) \<Rightarrow> nat \<Rightarrow> ('l, 'm) OrderBook \<Rightarrow> ABook \<Rightarrow> bool" where
  "holds P V n b A \<longleftrightarrow> implements P V b A \<and> pol_size P (bk_orders b) \<le> n"

lemma limit_any: "V p \<Longrightarrow> abs_limit V actor oid side p q A = abs_limit any_price actor oid side p q A"
  by (simp add: abs_limit_def abs_validate_def)

lemma holds_limit:
  assumes "holds P V n b A" and "Suc n < 2 ^ 32" and "V p"
  shows "\<exists>b'. add_limit_as P actor oid side p q b
      = Some (fst (abs_limit any_price actor oid side p q A), fst (snd (abs_limit any_price actor oid side p q A)), b')
    \<and> holds P V (Suc n) b' (snd (snd (abs_limit any_price actor oid side p q A)))"
proof -
  have "Suc (pol_size P (bk_orders b)) < 2 ^ 32" using assms by (simp add: holds_def)
  then show ?thesis using implements_step [of P V b A "LimitOp actor oid side p q"] assms(1)
    unfolding limit_any [of V, OF assms(3), symmetric] by (force simp: holds_def split_beta split: bind_splits)
qed

lemma holds_cancel:
  assumes "holds P V n b A" and "Suc n < 2 ^ 32"
  shows "\<exists>b'. Book.cancel P oid b = Some (fst (abs_cancel oid A), b') \<and> holds P V (Suc n) b' (snd (abs_cancel oid A))"
proof -
  have "Suc (pol_size P (bk_orders b)) < 2 ^ 32" using assms by (simp add: holds_def)
  then show ?thesis using implements_step [of P V b A "CancelOp oid"] assms(1)
    by (force simp: holds_def split_beta split: bind_splits)
qed

lemma first_level:
  assumes "abook_ok V A" and "flats A s = (p, e) # fs"
  obtains es ls where "ab_levels A s = (p, e # es) # ls" and "fs = map (Pair p) es @ flat ls"
proof (cases "ab_levels A s")
  case Nil
  then show thesis using assms(2) by (simp add: flats_def)
next
  case (Cons x ls)
  obtain q es where x: "x = (q, es)" by force
  have "es \<noteq> []" using abook_okD(3) [OF assms(1), of q es s] Cons x by simp
  then show thesis using that assms(2) Cons x by (cases es) (auto simp: flats_def)
qed

lemma holds_head:
  assumes "holds P V n b A" and "flats A s = (p, e) # fs"
  shows "\<exists>lv a. best_level P s b = Some (Some lv) \<and> lvl_price lv = p \<and> lvl_head lv = Some a \<and> ord_qty (bk_heap b a) = en_qty e"
proof -
  obtain linv levels window minv lookup where L: "book_policies P linv levels window minv lookup"
    and r: "book_policies.refines P linv levels minv lookup V b A" and z: "pol_size P (bk_orders b) < 2 ^ 32"
    using assms(1) unfolding holds_def implements_def by blast
  have ok: "abook_ok V A" using implementsD(8) assms(1) by (auto simp: holds_def)
  obtain es ls where "ab_levels A s = (p, e # es) # ls" by (rule first_level [OF ok assms(2)])
  from book_policies.best_head_sim [OF L r z this] show ?thesis .
qed

text \<open>What the scenarios draw.\<close>

definition in_band :: "Side \<Rightarrow> Price \<Rightarrow> bool" where
  "in_band s p \<longleftrightarrow> (if s = Bid then 99500 \<le> p \<and> p < kMid else kMid < p \<and> p \<le> 100500)"

lemma drawn_price: "bench_price side s = (p, s') \<Longrightarrow> in_band side p"
proof -
  assume d: "bench_price side s = (p, s')"
  obtain r g where g: "splitmix64 s = (r, g)" by force
  have m: "uint (r mod 491) = uint r mod 491" by (simp add: uint_mod)
  have b: "0 \<le> uint r mod 491" "uint r mod 491 < 491" by simp_all
  then have "uint (10 + r mod 491) = 10 + uint r mod 491" by (simp add: uint_word_ariths m)
  then have "p = (if side = Bid then kMid - (10 + uint r mod 491) else kMid + (10 + uint r mod 491))" using d by (auto simp: bench_price_def g Let_def)
  moreover obtain x where x: "x = uint r mod 491" by blast
  moreover have "0 \<le> x" "x < 491" unfolding x by simp_all
  ultimately show ?thesis by (auto simp: in_band_def kMid_def)
qed

lemma drawn_qty: "bench_qty s = (q, s') \<Longrightarrow> q \<noteq> 0"
proof -
  assume d: "bench_qty s = (q, s')"
  obtain r g where g: "splitmix64 s = (r, g)" by force
  have "uint (1 + r mod 100) = 1 + uint r mod 100" by (simp add: uint_word_ariths uint_mod)
  then have "uint (ucast (1 + r mod 100 :: u64) :: u32) = 1 + uint r mod 100" by (simp add: unsigned_ucast_eq take_bit_eq_mod)
  moreover have "q = ucast (1 + r mod 100)" using d by (simp add: bench_qty_def g)
  ultimately show ?thesis by auto
qed

lemma drawn_args: "draw_args price_first side s = (p, q, s') \<Longrightarrow> in_band side p \<and> q \<noteq> 0"
  using drawn_price [OF surjective_pairing, of side] drawn_qty [OF surjective_pairing]
  by (auto simp: draw_args_def split: prod.splits if_splits dest: drawn_price drawn_qty)

lemma adds_follow:
  assumes "holds P V n b A" and "n + length is < 2 ^ 32" and "\<forall>s p. in_band s p \<longrightarrow> V p"
  shows "\<exists>b'. case abs_adds price_first side is prng next_id ids A of (prng', next_id', ids', A') \<Rightarrow>
    bench_adds P price_first side is prng next_id ids b = Some (prng', next_id', ids', b') \<and> holds P V (n + length is) b' A'"
  using assms
proof (induction price_first side "is" prng next_id ids A arbitrary: n b rule: abs_adds.induct)
  case (2 price_first side i "is" prng next_id ids A)
  obtain price qty prng' where d: "draw_args price_first (side i) prng = (price, qty, prng')" by (metis prod_cases3)
  obtain r xs A1 where a: "abs_limit any_price 0 next_id (side i) price qty A = (r, xs, A1)" by (metis prod_cases3)
  obtain b1 where b1: "add_limit P next_id (side i) price qty b = Some (r, xs, b1)" "holds P V (Suc n) b1 A1"
    using holds_limit [OF "2.prems"(1), of price 0 next_id "side i" qty] "2.prems"(2,3) drawn_args [OF d] a by (auto simp: add_limit_def)
  from "2.IH" [OF d [symmetric] refl refl a [symmetric] refl refl b1(2)] "2.prems"(2,3) show ?case by (simp add: d a b1(1))
qed simp

lemma cancels_follow:
  assumes "holds P V n b A" and "n + length ids < 2 ^ 32"
  shows "\<exists>b'. bench_cancels P ids b = Some b' \<and> holds P V (n + length ids) b' (abs_cancels ids A)"
  using assms
proof (induction ids arbitrary: n b A)
  case (Cons oid ids)
  obtain b1 where b1: "Book.cancel P oid b = Some (fst (abs_cancel oid A), b1)" "holds P V (Suc n) b1 (snd (abs_cancel oid A))"
    using holds_cancel [OF Cons.prems(1), of oid] Cons.prems(2) by auto
  from Cons.IH [OF b1(2)] Cons.prems(2) show ?case by (simp add: b1(1) abs_cancels_def)
qed (simp add: abs_cancels_def)

lemma mixed_follow:
  assumes "holds P V n b A" and "n + length is < 2 ^ 32" and "\<forall>s p. in_band s p \<longrightarrow> V p" and "abs_mixed is prng next_id ids A = Some (prng', ids', A')"
  shows "\<exists>b'. bench_mixed P is prng next_id ids b = Some (prng', ids', b') \<and> holds P V (n + length is) b' A'"
  using assms
proof (induction "is" arbitrary: n b A prng next_id ids)
  case (Cons i "is")
  show ?case
  proof (cases "even i")
    case True
    obtain r g where g: "splitmix64 prng = (r, g)" by force
    define sd where "sd = (if r mod 2 = 0 then Bid else Ask)"
    obtain price g1 where p: "bench_price sd g = (price, g1)" by force
    obtain qty g2 where q: "bench_qty g1 = (qty, g2)" by force
    obtain x xs A1 where a: "abs_limit any_price 0 next_id sd price qty A = (x, xs, A1)" by (metis prod_cases3)
    obtain b1 where b1: "add_limit P next_id sd price qty b = Some (x, xs, b1)" "holds P V (Suc n) b1 A1"
      using holds_limit [OF Cons.prems(1), of price 0 next_id sd qty] Cons.prems(2,3) drawn_price [OF p] a by (auto simp: add_limit_def)
    have "abs_mixed is g2 (next_id + 1) (ids @ [next_id]) A1 = Some (prng', ids', A')"
      using Cons.prems(4) True by (simp add: g sd_def [symmetric] draw_args_def p q a Let_def)
    with Cons.IH [OF b1(2)] Cons.prems(2,3) obtain b' where
      "bench_mixed P is g2 (next_id + 1) (ids @ [next_id]) b1 = Some (prng', ids', b')" "holds P V (Suc n + length is) b' A'" by fastforce
    then show ?thesis using True by (simp add: g sd_def [symmetric] p q b1(1) Let_def)
  next
    case False
    obtain r g where g: "splitmix64 prng = (r, g)" by force
    define j where "j = unat (r mod of_nat (length ids))"
    have ne: "ids \<noteq> []" using Cons.prems(4) False by (auto split: if_splits)
    obtain b1 where b1: "Book.cancel P (ids ! j) b = Some (fst (abs_cancel (ids ! j) A), b1)" "holds P V (Suc n) b1 (snd (abs_cancel (ids ! j) A))"
      using holds_cancel [OF Cons.prems(1), of "ids ! j"] Cons.prems(2) by auto
    have "abs_mixed is g next_id (butlast (ids[j := last ids])) (snd (abs_cancel (ids ! j) A)) = Some (prng', ids', A')"
      using Cons.prems(4) False ne by (simp add: g j_def Let_def)
    with Cons.IH [OF b1(2)] Cons.prems(2,3) obtain b' where
      "bench_mixed P is g next_id (butlast (ids[j := last ids])) b1 = Some (prng', ids', b')" "holds P V (Suc n + length is) b' A'" by fastforce
    then show ?thesis using False ne by (simp add: g b1(1) j_def [symmetric] Let_def)
  qed
qed simp

lemma executes_follow:
  assumes "holds P V n b A" and "n + k < 2 ^ 32" and "abs_executes k next_id A = Some A'"
  shows "\<exists>b'. bench_executes P k next_id b = Some b' \<and> holds P V (n + k) b' A'"
  using assms
proof (induction k arbitrary: n b A next_id)
  case (Suc k)
  obtain p e fs where f: "flats A Ask = (p, e) # fs" using Suc.prems(3) by (auto split: list.splits)
  have "abook_ok V A" using implementsD(8) Suc.prems(1) by (auto simp: holds_def)
  then have V: "V p" using f by (auto simp: abook_ok_flats dest!: flats_okD(1) [of V _ "(p, e)" Ask])
  obtain lv a where l: "best_level P Ask b = Some (Some lv)" "lvl_price lv = p" "lvl_head lv = Some a" "ord_qty (bk_heap b a) = en_qty e"
    using holds_head [OF Suc.prems(1) f] by blast
  obtain r xs A1 where x: "abs_limit any_price 0 next_id Bid p (en_qty e) A = (r, xs, A1)" by (metis prod_cases3)
  obtain b1 where b1: "add_limit P next_id Bid p (en_qty e) b = Some (r, xs, b1)" "holds P V (Suc n) b1 A1"
    using holds_limit [OF Suc.prems(1), of p 0 next_id Bid "en_qty e"] Suc.prems(2) V x by (auto simp: add_limit_def)
  have "abs_executes k (next_id + 1) A1 = Some A'" using Suc.prems(3) by (simp add: f x)
  with Suc.IH [OF b1(2)] Suc.prems(2) show ?case by (simp add: l b1(1))
qed simp

lemma orders_follow:
  assumes "holds P V n b A" and "n + k < 2 ^ 32" and "V 100000"
  shows "\<exists>b'. bench_orders P actor side k next_id b = Some b' \<and> holds P V (n + k) b' (abs_orders actor side k next_id A)"
  using assms
proof (induction k arbitrary: n b A next_id)
  case (Suc k)
  from holds_limit [OF Suc.prems(1), of 100000 actor next_id side 100] Suc.prems(2,3) obtain b1 where
    b1: "add_limit_as P actor next_id side 100000 100 b = Some (fst (abs_limit any_price actor next_id side 100000 100 A),
        fst (snd (abs_limit any_price actor next_id side 100000 100 A)), b1)" "holds P V (Suc n) b1 (snd (snd (abs_limit any_price actor next_id side 100000 100 A)))" by auto
  from Suc.IH [OF b1(2)] Suc.prems(2,3) show ?case by (simp add: b1(1))
qed simp

lemma rescans_follow:
  assumes "holds P V n b A" and "n + 2 * k < 2 ^ 32" and "V 1"
  shows "\<exists>b'. bench_rescans P k next_id b = Some b' \<and> holds P V (n + 2 * k) b' (abs_rescans k next_id A)"
  using assms
proof (induction k arbitrary: n b A next_id)
  case (Suc k)
  define A1 where "A1 = snd (snd (abs_limit any_price 0 next_id Ask 1 10 A))"
  obtain r xs b1 where b1: "add_limit P next_id Ask 1 10 b = Some (r, xs, b1)" "holds P V (Suc n) b1 A1"
    using holds_limit [OF Suc.prems(1), of 1 0 next_id Ask 10] Suc.prems(2,3) by (auto simp: add_limit_def A1_def)
  obtain r' xs' b2 where b2: "add_limit P (next_id + 1) Bid 1 10 b1 = Some (r', xs', b2)"
    "holds P V (Suc (Suc n)) b2 (snd (snd (abs_limit any_price 0 (next_id + 1) Bid 1 10 A1)))"
    using holds_limit [OF b1(2), of 1 0 "next_id + 1" Bid 10] Suc.prems(2,3) by (auto simp: add_limit_def)
  from Suc.IH [OF b2(2)] Suc.prems(2,3) show ?case by (simp add: b1(1) b2(1) A1_def kDenseMin_def)
qed simp

lemma book_holds:
  assumes "lawful P l" and "n < 2 ^ 40"
  shows "\<exists>b. bench_book P l n = Some b \<and> holds P (pol_valid_price P l) 0 b abook_new"
proof -
  obtain linv levels window minv lookup where L: "book_policies P linv levels window minv lookup"
    "linv l" "levels l = (\<lambda>_. [])" using assms(1) unfolding lawful_def by auto
  obtain b0 where b0: "book_new P l = Some b0" "pol_size P (bk_orders b0) = 0"
    "book_policies.refines P linv levels minv lookup (pol_valid_price P l) b0 abook_new"
    using book_policies.new_sim [OF L] by auto
  from book_policies.reserve_orders_sim [OF L(1) b0(3) assms(2)] obtain b where b: "reserve_orders P n b0 = Some b"
    "book_policies.refines P linv levels minv lookup (pol_valid_price P l) b abook_new" "pol_size P (bk_orders b) = 0"
    using b0(2) by metis
  have "implements P (pol_valid_price P l) b abook_new" unfolding implements_def using L(1) b(2,3) by fastforce
  then show ?thesis using b0(1) b(1,3) by (simp add: bench_book_def holds_def)
qed

end
