(* ===== verification/BenchProperties.thy ===== *)
theory BenchProperties
  imports BenchRun BookProperties Swaps
begin

text \<open>What the scenarios leave: the claims about the benchmark.\<close>

subsection \<open>Single calls on the specification\<close>

lemma limit_rests:
  assumes ok: "abook_ok any_price A" and v: "oid \<noteq> 0" "q \<noteq> 0" "oid \<notin> flat_ids (flats A)"
    and n: "\<forall>f \<in> set (flats A (opposite s)). \<not> crosses s p (fst f)"
    and l: "abs_limit any_price actor oid s p q A = (r, xs, A')"
  shows "flats A' = (flats A)(s := enter s p \<lparr>en_id = oid, en_qty = q, en_owner = actor\<rparr> (flats A s))" and "abook_ok any_price A'"
    and "flat_ids (flats A') = insert oid (flat_ids (flats A))" and "ab_stp A' = ab_stp A"
    and "ab_counters A' = c_added q (ab_counters A)" and "xs = []"
proof -
  let ?e = "\<lparr>en_id = oid, en_qty = q, en_owner = actor\<rparr>" and ?B = "abs_rest oid s p q actor (abs_count (c_added q) A)"
  have o1: "shape_ok A" "flats_ok any_price (flats A)" using ok by (simp_all add: abook_ok_flats)
  have "\<not> crosses s p (fst x)" if x: "x \<in> set (ab_levels A (opposite s))" for x
  proof -
    obtain p' es where pe: "x = (p', es)" by force
    then obtain e where "e \<in> set es" using abook_okD(3) [OF ok, of p' es] x by (cases es) auto
    then have "(p', e) \<in> set (flats A (opposite s))" using x pe by (auto simp: flats_def flat_member)
    then show ?thesis using n pe by fastforce
  qed
  then have "fill_levels (ab_stp A) True oid actor s p (ab_levels A (opposite s)) q (c_added q (ab_counters A))
      = (ab_levels A (opposite s), q, [], c_added q (ab_counters A))" by (cases "ab_levels A (opposite s)") (fastforce+)
  then have m: "abs_match True oid actor s p q (abs_count (c_added q) A) = (q, [], abs_count (c_added q) A)"
    by (simp add: abs_match_def abs_count_def)
  have "abs_find oid A = None" unfolding abs_find_None using v(3) by (simp add: flat_ids_flats)
  then have A': "A' = ?B" and xs: "xs = []" using v(1,2) m l by (auto simp: abs_limit_def abs_validate_def word_gt_0 split: if_splits)
  have so: "shape_ok (abs_count (c_added q) A)" using shape_ops(1) [OF o1(1)] .
  show F: "flats A' = (flats A)(s := enter s p ?e (flats A s))"
    using rest_flats [of s "abs_count (c_added q) A"] so unfolding A' by (auto simp: fun_eq_iff shape_ok_def)
  note E = flats_ok_enter [OF o1(2) TrueI, of ?e s p, simplified, OF v(2,3)]
  show "abook_ok any_price A'" using E(1) F shape_ops(3) [OF so] by (simp add: abook_ok_flats A')
  show "flat_ids (flats A') = insert oid (flat_ids (flats A))" using E(2) F by simp
  show "ab_stp A' = ab_stp A" "ab_counters A' = c_added q (ab_counters A)" "xs = []"
    using xs by (simp_all add: A' abs_rest_def abs_set_queue_def abs_count_def)
qed

text \<open>A bid that asks for exactly what the first ask offers takes it and nothing else.\<close>

lemma limit_takes_head:
  assumes ok: "abook_ok any_price A" and f: "flats A Ask = (p, e) # fs" and v: "oid \<noteq> 0" "oid \<notin> flat_ids (flats A)"
    and own: "\<not> (stp_active (ab_stp A) actor \<and> en_owner e = actor)"
    and l: "abs_limit any_price actor oid Bid p (en_qty e) A = (r, xs, A')"
  shows "flats A' = (flats A)(Ask := fs)" and "abook_ok any_price A'" and "flat_ids (flats A') \<subseteq> flat_ids (flats A)"
    and "ab_stp A' = ab_stp A" and "ab_counters A' = c_traded (en_qty e) (c_added (en_qty e) (ab_counters A))"
    and "xs = [\<lparr>ex_resting_id = en_id e, ex_aggressor_id = oid, ex_price = p, ex_qty = en_qty e\<rparr>]"
proof -
  obtain es ls where L: "ab_levels A Ask = (p, e # es) # ls" "fs = map (Pair p) es @ flat ls" by (rule first_level [OF ok f])
  have o1: "shape_ok A" "flats_ok any_price (flats A)" using ok by (simp_all add: abook_ok_flats)
  have q: "en_qty e \<noteq> 0" using flats_okD(2) [OF o1(2), of "(p, e)" Ask] f by simp
  define c where "c = c_added (en_qty e) (ab_counters A)"
  have "fill_queue stp oid actor p es 0 c' = (es, 0, False, [], c')" "fill_levels stp True oid actor Bid p ls 0 c' = (ls, 0, [], c')" for c' stp
    by (cases es; simp)+ (cases ls; auto)
  then have "fill_levels (ab_stp A) True oid actor Bid p (ab_levels A Ask) (en_qty e) c
      = ((if es = [] then ls else (p, es) # ls), 0, [\<lparr>ex_resting_id = en_id e, ex_aggressor_id = oid, ex_price = p, ex_qty = en_qty e\<rparr>], c_traded (en_qty e) c)"
    using q own by (auto simp: L(1) word_gt_0 crosses_def Let_def)
  then have m: "abs_match True oid actor Bid p (en_qty e) (abs_count (c_added (en_qty e)) A)
      = (0, [\<lparr>ex_resting_id = en_id e, ex_aggressor_id = oid, ex_price = p, ex_qty = en_qty e\<rparr>],
         A\<lparr>ab_levels := (ab_levels A)(Ask := (if es = [] then ls else (p, es) # ls)), ab_counters := c_traded (en_qty e) c\<rparr>)"
    by (simp add: abs_match_def abs_count_def opposite_def c_def)
  have "abs_find oid A = None" unfolding abs_find_None using v(2) by (simp add: flat_ids_flats)
  then have A': "A' = A\<lparr>ab_levels := (ab_levels A)(Ask := (if es = [] then ls else (p, es) # ls)), ab_counters := c_traded (en_qty e) c\<rparr>"
    and xs: "xs = [\<lparr>ex_resting_id = en_id e, ex_aggressor_id = oid, ex_price = p, ex_qty = en_qty e\<rparr>]"
    using v(1) q m l by (auto simp: abs_limit_def abs_validate_def split: if_splits)
  show F: "flats A' = (flats A)(Ask := fs)" by (auto simp: A' flats_def fun_eq_iff L)
  have sh: "shape_ok A'"
  proof -
    have "ladder_sorted Ask (if es = [] then ls else (p, es) # ls)" using o1(1) L(1) by (fastforce simp: shape_ok_def dest!: spec [of _ Ask])
    then show ?thesis using o1(1) L(1) by (auto simp: shape_ok_def A' dest!: spec [of _ Ask] split: if_splits)
  qed
  have sub: "set (flats A' t) \<subseteq> set (flats A t)" for t by (auto simp: F f)
  show "flat_ids (flats A') \<subseteq> flat_ids (flats A)" using sub by (auto simp: flat_ids_def)
  have "flats_ok any_price (flats A')"
  proof (rule flats_okI)
    show "any_price (fst g) \<and> en_qty (snd g) \<noteq> 0" if "g \<in> set (flats A' t)" for t g using flats_okD(2) [OF o1(2)] sub that by blast
    show "distinct (map (\<lambda>f. en_id (snd f)) (flats A' t))" for t using flats_okD(3) [OF o1(2), of t] f by (cases "t = Ask") (simp_all add: F)
    show "en_id (snd g) \<noteq> en_id (snd h)" if "g \<in> set (flats A' Bid)" "h \<in> set (flats A' Ask)" for g h
      using flats_okD(4) [OF o1(2), of g Bid h Ask] sub that by blast
  qed
  then show "abook_ok any_price A'" using sh by (simp add: abook_ok_flats)
  show "ab_stp A' = ab_stp A" "ab_counters A' = c_traded (en_qty e) (c_added (en_qty e) (ab_counters A))"
    "xs = [\<lparr>ex_resting_id = en_id e, ex_aggressor_id = oid, ex_price = p, ex_qty = en_qty e\<rparr>]" using xs by (simp_all add: A' c_def)
qed

lemma limit_fresh:
  assumes "bound < 2 ^ 63" and "ids \<subseteq> of_nat ` {1..bound}"
  shows "(of_nat (Suc bound) :: OrderId) \<notin> ids" and "(of_nat (Suc bound) :: OrderId) \<noteq> 0"
proof -
  have u: "unat (of_nat k :: u64) = k" if "k \<le> Suc bound" for k using that assms(1) by (intro unat_of_nat_u64) simp
  show "(of_nat (Suc bound) :: OrderId) \<notin> ids"
  proof
    assume "(of_nat (Suc bound) :: OrderId) \<in> ids"
    then have "(of_nat (Suc bound) :: OrderId) \<in> of_nat ` {1..bound}" using assms(2) by blast
    then obtain k where "k \<le> bound" "(of_nat (Suc bound) :: OrderId) = of_nat k" by (auto simp del: of_nat_Suc)
    then have "unat (of_nat (Suc bound) :: u64) = unat (of_nat k :: u64)" by simp
    then show False using u [of "Suc bound"] u [of k] \<open>k \<le> bound\<close> by simp
  qed
  show "(of_nat (Suc bound) :: OrderId) \<noteq> 0" using u [of "Suc bound"] by (auto simp del: of_nat_Suc)
qed

lemma ids_step: "X \<subseteq> of_nat ` {1..k} \<Longrightarrow> insert (of_nat (Suc k) :: OrderId) X \<subseteq> of_nat ` {1..Suc k}"
  by (auto simp del: of_nat_Suc)

subsection \<open>The book between two calls\<close>

text \<open>The orders open are those listed, with ids given out so far; the sides are apart.\<close>

definition stocked :: "nat \<Rightarrow> OrderId list \<Rightarrow> ABook \<Rightarrow> bool" where
  "stocked k ids A \<longleftrightarrow> abook_ok any_price A \<and> (\<forall>s. \<forall>f \<in> set (flats A s). in_band s (fst f))
    \<and> flat_ids (flats A) = set ids \<and> distinct ids \<and> set ids \<subseteq> of_nat ` {1..k} \<and> ab_stp A = NoPrevention"

lemma stocked_new: "stocked 0 [] abook_new"
proof -
  have f: "flats abook_new = (\<lambda>_. [])" by (simp add: flats_def abook_new_def fun_eq_iff)
  have "abook_ok any_price abook_new" by (simp add: abook_ok_def abook_new_def all_entries_def side_entries_def)
  moreover have "ab_stp abook_new = NoPrevention" by (simp add: abook_new_def)
  ultimately show ?thesis by (simp add: stocked_def f flat_ids_def)
qed

lemma bands_apart: "in_band s p \<Longrightarrow> in_band (opposite s) p' \<Longrightarrow> \<not> crosses s p p'"
  by (cases s) (auto simp: in_band_def opposite_def crosses_def)

lemma stocked_add:
  assumes "stocked k ids A" and "k < 2 ^ 63" and "in_band s p" and "q \<noteq> 0" and "abs_limit any_price 0 (of_nat (Suc k)) s p q A = (r, xs, A')"
  shows "stocked (Suc k) (ids @ [of_nat (Suc k)]) A'"
    and "flats A' = (flats A)(s := enter s p \<lparr>en_id = of_nat (Suc k), en_qty = q, en_owner = 0\<rparr> (flats A s))"
proof -
  have A: "abook_ok any_price A" "\<forall>s. \<forall>f \<in> set (flats A s). in_band s (fst f)" "flat_ids (flats A) = set ids" "distinct ids" "set ids \<subseteq> of_nat ` {1..k}"
    and np: "ab_stp A = NoPrevention" using assms(1) by (simp_all add: stocked_def)
  note F = limit_fresh [OF assms(2) A(5)]
  have "\<forall>f \<in> set (flats A (opposite s)). \<not> crosses s p (fst f)" using A(2) bands_apart [OF assms(3)] by blast
  note R = limit_rests [OF A(1) F(2) assms(4) F(1) [folded A(3)] this assms(5)]
  show "flats A' = (flats A)(s := enter s p \<lparr>en_id = of_nat (Suc k), en_qty = q, en_owner = 0\<rparr> (flats A s))" by (rule R(1))
  have "\<forall>t. \<forall>f \<in> set (flats A' t). in_band t (fst f)" using A(2) assms(3) by (auto simp: R(1) enter_set)
  moreover have "set (ids @ [of_nat (Suc k)]) \<subseteq> of_nat ` {1..Suc k}" using A(5) by (auto simp del: of_nat_Suc)
  ultimately show "stocked (Suc k) (ids @ [of_nat (Suc k)]) A'" using R(2,3,4) np F(1) A(3,4) by (simp add: stocked_def del: of_nat_Suc)
qed

lemma adds_stocked:
  assumes "stocked k ids A" and "k + length is < 2 ^ 63" and "abs_adds price_first side is prng (of_nat (Suc k)) ids A = (prng', next_id', ids', A')"
  shows "stocked (k + length is) ids' A' \<and> next_id' = of_nat (Suc (k + length is)) \<and> length ids' = length ids + length is
    \<and> ((\<forall>i. side i = Ask) \<longrightarrow> flats A' Bid = flats A Bid)"
  using assms
proof (induction "is" arbitrary: k prng ids A)
  case (Cons i "is")
  obtain p q g where d: "draw_args price_first (side i) prng = (p, q, g)" by (metis prod_cases3)
  obtain r xs A1 where a: "abs_limit any_price 0 (of_nat (Suc k)) (side i) p q A = (r, xs, A1)" by (metis prod_cases3)
  have "k < 2 ^ 63" "in_band (side i) p" "q \<noteq> 0" using Cons.prems(2) drawn_args [OF d] by simp_all
  note S = stocked_add [OF Cons.prems(1) this a]
  have "abs_adds price_first side is g (of_nat (Suc (Suc k))) (ids @ [of_nat (Suc k)]) A1 = (prng', next_id', ids', A')"
    using Cons.prems(3) by (simp add: d a add.commute del: of_nat_Suc) (simp add: add.commute)
  from Cons.IH [OF S(1) _ this] Cons.prems(2) S(2) show ?case by auto
qed auto

text \<open>An order canceled.\<close>

lemma stocked_cancel:
  assumes "stocked k ids A" and "mset ids = add_mset oid (mset ids')"
  shows "stocked k ids' (snd (abs_cancel oid A))"
proof -
  have A: "abook_ok any_price A" "\<forall>s. \<forall>f \<in> set (flats A s). in_band s (fst f)" "flat_ids (flats A) = set ids" "distinct ids" "set ids \<subseteq> of_nat ` {1..k}"
    and np: "ab_stp A = NoPrevention" using assms(1) by (simp_all add: stocked_def)
  note C = canceled_book [OF A(1), of oid]
  have "abook_ok any_price (snd (abs_cancel oid A))" "flat_ids (flats (snd (abs_cancel oid A))) = set ids - {oid}" using C(1,3) A(3) by simp_all
  moreover have "distinct (oid # ids')" "set ids = insert oid (set ids')"
    using A(4) mset_eq_setD [of ids "oid # ids'"] mset_eq_imp_distinct_iff [of ids "oid # ids'"] assms(2) by simp_all
  moreover have "\<forall>s. \<forall>f \<in> set (flats (snd (abs_cancel oid A)) s). in_band s (fst f)" using A(2) by (simp add: C(2) without_def)
  moreover have "ab_stp (snd (abs_cancel oid A)) = NoPrevention"
    using np by (simp add: abs_cancel_def abs_remove_def abs_set_queue_def abs_count_def split: option.split)
  ultimately show ?thesis using A(5) by (auto simp: stocked_def)
qed

lemma cancels_stocked: "stocked k ids A \<Longrightarrow> mset ids = mset ids' \<Longrightarrow> stocked k [] (abs_cancels ids' A)"
proof (induction ids' arbitrary: ids A)
  case (Cons oid ids')
  have "mset ids = add_mset oid (mset ids')" using Cons.prems(2) by simp
  from Cons.IH [OF stocked_cancel [OF Cons.prems(1) this] refl] show ?case by (simp add: abs_cancels_def)
qed (simp add: abs_cancels_def)

lemma drawn_index: "0 < n \<Longrightarrow> n < 2 ^ 63 \<Longrightarrow> unat (r mod of_nat n :: u64) < n"
  by (simp add: unat_mod unat_of_nat_u64)

lemma shuffle_mset: "i \<le> length ids \<Longrightarrow> i < 2 ^ 63 \<Longrightarrow> mset (snd (bench_shuffle i prng ids)) = mset ids"
proof (induction i prng ids rule: bench_shuffle.induct)
  case (2 i prng ids)
  show ?case
  proof (cases "i = 0")
    case False
    obtain r g where g: "splitmix64 prng = (r, g)" by force
    define j where "j = unat (r mod of_nat (Suc i))"
    have "j < Suc i" unfolding j_def using "2.prems"(2) by (intro drawn_index) simp_all
    then have "mset (ids[i := ids ! j, j := ids ! i]) = mset ids" using "2.prems"(1) by (intro mset_swap) auto
    then show ?thesis using "2.IH" [OF False refl g [symmetric] j_def] "2.prems" False by (simp add: g j_def [symmetric] del: of_nat_Suc)
  qed simp
qed simp

text \<open>In the steady state there is always an order to cancel: each cancel follows an add.\<close>

lemma mixed_stocked:
  assumes "stocked k ids A" and "k + (n - i) < 2 ^ 63" and "odd i \<longrightarrow> ids \<noteq> []" and "length ids + (n - i) < 2 ^ 63"
  shows "\<exists>prng' ids' A' k'. abs_mixed [i..<n] prng (of_nat (Suc k)) ids A = Some (prng', ids', A') \<and> stocked k' ids' A'"
  using assms
proof (induction "n - i" arbitrary: i k prng ids A)
  case 0
  then show ?case by auto
next
  case (Suc m)
  then have u: "[i..<n] = i # [Suc i..<n]" "i < n" "m = n - Suc i" by (simp_all add: upt_conv_Cons)
  obtain r g where g: "splitmix64 prng = (r, g)" by force
  show ?case
  proof (cases "even i")
    case True
    define sd where "sd = (if r mod 2 = 0 then Bid else Ask)"
    obtain p q h where d: "draw_args True sd g = (p, q, h)" by (metis prod_cases3)
    obtain x xs A1 where a: "abs_limit any_price 0 (of_nat (Suc k)) sd p q A = (x, xs, A1)" by (metis prod_cases3)
    have "k < 2 ^ 63" "in_band sd p" "q \<noteq> 0" using Suc.prems(2) drawn_args [OF d] by simp_all
    note S = stocked_add [OF Suc.prems(1) this a]
    have e: "abs_mixed [i..<n] prng (of_nat (Suc k)) ids A = abs_mixed [Suc i..<n] h (of_nat (Suc (Suc k))) (ids @ [of_nat (Suc k)]) A1"
      unfolding u(1) using True by (simp add: g sd_def [symmetric] d a Let_def add.commute del: of_nat_Suc) (simp add: add.commute)
    have "Suc k + (n - Suc i) < 2 ^ 63" "odd (Suc i) \<longrightarrow> ids @ [of_nat (Suc k)] \<noteq> []" "length (ids @ [of_nat (Suc k) :: OrderId]) + (n - Suc i) < 2 ^ 63"
      using Suc.prems(2,4) u(2) by auto
    from Suc.hyps(1) [OF u(3) S(1) this] show ?thesis unfolding e .
  next
    case False
    define j where "j = unat (r mod of_nat (length ids))"
    have ne: "ids \<noteq> []" using Suc.prems(3) False by blast
    have j: "j < length ids" unfolding j_def using ne Suc.prems(4) by (intro drawn_index) auto
    define ids1 where "ids1 = butlast (ids[j := last ids])"
    have e: "abs_mixed [i..<n] prng (of_nat (Suc k)) ids A = abs_mixed [Suc i..<n] g (of_nat (Suc k)) ids1 (snd (abs_cancel (ids ! j) A))"
      unfolding u(1) using False ne by (simp add: g j_def ids1_def Let_def del: of_nat_Suc)
    have "k + (n - Suc i) < 2 ^ 63" "odd (Suc i) \<longrightarrow> ids1 \<noteq> []" "length ids1 + (n - Suc i) < 2 ^ 63"
      using Suc.prems(2,4) False by (auto simp: ids1_def)
    from Suc.hyps(1) [OF u(3) stocked_cancel [OF Suc.prems(1) mset_drop_swapped [OF j, folded ids1_def]] this] show ?thesis unfolding e .
  qed
qed

text \<open>Every execution takes the best ask whole, so as many of them as there are asks empty the book.\<close>

lemma executes_empty:
  assumes "abook_ok any_price A" and "flat_ids (flats A) \<subseteq> of_nat ` {1..k}" and "flats A Bid = []" and "length (flats A Ask) = n" and "k + n < 2 ^ 63"
    and "ab_stp A = NoPrevention"
  shows "\<exists>A'. abs_executes n (of_nat (Suc k)) A = Some A' \<and> flats A' = (\<lambda>_. [])"
  using assms
proof (induction n arbitrary: k A)
  case 0
  then have "flats A t = []" for t by (cases t) simp_all
  then show ?case by (simp add: fun_eq_iff)
next
  case (Suc n)
  then obtain p e fs where f: "flats A Ask = (p, e) # fs" "length fs = n" by (cases "flats A Ask") auto
  have "k < 2 ^ 63" using Suc.prems(5) by simp
  note F = limit_fresh [OF this Suc.prems(2)]
  obtain r xs A1 where a: "abs_limit any_price 0 (of_nat (Suc k)) Bid p (en_qty e) A = (r, xs, A1)" by (metis prod_cases3)
  note T = limit_takes_head [OF Suc.prems(1) f(1) F(2,1) _ a]
  have own: "\<not> (stp_active (ab_stp A) 0 \<and> en_owner e = 0)" by (simp add: stp_active_def)
  have "flat_ids (flats A1) \<subseteq> of_nat ` {1..Suc k}" using T(3) [OF own] Suc.prems(2) by (fastforce simp del: of_nat_Suc)
  moreover have "flats A1 Bid = []" "length (flats A1 Ask) = n" using T(1) [OF own] Suc.prems(3) f(2) by simp_all
  ultimately have "\<exists>A'. abs_executes n (of_nat (Suc (Suc k))) A1 = Some A' \<and> flats A' = (\<lambda>_. [])"
    using Suc.IH [OF T(2) [OF own], of "Suc k"] T(4) [OF own] Suc.prems(5,6) by simp
  moreover have "abs_executes (Suc n) (of_nat (Suc k)) A = abs_executes n (of_nat (Suc (Suc k))) A1"
    by (simp add: f a add.commute del: of_nat_Suc) (simp add: add.commute)
  ultimately show ?case by simp
qed

subsection \<open>The fingerprint of the ladder scenarios\<close>

lemma no_orders:
  assumes "holds P V n b A" and "flat_ids (flats A) = {}"
  shows "open_orders P b = 0"
proof -
  have i: "implements P V b A" using assms(1) by (simp add: holds_def)
  have "book_ids A = {}" using assms(2) by (simp add: flat_ids_flats)
  then show ?thesis using implementsD(4) [OF i] card_book_ids [OF implementsD(8) [OF i]] by simp
qed

definition ladder_sink :: "bool \<Rightarrow> u64 \<Rightarrow> u64 option" where
  "ladder_sink price_first ops = do {
     let (prng, next_id, ids, A) = abs_adds True both_sides [0..<unat ops] 0x0DDBA115EED 1 [] abook_new;
     let (prng, ids) = bench_shuffle (length ids) prng ids;
     let (prng, next_id, ids, B) = abs_adds price_first both_sides [0..<kPrefillMixed] prng 1 [] abook_new;
     (prng, ids, B) \<leftarrow> abs_mixed [0..<unat ops] prng next_id ids B;
     let (prng, next_id, ids, C) = abs_adds price_first (\<lambda>_. Ask) [0..<unat ops] prng 1 [] abook_new;
     C \<leftarrow> abs_executes (unat ops) next_id C;
     Some (abs_hash A XOR abs_hash B XOR traded_qty (ab_counters C)) }"

lemma asks_alone:
  assumes "stocked k ids A" and "flats A Bid = []"
  shows "length (flats A Ask) = length ids"
proof -
  have "flats_ok any_price (flats A)" using assms(1) by (simp add: stocked_def abook_ok_flats)
  then have "length (flats A Ask) = card (set (map (\<lambda>f. en_id (snd f)) (flats A Ask)))"
    using flats_okD(3) [of any_price "flats A" Ask] by (metis distinct_card length_map)
  moreover have U: "(UNIV :: Side set) = {Bid, Ask}" by (auto intro: Side.exhaust)
  have "set (map (\<lambda>f. en_id (snd f)) (flats A Ask)) = flat_ids (flats A)" unfolding flat_ids_def U using assms(2) by simp
  moreover have "flat_ids (flats A) = set ids" "distinct ids" using assms(1) by (simp_all add: stocked_def)
  ultimately show ?thesis by (simp add: distinct_card)
qed

lemma fresh_adds:
  assumes "lawful P l" and "\<forall>s p. in_band s p \<longrightarrow> pol_valid_price P l p" and "room < 2 ^ 40" and "n < 2 ^ 31"
    and a: "abs_adds price_first side [0..<n] prng 1 [] abook_new = (g, next_id, ids, A)"
  shows "\<exists>b0 b. bench_book P l room = Some b0 \<and> bench_adds P price_first side [0..<n] prng 1 [] b0 = Some (g, next_id, ids, b)
    \<and> holds P (pol_valid_price P l) n b A"
    and "stocked n ids A" and "next_id = of_nat (Suc n)" and "length ids = n" and "(\<forall>i. side i = Ask) \<longrightarrow> flats A Bid = []"
proof -
  obtain b0 where b0: "bench_book P l room = Some b0" "holds P (pol_valid_price P l) 0 b0 abook_new" using book_holds [OF assms(1,3)] by blast
  have n: "0 + length [0..<n] < 2 ^ 32" using assms(4) by simp
  show "\<exists>b0 b. bench_book P l room = Some b0 \<and> bench_adds P price_first side [0..<n] prng 1 [] b0 = Some (g, next_id, ids, b)
      \<and> holds P (pol_valid_price P l) n b A"
    using adds_follow [OF b0(2) n assms(2), of price_first side prng 1 "[]"] a b0(1) by auto
  have f: "flats abook_new Bid = []" by (simp add: flats_def abook_new_def)
  have "0 + length [0..<n] < 2 ^ 63" "abs_adds price_first side [0..<n] prng (of_nat (Suc 0)) [] abook_new = (g, next_id, ids, A)"
    using assms(4) a by simp_all
  from adds_stocked [OF stocked_new this] f
  show "stocked n ids A" "next_id = of_nat (Suc n)" "length ids = n" "(\<forall>i. side i = Ask) \<longrightarrow> flats A Bid = []" by (simp_all del: of_nat_Suc)
qed

lemma ladder_runs:
  assumes "lawful P l" and "\<forall>p. 99500 \<le> p \<and> p \<le> 100500 \<longrightarrow> pol_valid_price P l p" and "unat ops < 2 ^ 30"
  shows "\<exists>sink. ladder_sink price_first ops = Some sink \<and> run_ladder P l price_first ops = Some (sink, 0)"
proof -
  define N where "N = unat ops"
  let ?V = "pol_valid_price P l"
  have band: "\<forall>s p. in_band s p \<longrightarrow> ?V p" using assms(2) by (auto simp: in_band_def kMid_def split: if_splits)
  have N: "N < 2 ^ 31" "N < 2 ^ 40" "N + 1 < 2 ^ 40" "kPrefillMixed + unat (ops div 2) + 1 < 2 ^ 40" "kPrefillMixed < 2 ^ 31"
    using assms(3) unat_div [of ops 2] by (simp_all add: N_def kPrefillMixed_def)
  have hash: "state_hash P b = Some (abs_hash A)" if "holds P ?V n b A" for n b A using implementsD(1) that by (auto simp: holds_def)
  obtain g1 n1 ids1 A where a1: "abs_adds True both_sides [0..<N] 0x0DDBA115EED 1 [] abook_new = (g1, n1, ids1, A)" by (metis prod_cases4)
  note S1 = fresh_adds [OF assms(1) band N(2,1) a1]
  obtain b0 b1 where b1: "bench_book P l N = Some b0" "bench_adds P True both_sides [0..<N] 0x0DDBA115EED 1 [] b0 = Some (g1, n1, ids1, b1)"
    "holds P ?V N b1 A" using S1(1) by blast
  obtain g2 ids2 where f: "bench_shuffle (length ids1) g1 ids1 = (g2, ids2)" by force
  have m2: "mset ids2 = mset ids1" using shuffle_mset [of "length ids1" ids1 g1] S1(4) N(1) f by simp
  have l2: "N + length ids2 < 2 ^ 32" using S1(4) N(1) mset_eq_length [OF m2] by simp
  obtain b2 where b2: "bench_cancels P ids2 b1 = Some b2" "holds P ?V (N + length ids2) b2 (abs_cancels ids2 A)"
    using cancels_follow [OF b1(3) l2] by blast
  have o2: "open_orders P b2 = 0" using no_orders [OF b2(2)] cancels_stocked [OF S1(2) m2 [symmetric]] by (simp add: stocked_def)
  obtain g3 n3 ids3 B where a3: "abs_adds price_first both_sides [0..<kPrefillMixed] g2 1 [] abook_new = (g3, n3, ids3, B)" by (metis prod_cases4)
  note S3 = fresh_adds [OF assms(1) band N(4,5) a3]
  obtain c0 c1 where c1: "bench_book P l (kPrefillMixed + unat (ops div 2) + 1) = Some c0"
    "bench_adds P price_first both_sides [0..<kPrefillMixed] g2 1 [] c0 = Some (g3, n3, ids3, c1)" "holds P ?V kPrefillMixed c1 B" using S3(1) by blast
  have "kPrefillMixed + (N - 0) < 2 ^ 63" "odd 0 \<longrightarrow> ids3 \<noteq> []" "length ids3 + (N - 0) < 2 ^ 63" using N(1) S3(4) by (simp_all add: kPrefillMixed_def)
  from mixed_stocked [OF S3(2) this, of g3] obtain g4 ids4 B' where a4: "abs_mixed [0..<N] g3 n3 ids3 B = Some (g4, ids4, B')"
    using S3(3) by (auto simp del: of_nat_Suc)
  have l4: "kPrefillMixed + length [0..<N] < 2 ^ 32" using N(1) by (simp add: kPrefillMixed_def)
  obtain c2 where c2: "bench_mixed P [0..<N] g3 n3 ids3 c1 = Some (g4, ids4, c2)" "holds P ?V (kPrefillMixed + length [0..<N]) c2 B'"
    using mixed_follow [OF c1(3) l4 band a4] by blast
  obtain g5 n5 ids5 C where a5: "abs_adds price_first (\<lambda>_. Ask) [0..<N] g4 1 [] abook_new = (g5, n5, ids5, C)" by (metis prod_cases4)
  note S5 = fresh_adds [OF assms(1) band N(3,1) a5]
  obtain d0 d1 where d1: "bench_book P l (N + 1) = Some d0" "bench_adds P price_first (\<lambda>_. Ask) [0..<N] g4 1 [] d0 = Some (g5, n5, ids5, d1)"
    "holds P ?V N d1 C" using S5(1) by blast
  have bid: "flats C Bid = []" using S5(5) by simp
  have asks: "length (flats C Ask) = N" using asks_alone [OF S5(2) bid] S5(4) by simp
  have st: "abook_ok any_price C" "flat_ids (flats C) \<subseteq> of_nat ` {1..N}" "ab_stp C = NoPrevention" using S5(2) by (simp_all add: stocked_def)
  have "N + N < 2 ^ 63" "N + N < 2 ^ 32" using N(1) by simp_all
  from executes_empty [OF st(1,2) bid asks this(1) st(3)] executes_follow [OF d1(3) this(2)] obtain C' d2 where
    d2: "abs_executes N n5 C = Some C'" "flats C' = (\<lambda>_. [])" "bench_executes P N n5 d1 = Some d2" "holds P ?V (N + N) d2 C'"
    unfolding S5(3) by blast
  have o5: "open_orders P d2 = 0" using no_orders [OF d2(4)] d2(2) by (simp add: flat_ids_def)
  have t5: "bk_counters d2 = ab_counters C'" using implementsD(5) d2(4) by (auto simp: holds_def)
  have "ladder_sink price_first ops = Some (abs_hash A XOR abs_hash B' XOR traded_qty (ab_counters C'))"
    by (simp add: ladder_sink_def N_def [symmetric] a1 f a3 a4 a5 d2(1))
  moreover have "run_ladder P l price_first ops = Some (abs_hash A XOR abs_hash B' XOR traded_qty (ab_counters C'), 0)"
    by (simp add: run_ladder_def N_def [symmetric] b1 hash [OF b1(3)] f b2(1) o2 c1(2) c1(1) [simplified] c2(1) hash [OF c2(2)] d1(2) d1(1) [simplified] d2(3) o5 t5 xor.assoc)
  ultimately show ?thesis by blast
qed

text \<open>C34: The ladder scenarios of the benchmark end on every lawful policy whose ladder accepts the prices from 99500 to 100500 they use, print no "BUG" message (the cancel and the execute phase
  leave no order) and give one fingerprint, which does not depend on the policy; so \<^verbatim>\<open>main\<close> finds that the ladders agree and
  returns 0, whatever order the compiler gives the two draws of an argument list.\<close>

theorem benchmark_ladders_agree:
  assumes "lawful P l" and "lawful Q m" and "unat ops < 2 ^ 30"
    and "\<forall>p. 99500 \<le> p \<and> p \<le> 100500 \<longrightarrow> pol_valid_price P l p \<and> pol_valid_price Q m p"
  shows "\<exists>sink. run_ladder P l price_first ops = Some (sink, 0) \<and> run_ladder Q m price_first ops = Some (sink, 0)
    \<and> bench_exit (map_option fst (run_ladder P l price_first ops)) (map_option fst (run_ladder Q m price_first ops)) = 0"
proof -
  obtain sink where "ladder_sink price_first ops = Some sink" "run_ladder P l price_first ops = Some (sink, 0)"
    using ladder_runs [OF assms(1) _ assms(3)] assms(4) by blast
  moreover have "run_ladder Q m price_first ops = Some (sink, 0)"
    using ladder_runs [OF assms(2) _ assms(3), of price_first] assms(4) calculation(1) by auto
  ultimately show ?thesis by (simp add: bench_exit_def)
qed

theorem benchmark_ladders_agree_witness:
  "\<exists>sink. run_ladder dense_open_policy (dl_new kDenseMin kDenseMax) False 500000 = Some (sink, 0)
    \<and> run_ladder map_std_policy ml_new False 500000 = Some (sink, 0)"
proof -
  have l: "lawful dense_open_policy (dl_new kDenseMin kDenseMax)" by (rule lawful_policies(6)) (simp_all add: kDenseMin_def kDenseMax_def)
  have "pol_valid_price dense_open_policy (dl_new kDenseMin kDenseMax) p" if "99500 \<le> p" "p \<le> 100500" for p
    using that by (simp add: dense_open_policy_def policy.make_def dl_valid_price_def dl_new_def Let_def kDenseMin_def kDenseMax_def)
  then have v: "\<forall>p. 99500 \<le> p \<and> p \<le> 100500 \<longrightarrow> pol_valid_price dense_open_policy (dl_new kDenseMin kDenseMax) p \<and> pol_valid_price map_std_policy ml_new p"
    by (simp add: map_std_valid)
  have n: "unat (500000 :: u64) < 2 ^ 30" by simp
  from benchmark_ladders_agree [OF l lawful_policies(1) n v, of False] show ?thesis by blast
qed

subsection \<open>The worst case of the dense ladder\<close>

lemma rescans_return:
  assumes "abook_ok any_price A" and "flat_ids (flats A) \<subseteq> of_nat ` {1..k}" and "k + 2 * n < 2 ^ 63" and "ab_stp A = NoPrevention"
    and "flats A Bid = []" and "flats A Ask = [(131070, e)]"
  shows "let A' = abs_rescans n (of_nat (Suc k)) A in flats A' = flats A \<and> traded_qty (ab_counters A') = traded_qty (ab_counters A) + of_nat (10 * n)"
  using assms
proof (induction n arbitrary: k A)
  case (Suc n)
  have k: "k < 2 ^ 63" "Suc k < 2 ^ 63" using Suc.prems(3) by simp_all
  note F = limit_fresh [OF k(1) Suc.prems(2)]
  obtain r xs B where b: "abs_limit any_price 0 (of_nat (Suc k)) Ask 1 10 A = (r, xs, B)" by (metis prod_cases3)
  have "\<forall>f \<in> set (flats A (opposite Ask)). \<not> crosses Ask 1 (fst f)" using Suc.prems(5) by (simp add: opposite_def)
  note R = limit_rests [OF Suc.prems(1) F(2) _ F(1) this b, simplified]
  have B: "flats B Ask = [(1, \<lparr>en_id = of_nat (Suc k), en_qty = 10, en_owner = 0\<rparr>), (131070, e)]" "flats B Bid = []"
    using R(1) Suc.prems(5,6) by (simp_all add: enter_def before_def)
  have i: "flat_ids (flats B) \<subseteq> of_nat ` {1..Suc k}" using R(3) ids_step [OF Suc.prems(2)] by simp
  note G = limit_fresh [OF k(2) i]
  obtain r' xs' C where c: "abs_limit any_price 0 (of_nat (Suc (Suc k))) Bid 1 10 B = (r', xs', C)" by (metis prod_cases3)
  have own: "\<not> (stp_active (ab_stp B) 0 \<and> en_owner (\<lparr>en_id = of_nat (Suc k), en_qty = 10, en_owner = 0\<rparr> :: entry) = 0)" by (simp add: stp_active_def)
  have c': "abs_limit any_price 0 (of_nat (Suc (Suc k))) Bid 1 (en_qty \<lparr>en_id = of_nat (Suc k), en_qty = 10, en_owner = 0\<rparr>) B = (r', xs', C)"
    using c by simp
  note T = limit_takes_head [OF R(2) B(1) G(2,1) own c']
  have C: "flats C = flats A" using T(1) R(1) Suc.prems(6) by (auto simp: fun_eq_iff)
  have "flat_ids (flats C) \<subseteq> of_nat ` {1..Suc (Suc k)}" using T(3) i by (fastforce simp del: of_nat_Suc)
  moreover have "Suc (Suc k) + 2 * n < 2 ^ 63" "ab_stp C = NoPrevention" "flats C Bid = []" "flats C Ask = [(131070, e)]"
    using Suc.prems(3-6) T(4) R(4) C by simp_all
  ultimately have IH: "let A' = abs_rescans n (of_nat (Suc (Suc (Suc k)))) C in flats A' = flats C \<and> traded_qty (ab_counters A') = traded_qty (ab_counters C) + of_nat (10 * n)"
    using Suc.IH [OF T(2)] by blast
  have t: "traded_qty (ab_counters C) = traded_qty (ab_counters A) + 10" using T(5) R(5) by (simp add: c_traded_def c_added_def)
  have "abs_rescans (Suc n) (of_nat (Suc k)) A = abs_rescans n (of_nat (Suc (Suc (Suc k)))) C"
    using b c by (simp add: add.commute)
  then show ?case using IH C t by (simp add: Let_def)
qed simp

text \<open>Each round of the worst case executes exactly the order it posted; the anchor is what is left.\<close>

theorem adversarial_returns:
  assumes "lawful P l" and "unat ops < 2 ^ 30" and "pol_valid_price P l 1" and "pol_valid_price P l 131070"
  shows "\<exists>b. run_adversarial P l ops = Some b \<and> resting P Bid b = Some []
    \<and> resting P Ask b = Some [(131070, \<lparr>en_id = 1, en_qty = 1000000, en_owner = 0\<rparr>)] \<and> traded_qty (bk_counters b) = of_nat (10 * (unat ops div 10 + 1))"
proof -
  let ?V = "pol_valid_price P l" and ?e = "\<lparr>en_id = 1, en_qty = 1000000, en_owner = 0\<rparr>"
  define reps where "reps = unat ops div 10 + 1"
  have "unat (ops div 10) = unat ops div 10" by (simp add: unat_div)
  then have r: "unat (ops div 10 + 1) = reps" using assms(2) by (simp add: reps_def unat_word_ariths)
  have n: "reps * 2 + 16 < 2 ^ 40" "Suc 0 < 2 ^ 32" "Suc 0 + 2 * reps < 2 ^ 32" "Suc 0 + 2 * reps < 2 ^ 63" using assms(2) by (simp_all add: reps_def)
  obtain b0 where b0: "bench_book P l (reps * 2 + 16) = Some b0" "holds P ?V 0 b0 abook_new" using book_holds [OF assms(1) n(1)] by blast
  obtain x xs A where a: "abs_limit any_price 0 1 Ask 131070 1000000 abook_new = (x, xs, A)" by (metis prod_cases3)
  obtain b1 where b1: "add_limit P 1 Ask 131070 1000000 b0 = Some (x, xs, b1)" "holds P ?V (Suc 0) b1 A"
    using holds_limit [OF b0(2) n(2) assms(4), of 0 1 Ask 1000000] a by (auto simp: add_limit_def)
  have f: "flats abook_new = (\<lambda>_. [])" "flat_ids (flats abook_new) = {}" by (simp_all add: flats_def abook_new_def fun_eq_iff flat_ids_def)
  have new: "abook_ok any_price abook_new" "(1 :: OrderId) \<noteq> 0" "(1000000 :: Qty) \<noteq> 0" "(1 :: OrderId) \<notin> flat_ids (flats abook_new)"
    "\<forall>g \<in> set (flats abook_new (opposite Ask)). \<not> crosses Ask 131070 (fst g)"
    using stocked_new f by (simp_all add: stocked_def)
  note R = limit_rests [OF new a]
  have A: "flats A Bid = []" "flats A Ask = [(131070, ?e)]" "flat_ids (flats A) \<subseteq> of_nat ` {1..Suc 0}" "ab_stp A = NoPrevention" "traded_qty (ab_counters A) = 0"
    using R(1,3,4,5) f by (simp_all add: enter_def abook_new_def c_added_def counters_zero_def)
  define D where "D = abs_rescans reps 2 A"
  have "(of_nat (Suc (Suc 0)) :: OrderId) = 2" by simp
  then have D: "flats D = flats A" "traded_qty (ab_counters D) = of_nat (10 * reps)"
    using rescans_return [OF R(2) A(3) n(4) A(4,1,2)] A(5) by (simp_all add: D_def Let_def)
  obtain b2 where b2: "bench_rescans P reps 2 b1 = Some b2" "holds P ?V (Suc 0 + 2 * reps) b2 D"
    using rescans_follow [OF b1(2) n(3) assms(3), of 2] by (auto simp: D_def)
  have i: "implements P ?V b2 D" using b2(2) by (simp add: holds_def)
  have "run_adversarial P l ops = Some b2" using b0(1) b1(1) b2(1) by (simp add: run_adversarial_def Let_def r kDenseMax_def)
  moreover have "resting P s b2 = Some (flats A s)" for s using implementsD(3) [OF i, of s] unfolding D(1) [symmetric] flats_def .
  ultimately show ?thesis using implementsD(5) [OF i] D(2) A(1,2) unfolding reps_def [symmetric] by (intro exI [of _ b2]) simp
qed

subsection \<open>Self-trade prevention\<close>

lemma orders_rest:
  assumes "abook_ok any_price A" and "flat_ids (flats A) \<subseteq> of_nat ` {1..k}" and "k + n < 2 ^ 63"
    and "flats A (opposite s) = []" and "\<forall>f \<in> set (flats A s). fst f = 100000"
  shows "let A' = abs_orders actor s n (of_nat (Suc k)) A in abook_ok any_price A' \<and> flat_ids (flats A') \<subseteq> of_nat ` {1..k + n}
    \<and> flats A' = (flats A)(s := flats A s @ map (\<lambda>i. (100000, \<lparr>en_id = of_nat (Suc (k + i)), en_qty = 100, en_owner = actor\<rparr>)) [0..<n])
    \<and> ab_stp A' = ab_stp A \<and> traded_qty (ab_counters A') = traded_qty (ab_counters A)
    \<and> self_trades_prevented (ab_counters A') = self_trades_prevented (ab_counters A)"
  using assms
proof (induction n arbitrary: k A)
  case (Suc n)
  have k: "k < 2 ^ 63" using Suc.prems(3) by simp
  note F = limit_fresh [OF k Suc.prems(2)]
  let ?e = "\<lparr>en_id = of_nat (Suc k), en_qty = 100, en_owner = actor\<rparr>"
  obtain r xs B where b: "abs_limit any_price actor (of_nat (Suc k)) s 100000 100 A = (r, xs, B)" by (metis prod_cases3)
  have "\<forall>f \<in> set (flats A (opposite s)). \<not> crosses s 100000 (fst f)" using Suc.prems(4) by simp
  note R = limit_rests [OF Suc.prems(1) F(2) _ F(1) this b, simplified]
  have "enter s 100000 ?e (flats A s) = flats A s @ [(100000, ?e)]"
    using Suc.prems(5) by (simp add: enter_def takeWhile_eq_all_conv [THEN iffD2] dropWhile_eq_Nil_conv [THEN iffD2] before_def)
  then have B: "flats B = (flats A)(s := flats A s @ [(100000, ?e)])" using R(1) by simp
  have "flat_ids (flats B) \<subseteq> of_nat ` {1..Suc k}" using R(3) ids_step [OF Suc.prems(2)] by simp
  moreover have "Suc k + n < 2 ^ 63" "flats B (opposite s) = []" "\<forall>f \<in> set (flats B s). fst f = 100000"
    using Suc.prems(3-5) B by (auto simp: opposite_def split: if_splits)
  ultimately have IH: "let A' = abs_orders actor s n (of_nat (Suc (Suc k))) B in abook_ok any_price A' \<and> flat_ids (flats A') \<subseteq> of_nat ` {1..Suc k + n}
    \<and> flats A' = (flats B)(s := flats B s @ map (\<lambda>i. (100000, \<lparr>en_id = of_nat (Suc (Suc k + i)), en_qty = 100, en_owner = actor\<rparr>)) [0..<n])
    \<and> ab_stp A' = ab_stp B \<and> traded_qty (ab_counters A') = traded_qty (ab_counters B)
    \<and> self_trades_prevented (ab_counters A') = self_trades_prevented (ab_counters B)" using Suc.IH [OF R(2)] by blast
  have m: "map (\<lambda>i. (100000 :: Price, \<lparr>en_id = of_nat (Suc (k + i)), en_qty = 100, en_owner = actor\<rparr>)) [0..<Suc n]
      = (100000, ?e) # map (\<lambda>i. (100000, \<lparr>en_id = of_nat (Suc (Suc k + i)), en_qty = 100, en_owner = actor\<rparr>)) [0..<n]"
    by (simp add: upt_conv_Cons map_Suc_upt [symmetric] comp_def del: upt_Suc of_nat_Suc)
  let ?A = "abs_orders actor s n (of_nat (Suc (Suc k))) B"
  have e: "abs_orders actor s (Suc n) (of_nat (Suc k)) A = ?A" using b by (simp add: add.commute)
  have "flats ?A = (flats A)(s := flats A s @ map (\<lambda>i. (100000, \<lparr>en_id = of_nat (Suc (k + i)), en_qty = 100, en_owner = actor\<rparr>)) [0..<Suc n])"
    unfolding m using IH B by (simp add: Let_def fun_eq_iff del: of_nat_Suc)
  moreover have "ab_stp ?A = ab_stp A" "traded_qty (ab_counters ?A) = traded_qty (ab_counters A)"
    "self_trades_prevented (ab_counters ?A) = self_trades_prevented (ab_counters A)" using IH R(4,5) by (simp_all add: Let_def c_added_def)
  moreover have "abook_ok any_price ?A" "flat_ids (flats ?A) \<subseteq> of_nat ` {1..k + Suc n}"
    using IH unfolding Let_def add_Suc_right add_Suc by blast+
  ultimately show ?case unfolding Let_def e by blast
qed simp

lemma orders_take:
  assumes "abook_ok any_price A" and "flat_ids (flats A) \<subseteq> of_nat ` {1..k}" and "k + n < 2 ^ 63" and "n \<le> length (flats A Ask)"
    and "\<forall>f \<in> set (flats A Ask). fst f = 100000 \<and> en_qty (snd f) = 100 \<and> \<not> (stp_active (ab_stp A) actor \<and> en_owner (snd f) = actor)"
  shows "let A' = abs_orders actor Bid n (of_nat (Suc k)) A in flats A' = (flats A)(Ask := drop n (flats A Ask))
    \<and> traded_qty (ab_counters A') = traded_qty (ab_counters A) + of_nat (100 * n)
    \<and> self_trades_prevented (ab_counters A') = self_trades_prevented (ab_counters A)"
  using assms
proof (induction n arbitrary: k A)
  case (Suc n)
  obtain e fs where f: "flats A Ask = (100000, e) # fs" "en_qty e = 100" "\<not> (stp_active (ab_stp A) actor \<and> en_owner e = actor)"
    using Suc.prems(4,5) by (cases "flats A Ask") auto
  have k: "k < 2 ^ 63" using Suc.prems(3) by simp
  note F = limit_fresh [OF k Suc.prems(2)]
  obtain r xs B where b: "abs_limit any_price actor (of_nat (Suc k)) Bid 100000 (en_qty e) A = (r, xs, B)" by (metis prod_cases3)
  note T = limit_takes_head [OF Suc.prems(1) f(1) F(2,1) f(3) b]
  have "flat_ids (flats B) \<subseteq> of_nat ` {1..Suc k}" using T(3) Suc.prems(2) by (fastforce simp del: of_nat_Suc)
  moreover have "Suc k + n < 2 ^ 63" "n \<le> length (flats B Ask)"
    "\<forall>f \<in> set (flats B Ask). fst f = 100000 \<and> en_qty (snd f) = 100 \<and> \<not> (stp_active (ab_stp B) actor \<and> en_owner (snd f) = actor)"
    using Suc.prems(3-5) T(1,4) f(1) by auto
  ultimately have IH: "let A' = abs_orders actor Bid n (of_nat (Suc (Suc k))) B in flats A' = (flats B)(Ask := drop n (flats B Ask))
    \<and> traded_qty (ab_counters A') = traded_qty (ab_counters B) + of_nat (100 * n)
    \<and> self_trades_prevented (ab_counters A') = self_trades_prevented (ab_counters B)" using Suc.IH [OF T(2)] by blast
  have c: "traded_qty (ab_counters B) = traded_qty (ab_counters A) + 100" "self_trades_prevented (ab_counters B) = self_trades_prevented (ab_counters A)"
    using T(5) f(2) by (simp_all add: c_traded_def c_added_def)
  have "abs_orders actor Bid (Suc n) (of_nat (Suc k)) A = abs_orders actor Bid n (of_nat (Suc (Suc k))) B" using b f(2) by (simp add: add.commute)
  then show ?case using IH T(1) c f(1) by (simp add: Let_def fun_eq_iff del: of_nat_Suc)
qed simp

lemma sweep_queue:
  "\<forall>x \<in> set es. en_owner x = actor \<Longrightarrow> actor \<noteq> 0 \<Longrightarrow> q \<noteq> 0 \<Longrightarrow>
    \<exists>c'. fill_queue CancelResting oid actor p es q c = ([], q, False, [], c') \<and> traded_qty c' = traded_qty c
      \<and> self_trades_prevented c' = self_trades_prevented c + of_nat (length es)"
proof (induction es arbitrary: c)
  case (Cons x es)
  from Cons.IH [of "c_canceled (en_qty x) (c_prevented c)"] Cons.prems obtain c' where
    "fill_queue CancelResting oid actor p es q (c_canceled (en_qty x) (c_prevented c)) = ([], q, False, [], c')" "traded_qty c' = traded_qty c"
    "self_trades_prevented c' = self_trades_prevented c + 1 + of_nat (length es)" by (auto simp: c_canceled_def c_prevented_def)
  then show ?case using Cons.prems by (auto simp: stp_active_def word_gt_0)
qed simp

text \<open>An order whose every counterpart is its own, with the resting side canceled: all of them go, and the order rests.\<close>

lemma limit_sweeps:
  assumes ok: "abook_ok any_price A" and stp: "ab_stp A = CancelResting" "actor \<noteq> 0" and bid: "flats A Bid = []" and ask: "flats A Ask \<noteq> []"
    and own: "\<forall>f \<in> set (flats A Ask). fst f = 100000 \<and> en_owner (snd f) = actor" and v: "oid \<noteq> 0" "oid \<notin> flat_ids (flats A)"
    and l: "abs_limit any_price actor oid Bid 100000 100 A = (r, xs, A')"
  shows "flats A' Ask = []" and "flats A' Bid = [(100000, \<lparr>en_id = oid, en_qty = 100, en_owner = actor\<rparr>)]" and "abook_ok any_price A'"
    and "flat_ids (flats A') = {oid}" and "traded_qty (ab_counters A') = traded_qty (ab_counters A)"
    and "self_trades_prevented (ab_counters A') = self_trades_prevented (ab_counters A) + of_nat (length (flats A Ask))"
proof -
  obtain p e fs where f: "flats A Ask = (p, e) # fs" using ask by (cases "flats A Ask") auto
  obtain es ls where L: "ab_levels A Ask = (p, e # es) # ls" "fs = map (Pair p) es @ flat ls" by (rule first_level [OF ok f])
  have p: "p = 100000" using own f by simp
  have o1: "shape_ok A" "flats_ok any_price (flats A)" using ok by (simp_all add: abook_ok_flats)
  have "ls = []"
  proof (rule ccontr)
    assume "ls \<noteq> []"
    then obtain p' es' ls' where ls: "ls = (p', es') # ls'" by (cases ls) auto
    then obtain x where "x \<in> set es'" using abook_okD(3) [OF ok, of p' es' Ask] L(1) by (cases es') auto
    then have "(p', x) \<in> set (flats A Ask)" using f L(2) ls by simp
    then have "p' = 100000" using own by fastforce
    moreover have "before Ask p p'" using abook_okD(1) [OF ok, of Ask] L(1) ls by (simp add: ladder_sorted_def)
    ultimately show False using p by (simp add: before_def)
  qed
  note L = L [unfolded this]
  have len: "length (flats A Ask) = length (e # es)" using f L(2) by simp
  define c where "c = c_added 100 (ab_counters A)"
  have "\<forall>x \<in> set (e # es). en_owner x = actor" using own f L(2) by auto
  from sweep_queue [OF this stp(2), of 100 oid p c] obtain c' where
    q: "fill_queue CancelResting oid actor p (e # es) 100 c = ([], 100, False, [], c')" "traded_qty c' = traded_qty c"
      "self_trades_prevented c' = self_trades_prevented c + of_nat (length (e # es))" by auto
  define C where "C = A\<lparr>ab_levels := (ab_levels A)(Ask := []), ab_counters := c'\<rparr>"
  have "fill_levels CancelResting True oid actor Bid 100000 [(p, e # es)] 100 c = ([], 100, [], c')"
    using q(1) p by (simp add: crosses_def del: fill_queue.simps)
  then have m: "abs_match True oid actor Bid 100000 100 (abs_count (c_added 100) A) = (100, [], C)"
    by (simp add: abs_match_def abs_count_def opposite_def c_def [symmetric] stp(1) L(1) C_def del: fill_levels.simps)
  have "abs_find oid A = None" unfolding abs_find_None using v(2) by (simp add: flat_ids_flats)
  then have A': "A' = abs_rest oid Bid 100000 100 actor C" using v(1) m l by (auto simp: abs_limit_def abs_validate_def split: if_splits)
  have C: "flats C t = []" for t using bid by (cases t) (simp_all add: C_def flats_def)
  have shC: "shape_ok C" using o1(1) by (auto simp: shape_ok_def C_def ladder_sorted_def)
  let ?e = "\<lparr>en_id = oid, en_qty = 100, en_owner = actor\<rparr>"
  have F: "flats A' = (flats C)(Bid := enter Bid 100000 ?e (flats C Bid))"
    using rest_flats [of Bid C] shC unfolding A' by (auto simp: fun_eq_iff shape_ok_def)
  then show "flats A' Ask = []" "flats A' Bid = [(100000, ?e)]" using C by (simp_all add: enter_def)
  have C0: "flats C = (\<lambda>_. [])" using C by (simp add: fun_eq_iff)
  have "flats_ok any_price (flats C)" by (rule flats_okI) (simp_all add: C)
  note E = flats_ok_enter [OF this TrueI, of ?e Bid 100000]
  have z: "en_qty ?e \<noteq> 0" "en_id ?e \<notin> flat_ids (flats C)" by (simp_all add: C0 flat_ids_def)
  show "abook_ok any_price A'" using E(1) [OF z] F shape_ops(3) [OF shC] by (simp add: abook_ok_flats A')
  show "flat_ids (flats A') = {oid}" using E(2) [OF z] F by (simp add: C0 flat_ids_def)
  have k: "ab_counters A' = c'" by (simp add: A' abs_rest_def abs_set_queue_def C_def)
  show "traded_qty (ab_counters A') = traded_qty (ab_counters A)"
    "self_trades_prevented (ab_counters A') = self_trades_prevented (ab_counters A) + of_nat (length (flats A Ask))"
    unfolding k len using q(2,3) by (simp_all add: c_def c_added_def)
qed

lemma stp_start:
  assumes "lawful P l" and "pol_valid_price P l 100000" and "reps < 2 ^ 30"
    and start_def: "start = abook_new\<lparr>ab_stp := sp\<rparr>"
  shows "\<exists>b0 b. bench_book P l (reps * 2 + 16) = Some b0 \<and> bench_orders P actor Ask reps 1 (set_self_trade_policy sp b0) = Some b
    \<and> holds P (pol_valid_price P l) (1 + reps) b (abs_orders actor Ask reps 1 start)"
    and "let A = abs_orders actor Ask reps 1 start in abook_ok any_price A \<and> flat_ids (flats A) \<subseteq> of_nat ` {1..reps} \<and> flats A Bid = []
    \<and> flats A Ask = map (\<lambda>i. (100000, \<lparr>en_id = of_nat (Suc i), en_qty = 100, en_owner = actor\<rparr>)) [0..<reps]
    \<and> ab_stp A = sp \<and> traded_qty (ab_counters A) = 0 \<and> self_trades_prevented (ab_counters A) = 0"
proof -
  have "reps * 2 + 16 < 2 ^ 40" using assms(3) by simp
  then obtain b0 where b0: "bench_book P l (reps * 2 + 16) = Some b0" "holds P (pol_valid_price P l) 0 b0 abook_new" using book_holds [OF assms(1)] by blast
  have h: "holds P (pol_valid_price P l) 1 (set_self_trade_policy sp b0) start"
    using implements_step [of P "pol_valid_price P l" b0 abook_new "PolicyOp sp"] b0(2) by (auto simp: holds_def start_def)
  have "1 + reps < 2 ^ 32" using assms(3) by simp
  from orders_follow [OF h this assms(2)] b0(1)
  show "\<exists>b0 b. bench_book P l (reps * 2 + 16) = Some b0 \<and> bench_orders P actor Ask reps 1 (set_self_trade_policy sp b0) = Some b
    \<and> holds P (pol_valid_price P l) (1 + reps) b (abs_orders actor Ask reps 1 start)" by blast
  have f: "flats start = (\<lambda>_. [])" by (simp add: flats_def start_def abook_new_def fun_eq_iff)
  have "abook_ok any_price start" "flat_ids (flats start) \<subseteq> of_nat ` {1..0}" "0 + reps < 2 ^ 63" "flats start (opposite Ask) = []"
    "\<forall>f \<in> set (flats start Ask). fst f = 100000"
    using assms(3) f by (simp_all add: abook_ok_def start_def abook_new_def all_entries_def side_entries_def flat_ids_def ladder_sorted_def)
  note O = orders_rest [OF this, of actor]
  define Z where "Z = abs_orders actor Ask reps 1 start"
  have one: "(of_nat (Suc 0) :: OrderId) = 1" by simp
  have Z: "abook_ok any_price Z" "flat_ids (flats Z) \<subseteq> of_nat ` {1..0 + reps}" "ab_stp Z = ab_stp start"
    "flats Z = (\<lambda>_. [])(Ask := [] @ map (\<lambda>i. (100000, \<lparr>en_id = of_nat (Suc (0 + i)), en_qty = 100, en_owner = actor\<rparr>)) [0..<reps])"
    "traded_qty (ab_counters Z) = traded_qty (ab_counters start)" "self_trades_prevented (ab_counters Z) = self_trades_prevented (ab_counters start)"
    using O unfolding Let_def one f Z_def [symmetric] by blast+
  show "let A = abs_orders actor Ask reps 1 start in abook_ok any_price A \<and> flat_ids (flats A) \<subseteq> of_nat ` {1..reps} \<and> flats A Bid = []
    \<and> flats A Ask = map (\<lambda>i. (100000, \<lparr>en_id = of_nat (Suc i), en_qty = 100, en_owner = actor\<rparr>)) [0..<reps]
    \<and> ab_stp A = sp \<and> traded_qty (ab_counters A) = 0 \<and> self_trades_prevented (ab_counters A) = 0"
    unfolding Z_def [symmetric] Let_def using Z(1,2,3,5,6) by (simp add: Z(4) start_def abook_new_def counters_zero_def del: of_nat_Suc)
qed

lemma stp_finish:
  assumes "lawful P l" and "pol_valid_price P l 100000" and "unat ops < 2 ^ 30" and "n \<le> unat ops div 2 + 1"
    and reps_def: "reps = unat ops div 2 + 1"
    and A_def: "A = abs_orders (va_aggressor v) Bid n (of_nat (Suc reps)) (abs_orders (va_resting v) Ask reps 1 (abook_new\<lparr>ab_stp := va_policy v\<rparr>))"
  shows "\<exists>b. stp_rounds P l ops n v = Some b \<and> (\<forall>s. resting P s b = Some (flats A s)) \<and> bk_counters b = ab_counters A"
proof -
  have "unat (ops div 2) = unat ops div 2" by (simp add: unat_div)
  then have r: "unat (ops div 2 + 1) = reps" using assms(3) by (simp add: reps_def unat_word_ariths)
  have n: "reps < 2 ^ 30" "(1 + reps) + n < 2 ^ 32" using assms(3,4) by (simp_all add: reps_def)
  obtain b0 b1 where b: "bench_book P l (reps * 2 + 16) = Some b0" "bench_orders P (va_resting v) Ask reps 1 (set_self_trade_policy (va_policy v) b0) = Some b1"
    "holds P (pol_valid_price P l) (1 + reps) b1 (abs_orders (va_resting v) Ask reps 1 (abook_new\<lparr>ab_stp := va_policy v\<rparr>))"
    using stp_start(1) [OF assms(1,2) n(1) refl] by blast
  from orders_follow [OF b(3) n(2) assms(2), of "va_aggressor v" Bid "of_nat (Suc reps)"] obtain b2 where
    b2: "bench_orders P (va_aggressor v) Bid n (of_nat (Suc reps)) b1 = Some b2" "holds P (pol_valid_price P l) (1 + reps + n) b2 A"
    unfolding A_def by blast
  have o1: "of_nat reps + 1 = 1 + (of_nat reps :: OrderId)" by (rule add.commute)
  have i: "implements P (pol_valid_price P l) b2 A" using b2(2) by (simp add: holds_def)
  have "stp_rounds P l ops n v = Some b2" using b(1,2) b2(1) by (simp add: stp_rounds_def Let_def r o1)
  then show ?thesis using implementsD(3,5) [OF i] by (auto simp: flats_def)
qed

text \<open>What the self-trade rows of the benchmark measure.  With prevention off, or on between different participants,
  \<open>n\<close> timed orders execute 100 each against \<open>n\<close> of the resting asks.  In the row "hit" the first timed order cancels every
  resting ask of the scenario, and each timed order, the first included, just rests: nothing ever executes, and from the second on
  no prevention happens.\<close>

theorem stp_rows_measured:
  assumes "lawful P l" and "pol_valid_price P l 100000" and "unat ops < 2 ^ 30" and "0 < n" and "n \<le> unat ops div 2 + 1"
  shows "(\<forall>i < 2. \<exists>b asks. stp_rounds P l ops n (variants ! i) = Some b \<and> resting P Bid b = Some [] \<and> resting P Ask b = Some asks
      \<and> length asks = unat ops div 2 + 1 - n \<and> traded_qty (bk_counters b) = of_nat (100 * n) \<and> self_trades_prevented (bk_counters b) = 0)
    \<and> (\<exists>b bids. stp_rounds P l ops n (variants ! 2) = Some b \<and> resting P Ask b = Some [] \<and> resting P Bid b = Some bids
      \<and> length bids = n \<and> traded_qty (bk_counters b) = 0 \<and> self_trades_prevented (bk_counters b) = of_nat (unat ops div 2 + 1))"
proof -
  define reps where "reps = unat ops div 2 + 1"
  have r: "reps < 2 ^ 30" "reps + n < 2 ^ 63" using assms(3,5) by (simp_all add: reps_def)
  have miss: "\<exists>b asks. stp_rounds P l ops n v = Some b \<and> resting P Bid b = Some [] \<and> resting P Ask b = Some asks
      \<and> length asks = reps - n \<and> traded_qty (bk_counters b) = of_nat (100 * n) \<and> self_trades_prevented (bk_counters b) = 0"
    if v: "\<not> (stp_active (va_policy v) (va_aggressor v) \<and> va_resting v = va_aggressor v)" for v
  proof -
    define A where "A = abs_orders (va_resting v) Ask reps 1 (abook_new\<lparr>ab_stp := va_policy v\<rparr>)"
    have A: "abook_ok any_price A" "flat_ids (flats A) \<subseteq> of_nat ` {1..reps}" "flats A Bid = []"
      "flats A Ask = map (\<lambda>i. (100000, \<lparr>en_id = of_nat (Suc i), en_qty = 100, en_owner = va_resting v\<rparr>)) [0..<reps]"
      "ab_stp A = va_policy v" "traded_qty (ab_counters A) = 0" "self_trades_prevented (ab_counters A) = 0"
      using stp_start(2) [OF assms(1,2) r(1) refl, where actor = "va_resting v" and sp = "va_policy v"] unfolding A_def Let_def by blast+
    have "n \<le> length (flats A Ask)" "\<forall>f \<in> set (flats A Ask). fst f = 100000 \<and> en_qty (snd f) = 100
      \<and> \<not> (stp_active (ab_stp A) (va_aggressor v) \<and> en_owner (snd f) = va_aggressor v)" using v assms(5) by (auto simp: A(4,5) reps_def)
    from orders_take [OF A(1,2) r(2) this] stp_finish [OF assms(1-3,5) reps_def refl, of v] show ?thesis
      unfolding A_def [symmetric] reps_def [symmetric] Let_def using A(3,4,6,7) by (auto simp del: of_nat_Suc)
  qed
  define v where "v = variants ! 2"
  define A where "A = abs_orders (va_resting v) Ask reps 1 (abook_new\<lparr>ab_stp := va_policy v\<rparr>)"
  have v: "va_policy v = CancelResting" "va_resting v = 1" "va_aggressor v = 1" by (simp_all add: v_def variants_def)
  have A: "abook_ok any_price A" "flat_ids (flats A) \<subseteq> of_nat ` {1..reps}" "flats A Bid = []"
    "flats A Ask = map (\<lambda>i. (100000, \<lparr>en_id = of_nat (Suc i), en_qty = 100, en_owner = 1\<rparr>)) [0..<reps]"
    "ab_stp A = CancelResting" "traded_qty (ab_counters A) = 0" "self_trades_prevented (ab_counters A) = 0"
    using stp_start(2) [OF assms(1,2) r(1) refl, where actor = "va_resting v" and sp = "va_policy v"] unfolding A_def Let_def v by blast+
  obtain m where m: "n = Suc m" using assms(4) by (cases n) auto
  have "reps < 2 ^ 63" using r(1) by simp
  note F = limit_fresh [OF this A(2)]
  obtain x xs B where b: "abs_limit any_price 1 (of_nat (Suc reps)) Bid 100000 100 A = (x, xs, B)" by (metis prod_cases3)
  have ne: "flats A Ask \<noteq> []" "\<forall>f \<in> set (flats A Ask). fst f = 100000 \<and> en_owner (snd f) = 1" "(1 :: ParticipantId) \<noteq> 0"
    by (auto simp: A(4) reps_def)
  note S = limit_sweeps [OF A(1,5) ne(3) A(3) ne(1,2) F(2,1) b]
  have "flat_ids (flats B) \<subseteq> of_nat ` {1..Suc reps}" using S(4) by (auto simp del: of_nat_Suc)
  moreover have "Suc reps + m < 2 ^ 63" "flats B (opposite Bid) = []" "\<forall>f \<in> set (flats B Bid). fst f = 100000"
    using r(2) m S(1,2) by (simp_all add: opposite_def)
  ultimately have R: "let A' = abs_orders 1 Bid m (of_nat (Suc (Suc reps))) B in abook_ok any_price A' \<and> flat_ids (flats A') \<subseteq> of_nat ` {1..Suc reps + m}
    \<and> flats A' = (flats B)(Bid := flats B Bid @ map (\<lambda>i. (100000, \<lparr>en_id = of_nat (Suc (Suc reps + i)), en_qty = 100, en_owner = 1\<rparr>)) [0..<m])
    \<and> ab_stp A' = ab_stp B \<and> traded_qty (ab_counters A') = traded_qty (ab_counters B)
    \<and> self_trades_prevented (ab_counters A') = self_trades_prevented (ab_counters B)" using orders_rest [OF S(3)] by blast
  define D where "D = abs_orders 1 Bid n (of_nat (Suc reps)) A"
  have D: "D = abs_orders 1 Bid m (of_nat (Suc (Suc reps))) B" using b unfolding D_def m by (simp add: add.commute)
  have d: "flats D Ask = []" "length (flats D Bid) = n" "traded_qty (ab_counters D) = 0" "self_trades_prevented (ab_counters D) = of_nat reps"
    using R S(1,2,5,6) A(4,6,7) m unfolding D [symmetric] Let_def by (simp_all del: of_nat_Suc)
  have "\<exists>b bids. stp_rounds P l ops n v = Some b \<and> resting P Ask b = Some [] \<and> resting P Bid b = Some bids
      \<and> length bids = n \<and> traded_qty (bk_counters b) = 0 \<and> self_trades_prevented (bk_counters b) = of_nat reps"
    using stp_finish [OF assms(1-3,5) reps_def refl, of v] d unfolding reps_def [symmetric] v A_def [symmetric, unfolded v] D_def [symmetric] by auto
  moreover have "\<not> (stp_active (va_policy (variants ! i)) (va_aggressor (variants ! i)) \<and> va_resting (variants ! i) = va_aggressor (variants ! i))" if "i < 2" for i
    using that by (auto simp: variants_def less_2_cases_iff stp_active_def)
  ultimately show ?thesis using miss unfolding v_def reps_def by blast
qed

theorem stp_rows_measured_witness:
  "\<exists>b bids. stp_rounds map_open_policy ml_new 1000000 500001 (variants ! 2) = Some b \<and> resting map_open_policy Bid b = Some bids
    \<and> length bids = 500001 \<and> traded_qty (bk_counters b) = 0"
proof -
  have n: "unat (1000000 :: u64) < 2 ^ 30" "(0 :: nat) < 500001" "(500001 :: nat) \<le> unat (1000000 :: u64) div 2 + 1" by simp_all
  have v: "pol_valid_price map_open_policy ml_new 100000" by (simp add: policy_defs ml_valid_price_def)
  from stp_rows_measured [OF lawful_policies(2) v n] show ?thesis by blast
qed

end
