(* ===== verification/Spec2Isabelle.thy ===== *)
theory Spec2Isabelle
  imports BookProperties ReplayProperties ProtocolProperties SpscProperties EngineProperties EnginePipeline SandboxProperties Fuzz GenRun StatsRun ClientLoad BenchProperties
begin

text \<open>
  pricetime is a C++ library around a limit order book: the book itself with exchangeable ladders and
  id maps, the reconstruction of books from NASDAQ ITCH 5.0 files, a matching engine that serves a
  binary client protocol and publishes an ITCH feed over MoldUDP64, and tools on top.  The theories model the
  code under \<^verbatim>\<open>include/pricetime/\<close> (named without this prefix below), the programs under \<^verbatim>\<open>tools/\<close>, the harness
  under \<^verbatim>\<open>fuzz/\<close> and the scenarios of \<^verbatim>\<open>bench/bench_book.cpp\<close>.

  \<^bold>\<open>The parts and how they interact\<close>

  \<^item> \<^verbatim>\<open>book.hpp\<close> is the centre: \<^verbatim>\<open>OrderBook\<close> keeps order nodes in the arena of
    \<^verbatim>\<open>order_pool.hpp\<close>, links them into the levels of \<^verbatim>\<open>level.hpp\<close>, stores the levels in a ladder
    (\<^verbatim>\<open>ladder_map.hpp\<close>, \<^verbatim>\<open>ladder_pooled.hpp\<close> or \<^verbatim>\<open>ladder_dense.hpp\<close>) and finds orders by id through
    \<^verbatim>\<open>id_map.hpp\<close>.  \<^verbatim>\<open>op.hpp\<close> drives it with operations as values.
  \<^item> \<^verbatim>\<open>multi_book.hpp\<close> holds one book per symbol and an owner index; \<^verbatim>\<open>itch_replay.hpp\<close> applies the messages that
    \<^verbatim>\<open>itch_reader.hpp\<close> or \<^verbatim>\<open>itch_stream.hpp\<close> cut out of a file and \<^verbatim>\<open>itch.hpp\<close> decodes.
    \<^verbatim>\<open>itch_writer.hpp\<close> is the inverse.
  \<^item> \<^verbatim>\<open>engine.hpp\<close> connects four threads by the rings of \<^verbatim>\<open>spsc_queue.hpp\<close>: bytes of
    \<^verbatim>\<open>wire.hpp\<close> in, matching, responses out, and ITCH messages into the packets of \<^verbatim>\<open>moldudp64.hpp\<close>.
  \<^item> \<^verbatim>\<open>tools/mm_sandbox.cpp\<close> replays a file beside the quoter of \<^verbatim>\<open>market_maker.hpp\<close>, whose
    place in the queue \<^verbatim>\<open>queue_position.hpp\<close> follows.
  \<^item> \<^verbatim>\<open>tools/gen_itch.cpp\<close> writes a synthetic file, \<^verbatim>\<open>tools/replay_itch.cpp\<close> replays and checks a file,
    \<^verbatim>\<open>tools/book_stats.cpp\<close> collects the statistics of one; \<^verbatim>\<open>tools/engine_client.cpp\<close> measures an engine over the loops of
    \<^verbatim>\<open>net.hpp\<close>; \<^verbatim>\<open>fuzz/\<close> feeds arbitrary bytes to readers, decoders and replay and checks the books.

  \<^bold>\<open>The theories\<close>

  \<^item> \<open>Prelude\<close>, \<open>Types\<close>, \<open>Hash\<close>, \<open>Bytes\<close>: shared lemmas, \<^verbatim>\<open>types.hpp\<close>, \<^verbatim>\<open>hash.hpp\<close>, byte fields.
    A price is an \<^typ>\<open>int\<close> (the book only compares prices, and every cast is written out; \<open>MarketMaker\<close> checks the
    64-bit range of every result), quantities, ids and counters are words of their width, an \<^verbatim>\<open>Order*\<close> is
    an address of an explicit heap and a \<^verbatim>\<open>Level*\<close> the side and price it is stored under.
  \<^item> \<open>Level\<close>, \<open>OrderPool\<close>: the intrusive list against the list of its nodes, the arena against its free list.
  \<^item> \<open>Ladder\<close>, \<open>IdMap\<close>: the contracts of the two policies as locales, with the state a ladder is in while a level is being
    emptied or filled.  \<open>LadderMap\<close>, \<open>LadderPooled\<close>, \<open>LadderDense\<close> and \<open>OpenAddressMap\<close> model the implementations and
    interpret the locales on them; the open-addressing loops have proofs that they end.
  \<^item> \<open>Book\<close>: every method of \<^verbatim>\<open>OrderBook\<close> over the two policies; \<open>AbsBook\<close>: the specification without pointers;
    \<open>AbsMatching\<close>, \<open>BookMatching\<close>, \<open>BookRefinement\<close>: the refinement, method by method; \<open>BookRun\<close>, \<open>BookObserve\<close>: runs of
    calls, the six instances, what a caller sees; \<open>MarketRules\<close>, \<open>FlatBook\<close>: the rules of the market on the specification;
    \<open>BookProperties\<close>: the claims.
  \<^item> \<open>Itch\<close>, \<open>ItchWriter\<close>, \<open>ItchReader\<close>, \<open>ItchStream\<close>, \<open>ItchChunks\<close>, \<open>ItchProperties\<close>: the ITCH layer.  A read outside a message and a write past
    the stream's buffer are \<^term>\<open>None\<close>; the handler of a walk is a state transformer that may fail.
  \<^item> \<open>Op\<close>, \<open>MultiBook\<close>, \<open>ItchReplay\<close>, \<open>ReplayRefinement\<close>, \<open>ReplayProperties\<close>: operations as values, books per symbol, the replay with
    its statistics and observer calls, and its specification on partial maps and specification books.
  \<^item> \<open>Wire\<close>, \<open>Mold\<close>, \<open>ProtocolProperties\<close>: the client protocol, the packets and the gap tracker.
  \<^item> \<open>Spsc\<close>, \<open>SpscProperties\<close>: the ring, once as functions and once as the atomic steps of the two threads over the modification orders
    of the two indices: a load may return any value not older than the last one seen.
  \<^item> \<open>Engine\<close>, \<open>EngineSpec\<close>, \<open>EngineFeed\<close>, \<open>EngineRun\<close>, \<open>EngineIo\<close>, \<open>EngineShutdown\<close>, \<open>EngineProperties\<close>: the request handler and the
    four loops, the specification of a session, a receiver that rebuilds the book from the packets, the framing on both sockets, and the
    loop with its flag as a step relation.  \<open>EnginePipeline\<close>: the four threads together, over three bounded queues.
  \<^item> \<open>QueuePosition\<close>, \<open>MarketMaker\<close>, \<open>Sandbox\<close>, \<open>SandboxFeed\<close>, \<open>SandboxRun\<close>, \<open>SandboxTotal\<close>, \<open>SandboxProperties\<close>: the sandbox, what a message does to
    the queue of a price, what a step keeps, and that it stays inside 64 bits; \<open>SandboxQueue\<close>: the orders ahead of a quote, from the messages.
  \<^item> \<open>Fuzz\<close>: \<^verbatim>\<open>fuzz/fuzz_itch.cpp\<close> and its header.  \<open>ReplayCheck\<close>: \<^verbatim>\<open>tools/replay_itch.cpp\<close> with its checks, its exit code and its
    intraday profile.  \<open>GenItch\<close>, \<open>GenFeed\<close>, \<open>GenRun\<close>: \<^verbatim>\<open>tools/gen_itch.cpp\<close> and \<^verbatim>\<open>parse_symbols\<close> of \<^verbatim>\<open>tools/cli.hpp\<close>, the feed it
    writes as events, and the run of the replay tool on it.  \<open>BookStats\<close>, \<open>StatsRun\<close>: \<^verbatim>\<open>tools/book_stats.cpp\<close>, its observer, its
    sampling and the counts of its report.
  \<^item> \<open>Net\<close>: the loops of \<^verbatim>\<open>TcpStream\<close> around \<^verbatim>\<open>send\<close> and \<^verbatim>\<open>recv\<close>, whose answers are an input.  \<open>Client\<close>, \<open>ClientLoad\<close>: the latency and the
    throughput run of \<^verbatim>\<open>tools/engine_client.cpp\<close>, and the engine as the peer of the former.
  \<^item> \<open>Bench\<close>, \<open>BenchRun\<close>, \<open>BenchProperties\<close>: the scenarios of \<^verbatim>\<open>bench/bench_book.cpp\<close>, the same loops on the specification, and what they
    leave.  \<open>Swaps\<close>: the lemma on removal by swapping that this and the generator share.

  \<^bold>\<open>What the groups of claims show\<close>

  \<^item> The book: every run of calls under every lawful policy is the run of the specification (answers, executions, hash, depth, counters), so
    all six instances agree; from the specification follow price-time priority, conservation of quantity, that a book is never
    crossed, that nobody trades with himself, all-or-nothing, that a rejected call changes nothing, and well-formedness.
  \<^item> ITCH: decoders stay inside their messages, writer and reader are inverse, the walk hands over exactly the complete frames
    of any input, chunks do not matter for messages that fit; the replay of any bytes is its specification, its statistics are those of the books.
  \<^item> Protocol and rings: round trips, gap accounting, the ring as bounded queue, its interleavings and wait-freedom.
  \<^item> Engine: a session answers as specified; its packets, received and replayed, give the engine's own book if prices fit 32 bits; framing ignores how bytes are cut;
    all interleavings of the four threads follow the specification of the session, and none of them is a deadlock.
  \<^item> Sandbox: a quote joins behind all orders at its price and its queue position is exact from then on, the quotes are where the rule
    puts them, limits and accounts hold, a run over a file the chunked reader takes without harm does not fail.
  \<^item> Tools: the replay tool reports exactly the crossed books, what the generator writes passes it, the statistics are those of the
    replay, the fuzz target never aborts, and the client and the engine complete a latency run however the sockets cut it;
    the ladder scenarios of the benchmark agree on all policies, and what its self-trade rows measure.

  \<^bold>\<open>Bounds and fuel\<close>

  A run of a book has fewer than \<open>2 ^ 32\<close> calls, which the 32-bit order count of a level and the pool need; the open-addressing maps
  hold fewer than \<open>2 ^ 40\<close> entries, where their doubling cannot overflow; an input has fewer than \<open>2 ^ 30\<close> bytes or messages.  Walking a
  level takes its order count as fuel, which \<open>level_nodes_eq\<close> shows to be enough; the probing, shifting and rounding loops are partial
  functions whose results are proved to exist; a loop over a socket takes the answers of the operating system as its input, and has
  \<^term>\<open>None\<close> for a call that finds none left, with the number that is enough as a lemma (\<open>send_all_ends\<close>, \<open>recv_all_ends\<close>); all other loops are recursion with a measure.  The bounds of \<open>sandbox_runs\<close> keep
  cash inside 64 bits.

  \<^bold>\<open>Not modelled\<close>

  The calls of the operating system (opening, connecting, accepting, options and UDP in \<^verbatim>\<open>net.hpp\<close>; \<^verbatim>\<open>mmap_file.hpp\<close>; \<^verbatim>\<open>thread_util.hpp\<close>) and
  with them start, stop and thread placement of the engine; everything computed in floating point: the two statistics of
  \<^verbatim>\<open>market_maker.hpp\<close> that average doubles, the means, ratios and percentiles of \<^verbatim>\<open>book_stats.cpp\<close> and of the client; parsing of
  arguments, tables, CSV files and other output of the tools, which is all that \<^verbatim>\<open>tools/engine_server.cpp\<close> adds to the engine;
  the clock, the samples and the thread placement of the benchmark.  \<^verbatim>\<open>std::unordered_map\<close> and \<^verbatim>\<open>std::map\<close> are association lists: the order of the former, where code iterates over it, is the order
  of insertion here.  Memory is not reclaimed and allocation does not fail.

  \<^bold>\<open>Findings\<close>

  The engine's loops can lose the last item at shutdown (\<open>shutdown_can_lose_the_last\<close>); the chunked reader writes past its buffer on long
  messages of unknown types (\<open>stream_overruns_buffer\<close>).  The feed truncates prices of more than 32 bits, which the engine accepts
  (\<open>feed_truncates_prices\<close>).  The client accepts \<^verbatim>\<open>--spin\<close> and never turns busy polling on.  The engine reduces
  orders in place although the documents say it does not; \<^verbatim>\<open>removes\<close> of the day statistics leaves out replaced orders although its
  comment counts them; a file generated for a ticker given twice can show a crossed book, which \<open>generated_file_clean\<close> excludes
  by different tickers.  The self-trade row "hit" of the benchmark times passive adds (\<open>stp_rows_measured\<close>), and its inputs depend on the
  order in which the compiler evaluates arguments, which \<open>benchmark_ladders_agree\<close> therefore has as a parameter.
\<close>

end
